(* ===== verification/Prelude.thy ===== *)
theory Prelude
  imports "HOL-Library.Word"
begin

text \<open>
  Shared material of the development: the exceptions the C++ code throws, the functions of
  the C++ standard library that the headers call (\<open>std::bit_width\<close>, \<open>std::countr_zero\<close>,
  \<open>std::popcount\<close>, \<open>std::find_if\<close>), the lemma collections the component theories
  extend, and the generic facts on lists and bits that several of them use.
\<close>

unbundle bit_operations_syntax

named_theorems bit_specs \<open>bit-level characterisations of the storage operations\<close>
named_theorems abs_specs \<open>effect of the storage operations on the abstract sequence\<close>

section \<open>Exceptions\<close>

text \<open>
  The exception classes of \<^verbatim>\<open><stdexcept>\<close> that the modelled code throws. A function that may throw
  returns \<open>cxx_error + 'a\<close>.
\<close>

datatype cxx_error = Out_Of_Range | Invalid_Argument | Logic_Error | Runtime_Error | Bad_Variant_Access

type_synonym 'a result = "cxx_error + 'a"

text \<open>A loop over a range whose body may throw, or return from the enclosing function (\<open>Inl\<close>).\<close>

fun fold_result :: "('s \<Rightarrow> 'a \<Rightarrow> 'e + 's) \<Rightarrow> 's \<Rightarrow> 'a list \<Rightarrow> 'e + 's" where
  "fold_result f s [] = Inr s"
| "fold_result f s (x # xs) = (case f s x of Inl e \<Rightarrow> Inl e | Inr s \<Rightarrow> fold_result f s xs)"

lemma fold_result_invariant:
  assumes "\<And>s x. x \<in> set xs \<Longrightarrow> P s \<Longrightarrow> \<exists>s'. f s x = Inr s' \<and> P s'" and "P s"
  shows "\<exists>s'. fold_result f s xs = Inr s' \<and> P s'"
  using assms
proof (induction xs arbitrary: s)
  case (Cons x xs)
  then obtain s' where "f s x = Inr s'" "P s'" by (meson list.set_intros(1))
  with Cons.IH [of s'] Cons.prems show ?case by simp
qed simp

lemma fold_result_foldl:
  assumes "\<And>s x. x \<in> set xs \<Longrightarrow> P s \<Longrightarrow> f s x = Inr (g s x) \<and> P (g s x)" and "P s"
  shows "fold_result f s xs = Inr (foldl g s xs)"
  using assms by (induction xs arbitrary: s) auto

section \<open>Bit functions of the standard library\<close>

text \<open>\<^verbatim>\<open>std::bit_width\<close>: the number of bits needed to write a number, 0 for 0.\<close>

fun bit_width :: "nat \<Rightarrow> nat" where
  "bit_width n = (if n = 0 then 0 else Suc (bit_width (n div 2)))"

declare bit_width.simps [simp del]

text \<open>\<^verbatim>\<open>std::popcount\<close> and \<^verbatim>\<open>std::countr_zero\<close> on a block of \<open>LENGTH('a)\<close> bits.\<close>

definition popcount :: "'a::len word \<Rightarrow> nat" where
  "popcount w = length (filter (bit w) [0..<LENGTH('a)])"

definition countr_zero :: "'a::len word \<Rightarrow> nat" where
  "countr_zero w = (case List.find (bit w) [0..<LENGTH('a)] of None \<Rightarrow> LENGTH('a) | Some i \<Rightarrow> i)"

text \<open>\<^verbatim>\<open>std::countr_zero\<close> on a compile-time constant; the result for 0 is never used.\<close>

fun countr_zero_nat :: "nat \<Rightarrow> nat" where
  "countr_zero_nat n = (if n = 0 \<or> odd n then 0 else Suc (countr_zero_nat (n div 2)))"

declare countr_zero_nat.simps [simp del]

text \<open>\<^verbatim>\<open>std::has_single_bit\<close> on a number.\<close>

definition has_single_bit :: "nat \<Rightarrow> bool" where
  "has_single_bit n \<longleftrightarrow> 0 < n \<and> n = 2 ^ (bit_width n - 1)"

section \<open>Facts on \<open>bit_width\<close>\<close>

lemma bit_width_0 [simp]: "bit_width 0 = 0"
  by (simp add: bit_width.simps)

lemma bit_width_pos: "0 < n \<Longrightarrow> 0 < bit_width n"
  by (simp add: bit_width.simps [of n])

lemma bit_width_le_iff: "bit_width n \<le> k \<longleftrightarrow> n < 2 ^ k"
proof (induction n arbitrary: k rule: bit_width.induct)
  case (1 n)
  show ?case
  proof (cases "n = 0")
    case False
    show ?thesis
    proof (cases k)
      case 0
      with False show ?thesis by (simp add: bit_width.simps [of n])
    next
      case (Suc j)
      have "bit_width n \<le> k \<longleftrightarrow> bit_width (n div 2) \<le> j"
        using False Suc by (simp add: bit_width.simps [of n])
      also have "\<dots> \<longleftrightarrow> n div 2 < 2 ^ j"
        using 1 False by simp
      also have "\<dots> \<longleftrightarrow> n < 2 ^ k"
        using Suc by auto
      finally show ?thesis .
    qed
  qed simp
qed

lemma less_two_power_bit_width: "n < 2 ^ bit_width n"
  using bit_width_le_iff [of n "bit_width n"] by simp

lemma two_power_bit_width_le:
  assumes "0 < n" shows "2 ^ (bit_width n - 1) \<le> n"
proof (rule ccontr)
  assume "\<not> 2 ^ (bit_width n - 1) \<le> n"
  then have "bit_width n \<le> bit_width n - 1"
    by (simp only: bit_width_le_iff not_le)
  with bit_width_pos [OF assms] show False by simp
qed

lemma bit_width_eqI:
  assumes "2 ^ k \<le> n" and "n < 2 ^ Suc k"
  shows "bit_width n = Suc k"
proof (rule antisym)
  show "bit_width n \<le> Suc k" using assms(2) by (simp only: bit_width_le_iff)
  have "\<not> bit_width n \<le> k" using assms(1) by (simp only: bit_width_le_iff not_less)
  then show "Suc k \<le> bit_width n" by simp
qed

lemma bit_width_power [simp]: "bit_width (2 ^ k) = Suc k"
  by (rule bit_width_eqI) auto

lemma has_single_bit_power: "has_single_bit n \<longleftrightarrow> (\<exists>k. n = 2 ^ k)"
  by (auto simp: has_single_bit_def)

section \<open>Facts on numbers and bits\<close>

lemma countr_zero_nat_power [simp]: "countr_zero_nat (2 ^ k) = k"
  by (induction k) (simp_all add: countr_zero_nat.simps [of "2 ^ _"] countr_zero_nat.simps [of "2 * 2 ^ _"]
      countr_zero_nat.simps [of "Suc 0"])

lemma drop_bit_countr_zero: "has_single_bit d \<Longrightarrow> drop_bit (countr_zero_nat d) (n::nat) = n div d"
  by (auto simp: has_single_bit_power drop_bit_eq_div)

text \<open>Masking with \<open>d - 1\<close> and shifting by the exponent are \<open>mod\<close> and \<open>div\<close> when \<open>d\<close> is a power of two.\<close>

lemma and_power_minus_1: "(n::nat) AND (2 ^ k - 1) = n mod 2 ^ k"
  by (metis mask_nat_def take_bit_eq_mask take_bit_nat_def)

lemma and_mask_pow2:
  assumes "has_single_bit d" shows "(n::nat) AND (d - 1) = n mod d"
  using assms by (auto simp: has_single_bit_power simp del: One_nat_def intro: and_power_minus_1)

lemma bit_and_push_1: "bit (push_bit n 1 :: 'a::len word) k \<longleftrightarrow> k = n \<and> n < LENGTH('a)"
  by (auto simp: bit_simps)

lemma countr_zero_bound: "w \<noteq> 0 \<Longrightarrow> countr_zero (w::'a::len word) < LENGTH('a)"
  and countr_zero_bit: "w \<noteq> 0 \<Longrightarrow> bit (w::'a::len word) (countr_zero w)"
  and countr_zero_least: "k < countr_zero (w::'a::len word) \<Longrightarrow> \<not> bit w k"
proof -
  have *: "\<exists>k < LENGTH('a). bit w k" if "w \<noteq> 0"
    using that by (metis bit_word_eqI bit_0_eq bot_apply bot_bool_def)
  show "countr_zero w < LENGTH('a)" if "w \<noteq> 0"
    using * [OF that] by (auto simp: countr_zero_def find_None_iff find_Some_iff split: option.splits)
  show "bit w (countr_zero w)" if "w \<noteq> 0"
    using * [OF that] by (auto simp: countr_zero_def find_None_iff find_Some_iff split: option.splits)
  show "\<not> bit w k" if "k < countr_zero w"
  proof (cases "k < LENGTH('a)")
    case True
    with that show ?thesis
      by (auto simp: countr_zero_def find_None_iff find_Some_iff split: option.splits)
  next
    case False
    then show ?thesis using bit_imp_le_length [of w k] by auto
  qed
qed

lemma countr_zero_0 [simp]: "countr_zero (0::'a::len word) = LENGTH('a)"
  by (auto simp: countr_zero_def find_Some_iff split: option.splits)

lemma popcount_card: "popcount (w::'a::len word) = card {k. k < LENGTH('a) \<and> bit w k}"
proof -
  have "distinct (filter (bit w) [0..<LENGTH('a)])" by simp
  then have "popcount w = card (set (filter (bit w) [0..<LENGTH('a)]))"
    by (simp only: popcount_def distinct_card)
  also have "set (filter (bit w) [0..<LENGTH('a)]) = {k. k < LENGTH('a) \<and> bit w k}"
    by auto
  finally show ?thesis .
qed

lemma take_bit_word_iff: "take_bit n w = w \<longleftrightarrow> unat (w::'a::len word) < 2 ^ n"
  by (simp add: word_unat_eq_iff unsigned_take_bit_eq take_bit_nat_eq_self_iff)

section \<open>Facts on lists\<close>

lemma nth_list_update_if: "i < length xs \<Longrightarrow> xs[j := x] ! i = (if i = j then x else xs ! i)"
  by (auto simp: nth_list_update)

lemma length_filter_upt: "length (filter P [0..<n]) = card {i. i < n \<and> P i}"
proof -
  have "distinct (filter P [0..<n])" by simp
  from distinct_card [OF this] show ?thesis by (simp add: conj_commute)
qed

lemma sorted_distinct_remdups_adj: "sorted (xs :: 'a::linorder list) \<Longrightarrow> distinct (remdups_adj xs)"
  by (induction xs rule: remdups_adj.induct) auto

end
