(* ===== verification/Segments.thy ===== *)
theory Segments
  imports Prelude
begin

text \<open>
  The addressing scheme that \<open>SegmentedVector\<close>, \<open>BlockArrayPool\<close> and \<open>BitPackedArrayPool\<close>
  share (the three headers repeat it): segments of geometrically growing size
  \<open>FirstSegmentSize * 2 ^ i\<close>, and the two functions that split an index into a segment and a
  position. \<open>FirstSegmentSize\<close> is a power of two (\<^verbatim>\<open>static_assert\<close>); it is given here by its exponent,
  which is what the code calls \<open>seg_shift\<close>.
\<close>

section \<open>Splitting an index\<close>

definition get_segment_index :: "nat \<Rightarrow> nat \<Rightarrow> nat" where
  "get_segment_index seg_shift index = bit_width (drop_bit seg_shift index + 1) - 1"

definition get_segment_pos :: "nat \<Rightarrow> nat \<Rightarrow> nat" where
  "get_segment_pos seg_shift index =
     (let q = drop_bit seg_shift index;
          r = index AND (2 ^ seg_shift - 1);
          seg_idx = get_segment_index seg_shift index
      in push_bit seg_shift (q - (push_bit seg_idx 1 - 1)) + r)"

text \<open>The number of elements that the first \<open>n\<close> segments hold, and the shape of the segments.\<close>

definition segments_capacity :: "nat \<Rightarrow> nat \<Rightarrow> nat" where
  "segments_capacity seg_shift n = 2 ^ seg_shift * (2 ^ n - 1)"

definition segments_shape :: "nat \<Rightarrow> (nat \<Rightarrow> nat) \<Rightarrow> 'a list list \<Rightarrow> bool" where
  "segments_shape seg_shift blocks segs \<longleftrightarrow>
     (\<forall>i < length segs. length (segs ! i) = blocks (2 ^ seg_shift * 2 ^ i))"

section \<open>The split is a bijection\<close>

lemma segment_index_bounds:
  "2 ^ get_segment_index s i \<le> i div 2 ^ s + 1" "i div 2 ^ s + 1 < 2 * 2 ^ get_segment_index s i"
proof -
  let ?n = "i div 2 ^ s + 1"
  have seg: "get_segment_index s i = bit_width ?n - 1"
    by (simp add: get_segment_index_def drop_bit_eq_div)
  show "2 ^ get_segment_index s i \<le> ?n"
    unfolding seg by (rule two_power_bit_width_le) simp
  have "bit_width ?n = Suc (bit_width ?n - 1)" using bit_width_pos [of ?n] by simp
  then have "2 * 2 ^ get_segment_index s i = (2::nat) ^ bit_width ?n"
    unfolding seg by (metis power_Suc)
  then show "?n < 2 * 2 ^ get_segment_index s i"
    using less_two_power_bit_width [of ?n] by simp
qed

lemma segment_pos_eq:
  "get_segment_pos s i = (i div 2 ^ s - (2 ^ get_segment_index s i - 1)) * 2 ^ s + i mod 2 ^ s"
  using and_power_minus_1 [of i s]
  by (simp add: get_segment_pos_def Let_def drop_bit_eq_div push_bit_eq_mult)

lemma segment_pos_bound: "get_segment_pos s i < 2 ^ s * 2 ^ get_segment_index s i"
proof -
  let ?q = "i div 2 ^ s" and ?g = "get_segment_index s i"
  have "?q - (2 ^ ?g - 1) < 2 ^ ?g"
    using segment_index_bounds [where s = s and i = i] by simp
  then have "Suc (?q - (2 ^ ?g - 1)) * 2 ^ s \<le> 2 ^ ?g * 2 ^ s" by (intro mult_le_mono1) simp
  moreover have "i mod 2 ^ s < 2 ^ s" by simp
  ultimately have "(?q - (2 ^ ?g - 1)) * 2 ^ s + i mod 2 ^ s < 2 ^ ?g * 2 ^ s"
    unfolding mult_Suc by linarith
  then show ?thesis by (simp only: segment_pos_eq mult.commute)
qed

lemma segment_split: "i = segments_capacity s (get_segment_index s i) + get_segment_pos s i"
proof -
  let ?q = "i div 2 ^ s" and ?g = "get_segment_index s i"
  have "2 ^ ?g - 1 \<le> ?q" using segment_index_bounds(1) [where s = s and i = i] by simp
  then have "(2 ^ ?g - 1) * 2 ^ s + (?q - (2 ^ ?g - 1)) * 2 ^ s = ?q * 2 ^ s"
    by (simp flip: add_mult_distrib)
  then have "segments_capacity s ?g + get_segment_pos s i = ?q * 2 ^ s + i mod 2 ^ s"
    unfolding segment_pos_eq segments_capacity_def by (simp only: mult.commute add.assoc [symmetric])
  then show ?thesis by (simp only: div_mult_mod_eq)
qed

lemma segments_capacity_mono: "m \<le> n \<Longrightarrow> segments_capacity s m \<le> segments_capacity s n"
  by (simp add: segments_capacity_def diff_le_mono)

lemma segments_capacity_Suc [simp]:
  "segments_capacity s (Suc n) = segments_capacity s n + 2 ^ s * 2 ^ n"
  by (simp add: segments_capacity_def algebra_simps)

lemma segments_capacity_0 [simp]: "segments_capacity s 0 = 0"
  by (simp add: segments_capacity_def)

lemma segments_capacity_unbounded: "n \<le> segments_capacity s n"
proof (induction n)
  case (Suc n)
  have "1 \<le> 2 ^ s * (2::nat) ^ n" by simp
  with Suc show ?case by (simp del: One_nat_def)
qed simp

lemma segment_split_unique:
  assumes "pos < 2 ^ s * 2 ^ seg"
  shows "get_segment_index s (segments_capacity s seg + pos) = seg"
    and "get_segment_pos s (segments_capacity s seg + pos) = pos"
proof -
  let ?i = "segments_capacity s seg + pos"
  have g: "get_segment_index s ?i = seg"
  proof (rule ccontr)
    assume "get_segment_index s ?i \<noteq> seg"
    then consider "Suc (get_segment_index s ?i) \<le> seg" | "Suc seg \<le> get_segment_index s ?i" by arith
    then show False
    proof cases
      case 1
      have "?i < segments_capacity s (Suc (get_segment_index s ?i))"
        using segment_split [of ?i s] segment_pos_bound [of s ?i] by simp
      also have "\<dots> \<le> segments_capacity s seg" by (rule segments_capacity_mono [OF 1])
      finally show False by simp
    next
      case 2
      have "?i < segments_capacity s (Suc seg)" using assms by simp
      also have "\<dots> \<le> segments_capacity s (get_segment_index s ?i)" by (rule segments_capacity_mono [OF 2])
      also have "\<dots> \<le> ?i" using segment_split [of ?i s] by simp
      finally show False by simp
    qed
  qed
  show "get_segment_index s ?i = seg" by (rule g)
  show "get_segment_pos s ?i = pos" using segment_split [of ?i s] unfolding g by simp
qed

lemma segment_index_less_iff: "get_segment_index s i < n \<longleftrightarrow> i < segments_capacity s n"
proof
  assume "get_segment_index s i < n"
  then have "segments_capacity s (Suc (get_segment_index s i)) \<le> segments_capacity s n"
    by (intro segments_capacity_mono) simp
  then show "i < segments_capacity s n"
    using segment_split [of i s] segment_pos_bound [of s i] by simp
next
  assume "i < segments_capacity s n"
  then show "get_segment_index s i < n"
    by (metis segment_split le_add1 linorder_not_le order.strict_trans2 segments_capacity_mono)
qed

lemma segment_split_inj:
  assumes "get_segment_index s i = get_segment_index s j" and "get_segment_pos s i = get_segment_pos s j"
  shows "i = j"
  by (metis assms segment_split)


lemma segments_shape_update:
  "length ys = length (segs ! g) \<Longrightarrow> segments_shape s blocks (segs[g := ys]) = segments_shape s blocks segs"
  by (auto simp: segments_shape_def nth_list_update_if)

end
