(* ===== verification/Segmented_Vector.thy ===== *)
theory Segmented_Vector
  imports Segments
begin

text \<open>
  \<^verbatim>\<open>include/tyr/common/segmented_vector.hpp\<close>. The state is the segments, the capacity and the
  size; \<open>dflt\<close> is the default-constructed element that \<^verbatim>\<open>std::vector::resize\<close> fills a new segment
  with. \<open>sv_list\<close> reads the vector as a list; the interpretation at the end says that the
  vector implements the interface \<open>growable_array\<close> through it.
\<close>

section \<open>State and operations\<close>

record 'a segmented_vector =
  sv_segments :: "'a list list"
  sv_capacity :: nat
  sv_size :: nat

definition sv_init :: "'a segmented_vector" where
  "sv_init = \<lparr>sv_segments = [], sv_capacity = 0, sv_size = 0\<rparr>"

text \<open>One more segment, and the \<open>while (m_capacity < n)\<close> loop of \<open>resize_to_fit\<close>.\<close>

definition sv_grow :: "nat \<Rightarrow> 'a \<Rightarrow> 'a segmented_vector \<Rightarrow> 'a segmented_vector" where
  "sv_grow seg_shift dflt v =
     (let new_segment_size = push_bit (length (sv_segments v)) (2 ^ seg_shift) in
      v\<lparr>sv_segments := sv_segments v @ [replicate new_segment_size dflt],
        sv_capacity := sv_capacity v + new_segment_size\<rparr>)"

function sv_grow_while :: "nat \<Rightarrow> 'a \<Rightarrow> nat \<Rightarrow> 'a segmented_vector \<Rightarrow> 'a segmented_vector" where
  "sv_grow_while seg_shift dflt n v =
     (if sv_capacity v < n then sv_grow_while seg_shift dflt n (sv_grow seg_shift dflt v) else v)"
  by pat_completeness auto
termination
  by (relation "measure (\<lambda>(s, d, n, v). n - sv_capacity v)")
     (auto simp: sv_grow_def Let_def push_bit_eq_mult intro!: diff_less_mono2)

declare sv_grow_while.simps [simp del]

definition sv_resize_to_fit :: "nat \<Rightarrow> 'a \<Rightarrow> nat \<Rightarrow> 'a segmented_vector \<Rightarrow> 'a segmented_vector" where
  "sv_resize_to_fit seg_shift dflt n v =
     (let v = (if sv_segments v = []
               then v\<lparr>sv_segments := sv_segments v @ [replicate (2 ^ seg_shift) dflt],
                      sv_capacity := sv_capacity v + 2 ^ seg_shift\<rparr>
               else v)
      in sv_grow_while seg_shift dflt n v)"

definition sv_nth :: "nat \<Rightarrow> 'a segmented_vector \<Rightarrow> nat \<Rightarrow> 'a" where
  "sv_nth seg_shift v pos =
     (let index = get_segment_index seg_shift pos; offset = get_segment_pos seg_shift pos
      in sv_segments v ! index ! offset)"

definition sv_update :: "nat \<Rightarrow> 'a segmented_vector \<Rightarrow> nat \<Rightarrow> 'a \<Rightarrow> 'a segmented_vector" where
  "sv_update seg_shift v pos x =
     (let index = get_segment_index seg_shift pos; offset = get_segment_pos seg_shift pos
      in v\<lparr>sv_segments := (sv_segments v)[index := (sv_segments v ! index)[offset := x]]\<rparr>)"

definition sv_push_back :: "nat \<Rightarrow> 'a \<Rightarrow> 'a segmented_vector \<Rightarrow> 'a \<Rightarrow> 'a segmented_vector" where
  "sv_push_back seg_shift dflt v x =
     (let v = sv_resize_to_fit seg_shift dflt (sv_size v + 1) v;
          v = sv_update seg_shift v (sv_size v) x
      in v\<lparr>sv_size := sv_size v + 1\<rparr>)"

definition sv_pop_back :: "'a segmented_vector \<Rightarrow> 'a segmented_vector" where
  "sv_pop_back v = v\<lparr>sv_size := sv_size v - 1\<rparr>"

definition sv_clear :: "'a segmented_vector \<Rightarrow> 'a segmented_vector" where
  "sv_clear v = v\<lparr>sv_size := 0\<rparr>"

definition sv_at :: "nat \<Rightarrow> 'a segmented_vector \<Rightarrow> nat \<Rightarrow> 'a result" where
  "sv_at seg_shift v pos =
     (if pos \<ge> sv_size v then Inl Out_Of_Range
      else (let index = get_segment_index seg_shift pos; offset = get_segment_pos seg_shift pos in
            if index < length (sv_segments v) \<and> offset < length (sv_segments v ! index)
            then Inr (sv_segments v ! index ! offset) else Inl Out_Of_Range))"

definition sv_front :: "nat \<Rightarrow> 'a segmented_vector \<Rightarrow> 'a" where
  "sv_front seg_shift v = sv_nth seg_shift v 0"

definition sv_back :: "nat \<Rightarrow> 'a segmented_vector \<Rightarrow> 'a" where
  "sv_back seg_shift v = sv_nth seg_shift v (sv_size v - 1)"

definition sv_empty :: "'a segmented_vector \<Rightarrow> bool" where
  "sv_empty v \<longleftrightarrow> sv_size v = 0"

section \<open>Abstraction and invariant\<close>

definition sv_list :: "nat \<Rightarrow> 'a segmented_vector \<Rightarrow> 'a list" where
  "sv_list seg_shift v = map (sv_nth seg_shift v) [0..<sv_size v]"

definition sv_invar :: "nat \<Rightarrow> 'a segmented_vector \<Rightarrow> bool" where
  "sv_invar seg_shift v \<longleftrightarrow>
     segments_shape seg_shift id (sv_segments v) \<and>
     sv_capacity v = segments_capacity seg_shift (length (sv_segments v)) \<and>
     sv_size v \<le> sv_capacity v"

lemma sv_invarD:
  assumes "sv_invar s v" and "i < sv_capacity v"
  shows "get_segment_index s i < length (sv_segments v)"
    and "get_segment_pos s i < length (sv_segments v ! get_segment_index s i)"
proof -
  from assms show g: "get_segment_index s i < length (sv_segments v)"
    by (simp add: sv_invar_def segment_index_less_iff)
  with assms segment_pos_bound [of s i]
  show "get_segment_pos s i < length (sv_segments v ! get_segment_index s i)"
    by (simp add: sv_invar_def segments_shape_def)
qed

lemma sv_list_length [simp]: "length (sv_list s v) = sv_size v"
  by (simp add: sv_list_def)

lemma sv_list_nth: "i < sv_size v \<Longrightarrow> sv_list s v ! i = sv_nth s v i"
  by (simp add: sv_list_def)

lemma sv_nth_update:
  assumes "sv_invar s v" and "i < sv_capacity v" and "j < sv_capacity v"
  shows "sv_nth s (sv_update s v i x) j = (if j = i then x else sv_nth s v j)"
proof -
  note i = sv_invarD [OF assms(1,2)] and j = sv_invarD [OF assms(1,3)]
  show ?thesis
    using i j segment_split_inj [of s j i]
    by (auto simp: sv_nth_def sv_update_def Let_def nth_list_update)
qed

lemma sv_invar_update [simp]: "sv_invar s (sv_update s v i x) = sv_invar s v"
  by (simp add: sv_invar_def sv_update_def Let_def segments_shape_update)

lemma sv_update_frame [simp]:
  "sv_size (sv_update s v i x) = sv_size v" "sv_capacity (sv_update s v i x) = sv_capacity v"
  by (simp_all add: sv_update_def Let_def)

lemma sv_grow_size [simp]: "sv_size (sv_grow s d v) = sv_size v"
  by (simp add: sv_grow_def Let_def)

lemma sv_grow_invar: "sv_invar s v \<Longrightarrow> sv_invar s (sv_grow s d v)"
  by (auto simp: sv_invar_def sv_grow_def Let_def segments_shape_def push_bit_eq_mult nth_append
      less_Suc_eq)

lemma sv_grow_nth:
  assumes "sv_invar s v" and "i < sv_capacity v"
  shows "sv_nth s (sv_grow s d v) i = sv_nth s v i"
  using sv_invarD [OF assms] by (simp add: sv_nth_def sv_grow_def Let_def nth_append)

lemma sv_grow_capacity: "sv_capacity v \<le> sv_capacity (sv_grow s d v)"
  by (simp add: sv_grow_def Let_def)

lemma sv_grow_while_props:
  assumes "sv_invar s v"
  shows "sv_invar s (sv_grow_while s d n v) \<and> sv_size (sv_grow_while s d n v) = sv_size v \<and>
    n \<le> sv_capacity (sv_grow_while s d n v) \<and>
    (\<forall>i < sv_capacity v. sv_nth s (sv_grow_while s d n v) i = sv_nth s v i)"
  using assms
proof (induction s d n v rule: sv_grow_while.induct)
  case (1 s d n v)
  show ?case
  proof (cases "sv_capacity v < n")
    case True
    have "i < sv_capacity (sv_grow s d v)" if "i < sv_capacity v" for i
      using that sv_grow_capacity [of v s d] by simp
    moreover note 1(1) [OF True sv_grow_invar [OF 1(2)]]
    ultimately show ?thesis
      using True 1(2) by (simp add: sv_grow_while.simps [of s d n v] sv_grow_nth)
  qed (use 1 in \<open>simp add: sv_grow_while.simps [of s d n v]\<close>)
qed

lemma sv_resize_grow: "sv_invar s v \<Longrightarrow> sv_segments v = [] \<Longrightarrow>
    v\<lparr>sv_segments := [replicate (2 ^ s) d], sv_capacity := 2 ^ s\<rparr> = sv_grow s d v"
  by (simp add: sv_grow_def Let_def sv_invar_def push_bit_eq_mult)

lemma sv_resize_props:
  assumes "sv_invar s v"
  shows "sv_invar s (sv_resize_to_fit s d n v)" "sv_size (sv_resize_to_fit s d n v) = sv_size v"
    "n \<le> sv_capacity (sv_resize_to_fit s d n v)"
    "\<And>i. i < sv_size v \<Longrightarrow> sv_nth s (sv_resize_to_fit s d n v) i = sv_nth s v i"
proof -
  let ?w = "if sv_segments v = [] then sv_grow s d v else v"
  have w: "sv_resize_to_fit s d n v = sv_grow_while s d n ?w"
    using assms sv_resize_grow [OF assms, of d]
    by (auto simp: sv_resize_to_fit_def Let_def sv_invar_def)
  have inv: "sv_invar s ?w" using assms sv_grow_invar by auto
  have "sv_capacity v \<le> sv_capacity ?w" using sv_grow_capacity [of v s d] by simp
  with assms have cap: "i < sv_capacity v" "i < sv_capacity ?w" if "i < sv_size v" for i
    using that by (auto simp: sv_invar_def)
  note P = sv_grow_while_props [OF inv, of d n]
  show "sv_invar s (sv_resize_to_fit s d n v)" "sv_size (sv_resize_to_fit s d n v) = sv_size v"
    "n \<le> sv_capacity (sv_resize_to_fit s d n v)"
    using P unfolding w by auto
  show "sv_nth s (sv_resize_to_fit s d n v) i = sv_nth s v i" if "i < sv_size v" for i
    using P cap [OF that] sv_grow_nth [OF assms, of i d] unfolding w by auto
qed

lemma sv_invar_size: "sv_invar s v \<Longrightarrow> sv_invar s (v\<lparr>sv_size := n\<rparr>) \<longleftrightarrow> n \<le> sv_capacity v"
  by (simp add: sv_invar_def)

lemma sv_nth_size [simp]: "sv_nth s (v\<lparr>sv_size := n\<rparr>) i = sv_nth s v i"
  by (simp add: sv_nth_def)

lemma sv_push_back_spec [abs_specs]:
  assumes "sv_invar s v"
  shows "sv_invar s (sv_push_back s d v x) \<and> sv_list s (sv_push_back s d v x) = sv_list s v @ [x]"
proof -
  let ?r = "sv_resize_to_fit s d (Suc (sv_size v)) v"
  note R = sv_resize_props [OF assms, where d = d and n = "Suc (sv_size v)"]
  have P: "sv_push_back s d v x = (sv_update s ?r (sv_size v) x)\<lparr>sv_size := Suc (sv_size v)\<rparr>"
    by (simp add: sv_push_back_def Let_def R)
  have "sv_nth s (sv_update s ?r (sv_size v) x) i = (if i = sv_size v then x else sv_nth s v i)"
    if "i \<le> sv_size v" for i
    using that R by (subst sv_nth_update) auto
  then show ?thesis
    using R by (auto simp: P sv_invar_size sv_list_def)
qed

lemma sv_pop_back_spec [abs_specs]:
  "sv_invar s v \<Longrightarrow> sv_invar s (sv_pop_back v) \<and> sv_list s (sv_pop_back v) = butlast (sv_list s v)"
  by (auto simp: sv_pop_back_def sv_invar_def sv_list_def butlast_conv_take take_map nth_append
      intro!: nth_equalityI)

lemma sv_update_spec [abs_specs]:
  assumes "sv_invar s v" and "i < sv_size v"
  shows "sv_list s (sv_update s v i x) = (sv_list s v)[i := x]"
proof (rule nth_equalityI)
  fix j assume "j < length (sv_list s (sv_update s v i x))"
  then have j: "j < sv_size v" by simp
  have "i < sv_capacity v" "j < sv_capacity v" using assms j by (auto simp: sv_invar_def)
  with assms j show "sv_list s (sv_update s v i x) ! j = (sv_list s v)[i := x] ! j"
    by (simp add: sv_list_nth sv_nth_update nth_list_update)
qed simp

lemma sv_at_spec [abs_specs]:
  assumes "sv_invar s v"
  shows "sv_at s v i = (if i < sv_size v then Inr (sv_list s v ! i) else Inl Out_Of_Range)"
proof (cases "i < sv_size v")
  case True
  then have "i < sv_capacity v" using assms by (simp add: sv_invar_def)
  from sv_invarD [OF assms this] True show ?thesis
    by (simp add: sv_at_def Let_def sv_list_nth sv_nth_def)
qed (simp add: sv_at_def)

lemma sv_init_spec [abs_specs]: "sv_invar s sv_init" "sv_list s sv_init = []"
  by (simp_all add: sv_init_def sv_invar_def segments_shape_def sv_list_def)

lemma sv_clear_spec [abs_specs]: "sv_invar s v \<Longrightarrow> sv_invar s (sv_clear v) \<and> sv_list s (sv_clear v) = []"
  by (simp add: sv_clear_def sv_invar_def sv_list_def)

section \<open>The interface of a growable array\<close>

datatype 'a array_op = Push 'a | Pop | Write nat 'a | Clear

text \<open>The operations on a list; \<open>None\<close> when the precondition that the code asserts fails.\<close>

fun list_op :: "'a array_op \<Rightarrow> 'a list \<Rightarrow> 'a list option" where
  "list_op (Push x) xs = Some (xs @ [x])"
| "list_op Pop xs = (if xs = [] then None else Some (butlast xs))"
| "list_op (Write i x) xs = (if i < length xs then Some (xs[i := x]) else None)"
| "list_op Clear xs = Some []"

fun list_ops :: "'a array_op list \<Rightarrow> 'a list \<Rightarrow> 'a list option" where
  "list_ops [] xs = Some xs"
| "list_ops (p # ops) xs = (case list_op p xs of None \<Rightarrow> None | Some ys \<Rightarrow> list_ops ops ys)"

fun run_ops ::
  "('v \<Rightarrow> 'a \<Rightarrow> 'v) \<Rightarrow> ('v \<Rightarrow> 'v) \<Rightarrow> ('v \<Rightarrow> nat \<Rightarrow> 'a \<Rightarrow> 'v) \<Rightarrow> ('v \<Rightarrow> 'v) \<Rightarrow> 'a array_op list \<Rightarrow> 'v \<Rightarrow> 'v" where
  "run_ops push pop upd clear [] v = v"
| "run_ops push pop upd clear (p # ops) v = run_ops push pop upd clear ops
     (case p of Push x \<Rightarrow> push v x | Pop \<Rightarrow> pop v | Write i x \<Rightarrow> upd v i x | Clear \<Rightarrow> clear v)"

locale growable_array =
  fixes invar :: "'v \<Rightarrow> bool" and elems :: "'v \<Rightarrow> 'a list"
    and push :: "'v \<Rightarrow> 'a \<Rightarrow> 'v" and pop :: "'v \<Rightarrow> 'v" and upd :: "'v \<Rightarrow> nat \<Rightarrow> 'a \<Rightarrow> 'v" and clear :: "'v \<Rightarrow> 'v"
  assumes push: "invar v \<Longrightarrow> invar (push v x) \<and> elems (push v x) = elems v @ [x]"
    and pop: "invar v \<Longrightarrow> elems v \<noteq> [] \<Longrightarrow> invar (pop v) \<and> elems (pop v) = butlast (elems v)"
    and upd: "invar v \<Longrightarrow> i < length (elems v) \<Longrightarrow> invar (upd v i x) \<and> elems (upd v i x) = (elems v)[i := x]"
    and clear: "invar v \<Longrightarrow> invar (clear v) \<and> elems (clear v) = []"
begin

lemma run_ops_refines:
  "invar v \<Longrightarrow> list_ops ops (elems v) = Some xs \<Longrightarrow>
   invar (run_ops push pop upd clear ops v) \<and> elems (run_ops push pop upd clear ops v) = xs"
proof (induction ops arbitrary: v)
  case (Cons p ops)
  then show ?case
    using push [of v] pop [of v] upd [of v] clear [of v]
    by (cases p) (auto split: if_splits)
qed simp

end

interpretation sv: growable_array "sv_invar s" "sv_list s" "sv_push_back s d" sv_pop_back "sv_update s" sv_clear
  for s d
  by unfold_locales (auto simp: abs_specs)

text \<open>
  C25. A segmented vector is a list: after any sequence of pushes, pops, writes and clears that
  respects the asserted preconditions, the vector holds the list that the same operations give,
  \<open>at\<close> returns its elements and throws \<open>std::out_of_range\<close> beyond its size, \<open>front\<close>, \<open>back\<close> and
  \<open>empty\<close> agree with the list.
\<close>

theorem segmented_vector_is_list:
  fixes s :: nat and d :: 'a
  assumes "list_ops ops [] = Some xs"
  defines "v \<equiv> run_ops (sv_push_back s d) sv_pop_back (sv_update s) sv_clear ops sv_init"
  shows "sv_list s v = xs \<and> (\<forall>i. sv_at s v i = (if i < length xs then Inr (xs ! i) else Inl Out_Of_Range)) \<and>
    (sv_empty v \<longleftrightarrow> xs = []) \<and> (xs \<noteq> [] \<longrightarrow> sv_front s v = hd xs \<and> sv_back s v = last xs)"
proof -
  have v: "sv_invar s v" "sv_list s v = xs"
    using sv.run_ops_refines [of s sv_init ops xs d] assms by (simp_all add: v_def sv_init_spec)
  have len: "sv_size v = length xs" using v(2) sv_list_length [of s v] by simp
  have "sv_nth s v i = xs ! i" if "i < length xs" for i
    using that v(2) sv_list_nth [of i v s] len by simp
  with v len show ?thesis
    by (auto simp: sv_at_spec sv_empty_def sv_front_def sv_back_def hd_conv_nth last_conv_nth)
qed

theorem segmented_vector_is_list_witness:
  "sv_at 1 (run_ops (sv_push_back 1 0) sv_pop_back (sv_update 1) sv_clear
     [Push 1, Push 2, Push 3, Pop, Push 4, Write 0 (9::nat)] sv_init) 2 = Inr 4"
  using segmented_vector_is_list [of "[Push 1, Push 2, Push 3, Pop, Push 4, Write 0 (9::nat)]" "[9, 2, 4]" 1 0]
  by simp

end
