(* ===== verification/Bits.thy ===== *)
theory Bits
  imports Prelude
begin

text \<open>
  \<^verbatim>\<open>include/tyr/common/bit.hpp\<close>: packed unsigned integers in an array of blocks. A block is an
  \<open>'a word\<close>, so \<open>digits\<close> is \<open>LENGTH('a)\<close>; a \<^verbatim>\<open>Block*\<close> is an index into the list of blocks it
  points into. The memory is read bit by bit (\<open>mem_bit\<close>), which gives \<open>write_int\<close> and
  \<open>read_int\<close> a specification without blocks.
\<close>

section \<open>Free functions\<close>

definition is_power_of_two :: "nat \<Rightarrow> bool" where
  "is_power_of_two x = has_single_bit x"

definition ceil_div :: "'a::len word \<Rightarrow> 'a word \<Rightarrow> 'a word" where
  "ceil_div x y = (x + y - 1) div y"

definition bits_needed :: "'a::len word \<Rightarrow> 'a word" where
  "bits_needed domain_size =
     (if domain_size \<le> 1 then 1 else of_nat (bit_width (unat (domain_size - 1))))"

definition lo_set :: "'a::len word list" where
  "lo_set = map (\<lambda>i. if i = 0 then 0
                     else if i < LENGTH('a) then push_bit i 1 - 1
                     else NOT 0) [0..<Suc LENGTH('a)]"

definition write_int :: "'a::len word list \<Rightarrow> nat \<Rightarrow> 'a word \<Rightarrow> nat \<Rightarrow> nat \<Rightarrow> 'a word list" where
  "write_int ws word x offset len =
     (let digits = LENGTH('a); x = x AND lo_set ! len in
      if offset + len \<ge> digits then
        let ws = ws[word := (ws ! word AND lo_set ! offset) OR push_bit offset x];
            offset' = (offset + len) AND (digits - 1)
        in if offset' \<noteq> 0
           then ws[Suc word := (ws ! Suc word AND NOT (lo_set ! offset')) OR drop_bit (len - offset') x]
           else ws
      else ws[word := (ws ! word AND (push_bit (offset + len) (- 1) OR lo_set ! offset))
                      OR push_bit offset x])"

definition read_int :: "'a::len word list \<Rightarrow> nat \<Rightarrow> nat \<Rightarrow> nat \<Rightarrow> 'a word" where
  "read_int ws word offset len =
     (let digits = LENGTH('a); w1 = drop_bit offset (ws ! word) in
      if offset + len > digits
      then w1 OR push_bit (digits - offset) (ws ! Suc word AND lo_set ! ((offset + len) AND (digits - 1)))
      else w1 AND lo_set ! len)"

section \<open>Coders\<close>

text \<open>
  The template parameter \<open>Coder\<close> maps values to blocks and back. The concept \<open>BlockCoder\<close> of
  the header only asks for the two functions; what the containers rely on is that decoding undoes
  encoding, the law of the locale below, which the coder of the header satisfies.
\<close>

definition forwarding_decode :: "'a::len word \<Rightarrow> 'a word" where
  "forwarding_decode block = block"

definition forwarding_encode :: "'a::len word \<Rightarrow> 'a word" where
  "forwarding_encode value = value"

locale block_coder =
  fixes encode :: "'v \<Rightarrow> 'a::len word" and decode :: "'a word \<Rightarrow> 'v"
  assumes decode_encode: "decode (encode v) = v"

interpretation forwarding: block_coder forwarding_encode forwarding_decode
  by unfold_locales (simp add: forwarding_encode_def forwarding_decode_def)

section \<open>References\<close>

text \<open>\<open>int_reference\<close>: a proxy for one packed integer; assignment checks that the code fits.\<close>

record int_reference =
  ir_word :: nat
  ir_offset :: nat
  ir_len :: nat

definition int_ensure_fits :: "int_reference \<Rightarrow> 'a::len word \<Rightarrow> bool" where
  "int_ensure_fits r raw = (let mask = lo_set ! ir_len r in raw AND NOT mask = 0)"

definition int_assign ::
  "('v \<Rightarrow> 'a::len word) \<Rightarrow> 'a word list \<Rightarrow> int_reference \<Rightarrow> 'v \<Rightarrow> 'a word list result" where
  "int_assign encode ws r v =
     (let raw = encode v in
      if int_ensure_fits r raw then Inr (write_int ws (ir_word r) raw (ir_offset r) (ir_len r))
      else Inl Out_Of_Range)"

definition int_value :: "('a::len word \<Rightarrow> 'v) \<Rightarrow> 'a word list \<Rightarrow> int_reference \<Rightarrow> 'v" where
  "int_value decode ws r = decode (read_int ws (ir_word r) (ir_offset r) (ir_len r))"

text \<open>\<open>block_reference\<close>: one value per block.\<close>

definition block_assign :: "('v \<Rightarrow> 'a::len word) \<Rightarrow> 'a word list \<Rightarrow> nat \<Rightarrow> 'v \<Rightarrow> 'a word list" where
  "block_assign encode ws ptr v = ws[ptr := encode v]"

definition block_value :: "('a::len word \<Rightarrow> 'v) \<Rightarrow> 'a word list \<Rightarrow> nat \<Rightarrow> 'v" where
  "block_value decode ws ptr = decode (ws ! ptr)"

text \<open>\<open>bit_reference\<close>: one bit of an array of blocks.\<close>

definition bitref_assign :: "'a::len word list \<Rightarrow> nat \<Rightarrow> bool \<Rightarrow> 'a word list" where
  "bitref_assign data b v =
     (let i = b div LENGTH('a); mask = push_bit (b mod LENGTH('a)) 1 in
      if v then data[i := data ! i OR mask] else data[i := data ! i AND NOT mask])"

definition bitref_value :: "'a::len word list \<Rightarrow> nat \<Rightarrow> bool" where
  "bitref_value data b \<longleftrightarrow> drop_bit (b mod LENGTH('a)) (data ! (b div LENGTH('a))) AND 1 \<noteq> 0"

section \<open>Memory as a sequence of bits\<close>

definition mem_bit :: "'a::len word list \<Rightarrow> nat \<Rightarrow> bool" where
  "mem_bit ws k \<longleftrightarrow> bit (ws ! (k div LENGTH('a))) (k mod LENGTH('a))"

lemma lo_set_nth [simp]: "i \<le> LENGTH('a) \<Longrightarrow> (lo_set :: 'a::len word list) ! i = mask i"
  by (auto simp: lo_set_def nth_append push_bit_eq_mult mask_eq_decr_exp simp del: upt_Suc)

lemma length_write_int [simp]: "length (write_int ws w x offset len) = length ws"
  by (simp add: write_int_def Let_def)


lemma mem_bit_at: "j < LENGTH('a) \<Longrightarrow> mem_bit (ws::'a::len word list) (q * LENGTH('a) + j) = bit (ws ! q) j"
  by (simp add: mem_bit_def div_mult_self3 [symmetric] add.commute)

lemma offset_wrap:
  assumes "is_power_of_two LENGTH('a::len)" and "offset < LENGTH('a)" and "len \<le> LENGTH('a)"
    and "offset + len \<ge> LENGTH('a)"
  shows "(offset + len) AND (LENGTH('a) - 1) = offset + len - LENGTH('a)"
proof -
  have "(offset + len) AND (LENGTH('a) - 1) = (offset + len) mod LENGTH('a)"
    using assms(1) by (intro and_mask_pow2) (simp add: is_power_of_two_def)
  also have "\<dots> = offset + len - LENGTH('a)"
    using assms(2-4) by (simp add: mod_if)
  finally show ?thesis .
qed

lemma bit_write_int:
  fixes ws :: "'a::len word list"
  assumes pow: "is_power_of_two LENGTH('a)" and off: "offset < LENGTH('a)" and len: "len \<le> LENGTH('a)"
    and q: "q < length ws" and j: "j < LENGTH('a)"
  shows "bit (write_int ws w x offset len ! q) j \<longleftrightarrow>
     (if q = w \<and> offset \<le> j \<and> j < offset + len then bit x (j - offset)
      else if q = Suc w \<and> LENGTH('a) + j < offset + len then bit x (LENGTH('a) + j - offset)
      else bit (ws ! q) j)"
proof (cases "offset + len \<ge> LENGTH('a)")
  case True
  note wrap = offset_wrap [OF pow off len True]
  show ?thesis
  proof (cases "offset + len = LENGTH('a)")
    case eq: True
    then have "(offset + len) AND (LENGTH('a) - 1) = 0" using wrap by simp
    with eq q j off len show ?thesis
      by (auto simp: write_int_def Let_def nth_list_update_if bit_simps)
  next
    case False
    with True have gt: "offset + len > LENGTH('a)" by simp
    then have ne: "(offset + len) AND (LENGTH('a) - 1) \<noteq> 0" using wrap by simp
    from gt off len have sh: "len - (offset + len - LENGTH('a)) = LENGTH('a) - offset" by simp
    have le: "offset + len - LENGTH('a) \<le> LENGTH('a)" using off len by simp
    have W: "write_int ws w x offset len =
       (let x' = x AND mask len;
            ws' = ws[w := (ws ! w AND mask offset) OR push_bit offset x']
        in ws'[Suc w := (ws' ! Suc w AND NOT (mask (offset + len - LENGTH('a))))
                        OR drop_bit (LENGTH('a) - offset) x'])"
      using True ne off len le sh by (simp add: write_int_def Let_def wrap del: One_nat_def)
    show ?thesis
      using q j off len gt by (auto simp: W Let_def nth_list_update_if bit_simps)
  qed
next
  case False
  then show ?thesis using q j off len
    by (auto simp: write_int_def Let_def nth_list_update_if bit_simps)
qed


lemma mem_bit_write_int [bit_specs]:
  fixes ws :: "'a::len word list"
  assumes "is_power_of_two LENGTH('a)" and "offset < LENGTH('a)" and "len \<le> LENGTH('a)"
    and k: "k < length ws * LENGTH('a)"
  shows "mem_bit (write_int ws w x offset len) k \<longleftrightarrow>
     (if w * LENGTH('a) + offset \<le> k \<and> k < w * LENGTH('a) + offset + len
      then bit x (k - (w * LENGTH('a) + offset)) else mem_bit ws k)"
proof -
  let ?d = "LENGTH('a)"
  obtain q j where kq: "k = q * ?d + j" and j: "j < ?d"
    by (metis div_mod_decomp mod_less_divisor len_gt_0)
  have q: "q < length ws"
  proof (rule ccontr)
    assume "\<not> q < length ws"
    then have "length ws * ?d \<le> q * ?d" by (intro mult_le_mono1) simp
    with k kq show False by simp
  qed
  have L: "mem_bit (write_int ws w x offset len) k \<longleftrightarrow>
     (if q = w \<and> offset \<le> j \<and> j < offset + len then bit x (j - offset)
      else if q = Suc w \<and> ?d + j < offset + len then bit x (?d + j - offset)
      else bit (ws ! q) j)"
    unfolding kq mem_bit_at [OF j] using assms(1-3) q j by (rule bit_write_int)
  have M: "mem_bit ws k = bit (ws ! q) j" unfolding kq by (rule mem_bit_at [OF j])
  consider "q = w" | "q = Suc w" | "q < w" | "Suc (Suc w) \<le> q" by arith
  then show ?thesis
  proof cases
    case 1
    with j assms(2,3) show ?thesis unfolding L M by (auto simp: kq)
  next
    case 2
    with j assms(2,3) show ?thesis unfolding L M by (auto simp: kq add.commute)
  next
    case 3
    then have "Suc q * ?d \<le> w * ?d" by (intro mult_le_mono1) simp
    with 3 j show ?thesis unfolding L M by (auto simp: kq)
  next
    case 4
    then have "Suc (Suc w) * ?d \<le> q * ?d" by (intro mult_le_mono1) simp
    with 4 j assms(2,3) show ?thesis unfolding L M by (auto simp: kq)
  qed
qed

lemma bit_read_int [bit_specs]:
  fixes ws :: "'a::len word list"
  assumes pow: "is_power_of_two LENGTH('a)" and off: "offset < LENGTH('a)" and len: "len \<le> LENGTH('a)"
  shows "bit (read_int ws w offset len) j \<longleftrightarrow> j < len \<and> mem_bit ws (w * LENGTH('a) + offset + j)"
proof (cases "offset + len > LENGTH('a)")
  case True
  have wrap: "(offset + len) AND (LENGTH('a) - 1) = offset + len - LENGTH('a)"
    using offset_wrap [OF pow off len] True by simp
  have R: "read_int ws w offset len =
     drop_bit offset (ws ! w) OR push_bit (LENGTH('a) - offset) (ws ! Suc w AND mask (offset + len - LENGTH('a)))"
    using True off len by (simp add: read_int_def wrap Let_def del: One_nat_def)
  show ?thesis
  proof (cases "offset + j < LENGTH('a)")
    case lo: True
    then have "mem_bit ws (w * LENGTH('a) + offset + j) = bit (ws ! w) (offset + j)"
      using mem_bit_at [OF lo, of ws w] by (simp add: add.assoc)
    with lo True show ?thesis by (auto simp: R bit_simps)
  next
    case False
    then obtain i where i: "offset + j = LENGTH('a) + i" by (metis le_Suc_ex not_less)
    show ?thesis
    proof (cases "i < LENGTH('a)")
      case hi: True
      have "w * LENGTH('a) + offset + j = Suc w * LENGTH('a) + i" using i by simp
      then have "mem_bit ws (w * LENGTH('a) + offset + j) = bit (ws ! Suc w) i"
        using mem_bit_at [OF hi, of ws "Suc w"] by (simp only:)
      moreover have "j = LENGTH('a) - offset + i" using i off by simp
      ultimately show ?thesis using i len off True hi
        by (auto simp: R bit_simps dest: bit_imp_le_length)
    next
      case hi: False
      with i off len have "\<not> j < len" "LENGTH('a) \<le> j" by simp_all
      then show ?thesis using bit_imp_le_length [of "read_int ws w offset len" j] by auto
    qed
  qed
next
  case False
  then show ?thesis
    using len mem_bit_at [of "offset + j" ws w]
    by (auto simp: read_int_def Let_def bit_simps add.assoc)
qed


lemma mem_bit_eqI:
  fixes ws ws' :: "'a::len word list"
  assumes "length ws = length ws'" and "\<And>k. k < length ws * LENGTH('a) \<Longrightarrow> mem_bit ws k = mem_bit ws' k"
  shows "ws = ws'"
proof (rule nth_equalityI [OF assms(1)])
  fix i assume i: "i < length ws"
  show "ws ! i = ws' ! i"
  proof (rule bit_word_eqI)
    fix n assume n: "n < LENGTH('a)"
    have "i * LENGTH('a) + n < Suc i * LENGTH('a)" using n by simp
    also have "\<dots> \<le> length ws * LENGTH('a)" using i by (intro mult_le_mono1) simp
    finally show "bit (ws ! i) n = bit (ws' ! i) n"
      using assms(2) [of "i * LENGTH('a) + n"] n by (simp add: mem_bit_at)
  qed
qed

lemma int_ensure_fits_iff:
  "ir_len r \<le> LENGTH('a) \<Longrightarrow> int_ensure_fits r (raw::'a::len word) \<longleftrightarrow> take_bit (ir_len r) raw = raw"
  by (auto simp: int_ensure_fits_def bit_eq_iff bit_simps)

lemma mem_bit_bitref_assign [bit_specs]:
  fixes data :: "'a::len word list"
  assumes "k < length data * LENGTH('a)"
  shows "mem_bit (bitref_assign data b v) k = (if k = b then v else mem_bit data k)"
proof -
  let ?d = "LENGTH('a)"
  have eq: "k = b \<longleftrightarrow> k div ?d = b div ?d \<and> k mod ?d = b mod ?d"
    by (metis div_mult_mod_eq)
  have "k div ?d < length data" using assms by (simp add: less_mult_imp_div_less)
  then show ?thesis
    by (auto simp: mem_bit_def bitref_assign_def Let_def nth_list_update_if bit_simps eq)
qed

lemma bitref_value_mem_bit [bit_specs]: "bitref_value data b = mem_bit data b"
  by (auto simp: bitref_value_def mem_bit_def bit_iff_and_drop_bit_eq_1 and_one_eq odd_iff_mod_2_eq_one)

lemma length_bitref_assign [simp]: "length (bitref_assign data b v) = length data"
  by (simp add: bitref_assign_def Let_def)


section \<open>Disjoint packed integers\<close>

text \<open>The bit position of a reference, and when the reference stays inside a memory.\<close>

definition ref_start :: "nat \<Rightarrow> int_reference \<Rightarrow> nat" where
  "ref_start digits r = ir_word r * digits + ir_offset r"

definition valid_ref :: "'a::len word list \<Rightarrow> int_reference \<Rightarrow> bool" where
  "valid_ref ws r \<longleftrightarrow> ir_offset r < LENGTH('a) \<and> ir_len r \<le> LENGTH('a) \<and>
     ref_start LENGTH('a) r + ir_len r \<le> length ws * LENGTH('a)"

lemma read_write_same:
  fixes ws :: "'a::len word list"
  assumes "is_power_of_two LENGTH('a)" and "offset < LENGTH('a)" and "len \<le> LENGTH('a)"
    and "w * LENGTH('a) + offset + len \<le> length ws * LENGTH('a)"
  shows "read_int (write_int ws w x offset len) w offset len = take_bit len x"
  by (rule bit_word_eqI) (use assms in \<open>auto simp: bit_specs bit_simps\<close>)

lemma read_write_disjoint:
  fixes ws :: "'a::len word list"
  assumes "is_power_of_two LENGTH('a)" and "offset < LENGTH('a)" and "len \<le> LENGTH('a)"
    and "offset' < LENGTH('a)" and "len' \<le> LENGTH('a)"
    and "w' * LENGTH('a) + offset' + len' \<le> length ws * LENGTH('a)"
    and "w' * LENGTH('a) + offset' + len' \<le> w * LENGTH('a) + offset \<or>
         w * LENGTH('a) + offset + len \<le> w' * LENGTH('a) + offset'"
  shows "read_int (write_int ws w x offset len) w' offset' len' = read_int ws w' offset' len'"
  by (rule bit_word_eqI) (use assms in \<open>auto simp: bit_specs\<close>)

lemma int_value_assign_same:
  fixes ws :: "'a::len word list"
  assumes "is_power_of_two LENGTH('a)" and "valid_ref ws r" and "int_ensure_fits r x"
  shows "int_value decode (write_int ws (ir_word r) x (ir_offset r) (ir_len r)) r = decode x"
  using assms by (simp add: int_value_def read_write_same valid_ref_def ref_start_def int_ensure_fits_iff)

lemma int_value_assign_disjoint:
  fixes ws :: "'a::len word list"
  assumes "is_power_of_two LENGTH('a)" and "valid_ref ws r" and "valid_ref ws r'"
    and "ref_start LENGTH('a) r' + ir_len r' \<le> ref_start LENGTH('a) r \<or>
         ref_start LENGTH('a) r + ir_len r \<le> ref_start LENGTH('a) r'"
  shows "int_value decode (write_int ws (ir_word r) x (ir_offset r) (ir_len r)) r' = int_value decode ws r'"
  using assms by (simp add: int_value_def valid_ref_def ref_start_def read_write_disjoint)

section \<open>Properties\<close>

text \<open>
  C26. Assigning to a packed integer: a value whose code does not fit in the width is refused
  with \<open>std::out_of_range\<close>; otherwise the assignment succeeds, the reference then reads the value
  back, and every reference to a disjoint range of bits reads what it read before, also when the
  integer straddles two blocks.
\<close>

theorem int_assign_roundtrip:
  fixes ws :: "'a::len word list" and encode :: "'v \<Rightarrow> 'a word"
  assumes "is_power_of_two LENGTH('a)" and "valid_ref ws r" and "block_coder encode decode"
  shows "(unat (encode v) < 2 ^ ir_len r \<longrightarrow>
      (\<exists>ws'. int_assign encode ws r v = Inr ws' \<and> length ws' = length ws \<and> int_value decode ws' r = v \<and>
        (\<forall>r'. valid_ref ws r' \<and>
           (ref_start LENGTH('a) r' + ir_len r' \<le> ref_start LENGTH('a) r \<or>
            ref_start LENGTH('a) r + ir_len r \<le> ref_start LENGTH('a) r') \<longrightarrow>
           int_value decode ws' r' = int_value decode ws r'))) \<and>
    (\<not> unat (encode v) < 2 ^ ir_len r \<longrightarrow> int_assign encode ws r v = Inl Out_Of_Range)"
proof -
  have fits: "int_ensure_fits r (encode v) \<longleftrightarrow> unat (encode v) < 2 ^ ir_len r"
    using assms(2) by (simp add: int_ensure_fits_iff valid_ref_def take_bit_word_iff)
  have "decode (encode v) = v" using assms(3) by (rule block_coder.decode_encode)
  then show ?thesis
    using fits int_value_assign_same [OF assms(1,2), where decode = decode]
      int_value_assign_disjoint [OF assms(1,2), where decode = decode]
    by (auto simp: int_assign_def Let_def)
qed

theorem int_assign_roundtrip_witness:
  "(\<exists>ws'. int_assign forwarding_encode [0x12345678, 0x9ABCDEF0 :: 32 word] \<lparr>ir_word = 0, ir_offset = 28, ir_len = 9\<rparr> 300 = Inr ws' \<and>
     int_value forwarding_decode ws' \<lparr>ir_word = 0, ir_offset = 28, ir_len = 9\<rparr> = 300) \<and>
   int_assign forwarding_encode [0x12345678, 0x9ABCDEF0 :: 32 word] \<lparr>ir_word = 0, ir_offset = 28, ir_len = 9\<rparr> 512 = Inl Out_Of_Range"
proof -
  have pow: "is_power_of_two LENGTH(32)" unfolding is_power_of_two_def has_single_bit_power by (rule exI [of _ 5]) simp
  have "valid_ref [0x12345678, 0x9ABCDEF0 :: 32 word] \<lparr>ir_word = 0, ir_offset = 28, ir_len = 9\<rparr>"
    by (simp add: valid_ref_def ref_start_def)
  note R = int_assign_roundtrip [OF pow this forwarding.block_coder_axioms]
  show ?thesis using R [of 300] R [of 512] by (auto simp: forwarding_encode_def)
qed

text \<open>
  \<open>bits_needed\<close> is the least width (at least one) that holds every value of a domain of the
  given size, so a pool of that width refuses no value of the domain.
\<close>

theorem bits_needed_least:
  fixes n :: "'a::len word"
  assumes "0 < n"
  shows "(\<forall>x < n. unat x < 2 ^ unat (bits_needed n)) \<and> 1 \<le> unat (bits_needed n) \<and>
    (\<forall>w \<ge> 1. (\<forall>x < n. unat x < 2 ^ w) \<longrightarrow> unat (bits_needed n) \<le> w)"
proof -
  have all: "(\<forall>x < n. unat x < 2 ^ w) \<longleftrightarrow> unat (n - 1) < 2 ^ w" for w
  proof -
    have u: "unat (n - 1) = unat n - 1" and "0 < unat n"
      using assms unat_minus_one [of n] by (auto simp: unat_gt_0)
    then have "n - 1 < n" by (simp add: word_less_nat_alt)
    moreover have "unat x \<le> unat (n - 1)" if "x < n" for x
      using that u by (simp add: word_less_nat_alt)
    ultimately show ?thesis by (metis le_less_trans)
  qed
  show ?thesis
  proof (cases "n \<le> 1")
    case True
    with assms have "unat n = 1" by (simp add: word_le_nat_alt word_less_nat_alt)
    then have "n = 1" by (simp add: word_unat_eq_iff)
    then show ?thesis by (simp add: bits_needed_def all)
  next
    case False
    have "bit_width (unat (n - 1)) \<le> LENGTH('a)" by (simp add: bit_width_le_iff)
    then have "bit_width (unat (n - 1)) < 2 ^ LENGTH('a)" using less_exp [of "LENGTH('a)"] by linarith
    then have u: "unat (bits_needed n) = bit_width (unat (n - 1))"
      using False by (simp add: bits_needed_def unat_of_nat)
    have "n - 1 \<noteq> 0" using False by auto
    then have "0 < bit_width (unat (n - 1))" by (intro bit_width_pos) (simp add: unat_gt_0)
    then show ?thesis unfolding all u by (simp add: less_two_power_bit_width bit_width_le_iff)
  qed
qed

theorem bits_needed_least_witness:
  "(0::32 word) < 5 \<and> unat (4::32 word) < 2 ^ unat (bits_needed (5::32 word)) \<and> 1 \<le> unat (bits_needed (5::32 word))"
proof -
  have "(0::32 word) < 5" and "(4::32 word) < 5" by simp_all
  with bits_needed_least [of "5::32 word"] show ?thesis by blast
qed

end
