(* ===== verification/Array_Pools.thy ===== *)
theory Array_Pools
  imports Bits Segments
begin

text \<open>
  \<^verbatim>\<open>include/tyr/common/bit_packed_array_pool.hpp\<close> and \<^verbatim>\<open>include/tyr/common/block_array_pool.hpp\<close>:
  pools of fixed-length arrays in geometrically growing segments of blocks, one with bit-packed
  elements and one with an element per block. A view is the position of an array inside one
  segment. A store that throws leaves the memory and the size as they are at the throw, so the
  operations that may throw return the state together with the exception, if any.
\<close>

section \<open>Views of bit-packed arrays\<close>

record bp_view =
  bv_data :: nat
  bv_length :: nat
  bv_width :: nat
  bv_offset :: nat

definition bpv_reference :: "nat \<Rightarrow> bp_view \<Rightarrow> nat \<Rightarrow> int_reference" where
  "bpv_reference digits view pos =
     (let bit_index = bv_offset view + pos * bv_width view;
          word = bv_data view + drop_bit (countr_zero_nat digits) bit_index;
          offset = bit_index AND (digits - 1)
      in \<lparr>ir_word = word, ir_offset = offset, ir_len = bv_width view\<rparr>)"

definition bpv_get :: "('a::len word \<Rightarrow> 'v) \<Rightarrow> 'a word list \<Rightarrow> bp_view \<Rightarrow> nat \<Rightarrow> 'v" where
  "bpv_get decode ws view pos = int_value decode ws (bpv_reference LENGTH('a) view pos)"

text \<open>The loop \<open>view[i] = elements[i]\<close> from position \<open>i\<close> on; it stops at the first throw.\<close>

fun bpv_store_from ::
  "('v \<Rightarrow> 'a::len word) \<Rightarrow> bp_view \<Rightarrow> 'a word list \<Rightarrow> nat \<Rightarrow> 'v list \<Rightarrow> 'a word list \<times> cxx_error option" where
  "bpv_store_from encode view ws i [] = (ws, None)"
| "bpv_store_from encode view ws i (x # xs) =
     (case int_assign encode ws (bpv_reference LENGTH('a) view i) x of
        Inl e \<Rightarrow> (ws, Some e)
      | Inr ws' \<Rightarrow> bpv_store_from encode view ws' (Suc i) xs)"

definition bpv_assign ::
  "('v \<Rightarrow> 'a::len word) \<Rightarrow> bp_view \<Rightarrow> 'a word list \<Rightarrow> 'v list \<Rightarrow> 'a word list \<times> cxx_error option" where
  "bpv_assign encode view ws elements =
     (if length elements \<noteq> bv_length view then (ws, Some Invalid_Argument)
      else bpv_store_from encode view ws 0 elements)"

definition bpv_equal ::
  "('a::len word \<Rightarrow> 'v) \<Rightarrow> 'a word list \<Rightarrow> bp_view \<Rightarrow> 'a word list \<Rightarrow> bp_view \<Rightarrow> bool" where
  "bpv_equal decode ws lhs ws' rhs =
     (bv_length lhs = bv_length rhs \<and>
      list_all (\<lambda>i. bpv_get decode ws lhs i = bpv_get decode ws' rhs i) [0..<bv_length lhs])"

definition bpv_equal_span :: "('a::len word \<Rightarrow> 'v) \<Rightarrow> 'a word list \<Rightarrow> bp_view \<Rightarrow> 'v list \<Rightarrow> bool" where
  "bpv_equal_span decode ws lhs rhs =
     (bv_length lhs = length rhs \<and>
      list_all (\<lambda>i. bpv_get decode ws lhs i = rhs ! i) [0..<bv_length lhs])"

section \<open>The pool of bit-packed arrays\<close>

record 'b bp_pool =
  bp_segments :: "'b list list"
  bp_length :: nat
  bp_width :: nat
  bp_capacity :: nat
  bp_size :: nat

definition bp_init :: "nat \<Rightarrow> nat \<Rightarrow> 'a::len word bp_pool" where
  "bp_init len width = \<lparr>bp_segments = [], bp_length = len, bp_width = width, bp_capacity = 0, bp_size = 0\<rparr>"

definition blocks_for_bits :: "nat \<Rightarrow> nat \<Rightarrow> nat" where
  "blocks_for_bits digits bits = drop_bit (countr_zero_nat digits) (bits + digits - 1)"

definition bp_reserve :: "nat \<Rightarrow> nat \<Rightarrow> 'a::len word bp_pool \<Rightarrow> 'a word bp_pool" where
  "bp_reserve seg_shift sz pool =
     (if sz = 0 \<or> sz \<le> bp_capacity pool then pool
      else
        let last_segment = get_segment_index seg_shift (sz - 1);
            first_new_segment = length (bp_segments pool);
            bits_per_array = bp_length pool * bp_width pool;
            arrays_in_segment = (\<lambda>seg. push_bit seg (2 ^ seg_shift));
            new_segment = (\<lambda>seg. replicate (blocks_for_bits LENGTH('a) (arrays_in_segment seg * bits_per_array)) 0)
        in pool\<lparr>bp_segments := take (last_segment + 1) (bp_segments pool) @
                                map new_segment [first_new_segment..<last_segment + 1],
                bp_capacity := bp_capacity pool +
                                sum_list (map arrays_in_segment [first_new_segment..<last_segment + 1])\<rparr>)"

definition bp_view_at :: "nat \<Rightarrow> 'a::len word bp_pool \<Rightarrow> nat \<Rightarrow> nat \<times> bp_view" where
  "bp_view_at seg_shift pool index =
     (let seg_idx = get_segment_index seg_shift index;
          seg_pos = get_segment_pos seg_shift index;
          start_bit = seg_pos * bp_width pool * bp_length pool;
          data = drop_bit (countr_zero_nat LENGTH('a)) start_bit;
          offset = start_bit AND (LENGTH('a) - 1)
      in (seg_idx, \<lparr>bv_data = data, bv_length = bp_length pool, bv_width = bp_width pool, bv_offset = offset\<rparr>))"

definition bp_push_back ::
  "nat \<Rightarrow> ('v \<Rightarrow> 'a::len word) \<Rightarrow> 'a word bp_pool \<Rightarrow> 'v list \<Rightarrow> 'a word bp_pool \<times> cxx_error option" where
  "bp_push_back seg_shift encode pool elements =
     (if length elements \<noteq> bp_length pool then (pool, Some Invalid_Argument)
      else
        let index = bp_size pool;
            pool = bp_reserve seg_shift (bp_size pool + 1) pool;
            pool = pool\<lparr>bp_size := bp_size pool + 1\<rparr>;
            (seg, view) = bp_view_at seg_shift pool index;
            (ws, e) = bpv_store_from encode view (bp_segments pool ! seg) 0 elements
        in (pool\<lparr>bp_segments := (bp_segments pool)[seg := ws]\<rparr>, e))"

definition bp_clear :: "'a::len word bp_pool \<Rightarrow> 'a word bp_pool" where
  "bp_clear pool = pool\<lparr>bp_size := 0\<rparr>"

section \<open>The pool of block arrays\<close>

record 'b ba_pool =
  ba_segments :: "'b list list"
  ba_length :: nat
  ba_capacity :: nat
  ba_size :: nat

definition ba_init :: "nat \<Rightarrow> 'a::len word ba_pool" where
  "ba_init len = \<lparr>ba_segments = [], ba_length = len, ba_capacity = 0, ba_size = 0\<rparr>"

definition ba_reserve :: "nat \<Rightarrow> nat \<Rightarrow> 'a::len word ba_pool \<Rightarrow> 'a word ba_pool" where
  "ba_reserve seg_shift sz pool =
     (if sz = 0 \<or> sz \<le> ba_capacity pool then pool
      else
        let last_segment = get_segment_index seg_shift (sz - 1);
            first_new_segment = length (ba_segments pool);
            arrays_in_segment = (\<lambda>seg. push_bit seg (2 ^ seg_shift));
            new_segment = (\<lambda>seg. replicate (arrays_in_segment seg * ba_length pool) 0)
        in pool\<lparr>ba_segments := take (last_segment + 1) (ba_segments pool) @
                                map new_segment [first_new_segment..<last_segment + 1],
                ba_capacity := ba_capacity pool +
                                sum_list (map arrays_in_segment [first_new_segment..<last_segment + 1])\<rparr>)"

definition ba_view_at :: "nat \<Rightarrow> 'a::len word ba_pool \<Rightarrow> nat \<Rightarrow> nat \<times> nat" where
  "ba_view_at seg_shift pool index =
     (get_segment_index seg_shift index, get_segment_pos seg_shift index * ba_length pool)"

definition bav_get :: "('a::len word \<Rightarrow> 'v) \<Rightarrow> 'a word list \<Rightarrow> nat \<Rightarrow> nat \<Rightarrow> 'v" where
  "bav_get decode ws data pos = block_value decode ws (data + pos)"

fun bav_store_from :: "('v \<Rightarrow> 'a::len word) \<Rightarrow> nat \<Rightarrow> 'a word list \<Rightarrow> nat \<Rightarrow> 'v list \<Rightarrow> 'a word list" where
  "bav_store_from encode data ws i [] = ws"
| "bav_store_from encode data ws i (x # xs) =
     bav_store_from encode data (block_assign encode ws (data + i) x) (Suc i) xs"

definition ba_push_back ::
  "nat \<Rightarrow> ('v \<Rightarrow> 'a::len word) \<Rightarrow> 'a word ba_pool \<Rightarrow> 'v list \<Rightarrow> 'a word ba_pool \<times> cxx_error option" where
  "ba_push_back seg_shift encode pool elements =
     (if length elements \<noteq> ba_length pool then (pool, Some Invalid_Argument)
      else
        let index = ba_size pool;
            pool = ba_reserve seg_shift (ba_size pool + 1) pool;
            pool = pool\<lparr>ba_size := ba_size pool + 1\<rparr>;
            (seg, data) = ba_view_at seg_shift pool index;
            ws = bav_store_from encode data (ba_segments pool ! seg) 0 elements
        in (pool\<lparr>ba_segments := (ba_segments pool)[seg := ws]\<rparr>, None))"

definition ba_clear :: "'a::len word ba_pool \<Rightarrow> 'a word ba_pool" where
  "ba_clear pool = pool\<lparr>ba_size := 0\<rparr>"


section \<open>Abstraction and invariants\<close>

definition bp_array :: "nat \<Rightarrow> ('a::len word \<Rightarrow> 'v) \<Rightarrow> 'a word bp_pool \<Rightarrow> nat \<Rightarrow> 'v list" where
  "bp_array seg_shift decode pool index =
     (let (seg, view) = bp_view_at seg_shift pool index
      in map (bpv_get decode (bp_segments pool ! seg) view) [0..<bv_length view])"

definition bp_list :: "nat \<Rightarrow> ('a::len word \<Rightarrow> 'v) \<Rightarrow> 'a word bp_pool \<Rightarrow> 'v list list" where
  "bp_list seg_shift decode pool = map (bp_array seg_shift decode pool) [0..<bp_size pool]"

definition bp_invar :: "nat \<Rightarrow> 'a::len word bp_pool \<Rightarrow> bool" where
  "bp_invar seg_shift pool \<longleftrightarrow>
     segments_shape seg_shift (\<lambda>n. blocks_for_bits LENGTH('a) (n * (bp_length pool * bp_width pool)))
       (bp_segments pool) \<and>
     bp_capacity pool = segments_capacity seg_shift (length (bp_segments pool)) \<and>
     bp_size pool \<le> bp_capacity pool \<and> bp_width pool \<le> LENGTH('a)"

definition ba_array :: "nat \<Rightarrow> ('a::len word \<Rightarrow> 'v) \<Rightarrow> 'a word ba_pool \<Rightarrow> nat \<Rightarrow> 'v list" where
  "ba_array seg_shift decode pool index =
     (let (seg, data) = ba_view_at seg_shift pool index
      in map (bav_get decode (ba_segments pool ! seg) data) [0..<ba_length pool])"

definition ba_list :: "nat \<Rightarrow> ('a::len word \<Rightarrow> 'v) \<Rightarrow> 'a word ba_pool \<Rightarrow> 'v list list" where
  "ba_list seg_shift decode pool = map (ba_array seg_shift decode pool) [0..<ba_size pool]"

definition ba_invar :: "nat \<Rightarrow> 'a::len word ba_pool \<Rightarrow> bool" where
  "ba_invar seg_shift pool \<longleftrightarrow>
     segments_shape seg_shift (\<lambda>n. n * ba_length pool) (ba_segments pool) \<and>
     ba_capacity pool = segments_capacity seg_shift (length (ba_segments pool)) \<and>
     ba_size pool \<le> ba_capacity pool"

section \<open>Growing the segments\<close>

lemma sum_arrays_in_segments:
  "m \<le> n \<Longrightarrow> segments_capacity s m + sum_list (map (\<lambda>seg. push_bit seg (2 ^ s)) [m..<n]) = segments_capacity s n"
proof (induction n)
  case (Suc n)
  then show ?case by (cases "m = Suc n") (auto simp: push_bit_eq_mult ac_simps)
qed simp

text \<open>What \<open>reserve\<close> does to the segments in either pool, once the capacity is too small.\<close>

lemma reserve_segments:
  fixes segs :: "'b list list" and z :: 'b
  assumes shape: "segments_shape s blocks segs" and cap: "segments_capacity s (length segs) < n"
  obtains segs' where
    "take (Suc (get_segment_index s (n - Suc 0))) segs @
     map (\<lambda>seg. replicate (blocks (push_bit seg (2 ^ s))) z)
       [length segs..<Suc (get_segment_index s (n - Suc 0))] = segs'"
    "segments_capacity s (length segs) +
     sum_list (map (\<lambda>seg. push_bit seg (2 ^ s)) [length segs..<Suc (get_segment_index s (n - Suc 0))]) =
     segments_capacity s (length segs')"
    "segments_shape s blocks segs'" "n \<le> segments_capacity s (length segs')" "length segs \<le> length segs'"
    "\<And>i. i < length segs \<Longrightarrow> segs' ! i = segs ! i"
proof -
  let ?g = "get_segment_index s (n - Suc 0)"
  let ?new = "map (\<lambda>seg. replicate (blocks (push_bit seg (2 ^ s))) z) [length segs..<Suc ?g]"
  have "\<not> n - Suc 0 < segments_capacity s (length segs)" using cap by simp
  then have le: "length segs \<le> ?g" unfolding segment_index_less_iff [symmetric] by simp
  then have segs': "take (Suc ?g) segs @ ?new = segs @ ?new" and len: "length (segs @ ?new) = Suc ?g"
    by simp_all
  have "n - Suc 0 < segments_capacity s (Suc ?g)" unfolding segment_index_less_iff [symmetric] by simp
  then have n: "n \<le> segments_capacity s (length (segs @ ?new))" unfolding len by simp
  show thesis
  proof (rule that [OF segs' _ _ n])
    show "segments_capacity s (length segs) + sum_list (map (\<lambda>seg. push_bit seg (2 ^ s)) [length segs..<Suc ?g]) =
      segments_capacity s (length (segs @ ?new))"
      unfolding len by (rule sum_arrays_in_segments) (use le in simp)
    show "segments_shape s blocks (segs @ ?new)"
      using shape le by (auto simp: segments_shape_def nth_append push_bit_eq_mult simp del: upt_Suc)
  qed (simp_all add: nth_append)
qed

lemma bp_reserve_spec:
  fixes pool :: "'a::len word bp_pool" and n :: nat
  assumes inv: "bp_invar s pool"
  defines "pool' \<equiv> bp_reserve s n pool"
  shows "bp_invar s pool'" "n \<le> bp_capacity pool'" "bp_size pool' = bp_size pool"
    "bp_length pool' = bp_length pool" "bp_width pool' = bp_width pool"
    "\<And>i. i < length (bp_segments pool) \<Longrightarrow> bp_segments pool' ! i = bp_segments pool ! i"
    "length (bp_segments pool) \<le> length (bp_segments pool')"
proof -
  have "bp_invar s pool' \<and> n \<le> bp_capacity pool' \<and> bp_size pool' = bp_size pool \<and>
    bp_length pool' = bp_length pool \<and> bp_width pool' = bp_width pool \<and>
    (\<forall>i < length (bp_segments pool). bp_segments pool' ! i = bp_segments pool ! i) \<and>
    length (bp_segments pool) \<le> length (bp_segments pool')"
  proof (cases "n \<le> bp_capacity pool")
    case True
    then show ?thesis using inv by (simp add: pool'_def bp_reserve_def)
  next
    case False
    let ?blocks = "\<lambda>n. blocks_for_bits LENGTH('a) (n * (bp_length pool * bp_width pool))"
    from False inv have "segments_shape s ?blocks (bp_segments pool)"
      "segments_capacity s (length (bp_segments pool)) < n" by (simp_all add: bp_invar_def)
    then show ?thesis
      by (rule reserve_segments [where z = 0])
        (use False inv in \<open>auto simp: pool'_def bp_reserve_def bp_invar_def Let_def simp del: upt_Suc\<close>)
  qed
  then show "bp_invar s pool'" "n \<le> bp_capacity pool'" "bp_size pool' = bp_size pool"
    "bp_length pool' = bp_length pool" "bp_width pool' = bp_width pool"
    "\<And>i. i < length (bp_segments pool) \<Longrightarrow> bp_segments pool' ! i = bp_segments pool ! i"
    "length (bp_segments pool) \<le> length (bp_segments pool')" by simp_all
qed


section \<open>Bit-packed views\<close>

definition view_start :: "nat \<Rightarrow> bp_view \<Rightarrow> nat" where
  "view_start digits view = bv_data view * digits + bv_offset view"

lemma bpv_reference_start:
  assumes "is_power_of_two digits"
  shows "ref_start digits (bpv_reference digits view pos) = view_start digits view + pos * bv_width view"
    and "ir_offset (bpv_reference digits view pos) < digits"
    and "ir_len (bpv_reference digits view pos) = bv_width view"
proof -
  have "0 < digits" using assms by (auto simp: is_power_of_two_def has_single_bit_def)
  with assms show "ref_start digits (bpv_reference digits view pos) = view_start digits view + pos * bv_width view"
    "ir_offset (bpv_reference digits view pos) < digits"
    "ir_len (bpv_reference digits view pos) = bv_width view"
    by (simp_all add: is_power_of_two_def bpv_reference_def ref_start_def view_start_def Let_def
        drop_bit_countr_zero and_mask_pow2 add_mult_distrib add.assoc del: One_nat_def)
qed

lemma valid_bpv_reference:
  fixes ws :: "'a::len word list"
  assumes "is_power_of_two LENGTH('a)" and "bv_width view \<le> LENGTH('a)"
    and "view_start LENGTH('a) view + n * bv_width view \<le> length ws * LENGTH('a)" and "pos < n"
  shows "valid_ref ws (bpv_reference LENGTH('a) view pos)"
proof -
  have "Suc pos * bv_width view \<le> n * bv_width view" using assms(4) by (intro mult_le_mono1) simp
  with assms show ?thesis by (simp add: valid_ref_def bpv_reference_start)
qed

lemma bpv_store_spec:
  fixes ws :: "'a::len word list"
  assumes pow: "is_power_of_two LENGTH('a)" and width: "bv_width view \<le> LENGTH('a)"
    and "view_start LENGTH('a) view + (i + length xs) * bv_width view \<le> length ws * LENGTH('a)"
    and "\<forall>x \<in> set xs. take_bit (bv_width view) (encode x) = encode x"
  shows "\<exists>ws'. bpv_store_from encode view ws i xs = (ws', None) \<and> length ws' = length ws \<and>
    (\<forall>j < length xs. bpv_get decode ws' view (i + j) = decode (encode (xs ! j))) \<and>
    (\<forall>r. valid_ref ws r \<longrightarrow>
       ref_start LENGTH('a) r + ir_len r \<le> view_start LENGTH('a) view + i * bv_width view \<or>
       view_start LENGTH('a) view + (i + length xs) * bv_width view \<le> ref_start LENGTH('a) r \<longrightarrow>
       int_value decode ws' r = int_value decode ws r)"
  using assms(3,4)
proof (induction xs arbitrary: ws i)
  case (Cons x xs)
  let ?d = "LENGTH('a)" and ?w = "bv_width view" and ?b = "view_start LENGTH('a) view"
  let ?r = "bpv_reference ?d view i"
  let ?ws = "write_int ws (ir_word ?r) (encode x) (ir_offset ?r) (ir_len ?r)"
  note ref = bpv_reference_start [OF pow, of view]
  have valid: "valid_ref ws ?r"
    using Cons.prems by (intro valid_bpv_reference [OF pow width, of "i + length (x # xs)"]) auto
  have fits: "int_ensure_fits ?r (encode x)"
    using Cons.prems width by (simp add: int_ensure_fits_iff ref)
  have step: "bpv_store_from encode view ws i (x # xs) = bpv_store_from encode view ?ws (Suc i) xs"
    using fits by (simp add: int_assign_def Let_def)
  have same: "valid_ref ?ws r = valid_ref ws r" for r by (simp add: valid_ref_def)
  have range: "?b + (Suc i + length xs) * ?w \<le> length ?ws * ?d" using Cons.prems(1) by simp
  from Cons.IH [OF range] Cons.prems(2) obtain ws' where
    ws': "bpv_store_from encode view ?ws (Suc i) xs = (ws', None)" "length ws' = length ws"
    and new: "\<And>j. j < length xs \<Longrightarrow> bpv_get decode ws' view (Suc i + j) = decode (encode (xs ! j))"
    and old: "\<And>r. valid_ref ws r \<Longrightarrow> ref_start ?d r + ir_len r \<le> ?b + Suc i * ?w \<or>
       ?b + (Suc i + length xs) * ?w \<le> ref_start ?d r \<Longrightarrow> int_value decode ws' r = int_value decode ?ws r"
    unfolding same by auto
  have first: "int_value decode ws' ?r = decode (encode x)"
    using old [OF valid] int_value_assign_same [OF pow valid fits] by (simp add: ref)
  have "bpv_get decode ws' view (i + j) = decode (encode ((x # xs) ! j))" if "j < length (x # xs)" for j
    using that first new [of "j - 1"] by (cases j) (simp_all add: bpv_get_def)
  moreover have "int_value decode ws' r = int_value decode ws r"
    if v: "valid_ref ws r" and disj: "ref_start ?d r + ir_len r \<le> ?b + i * ?w \<or>
       ?b + (i + length (x # xs)) * ?w \<le> ref_start ?d r" for r
  proof -
    have "(i + length (x # xs)) * ?w = Suc i * ?w + length xs * ?w" by (simp add: add_mult_distrib)
    with disj have "ref_start ?d r + ir_len r \<le> ref_start ?d ?r \<or> ref_start ?d ?r + ir_len ?r \<le> ref_start ?d r"
      by (auto simp: ref)
    then have "int_value decode ?ws r = int_value decode ws r"
      by (rule int_value_assign_disjoint [OF pow valid v])
    with old [OF v] disj show ?thesis by auto
  qed
  ultimately show ?case using step ws' by auto
qed simp

lemma blocks_for_bits_enough:
  assumes "is_power_of_two digits" shows "bits \<le> blocks_for_bits digits bits * digits"
proof -
  have d: "0 < digits" using assms by (auto simp: is_power_of_two_def has_single_bit_def)
  have "bits + digits - 1 < digits + digits * ((bits + digits - 1) div digits)"
    using d by (rule dividend_less_times_div)
  then show ?thesis
    using assms d by (simp add: blocks_for_bits_def is_power_of_two_def drop_bit_countr_zero mult.commute
        del: One_nat_def)
qed

section \<open>Bit-packed pools\<close>

lemma bp_view_at_props:
  fixes pool :: "'a::len word bp_pool"
  assumes pow: "is_power_of_two LENGTH('a)" and inv: "bp_invar s pool" and i: "i < bp_capacity pool"
  obtains view where "bp_view_at s pool i = (get_segment_index s i, view)"
    "view_start LENGTH('a) view = get_segment_pos s i * (bp_length pool * bp_width pool)"
    "bv_length view = bp_length pool" "bv_width view = bp_width pool"
    "get_segment_index s i < length (bp_segments pool)"
    "view_start LENGTH('a) view + bp_length pool * bp_width pool
       \<le> length (bp_segments pool ! get_segment_index s i) * LENGTH('a)"
proof -
  let ?d = "LENGTH('a)" and ?g = "get_segment_index s i" and ?p = "get_segment_pos s i"
  let ?bits = "bp_length pool * bp_width pool"
  obtain view where view: "bp_view_at s pool i = (?g, view)" by (simp add: bp_view_at_def Let_def)
  have start: "view_start ?d view = ?p * ?bits"
    using pow view
    by (auto simp: bp_view_at_def Let_def view_start_def is_power_of_two_def drop_bit_countr_zero
        and_mask_pow2 ac_simps simp del: One_nat_def)
  have g: "?g < length (bp_segments pool)" using inv i by (simp add: bp_invar_def segment_index_less_iff)
  have "(?p + 1) * ?bits \<le> 2 ^ s * 2 ^ ?g * ?bits"
    using segment_pos_bound [of s i] by (intro mult_le_mono1) simp
  also have "\<dots> \<le> blocks_for_bits ?d (2 ^ s * 2 ^ ?g * ?bits) * ?d"
    by (rule blocks_for_bits_enough [OF pow])
  also have "\<dots> = length (bp_segments pool ! ?g) * ?d"
    using inv g by (simp add: bp_invar_def segments_shape_def)
  finally have "view_start ?d view + ?bits \<le> length (bp_segments pool ! ?g) * ?d"
    by (simp add: start)
  with view start g show thesis by (intro that) (auto simp: bp_view_at_def Let_def)
qed

lemma bp_array_cong:
  fixes pool pool' :: "'a::len word bp_pool"
  assumes "bp_length pool' = bp_length pool" and "bp_width pool' = bp_width pool"
    and "bp_segments pool' ! get_segment_index s i = bp_segments pool ! get_segment_index s i"
  shows "bp_array s decode pool' i = bp_array s decode pool i"
  using assms by (simp add: bp_array_def bp_view_at_def Let_def)


text \<open>Two arrays of one segment do not overlap, so a store into one keeps what the other reads.\<close>

lemma bpv_views_disjoint:
  fixes pool :: "'a::len word bp_pool"
  assumes pow: "is_power_of_two LENGTH('a)" and "bv_width vi = bp_width pool"
    and vi: "view_start LENGTH('a) vi = get_segment_pos s i * (bp_length pool * bp_width pool)"
    and vn: "start = get_segment_pos s n * (bp_length pool * bp_width pool)"
    and ne: "get_segment_pos s i \<noteq> get_segment_pos s n" and j: "j < bp_length pool"
  defines "r \<equiv> bpv_reference LENGTH('a) vi j"
  shows "ref_start LENGTH('a) r + ir_len r \<le> start \<or>
         start + bp_length pool * bp_width pool \<le> ref_start LENGTH('a) r"
proof -
  let ?bits = "bp_length pool * bp_width pool"
  have "Suc j * bp_width pool \<le> ?bits" using j by (intro mult_le_mono1) simp
  moreover have "Suc (get_segment_pos s i) * ?bits \<le> get_segment_pos s n * ?bits \<or>
      Suc (get_segment_pos s n) * ?bits \<le> get_segment_pos s i * ?bits"
    using ne by (metis mult_le_mono1 Suc_leI nat_neq_iff)
  ultimately show ?thesis
    unfolding r_def bpv_reference_start [OF pow] by (auto simp: assms(2) vi vn)
qed

lemma bp_store_array:
  fixes p :: "'a::len word bp_pool"
  assumes pow: "is_power_of_two LENGTH('a)" and inv: "bp_invar s p" and n: "n < bp_capacity p"
    and len: "length xs = bp_length p"
    and fits: "\<forall>x \<in> set xs. take_bit (bp_width p) (encode x) = encode x"
  obtains view ws' q where "bp_view_at s p n = (get_segment_index s n, view)"
    "bpv_store_from encode view (bp_segments p ! get_segment_index s n) 0 xs = (ws', None)"
    "q = p\<lparr>bp_segments := (bp_segments p)[get_segment_index s n := ws']\<rparr>"
    "bp_invar s q" "bp_array s decode q n = map (decode \<circ> encode) xs"
    "\<forall>i < bp_capacity p. i \<noteq> n \<longrightarrow> bp_array s decode q i = bp_array s decode p i"
proof -
  let ?d = "LENGTH('a)" and ?g = "get_segment_index s n" and ?bits = "bp_length p * bp_width p"
  let ?ws = "bp_segments p ! ?g"
  from bp_view_at_props [OF pow inv n] obtain view where
    view: "bp_view_at s p n = (?g, view)" and start: "view_start ?d view = get_segment_pos s n * ?bits"
    and vl: "bv_length view = bp_length p" "bv_width view = bp_width p"
    and seg: "?g < length (bp_segments p)" and space: "view_start ?d view + ?bits \<le> length ?ws * ?d" .
  have "bv_width view \<le> ?d" using inv vl by (simp add: bp_invar_def)
  from bpv_store_spec [OF pow this, of 0 xs ?ws encode decode] space fits len vl obtain ws' where
    store: "bpv_store_from encode view ?ws 0 xs = (ws', None)" "length ws' = length ?ws"
    and new: "\<And>j. j < length xs \<Longrightarrow> bpv_get decode ws' view j = decode (encode (xs ! j))"
    and old: "\<And>r. valid_ref ?ws r \<Longrightarrow> ref_start ?d r + ir_len r \<le> view_start ?d view \<or>
       view_start ?d view + ?bits \<le> ref_start ?d r \<Longrightarrow> int_value decode ws' r = int_value decode ?ws r"
    by auto
  let ?q = "p\<lparr>bp_segments := (bp_segments p)[?g := ws']\<rparr>"
  have keep: "bp_array s decode ?q i = bp_array s decode p i" if i: "i < bp_capacity p" "i \<noteq> n" for i
  proof (cases "get_segment_index s i = ?g")
    case True
    from bp_view_at_props [OF pow inv i(1)] obtain vi where
      vi: "bp_view_at s p i = (?g, vi)" "view_start ?d vi = get_segment_pos s i * ?bits"
        "bv_length vi = bp_length p" "bv_width vi = bp_width p"
      and sp: "view_start ?d vi + ?bits \<le> length ?ws * ?d" unfolding True by blast
    have ne: "get_segment_pos s i \<noteq> get_segment_pos s n" using True i segment_split_inj by blast
    have "bpv_get decode ws' vi j = bpv_get decode ?ws vi j" if j: "j < bp_length p" for j
      unfolding bpv_get_def
      using sp vi inv bpv_views_disjoint [OF pow vi(4,2) start ne j]
      by (intro old valid_bpv_reference [OF pow _ _ j]) (auto simp: bp_invar_def)
    then show ?thesis using vi seg by (simp add: bp_array_def bp_view_at_def Let_def)
  qed (auto intro!: bp_array_cong)
  show thesis
  proof (rule that [OF view store(1) refl])
    show "bp_invar s ?q" using inv store(2) by (simp add: bp_invar_def segments_shape_update)
    show "bp_array s decode ?q n = map (decode \<circ> encode) xs"
      using view seg len vl new by (auto simp: bp_array_def bp_view_at_def Let_def intro!: nth_equalityI)
  qed (use keep in blast)
qed

lemma bp_push_back_spec:
  fixes pool :: "'a::len word bp_pool"
  assumes pow: "is_power_of_two LENGTH('a)" and inv: "bp_invar s pool"
    and len: "length xs = bp_length pool"
    and fits: "\<forall>x \<in> set xs. take_bit (bp_width pool) (encode x) = encode x"
  shows "\<exists>pool'. bp_push_back s encode pool xs = (pool', None) \<and> bp_invar s pool' \<and>
    bp_length pool' = bp_length pool \<and> bp_width pool' = bp_width pool \<and>
    bp_list s decode pool' = bp_list s decode pool @ [map (decode \<circ> encode) xs]"
proof -
  let ?n = "bp_size pool"
  define p where "p = (bp_reserve s (Suc ?n) pool)\<lparr>bp_size := Suc ?n\<rparr>"
  note R = bp_reserve_spec [OF inv, where n = "Suc ?n"]
  have inv_p: "bp_invar s p" and n: "?n < bp_capacity p" and sz: "bp_size p = Suc ?n"
    and lw: "bp_length p = bp_length pool" "bp_width p = bp_width pool"
    using R by (simp_all add: bp_invar_def p_def)
  have same: "bp_array s decode p i = bp_array s decode pool i" "i < bp_capacity p" if "i < ?n" for i
  proof -
    have "i < bp_capacity pool" using that inv by (simp add: bp_invar_def)
    then have "get_segment_index s i < length (bp_segments pool)"
      using inv by (simp add: bp_invar_def segment_index_less_iff)
    then show "bp_array s decode p i = bp_array s decode pool i"
      using R by (intro bp_array_cong) (auto simp: p_def)
    show "i < bp_capacity p" using that n by simp
  qed
  from len fits have "length xs = bp_length p"
    "\<forall>x \<in> set xs. take_bit (bp_width p) (encode x) = encode x" by (simp_all add: lw)
  from bp_store_array [OF pow inv_p n this, where decode = decode] obtain view ws' q where
    view: "bp_view_at s p ?n = (get_segment_index s ?n, view)"
    and store: "bpv_store_from encode view (bp_segments p ! get_segment_index s ?n) 0 xs = (ws', None)"
    and q: "q = p\<lparr>bp_segments := (bp_segments p)[get_segment_index s ?n := ws']\<rparr>"
    and inv_q: "bp_invar s q" and new: "bp_array s decode q ?n = map (decode \<circ> encode) xs"
    and keep: "\<forall>i < bp_capacity p. i \<noteq> ?n \<longrightarrow> bp_array s decode q i = bp_array s decode p i" .
  have "bp_push_back s encode pool xs = (q, None)"
    using len view store R(3) by (simp add: bp_push_back_def Let_def q p_def)
  moreover have "bp_list s decode q = bp_list s decode pool @ [map (decode \<circ> encode) xs]"
    using keep same new sz by (simp add: bp_list_def q)
  ultimately show ?thesis using inv_q lw by (auto simp: q)
qed


lemma bp_push_back_wrong_length:
  "length xs \<noteq> bp_length pool \<Longrightarrow> bp_push_back s encode pool xs = (pool, Some Invalid_Argument)"
  by (simp add: bp_push_back_def)

section \<open>Block pools\<close>

lemma bav_store_spec:
  "data + i + length xs \<le> length ws \<Longrightarrow>
   length (bav_store_from encode data ws i xs) = length ws \<and>
   (\<forall>k < length ws. bav_store_from encode data ws i xs ! k =
      (if data + i \<le> k \<and> k < data + i + length xs then encode (xs ! (k - (data + i))) else ws ! k))"
proof (induction xs arbitrary: ws i)
  case (Cons x xs)
  then show ?case
    by (auto simp: block_assign_def nth_list_update nth_Cons' Suc_diff_le
        less_Suc_eq_le not_less_eq_eq Suc_diff_Suc le_less)
qed auto

lemma ba_reserve_spec:
  fixes pool :: "'a::len word ba_pool" and n :: nat
  assumes inv: "ba_invar s pool"
  defines "pool' \<equiv> ba_reserve s n pool"
  shows "ba_invar s pool'" "n \<le> ba_capacity pool'" "ba_size pool' = ba_size pool"
    "ba_length pool' = ba_length pool"
    "\<And>i. i < length (ba_segments pool) \<Longrightarrow> ba_segments pool' ! i = ba_segments pool ! i"
proof -
  have "ba_invar s pool' \<and> n \<le> ba_capacity pool' \<and> ba_size pool' = ba_size pool \<and>
    ba_length pool' = ba_length pool \<and>
    (\<forall>i < length (ba_segments pool). ba_segments pool' ! i = ba_segments pool ! i)"
  proof (cases "n \<le> ba_capacity pool")
    case True
    then show ?thesis using inv by (simp add: pool'_def ba_reserve_def)
  next
    case False
    let ?blocks = "\<lambda>n. n * ba_length pool"
    from False inv have "segments_shape s ?blocks (ba_segments pool)"
      "segments_capacity s (length (ba_segments pool)) < n" by (simp_all add: ba_invar_def)
    then show ?thesis
      by (rule reserve_segments [where z = 0])
        (use False inv in \<open>auto simp: pool'_def ba_reserve_def ba_invar_def Let_def simp del: upt_Suc\<close>)
  qed
  then show "ba_invar s pool'" "n \<le> ba_capacity pool'" "ba_size pool' = ba_size pool"
    "ba_length pool' = ba_length pool"
    "\<And>i. i < length (ba_segments pool) \<Longrightarrow> ba_segments pool' ! i = ba_segments pool ! i" by simp_all
qed

lemma ba_view_bounds:
  assumes inv: "ba_invar s p" and i: "i < ba_capacity p"
  shows "get_segment_index s i < length (ba_segments p)"
    "get_segment_pos s i * ba_length p + ba_length p \<le> length (ba_segments p ! get_segment_index s i)"
proof -
  show g: "get_segment_index s i < length (ba_segments p)"
    using inv i by (simp add: ba_invar_def segment_index_less_iff)
  have "Suc (get_segment_pos s i) * ba_length p \<le> 2 ^ s * 2 ^ get_segment_index s i * ba_length p"
    using segment_pos_bound [of s i] by (intro mult_le_mono1) simp
  with g inv show "get_segment_pos s i * ba_length p + ba_length p \<le> length (ba_segments p ! get_segment_index s i)"
    by (simp add: ba_invar_def segments_shape_def)
qed

lemma ba_store_array:
  fixes p :: "'a::len word ba_pool" and encode :: "'v \<Rightarrow> 'a word"
  assumes inv: "ba_invar s p" and n: "n < ba_capacity p" and len: "length xs = ba_length p"
  defines "g \<equiv> get_segment_index s n"
  defines "q \<equiv> p\<lparr>ba_segments := (ba_segments p)[g :=
      bav_store_from encode (get_segment_pos s n * ba_length p) (ba_segments p ! g) 0 xs]\<rparr>"
  shows "ba_invar s q" "ba_array s decode q n = map (decode \<circ> encode) xs"
    "\<And>i. i < ba_capacity p \<Longrightarrow> i \<noteq> n \<Longrightarrow> ba_array s decode q i = ba_array s decode p i"
proof -
  let ?data = "get_segment_pos s n * ba_length p" and ?ws = "ba_segments p ! g"
  note B = ba_view_bounds [OF inv n, folded g_def]
  note S = bav_store_spec [of ?data 0 xs ?ws encode, simplified]
  show "ba_invar s q" using inv B S len by (simp add: ba_invar_def q_def segments_shape_update)
  show "ba_array s decode q n = map (decode \<circ> encode) xs"
    using B S len by (auto simp: ba_array_def ba_view_at_def q_def bav_get_def block_value_def
        simp flip: g_def intro!: nth_equalityI)
  fix i assume i: "i < ba_capacity p" "i \<noteq> n"
  note Bi = ba_view_bounds [OF inv i(1)]
  show "ba_array s decode q i = ba_array s decode p i"
  proof (cases "get_segment_index s i = g")
    case True
    have ne: "get_segment_pos s i \<noteq> get_segment_pos s n"
      using True i segment_split_inj unfolding g_def by blast
    have disj: "Suc (get_segment_pos s i) * ba_length p \<le> ?data \<or>
        Suc (get_segment_pos s n) * ba_length p \<le> get_segment_pos s i * ba_length p"
      using ne by (metis mult_le_mono1 Suc_leI nat_neq_iff)
    have "bav_store_from encode ?data ?ws 0 xs ! (get_segment_pos s i * ba_length p + j) =
        ?ws ! (get_segment_pos s i * ba_length p + j)" if j: "j < ba_length p" for j
    proof -
      have "get_segment_pos s i * ba_length p + j < length ?ws"
        using Bi(2) j unfolding True by simp
      moreover have "\<not> (?data \<le> get_segment_pos s i * ba_length p + j \<and>
          get_segment_pos s i * ba_length p + j < ?data + length xs)"
        using disj j len by auto
      ultimately show ?thesis using S B len by auto
    qed
    then show ?thesis
      using True B by (simp add: ba_array_def ba_view_at_def q_def bav_get_def block_value_def)
  qed (simp add: ba_array_def ba_view_at_def q_def)
qed

lemma ba_push_back_spec:
  fixes pool :: "'a::len word ba_pool"
  assumes inv: "ba_invar s pool" and len: "length xs = ba_length pool"
  shows "\<exists>pool'. ba_push_back s encode pool xs = (pool', None) \<and> ba_invar s pool' \<and>
    ba_length pool' = ba_length pool \<and>
    ba_list s decode pool' = ba_list s decode pool @ [map (decode \<circ> encode) xs]"
proof -
  let ?n = "ba_size pool"
  define p where "p = (ba_reserve s (Suc ?n) pool)\<lparr>ba_size := Suc ?n\<rparr>"
  note R = ba_reserve_spec [OF inv, where n = "Suc ?n"]
  have inv_p: "ba_invar s p" and n: "?n < ba_capacity p" and sz: "ba_size p = Suc ?n"
    and lw: "ba_length p = ba_length pool"
    using R by (simp_all add: ba_invar_def p_def)
  have same: "ba_array s decode p i = ba_array s decode pool i" if "i < ?n" for i
  proof -
    have "i < ba_capacity pool" using that inv by (simp add: ba_invar_def)
    with ba_view_bounds(1) [OF inv this] R show ?thesis
      by (simp add: p_def ba_array_def ba_view_at_def)
  qed
  have "length xs = ba_length p" using len lw by simp
  note S = ba_store_array [OF inv_p n this, where encode = encode]
  define q where "q = p\<lparr>ba_segments := (ba_segments p)[get_segment_index s ?n :=
      bav_store_from encode (get_segment_pos s ?n * ba_length p) (ba_segments p ! get_segment_index s ?n) 0 xs]\<rparr>"
  have "ba_push_back s encode pool xs = (q, None)"
    using len R by (simp add: ba_push_back_def Let_def q_def p_def ba_view_at_def)
  moreover have "ba_list s decode q = ba_list s decode pool @ [map (decode \<circ> encode) xs]"
  proof -
    have "ba_size q = Suc ?n" using sz by (simp add: q_def)
    with S(2,3) [folded q_def, where decode = decode] same n show ?thesis by (simp add: ba_list_def)
  qed
  ultimately show ?thesis using S(1) [folded q_def] lw by (auto simp: q_def)
qed


section \<open>The interface of a pool of arrays\<close>

text \<open>
  What the sets of arrays and the state storages rely on: pushing an array of the right length
  whose elements the pool can represent appends it to the sequence of stored arrays and changes no
  other array; any other length is refused without a change.
\<close>

text \<open>Pushing a sequence of arrays, as a fresh pool is filled.\<close>

fun push_all :: "('p \<Rightarrow> 'v list \<Rightarrow> 'p \<times> cxx_error option) \<Rightarrow> 'p \<Rightarrow> 'v list list \<Rightarrow> 'p \<times> cxx_error option" where
  "push_all push_back p [] = (p, None)"
| "push_all push_back p (xs # xss) =
     (case push_back p xs of (p', None) \<Rightarrow> push_all push_back p' xss | r \<Rightarrow> r)"

locale array_pool =
  fixes invar :: "'p \<Rightarrow> bool" and arrays :: "'p \<Rightarrow> 'v list list" and arity :: "'p \<Rightarrow> nat"
    and representable :: "'p \<Rightarrow> 'v \<Rightarrow> bool"
    and push_back :: "'p \<Rightarrow> 'v list \<Rightarrow> 'p \<times> cxx_error option"
  assumes push_ok: "invar p \<Longrightarrow> length xs = arity p \<Longrightarrow> \<forall>x \<in> set xs. representable p x \<Longrightarrow>
      \<exists>p'. push_back p xs = (p', None) \<and> invar p' \<and> arity p' = arity p \<and>
           representable p' = representable p \<and> arrays p' = arrays p @ [xs]"
    and push_wrong_length: "length xs \<noteq> arity p \<Longrightarrow> push_back p xs = (p, Some Invalid_Argument)"
begin

lemma push_all_arrays:
  assumes "invar p" and "\<forall>xs \<in> set xss. length xs = arity p \<and> (\<forall>x \<in> set xs. representable p x)"
  shows "\<exists>p'. push_all push_back p xss = (p', None) \<and> invar p' \<and> arrays p' = arrays p @ xss"
  using assms
proof (induction xss arbitrary: p)
  case (Cons xs xss)
  then obtain p' where "push_back p xs = (p', None)" "invar p'" "arity p' = arity p"
    "representable p' = representable p" "arrays p' = arrays p @ [xs]"
    using push_ok [of p xs] by auto
  with Cons.IH [of p'] Cons.prems show ?case by auto
qed simp

lemma push_all_arity:
  assumes "invar p" and "\<forall>xs \<in> set xss. length xs = arity p \<and> (\<forall>x \<in> set xs. representable p x)"
  shows "arity (fst (push_all push_back p xss)) = arity p"
  using assms
proof (induction xss arbitrary: p)
  case (Cons xs xss)
  then obtain p' where "push_back p xs = (p', None)" "invar p'" "arity p' = arity p"
    "representable p' = representable p"
    using push_ok [of p xs] by auto
  with Cons.IH [of p'] Cons.prems show ?case by auto
qed simp

lemma push_nth_old:
  assumes "invar p" and "length xs = arity p" and "\<forall>x \<in> set xs. representable p x"
    and "i < length (arrays p)"
  shows "arrays (fst (push_back p xs)) ! i = arrays p ! i"
  using push_ok [OF assms(1-3)] assms(4) by (auto simp: nth_append)

end

text \<open>
  Both pools implement the interface for blocks of type \<open>uint_t\<close> (32 bits) and the coder of
  \<^verbatim>\<open>bit.hpp\<close>.
\<close>

lemma forwarding_id: "forwarding_decode \<circ> forwarding_encode = id"
  by (simp add: fun_eq_iff forwarding_decode_def forwarding_encode_def)

interpretation bp32: array_pool
  "bp_invar s :: 32 word bp_pool \<Rightarrow> bool" "bp_list s forwarding_decode" bp_length
  "\<lambda>p x. take_bit (bp_width p) x = x" "bp_push_back s forwarding_encode"
  for s
proof unfold_locales
  fix p :: "32 word bp_pool" and xs :: "32 word list"
  assume "bp_invar s p" and "length xs = bp_length p" and "\<forall>x \<in> set xs. take_bit (bp_width p) x = x"
  moreover have "is_power_of_two LENGTH(32)"
    unfolding is_power_of_two_def has_single_bit_power by (rule exI [of _ 5]) simp
  ultimately show "\<exists>p'. bp_push_back s forwarding_encode p xs = (p', None) \<and> bp_invar s p' \<and>
      bp_length p' = bp_length p \<and> (\<lambda>x. take_bit (bp_width p') x = x) = (\<lambda>x. take_bit (bp_width p) x = x) \<and>
      bp_list s forwarding_decode p' = bp_list s forwarding_decode p @ [xs]"
    using bp_push_back_spec [of s p xs forwarding_encode forwarding_decode]
    by (auto simp: forwarding_id forwarding_encode_def)
qed (rule bp_push_back_wrong_length)

interpretation ba32: array_pool
  "ba_invar s :: 32 word ba_pool \<Rightarrow> bool" "ba_list s forwarding_decode" ba_length
  "\<lambda>p x. True" "ba_push_back s forwarding_encode"
  for s
proof unfold_locales
  fix p :: "32 word ba_pool" and xs :: "32 word list"
  assume "ba_invar s p" and "length xs = ba_length p"
  then show "\<exists>p'. ba_push_back s forwarding_encode p xs = (p', None) \<and> ba_invar s p' \<and>
      ba_length p' = ba_length p \<and> (\<lambda>x. True) = (\<lambda>x. True) \<and>
      ba_list s forwarding_decode p' = ba_list s forwarding_decode p @ [xs]"
    using ba_push_back_spec [of s p xs forwarding_encode forwarding_decode] by (auto simp: forwarding_id)
qed (simp add: ba_push_back_def)

section \<open>Properties\<close>

text \<open>
  C24. Filling a fresh bit-packed pool with arrays of its length whose elements fit its width
  succeeds and the pool then holds exactly these arrays in order, however many segments were
  allocated on the way; an array of another length is refused with \<open>std::invalid_argument\<close> and
  leaves the pool unchanged.
\<close>

theorem bp_pool_fill:
  fixes xss :: "32 word list list"
  assumes "width \<le> 32" and "\<forall>xs \<in> set xss. length xs = len \<and> (\<forall>x \<in> set xs. unat x < 2 ^ width)"
  shows "\<exists>p. push_all (bp_push_back s forwarding_encode) (bp_init len width) xss = (p, None) \<and>
    bp_list s forwarding_decode p = xss \<and>
    (\<forall>ys. length ys \<noteq> len \<longrightarrow> bp_push_back s forwarding_encode p ys = (p, Some Invalid_Argument))"
proof -
  have init: "bp_invar s (bp_init len width :: 32 word bp_pool)" "bp_list s forwarding_decode (bp_init len width) = []"
    "bp_length (bp_init len width) = len" "bp_width (bp_init len width) = width"
    using assms(1) by (auto simp: bp_init_def bp_invar_def segments_shape_def bp_list_def)
  obtain p where p: "push_all (bp_push_back s forwarding_encode) (bp_init len width) xss = (p, None)"
    "bp_list s forwarding_decode p = xss"
    using bp32.push_all_arrays [OF init(1), of xss] assms(2) by (auto simp: init take_bit_word_iff)
  have "bp_length (fst (push_all (bp_push_back s forwarding_encode) (bp_init len width :: 32 word bp_pool) xss)) = len"
    using bp32.push_all_arity [OF init(1), of xss] assms(2) by (auto simp: init take_bit_word_iff)
  with p have "bp_length p = len" by simp
  with p show ?thesis using bp32.push_wrong_length [of _ p] by blast
qed

theorem bp_pool_fill_witness:
  "\<exists>p. push_all (bp_push_back 1 forwarding_encode) (bp_init 2 5) [[1, 2], [31, 30], [7, 0], [9, 9 :: 32 word]] = (p, None) \<and>
    bp_list 1 forwarding_decode p = [[1, 2], [31, 30], [7, 0], [9, 9]]"
  using bp_pool_fill [of 5 "[[1, 2], [31, 30], [7, 0], [9, 9 :: 32 word]]" 2 1] by auto

text \<open>
  The same for the pool with one block per element, which represents every value.
\<close>

theorem ba_pool_fill:
  fixes xss :: "32 word list list"
  assumes "\<forall>xs \<in> set xss. length xs = len"
  shows "\<exists>p. push_all (ba_push_back s forwarding_encode) (ba_init len) xss = (p, None) \<and>
    ba_list s forwarding_decode p = xss"
proof -
  have "ba_invar s (ba_init len :: 32 word ba_pool)" "ba_list s forwarding_decode (ba_init len) = []"
    "ba_length (ba_init len :: 32 word ba_pool) = len"
    by (auto simp: ba_init_def ba_invar_def segments_shape_def ba_list_def)
  then show ?thesis using ba32.push_all_arrays [of s "ba_init len" xss] assms by auto
qed

theorem ba_pool_fill_witness:
  "\<exists>p. push_all (ba_push_back 0 forwarding_encode) (ba_init 1) [[1], [2], [3 :: 32 word]] = (p, None) \<and>
    ba_list 0 forwarding_decode p = [[1], [2], [3]]"
  using ba_pool_fill [of "[[1], [2], [3 :: 32 word]]" 1 0] by auto

end
