(* ===== verification/Bitset_Span.thy ===== *)
theory Bitset_Span
  imports Bits
begin

text \<open>
  \<^verbatim>\<open>include/tyr/common/dynamic_bitset.hpp\<close>: the class \<open>BitsetSpan\<close>, a bit set over the blocks
  that start at \<open>m_data\<close>. The state is the list of these blocks and the number of bits;
  \<open>bs_set\<close> is the set of numbers the span represents.
\<close>

section \<open>State and operations\<close>

record 'b bitset_span =
  bs_data :: "'b list"
  bs_num_bits :: nat

definition block_index :: "nat \<Rightarrow> nat \<Rightarrow> nat" where
  "block_index digits pos = drop_bit (countr_zero_nat digits) pos"

definition block_pos :: "nat \<Rightarrow> nat \<Rightarrow> nat" where
  "block_pos digits pos = pos AND (digits - 1)"

definition num_blocks :: "nat \<Rightarrow> nat \<Rightarrow> nat" where
  "num_blocks digits num_bits = drop_bit (countr_zero_nat digits) (num_bits + digits - 1)"

definition npos :: nat where
  "npos = 2 ^ 64 - 1"

definition full_mask :: "'a::len word" where
  "full_mask = NOT 0"

definition last_mask :: "nat \<Rightarrow> 'a::len word" where
  "last_mask num_bits =
     (let r = num_bits mod LENGTH('a) in if r = 0 then full_mask else push_bit r 1 - 1)"

definition bs_blocks :: "'a::len word bitset_span \<Rightarrow> 'a word list" where
  "bs_blocks b = take (num_blocks LENGTH('a) (bs_num_bits b)) (bs_data b)"

definition bs_clear_trailing_bits :: "'a::len word bitset_span \<Rightarrow> 'a word bitset_span" where
  "bs_clear_trailing_bits b =
     (let n = num_blocks LENGTH('a) (bs_num_bits b) in
      if n = 0 then b
      else b\<lparr>bs_data := (bs_data b)[n - 1 := bs_data b ! (n - 1) AND last_mask (bs_num_bits b)]\<rparr>)"

definition bs_trailing_bits_zero :: "'a::len word bitset_span \<Rightarrow> bool" where
  "bs_trailing_bits_zero b =
     (let n = num_blocks LENGTH('a) (bs_num_bits b) in
      n = 0 \<or> bs_data b ! (n - 1) AND NOT (last_mask (bs_num_bits b)) = 0)"

definition bs_test :: "'a::len word bitset_span \<Rightarrow> nat \<Rightarrow> bool" where
  "bs_test b pos \<longleftrightarrow>
     bs_data b ! block_index LENGTH('a) pos AND push_bit (block_pos LENGTH('a) pos) 1 \<noteq> 0"

definition bs_count :: "'a::len word bitset_span \<Rightarrow> nat" where
  "bs_count b = sum_list (map popcount (bs_blocks b))"

definition bs_count_zeros :: "'a::len word bitset_span \<Rightarrow> nat" where
  "bs_count_zeros b = bs_num_bits b - bs_count b"

definition bs_any :: "'a::len word bitset_span \<Rightarrow> bool" where
  "bs_any b = list_ex (\<lambda>w. w \<noteq> 0) (bs_blocks b)"

definition bs_set_bit :: "'a::len word bitset_span \<Rightarrow> nat \<Rightarrow> 'a word bitset_span" where
  "bs_set_bit b pos =
     (let i = block_index LENGTH('a) pos in
      b\<lparr>bs_data := (bs_data b)[i := bs_data b ! i OR push_bit (block_pos LENGTH('a) pos) 1]\<rparr>)"

text \<open>\<open>std::fill\<close> over the blocks of the span; the memory behind them is not touched.\<close>

definition bs_fill :: "'a::len word bitset_span \<Rightarrow> 'a word \<Rightarrow> 'a word bitset_span" where
  "bs_fill b w =
     (let n = num_blocks LENGTH('a) (bs_num_bits b) in b\<lparr>bs_data := replicate n w @ drop n (bs_data b)\<rparr>)"

definition bs_set_all :: "'a::len word bitset_span \<Rightarrow> 'a word bitset_span" where
  "bs_set_all b = bs_clear_trailing_bits (bs_fill b full_mask)"

definition bs_reset_bit :: "'a::len word bitset_span \<Rightarrow> nat \<Rightarrow> 'a word bitset_span" where
  "bs_reset_bit b pos =
     (let i = block_index LENGTH('a) pos in
      b\<lparr>bs_data := (bs_data b)[i := bs_data b ! i AND NOT (push_bit (block_pos LENGTH('a) pos) 1)]\<rparr>)"

definition bs_reset_all :: "'a::len word bitset_span \<Rightarrow> 'a word bitset_span" where
  "bs_reset_all b = bs_fill b 0"

text \<open>
  The block loops of the four search functions: skip zero blocks, otherwise return the position
  of the lowest bit of the first non-zero block. \<open>i\<close> is the index of the first block of the list.
\<close>

fun bs_scan :: "nat \<Rightarrow> nat \<Rightarrow> 'a::len word list \<Rightarrow> nat" where
  "bs_scan num_bits i [] = npos"
| "bs_scan num_bits i (w # ws) =
     (if w = 0 then bs_scan num_bits (Suc i) ws
      else let b = i * LENGTH('a) + countr_zero w in if b < num_bits then b else npos)"

definition bs_find_first :: "'a::len word bitset_span \<Rightarrow> nat" where
  "bs_find_first b = bs_scan (bs_num_bits b) 0 (bs_blocks b)"

definition bs_find_next :: "'a::len word bitset_span \<Rightarrow> nat \<Rightarrow> nat" where
  "bs_find_next b pos =
     (let pos = (pos + 1) mod 2 ^ 64 in
      if pos \<ge> bs_num_bits b then npos
      else
        let i = block_index LENGTH('a) pos;
            w = bs_data b ! i AND push_bit (block_pos LENGTH('a) pos) (NOT 0)
        in bs_scan (bs_num_bits b) i (w # drop (Suc i) (bs_blocks b)))"

text \<open>The complemented blocks, the last one masked.\<close>

definition bs_zero_blocks :: "'a::len word bitset_span \<Rightarrow> 'a word list" where
  "bs_zero_blocks b =
     (let n = num_blocks LENGTH('a) (bs_num_bits b) in
      map (\<lambda>i. if i = n - 1 then NOT (bs_data b ! i) AND last_mask (bs_num_bits b)
               else NOT (bs_data b ! i)) [0..<n])"

definition bs_find_first_zero :: "'a::len word bitset_span \<Rightarrow> nat" where
  "bs_find_first_zero b = bs_scan (bs_num_bits b) 0 (bs_zero_blocks b)"

definition bs_find_next_zero :: "'a::len word bitset_span \<Rightarrow> nat \<Rightarrow> nat" where
  "bs_find_next_zero b pos =
     (let pos = (pos + 1) mod 2 ^ 64 in
      if pos \<ge> bs_num_bits b then npos
      else
        let i = block_index LENGTH('a) pos;
            w = bs_zero_blocks b ! i AND push_bit (block_pos LENGTH('a) pos) (NOT 0)
        in bs_scan (bs_num_bits b) i (w # drop (Suc i) (bs_zero_blocks b)))"

text \<open>The block-wise operators: \<open>m_data[i] = f m_data[i] other.m_data[i]\<close> for every block of the span.\<close>

definition bs_zip ::
  "('a::len word \<Rightarrow> 'a word \<Rightarrow> 'a word) \<Rightarrow> 'a word bitset_span \<Rightarrow> 'a word bitset_span \<Rightarrow> 'a word bitset_span" where
  "bs_zip f b other =
     (let n = num_blocks LENGTH('a) (bs_num_bits b) in
      b\<lparr>bs_data := map (\<lambda>i. f (bs_data b ! i) (bs_data other ! i)) [0..<n] @ drop n (bs_data b)\<rparr>)"

definition bs_copy_from :: "'a::len word bitset_span \<Rightarrow> 'a word bitset_span \<Rightarrow> 'a word bitset_span" where
  "bs_copy_from = bs_zip (\<lambda>x y. y)"

definition bs_diff_from :: "'a::len word bitset_span \<Rightarrow> 'a word bitset_span \<Rightarrow> 'a word bitset_span" where
  "bs_diff_from = bs_zip (\<lambda>x y. y AND NOT x)"

definition bs_and :: "'a::len word bitset_span \<Rightarrow> 'a word bitset_span \<Rightarrow> 'a word bitset_span" where
  "bs_and = bs_zip (\<lambda>x y. x AND y)"

definition bs_or :: "'a::len word bitset_span \<Rightarrow> 'a word bitset_span \<Rightarrow> 'a word bitset_span" where
  "bs_or = bs_zip (\<lambda>x y. x OR y)"

definition bs_minus :: "'a::len word bitset_span \<Rightarrow> 'a word bitset_span \<Rightarrow> 'a word bitset_span" where
  "bs_minus = bs_zip (\<lambda>x y. x AND NOT y)"

definition bs_equal :: "'a::len word bitset_span \<Rightarrow> 'a word bitset_span \<Rightarrow> bool" where
  "bs_equal lhs rhs \<longleftrightarrow> bs_num_bits lhs = bs_num_bits rhs \<and> bs_blocks lhs = bs_blocks rhs"

text \<open>
  \<open>for_each_bit\<close>: the positions passed to the callback, in order. The inner loop takes the lowest
  bit of the combined block and clears it with \<open>w &= w - 1\<close>.
\<close>

lemma bit_pred:
  fixes w :: "'a::len word"
  assumes "w \<noteq> 0"
  shows "bit (w - 1) j \<longleftrightarrow> j < countr_zero w \<or> (bit w j \<and> j \<noteq> countr_zero w)"
proof -
  let ?t = "countr_zero w"
  define h where "h = w AND NOT (push_bit ?t 1)"
  note t = countr_zero_bit [OF assms] countr_zero_bound [OF assms] countr_zero_least [of _ w]
  have "h AND push_bit ?t 1 = 0" by (rule bit_word_eqI) (auto simp: h_def bit_simps)
  then have "h + push_bit ?t 1 = h OR push_bit ?t 1" by (rule disjunctive_add_eq_or)
  also have "\<dots> = w" by (rule bit_word_eqI) (use t in \<open>auto simp: h_def bit_simps\<close>)
  finally have "w - 1 = h + mask ?t"
    by (simp add: mask_eq_decr_exp push_bit_eq_mult algebra_simps)
  also have "\<dots> = h OR mask ?t"
    by (rule disjunctive_add_eq_or, rule bit_word_eqI) (use t in \<open>auto simp: h_def bit_simps\<close>)
  finally show ?thesis
    using t by (auto simp: h_def bit_simps dest: bit_imp_le_length)
qed

lemma bit_and_pred:
  "w \<noteq> 0 \<Longrightarrow> bit (w AND (w - 1)) j \<longleftrightarrow> bit (w :: 'a::len word) j \<and> j \<noteq> countr_zero w"
  using countr_zero_least [of j w] by (auto simp: bit_and_iff bit_pred)

lemma popcount_and_pred: "w \<noteq> 0 \<Longrightarrow> popcount (w AND (w - 1)) < popcount (w :: 'a::len word)"
  unfolding popcount_card
  by (rule psubset_card_mono)
     (auto simp: bit_and_pred dest: countr_zero_bit countr_zero_bound intro!: psubsetI)

function block_bits :: "'a::len word \<Rightarrow> nat list" where
  "block_bits w = (if w = 0 then [] else countr_zero w # block_bits (w AND (w - 1)))"
  by pat_completeness auto
termination
  by (relation "measure popcount") (auto intro: popcount_and_pred)

declare block_bits.simps [simp del]

definition for_each_bit ::
  "('a::len word \<Rightarrow> 'a word list \<Rightarrow> 'a word) \<Rightarrow> 'a word bitset_span \<Rightarrow> 'a word bitset_span list \<Rightarrow> nat list" where
  "for_each_bit combiner first rest =
     (let num_bits = bs_num_bits first; n = length (bs_blocks first) in
      concat (map (\<lambda>block.
        let offset = block * LENGTH('a);
            w = combiner (bs_blocks first ! block) (map (\<lambda>r. bs_blocks r ! block) rest);
            w = (if block + 1 = n then w AND last_mask num_bits else w)
        in map (\<lambda>tz. offset + tz) (block_bits w)) [0..<n]))"

section \<open>The set a span represents\<close>

definition bs_set :: "'a::len word bitset_span \<Rightarrow> nat set" where
  "bs_set b = {k. k < bs_num_bits b \<and> mem_bit (bs_data b) k}"

text \<open>
  The memory holds the blocks of the span, and the precondition that the code asserts: the bits
  of the last block beyond the size are zero.
\<close>

definition bs_wf :: "'a::len word bitset_span \<Rightarrow> bool" where
  "bs_wf b \<longleftrightarrow> is_power_of_two LENGTH('a) \<and> num_blocks LENGTH('a) (bs_num_bits b) \<le> length (bs_data b) \<and>
     bs_trailing_bits_zero b"

text \<open>What the search functions promise: the least position of a range with a property, or \<open>npos\<close>.\<close>

definition least_from :: "(nat \<Rightarrow> bool) \<Rightarrow> nat \<Rightarrow> nat \<Rightarrow> nat" where
  "least_from P lo n = (case List.find P [lo..<n] of None \<Rightarrow> npos | Some k \<Rightarrow> k)"

lemma least_from_eq: "lo \<le> k \<Longrightarrow> k < n \<Longrightarrow> P k \<Longrightarrow> (\<And>j. lo \<le> j \<Longrightarrow> j < k \<Longrightarrow> \<not> P j) \<Longrightarrow> least_from P lo n = k"
proof -
  assume *: "lo \<le> k" "k < n" "P k" "\<And>j. lo \<le> j \<Longrightarrow> j < k \<Longrightarrow> \<not> P j"
  then have "List.find P [lo..<n] = Some k"
    by (auto simp: find_Some_iff intro!: exI [of _ "k - lo"])
  then show ?thesis by (simp add: least_from_def)
qed

lemma least_from_npos: "(\<And>j. lo \<le> j \<Longrightarrow> j < n \<Longrightarrow> \<not> P j) \<Longrightarrow> least_from P lo n = npos"
  by (auto simp: least_from_def find_None_iff find_Some_iff split: option.splits)

section \<open>Blocks and positions\<close>

lemma block_index_div: "is_power_of_two d \<Longrightarrow> block_index d pos = pos div d"
  by (simp add: block_index_def is_power_of_two_def drop_bit_countr_zero)

lemma block_pos_mod: "is_power_of_two d \<Longrightarrow> block_pos d pos = pos mod d"
  by (simp add: block_pos_def is_power_of_two_def and_mask_pow2 del: One_nat_def)

lemma num_blocks_div: "is_power_of_two d \<Longrightarrow> num_blocks d n = (n + d - 1) div d"
  by (simp add: num_blocks_def is_power_of_two_def drop_bit_countr_zero)

lemma num_blocks_bounds:
  assumes "is_power_of_two d"
  shows "n \<le> num_blocks d n * d" and "num_blocks d n * d < n + d" and "n = 0 \<Longrightarrow> num_blocks d n = 0"
proof -
  have d: "0 < d" using assms by (simp add: is_power_of_two_def has_single_bit_def)
  have e: "num_blocks d n * d + (n + d - 1) mod d = n + d - 1"
    by (simp add: num_blocks_div [OF assms])
  show "n \<le> num_blocks d n * d" using e d mod_less_divisor [OF d, of "n + d - 1"] by linarith
  show "num_blocks d n * d < n + d" using e d by linarith
  show "n = 0 \<Longrightarrow> num_blocks d n = 0" using d by (simp add: num_blocks_div [OF assms])
qed

lemma div_less_num_blocks: "is_power_of_two d \<Longrightarrow> k < n \<Longrightarrow> k div d < num_blocks d n"
  using num_blocks_bounds(1) [of d n] by (intro less_mult_imp_div_less) simp

lemma bit_last_mask:
  "j < LENGTH('a) \<Longrightarrow>
   bit (last_mask n :: 'a::len word) j \<longleftrightarrow> n mod LENGTH('a) = 0 \<or> j < n mod LENGTH('a)"
  by (auto simp: last_mask_def full_mask_def Let_def push_bit_eq_mult bit_mask_iff
      simp flip: mask_eq_decr_exp)

text \<open>In the last block, the bits of the mask are those below the size.\<close>

lemma bit_last_mask_pos:
  assumes pow: "is_power_of_two LENGTH('a)" and k: "k div LENGTH('a) = num_blocks LENGTH('a) n - 1"
    and pos: "0 < num_blocks LENGTH('a) n"
  shows "bit (last_mask n :: 'a::len word) (k mod LENGTH('a)) \<longleftrightarrow> k < n"
proof -
  let ?d = "LENGTH('a)" and ?b = "num_blocks LENGTH('a) n"
  obtain m where b: "?b = Suc m" using pos by (cases ?b) auto
  have kd: "k = m * ?d + k mod ?d" using k b by (metis diff_Suc_1 div_mult_mod_eq)
  have lt: "k mod ?d < ?d" by simp
  note B = num_blocks_bounds(1,2) [OF pow, of n, unfolded b]
  show ?thesis
  proof (cases "n mod ?d = 0")
    case True
    then obtain c where c: "n = c * ?d" by auto
    with B have "c * ?d \<le> Suc m * ?d" "Suc m * ?d < Suc c * ?d" by simp_all
    then have "c = Suc m" unfolding mult_le_cancel2 mult_less_cancel2 by simp
    then have "k < n" using kd lt c by (metis add.commute mult_Suc nat_add_left_cancel_less)
    with True show ?thesis by (simp add: bit_last_mask)
  next
    case False
    have n: "n = n div ?d * ?d + n mod ?d" by simp
    have "n div ?d = m"
    proof (rule antisym)
      have "n < Suc m * ?d" using B(1) False by (metis le_neq_implies_less mod_mult_self2_is_0)
      then show "n div ?d \<le> m" by (simp add: less_mult_imp_div_less less_Suc_eq_le flip: less_Suc_eq_le)
      have "m * ?d \<le> n" using B(2) by simp
      then show "m \<le> n div ?d" by (metis div_le_mono div_mult_self_is_m len_gt_0)
    qed
    then have "k < n \<longleftrightarrow> k mod ?d < n mod ?d" using kd n by (metis nat_add_left_cancel_less)
    with False show ?thesis by (simp add: bit_last_mask)
  qed
qed

lemma mem_bit_Cons:
  "mem_bit (w # ws :: 'a::len word list) k = (if k < LENGTH('a) then bit w k else mem_bit ws (k - LENGTH('a)))"
  by (auto simp: mem_bit_def le_div_geq le_mod_geq)

lemma mem_bit_take: "k < n * LENGTH('a) \<Longrightarrow> mem_bit (take n ws :: 'a::len word list) k = mem_bit ws k"
  by (simp add: mem_bit_def less_mult_imp_div_less)

lemma mem_bit_drop: "n \<le> length ws \<Longrightarrow>
    mem_bit (drop n ws :: 'a::len word list) k = mem_bit ws (n * LENGTH('a) + k)"
  by (simp add: mem_bit_def)

lemma bs_trailing_bits_zero_iff:
  assumes pow: "is_power_of_two LENGTH('a)" and len: "num_blocks LENGTH('a) (bs_num_bits b) \<le> length (bs_data b)"
  shows "bs_trailing_bits_zero b \<longleftrightarrow>
    (\<forall>k < num_blocks LENGTH('a) (bs_num_bits b) * LENGTH('a).
        mem_bit (bs_data b :: 'a::len word list) k \<longrightarrow> k < bs_num_bits b)"
    (is "_ \<longleftrightarrow> (\<forall>k < ?n * ?d. ?P k)")
proof (cases "?n = 0")
  case False
  then have n: "?n * ?d = (?n - 1) * ?d + ?d" by (cases ?n) auto
  have lo: "k < bs_num_bits b" if "k < (?n - 1) * ?d" for k
    using that n num_blocks_bounds(2) [OF pow, of "bs_num_bits b"] by simp
  have hi: "k mod ?d < ?d \<and> k = (?n - 1) * ?d + k mod ?d \<and> k div ?d = ?n - 1"
    if "(?n - 1) * ?d \<le> k" "k < ?n * ?d" for k
  proof -
    have "?n - 1 \<le> k div ?d" using that(1) by (metis div_le_mono div_mult_self_is_m len_gt_0)
    moreover have "k div ?d < ?n" using that(2) by (rule less_mult_imp_div_less)
    ultimately have "k div ?d = ?n - 1" by linarith
    then show ?thesis using div_mult_mod_eq [of k ?d] by (metis len_gt_0 mod_less_divisor)
  qed
  have last_bit: "bit (last_mask (bs_num_bits b) :: 'a word) j \<longleftrightarrow> (?n - 1) * ?d + j < bs_num_bits b"
    if "j < ?d" for j
  proof -
    have "((?n - 1) * ?d + j) div ?d = ?n - 1" using that by simp
    then show ?thesis
      using bit_last_mask_pos [OF pow, of "(?n - 1) * ?d + j" "bs_num_bits b"] False that by simp
  qed
  have "bs_trailing_bits_zero b \<longleftrightarrow>
     (\<forall>j < ?d. \<not> (bit (bs_data b ! (?n - 1)) j \<and> \<not> bit (last_mask (bs_num_bits b) :: 'a word) j))"
    using False by (auto simp: bs_trailing_bits_zero_def Let_def bit_eq_iff bit_simps dest: bit_imp_le_length)
  also have "\<dots> \<longleftrightarrow> (\<forall>j < ?d. ?P ((?n - 1) * ?d + j))"
    using last_bit by (auto simp: mem_bit_at)
  also have "\<dots> \<longleftrightarrow> (\<forall>k < ?n * ?d. ?P k)"
    using lo hi n by (metis add_less_cancel_left not_le)
  finally show ?thesis .
qed (simp add: bs_trailing_bits_zero_def)

section \<open>Specifications\<close>

lemma bs_set_bound: "k \<in> bs_set b \<Longrightarrow> k < bs_num_bits b"
  by (simp add: bs_set_def)

lemma bs_index_bound:
  assumes "bs_wf (b :: 'a::len word bitset_span)" and "k < bs_num_bits b"
  shows "k div LENGTH('a) < length (bs_data b)"
  using assms div_less_num_blocks [of "LENGTH('a)" k "bs_num_bits b"] by (simp add: bs_wf_def)

lemma div_mod_eq_iff: "(k::nat) = l \<longleftrightarrow> k div d = l div d \<and> k mod d = l mod d"
  by (metis div_mult_mod_eq)

lemma bs_test_spec:
  assumes "bs_wf b" and "pos < bs_num_bits b"
  shows "bs_test b pos \<longleftrightarrow> pos \<in> bs_set (b :: 'a::len word bitset_span)"
  using assms
  by (simp add: bs_test_def bs_set_def bs_wf_def block_index_div block_pos_mod mem_bit_def
      bit_iff_and_push_bit_not_eq_0)

text \<open>
  Every modifier is described by the bits it leaves in the blocks of the span; one lemma turns
  this into the set and the invariant.
\<close>

lemma bs_set_from_bits:
  fixes b b' :: "'a::len word bitset_span"
  assumes "bs_wf b" and "bs_num_bits b' = bs_num_bits b" and "length (bs_data b') = length (bs_data b)"
    and "\<And>k. k < num_blocks LENGTH('a) (bs_num_bits b) * LENGTH('a) \<Longrightarrow>
           mem_bit (bs_data b') k \<longleftrightarrow> k < bs_num_bits b \<and> F k"
  shows "bs_wf b' \<and> bs_set b' = {k. k < bs_num_bits b \<and> F k}"
proof -
  have "bs_wf b'"
    using assms by (simp add: bs_wf_def bs_trailing_bits_zero_iff)
  moreover have "k < num_blocks LENGTH('a) (bs_num_bits b) * LENGTH('a)" if "k < bs_num_bits b" for k
    using that num_blocks_bounds(1) [of "LENGTH('a)" "bs_num_bits b"] assms(1) by (simp add: bs_wf_def)
  ultimately show ?thesis using assms by (auto simp: bs_set_def)
qed

lemma bs_wf_bit:
  fixes b :: "'a::len word bitset_span"
  assumes "bs_wf b" and "k < num_blocks LENGTH('a) (bs_num_bits b) * LENGTH('a)"
  shows "mem_bit (bs_data b) k \<longleftrightarrow> k \<in> bs_set b" and "k div LENGTH('a) < length (bs_data b)"
    and "k div LENGTH('a) < num_blocks LENGTH('a) (bs_num_bits b)"
  using assms less_mult_imp_div_less [OF assms(2)]
  by (auto simp: bs_wf_def bs_trailing_bits_zero_iff bs_set_def)

lemma bs_set_bit_spec:
  assumes "bs_wf b" and "pos < bs_num_bits b"
  shows "bs_wf (bs_set_bit b pos) \<and> bs_set (bs_set_bit b pos) = insert pos (bs_set (b :: 'a::len word bitset_span))"
proof -
  have "bs_wf (bs_set_bit b pos) \<and>
    bs_set (bs_set_bit b pos) = {k. k < bs_num_bits b \<and> (k = pos \<or> k \<in> bs_set b)}"
    using assms
  proof (intro bs_set_from_bits)
    fix k assume k: "k < num_blocks LENGTH('a) (bs_num_bits b) * LENGTH('a)"
    note B = bs_wf_bit [OF assms(1) k] bs_set_bound [of k b]
    have "mem_bit (bs_data (bs_set_bit b pos)) k \<longleftrightarrow> k = pos \<or> mem_bit (bs_data b) k"
      using assms(1) B(2) div_mod_eq_iff [of k pos "LENGTH('a)"]
      by (auto simp: bs_set_bit_def Let_def bs_wf_def block_index_div block_pos_mod mem_bit_def
          nth_list_update_if bit_simps)
    with B assms show "mem_bit (bs_data (bs_set_bit b pos)) k \<longleftrightarrow> k < bs_num_bits b \<and> (k = pos \<or> k \<in> bs_set b)"
      by auto
  qed (simp_all add: bs_set_bit_def Let_def)
  with assms bs_set_bound show ?thesis by auto
qed

lemma bs_reset_bit_spec:
  assumes "bs_wf b" and "pos < bs_num_bits b"
  shows "bs_wf (bs_reset_bit b pos) \<and> bs_set (bs_reset_bit b pos) = bs_set (b :: 'a::len word bitset_span) - {pos}"
proof -
  have "bs_wf (bs_reset_bit b pos) \<and>
    bs_set (bs_reset_bit b pos) = {k. k < bs_num_bits b \<and> (k \<noteq> pos \<and> k \<in> bs_set b)}"
    using assms
  proof (intro bs_set_from_bits)
    fix k assume k: "k < num_blocks LENGTH('a) (bs_num_bits b) * LENGTH('a)"
    note B = bs_wf_bit [OF assms(1) k] bs_set_bound [of k b]
    have "mem_bit (bs_data (bs_reset_bit b pos)) k \<longleftrightarrow> k \<noteq> pos \<and> mem_bit (bs_data b) k"
      using assms(1) B(2) div_mod_eq_iff [of k pos "LENGTH('a)"]
      by (auto simp: bs_reset_bit_def Let_def bs_wf_def block_index_div block_pos_mod mem_bit_def
          nth_list_update_if bit_simps)
    with B assms show "mem_bit (bs_data (bs_reset_bit b pos)) k \<longleftrightarrow> k < bs_num_bits b \<and> (k \<noteq> pos \<and> k \<in> bs_set b)"
      by auto
  qed (simp_all add: bs_reset_bit_def Let_def)
  with assms bs_set_bound show ?thesis by auto
qed

text \<open>The operators only need that the bits beyond the size come out zero.\<close>

lemma bs_zip_spec:
  fixes b :: "'a::len word bitset_span"
  assumes wf: "bs_wf b" "bs_wf other" and eq: "bs_num_bits other = bs_num_bits b"
    and op: "\<And>x y j. j < LENGTH('a) \<Longrightarrow> bit (f x y) j = g (bit x j) (bit y j)" and "\<not> g False False"
  shows "bs_wf (bs_zip f b other) \<and>
    bs_set (bs_zip f b other) = {k. k < bs_num_bits b \<and> g (k \<in> bs_set b) (k \<in> bs_set other)}"
proof (rule bs_set_from_bits [OF wf(1)])
  fix k assume k: "k < num_blocks LENGTH('a) (bs_num_bits b) * LENGTH('a)"
  note B = bs_wf_bit [OF wf(1) k] bs_wf_bit [OF wf(2), unfolded eq, OF k]
    bs_set_bound [of k b] bs_set_bound [of k other]
  have "mem_bit (bs_data (bs_zip f b other)) k \<longleftrightarrow> g (mem_bit (bs_data b) k) (mem_bit (bs_data other) k)"
    using B(2,3) by (simp add: bs_zip_def Let_def mem_bit_def nth_append op)
  then show "mem_bit (bs_data (bs_zip f b other)) k \<longleftrightarrow> k < bs_num_bits b \<and> g (k \<in> bs_set b) (k \<in> bs_set other)"
    using B assms(5) eq by (metis (full_types))
qed (use wf in \<open>auto simp: bs_zip_def Let_def bs_wf_def\<close>)

lemma bs_algebra:
  fixes b other :: "'a::len word bitset_span"
  assumes "bs_wf b" "bs_wf other" "bs_num_bits other = bs_num_bits b"
  shows "bs_wf (bs_and b other) \<and> bs_set (bs_and b other) = bs_set b \<inter> bs_set other"
    and "bs_wf (bs_or b other) \<and> bs_set (bs_or b other) = bs_set b \<union> bs_set other"
    and "bs_wf (bs_minus b other) \<and> bs_set (bs_minus b other) = bs_set b - bs_set other"
    and "bs_wf (bs_diff_from b other) \<and> bs_set (bs_diff_from b other) = bs_set other - bs_set b"
    and "bs_wf (bs_copy_from b other) \<and> bs_set (bs_copy_from b other) = bs_set other"
  using bs_zip_spec [OF assms, of "\<lambda>x y. x AND y" "(\<and>)"] bs_zip_spec [OF assms, of "\<lambda>x y. x OR y" "(\<or>)"]
    bs_zip_spec [OF assms, of "\<lambda>x y. x AND NOT y" "\<lambda>x y. x \<and> \<not> y"]
    bs_zip_spec [OF assms, of "\<lambda>x y. y AND NOT x" "\<lambda>x y. y \<and> \<not> x"]
    bs_zip_spec [OF assms, of "\<lambda>x y. y" "\<lambda>x y. y"] assms(3) bs_set_bound [of _ b] bs_set_bound [of _ other]
  by (auto simp: bs_and_def bs_or_def bs_minus_def bs_diff_from_def bs_copy_from_def bit_simps)

lemma bs_reset_all_spec:
  assumes "bs_wf (b :: 'a::len word bitset_span)"
  shows "bs_wf (bs_reset_all b) \<and> bs_set (bs_reset_all b) = {}"
proof -
  have "bs_wf (bs_reset_all b) \<and> bs_set (bs_reset_all b) = {k. k < bs_num_bits b \<and> False}"
    by (rule bs_set_from_bits [OF assms])
      (use assms in \<open>auto simp: bs_reset_all_def bs_fill_def Let_def bs_wf_def mem_bit_def nth_append
         less_mult_imp_div_less\<close>)
  then show ?thesis by simp
qed

lemma bs_set_all_spec:
  assumes "bs_wf (b :: 'a::len word bitset_span)"
  shows "bs_wf (bs_set_all b) \<and> bs_set (bs_set_all b) = {..<bs_num_bits b}"
proof -
  let ?n = "num_blocks LENGTH('a) (bs_num_bits b)" and ?d = "LENGTH('a)"
  have pow: "is_power_of_two ?d" and len: "?n \<le> length (bs_data b)" using assms by (simp_all add: bs_wf_def)
  have "bs_wf (bs_set_all b) \<and> bs_set (bs_set_all b) = {k. k < bs_num_bits b \<and> True}"
  proof (rule bs_set_from_bits [OF assms])
    fix k assume k: "k < ?n * ?d"
    then have i: "k div ?d < ?n" by (rule less_mult_imp_div_less)
    show "mem_bit (bs_data (bs_set_all b)) k \<longleftrightarrow> k < bs_num_bits b \<and> True"
    proof (cases "k div ?d = ?n - 1")
      case True
      with bit_last_mask_pos [OF pow True] i len show ?thesis
        by (auto simp: bs_set_all_def bs_clear_trailing_bits_def bs_fill_def Let_def mem_bit_def
            nth_append nth_list_update_if full_mask_def bit_simps)
    next
      case False
      with i have "Suc (k div ?d) * ?d \<le> (?n - 1) * ?d" by (intro mult_le_mono1) simp
      moreover have "k < Suc (k div ?d) * ?d" by (metis add.commute div_mult_mod_eq mod_less_divisor len_gt_0 mult_Suc nat_add_left_cancel_less)
      moreover have "?n * ?d = (?n - 1) * ?d + ?d" using i by (cases ?n) auto
      ultimately have "k < bs_num_bits b" using num_blocks_bounds(2) [OF pow, of "bs_num_bits b"] by linarith
      with False i len show ?thesis
        by (auto simp: bs_set_all_def bs_clear_trailing_bits_def bs_fill_def Let_def mem_bit_def
            nth_append nth_list_update_if full_mask_def bit_simps)
    qed
  qed (use len in \<open>auto simp: bs_set_all_def bs_clear_trailing_bits_def bs_fill_def Let_def\<close>)
  then show ?thesis by auto
qed

section \<open>Search, counting and enumeration\<close>

lemma bs_scan_cases:
  fixes ws :: "'a::len word list"
  obtains (found) k where "k < length ws * LENGTH('a)" "mem_bit ws k" "\<forall>j<k. \<not> mem_bit ws j"
      "bs_scan n i ws = (if i * LENGTH('a) + k < n then i * LENGTH('a) + k else npos)"
    | (none) "\<forall>k < length ws * LENGTH('a). \<not> mem_bit ws k" "bs_scan n i ws = npos"
proof -
  have "(\<exists>k < length ws * LENGTH('a). mem_bit ws k \<and> (\<forall>j<k. \<not> mem_bit ws j) \<and>
      bs_scan n i ws = (if i * LENGTH('a) + k < n then i * LENGTH('a) + k else npos)) \<or>
    (\<forall>k < length ws * LENGTH('a). \<not> mem_bit ws k) \<and> bs_scan n i ws = npos"
  proof (induction ws arbitrary: i)
    case (Cons w ws)
    show ?case
    proof (cases "w = 0")
      case True
      have shift: "mem_bit (0 # ws) k \<longleftrightarrow> LENGTH('a) \<le> k \<and> mem_bit ws (k - LENGTH('a))" for k
        by (auto simp: mem_bit_Cons)
      from Cons [of "Suc i"] show ?thesis
      proof (elim disjE exE conjE)
        fix k assume "k < length ws * LENGTH('a)" "mem_bit ws k" "\<forall>j<k. \<not> mem_bit ws j"
          "bs_scan n (Suc i) ws = (if Suc i * LENGTH('a) + k < n then Suc i * LENGTH('a) + k else npos)"
        then show ?thesis using True
          by (intro disjI1 exI [of _ "LENGTH('a) + k"]) (auto simp: shift ac_simps less_diff_conv2)
      next
        assume "\<forall>k < length ws * LENGTH('a). \<not> mem_bit ws k" "bs_scan n (Suc i) ws = npos"
        then show ?thesis using True by (intro disjI2) (auto simp: shift less_diff_conv2)
      qed
    next
      case False
      note t = countr_zero_bit [OF False] countr_zero_bound [OF False] countr_zero_least [of _ w]
      with False show ?thesis
        by (intro disjI1 exI [of _ "countr_zero w"]) (auto simp: mem_bit_Cons Let_def)
    qed
  qed simp
  with found none show ?thesis by blast
qed

text \<open>A scan over blocks that agree with a property of positions finds the least such position.\<close>

lemma bs_scan_least:
  fixes ws :: "'a::len word list"
  assumes "i * LENGTH('a) \<le> lo" and "n \<le> (i + length ws) * LENGTH('a)"
    and bits: "\<And>k. k < length ws * LENGTH('a) \<Longrightarrow> i * LENGTH('a) + k < n \<Longrightarrow>
               mem_bit ws k \<longleftrightarrow> lo \<le> i * LENGTH('a) + k \<and> P (i * LENGTH('a) + k)"
  shows "bs_scan n i ws = least_from P lo n"
proof (cases rule: bs_scan_cases [of ws n i])
  case (found k)
  let ?d = "LENGTH('a)"
  have below: "\<not> P j" if "lo \<le> j" "j < i * ?d + k" "j < n" for j
    using that assms(1) found(1,3) bits [of "j - i * ?d"] by simp
  show ?thesis
  proof (cases "i * ?d + k < n")
    case True
    then have "least_from P lo n = i * ?d + k"
      using found bits [of k] below by (intro least_from_eq) auto
    with True found show ?thesis by simp
  next
    case False
    then have "least_from P lo n = npos" using below by (intro least_from_npos) auto
    with False found show ?thesis by simp
  qed
next
  case none
  let ?d = "LENGTH('a)"
  have "\<not> P j" if "lo \<le> j" "j < n" for j
    using that assms(1,2) none(1) bits [of "j - i * ?d"] by (auto simp: algebra_simps less_diff_conv2)
  then have "least_from P lo n = npos" by (intro least_from_npos) auto
  with none show ?thesis by simp
qed

lemma length_bs_blocks: "bs_wf b \<Longrightarrow> length (bs_blocks (b::'a::len word bitset_span)) = num_blocks LENGTH('a) (bs_num_bits b)"
  by (simp add: bs_blocks_def bs_wf_def)

lemma mem_bit_bs_blocks:
  "bs_wf b \<Longrightarrow> k < num_blocks LENGTH('a) (bs_num_bits b) * LENGTH('a) \<Longrightarrow>
   mem_bit (bs_blocks (b::'a::len word bitset_span)) k \<longleftrightarrow> k \<in> bs_set b"
  by (simp add: bs_blocks_def mem_bit_take bs_wf_bit)

lemma length_bs_zero_blocks: "length (bs_zero_blocks (b::'a::len word bitset_span)) = num_blocks LENGTH('a) (bs_num_bits b)"
  by (simp add: bs_zero_blocks_def Let_def)

lemma mem_bit_bs_zero_blocks:
  fixes b :: "'a::len word bitset_span"
  assumes "bs_wf b" and k: "k < num_blocks LENGTH('a) (bs_num_bits b) * LENGTH('a)" and "k < bs_num_bits b"
  shows "mem_bit (bs_zero_blocks b) k \<longleftrightarrow> k \<notin> bs_set b"
proof -
  let ?d = "LENGTH('a)" and ?n = "num_blocks LENGTH('a) (bs_num_bits b)"
  have i: "k div ?d < ?n" using k by (rule less_mult_imp_div_less)
  have "bit (last_mask (bs_num_bits b) :: 'a word) (k mod ?d)" if "k div ?d = ?n - 1"
    using bit_last_mask_pos [OF _ that] assms i by (auto simp: bs_wf_def)
  with i assms(3) show ?thesis
    by (auto simp: bs_zero_blocks_def Let_def mem_bit_def bs_set_def bit_simps)
qed

text \<open>The masked first block of the two \<open>find_next\<close> functions.\<close>

lemma bs_scan_from:
  fixes ws :: "'a::len word list"
  assumes pow: "is_power_of_two LENGTH('a)" and len: "length ws = num_blocks LENGTH('a) n" and pos: "pos < n"
    and bits: "\<And>k. k < n \<Longrightarrow> mem_bit ws k \<longleftrightarrow> P k"
  shows "(let i = block_index LENGTH('a) pos in
          bs_scan n i ((ws ! i AND push_bit (block_pos LENGTH('a) pos) (NOT 0)) # drop (Suc i) ws))
         = least_from P pos n"
proof -
  let ?d = "LENGTH('a)"
  define i where "i = pos div ?d"
  have i: "i < length ws" using div_less_num_blocks [OF pow pos] len i_def by simp
  have p: "pos = i * ?d + pos mod ?d" "pos mod ?d < ?d" by (simp_all add: i_def)
  have "bs_scan n i ((ws ! i AND push_bit (pos mod ?d) (NOT 0)) # drop (Suc i) ws) = least_from P pos n"
  proof (rule bs_scan_least)
    show "i * ?d \<le> pos" using p by simp
    show "n \<le> (i + length ((ws ! i AND push_bit (pos mod ?d) (NOT 0)) # drop (Suc i) ws)) * ?d"
      using num_blocks_bounds(1) [OF pow, of n] len i by simp
    fix k assume k: "i * ?d + k < n"
    show "mem_bit ((ws ! i AND push_bit (pos mod ?d) (NOT 0)) # drop (Suc i) ws) k \<longleftrightarrow>
          pos \<le> i * ?d + k \<and> P (i * ?d + k)"
    proof (cases "k < ?d")
      case True
      have "pos \<le> i * ?d + k \<longleftrightarrow> pos mod ?d \<le> k" using p by linarith
      with True bits [OF k] show ?thesis by (auto simp: mem_bit_Cons mem_bit_at bit_simps)
    next
      case False
      then have "mem_bit (drop (Suc i) ws) (k - ?d) = mem_bit ws (i * ?d + k)"
        using i by (simp add: mem_bit_drop)
      moreover have "pos \<le> i * ?d + k" using False p by linarith
      ultimately show ?thesis using False bits [OF k] by (simp add: mem_bit_Cons)
    qed
  qed
  then show ?thesis by (simp add: Let_def block_index_div block_pos_mod pow i_def)
qed

lemma bs_find_first_spec:
  assumes "bs_wf (b::'a::len word bitset_span)"
  shows "bs_find_first b = least_from (\<lambda>k. k \<in> bs_set b) 0 (bs_num_bits b)"
  unfolding bs_find_first_def
  using assms num_blocks_bounds(1) [of "LENGTH('a)" "bs_num_bits b"]
  by (intro bs_scan_least) (auto simp: length_bs_blocks mem_bit_bs_blocks bs_wf_def)

lemma bs_find_first_zero_spec:
  assumes "bs_wf (b::'a::len word bitset_span)"
  shows "bs_find_first_zero b = least_from (\<lambda>k. k \<notin> bs_set b) 0 (bs_num_bits b)"
  unfolding bs_find_first_zero_def
  using assms num_blocks_bounds(1) [of "LENGTH('a)" "bs_num_bits b"]
  by (intro bs_scan_least) (auto simp: length_bs_zero_blocks mem_bit_bs_zero_blocks bs_wf_def)

lemma least_from_npos_ge: "n \<le> lo \<Longrightarrow> least_from P lo n = npos"
  by (intro least_from_npos) auto

lemma bs_bit_range:
  fixes b :: "'a::len word bitset_span"
  assumes "bs_wf b" "k < bs_num_bits b" shows "k < num_blocks LENGTH('a) (bs_num_bits b) * LENGTH('a)"
  using num_blocks_bounds(1) [of "LENGTH('a)" "bs_num_bits b"] assms by (simp add: bs_wf_def)

lemma bs_find_next_spec:
  assumes "bs_wf (b::'a::len word bitset_span)" and "pos < npos"
  shows "bs_find_next b pos = least_from (\<lambda>k. k \<in> bs_set b) (Suc pos) (bs_num_bits b)"
proof (cases "Suc pos < bs_num_bits b")
  case True
  have blk: "bs_blocks b ! block_index LENGTH('a) (Suc pos) = bs_data b ! block_index LENGTH('a) (Suc pos)"
    using True assms div_less_num_blocks [of "LENGTH('a)" "Suc pos"]
    by (simp add: bs_blocks_def block_index_div bs_wf_def)
  have "(pos + 1) mod 2 ^ 64 = Suc pos" using assms(2) by (simp add: npos_def)
  moreover have "is_power_of_two LENGTH('a)" using assms by (simp add: bs_wf_def)
  ultimately show ?thesis using True assms
    using bs_scan_from [of "bs_blocks b" "bs_num_bits b" "Suc pos" "\<lambda>k. k \<in> bs_set b"]
    by (simp add: bs_find_next_def Let_def blk length_bs_blocks mem_bit_bs_blocks bs_bit_range
        del: bs_scan.simps)
qed (use assms in \<open>simp add: bs_find_next_def Let_def least_from_npos_ge npos_def\<close>)

lemma bs_find_next_zero_spec:
  assumes "bs_wf (b::'a::len word bitset_span)" and "pos < npos"
  shows "bs_find_next_zero b pos = least_from (\<lambda>k. k \<notin> bs_set b) (Suc pos) (bs_num_bits b)"
proof (cases "Suc pos < bs_num_bits b")
  case True
  have "(pos + 1) mod 2 ^ 64 = Suc pos" using assms(2) by (simp add: npos_def)
  moreover have "is_power_of_two LENGTH('a)" using assms by (simp add: bs_wf_def)
  ultimately show ?thesis using True assms
    using bs_scan_from [of "bs_zero_blocks b" "bs_num_bits b" "Suc pos" "\<lambda>k. k \<notin> bs_set b"]
    by (simp add: bs_find_next_zero_def Let_def length_bs_zero_blocks mem_bit_bs_zero_blocks bs_bit_range)
qed (use assms in \<open>simp add: bs_find_next_zero_def Let_def least_from_npos_ge npos_def\<close>)

lemma sum_popcount:
  "sum_list (map popcount ws) = card {k. k < length ws * LENGTH('a) \<and> mem_bit (ws :: 'a::len word list) k}"
proof (induction ws)
  case (Cons w ws)
  let ?d = "LENGTH('a)"
  have "{k. k < length (w # ws) * ?d \<and> mem_bit (w # ws) k} =
      {k. k < ?d \<and> bit w k} \<union> (+) ?d ` {k. k < length ws * ?d \<and> mem_bit ws k}" (is "_ = ?A \<union> _ ` ?B")
  proof (rule set_eqI)
    fix x
    show "x \<in> {k. k < length (w # ws) * ?d \<and> mem_bit (w # ws) k} \<longleftrightarrow> x \<in> ?A \<union> (+) ?d ` ?B"
    proof (cases "x < ?d")
      case False
      then obtain y where "x = ?d + y" by (metis le_Suc_ex not_le)
      then show ?thesis by (auto simp: mem_bit_Cons)
    qed (auto simp: mem_bit_Cons)
  qed
  moreover have "card (?A \<union> (+) ?d ` ?B) = card ?A + card ?B"
    by (subst card_Un_disjoint) (auto simp: card_image)
  ultimately show ?case using Cons by (simp add: popcount_card)
qed simp

lemma bs_set_range:
  "bs_wf b \<Longrightarrow> k \<in> bs_set b \<Longrightarrow> k < num_blocks LENGTH('a) (bs_num_bits b) * LENGTH('a)"
  for b :: "'a::len word bitset_span"
  by (rule bs_bit_range) (auto dest: bs_set_bound)

lemma bs_blocks_bits:
  assumes "bs_wf (b :: 'a::len word bitset_span)"
  shows "{k. k < length (bs_blocks b) * LENGTH('a) \<and> mem_bit (bs_blocks b) k} = bs_set b"
  using mem_bit_bs_blocks [OF assms] bs_set_range [OF assms] by (auto simp: length_bs_blocks [OF assms])

lemma bs_count_spec: "bs_wf (b::'a::len word bitset_span) \<Longrightarrow> bs_count b = card (bs_set b)"
  by (simp add: bs_count_def sum_popcount bs_blocks_bits)

lemma bs_count_zeros_spec:
  assumes "bs_wf (b::'a::len word bitset_span)"
  shows "bs_count_zeros b = card ({..<bs_num_bits b} - bs_set b)"
proof -
  have "bs_set b \<subseteq> {..<bs_num_bits b}" using bs_set_bound by auto
  then show ?thesis
    by (simp add: bs_count_zeros_def bs_count_spec [OF assms] card_Diff_subset finite_subset)
qed

lemma ex_block_bit: "(\<exists>w \<in> set ws. w \<noteq> 0) \<longleftrightarrow> {k. k < length ws * LENGTH('a) \<and> mem_bit ws k} \<noteq> {}"
  for ws :: "'a::len word list"
proof -
  have "sum_list (map popcount ws) = 0 \<longleftrightarrow> (\<forall>w \<in> set ws. w = 0)"
    using countr_zero_bit [where 'a = 'a] countr_zero_bound [where 'a = 'a]
    by (fastforce simp: popcount_def filter_empty_conv)
  then show ?thesis by (auto simp: sum_popcount)
qed

lemma bs_any_spec:
  assumes "bs_wf (b::'a::len word bitset_span)"
  shows "bs_any b \<longleftrightarrow> bs_set b \<noteq> {}"
  unfolding bs_any_def list_ex_iff ex_block_bit bs_blocks_bits [OF assms] ..

lemma bs_equal_spec:
  fixes b other :: "'a::len word bitset_span"
  assumes "bs_wf b" "bs_wf other"
  shows "bs_equal b other \<longleftrightarrow> bs_num_bits b = bs_num_bits other \<and> bs_set b = bs_set other"
proof -
  have "bs_blocks b = bs_blocks other" if "bs_num_bits b = bs_num_bits other" "bs_set b = bs_set other"
    by (rule mem_bit_eqI) (use assms that in \<open>auto simp: length_bs_blocks mem_bit_bs_blocks\<close>)
  moreover have "bs_set b = bs_set other" if "bs_num_bits b = bs_num_bits other" "bs_blocks b = bs_blocks other"
    using assms that mem_bit_bs_blocks [of b] mem_bit_bs_blocks [of other]
    by (metis bs_bit_range bs_set_bound subsetI subset_antisym)
  ultimately show ?thesis by (auto simp: bs_equal_def)
qed

lemma block_bits_filter: "block_bits w = filter (bit w) [0..<LENGTH('a)]" for w :: "'a::len word"
proof (induction w rule: block_bits.induct)
  case (1 w)
  show ?case
  proof (cases "w = 0")
    case False
    let ?t = "countr_zero w"
    note t = countr_zero_bit [OF False] countr_zero_bound [OF False] countr_zero_least [of _ w]
    have split: "[0..<LENGTH('a)] = [0..<?t] @ ?t # [Suc ?t..<LENGTH('a)]"
      using t(2) upt_add_eq_append [of 0 ?t "LENGTH('a) - ?t"] by (simp add: upt_conv_Cons)
    have "filter (bit w) [0..<?t] = []" "filter (bit (w AND (w - 1))) [0..<?t] = []"
      using t(3) by (auto simp: filter_empty_conv bit_and_iff)
    moreover have "filter (bit (w AND (w - 1))) [Suc ?t..<LENGTH('a)] = filter (bit w) [Suc ?t..<LENGTH('a)]"
      using False by (intro filter_cong) (auto simp: bit_and_pred)
    moreover have "\<not> bit (w AND (w - 1)) ?t" using False by (simp add: bit_and_pred)
    ultimately show ?thesis
      using False 1 t(1) by (simp add: block_bits.simps [of w] split)
  qed (simp add: block_bits.simps)
qed

lemma concat_blocks_filter:
  "concat (map (\<lambda>q. map (\<lambda>t. q * d + t) (filter (\<lambda>t. P (q * d + t)) [0..<d])) [0..<n]) =
   filter P [0..<n * d]"
proof (induction n)
  case (Suc n)
  have "[n * d..<n * d + d] = map ((+) (n * d)) [0..<d]"
    using map_add_upt [of "n * d" d] by (simp add: add.commute [of _ "n * d"] add.commute [of d])
  moreover have "[0..<Suc n * d] = [0..<n * d] @ [n * d..<n * d + d]"
    using upt_add_eq_append [of 0 "n * d" d] by (simp add: add.commute)
  ultimately show ?case using Suc by (simp add: filter_map o_def)
qed simp

lemma filter_upt_le: "n \<le> m \<Longrightarrow> (\<And>k. n \<le> k \<Longrightarrow> k < m \<Longrightarrow> \<not> P k) \<Longrightarrow> filter P [0..<m] = filter P [0..<n]"
  using upt_add_eq_append [of 0 n "m - n"] by (auto simp: filter_empty_conv)

lemma for_each_bit_spec:
  fixes first :: "'a::len word bitset_span"
  assumes "bs_wf first" and "\<forall>r \<in> set rest. bs_wf r \<and> bs_num_bits r = bs_num_bits first"
    and comb: "\<And>w ws j. j < LENGTH('a) \<Longrightarrow> bit (combiner w ws) j = g (bit w j) (map (\<lambda>v. bit v j) ws)"
  shows "for_each_bit combiner first rest =
    filter (\<lambda>k. g (k \<in> bs_set first) (map (\<lambda>r. k \<in> bs_set r) rest)) [0..<bs_num_bits first]"
proof -
  let ?d = "LENGTH('a)" and ?n = "num_blocks LENGTH('a) (bs_num_bits first)"
  let ?P = "\<lambda>k. k < bs_num_bits first \<and> g (k \<in> bs_set first) (map (\<lambda>r. k \<in> bs_set r) rest)"
  have pow: "is_power_of_two ?d" using assms(1) by (simp add: bs_wf_def)
  have W: "filter (bit (let w = combiner (bs_blocks first ! q) (map (\<lambda>r. bs_blocks r ! q) rest) in
       if q + 1 = ?n then w AND last_mask (bs_num_bits first) else w)) [0..<?d] =
     filter (\<lambda>t. ?P (q * ?d + t)) [0..<?d]" if q: "q < ?n" for q
  proof (rule filter_cong [OF refl])
    fix t assume "t \<in> set [0..<?d]"
    then have t: "t < ?d" by simp
    have "q * ?d + t < Suc q * ?d" using t by simp
    also have "\<dots> \<le> ?n * ?d" using q by (intro mult_le_mono1) simp
    finally have k: "q * ?d + t < ?n * ?d" .
    have mem: "bit (bs_blocks r ! q) t \<longleftrightarrow> q * ?d + t \<in> bs_set r"
      if "bs_wf r" "bs_num_bits r = bs_num_bits first" for r :: "'a word bitset_span"
      using mem_bit_bs_blocks [OF that(1), of "q * ?d + t"] that(2) k mem_bit_at [OF t, of "bs_blocks r" q] by simp
    have "map (\<lambda>v. bit v t) (map (\<lambda>r. bs_blocks r ! q) rest) = map (\<lambda>r. q * ?d + t \<in> bs_set r) rest"
      using assms(2) mem by simp
    then have C: "bit (combiner (bs_blocks first ! q) (map (\<lambda>r. bs_blocks r ! q) rest)) t \<longleftrightarrow>
        g (q * ?d + t \<in> bs_set first) (map (\<lambda>r. q * ?d + t \<in> bs_set r) rest)"
      using mem [OF assms(1) refl] by (simp only: comb [OF t])
    have "q * ?d + t < bs_num_bits first" if "q + 1 \<noteq> ?n"
    proof -
      from that q have "Suc (Suc q) * ?d \<le> ?n * ?d" by (intro mult_le_mono1) simp
      with t num_blocks_bounds(2) [OF pow, of "bs_num_bits first"] show ?thesis by simp
    qed
    moreover have "bit (last_mask (bs_num_bits first) :: 'a word) t \<longleftrightarrow> q * ?d + t < bs_num_bits first"
      if "q + 1 = ?n"
    proof -
      have "(q * ?d + t) div ?d = q" using t by simp
      then have "(q * ?d + t) div ?d = ?n - 1" using that by linarith
      then show ?thesis using bit_last_mask_pos [OF pow, of "q * ?d + t" "bs_num_bits first"] q t by simp
    qed
    ultimately show "bit (let w = combiner (bs_blocks first ! q) (map (\<lambda>r. bs_blocks r ! q) rest) in
       if q + 1 = ?n then w AND last_mask (bs_num_bits first) else w) t \<longleftrightarrow> ?P (q * ?d + t)"
      by (auto simp: C bit_and_iff Let_def)
  qed
  have "for_each_bit combiner first rest =
     concat (map (\<lambda>q. map (\<lambda>t. q * ?d + t) (filter (\<lambda>t. ?P (q * ?d + t)) [0..<?d])) [0..<?n])"
    unfolding for_each_bit_def Let_def length_bs_blocks [OF assms(1)] block_bits_filter
    using W [unfolded Let_def] by (intro arg_cong [where f = concat] map_cong refl) auto
  also have "\<dots> = filter ?P [0..<?n * ?d]" by (rule concat_blocks_filter)
  also have "\<dots> = filter ?P [0..<bs_num_bits first]"
    using num_blocks_bounds(1) [OF pow] by (intro filter_upt_le) auto
  also have "\<dots> = filter (\<lambda>k. g (k \<in> bs_set first) (map (\<lambda>r. k \<in> bs_set r) rest)) [0..<bs_num_bits first]"
    by (intro filter_cong) auto
  finally show ?thesis .
qed

section \<open>The interface of a set of positions\<close>

text \<open>
  What the grounding and clique code relies on when it combines bit sets: every operator of the
  class keeps the representation invariant and the size, and acts on the represented sets.
\<close>

locale position_sets =
  fixes wf :: "'s \<Rightarrow> bool" and universe :: "'s \<Rightarrow> nat" and elems :: "'s \<Rightarrow> nat set"
    and inter :: "'s \<Rightarrow> 's \<Rightarrow> 's" and union :: "'s \<Rightarrow> 's \<Rightarrow> 's" and minus :: "'s \<Rightarrow> 's \<Rightarrow> 's"
  assumes inter: "wf a \<Longrightarrow> wf b \<Longrightarrow> universe a = universe b \<Longrightarrow>
      wf (inter a b) \<and> universe (inter a b) = universe a \<and> elems (inter a b) = elems a \<inter> elems b"
    and union: "wf a \<Longrightarrow> wf b \<Longrightarrow> universe a = universe b \<Longrightarrow>
      wf (union a b) \<and> universe (union a b) = universe a \<and> elems (union a b) = elems a \<union> elems b"
    and minus: "wf a \<Longrightarrow> wf b \<Longrightarrow> universe a = universe b \<Longrightarrow>
      wf (minus a b) \<and> universe (minus a b) = universe a \<and> elems (minus a b) = elems a - elems b"
begin

lemma fold_inter:
  "wf a \<Longrightarrow> \<forall>b \<in> set bs. wf b \<and> universe b = universe a \<Longrightarrow>
   wf (foldl inter a bs) \<and> universe (foldl inter a bs) = universe a \<and>
   elems (foldl inter a bs) = elems a \<inter> (\<Inter>b \<in> set bs. elems b)"
  by (induction bs arbitrary: a) (use inter in auto)

lemma fold_union:
  "wf a \<Longrightarrow> \<forall>b \<in> set bs. wf b \<and> universe b = universe a \<Longrightarrow>
   wf (foldl union a bs) \<and> universe (foldl union a bs) = universe a \<and>
   elems (foldl union a bs) = elems a \<union> (\<Union>b \<in> set bs. elems b)"
  by (induction bs arbitrary: a) (use union in auto)

lemma fold_minus:
  "wf a \<Longrightarrow> \<forall>b \<in> set bs. wf b \<and> universe b = universe a \<Longrightarrow>
   wf (foldl minus a bs) \<and> universe (foldl minus a bs) = universe a \<and>
   elems (foldl minus a bs) = elems a - (\<Union>b \<in> set bs. elems b)"
  by (induction bs arbitrary: a) (use minus in auto)

end

lemma bs_zip_num_bits: "bs_num_bits (bs_zip f b other) = bs_num_bits b"
  by (simp add: bs_zip_def Let_def)

lemma bs_ops_num_bits [simp]:
  "bs_num_bits (bs_and b other) = bs_num_bits b" "bs_num_bits (bs_or b other) = bs_num_bits b"
  "bs_num_bits (bs_minus b other) = bs_num_bits b" "bs_num_bits (bs_diff_from b other) = bs_num_bits b"
  "bs_num_bits (bs_copy_from b other) = bs_num_bits b"
  by (simp_all add: bs_and_def bs_or_def bs_minus_def bs_diff_from_def bs_copy_from_def bs_zip_num_bits)

interpretation bs: position_sets "bs_wf :: 'a::len word bitset_span \<Rightarrow> bool" bs_num_bits bs_set bs_and bs_or bs_minus
  by unfold_locales (simp_all add: bs_algebra)

section \<open>Properties\<close>

text \<open>
  C22. The operators of the bit set are set operations: on spans of equal size whose trailing bits
  are zero, \<open>&=\<close>, \<open>|=\<close>, \<open>-=\<close>, \<open>diff_from\<close> and \<open>copy_from\<close> compute intersection, union, difference,
  reversed difference and copy, keep the trailing bits zero, and \<open>==\<close> holds exactly for equal sets.
\<close>

theorem bitset_operators:
  fixes a b :: "'a::len word bitset_span"
  assumes "bs_wf a" and "bs_wf b" and "bs_num_bits a = bs_num_bits b"
  shows "bs_wf (bs_and a b) \<and> bs_set (bs_and a b) = bs_set a \<inter> bs_set b \<and>
    bs_wf (bs_or a b) \<and> bs_set (bs_or a b) = bs_set a \<union> bs_set b \<and>
    bs_wf (bs_minus a b) \<and> bs_set (bs_minus a b) = bs_set a - bs_set b \<and>
    bs_wf (bs_diff_from a b) \<and> bs_set (bs_diff_from a b) = bs_set b - bs_set a \<and>
    bs_wf (bs_copy_from a b) \<and> bs_set (bs_copy_from a b) = bs_set b \<and>
    (bs_equal a b \<longleftrightarrow> bs_set a = bs_set b)"
  using bs.inter [OF assms] bs.union [OF assms] bs.minus [OF assms] bs_algebra(4,5) [OF assms(1,2)]
    bs_equal_spec [OF assms(1,2)] assms(3)
  by auto

theorem bitset_operators_witness:
  "bs_set (bs_minus \<lparr>bs_data = [0b1011, 0b1 :: 4 word], bs_num_bits = 6\<rparr> \<lparr>bs_data = [0b0010, 0b1], bs_num_bits = 6\<rparr>) =
   bs_set \<lparr>bs_data = [0b1011, 0b1 :: 4 word], bs_num_bits = 6\<rparr> - bs_set \<lparr>bs_data = [0b0010, 0b1 :: 4 word], bs_num_bits = 6\<rparr>"
proof -
  have "is_power_of_two 4" unfolding is_power_of_two_def has_single_bit_power by (rule exI [of _ 2]) simp
  then have "bs_wf \<lparr>bs_data = [0b1011, 0b1 :: 4 word], bs_num_bits = 6\<rparr>" "bs_wf \<lparr>bs_data = [0b0010, 0b1 :: 4 word], bs_num_bits = 6\<rparr>"
    by (simp_all add: bs_wf_def bs_trailing_bits_zero_def num_blocks_div last_mask_def Let_def)
  from bitset_operators [OF this] show ?thesis by simp
qed

text \<open>
  C23. Searching a bit set: \<open>find_first\<close>, \<open>find_next\<close>, \<open>find_first_zero\<close> and \<open>find_next_zero\<close> return
  the least position in range that is (not) in the set, and \<open>npos\<close> exactly when there is none, and
  \<open>count\<close>, \<open>count_zeros\<close> and \<open>any\<close> are the cardinalities and the test for emptiness.
\<close>

theorem bitset_search:
  fixes b :: "'a::len word bitset_span"
  assumes "bs_wf b" and "pos < npos"
  shows "bs_find_first b = least_from (\<lambda>k. k \<in> bs_set b) 0 (bs_num_bits b) \<and>
    bs_find_next b pos = least_from (\<lambda>k. k \<in> bs_set b) (pos + 1) (bs_num_bits b) \<and>
    bs_find_first_zero b = least_from (\<lambda>k. k \<notin> bs_set b) 0 (bs_num_bits b) \<and>
    bs_find_next_zero b pos = least_from (\<lambda>k. k \<notin> bs_set b) (pos + 1) (bs_num_bits b) \<and>
    bs_count b = card (bs_set b) \<and> bs_count_zeros b = card ({..<bs_num_bits b} - bs_set b) \<and>
    (bs_any b \<longleftrightarrow> bs_set b \<noteq> {})"
  using assms
  by (simp add: bs_find_first_spec bs_find_next_spec bs_find_first_zero_spec bs_find_next_zero_spec
      bs_count_spec bs_count_zeros_spec bs_any_spec)

theorem bitset_search_witness:
  "bs_find_next \<lparr>bs_data = [0b1011, 0b1 :: 4 word], bs_num_bits = 6\<rparr> 2 =
   least_from (\<lambda>k. k \<in> bs_set \<lparr>bs_data = [0b1011, 0b1 :: 4 word], bs_num_bits = 6\<rparr>) 3 6"
proof -
  have "is_power_of_two 4" unfolding is_power_of_two_def has_single_bit_power by (rule exI [of _ 2]) simp
  then have "bs_wf \<lparr>bs_data = [0b1011, 0b1 :: 4 word], bs_num_bits = 6\<rparr>"
    by (simp add: bs_wf_def bs_trailing_bits_zero_def num_blocks_div last_mask_def Let_def)
  from bitset_search [OF this, of 2] show ?thesis by (simp add: npos_def)
qed

text \<open>
  \<open>for_each_bit\<close> visits, in increasing order and once each, exactly the positions below the size
  at which the combination of the spans has a bit: for a combiner that works bit by bit as \<open>g\<close>, the
  positions \<open>k\<close> with \<open>g\<close> of the memberships of \<open>k\<close>, also when the combiner sets bits beyond the size.
\<close>

lemma for_each_bit_visits:
  fixes first :: "'a::len word bitset_span"
  assumes "bs_wf first" and "\<forall>r \<in> set rest. bs_wf r \<and> bs_num_bits r = bs_num_bits first"
    and "\<And>w ws j. j < LENGTH('a) \<Longrightarrow> bit (combiner w ws) j = g (bit w j) (map (\<lambda>v. bit v j) ws)"
  shows "for_each_bit combiner first rest =
    filter (\<lambda>k. g (k \<in> bs_set first) (map (\<lambda>r. k \<in> bs_set r) rest)) [0..<bs_num_bits first]"
  using assms by (rule for_each_bit_spec)

lemma for_each_bit_visits_witness:
  "for_each_bit (foldl (\<lambda>x y. x AND NOT y)) \<lparr>bs_data = [0b1011, 0b1 :: 4 word], bs_num_bits = 6\<rparr>
     [\<lparr>bs_data = [0b0010, 0b0], bs_num_bits = 6\<rparr>] =
   filter (\<lambda>k. k \<in> bs_set \<lparr>bs_data = [0b1011, 0b1 :: 4 word], bs_num_bits = 6\<rparr> \<and>
     k \<notin> bs_set \<lparr>bs_data = [0b0010, 0b0 :: 4 word], bs_num_bits = 6\<rparr>) [0..<6]"
proof -
  have "is_power_of_two 4" unfolding is_power_of_two_def has_single_bit_power by (rule exI [of _ 2]) simp
  then have wf: "bs_wf \<lparr>bs_data = [0b1011, 0b1 :: 4 word], bs_num_bits = 6\<rparr>" "bs_wf \<lparr>bs_data = [0b0010, 0b0 :: 4 word], bs_num_bits = 6\<rparr>"
    by (simp_all add: bs_wf_def bs_trailing_bits_zero_def num_blocks_div last_mask_def Let_def)
  have "bit (foldl (\<lambda>x y. x AND NOT y) w ws) j = foldl (\<lambda>x y. x \<and> \<not> y) (bit w j) (map (\<lambda>v. bit v j) ws)"
    if "j < LENGTH(4)" for w :: "4 word" and ws j
    using that by (induction ws arbitrary: w) (simp_all add: bit_simps)
  from for_each_bit_visits [OF wf(1) _ this, of "[\<lparr>bs_data = [0b0010, 0b0], bs_num_bits = 6\<rparr>]"] wf
  show ?thesis by simp
qed

end
