(* ===== verification/Substitution.thy ===== *)
theory Substitution
  imports Prelude "HOL-Library.Product_Lexorder"
begin

text \<open>
  Terms (\<^verbatim>\<open>include/tyr/formalism/term_data.hpp\<close>) and the class \<open>SubstitutionFunction\<close> of
  \<^verbatim>\<open>include/tyr/formalism/unification/substitution.hpp\<close>. Objects and parameters are their indices. The
  concept \<open>SubstitutionFor\<close> of the header is the locale \<open>substitution_for\<close>: the clients (matching,
  applying, composing) use a substitution only through it.
\<close>

section \<open>Terms\<close>

text \<open>\<open>Data<Term>\<close>: the alternatives of the variant, in the order of the declaration.\<close>

datatype tterm = Obj nat | Param nat

fun term_key :: "tterm \<Rightarrow> nat \<times> nat" where
  "term_key (Obj i) = (0, i)"
| "term_key (Param i) = (1, i)"

lemma term_key_inj: "term_key s = term_key t \<longleftrightarrow> s = t"
  by (cases s; cases t) auto

text \<open>\<open>Less\<close> on a variant compares the alternatives first.\<close>

instantiation tterm :: linorder
begin

definition less_eq_tterm :: "tterm \<Rightarrow> tterm \<Rightarrow> bool" where
  "less_eq_tterm s t \<longleftrightarrow> term_key s \<le> term_key t"

definition less_tterm :: "tterm \<Rightarrow> tterm \<Rightarrow> bool" where
  "less_tterm s t \<longleftrightarrow> term_key s < term_key t"

instance
proof standard
  fix x y :: tterm
  show "(x < y) = (x \<le> y \<and> \<not> y \<le> x)" and "x \<le> y \<or> y \<le> x"
    by (auto simp: less_eq_tterm_def less_tterm_def)
  show "x \<le> y \<Longrightarrow> y \<le> x \<Longrightarrow> x = y"
    using antisym [of "term_key x" "term_key y"] by (simp add: less_eq_tterm_def term_key_inj)
qed (auto simp: less_eq_tterm_def)

end

fun is_parameter :: "tterm \<Rightarrow> bool" where
  "is_parameter (Param p) = True"
| "is_parameter (Obj o') = False"

fun is_object :: "tterm \<Rightarrow> bool" where
  "is_object (Obj o') = True"
| "is_object (Param p) = False"

section \<open>Substitution functions\<close>

record 'v subst =
  sf_parameters :: "nat list"
  sf_data :: "'v option list"

text \<open>\<open>m_positions\<close> is determined by the parameters: \<open>emplace\<close> keeps the first position.\<close>

definition sf_position :: "'v subst \<Rightarrow> nat \<Rightarrow> nat option" where
  "sf_position s p = List.find (\<lambda>i. sf_parameters s ! i = p) [0..<length (sf_parameters s)]"

definition sf_make :: "nat list \<Rightarrow> 'v subst" where
  "sf_make parameters = \<lparr>sf_parameters = parameters, sf_data = replicate (length parameters) None\<rparr>"

definition sf_from_range :: "nat \<Rightarrow> nat \<Rightarrow> 'v subst" where
  "sf_from_range offset sz = sf_make (map (\<lambda>i. offset + i) [0..<sz])"

definition sf_contains_parameter :: "'v subst \<Rightarrow> nat \<Rightarrow> bool" where
  "sf_contains_parameter s p \<longleftrightarrow> sf_position s p \<noteq> None"

definition sf_is_bound :: "'v subst \<Rightarrow> nat \<Rightarrow> bool" where
  "sf_is_bound s p \<longleftrightarrow> (case sf_position s p of None \<Rightarrow> False | Some i \<Rightarrow> sf_data s ! i \<noteq> None)"

definition sf_is_unbound :: "'v subst \<Rightarrow> nat \<Rightarrow> bool" where
  "sf_is_unbound s p \<longleftrightarrow> (case sf_position s p of None \<Rightarrow> False | Some i \<Rightarrow> sf_data s ! i = None)"

definition sf_try_get :: "'v subst \<Rightarrow> nat \<Rightarrow> 'v option option" where
  "sf_try_get s p = (case sf_position s p of None \<Rightarrow> None | Some i \<Rightarrow> Some (sf_data s ! i))"

definition sf_has_binding :: "'v subst \<Rightarrow> nat \<Rightarrow> bool" where
  "sf_has_binding s p \<longleftrightarrow> (case sf_try_get s p of None \<Rightarrow> False | Some slot \<Rightarrow> slot \<noteq> None)"

text \<open>\<open>operator[]\<close>: \<open>m_positions.at(p)\<close> throws for a parameter outside the domain.\<close>

definition sf_at :: "'v subst \<Rightarrow> nat \<Rightarrow> 'v option result" where
  "sf_at s p = (case sf_position s p of None \<Rightarrow> Inl Out_Of_Range | Some i \<Rightarrow> Inr (sf_data s ! i))"

definition sf_assign :: "'v subst \<Rightarrow> nat \<Rightarrow> 'v \<Rightarrow> (bool \<times> 'v subst) result" where
  "sf_assign s p v =
     (case sf_position s p of
        None \<Rightarrow> Inl Out_Of_Range
      | Some i \<Rightarrow> Inr (if sf_data s ! i \<noteq> None then (False, s)
                        else (True, s\<lparr>sf_data := (sf_data s)[i := Some v]\<rparr>)))"

definition sf_assign_or_check :: "'v subst \<Rightarrow> nat \<Rightarrow> 'v \<Rightarrow> (bool \<times> 'v subst) result" where
  "sf_assign_or_check s p v =
     (case sf_position s p of
        None \<Rightarrow> Inl Out_Of_Range
      | Some i \<Rightarrow> Inr (case sf_data s ! i of
                          None \<Rightarrow> (True, s\<lparr>sf_data := (sf_data s)[i := Some v]\<rparr>)
                        | Some w \<Rightarrow> (w = v, s)))"

definition sf_is_identity :: "'v subst \<Rightarrow> bool" where
  "sf_is_identity s = list_all (\<lambda>slot. slot = None) (sf_data s)"

definition sf_bindings :: "'v subst \<Rightarrow> (nat \<times> 'v) list" where
  "sf_bindings s = concat (map (\<lambda>i. case sf_data s ! i of None \<Rightarrow> [] | Some v \<Rightarrow> [(sf_parameters s ! i, v)])
                             [0..<length (sf_parameters s)])"

definition sf_reset :: "'v subst \<Rightarrow> 'v subst" where
  "sf_reset s = s\<lparr>sf_data := replicate (length (sf_data s)) None\<rparr>"

section \<open>A substitution is a partial map on its domain\<close>

definition sf_wf :: "'v subst \<Rightarrow> bool" where
  "sf_wf s \<longleftrightarrow> distinct (sf_parameters s) \<and> length (sf_data s) = length (sf_parameters s)"

definition sf_map :: "'v subst \<Rightarrow> nat \<Rightarrow> 'v option" where
  "sf_map s p = (case sf_position s p of None \<Rightarrow> None | Some i \<Rightarrow> sf_data s ! i)"

definition sf_dom :: "'v subst \<Rightarrow> nat set" where
  "sf_dom s = set (sf_parameters s)"

lemma sf_position_None: "sf_position s p = None \<longleftrightarrow> p \<notin> sf_dom s"
  by (auto simp: sf_position_def find_None_iff sf_dom_def in_set_conv_nth)

lemma sf_position_SomeD:
  assumes "sf_position s p = Some i"
  shows "i < length (sf_parameters s)" "sf_parameters s ! i = p"
  using assms by (auto simp: sf_position_def find_Some_iff)

lemma sf_position_Some_iff:
  assumes "distinct (sf_parameters s)"
  shows "sf_position s p = Some i \<longleftrightarrow> i < length (sf_parameters s) \<and> sf_parameters s ! i = p"
proof
  assume i: "i < length (sf_parameters s) \<and> sf_parameters s ! i = p"
  then have "p \<in> sf_dom s" by (auto simp: sf_dom_def)
  then obtain j where j: "sf_position s p = Some j" using sf_position_None [of s p] by auto
  with sf_position_SomeD [OF j] i assms show "sf_position s p = Some i"
    using nth_eq_iff_index_eq [of "sf_parameters s" i j] by auto
qed (auto dest: sf_position_SomeD)

lemma sf_map_Some_iff:
  "distinct (sf_parameters s) \<Longrightarrow>
   sf_map s p = Some v \<longleftrightarrow> (\<exists>i < length (sf_parameters s). sf_parameters s ! i = p \<and> sf_data s ! i = Some v)"
  by (auto simp: sf_map_def sf_position_Some_iff split: option.splits) (metis option.distinct(1) sf_position_Some_iff, metis option.inject sf_position_Some_iff)

lemma sf_position_cong [simp]:
  "sf_position (s\<lparr>sf_data := d\<rparr>) = sf_position s" "sf_dom (s\<lparr>sf_data := d\<rparr>) = sf_dom s"
  by (simp_all add: sf_position_def sf_dom_def fun_eq_iff)

lemma sf_map_dom: "sf_map s p \<noteq> None \<Longrightarrow> p \<in> sf_dom s"
  using sf_position_None [of s p] by (auto simp: sf_map_def split: option.splits)

lemma sf_contains_parameter_iff [simp]: "sf_contains_parameter s p \<longleftrightarrow> p \<in> sf_dom s"
  by (simp add: sf_contains_parameter_def sf_position_None)

lemma sf_is_bound_iff [simp]: "sf_is_bound s p \<longleftrightarrow> sf_map s p \<noteq> None"
  by (simp add: sf_is_bound_def sf_map_def split: option.splits)

lemma sf_is_unbound_iff: "sf_is_unbound s p \<longleftrightarrow> p \<in> sf_dom s \<and> sf_map s p = None"
  using sf_position_None [of s p] by (auto simp: sf_is_unbound_def sf_map_def split: option.splits)

lemma sf_at_spec: "sf_at s p = (if p \<in> sf_dom s then Inr (sf_map s p) else Inl Out_Of_Range)"
  using sf_position_None [of s p] by (auto simp: sf_at_def sf_map_def split: option.splits)

lemma sf_try_get_spec: "sf_try_get s p = (if p \<in> sf_dom s then Some (sf_map s p) else None)"
  using sf_position_None [of s p] by (auto simp: sf_try_get_def sf_map_def split: option.splits)

lemma sf_has_binding_iff [simp]: "sf_has_binding s p \<longleftrightarrow> sf_map s p \<noteq> None"
proof (cases "p \<in> sf_dom s")
  case False
  then have "sf_map s p = None" using sf_map_dom by blast
  with False show ?thesis by (simp add: sf_has_binding_def sf_try_get_spec)
qed (simp add: sf_has_binding_def sf_try_get_spec)

lemma sf_map_update:
  assumes "sf_wf s" and "sf_position s p = Some i"
  shows "sf_map (s\<lparr>sf_data := (sf_data s)[i := Some v]\<rparr>) = (sf_map s)(p \<mapsto> v)"
    and "sf_wf (s\<lparr>sf_data := (sf_data s)[i := Some v]\<rparr>)"
proof -
  note i = sf_position_SomeD [OF assms(2)]
  have "sf_map (s\<lparr>sf_data := (sf_data s)[i := Some v]\<rparr>) q = ((sf_map s)(p \<mapsto> v)) q" for q
  proof (cases "q = p")
    case True
    then show ?thesis using i assms by (simp add: sf_map_def sf_wf_def)
  next
    case False
    then have "sf_position s q \<noteq> Some i" using i by (auto dest: sf_position_SomeD)
    with False show ?thesis by (auto simp: sf_map_def split: option.splits)
  qed
  then show "sf_map (s\<lparr>sf_data := (sf_data s)[i := Some v]\<rparr>) = (sf_map s)(p \<mapsto> v)" by (rule ext)
  show "sf_wf (s\<lparr>sf_data := (sf_data s)[i := Some v]\<rparr>)" using assms by (simp add: sf_wf_def)
qed

lemma sf_make_parameters [simp]: "sf_parameters (sf_make ps) = ps"
  by (simp add: sf_make_def)

lemma sf_make_wf: "sf_wf (sf_make ps) \<longleftrightarrow> distinct ps"
  and sf_make_dom [simp]: "sf_dom (sf_make ps) = set ps"
  and sf_make_map [simp]: "sf_map (sf_make ps) = Map.empty"
  by (auto simp: sf_wf_def sf_make_def sf_dom_def sf_map_def fun_eq_iff split: option.splits
      dest: sf_position_SomeD(1))

lemma sf_from_range_spec:
  "sf_wf (sf_from_range off n :: 'v subst)" "sf_dom (sf_from_range off n :: 'v subst) = {off..<off + n}"
  "sf_map (sf_from_range off n :: 'v subst) = Map.empty"
proof -
  have "map (\<lambda>i. off + i) [0..<n] = [off..<off + n]"
    using map_add_upt [of off n] by (simp add: add.commute)
  then show "sf_wf (sf_from_range off n :: 'v subst)" "sf_dom (sf_from_range off n :: 'v subst) = {off..<off + n}"
    "sf_map (sf_from_range off n :: 'v subst) = Map.empty"
    by (simp_all add: sf_from_range_def sf_make_wf del: map_add_upt)
qed

lemma sf_assign_spec:
  assumes "sf_wf s" and "p \<in> sf_dom s" and "sf_map s p = None"
  obtains s' where "sf_assign s p v = Inr (True, s')" "sf_wf s'" "sf_dom s' = sf_dom s" "sf_map s' = (sf_map s)(p \<mapsto> v)"
    "sf_parameters s' = sf_parameters s"
proof -
  obtain i where i: "sf_position s p = Some i" using assms(2) sf_position_None [of s p] by auto
  with assms show thesis
    by (intro that [of "s\<lparr>sf_data := (sf_data s)[i := Some v]\<rparr>"])
       (auto simp: sf_assign_def sf_map_update, auto simp: sf_map_def)
qed

lemma sf_assign_or_check_spec:
  assumes "sf_wf s" and "p \<in> sf_dom s"
  obtains s' where "sf_assign_or_check s p v = Inr (sf_map s p = None \<or> sf_map s p = Some v, s')" "sf_wf s'"
    "sf_dom s' = sf_dom s" "sf_map s' = (if sf_map s p = None then (sf_map s)(p \<mapsto> v) else sf_map s)"
proof -
  obtain i where i: "sf_position s p = Some i" using assms(2) sf_position_None [of s p] by auto
  show thesis
  proof (cases "sf_data s ! i")
    case None
    with i assms show thesis
      by (intro that [of "s\<lparr>sf_data := (sf_data s)[i := Some v]\<rparr>"])
         (simp_all add: sf_assign_or_check_def sf_map_update, simp_all add: sf_map_def)
  next
    case (Some w)
    with i assms show thesis
      by (intro that [of s]) (auto simp: sf_assign_or_check_def sf_map_def)
  qed
qed

lemma sf_bindings_set: "sf_wf s \<Longrightarrow> (p, v) \<in> set (sf_bindings s) \<longleftrightarrow> sf_map s p = Some v"
  by (force simp: sf_bindings_def sf_map_Some_iff sf_wf_def split: option.splits)

lemma sf_is_identity_iff:
  assumes "sf_wf s" shows "sf_is_identity s \<longleftrightarrow> sf_map s = Map.empty"
proof -
  have "sf_map s = Map.empty \<longleftrightarrow> (\<forall>p v. sf_map s p \<noteq> Some v)" by (auto simp: fun_eq_iff)
  also have "\<dots> \<longleftrightarrow> sf_is_identity s"
    using assms by (auto simp: sf_map_Some_iff sf_wf_def sf_is_identity_def list_all_length not_Some_eq [symmetric] simp del: not_Some_eq)
  finally show ?thesis by simp
qed

lemma sf_reset_spec: "sf_wf s \<Longrightarrow> sf_wf (sf_reset s) \<and> sf_dom (sf_reset s) = sf_dom s \<and> sf_map (sf_reset s) = Map.empty"
  by (auto simp: sf_reset_def sf_wf_def sf_map_def fun_eq_iff split: option.splits dest: sf_position_SomeD(1))

section \<open>The concept \<open>SubstitutionFor\<close>\<close>

text \<open>
  Recording a sequence of bindings, as matching does: it stops at the first conflict. An exception
  cannot happen for parameters of the domain.
\<close>

fun bind_all :: "('s \<Rightarrow> nat \<Rightarrow> 'v \<Rightarrow> (bool \<times> 's) result) \<Rightarrow> 's \<Rightarrow> (nat \<times> 'v) list \<Rightarrow> (bool \<times> 's) result" where
  "bind_all assign_or_check s [] = Inr (True, s)"
| "bind_all assign_or_check s ((p, v) # bs) =
     (case assign_or_check s p v of
        Inl e \<Rightarrow> Inl e
      | Inr (ok, s) \<Rightarrow> if ok then bind_all assign_or_check s bs else Inr (False, s))"

locale substitution_for =
  fixes wf :: "'s \<Rightarrow> bool" and domain :: "'s \<Rightarrow> nat set" and lookup :: "'s \<Rightarrow> nat \<Rightarrow> 'v option"
    and assign_or_check :: "'s \<Rightarrow> nat \<Rightarrow> 'v \<Rightarrow> (bool \<times> 's) result"
  assumes lookup_dom: "lookup s p \<noteq> None \<Longrightarrow> p \<in> domain s"
    and assign_or_check: "wf s \<Longrightarrow> p \<in> domain s \<Longrightarrow>
      \<exists>s'. assign_or_check s p v = Inr (lookup s p = None \<or> lookup s p = Some v, s') \<and> wf s' \<and>
           domain s' = domain s \<and> lookup s' = (if lookup s p = None then (lookup s)(p \<mapsto> v) else lookup s)"
begin

lemma bind_all_spec:
  assumes "wf s" and "\<forall>(p, v) \<in> set bs. p \<in> domain s"
  shows "\<exists>ok s'. bind_all assign_or_check s bs = Inr (ok, s') \<and> wf s' \<and> domain s' = domain s \<and>
    lookup s \<subseteq>\<^sub>m lookup s' \<and>
    (ok \<longleftrightarrow> (\<exists>m. lookup s \<subseteq>\<^sub>m m \<and> (\<forall>(p, v) \<in> set bs. m p = Some v))) \<and>
    (ok \<longrightarrow> (\<forall>(p, v) \<in> set bs. lookup s' p = Some v) \<and>
             (\<forall>m. lookup s \<subseteq>\<^sub>m m \<and> (\<forall>(p, v) \<in> set bs. m p = Some v) \<longrightarrow> lookup s' \<subseteq>\<^sub>m m))"
  using assms
proof (induction bs arbitrary: s)
  case (Cons b bs)
  obtain p v where b: "b = (p, v)" by fastforce
  obtain s1 where s1: "assign_or_check s p v = Inr (lookup s p = None \<or> lookup s p = Some v, s1)" "wf s1"
    "domain s1 = domain s" "lookup s1 = (if lookup s p = None then (lookup s)(p \<mapsto> v) else lookup s)"
    using assign_or_check [of s p v] Cons.prems b by auto
  show ?case
  proof (cases "lookup s p = None \<or> lookup s p = Some v")
    case True
    then have l1: "lookup s1 = (lookup s)(p \<mapsto> v)" using s1(4) by (auto simp: fun_upd_idem)
    have ext: "(lookup s)(p \<mapsto> v) \<subseteq>\<^sub>m m \<longleftrightarrow> lookup s \<subseteq>\<^sub>m m \<and> m p = Some v" for m
      using True by (auto simp: map_le_def split: if_splits)
    have "\<forall>(p, v) \<in> set bs. p \<in> domain s1" using Cons.prems(2) s1(3) by auto
    from Cons.IH [OF s1(2) this, unfolded l1 s1(3)] obtain ok s' where
      IH: "bind_all assign_or_check s1 bs = Inr (ok, s')" "wf s'" "domain s' = domain s"
        "(lookup s)(p \<mapsto> v) \<subseteq>\<^sub>m lookup s'"
        "ok \<longleftrightarrow> (\<exists>m. (lookup s)(p \<mapsto> v) \<subseteq>\<^sub>m m \<and> (\<forall>(p, v) \<in> set bs. m p = Some v))"
        "ok \<longrightarrow> (\<forall>(p, v) \<in> set bs. lookup s' p = Some v) \<and>
             (\<forall>m. (lookup s)(p \<mapsto> v) \<subseteq>\<^sub>m m \<and> (\<forall>(p, v) \<in> set bs. m p = Some v) \<longrightarrow> lookup s' \<subseteq>\<^sub>m m)"
      by (elim exE conjE) (rule that; assumption)
    have "bind_all assign_or_check s (b # bs) = Inr (ok, s')" using b s1(1) True IH(1) by auto
    with IH show ?thesis unfolding ext b by (intro exI [of _ ok] exI [of _ s']) auto
  next
    case False
    then have "bind_all assign_or_check s (b # bs) = Inr (False, s1)" "lookup s1 = lookup s"
      using b s1 by auto
    moreover have "\<not> (lookup s \<subseteq>\<^sub>m m \<and> m p = Some v)" for m
      using False by (auto simp: map_le_def dom_def)
    ultimately show ?thesis using s1(2,3) by (auto simp: b)
  qed
next
  case Nil
  have "Ex ((\<subseteq>\<^sub>m) (lookup s))" by (rule exI [of _ "lookup s"]) (rule map_le_refl)
  with Nil show ?case by (intro exI [of _ True] exI [of _ s]) simp
qed

end

interpretation sf: substitution_for "sf_wf :: 'v subst \<Rightarrow> bool" sf_dom sf_map sf_assign_or_check
proof unfold_locales
  fix s :: "'v subst" and p v
  show "sf_map s p \<noteq> None \<Longrightarrow> p \<in> sf_dom s" by (rule sf_map_dom)
  assume "sf_wf s" "p \<in> sf_dom s"
  then show "\<exists>s'. sf_assign_or_check s p v = Inr (sf_map s p = None \<or> sf_map s p = Some v, s') \<and> sf_wf s' \<and>
           sf_dom s' = sf_dom s \<and> sf_map s' = (if sf_map s p = None then (sf_map s)(p \<mapsto> v) else sf_map s)"
    by (rule sf_assign_or_check_spec [where v = v]) blast
qed

end
