(* ===== verification/Unification.thy ===== *)
theory Unification
  imports Substitution
begin

text \<open>
  \<^verbatim>\<open>include/tyr/formalism/unification\<close>: matching of term structures and application of substitutions.
  The concept \<open>TermUnifiableStructure\<close> (a type with \<open>zip_terms\<close> and \<open>transform_terms\<close>) is the locale
  \<open>term_structure\<close>; the traits of vectors and of the mutable planning structures implement it, and
  matching and substituting are specified once for all of them. A callback of \<open>zip_terms\<close> updates the
  match state it captures, so it is a function of the state that returns the new one.
\<close>

section \<open>Match states and policies\<close>

datatype parameter_role = Rigid | Sigma | Counted | Ignored

record match_state =
  ms_sigma :: "tterm subst"
  ms_counted :: "tterm subst"

type_synonym matcher = "match_state \<Rightarrow> (bool \<times> match_state) result"

definition sigma_assign_or_check :: "nat \<Rightarrow> tterm \<Rightarrow> matcher" where
  "sigma_assign_or_check p v state =
     (case sf_assign_or_check (ms_sigma state) p v of
        Inl e \<Rightarrow> Inl e | Inr (ok, s) \<Rightarrow> Inr (ok, state\<lparr>ms_sigma := s\<rparr>))"

definition counted_assign_or_check :: "nat \<Rightarrow> tterm \<Rightarrow> matcher" where
  "counted_assign_or_check p v state =
     (case sf_assign_or_check (ms_counted state) p v of
        Inl e \<Rightarrow> Inl e | Inr (ok, s) \<Rightarrow> Inr (ok, state\<lparr>ms_counted := s\<rparr>))"

record match_policy =
  match_parameter_parameter :: "nat \<Rightarrow> nat \<Rightarrow> matcher"
  match_parameter_object :: "nat \<Rightarrow> tterm \<Rightarrow> matcher"
  match_object_parameter :: "tterm \<Rightarrow> nat \<Rightarrow> matcher"

definition resolve_role :: "nat \<Rightarrow> match_state \<Rightarrow> parameter_role" where
  "resolve_role p state =
     (let in_sigma = sf_contains_parameter (ms_sigma state) p;
          in_counted = sf_contains_parameter (ms_counted state) p
      in if in_sigma then Sigma else if in_counted then Counted else Rigid)"

definition default_parameter_parameter :: "nat \<Rightarrow> nat \<Rightarrow> matcher" where
  "default_parameter_parameter lhs rhs state =
     (let lhs_role = resolve_role lhs state; rhs_role = resolve_role rhs state in
      if lhs_role = Ignored \<or> rhs_role = Ignored then Inr (True, state)
      else if lhs_role = Sigma then sigma_assign_or_check lhs (Param rhs) state
      else if lhs_role = Counted then counted_assign_or_check lhs (Param rhs) state
      else if rhs_role = Sigma then sigma_assign_or_check rhs (Param lhs) state
      else if rhs_role = Counted then counted_assign_or_check rhs (Param lhs) state
      else Inr (lhs = rhs, state))"

definition default_parameter_object :: "nat \<Rightarrow> tterm \<Rightarrow> matcher" where
  "default_parameter_object lhs rhs state =
     (case resolve_role lhs state of
        Sigma \<Rightarrow> sigma_assign_or_check lhs rhs state
      | Counted \<Rightarrow> counted_assign_or_check lhs rhs state
      | Ignored \<Rightarrow> Inr (True, state)
      | Rigid \<Rightarrow> Inr (False, state))"

definition default_object_parameter :: "tterm \<Rightarrow> nat \<Rightarrow> matcher" where
  "default_object_parameter lhs rhs state =
     (case resolve_role rhs state of
        Sigma \<Rightarrow> sigma_assign_or_check rhs lhs state
      | Counted \<Rightarrow> counted_assign_or_check rhs lhs state
      | Ignored \<Rightarrow> Inr (True, state)
      | Rigid \<Rightarrow> Inr (False, state))"

definition default_match_policy :: match_policy where
  "default_match_policy =
     \<lparr>match_parameter_parameter = default_parameter_parameter,
      match_parameter_object = default_parameter_object,
      match_object_parameter = default_object_parameter\<rparr>"

fun match_term :: "match_policy \<Rightarrow> tterm \<Rightarrow> tterm \<Rightarrow> matcher" where
  "match_term policy (Param lhs) (Param rhs) state = match_parameter_parameter policy lhs rhs state"
| "match_term policy (Param lhs) (Obj rhs) state = match_parameter_object policy lhs (Obj rhs) state"
| "match_term policy (Obj lhs) (Param rhs) state = match_object_parameter policy (Obj lhs) rhs state"
| "match_term policy (Obj lhs) (Obj rhs) state = Inr (lhs = rhs, state)"

section \<open>Structures\<close>

text \<open>The trait of \<open>std::vector\<close>: the sizes are compared first, then the loop runs until a pair fails.\<close>

fun zip_loop :: "('a \<Rightarrow> 'a \<Rightarrow> matcher) \<Rightarrow> 'a list \<Rightarrow> 'a list \<Rightarrow> matcher" where
  "zip_loop f (x # xs) (y # ys) state =
     (case f x y state of
        Inl e \<Rightarrow> Inl e
      | Inr (ok, state) \<Rightarrow> if ok then zip_loop f xs ys state else Inr (False, state))"
| "zip_loop f xs ys state = Inr (True, state)"

definition zip_terms_vector :: "('a \<Rightarrow> 'a \<Rightarrow> matcher) \<Rightarrow> 'a list \<Rightarrow> 'a list \<Rightarrow> matcher" where
  "zip_terms_vector f lhs rhs state =
     (if length lhs \<noteq> length rhs then Inr (False, state) else zip_loop f lhs rhs state)"

definition transform_terms_vector :: "('a \<Rightarrow> 'a) \<Rightarrow> 'a list \<Rightarrow> 'a list" where
  "transform_terms_vector f values = map f values"

text \<open>\<open>a && b\<close> for two callbacks that share the state.\<close>

definition and_then :: "matcher \<Rightarrow> matcher \<Rightarrow> matcher" where
  "and_then a b state =
     (case a state of Inl e \<Rightarrow> Inl e | Inr (ok, state) \<Rightarrow> if ok then b state else Inr (False, state))"

section \<open>Matching\<close>

datatype match_failure = No_Failure | Structure_Mismatch

record match_result =
  mr_state :: "match_state option"
  mr_failure :: match_failure

text \<open>\<open>zip_terms\<close> is the trait of the structure, which calls its first argument on the pairs of terms.\<close>

definition match_ex ::
  "((tterm \<Rightarrow> tterm \<Rightarrow> matcher) \<Rightarrow> 'a \<Rightarrow> 'a \<Rightarrow> matcher) \<Rightarrow> 'a \<Rightarrow> 'a \<Rightarrow> match_state \<Rightarrow> match_policy \<Rightarrow>
   match_result result" where
  "match_ex zip_terms pattern element state policy =
     (case zip_terms (match_term policy) pattern element state of
        Inl e \<Rightarrow> Inl e
      | Inr (ok, state) \<Rightarrow>
          Inr (if \<not> ok then \<lparr>mr_state = None, mr_failure = Structure_Mismatch\<rparr>
               else \<lparr>mr_state = Some state, mr_failure = No_Failure\<rparr>))"

definition match ::
  "((tterm \<Rightarrow> tterm \<Rightarrow> matcher) \<Rightarrow> 'a \<Rightarrow> 'a \<Rightarrow> matcher) \<Rightarrow> 'a \<Rightarrow> 'a \<Rightarrow> match_state \<Rightarrow> match_policy \<Rightarrow>
   match_state option result" where
  "match zip_terms pattern element state policy = map_sum id mr_state (match_ex zip_terms pattern element state policy)"

definition match_sigma ::
  "((tterm \<Rightarrow> tterm \<Rightarrow> matcher) \<Rightarrow> 'a \<Rightarrow> 'a \<Rightarrow> matcher) \<Rightarrow> 'a \<Rightarrow> 'a \<Rightarrow> tterm subst \<Rightarrow> tterm subst option result" where
  "match_sigma zip_terms pattern element sigma =
     map_sum id (map_option ms_sigma)
       (match zip_terms pattern element \<lparr>ms_sigma = sigma, ms_counted = sf_make []\<rparr> default_match_policy)"

section \<open>Applying and composing substitutions\<close>

fun apply_substitution_once :: "tterm subst \<Rightarrow> tterm \<Rightarrow> tterm" where
  "apply_substitution_once rho (Obj o') = Obj o'"
| "apply_substitution_once rho (Param p) =
     (if \<not> sf_is_bound rho p then Param p else (case sf_try_get rho p of Some (Some t) \<Rightarrow> t | _ \<Rightarrow> Param p))"

definition apply_substitution :: "tterm subst \<Rightarrow> tterm \<Rightarrow> tterm" where
  "apply_substitution rho t = apply_substitution_once rho t"

text \<open>The loop of \<open>apply_substitution_fixpoint\<close>; a parameter that was seen before ends it.\<close>

function fixpoint_loop :: "tterm subst \<Rightarrow> nat list \<Rightarrow> tterm \<Rightarrow> tterm" where
  "fixpoint_loop rho seen (Obj o') = Obj o'"
| "fixpoint_loop rho seen (Param p) =
     (if p \<in> set seen then Param p
      else if \<not> sf_is_bound rho p then Param p
      else fixpoint_loop rho (seen @ [p]) (case sf_try_get rho p of Some (Some t) \<Rightarrow> t | _ \<Rightarrow> Param p))"
  by pat_completeness auto
termination
proof (relation "measure (\<lambda>(rho, seen, t). card (sf_dom rho - set seen))")
  fix rho :: "tterm subst" and seen p
  assume p: "p \<notin> set seen" "\<not> \<not> sf_is_bound rho p"
  then have "p \<in> sf_dom rho" using sf_map_dom [of rho p] by simp
  moreover have "finite (sf_dom rho)" by (simp add: sf_dom_def)
  ultimately have "card (sf_dom rho - set (seen @ [p])) < card (sf_dom rho - set seen)"
    using p by (intro psubset_card_mono) auto
  then show "((rho, seen @ [p], case sf_try_get rho p of Some (Some t) \<Rightarrow> t | _ \<Rightarrow> Param p), (rho, seen, Param p))
    \<in> measure (\<lambda>(rho, seen, t). card (sf_dom rho - set seen))" by simp
qed simp

definition apply_substitution_fixpoint :: "tterm subst \<Rightarrow> tterm \<Rightarrow> tterm" where
  "apply_substitution_fixpoint rho t = fixpoint_loop rho [] t"

definition append_unique :: "nat list \<Rightarrow> nat list \<Rightarrow> nat list" where
  "append_unique parameters source = foldl (\<lambda>ps p. if p \<in> set ps then ps else ps @ [p]) parameters source"

text \<open>The loop over \<open>result.parameters()\<close>.\<close>

fun compose_loop :: "tterm subst \<Rightarrow> tterm subst \<Rightarrow> nat list \<Rightarrow> tterm subst \<Rightarrow> tterm subst result" where
  "compose_loop outer inner [] res = Inr res"
| "compose_loop outer inner (p # ps) res =
     (let v = apply_substitution_fixpoint outer (apply_substitution_fixpoint inner (Param p)) in
      if v \<noteq> Param p
      then case sf_assign res p v of Inl e \<Rightarrow> Inl e | Inr (_, res) \<Rightarrow> compose_loop outer inner ps res
      else compose_loop outer inner ps res)"

definition compose_substitutions :: "tterm subst \<Rightarrow> tterm subst \<Rightarrow> tterm subst result" where
  "compose_substitutions outer inner =
     (let parameters = append_unique (append_unique [] (sf_parameters inner)) (sf_parameters outer);
          res = sf_make parameters
      in compose_loop outer inner (sf_parameters res) res)"

section \<open>The concept \<open>TermUnifiableStructure\<close>\<close>

text \<open>
  A structure is a shape (what the traits compare and copy) and the sequence of its terms. The laws:
  a successful \<open>zip_terms\<close> is an equal shape and a successful run over the two term sequences;
  \<open>zip_terms\<close> throws only if the callback does, and keeps what the callback keeps; \<open>transform_terms\<close>
  keeps the shape and maps the terms.
\<close>

definition never_throws :: "(match_state \<Rightarrow> bool) \<Rightarrow> matcher \<Rightarrow> bool" where
  "never_throws I f \<longleftrightarrow> (\<forall>s. I s \<longrightarrow> (\<exists>ok s'. f s = Inr (ok, s') \<and> I s'))"

locale term_structure =
  fixes terms :: "'a \<Rightarrow> tterm list" and shape :: "'a \<Rightarrow> 'h"
    and zip_terms :: "(tterm \<Rightarrow> tterm \<Rightarrow> matcher) \<Rightarrow> 'a \<Rightarrow> 'a \<Rightarrow> matcher"
    and transform_terms :: "(tterm \<Rightarrow> tterm) \<Rightarrow> 'a \<Rightarrow> 'a"
  assumes shape_length: "shape x = shape y \<Longrightarrow> length (terms x) = length (terms y)"
    and shape_terms_eq: "shape x = shape y \<Longrightarrow> terms x = terms y \<Longrightarrow> x = y"
    and zip_success: "zip_terms f x y s = Inr (True, s') \<longleftrightarrow>
      shape x = shape y \<and> zip_loop f (terms x) (terms y) s = Inr (True, s')"
    and zip_no_throw: "(\<And>t u. never_throws I (f t u)) \<Longrightarrow> never_throws I (zip_terms f x y)"
    and transform_shape: "shape (transform_terms g x) = shape x"
    and transform_terms: "terms (transform_terms g x) = map g (terms x)"

lemma zip_loop_no_throw:
  "(\<And>t u. never_throws I (f t u)) \<Longrightarrow> never_throws I (zip_loop f xs ys)"
proof (induction xs arbitrary: ys)
  case (Cons x xs)
  show ?case
  proof (cases ys)
    case (Cons y ys')
    show ?thesis
      unfolding never_throws_def
    proof (intro allI impI)
      fix s assume "I s"
      then obtain ok s' where s': "f x y s = Inr (ok, s')" "I s'"
        using Cons.prems unfolding never_throws_def by blast
      then obtain ok' s'' where "zip_loop f xs ys' s' = Inr (ok', s'')" "I s''"
        using Cons.IH [OF Cons.prems, of ys'] unfolding never_throws_def by blast
      with s' Cons show "\<exists>ok s'. zip_loop f (x # xs) ys s = Inr (ok, s') \<and> I s'" by auto
    qed
  qed (auto simp: never_throws_def)
qed (auto simp: never_throws_def)

lemma zip_loop_append:
  "length xs = length xs' \<Longrightarrow>
   zip_loop f (xs @ ys) (xs' @ ys') s = and_then (zip_loop f xs xs') (zip_loop f ys ys') s"
  by (induction xs xs' arbitrary: s rule: list_induct2) (auto simp: and_then_def split: sum.splits prod.splits)

lemma and_then_success:
  "and_then a b s = Inr (True, s'') \<longleftrightarrow> (\<exists>s'. a s = Inr (True, s') \<and> b s' = Inr (True, s''))"
  by (auto simp: and_then_def split: sum.splits prod.splits if_splits)

lemma and_then_no_throw: "never_throws I a \<Longrightarrow> never_throws I b \<Longrightarrow> never_throws I (and_then a b)"
  unfolding never_throws_def and_then_def by fastforce

text \<open>Terms, vectors and pairs of structures are structures; every trait of the code is built from these.\<close>

lemma term_structure_term: "term_structure (\<lambda>t. [t]) (\<lambda>t. ()) (\<lambda>f. f) (\<lambda>g. g)"
  by unfold_locales (auto simp: never_throws_def split: sum.splits prod.splits if_splits)

lemma concat_zip_success:
  assumes "term_structure terms shape zip_t tr" and "length xs = length ys"
  shows "zip_loop (zip_t f) xs ys s = Inr (True, s') \<longleftrightarrow>
     map shape xs = map shape ys \<and> zip_loop f (concat (map terms xs)) (concat (map terms ys)) s = Inr (True, s')"
  using assms(2)
proof (induction xs ys arbitrary: s rule: list_induct2)
  case (Cons x xs y ys)
  note S = term_structure.zip_success [OF assms(1)] term_structure.shape_length [OF assms(1)]
  have "zip_loop (zip_t f) (x # xs) (y # ys) s = Inr (True, s') \<longleftrightarrow>
    (\<exists>s1. zip_t f x y s = Inr (True, s1) \<and> zip_loop (zip_t f) xs ys s1 = Inr (True, s'))"
    by (auto split: sum.splits prod.splits)
  also have "\<dots> \<longleftrightarrow> map shape (x # xs) = map shape (y # ys) \<and>
    and_then (zip_loop f (terms x) (terms y)) (zip_loop f (concat (map terms xs)) (concat (map terms ys))) s = Inr (True, s')"
    unfolding S(1) Cons.IH and_then_success by auto
  finally show ?case using S(2) [of x y] by (auto simp: zip_loop_append)
qed simp

lemma concat_terms_eq:
  assumes "term_structure terms shape zip_t tr" and "map shape xs = map shape ys"
    and "concat (map terms xs) = concat (map terms ys)"
  shows "xs = ys"
proof -
  have "length xs = length ys" using assms(2) by (rule map_eq_imp_length_eq)
  then show ?thesis using assms(2,3)
  proof (induction xs ys rule: list_induct2)
    case (Cons x xs y ys)
    then have "shape x = shape y" by simp
    with term_structure.shape_length [OF assms(1) this] Cons show ?case
      using term_structure.shape_terms_eq [OF assms(1) \<open>shape x = shape y\<close>] by simp
  qed simp
qed

lemma concat_terms_length:
  assumes "term_structure terms shape zip_t tr" and "map shape xs = map shape ys"
  shows "length (concat (map terms xs)) = length (concat (map terms ys))"
proof -
  have "length xs = length ys" using assms(2) by (rule map_eq_imp_length_eq)
  then show ?thesis using assms(2)
  proof (induction xs ys rule: list_induct2)
    case (Cons x xs y ys)
    then show ?case using term_structure.shape_length [OF assms(1), of x y] by simp
  qed simp
qed

lemma term_structure_vector:
  assumes "term_structure terms shape zip_t tr"
  shows "term_structure (\<lambda>xs. concat (map terms xs)) (map shape) (\<lambda>f. zip_terms_vector (zip_t f))
     (\<lambda>g. transform_terms_vector (tr g))"
proof unfold_locales
  fix xs ys f g s s' I
  show "zip_terms_vector (zip_t f) xs ys s = Inr (True, s') \<longleftrightarrow>
     map shape xs = map shape ys \<and> zip_loop f (concat (map terms xs)) (concat (map terms ys)) s = Inr (True, s')"
    using concat_zip_success [OF assms, of xs ys f s s'] map_eq_imp_length_eq [of shape xs shape ys]
    by (auto simp: zip_terms_vector_def)
  show "map shape (transform_terms_vector (tr g) xs) = map shape xs"
    "concat (map terms (transform_terms_vector (tr g) xs)) = map g (concat (map terms xs))"
    using assms by (simp_all add: transform_terms_vector_def term_structure_def map_concat o_def)
  show "never_throws I (zip_terms_vector (zip_t f) xs ys)" if "\<And>t u. never_throws I (f t u)"
  proof -
    have "never_throws I (zip_loop (zip_t f) xs ys)"
      by (rule zip_loop_no_throw) (rule term_structure.zip_no_throw [OF assms that])
    then show ?thesis by (auto simp: never_throws_def zip_terms_vector_def)
  qed
qed (rule concat_terms_length [OF assms], assumption, rule concat_terms_eq [OF assms], assumption+)

lemma term_structure_pair:
  assumes "term_structure ta sa za xa" and "term_structure tb sb zb xb"
    and "\<And>x y. ca x = ca y \<Longrightarrow> cb x = cb y \<Longrightarrow> h x = h y \<Longrightarrow> x = y"
    and "\<And>f x y. zc f x y = (if h x \<noteq> h y then (\<lambda>s. Inr (False, s)) else and_then (za f (ca x) (ca y)) (zb f (cb x) (cb y)))"
    and "\<And>g x. ca (xc g x) = xa g (ca x)" "\<And>g x. cb (xc g x) = xb g (cb x)" "\<And>g x. h (xc g x) = h x"
  shows "term_structure (\<lambda>x. ta (ca x) @ tb (cb x)) (\<lambda>x. (h x, sa (ca x), sb (cb x))) zc xc"
proof unfold_locales
  fix x y f s s' g I
  show "length (ta (ca x) @ tb (cb x)) = length (ta (ca y) @ tb (cb y))"
    if "(h x, sa (ca x), sb (cb x)) = (h y, sa (ca y), sb (cb y))"
    using that term_structure.shape_length [OF assms(1), of "ca x" "ca y"]
      term_structure.shape_length [OF assms(2), of "cb x" "cb y"] by simp
  show "x = y" if "(h x, sa (ca x), sb (cb x)) = (h y, sa (ca y), sb (cb y))"
    "ta (ca x) @ tb (cb x) = ta (ca y) @ tb (cb y)"
    using that assms(3) [of x y] term_structure.shape_length [OF assms(1), of "ca x" "ca y"]
      term_structure.shape_terms_eq [OF assms(1), of "ca x" "ca y"]
      term_structure.shape_terms_eq [OF assms(2), of "cb x" "cb y"] by simp
  show "zc f x y s = Inr (True, s') \<longleftrightarrow> (h x, sa (ca x), sb (cb x)) = (h y, sa (ca y), sb (cb y)) \<and>
      zip_loop f (ta (ca x) @ tb (cb x)) (ta (ca y) @ tb (cb y)) s = Inr (True, s')"
    using term_structure.shape_length [OF assms(1), of "ca x" "ca y"]
    by (auto simp: assms(4) and_then_success zip_loop_append term_structure.zip_success [OF assms(1)]
        term_structure.zip_success [OF assms(2)])
  show "never_throws I (zc f x y)" if "\<And>t u. never_throws I (f t u)"
    using term_structure.zip_no_throw [OF assms(1) that] term_structure.zip_no_throw [OF assms(2) that]
    by (auto simp: assms(4) and_then_no_throw never_throws_def [of I "\<lambda>s. Inr (False, s)"])
  show "(h (xc g x), sa (ca (xc g x)), sb (cb (xc g x))) = (h x, sa (ca x), sb (cb x))"
    "ta (ca (xc g x)) @ tb (cb (xc g x)) = map g (ta (ca x) @ tb (cb x))"
    using term_structure.transform_shape [OF assms(1)] term_structure.transform_shape [OF assms(2)]
      term_structure.transform_terms [OF assms(1)] term_structure.transform_terms [OF assms(2)]
    by (simp_all add: assms(5-7))
qed

lemma term_structure_wrap:
  assumes "term_structure ta sa za xa"
    and "\<And>x y. ca x = ca y \<Longrightarrow> h x = h y \<Longrightarrow> x = y"
    and "\<And>f x y. zc f x y = (if h x \<noteq> h y then (\<lambda>s. Inr (False, s)) else za f (ca x) (ca y))"
    and "\<And>g x. ca (xc g x) = xa g (ca x)" "\<And>g x. h (xc g x) = h x"
  shows "term_structure (\<lambda>x. ta (ca x)) (\<lambda>x. (h x, sa (ca x))) zc xc"
proof unfold_locales
  fix x y f s s' g I
  show "length (ta (ca x)) = length (ta (ca y))" if "(h x, sa (ca x)) = (h y, sa (ca y))"
    using that term_structure.shape_length [OF assms(1), of "ca x" "ca y"] by simp
  show "x = y" if "(h x, sa (ca x)) = (h y, sa (ca y))" "ta (ca x) = ta (ca y)"
    using that assms(2) [of x y] term_structure.shape_terms_eq [OF assms(1), of "ca x" "ca y"] by simp
  show "zc f x y s = Inr (True, s') \<longleftrightarrow> (h x, sa (ca x)) = (h y, sa (ca y)) \<and>
      zip_loop f (ta (ca x)) (ta (ca y)) s = Inr (True, s')"
    by (auto simp: assms(3) term_structure.zip_success [OF assms(1)])
  show "never_throws I (zc f x y)" if "\<And>t u. never_throws I (f t u)"
    using term_structure.zip_no_throw [OF assms(1) that]
    by (auto simp: assms(3) never_throws_def [of I "\<lambda>s. Inr (False, s)"])
  show "(h (xc g x), sa (ca (xc g x))) = (h x, sa (ca x))" "ta (ca (xc g x)) = map g (ta (ca x))"
    using term_structure.transform_shape [OF assms(1)] term_structure.transform_terms [OF assms(1)]
    by (simp_all add: assms(4,5))
qed

section \<open>Matching with the default policy\<close>

fun inst :: "(nat \<Rightarrow> tterm option) \<Rightarrow> tterm \<Rightarrow> tterm" where
  "inst m (Obj o') = Obj o'"
| "inst m (Param p) = (case m p of None \<Rightarrow> Param p | Some t \<Rightarrow> t)"

lemma apply_substitution_once_inst: "apply_substitution_once rho = inst (sf_map rho)"
proof
  fix t
  show "apply_substitution_once rho t = inst (sf_map rho) t"
    using sf_map_dom [of rho] by (cases t) (auto simp: sf_try_get_spec split: option.splits)
qed

lemma apply_substitution_inst: "apply_substitution rho = inst (sf_map rho)"
  by (simp add: apply_substitution_def apply_substitution_once_inst fun_eq_iff)

definition ms_wf :: "match_state \<Rightarrow> bool" where
  "ms_wf s \<longleftrightarrow> sf_wf (ms_sigma s) \<and> sf_wf (ms_counted s)"

lemma sigma_assign_no_throw:
  "ms_wf s \<Longrightarrow> p \<in> sf_dom (ms_sigma s) \<Longrightarrow> \<exists>ok s'. sigma_assign_or_check p v s = Inr (ok, s') \<and> ms_wf s'"
  using sf.assign_or_check [of "ms_sigma s" p v] by (auto simp: sigma_assign_or_check_def ms_wf_def)

lemma counted_assign_no_throw:
  "ms_wf s \<Longrightarrow> p \<in> sf_dom (ms_counted s) \<Longrightarrow> \<exists>ok s'. counted_assign_or_check p v s = Inr (ok, s') \<and> ms_wf s'"
  using sf.assign_or_check [of "ms_counted s" p v] by (auto simp: counted_assign_or_check_def ms_wf_def)

text \<open>The default policy looks a parameter up only where it found it, so it never throws.\<close>

lemma default_never_throws: "never_throws ms_wf (match_term default_match_policy t u)"
  unfolding never_throws_def
proof (intro allI impI)
  fix s assume s: "ms_wf s"
  note A = sigma_assign_no_throw [OF s] counted_assign_no_throw [OF s]
  show "\<exists>ok s'. match_term default_match_policy t u s = Inr (ok, s') \<and> ms_wf s'"
    using A s by (cases t; cases u)
      (auto simp: default_match_policy_def default_parameter_parameter_def default_parameter_object_def
        default_object_parameter_def resolve_role_def Let_def)
qed

text \<open>One-sided matching: a term of the pattern that is a parameter of the domain is bound, any other must be equal.\<close>

fun pattern_bindings :: "nat set \<Rightarrow> tterm list \<Rightarrow> tterm list \<Rightarrow> (nat \<times> tterm) list" where
  "pattern_bindings D (Param p # ts) (u # us) = (if p \<in> D then (p, u) # pattern_bindings D ts us else pattern_bindings D ts us)"
| "pattern_bindings D (t # ts) (u # us) = pattern_bindings D ts us"
| "pattern_bindings D ts us = []"

fun rigid_equal :: "nat set \<Rightarrow> tterm list \<Rightarrow> tterm list \<Rightarrow> bool" where
  "rigid_equal D (Param p # ts) (u # us) = ((p \<in> D \<or> Param p = u) \<and> rigid_equal D ts us)"
| "rigid_equal D (t # ts) (u # us) = (t = u \<and> rigid_equal D ts us)"
| "rigid_equal D ts us = True"

lemma match_term_one_sided:
  assumes "sf_dom (ms_counted s) = {}" and "\<And>q. u = Param q \<Longrightarrow> q \<notin> sf_dom (ms_sigma s)"
  shows "match_term default_match_policy t u s =
    (case t of Param p \<Rightarrow> if p \<in> sf_dom (ms_sigma s) then sigma_assign_or_check p u s else Inr (t = u, s)
     | Obj o' \<Rightarrow> Inr (t = u, s))"
  using assms by (cases t; cases u)
    (auto simp: default_match_policy_def default_parameter_parameter_def default_parameter_object_def
      default_object_parameter_def resolve_role_def Let_def)

lemma sigma_assign_eq:
  "sigma_assign_or_check p u s = Inr (True, s') \<longleftrightarrow>
   (\<exists>sg. sf_assign_or_check (ms_sigma s) p u = Inr (True, sg) \<and> s' = s\<lparr>ms_sigma := sg\<rparr>)"
  by (auto simp: sigma_assign_or_check_def split: sum.splits prod.splits)

lemma zip_loop_one_sided:
  assumes "length ts = length us" and "sf_wf (ms_sigma s)" and "sf_dom (ms_counted s) = {}"
    and "sf_dom (ms_sigma s) = D" and "\<forall>q \<in> D. Param q \<notin> set us"
  shows "zip_loop (match_term default_match_policy) ts us s = Inr (True, s') \<longleftrightarrow>
    rigid_equal D ts us \<and>
    (\<exists>sg. bind_all sf_assign_or_check (ms_sigma s) (pattern_bindings D ts us) = Inr (True, sg) \<and> s' = s\<lparr>ms_sigma := sg\<rparr>)"
  using assms
proof (induction ts us arbitrary: s rule: list_induct2)
  case (Cons t ts u us)
  have M: "match_term default_match_policy t u s =
    (case t of Param p \<Rightarrow> if p \<in> D then sigma_assign_or_check p u s else Inr (t = u, s) | Obj o' \<Rightarrow> Inr (t = u, s))"
    using match_term_one_sided [of s u t] Cons.prems by auto
  show ?case
  proof (cases "\<exists>p. t = Param p \<and> p \<in> D")
    case True
    then obtain p where p: "t = Param p" "p \<in> D" by blast
    obtain sg where sg: "sf_assign_or_check (ms_sigma s) p u = Inr (sf_map (ms_sigma s) p = None \<or> sf_map (ms_sigma s) p = Some u, sg)"
      "sf_wf sg" "sf_dom sg = D"
      using sf.assign_or_check [of "ms_sigma s" p u] p Cons.prems by auto
    have "zip_loop (match_term default_match_policy) ts us (s\<lparr>ms_sigma := sg\<rparr>) = Inr (True, s') \<longleftrightarrow>
      rigid_equal D ts us \<and>
      (\<exists>sg'. bind_all sf_assign_or_check sg (pattern_bindings D ts us) = Inr (True, sg') \<and> s' = s\<lparr>ms_sigma := sg'\<rparr>)"
      using Cons.IH [of "s\<lparr>ms_sigma := sg\<rparr>"] Cons.prems sg by simp
    then show ?thesis using M p sg(1) by (auto simp: sigma_assign_or_check_def)
  next
    case False
    then have "match_term default_match_policy t u s = Inr (t = u, s)"
      using M by (cases t) auto
    with False Cons.IH [of s] Cons.prems show ?thesis by (cases t) auto
  qed
qed auto

lemma inst_pattern_iff:
  assumes "length ts = length us" and "\<forall>q \<in> D. Param q \<notin> set us" and "dom m \<subseteq> D"
  shows "map (inst m) ts = us \<longleftrightarrow> rigid_equal D ts us \<and> (\<forall>(p, v) \<in> set (pattern_bindings D ts us). m p = Some v)"
  using assms
proof (induction ts us rule: list_induct2)
  case (Cons t ts u us)
  show ?case
  proof (cases t)
    case (Param p)
    show ?thesis
    proof (cases "p \<in> D")
      case True
      then have "inst m t = u \<longleftrightarrow> m p = Some u" using Param Cons.prems by (auto split: option.splits)
      with True Param Cons show ?thesis by auto
    next
      case False
      then have "m p = None" using Cons.prems by auto
      with False Param Cons show ?thesis by auto
    qed
  qed (use Cons in auto)
qed simp

lemma pattern_bindings_dom: "(p, v) \<in> set (pattern_bindings D ts us) \<Longrightarrow> p \<in> D"
  by (induction D ts us rule: pattern_bindings.induct) (auto split: if_splits)

text \<open>
  What \<open>match\<close> promises: it never throws; it succeeds exactly when the pattern has an instance, by a map
  that extends the given substitution on its domain, that is equal to the element; and then it returns
  the least such map.
\<close>

definition match_promise ::
  "((tterm \<Rightarrow> tterm) \<Rightarrow> 'a \<Rightarrow> 'a) \<Rightarrow> 'a \<Rightarrow> 'a \<Rightarrow> tterm subst \<Rightarrow> tterm subst option \<Rightarrow> bool" where
  "match_promise tr pattern element sigma r \<longleftrightarrow>
     (case r of
        None \<Rightarrow> \<not> (\<exists>m. sf_map sigma \<subseteq>\<^sub>m m \<and> dom m \<subseteq> sf_dom sigma \<and> tr (inst m) pattern = element)
      | Some sg \<Rightarrow> sf_wf sg \<and> sf_dom sg = sf_dom sigma \<and> sf_map sigma \<subseteq>\<^sub>m sf_map sg \<and>
          tr (apply_substitution sg) pattern = element \<and>
          (\<forall>m. sf_map sigma \<subseteq>\<^sub>m m \<and> dom m \<subseteq> sf_dom sigma \<and> tr (inst m) pattern = element \<longrightarrow> sf_map sg \<subseteq>\<^sub>m m))"

context term_structure
begin

lemma transform_eq_iff:
  "transform_terms g x = y \<longleftrightarrow> shape x = shape y \<and> map g (terms x) = terms y"
  by (metis shape_terms_eq transform_shape transform_terms)

lemma zip_default_spec:
  assumes wf: "sf_wf sigma" and el: "\<forall>q \<in> sf_dom sigma. Param q \<notin> set (terms element)"
  shows "\<exists>ok st. zip_terms (match_term default_match_policy) pattern element \<lparr>ms_sigma = sigma, ms_counted = sf_make []\<rparr> = Inr (ok, st) \<and>
    match_promise transform_terms pattern element sigma (if ok then Some (ms_sigma st) else None)"
proof -
  let ?st = "\<lparr>ms_sigma = sigma, ms_counted = sf_make []\<rparr>" and ?D = "sf_dom sigma"
  let ?ts = "terms pattern" and ?us = "terms element"
  let ?bs = "pattern_bindings ?D ?ts ?us"
  have "ms_wf ?st" using wf by (simp add: ms_wf_def sf_make_wf)
  then obtain ok st where r: "zip_terms (match_term default_match_policy) pattern element ?st = Inr (ok, st)"
    using zip_no_throw [of ms_wf "match_term default_match_policy" pattern element] default_never_throws
    unfolding never_throws_def by blast
  have bdom: "\<forall>(p, v) \<in> set ?bs. p \<in> ?D" using pattern_bindings_dom by auto
  obtain ok' sg where b: "bind_all sf_assign_or_check sigma ?bs = Inr (ok', sg)" "sf_wf sg" "sf_dom sg = ?D"
    "sf_map sigma \<subseteq>\<^sub>m sf_map sg"
    "ok' \<longleftrightarrow> (\<exists>m. sf_map sigma \<subseteq>\<^sub>m m \<and> (\<forall>(p, v) \<in> set ?bs. m p = Some v))"
    "ok' \<longrightarrow> (\<forall>(p, v) \<in> set ?bs. sf_map sg p = Some v) \<and>
       (\<forall>m. sf_map sigma \<subseteq>\<^sub>m m \<and> (\<forall>(p, v) \<in> set ?bs. m p = Some v) \<longrightarrow> sf_map sg \<subseteq>\<^sub>m m)"
    using sf.bind_all_spec [OF wf bdom] by (elim exE conjE) (rule that; assumption)
  have sgdom: "dom (sf_map sg) \<subseteq> ?D" using b(3) sf_map_dom [of sg] by auto
  have inst: "transform_terms (inst m) pattern = element \<longleftrightarrow>
      shape pattern = shape element \<and> rigid_equal ?D ?ts ?us \<and> (\<forall>(p, v) \<in> set ?bs. m p = Some v)"
    if "dom m \<subseteq> ?D" for m
    using inst_pattern_iff [OF shape_length el that, of pattern] by (auto simp: transform_eq_iff)
  have ok: "zip_terms (match_term default_match_policy) pattern element ?st = Inr (True, s') \<longleftrightarrow>
      shape pattern = shape element \<and> rigid_equal ?D ?ts ?us \<and> ok' \<and> s' = ?st\<lparr>ms_sigma := sg\<rparr>" for s'
    using zip_loop_one_sided [OF shape_length, of pattern element ?st ?D s'] wf el b(1)
    by (auto simp: zip_success)
  show ?thesis
  proof (cases "shape pattern = shape element \<and> rigid_equal ?D ?ts ?us \<and> ok'")
    case True
    then have "ok" "ms_sigma st = sg" using ok [of st] ok [of "?st\<lparr>ms_sigma := sg\<rparr>"] r by auto
    moreover have "match_promise transform_terms pattern element sigma (Some sg)"
      using True b inst [OF sgdom] inst by (auto simp: match_promise_def apply_substitution_inst)
    ultimately show ?thesis using r by auto
  next
    case False
    then have "\<not> ok" using ok [of st] r by (cases ok) auto
    moreover have "match_promise transform_terms pattern element sigma None"
      using False b(5) inst by (auto simp: match_promise_def)
    ultimately show ?thesis using r by auto
  qed
qed

lemma match_sigma_spec:
  assumes "sf_wf sigma" and "\<forall>q \<in> sf_dom sigma. Param q \<notin> set (terms element)"
  shows "\<exists>r. match_sigma zip_terms pattern element sigma = Inr r \<and> match_promise transform_terms pattern element sigma r"
  using zip_default_spec [OF assms, of pattern]
  by (auto simp: match_sigma_def match_def match_ex_def)

end

section \<open>Fixpoints and composition\<close>

text \<open>One binding step; the fixpoint follows these steps until none applies or a cycle closes.\<close>

inductive subst_step :: "tterm subst \<Rightarrow> tterm \<Rightarrow> tterm \<Rightarrow> bool" for rho where
  bound: "sf_map rho p = Some t \<Longrightarrow> subst_step rho (Param p) t"

inductive_cases subst_step_ParamE: "subst_step rho (Param p) t"
inductive_cases subst_step_ObjE: "subst_step rho (Obj o') t"

inductive_simps subst_step_simps: "subst_step rho (Param p) t" "subst_step rho (Obj o') t"

definition acyclic_subst :: "tterm subst \<Rightarrow> bool" where
  "acyclic_subst rho \<longleftrightarrow> (\<forall>t. \<not> (subst_step rho)\<^sup>+\<^sup>+ t t)"

lemma fixpoint_loop_reaches:
  assumes "\<forall>q \<in> set seen. (subst_step rho)\<^sup>+\<^sup>+ (Param q) t"
  shows "(subst_step rho)\<^sup>*\<^sup>* t (fixpoint_loop rho seen t) \<and>
    ((\<nexists>u. subst_step rho (fixpoint_loop rho seen t) u) \<or>
     (subst_step rho)\<^sup>+\<^sup>+ (fixpoint_loop rho seen t) (fixpoint_loop rho seen t))"
  using assms
proof (induction rho seen t rule: fixpoint_loop.induct)
  case (2 rho seen p)
  show ?case
  proof (cases "p \<in> set seen \<or> sf_map rho p = None")
    case True
    with 2 show ?thesis by (auto simp: subst_step_simps)
  next
    case False
    then obtain t where t: "sf_map rho p = Some t" by auto
    then have step: "subst_step rho (Param p) t" by (rule bound)
    have get: "(case sf_try_get rho p of Some (Some t) \<Rightarrow> t | _ \<Rightarrow> Param p) = t"
      using t sf_map_dom [of rho p] by (simp add: sf_try_get_spec)
    have "\<forall>q \<in> set (seen @ [p]). (subst_step rho)\<^sup>+\<^sup>+ (Param q) t"
      using 2(2) step by (auto intro: tranclp.trancl_into_trancl)
    with 2(1) False have "(subst_step rho)\<^sup>*\<^sup>* t (fixpoint_loop rho (seen @ [p]) t) \<and>
      ((\<nexists>u. subst_step rho (fixpoint_loop rho (seen @ [p]) t) u) \<or>
       (subst_step rho)\<^sup>+\<^sup>+ (fixpoint_loop rho (seen @ [p]) t) (fixpoint_loop rho (seen @ [p]) t))"
      by (simp add: get)
    moreover have "fixpoint_loop rho seen (Param p) = fixpoint_loop rho (seen @ [p]) t"
      using False by (simp add: get)
    ultimately show ?thesis using step by (metis converse_rtranclp_into_rtranclp)
  qed
qed (simp add: subst_step_simps)

lemma apply_substitution_fixpoint_acyclic:
  assumes "acyclic_subst rho"
  shows "(subst_step rho)\<^sup>*\<^sup>* t (apply_substitution_fixpoint rho t)"
    and "apply_substitution rho (apply_substitution_fixpoint rho t) = apply_substitution_fixpoint rho t"
proof -
  let ?r = "apply_substitution_fixpoint rho t"
  have r: "(subst_step rho)\<^sup>*\<^sup>* t ?r" "\<nexists>u. subst_step rho ?r u"
    using fixpoint_loop_reaches [of "[]" rho t] assms by (auto simp: apply_substitution_fixpoint_def acyclic_subst_def)
  show "(subst_step rho)\<^sup>*\<^sup>* t ?r" by (rule r(1))
  show "apply_substitution rho ?r = ?r"
  proof (cases ?r)
    case (Param p)
    then have "sf_map rho p = None" using r(2) by (auto simp: subst_step_simps)
    with Param show ?thesis by (simp add: apply_substitution_inst)
  qed (simp add: apply_substitution_inst)
qed

lemma append_unique_spec:
  "set (append_unique ps qs) = set ps \<union> set qs" "distinct ps \<Longrightarrow> distinct (append_unique ps qs)"
  unfolding append_unique_def by (induction qs arbitrary: ps) auto

lemma compose_loop_spec:
  fixes outer inner :: "tterm subst"
  assumes "sf_wf res" and "distinct ps" and "set ps \<subseteq> sf_dom res" and "\<forall>p \<in> set ps. sf_map res p = None"
  defines "v \<equiv> \<lambda>p. apply_substitution_fixpoint outer (apply_substitution_fixpoint inner (Param p))"
  shows "\<exists>c. compose_loop outer inner ps res = Inr c \<and> sf_wf c \<and> sf_dom c = sf_dom res \<and>
    sf_map c = (\<lambda>p. if p \<in> set ps \<and> v p \<noteq> Param p then Some (v p) else sf_map res p)"
  using assms(1-4)
proof (induction ps arbitrary: res)
  case (Cons p ps)
  show ?case
  proof (cases "v p = Param p")
    case True
    with Cons.IH [of res] Cons.prems show ?thesis by (auto simp: v_def fun_eq_iff)
  next
    case False
    have "sf_wf res" "p \<in> sf_dom res" "sf_map res p = None" using Cons.prems by auto
    then obtain res' where res': "sf_assign res p (v p) = Inr (True, res')" "sf_wf res'" "sf_dom res' = sf_dom res"
      "sf_map res' = (sf_map res)(p \<mapsto> v p)" "sf_parameters res' = sf_parameters res"
      by (rule sf_assign_spec)
    moreover have "\<forall>q \<in> set ps. sf_map res' q = None" using res'(4) Cons.prems by auto
    ultimately obtain c where c: "compose_loop outer inner ps res' = Inr c" "sf_wf c" "sf_dom c = sf_dom res'"
      "sf_map c = (\<lambda>q. if q \<in> set ps \<and> v q \<noteq> Param q then Some (v q) else sf_map res' q)"
      using Cons.IH [of res'] Cons.prems by auto
    have "compose_loop outer inner (p # ps) res = Inr c" using False res'(1) c(1) by (simp add: v_def)
    moreover have "sf_map c = (\<lambda>q. if q \<in> set (p # ps) \<and> v q \<noteq> Param q then Some (v q) else sf_map res q)"
      using c(4) res'(4) False Cons.prems(2) by (auto simp: fun_eq_iff)
    ultimately show ?thesis using c res' by auto
  qed
qed simp

lemma fixpoint_outside: "p \<notin> sf_dom rho \<Longrightarrow> apply_substitution_fixpoint rho (Param p) = Param p"
  using sf_map_dom [of rho p] by (auto simp: apply_substitution_fixpoint_def)

lemma compose_substitutions_spec:
  "\<exists>c. compose_substitutions outer inner = Inr c \<and> sf_wf c \<and> sf_dom c = sf_dom inner \<union> sf_dom outer \<and>
    (\<forall>t. apply_substitution c t = apply_substitution_fixpoint outer (apply_substitution_fixpoint inner t))"
proof -
  let ?ps = "append_unique (append_unique [] (sf_parameters inner)) (sf_parameters outer)"
  let ?v = "\<lambda>p. apply_substitution_fixpoint outer (apply_substitution_fixpoint inner (Param p))"
  have ps: "distinct ?ps" "set ?ps = sf_dom inner \<union> sf_dom outer"
    by (simp_all add: append_unique_spec sf_dom_def)
  obtain c where c: "compose_substitutions outer inner = Inr c" "sf_wf c" "sf_dom c = set ?ps"
    "sf_map c = (\<lambda>p. if p \<in> set ?ps \<and> ?v p \<noteq> Param p then Some (?v p) else None)"
    using compose_loop_spec [of "sf_make ?ps" ?ps outer inner] ps(1)
    by (auto simp: compose_substitutions_def Let_def sf_make_wf cong: if_cong)
  have "apply_substitution c t = apply_substitution_fixpoint outer (apply_substitution_fixpoint inner t)" for t
  proof (cases t)
    case (Param p)
    then show ?thesis using ps(2) fixpoint_outside [of p inner] fixpoint_outside [of p outer]
      by (cases "p \<in> set ?ps") (auto simp: apply_substitution_inst c(4))
  qed (simp add: apply_substitution_inst apply_substitution_fixpoint_def)
  with c ps(2) show ?thesis by auto
qed

end
