(* ===== verification/Mutable_Structures.thy ===== *)
theory Mutable_Structures
  imports Unification
begin

text \<open>
  \<^verbatim>\<open>include/tyr/formalism/planning/mutable\<close>: the mutable copies of atoms, literals, conditions, effects
  and actions on which invariant synthesis and the projection generator work, with their structure
  traits. A predicate is its index. Each structure is an instance of \<open>term_structure\<close>.
\<close>

section \<open>Structures\<close>

record mutable_atom =
  ma_predicate :: nat
  ma_terms :: "tterm list"

record mutable_literal =
  ml_atom :: mutable_atom
  ml_polarity :: bool

record mutable_condition =
  mc_num_parent_variables :: nat
  mc_num_variables :: nat
  mc_static_literals :: "mutable_literal list"
  mc_fluent_literals :: "mutable_literal list"

record mutable_effect =
  me_num_parent_variables :: nat
  me_num_variables :: nat
  me_literals :: "mutable_literal list"

record mutable_conditional_effect =
  mce_num_parent_variables :: nat
  mce_num_variables :: nat
  mce_condition :: mutable_condition
  mce_effect :: mutable_effect

record mutable_action =
  mact_num_variables :: nat
  mact_condition :: mutable_condition
  mact_effects :: "mutable_conditional_effect list"

text \<open>
  The constructors from repository views. A view is given by what its accessors return: an atom by
  its predicate and terms (a ground atom by its objects), a condition and an effect by their arity
  and literals.
\<close>

type_synonym atom_view = "nat \<times> tterm list"
type_synonym literal_view = "atom_view \<times> bool"
type_synonym condition_view = "nat \<times> literal_view list \<times> literal_view list"
type_synonym conditional_effect_view = "nat \<times> condition_view \<times> literal_view list"
type_synonym action_view = "nat \<times> condition_view \<times> conditional_effect_view list"

fun atom_of_view :: "atom_view \<Rightarrow> mutable_atom" where
  "atom_of_view (p, ts) = \<lparr>ma_predicate = p, ma_terms = ts\<rparr>"

fun atom_of_ground_view :: "nat \<times> nat list \<Rightarrow> mutable_atom" where
  "atom_of_ground_view (p, objects) = \<lparr>ma_predicate = p, ma_terms = map Obj objects\<rparr>"

fun literal_of_view :: "literal_view \<Rightarrow> mutable_literal" where
  "literal_of_view (a, polarity) = \<lparr>ml_atom = atom_of_view a, ml_polarity = polarity\<rparr>"

fun condition_of_view :: "nat \<Rightarrow> condition_view \<Rightarrow> mutable_condition" where
  "condition_of_view num_parent_variables (arity, statics, fluents) =
     \<lparr>mc_num_parent_variables = num_parent_variables, mc_num_variables = arity,
      mc_static_literals = map literal_of_view statics, mc_fluent_literals = map literal_of_view fluents\<rparr>"

definition effect_of_view :: "nat \<Rightarrow> nat \<Rightarrow> literal_view list \<Rightarrow> mutable_effect" where
  "effect_of_view num_parent_variables num_variables literals =
     \<lparr>me_num_parent_variables = num_parent_variables, me_num_variables = num_variables,
      me_literals = map literal_of_view literals\<rparr>"

fun conditional_effect_of_view :: "nat \<Rightarrow> conditional_effect_view \<Rightarrow> mutable_conditional_effect" where
  "conditional_effect_of_view num_parent_variables (arity, condition, effect) =
     \<lparr>mce_num_parent_variables = num_parent_variables, mce_num_variables = arity,
      mce_condition = condition_of_view num_parent_variables condition,
      mce_effect = effect_of_view num_parent_variables arity effect\<rparr>"

fun action_of_view :: "action_view \<Rightarrow> mutable_action" where
  "action_of_view (arity, condition, effects) =
     \<lparr>mact_num_variables = arity, mact_condition = condition_of_view arity condition,
      mact_effects = map (conditional_effect_of_view arity) effects\<rparr>"

section \<open>Structure traits\<close>

type_synonym term_matcher = "tterm \<Rightarrow> tterm \<Rightarrow> matcher"

definition zip_terms_atom :: "term_matcher \<Rightarrow> mutable_atom \<Rightarrow> mutable_atom \<Rightarrow> matcher" where
  "zip_terms_atom f lhs rhs =
     (if ma_predicate lhs \<noteq> ma_predicate rhs then (\<lambda>s. Inr (False, s))
      else if length (ma_terms lhs) \<noteq> length (ma_terms rhs) then (\<lambda>s. Inr (False, s))
      else zip_terms_vector f (ma_terms lhs) (ma_terms rhs))"

definition transform_terms_atom :: "(tterm \<Rightarrow> tterm) \<Rightarrow> mutable_atom \<Rightarrow> mutable_atom" where
  "transform_terms_atom f v =
     \<lparr>ma_predicate = ma_predicate v, ma_terms = transform_terms_vector f (ma_terms v)\<rparr>"

definition zip_terms_literal :: "term_matcher \<Rightarrow> mutable_literal \<Rightarrow> mutable_literal \<Rightarrow> matcher" where
  "zip_terms_literal f lhs rhs =
     (if ml_polarity lhs \<noteq> ml_polarity rhs then (\<lambda>s. Inr (False, s))
      else zip_terms_atom f (ml_atom lhs) (ml_atom rhs))"

definition transform_terms_literal :: "(tterm \<Rightarrow> tterm) \<Rightarrow> mutable_literal \<Rightarrow> mutable_literal" where
  "transform_terms_literal f v =
     \<lparr>ml_atom = transform_terms_atom f (ml_atom v), ml_polarity = ml_polarity v\<rparr>"

definition zip_terms_condition :: "term_matcher \<Rightarrow> mutable_condition \<Rightarrow> mutable_condition \<Rightarrow> matcher" where
  "zip_terms_condition f lhs rhs =
     (if mc_num_parent_variables lhs \<noteq> mc_num_parent_variables rhs then (\<lambda>s. Inr (False, s))
      else if mc_num_variables lhs \<noteq> mc_num_variables rhs then (\<lambda>s. Inr (False, s))
      else and_then (zip_terms_vector (zip_terms_literal f) (mc_static_literals lhs) (mc_static_literals rhs))
             (zip_terms_vector (zip_terms_literal f) (mc_fluent_literals lhs) (mc_fluent_literals rhs)))"

definition transform_terms_condition :: "(tterm \<Rightarrow> tterm) \<Rightarrow> mutable_condition \<Rightarrow> mutable_condition" where
  "transform_terms_condition f v =
     \<lparr>mc_num_parent_variables = mc_num_parent_variables v, mc_num_variables = mc_num_variables v,
      mc_static_literals = transform_terms_vector (transform_terms_literal f) (mc_static_literals v),
      mc_fluent_literals = transform_terms_vector (transform_terms_literal f) (mc_fluent_literals v)\<rparr>"

definition zip_terms_effect :: "term_matcher \<Rightarrow> mutable_effect \<Rightarrow> mutable_effect \<Rightarrow> matcher" where
  "zip_terms_effect f lhs rhs =
     (if me_num_parent_variables lhs \<noteq> me_num_parent_variables rhs then (\<lambda>s. Inr (False, s))
      else if me_num_variables lhs \<noteq> me_num_variables rhs then (\<lambda>s. Inr (False, s))
      else zip_terms_vector (zip_terms_literal f) (me_literals lhs) (me_literals rhs))"

definition transform_terms_effect :: "(tterm \<Rightarrow> tterm) \<Rightarrow> mutable_effect \<Rightarrow> mutable_effect" where
  "transform_terms_effect f v =
     \<lparr>me_num_parent_variables = me_num_parent_variables v, me_num_variables = me_num_variables v,
      me_literals = transform_terms_vector (transform_terms_literal f) (me_literals v)\<rparr>"

definition zip_terms_conditional_effect ::
  "term_matcher \<Rightarrow> mutable_conditional_effect \<Rightarrow> mutable_conditional_effect \<Rightarrow> matcher" where
  "zip_terms_conditional_effect f lhs rhs =
     (if mce_num_parent_variables lhs \<noteq> mce_num_parent_variables rhs then (\<lambda>s. Inr (False, s))
      else if mce_num_variables lhs \<noteq> mce_num_variables rhs then (\<lambda>s. Inr (False, s))
      else and_then (zip_terms_condition f (mce_condition lhs) (mce_condition rhs))
             (zip_terms_effect f (mce_effect lhs) (mce_effect rhs)))"

definition transform_terms_conditional_effect ::
  "(tterm \<Rightarrow> tterm) \<Rightarrow> mutable_conditional_effect \<Rightarrow> mutable_conditional_effect" where
  "transform_terms_conditional_effect f v =
     \<lparr>mce_num_parent_variables = mce_num_parent_variables v, mce_num_variables = mce_num_variables v,
      mce_condition = transform_terms_condition f (mce_condition v),
      mce_effect = transform_terms_effect f (mce_effect v)\<rparr>"

definition zip_terms_action :: "term_matcher \<Rightarrow> mutable_action \<Rightarrow> mutable_action \<Rightarrow> matcher" where
  "zip_terms_action f lhs rhs =
     (if mact_num_variables lhs \<noteq> mact_num_variables rhs then (\<lambda>s. Inr (False, s))
      else and_then (zip_terms_condition f (mact_condition lhs) (mact_condition rhs))
             (zip_terms_vector (zip_terms_conditional_effect f) (mact_effects lhs) (mact_effects rhs)))"

definition transform_terms_action :: "(tterm \<Rightarrow> tterm) \<Rightarrow> mutable_action \<Rightarrow> mutable_action" where
  "transform_terms_action f v =
     \<lparr>mact_num_variables = mact_num_variables v,
      mact_condition = transform_terms_condition f (mact_condition v),
      mact_effects = transform_terms_vector (transform_terms_conditional_effect f) (mact_effects v)\<rparr>"

section \<open>The structures are term structures\<close>

text \<open>The terms of a structure, in the order in which the traits visit them.\<close>

definition atom_terms :: "mutable_atom \<Rightarrow> tterm list" where
  "atom_terms a = concat (map (\<lambda>t. [t]) (ma_terms a))"

definition literal_terms :: "mutable_literal \<Rightarrow> tterm list" where
  "literal_terms l = atom_terms (ml_atom l)"

definition literals_terms :: "mutable_literal list \<Rightarrow> tterm list" where
  "literals_terms ls = concat (map literal_terms ls)"

definition condition_terms :: "mutable_condition \<Rightarrow> tterm list" where
  "condition_terms c = literals_terms (mc_static_literals c) @ literals_terms (mc_fluent_literals c)"

definition effect_terms :: "mutable_effect \<Rightarrow> tterm list" where
  "effect_terms e = literals_terms (me_literals e)"

definition conditional_effect_terms :: "mutable_conditional_effect \<Rightarrow> tterm list" where
  "conditional_effect_terms e = condition_terms (mce_condition e) @ effect_terms (mce_effect e)"

definition action_terms :: "mutable_action \<Rightarrow> tterm list" where
  "action_terms a = condition_terms (mact_condition a) @ concat (map conditional_effect_terms (mact_effects a))"

lemmas structure_terms_defs =
  atom_terms_def literal_terms_def literals_terms_def condition_terms_def effect_terms_def
  conditional_effect_terms_def action_terms_def

lemma atom_terms_eq [simp]: "atom_terms a = ma_terms a"
  by (simp add: atom_terms_def)

text \<open>The shapes: everything but the terms.\<close>

definition atom_shape :: "mutable_atom \<Rightarrow> nat \<times> unit list" where
  "atom_shape a = (ma_predicate a, map (\<lambda>t. ()) (ma_terms a))"

definition literal_shape :: "mutable_literal \<Rightarrow> bool \<times> nat \<times> unit list" where
  "literal_shape l = (ml_polarity l, atom_shape (ml_atom l))"

lemma atom_structure: "term_structure atom_terms atom_shape zip_terms_atom transform_terms_atom"
  unfolding atom_terms_def [abs_def] atom_shape_def [abs_def]
  by (rule term_structure_wrap [OF term_structure_vector [OF term_structure_term]])
     (auto simp: zip_terms_atom_def transform_terms_atom_def zip_terms_vector_def fun_eq_iff)

lemma literal_structure: "term_structure literal_terms literal_shape zip_terms_literal transform_terms_literal"
  unfolding literal_terms_def [abs_def] literal_shape_def [abs_def]
  by (rule term_structure_wrap [OF atom_structure])
     (auto simp: zip_terms_literal_def transform_terms_literal_def)

lemma literals_structure:
  "term_structure literals_terms (map literal_shape) (\<lambda>f. zip_terms_vector (zip_terms_literal f))
     (\<lambda>g. transform_terms_vector (transform_terms_literal g))"
  unfolding literals_terms_def [abs_def] by (rule term_structure_vector [OF literal_structure])

type_synonym literals_shape = "(bool \<times> nat \<times> unit list) list"

definition condition_shape :: "mutable_condition \<Rightarrow> (nat \<times> nat) \<times> literals_shape \<times> literals_shape" where
  "condition_shape c = ((mc_num_parent_variables c, mc_num_variables c),
     map literal_shape (mc_static_literals c), map literal_shape (mc_fluent_literals c))"

definition effect_shape :: "mutable_effect \<Rightarrow> (nat \<times> nat) \<times> literals_shape" where
  "effect_shape e = ((me_num_parent_variables e, me_num_variables e), map literal_shape (me_literals e))"

definition conditional_effect_shape ::
  "mutable_conditional_effect \<Rightarrow> (nat \<times> nat) \<times> ((nat \<times> nat) \<times> literals_shape \<times> literals_shape) \<times> (nat \<times> nat) \<times> literals_shape" where
  "conditional_effect_shape e = ((mce_num_parent_variables e, mce_num_variables e),
     condition_shape (mce_condition e), effect_shape (mce_effect e))"

definition action_shape where
  "action_shape a = (mact_num_variables a, condition_shape (mact_condition a),
     map conditional_effect_shape (mact_effects a))"

lemma condition_structure:
  "term_structure condition_terms condition_shape zip_terms_condition transform_terms_condition"
  unfolding condition_terms_def [abs_def] condition_shape_def [abs_def]
  by (rule term_structure_pair [OF literals_structure literals_structure])
     (auto simp: zip_terms_condition_def transform_terms_condition_def)

lemma effect_structure: "term_structure effect_terms effect_shape zip_terms_effect transform_terms_effect"
  unfolding effect_terms_def [abs_def] effect_shape_def [abs_def]
  by (rule term_structure_wrap [OF literals_structure])
     (auto simp: zip_terms_effect_def transform_terms_effect_def)

lemma conditional_effect_structure:
  "term_structure conditional_effect_terms conditional_effect_shape zip_terms_conditional_effect
     transform_terms_conditional_effect"
  unfolding conditional_effect_terms_def [abs_def] conditional_effect_shape_def [abs_def]
  by (rule term_structure_pair [OF condition_structure effect_structure])
     (auto simp: zip_terms_conditional_effect_def transform_terms_conditional_effect_def)

lemma action_structure: "term_structure action_terms action_shape zip_terms_action transform_terms_action"
  unfolding action_terms_def [abs_def] action_shape_def [abs_def]
  by (rule term_structure_pair [OF condition_structure term_structure_vector [OF conditional_effect_structure]])
     (auto simp: zip_terms_action_def transform_terms_action_def)

interpretation atom: term_structure atom_terms atom_shape zip_terms_atom transform_terms_atom
  by (rule atom_structure)

interpretation literal: term_structure literal_terms literal_shape zip_terms_literal transform_terms_literal
  by (rule literal_structure)

interpretation condition: term_structure condition_terms condition_shape zip_terms_condition transform_terms_condition
  by (rule condition_structure)

interpretation conditional_effect: term_structure conditional_effect_terms conditional_effect_shape
  zip_terms_conditional_effect transform_terms_conditional_effect
  by (rule conditional_effect_structure)

interpretation action: term_structure action_terms action_shape zip_terms_action transform_terms_action
  by (rule action_structure)

text \<open>The same for whole actions, with their conditions and conditional effects.\<close>

lemma match_action_correct:
  assumes "sf_wf sigma" and "\<forall>q \<in> sf_dom sigma. Param q \<notin> set (action_terms element)"
  shows "\<exists>r. match_sigma zip_terms_action pattern element sigma = Inr r \<and>
    (case r of
       None \<Rightarrow> \<not> (\<exists>m. sf_map sigma \<subseteq>\<^sub>m m \<and> dom m \<subseteq> sf_dom sigma \<and> transform_terms_action (inst m) pattern = element)
     | Some sg \<Rightarrow> sf_map sigma \<subseteq>\<^sub>m sf_map sg \<and> transform_terms_action (apply_substitution sg) pattern = element \<and>
         (\<forall>m. sf_map sigma \<subseteq>\<^sub>m m \<and> dom m \<subseteq> sf_dom sigma \<and> transform_terms_action (inst m) pattern = element \<longrightarrow>
            sf_map sg \<subseteq>\<^sub>m m))"
  using action.match_sigma_spec [of sigma element pattern] assms
  by (auto simp: match_promise_def split: option.splits)

section \<open>Properties\<close>

text \<open>
  C19. Matching a literal: if no parameter of the element belongs to the domain of the given
  substitution, \<open>match\<close> does not throw and succeeds exactly when some extension of the substitution
  on its domain turns the pattern into the element; it then returns the least such extension.
\<close>

theorem match_literal_correct:
  assumes "sf_wf sigma" and "\<forall>q \<in> sf_dom sigma. Param q \<notin> set (ma_terms (ml_atom element))"
  shows "\<exists>r. match_sigma zip_terms_literal pattern element sigma = Inr r \<and>
    (case r of
       None \<Rightarrow> \<not> (\<exists>m. sf_map sigma \<subseteq>\<^sub>m m \<and> dom m \<subseteq> sf_dom sigma \<and> transform_terms_literal (inst m) pattern = element)
     | Some sg \<Rightarrow> sf_wf sg \<and> sf_dom sg = sf_dom sigma \<and> sf_map sigma \<subseteq>\<^sub>m sf_map sg \<and>
         transform_terms_literal (apply_substitution sg) pattern = element \<and>
         (\<forall>m. sf_map sigma \<subseteq>\<^sub>m m \<and> dom m \<subseteq> sf_dom sigma \<and> transform_terms_literal (inst m) pattern = element \<longrightarrow>
            sf_map sg \<subseteq>\<^sub>m m))"
  using literal.match_sigma_spec [of sigma element pattern] assms
  by (simp add: match_promise_def literal_terms_def)

theorem match_literal_correct_witness:
  "\<exists>r. match_sigma zip_terms_literal
     \<lparr>ml_atom = \<lparr>ma_predicate = 7, ma_terms = [Param 0, Obj 4, Param 0]\<rparr>, ml_polarity = True\<rparr>
     \<lparr>ml_atom = \<lparr>ma_predicate = 7, ma_terms = [Obj 3, Obj 4, Obj 3]\<rparr>, ml_polarity = True\<rparr> (sf_from_range 0 2) = Inr r"
  using match_literal_correct [of "sf_from_range 0 2"
      "\<lparr>ml_atom = \<lparr>ma_predicate = 7, ma_terms = [Obj 3, Obj 4, Obj 3]\<rparr>, ml_polarity = True\<rparr>"
      "\<lparr>ml_atom = \<lparr>ma_predicate = 7, ma_terms = [Param 0, Obj 4, Param 0]\<rparr>, ml_polarity = True\<rparr>"]
  by (auto simp: sf_from_range_spec)

text \<open>
  C20. \<open>compose_substitutions\<close> does not throw, its domain is the union of the domains, and applying the
  composition once is applying the fixpoint of the inner and then the fixpoint of the outer
  substitution, as the comment in the code says.
\<close>

theorem compose_substitutions_correct:
  "\<exists>c. compose_substitutions outer inner = Inr c \<and> sf_dom c = sf_dom inner \<union> sf_dom outer \<and>
    (\<forall>t. apply_substitution c t = apply_substitution_fixpoint outer (apply_substitution_fixpoint inner t))"
  using compose_substitutions_spec [of outer inner] by blast

text \<open>
  C21. \<open>apply_substitution_fixpoint\<close> follows the bindings from the given term and ends in a term to
  which no binding applies, or, only when the bindings are cyclic, in a parameter on a cycle; on an
  acyclic substitution the result is therefore unchanged by a further application.
\<close>

theorem apply_substitution_fixpoint_correct:
  "(subst_step rho)\<^sup>*\<^sup>* t (apply_substitution_fixpoint rho t) \<and>
   (apply_substitution rho (apply_substitution_fixpoint rho t) = apply_substitution_fixpoint rho t \<or>
    (subst_step rho)\<^sup>+\<^sup>+ (apply_substitution_fixpoint rho t) (apply_substitution_fixpoint rho t))"
proof -
  let ?r = "apply_substitution_fixpoint rho t"
  have "apply_substitution rho ?r = ?r" if "\<nexists>u. subst_step rho ?r u"
    using that by (cases ?r) (auto simp: apply_substitution_inst subst_step_simps split: option.splits)
  then show ?thesis using fixpoint_loop_reaches [of "[]" rho t] by (auto simp: apply_substitution_fixpoint_def)
qed

end
