(* ===== verification/Dynamic_Bitset.thy ===== *)
theory Dynamic_Bitset
  imports Prelude
begin

text \<open>
  The operations of \<^verbatim>\<open>boost::dynamic_bitset<>\<close> that the code calls, on lists of bits: the result of
  \<open>find_first\<close> and \<open>find_next\<close> is an option (\<open>npos\<close> is \<open>None\<close>), and \<open>bits_of\<close> is the sequence of
  positions that the loop \<open>for (i = b.find_first(); i != npos; i = b.find_next(i))\<close> visits.
\<close>

type_synonym dbitset = "bool list"

definition db_and :: "dbitset \<Rightarrow> dbitset \<Rightarrow> dbitset" where
  "db_and a b = map2 (\<and>) a b"

definition db_or :: "dbitset \<Rightarrow> dbitset \<Rightarrow> dbitset" where
  "db_or a b = map2 (\<or>) a b"

definition db_not :: "dbitset \<Rightarrow> dbitset" where
  "db_not a = map Not a"

definition db_minus :: "dbitset \<Rightarrow> dbitset \<Rightarrow> dbitset" where
  "db_minus a b = map2 (\<lambda>x y. x \<and> \<not> y) a b"

definition db_find_first :: "dbitset \<Rightarrow> nat option" where
  "db_find_first a = List.find ((!) a) [0..<length a]"

definition db_find_next :: "dbitset \<Rightarrow> nat \<Rightarrow> nat option" where
  "db_find_next a pos = List.find ((!) a) [Suc pos..<length a]"

definition bits_of :: "dbitset \<Rightarrow> nat list" where
  "bits_of a = filter ((!) a) [0..<length a]"

definition db_count :: "dbitset \<Rightarrow> nat" where
  "db_count a = length (filter id a)"

definition db_none :: "dbitset \<Rightarrow> bool" where
  "db_none a = list_all Not a"

definition db_set :: "dbitset \<Rightarrow> nat set" where
  "db_set a = {i. i < length a \<and> a ! i}"

lemma set_bits_of [simp]: "set (bits_of a) = db_set a"
  by (auto simp: bits_of_def db_set_def)

lemma distinct_bits_of [simp]: "distinct (bits_of a)"
  by (simp add: bits_of_def)

lemma sorted_bits_of: "sorted (bits_of a)"
  unfolding bits_of_def by (rule sorted_wrt_filter) simp

lemma finite_db_set [simp]: "finite (db_set a)"
  by (simp add: db_set_def)

lemma length_db_ops [simp]:
  "length (db_and a b) = min (length a) (length b)" "length (db_or a b) = min (length a) (length b)"
  "length (db_minus a b) = min (length a) (length b)" "length (db_not a) = length a"
  by (simp_all add: db_and_def db_or_def db_minus_def db_not_def)

lemma db_set_and [simp]: "length a = length b \<Longrightarrow> db_set (db_and a b) = db_set a \<inter> db_set b"
  and db_set_or [simp]: "length a = length b \<Longrightarrow> db_set (db_or a b) = db_set a \<union> db_set b"
  and db_set_minus [simp]: "length a = length b \<Longrightarrow> db_set (db_minus a b) = db_set a - db_set b"
  and db_set_not [simp]: "db_set (db_not a) = {..<length a} - db_set a"
  by (auto simp: db_set_def db_and_def db_or_def db_minus_def db_not_def)

lemma db_set_update [simp]:
  "i < length a \<Longrightarrow> db_set (a[i := b]) = (if b then insert i (db_set a) else db_set a - {i})"
  by (auto simp: db_set_def nth_list_update split: if_splits)

lemma db_set_replicate [simp]: "db_set (replicate n b) = (if b then {..<n} else {})"
  by (auto simp: db_set_def)

lemma db_none_iff [simp]: "db_none a \<longleftrightarrow> db_set a = {}"
  by (auto simp: db_none_def db_set_def list_all_length)

lemma db_set_bound: "i \<in> db_set a \<Longrightarrow> i < length a"
  by (simp add: db_set_def)

lemma db_count_card: "db_count a = card (db_set a)"
  by (simp add: db_count_def db_set_def length_filter_conv_card)

lemma find_filter: "List.find P xs = (case filter P xs of [] \<Rightarrow> None | x # _ \<Rightarrow> Some x)"
  by (induction xs) auto

text \<open>The loop over a bit set: the first position, and from each position the next one in the list.\<close>

lemma db_find_first_bits: "db_find_first a = (case bits_of a of [] \<Rightarrow> None | i # _ \<Rightarrow> Some i)"
  by (simp add: db_find_first_def bits_of_def find_filter)

lemma upt_filter_greater: "[Suc p..<n] = filter (\<lambda>j. p < j) [0..<n]"
  by (induction n) auto

lemma db_find_next_bits:
  "db_find_next a p = (case filter (\<lambda>j. p < j) (bits_of a) of [] \<Rightarrow> None | i # _ \<Rightarrow> Some i)"
  by (simp add: db_find_next_def bits_of_def find_filter upt_filter_greater conj_commute)

end
