(* ===== verification/Bron_Kerbosch.thy ===== *)
theory Bron_Kerbosch
  imports Dynamic_Bitset
begin

text \<open>
  \<^verbatim>\<open>include/tyr/graphs/bron_kerbosch.hpp\<close> and \<^verbatim>\<open>src/graphs/bron_kerbosch.cpp\<close>: the enumeration of the
  maximal cliques of a graph given by its adjacency matrix, with the pivot of Tomita et al. The
  canonical pattern database heuristic builds its additive partitions with it. The recursion has a
  depth bound \<open>fuel\<close>, and \<open>None\<close> means that the bound was reached: on a graph with a self loop the code
  may recurse forever, on a graph without one a bound above the number of vertices is enough.
\<close>

section \<open>Graph and operations\<close>

record graph =
  matrix :: "dbitset list"

definition graph_init :: "nat \<Rightarrow> graph" where
  "graph_init nv = \<lparr>matrix = replicate nv (replicate nv False)\<rparr>"

definition validate_graph :: "graph \<Rightarrow> unit result" where
  "validate_graph g =
     (let n = length (matrix g) in
      if list_ex (\<lambda>row. length row \<noteq> n) (matrix g) then Inl Invalid_Argument else Inr ())"

text \<open>The loop of \<open>choose_pivot\<close> keeps the first vertex with the best score.\<close>

fun best_pivot_loop :: "graph \<Rightarrow> dbitset \<Rightarrow> nat \<Rightarrow> nat \<Rightarrow> nat list \<Rightarrow> nat" where
  "best_pivot_loop g candidates best_pivot best_score [] = best_pivot"
| "best_pivot_loop g candidates best_pivot best_score (u # us) =
     (let score = db_count (db_and candidates (matrix g ! u)) in
      if score > best_score then best_pivot_loop g candidates u score us
      else best_pivot_loop g candidates best_pivot best_score us)"

definition choose_pivot :: "graph \<Rightarrow> dbitset \<Rightarrow> dbitset \<Rightarrow> nat result" where
  "choose_pivot g candidates excluded =
     (case bits_of (db_or candidates excluded) of
        [] \<Rightarrow> Inl Logic_Error
      | first # rest \<Rightarrow>
          Inr (best_pivot_loop g candidates first (db_count (db_and candidates (matrix g ! first))) rest))"

text \<open>
  The loop over the extension set. \<open>rec\<close> is the recursive call on the extended clique; the callee
  works on copies of the two bit sets, and the clique is restored by \<open>pop_back\<close>.
\<close>

fun extension_loop ::
  "(nat list \<Rightarrow> dbitset \<Rightarrow> dbitset \<Rightarrow> nat list list \<Rightarrow> nat list list result option) \<Rightarrow>
   graph \<Rightarrow> nat list \<Rightarrow> nat list \<Rightarrow> dbitset \<Rightarrow> dbitset \<Rightarrow> nat list list \<Rightarrow> nat list list result option" where
  "extension_loop rec g current_clique [] candidates excluded maximal_cliques = Some (Inr maximal_cliques)"
| "extension_loop rec g current_clique (v # vs) candidates excluded maximal_cliques =
     (case rec (current_clique @ [v]) (db_and candidates (matrix g ! v)) (db_and excluded (matrix g ! v))
             maximal_cliques of
        None \<Rightarrow> None
      | Some (Inl e) \<Rightarrow> Some (Inl e)
      | Some (Inr maximal_cliques) \<Rightarrow>
          extension_loop rec g current_clique vs (candidates[v := False]) (excluded[v := True]) maximal_cliques)"

fun bron_kerbosch_pivot ::
  "nat \<Rightarrow> graph \<Rightarrow> nat list \<Rightarrow> dbitset \<Rightarrow> dbitset \<Rightarrow> nat list list \<Rightarrow> nat list list result option" where
  "bron_kerbosch_pivot 0 g current_clique candidates excluded maximal_cliques = None"
| "bron_kerbosch_pivot (Suc fuel) g current_clique candidates excluded maximal_cliques =
     (if db_none candidates \<and> db_none excluded then Some (Inr (maximal_cliques @ [current_clique]))
      else case choose_pivot g candidates excluded of
             Inl e \<Rightarrow> Some (Inl e)
           | Inr pivot \<Rightarrow>
               (let extension = db_and candidates (db_not (matrix g ! pivot)) in
                extension_loop (bron_kerbosch_pivot fuel g) g current_clique (bits_of extension)
                  candidates excluded maximal_cliques))"

definition compute_maximal_cliques :: "nat \<Rightarrow> graph \<Rightarrow> nat list list result option" where
  "compute_maximal_cliques fuel g =
     (case validate_graph g of
        Inl e \<Rightarrow> Some (Inl e)
      | Inr _ \<Rightarrow>
          (let n = length (matrix g) in
           if n = 0 then Some (Inr [[]])
           else bron_kerbosch_pivot fuel g [] (replicate n True) (replicate n False) []))"

section \<open>Maximal cliques\<close>

text \<open>The neighbourhood of a vertex, cliques and maximal cliques of a square matrix.\<close>

definition nbh :: "graph \<Rightarrow> nat \<Rightarrow> nat set" where
  "nbh g v = db_set (matrix g ! v)"

definition undirected :: "graph \<Rightarrow> bool" where
  "undirected g \<longleftrightarrow> (\<forall>row \<in> set (matrix g). length row = length (matrix g)) \<and>
     (\<forall>u < length (matrix g). u \<notin> nbh g u \<and> (\<forall>v \<in> nbh g u. u \<in> nbh g v))"

definition clique :: "graph \<Rightarrow> nat set \<Rightarrow> bool" where
  "clique g C \<longleftrightarrow> C \<subseteq> {..<length (matrix g)} \<and> (\<forall>u \<in> C. \<forall>v \<in> C. u \<noteq> v \<longrightarrow> v \<in> nbh g u)"

definition maximal_clique :: "graph \<Rightarrow> nat set \<Rightarrow> bool" where
  "maximal_clique g C \<longleftrightarrow> clique g C \<and> (\<forall>D. clique g D \<and> C \<subseteq> D \<longrightarrow> D = C)"

text \<open>The vertices adjacent to a whole set, and the invariant of the recursion.\<close>

definition common :: "graph \<Rightarrow> nat set \<Rightarrow> nat set" where
  "common g R = {u. u < length (matrix g) \<and> (\<forall>r \<in> R. u \<in> nbh g r)}"

definition bk_invar :: "graph \<Rightarrow> nat set \<Rightarrow> nat set \<Rightarrow> nat set \<Rightarrow> bool" where
  "bk_invar g R P X \<longleftrightarrow> clique g R \<and> P \<union> X = common g R \<and> P \<inter> X = {}"

definition cliques_below :: "graph \<Rightarrow> nat set \<Rightarrow> nat set \<Rightarrow> nat set set" where
  "cliques_below g R P = {C. maximal_clique g C \<and> R \<subseteq> C \<and> C \<subseteq> R \<union> P}"

lemma undirectedD:
  assumes "undirected g" and "u < length (matrix g)"
  shows "length (matrix g ! u) = length (matrix g)" and "u \<notin> nbh g u" and "v \<in> nbh g u \<Longrightarrow> u \<in> nbh g v"
    and "v \<in> nbh g u \<Longrightarrow> v < length (matrix g)"
  using assms by (auto simp: undirected_def nbh_def dest: db_set_bound)

lemma cliqueI_insert: "undirected g \<Longrightarrow> clique g C \<Longrightarrow> v \<in> common g C \<Longrightarrow> clique g (insert v C)"
  by (auto simp: clique_def common_def dest: undirectedD(3))

lemma maximal_clique_iff:
  assumes "undirected g"
  shows "maximal_clique g C \<longleftrightarrow> clique g C \<and> common g C = {}"
proof
  assume m: "maximal_clique g C"
  have "v \<in> C" if "v \<in> common g C" for v
    using m cliqueI_insert [OF assms _ that] by (auto simp: maximal_clique_def)
  moreover have "v \<notin> C" if "v \<in> common g C" for v
    using that undirectedD(2) [OF assms] by (auto simp: common_def)
  ultimately show "clique g C \<and> common g C = {}" using m by (auto simp: maximal_clique_def)
next
  assume c: "clique g C \<and> common g C = {}"
  have "D = C" if D: "clique g D" "C \<subseteq> D" for D
  proof (rule ccontr)
    assume "D \<noteq> C"
    with D obtain v where v: "v \<in> D" "v \<notin> C" by auto
    with D have "v \<in> common g C" by (auto simp: clique_def common_def)
    with c show False by simp
  qed
  with c show "maximal_clique g C" by (auto simp: maximal_clique_def)
qed

lemma common_insert: "v < length (matrix g) \<Longrightarrow> common g (insert v R) = common g R \<inter> nbh g v"
  by (auto simp: common_def)

lemma bk_invar_disjoint: "undirected g \<Longrightarrow> bk_invar g R P X \<Longrightarrow> R \<inter> (P \<union> X) = {}"
  by (auto simp: bk_invar_def common_def dest: undirectedD(2))

lemma bk_invar_extend:
  assumes "undirected g" and "bk_invar g R P X" and "v \<in> P"
  shows "bk_invar g (insert v R) (P \<inter> nbh g v) (X \<inter> nbh g v)"
    and "cliques_below g (insert v R) (P \<inter> nbh g v) = {C \<in> cliques_below g R P. v \<in> C}"
proof -
  have v: "v \<in> common g R" "v < length (matrix g)" using assms by (auto simp: bk_invar_def common_def)
  with assms show "bk_invar g (insert v R) (P \<inter> nbh g v) (X \<inter> nbh g v)"
    by (auto simp: bk_invar_def common_insert cliqueI_insert)
  have "C \<subseteq> insert v R \<union> (P \<inter> nbh g v)" if "clique g C" "v \<in> C" "C \<subseteq> R \<union> P" for C
    using that by (auto simp: clique_def)
  then show "cliques_below g (insert v R) (P \<inter> nbh g v) = {C \<in> cliques_below g R P. v \<in> C}"
    using assms(3) by (auto simp: cliques_below_def maximal_clique_def)
qed

lemma bk_invar_skip:
  assumes "undirected g" and "bk_invar g R P X" and "v \<in> P"
  shows "bk_invar g R (P - {v}) (insert v X)"
    and "cliques_below g R (P - {v}) = {C \<in> cliques_below g R P. v \<notin> C}"
  using assms bk_invar_disjoint [OF assms(1,2)] by (auto simp: bk_invar_def cliques_below_def)

text \<open>The pivot rule loses no clique: a clique that avoids the extension set could take the pivot.\<close>

lemma pivot_complete:
  assumes g: "undirected g" and inv: "bk_invar g R P X" and pivot: "pivot \<in> P \<union> X" and C: "C \<in> cliques_below g R P"
  shows "C \<inter> (P - nbh g pivot) \<noteq> {}"
proof
  assume empty: "C \<inter> (P - nbh g pivot) = {}"
  have m: "clique g C" "common g C = {}" "C \<subseteq> R \<union> P" "R \<subseteq> C"
    using C by (auto simp: cliques_below_def maximal_clique_iff [OF g])
  have pc: "pivot \<in> common g R" using inv pivot by (simp add: bk_invar_def)
  have "pivot \<in> nbh g c" if "c \<in> C" for c
  proof (cases "c \<in> R")
    case True
    then show ?thesis using pc by (simp add: common_def)
  next
    case False
    with that m empty have "c \<in> nbh g pivot" by auto
    moreover have "pivot < length (matrix g)" using pc by (simp add: common_def)
    ultimately show ?thesis using undirectedD(3) [OF g] by blast
  qed
  with pc have "pivot \<in> common g C" by (simp add: common_def)
  with m show False by simp
qed

section \<open>Correctness of the enumeration\<close>

text \<open>A list of vertex lists that enumerates a set of vertex sets, each once.\<close>

definition enumerates :: "nat list list \<Rightarrow> nat set set \<Rightarrow> bool" where
  "enumerates cs K \<longleftrightarrow> distinct (map set cs) \<and> set ` set cs = K \<and> (\<forall>c \<in> set cs. distinct c)"

lemma enumerates_append:
  "enumerates cs K \<Longrightarrow> enumerates ds L \<Longrightarrow> K \<inter> L = {} \<Longrightarrow> enumerates (cs @ ds) (K \<union> L)"
  by (auto simp: enumerates_def)

lemma best_pivot_loop_in: "best_pivot_loop g P b sc us \<in> insert b (set us)"
  by (induction us arbitrary: b sc) (auto simp: Let_def)

lemma choose_pivot_in:
  assumes "length P = length X" and "db_set P \<union> db_set X \<noteq> {}"
  obtains p where "choose_pivot g P X = Inr p" and "p \<in> db_set P \<union> db_set X"
proof -
  have S: "set (bits_of (db_or P X)) = db_set P \<union> db_set X" using assms(1) by simp
  with assms(2) obtain f r where fr: "bits_of (db_or P X) = f # r" by (cases "bits_of (db_or P X)") auto
  let ?p = "best_pivot_loop g P f (db_count (db_and P (matrix g ! f))) r"
  have "?p \<in> insert f (set r)" by (rule best_pivot_loop_in)
  also have "\<dots> = db_set P \<union> db_set X" using S fr by simp
  finally show thesis by (intro that [of ?p]) (simp_all add: choose_pivot_def fr)
qed

text \<open>The loop, given that the recursive call is correct on every smaller candidate set.\<close>

lemma extension_loop_enumerates:
  assumes g: "undirected g"
    and rec: "\<And>R P X out. length P = length (matrix g) \<Longrightarrow> length X = length (matrix g) \<Longrightarrow> distinct R \<Longrightarrow>
        bk_invar g (set R) (db_set P) (db_set X) \<Longrightarrow> card (db_set P) < fuel \<Longrightarrow>
        \<exists>cs. rec R P X out = Some (Inr (out @ cs)) \<and> enumerates cs (cliques_below g (set R) (db_set P))"
    and "length P = length (matrix g)" "length X = length (matrix g)" "distinct R"
    and "bk_invar g (set R) (db_set P) (db_set X)" and "card (db_set P) \<le> fuel"
    and "distinct vs" "set vs \<subseteq> db_set P"
  shows "\<exists>cs. extension_loop rec g R vs P X out = Some (Inr (out @ cs)) \<and>
    enumerates cs {C \<in> cliques_below g (set R) (db_set P). C \<inter> set vs \<noteq> {}}"
  using assms(3-9)
proof (induction vs arbitrary: P X out)
  case (Cons v vs)
  let ?N = "matrix g ! v"
  have v: "v \<in> db_set P" and vn: "v < length (matrix g)"
    using Cons.prems db_set_bound [of v P] by auto
  have N: "length ?N = length (matrix g)" "nbh g v = db_set ?N"
    using undirectedD(1) [OF g vn] by (simp_all add: nbh_def)
  note ext = bk_invar_extend [OF g Cons.prems(4) v, unfolded N(2)]
  note skip = bk_invar_skip [OF g Cons.prems(4) v]
  have "v \<notin> db_set ?N" using undirectedD(2) [OF g vn] N(2) by simp
  with v have "card (db_set P \<inter> db_set ?N) < card (db_set P)" by (intro psubset_card_mono) auto
  moreover have "v \<notin> set R" using bk_invar_disjoint [OF g Cons.prems(4)] v by auto
  ultimately obtain cs where cs: "rec (R @ [v]) (db_and P ?N) (db_and X ?N) out = Some (Inr (out @ cs))"
    "enumerates cs {C \<in> cliques_below g (set R) (db_set P). v \<in> C}"
    using rec [of "db_and P ?N" "db_and X ?N" "R @ [v]" out] Cons.prems N ext by auto
  have "card (db_set P - {v}) \<le> fuel" using Cons.prems(5) card_Diff1_le [of "db_set P" v] by linarith
  then obtain ds where ds: "extension_loop rec g R vs (P[v := False]) (X[v := True]) (out @ cs) = Some (Inr ((out @ cs) @ ds))"
    "enumerates ds {C \<in> cliques_below g (set R) (db_set P). v \<notin> C \<and> C \<inter> set vs \<noteq> {}}"
    using Cons.IH [of "P[v := False]" "X[v := True]" "out @ cs"] Cons.prems vn skip by auto
  have "enumerates (cs @ ds) ({C \<in> cliques_below g (set R) (db_set P). v \<in> C} \<union>
     {C \<in> cliques_below g (set R) (db_set P). v \<notin> C \<and> C \<inter> set vs \<noteq> {}})"
    using cs ds by (intro enumerates_append) auto
  also have "({C \<in> cliques_below g (set R) (db_set P). v \<in> C} \<union>
     {C \<in> cliques_below g (set R) (db_set P). v \<notin> C \<and> C \<inter> set vs \<noteq> {}}) =
     {C \<in> cliques_below g (set R) (db_set P). C \<inter> set (v # vs) \<noteq> {}}" by auto
  finally show ?case using cs ds by auto
qed (simp add: enumerates_def)

lemma bron_kerbosch_pivot_enumerates:
  assumes g: "undirected g" and "length P = length (matrix g)" "length X = length (matrix g)" "distinct R"
    and "bk_invar g (set R) (db_set P) (db_set X)" and "card (db_set P) < fuel"
  shows "\<exists>cs. bron_kerbosch_pivot fuel g R P X out = Some (Inr (out @ cs)) \<and>
    enumerates cs (cliques_below g (set R) (db_set P))"
  using assms(2-6)
proof (induction fuel arbitrary: R P X out)
  case (Suc fuel)
  show ?case
  proof (cases "db_set P \<union> db_set X = {}")
    case True
    then have "maximal_clique g (set R)"
      using Suc.prems by (simp add: maximal_clique_iff [OF g] bk_invar_def)
    then have "enumerates [R] (cliques_below g (set R) (db_set P))"
      using True Suc.prems by (auto simp: enumerates_def cliques_below_def)
    with True show ?thesis by auto
  next
    case False
    obtain p where p: "choose_pivot g P X = Inr p" "p \<in> db_set P \<union> db_set X"
      using choose_pivot_in [OF _ False] Suc.prems by metis
    let ?vs = "bits_of (db_and P (db_not (matrix g ! p)))"
    have pn: "p < length (matrix g)" using p Suc.prems db_set_bound [of p P] db_set_bound [of p X] by auto
    then have len: "length (matrix g ! p) = length (matrix g)" by (rule undirectedD(1) [OF g])
    have vs: "set ?vs = db_set P - nbh g p"
      using Suc.prems len db_set_bound [of _ P] by (auto simp: nbh_def)
    have "card (db_set P) \<le> fuel" "distinct ?vs" "set ?vs \<subseteq> db_set P"
      using Suc.prems(5) vs by auto
    note loop = extension_loop_enumerates [where rec = "bron_kerbosch_pivot fuel g" and fuel = fuel and out = out,
        OF g _ Suc.prems(1-4) this]
    have "\<exists>cs. extension_loop (bron_kerbosch_pivot fuel g) g R ?vs P X out = Some (Inr (out @ cs)) \<and>
        enumerates cs {C \<in> cliques_below g (set R) (db_set P). C \<inter> set ?vs \<noteq> {}}"
      by (rule loop) (rule Suc.IH)
    then obtain cs where cs: "extension_loop (bron_kerbosch_pivot fuel g) g R ?vs P X out = Some (Inr (out @ cs))"
      "enumerates cs {C \<in> cliques_below g (set R) (db_set P). C \<inter> (db_set P - nbh g p) \<noteq> {}}"
      unfolding vs by (elim exE conjE)
    have "{C \<in> cliques_below g (set R) (db_set P). C \<inter> (db_set P - nbh g p) \<noteq> {}} = cliques_below g (set R) (db_set P)"
      using pivot_complete [OF g Suc.prems(4) p(2)] by auto
    with cs False p show ?thesis by (auto simp: Let_def)
  qed
qed simp

text \<open>A matrix with a row of the wrong length is refused, whatever the depth bound.\<close>

lemma compute_maximal_cliques_not_square:
  "(\<exists>row \<in> set (matrix g). length row \<noteq> length (matrix g)) \<Longrightarrow>
   compute_maximal_cliques fuel g = Some (Inl Invalid_Argument)"
  by (auto simp: compute_maximal_cliques_def validate_graph_def list_ex_iff)

lemma maximal_cliques_enumerated:
  assumes "undirected g" and "length (matrix g) < fuel"
  shows "\<exists>cs. compute_maximal_cliques fuel g = Some (Inr cs) \<and> distinct (map set cs) \<and>
    set ` set cs = {C. maximal_clique g C} \<and> (\<forall>c \<in> set cs. distinct c)"
proof -
  let ?n = "length (matrix g)"
  have valid: "validate_graph g = Inr ()"
    using assms(1) by (auto simp: validate_graph_def undirected_def list_ex_iff)
  have below: "cliques_below g {} {..<?n} = {C. maximal_clique g C}"
    by (auto simp: cliques_below_def maximal_clique_def clique_def)
  have inv: "bk_invar g {} {..<?n} {}"
    by (auto simp: bk_invar_def clique_def common_def)
  obtain cs where cs: "bron_kerbosch_pivot fuel g [] (replicate ?n True) (replicate ?n False) [] = Some (Inr cs)"
    "enumerates cs {C. maximal_clique g C}"
    using bron_kerbosch_pivot_enumerates [OF assms(1), of "replicate ?n True" "replicate ?n False" "[]" fuel "[]"]
      assms(2) inv below by auto
  show ?thesis
  proof (cases "?n = 0")
    case True
    then have "{C. maximal_clique g C} = {{}}"
      by (auto simp: maximal_clique_def clique_def)
    with True valid show ?thesis by (simp add: compute_maximal_cliques_def)
  next
    case False
    with cs valid show ?thesis by (auto simp: compute_maximal_cliques_def enumerates_def Let_def)
  qed
qed

text \<open>Every clique lies in a maximal one.\<close>

lemma clique_extends:
  assumes "clique g C"
  obtains D where "C \<subseteq> D" "maximal_clique g D"
proof -
  let ?S = "{D. clique g D \<and> C \<subseteq> D}"
  have "?S \<subseteq> Pow {..<length (matrix g)}" by (auto simp: clique_def)
  then have "finite ?S" by (rule finite_subset) simp
  moreover have "C \<in> ?S" using assms by simp
  ultimately obtain D where D: "D \<in> ?S" "\<forall>E \<in> ?S. D \<subseteq> E \<longrightarrow> D = E"
    using finite_has_maximal2 [of ?S C] by auto
  then have "maximal_clique g D" by (auto simp: maximal_clique_def)
  with D show thesis using that by blast
qed

section \<open>Properties\<close>

text \<open>
  C17. On an undirected graph without self loops, with a depth bound above the number of vertices,
  \<open>compute_maximal_cliques\<close> returns, and the result lists every maximal clique of the graph
  exactly once and nothing else, each as a list without repetition. No call of \<open>choose_pivot\<close>
  throws on the way.
\<close>

theorem compute_maximal_cliques_correct:
  assumes "undirected g" and "length (matrix g) < fuel"
  shows "\<exists>cs. compute_maximal_cliques fuel g = Some (Inr cs) \<and> distinct (map set cs) \<and>
    set ` set cs = {C. maximal_clique g C} \<and> (\<forall>c \<in> set cs. distinct c)"
  using assms by (rule maximal_cliques_enumerated)

theorem compute_maximal_cliques_correct_witness:
  "\<exists>cs. compute_maximal_cliques 4 \<lparr>matrix = [[False, True, False], [True, False, True], [False, True, False]]\<rparr> = Some (Inr cs) \<and>
    distinct (map set cs) \<and>
    set ` set cs = {C. maximal_clique \<lparr>matrix = [[False, True, False], [True, False, True], [False, True, False]]\<rparr> C}"
proof -
  let ?g = "\<lparr>matrix = [[False, True, False], [True, False, True], [False, True, False]]\<rparr>"
  have "nbh ?g 0 = {1}" "nbh ?g (Suc 0) = {0, 2}" "nbh ?g 2 = {1}"
    by (auto simp: nbh_def db_set_def less_Suc_eq numeral_2_eq_2 numeral_3_eq_3)
  then have "undirected ?g" by (auto simp: undirected_def less_Suc_eq numeral_2_eq_2)
  from compute_maximal_cliques_correct [OF this, of 4] show ?thesis by auto
qed

end
