(* ===== verification/Canonical_Heuristic.thy ===== *)
theory Canonical_Heuristic
  imports Bron_Kerbosch Substitution "HOL-Library.Extended_Nat"
begin

text \<open>
  Projection abstractions and the pattern database heuristics on them:
  \<^verbatim>\<open>include/tyr/planning/abstractions/explicit_projection.hpp\<close>, \<^verbatim>\<open>src/planning/heuristics/projection_abstraction.cpp\<close>
  and \<^verbatim>\<open>src/planning/heuristics/canonical.cpp\<close>. Distances are sums of unit weights or infinite, so a
  \<open>float_t\<close> is an \<open>enat\<close>. Dijkstra's algorithm is Boost's: it is a parameter, and what the heuristic
  needs of it is \<open>dijkstra_feasible\<close>. The main theorem is that the canonical heuristic is admissible.
\<close>

section \<open>Projections\<close>

record transition =
  tr_projected_action :: nat
  tr_original_action :: nat
  tr_substitution :: "nat subst"
  tr_src :: nat
  tr_dst :: nat

text \<open>A fact of a pattern is a variable and a value; a state maps variables to values.\<close>

type_synonym pattern = "(nat \<times> nat) list"
type_synonym fdr_state = "nat \<Rightarrow> nat"

fun map_state_loop :: "fdr_state \<Rightarrow> nat \<Rightarrow> pattern \<Rightarrow> 32 word \<Rightarrow> 32 word" where
  "map_state_loop state i [] r = r"
| "map_state_loop state i ((variable, val) # facts) r =
     map_state_loop state (Suc i) facts (if state variable = val then r OR push_bit i 1 else r)"

definition map_state :: "pattern \<Rightarrow> fdr_state \<Rightarrow> 32 word" where
  "map_state pattern state = map_state_loop state 0 pattern 0"

definition compute_state_changing_transitions :: "transition list \<Rightarrow> dbitset" where
  "compute_state_changing_transitions transitions =
     foldl (\<lambda>result t. if tr_src (transitions ! t) \<noteq> tr_dst (transitions ! t) then result[t := True] else result)
       (replicate (length transitions) False) [0..<length transitions]"

text \<open>The vertices are states of a repository; only their number matters here.\<close>

record projection =
  pr_pattern :: pattern
  pr_num_vertices :: nat
  pr_transitions :: "transition list"
  pr_adj_lists :: "nat list list"
  pr_goal_vertices :: "nat list"
  pr_state_changing_transitions :: dbitset

definition forward_projection ::
  "pattern \<Rightarrow> nat \<Rightarrow> transition list \<Rightarrow> nat list list \<Rightarrow> nat list \<Rightarrow> projection" where
  "forward_projection pattern num_vertices transitions adj_lists goal_vertices =
     \<lparr>pr_pattern = pattern, pr_num_vertices = num_vertices, pr_transitions = transitions,
      pr_adj_lists = adj_lists, pr_goal_vertices = goal_vertices,
      pr_state_changing_transitions = compute_state_changing_transitions transitions\<rparr>"

text \<open>The adjacency lists of \<open>BackwardProjectionAbstraction\<close>.\<close>

definition backward_adj_lists :: "projection \<Rightarrow> nat list list" where
  "backward_adj_lists g =
     foldl (\<lambda>adj t. adj[tr_dst (pr_transitions g ! t) := adj ! tr_dst (pr_transitions g ! t) @ [t]])
       (replicate (pr_num_vertices g) []) [0..<length (pr_transitions g)]"

section \<open>The heuristic of one projection\<close>

text \<open>
  \<open>dijkstra num_vertices adj_lists source target weights sources\<close> is the distance vector of
  \<^verbatim>\<open>boost::dijkstra_shortest_paths\<close>. In the backward graph the source of an edge is the target of the transition.
\<close>

type_synonym dijkstra = "nat \<Rightarrow> nat list list \<Rightarrow> (nat \<Rightarrow> nat) \<Rightarrow> (nat \<Rightarrow> nat) \<Rightarrow> enat list \<Rightarrow> nat list \<Rightarrow> enat list"

definition projection_distances :: "dijkstra \<Rightarrow> projection \<Rightarrow> enat list" where
  "projection_distances dijkstra g =
     (let weights = replicate (length (pr_transitions g)) 1 in
      dijkstra (pr_num_vertices g) (backward_adj_lists g) (\<lambda>e. tr_dst (pr_transitions g ! e))
        (\<lambda>e. tr_src (pr_transitions g ! e)) weights (pr_goal_vertices g))"

definition projection_evaluate :: "enat list \<Rightarrow> pattern \<Rightarrow> fdr_state \<Rightarrow> enat result" where
  "projection_evaluate distances pattern state =
     (let v = unat (map_state pattern state) in
      if v < length distances then Inr (distances ! v) else Inl Out_Of_Range)"

section \<open>Labels and additivity\<close>

type_synonym labels_by_action = "(nat \<times> nat subst list) list"

definition substitutions_equal_exact :: "'v subst \<Rightarrow> 'v subst \<Rightarrow> bool" where
  "substitutions_equal_exact lhs rhs \<longleftrightarrow>
     sf_parameters lhs = sf_parameters rhs \<and> list_all (\<lambda>p. sf_at lhs p = sf_at rhs p) (sf_parameters lhs)"

definition substitutions_compatible :: "'v subst \<Rightarrow> 'v subst \<Rightarrow> bool" where
  "substitutions_compatible lhs rhs \<longleftrightarrow>
     list_all (\<lambda>p. case (sf_try_get lhs p, sf_try_get rhs p) of
                 (Some (Some x), Some (Some y)) \<Rightarrow> x = y
               | _ \<Rightarrow> True) (sf_parameters lhs)"

definition push_unique_exact :: "'v subst list \<Rightarrow> 'v subst \<Rightarrow> 'v subst list" where
  "push_unique_exact vec sigma =
     (if list_all (\<lambda>other. \<not> substitutions_equal_exact other sigma) vec then vec @ [sigma] else vec)"

text \<open>\<open>labels[action]\<close> creates an empty vector for a new action.\<close>

fun labels_update :: "nat \<Rightarrow> ('v list \<Rightarrow> 'v list) \<Rightarrow> (nat \<times> 'v list) list \<Rightarrow> (nat \<times> 'v list) list" where
  "labels_update action f [] = [(action, f [])]"
| "labels_update action f ((a, bs) # ls) =
     (if a = action then (a, f bs) # ls else (a, bs) # labels_update action f ls)"

definition collect_projection_labels :: "projection \<Rightarrow> labels_by_action" where
  "collect_projection_labels p =
     foldl (\<lambda>labels t.
         let transition = pr_transitions p ! t in
         labels_update (tr_original_action transition)
           (\<lambda>vec. push_unique_exact vec (tr_substitution transition)) labels)
       [] (bits_of (pr_state_changing_transitions p))"

definition collect_labels :: "projection list \<Rightarrow> labels_by_action list" where
  "collect_labels projections = map collect_projection_labels projections"

definition labels_overlap :: "labels_by_action \<Rightarrow> labels_by_action \<Rightarrow> bool" where
  "labels_overlap lhs rhs \<longleftrightarrow>
     list_ex (\<lambda>(action, lhs_bindings).
         case map_of rhs action of
           None \<Rightarrow> False
         | Some rhs_bindings \<Rightarrow>
             list_ex (\<lambda>sigma_l. list_ex (\<lambda>sigma_r. substitutions_compatible sigma_l sigma_r) rhs_bindings) lhs_bindings) lhs"

definition add_edge :: "graph \<Rightarrow> nat \<Rightarrow> nat \<Rightarrow> graph" where
  "add_edge g i j =
     g\<lparr>matrix := (let m = (matrix g)[i := (matrix g ! i)[j := True]] in m[j := (m ! j)[i := True]])\<rparr>"

text \<open>The two nested loops \<open>i < k\<close>, \<open>i < j < k\<close>.\<close>

definition additivity_pairs :: "nat \<Rightarrow> (nat \<times> nat) list" where
  "additivity_pairs k = concat (map (\<lambda>i. map (\<lambda>j. (i, j)) [i + 1..<k]) [0..<k])"

definition create_additivity_graph :: "projection list \<Rightarrow> graph" where
  "create_additivity_graph projections =
     (let k = length projections; labels = collect_labels projections in
      foldl (\<lambda>g (i, j). if \<not> labels_overlap (labels ! i) (labels ! j) then add_edge g i j else g)
        (graph_init k) (additivity_pairs k))"

section \<open>The canonical heuristic\<close>

record canonical_heuristic =
  ch_components :: "(enat list \<times> pattern) list"
  ch_additive_partitions :: "nat list list"

definition canonical_create :: "dijkstra \<Rightarrow> nat \<Rightarrow> projection list \<Rightarrow> canonical_heuristic result option" where
  "canonical_create dijkstra fuel projections =
     map_option (map_sum id (\<lambda>partitions.
         \<lparr>ch_components = map (\<lambda>p. (projection_distances dijkstra p, pr_pattern p)) projections,
          ch_additive_partitions = partitions\<rparr>))
       (compute_maximal_cliques fuel (create_additivity_graph projections))"

fun sum_components :: "(enat list \<times> pattern) list \<Rightarrow> fdr_state \<Rightarrow> nat list \<Rightarrow> enat \<Rightarrow> enat result" where
  "sum_components components state [] h_sum = Inr h_sum"
| "sum_components components state (i # is) h_sum =
     (case projection_evaluate (fst (components ! i)) (snd (components ! i)) state of
        Inl e \<Rightarrow> Inl e
      | Inr h_i \<Rightarrow> sum_components components state is (h_sum + h_i))"

fun max_partitions :: "(enat list \<times> pattern) list \<Rightarrow> fdr_state \<Rightarrow> nat list list \<Rightarrow> enat \<Rightarrow> enat result" where
  "max_partitions components state [] h = Inr h"
| "max_partitions components state (part # ps) h =
     (case sum_components components state part 0 of
        Inl e \<Rightarrow> Inl e
      | Inr h_sum \<Rightarrow> max_partitions components state ps (max h h_sum))"

definition canonical_evaluate :: "canonical_heuristic \<Rightarrow> fdr_state \<Rightarrow> enat result" where
  "canonical_evaluate ch state = max_partitions (ch_components ch) state (ch_additive_partitions ch) 0"

section \<open>Labels\<close>

lemma foldl_set_bits:
  assumes "set ts \<subseteq> {..<length b}"
  shows "db_set (foldl (\<lambda>result t. if P t then result[t := True] else result) b ts) = db_set b \<union> {t \<in> set ts. P t} \<and>
    length (foldl (\<lambda>result t. if P t then result[t := True] else result) b ts) = length b"
  using assms by (induction ts arbitrary: b) auto

lemma db_set_state_changing:
  "db_set (compute_state_changing_transitions ts) = {t. t < length ts \<and> tr_src (ts ! t) \<noteq> tr_dst (ts ! t)}"
  using foldl_set_bits [of "[0..<length ts]" "replicate (length ts) False" "\<lambda>t. tr_src (ts ! t) \<noteq> tr_dst (ts ! t)"]
  by (simp add: compute_state_changing_transitions_def atLeast0LessThan)

lemma substitutions_equal_exact_map: "substitutions_equal_exact s s' \<Longrightarrow> sf_map s = sf_map s'"
proof
  fix p assume e: "substitutions_equal_exact s s'"
  then have d: "sf_dom s = sf_dom s'" by (simp add: substitutions_equal_exact_def sf_dom_def)
  show "sf_map s p = sf_map s' p"
  proof (cases "p \<in> sf_dom s")
    case True
    then have "sf_at s p = sf_at s' p" using e by (auto simp: substitutions_equal_exact_def list_all_iff sf_dom_def)
    with True d show ?thesis by (simp add: sf_at_spec)
  next
    case False
    then show ?thesis using d sf_map_dom [of s p] sf_map_dom [of s' p] by metis
  qed
qed

lemma substitutions_equal_exact_refl: "substitutions_equal_exact s s"
  by (simp add: substitutions_equal_exact_def list_all_iff)

lemma substitutions_compatible_iff:
  "substitutions_compatible l r \<longleftrightarrow> (\<forall>p x y. sf_map l p = Some x \<and> sf_map r p = Some y \<longrightarrow> x = y)"
proof -
  have "(case (sf_try_get l p, sf_try_get r p) of (Some (Some x), Some (Some y)) \<Rightarrow> x = y | _ \<Rightarrow> True) \<longleftrightarrow>
    (\<forall>x y. sf_map l p = Some x \<and> sf_map r p = Some y \<longrightarrow> x = y)" for p
    using sf_map_dom [of l p] sf_map_dom [of r p] by (auto simp: sf_try_get_spec split: option.splits)
  moreover have "p \<in> set (sf_parameters l)" if "sf_map l p = Some x" for p x
    using that sf_map_dom [of l p] by (simp add: sf_dom_def)
  ultimately show ?thesis unfolding substitutions_compatible_def list_all_iff by blast
qed

text \<open>The labels hold a substitution for every state-changing transition, up to exact duplicates.\<close>

definition has_label :: "labels_by_action \<Rightarrow> nat \<Rightarrow> nat subst \<Rightarrow> bool" where
  "has_label labels a sigma \<longleftrightarrow>
     (\<exists>bs sigma'. map_of labels a = Some bs \<and> sigma' \<in> set bs \<and> sf_map sigma' = sf_map sigma)"

lemma map_of_labels_update:
  "map_of (labels_update a f ls) b = (if b = a then Some (f (case map_of ls a of None \<Rightarrow> [] | Some bs \<Rightarrow> bs)) else map_of ls b)"
  by (induction ls) auto

lemma push_unique_exact_has: "\<exists>sigma' \<in> set (push_unique_exact vec sigma). sf_map sigma' = sf_map sigma"
  using substitutions_equal_exact_map by (fastforce simp: push_unique_exact_def list_all_iff)

lemma has_label_update:
  "has_label (labels_update a (\<lambda>vec. push_unique_exact vec sigma) ls) a sigma"
  "has_label ls b sigma' \<Longrightarrow> has_label (labels_update a (\<lambda>vec. push_unique_exact vec sigma) ls) b sigma'"
proof -
  show "has_label (labels_update a (\<lambda>vec. push_unique_exact vec sigma) ls) a sigma"
    using push_unique_exact_has by (fastforce simp: has_label_def map_of_labels_update)
  have "set vec \<subseteq> set (push_unique_exact vec sigma)" for vec by (auto simp: push_unique_exact_def)
  then show "has_label ls b sigma' \<Longrightarrow> has_label (labels_update a (\<lambda>vec. push_unique_exact vec sigma) ls) b sigma'"
    by (fastforce simp: has_label_def map_of_labels_update)
qed

lemma foldl_has_label:
  "has_label ls a sigma \<or> (\<exists>t \<in> set ts. act t = a \<and> sub t = sigma) \<Longrightarrow>
   has_label (foldl (\<lambda>labels t. labels_update (act t) (\<lambda>vec. push_unique_exact vec (sub t)) labels) ls ts) a sigma"
  by (induction ts arbitrary: ls) (auto intro: has_label_update)

lemma collect_projection_labels_has:
  assumes "t \<in> db_set (pr_state_changing_transitions p)"
  shows "has_label (collect_projection_labels p) (tr_original_action (pr_transitions p ! t)) (tr_substitution (pr_transitions p ! t))"
  unfolding collect_projection_labels_def Let_def
  by (rule foldl_has_label) (use assms in \<open>auto intro!: bexI [of _ t]\<close>)

lemma labels_overlapI:
  assumes "has_label ls a s" and "has_label ls' a s'" and "substitutions_compatible s s'"
  shows "labels_overlap ls ls'"
proof -
  obtain bs t where l: "map_of ls a = Some bs" "t \<in> set bs" "sf_map t = sf_map s"
    using assms(1) by (auto simp: has_label_def)
  obtain bs' t' where r: "map_of ls' a = Some bs'" "t' \<in> set bs'" "sf_map t' = sf_map s'"
    using assms(2) by (auto simp: has_label_def)
  have "substitutions_compatible t t'" using assms(3) l r by (simp add: substitutions_compatible_iff)
  with l r have "\<exists>sl \<in> set bs. \<exists>sr \<in> set bs'. substitutions_compatible sl sr" by blast
  with l(1) r(1) show ?thesis
    unfolding labels_overlap_def list_ex_iff by (intro bexI [of _ "(a, bs)"]) (auto dest: map_of_SomeD)
qed

section \<open>The additivity graph\<close>

definition square :: "graph \<Rightarrow> nat \<Rightarrow> bool" where
  "square g n \<longleftrightarrow> length (matrix g) = n \<and> (\<forall>i < n. length (matrix g ! i) = n)"

lemma add_edge_spec:
  assumes "square g n" and "i < n" "j < n" "i \<noteq> j"
  shows "square (add_edge g i j) n"
    and "v < n \<Longrightarrow> nbh (add_edge g i j) v = nbh g v \<union> (if v = i then {j} else {}) \<union> (if v = j then {i} else {})"
  using assms by (auto simp: square_def add_edge_def Let_def nth_list_update nbh_def split: if_splits)

lemma foldl_add_edge_spec:
  fixes P :: "nat \<Rightarrow> nat \<Rightarrow> bool"
  assumes "square g n" and "\<forall>(i, j) \<in> set ps. i < j \<and> j < n"
  defines "g' \<equiv> foldl (\<lambda>g (i, j). if P i j then add_edge g i j else g) g ps"
  shows "square g' n \<and> (\<forall>v < n. nbh g' v = nbh g v \<union> {u. (v, u) \<in> set ps \<and> P v u} \<union> {u. (u, v) \<in> set ps \<and> P u v})"
  using assms(1,2) unfolding g'_def
proof (induction ps arbitrary: g)
  case (Cons p ps)
  obtain i j where p: "p = (i, j)" by fastforce
  then have ij: "i < n" "j < n" "i \<noteq> j" using Cons.prems by auto
  show ?case
  proof (cases "P i j")
    case True
    have "square (add_edge g i j) n" by (rule add_edge_spec(1) [OF Cons.prems(1) ij])
    from Cons.IH [OF this] Cons.prems(2) True p add_edge_spec(2) [OF Cons.prems(1) ij]
    show ?thesis by auto
  next
    case False
    with Cons p show ?thesis by auto
  qed
qed simp

lemma set_additivity_pairs: "set (additivity_pairs k) = {(i, j). i < j \<and> j < k}"
  by (force simp: additivity_pairs_def image_iff)

lemma create_additivity_graph_spec:
  fixes ps :: "projection list"
  defines "g \<equiv> create_additivity_graph ps" and "L \<equiv> collect_labels ps"
  shows "length (matrix g) = length ps" and "undirected g"
    and "v < length ps \<Longrightarrow> u \<in> nbh g v \<longleftrightarrow>
       u < length ps \<and> u \<noteq> v \<and> \<not> labels_overlap (L ! min u v) (L ! max u v)"
proof -
  let ?k = "length ps"
  have init: "square (graph_init ?k) ?k" "\<And>v. v < ?k \<Longrightarrow> nbh (graph_init ?k) v = {}"
    by (auto simp: square_def graph_init_def nbh_def)
  have F: "square g ?k \<and> (\<forall>v < ?k. nbh g v = nbh (graph_init ?k) v \<union>
      {u. (v, u) \<in> set (additivity_pairs ?k) \<and> \<not> labels_overlap (L ! v) (L ! u)} \<union>
      {u. (u, v) \<in> set (additivity_pairs ?k) \<and> \<not> labels_overlap (L ! u) (L ! v)})"
    unfolding g_def create_additivity_graph_def Let_def L_def
    by (rule foldl_add_edge_spec [OF init(1)]) (auto simp: set_additivity_pairs)
  show len: "length (matrix g) = ?k" using F by (simp add: square_def)
  have N: "u \<in> nbh g v \<longleftrightarrow> u < ?k \<and> u \<noteq> v \<and> \<not> labels_overlap (L ! min u v) (L ! max u v)" if "v < ?k" for u v
    using F that init(2) by (auto simp: set_additivity_pairs min_def max_def)
  show "v < ?k \<Longrightarrow> u \<in> nbh g v \<longleftrightarrow> u < ?k \<and> u \<noteq> v \<and> \<not> labels_overlap (L ! min u v) (L ! max u v)"
    by (rule N)
  have "\<forall>row \<in> set (matrix g). length row = ?k" using F by (auto simp: square_def in_set_conv_nth)
  with N len show "undirected g" by (auto simp: undirected_def min.commute max.commute)
qed

section \<open>Evaluation\<close>

text \<open>What the heuristic needs of Dijkstra's algorithm: zero at the sources, and no edge is violated.\<close>

definition dijkstra_feasible :: "dijkstra \<Rightarrow> bool" where
  "dijkstra_feasible dijkstra \<longleftrightarrow>
     (\<forall>n adj src tgt w S. let d = dijkstra n adj src tgt w S in
        length d = n \<and> (\<forall>v \<in> set S. v < n \<longrightarrow> d ! v = 0) \<and>
        (\<forall>v < n. \<forall>e \<in> set (adj ! v). src e = v \<and> tgt e < n \<and> e < length w \<longrightarrow> d ! tgt e \<le> d ! v + w ! e))"

text \<open>
  The concrete state space is given by its steps (action, binding of its parameters) and goal
  states; a projection abstracts it if every step that changes the abstract state has a transition with the
  same action and a substitution that the binding extends, and every goal state is mapped to a goal vertex.
  The generator of projections makes no transitions from a vertex to itself, and none are asked for.
\<close>

type_synonym step_relation = "fdr_state \<Rightarrow> nat \<Rightarrow> (nat \<Rightarrow> nat) \<Rightarrow> fdr_state \<Rightarrow> bool"

inductive plan_length :: "step_relation \<Rightarrow> (fdr_state \<Rightarrow> bool) \<Rightarrow> fdr_state \<Rightarrow> nat \<Rightarrow> bool" for step goal where
  at_goal: "goal s \<Longrightarrow> plan_length step goal s 0"
| one_step: "step s a b s' \<Longrightarrow> plan_length step goal s' n \<Longrightarrow> plan_length step goal s (Suc n)"

definition vertex :: "projection \<Rightarrow> fdr_state \<Rightarrow> nat" where
  "vertex p s = unat (map_state (pr_pattern p) s)"

definition matching_transition :: "projection \<Rightarrow> fdr_state \<Rightarrow> nat \<Rightarrow> (nat \<Rightarrow> nat) \<Rightarrow> fdr_state \<Rightarrow> nat \<Rightarrow> bool" where
  "matching_transition p s a b s' t \<longleftrightarrow>
     t < length (pr_transitions p) \<and> tr_original_action (pr_transitions p ! t) = a \<and>
     tr_src (pr_transitions p ! t) = vertex p s \<and> tr_dst (pr_transitions p ! t) = vertex p s' \<and>
     (\<forall>q v. sf_map (tr_substitution (pr_transitions p ! t)) q = Some v \<longrightarrow> b q = v)"

definition abstracts :: "step_relation \<Rightarrow> (fdr_state \<Rightarrow> bool) \<Rightarrow> projection \<Rightarrow> bool" where
  "abstracts step goal p \<longleftrightarrow>
     p = forward_projection (pr_pattern p) (pr_num_vertices p) (pr_transitions p) (pr_adj_lists p)
       (pr_goal_vertices p) \<and>
     (\<forall>s. vertex p s < pr_num_vertices p) \<and>
     (\<forall>s a b s'. step s a b s' \<longrightarrow> vertex p s \<noteq> vertex p s' \<longrightarrow> (\<exists>t. matching_transition p s a b s' t)) \<and>
     (\<forall>s. goal s \<longrightarrow> vertex p s \<in> set (pr_goal_vertices p))"

lemma backward_adj_lists_mem:
  assumes "t < length (pr_transitions p)" and "tr_dst (pr_transitions p ! t) < pr_num_vertices p"
  shows "t \<in> set (backward_adj_lists p ! tr_dst (pr_transitions p ! t))"
proof -
  let ?d = "\<lambda>t. tr_dst (pr_transitions p ! t)"
  have "t \<in> set (foldl (\<lambda>adj t. adj[?d t := adj ! ?d t @ [t]]) adj ts ! ?d t)"
    if "t \<in> set ts \<or> t \<in> set (adj ! ?d t)" "?d t < length adj" for adj ts
    using that
  proof (induction ts arbitrary: adj)
    case (Cons u ts)
    let ?adj = "adj[?d u := adj ! ?d u @ [u]]"
    have "t \<in> set ts \<or> t \<in> set (?adj ! ?d t)" "?d t < length ?adj"
      using Cons.prems by (cases "?d u = ?d t"; auto)+
    from Cons.IH [OF this] show ?case by simp
  qed simp
  from this [of "[0..<length (pr_transitions p)]" "replicate (pr_num_vertices p) []"] assms
  show ?thesis by (simp add: backward_adj_lists_def)
qed

lemma projection_distances_spec:
  assumes "dijkstra_feasible dijkstra" and "abstracts step goal p"
  defines "d \<equiv> projection_distances dijkstra p"
  shows "length d = pr_num_vertices p" and "goal s \<Longrightarrow> d ! vertex p s = 0"
    and "step s a b s' \<Longrightarrow> d ! vertex p s \<le> d ! vertex p s' + 1"
proof -
  have D: "length d = pr_num_vertices p \<and> (\<forall>v \<in> set (pr_goal_vertices p). v < pr_num_vertices p \<longrightarrow> d ! v = 0) \<and>
    (\<forall>v < pr_num_vertices p. \<forall>e \<in> set (backward_adj_lists p ! v).
       tr_dst (pr_transitions p ! e) = v \<and> tr_src (pr_transitions p ! e) < pr_num_vertices p \<and> e < length (pr_transitions p) \<longrightarrow>
       d ! tr_src (pr_transitions p ! e) \<le> d ! v + 1)"
    using assms(1) unfolding d_def projection_distances_def dijkstra_feasible_def Let_def
    by (elim allE [of _ "pr_num_vertices p"] allE [of _ "backward_adj_lists p"]
        allE [of _ "\<lambda>e. tr_dst (pr_transitions p ! e)"] allE [of _ "\<lambda>e. tr_src (pr_transitions p ! e)"]
        allE [of _ "replicate (length (pr_transitions p)) 1"] allE [of _ "pr_goal_vertices p"]) auto
  show "length d = pr_num_vertices p" using D by blast
  show "goal s \<Longrightarrow> d ! vertex p s = 0" using D assms(2) by (auto simp: abstracts_def)
  assume st: "step s a b s'"
  show "d ! vertex p s \<le> d ! vertex p s' + 1"
  proof (cases "vertex p s = vertex p s'")
    case False
    obtain t where t: "matching_transition p s a b s' t" using assms(2) st False unfolding abstracts_def by blast
    then have n: "vertex p s < pr_num_vertices p" "vertex p s' < pr_num_vertices p"
      using assms(2) by (auto simp: abstracts_def)
    have e: "t \<in> set (backward_adj_lists p ! vertex p s')"
      using t n backward_adj_lists_mem [of t p] by (simp add: matching_transition_def)
    have "d ! tr_src (pr_transitions p ! t) \<le> d ! vertex p s' + 1"
      using D [THEN conjunct2, THEN conjunct2, rule_format, OF n(2) e] t n by (simp add: matching_transition_def)
    then show ?thesis using t by (simp add: matching_transition_def)
  qed simp
qed

text \<open>A step changes at most one of two projections with non-overlapping labels.\<close>

lemma non_overlapping_step:
  assumes "abstracts step goal p" "abstracts step goal q" and "step s a b s'"
    and "\<not> labels_overlap (collect_projection_labels p) (collect_projection_labels q)"
  shows "vertex p s = vertex p s' \<or> vertex q s = vertex q s'"
proof (rule ccontr)
  assume c: "\<not> (vertex p s = vertex p s' \<or> vertex q s = vertex q s')"
  obtain t u where t: "matching_transition p s a b s' t" and u: "matching_transition q s a b s' u"
    using assms c unfolding abstracts_def by blast
  have "t \<in> db_set (pr_state_changing_transitions p)" "u \<in> db_set (pr_state_changing_transitions q)"
  proof -
    have "pr_state_changing_transitions p = compute_state_changing_transitions (pr_transitions p)"
      "pr_state_changing_transitions q = compute_state_changing_transitions (pr_transitions q)"
      using assms(1,2) unfolding abstracts_def forward_projection_def by (metis projection.select_convs(6))+
    with t u c show "t \<in> db_set (pr_state_changing_transitions p)" "u \<in> db_set (pr_state_changing_transitions q)"
      by (auto simp: db_set_state_changing matching_transition_def)
  qed
  from this [THEN collect_projection_labels_has] t u
  have "has_label (collect_projection_labels p) a (tr_substitution (pr_transitions p ! t))"
    "has_label (collect_projection_labels q) a (tr_substitution (pr_transitions q ! u))"
    by (auto simp: matching_transition_def)
  moreover have "substitutions_compatible (tr_substitution (pr_transitions p ! t)) (tr_substitution (pr_transitions q ! u))"
    unfolding substitutions_compatible_iff using t u by (metis matching_transition_def)
  ultimately show False using assms(4) labels_overlapI by blast
qed

text \<open>The value of a component, and the loops as sums and maxima of these.\<close>

definition component_value :: "dijkstra \<Rightarrow> projection list \<Rightarrow> fdr_state \<Rightarrow> nat \<Rightarrow> enat" where
  "component_value dijkstra ps s i = projection_distances dijkstra (ps ! i) ! vertex (ps ! i) s"

lemma sum_components_eq:
  assumes "\<forall>i \<in> set is. projection_evaluate (fst (components ! i)) (snd (components ! i)) s = Inr (f i)"
  shows "sum_components components s is h = Inr (h + sum_list (map f is))"
  using assms by (induction "is" arbitrary: h) (auto simp: add.assoc)

lemma max_partitions_eq:
  assumes "\<forall>c \<in> set parts. sum_components components s c 0 = Inr (g c)"
  shows "max_partitions components s parts h = Inr (foldl max h (map g parts))"
  using assms by (induction parts arbitrary: h) auto

lemma foldl_max_le: "foldl max (h::enat) xs \<le> b \<longleftrightarrow> h \<le> b \<and> (\<forall>x \<in> set xs. x \<le> b)"
  by (induction xs arbitrary: h) auto

lemma foldl_max_in: "foldl max (h::enat) xs \<in> insert h (set xs)"
proof (induction xs arbitrary: h)
  case (Cons x xs)
  from Cons [of "max h x"] show ?case by (auto simp: max_def split: if_splits)
qed simp

lemma foldl_max_attained:
  assumes "xs \<noteq> []" shows "foldl max (0::enat) xs \<in> set xs"
proof (cases "foldl max 0 xs = 0")
  case True
  then have "\<forall>x \<in> set xs. x = 0" using foldl_max_le [of 0 xs 0] by simp
  with True assms show ?thesis by (cases xs) auto
qed (use foldl_max_in [of 0 xs] in auto)

lemma canonical_evaluate_eq:
  assumes feas: "dijkstra_feasible dijkstra" and abs: "\<forall>p \<in> set ps. abstracts step goal p" and fuel: "length ps < fuel"
  obtains ch cs where "canonical_create dijkstra fuel ps = Some (Inr ch)"
    "canonical_evaluate ch s = Inr (foldl max 0 (map (\<lambda>c. \<Sum>i \<in> set c. component_value dijkstra ps s i) cs))"
    "set ` set cs = {C. maximal_clique (create_additivity_graph ps) C}"
proof -
  let ?g = "create_additivity_graph ps" and ?v = "component_value dijkstra ps s"
  let ?comps = "map (\<lambda>p. (projection_distances dijkstra p, pr_pattern p)) ps"
  have "length (matrix ?g) < fuel" using fuel by (simp add: create_additivity_graph_spec(1))
  with maximal_cliques_enumerated create_additivity_graph_spec(2)
  obtain cs where cs: "compute_maximal_cliques fuel ?g = Some (Inr cs)" "set ` set cs = {C. maximal_clique ?g C}"
    "\<forall>c \<in> set cs. distinct c" by metis
  have comp: "projection_evaluate (fst (?comps ! i)) (snd (?comps ! i)) s = Inr (?v i)" if "i < length ps" for i
  proof -
    have "vertex (ps ! i) s < length (projection_distances dijkstra (ps ! i))"
      using projection_distances_spec(1) [OF feas, of step goal "ps ! i"] abs that
      by (auto simp: abstracts_def)
    with that show ?thesis by (simp add: projection_evaluate_def component_value_def vertex_def)
  qed
  have "sum_components ?comps s c 0 = Inr (\<Sum>i \<in> set c. ?v i)" if "c \<in> set cs" for c
  proof -
    have "maximal_clique ?g (set c)" using cs(2) that by auto
    then have "set c \<subseteq> {..<length ps}"
      by (simp add: maximal_clique_def clique_def create_additivity_graph_spec(1))
    then have "\<forall>i \<in> set c. projection_evaluate (fst (?comps ! i)) (snd (?comps ! i)) s = Inr (?v i)"
      using comp by blast
    from sum_components_eq [OF this, of 0] cs(3) that show ?thesis
      by (simp add: sum_list_distinct_conv_sum_set)
  qed
  then have "max_partitions ?comps s cs 0 = Inr (foldl max 0 (map (\<lambda>c. \<Sum>i \<in> set c. ?v i) cs))"
    by (intro max_partitions_eq) auto
  with cs show thesis
    by (intro that [of "\<lparr>ch_components = ?comps, ch_additive_partitions = cs\<rparr>" cs])
       (simp_all add: canonical_create_def canonical_evaluate_def)
qed

lemma clique_non_overlapping:
  assumes "clique (create_additivity_graph ps) C" and "i \<in> C" "j \<in> C" "i < j"
  shows "\<not> labels_overlap (collect_projection_labels (ps ! i)) (collect_projection_labels (ps ! j))"
proof -
  have n: "i < length ps" "j < length ps"
    using assms by (auto simp: clique_def create_additivity_graph_spec(1))
  have "j \<in> nbh (create_additivity_graph ps) i" using assms by (auto simp: clique_def)
  with n assms(4) show ?thesis by (simp add: create_additivity_graph_spec(3) collect_labels_def min_def max_def)
qed

lemma additive_sum_step:
  assumes feas: "dijkstra_feasible dijkstra" and abs: "\<forall>p \<in> set ps. abstracts step goal p"
    and C: "clique (create_additivity_graph ps) C" and st: "step s a b s'"
  shows "(\<Sum>i \<in> C. component_value dijkstra ps s i) \<le> (\<Sum>i \<in> C. component_value dijkstra ps s' i) + 1"
proof -
  let ?v = "component_value dijkstra ps"
  have sub: "C \<subseteq> {..<length ps}" using C by (simp add: clique_def create_additivity_graph_spec(1))
  then have fin: "finite C" by (rule finite_subset) simp
  have ab: "abstracts step goal (ps ! i)" if "i \<in> C" for i using that sub abs by auto
  have same: "?v s i = ?v s' i" if "vertex (ps ! i) s = vertex (ps ! i) s'" for i
    using that by (simp add: component_value_def)
  show ?thesis
  proof (cases "\<exists>i \<in> C. vertex (ps ! i) s \<noteq> vertex (ps ! i) s'")
    case True
    then obtain i where i: "i \<in> C" "vertex (ps ! i) s \<noteq> vertex (ps ! i) s'" by blast
    have "vertex (ps ! j) s = vertex (ps ! j) s'" if j: "j \<in> C - {i}" for j
    proof -
      have ja: "abstracts step goal (ps ! j)" and ia: "abstracts step goal (ps ! i)" using ab j i(1) by auto
      consider "i < j" | "j < i" using j by fastforce
      then show ?thesis
      proof cases
        case 1
        then have "\<not> labels_overlap (collect_projection_labels (ps ! i)) (collect_projection_labels (ps ! j))"
          using clique_non_overlapping [OF C i(1)] j by simp
        from non_overlapping_step [where step = step and s = s and a = a and b = b and s' = s', OF ia ja st this] i(2) show ?thesis by simp
      next
        case 2
        then have "\<not> labels_overlap (collect_projection_labels (ps ! j)) (collect_projection_labels (ps ! i))"
          using clique_non_overlapping [OF C _ i(1)] j by simp
        from non_overlapping_step [where step = step and s = s and a = a and b = b and s' = s', OF ja ia st this] i(2) show ?thesis by simp
      qed
    qed
    then have "?v s j = ?v s' j" if "j \<in> C - {i}" for j using that same by blast
    then have "(\<Sum>j \<in> C - {i}. ?v s j) = (\<Sum>j \<in> C - {i}. ?v s' j)" by (rule sum.cong [OF refl])
    moreover have "?v s i \<le> ?v s' i + 1"
      using projection_distances_spec(3) [where step = step and s = s and a = a and b = b and s' = s', OF feas ab [OF i(1)] st] by (simp add: component_value_def)
    ultimately show ?thesis
      using i(1) fin by (simp add: sum.remove [of C i] ac_simps add_right_mono)
  next
    case False
    then have "(\<Sum>j \<in> C. ?v s j) = (\<Sum>j \<in> C. ?v s' j)" by (intro sum.cong) (auto simp: same)
    then show ?thesis by simp
  qed
qed

lemma additive_sum_admissible:
  assumes feas: "dijkstra_feasible dijkstra" and abs: "\<forall>p \<in> set ps. abstracts step goal p"
    and C: "clique (create_additivity_graph ps) C" and plan: "plan_length step goal s n"
  shows "(\<Sum>i \<in> C. component_value dijkstra ps s i) \<le> enat n"
  using plan
proof (induction rule: plan_length.induct)
  case (at_goal s)
  have "C \<subseteq> {..<length ps}" using C by (simp add: clique_def create_additivity_graph_spec(1))
  then have "abstracts step goal (ps ! i)" if "i \<in> C" for i using that abs by auto
  then have "component_value dijkstra ps s i = 0" if "i \<in> C" for i
    unfolding component_value_def using that at_goal by (intro projection_distances_spec(2) [OF feas])
  then have "(\<Sum>i \<in> C. component_value dijkstra ps s i) = 0" by (rule sum.neutral [rule_format])
  then show ?case by simp
next
  case (one_step s a b s' n)
  have "(\<Sum>i \<in> C. component_value dijkstra ps s i) \<le> (\<Sum>i \<in> C. component_value dijkstra ps s' i) + 1"
    by (rule additive_sum_step [where step = step and s = s and a = a and b = b and s' = s', OF feas abs C one_step(1)])
  also have "\<dots> \<le> enat n + 1" using one_step(3) by (rule add_right_mono)
  finally show ?case by (simp add: one_enat_def)
qed

lemma canonical_value_le:
  assumes "dijkstra_feasible dijkstra" and "\<forall>p \<in> set ps. abstracts step goal p" and "length ps < fuel"
    and "plan_length step goal s n"
  shows "\<exists>ch h. canonical_create dijkstra fuel ps = Some (Inr ch) \<and> canonical_evaluate ch s = Inr h \<and> h \<le> enat n"
proof -
  obtain ch cs where ch: "canonical_create dijkstra fuel ps = Some (Inr ch)"
    "canonical_evaluate ch s = Inr (foldl max 0 (map (\<lambda>c. \<Sum>i \<in> set c. component_value dijkstra ps s i) cs))"
    "set ` set cs = {C. maximal_clique (create_additivity_graph ps) C}"
    by (rule canonical_evaluate_eq [OF assms(1-3)])
  have "foldl max 0 (map (\<lambda>c. \<Sum>i \<in> set c. component_value dijkstra ps s i) cs) \<le> enat n"
    unfolding foldl_max_le
  proof (intro conjI ballI)
    fix x assume "x \<in> set (map (\<lambda>c. \<Sum>i \<in> set c. component_value dijkstra ps s i) cs)"
    then obtain c where c: "c \<in> set cs" "x = (\<Sum>i \<in> set c. component_value dijkstra ps s i)" by auto
    then have "maximal_clique (create_additivity_graph ps) (set c)" using ch(3) by blast
    then have "clique (create_additivity_graph ps) (set c)" by (simp add: maximal_clique_def)
    from additive_sum_admissible [OF assms(1,2) this assms(4)] c show "x \<le> enat n" by simp
  qed simp
  with ch show ?thesis by blast
qed

section \<open>Properties\<close>

text \<open>
  C1. The canonical heuristic is admissible: if the distance computation is feasible and every
  projection abstracts the state space, then the constructor returns and in every state the
  evaluation returns a value that is at most the length of any plan from that state. This rests on
  the additivity graph (no step changes two projections of a partition) and on the clique
  enumeration.
\<close>

theorem canonical_heuristic_admissible:
  assumes "dijkstra_feasible dijkstra" and "\<forall>p \<in> set ps. abstracts step goal p" and "length ps < fuel"
    and "plan_length step goal s n"
  shows "\<exists>ch h. canonical_create dijkstra fuel ps = Some (Inr ch) \<and> canonical_evaluate ch s = Inr h \<and> h \<le> enat n"
  by (rule canonical_value_le [OF assms])

text \<open>
  A state space for the witnesses: action 5 sets variable 0 to 1 and action 6 sets variable 1, and both have to be 1. The projection
  on a variable has one transition, that of its action, which changes the vertex; the steps of the other action have none. The
  distances of the witnesses are a lower bound, 0 for goal vertices and the least weight for all others.
\<close>

definition example_step :: step_relation where
  "example_step s a b s' \<longleftrightarrow> a = 5 \<and> s 0 = 0 \<and> s' = s(0 := 1) \<or> a = 6 \<and> s 1 = 0 \<and> s' = s(1 := 1)"

definition example_goal :: "fdr_state \<Rightarrow> bool" where
  "example_goal s \<longleftrightarrow> s 0 = 1 \<and> s 1 = 1"

definition example_projection :: "nat \<Rightarrow> projection" where
  "example_projection x = forward_projection [(x, 1)] 2
     [\<lparr>tr_projected_action = 0, tr_original_action = 5 + x, tr_substitution = sf_make [0], tr_src = 0, tr_dst = 1\<rparr>] [[0], []] [1]"

definition least_weights :: dijkstra where
  "least_weights n adj src tgt w S = map (\<lambda>v. if v \<in> set S then 0 else foldr min w \<infinity>) [0..<n]"

lemma example_vertex: "vertex (example_projection x) s = (if s x = 1 then 1 else 0)"
  by (simp add: vertex_def example_projection_def forward_projection_def map_state_def)

lemma example_abstracts:
  assumes "x < 2" shows "abstracts example_step example_goal (example_projection x)"
proof -
  have "\<exists>t. matching_transition (example_projection x) s a b s' t"
    if "example_step s a b s'" "vertex (example_projection x) s \<noteq> vertex (example_projection x) s'" for s a b s'
    using that assms by (intro exI [of _ 0])
      (auto simp: matching_transition_def example_vertex example_step_def less_2_cases_iff split: if_splits,
       auto simp: example_projection_def forward_projection_def)
  moreover have "x = 0 \<or> x = 1" using assms by auto
  ultimately show ?thesis
    unfolding abstracts_def example_vertex
    by (auto simp: example_projection_def forward_projection_def example_goal_def)
qed

lemma least_weights_le: "e < length w \<Longrightarrow> foldr min w \<infinity> \<le> (w ! e :: enat)"
  by (induction w arbitrary: e) (auto simp: nth_Cons min_le_iff_disj split: nat.splits)

lemma least_weights_feasible: "dijkstra_feasible least_weights"
  using least_weights_le by (fastforce simp: dijkstra_feasible_def least_weights_def Let_def intro: add_increasing)

lemma example_abstract_all: "\<forall>p \<in> set [example_projection 0, example_projection 1]. abstracts example_step example_goal p"
  by (simp add: example_abstracts)

lemma example_evaluates:
  "case canonical_create least_weights 3 [example_projection 0, example_projection 1] of
     Some (Inr ch) \<Rightarrow> canonical_evaluate ch (\<lambda>_. 0) = Inr 2 | _ \<Rightarrow> False"
  by code_simp

theorem canonical_heuristic_admissible_witness:
  "\<exists>ch h. canonical_create least_weights 3 [example_projection 0, example_projection 1] = Some (Inr ch) \<and>
     canonical_evaluate ch (\<lambda>_. 0) = Inr h \<and> h \<le> enat 2 \<and> h = 2"
proof -
  have "example_step (\<lambda>_. 0) 5 (\<lambda>_. 0) ((\<lambda>_. 0)(0 := 1))" "example_step ((\<lambda>_. 0)(0 := 1)) 6 (\<lambda>_. 0) ((\<lambda>_. 0)(0 := 1, 1 := 1))"
    "example_goal ((\<lambda>_. 0)(0 := 1, 1 := 1))"
    by (simp_all add: example_step_def example_goal_def)
  then have "plan_length example_step example_goal (\<lambda>_. 0) (Suc (Suc 0))"
    by (intro plan_length.intros)
  from canonical_heuristic_admissible [OF least_weights_feasible example_abstract_all _ this, of 3]
  obtain ch h where "canonical_create least_weights 3 [example_projection 0, example_projection 1] = Some (Inr ch)"
    "canonical_evaluate ch (\<lambda>_. 0) = Inr h" "h \<le> enat 2" by (auto simp: numeral_2_eq_2)
  then show ?thesis using example_evaluates by simp
qed

definition pairwise_additive :: "projection list \<Rightarrow> nat set \<Rightarrow> bool" where
  "pairwise_additive ps C \<longleftrightarrow> C \<subseteq> {..<length ps} \<and>
     (\<forall>i \<in> C. \<forall>j \<in> C. i < j \<longrightarrow> \<not> labels_overlap (collect_projection_labels (ps ! i)) (collect_projection_labels (ps ! j)))"

lemma pairwise_additive_clique: "pairwise_additive ps C \<longleftrightarrow> clique (create_additivity_graph ps) C"
proof
  assume "pairwise_additive ps C"
  then show "clique (create_additivity_graph ps) C"
    by (auto simp: pairwise_additive_def clique_def create_additivity_graph_spec subset_iff collect_labels_def min_def max_def)
next
  assume c: "clique (create_additivity_graph ps) C"
  then have "C \<subseteq> {..<length ps}" by (simp add: clique_def create_additivity_graph_spec(1))
  with clique_non_overlapping [OF c] show "pairwise_additive ps C" by (simp add: pairwise_additive_def)
qed

text \<open>
  C18. The canonical heuristic is the best additive combination: its value is attained by, and is an
  upper bound of, the sums of the heuristic values over sets of projections whose labels do not
  overlap pairwise.
\<close>

theorem canonical_heuristic_maximal:
  assumes "dijkstra_feasible dijkstra" and "\<forall>p \<in> set ps. abstracts step goal p" and "length ps < fuel"
  shows "\<exists>ch h. canonical_create dijkstra fuel ps = Some (Inr ch) \<and> canonical_evaluate ch s = Inr h \<and>
    (\<forall>C. pairwise_additive ps C \<longrightarrow> (\<Sum>i \<in> C. component_value dijkstra ps s i) \<le> h) \<and>
    (\<exists>C. pairwise_additive ps C \<and> (\<Sum>i \<in> C. component_value dijkstra ps s i) = h)"
proof -
  let ?v = "component_value dijkstra ps s" and ?g = "create_additivity_graph ps"
  obtain ch cs where ch: "canonical_create dijkstra fuel ps = Some (Inr ch)"
    "canonical_evaluate ch s = Inr (foldl max 0 (map (\<lambda>c. \<Sum>i \<in> set c. ?v i) cs))"
    "set ` set cs = {C. maximal_clique ?g C}"
    by (rule canonical_evaluate_eq [OF assms])
  let ?h = "foldl max 0 (map (\<lambda>c. \<Sum>i \<in> set c. ?v i) cs)"
  have "(\<Sum>i \<in> C. ?v i) \<le> ?h" if cl: "clique ?g C" for C
  proof -
    obtain D where D: "C \<subseteq> D" "maximal_clique ?g D" by (rule clique_extends [OF cl])
    then obtain c where c: "c \<in> set cs" "set c = D" using ch(3) by (metis imageE mem_Collect_eq)
    have "(\<Sum>i \<in> C. ?v i) \<le> (\<Sum>i \<in> set c. ?v i)" using D(1) c(2) by (intro sum_mono2) auto
    also have "\<dots> \<le> ?h"
      using c(1) foldl_max_le [of 0 "map (\<lambda>c. \<Sum>i \<in> set c. ?v i) cs"] by auto
    finally show ?thesis .
  qed
  moreover have "\<exists>C. clique ?g C \<and> (\<Sum>i \<in> C. ?v i) = ?h"
  proof -
    have "clique ?g {}" by (simp add: clique_def)
    then obtain D where "maximal_clique ?g D" using clique_extends by blast
    then have "cs \<noteq> []" using ch(3) by auto
    then have "?h \<in> set (map (\<lambda>c. \<Sum>i \<in> set c. ?v i) cs)" by (intro foldl_max_attained) simp
    then obtain c where c: "c \<in> set cs" "?h = (\<Sum>i \<in> set c. ?v i)" by auto
    then have "maximal_clique ?g (set c)" using ch(3) by blast
    with c show ?thesis by (auto simp: maximal_clique_def)
  qed
  ultimately show ?thesis using ch unfolding pairwise_additive_clique by blast
qed

theorem canonical_heuristic_maximal_witness:
  "\<exists>ch h. canonical_create least_weights 3 [example_projection 0, example_projection 1] = Some (Inr ch) \<and>
     canonical_evaluate ch (\<lambda>_. 0) = Inr h"
  using canonical_heuristic_maximal [OF least_weights_feasible example_abstract_all, of 3 "\<lambda>_. 0"]
  by auto

end
