(* ===== verification/Invariants.thy ===== *)
theory Invariants
  imports Mutable_Structures "HOL-Library.List_Lexorder"
begin

text \<open>
  \<^verbatim>\<open>include/tyr/formalism/planning/invariants/invariant.hpp\<close> and \<^verbatim>\<open>src/formalism/planning/invariants/utils.hpp\<close>:
  candidates for lifted mutex invariants. The parameters below \<open>num_rigid_variables\<close> are rigid, the next
  \<open>num_counted_variables\<close> are counted.
\<close>

section \<open>Invariants\<close>

record invariant =
  inv_num_rigid_variables :: nat
  inv_num_counted_variables :: nat
  inv_atoms :: "mutable_atom list"
  inv_predicates :: "nat set"

text \<open>\<open>Less\<close> on atoms: the predicate first, then the terms lexicographically.\<close>

definition atom_key :: "mutable_atom \<Rightarrow> nat \<times> tterm list" where
  "atom_key a = (ma_predicate a, ma_terms a)"

definition canonicalize_atoms :: "mutable_atom list \<Rightarrow> mutable_atom list" where
  "canonicalize_atoms atoms = remdups_adj (sort_key atom_key atoms)"

definition canonicalize :: "invariant \<Rightarrow> invariant" where
  "canonicalize iv =
     (let atoms = canonicalize_atoms (inv_atoms iv) in
      iv\<lparr>inv_atoms := atoms, inv_predicates := set (map ma_predicate atoms)\<rparr>)"

definition invariant_make :: "nat \<Rightarrow> nat \<Rightarrow> mutable_atom list \<Rightarrow> invariant" where
  "invariant_make num_rigid num_counted atoms =
     canonicalize \<lparr>inv_num_rigid_variables = num_rigid, inv_num_counted_variables = num_counted,
                   inv_atoms = atoms, inv_predicates = {}\<rparr>"

definition zip_terms_invariant :: "term_matcher \<Rightarrow> invariant \<Rightarrow> invariant \<Rightarrow> matcher" where
  "zip_terms_invariant f lhs rhs =
     (if inv_num_rigid_variables lhs \<noteq> inv_num_rigid_variables rhs then (\<lambda>s. Inr (False, s))
      else if inv_num_counted_variables lhs \<noteq> inv_num_counted_variables rhs then (\<lambda>s. Inr (False, s))
      else zip_terms_vector (zip_terms_atom f) (inv_atoms lhs) (inv_atoms rhs))"

definition transform_terms_invariant :: "(tterm \<Rightarrow> tterm) \<Rightarrow> invariant \<Rightarrow> invariant" where
  "transform_terms_invariant f v =
     v\<lparr>inv_atoms := transform_terms_vector (transform_terms_atom f) (inv_atoms v)\<rparr>"

section \<open>Utilities\<close>

definition find_part :: "invariant \<Rightarrow> nat \<Rightarrow> mutable_atom option" where
  "find_part iv p = List.find (\<lambda>a. ma_predicate a = p) (inv_atoms iv)"

fun is_counted_term :: "nat \<Rightarrow> tterm \<Rightarrow> bool" where
  "is_counted_term num_rigid_variables (Param p) = (p \<ge> num_rigid_variables)"
| "is_counted_term num_rigid_variables (Obj o') = False"

definition part_arity :: "mutable_atom \<Rightarrow> nat \<Rightarrow> nat" where
  "part_arity part num_rigid_variables =
     (let has_counted = list_ex (is_counted_term num_rigid_variables) (ma_terms part) in
      if has_counted then length (ma_terms part) - 1 else length (ma_terms part))"

definition atom_uses_counted :: "mutable_atom \<Rightarrow> nat \<Rightarrow> bool" where
  "atom_uses_counted a num_rigid_variables = list_ex (is_counted_term num_rigid_variables) (ma_terms a)"

definition make_initial_atom :: "nat \<Rightarrow> nat \<Rightarrow> nat \<Rightarrow> mutable_atom" where
  "make_initial_atom p arity counted_position =
     \<lparr>ma_predicate = p,
      ma_terms =
        (if counted_position = arity then map (\<lambda>i. Param i) [0..<arity]
         else map (\<lambda>i. if i = counted_position then Param (arity - 1)
                       else if i < counted_position then Param i else Param (i - 1)) [0..<arity])\<rparr>"

section \<open>Facts\<close>

lemma atom_key_inj: "atom_key a = atom_key b \<longleftrightarrow> a = b"
  by (cases a; cases b) (simp add: atom_key_def)

lemma set_canonicalize_atoms [simp]: "set (canonicalize_atoms atoms) = set atoms"
  by (simp add: canonicalize_atoms_def)

lemma sorted_canonicalize_atoms: "sorted (map atom_key (canonicalize_atoms atoms))"
proof -
  have "sorted (map atom_key (sort_key atom_key atoms))" by simp
  moreover have "map atom_key (remdups_adj xs) = remdups_adj (map atom_key xs)" for xs :: "mutable_atom list"
    by (rule remdups_adj_map_injective [symmetric]) (auto intro: injI simp: atom_key_inj)
  ultimately show ?thesis by (simp add: canonicalize_atoms_def sorted_remdups_adj)
qed

lemma distinct_canonicalize_atoms: "distinct (canonicalize_atoms atoms)"
proof -
  have "sorted (map atom_key (sort_key atom_key atoms))" by simp
  then have "distinct (remdups_adj (map atom_key (sort_key atom_key atoms)))" by (rule sorted_distinct_remdups_adj)
  moreover have "remdups_adj (map atom_key xs) = map atom_key (remdups_adj xs)" for xs :: "mutable_atom list"
    by (rule remdups_adj_map_injective) (auto intro: injI simp: atom_key_inj)
  ultimately show ?thesis by (simp add: canonicalize_atoms_def distinct_map)
qed

text \<open>The canonical list of atoms depends on the set of atoms only.\<close>

lemma canonicalize_atoms_unique:
  assumes "set xs = set ys" shows "canonicalize_atoms xs = canonicalize_atoms ys"
proof -
  have "map atom_key (canonicalize_atoms xs) = map atom_key (canonicalize_atoms ys)"
    by (rule sorted_distinct_set_unique)
       (use assms in \<open>auto simp: sorted_canonicalize_atoms distinct_map distinct_canonicalize_atoms inj_on_def atom_key_inj\<close>)
  then show ?thesis by (rule map_injective) (auto intro: injI simp: atom_key_inj)
qed

end
