(* ===== verification/Invariant_Matching.thy ===== *)
theory Invariant_Matching
  imports Invariants
begin

text \<open>
  \<^verbatim>\<open>src/formalism/planning/invariants/matching.cpp\<close> and \<^verbatim>\<open>normalization.cpp\<close>: which atoms an invariant candidate
  covers, how it aligns with the atoms of an action, and the normal form of a candidate. The two
  match policies override the default one of the unification library.
\<close>

section \<open>Policies\<close>

definition counted_assign :: "nat \<Rightarrow> tterm \<Rightarrow> matcher" where
  "counted_assign p v state =
     (case sf_assign (ms_counted state) p v of
        Inl e \<Rightarrow> Inl e | Inr (ok, s) \<Rightarrow> Inr (ok, state\<lparr>ms_counted := s\<rparr>))"

text \<open>\<open>*state.counted[p] == v\<close>; \<open>operator[]\<close> throws outside of the domain.\<close>

definition counted_equals :: "nat \<Rightarrow> tterm \<Rightarrow> matcher" where
  "counted_equals p v state =
     (case sf_at (ms_counted state) p of Inl e \<Rightarrow> Inl e | Inr slot \<Rightarrow> Inr (slot = Some v, state))"

definition alignment_parameter_parameter :: "nat \<Rightarrow> nat \<Rightarrow> nat \<Rightarrow> nat \<Rightarrow> matcher" where
  "alignment_parameter_parameter num_rigid_variables num_action_variables lhs rhs state =
     (let lhs_is_counted = lhs \<ge> num_rigid_variables;
          rhs_is_action_parameter = rhs < num_action_variables
      in if lhs_is_counted then Inr (True, state)
         else if rhs_is_action_parameter then sigma_assign_or_check rhs (Param lhs) state
         else Inr (lhs = rhs, state))"

definition action_alignment_policy :: "nat \<Rightarrow> nat \<Rightarrow> match_policy" where
  "action_alignment_policy num_rigid_variables num_action_variables =
     \<lparr>match_parameter_parameter = alignment_parameter_parameter num_rigid_variables num_action_variables,
      match_parameter_object = (\<lambda>lhs rhs state. Inr (lhs \<ge> num_rigid_variables, state)),
      match_object_parameter = (\<lambda>lhs rhs state.
        if rhs < num_action_variables then sigma_assign_or_check rhs lhs state else Inr (False, state))\<rparr>"

definition cover_parameter_parameter :: "nat \<Rightarrow> nat \<Rightarrow> nat \<Rightarrow> nat \<Rightarrow> matcher" where
  "cover_parameter_parameter num_rigid_variables num_action_variables lhs rhs state =
     (let lhs_is_counted = lhs \<ge> num_rigid_variables;
          rhs_is_effect_local = rhs \<ge> num_action_variables
      in if \<not> lhs_is_counted then
           (if rhs_is_effect_local then sigma_assign_or_check rhs (Param lhs) state else Inr (lhs = rhs, state))
         else if rhs_is_effect_local then
           (case sf_map (ms_counted state) lhs of
              Some v \<Rightarrow> sigma_assign_or_check rhs v state
            | None \<Rightarrow> Inr (True, state))
         else if sf_is_unbound (ms_counted state) lhs then counted_assign lhs (Param rhs) state
         else counted_equals lhs (Param rhs) state)"

definition cover_parameter_object :: "nat \<Rightarrow> nat \<Rightarrow> tterm \<Rightarrow> matcher" where
  "cover_parameter_object num_rigid_variables lhs rhs state =
     (if lhs < num_rigid_variables then Inr (False, state)
      else if sf_is_unbound (ms_counted state) lhs then counted_assign lhs rhs state
      else counted_equals lhs rhs state)"

definition effect_cover_policy :: "nat \<Rightarrow> nat \<Rightarrow> match_policy" where
  "effect_cover_policy num_rigid_variables num_action_variables =
     \<lparr>match_parameter_parameter = cover_parameter_parameter num_rigid_variables num_action_variables,
      match_parameter_object = cover_parameter_object num_rigid_variables,
      match_object_parameter = (\<lambda>lhs rhs state.
        if rhs \<ge> num_action_variables then sigma_assign_or_check rhs lhs state else Inr (False, state))\<rparr>"

section \<open>Matching atoms\<close>

definition match_structure ::
  "mutable_atom \<Rightarrow> mutable_atom \<Rightarrow> match_state \<Rightarrow> match_policy \<Rightarrow> match_state option result" where
  "match_structure pattern element state policy =
     (case zip_terms_atom (match_term policy) pattern element state of
        Inl e \<Rightarrow> Inl e
      | Inr (ok, state) \<Rightarrow> Inr (if \<not> ok then None else Some state))"

definition match_cover_against_atom :: "invariant \<Rightarrow> mutable_atom \<Rightarrow> mutable_atom \<Rightarrow> tterm subst option result" where
  "match_cover_against_atom iv pattern element =
     map_sum id (map_option ms_sigma)
       (match_structure pattern element
          \<lparr>ms_sigma = sf_from_range (inv_num_rigid_variables iv) (inv_num_counted_variables iv), ms_counted = sf_make []\<rparr>
          default_match_policy)"

text \<open>The parameters of the element that are local to the effect, in the order of first occurrence.\<close>

definition effect_local_parameters :: "nat \<Rightarrow> mutable_atom \<Rightarrow> nat list" where
  "effect_local_parameters num_action_variables element =
     foldl (\<lambda>ps t. case t of
              Param p \<Rightarrow> if p \<ge> num_action_variables \<and> p \<notin> set ps then ps @ [p] else ps
            | Obj o' \<Rightarrow> ps) [] (ma_terms element)"

definition match_effect_cover_against_atom ::
  "invariant \<Rightarrow> mutable_atom \<Rightarrow> mutable_atom \<Rightarrow> nat \<Rightarrow> tterm subst option result" where
  "match_effect_cover_against_atom iv pattern element num_action_variables =
     map_sum id (map_option ms_sigma)
       (match_structure pattern element
          \<lparr>ms_sigma = sf_make (effect_local_parameters num_action_variables element),
           ms_counted = sf_from_range (inv_num_rigid_variables iv) (inv_num_counted_variables iv)\<rparr>
          (effect_cover_policy (inv_num_rigid_variables iv) num_action_variables))"

fun covers_loop :: "invariant \<Rightarrow> mutable_atom list \<Rightarrow> mutable_atom \<Rightarrow> bool result" where
  "covers_loop iv [] element = Inr False"
| "covers_loop iv (a # as) element =
     (case match_cover_against_atom iv a element of
        Inl e \<Rightarrow> Inl e
      | Inr r \<Rightarrow> if r \<noteq> None then Inr True else covers_loop iv as element)"

definition covers :: "invariant \<Rightarrow> mutable_atom \<Rightarrow> bool result" where
  "covers iv element = covers_loop iv (inv_atoms iv) element"

definition match_invariant_against_ground_atom ::
  "invariant \<Rightarrow> mutable_atom \<Rightarrow> mutable_atom \<Rightarrow> tterm subst option result" where
  "match_invariant_against_ground_atom iv pattern ground_atom =
     map_sum id (map_option ms_sigma)
       (match_structure pattern ground_atom
          \<lparr>ms_sigma = sf_from_range 0 (inv_num_rigid_variables iv + inv_num_counted_variables iv), ms_counted = sf_make []\<rparr>
          default_match_policy)"

record action_alignment =
  aa_pattern :: mutable_atom
  aa_sigma :: "tterm subst"

fun alignments_loop ::
  "match_policy \<Rightarrow> nat \<Rightarrow> mutable_atom list \<Rightarrow> mutable_atom \<Rightarrow> action_alignment list \<Rightarrow> action_alignment list result" where
  "alignments_loop policy num_action_variables [] element acc = Inr acc"
| "alignments_loop policy num_action_variables (pattern # as) element acc =
     (case match_structure pattern element
        \<lparr>ms_sigma = sf_from_range 0 num_action_variables, ms_counted = sf_make []\<rparr> policy of
        Inl e \<Rightarrow> Inl e
      | Inr None \<Rightarrow> alignments_loop policy num_action_variables as element acc
      | Inr (Some st) \<Rightarrow>
          alignments_loop policy num_action_variables as element (acc @ [\<lparr>aa_pattern = pattern, aa_sigma = ms_sigma st\<rparr>]))"

definition enumerate_action_alignments :: "invariant \<Rightarrow> mutable_atom \<Rightarrow> nat \<Rightarrow> action_alignment list result" where
  "enumerate_action_alignments iv element num_action_variables =
     alignments_loop (action_alignment_policy (inv_num_rigid_variables iv) num_action_variables)
       num_action_variables (inv_atoms iv) element []"

fun renamings_loop ::
  "invariant \<Rightarrow> nat \<Rightarrow> mutable_atom \<Rightarrow> mutable_atom list \<Rightarrow> tterm subst list \<Rightarrow> tterm subst list result" where
  "renamings_loop iv num_parent_variables partially_renamed [] acc = Inr acc"
| "renamings_loop iv num_parent_variables partially_renamed (pattern # as) acc =
     (case match_effect_cover_against_atom iv pattern partially_renamed num_parent_variables of
        Inl e \<Rightarrow> Inl e
      | Inr None \<Rightarrow> renamings_loop iv num_parent_variables partially_renamed as acc
      | Inr (Some sigma_eff) \<Rightarrow>
          (let fully_renamed = transform_terms_atom (apply_substitution sigma_eff) partially_renamed in
           case covers iv fully_renamed of
             Inl e \<Rightarrow> Inl e
           | Inr c \<Rightarrow> renamings_loop iv num_parent_variables partially_renamed as (if c then acc @ [sigma_eff] else acc)))"

definition enumerate_effect_renamings ::
  "mutable_conditional_effect \<Rightarrow> mutable_atom \<Rightarrow> invariant \<Rightarrow> tterm subst \<Rightarrow> tterm subst list result" where
  "enumerate_effect_renamings effect element iv sigma_op =
     renamings_loop iv (mce_num_parent_variables effect) (transform_terms_atom (apply_substitution sigma_op) element) (inv_atoms iv) []"

section \<open>Normalization\<close>

fun uses_parameter_term :: "nat \<Rightarrow> tterm \<Rightarrow> bool" where
  "uses_parameter_term parameter (Param p) = (p = parameter)"
| "uses_parameter_term parameter (Obj o') = False"

definition uses_parameter_atom :: "nat \<Rightarrow> mutable_atom \<Rightarrow> bool" where
  "uses_parameter_atom parameter a = list_ex (uses_parameter_term parameter) (ma_terms a)"

definition uses_parameter :: "invariant \<Rightarrow> nat \<Rightarrow> bool" where
  "uses_parameter iv parameter = list_ex (uses_parameter_atom parameter) (inv_atoms iv)"

text \<open>The inner loop: is the \<open>i\<close>-th atom covered by the singleton of another one?\<close>

fun covered_by_other :: "invariant \<Rightarrow> nat \<Rightarrow> nat list \<Rightarrow> bool result" where
  "covered_by_other iv i [] = Inr False"
| "covered_by_other iv i (j # js) =
     (if i = j then covered_by_other iv i js
      else
        let singleton = invariant_make (inv_num_rigid_variables iv) (inv_num_counted_variables iv) [inv_atoms iv ! j] in
        case covers singleton (inv_atoms iv ! i) of
          Inl e \<Rightarrow> Inl e
        | Inr c \<Rightarrow> if c then Inr True else covered_by_other iv i js)"

fun kept_atoms :: "invariant \<Rightarrow> nat list \<Rightarrow> mutable_atom list result" where
  "kept_atoms iv [] = Inr []"
| "kept_atoms iv (i # is) =
     (case covered_by_other iv i [0..<length (inv_atoms iv)] of
        Inl e \<Rightarrow> Inl e
      | Inr c \<Rightarrow> (case kept_atoms iv is of
                     Inl e \<Rightarrow> Inl e
                   | Inr kept \<Rightarrow> Inr (if c then kept else inv_atoms iv ! i # kept)))"

definition remove_covered_atoms :: "invariant \<Rightarrow> invariant result" where
  "remove_covered_atoms iv =
     map_sum id (\<lambda>kept. iv\<lparr>inv_atoms := kept\<rparr>) (kept_atoms iv [0..<length (inv_atoms iv)])"

text \<open>
  The table \<open>remap\<close>: a used parameter is sent to the number of used parameters below it. A parameter
  outside of the table makes the code read outside of the vector; here it is kept.
\<close>

definition used_parameters :: "invariant \<Rightarrow> nat list" where
  "used_parameters iv = filter (uses_parameter iv) [0..<inv_num_rigid_variables iv + inv_num_counted_variables iv]"

definition remap_parameter :: "invariant \<Rightarrow> nat \<Rightarrow> nat" where
  "remap_parameter iv p = length (filter (uses_parameter iv) [0..<p])"

fun remap_term :: "invariant \<Rightarrow> tterm \<Rightarrow> tterm" where
  "remap_term iv (Param p) =
     (if p < inv_num_rigid_variables iv + inv_num_counted_variables iv then Param (remap_parameter iv p) else Param p)"
| "remap_term iv (Obj o') = Obj o'"

definition remove_unused_parameters :: "invariant \<Rightarrow> invariant" where
  "remove_unused_parameters iv =
     (let next = length (used_parameters iv);
          new_num_rigid = length (filter (\<lambda>p. p < inv_num_rigid_variables iv) (used_parameters iv))
      in iv\<lparr>inv_atoms := map (\<lambda>a. a\<lparr>ma_terms := map (remap_term iv) (ma_terms a)\<rparr>) (inv_atoms iv),
            inv_num_rigid_variables := new_num_rigid, inv_num_counted_variables := next - new_num_rigid\<rparr>)"

definition normalize_invariant :: "invariant \<Rightarrow> invariant result" where
  "normalize_invariant iv =
     map_sum id (\<lambda>iv. canonicalize (remove_unused_parameters iv)) (remove_covered_atoms iv)"

section \<open>Covering\<close>

lemma match_structure_promise:
  assumes "sf_wf sigma" and "\<forall>q \<in> sf_dom sigma. Param q \<notin> set (ma_terms element)"
  shows "\<exists>r. match_structure pattern element \<lparr>ms_sigma = sigma, ms_counted = sf_make []\<rparr> default_match_policy = Inr r \<and>
    match_promise transform_terms_atom pattern element sigma (map_option ms_sigma r)"
proof -
  obtain ok st where "zip_terms_atom (match_term default_match_policy) pattern element
      \<lparr>ms_sigma = sigma, ms_counted = sf_make []\<rparr> = Inr (ok, st)"
    "match_promise transform_terms_atom pattern element sigma (if ok then Some (ms_sigma st) else None)"
    using atom.zip_default_spec [of sigma element pattern] assms by auto
  then show ?thesis by (auto simp: match_structure_def)
qed

lemma match_structure_no_throw:
  assumes "ms_wf s" shows "\<exists>r. match_structure pattern element s default_match_policy = Inr r"
proof -
  have "never_throws ms_wf (zip_terms_atom (match_term default_match_policy) pattern element)"
    by (rule atom.zip_no_throw) (rule default_never_throws)
  with assms obtain ok s' where "zip_terms_atom (match_term default_match_policy) pattern element s = Inr (ok, s')"
    unfolding never_throws_def by blast
  then show ?thesis by (simp add: match_structure_def)
qed

lemma match_cover_no_throw: "\<exists>r. match_cover_against_atom iv pattern element = Inr r"
proof -
  have "ms_wf \<lparr>ms_sigma = sf_from_range (inv_num_rigid_variables iv) (inv_num_counted_variables iv), ms_counted = sf_make []\<rparr>"
    by (simp add: ms_wf_def sf_from_range_spec sf_make_wf)
  from match_structure_no_throw [OF this, of pattern element] show ?thesis by (auto simp: match_cover_against_atom_def)
qed

definition covered_instance :: "invariant \<Rightarrow> mutable_atom \<Rightarrow> mutable_atom \<Rightarrow> bool" where
  "covered_instance iv pattern element \<longleftrightarrow>
     (\<exists>m. dom m \<subseteq> {inv_num_rigid_variables iv..<inv_num_rigid_variables iv + inv_num_counted_variables iv} \<and>
          transform_terms_atom (inst m) pattern = element)"

definition counted_free :: "invariant \<Rightarrow> mutable_atom \<Rightarrow> bool" where
  "counted_free iv element \<longleftrightarrow>
     list_all (\<lambda>t. case t of Obj o' \<Rightarrow> True
       | Param p \<Rightarrow> p < inv_num_rigid_variables iv \<or> inv_num_rigid_variables iv + inv_num_counted_variables iv \<le> p) (ma_terms element)"

lemma match_cover_iff:
  assumes "counted_free iv element"
  shows "\<exists>r. match_cover_against_atom iv pattern element = Inr r \<and> (r \<noteq> None \<longleftrightarrow> covered_instance iv pattern element)"
proof -
  let ?sigma = "sf_from_range (inv_num_rigid_variables iv) (inv_num_counted_variables iv) :: tterm subst"
  have "\<forall>q \<in> sf_dom ?sigma. Param q \<notin> set (ma_terms element)"
    using assms by (fastforce simp: sf_from_range_spec counted_free_def list_all_iff)
  from match_structure_promise [OF sf_from_range_spec(1) this, of pattern]
  obtain r where "match_structure pattern element \<lparr>ms_sigma = ?sigma, ms_counted = sf_make []\<rparr> default_match_policy = Inr r"
    and p: "match_promise transform_terms_atom pattern element ?sigma (map_option ms_sigma r)" by blast
  then have r: "match_cover_against_atom iv pattern element = Inr (map_option ms_sigma r)" by (simp add: match_cover_against_atom_def)
  have "map_option ms_sigma r \<noteq> None \<longleftrightarrow> covered_instance iv pattern element"
  proof (cases "map_option ms_sigma r")
    case None
    with p show ?thesis by (simp add: match_promise_def covered_instance_def sf_from_range_spec)
  next
    case (Some sg)
    with p have "dom (sf_map sg) \<subseteq> sf_dom ?sigma" "transform_terms_atom (inst (sf_map sg)) pattern = element"
      using sf_map_dom [of sg] by (auto simp: match_promise_def apply_substitution_inst)
    then show ?thesis using Some by (auto simp: covered_instance_def sf_from_range_spec)
  qed
  with r show ?thesis by blast
qed

lemma covers_loop_total: "\<exists>b. covers_loop iv as element = Inr b"
proof (induction "as")
  case (Cons a "as")
  then show ?case using match_cover_no_throw [of iv a element] by auto
qed (simp only: covers_loop.simps, blast)

lemma covers_total: "\<exists>b. covers iv element = Inr b"
  unfolding covers_def by (rule covers_loop_total)

lemma covers_loop_iff:
  assumes "counted_free iv element"
  shows "covers_loop iv as element = Inr (list_ex (\<lambda>a. covered_instance iv a element) as)"
proof (induction "as")
  case (Cons a "as")
  then show ?case using match_cover_iff [OF assms, of a] by auto
qed simp

section \<open>Normal form\<close>

text \<open>An atom is covered by itself or by an atom of the same predicate only.\<close>

lemma match_cover_predicate:
  assumes "ma_predicate pattern \<noteq> ma_predicate element" shows "match_cover_against_atom iv pattern element = Inr None"
  using assms by (simp add: match_cover_against_atom_def match_structure_def zip_terms_atom_def)

lemma covered_by_other_total: "\<exists>b. covered_by_other iv i js = Inr b"
proof (induction js)
  case (Cons j js)
  then show ?case
    using covers_total [of "invariant_make (inv_num_rigid_variables iv) (inv_num_counted_variables iv) [inv_atoms iv ! j]" "inv_atoms iv ! i"]
    by (auto simp: Let_def)
qed (simp only: covered_by_other.simps, blast)

lemma kept_atoms_total: "\<exists>kept. kept_atoms iv is = Inr kept \<and> set kept \<subseteq> (!) (inv_atoms iv) ` set is"
proof (induction "is")
  case (Cons i "is")
  then show ?case using covered_by_other_total [of iv i "[0..<length (inv_atoms iv)]"] by auto
qed simp

lemma singleton_atoms [simp]: "inv_atoms (invariant_make r c [a]) = [a]"
  by (simp add: invariant_make_def canonicalize_def canonicalize_atoms_def Let_def)

lemma covered_by_other_distinct:
  assumes "distinct (map ma_predicate (inv_atoms iv))" "i < length (inv_atoms iv)" "set js \<subseteq> {0..<length (inv_atoms iv)}"
  shows "covered_by_other iv i js = Inr False"
  using assms(3)
proof (induction js)
  case (Cons j js)
  show ?case
  proof (cases "i = j")
    case False
    have "map ma_predicate (inv_atoms iv) ! j \<noteq> map ma_predicate (inv_atoms iv) ! i"
      using assms Cons.prems False by (subst nth_eq_iff_index_eq) auto
    then have "ma_predicate (inv_atoms iv ! j) \<noteq> ma_predicate (inv_atoms iv ! i)" using assms(2) Cons.prems by simp
    then show ?thesis using Cons False by (simp add: Let_def covers_def match_cover_predicate)
  qed (use Cons in simp)
qed simp

lemma remove_covered_atoms_distinct:
  assumes "distinct (map ma_predicate (inv_atoms iv))" shows "remove_covered_atoms iv = Inr iv"
proof -
  have "kept_atoms iv is = Inr (map ((!) (inv_atoms iv)) is)" if "set is \<subseteq> {0..<length (inv_atoms iv)}" for "is"
    using that by (induction "is") (auto simp: covered_by_other_distinct [OF assms])
  then show ?thesis by (simp add: remove_covered_atoms_def map_nth)
qed

definition inv_wf :: "invariant \<Rightarrow> bool" where
  "inv_wf iv \<longleftrightarrow> list_all (\<lambda>a. list_all (\<lambda>t. case t of Obj o' \<Rightarrow> True
     | Param p \<Rightarrow> p < inv_num_rigid_variables iv + inv_num_counted_variables iv) (ma_terms a)) (inv_atoms iv)"

lemma uses_parameter_iff: "uses_parameter iv p \<longleftrightarrow> (\<exists>a \<in> set (inv_atoms iv). Param p \<in> set (ma_terms a))"
proof -
  have "uses_parameter_term p t \<longleftrightarrow> t = Param p" for t by (cases t) auto
  then show ?thesis by (auto simp: uses_parameter_def uses_parameter_atom_def list_ex_iff)
qed

lemma filter_upt_split:
  "p \<le> n \<Longrightarrow> filter P [0..<n] = filter P [0..<p] @ filter P [p..<n]"
  using upt_add_eq_append [of 0 p "n - p"] by simp

lemma remap_parameter_mono:
  assumes "uses_parameter iv p" "p < q" shows "remap_parameter iv p < remap_parameter iv q"
proof -
  have "filter (uses_parameter iv) [p..<q] = p # filter (uses_parameter iv) [Suc p..<q]"
    using assms by (simp add: upt_conv_Cons)
  then show ?thesis using filter_upt_split [of p q "uses_parameter iv"] assms by (simp add: remap_parameter_def)
qed

lemma remap_parameter_inj:
  "uses_parameter iv p \<Longrightarrow> uses_parameter iv q \<Longrightarrow> remap_parameter iv p = remap_parameter iv q \<Longrightarrow> p = q"
  using remap_parameter_mono [of iv p q] remap_parameter_mono [of iv q p] by (metis less_irrefl linorder_neqE_nat)

lemma remap_parameter_surj:
  assumes "i < remap_parameter iv n" obtains p where "p < n" "uses_parameter iv p" "remap_parameter iv p = i"
proof -
  let ?xs = "filter (uses_parameter iv) [0..<n]"
  have i: "i < length ?xs" using assms by (simp add: remap_parameter_def)
  define p where "p = ?xs ! i"
  have "p \<in> set ?xs" unfolding p_def by (rule nth_mem [OF i])
  then have p: "p < n" "uses_parameter iv p" by auto
  have "?xs = filter (uses_parameter iv) [0..<p] @ p # filter (uses_parameter iv) [Suc p..<n]"
    using filter_upt_split [of p n "uses_parameter iv"] p by (simp add: upt_conv_Cons)
  then have "?xs ! remap_parameter iv p = p" and l: "remap_parameter iv p < length ?xs"
    by (simp_all add: remap_parameter_def nth_append)
  then have "remap_parameter iv p = i" using i nth_eq_iff_index_eq [of ?xs] by (simp add: p_def)
  with p that show thesis by blast
qed

lemma new_num_rigid:
  "length (filter (\<lambda>p. p < inv_num_rigid_variables iv) (used_parameters iv)) = remap_parameter iv (inv_num_rigid_variables iv)"
proof -
  let ?r = "inv_num_rigid_variables iv" and ?P = "uses_parameter iv"
  have "filter (\<lambda>p. p < ?r) (used_parameters iv) = filter (\<lambda>p. p < ?r) (filter ?P [0..<?r]) @ filter (\<lambda>p. p < ?r) (filter ?P [?r..<?r + inv_num_counted_variables iv])"
    unfolding used_parameters_def by (subst filter_upt_split [of ?r]) auto
  moreover have "filter (\<lambda>p. p < ?r) (filter ?P [0..<?r]) = filter ?P [0..<?r]" by (intro filter_True) auto
  moreover have "filter (\<lambda>p. p < ?r) (filter ?P [?r..<?r + inv_num_counted_variables iv]) = []" by (intro filter_False) auto
  ultimately show ?thesis by (simp add: remap_parameter_def)
qed

lemma uses_parameter_total: "inv_wf iv \<Longrightarrow> uses_parameter iv p \<Longrightarrow> p < inv_num_rigid_variables iv + inv_num_counted_variables iv"
  by (fastforce simp: uses_parameter_iff inv_wf_def list_all_iff)

lemma remove_unused_parameters_counts:
  "inv_num_rigid_variables (remove_unused_parameters iv) = remap_parameter iv (inv_num_rigid_variables iv)"
  "inv_num_rigid_variables (remove_unused_parameters iv) + inv_num_counted_variables (remove_unused_parameters iv) =
     remap_parameter iv (inv_num_rigid_variables iv + inv_num_counted_variables iv)"
proof -
  have le: "remap_parameter iv (inv_num_rigid_variables iv) \<le> remap_parameter iv (inv_num_rigid_variables iv + inv_num_counted_variables iv)"
    by (simp add: remap_parameter_def filter_upt_split [of "inv_num_rigid_variables iv" "inv_num_rigid_variables iv + inv_num_counted_variables iv"])
  show "inv_num_rigid_variables (remove_unused_parameters iv) = remap_parameter iv (inv_num_rigid_variables iv)"
    by (simp add: remove_unused_parameters_def Let_def new_num_rigid)
  then show "inv_num_rigid_variables (remove_unused_parameters iv) + inv_num_counted_variables (remove_unused_parameters iv) =
     remap_parameter iv (inv_num_rigid_variables iv + inv_num_counted_variables iv)"
    using le by (simp add: remove_unused_parameters_def Let_def new_num_rigid) (simp add: used_parameters_def remap_parameter_def)
qed

text \<open>
  The renaming of parameters that normalization performs: it keeps the order, sends the rigid parameters
  in use onto the new rigid ones and the counted ones in use onto the new counted ones.
\<close>

lemma remap_parameter_less_iff:
  assumes "uses_parameter iv p" shows "remap_parameter iv p < remap_parameter iv n \<longleftrightarrow> p < n"
proof (cases "p < n")
  case False
  then have "remap_parameter iv n \<le> remap_parameter iv p" using filter_upt_split [of n p "uses_parameter iv"] by (simp add: remap_parameter_def)
  with False show ?thesis by simp
qed (use remap_parameter_mono [OF assms] in simp)

definition rename_parameters :: "(nat \<Rightarrow> nat) \<Rightarrow> mutable_atom \<Rightarrow> mutable_atom" where
  "rename_parameters f a = transform_terms_atom (\<lambda>t. case t of Param p \<Rightarrow> Param (f p) | Obj o' \<Rightarrow> Obj o') a"

lemma remove_unused_parameters_atoms:
  assumes "inv_wf iv" shows "inv_atoms (remove_unused_parameters iv) = map (rename_parameters (remap_parameter iv)) (inv_atoms iv)"
proof -
  have "map (remap_term iv) (ma_terms a) = map (\<lambda>t. case t of Param p \<Rightarrow> Param (remap_parameter iv p) | Obj o' \<Rightarrow> Obj o') (ma_terms a)"
    if "a \<in> set (inv_atoms iv)" for a
    using that assms by (fastforce simp: inv_wf_def list_all_iff split: tterm.splits)
  then show ?thesis
    by (simp add: remove_unused_parameters_def Let_def rename_parameters_def transform_terms_atom_def transform_terms_vector_def)
qed

lemma match_invariant_against_ground_atom_total: "\<exists>r. match_invariant_against_ground_atom iv pattern element = Inr r"
proof -
  have "ms_wf \<lparr>ms_sigma = sf_from_range 0 (inv_num_rigid_variables iv + inv_num_counted_variables iv), ms_counted = sf_make []\<rparr>"
    by (simp add: ms_wf_def sf_from_range_spec sf_make_wf)
  from match_structure_no_throw [OF this, of pattern element] show ?thesis by (auto simp: match_invariant_against_ground_atom_def)
qed

lemma match_invariant_promise:
  "\<exists>r. match_invariant_against_ground_atom iv pattern (atom_of_ground_view g) = Inr r \<and>
     match_promise transform_terms_atom pattern (atom_of_ground_view g)
       (sf_from_range 0 (inv_num_rigid_variables iv + inv_num_counted_variables iv)) r"
proof -
  let ?n = "inv_num_rigid_variables iv + inv_num_counted_variables iv"
  have "\<forall>q \<in> sf_dom (sf_from_range 0 ?n :: tterm subst). Param q \<notin> set (ma_terms (atom_of_ground_view g))" by (cases g) auto
  from match_structure_promise [OF sf_from_range_spec(1) this, of pattern]
  show ?thesis by (auto simp: match_invariant_against_ground_atom_def)
qed

section \<open>Properties\<close>

text \<open>
  \<open>covers\<close> does not throw, and on an atom without counted parameters it answers whether some
  atom of the invariant can be turned into the atom by a binding of the counted parameters.
\<close>

lemma covers_correct:
  assumes "counted_free iv element"
  shows "covers iv element = Inr (\<exists>a \<in> set (inv_atoms iv). covered_instance iv a element)"
  by (simp add: covers_def covers_loop_iff [OF assms] list_ex_iff)

lemma covers_correct_witness:
  "covers \<lparr>inv_num_rigid_variables = 1, inv_num_counted_variables = 1,
       inv_atoms = [\<lparr>ma_predicate = 3, ma_terms = [Param 0, Param 1]\<rparr>], inv_predicates = {3}\<rparr>
     \<lparr>ma_predicate = 3, ma_terms = [Param 0, Obj 5]\<rparr> = Inr True"
  by (subst covers_correct)
     (auto simp: counted_free_def covered_instance_def transform_terms_atom_def transform_terms_vector_def
       intro!: exI [of _ "[1 \<mapsto> Obj 5]"] split: if_splits)

text \<open>
  C28. Matching an atom of an invariant against a ground atom: it does not throw; it succeeds exactly when
  the ground atom is an instance, and the binding that it returns is the least one, so it binds
  the parameters of the pattern and no other.
\<close>

theorem match_invariant_against_ground_atom_correct:
  "\<exists>r. match_invariant_against_ground_atom iv pattern (atom_of_ground_view g) = Inr r \<and>
    (case r of
       None \<Rightarrow> \<not> (\<exists>m. dom m \<subseteq> {0..<inv_num_rigid_variables iv + inv_num_counted_variables iv} \<and>
                  transform_terms_atom (inst m) pattern = atom_of_ground_view g)
     | Some sg \<Rightarrow> transform_terms_atom (apply_substitution sg) pattern = atom_of_ground_view g \<and>
         sf_dom sg = {0..<inv_num_rigid_variables iv + inv_num_counted_variables iv} \<and>
         (\<forall>m. dom m \<subseteq> {0..<inv_num_rigid_variables iv + inv_num_counted_variables iv} \<and>
              transform_terms_atom (inst m) pattern = atom_of_ground_view g \<longrightarrow> sf_map sg \<subseteq>\<^sub>m m))"
proof -
  obtain r where "match_invariant_against_ground_atom iv pattern (atom_of_ground_view g) = Inr r"
    "match_promise transform_terms_atom pattern (atom_of_ground_view g)
       (sf_from_range 0 (inv_num_rigid_variables iv + inv_num_counted_variables iv)) r"
    using match_invariant_promise by blast
  then show ?thesis by (cases r) (auto simp: match_promise_def sf_from_range_spec)
qed

theorem match_invariant_against_ground_atom_correct_witness:
  "\<exists>r. match_invariant_against_ground_atom
     \<lparr>inv_num_rigid_variables = 1, inv_num_counted_variables = 1, inv_atoms = [], inv_predicates = {}\<rparr>
     \<lparr>ma_predicate = 3, ma_terms = [Param 0, Param 1]\<rparr> (atom_of_ground_view (3, [7, 5])) = Inr r"
  using match_invariant_against_ground_atom_correct [of
     "\<lparr>inv_num_rigid_variables = 1, inv_num_counted_variables = 1, inv_atoms = [], inv_predicates = {}\<rparr>"
     "\<lparr>ma_predicate = 3, ma_terms = [Param 0, Param 1]\<rparr>" "(3, [7, 5])"] by blast

text \<open>
  Normalization of a well-formed candidate whose atoms have different predicates (all the candidates that
  synthesis builds): it does not throw, renames the parameters by an order-preserving renaming,
  one-to-one on the parameters in use, that keeps rigid and counted parameters apart, leaves no
  parameter unused, and sorts the atoms.
\<close>

theorem normalize_invariant_correct:
  assumes "inv_wf iv" and "distinct (map ma_predicate (inv_atoms iv))"
  shows "\<exists>f iv'. normalize_invariant iv = Inr iv' \<and>
    inv_atoms iv' = canonicalize_atoms (map (rename_parameters f) (inv_atoms iv)) \<and>
    f ` {p. uses_parameter iv p \<and> p < inv_num_rigid_variables iv} = {0..<inv_num_rigid_variables iv'} \<and>
    f ` {p. uses_parameter iv p \<and> \<not> p < inv_num_rigid_variables iv} =
      {inv_num_rigid_variables iv'..<inv_num_rigid_variables iv' + inv_num_counted_variables iv'} \<and>
    strict_mono_on {p. uses_parameter iv p} f"
proof -
  let ?f = "remap_parameter iv" and ?iv = "remove_unused_parameters iv"
  let ?r = "inv_num_rigid_variables iv" and ?n = "inv_num_rigid_variables iv + inv_num_counted_variables iv"
  have N: "normalize_invariant iv = Inr (canonicalize ?iv)"
    by (simp add: normalize_invariant_def remove_covered_atoms_distinct [OF assms(2)])
  have c: "inv_atoms (canonicalize ?iv) = canonicalize_atoms (map (rename_parameters ?f) (inv_atoms iv))"
    "inv_num_rigid_variables (canonicalize ?iv) = ?f ?r"
    "inv_num_rigid_variables (canonicalize ?iv) + inv_num_counted_variables (canonicalize ?iv) = ?f ?n"
    using remove_unused_parameters_counts [of iv]
    by (simp_all add: canonicalize_def Let_def remove_unused_parameters_atoms [OF assms(1)])
  have low: "?f ` {p. uses_parameter iv p \<and> p < ?r} = {0..<?f ?r}"
  proof (intro equalityI subsetI)
    fix i assume "i \<in> {0..<?f ?r}"
    then have "i < ?f ?r" by simp
    then obtain p where "p < ?r" "uses_parameter iv p" "?f p = i" by (rule remap_parameter_surj)
    then show "i \<in> ?f ` {p. uses_parameter iv p \<and> p < ?r}" by blast
  qed (auto simp: remap_parameter_less_iff)
  have "?f ` {p. uses_parameter iv p \<and> \<not> p < ?r} = {?f ?r..<?f ?n}"
  proof (intro equalityI subsetI)
    fix i assume "i \<in> ?f ` {p. uses_parameter iv p \<and> \<not> p < ?r}"
    then show "i \<in> {?f ?r..<?f ?n}"
      using remap_parameter_less_iff uses_parameter_total [OF assms(1)] by (auto simp flip: not_less)
  next
    fix i assume i: "i \<in> {?f ?r..<?f ?n}"
    then have "i < ?f ?n" by simp
    then obtain p where "p < ?n" "uses_parameter iv p" "?f p = i" by (rule remap_parameter_surj)
    with i show "i \<in> ?f ` {p. uses_parameter iv p \<and> \<not> p < ?r}" using remap_parameter_mono [of iv p ?r] by force
  qed
  with low N c show ?thesis
    by (intro exI [of _ ?f] exI [of _ "canonicalize ?iv"]) (auto simp: strict_mono_on_def intro: remap_parameter_mono)
qed

theorem normalize_invariant_correct_witness:
  "\<exists>iv'. normalize_invariant \<lparr>inv_num_rigid_variables = 2, inv_num_counted_variables = 1,
     inv_atoms = [\<lparr>ma_predicate = 5, ma_terms = [Param 1]\<rparr>, \<lparr>ma_predicate = 3, ma_terms = [Param 1, Param 2]\<rparr>],
     inv_predicates = {3, 5}\<rparr> = Inr iv'"
  using normalize_invariant_correct [of "\<lparr>inv_num_rigid_variables = 2, inv_num_counted_variables = 1,
     inv_atoms = [\<lparr>ma_predicate = 5, ma_terms = [Param 1]\<rparr>, \<lparr>ma_predicate = 3, ma_terms = [Param 1, Param 2]\<rparr>],
     inv_predicates = {3, 5}\<rparr>"] by (auto simp: inv_wf_def)

end
