(* ===== verification/Invariant_Matcher.thy ===== *)
theory Invariant_Matcher
  imports Invariant_Matching Dynamic_Bitset
begin

text \<open>
  \<^verbatim>\<open>src/formalism/planning/invariants/matcher.cpp\<close>: an index from atoms to the bindings of lifted invariants that the
  atom belongs to. For every rigid parameter and object the postings hold the set of bindings that
  bind the parameter to the object; a query intersects them. The workspace is scratch memory of
  a query, so it is not part of the result here. The property at the end states that a query
  returns what a search through all bindings returns.
\<close>

section \<open>Postings\<close>

type_synonym rigid_binding = "nat subst"
type_synonym postings = "(nat \<rightharpoonup> dbitset) list"

record invariant_match_data =
  md_inv :: invariant
  md_rigid_variable_bindings :: "rigid_binding list"
  md_postings :: postings

text \<open>\<open>bitset.set(b)\<close> on a set of \<open>num_bindings\<close> bits that is created when the object is seen first.\<close>

definition add_posting :: "nat \<Rightarrow> postings \<Rightarrow> nat \<Rightarrow> nat \<Rightarrow> nat \<Rightarrow> postings" where
  "add_posting num_bindings ps p obj b =
     (let bitset = (case (ps ! p) obj of None \<Rightarrow> replicate num_bindings False | Some s \<Rightarrow> s) in
      ps[p := (ps ! p)(obj \<mapsto> bitset[b := True])])"

text \<open>The body of the inner loop: \<open>binding[parameter]\<close> throws outside of the domain, which \<open>is_bound\<close> excludes.\<close>

definition post_parameter :: "rigid_binding list \<Rightarrow> nat \<Rightarrow> postings \<Rightarrow> nat \<Rightarrow> postings" where
  "post_parameter bindings b ps p =
     (case sf_map (bindings ! b) p of
        None \<Rightarrow> ps
      | Some obj \<Rightarrow> add_posting (length bindings) ps p obj b)"

definition build_postings :: "nat \<Rightarrow> rigid_binding list \<Rightarrow> postings" where
  "build_postings num_rigid bindings =
     foldl (\<lambda>ps b. foldl (post_parameter bindings b) ps [0..<num_rigid])
       (replicate num_rigid Map.empty) [0..<length bindings]"

definition make_match_data :: "invariant \<Rightarrow> rigid_binding list \<Rightarrow> invariant_match_data" where
  "make_match_data iv bindings =
     \<lparr>md_inv = iv, md_rigid_variable_bindings = bindings,
      md_postings = build_postings (inv_num_rigid_variables iv) bindings\<rparr>"

section \<open>Queries\<close>

fun get_object :: "tterm \<Rightarrow> nat result" where
  "get_object (Obj o') = Inr o'"
| "get_object (Param p) = Inl Bad_Variant_Access"

text \<open>The loop over the rigid parameters; the result is the set of candidates and whether it is not empty.\<close>

fun intersect_loop :: "postings \<Rightarrow> tterm subst \<Rightarrow> nat list \<Rightarrow> dbitset \<Rightarrow> (bool \<times> dbitset) result" where
  "intersect_loop ps sigma [] candidates = Inr (\<not> db_none candidates, candidates)"
| "intersect_loop ps sigma (p # rest) candidates =
     (case sf_map sigma p of
        None \<Rightarrow> intersect_loop ps sigma rest candidates
      | Some v \<Rightarrow>
          (case get_object v of
             Inl e \<Rightarrow> Inl e
           | Inr obj \<Rightarrow>
               (case (ps ! p) obj of
                  None \<Rightarrow> Inr (False, replicate (length candidates) False)
                | Some bits \<Rightarrow>
                    (let candidates = db_and candidates bits in
                     if db_none candidates then Inr (False, candidates)
                     else intersect_loop ps sigma rest candidates))))"

definition intersect_matching_bindings :: "invariant_match_data \<Rightarrow> tterm subst \<Rightarrow> (bool \<times> dbitset) result" where
  "intersect_matching_bindings data sigma =
     intersect_loop (md_postings data) sigma [0..<inv_num_rigid_variables (md_inv data)]
       (replicate (length (md_rigid_variable_bindings data)) True)"

text \<open>One pattern of the loop over the atoms of an invariant, with \<open>ws.matches\<close> as the state.\<close>

definition query_pattern :: "invariant_match_data \<Rightarrow> mutable_atom \<Rightarrow> dbitset \<Rightarrow> mutable_atom \<Rightarrow> dbitset result" where
  "query_pattern data a matches pattern =
     (if ma_predicate pattern \<noteq> ma_predicate a then Inr matches
      else if length (ma_terms pattern) \<noteq> length (ma_terms a) then Inr matches
      else case match_invariant_against_ground_atom (md_inv data) pattern a of
             Inl e \<Rightarrow> Inl e
           | Inr None \<Rightarrow> Inr matches
           | Inr (Some sigma) \<Rightarrow>
               (case intersect_matching_bindings data sigma of
                  Inl e \<Rightarrow> Inl e
                | Inr (ok, candidates) \<Rightarrow> Inr (if ok then db_or matches candidates else matches)))"

definition query_invariant :: "invariant_match_data \<Rightarrow> mutable_atom \<Rightarrow> nat list result" where
  "query_invariant data a =
     (let num_bindings = length (md_rigid_variable_bindings data) in
      if num_bindings = 0 then Inr []
      else map_sum id bits_of
        (fold_result (query_pattern data a) (replicate num_bindings False) (inv_atoms (md_inv data))))"

definition matcher_query :: "invariant_match_data list \<Rightarrow> mutable_atom \<Rightarrow> (nat \<times> nat) list result" where
  "matcher_query datas a =
     fold_result (\<lambda>matches i. map_sum id (\<lambda>bs. matches @ map (\<lambda>b. (i, b)) bs) (query_invariant (datas ! i) a))
       [] [0..<length datas]"

definition matcher_query_ground :: "invariant_match_data list \<Rightarrow> nat \<times> nat list \<Rightarrow> (nat \<times> nat) list result" where
  "matcher_query_ground datas view = matcher_query datas (atom_of_ground_view view)"

section \<open>The postings index the bindings\<close>

definition postings_at :: "postings \<Rightarrow> nat \<Rightarrow> nat \<Rightarrow> nat set" where
  "postings_at ps p obj = (case (ps ! p) obj of None \<Rightarrow> {} | Some bits \<Rightarrow> db_set bits)"

definition postings_wf :: "nat \<Rightarrow> nat \<Rightarrow> postings \<Rightarrow> bool" where
  "postings_wf num_rigid n ps \<longleftrightarrow> length ps = num_rigid \<and>
     (\<forall>p < num_rigid. \<forall>obj bits. (ps ! p) obj = Some bits \<longrightarrow> length bits = n)"

lemma post_parameter_spec:
  assumes "postings_wf r (length bs) ps" "p < r" "b < length bs"
  shows "postings_wf r (length bs) (post_parameter bs b ps p)"
    and "q < r \<Longrightarrow> postings_at (post_parameter bs b ps p) q obj =
      postings_at ps q obj \<union> (if q = p \<and> sf_map (bs ! b) p = Some obj then {b} else {})"
proof -
  show "postings_wf r (length bs) (post_parameter bs b ps p)"
    using assms by (auto simp: post_parameter_def add_posting_def postings_wf_def Let_def nth_list_update split: option.splits if_splits)
  have "db_set ((replicate (length bs) False)[b := True]) = {b}" using assms(3) by simp
  then show "postings_at (post_parameter bs b ps p) q obj =
      postings_at ps q obj \<union> (if q = p \<and> sf_map (bs ! b) p = Some obj then {b} else {})" if "q < r"
    using assms that by (auto simp: post_parameter_def add_posting_def postings_wf_def postings_at_def Let_def nth_list_update split: option.splits if_splits)
qed

lemma post_binding_spec:
  assumes "postings_wf r (length bs) ps" "b < length bs" "set qs \<subseteq> {..<r}"
  shows "postings_wf r (length bs) (foldl (post_parameter bs b) ps qs) \<and>
    (\<forall>q < r. \<forall>obj. postings_at (foldl (post_parameter bs b) ps qs) q obj =
      postings_at ps q obj \<union> (if q \<in> set qs \<and> sf_map (bs ! b) q = Some obj then {b} else {}))"
  using assms
proof (induction qs arbitrary: ps)
  case (Cons p qs)
  have p: "p < r" using Cons.prems(3) by simp
  note S = post_parameter_spec [OF Cons.prems(1) p Cons.prems(2)]
  have "postings_wf r (length bs) (foldl (post_parameter bs b) (post_parameter bs b ps p) qs) \<and>
    (\<forall>q < r. \<forall>obj. postings_at (foldl (post_parameter bs b) (post_parameter bs b ps p) qs) q obj =
      postings_at (post_parameter bs b ps p) q obj \<union> (if q \<in> set qs \<and> sf_map (bs ! b) q = Some obj then {b} else {}))"
    by (rule Cons.IH) (use S(1) Cons.prems in auto)
  then show ?case using S(2) by auto
qed simp

lemma build_postings_spec:
  shows "postings_wf r (length bs) (build_postings r bs)"
    and "q < r \<Longrightarrow> postings_at (build_postings r bs) q obj = {b. b < length bs \<and> sf_map (bs ! b) q = Some obj}"
proof -
  let ?f = "\<lambda>ps b. foldl (post_parameter bs b) ps [0..<r]"
  have "postings_wf r (length bs) (foldl ?f (replicate r Map.empty) [0..<k]) \<and>
    (\<forall>q < r. \<forall>obj. postings_at (foldl ?f (replicate r Map.empty) [0..<k]) q obj = {b. b < k \<and> sf_map (bs ! b) q = Some obj})"
    if "k \<le> length bs" for k
    using that
  proof (induction k)
    case 0
    then show ?case by (auto simp: postings_wf_def postings_at_def)
  next
    case (Suc k)
    then have IH: "postings_wf r (length bs) (foldl ?f (replicate r Map.empty) [0..<k])"
      "\<forall>q < r. \<forall>obj. postings_at (foldl ?f (replicate r Map.empty) [0..<k]) q obj = {b. b < k \<and> sf_map (bs ! b) q = Some obj}" by auto
    have k: "k < length bs" "set [0..<r] \<subseteq> {..<r}" using Suc.prems by auto
    from post_binding_spec [OF IH(1) k] IH(2) show ?case by (auto simp: less_Suc_eq)
  qed
  from this [of "length bs"] show "postings_wf r (length bs) (build_postings r bs)"
    "q < r \<Longrightarrow> postings_at (build_postings r bs) q obj = {b. b < length bs \<and> sf_map (bs ! b) q = Some obj}"
    by (auto simp: build_postings_def)
qed

section \<open>Queries find the matching bindings\<close>

text \<open>A binding agrees with a match if it binds every rigid parameter of the match to the same object.\<close>

definition agrees_at :: "tterm subst \<Rightarrow> rigid_binding \<Rightarrow> nat \<Rightarrow> bool" where
  "agrees_at sigma binding p \<longleftrightarrow>
     (case sf_map sigma p of None \<Rightarrow> True | Some v \<Rightarrow> map_option Obj (sf_map binding p) = Some v)"

definition agreeing :: "rigid_binding list \<Rightarrow> tterm subst \<Rightarrow> nat list \<Rightarrow> nat set" where
  "agreeing bs sigma qs = {b. b < length bs \<and> list_all (agrees_at sigma (bs ! b)) qs}"

lemma agreeing_Nil: "agreeing bs sigma [] = {..<length bs}"
  by (auto simp: agreeing_def)

lemma agreeing_Cons: "agreeing bs sigma (p # qs) = {b. b < length bs \<and> agrees_at sigma (bs ! b) p} \<inter> agreeing bs sigma qs"
  by (auto simp: agreeing_def)

lemma intersect_loop_spec:
  assumes wf: "postings_wf r (length bs) ps"
    and at: "\<And>q obj. q < r \<Longrightarrow> postings_at ps q obj = {b. b < length bs \<and> sf_map (bs ! b) q = Some obj}"
    and obj: "\<And>p v. sf_map sigma p = Some v \<Longrightarrow> is_object v"
    and "set qs \<subseteq> {..<r}" and "length cs = length bs"
  shows "\<exists>ok cs'. intersect_loop ps sigma qs cs = Inr (ok, cs') \<and> length cs' = length bs \<and>
    (if ok then db_set cs' else {}) = db_set cs \<inter> agreeing bs sigma qs"
  using assms(4,5)
proof (induction qs arbitrary: cs)
  case Nil
  then have "db_set cs \<subseteq> {..<length bs}" using db_set_bound [of _ cs] by auto
  then show ?case using Nil.prems by (auto simp: agreeing_Nil)
next
  case (Cons p qs)
  have p: "p < r" and qs: "set qs \<subseteq> {..<r}" using Cons.prems(1) by auto
  show ?case
  proof (cases "sf_map sigma p")
    case None
    then have "agreeing bs sigma (p # qs) = agreeing bs sigma qs" by (auto simp: agreeing_def agrees_at_def)
    with None Cons.IH [OF qs Cons.prems(2)] show ?thesis by simp
  next
    case (Some v)
    then obtain ob where v: "v = Obj ob" using obj [OF Some] by (cases v) auto
    have A: "{b. b < length bs \<and> agrees_at sigma (bs ! b) p} = postings_at ps p ob"
      using Some v at [OF p] by (auto simp: agrees_at_def)
    show ?thesis
    proof (cases "(ps ! p) ob")
      case None
      then have "agreeing bs sigma (p # qs) = {}" using A by (auto simp: agreeing_Cons postings_at_def)
      then show ?thesis using Some v None Cons.prems by (intro exI [of _ False]) simp
    next
      case bits: (Some bits)
      have len: "length bits = length bs" using wf p bits by (auto simp: postings_wf_def)
      have "db_set bits = postings_at ps p ob" using bits by (simp add: postings_at_def)
      then have cs': "length (db_and cs bits) = length bs"
        "db_set (db_and cs bits) \<inter> agreeing bs sigma qs = db_set cs \<inter> agreeing bs sigma (p # qs)"
        using len Cons.prems(2) A by (auto simp: agreeing_Cons)
      show ?thesis
      proof (cases "db_none (db_and cs bits)")
        case True
        then have "db_set (db_and cs bits) = {}" by simp
        with True show ?thesis using Some v bits cs' by (intro exI [of _ False]) (simp add: Let_def)
      next
        case False
        with Cons.IH [OF qs cs'(1)] show ?thesis using Some v bits cs'(2) by (simp add: Let_def)
      qed
    qed
  qed
qed

lemma intersect_matching_bindings_spec:
  assumes "\<And>p v. sf_map sigma p = Some v \<Longrightarrow> is_object v"
  shows "\<exists>ok cs. intersect_matching_bindings (make_match_data iv bs) sigma = Inr (ok, cs) \<and> length cs = length bs \<and>
    (if ok then db_set cs else {}) = agreeing bs sigma [0..<inv_num_rigid_variables iv]"
proof -
  let ?r = "inv_num_rigid_variables iv"
  have "agreeing bs sigma [0..<?r] \<subseteq> {..<length bs}" by (auto simp: agreeing_def)
  moreover have "\<exists>ok cs. intersect_loop (build_postings ?r bs) sigma [0..<?r] (replicate (length bs) True) = Inr (ok, cs) \<and>
    length cs = length bs \<and> (if ok then db_set cs else {}) = db_set (replicate (length bs) True) \<inter> agreeing bs sigma [0..<?r]"
    by (rule intersect_loop_spec [where r = ?r]) (use build_postings_spec assms in auto)
  then obtain ok cs where "intersect_loop (build_postings ?r bs) sigma [0..<?r] (replicate (length bs) True) = Inr (ok, cs)"
    "length cs = length bs" "(if ok then db_set cs else {}) = db_set (replicate (length bs) True) \<inter> agreeing bs sigma [0..<?r]"
    by blast
  ultimately show ?thesis by (auto simp: intersect_matching_bindings_def make_match_data_def)
qed

text \<open>The reference: the bindings that agree with the match of some atom of the invariant.\<close>

definition pattern_matches :: "invariant \<Rightarrow> mutable_atom \<Rightarrow> mutable_atom \<Rightarrow> rigid_binding \<Rightarrow> bool" where
  "pattern_matches iv a pattern binding =
     (case match_invariant_against_ground_atom iv pattern a of
        Inr (Some sigma) \<Rightarrow> list_all (agrees_at sigma binding) [0..<inv_num_rigid_variables iv]
      | _ \<Rightarrow> False)"

definition naive_query :: "(invariant \<times> rigid_binding list) list \<Rightarrow> mutable_atom \<Rightarrow> (nat \<times> nat) list" where
  "naive_query ivs a =
     concat (map (\<lambda>i. map (\<lambda>b. (i, b))
       (filter (\<lambda>b. list_ex (\<lambda>pattern. pattern_matches (fst (ivs ! i)) a pattern (snd (ivs ! i) ! b)) (inv_atoms (fst (ivs ! i))))
         [0..<length (snd (ivs ! i))])) [0..<length ivs])"

lemma match_invariant_objects:
  assumes "match_invariant_against_ground_atom iv pattern (atom_of_ground_view g) = Inr (Some sigma)" "sf_map sigma p = Some v"
  shows "is_object v"
proof -
  let ?n = "inv_num_rigid_variables iv + inv_num_counted_variables iv"
  have p: "match_promise transform_terms_atom pattern (atom_of_ground_view g) (sf_from_range 0 ?n) (Some sigma)"
    using match_invariant_promise [of iv pattern g] assms(1) by auto
  then have e: "transform_terms_atom (inst (sf_map sigma)) pattern = atom_of_ground_view g"
    by (simp add: match_promise_def apply_substitution_inst)
  have t: "map (inst (sf_map sigma)) (ma_terms pattern) = ma_terms (atom_of_ground_view g)"
    unfolding e [symmetric] by (simp add: transform_terms_atom_def transform_terms_vector_def)
  let ?m = "\<lambda>q. if Param q \<in> set (ma_terms pattern) then sf_map sigma q else None"
  have "transform_terms_atom (inst ?m) pattern = transform_terms_atom (inst (sf_map sigma)) pattern"
  proof -
    have "inst ?m t = inst (sf_map sigma) t" if "t \<in> set (ma_terms pattern)" for t by (cases t) (use that in auto)
    then show ?thesis by (simp add: transform_terms_atom_def transform_terms_vector_def)
  qed
  moreover have "dom ?m \<subseteq> sf_dom (sf_from_range 0 ?n :: tterm subst)"
    using p sf_map_dom [of sigma] by (auto simp: match_promise_def split: if_splits)
  ultimately have "sf_map sigma \<subseteq>\<^sub>m ?m"
    using p by (auto simp: match_promise_def apply_substitution_inst sf_from_range_spec)
  then have "Param p \<in> set (ma_terms pattern)" using assms(2) by (auto simp: map_le_def dom_def split: if_splits)
  then have "inst (sf_map sigma) (Param p) \<in> set (ma_terms (atom_of_ground_view g))" using t by (metis image_eqI set_map)
  then show ?thesis using assms(2) by (cases g) auto
qed

lemma match_invariant_shape:
  assumes "match_invariant_against_ground_atom iv pattern a = Inr (Some sigma)"
  shows "ma_predicate pattern = ma_predicate a \<and> length (ma_terms pattern) = length (ma_terms a)"
  using assms by (auto simp: match_invariant_against_ground_atom_def match_structure_def zip_terms_atom_def split: sum.splits prod.splits if_splits)

lemma query_pattern_spec:
  assumes "length matches = length bs"
  shows "\<exists>m. query_pattern (make_match_data iv bs) (atom_of_ground_view g) matches pattern = Inr m \<and> length m = length bs \<and>
    db_set m = db_set matches \<union> {b. b < length bs \<and> pattern_matches iv (atom_of_ground_view g) pattern (bs ! b)}"
proof -
  let ?a = "atom_of_ground_view g"
  obtain r where r: "match_invariant_against_ground_atom iv pattern ?a = Inr r"
    using match_invariant_against_ground_atom_total by blast
  show ?thesis
  proof (cases r)
    case None
    then show ?thesis using r assms by (auto simp: query_pattern_def pattern_matches_def make_match_data_def)
  next
    case (Some sigma)
    have S: "ma_predicate pattern = ma_predicate ?a" "length (ma_terms pattern) = length (ma_terms ?a)"
      using match_invariant_shape r Some by blast+
    obtain ok cs where I: "intersect_matching_bindings (make_match_data iv bs) sigma = Inr (ok, cs)" "length cs = length bs"
      "(if ok then db_set cs else {}) = agreeing bs sigma [0..<inv_num_rigid_variables iv]"
      using intersect_matching_bindings_spec [of sigma iv bs] match_invariant_objects r Some by blast
    have "{b. b < length bs \<and> pattern_matches iv ?a pattern (bs ! b)} = agreeing bs sigma [0..<inv_num_rigid_variables iv]"
      using r Some by (auto simp: pattern_matches_def agreeing_def)
    moreover have "match_invariant_against_ground_atom (md_inv (make_match_data iv bs)) pattern ?a = Inr (Some sigma)"
      using r Some by (simp add: make_match_data_def)
    ultimately show ?thesis using I S assms by (cases ok) (simp_all add: query_pattern_def del: Collect_empty_eq)
  qed
qed

lemma query_invariant_spec:
  "query_invariant (make_match_data iv bs) (atom_of_ground_view g) =
   Inr (filter (\<lambda>b. list_ex (\<lambda>pattern. pattern_matches iv (atom_of_ground_view g) pattern (bs ! b)) (inv_atoms iv)) [0..<length bs])"
proof (cases "bs = []")
  case True
  then show ?thesis by (simp add: query_invariant_def make_match_data_def)
next
  case False
  let ?a = "atom_of_ground_view g" and ?P = "\<lambda>pattern b. b < length bs \<and> pattern_matches iv (atom_of_ground_view g) pattern (bs ! b)"
  have "\<exists>m. fold_result (query_pattern (make_match_data iv bs) ?a) m0 ps = Inr m \<and> length m = length bs \<and>
      db_set m = db_set m0 \<union> {b. \<exists>p \<in> set ps. ?P p b}" if "length m0 = length bs" for m0 ps
    using that
  proof (induction ps arbitrary: m0)
    case (Cons p ps)
    obtain m1 where "query_pattern (make_match_data iv bs) ?a m0 p = Inr m1" "length m1 = length bs" "db_set m1 = db_set m0 \<union> {b. ?P p b}"
      using query_pattern_spec [OF Cons.prems] by blast
    with Cons.IH [of m1] show ?case by auto
  qed simp
  from this [of "replicate (length bs) False" "inv_atoms iv"] obtain m where
    m: "fold_result (query_pattern (make_match_data iv bs) ?a) (replicate (length bs) False) (inv_atoms iv) = Inr m"
    "length m = length bs" "db_set m = {b. \<exists>p \<in> set (inv_atoms iv). ?P p b}" by auto
  have "bits_of m = filter (\<lambda>b. list_ex (\<lambda>p. pattern_matches iv ?a p (bs ! b)) (inv_atoms iv)) [0..<length bs]"
    unfolding bits_of_def m(2) using m(2,3) by (intro filter_cong) (auto simp: db_set_def list_ex_iff)
  then show ?thesis using m(1) False by (simp add: query_invariant_def make_match_data_def Let_def)
qed

section \<open>Properties\<close>

text \<open>
  C32. A query for a ground atom does not throw and returns exactly the pairs of an invariant and a
  binding that a search through all bindings of all invariants finds, in the same order.
\<close>

theorem matcher_query_naive:
  "matcher_query_ground (map (\<lambda>(iv, bs). make_match_data iv bs) ivs) g = Inr (naive_query ivs (atom_of_ground_view g))"
proof -
  let ?a = "atom_of_ground_view g" and ?datas = "map (\<lambda>(iv, bs). make_match_data iv bs) ivs"
  let ?h = "\<lambda>i. filter (\<lambda>b. list_ex (\<lambda>pattern. pattern_matches (fst (ivs ! i)) ?a pattern (snd (ivs ! i) ! b)) (inv_atoms (fst (ivs ! i)))) [0..<length (snd (ivs ! i))]"
  have q: "query_invariant (?datas ! i) ?a = Inr (?h i)" if "i < length ivs" for i
    using that by (simp add: case_prod_beta query_invariant_spec)
  then have q': "query_invariant (case ivs ! i of (iv, bs) \<Rightarrow> make_match_data iv bs) ?a = Inr (?h i)" if "i < length ivs" for i
    using that by simp
  have "fold_result (\<lambda>ms i. map_sum id (\<lambda>bs. ms @ map (\<lambda>b. (i, b)) bs) (query_invariant (?datas ! i) ?a)) acc is =
      Inr (acc @ concat (map (\<lambda>i. map (\<lambda>b. (i, b)) (?h i)) is))" if "set is \<subseteq> {..<length ivs}" for acc "is"
    using that by (induction "is" arbitrary: acc) (auto simp: q')
  from this [of "[0..<length ivs]" "[]"] show ?thesis
    by (simp add: matcher_query_ground_def matcher_query_def naive_query_def atLeast0LessThan)
qed

end
