(* ===== verification/Mutex_Groups.thy ===== *)
theory Mutex_Groups
  imports Invariant_Matching "HOL-Library.Multiset" "HOL-Library.Product_Lexorder"
begin

text \<open>
  \<^verbatim>\<open>src/formalism/planning/invariants/mutexes.cpp\<close>: the instances of the invariants that the initial state
  satisfies, and the greedy partition of all ground atoms into mutex groups. A ground atom is
  its index, its predicate and its objects; views are equal and ordered by index.
\<close>

section \<open>Instances of invariants\<close>

record ground_atom =
  ga_index :: nat
  ga_predicate :: nat
  ga_objects :: "nat list"

abbreviation mutable_of_ground :: "ground_atom \<Rightarrow> mutable_atom" where
  "mutable_of_ground a \<equiv> atom_of_ground_view (ga_predicate a, ga_objects a)"

text \<open>The loop over the rigid parameters: \<open>None\<close> when one is unbound or not bound to an object.\<close>

fun rigid_values_loop :: "tterm subst \<Rightarrow> nat list \<Rightarrow> nat list option result" where
  "rigid_values_loop sigma [] = Inr (Some [])"
| "rigid_values_loop sigma (i # is) =
     (case sf_at sigma i of
        Inl e \<Rightarrow> Inl e
      | Inr None \<Rightarrow> Inr None
      | Inr (Some (Param p)) \<Rightarrow> Inr None
      | Inr (Some (Obj obj)) \<Rightarrow> map_sum id (map_option (\<lambda>vs. obj # vs)) (rigid_values_loop sigma is))"

definition extract_rigid_values :: "invariant \<Rightarrow> mutable_atom \<Rightarrow> ground_atom \<Rightarrow> nat list option result" where
  "extract_rigid_values iv pattern a =
     (case match_invariant_against_ground_atom iv pattern (mutable_of_ground a) of
        Inl e \<Rightarrow> Inl e
      | Inr None \<Rightarrow> Inr None
      | Inr (Some sigma) \<Rightarrow> rigid_values_loop sigma [0..<inv_num_rigid_variables iv])"

fun instantiate_matches_term :: "nat list \<Rightarrow> nat option \<Rightarrow> nat \<Rightarrow> tterm \<Rightarrow> bool" where
  "instantiate_matches_term rigid_values counted_value obj (Param idx) =
     (if idx < length rigid_values then rigid_values ! idx = obj else counted_value = Some obj)"
| "instantiate_matches_term rigid_values counted_value obj (Obj arg) = (arg = obj)"

definition instantiate_matches_ground_atom :: "mutable_atom \<Rightarrow> nat list \<Rightarrow> nat option \<Rightarrow> ground_atom \<Rightarrow> bool" where
  "instantiate_matches_ground_atom pattern rigid_values counted_value a =
     (ma_predicate pattern = ga_predicate a \<and> length (ma_terms pattern) = length (ga_objects a) \<and>
      list_all (\<lambda>pos. instantiate_matches_term rigid_values counted_value (ga_objects a ! pos) (ma_terms pattern ! pos))
        [0..<length (ma_terms pattern)])"

definition initial_atom_matches_part :: "invariant \<Rightarrow> mutable_atom \<Rightarrow> ground_atom \<Rightarrow> bool result" where
  "initial_atom_matches_part iv part a =
     map_sum id (\<lambda>r. r \<noteq> None) (match_invariant_against_ground_atom iv part (mutable_of_ground a))"

definition counted_position :: "invariant \<Rightarrow> mutable_atom \<Rightarrow> nat option" where
  "counted_position iv pattern =
     List.find (\<lambda>pos. is_counted_term (inv_num_rigid_variables iv) (ma_terms pattern ! pos)) [0..<length (ma_terms pattern)]"

text \<open>The body of the loop over the atoms in \<open>instantiate_group\<close>, on the vector \<open>seen\<close> and the result.\<close>

definition group_step ::
  "invariant \<Rightarrow> nat list \<Rightarrow> mutable_atom \<Rightarrow> bool list \<times> ground_atom list \<Rightarrow> ground_atom \<Rightarrow> bool list \<times> ground_atom list" where
  "group_step iv rigid_values pattern st a =
     (let (seen, res) = st in
      if ma_predicate pattern \<noteq> ga_predicate a then st
      else if length (ma_terms pattern) \<noteq> length (ga_objects a) then st
      else
        let counted_object = map_option (\<lambda>pos. ga_objects a ! pos) (counted_position iv pattern) in
        if \<not> instantiate_matches_ground_atom pattern rigid_values counted_object a then st
        else if \<not> seen ! ga_index a then (seen[ga_index a := True], res @ [a])
        else st)"

definition instantiate_group :: "invariant \<Rightarrow> nat list \<Rightarrow> ground_atom list \<Rightarrow> ground_atom list" where
  "instantiate_group iv rigid_values all_atoms =
     snd (foldl (\<lambda>st pattern. foldl (group_step iv rigid_values pattern) st all_atoms)
            (replicate (length all_atoms) False, []) (inv_atoms iv))"

section \<open>Groups\<close>

record precomputed_group =
  pg_inv_index :: nat
  pg_rigid_values :: "nat list"
  pg_atoms :: "ground_atom list"

type_synonym groups_state = "precomputed_group list \<times> (nat \<times> nat list) set"

definition initial_count :: "ground_atom list \<Rightarrow> ground_atom list \<Rightarrow> nat" where
  "initial_count initial_atoms grp =
     length (filter (\<lambda>g. List.find (\<lambda>a. ga_index a = ga_index g) initial_atoms \<noteq> None) grp)"

text \<open>The body of the innermost loop of \<open>precompute_groups\<close>.\<close>

definition precompute_step ::
  "ground_atom list \<Rightarrow> ground_atom list \<Rightarrow> nat \<Rightarrow> invariant \<Rightarrow> ground_atom \<Rightarrow> groups_state \<Rightarrow> mutable_atom \<Rightarrow> groups_state result" where
  "precompute_step initial_atoms all_atoms inv_index iv a st part =
     (let (groups, seen_keys) = st in
      if ma_predicate part \<noteq> ga_predicate a then Inr st
      else case initial_atom_matches_part iv part a of
        Inl e \<Rightarrow> Inl e
      | Inr ok \<Rightarrow>
          if \<not> ok then Inr st
          else case extract_rigid_values iv part a of
            Inl e \<Rightarrow> Inl e
          | Inr None \<Rightarrow> Inr st
          | Inr (Some rigid_values) \<Rightarrow>
              (let key = (inv_index, rigid_values) in
               if key \<in> seen_keys then Inr st
               else
                 let seen_keys = insert key seen_keys; grp = instantiate_group iv rigid_values all_atoms in
                 if grp = [] then Inr (groups, seen_keys)
                 else if initial_count initial_atoms grp > 1 then Inr (groups, seen_keys)
                 else Inr (groups @ [\<lparr>pg_inv_index = inv_index, pg_rigid_values = rigid_values,
                                      pg_atoms = sort_key ga_index grp\<rparr>], seen_keys)))"

definition precompute_groups :: "ground_atom list \<Rightarrow> ground_atom list \<Rightarrow> invariant list \<Rightarrow> precomputed_group list result" where
  "precompute_groups initial_atoms all_atoms invs =
     map_sum id fst
       (fold_result (\<lambda>st inv_index.
          let iv = invs ! inv_index in
          fold_result (\<lambda>st a.
            if ga_predicate a \<notin> inv_predicates iv then Inr st
            else fold_result (precompute_step initial_atoms all_atoms inv_index iv a) st (inv_atoms iv))
          st initial_atoms)
        ([], {}) [0..<length invs])"

section \<open>The greedy cover\<close>

definition compute_uncovered_coverage :: "precomputed_group \<Rightarrow> bool list \<Rightarrow> nat" where
  "compute_uncovered_coverage grp uncovered = length (filter (\<lambda>a. uncovered ! ga_index a) (pg_atoms grp))"

definition select_best_group :: "precomputed_group list \<Rightarrow> bool list \<Rightarrow> nat option" where
  "select_best_group groups uncovered =
     fst (foldl (\<lambda>(best_group_index, best_coverage) i.
            let coverage = compute_uncovered_coverage (groups ! i) uncovered in
            if coverage > best_coverage then (Some i, coverage) else (best_group_index, best_coverage))
          (None, 0) [0..<length groups])"

definition build_uncovered_subgroup :: "precomputed_group \<Rightarrow> bool list \<Rightarrow> ground_atom list" where
  "build_uncovered_subgroup grp uncovered = filter (\<lambda>a. uncovered ! ga_index a) (pg_atoms grp)"

definition mark_group_covered :: "ground_atom list \<Rightarrow> bool list \<times> nat \<Rightarrow> bool list \<times> nat" where
  "mark_group_covered grp st =
     foldl (\<lambda>(uncovered, num_uncovered) a.
              if uncovered ! ga_index a then (uncovered[ga_index a := False], num_uncovered - 1)
              else (uncovered, num_uncovered)) st grp"

text \<open>The while loop of \<open>choose_groups_greedily\<close>; \<open>None\<close> would mean that it does not return.\<close>

partial_function (option) greedy_loop ::
  "precomputed_group list \<Rightarrow> bool list \<times> nat \<Rightarrow> ground_atom list list \<Rightarrow> (bool list \<times> ground_atom list list) option" where
  "greedy_loop groups st res =
     (if snd st > 0 then
        (case select_best_group groups (fst st) of
           None \<Rightarrow> Some (fst st, res)
         | Some best_idx \<Rightarrow>
             (let selected_group = build_uncovered_subgroup (groups ! best_idx) (fst st) in
              if selected_group = [] then Some (fst st, res)
              else greedy_loop groups (mark_group_covered selected_group st) (res @ [selected_group])))
      else Some (fst st, res))"

declare greedy_loop.simps [code]

definition choose_groups_greedily :: "precomputed_group list \<Rightarrow> ground_atom list \<Rightarrow> ground_atom list list option" where
  "choose_groups_greedily groups all_atoms =
     (case greedy_loop groups (replicate (length all_atoms) True, length all_atoms) [] of
        None \<Rightarrow> None
      | Some (uncovered, res) \<Rightarrow>
          Some (res @ map (\<lambda>pos. [all_atoms ! pos]) (filter (\<lambda>pos. uncovered ! pos) [0..<length all_atoms])))"

definition group_key :: "precomputed_group \<Rightarrow> nat \<times> nat list \<times> nat list" where
  "group_key grp = (pg_inv_index grp, pg_rigid_values grp, map ga_index (pg_atoms grp))"

definition compute_mutex_groups ::
  "ground_atom list \<Rightarrow> ground_atom list \<Rightarrow> invariant list \<Rightarrow> ground_atom list list option result" where
  "compute_mutex_groups initial_atoms all_atoms invs =
     map_sum id (\<lambda>groups. choose_groups_greedily (sort_key group_key groups) all_atoms)
       (precompute_groups initial_atoms all_atoms invs)"

section \<open>The groups\<close>

text \<open>The caller's contract, asserted in the code: an atom's index is its position.\<close>

definition indexed_atoms :: "ground_atom list \<Rightarrow> bool" where
  "indexed_atoms all_atoms \<longleftrightarrow> map ga_index all_atoms = [0..<length all_atoms]"

lemma indexed_atomsD:
  assumes "indexed_atoms all_atoms"
  shows "a \<in> set all_atoms \<Longrightarrow> ga_index a < length all_atoms \<and> all_atoms ! ga_index a = a"
    and "a \<in> set all_atoms \<Longrightarrow> b \<in> set all_atoms \<Longrightarrow> ga_index a = ga_index b \<longleftrightarrow> a = b"
    and "distinct all_atoms"
    and "i < length all_atoms \<Longrightarrow> ga_index (all_atoms ! i) = i"
proof -
  show i: "ga_index (all_atoms ! i) = i" if "i < length all_atoms" for i
    using assms that nth_map [of i all_atoms ga_index] by (simp add: indexed_atoms_def)
  show A: "ga_index a < length all_atoms \<and> all_atoms ! ga_index a = a" if "a \<in> set all_atoms" for a
    using that i by (metis in_set_conv_nth)
  show "ga_index a = ga_index b \<longleftrightarrow> a = b" if "a \<in> set all_atoms" "b \<in> set all_atoms" using A [OF that(1)] A [OF that(2)] by metis
  show "distinct all_atoms" using assms by (metis distinct_map distinct_upt indexed_atoms_def)
qed

text \<open>What a group promises: different atoms of the task, at most one of them initial.\<close>

definition group_ok :: "ground_atom list \<Rightarrow> ground_atom list \<Rightarrow> ground_atom list \<Rightarrow> bool" where
  "group_ok initial_atoms all_atoms grp \<longleftrightarrow>
     distinct grp \<and> set grp \<subseteq> set all_atoms \<and> initial_count initial_atoms grp \<le> 1"

definition group_state_ok :: "ground_atom list \<Rightarrow> bool list \<times> ground_atom list \<Rightarrow> bool" where
  "group_state_ok all_atoms st \<longleftrightarrow> length (fst st) = length all_atoms \<and> distinct (snd st) \<and> set (snd st) \<subseteq> set all_atoms \<and>
     (\<forall>a \<in> set all_atoms. fst st ! ga_index a \<longleftrightarrow> a \<in> set (snd st))"

lemma group_step_cases:
  obtains "group_step iv vs pattern st a = st"
  | "\<not> fst st ! ga_index a" "group_step iv vs pattern st a = ((fst st)[ga_index a := True], snd st @ [a])"
proof -
  have "group_step iv vs pattern st a = st \<or>
    \<not> fst st ! ga_index a \<and> group_step iv vs pattern st a = ((fst st)[ga_index a := True], snd st @ [a])"
    by (simp add: group_step_def Let_def case_prod_beta)
  with that show thesis by blast
qed

lemma group_step_ok:
  assumes "indexed_atoms all_atoms" "a \<in> set all_atoms" "group_state_ok all_atoms st"
  shows "group_state_ok all_atoms (group_step iv vs pattern st a)"
proof (cases rule: group_step_cases [of iv vs pattern st a])
  case 2
  have seen: "((fst st)[ga_index a := True]) ! ga_index b \<longleftrightarrow> b = a \<or> fst st ! ga_index b" if "b \<in> set all_atoms" for b
    using indexed_atomsD(1) [OF assms(1,2)] indexed_atomsD(2) [OF assms(1) that assms(2)] assms(3)
    by (auto simp: nth_list_update group_state_ok_def)
  have "a \<notin> set (snd st)" using 2(1) assms(2,3) by (simp add: group_state_ok_def)
  with seen assms(2,3) 2(2) show ?thesis by (auto simp: group_state_ok_def)
qed (use assms in simp)

lemma foldl_invariant:
  assumes "P s" "\<And>s x. x \<in> set xs \<Longrightarrow> P s \<Longrightarrow> P (f s x)" shows "P (foldl f s xs)"
  using assms by (induction xs arbitrary: s) auto

lemma instantiate_group_ok:
  assumes "indexed_atoms all_atoms"
  shows "distinct (instantiate_group iv vs all_atoms)" "set (instantiate_group iv vs all_atoms) \<subseteq> set all_atoms"
proof -
  have "group_state_ok all_atoms (foldl (\<lambda>st pattern. foldl (group_step iv vs pattern) st all_atoms)
            (replicate (length all_atoms) False, []) (inv_atoms iv))"
  proof (rule foldl_invariant [where P = "group_state_ok all_atoms"])
    show "group_state_ok all_atoms (replicate (length all_atoms) False, [])"
      using indexed_atomsD(1) [OF assms] by (auto simp: group_state_ok_def)
    show "group_state_ok all_atoms (foldl (group_step iv vs pattern) st all_atoms)" if "group_state_ok all_atoms st" for st pattern
      using that group_step_ok [OF assms] by (rule foldl_invariant [where P = "group_state_ok all_atoms"])
  qed
  then show "distinct (instantiate_group iv vs all_atoms)" "set (instantiate_group iv vs all_atoms) \<subseteq> set all_atoms"
    by (auto simp: group_state_ok_def instantiate_group_def)
qed

text \<open>Every group that is computed is one of these.\<close>

definition groups_ok :: "ground_atom list \<Rightarrow> ground_atom list \<Rightarrow> precomputed_group list \<Rightarrow> bool" where
  "groups_ok initial_atoms all_atoms groups \<longleftrightarrow> (\<forall>g \<in> set groups. group_ok initial_atoms all_atoms (pg_atoms g))"

lemma initial_count_mset: "mset g = mset g' \<Longrightarrow> initial_count initial_atoms g = initial_count initial_atoms g'"
  unfolding initial_count_def by (metis mset_filter size_mset)

lemma rigid_values_loop_total: "set is \<subseteq> sf_dom sigma \<Longrightarrow> \<exists>r. rigid_values_loop sigma is = Inr r"
  by (induction "is") (auto simp: sf_at_spec split: option.splits tterm.splits)

lemma extract_rigid_values_total: "\<exists>r. extract_rigid_values iv pattern a = Inr r"
proof -
  obtain r where r: "match_invariant_against_ground_atom iv pattern (mutable_of_ground a) = Inr r"
    "case r of None \<Rightarrow> True | Some sg \<Rightarrow> sf_dom sg = {0..<inv_num_rigid_variables iv + inv_num_counted_variables iv}"
    using match_invariant_promise [of iv pattern "(ga_predicate a, ga_objects a)"]
    by (auto simp: match_promise_def sf_from_range_spec split: option.splits)
  then show ?thesis
    using rigid_values_loop_total [of "[0..<inv_num_rigid_variables iv]"]
    by (cases r) (auto simp: extract_rigid_values_def)
qed

lemma precompute_step_ok:
  assumes "indexed_atoms all_atoms" "groups_ok initial_atoms all_atoms (fst st)"
  shows "\<exists>st'. precompute_step initial_atoms all_atoms i iv a st part = Inr st' \<and> groups_ok initial_atoms all_atoms (fst st')"
proof -
  obtain groups keys where st: "st = (groups, keys)" by (cases st)
  obtain m where m: "match_invariant_against_ground_atom iv part (mutable_of_ground a) = Inr m"
    using match_invariant_against_ground_atom_total by blast
  obtain r where r: "extract_rigid_values iv part a = Inr r" using extract_rigid_values_total by blast
  have "group_ok initial_atoms all_atoms (sort_key ga_index (instantiate_group iv vs all_atoms))"
    if "\<not> initial_count initial_atoms (instantiate_group iv vs all_atoms) > 1" for vs
    using that instantiate_group_ok [OF assms(1)]
      initial_count_mset [of "sort_key ga_index (instantiate_group iv vs all_atoms)" "instantiate_group iv vs all_atoms"]
    by (simp add: group_ok_def)
  then show ?thesis
    using assms(2) m r st by (cases r) (auto simp: precompute_step_def Let_def initial_atom_matches_part_def groups_ok_def)
qed

lemma precompute_groups_ok:
  assumes "indexed_atoms all_atoms"
  shows "\<exists>groups. precompute_groups initial_atoms all_atoms invs = Inr groups \<and> groups_ok initial_atoms all_atoms groups"
proof -
  let ?P = "\<lambda>st :: groups_state. groups_ok initial_atoms all_atoms (fst st)"
  have inner: "\<exists>st'. fold_result (precompute_step initial_atoms all_atoms i iv a) st (inv_atoms iv) = Inr st' \<and> ?P st'"
    if "?P st" for i iv a st
    using precompute_step_ok [OF assms] that by (rule fold_result_invariant [where P = ?P])
  have "\<exists>st'. fold_result (\<lambda>st a. if ga_predicate a \<notin> inv_predicates iv then Inr st
      else fold_result (precompute_step initial_atoms all_atoms i iv a) st (inv_atoms iv)) st initial_atoms = Inr st' \<and> ?P st'"
    if "?P st" for i iv st
  proof (rule fold_result_invariant [where P = ?P, OF _ that])
    fix st :: groups_state and a assume "?P st"
    then show "\<exists>st'. (if ga_predicate a \<notin> inv_predicates iv then Inr st
      else fold_result (precompute_step initial_atoms all_atoms i iv a) st (inv_atoms iv)) = Inr st' \<and> ?P st'"
      using inner [of st i iv a] by (cases "ga_predicate a \<notin> inv_predicates iv") (auto simp del: split_paired_Ex)
  qed
  then have "\<exists>st'. fold_result (\<lambda>st i. let iv = invs ! i in fold_result (\<lambda>st a. if ga_predicate a \<notin> inv_predicates iv then Inr st
      else fold_result (precompute_step initial_atoms all_atoms i iv a) st (inv_atoms iv)) st initial_atoms) ([], {}) [0..<length invs] = Inr st' \<and> ?P st'"
    by (intro fold_result_invariant [where P = ?P]) (auto simp: Let_def groups_ok_def)
  then show ?thesis by (auto simp: precompute_groups_def)
qed

section \<open>The cover\<close>

lemma select_best_group_Some:
  assumes "select_best_group groups u = Some i"
  shows "i < length groups" and "build_uncovered_subgroup (groups ! i) u \<noteq> []"
proof -
  let ?P = "\<lambda>st :: nat option \<times> nat. \<forall>i. fst st = Some i \<longrightarrow> i < length groups \<and> compute_uncovered_coverage (groups ! i) u > 0"
  have "?P (foldl (\<lambda>(best_group_index, best_coverage) i.
            let coverage = compute_uncovered_coverage (groups ! i) u in
            if coverage > best_coverage then (Some i, coverage) else (best_group_index, best_coverage)) (None, 0) [0..<length groups])"
    by (rule foldl_invariant [where P = ?P]) (auto simp: Let_def split: prod.splits if_splits)
  then have "i < length groups \<and> compute_uncovered_coverage (groups ! i) u > 0"
    using assms unfolding select_best_group_def by blast
  then show "i < length groups" "build_uncovered_subgroup (groups ! i) u \<noteq> []"
    by (auto simp: compute_uncovered_coverage_def build_uncovered_subgroup_def)
qed

definition uncovered_atoms :: "ground_atom list \<Rightarrow> bool list \<Rightarrow> ground_atom list" where
  "uncovered_atoms all_atoms u = filter (\<lambda>a. u ! ga_index a) all_atoms"

lemma mark_group_covered_spec:
  assumes "indexed_atoms all_atoms" "set sel \<subseteq> set all_atoms" "length (fst st) = length all_atoms"
  shows "length (fst (mark_group_covered sel st)) = length all_atoms"
    and "uncovered_atoms all_atoms (fst (mark_group_covered sel st)) = filter (\<lambda>a. a \<notin> set sel) (uncovered_atoms all_atoms (fst st))"
proof -
  let ?f = "\<lambda>(u, n) a. if u ! ga_index a then (u[ga_index a := False], n - 1) else (u, n :: nat)"
  have "length (fst (foldl ?f st sel)) = length all_atoms \<and>
    (\<forall>a \<in> set all_atoms. fst (foldl ?f st sel) ! ga_index a \<longleftrightarrow> fst st ! ga_index a \<and> a \<notin> set sel)"
    using assms(2,3)
  proof (induction sel arbitrary: st)
    case (Cons b sel)
    have b: "b \<in> set all_atoms" using Cons.prems by simp
    have l: "length (fst (?f st b)) = length all_atoms" using Cons.prems by (cases st) simp
    have "fst (?f st b) ! ga_index a \<longleftrightarrow> fst st ! ga_index a \<and> a \<noteq> b" if "a \<in> set all_atoms" for a
      using indexed_atomsD(1) [OF assms(1) b] indexed_atomsD(2) [OF assms(1) that b] Cons.prems(2)
      by (cases st) (auto simp: nth_list_update)
    then show ?case using Cons.IH [OF _ l] Cons.prems(1) by auto
  qed simp
  then show "length (fst (mark_group_covered sel st)) = length all_atoms"
    "uncovered_atoms all_atoms (fst (mark_group_covered sel st)) = filter (\<lambda>a. a \<notin> set sel) (uncovered_atoms all_atoms (fst st))"
    by (auto simp: mark_group_covered_def uncovered_atoms_def intro: filter_cong)
qed

lemma mset_split_selected:
  assumes "distinct xs" "distinct sel" "set sel \<subseteq> set xs"
  shows "mset xs = mset sel + mset (filter (\<lambda>a. a \<notin> set sel) xs)"
proof -
  have "mset (filter (\<lambda>a. a \<in> set sel) xs) = mset sel"
    using assms by (subst set_eq_iff_mset_eq_distinct [symmetric]) auto
  then show ?thesis using multiset_partition [of "mset xs" "\<lambda>a. a \<in> set sel"] by simp
qed

lemma initial_count_filter: "initial_count initial_atoms (filter P g) \<le> initial_count initial_atoms g"
proof -
  have "filter Q (filter P g) = filter P (filter Q g)" for Q by (simp add: conj_commute)
  then show ?thesis unfolding initial_count_def by (metis length_filter_le)
qed

lemma greedy_loop_spec:
  assumes ix: "indexed_atoms all_atoms" and ok: "groups_ok initial_atoms all_atoms groups"
    and "length (fst st) = length all_atoms" and "\<forall>g \<in> set res. g \<noteq> [] \<and> initial_count initial_atoms g \<le> 1"
  shows "\<exists>u res'. greedy_loop groups st res = Some (u, res') \<and>
    mset (concat res') + mset (uncovered_atoms all_atoms u) = mset (concat res) + mset (uncovered_atoms all_atoms (fst st)) \<and>
    (\<forall>g \<in> set res'. g \<noteq> [] \<and> initial_count initial_atoms g \<le> 1)"
  using assms(3,4)
proof (induction "length (uncovered_atoms all_atoms (fst st))" arbitrary: st res rule: less_induct)
  case less
  show ?case
  proof (cases "snd st > 0 \<and> (\<exists>i. select_best_group groups (fst st) = Some i)")
    case False
    then have "greedy_loop groups st res = Some (fst st, res)" by (subst greedy_loop.simps) (auto split: option.splits)
    then show ?thesis using less.prems by simp
  next
    case True
    then obtain i where i: "select_best_group groups (fst st) = Some i" by blast
    note S = select_best_group_Some [OF i]
    define sel where "sel = build_uncovered_subgroup (groups ! i) (fst st)"
    have "groups ! i \<in> set groups" using S(1) by simp
    then have G: "group_ok initial_atoms all_atoms (pg_atoms (groups ! i))" using ok by (simp add: groups_ok_def)
    then have sel: "distinct sel" "set sel \<subseteq> set (uncovered_atoms all_atoms (fst st))" "set sel \<subseteq> set all_atoms" "sel \<noteq> []"
      "initial_count initial_atoms sel \<le> 1"
      using S(2) le_trans [OF initial_count_filter]
      by (auto simp: sel_def build_uncovered_subgroup_def group_ok_def uncovered_atoms_def)
    let ?st = "mark_group_covered sel st"
    note M = mark_group_covered_spec [OF ix sel(3) less.prems(1)]
    have d: "distinct (uncovered_atoms all_atoms (fst st))" using indexed_atomsD(3) [OF ix] by (simp add: uncovered_atoms_def)
    have ms: "mset (uncovered_atoms all_atoms (fst st)) = mset sel + mset (uncovered_atoms all_atoms (fst ?st))"
      unfolding M(2) by (rule mset_split_selected [OF d sel(1,2)])
    from arg_cong [OF ms, of size] have "length (uncovered_atoms all_atoms (fst ?st)) < length (uncovered_atoms all_atoms (fst st))"
      using sel(4) by simp
    from less.hyps [OF this M(1), of "res @ [sel]"] obtain u res' where
      IH: "greedy_loop groups ?st (res @ [sel]) = Some (u, res')"
      "mset (concat res') + mset (uncovered_atoms all_atoms u) = mset (concat (res @ [sel])) + mset (uncovered_atoms all_atoms (fst ?st))"
      "\<forall>g \<in> set res'. g \<noteq> [] \<and> initial_count initial_atoms g \<le> 1"
      using less.prems(2) sel(4,5) by auto
    have "greedy_loop groups st res = Some (u, res')"
      using True i IH(1) sel(4) by (subst greedy_loop.simps) (simp add: Let_def sel_def)
    then show ?thesis using IH(2,3) ms by (simp add: add.assoc)
  qed
qed

lemma singletons_uncovered:
  assumes "indexed_atoms all_atoms"
  shows "map (\<lambda>pos. all_atoms ! pos) (filter (\<lambda>pos. u ! pos) [0..<length all_atoms]) = uncovered_atoms all_atoms u"
proof -
  have "uncovered_atoms all_atoms u = filter (\<lambda>a. u ! ga_index a) (map ((!) all_atoms) [0..<length all_atoms])"
    by (simp add: uncovered_atoms_def map_nth)
  also have "\<dots> = map ((!) all_atoms) (filter (\<lambda>pos. u ! pos) [0..<length all_atoms])"
    unfolding filter_map using indexed_atomsD(4) [OF assms]
    by (intro arg_cong [where f = "map ((!) all_atoms)"] filter_cong) auto
  finally show ?thesis by simp
qed

section \<open>Properties\<close>

text \<open>
  C31. When the index of every atom is its position, the computation of mutex groups returns without an
  exception; its groups partition the atoms (every atom is in exactly one group), none is
  empty, and at most one atom of each group holds initially.
\<close>

theorem compute_mutex_groups_correct:
  assumes "indexed_atoms all_atoms"
  shows "\<exists>gs. compute_mutex_groups initial_atoms all_atoms invs = Inr (Some gs) \<and> mset (concat gs) = mset all_atoms \<and>
    (\<forall>g \<in> set gs. g \<noteq> [] \<and> initial_count initial_atoms g \<le> 1)"
proof -
  obtain groups where P: "precompute_groups initial_atoms all_atoms invs = Inr groups" "groups_ok initial_atoms all_atoms groups"
    using precompute_groups_ok [OF assms] by blast
  then have ok: "groups_ok initial_atoms all_atoms (sort_key group_key groups)" by (simp add: groups_ok_def)
  let ?st = "(replicate (length all_atoms) True, length all_atoms)"
  have "uncovered_atoms all_atoms (fst ?st) = all_atoms"
    using indexed_atomsD(1) [OF assms] by (auto simp: uncovered_atoms_def intro: filter_True)
  then obtain u res where G: "greedy_loop (sort_key group_key groups) ?st [] = Some (u, res)"
    "mset (concat res) + mset (uncovered_atoms all_atoms u) = mset all_atoms" "\<forall>g \<in> set res. g \<noteq> [] \<and> initial_count initial_atoms g \<le> 1"
    using greedy_loop_spec [OF assms ok, of ?st "[]"] by auto
  let ?singles = "map (\<lambda>pos. [all_atoms ! pos]) (filter (\<lambda>pos. u ! pos) [0..<length all_atoms])"
  have "concat ?singles = uncovered_atoms all_atoms u" using singletons_uncovered [OF assms, of u] by (simp add: concat_map_singleton)
  then have "mset (concat (res @ ?singles)) = mset all_atoms" using G(2) by (simp only: concat_append mset_append)
  moreover have "\<forall>g \<in> set ?singles. g \<noteq> [] \<and> initial_count initial_atoms g \<le> 1"
    by (auto simp: initial_count_def)
  moreover have "compute_mutex_groups initial_atoms all_atoms invs = Inr (Some (res @ ?singles))"
    using G(1) P(1) by (simp add: compute_mutex_groups_def choose_groups_greedily_def)
  moreover have "\<forall>g \<in> set (res @ ?singles). g \<noteq> [] \<and> initial_count initial_atoms g \<le> 1"
    using G(3) calculation(2) unfolding set_append ball_Un by blast
  ultimately show ?thesis by blast
qed

theorem compute_mutex_groups_correct_witness:
  "\<exists>gs. compute_mutex_groups [\<lparr>ga_index = 0, ga_predicate = 3, ga_objects = [0, 1]\<rparr>]
     [\<lparr>ga_index = 0, ga_predicate = 3, ga_objects = [0, 1]\<rparr>, \<lparr>ga_index = 1, ga_predicate = 3, ga_objects = [0, 2]\<rparr>]
     [invariant_make 1 1 [\<lparr>ma_predicate = 3, ma_terms = [Param 0, Param 1]\<rparr>]] = Inr (Some gs)"
  using compute_mutex_groups_correct [of "[\<lparr>ga_index = 0, ga_predicate = 3, ga_objects = [0, 1]\<rparr>, \<lparr>ga_index = 1, ga_predicate = 3, ga_objects = [0, 2]\<rparr>]"
     "[\<lparr>ga_index = 0, ga_predicate = 3, ga_objects = [0, 1]\<rparr>]" "[invariant_make 1 1 [\<lparr>ma_predicate = 3, ma_terms = [Param 0, Param 1]\<rparr>]]"]
  by (auto simp: indexed_atoms_def)

end
