(* ===== verification/Disjoint_Set.thy ===== *)
theory Disjoint_Set
  imports Prelude
begin

text \<open>
  The union-find structure \<open>DisjointSet\<close> of \<^verbatim>\<open>src/formalism/planning/invariants/constraints.cpp\<close>, with path
  compression and union by rank. \<open>find\<close> recurses along the parents and would not return on a cyclic
  parent vector, so it is a partial function whose value \<open>None\<close> means that it does not return; on
  the invariant (the rank grows along the parents) it returns.
\<close>

section \<open>Structure and operations\<close>

record disjoint_set =
  ds_parent :: "nat list"
  ds_rank :: "nat list"

definition ds_init :: "nat \<Rightarrow> disjoint_set" where
  "ds_init n = \<lparr>ds_parent = [0..<n], ds_rank = replicate n 0\<rparr>"

partial_function (option) ds_find :: "disjoint_set \<Rightarrow> nat \<Rightarrow> (nat \<times> disjoint_set) option" where
  "ds_find d x =
     (if ds_parent d ! x \<noteq> x then
        Option.bind (ds_find d (ds_parent d ! x))
          (\<lambda>(r, d'). Some (r, d'\<lparr>ds_parent := (ds_parent d')[x := r]\<rparr>))
      else Some (ds_parent d ! x, d))"

declare ds_find.simps [code]

definition ds_link :: "disjoint_set \<Rightarrow> nat \<Rightarrow> nat \<Rightarrow> disjoint_set" where
  "ds_link d a b =
     (if a = b then d
      else
        let (a, b) = (if ds_rank d ! a < ds_rank d ! b then (b, a) else (a, b));
            equal_rank = (ds_rank d ! a = ds_rank d ! b);
            d = d\<lparr>ds_parent := (ds_parent d)[b := a]\<rparr>
        in if equal_rank then d\<lparr>ds_rank := (ds_rank d)[a := Suc (ds_rank d ! a)]\<rparr> else d)"

definition ds_unite :: "disjoint_set \<Rightarrow> nat \<Rightarrow> nat \<Rightarrow> disjoint_set option" where
  "ds_unite d a b =
     (case ds_find d a of
        None \<Rightarrow> None
      | Some (a, d) \<Rightarrow> (case ds_find d b of None \<Rightarrow> None | Some (b, d) \<Rightarrow> Some (ds_link d a b)))"

section \<open>Invariant and representatives\<close>

definition ds_size :: "disjoint_set \<Rightarrow> nat" where
  "ds_size d = length (ds_parent d)"

definition ds_invar :: "disjoint_set \<Rightarrow> bool" where
  "ds_invar d \<longleftrightarrow> length (ds_rank d) = ds_size d \<and>
     (\<forall>x < ds_size d. ds_parent d ! x < ds_size d \<and>
        (ds_parent d ! x \<noteq> x \<longrightarrow> ds_rank d ! x < ds_rank d ! (ds_parent d ! x)))"

inductive ds_reaches :: "disjoint_set \<Rightarrow> nat \<Rightarrow> nat \<Rightarrow> bool" for d where
  root: "ds_parent d ! x = x \<Longrightarrow> ds_reaches d x x"
| up: "ds_parent d ! x \<noteq> x \<Longrightarrow> ds_reaches d (ds_parent d ! x) r \<Longrightarrow> ds_reaches d x r"

lemma ds_reaches_root: "ds_reaches d x r \<Longrightarrow> ds_parent d ! r = r"
  by (induction rule: ds_reaches.induct) auto

lemma ds_reaches_unique: "ds_reaches d x r \<Longrightarrow> ds_reaches d x s \<Longrightarrow> r = s"
proof (induction arbitrary: s rule: ds_reaches.induct)
  case (root x)
  from root(2,1) show ?case by (cases rule: ds_reaches.cases) auto
next
  case (up x r)
  from up(4,1,3) show ?case by (cases rule: ds_reaches.cases) auto
qed

lemma ds_rank_bound: "ds_invar d \<Longrightarrow> x < ds_size d \<Longrightarrow> ds_rank d ! x \<le> sum_list (ds_rank d)"
  by (intro member_le_sum_list) (auto simp: ds_invar_def)

lemma ds_reaches_rank:
  assumes "ds_reaches d x r" "ds_invar d" "x < ds_size d"
  shows "r < ds_size d \<and> ds_rank d ! x \<le> ds_rank d ! r \<and> (r \<noteq> x \<longrightarrow> ds_rank d ! x < ds_rank d ! r)"
  using assms by (induction rule: ds_reaches.induct) (fastforce simp: ds_invar_def)+

lemma ds_reaches_total:
  assumes "ds_invar d" "x < ds_size d"
  obtains r where "ds_reaches d x r"
proof -
  have "\<exists>r. ds_reaches d x r"
    using assms(2)
  proof (induction "sum_list (ds_rank d) - ds_rank d ! x" arbitrary: x rule: less_induct)
    case less
    let ?p = "ds_parent d ! x"
    show ?case
    proof (cases "?p = x")
      case False
      have p: "?p < ds_size d" "ds_rank d ! x < ds_rank d ! ?p" using assms(1) less.prems False by (auto simp: ds_invar_def)
      have "sum_list (ds_rank d) - ds_rank d ! ?p < sum_list (ds_rank d) - ds_rank d ! x"
        using p ds_rank_bound [OF assms(1) p(1)] by simp
      from less.hyps [OF this p(1)] False show ?thesis by (auto intro: ds_reaches.up)
    qed (auto intro: ds_reaches.root)
  qed
  with that show thesis by blast
qed

definition ds_root :: "disjoint_set \<Rightarrow> nat \<Rightarrow> nat" where
  "ds_root d x = (THE r. ds_reaches d x r)"

lemma ds_root_eq: "ds_reaches d x r \<Longrightarrow> ds_root d x = r"
  unfolding ds_root_def using ds_reaches_unique by blast

lemma ds_root_reaches: "ds_invar d \<Longrightarrow> x < ds_size d \<Longrightarrow> ds_reaches d x (ds_root d x)"
  using ds_reaches_total ds_root_eq by metis

lemma ds_root_less: "ds_invar d \<Longrightarrow> x < ds_size d \<Longrightarrow> ds_root d x < ds_size d"
  using ds_root_reaches ds_reaches_rank by blast

text \<open>Two structures of the same size with the same invariant, compared by their representatives.\<close>

lemma ds_rootsI:
  assumes "ds_invar d" "ds_invar d'" "ds_size d' = ds_size d"
    and "\<And>y r. y < ds_size d \<Longrightarrow> ds_reaches d y r \<Longrightarrow> ds_reaches d' y (f r)"
  shows "\<forall>y < ds_size d. ds_root d' y = f (ds_root d y)"
  using assms ds_root_reaches ds_root_eq by metis

section \<open>Correctness of the operations\<close>

lemma ds_compress:
  assumes "ds_invar d" and "x < ds_size d" and "ds_reaches d x r" and "r \<noteq> x"
  defines "d' \<equiv> d\<lparr>ds_parent := (ds_parent d)[x := r]\<rparr>"
  shows "ds_invar d'" and "ds_size d' = ds_size d" and "\<forall>y < ds_size d. ds_root d' y = ds_root d y"
proof -
  note r = ds_reaches_rank [OF assms(3,1,2)] ds_reaches_root [OF assms(3)]
  show inv: "ds_invar d'"
    using assms(1,2,4) r by (auto simp: ds_invar_def d'_def ds_size_def nth_list_update)
  show size: "ds_size d' = ds_size d" by (simp add: d'_def ds_size_def)
  have x': "ds_reaches d' x r"
  proof (rule ds_reaches.up)
    have "ds_parent d' ! x = r" using assms(2) by (simp add: d'_def ds_size_def)
    then show "ds_parent d' ! x \<noteq> x" using assms(4) by simp
    have "ds_parent d' ! r = r" using assms(4) r by (simp add: d'_def)
    then show "ds_reaches d' (ds_parent d' ! x) r" using \<open>ds_parent d' ! x = r\<close> by (simp add: ds_reaches.root)
  qed
  have "ds_reaches d' y s" if "ds_reaches d y s" for y s
    using that
  proof (induction rule: ds_reaches.induct)
    case (root y)
    then show ?case
    proof (cases "y = x")
      case True
      then have "ds_reaches d x x" using root by (auto intro: ds_reaches.root)
      then show ?thesis using ds_reaches_unique [OF assms(3)] assms(4) by blast
    qed (auto simp: d'_def intro: ds_reaches.root)
  next
    case (up y s)
    show ?case
    proof (cases "y = x")
      case True
      then have "s = r" using up(1,2) assms(3) ds_reaches_unique ds_reaches.up by metis
      with True x' show ?thesis by simp
    next
      case False
      then have "ds_parent d' ! y = ds_parent d ! y" by (simp add: d'_def)
      with up show ?thesis by (metis ds_reaches.up)
    qed
  qed
  then show "\<forall>y < ds_size d. ds_root d' y = ds_root d y"
    using ds_rootsI [OF assms(1) inv size, of id] by simp
qed

lemma ds_find_spec:
  assumes "ds_reaches d x r" and "ds_invar d" and "x < ds_size d"
  shows "\<exists>d'. ds_find d x = Some (r, d') \<and> ds_invar d' \<and> ds_size d' = ds_size d \<and>
    (\<forall>y < ds_size d. ds_root d' y = ds_root d y)"
  using assms
proof (induction rule: ds_reaches.induct)
  case (root x)
  then show ?case by (auto simp: ds_find.simps [of d x])
next
  case (up x r)
  have p: "ds_parent d ! x < ds_size d" using up.prems by (auto simp: ds_invar_def)
  from up.IH [OF up.prems(1) p] obtain d1 where d1: "ds_find d (ds_parent d ! x) = Some (r, d1)" "ds_invar d1"
    "ds_size d1 = ds_size d" "\<forall>y < ds_size d. ds_root d1 y = ds_root d y" by blast
  have xr: "ds_reaches d x r" using up by (auto intro: ds_reaches.up)
  have "r \<noteq> x" using ds_reaches_root [OF xr] up(1) by auto
  moreover have "ds_reaches d1 x r"
    using ds_root_reaches [OF d1(2), of x] d1 up.prems(2) ds_root_eq [OF xr] by simp
  ultimately have "ds_invar (d1\<lparr>ds_parent := (ds_parent d1)[x := r]\<rparr>)"
    "ds_size (d1\<lparr>ds_parent := (ds_parent d1)[x := r]\<rparr>) = ds_size d"
    "\<forall>y < ds_size d. ds_root (d1\<lparr>ds_parent := (ds_parent d1)[x := r]\<rparr>) y = ds_root d y"
    using ds_compress [OF d1(2), of x r] d1 up.prems(2) by auto
  with up(1) d1(1) show ?case by (auto simp: ds_find.simps [of d x])
qed

lemma ds_find_root:
  assumes "ds_invar d" and "x < ds_size d"
  obtains d' where "ds_find d x = Some (ds_root d x, d')" "ds_invar d'" "ds_size d' = ds_size d"
    "\<forall>y < ds_size d. ds_root d' y = ds_root d y"
  using ds_find_spec [OF ds_root_reaches [OF assms] assms] that by blast

lemma ds_link_parent_rank:
  assumes "ds_invar d" and "a < ds_size d" "b < ds_size d" and "a \<noteq> b"
  obtains hi lo where "{hi, lo} = {a, b}" "hi \<noteq> lo" "ds_parent (ds_link d a b) = (ds_parent d)[lo := hi]"
    "\<And>x. x < ds_size d \<Longrightarrow> ds_rank (ds_link d a b) ! x \<ge> ds_rank d ! x"
    "\<And>x. x \<noteq> hi \<Longrightarrow> ds_rank (ds_link d a b) ! x = ds_rank d ! x"
    "ds_rank (ds_link d a b) ! lo < ds_rank (ds_link d a b) ! hi"
    "length (ds_rank (ds_link d a b)) = length (ds_rank d)"
proof (cases "ds_rank d ! a < ds_rank d ! b")
  case True
  with assms show thesis by (intro that [of b a]) (auto simp: ds_link_def Let_def)
next
  case False
  with assms show thesis
    by (intro that [of a b]) (auto simp: ds_link_def Let_def nth_list_update ds_invar_def)
qed

lemma ds_link_spec:
  assumes inv: "ds_invar d" and ab: "a < ds_size d" "b < ds_size d" and roots: "ds_parent d ! a = a" "ds_parent d ! b = b"
  obtains hi where "hi = a \<or> hi = b" "ds_invar (ds_link d a b)" "ds_size (ds_link d a b) = ds_size d"
    "\<forall>y < ds_size d. ds_root (ds_link d a b) y = (if ds_root d y = a \<or> ds_root d y = b then hi else ds_root d y)"
proof (cases "a = b")
  case True
  then have "ds_link d a b = d" by (simp add: ds_link_def)
  with True inv show thesis by (intro that [of a]) auto
next
  case False
  from ds_link_parent_rank [OF inv ab False] obtain hi lo where
    L: "{hi, lo} = {a, b}" "hi \<noteq> lo" "ds_parent (ds_link d a b) = (ds_parent d)[lo := hi]"
    "\<And>x. x < ds_size d \<Longrightarrow> ds_rank (ds_link d a b) ! x \<ge> ds_rank d ! x"
    "\<And>x. x \<noteq> hi \<Longrightarrow> ds_rank (ds_link d a b) ! x = ds_rank d ! x"
    "ds_rank (ds_link d a b) ! lo < ds_rank (ds_link d a b) ! hi"
    "length (ds_rank (ds_link d a b)) = length (ds_rank d)" by blast
  let ?d = "ds_link d a b"
  have hl: "hi < ds_size d" "lo < ds_size d" "ds_parent d ! hi = hi" "ds_parent d ! lo = lo"
    using L(1) ab roots by (auto simp: doubleton_eq_iff)
  have size: "ds_size ?d = ds_size d" using L(3) by (simp add: ds_size_def)
  have par: "ds_parent ?d ! x = (if x = lo then hi else ds_parent d ! x)" if "x < ds_size d" for x
    using that L(3) by (simp add: ds_size_def nth_list_update)
  have inv': "ds_invar ?d"
    unfolding ds_invar_def size
  proof (intro conjI allI impI)
    fix x assume x: "x < ds_size d"
    show "ds_parent ?d ! x < ds_size d" using par [OF x] hl inv x by (auto simp: ds_invar_def)
    assume "ds_parent ?d ! x \<noteq> x"
    show "ds_rank ?d ! x < ds_rank ?d ! (ds_parent ?d ! x)"
    proof (cases "x = lo")
      case True
      then show ?thesis using L(6) par [OF x] by simp
    next
      case no: False
      then have p: "ds_parent ?d ! x = ds_parent d ! x" "ds_parent d ! x \<noteq> x" "ds_parent d ! x < ds_size d"
        using par [OF x] \<open>ds_parent ?d ! x \<noteq> x\<close> inv x by (auto simp: ds_invar_def)
      then have "x \<noteq> hi" using hl by auto
      then have "ds_rank ?d ! x = ds_rank d ! x" by (rule L(5))
      also have "\<dots> < ds_rank d ! (ds_parent d ! x)" using inv x p by (auto simp: ds_invar_def)
      also have "\<dots> \<le> ds_rank ?d ! (ds_parent d ! x)" using L(4) p(3) by blast
      finally show ?thesis using p(1) by simp
    qed
  qed (use L(7) inv in \<open>simp add: ds_invar_def\<close>)
  have hi: "ds_reaches ?d hi hi" using par [OF hl(1)] L(2) hl(3) by (auto intro: ds_reaches.root)
  then have lo: "ds_reaches ?d lo hi" using par [OF hl(2)] L(2) by (auto intro: ds_reaches.up)
  have "ds_reaches ?d y (if r = a \<or> r = b then hi else r)" if "ds_reaches d y r" "y < ds_size d" for y r
    using that
  proof (induction rule: ds_reaches.induct)
    case (root y)
    consider "y = hi" | "y = lo" | "y \<noteq> a" "y \<noteq> b" "y \<noteq> lo" using L(1) by (auto simp: doubleton_eq_iff)
    then show ?case
    proof cases
      case 3
      then show ?thesis using par [OF root(2)] root(1) by (auto intro: ds_reaches.root)
    qed (use hi lo L(1) in \<open>auto simp: doubleton_eq_iff\<close>)
  next
    case (up y r)
    then have "y \<noteq> lo" using hl by auto
    then have p: "ds_parent ?d ! y = ds_parent d ! y" using par up.prems by simp
    have "ds_parent d ! y < ds_size d" using inv up.prems by (auto simp: ds_invar_def)
    with up p show ?case by (metis ds_reaches.up)
  qed
  then have "\<forall>y < ds_size d. ds_root ?d y = (if ds_root d y = a \<or> ds_root d y = b then hi else ds_root d y)"
    using ds_rootsI [OF inv inv' size, of "\<lambda>r. if r = a \<or> r = b then hi else r"] by blast
  with inv' size L(1) show thesis by (intro that [of hi]) (auto simp: doubleton_eq_iff)
qed

lemma ds_unite_spec:
  assumes inv: "ds_invar d" and ab: "a < ds_size d" "b < ds_size d"
  obtains d' hi where "ds_unite d a b = Some d'" "ds_invar d'" "ds_size d' = ds_size d"
    "hi = ds_root d a \<or> hi = ds_root d b"
    "\<forall>y < ds_size d. ds_root d' y = (if ds_root d y = ds_root d a \<or> ds_root d y = ds_root d b then hi else ds_root d y)"
proof -
  obtain d1 where d1: "ds_find d a = Some (ds_root d a, d1)" "ds_invar d1" "ds_size d1 = ds_size d"
    "\<forall>y < ds_size d. ds_root d1 y = ds_root d y"
    using ds_find_root [OF inv ab(1)] .
  have b1: "b < ds_size d1" using ab(2) d1(3) by simp
  obtain d2 where d2: "ds_find d1 b = Some (ds_root d1 b, d2)" "ds_invar d2" "ds_size d2 = ds_size d1"
    "\<forall>y < ds_size d1. ds_root d2 y = ds_root d1 y"
    using ds_find_root [OF d1(2) b1] .
  have same: "ds_root d2 y = ds_root d y" if "y < ds_size d" for y using that d1 d2 by simp
  have sz: "ds_size d2 = ds_size d" using d1 d2 by simp
  have roots: "ds_parent d2 ! ds_root d a = ds_root d a" "ds_parent d2 ! ds_root d b = ds_root d b"
    using ds_reaches_root ds_root_reaches [OF d2(2)] same ab sz by metis+
  have lt: "ds_root d a < ds_size d2" "ds_root d b < ds_size d2" using ds_root_less [OF inv] ab sz by auto
  obtain hi where hi: "hi = ds_root d a \<or> hi = ds_root d b" "ds_invar (ds_link d2 (ds_root d a) (ds_root d b))"
    "ds_size (ds_link d2 (ds_root d a) (ds_root d b)) = ds_size d2"
    "\<forall>y < ds_size d2. ds_root (ds_link d2 (ds_root d a) (ds_root d b)) y =
       (if ds_root d2 y = ds_root d a \<or> ds_root d2 y = ds_root d b then hi else ds_root d2 y)"
    using ds_link_spec [OF d2(2) lt roots] .
  have "ds_root d1 b = ds_root d b" using d1 ab by simp
  then have "ds_unite d a b = Some (ds_link d2 (ds_root d a) (ds_root d b))"
    using d1(1) d2(1) by (simp add: ds_unite_def)
  then show thesis using hi sz same by (intro that [of "ds_link d2 (ds_root d a) (ds_root d b)" hi]) auto
qed

lemma ds_init_spec: "ds_invar (ds_init n)" "ds_size (ds_init n) = n" "y < n \<Longrightarrow> ds_root (ds_init n) y = y"
proof -
  show "ds_invar (ds_init n)" "ds_size (ds_init n) = n" by (auto simp: ds_invar_def ds_size_def ds_init_def)
  show "y < n \<Longrightarrow> ds_root (ds_init n) y = y"
    by (intro ds_root_eq ds_reaches.root) (simp add: ds_init_def)
qed

end
