(* ===== verification/Constraints.thy ===== *)
theory Constraints
  imports Disjoint_Set Invariants
begin

text \<open>
  \<^verbatim>\<open>src/formalism/planning/invariants/constraints.hpp\<close> and \<^verbatim>\<open>constraints.cpp\<close>: systems of equalities and
  inequalities between invariant parameters, action variables and objects, and the test for
  solvability that the balance check of an invariant relies on. The lazily computed members of
  \<open>EqualityConjunction\<close> are functions of the equalities here. A result \<open>None\<close> means that the
  code does not return or leaves the bounds of a vector (an empty disjunction of equalities).
\<close>

section \<open>Terms and constraints\<close>

datatype constraint_term = InvariantParameter nat | VariableTerm nat | ObjectTerm nat

fun is_object_term :: "constraint_term \<Rightarrow> bool" where
  "is_object_term (ObjectTerm o') = True"
| "is_object_term _ = False"

type_synonym equalities = "(constraint_term \<times> constraint_term) list"

text \<open>\<open>get_id\<close> of \<open>compute\<close>: the terms in the order of their first occurrence; the id is the position.\<close>

definition add_term :: "constraint_term list \<Rightarrow> constraint_term \<Rightarrow> constraint_term list" where
  "add_term terms t = (if t \<in> set terms then terms else terms @ [t])"

definition collect_terms :: "equalities \<Rightarrow> constraint_term list" where
  "collect_terms eqs = foldl (\<lambda>terms (a, b). add_term (add_term terms a) b) [] eqs"

definition term_id :: "constraint_term list \<Rightarrow> constraint_term \<Rightarrow> nat" where
  "term_id terms t = length (takeWhile (\<lambda>u. u \<noteq> t) terms)"

fun unite_all :: "constraint_term list \<Rightarrow> equalities \<Rightarrow> disjoint_set \<Rightarrow> disjoint_set option" where
  "unite_all terms [] dsu = Some dsu"
| "unite_all terms ((a, b) # eqs) dsu =
     (case ds_unite dsu (term_id terms a) (term_id terms b) of
        None \<Rightarrow> None | Some dsu \<Rightarrow> unite_all terms eqs dsu)"

text \<open>\<open>classes[dsu.find(i)]\<close> for every id; \<open>find\<close> compresses paths on the way.\<close>

fun find_all :: "nat list \<Rightarrow> disjoint_set \<Rightarrow> nat list option" where
  "find_all [] dsu = Some []"
| "find_all (i # is) dsu =
     (case ds_find dsu i of
        None \<Rightarrow> None
      | Some (r, dsu) \<Rightarrow> (case find_all is dsu of None \<Rightarrow> None | Some rs \<Rightarrow> Some (r # rs)))"

text \<open>The classes in the order of their keys.\<close>

definition equality_classes :: "constraint_term list \<Rightarrow> nat list \<Rightarrow> constraint_term list list" where
  "equality_classes terms roots =
     map (\<lambda>r. map fst (filter (\<lambda>(t, r'). r' = r) (zip terms roots))) (sort (remdups roots))"

definition class_representative :: "constraint_term list \<Rightarrow> constraint_term option" where
  "class_representative eq_class =
     (case List.find is_object_term eq_class of
        Some t \<Rightarrow> Some t
      | None \<Rightarrow> List.find (\<lambda>t. \<not> is_object_term t) eq_class)"

fun fill_representatives ::
  "constraint_term list list \<Rightarrow> (constraint_term \<Rightarrow> constraint_term option) \<Rightarrow> bool \<times> (constraint_term \<Rightarrow> constraint_term option)" where
  "fill_representatives [] rep = (True, rep)"
| "fill_representatives (c # cs) rep =
     (let num_objects = length (filter is_object_term c) in
      if num_objects \<ge> 2 then (False, Map.empty)
      else fill_representatives cs (\<lambda>t. if rep t \<noteq> None then rep t else if t \<in> set c then class_representative c else None))"

definition equality_compute :: "equalities \<Rightarrow> (bool \<times> (constraint_term \<Rightarrow> constraint_term option)) option" where
  "equality_compute eqs =
     (let terms = collect_terms eqs in
      case unite_all terms eqs (ds_init (length terms)) of
        None \<Rightarrow> None
      | Some dsu \<Rightarrow>
          (case find_all [0..<length terms] dsu of
             None \<Rightarrow> None
           | Some roots \<Rightarrow> Some (fill_representatives (equality_classes terms roots) Map.empty)))"

section \<open>Constraint systems\<close>

record constraint_system =
  cs_equality_DNFs :: "equalities list list"
  cs_inequality_disjunctions :: "equalities list"
  cs_not_constant :: "constraint_term list"

definition cs_empty :: constraint_system where
  "cs_empty = \<lparr>cs_equality_DNFs = [], cs_inequality_disjunctions = [], cs_not_constant = []\<rparr>"

definition add_equality_DNF :: "constraint_system \<Rightarrow> equalities list \<Rightarrow> constraint_system" where
  "add_equality_DNF sys dnf = sys\<lparr>cs_equality_DNFs := cs_equality_DNFs sys @ [dnf]\<rparr>"

definition add_equality_conjunction :: "constraint_system \<Rightarrow> equalities \<Rightarrow> constraint_system" where
  "add_equality_conjunction sys eq = add_equality_DNF sys [eq]"

definition add_inequality_disjunction :: "constraint_system \<Rightarrow> equalities \<Rightarrow> constraint_system" where
  "add_inequality_disjunction sys dj =
     sys\<lparr>cs_inequality_disjunctions := cs_inequality_disjunctions sys @ [dj]\<rparr>"

definition add_not_constant :: "constraint_system \<Rightarrow> constraint_term \<Rightarrow> constraint_system" where
  "add_not_constant sys t = sys\<lparr>cs_not_constant := cs_not_constant sys @ [t]\<rparr>"

definition cs_extend :: "constraint_system \<Rightarrow> constraint_system \<Rightarrow> constraint_system" where
  "cs_extend sys other =
     \<lparr>cs_equality_DNFs = cs_equality_DNFs sys @ cs_equality_DNFs other,
      cs_inequality_disjunctions = cs_inequality_disjunctions sys @ cs_inequality_disjunctions other,
      cs_not_constant = cs_not_constant sys @ cs_not_constant other\<rparr>"

definition combine_equality_conjunctions :: "equalities list \<Rightarrow> equalities" where
  "combine_equality_conjunctions conjunctions = concat conjunctions"

definition rep_or_self :: "(constraint_term \<Rightarrow> constraint_term option) \<Rightarrow> constraint_term \<Rightarrow> constraint_term" where
  "rep_or_self rep t = (case rep t of None \<Rightarrow> t | Some r \<Rightarrow> r)"

definition inequality_disjunction_ok ::
  "equalities \<Rightarrow> (constraint_term \<Rightarrow> constraint_term option) \<Rightarrow> bool" where
  "inequality_disjunction_ok dj rep = list_ex (\<lambda>(a, b). rep_or_self rep a \<noteq> rep_or_self rep b) dj"

text \<open>The test of one choice of conjunctions.\<close>

definition choice_ok :: "constraint_system \<Rightarrow> equalities \<Rightarrow> bool option" where
  "choice_ok sys combined =
     (case equality_compute combined of
        None \<Rightarrow> None
      | Some (consistent, rep) \<Rightarrow>
          Some (consistent \<and>
                list_all (\<lambda>t. \<not> is_object_term (rep_or_self rep t)) (cs_not_constant sys) \<and>
                list_all (\<lambda>dj. inequality_disjunction_ok dj rep) (cs_inequality_disjunctions sys)))"

text \<open>The inner loop that advances the indices, \<open>None\<close> when all positions overflow.\<close>

fun next_indices :: "nat list \<Rightarrow> nat list \<Rightarrow> nat list option" where
  "next_indices (n # ns) (i # is) =
     (if Suc i < n then Some (Suc i # is)
      else (case next_indices ns is of None \<Rightarrow> None | Some is' \<Rightarrow> Some (0 # is')))"
| "next_indices ns is = None"

text \<open>\<open>equality_DNFs[i][indices[i]]\<close>, undefined beyond the end of a disjunction.\<close>

fun choose_conjunctions :: "'a list list \<Rightarrow> nat list \<Rightarrow> 'a list option" where
  "choose_conjunctions (dnf # dnfs) (i # is) =
     (if i < length dnf then (case choose_conjunctions dnfs is of None \<Rightarrow> None | Some cs \<Rightarrow> Some (dnf ! i # cs)) else None)"
| "choose_conjunctions dnfs is = Some []"

partial_function (option) solve_loop :: "constraint_system \<Rightarrow> nat list \<Rightarrow> bool option" where
  "solve_loop sys indices =
     Option.bind (choose_conjunctions (cs_equality_DNFs sys) indices) (\<lambda>chosen.
       Option.bind (choice_ok sys (combine_equality_conjunctions chosen)) (\<lambda>ok.
         if ok then Some True
         else (case next_indices (map length (cs_equality_DNFs sys)) indices of
                 None \<Rightarrow> Some False
               | Some indices' \<Rightarrow> solve_loop sys indices')))"

declare solve_loop.simps [code]

definition is_solvable :: "constraint_system \<Rightarrow> bool option" where
  "is_solvable sys =
     (if cs_equality_DNFs sys = [] then choice_ok sys []
      else solve_loop sys (replicate (length (cs_equality_DNFs sys)) 0))"

section \<open>Building constraints from atoms\<close>

fun make_constraint_term :: "tterm \<Rightarrow> constraint_term" where
  "make_constraint_term (Param p) = VariableTerm p"
| "make_constraint_term (Obj o') = ObjectTerm o'"

definition make_cover_equality_conjunction :: "mutable_atom \<Rightarrow> mutable_atom \<Rightarrow> invariant \<Rightarrow> equalities" where
  "make_cover_equality_conjunction pattern a iv =
     concat (map (\<lambda>pos.
       case ma_terms pattern ! pos of
         Param x \<Rightarrow> if x < inv_num_rigid_variables iv
                    then [(InvariantParameter x, make_constraint_term (ma_terms a ! pos))] else []
       | Obj o' \<Rightarrow> []) [0..<length (ma_terms pattern)])"

definition ensure_cover :: "constraint_system \<Rightarrow> mutable_atom \<Rightarrow> mutable_atom \<Rightarrow> invariant \<Rightarrow> constraint_system" where
  "ensure_cover sys pattern a iv =
     add_equality_conjunction sys (make_cover_equality_conjunction pattern a iv)"

definition term_pairs :: "mutable_atom \<Rightarrow> mutable_atom \<Rightarrow> equalities" where
  "term_pairs lhs rhs =
     map (\<lambda>i. (make_constraint_term (ma_terms lhs ! i), make_constraint_term (ma_terms rhs ! i))) [0..<length (ma_terms lhs)]"

definition ensure_inequality :: "constraint_system \<Rightarrow> mutable_atom \<Rightarrow> mutable_atom \<Rightarrow> constraint_system" where
  "ensure_inequality sys lhs rhs =
     (if ma_predicate lhs \<noteq> ma_predicate rhs \<or> ma_terms lhs = [] then sys
      else add_inequality_disjunction sys (term_pairs lhs rhs))"

text \<open>The first loop of \<open>ensure_conjunction_sat\<close> handles the literals of the predicate \<open>=\<close>.\<close>

definition ensure_equality_literal :: "constraint_system \<Rightarrow> mutable_literal \<Rightarrow> constraint_system" where
  "ensure_equality_literal sys lit =
     (let ts = ma_terms (ml_atom lit);
          parts = (if length ts = 2 then [(make_constraint_term (ts ! 0), make_constraint_term (ts ! 1))] else [])
      in if ml_polarity lit then add_equality_DNF sys [parts] else add_inequality_disjunction sys parts)"

definition ensure_conjunction_sat ::
  "(nat \<Rightarrow> string) \<Rightarrow> constraint_system \<Rightarrow> mutable_literal list \<Rightarrow> constraint_system" where
  "ensure_conjunction_sat name_of sys lits =
     (let is_eq = (\<lambda>l. name_of (ma_predicate (ml_atom l)) = ''='');
          sys = foldl ensure_equality_literal sys (filter is_eq lits);
          pos = filter (\<lambda>l. \<not> is_eq l \<and> ml_polarity l) lits;
          neg = filter (\<lambda>l. \<not> is_eq l \<and> \<not> ml_polarity l) lits;
          preds = sort (remdups (map (\<lambda>l. ma_predicate (ml_atom l)) pos));
          with_pred = (\<lambda>p ls. filter (\<lambda>l. ma_predicate (ml_atom l) = p) ls)
      in foldl (\<lambda>sys (posatom, negatom).
             let parts = map (\<lambda>i. (make_constraint_term (ma_terms (ml_atom negatom) ! i),
                                   make_constraint_term (ma_terms (ml_atom posatom) ! i)))
                           [0..<length (ma_terms (ml_atom posatom))]
             in if parts \<noteq> [] then add_inequality_disjunction sys parts else sys)
           sys
           (concat (map (\<lambda>p. concat (map (\<lambda>posatom. map (\<lambda>negatom. (posatom, negatom)) (with_pred p neg)) (with_pred p pos))) preds)))"

section \<open>The enumeration of the choices\<close>

definition valid_indices :: "nat list \<Rightarrow> nat list \<Rightarrow> bool" where
  "valid_indices ns is = list_all2 (\<lambda>n i. i < n) ns is"

fun index_code :: "nat list \<Rightarrow> nat list \<Rightarrow> nat" where
  "index_code (n # ns) (i # is) = i + n * index_code ns is"
| "index_code ns is = 0"

lemma valid_indices_Cons [simp]:
  "valid_indices (n # ns) is \<longleftrightarrow> (\<exists>i is'. is = i # is' \<and> i < n \<and> valid_indices ns is')"
  "valid_indices [] is \<longleftrightarrow> is = []"
  "valid_indices ns [] \<longleftrightarrow> ns = []"
  by (auto simp: valid_indices_def list_all2_Cons1)

lemma mult_add_less: "(i::nat) < n \<Longrightarrow> e < p \<Longrightarrow> i + n * e < n * p"
proof -
  assume "i < n" "e < p"
  then have "i + n * e < n * Suc e" by simp
  also have "\<dots> \<le> n * p" using \<open>e < p\<close> by (intro mult_le_mono2) simp
  finally show ?thesis .
qed

lemma index_code_less: "valid_indices ns is \<Longrightarrow> index_code ns is < prod_list ns"
  by (induction ns "is" rule: index_code.induct) (auto intro: mult_add_less)

lemma index_code_inj: "valid_indices ns is \<Longrightarrow> valid_indices ns js \<Longrightarrow> index_code ns is = index_code ns js \<Longrightarrow> is = js"
proof (induction ns "is" arbitrary: js rule: index_code.induct)
  case (1 n ns i "is")
  then obtain j js' where js: "js = j # js'" "j < n" "valid_indices ns js'" by auto
  have eq: "i + n * index_code ns is = j + n * index_code ns js'" and i: "i < n" using 1 js by auto
  then have "i = j" using js(2) by (metis mod_less mod_mult_self2)
  with eq i have "index_code ns is = index_code ns js'" by simp
  with 1 js \<open>i = j\<close> show ?case by auto
qed auto

lemma next_indices_Some:
  "valid_indices ns is \<Longrightarrow> next_indices ns is = Some js \<Longrightarrow>
   valid_indices ns js \<and> index_code ns js = Suc (index_code ns is)"
proof (induction ns "is" arbitrary: js rule: next_indices.induct)
  case (1 n ns i "is")
  show ?case
  proof (cases "Suc i < n")
    case False
    then obtain js' where js: "next_indices ns is = Some js'" "js = 0 # js'" using 1(3) by (auto split: option.splits)
    have "valid_indices ns js' \<and> index_code ns js' = Suc (index_code ns is)" using 1(1,2) js False by auto
    moreover have "n = Suc i" using 1(2) False by auto
    ultimately show ?thesis using js by auto
  qed (use 1 in auto)
qed auto

lemma next_indices_None: "valid_indices ns is \<Longrightarrow> next_indices ns is = None \<Longrightarrow> Suc (index_code ns is) = prod_list ns"
proof (induction ns "is" rule: next_indices.induct)
  case (1 n ns i "is")
  then have n: "n = Suc i" and N: "next_indices ns is = None" by (auto split: if_splits option.splits)
  have "Suc (index_code ns is) = prod_list ns" using 1 n N by auto
  then have "n * Suc (index_code ns is) = n * prod_list ns" by simp
  then show ?case using n by simp
qed auto

lemma valid_indices_zero: "0 \<notin> set ns \<Longrightarrow> valid_indices ns (replicate (length ns) 0)"
  by (induction ns) auto

lemma index_code_zero: "index_code ns (replicate (length ns) 0) = 0"
  by (induction ns) auto

lemma choose_conjunctions_valid:
  "valid_indices (map length dnfs) is \<Longrightarrow> choose_conjunctions dnfs is = Some (map2 (\<lambda>dnf i. dnf ! i) dnfs is)"
  by (induction dnfs "is" rule: choose_conjunctions.induct) auto

text \<open>The loop tries every choice: when each test returns, it returns whether one choice passes.\<close>

lemma solve_loop_enumerates:
  assumes ok: "\<And>eqs. choice_ok sys eqs = Some (good eqs)"
    and "valid_indices (map length (cs_equality_DNFs sys)) is"
  shows "solve_loop sys is = Some (\<exists>js. valid_indices (map length (cs_equality_DNFs sys)) js \<and>
    index_code (map length (cs_equality_DNFs sys)) is \<le> index_code (map length (cs_equality_DNFs sys)) js \<and>
    good (concat (map2 (\<lambda>dnf i. dnf ! i) (cs_equality_DNFs sys) js)))"
  (is "_ = Some (\<exists>js. ?valid js \<and> ?code is \<le> ?code js \<and> ?good js)")
  using assms(2)
proof (induction "prod_list (map length (cs_equality_DNFs sys)) - ?code is" arbitrary: "is" rule: less_induct)
  case less
  let ?ns = "map length (cs_equality_DNFs sys)"
  note step = solve_loop.simps [of sys "is"] choose_conjunctions_valid [OF less.prems] ok
  show ?case
  proof (cases "?good is")
    case True
    then show ?thesis using less.prems by (auto simp: step combine_equality_conjunctions_def)
  next
    case bad: False
    show ?thesis
    proof (cases "next_indices ?ns is")
      case None
      have "js = is" if "?valid js" "?code is \<le> ?code js" for js
        using next_indices_None [OF less.prems None] index_code_less [OF that(1)] that index_code_inj [OF less.prems that(1)] by auto
      then have "\<not> (\<exists>js. ?valid js \<and> ?code is \<le> ?code js \<and> ?good js)" using bad by blast
      then show ?thesis using bad None by (simp add: step combine_equality_conjunctions_def)
    next
      case (Some is')
      note nx = next_indices_Some [OF less.prems Some]
      then have "solve_loop sys is' = Some (\<exists>js. ?valid js \<and> ?code is' \<le> ?code js \<and> ?good js)"
        using index_code_less [OF less.prems] by (intro less.hyps) auto
      moreover have "(\<exists>js. ?valid js \<and> ?code is' \<le> ?code js \<and> ?good js) = (\<exists>js. ?valid js \<and> ?code is \<le> ?code js \<and> ?good js)"
        using nx bad index_code_inj [OF less.prems] by (metis Suc_leD le_antisym not_less_eq_eq)
      ultimately show ?thesis using bad Some by (simp add: step combine_equality_conjunctions_def)
    qed
  qed
qed

section \<open>Equivalence classes of equalities\<close>

definition respects_equalities :: "equalities \<Rightarrow> (constraint_term \<Rightarrow> constraint_term) \<Rightarrow> bool" where
  "respects_equalities eqs v = list_all (\<lambda>(a, b). v a = v b) eqs"

definition fixes_objects :: "(constraint_term \<Rightarrow> constraint_term) \<Rightarrow> bool" where
  "fixes_objects v \<longleftrightarrow> (\<forall>t. is_object_term t \<longrightarrow> v t = t)"

lemma set_add_term [simp]: "set (add_term terms t) = insert t (set terms)"
  by (auto simp: add_term_def)

lemma distinct_add_term [simp]: "distinct (add_term terms t) = distinct terms"
  by (auto simp: add_term_def)

lemma collect_terms_spec:
  shows "distinct (collect_terms eqs)" and "set (collect_terms eqs) = fst ` set eqs \<union> snd ` set eqs"
proof -
  have "distinct (foldl (\<lambda>ts (a, b). add_term (add_term ts a) b) acc eqs) = distinct acc \<and>
    set (foldl (\<lambda>ts (a, b). add_term (add_term ts a) b) acc eqs) = set acc \<union> fst ` set eqs \<union> snd ` set eqs" for acc
    by (induction eqs arbitrary: acc) auto
  from this [of "[]"] show "distinct (collect_terms eqs)" and "set (collect_terms eqs) = fst ` set eqs \<union> snd ` set eqs"
    by (auto simp: collect_terms_def)
qed

lemma term_id_nth: "t \<in> set terms \<Longrightarrow> term_id terms t < length terms \<and> terms ! term_id terms t = t"
  by (induction terms) (auto simp: term_id_def)

lemma nth_term_id: "distinct terms \<Longrightarrow> i < length terms \<Longrightarrow> term_id terms (terms ! i) = i"
  using term_id_nth [of "terms ! i" terms] nth_eq_iff_index_eq by (metis nth_mem)

text \<open>Uniting keeps merged what is merged, merges every equality, and merges nothing that a valuation tells apart.\<close>

definition coarser :: "disjoint_set \<Rightarrow> disjoint_set \<Rightarrow> bool" where
  "coarser d d' \<longleftrightarrow> (\<forall>x < ds_size d. \<forall>y < ds_size d. ds_root d x = ds_root d y \<longrightarrow> ds_root d' x = ds_root d' y)"

definition constant_on_classes :: "constraint_term list \<Rightarrow> disjoint_set \<Rightarrow> (constraint_term \<Rightarrow> constraint_term) \<Rightarrow> bool" where
  "constant_on_classes terms d v \<longleftrightarrow>
     (\<forall>x < ds_size d. \<forall>y < ds_size d. ds_root d x = ds_root d y \<longrightarrow> v (terms ! x) = v (terms ! y))"

definition unites :: "constraint_term list \<Rightarrow> equalities \<Rightarrow> disjoint_set \<Rightarrow> disjoint_set \<Rightarrow> bool" where
  "unites terms eqs d d' \<longleftrightarrow> ds_invar d' \<and> ds_size d' = ds_size d \<and> coarser d d' \<and>
     (\<forall>(a, b) \<in> set eqs. ds_root d' (term_id terms a) = ds_root d' (term_id terms b)) \<and>
     (\<forall>v. respects_equalities eqs v \<longrightarrow> constant_on_classes terms d v \<longrightarrow> constant_on_classes terms d' v)"

lemma unite_step:
  assumes "ds_invar d" "ds_size d = length terms" "a \<in> set terms" "b \<in> set terms"
  obtains d' where "ds_unite d (term_id terms a) (term_id terms b) = Some d'" "unites terms [(a, b)] d d'"
proof -
  let ?a = "term_id terms a" and ?b = "term_id terms b"
  have ab: "?a < ds_size d" "?b < ds_size d" "terms ! ?a = a" "terms ! ?b = b"
    using assms term_id_nth [of a terms] term_id_nth [of b terms] by auto
  obtain d1 hi where d1: "ds_unite d ?a ?b = Some d1" "ds_invar d1" "ds_size d1 = ds_size d"
    "hi = ds_root d ?a \<or> hi = ds_root d ?b"
    "\<forall>y < ds_size d. ds_root d1 y = (if ds_root d y = ds_root d ?a \<or> ds_root d y = ds_root d ?b then hi else ds_root d y)"
    using ds_unite_spec [OF assms(1) ab(1,2)] .
  have R: "ds_root d1 y = (if ds_root d y = ds_root d ?a \<or> ds_root d y = ds_root d ?b then hi else ds_root d y)"
    if "y < ds_size d" for y using d1(5) that by blast
  have "coarser d d1"
    unfolding coarser_def
  proof (intro allI impI)
    fix x y assume "x < ds_size d" "y < ds_size d" "ds_root d x = ds_root d y"
    then show "ds_root d1 x = ds_root d1 y" using R [of x] R [of y] by simp
  qed
  moreover have "ds_root d1 ?a = ds_root d1 ?b" using R [OF ab(1)] R [OF ab(2)] by simp
  moreover have "constant_on_classes terms d1 v" if v: "v a = v b" and c: "constant_on_classes terms d v" for v
  proof -
    have c': "v (terms ! x) = v (terms ! y)" if "x < ds_size d" "y < ds_size d" "ds_root d x = ds_root d y" for x y
      using c that unfolding constant_on_classes_def by blast
    have cls: "v (terms ! x) = v a" if "x < ds_size d" "ds_root d x = ds_root d ?a \<or> ds_root d x = ds_root d ?b" for x
      using that(2) c' [OF that(1) ab(1)] c' [OF that(1) ab(2)] ab(3,4) v by auto
    have "v (terms ! x) = v (terms ! y)" if "x < ds_size d" "y < ds_size d" "ds_root d1 x = ds_root d1 y" for x y
    proof (cases "ds_root d x = ds_root d y")
      case True
      with c' that show ?thesis by blast
    next
      case False
      have "ds_root d1 x = (if ds_root d x = ds_root d ?a \<or> ds_root d x = ds_root d ?b then hi else ds_root d x)"
        "ds_root d1 y = (if ds_root d y = ds_root d ?a \<or> ds_root d y = ds_root d ?b then hi else ds_root d y)"
        by (rule R [OF that(1)], rule R [OF that(2)])
      with False that(3) d1(4) have "ds_root d x = ds_root d ?a \<or> ds_root d x = ds_root d ?b"
        "ds_root d y = ds_root d ?a \<or> ds_root d y = ds_root d ?b" by presburger+
      then show ?thesis using cls [OF that(1)] cls [OF that(2)] by simp
    qed
    then show ?thesis unfolding constant_on_classes_def d1(3) by blast
  qed
  ultimately have "unites terms [(a, b)] d d1" using d1(2,3) unfolding unites_def respects_equalities_def by simp
  then show thesis by (rule that [OF d1(1)])
qed

lemma unitesD:
  assumes "unites terms eqs d d'"
  shows "ds_invar d'" and "ds_size d' = ds_size d" and "coarser d d'"
    and "(a, b) \<in> set eqs \<Longrightarrow> ds_root d' (term_id terms a) = ds_root d' (term_id terms b)"
    and "respects_equalities eqs v \<Longrightarrow> constant_on_classes terms d v \<Longrightarrow> constant_on_classes terms d' v"
  using assms unfolding unites_def by blast+

lemma unites_trans:
  assumes u: "unites terms [(a, b)] d d1" "unites terms eqs d1 d2"
    and "a \<in> set terms" "b \<in> set terms" and sz: "ds_size d = length terms"
  shows "unites terms ((a, b) # eqs) d d2"
  unfolding unites_def
proof (intro conjI allI impI ballI)
  note U1 = unitesD [OF u(1)] and U2 = unitesD [OF u(2)]
  have ab: "term_id terms a < ds_size d" "term_id terms b < ds_size d" using assms(3,4) term_id_nth sz by auto
  have c: "ds_root d2 x = ds_root d2 y" if "x < ds_size d" "y < ds_size d" "ds_root d1 x = ds_root d1 y" for x y
    using that U1(2) U2(3) unfolding coarser_def by metis
  show "ds_invar d2" by (rule U2(1))
  show "ds_size d2 = ds_size d" using U1(2) U2(2) by (rule trans [rotated])
  show "coarser d d2" using c U1(3) unfolding coarser_def by metis
  show "case e of (a, b) \<Rightarrow> ds_root d2 (term_id terms a) = ds_root d2 (term_id terms b)" if "e \<in> set ((a, b) # eqs)" for e
  proof (cases "e = (a, b)")
    case True
    then show ?thesis using c [OF ab] U1(4) [of a b] by auto
  next
    case False
    then show ?thesis using U2(4) that by (cases e) auto
  qed
  show "constant_on_classes terms d2 v" if "respects_equalities ((a, b) # eqs) v" "constant_on_classes terms d v" for v
    using that U1(5) U2(5) by (auto simp: respects_equalities_def)
qed

lemma unite_all_spec:
  assumes "ds_invar d" "ds_size d = length terms" "fst ` set eqs \<union> snd ` set eqs \<subseteq> set terms"
  shows "\<exists>d'. unite_all terms eqs d = Some d' \<and> unites terms eqs d d'"
  using assms
proof (induction eqs arbitrary: d)
  case Nil
  then show ?case by (simp add: unites_def coarser_def)
next
  case (Cons e eqs)
  obtain a b where e: "e = (a, b)" by (cases e)
  with Cons.prems have ab: "a \<in> set terms" "b \<in> set terms" and sub: "fst ` set eqs \<union> snd ` set eqs \<subseteq> set terms" by auto
  obtain d1 where d1: "ds_unite d (term_id terms a) (term_id terms b) = Some d1" "unites terms [(a, b)] d d1"
    using unite_step [OF Cons.prems(1,2) ab] .
  obtain d2 where d2: "unite_all terms eqs d1 = Some d2" "unites terms eqs d1 d2"
    using Cons.IH [of d1] unitesD(1,2) [OF d1(2)] Cons.prems(2) sub by auto
  have "unites terms (e # eqs) d d2" using unites_trans [OF d1(2) d2(2) ab Cons.prems(2)] e by simp
  then show ?case using d1(1) d2(1) by (simp add: e)
qed

lemma find_all_spec:
  assumes "ds_invar d" "\<And>i. i \<in> set is \<Longrightarrow> i < ds_size d"
  shows "find_all is d = Some (map (ds_root d) is)"
  using assms
proof (induction "is" arbitrary: d)
  case (Cons i "is")
  obtain d' where d': "ds_find d i = Some (ds_root d i, d')" "ds_invar d'" "ds_size d' = ds_size d"
    "\<forall>y < ds_size d. ds_root d' y = ds_root d y"
    using ds_find_root [of d i] Cons.prems by auto
  have "find_all is d' = Some (map (ds_root d') is)" using Cons.IH [OF d'(2)] Cons.prems d'(3) by simp
  also have "map (ds_root d') is = map (ds_root d) is" using d'(4) Cons.prems by auto
  finally show ?case using d'(1) by simp
qed simp

section \<open>Representatives\<close>

lemma class_representative_mem:
  assumes "t \<in> set c" obtains r where "class_representative c = Some r" "r \<in> set c"
proof (cases "List.find is_object_term c")
  case None
  show thesis
  proof (cases "List.find (\<lambda>t. \<not> is_object_term t) c")
    case none: None
    then show thesis using None assms by (auto simp: find_None_iff)
  next
    case (Some r)
    then show thesis using that [of r] None by (auto simp: class_representative_def find_Some_iff)
  qed
next
  case (Some r)
  then have "class_representative c = Some r" by (simp add: class_representative_def)
  moreover have "r \<in> set c" using Some by (auto simp: find_Some_iff)
  ultimately show thesis by (rule that)
qed

lemma class_representative_object:
  assumes "t \<in> set c" "is_object_term t" "length (filter is_object_term c) < 2"
  shows "class_representative c = Some t"
proof -
  obtain r where r: "List.find is_object_term c = Some r" using assms(1,2) by (cases "List.find is_object_term c") (auto simp: find_None_iff)
  then have "r \<in> set (filter is_object_term c)" "t \<in> set (filter is_object_term c)" using assms by (auto simp: find_Some_iff)
  then have "r = t" using assms(3) by (cases "filter is_object_term c" rule: remdups_adj.cases) auto
  with r show ?thesis by (simp add: class_representative_def)
qed

lemma fill_representatives_bad:
  assumes "\<exists>c \<in> set cs. length (filter is_object_term c) \<ge> 2" shows "fill_representatives cs rep = (False, Map.empty)"
  using assms by (induction cs rep rule: fill_representatives.induct) (auto simp: Let_def)

lemma fill_representatives_good:
  assumes "\<And>r. r \<in> set rs \<Longrightarrow> length (filter is_object_term (filter (\<lambda>t. R t = r) terms)) < 2"
  shows "fill_representatives (map (\<lambda>r. filter (\<lambda>t. R t = r) terms) rs) rep =
    (True, \<lambda>t. if rep t \<noteq> None then rep t
               else if t \<in> set terms \<and> R t \<in> set rs then class_representative (filter (\<lambda>u. R u = R t) terms) else None)"
  using assms
proof (induction rs arbitrary: rep)
  case (Cons r rs)
  show ?case
    using Cons.prems [of r] by (auto simp: Let_def Cons.IH [OF Cons.prems] fun_eq_iff)
qed (simp add: fun_eq_iff)

lemma equality_classes_eq:
  assumes "distinct terms"
  shows "equality_classes terms (map f [0..<length terms]) =
    map (\<lambda>r. filter (\<lambda>t. f (term_id terms t) = r) terms) (sort (remdups (map (\<lambda>t. f (term_id terms t)) terms)))"
proof -
  have roots: "map f [0..<length terms] = map (\<lambda>t. f (term_id terms t)) terms"
    by (rule nth_equalityI) (auto simp: nth_term_id [OF assms])
  have "zip xs (map g xs) = map (\<lambda>t. (t, g t)) xs" for g :: "constraint_term \<Rightarrow> nat" and xs
    by (induction xs) auto
  then have "zip terms (map (\<lambda>t. f (term_id terms t)) terms) = map (\<lambda>t. (t, f (term_id terms t))) terms" .
  then show ?thesis
    by (auto simp: equality_classes_def roots filter_map o_def)
qed

text \<open>What the representatives mean: they solve the equalities, and every solution factors through them.\<close>

definition solves_equalities :: "equalities \<Rightarrow> (constraint_term \<Rightarrow> constraint_term) \<Rightarrow> bool" where
  "solves_equalities eqs v \<longleftrightarrow> respects_equalities eqs v \<and> fixes_objects v"

lemma two_objects:
  assumes "length (filter is_object_term c) \<ge> 2" "distinct c"
  obtains o1 o2 where "o1 \<in> set c" "o2 \<in> set c" "o1 \<noteq> o2" "is_object_term o1" "is_object_term o2"
proof -
  have d: "distinct (filter is_object_term c)" using assms(2) by simp
  have "filter is_object_term c ! 0 \<noteq> filter is_object_term c ! 1" using assms(1) d by (subst nth_eq_iff_index_eq) auto
  moreover have "filter is_object_term c ! 0 \<in> set (filter is_object_term c)" "filter is_object_term c ! 1 \<in> set (filter is_object_term c)"
    by (rule nth_mem; use assms(1) in linarith)+
  ultimately show thesis using that by auto
qed

lemma equality_compute_classes:
  obtains R :: "constraint_term \<Rightarrow> nat" where
    "equality_compute eqs = Some (fill_representatives
       (map (\<lambda>r. filter (\<lambda>t. R t = r) (collect_terms eqs)) (sort (remdups (map R (collect_terms eqs))))) Map.empty)"
    "\<And>a b. (a, b) \<in> set eqs \<Longrightarrow> R a = R b"
    "\<And>v a b. respects_equalities eqs v \<Longrightarrow> R a = R b \<Longrightarrow> a \<in> set (collect_terms eqs) \<Longrightarrow> b \<in> set (collect_terms eqs) \<Longrightarrow> v a = v b"
proof -
  let ?terms = "collect_terms eqs"
  note T = collect_terms_spec [of eqs]
  note I = ds_init_spec [where n = "length ?terms"]
  obtain d where d: "unite_all ?terms eqs (ds_init (length ?terms)) = Some d" "unites ?terms eqs (ds_init (length ?terms)) d"
    using unite_all_spec [OF I(1,2)] T(2) by blast
  note U = unitesD [OF d(2)]
  have sz: "ds_size d = length ?terms" using U(2) I(2) by simp
  have "find_all [0..<length ?terms] d = Some (map (ds_root d) [0..<length ?terms])"
    using U(1) sz by (intro find_all_spec) auto
  then have "equality_compute eqs = Some (fill_representatives
      (map (\<lambda>r. filter (\<lambda>t. ds_root d (term_id ?terms t) = r) ?terms) (sort (remdups (map (\<lambda>t. ds_root d (term_id ?terms t)) ?terms)))) Map.empty)"
    by (simp add: equality_compute_def Let_def d(1) equality_classes_eq [OF T(1)])
  moreover have "v a = v b" if "respects_equalities eqs v" "ds_root d (term_id ?terms a) = ds_root d (term_id ?terms b)"
    "a \<in> set ?terms" "b \<in> set ?terms" for v a b
  proof -
    have "constant_on_classes ?terms (ds_init (length ?terms)) v"
      by (simp add: constant_on_classes_def I(2,3))
    with U(5) that(1) have c: "constant_on_classes ?terms d v" by blast
    note a = term_id_nth [OF that(3)] and b = term_id_nth [OF that(4)]
    have "v (?terms ! term_id ?terms a) = v (?terms ! term_id ?terms b)"
      using c that(2) a b unfolding constant_on_classes_def sz by blast
    then show ?thesis using a b by simp
  qed
  ultimately show thesis using U(4) by (intro that [of "\<lambda>t. ds_root d (term_id ?terms t)"]) blast+
qed

lemma no_solution_of_two_objects:
  assumes "\<And>v a b. respects_equalities eqs v \<Longrightarrow> R a = R b \<Longrightarrow> a \<in> set terms \<Longrightarrow> b \<in> set terms \<Longrightarrow> v a = v b"
    and "length (filter is_object_term (filter (\<lambda>t. R t = r) terms)) \<ge> 2" and "distinct terms"
  shows "\<not> solves_equalities eqs v"
proof
  assume v: "solves_equalities eqs v"
  have "distinct (filter (\<lambda>t. R t = r) terms)" using assms(3) by simp
  from two_objects [OF assms(2) this] obtain o1 o2 where o: "o1 \<in> set (filter (\<lambda>t. R t = r) terms)"
    "o2 \<in> set (filter (\<lambda>t. R t = r) terms)" "o1 \<noteq> o2" "is_object_term o1" "is_object_term o2" .
  have "v o1 = v o2" using assms(1) [of v o1 o2] o v by (auto simp: solves_equalities_def)
  moreover have "v o1 = o1" "v o2 = o2" using v o by (auto simp: solves_equalities_def fixes_objects_def)
  ultimately show False using o(3) by simp
qed

lemma equality_compute_spec:
  obtains c rep where "equality_compute eqs = Some (c, rep)"
    "c \<Longrightarrow> solves_equalities eqs (rep_or_self rep)"
    "\<And>v t. c \<Longrightarrow> respects_equalities eqs v \<Longrightarrow> v (rep_or_self rep t) = v t"
    "\<And>v. \<not> c \<Longrightarrow> \<not> solves_equalities eqs v"
proof -
  let ?terms = "collect_terms eqs"
  note T = collect_terms_spec [of eqs]
  obtain R :: "constraint_term \<Rightarrow> nat" where
    comp: "equality_compute eqs = Some (fill_representatives (map (\<lambda>r. filter (\<lambda>t. R t = r) ?terms) (sort (remdups (map R ?terms)))) Map.empty)"
    and eqR: "\<And>a b. (a, b) \<in> set eqs \<Longrightarrow> R a = R b"
    and vR: "\<And>v a b. respects_equalities eqs v \<Longrightarrow> R a = R b \<Longrightarrow> a \<in> set ?terms \<Longrightarrow> b \<in> set ?terms \<Longrightarrow> v a = v b"
    by (rule equality_compute_classes) (rule that)
  let ?rs = "sort (remdups (map R ?terms))"
  let ?cl = "\<lambda>r. filter (\<lambda>t. R t = r) ?terms"
  show thesis
  proof (cases "\<exists>c \<in> set (map ?cl ?rs). length (filter is_object_term c) \<ge> 2")
    case True
    then obtain r where r: "length (filter is_object_term (?cl r)) \<ge> 2" unfolding set_map by blast
    have "equality_compute eqs = Some (False, Map.empty)" using comp unfolding fill_representatives_bad [OF True] .
    moreover have "\<not> solves_equalities eqs v" for v
      by (rule no_solution_of_two_objects [where R = R and terms = ?terms, OF _ r T(1)]) (rule vR)
    ultimately show thesis by (intro that [of False Map.empty]) auto
  next
    case False
    then have few: "length (filter is_object_term (?cl r)) < 2" if "r \<in> set ?rs" for r using that by fastforce
    define rep where "rep t = (if t \<in> set ?terms then class_representative (?cl (R t)) else None)" for t
    have R: "R t \<in> set ?rs" if "t \<in> set ?terms" for t using that by simp
    have "fill_representatives (map ?cl ?rs) Map.empty = (True, rep)"
      by (subst fill_representatives_good [OF few]) (auto simp: rep_def fun_eq_iff)
    with comp have comp: "equality_compute eqs = Some (True, rep)" by simp
    have in_cl: "t \<in> set (?cl (R t))" if "t \<in> set ?terms" for t using that by simp
    have same: "rep_or_self rep a = rep_or_self rep b" if "R a = R b" "a \<in> set ?terms" "b \<in> set ?terms" for a b
    proof -
      note a = in_cl [OF that(2)]
      obtain r where "class_representative (?cl (R a)) = Some r" using class_representative_mem [OF a] .
      then show ?thesis using that by (simp add: rep_or_self_def rep_def)
    qed
    have "rep_or_self rep a = rep_or_self rep b" if "(a, b) \<in> set eqs" for a b
      using same [OF eqR [OF that]] that T(2) by (simp add: image_iff) (metis fst_conv snd_conv)
    then have "respects_equalities eqs (rep_or_self rep)"
      unfolding respects_equalities_def list_all_iff by blast
    moreover have "rep_or_self rep t = t" if "is_object_term t" for t
      using class_representative_object [OF in_cl that few [OF R]] by (simp add: rep_or_self_def rep_def)
    moreover have "v (rep_or_self rep t) = v t" if "respects_equalities eqs v" for v t
    proof (cases "t \<in> set ?terms")
      case True
      then obtain r where "class_representative (?cl (R t)) = Some r" "r \<in> set (?cl (R t))"
        using class_representative_mem [OF in_cl] by blast
      moreover from this(2) have "v r = v t" using vR [OF that, of r t] True by simp
      ultimately show ?thesis using True by (simp add: rep_or_self_def rep_def)
    qed (simp add: rep_or_self_def rep_def)
    ultimately show thesis by (intro that [OF comp]) (simp_all add: solves_equalities_def fixes_objects_def)
  qed
qed

section \<open>Solvability\<close>

text \<open>
  A solution gives every term a value: an object to itself, and a value other than an object to a
  term about which no more is known than its inequalities. It satisfies one conjunction of each
  disjunction of equalities, one inequality of each disjunction of inequalities, and gives no object to
  the terms that must not be constant.
\<close>

definition satisfies_rest :: "constraint_system \<Rightarrow> (constraint_term \<Rightarrow> constraint_term) \<Rightarrow> bool" where
  "satisfies_rest sys v \<longleftrightarrow>
     list_all (\<lambda>t. \<not> is_object_term (v t)) (cs_not_constant sys) \<and>
     list_all (\<lambda>dj. list_ex (\<lambda>(a, b). v a \<noteq> v b) dj) (cs_inequality_disjunctions sys)"

definition satisfies_system :: "constraint_system \<Rightarrow> (constraint_term \<Rightarrow> constraint_term) \<Rightarrow> bool" where
  "satisfies_system sys v \<longleftrightarrow> fixes_objects v \<and>
     list_all (\<lambda>dnf. list_ex (\<lambda>eqs. respects_equalities eqs v) dnf) (cs_equality_DNFs sys) \<and> satisfies_rest sys v"

lemma choice_ok_spec: "choice_ok sys eqs = Some (\<exists>v. solves_equalities eqs v \<and> satisfies_rest sys v)"
proof -
  obtain c rep where E: "equality_compute eqs = Some (c, rep)"
    "c \<Longrightarrow> solves_equalities eqs (rep_or_self rep)"
    "\<And>v t. c \<Longrightarrow> respects_equalities eqs v \<Longrightarrow> v (rep_or_self rep t) = v t"
    "\<And>v. \<not> c \<Longrightarrow> \<not> solves_equalities eqs v" using equality_compute_spec [of eqs] by blast
  have "satisfies_rest sys (rep_or_self rep)" if c: c and v: "solves_equalities eqs v" "satisfies_rest sys v" for v
  proof -
    have f: "v (rep_or_self rep t) = v t" for t using E(3) [OF c] v(1) by (simp add: solves_equalities_def)
    have "is_object_term (rep_or_self rep t) \<Longrightarrow> is_object_term (v t)" for t
      using f [of t] v(1) by (metis fixes_objects_def solves_equalities_def)
    moreover have "v a \<noteq> v b \<Longrightarrow> rep_or_self rep a \<noteq> rep_or_self rep b" for a b using f by metis
    ultimately show ?thesis using v(2) by (fastforce simp: satisfies_rest_def list_all_iff list_ex_iff)
  qed
  then have "(\<exists>v. solves_equalities eqs v \<and> satisfies_rest sys v) \<longleftrightarrow> c \<and> satisfies_rest sys (rep_or_self rep)"
    using E(2,4) by blast
  then show ?thesis by (simp add: choice_ok_def E(1) inequality_disjunction_ok_def satisfies_rest_def)
qed

lemma valid_choice:
  "(\<exists>js. valid_indices (map length dnfs) js \<and> list_all P (map2 (\<lambda>dnf i. dnf ! i) dnfs js)) \<longleftrightarrow>
   list_all (\<lambda>dnf. list_ex P dnf) dnfs"
proof (induction dnfs)
  case (Cons dnf dnfs)
  have "(\<exists>js. valid_indices (map length (dnf # dnfs)) js \<and> list_all P (map2 (\<lambda>dnf i. dnf ! i) (dnf # dnfs) js)) \<longleftrightarrow>
    (\<exists>i < length dnf. P (dnf ! i)) \<and> (\<exists>js. valid_indices (map length dnfs) js \<and> list_all P (map2 (\<lambda>dnf i. dnf ! i) dnfs js))"
    by fastforce
  then show ?case using Cons by (simp add: list_ex_length)
qed simp

lemma respects_equalities_concat: "respects_equalities (concat cs) v \<longleftrightarrow> list_all (\<lambda>eqs. respects_equalities eqs v) cs"
  by (auto simp: respects_equalities_def list_all_iff)

lemma is_solvable_spec:
  assumes "[] \<notin> set (cs_equality_DNFs sys)"
  shows "is_solvable sys = Some (\<exists>v. satisfies_system sys v)"
proof (cases "cs_equality_DNFs sys = []")
  case True
  then show ?thesis
    by (simp add: is_solvable_def choice_ok_spec satisfies_system_def solves_equalities_def respects_equalities_def)
next
  case False
  let ?dnfs = "cs_equality_DNFs sys"
  let ?zero = "replicate (length ?dnfs) 0"
  have "0 \<notin> set (map length ?dnfs)" using assms by auto
  from valid_indices_zero [OF this] have z: "valid_indices (map length ?dnfs) ?zero" by simp
  have "index_code (map length ?dnfs) ?zero = 0" using index_code_zero [of "map length ?dnfs"] by simp
  then have "is_solvable sys = Some (\<exists>js. valid_indices (map length ?dnfs) js \<and>
      (\<exists>v. solves_equalities (concat (map2 (\<lambda>dnf i. dnf ! i) ?dnfs js)) v \<and> satisfies_rest sys v))"
    using solve_loop_enumerates [OF choice_ok_spec z] False by (simp add: is_solvable_def)
  also have "(\<exists>js. valid_indices (map length ?dnfs) js \<and>
      (\<exists>v. solves_equalities (concat (map2 (\<lambda>dnf i. dnf ! i) ?dnfs js)) v \<and> satisfies_rest sys v)) \<longleftrightarrow>
    (\<exists>v. satisfies_system sys v)"
    unfolding satisfies_system_def solves_equalities_def respects_equalities_concat valid_choice [symmetric] by blast
  finally show ?thesis .
qed

end
