(* ===== verification/Invariant_Proof.thy ===== *)
theory Invariant_Proof
  imports Constraints
begin

text \<open>
  \<^verbatim>\<open>src/formalism/planning/invariants/proof.cpp\<close>: the test that an invariant candidate is kept by every action: no
  action is too heavy (adds two atoms of one instance at once), and every add effect is balanced
  by a delete effect. A result \<open>None\<close> means that a constraint system has an empty disjunction;
  \<open>prove_invariant_total\<close> shows that this does not happen.
\<close>

section \<open>Effects\<close>

definition make_effect_alpha_renaming :: "mutable_conditional_effect \<Rightarrow> nat \<Rightarrow> tterm subst result" where
  "make_effect_alpha_renaming effect fresh_base =
     fold (\<lambda>i acc. case acc of Inl e \<Rightarrow> Inl e
             | Inr sigma \<Rightarrow> map_sum id snd (sf_assign sigma (mce_num_parent_variables effect + i) (Param (fresh_base + i))))
       [0..<mce_num_variables effect]
       (Inr (sf_from_range (mce_num_parent_variables effect) (mce_num_variables effect)))"

definition collect_relevant_effect_atoms ::
  "mutable_action \<Rightarrow> invariant \<Rightarrow> bool \<Rightarrow> (mutable_conditional_effect \<times> mutable_atom) list" where
  "collect_relevant_effect_atoms act iv polarity =
     concat (map (\<lambda>eff.
       map (\<lambda>lit. (eff, ml_atom lit))
         (filter (\<lambda>lit. ml_polarity lit = polarity \<and> ma_predicate (ml_atom lit) \<in> inv_predicates iv) (me_literals (mce_effect eff))))
       (mact_effects act))"

text \<open>
  The map \<open>produced_by_pred\<close> from predicates to literals, given by the literals in the order in which
  they are inserted: the list at a predicate is the sublist of its literals.
\<close>

definition build_add_effect_produced_by_pred ::
  "mutable_action \<Rightarrow> mutable_conditional_effect \<Rightarrow> mutable_atom \<Rightarrow> mutable_literal list" where
  "build_add_effect_produced_by_pred act add_effect add_atom =
     mc_fluent_literals (mact_condition act) @ me_literals (mce_effect add_effect) @
     [\<lparr>ml_atom = add_atom, ml_polarity = False\<rparr>]"

definition produced_at :: "mutable_literal list \<Rightarrow> nat \<Rightarrow> mutable_literal list" where
  "produced_at produced p = filter (\<lambda>l. ma_predicate (ml_atom l) = p) produced"

definition make_param_system ::
  "mutable_action \<Rightarrow> mutable_conditional_effect \<Rightarrow> equalities \<Rightarrow> constraint_system option" where
  "make_param_system act add_effect add_cover =
     (case equality_compute add_cover of
        None \<Rightarrow> None
      | Some (_, representative) \<Rightarrow>
          (let params = map VariableTerm [0..<mact_num_variables act] @
                 map (\<lambda>i. VariableTerm (mce_num_parent_variables add_effect + i)) [0..<mce_num_variables add_effect];
               rep = rep_or_self representative;
               sys = foldl (\<lambda>sys t. if \<not> is_object_term (rep t) then add_not_constant sys t else sys) cs_empty params
           in Some (foldl (\<lambda>sys (i, j). if rep (params ! i) \<noteq> rep (params ! j)
                                    then add_inequality_disjunction sys [(params ! i, params ! j)] else sys)
                sys
                (concat (map (\<lambda>i. map (\<lambda>j. (i, j)) [Suc i..<length params]) [0..<length params])))))"

text \<open>The outer loop of \<open>make_balance_system\<close>.\<close>

definition balance_possibilities :: "mutable_literal list \<Rightarrow> mutable_literal \<Rightarrow> equalities list" where
  "balance_possibilities produced lit =
     map (\<lambda>match. term_pairs (ml_atom lit) (ml_atom match))
       (filter (\<lambda>match. ml_polarity match = ml_polarity lit) (produced_at produced (ma_predicate (ml_atom lit))))"

fun balance_loop :: "mutable_literal list \<Rightarrow> mutable_literal list \<Rightarrow> constraint_system \<Rightarrow> constraint_system option" where
  "balance_loop produced [] sys = Some sys"
| "balance_loop produced (lit # lits) sys =
     (let possibilities = balance_possibilities produced lit in
      if possibilities = [] then None
      else balance_loop produced lits (add_equality_DNF sys possibilities))"

definition make_balance_system ::
  "mutable_atom \<Rightarrow> mutable_conditional_effect \<Rightarrow> mutable_atom \<Rightarrow> mutable_literal list \<Rightarrow> constraint_system option" where
  "make_balance_system add_atom del_effect del_atom produced =
     (let del_required = mc_fluent_literals (mce_condition del_effect) @ [\<lparr>ml_atom = del_atom, ml_polarity = True\<rparr>] in
      case balance_loop produced del_required cs_empty of
        None \<Rightarrow> None
      | Some sys \<Rightarrow> Some (ensure_inequality sys add_atom del_atom))"

section \<open>The tests\<close>

text \<open>The body of the loop over pairs of add effects.\<close>

definition too_heavy_system ::
  "(nat \<Rightarrow> string) \<Rightarrow> mutable_action \<Rightarrow> invariant \<Rightarrow> mutable_conditional_effect \<times> mutable_atom \<Rightarrow>
   mutable_conditional_effect \<times> mutable_atom \<Rightarrow> constraint_system option result" where
  "too_heavy_system name_of act iv eff1 eff2 =
     (let max_num_effect_variables = foldl max 0 (map mce_num_variables (mact_effects act));
          fresh_base_lhs = mact_num_variables act;
          fresh_base_rhs = mact_num_variables act + max_num_effect_variables + 1
      in case make_effect_alpha_renaming (fst eff1) fresh_base_lhs of
           Inl e \<Rightarrow> Inl e
         | Inr lhs_sigma \<Rightarrow>
        (case make_effect_alpha_renaming (fst eff2) fresh_base_rhs of
           Inl e \<Rightarrow> Inl e
         | Inr rhs_sigma \<Rightarrow>
        (let lhs_atom = transform_terms_atom (apply_substitution lhs_sigma) (snd eff1);
             rhs_atom = transform_terms_atom (apply_substitution rhs_sigma) (snd eff2);
             lhs_cond = transform_terms_condition (apply_substitution lhs_sigma) (mce_condition (fst eff1));
             rhs_cond = transform_terms_condition (apply_substitution rhs_sigma) (mce_condition (fst eff2))
         in case (find_part iv (ma_predicate lhs_atom), find_part iv (ma_predicate rhs_atom)) of
              (Some lhs_pattern, Some rhs_pattern) \<Rightarrow>
                (let sys = ensure_inequality cs_empty lhs_atom rhs_atom;
                     sys = ensure_cover sys lhs_pattern lhs_atom iv;
                     sys = ensure_cover sys rhs_pattern rhs_atom iv;
                     conjunction = mc_fluent_literals (mact_condition act) @ mc_fluent_literals lhs_cond @ mc_fluent_literals rhs_cond @
                       [\<lparr>ml_atom = lhs_atom, ml_polarity = False\<rparr>, \<lparr>ml_atom = rhs_atom, ml_polarity = False\<rparr>]
                 in Inr (Some (ensure_conjunction_sat name_of sys conjunction)))
            | _ \<Rightarrow> Inr None)))"

fun too_heavy_loop ::
  "(nat \<Rightarrow> string) \<Rightarrow> mutable_action \<Rightarrow> invariant \<Rightarrow>
   ((mutable_conditional_effect \<times> mutable_atom) \<times> mutable_conditional_effect \<times> mutable_atom) list \<Rightarrow> bool option result" where
  "too_heavy_loop name_of act iv [] = Inr (Some False)"
| "too_heavy_loop name_of act iv ((eff1, eff2) # pairs) =
     (case too_heavy_system name_of act iv eff1 eff2 of
        Inl e \<Rightarrow> Inl e
      | Inr None \<Rightarrow> too_heavy_loop name_of act iv pairs
      | Inr (Some sys) \<Rightarrow>
          (case is_solvable sys of
             None \<Rightarrow> Inr None
           | Some s \<Rightarrow> if s then Inr (Some True) else too_heavy_loop name_of act iv pairs))"

fun ordered_pairs :: "'a list \<Rightarrow> ('a \<times> 'a) list" where
  "ordered_pairs [] = []"
| "ordered_pairs (x # xs) = map (\<lambda>y. (x, y)) xs @ ordered_pairs xs"

definition is_operator_too_heavy :: "(nat \<Rightarrow> string) \<Rightarrow> mutable_action \<Rightarrow> invariant \<Rightarrow> bool option result" where
  "is_operator_too_heavy name_of act iv =
     (let add_effects = collect_relevant_effect_atoms act iv True in
      if length add_effects \<le> 1 then Inr (Some False)
      else too_heavy_loop name_of act iv (ordered_pairs add_effects))"

fun unbalanced_loop ::
  "invariant \<Rightarrow> mutable_atom \<Rightarrow> equalities \<Rightarrow> constraint_system \<Rightarrow> mutable_literal list \<Rightarrow>
   (mutable_conditional_effect \<times> mutable_atom) list \<Rightarrow> bool option" where
  "unbalanced_loop iv add_atom add_cover param_system produced [] = Some True"
| "unbalanced_loop iv add_atom add_cover param_system produced ((del_effect, del_atom) # dels) =
     (case find_part iv (ma_predicate del_atom) of
        None \<Rightarrow> unbalanced_loop iv add_atom add_cover param_system produced dels
      | Some del_pattern \<Rightarrow>
          (case make_balance_system add_atom del_effect del_atom produced of
             None \<Rightarrow> unbalanced_loop iv add_atom add_cover param_system produced dels
           | Some balance_system \<Rightarrow>
               (let sys = add_equality_conjunction cs_empty add_cover;
                    sys = ensure_cover sys del_pattern del_atom iv;
                    sys = cs_extend sys balance_system;
                    sys = cs_extend sys param_system
                in case is_solvable sys of
                     None \<Rightarrow> None
                   | Some s \<Rightarrow> if s then Some False else unbalanced_loop iv add_atom add_cover param_system produced dels)))"

definition is_add_effect_unbalanced ::
  "mutable_action \<Rightarrow> mutable_conditional_effect \<Rightarrow> mutable_atom \<Rightarrow> invariant \<Rightarrow> bool option" where
  "is_add_effect_unbalanced act add_effect add_atom iv =
     (case find_part iv (ma_predicate add_atom) of
        None \<Rightarrow> Some True
      | Some add_pattern \<Rightarrow>
          (let add_cover = make_cover_equality_conjunction add_pattern add_atom iv in
           case make_param_system act add_effect add_cover of
             None \<Rightarrow> None
           | Some param_system \<Rightarrow>
               unbalanced_loop iv add_atom add_cover param_system
                 (build_add_effect_produced_by_pred act add_effect add_atom)
                 (collect_relevant_effect_atoms act iv False)))"

record threat =
  th_op_index :: nat
  th_effect_index :: nat
  th_add_index :: nat

datatype proof_result = Proven | Too_Heavy | Unbalanced_Add_Effect threat

text \<open>The three nested loops run over the add literals, each with its indices; the first threat ends them.\<close>

definition add_literals_of :: "mutable_action \<Rightarrow> invariant \<Rightarrow> (nat \<times> nat \<times> mutable_conditional_effect \<times> mutable_atom) list" where
  "add_literals_of act iv =
     concat (map (\<lambda>ei. let eff = mact_effects act ! ei in
       map (\<lambda>li. (ei, li, eff, ml_atom (me_literals (mce_effect eff) ! li)))
         (filter (\<lambda>li. ml_polarity (me_literals (mce_effect eff) ! li) \<and>
                       ma_predicate (ml_atom (me_literals (mce_effect eff) ! li)) \<in> inv_predicates iv)
            [0..<length (me_literals (mce_effect eff))]))
       [0..<length (mact_effects act)])"

fun threat_loop ::
  "mutable_action \<Rightarrow> nat \<Rightarrow> invariant \<Rightarrow> (nat \<times> nat \<times> mutable_conditional_effect \<times> mutable_atom) list \<Rightarrow> threat option option" where
  "threat_loop act act_index iv [] = Some None"
| "threat_loop act act_index iv ((ei, li, eff, add_atom) # adds) =
     (case is_add_effect_unbalanced act eff add_atom iv of
        None \<Rightarrow> None
      | Some u \<Rightarrow> if u then Some (Some \<lparr>th_op_index = act_index, th_effect_index = ei, th_add_index = li\<rparr>)
                  else threat_loop act act_index iv adds)"

fun prove_loop ::
  "(nat \<Rightarrow> string) \<Rightarrow> invariant \<Rightarrow> nat \<Rightarrow> mutable_action list \<Rightarrow> proof_result option result" where
  "prove_loop name_of iv act_index [] = Inr (Some Proven)"
| "prove_loop name_of iv act_index (act # acts) =
     (case is_operator_too_heavy name_of act iv of
        Inl e \<Rightarrow> Inl e
      | Inr None \<Rightarrow> Inr None
      | Inr (Some heavy) \<Rightarrow>
          if heavy then Inr (Some Too_Heavy)
          else (case threat_loop act act_index iv (add_literals_of act iv) of
                  None \<Rightarrow> Inr None
                | Some (Some th) \<Rightarrow> Inr (Some (Unbalanced_Add_Effect th))
                | Some None \<Rightarrow> prove_loop name_of iv (Suc act_index) acts))"

definition prove_invariant :: "(nat \<Rightarrow> string) \<Rightarrow> invariant \<Rightarrow> mutable_action list \<Rightarrow> proof_result option result" where
  "prove_invariant name_of iv acts = prove_loop name_of iv 0 acts"

section \<open>The constraint systems have no empty disjunction\<close>

definition dnfs_ok :: "constraint_system \<Rightarrow> bool" where
  "dnfs_ok sys \<longleftrightarrow> [] \<notin> set (cs_equality_DNFs sys)"

lemma dnfs_ok_simps [simp]:
  "dnfs_ok cs_empty"
  "dnfs_ok (add_equality_DNF sys dnf) \<longleftrightarrow> dnfs_ok sys \<and> dnf \<noteq> []"
  "dnfs_ok (add_equality_conjunction sys eq) \<longleftrightarrow> dnfs_ok sys"
  "dnfs_ok (add_inequality_disjunction sys dj) \<longleftrightarrow> dnfs_ok sys"
  "dnfs_ok (add_not_constant sys t) \<longleftrightarrow> dnfs_ok sys"
  "dnfs_ok (cs_extend sys other) \<longleftrightarrow> dnfs_ok sys \<and> dnfs_ok other"
  "dnfs_ok (ensure_cover sys pattern a iv) \<longleftrightarrow> dnfs_ok sys"
  "dnfs_ok (ensure_inequality sys lhs rhs) \<longleftrightarrow> dnfs_ok sys"
  by (auto simp: dnfs_ok_def cs_empty_def add_equality_DNF_def add_equality_conjunction_def add_inequality_disjunction_def
      add_not_constant_def cs_extend_def ensure_cover_def ensure_inequality_def)

lemma dnfs_ok_foldl: "dnfs_ok sys \<Longrightarrow> (\<And>sys y. dnfs_ok sys \<Longrightarrow> dnfs_ok (f sys y)) \<Longrightarrow> dnfs_ok (foldl f sys ys)"
  by (induction ys arbitrary: sys) auto

lemma dnfs_ok_conjunction_sat [simp]: "dnfs_ok sys \<Longrightarrow> dnfs_ok (ensure_conjunction_sat name_of sys lits)"
  unfolding ensure_conjunction_sat_def Let_def
  by (rule dnfs_ok_foldl, rule dnfs_ok_foldl) (auto simp: ensure_equality_literal_def Let_def split: prod.splits)

lemma dnfs_ok_balance: "balance_loop produced lits sys = Some sys' \<Longrightarrow> dnfs_ok sys \<Longrightarrow> dnfs_ok sys'"
  by (induction produced lits sys rule: balance_loop.induct) (auto simp: Let_def split: if_splits)

lemma dnfs_ok_make_balance: "make_balance_system a e d produced = Some sys \<Longrightarrow> dnfs_ok sys"
  by (auto simp: make_balance_system_def Let_def split: option.splits dest: dnfs_ok_balance)

lemma make_param_system_total: "\<exists>sys. make_param_system act eff eqs = Some sys \<and> dnfs_ok sys"
proof -
  obtain c rep where "equality_compute eqs = Some (c, rep)" by (rule equality_compute_spec)
  moreover have "dnfs_ok (foldl (\<lambda>sys (i, j). if P i j then add_inequality_disjunction sys [(f i, f j)] else sys)
      (foldl (\<lambda>sys t. if Q t then add_not_constant sys t else sys) cs_empty ts) ijs)" for P Q ts ijs and f :: "nat \<Rightarrow> constraint_term"
    by (rule dnfs_ok_foldl, rule dnfs_ok_foldl) (auto split: prod.splits)
  ultimately show ?thesis by (simp add: make_param_system_def Let_def del: foldl_append)
qed

lemma is_solvable_dnfs_ok: "dnfs_ok sys \<Longrightarrow> is_solvable sys = Some (\<exists>v. satisfies_system sys v)"
  by (rule is_solvable_spec) (simp add: dnfs_ok_def)

text \<open>The fresh renaming assigns parameters of its own domain only.\<close>

lemma make_effect_alpha_renaming_total: "\<exists>sigma. make_effect_alpha_renaming effect base = Inr sigma"
proof -
  let ?p = "mce_num_parent_variables effect" and ?n = "mce_num_variables effect"
  let ?step = "\<lambda>i acc. case acc of Inl e \<Rightarrow> Inl e
             | Inr sigma \<Rightarrow> map_sum id snd (sf_assign sigma (?p + i) (Param (base + i)))"
  have "\<exists>sigma'. fold ?step [0..<k] (Inr (sf_from_range ?p ?n)) = Inr sigma' \<and>
      sf_wf sigma' \<and> sf_dom sigma' = {?p..<?p + ?n} \<and> dom (sf_map sigma') = {?p..<?p + k}" if "k \<le> ?n" for k
    using that
  proof (induction k)
    case 0
    then show ?case by (simp add: sf_from_range_spec)
  next
    case (Suc k)
    then obtain s where s: "fold ?step [0..<k] (Inr (sf_from_range ?p ?n)) = Inr s" "sf_wf s"
      "sf_dom s = {?p..<?p + ?n}" "dom (sf_map s) = {?p..<?p + k}" by auto
    have u: "?p + k \<in> sf_dom s" "sf_map s (?p + k) = None"
      using s(3,4) Suc.prems domIff [of "?p + k" "sf_map s"] by auto
    obtain s' where "sf_assign s (?p + k) (Param (base + k)) = Inr (True, s')" "sf_wf s'" "sf_dom s' = sf_dom s"
      "sf_map s' = (sf_map s)(?p + k \<mapsto> Param (base + k))" using sf_assign_spec [OF s(2) u] by metis
    with s show ?case by auto
  qed
  from this [of ?n] show ?thesis by (auto simp: make_effect_alpha_renaming_def)
qed

lemma too_heavy_system_total:
  "\<exists>r. too_heavy_system name_of act iv e1 e2 = Inr r \<and> (\<forall>sys. r = Some sys \<longrightarrow> dnfs_ok sys)"
proof -
  obtain s1 s2 where
    "make_effect_alpha_renaming (fst e1) (mact_num_variables act) = Inr s1"
    "make_effect_alpha_renaming (fst e2) (mact_num_variables act + foldl max 0 (map mce_num_variables (mact_effects act)) + 1) = Inr s2"
    using make_effect_alpha_renaming_total by metis
  then show ?thesis by (auto simp: too_heavy_system_def Let_def split: option.splits)
qed

section \<open>What the tests decide\<close>

text \<open>Two add effects of an action clash on a candidate: their system is satisfiable.\<close>

definition heavy_pair where
  "heavy_pair name_of act iv e1 e2 \<longleftrightarrow>
     (\<exists>sys v. too_heavy_system name_of act iv e1 e2 = Inr (Some sys) \<and> satisfies_system sys v)"

lemma too_heavy_loop_spec:
  "too_heavy_loop name_of act iv pairs = Inr (Some (\<exists>(e1, e2) \<in> set pairs. heavy_pair name_of act iv e1 e2))"
proof (induction name_of act iv pairs rule: too_heavy_loop.induct)
  case (2 name_of act iv e1 e2 pairs)
  obtain r where r: "too_heavy_system name_of act iv e1 e2 = Inr r" "\<And>sys. r = Some sys \<Longrightarrow> dnfs_ok sys"
    using too_heavy_system_total [of name_of act iv e1 e2] by blast
  show ?case
  proof (cases r)
    case None
    then have "\<not> heavy_pair name_of act iv e1 e2" using r(1) by (simp add: heavy_pair_def)
    with 2(1) [OF r(1) None] r(1) None show ?thesis by simp
  next
    case (Some sys)
    have "is_solvable sys = Some (\<exists>v. satisfies_system sys v)" by (rule is_solvable_dnfs_ok [OF r(2) [OF Some]])
    moreover have h: "heavy_pair name_of act iv e1 e2 \<longleftrightarrow> (\<exists>v. satisfies_system sys v)" using r(1) Some by (simp add: heavy_pair_def)
    ultimately show ?thesis using 2(2) [OF r(1) Some] r(1) Some by auto
  qed
qed simp

text \<open>A delete effect balances an add effect.\<close>

definition balances where
  "balances iv add_atom add_cover param_system produced del_effect del_atom \<longleftrightarrow>
     (\<exists>del_pattern balance_system v. find_part iv (ma_predicate del_atom) = Some del_pattern \<and>
        make_balance_system add_atom del_effect del_atom produced = Some balance_system \<and>
        satisfies_system (cs_extend (cs_extend
          (ensure_cover (add_equality_conjunction cs_empty add_cover) del_pattern del_atom iv) balance_system) param_system) v)"

lemma unbalanced_loop_spec:
  assumes "dnfs_ok param_system"
  shows "unbalanced_loop iv add_atom add_cover param_system produced dels =
    Some (\<forall>(e, d) \<in> set dels. \<not> balances iv add_atom add_cover param_system produced e d)"
proof (induction dels)
  case (Cons ed dels)
  obtain e d where ed: "ed = (e, d)" by (cases ed)
  show ?case
  proof (cases "find_part iv (ma_predicate d)")
    case None
    then have "\<not> balances iv add_atom add_cover param_system produced e d" by (simp add: balances_def)
    with Cons None ed show ?thesis by simp
  next
    case P: (Some del_pattern)
    show ?thesis
    proof (cases "make_balance_system add_atom e d produced")
      case None
      then have "\<not> balances iv add_atom add_cover param_system produced e d" by (simp add: balances_def)
      with Cons None P ed show ?thesis by simp
    next
      case (Some bs)
      let ?sys = "cs_extend (cs_extend (ensure_cover (add_equality_conjunction cs_empty add_cover) del_pattern d iv) bs) param_system"
      have "is_solvable ?sys = Some (\<exists>v. satisfies_system ?sys v)"
        by (rule is_solvable_dnfs_ok) (simp add: assms dnfs_ok_make_balance [OF Some])
      moreover have "balances iv add_atom add_cover param_system produced e d \<longleftrightarrow> (\<exists>v. satisfies_system ?sys v)"
        using P Some by (simp add: balances_def)
      ultimately show ?thesis using Cons P Some ed by (auto simp: Let_def)
    qed
  qed
qed simp

definition too_heavy :: "(nat \<Rightarrow> string) \<Rightarrow> mutable_action \<Rightarrow> invariant \<Rightarrow> bool" where
  "too_heavy name_of act iv \<longleftrightarrow>
     (\<exists>(e1, e2) \<in> set (ordered_pairs (collect_relevant_effect_atoms act iv True)). heavy_pair name_of act iv e1 e2)"

lemma is_operator_too_heavy_spec: "is_operator_too_heavy name_of act iv = Inr (Some (too_heavy name_of act iv))"
proof (cases "length (collect_relevant_effect_atoms act iv True) \<le> 1")
  case True
  then have "ordered_pairs (collect_relevant_effect_atoms act iv True) = []"
    by (cases "collect_relevant_effect_atoms act iv True") auto
  with True show ?thesis by (simp add: is_operator_too_heavy_def too_heavy_def)
next
  case False
  then show ?thesis by (simp add: is_operator_too_heavy_def Let_def too_heavy_loop_spec too_heavy_def)
qed

definition balanced :: "mutable_action \<Rightarrow> invariant \<Rightarrow> mutable_conditional_effect \<Rightarrow> mutable_atom \<Rightarrow> bool" where
  "balanced act iv add_effect add_atom \<longleftrightarrow>
     (\<exists>add_pattern param_system e d. find_part iv (ma_predicate add_atom) = Some add_pattern \<and>
        make_param_system act add_effect (make_cover_equality_conjunction add_pattern add_atom iv) = Some param_system \<and>
        (e, d) \<in> set (collect_relevant_effect_atoms act iv False) \<and>
        balances iv add_atom (make_cover_equality_conjunction add_pattern add_atom iv) param_system
          (build_add_effect_produced_by_pred act add_effect add_atom) e d)"

lemma is_add_effect_unbalanced_spec:
  "is_add_effect_unbalanced act add_effect add_atom iv = Some (\<not> balanced act iv add_effect add_atom)"
proof (cases "find_part iv (ma_predicate add_atom)")
  case None
  then show ?thesis by (simp add: is_add_effect_unbalanced_def balanced_def)
next
  case (Some add_pattern)
  obtain ps where ps: "make_param_system act add_effect (make_cover_equality_conjunction add_pattern add_atom iv) = Some ps" "dnfs_ok ps"
    using make_param_system_total by blast
  then show ?thesis
    using Some by (auto simp: is_add_effect_unbalanced_def balanced_def unbalanced_loop_spec)
qed

definition keeps_invariant :: "(nat \<Rightarrow> string) \<Rightarrow> invariant \<Rightarrow> mutable_action \<Rightarrow> bool" where
  "keeps_invariant name_of iv act \<longleftrightarrow> \<not> too_heavy name_of act iv \<and>
     (\<forall>(ei, li, eff, add_atom) \<in> set (add_literals_of act iv). balanced act iv eff add_atom)"

lemma threat_loop_total: "\<exists>r. threat_loop act i iv adds = Some r"
  by (induction act i iv adds rule: threat_loop.induct) (auto simp: is_add_effect_unbalanced_spec)

lemma threat_loop_None:
  "threat_loop act i iv adds = Some None \<Longrightarrow> (ei, li, eff, a) \<in> set adds \<Longrightarrow> balanced act iv eff a"
  by (induction act i iv adds rule: threat_loop.induct) (auto simp: is_add_effect_unbalanced_spec split: if_splits)

lemma threat_loop_Some:
  "threat_loop act i iv adds = Some (Some th) \<Longrightarrow>
   \<exists>ei li eff a. (ei, li, eff, a) \<in> set adds \<and> \<not> balanced act iv eff a \<and>
     th = \<lparr>th_op_index = i, th_effect_index = ei, th_add_index = li\<rparr>"
proof (induction adds)
  case (Cons x adds)
  obtain ei li eff a where x: "x = (ei, li, eff, a)" by (cases x)
  show ?case
  proof (cases "balanced act iv eff a")
    case True
    then show ?thesis using Cons x by (auto simp: is_add_effect_unbalanced_spec)
  next
    case False
    with Cons.prems x have "th = \<lparr>th_op_index = i, th_effect_index = ei, th_add_index = li\<rparr>" by (simp add: is_add_effect_unbalanced_spec)
    with False x show ?thesis by (intro exI [of _ ei] exI [of _ li] exI [of _ eff] exI [of _ a]) simp
  qed
qed simp

lemma prove_loop_total: "\<exists>r. prove_loop name_of iv i acts = Inr (Some r)"
proof (induction acts arbitrary: i)
  case (Cons act acts)
  then show ?case
    using threat_loop_total [of act i iv "add_literals_of act iv"]
    by (auto simp: is_operator_too_heavy_spec split: option.splits)
qed simp

lemma prove_loop_Proven:
  "prove_loop name_of iv i acts = Inr (Some Proven) \<Longrightarrow> act \<in> set acts \<Longrightarrow> keeps_invariant name_of iv act"
proof (induction acts arbitrary: i)
  case (Cons a acts)
  obtain r where r: "threat_loop a i iv (add_literals_of a iv) = Some r" using threat_loop_total by blast
  then have "r = None" "\<not> too_heavy name_of a iv" "prove_loop name_of iv (Suc i) acts = Inr (Some Proven)"
    using Cons.prems(1) by (auto simp: is_operator_too_heavy_spec split: if_splits option.splits)
  moreover from this have "keeps_invariant name_of iv a"
    using threat_loop_None [of a i iv "add_literals_of a iv"] r by (auto simp: keeps_invariant_def)
  ultimately show ?case using Cons by auto
qed simp

lemma prove_loop_Too_Heavy:
  "prove_loop name_of iv i acts = Inr (Some Too_Heavy) \<Longrightarrow> \<exists>act \<in> set acts. too_heavy name_of act iv"
  by (induction acts arbitrary: i) (auto simp: is_operator_too_heavy_spec split: if_splits option.splits)

lemma prove_loop_Unbalanced:
  "prove_loop name_of iv i acts = Inr (Some (Unbalanced_Add_Effect th)) \<Longrightarrow>
   \<exists>j ei li eff a. j < length acts \<and> (ei, li, eff, a) \<in> set (add_literals_of (acts ! j) iv) \<and>
     \<not> balanced (acts ! j) iv eff a \<and> th = \<lparr>th_op_index = i + j, th_effect_index = ei, th_add_index = li\<rparr>"
proof (induction acts arbitrary: i)
  case (Cons act acts)
  obtain r where r: "threat_loop act i iv (add_literals_of act iv) = Some r" using threat_loop_total by blast
  show ?case
  proof (cases r)
    case None
    then have "prove_loop name_of iv (Suc i) acts = Inr (Some (Unbalanced_Add_Effect th))"
      using Cons.prems r by (auto simp: is_operator_too_heavy_spec split: if_splits)
    from Cons.IH [OF this] obtain j ei li eff a where "j < length acts"
      "(ei, li, eff, a) \<in> set (add_literals_of (acts ! j) iv)" "\<not> balanced (acts ! j) iv eff a"
      "th = \<lparr>th_op_index = Suc i + j, th_effect_index = ei, th_add_index = li\<rparr>" by blast
    then show ?thesis by (intro exI [of _ "Suc j"] exI [of _ ei] exI [of _ li] exI [of _ eff] exI [of _ a]) simp
  next
    case (Some th')
    then have "th' = th" using Cons.prems r by (auto simp: is_operator_too_heavy_spec split: if_splits)
    with threat_loop_Some [of act i iv "add_literals_of act iv" th] r Some
    obtain ei li eff a where "(ei, li, eff, a) \<in> set (add_literals_of act iv)" "\<not> balanced act iv eff a"
      "th = \<lparr>th_op_index = i, th_effect_index = ei, th_add_index = li\<rparr>" by auto
    then show ?thesis by (intro exI [of _ 0] exI [of _ ei] exI [of _ li] exI [of _ eff] exI [of _ a]) simp
  qed
qed simp

section \<open>Properties\<close>

text \<open>
  C27. The test for solvability of a system of constraints in which no disjunction of equalities is
  empty: it returns, and returns whether the system has a solution.
\<close>

theorem is_solvable_correct:
  assumes "[] \<notin> set (cs_equality_DNFs sys)"
  shows "is_solvable sys = Some (\<exists>v. satisfies_system sys v)"
  using assms by (rule is_solvable_spec)

theorem is_solvable_correct_witness:
  "is_solvable \<lparr>cs_equality_DNFs = [[[(InvariantParameter 0, VariableTerm 0)], [(InvariantParameter 0, ObjectTerm 1)]]],
      cs_inequality_disjunctions = [[(InvariantParameter 0, VariableTerm 0)]], cs_not_constant = [VariableTerm 0]\<rparr> =
   Some (\<exists>v. satisfies_system \<lparr>cs_equality_DNFs = [[[(InvariantParameter 0, VariableTerm 0)], [(InvariantParameter 0, ObjectTerm 1)]]],
      cs_inequality_disjunctions = [[(InvariantParameter 0, VariableTerm 0)]], cs_not_constant = [VariableTerm 0]\<rparr> v)"
  by (rule is_solvable_correct) simp

text \<open>
  The proof of an invariant candidate returns for all actions, without an exception, with the first answer that its tests give.
\<close>

lemma prove_invariant_returns:
  "\<exists>r. prove_invariant name_of iv acts = Inr (Some r) \<and> (r = Proven \<longrightarrow> (\<forall>act \<in> set acts. keeps_invariant name_of iv act))"
proof -
  obtain r where r: "prove_loop name_of iv 0 acts = Inr (Some r)" using prove_loop_total by blast
  then show ?thesis using prove_loop_Proven unfolding prove_invariant_def by fastforce
qed

section \<open>A candidate that is accepted and violated\<close>

text \<open>
  The semantics of an action for a binding of its variables: every effect whose condition holds for some
  binding of its own variables fires, deletes first and adds afterwards.
\<close>

definition holds_literal :: "(nat \<rightharpoonup> tterm) \<Rightarrow> mutable_atom set \<Rightarrow> mutable_literal \<Rightarrow> bool" where
  "holds_literal m state lit \<longleftrightarrow> (transform_terms_atom (inst m) (ml_atom lit) \<in> state) = ml_polarity lit"

definition effect_atoms :: "(nat \<rightharpoonup> tterm) \<Rightarrow> mutable_action \<Rightarrow> mutable_atom set \<Rightarrow> bool \<Rightarrow> mutable_atom set" where
  "effect_atoms m act state polarity =
     {transform_terms_atom (inst m') (ml_atom lit) | m' lit eff.
        eff \<in> set (mact_effects act) \<and> m \<subseteq>\<^sub>m m' \<and>
        dom m' = dom m \<union> {mce_num_parent_variables eff..<mce_num_parent_variables eff + mce_num_variables eff} \<and>
        (\<forall>l \<in> set (mc_fluent_literals (mce_condition eff)). holds_literal m' state l) \<and>
        lit \<in> set (me_literals (mce_effect eff)) \<and> ml_polarity lit = polarity}"

definition applicable_action :: "(nat \<rightharpoonup> tterm) \<Rightarrow> mutable_action \<Rightarrow> mutable_atom set \<Rightarrow> bool" where
  "applicable_action m act state \<longleftrightarrow> dom m = {0..<mact_num_variables act} \<and>
     (\<forall>l \<in> set (mc_fluent_literals (mact_condition act)). holds_literal m state l)"

definition apply_action :: "(nat \<rightharpoonup> tterm) \<Rightarrow> mutable_action \<Rightarrow> mutable_atom set \<Rightarrow> mutable_atom set" where
  "apply_action m act state = (state - effect_atoms m act state False) \<union> effect_atoms m act state True"

text \<open>The atoms that an invariant counts, for objects bound to its rigid parameters.\<close>

definition instance_atoms :: "invariant \<Rightarrow> (nat \<rightharpoonup> tterm) \<Rightarrow> mutable_atom set" where
  "instance_atoms iv rigid =
     {transform_terms_atom (inst m) p | m p. p \<in> set (inv_atoms iv) \<and> rigid \<subseteq>\<^sub>m m \<and> ran m \<subseteq> range Obj \<and>
        dom m = {0..<inv_num_rigid_variables iv + inv_num_counted_variables iv}}"

text \<open>
  Predicates \<open>P\<close>, \<open>R\<close> and \<open>S\<close> are 0, 1 and 2. The action \<open>a(x)\<close> requires \<open>R(x)\<close>, adds \<open>P(x)\<close> and deletes
  \<open>S(x)\<close>, and deletes \<open>R(x)\<close> when \<open>S(x)\<close> does not hold.
\<close>

definition lit1 :: "nat \<Rightarrow> bool \<Rightarrow> mutable_literal" where
  "lit1 p polarity = \<lparr>ml_atom = \<lparr>ma_predicate = p, ma_terms = [Param 0]\<rparr>, ml_polarity = polarity\<rparr>"

definition unsound_action :: mutable_action where
  "unsound_action =
     \<lparr>mact_num_variables = 1,
      mact_condition = \<lparr>mc_num_parent_variables = 1, mc_num_variables = 1, mc_static_literals = [], mc_fluent_literals = [lit1 1 True]\<rparr>,
      mact_effects =
        [\<lparr>mce_num_parent_variables = 1, mce_num_variables = 0,
          mce_condition = \<lparr>mc_num_parent_variables = 1, mc_num_variables = 0, mc_static_literals = [], mc_fluent_literals = []\<rparr>,
          mce_effect = \<lparr>me_num_parent_variables = 1, me_num_variables = 0, me_literals = [lit1 0 True, lit1 2 False]\<rparr>\<rparr>,
         \<lparr>mce_num_parent_variables = 1, mce_num_variables = 0,
          mce_condition = \<lparr>mc_num_parent_variables = 1, mc_num_variables = 0, mc_static_literals = [], mc_fluent_literals = [lit1 2 False]\<rparr>,
          mce_effect = \<lparr>me_num_parent_variables = 1, me_num_variables = 0, me_literals = [lit1 1 False]\<rparr>\<rparr>]\<rparr>"

definition unsound_invariant :: invariant where
  "unsound_invariant = invariant_make 1 0 [ml_atom (lit1 0 True), ml_atom (lit1 1 True)]"

lemma unsound_proven: "prove_invariant (\<lambda>_. ''p'') unsound_invariant [unsound_action] = Inr (Some Proven)"
  by code_simp

definition fact1 :: "nat \<Rightarrow> mutable_atom" where
  "fact1 p = \<lparr>ma_predicate = p, ma_terms = [Obj 0]\<rparr>"

lemma transform_lit1 [simp]: "m 0 = Some (Obj 0) \<Longrightarrow> transform_terms_atom (inst m) (ml_atom (lit1 p b)) = fact1 p"
  by (simp add: lit1_def fact1_def transform_terms_atom_def transform_terms_vector_def)

lemma fact1_inj [simp]: "fact1 p = fact1 q \<longleftrightarrow> p = q"
  by (simp add: fact1_def)

text \<open>For effects without variables of their own, the binding of the action is the only one.\<close>

lemma effect_atoms_ground:
  assumes "\<And>eff. eff \<in> set (mact_effects act) \<Longrightarrow> mce_num_variables eff = 0"
  shows "effect_atoms m act state polarity =
    {transform_terms_atom (inst m) (ml_atom lit) | lit eff. eff \<in> set (mact_effects act) \<and>
       (\<forall>l \<in> set (mc_fluent_literals (mce_condition eff)). holds_literal m state l) \<and>
       lit \<in> set (me_literals (mce_effect eff)) \<and> ml_polarity lit = polarity}" (is "?L = ?R")
proof (intro equalityI subsetI)
  fix x assume "x \<in> ?L"
  then obtain m' lit eff where x: "x = transform_terms_atom (inst m') (ml_atom lit)" "eff \<in> set (mact_effects act)" "m \<subseteq>\<^sub>m m'"
    "dom m' = dom m \<union> {mce_num_parent_variables eff..<mce_num_parent_variables eff + mce_num_variables eff}"
    "\<forall>l \<in> set (mc_fluent_literals (mce_condition eff)). holds_literal m' state l"
    "lit \<in> set (me_literals (mce_effect eff))" "ml_polarity lit = polarity"
    unfolding effect_atoms_def by blast
  have "m' = m" using x(3,4) assms [OF x(2)] by (intro map_le_antisym) (auto simp: map_le_def)
  with x show "x \<in> ?R" by blast
next
  fix x assume "x \<in> ?R"
  then obtain lit eff where x: "x = transform_terms_atom (inst m) (ml_atom lit)" "eff \<in> set (mact_effects act)"
    "\<forall>l \<in> set (mc_fluent_literals (mce_condition eff)). holds_literal m state l"
    "lit \<in> set (me_literals (mce_effect eff))" "ml_polarity lit = polarity" by blast
  then show "x \<in> ?L" unfolding effect_atoms_def using assms [OF x(2)]
    by (intro CollectI exI [of _ m] exI [of _ lit] exI [of _ eff]) simp
qed

lemma lit1_polarity [simp]: "ml_polarity (lit1 p b) = b"
  by (simp add: lit1_def)

lemma unsound_effects:
  "effect_atoms [0 \<mapsto> Obj 0] unsound_action {fact1 1, fact1 2} False = {fact1 2}"
  "effect_atoms [0 \<mapsto> Obj 0] unsound_action {fact1 1, fact1 2} True = {fact1 0}"
proof -
  let ?m = "[0 \<mapsto> Obj 0] :: nat \<rightharpoonup> tterm" and ?s = "{fact1 1, fact1 2}"
  have v: "\<And>eff. eff \<in> set (mact_effects unsound_action) \<Longrightarrow> mce_num_variables eff = 0"
    by (auto simp: unsound_action_def)
  have "effect_atoms ?m unsound_action ?s polarity =
    (if polarity then {fact1 0} else {fact1 2})" for polarity
    by (subst effect_atoms_ground [OF v], assumption)
       (auto simp: unsound_action_def holds_literal_def Bex_def conj_disj_distribL conj_disj_distribR ex_disj_distrib simp flip: ex_simps)
  then show "effect_atoms ?m unsound_action ?s False = {fact1 2}" "effect_atoms ?m unsound_action ?s True = {fact1 0}" by simp_all
qed

lemma unsound_instance: "instance_atoms unsound_invariant [0 \<mapsto> Obj 0] = {fact1 0, fact1 1}"
proof -
  have atoms: "set (inv_atoms unsound_invariant) = {ml_atom (lit1 0 True), ml_atom (lit1 1 True)}"
    "inv_num_rigid_variables unsound_invariant = 1" "inv_num_counted_variables unsound_invariant = 0"
    by (auto simp: unsound_invariant_def invariant_make_def canonicalize_def Let_def)
  have "m 0 = Some (Obj 0)" if "[0 \<mapsto> Obj 0] \<subseteq>\<^sub>m m" for m :: "nat \<rightharpoonup> tterm" using that by (auto simp: map_le_def)
  then have "instance_atoms unsound_invariant [0 \<mapsto> Obj 0] \<subseteq> {fact1 0, fact1 1}"
    by (auto simp: instance_atoms_def atoms)
  moreover have "fact1 p \<in> instance_atoms unsound_invariant [0 \<mapsto> Obj 0]" if "p = 0 \<or> p = 1" for p
    unfolding instance_atoms_def atoms using that
    by (intro CollectI exI [of _ "[0 \<mapsto> Obj 0]"] exI [of _ "ml_atom (lit1 p True)"]) auto
  ultimately show ?thesis by auto
qed

text \<open>
  C29. \<open>build_add_effect_produced_by_pred\<close> takes the effect literals of the add effect for conditions that
  hold before the action (it reads \<open>add_effect.effect.literals\<close>, not
  \<open>add_effect.condition.fluent_literals\<close>). The candidate \<open>{P(x), R(x)}\<close> is therefore accepted for the
  action above, and applying the action to \<open>{R(a), S(a)}\<close>, where one atom of the candidate's instance
  holds, gives a state where two hold.
\<close>

theorem prove_invariant_unsound:
  "prove_invariant (\<lambda>_. ''p'') unsound_invariant [unsound_action] = Inr (Some Proven) \<and>
   applicable_action [0 \<mapsto> Obj 0] unsound_action {fact1 1, fact1 2} \<and>
   card ({fact1 1, fact1 2} \<inter> instance_atoms unsound_invariant [0 \<mapsto> Obj 0]) = 1 \<and>
   card (apply_action [0 \<mapsto> Obj 0] unsound_action {fact1 1, fact1 2} \<inter> instance_atoms unsound_invariant [0 \<mapsto> Obj 0]) = 2"
proof (intro conjI)
  show "applicable_action [0 \<mapsto> Obj 0] unsound_action {fact1 1, fact1 2}"
    by (auto simp: applicable_action_def unsound_action_def holds_literal_def)
  have "{fact1 1, fact1 2} \<inter> {fact1 0, fact1 1} = {fact1 1}" by auto
  then show "card ({fact1 1, fact1 2} \<inter> instance_atoms unsound_invariant [0 \<mapsto> Obj 0]) = 1" by (simp add: unsound_instance)
  have "apply_action [0 \<mapsto> Obj 0] unsound_action {fact1 1, fact1 2} \<inter> {fact1 0, fact1 1} = {fact1 0, fact1 1}"
    unfolding apply_action_def unsound_effects by auto
  then show "card (apply_action [0 \<mapsto> Obj 0] unsound_action {fact1 1, fact1 2} \<inter> instance_atoms unsound_invariant [0 \<mapsto> Obj 0]) = 2"
    by (simp add: unsound_instance)
qed (rule unsound_proven)

section \<open>Universal effects\<close>

text \<open>
  The test for heavy actions compares different add effects only, so one universal effect that adds several atoms of an instance is
  not heavy. The action requires and deletes \<open>R(x)\<close> and adds \<open>P(x, y)\<close> for all \<open>y\<close>; the candidate counts \<open>P(x, y)\<close> over all \<open>y\<close> and \<open>R(x)\<close>.
\<close>

definition universal_action :: mutable_action where
  "universal_action =
     \<lparr>mact_num_variables = 1,
      mact_condition = \<lparr>mc_num_parent_variables = 1, mc_num_variables = 1, mc_static_literals = [], mc_fluent_literals = [lit1 1 True]\<rparr>,
      mact_effects =
        [\<lparr>mce_num_parent_variables = 1, mce_num_variables = 1,
          mce_condition = \<lparr>mc_num_parent_variables = 1, mc_num_variables = 1, mc_static_literals = [], mc_fluent_literals = []\<rparr>,
          mce_effect = \<lparr>me_num_parent_variables = 1, me_num_variables = 1,
            me_literals = [\<lparr>ml_atom = \<lparr>ma_predicate = 0, ma_terms = [Param 0, Param 1]\<rparr>, ml_polarity = True\<rparr>]\<rparr>\<rparr>,
         \<lparr>mce_num_parent_variables = 1, mce_num_variables = 0,
          mce_condition = \<lparr>mc_num_parent_variables = 1, mc_num_variables = 0, mc_static_literals = [], mc_fluent_literals = []\<rparr>,
          mce_effect = \<lparr>me_num_parent_variables = 1, me_num_variables = 0, me_literals = [lit1 1 False]\<rparr>\<rparr>]\<rparr>"

lemma universal_proven:
  "prove_invariant (\<lambda>_. ''p'') (invariant_make 1 1 [\<lparr>ma_predicate = 0, ma_terms = [Param 0, Param 1]\<rparr>, ml_atom (lit1 1 True)]) [universal_action]
    = Inr (Some Proven)"
  by code_simp

lemma universal_adds:
  "\<lparr>ma_predicate = 0, ma_terms = [Obj 0, Obj i]\<rparr> \<in> effect_atoms [0 \<mapsto> Obj 0] universal_action state True"
proof -
  let ?m = "[0 \<mapsto> Obj 0, 1 \<mapsto> Obj i] :: nat \<rightharpoonup> tterm" and ?eff = "hd (mact_effects universal_action)"
  let ?lit = "\<lparr>ml_atom = \<lparr>ma_predicate = 0, ma_terms = [Param 0, Param 1]\<rparr>, ml_polarity = True\<rparr>"
  have "[0 \<mapsto> Obj 0] \<subseteq>\<^sub>m ?m" by (auto simp: map_le_def)
  moreover have "\<lparr>ma_predicate = 0, ma_terms = [Obj 0, Obj i]\<rparr> = transform_terms_atom (inst ?m) (ml_atom ?lit)"
    by (simp add: transform_terms_atom_def transform_terms_vector_def)
  ultimately show ?thesis
    unfolding effect_atoms_def by (intro CollectI exI [of _ ?m] exI [of _ ?lit] exI [of _ ?eff]) (auto simp: universal_action_def)
qed

end
