(* ===== verification/Invariant_Synthesis.thy ===== *)
theory Invariant_Synthesis
  imports Invariant_Matching Invariant_Proof "HOL-Library.Multiset" "HOL-Library.Multiset_Order"
begin

text \<open>
  \<^verbatim>\<open>src/formalism/planning/invariants/refinement.cpp\<close> and \<^verbatim>\<open>synthesis.cpp\<close>: the candidates to start from, the refinement
  of a candidate that fails, and the search for invariants. Every refinement adds an atom of a
  new predicate, so the search ends.
\<close>

section \<open>Positions and parameters\<close>

text \<open>\<open>emplace\<close> keeps the first value of a parameter; the map is iterated in the order of its keys.\<close>

definition get_parameters_from_part :: "mutable_atom \<Rightarrow> mutable_atom \<Rightarrow> nat \<Rightarrow> (nat \<times> tterm) list" where
  "get_parameters_from_part part lit num_rigid_variables =
     map (\<lambda>p. (p, ma_terms lit ! (length (takeWhile (\<lambda>t. t \<noteq> Param p) (ma_terms part)))))
       (filter (\<lambda>p. Param p \<in> set (ma_terms part)) [0..<num_rigid_variables])"

text \<open>\<open>optional_parameter_less\<close> puts the empty option last.\<close>

fun optional_parameter_key :: "nat option \<Rightarrow> nat \<times> nat" where
  "optional_parameter_key (Some p) = (0, p)"
| "optional_parameter_key None = (1, 0)"

text \<open>The orders that \<open>std::next_permutation\<close> visits, from a sorted list of different elements on.\<close>

function lex_permutations :: "'a list \<Rightarrow> 'a list list" where
  "lex_permutations xs =
     (if xs = [] then [[]] else concat (map (\<lambda>x. map (\<lambda>ys. x # ys) (lex_permutations (remove1 x xs))) xs))"
  by pat_completeness auto
termination
  by (relation "measure length") (auto simp: length_remove1 neq_Nil_conv)

declare lex_permutations.simps [simp del]

type_synonym position_mapping = "(nat \<times> nat option) list"

fun instantiate_factored_mapping :: "(nat list \<times> nat option list) list \<Rightarrow> position_mapping list" where
  "instantiate_factored_mapping [] = [[]]"
| "instantiate_factored_mapping ((positions, images) # groups) =
     concat (map (\<lambda>perm. map (\<lambda>rest. zip positions perm @ rest) (instantiate_factored_mapping groups))
       (lex_permutations (sort_key optional_parameter_key images)))"

text \<open>The loop over the arguments of the other literal, in the order of the terms; \<open>None\<close> is the early return.\<close>

fun factor_loop ::
  "(nat \<times> tterm) list \<Rightarrow> mutable_atom \<Rightarrow> nat \<Rightarrow> tterm list \<Rightarrow> (nat list \<times> nat option list) list option" where
  "factor_loop own_parameters other allowed_omissions [] = Some []"
| "factor_loop own_parameters other allowed_omissions (t # ts) =
     (let inv_params = map fst (filter (\<lambda>(p, u). u = t) own_parameters);
          other_positions = filter (\<lambda>pos. ma_terms other ! pos = t) [0..<length (ma_terms other)];
          len_diff = int (length inv_params) - int (length other_positions)
      in if len_diff \<ge> 1 \<or> len_diff \<le> -2 \<or> (len_diff = -1 \<and> allowed_omissions = 0) then None
         else
           let images = map Some inv_params @ (if len_diff \<noteq> 0 then [None] else []) in
           map_option (\<lambda>rest. (other_positions, images) # rest)
             (factor_loop own_parameters other (if len_diff \<noteq> 0 then 0 else allowed_omissions) ts))"

definition possible_mappings :: "mutable_atom \<Rightarrow> mutable_atom \<Rightarrow> mutable_atom \<Rightarrow> nat \<Rightarrow> position_mapping list" where
  "possible_mappings part own_literal other_literal num_rigid_variables =
     (let arity = part_arity part num_rigid_variables;
          n = length (ma_terms other_literal)
      in if n < arity \<or> n - arity > 1 then []
         else case factor_loop (get_parameters_from_part part own_literal num_rigid_variables) other_literal (n - arity)
                (sort (remdups (ma_terms other_literal))) of
                None \<Rightarrow> []
              | Some factored_mapping \<Rightarrow> instantiate_factored_mapping factored_mapping)"

definition possible_matches :: "mutable_atom \<Rightarrow> mutable_atom \<Rightarrow> mutable_atom \<Rightarrow> nat \<Rightarrow> mutable_atom list" where
  "possible_matches part own_literal other_literal num_rigid_variables =
     map (\<lambda>mapping. \<lparr>ma_predicate = ma_predicate other_literal,
            ma_terms = foldl (\<lambda>args (other_pos, inv_var).
                args[other_pos := Param (case inv_var of None \<Rightarrow> num_rigid_variables | Some p \<Rightarrow> p)])
              (replicate (length (ma_terms other_literal)) (Param num_rigid_variables)) mapping\<rparr>)
       (possible_mappings part own_literal other_literal num_rigid_variables)"

section \<open>Refinement\<close>

text \<open>
  One match of the innermost loop of \<open>refine_candidate\<close>. The balance test has a value on every input
  (\<open>is_add_effect_unbalanced_spec\<close>), so the case without one does not arise.
\<close>

definition refine_with ::
  "invariant \<Rightarrow> mutable_action \<Rightarrow> mutable_conditional_effect \<Rightarrow> mutable_atom \<Rightarrow> invariant list \<Rightarrow> mutable_atom \<Rightarrow> invariant list result" where
  "refine_with iv act effect add_atom res phi_prime =
     (case covers iv phi_prime of
        Inl e \<Rightarrow> Inl e
      | Inr c \<Rightarrow>
          if c then Inr res
          else
            let new_num_counted_variables = max (inv_num_counted_variables iv)
                  (if atom_uses_counted phi_prime (inv_num_rigid_variables iv) then 1 else 0);
                refined = invariant_make (inv_num_rigid_variables iv) new_num_counted_variables (inv_atoms iv @ [phi_prime])
            in case normalize_invariant refined of
                 Inl e \<Rightarrow> Inl e
               | Inr refined \<Rightarrow>
                   (case is_add_effect_unbalanced act effect add_atom refined of
                      None \<Rightarrow> Inl Logic_Error
                    | Some u \<Rightarrow> Inr (if \<not> u then res @ [refined] else res)))"

definition refine_candidate :: "invariant \<Rightarrow> threat \<Rightarrow> mutable_action list \<Rightarrow> invariant list result" where
  "refine_candidate iv th acts =
     (let act = acts ! th_op_index th;
          effect = mact_effects act ! th_effect_index th;
          add_atom = ml_atom (me_literals (mce_effect effect) ! th_add_index th)
      in case find_part iv (ma_predicate add_atom) of
           None \<Rightarrow> Inr []
         | Some part \<Rightarrow>
             fold_result (\<lambda>res conj_effect.
               fold_result (\<lambda>res lit.
                 if ml_polarity lit then Inr res
                 else if ma_predicate (ml_atom lit) \<in> inv_predicates iv then Inr res
                 else fold_result (refine_with iv act effect add_atom) res
                        (possible_matches part add_atom (ml_atom lit) (inv_num_rigid_variables iv)))
               res (me_literals (mce_effect conj_effect)))
             [] (mact_effects act))"

text \<open>The predicates of the domain are given by their indices and arities.\<close>

definition make_initial_candidates :: "(nat \<times> nat) list \<Rightarrow> invariant list" where
  "make_initial_candidates predicates =
     concat (map (\<lambda>(p, arity).
       invariant_make arity 0 [make_initial_atom p arity arity] #
       map (\<lambda>counted_position. invariant_make (arity - 1) 1 [make_initial_atom p arity counted_position]) [0..<arity]) predicates)"

section \<open>Synthesis\<close>

text \<open>
  The while loop: the queue is a stack (\<open>back\<close> and \<open>pop_back\<close>). \<open>None\<close> would mean that the loop does
  not return.
\<close>

partial_function (option) synthesis_loop ::
  "(nat \<Rightarrow> string) \<Rightarrow> mutable_action list \<Rightarrow> invariant list \<Rightarrow> invariant list \<Rightarrow> invariant set \<Rightarrow> invariant list result option" where
  "synthesis_loop name_of acts queue accepted seen =
     (if queue = [] then Some (Inr accepted)
      else
        let candidate = last queue; queue = butlast queue;
            candidate = invariant_make (inv_num_rigid_variables candidate) (inv_num_counted_variables candidate) (inv_atoms candidate)
        in case normalize_invariant candidate of
             Inl e \<Rightarrow> Some (Inl e)
           | Inr candidate \<Rightarrow>
               if candidate \<in> seen then synthesis_loop name_of acts queue accepted seen
               else
                 let seen = insert candidate seen in
                 case prove_invariant name_of candidate acts of
                   Inl e \<Rightarrow> Some (Inl e)
                 | Inr None \<Rightarrow> None
                 | Inr (Some Proven) \<Rightarrow> synthesis_loop name_of acts queue (accepted @ [candidate]) seen
                 | Inr (Some Too_Heavy) \<Rightarrow> synthesis_loop name_of acts queue accepted seen
                 | Inr (Some (Unbalanced_Add_Effect th)) \<Rightarrow>
                     (case refine_candidate candidate th acts of
                        Inl e \<Rightarrow> Some (Inl e)
                      | Inr refined \<Rightarrow> synthesis_loop name_of acts (queue @ refined) accepted seen))"

definition synthesize_invariants :: "(nat \<Rightarrow> string) \<Rightarrow> action_view list \<Rightarrow> (nat \<times> nat) list \<Rightarrow> invariant list result option" where
  "synthesize_invariants name_of actions predicates =
     synthesis_loop name_of (map action_of_view actions) (make_initial_candidates predicates) [] {}"

section \<open>Candidates have different predicates\<close>

abbreviation inv_preds :: "invariant \<Rightarrow> nat list" where
  "inv_preds iv \<equiv> map ma_predicate (inv_atoms iv)"

definition candidate_ok :: "nat set \<Rightarrow> invariant \<Rightarrow> bool" where
  "candidate_ok P iv \<longleftrightarrow> distinct (inv_preds iv) \<and> set (inv_preds iv) \<subseteq> P"

lemma canonicalize_atoms_distinct_preds:
  assumes "distinct (map ma_predicate atoms)" shows "distinct (map ma_predicate (canonicalize_atoms atoms))"
proof -
  have "inj_on ma_predicate (set atoms)" using assms by (simp add: distinct_map)
  then show ?thesis by (simp add: distinct_map distinct_canonicalize_atoms)
qed

lemma canonicalize_preds:
  "set (inv_preds (canonicalize iv)) = set (inv_preds iv)" "inv_predicates (canonicalize iv) = set (inv_preds iv)"
  "distinct (inv_preds iv) \<Longrightarrow> distinct (inv_preds (canonicalize iv))"
  by (auto simp: canonicalize_def Let_def canonicalize_atoms_distinct_preds)

lemma invariant_make_preds:
  "set (inv_preds (invariant_make r c atoms)) = set (map ma_predicate atoms)"
  "distinct (map ma_predicate atoms) \<Longrightarrow> distinct (inv_preds (invariant_make r c atoms))"
  using canonicalize_preds by (simp_all add: invariant_make_def)

lemma normalize_preds:
  assumes "distinct (inv_preds iv)"
  shows "\<exists>iv'. normalize_invariant iv = Inr iv' \<and> set (inv_preds iv') = set (inv_preds iv) \<and> distinct (inv_preds iv') \<and>
    inv_predicates iv' = set (inv_preds iv)"
proof -
  have "inv_preds (remove_unused_parameters iv) = inv_preds iv" by (simp add: remove_unused_parameters_def Let_def)
  then show ?thesis
    using canonicalize_preds [of "remove_unused_parameters iv"] assms
    by (simp add: normalize_invariant_def remove_covered_atoms_distinct)
qed

definition deleted_predicates :: "mutable_action list \<Rightarrow> nat set" where
  "deleted_predicates acts =
     {ma_predicate (ml_atom lit) | lit eff act. act \<in> set acts \<and> eff \<in> set (mact_effects act) \<and>
        lit \<in> set (me_literals (mce_effect eff)) \<and> \<not> ml_polarity lit}"

lemma finite_deleted_predicates: "finite (deleted_predicates acts)"
proof -
  have "deleted_predicates acts \<subseteq> (\<Union>act \<in> set acts. \<Union>eff \<in> set (mact_effects act).
      (\<lambda>lit. ma_predicate (ml_atom lit)) ` set (me_literals (mce_effect eff)))"
    by (auto simp: deleted_predicates_def)
  then show ?thesis by (rule finite_subset) auto
qed

text \<open>A refinement has one predicate more, one that the action deletes.\<close>

definition refines :: "mutable_action \<Rightarrow> invariant \<Rightarrow> invariant \<Rightarrow> bool" where
  "refines act iv refined \<longleftrightarrow> distinct (inv_preds refined) \<and>
     (\<exists>p \<in> deleted_predicates [act]. p \<notin> set (inv_preds iv) \<and> set (inv_preds refined) = insert p (set (inv_preds iv)))"

lemma refine_with_spec:
  assumes "distinct (inv_preds iv)" "ma_predicate phi \<in> deleted_predicates [act]" "ma_predicate phi \<notin> set (inv_preds iv)"
    and "list_all (refines act iv) res"
  shows "\<exists>res'. refine_with iv act effect add_atom res phi = Inr res' \<and> list_all (refines act iv) res'"
proof -
  define refined where "refined = invariant_make (inv_num_rigid_variables iv)
    (max (inv_num_counted_variables iv) (if atom_uses_counted phi (inv_num_rigid_variables iv) then 1 else 0)) (inv_atoms iv @ [phi])"
  have "distinct (inv_preds refined)" "set (inv_preds refined) = insert (ma_predicate phi) (set (inv_preds iv))"
    using invariant_make_preds [where atoms = "inv_atoms iv @ [phi]"] assms(1,3) by (auto simp: refined_def)
  then obtain r where r: "normalize_invariant refined = Inr r" "refines act iv r"
    using normalize_preds [of refined] assms(2,3) by (auto simp: refines_def)
  obtain c where "covers iv phi = Inr c" using covers_total by blast
  with r assms(4) show ?thesis
    by (auto simp: refine_with_def Let_def refined_def [symmetric] is_add_effect_unbalanced_spec)
qed

lemma possible_matches_predicate: "phi \<in> set (possible_matches part own other n) \<Longrightarrow> ma_predicate phi = ma_predicate other"
  by (auto simp: possible_matches_def)

lemma refine_candidate_spec:
  assumes "distinct (inv_preds iv)" "inv_predicates iv = set (inv_preds iv)"
  shows "\<exists>res. refine_candidate iv th acts = Inr res \<and> list_all (refines (acts ! th_op_index th) iv) res"
proof -
  define act where "act = acts ! th_op_index th"
  define effect where "effect = mact_effects act ! th_effect_index th"
  define add_atom where "add_atom = ml_atom (me_literals (mce_effect effect) ! th_add_index th)"
  let ?P = "list_all (refines act iv)"
  have matches: "\<exists>res'. fold_result (refine_with iv act effect add_atom) res (possible_matches part add_atom (ml_atom lit) n) = Inr res' \<and> ?P res'"
    if "?P res" "eff \<in> set (mact_effects act)" "lit \<in> set (me_literals (mce_effect eff))" "\<not> ml_polarity lit"
      "ma_predicate (ml_atom lit) \<notin> set (inv_preds iv)" for res part lit n eff
  proof (rule fold_result_invariant [where P = ?P, OF _ that(1)])
    fix res phi assume "phi \<in> set (possible_matches part add_atom (ml_atom lit) n)" "?P res"
    moreover from this have "ma_predicate phi \<in> deleted_predicates [act]"
      using that possible_matches_predicate by (fastforce simp: deleted_predicates_def)
    ultimately show "\<exists>res'. refine_with iv act effect add_atom res phi = Inr res' \<and> ?P res'"
      using refine_with_spec [OF assms(1)] that(5) possible_matches_predicate by metis
  qed
  have lits: "\<exists>res'. fold_result (\<lambda>res lit.
      if ml_polarity lit then Inr res
      else if ma_predicate (ml_atom lit) \<in> inv_predicates iv then Inr res
      else fold_result (refine_with iv act effect add_atom) res (possible_matches part add_atom (ml_atom lit) (inv_num_rigid_variables iv)))
      res (me_literals (mce_effect eff)) = Inr res' \<and> ?P res'" if "?P res" "eff \<in> set (mact_effects act)" for res part eff
    by (rule fold_result_invariant [where P = ?P, OF _ that(1)]) (use matches [OF _ that(2)] assms(2) in auto)
  have "\<exists>res'. fold_result (\<lambda>res eff. fold_result (\<lambda>res lit.
      if ml_polarity lit then Inr res
      else if ma_predicate (ml_atom lit) \<in> inv_predicates iv then Inr res
      else fold_result (refine_with iv act effect add_atom) res (possible_matches part add_atom (ml_atom lit) (inv_num_rigid_variables iv)))
      res (me_literals (mce_effect eff))) [] (mact_effects act) = Inr res' \<and> ?P res'" for part
    by (rule fold_result_invariant [where P = ?P]) (use lits in auto)
  then show ?thesis
    unfolding refine_candidate_def Let_def act_def [symmetric] effect_def [symmetric] add_atom_def [symmetric]
    by (cases "find_part iv (ma_predicate add_atom)") auto
qed

section \<open>The search ends\<close>

definition candidate_rank :: "nat set \<Rightarrow> invariant \<Rightarrow> nat" where
  "candidate_rank P iv = card P - card (set (inv_preds iv))"

definition queue_rank :: "nat set \<Rightarrow> invariant list \<Rightarrow> nat multiset" where
  "queue_rank P queue = image_mset (candidate_rank P) (mset queue)"

lemma refined_rank:
  assumes "finite P" "candidate_ok P iv" "refines act iv refined" "deleted_predicates [act] \<subseteq> P"
  shows "candidate_ok P refined" and "candidate_rank P refined < candidate_rank P iv"
proof -
  obtain p where p: "p \<in> P" "p \<notin> set (inv_preds iv)" "set (inv_preds refined) = insert p (set (inv_preds iv))"
    using assms(3,4) by (auto simp: refines_def)
  show "candidate_ok P refined" using p assms(2,3) by (auto simp: candidate_ok_def refines_def)
  have "card (set (inv_preds iv)) < card P"
    using assms(1,2) p by (intro psubset_card_mono) (auto simp: candidate_ok_def)
  then show "candidate_rank P refined < candidate_rank P iv" using p by (simp add: candidate_rank_def)
qed

lemma queue_rank_pop: "queue \<noteq> [] \<Longrightarrow> queue_rank P queue = queue_rank P (butlast queue) + {#candidate_rank P (last queue)#}"
  by (cases queue rule: rev_cases) (auto simp: queue_rank_def)

lemma queue_rank_decreases:
  assumes "queue \<noteq> []" "\<And>r. r \<in> set refined \<Longrightarrow> candidate_rank P r < candidate_rank P (last queue)"
  shows "queue_rank P (butlast queue @ refined) < queue_rank P queue"
proof -
  have "image_mset (candidate_rank P) (mset refined) < {#candidate_rank P (last queue)#}"
    using assms(2) by (intro ex_gt_imp_less_multiset) auto
  then show ?thesis using assms(1) by (simp add: queue_rank_pop) (simp add: queue_rank_def)
qed

lemma prove_invariant_total: "\<exists>r. prove_invariant name_of iv acts = Inr (Some r)"
  unfolding prove_invariant_def by (rule prove_loop_total)

lemma threat_index:
  "prove_invariant name_of iv acts = Inr (Some (Unbalanced_Add_Effect th)) \<Longrightarrow> th_op_index th < length acts"
  using prove_loop_Unbalanced [of name_of iv 0 acts th] by (auto simp: prove_invariant_def)

lemma deleted_predicates_member: "act \<in> set acts \<Longrightarrow> deleted_predicates [act] \<subseteq> deleted_predicates acts"
  by (auto simp: deleted_predicates_def)

text \<open>What the loop keeps: candidates have different predicates out of a finite set, accepted ones are proved.\<close>

definition accepted_ok :: "(nat \<Rightarrow> string) \<Rightarrow> mutable_action list \<Rightarrow> invariant list \<Rightarrow> invariant set \<Rightarrow> bool" where
  "accepted_ok name_of acts accepted seen \<longleftrightarrow> distinct accepted \<and> set accepted \<subseteq> seen \<and>
     (\<forall>iv \<in> set accepted. \<forall>act \<in> set acts. keeps_invariant name_of iv act)"

lemma synthesis_loop_spec:
  assumes fin: "finite P" and del: "deleted_predicates acts \<subseteq> P"
    and "list_all (candidate_ok P) queue" "accepted_ok name_of acts accepted seen"
  shows "\<exists>res seen'. synthesis_loop name_of acts queue accepted seen = Some (Inr res) \<and> accepted_ok name_of acts res seen'"
  using assms(3,4)
proof (induction "queue_rank P queue" arbitrary: queue accepted seen rule: less_induct)
  case less
  show ?case
  proof (cases "queue = []")
    case True
    then show ?thesis using less.prems(2) by (subst synthesis_loop.simps) auto
  next
    case False
    define cand where "cand = invariant_make (inv_num_rigid_variables (last queue)) (inv_num_counted_variables (last queue)) (inv_atoms (last queue))"
    have lq: "candidate_ok P (last queue)" and bq: "list_all (candidate_ok P) (butlast queue)"
      using less.prems(1) False by (auto simp: list_all_iff dest: in_set_butlastD)
    have cand: "set (inv_preds cand) = set (inv_preds (last queue))" "distinct (inv_preds cand)"
      using invariant_make_preds [where atoms = "inv_atoms (last queue)"] lq unfolding cand_def candidate_ok_def by blast+
    obtain iv where iv: "normalize_invariant cand = Inr iv" "set (inv_preds iv) = set (inv_preds (last queue))"
      "distinct (inv_preds iv)" "inv_predicates iv = set (inv_preds iv)"
      using normalize_preds [OF cand(2)] cand(1) by auto
    have ivok: "candidate_ok P iv" "candidate_rank P iv = candidate_rank P (last queue)"
      using iv(2,3) lq by (auto simp: candidate_ok_def candidate_rank_def)
    have dec: "queue_rank P (butlast queue) < queue_rank P queue" using queue_rank_decreases [OF False, of "[]"] by simp
    note step = synthesis_loop.simps [of name_of acts queue accepted seen, unfolded Let_def, folded cand_def]
    show ?thesis
    proof (cases "iv \<in> seen")
      case True
      then show ?thesis using less.hyps [OF dec bq less.prems(2)] iv(1) False by (simp add: step)
    next
      case new: False
      have acc: "accepted_ok name_of acts accepted (insert iv seen)" using less.prems(2) by (auto simp: accepted_ok_def)
      obtain r where r: "prove_invariant name_of iv acts = Inr (Some r)" using prove_invariant_total by blast
      show ?thesis
      proof (cases r)
        case Proven
        have "accepted_ok name_of acts (accepted @ [iv]) (insert iv seen)"
          using acc new less.prems(2) r Proven prove_loop_Proven [of name_of iv 0 acts]
          by (auto simp: accepted_ok_def prove_invariant_def)
        from less.hyps [OF dec bq this] show ?thesis using iv(1) False new r Proven by (simp add: step)
      next
        case Too_Heavy
        from less.hyps [OF dec bq acc] show ?thesis using iv(1) False new r Too_Heavy by (simp add: step)
      next
        case (Unbalanced_Add_Effect th)
        obtain res where res: "refine_candidate iv th acts = Inr res" "list_all (refines (acts ! th_op_index th) iv) res"
          using refine_candidate_spec [OF iv(3,4)] by blast
        have "acts ! th_op_index th \<in> set acts" using threat_index r Unbalanced_Add_Effect by simp
        then have "deleted_predicates [acts ! th_op_index th] \<subseteq> P" using deleted_predicates_member del by blast
        then have R: "candidate_ok P x" "candidate_rank P x < candidate_rank P (last queue)" if "x \<in> set res" for x
          using refined_rank [OF fin ivok(1)] res(2) that ivok(2) by (auto simp: list_all_iff)
        have "list_all (candidate_ok P) (butlast queue @ res)" using bq R(1) by (auto simp: list_all_iff)
        from less.hyps [OF queue_rank_decreases [OF False R(2)] this acc] show ?thesis
          using iv(1) False new r Unbalanced_Add_Effect res(1) by (simp add: step)
      qed
    qed
  qed
qed

lemma initial_candidates_ok:
  "list_all (candidate_ok (fst ` set predicates)) (make_initial_candidates predicates)"
proof -
  have "ma_predicate (make_initial_atom p n c) = p" for p n c by (simp add: make_initial_atom_def)
  then have "candidate_ok (fst ` set predicates) (invariant_make r k [make_initial_atom p n c])" if "(p, n') \<in> set predicates" for r k p n c n'
    using that by (force simp: candidate_ok_def)
  then show ?thesis by (auto simp: make_initial_candidates_def list_all_iff)
qed

lemma candidate_ok_mono: "candidate_ok P iv \<Longrightarrow> P \<subseteq> Q \<Longrightarrow> candidate_ok Q iv"
  by (auto simp: candidate_ok_def)

section \<open>Properties\<close>

text \<open>
  C30. Synthesis of invariants returns, for every list of actions and predicates, without an exception; the
  invariants it returns are different and each has passed the proof for every action: no action
  is too heavy for it and all its add effects are balanced.
\<close>

theorem synthesize_invariants_correct:
  "\<exists>accepted. synthesize_invariants name_of actions predicates = Some (Inr accepted) \<and> distinct accepted \<and>
     (\<forall>iv \<in> set accepted. \<forall>act \<in> set (map action_of_view actions). keeps_invariant name_of iv act)"
proof -
  let ?acts = "map action_of_view actions"
  let ?P = "fst ` set predicates \<union> deleted_predicates ?acts"
  have "list_all (candidate_ok ?P) (make_initial_candidates predicates)"
    using initial_candidates_ok [of predicates] candidate_ok_mono [of _ _ ?P] by (force simp: list_all_iff)
  moreover have "accepted_ok name_of ?acts [] {}" by (simp add: accepted_ok_def)
  ultimately obtain res seen where "synthesis_loop name_of ?acts (make_initial_candidates predicates) [] {} = Some (Inr res)"
    "accepted_ok name_of ?acts res seen"
    using synthesis_loop_spec [of ?P ?acts] finite_deleted_predicates by blast
  then show ?thesis unfolding synthesize_invariants_def accepted_ok_def by blast
qed

theorem synthesize_invariants_correct_witness:
  "\<exists>accepted. synthesize_invariants (\<lambda>_. ''p'') [] [(0, 1)] = Some (Inr accepted) \<and> distinct accepted"
  using synthesize_invariants_correct [of "\<lambda>_. ''p''" "[]" "[(0, 1)]"] by blast

end
