(* ===== verification/Float_Values.thy ===== *)
theory Float_Values
  imports Prelude Complex_Main
begin

text \<open>
  The numbers of \<^verbatim>\<open>include/tyr/common/config.hpp\<close>: \<open>float_t\<close> with the tolerance that the search
  algorithms round to. A finite \<open>double\<close> is a rational number and its arithmetic is exact; positive infinity
  and NaN are kept apart. The theorems about the search algorithms ask for costs that are multiples of the
  tolerance, so that rounding does not change them.
\<close>

datatype fval = Fin rat | Infinity | NaN

fun fless :: "fval \<Rightarrow> fval \<Rightarrow> bool" where
  "fless (Fin a) (Fin b) \<longleftrightarrow> a < b"
| "fless (Fin a) Infinity \<longleftrightarrow> True"
| "fless _ _ \<longleftrightarrow> False"

fun feq :: "fval \<Rightarrow> fval \<Rightarrow> bool" where
  "feq NaN _ \<longleftrightarrow> False"
| "feq _ NaN \<longleftrightarrow> False"
| "feq a b \<longleftrightarrow> a = b"

fun fadd :: "fval \<Rightarrow> fval \<Rightarrow> fval" where
  "fadd (Fin a) (Fin b) = Fin (a + b)"
| "fadd NaN _ = NaN"
| "fadd _ NaN = NaN"
| "fadd _ _ = Infinity"

definition isnan :: "fval \<Rightarrow> bool" where
  "isnan v \<longleftrightarrow> v = NaN"

section \<open>Rounding to the tolerance\<close>

definition abs_epsilon :: rat where
  "abs_epsilon = 1 / 1000000000000"

definition rel_epsilon :: rat where
  "rel_epsilon = 1 / 1000000000000"

definition tolerance :: "rat \<Rightarrow> rat \<Rightarrow> rat" where
  "tolerance lhs rhs = max abs_epsilon (rel_epsilon * max \<bar>lhs\<bar> \<bar>rhs\<bar>)"

text \<open>\<^verbatim>\<open>std::round\<close> rounds a tie away from zero.\<close>

definition std_round :: "rat \<Rightarrow> int" where
  "std_round x = (if x < 0 then - \<lfloor>- x + 1 / 2\<rfloor> else \<lfloor>x + 1 / 2\<rfloor>)"

fun canonicalize_value :: "fval \<Rightarrow> fval" where
  "canonicalize_value (Fin v) = Fin (of_int (std_round (v / abs_epsilon)) * abs_epsilon)"
| "canonicalize_value v = v"

section \<open>Facts\<close>

lemma abs_epsilon_pos: "0 < abs_epsilon"
  by (simp add: abs_epsilon_def)

lemma std_round_of_int [simp]: "std_round (of_int k) = k"
proof -
  have "\<lfloor>of_int j + 1 / 2 :: rat\<rfloor> = j" for j :: int by (rule floor_unique) auto
  from this [of k] this [of "- k"] show ?thesis by (simp add: std_round_def)
qed

lemma std_round_mono:
  assumes "x \<le> y" shows "std_round x \<le> std_round y"
proof (cases "0 \<le> x \<or> y < 0")
  case True
  then show ?thesis using assms by (auto simp: std_round_def intro!: floor_mono)
next
  case False
  then have xy: "x < 0" "\<not> y < 0" by auto
  have "0 \<le> \<lfloor>- x + 1 / 2\<rfloor>" "0 \<le> \<lfloor>y + 1 / 2\<rfloor>" using xy by linarith+
  then have "- \<lfloor>- x + 1 / 2\<rfloor> \<le> \<lfloor>y + 1 / 2\<rfloor>" by linarith
  then show ?thesis using xy unfolding std_round_def by (simp only: if_True if_False)
qed

text \<open>The multiples of the tolerance: \<open>canonicalize_value\<close> maps onto them, fixes them and is monotone.\<close>

definition on_grid :: "rat \<Rightarrow> bool" where
  "on_grid v \<longleftrightarrow> canonicalize_value (Fin v) = Fin v"

lemma on_grid_iff: "on_grid v \<longleftrightarrow> (\<exists>k::int. v = of_int k * abs_epsilon)"
proof
  assume "\<exists>k::int. v = of_int k * abs_epsilon"
  then obtain k :: int where "v = of_int k * abs_epsilon" ..
  then have "v / abs_epsilon = of_int k" using abs_epsilon_pos by simp
  then show "on_grid v" using \<open>v = _\<close> by (simp add: on_grid_def)
qed (auto simp: on_grid_def dest: sym)

lemma on_grid_add: "on_grid a \<Longrightarrow> on_grid b \<Longrightarrow> on_grid (a + b)"
  by (auto simp: on_grid_iff) (metis distrib_right of_int_add)

lemma on_grid_0 [simp]: "on_grid 0"
  by (auto simp: on_grid_iff intro: exI [of _ 0])

lemma on_grid_of_int: "on_grid (of_int k)"
  unfolding on_grid_iff by (rule exI [of _ "k * 1000000000000"]) (simp add: abs_epsilon_def)

lemma on_grid_of_nat: "on_grid (of_nat k)"
  using on_grid_of_int [of "int k"] by simp

lemma canonicalize_grid: "canonicalize_value (Fin v) = Fin w \<Longrightarrow> on_grid w"
  by (auto simp: on_grid_iff)

lemma canonicalize_mono: "v \<le> v' \<Longrightarrow> canonicalize_value (Fin v) = Fin w \<Longrightarrow> canonicalize_value (Fin v') = Fin w' \<Longrightarrow> w \<le> w'"
  using abs_epsilon_pos by (auto intro!: mult_right_mono std_round_mono divide_right_mono)

lemma canonicalize_idem [simp]: "canonicalize_value (canonicalize_value v) = canonicalize_value v"
proof (cases "canonicalize_value v")
  case (Fin w)
  then show ?thesis by (cases v) (use canonicalize_grid on_grid_def in auto)
qed auto

lemma canonicalize_Infinity_iff [simp]: "canonicalize_value v = Infinity \<longleftrightarrow> v = Infinity"
  by (cases v) auto

lemma canonicalize_NaN_iff [simp]: "canonicalize_value v = NaN \<longleftrightarrow> v = NaN"
  by (cases v) auto

text \<open>The error of rounding is at most half the tolerance.\<close>

lemma std_round_error: "\<bar>of_int (std_round x) - x\<bar> \<le> 1 / 2"
proof -
  have "of_int \<lfloor>y + 1 / 2\<rfloor> \<le> y + 1 / 2 \<and> y + 1 / 2 < of_int \<lfloor>y + 1 / 2\<rfloor> + 1" for y :: rat by linarith
  from this [of x] this [of "- x"] show ?thesis unfolding std_round_def abs_le_iff by (cases "x < 0") (simp, linarith)+
qed

lemma canonicalize_error:
  assumes "canonicalize_value (Fin v) = Fin w" shows "\<bar>w - v\<bar> \<le> abs_epsilon / 2"
proof -
  have "\<bar>w - v\<bar> = \<bar>of_int (std_round (v / abs_epsilon)) - v / abs_epsilon\<bar> * abs_epsilon"
    using assms abs_epsilon_pos by (auto simp: left_diff_distrib abs_mult_pos)
  also have "\<dots> \<le> 1 / 2 * abs_epsilon"
    using std_round_error abs_epsilon_pos by (intro mult_right_mono) auto
  finally show ?thesis by simp
qed

lemma feq_iff: "feq a b \<longleftrightarrow> a = b \<and> a \<noteq> NaN"
  by (cases a; cases b) auto

text \<open>The grid is discrete: a nonnegative grid value has a natural number as its number of steps.\<close>

definition grid_steps :: "rat \<Rightarrow> nat" where
  "grid_steps v = nat \<lfloor>v / abs_epsilon\<rfloor>"

lemma grid_steps_less:
  assumes "on_grid a" "on_grid b" "a < b" "0 \<le> a"
  shows "grid_steps a < grid_steps b"
proof -
  obtain j k :: int where jk: "a = of_int j * abs_epsilon" "b = of_int k * abs_epsilon"
    using assms(1,2) by (auto simp: on_grid_iff)
  then have "j < k" "0 \<le> j" using assms(3,4) abs_epsilon_pos by (auto simp: zero_le_mult_iff)
  moreover have "a / abs_epsilon = of_int j" "b / abs_epsilon = of_int k" using jk abs_epsilon_pos by auto
  ultimately show ?thesis by (simp add: grid_steps_def nat_less_iff)
qed

end
