(* ===== verification/Search_Space.thy ===== *)
theory Search_Space
  imports Float_Values
begin

text \<open>
  What the search algorithms share: search nodes and their storage, the search problem that an algorithm
  is called with, the result, and the extraction of a plan from the parent pointers
  (\<^verbatim>\<open>include/tyr/planning/search_node.hpp\<close>, \<^verbatim>\<open>search_space.hpp\<close>, \<^verbatim>\<open>plan.hpp\<close>, \<^verbatim>\<open>algorithms/utils.hpp\<close>). A state is its index in the state
  repository; a node is a state with its metric value. The parent \<open>Index::max()\<close> is \<open>None\<close>. The vector of search
  nodes is a list (see the theory of the segmented vector).
\<close>

section \<open>Search nodes\<close>

datatype node_status = GOAL | DEAD_END | CLOSED | OPEN | NEW

fun status_rank :: "node_status \<Rightarrow> nat" where
  "status_rank GOAL = 0"
| "status_rank DEAD_END = 1"
| "status_rank CLOSED = 2"
| "status_rank OPEN = 3"
| "status_rank NEW = 4"

record search_node =
  g_value :: fval
  parent_state :: "nat option"
  status :: node_status

type_synonym node = "nat \<times> fval"
type_synonym 'l labeled_node = "'l \<times> node"

text \<open>\<open>get_or_create_search_node\<close>, which extends the vector with a default node.\<close>

definition get_or_create :: "'n \<Rightarrow> nat \<Rightarrow> 'n list \<Rightarrow> 'n list" where
  "get_or_create default_node i nodes = nodes @ replicate (Suc i - length nodes) default_node"

section \<open>Search problems and results\<close>

text \<open>
  What an algorithm is called with. \<open>sp_succs\<close> is the successor generator on a node, \<open>sp_heuristic\<close> the heuristic's
  \<open>evaluate\<close>, \<open>sp_preferred\<close> its preferred actions after that evaluation, \<open>sp_static_goal\<close> and \<open>sp_dynamic_goal\<close> the goal
  strategy, \<open>sp_prune_state\<close> and \<open>sp_prune_succ\<close> the pruning strategy. \<open>sp_out_of_time n\<close> is what the stopwatch says
  before iteration \<open>n\<close> of the main loop, \<open>sp_shuffled n\<close> the shuffling of the successors in that iteration
  (the identity when the option is off), \<open>sp_boost\<close> the option of that name. Event handlers do not influence the search.
\<close>

record 'l search_problem =
  sp_start_node :: node
  sp_succs :: "node \<Rightarrow> 'l labeled_node list"
  sp_heuristic :: "nat \<Rightarrow> fval"
  sp_preferred :: "nat \<Rightarrow> 'l \<Rightarrow> bool"
  sp_static_goal :: bool
  sp_dynamic_goal :: "nat \<Rightarrow> bool"
  sp_prune_state :: "nat \<Rightarrow> bool"
  sp_prune_succ :: "nat \<Rightarrow> nat \<Rightarrow> bool \<Rightarrow> bool"
  sp_max_num_states :: nat
  sp_out_of_time :: "nat \<Rightarrow> bool"
  sp_shuffled :: "nat \<Rightarrow> 'l labeled_node list \<Rightarrow> 'l labeled_node list"
  sp_boost :: nat

datatype search_status = IN_PROGRESS | OUT_OF_TIME | OUT_OF_MEMORY | OUT_OF_STATES | FAILED | EXHAUSTED | SOLVED | UNSOLVABLE

record 'l plan =
  plan_start :: node
  plan_succs :: "'l labeled_node list"

definition plan_get_length :: "'l plan \<Rightarrow> nat" where
  "plan_get_length p = length (plan_succs p)"

definition plan_get_cost :: "'l plan \<Rightarrow> fval" where
  "plan_get_cost p = (if plan_get_length p > 0 then snd (snd (last (plan_succs p))) else Fin 0)"

record 'l search_result =
  result_status :: search_status
  result_plan :: "'l plan option"
  result_goal :: "node option"

definition no_plan :: "search_status \<Rightarrow> 'l search_result" where
  "no_plan s = \<lparr>result_status = s, result_plan = None, result_goal = None\<rparr>"

definition solved :: "'l plan \<Rightarrow> node \<Rightarrow> 'l search_result" where
  "solved p n = \<lparr>result_status = SOLVED, result_plan = Some p, result_goal = Some n\<rparr>"

section \<open>Plan extraction\<close>

text \<open>
  The walk along the parent pointers, with the trajectory in reverse order of the pushes. A cycle of
  parents does not end (\<open>None\<close>); a parent that is not stored makes \<open>at\<close> throw.
\<close>

partial_function (option) node_trajectory_loop ::
    "'x search_node_scheme list \<Rightarrow> nat option \<Rightarrow> node list \<Rightarrow> node list result option" where
  "node_trajectory_loop nodes parent trajectory =
     (case parent of None \<Rightarrow> Some (Inr trajectory)
      | Some p \<Rightarrow> if p < length nodes
          then node_trajectory_loop nodes (parent_state (nodes ! p)) ((p, g_value (nodes ! p)) # trajectory)
          else Some (Inl Out_Of_Range))"

declare node_trajectory_loop.simps [code]

definition extract_node_trajectory :: "'x search_node_scheme list \<Rightarrow> nat option \<Rightarrow> node \<Rightarrow> node list result option" where
  "extract_node_trajectory nodes parent final_node = node_trajectory_loop nodes parent [final_node]"

definition same_node :: "node \<Rightarrow> node \<Rightarrow> bool" where
  "same_node m n \<longleftrightarrow> fst m = fst n \<and> feq (snd m) (snd n)"

text \<open>One pass over the trajectory: a step for which no successor matches adds nothing.\<close>

fun label_trajectory :: "(node \<Rightarrow> 'l labeled_node list) \<Rightarrow> node \<Rightarrow> node list \<Rightarrow> 'l labeled_node list" where
  "label_trajectory succs cur [] = []"
| "label_trajectory succs cur (n # ns) =
     (case List.find (\<lambda>e. same_node (snd e) n) (succs cur) of
        None \<Rightarrow> label_trajectory succs cur ns
      | Some e \<Rightarrow> e # label_trajectory succs (snd e) ns)"

definition extract_labeled_node_trajectory :: "(node \<Rightarrow> 'l labeled_node list) \<Rightarrow> node list \<Rightarrow> 'l labeled_node list" where
  "extract_labeled_node_trajectory succs trajectory = label_trajectory succs (hd trajectory) (tl trajectory)"

definition extract_total_ordered_plan ::
    "(node \<Rightarrow> 'l labeled_node list) \<Rightarrow> 'x search_node_scheme list \<Rightarrow> nat option \<Rightarrow> node \<Rightarrow> 'l plan result option" where
  "extract_total_ordered_plan succs nodes parent final_node =
     map_option (map_sum id (\<lambda>trajectory. \<lparr>plan_start = hd trajectory,
       plan_succs = extract_labeled_node_trajectory succs trajectory\<rparr>))
       (extract_node_trajectory nodes parent final_node)"

section \<open>Node storage\<close>

text \<open>The content of the vector: an index beyond its end reads as the default node.\<close>

definition node_at :: "'n \<Rightarrow> 'n list \<Rightarrow> nat \<Rightarrow> 'n" where
  "node_at d nodes i = (if i < length nodes then nodes ! i else d)"

lemma length_get_or_create [simp]: "length (get_or_create d i nodes) = max (length nodes) (Suc i)"
  by (auto simp: get_or_create_def)

lemma node_at_get_or_create [simp]: "node_at d (get_or_create d i nodes) j = node_at d nodes j"
  by (auto simp: node_at_def get_or_create_def nth_append)

lemma nth_get_or_create [simp]: "get_or_create d i nodes ! i = node_at d nodes i"
  by (auto simp: node_at_def get_or_create_def nth_append)

lemma node_at_update:
  "i < length nodes \<Longrightarrow> node_at d (nodes[i := n]) j = (if j = i then n else node_at d nodes j)"
  by (auto simp: node_at_def)

section \<open>Correctness of the extraction\<close>

text \<open>A path of labeled steps of the successor generator from one node to another.\<close>

fun is_path :: "(node \<Rightarrow> 'l labeled_node list) \<Rightarrow> node \<Rightarrow> 'l labeled_node list \<Rightarrow> node \<Rightarrow> bool" where
  "is_path succs n [] m \<longleftrightarrow> m = n"
| "is_path succs n (e # es) m \<longleftrightarrow> e \<in> set (succs n) \<and> is_path succs (snd e) es m"

text \<open>The nodes along a chain of parents, with the edges that the successor generator has between them.\<close>

inductive parent_chain :: "'x search_node_scheme list \<Rightarrow> nat \<Rightarrow> nat option \<Rightarrow> nat list \<Rightarrow> bool" for nodes r where
  chain_root: "parent_state (nodes ! r) = None \<Longrightarrow> r < length nodes \<Longrightarrow> parent_chain nodes r (Some r) [r]"
| chain_step: "p < length nodes \<Longrightarrow> parent_chain nodes r (parent_state (nodes ! p)) ps
    \<Longrightarrow> parent_chain nodes r (Some p) (p # ps)"

lemma node_trajectory_loop_chain:
  assumes "parent_chain nodes r parent ps"
  shows "node_trajectory_loop nodes parent acc = Some (Inr (map (\<lambda>p. (p, g_value (nodes ! p))) (rev ps) @ acc))"
  using assms
  by (induction arbitrary: acc rule: parent_chain.induct)
     (simp_all add: node_trajectory_loop.simps [of _ "Some _"] node_trajectory_loop.simps [of _ None])

text \<open>Consecutive nodes of a trajectory are related by the successor generator.\<close>

fun steps_in :: "(node \<Rightarrow> 'l labeled_node list) \<Rightarrow> node \<Rightarrow> node list \<Rightarrow> bool" where
  "steps_in succs n [] \<longleftrightarrow> True"
| "steps_in succs n (m # ms) \<longleftrightarrow> snd m \<noteq> NaN \<and> (\<exists>l. (l, m) \<in> set (succs n)) \<and> steps_in succs m ms"

lemma same_node_iff: "same_node m n \<longleftrightarrow> m = n \<and> snd n \<noteq> NaN"
  by (auto simp: same_node_def feq_iff prod_eq_iff)

lemma label_trajectory_path:
  assumes "steps_in succs n ns"
  shows "is_path succs n (label_trajectory succs n ns) (last (n # ns)) \<and> map snd (label_trajectory succs n ns) = ns"
  using assms
proof (induction ns arbitrary: n)
  case (Cons m ms)
  then obtain l where "(l, m) \<in> set (succs n)" "snd m \<noteq> NaN" by auto
  then obtain e where e: "List.find (\<lambda>e. same_node (snd e) m) (succs n) = Some e" "e \<in> set (succs n)" "snd e = m"
  proof (cases "List.find (\<lambda>e. same_node (snd e) m) (succs n)")
    case None
    then have "\<not> same_node (snd (l, m)) m" using \<open>(l, m) \<in> set (succs n)\<close> unfolding find_None_iff by blast
    then show ?thesis using \<open>snd m \<noteq> NaN\<close> by (simp add: same_node_iff)
  next
    case (Some e)
    then have "e \<in> set (succs n)" "snd e = m" by (auto simp: find_Some_iff same_node_iff)
    with Some show ?thesis by (rule that)
  qed
  with Cons show ?case by simp
qed simp

lemma extract_plan_path:
  assumes "parent_chain nodes r parent ps" "steps_in succs (r, g_value (nodes ! r)) (map (\<lambda>p. (p, g_value (nodes ! p))) (tl (rev ps)) @ [final])"
  shows "\<exists>p. extract_total_ordered_plan succs nodes parent final = Some (Inr p)
    \<and> plan_start p = (r, g_value (nodes ! r)) \<and> is_path succs (plan_start p) (plan_succs p) final
    \<and> map snd (plan_succs p) = map (\<lambda>p. (p, g_value (nodes ! p))) (tl (rev ps)) @ [final]"
proof -
  have "ps \<noteq> [] \<and> last ps = r" using assms(1) by (induction rule: parent_chain.induct) (auto elim: parent_chain.cases)
  then obtain qs where ps: "rev ps = r # qs" by (metis append_butlast_last_id rev.simps(2) rev_rev_ident rev_append rev_singleton_conv append_Cons append_Nil)
  show ?thesis
    using label_trajectory_path [OF assms(2)] node_trajectory_loop_chain [OF assms(1), of "[final]"]
    by (simp add: extract_total_ordered_plan_def extract_node_trajectory_def extract_labeled_node_trajectory_def ps)
qed

text \<open>The path that is stored in the parent pointers, from the start \<open>r\<close> to a state \<open>p\<close>.\<close>

abbreviation stored :: "'x search_node_scheme list \<Rightarrow> nat \<Rightarrow> node" where
  "stored nodes p \<equiv> (p, g_value (nodes ! p))"

definition chain_path :: "(node \<Rightarrow> 'l labeled_node list) \<Rightarrow> 'x search_node_scheme list \<Rightarrow> nat \<Rightarrow> nat \<Rightarrow> nat list \<Rightarrow> bool" where
  "chain_path succs nodes r p ps \<longleftrightarrow> parent_chain nodes r (Some p) ps \<and> steps_in succs (stored nodes r) (map (stored nodes) (tl (rev ps)))"

lemma steps_in_snoc: "steps_in succs n (ms @ [m]) \<longleftrightarrow> steps_in succs n ms \<and> snd m \<noteq> NaN \<and> (\<exists>l. (l, m) \<in> set (succs (last (n # ms))))"
  by (induction ms arbitrary: n) auto

lemma parent_chain_ends:
  assumes "parent_chain nodes r (Some p) ps"
  obtains qs where "rev ps = r # qs" "last (r # qs) = p"
proof -
  have "ps \<noteq> [] \<and> hd ps = p \<and> last ps = r"
    using assms by (induction "Some p" ps arbitrary: p rule: parent_chain.induct) (auto elim: parent_chain.cases)
  then show thesis using that [of "tl (rev ps)"] by (metis hd_rev last_rev list.collapse rev_is_Nil_conv)
qed

lemma chain_path_start: "parent_state (nodes ! r) = None \<Longrightarrow> r < length nodes \<Longrightarrow> chain_path succs nodes r r [r]"
  by (simp add: chain_path_def chain_root)

lemma chain_path_last:
  assumes "chain_path succs nodes r p ps" "(l, m) \<in> set (succs (stored nodes p))" "snd m \<noteq> NaN"
  shows "steps_in succs (stored nodes r) (map (stored nodes) (tl (rev ps)) @ [m])"
proof -
  obtain qs where qs: "rev ps = r # qs" "last (r # qs) = p" using parent_chain_ends assms(1) unfolding chain_path_def by metis
  have "last (stored nodes r # map (stored nodes) qs) = stored nodes (last (r # qs))" by (simp add: last_map)
  then show ?thesis using assms qs by (auto simp: steps_in_snoc chain_path_def)
qed

lemma chain_path_step:
  assumes "chain_path succs nodes r p ps" "(l, stored nodes s) \<in> set (succs (stored nodes p))" "g_value (nodes ! s) \<noteq> NaN"
    and "s < length nodes" "parent_state (nodes ! s) = Some p"
  shows "chain_path succs nodes r s (s # ps)"
proof -
  have "rev ps \<noteq> []" using parent_chain_ends assms(1) unfolding chain_path_def by (metis list.distinct(1))
  then have "tl (rev (s # ps)) = tl (rev ps) @ [s]" by simp
  then show ?thesis using chain_path_last [OF assms(1,2)] assms chain_step [of s nodes r ps] by (simp add: chain_path_def)
qed

lemma chain_path_plan:
  assumes "chain_path succs nodes r p ps" "(l, final) \<in> set (succs (stored nodes p))" "snd final \<noteq> NaN"
  shows "\<exists>q. extract_total_ordered_plan succs nodes (Some p) final = Some (Inr q)
    \<and> plan_start q = stored nodes r \<and> is_path succs (plan_start q) (plan_succs q) final"
  using extract_plan_path [OF _ chain_path_last [OF assms]] assms(1) unfolding chain_path_def by metis

end
