(* ===== verification/Open_Lists.thy ===== *)
theory Open_Lists
  imports Prelude "HOL-Library.Multiset"
begin

text \<open>
  \<^verbatim>\<open>include/tyr/planning/algorithms/openlists\<close>: the priority queue and the alternation between several of
  them. A priority queue is the list of its entries; which of several least entries \<open>std::priority_queue\<close>
  returns is not specified, so the position of the top entry is a function \<open>pick\<close> with the contract \<open>pick_ok\<close>.
\<close>

section \<open>Priority queues\<close>

text \<open>
  \<open>gt\<close> compares the keys of two entries, as \<open>EntryComparator\<close> does. \<open>top\<close> and \<open>pop\<close> assert that the
  queue is not empty; without the assertion they are undefined, here \<open>None\<close>.
\<close>

type_synonym 'e picker = "'e list \<Rightarrow> nat"

definition pick_ok :: "('e \<Rightarrow> 'e \<Rightarrow> bool) \<Rightarrow> 'e picker \<Rightarrow> bool" where
  "pick_ok gt pick \<longleftrightarrow> (\<forall>q. q \<noteq> [] \<longrightarrow> pick q < length q \<and> (\<forall>e \<in> set q. \<not> gt (q ! pick q) e))"

definition pq_insert :: "'e list \<Rightarrow> 'e \<Rightarrow> 'e list" where
  "pq_insert q e = q @ [e]"

definition pq_top :: "'e picker \<Rightarrow> 'e list \<Rightarrow> 'e option" where
  "pq_top pick q = (if q = [] then None else Some (q ! pick q))"

definition pq_pop :: "'e picker \<Rightarrow> 'e list \<Rightarrow> 'e list option" where
  "pq_pop pick q = (if q = [] then None else Some (take (pick q) q @ drop (Suc (pick q)) q))"

definition pq_clear :: "'e list \<Rightarrow> 'e list" where
  "pq_clear q = []"

definition pq_empty :: "'e list \<Rightarrow> bool" where
  "pq_empty q \<longleftrightarrow> q = []"

definition pq_size :: "'e list \<Rightarrow> nat" where
  "pq_size q = length q"

lemma pq_pop_length: "q \<noteq> [] \<Longrightarrow> pick q < length q \<Longrightarrow> pq_pop pick q = Some q' \<Longrightarrow> length q' < length q"
  by (auto simp: pq_pop_def)

lemma set_without_nth: "i < length q \<Longrightarrow> set q = insert (q ! i) (set (take i q @ drop (Suc i) q))"
  by (metis Un_insert_right id_take_nth_drop list.set(2) set_append)

text \<open>A picker that returns a least entry, to show that the contract can be met.\<close>

fun first_min :: "('e \<Rightarrow> 'e \<Rightarrow> bool) \<Rightarrow> 'e list \<Rightarrow> nat" where
  "first_min gt [] = 0"
| "first_min gt [e] = 0"
| "first_min gt (e # q) = (let i = first_min gt q in if gt (q ! i) e then 0 else Suc i)"

lemma first_min_ok:
  assumes trans: "\<And>a b c. gt a b \<Longrightarrow> gt b c \<Longrightarrow> gt a c" and irrefl: "\<And>a. \<not> gt a a"
  shows "pick_ok gt (first_min gt)"
proof -
  have "q \<noteq> [] \<Longrightarrow> first_min gt q < length q \<and> (\<forall>e \<in> set q. \<not> gt (q ! first_min gt q) e)" for q
  proof (induction q rule: induct_list012)
    case (3 e e' r)
    let ?m = "(e' # r) ! first_min gt (e' # r)"
    have IH: "first_min gt (e' # r) < length (e' # r)" "\<forall>x \<in> set (e' # r). \<not> gt ?m x" using 3 by auto
    show ?case
    proof (cases "gt ?m e")
      case True
      then have "\<not> gt e x" if "x \<in> set (e' # r)" for x using IH(2) trans that by blast
      with True irrefl show ?thesis by (simp add: Let_def)
    next
      case False
      with IH show ?thesis by (simp add: Let_def)
    qed
  qed (use irrefl in auto)
  then show ?thesis by (simp add: pick_ok_def)
qed

section \<open>The open list interface\<close>

text \<open>
  The concept \<open>IsOpenListComposition\<close>: what a search loop needs of an open list. \<open>entries\<close> is the multiset of its
  entries. The call of \<open>top\<close> may change the state (the alternating list moves to its next queue), and \<open>pop\<close> removes the
  entry that the last \<open>top\<close> returned.
\<close>

locale open_list =
  fixes wf :: "'q \<Rightarrow> bool" and entries :: "'q \<Rightarrow> 'e multiset"
    and empty :: "'q \<Rightarrow> bool" and top :: "'q \<Rightarrow> ('e \<times> 'q) option" and pop :: "'q \<Rightarrow> 'q option"
  assumes empty_iff: "wf q \<Longrightarrow> empty q \<longleftrightarrow> entries q = {#}"
    and top_pop: "wf q \<Longrightarrow> entries q \<noteq> {#} \<Longrightarrow>
      \<exists>e q' q''. top q = Some (e, q') \<and> pop q' = Some q'' \<and> wf q'' \<and> entries q = add_mset e (entries q'')"
begin

text \<open>Taking \<open>n\<close> entries one after the other.\<close>

fun take_entries :: "nat \<Rightarrow> 'q \<Rightarrow> 'e list option" where
  "take_entries 0 q = Some []"
| "take_entries (Suc n) q =
     (if empty q then Some []
      else Option.bind (top q) (\<lambda>(e, q). Option.bind (pop q) (\<lambda>q. map_option ((#) e) (take_entries n q))))"

lemma take_one:
  assumes "wf q" "\<not> empty q"
  obtains e q' q'' where "top q = Some (e, q')" "pop q' = Some q''" "wf q''" "entries q = add_mset e (entries q'')"
  using empty_iff [OF assms(1)] top_pop [OF assms(1)] assms(2) by blast

lemma take_all:
  assumes "wf q" "size (entries q) = n"
  shows "\<exists>es. take_entries n q = Some es \<and> mset es = entries q"
  using assms(1,2)
proof (induction n arbitrary: q)
  case 0
  then show ?case by simp
next
  case (Suc n)
  then have "\<not> empty q" using empty_iff [of q] by auto
  then obtain e q' q'' where q: "top q = Some (e, q')" "pop q' = Some q''" "wf q''" "entries q = add_mset e (entries q'')"
    using take_one Suc.prems(1) by metis
  moreover obtain es where "take_entries n q'' = Some es" "mset es = entries q''"
    using Suc.IH [of q''] Suc.prems(2) q by auto
  ultimately show ?case using \<open>\<not> empty q\<close> by simp
qed

end

section \<open>The alternating open list\<close>

text \<open>
  The state of \<open>AlternatingOpenList\<close> over its queues: the queues are held by reference, so they are part of
  the state here. The loop of \<open>find_next_nonempty_queue\<close> does not return when every queue is empty (\<open>None\<close>);
  \<open>top\<close> asserts that one is not.
\<close>

record 'e alternating =
  al_queues :: "'e list list"
  al_weights :: "nat list"
  al_pos :: nat
  al_count :: nat

definition al_init :: "'e list list \<Rightarrow> nat list \<Rightarrow> 'e alternating" where
  "al_init queues weights = \<lparr>al_queues = queues, al_weights = weights, al_pos = 0, al_count = 0\<rparr>"

definition al_cur_empty :: "'e alternating \<Rightarrow> bool" where
  "al_cur_empty al = pq_empty (al_queues al ! al_pos al)"

definition al_cur_weight :: "'e alternating \<Rightarrow> nat" where
  "al_cur_weight al = al_weights al ! al_pos al"

definition al_advance :: "'e alternating \<Rightarrow> 'e alternating" where
  "al_advance al = al\<lparr>al_pos := (if Suc (al_pos al) = length (al_queues al) then 0 else Suc (al_pos al))\<rparr>"

partial_function (option) al_find_loop :: "'e alternating \<Rightarrow> 'e alternating option" where
  "al_find_loop al = (let al = al_advance al in if al_cur_empty al then al_find_loop al else Some al)"

declare al_find_loop.simps [code]

definition al_find_next_nonempty_queue :: "'e alternating \<Rightarrow> 'e alternating option" where
  "al_find_next_nonempty_queue al = map_option (\<lambda>al. al\<lparr>al_count := 0\<rparr>) (al_find_loop al)"

definition al_empty :: "'e alternating \<Rightarrow> bool" where
  "al_empty al = list_all pq_empty (al_queues al)"

definition al_size :: "'e alternating \<Rightarrow> nat" where
  "al_size al = sum_list (map pq_size (al_queues al))"

definition al_top :: "'e picker \<Rightarrow> 'e alternating \<Rightarrow> ('e \<times> 'e alternating) option" where
  "al_top pick al =
     Option.bind (if al_cur_empty al \<or> al_count al \<ge> al_cur_weight al then al_find_next_nonempty_queue al else Some al)
       (\<lambda>al. map_option (\<lambda>e. (e, al)) (pq_top pick (al_queues al ! al_pos al)))"

definition al_pop :: "'e picker \<Rightarrow> 'e alternating \<Rightarrow> 'e alternating option" where
  "al_pop pick al =
     map_option (\<lambda>q. al\<lparr>al_queues := (al_queues al)[al_pos al := q], al_count := Suc (al_count al)\<rparr>)
       (pq_pop pick (al_queues al ! al_pos al))"

text \<open>Inserting into the \<open>i\<close>-th queue, which the caller does directly.\<close>

definition al_insert_at :: "'e alternating \<Rightarrow> nat \<Rightarrow> 'e \<Rightarrow> 'e alternating" where
  "al_insert_at al i e = al\<lparr>al_queues := (al_queues al)[i := pq_insert (al_queues al ! i) e]\<rparr>"

section \<open>Correctness of the alternation\<close>

definition al_wf :: "'e alternating \<Rightarrow> bool" where
  "al_wf al \<longleftrightarrow> al_pos al < length (al_queues al) \<and> length (al_weights al) = length (al_queues al)"

lemma al_advance_simps [simp]:
  "al_queues (al_advance al) = al_queues al" "al_weights (al_advance al) = al_weights al" "al_count (al_advance al) = al_count al"
  by (simp_all add: al_advance_def)

lemma al_advance_pos: "al_pos al < length (al_queues al) \<Longrightarrow> al_pos (al_advance al) = Suc (al_pos al) mod length (al_queues al)"
  by (auto simp: al_advance_def)

lemma al_advance_eq: "al_advance al = al\<lparr>al_pos := al_pos (al_advance al)\<rparr>"
  by (simp add: al_advance_def)

text \<open>The loop returns the next queue, in cyclic order, that is not empty.\<close>

lemma al_find_loop_spec:
  assumes "al_pos al < n" "n = length (al_queues al)"
    and "k > 0" "al_queues al ! ((al_pos al + k) mod n) \<noteq> []" "\<And>j. 0 < j \<Longrightarrow> j < k \<Longrightarrow> al_queues al ! ((al_pos al + j) mod n) = []"
  shows "al_find_loop al = Some (al\<lparr>al_pos := (al_pos al + k) mod n\<rparr>)"
  using assms
proof (induction k arbitrary: al)
  case (Suc k)
  let ?al = "al_advance al"
  have pos: "al_pos ?al = Suc (al_pos al) mod n" using al_advance_pos Suc.prems(1,2) by auto
  have eq: "?al = al\<lparr>al_pos := Suc (al_pos al) mod n\<rparr>" using al_advance_eq [of al] pos by simp
  have sh: "(al_pos ?al + j) mod n = (al_pos al + Suc j) mod n" for j unfolding pos by (simp add: mod_add_left_eq)
  show ?case
  proof (cases "k = 0")
    case True
    then have "\<not> al_cur_empty ?al" using Suc.prems(4) pos by (simp add: al_cur_empty_def pq_empty_def)
    then show ?thesis using True eq by (subst al_find_loop.simps) (simp add: Let_def)
  next
    case False
    then have e: "al_cur_empty ?al" using Suc.prems(5) [of 1] pos by (simp add: al_cur_empty_def pq_empty_def)
    have "al_find_loop ?al = Some (?al\<lparr>al_pos := (al_pos ?al + k) mod n\<rparr>)"
    proof (rule Suc.IH)
      show "al_pos ?al < n" using pos Suc.prems(1) by simp
      show "al_queues ?al ! ((al_pos ?al + k) mod n) \<noteq> []" using Suc.prems(4) sh by simp
      show "al_queues ?al ! ((al_pos ?al + j) mod n) = []" if "0 < j" "j < k" for j using Suc.prems(5) [of "Suc j"] that sh by simp
    qed (use Suc.prems False in auto)
    moreover have "?al\<lparr>al_pos := (al_pos ?al + k) mod n\<rparr> = al\<lparr>al_pos := (al_pos al + Suc k) mod n\<rparr>"
      unfolding sh by (subst eq) simp
    ultimately show ?thesis using e by (subst al_find_loop.simps) (simp add: Let_def)
  qed
qed simp

lemma al_find_next_total:
  assumes "al_wf al" "\<not> al_empty al"
  obtains al' where "al_find_next_nonempty_queue al = Some al'" "al_queues al' = al_queues al" "al_weights al' = al_weights al"
    "al_wf al'" "\<not> al_cur_empty al'" "al_count al' = 0"
proof -
  let ?n = "length (al_queues al)"
  obtain i where i: "i < ?n" "al_queues al ! i \<noteq> []"
    using assms(2) by (auto simp: al_empty_def pq_empty_def list_all_iff in_set_conv_nth)
  define P where "P k \<longleftrightarrow> k > 0 \<and> al_queues al ! ((al_pos al + k) mod ?n) \<noteq> []" for k
  have "al_pos al < ?n" using assms(1) by (simp add: al_wf_def)
  then have "(al_pos al + (?n - al_pos al + i)) mod ?n = i" using i(1) by simp
  then have ex: "P (?n - al_pos al + i)" using i \<open>al_pos al < ?n\<close> by (simp add: P_def)
  define k where "k = (LEAST k. P k)"
  have k: "P k" unfolding k_def using ex by (rule LeastI)
  have "\<not> P j" if "j < k" for j using not_less_Least that unfolding k_def by blast
  then have "al_find_loop al = Some (al\<lparr>al_pos := (al_pos al + k) mod ?n\<rparr>)"
    using k \<open>al_pos al < ?n\<close> by (intro al_find_loop_spec) (auto simp: P_def)
  then show thesis
    using assms(1) k \<open>al_pos al < ?n\<close>
    by (intro that [of "al\<lparr>al_pos := (al_pos al + k) mod ?n, al_count := 0\<rparr>"])
       (auto simp: al_find_next_nonempty_queue_def al_wf_def al_cur_empty_def pq_empty_def P_def intro!: mod_less_divisor)
qed

lemma al_top_spec:
  assumes "al_wf al" "\<not> al_empty al" and pick: "pick_ok gt pick"
  obtains e al' where "al_top pick al = Some (e, al')" "al_wf al'" "al_queues al' = al_queues al" "al_weights al' = al_weights al"
    "\<not> al_cur_empty al'" "e = al_queues al ! al_pos al' ! pick (al_queues al ! al_pos al')"
    "e \<in> set (al_queues al ! al_pos al')" "\<forall>e' \<in> set (al_queues al ! al_pos al'). \<not> gt e e'"
proof -
  obtain al' where al': "(if al_cur_empty al \<or> al_count al \<ge> al_cur_weight al then al_find_next_nonempty_queue al else Some al) = Some al'"
    "al_queues al' = al_queues al" "al_weights al' = al_weights al" "al_wf al'" "\<not> al_cur_empty al'"
  proof (cases "al_cur_empty al \<or> al_count al \<ge> al_cur_weight al")
    case True
    then show ?thesis using al_find_next_total [OF assms(1,2)] that by metis
  next
    case False
    then show ?thesis using assms(1) that [of al] by simp
  qed
  let ?q = "al_queues al ! al_pos al'"
  have q: "?q \<noteq> []" using al' by (simp add: al_cur_empty_def pq_empty_def)
  then have "pick ?q < length ?q" "\<forall>e' \<in> set ?q. \<not> gt (?q ! pick ?q) e'" using pick by (auto simp: pick_ok_def)
  then show thesis using that [of "?q ! pick ?q" al'] al' q by (simp add: al_top_def pq_top_def)
qed

section \<open>The interface on the two open lists\<close>

lemma pq_take:
  assumes "q \<noteq> []" "pick q < length q"
  shows "\<exists>e q'. pq_top pick q = Some e \<and> pq_pop pick q = Some q' \<and> mset q = add_mset e (mset q')"
proof -
  have "mset q = mset (take (pick q) q @ q ! pick q # drop (Suc (pick q)) q)" using id_take_nth_drop [OF assms(2)] by simp
  then show ?thesis using assms(1) by (simp add: pq_top_def pq_pop_def)
qed

definition in_range :: "'e picker \<Rightarrow> bool" where
  "in_range pick \<longleftrightarrow> (\<forall>q. q \<noteq> [] \<longrightarrow> pick q < length q)"

lemma pick_ok_in_range: "pick_ok gt pick \<Longrightarrow> in_range pick"
  by (simp add: pick_ok_def in_range_def)

definition al_entries :: "'e alternating \<Rightarrow> 'e multiset" where
  "al_entries al = sum_list (map mset (al_queues al))"

lemma al_empty_iff: "al_empty al \<longleftrightarrow> al_entries al = {#}"
proof -
  have "list_all pq_empty qs \<longleftrightarrow> sum_list (map mset qs) = {#}" for qs :: "'a list list"
    by (induction qs) (auto simp: pq_empty_def)
  then show ?thesis by (simp add: al_empty_def al_entries_def)
qed

lemma sum_list_mset_update:
  "i < length qs \<Longrightarrow> mset (qs ! i) = add_mset e (mset q) \<Longrightarrow> sum_list (map mset qs) = add_mset e (sum_list (map mset (qs[i := q])))"
  by (induction qs arbitrary: i) (auto split: nat.splits)

lemma al_take:
  assumes "al_wf al" "\<not> al_empty al" "in_range pick"
  shows "\<exists>e al' al''. al_top pick al = Some (e, al') \<and> al_pop pick al' = Some al'' \<and> al_wf al''
    \<and> length (al_queues al'') = length (al_queues al) \<and> al_entries al = add_mset e (al_entries al'')"
proof -
  have "pick_ok (\<lambda>_ _. False) pick" using assms(3) by (simp add: in_range_def pick_ok_def)
  then obtain e al' where al': "al_top pick al = Some (e, al')" "al_wf al'" "al_queues al' = al_queues al" "\<not> al_cur_empty al'"
    and e: "e = al_queues al ! al_pos al' ! pick (al_queues al ! al_pos al')"
    using al_top_spec [OF assms(1,2)] by metis
  let ?q = "al_queues al ! al_pos al'"
  have "?q \<noteq> []" using al' by (simp add: al_cur_empty_def pq_empty_def)
  moreover from this have "pick ?q < length ?q" using assms(3) by (simp add: in_range_def)
  ultimately obtain q' where q': "pq_pop pick ?q = Some q'" "mset ?q = add_mset e (mset q')"
    using pq_take [of ?q pick] e by (auto simp: pq_top_def)
  define al'' where "al'' = al'\<lparr>al_queues := (al_queues al')[al_pos al' := q'], al_count := Suc (al_count al')\<rparr>"
  have "al_pop pick al' = Some al''" using q'(1) al'(3) by (simp add: al_pop_def al''_def)
  moreover have "al_wf al''" "length (al_queues al'') = length (al_queues al)" using al'(2,3) by (simp_all add: al_wf_def al''_def)
  moreover have "al_entries al = add_mset e (al_entries al'')"
    using sum_list_mset_update [of "al_pos al'" "al_queues al" e q'] q'(2) al'(2,3) by (simp add: al_entries_def al''_def al_wf_def)
  ultimately show ?thesis using al'(1) by blast
qed

interpretation pq: open_list "\<lambda>q :: 'e list. in_range pick" mset pq_empty "\<lambda>q. map_option (\<lambda>e. (e, q)) (pq_top pick q)" "pq_pop pick"
  for pick :: "'e picker"
proof
  show "pq_empty q \<longleftrightarrow> mset q = {#}" for q :: "'e list" by (simp add: pq_empty_def)
  show "\<exists>e q' q''. map_option (\<lambda>e. (e, q)) (pq_top pick q) = Some (e, q') \<and> pq_pop pick q' = Some q'' \<and> in_range pick
    \<and> mset q = add_mset e (mset q'')" if "in_range pick" "mset q \<noteq> {#}" for q
    using pq_take [of q pick] that by (auto simp: in_range_def)
qed

interpretation al: open_list "\<lambda>al :: 'e alternating. al_wf al \<and> length (al_queues al) = k \<and> in_range pick" al_entries al_empty
    "al_top pick" "al_pop pick"
  for k :: nat and pick :: "'e picker"
proof
  show "al_empty q \<longleftrightarrow> al_entries q = {#}" if "al_wf q \<and> length (al_queues q) = k \<and> in_range pick" for q :: "'e alternating"
    by (rule al_empty_iff)
  show "\<exists>e q' q''. al_top pick q = Some (e, q') \<and> al_pop pick q' = Some q'' \<and> (al_wf q'' \<and> length (al_queues q'') = k \<and> in_range pick)
    \<and> al_entries q = add_mset e (al_entries q'')" if "al_wf q \<and> length (al_queues q) = k \<and> in_range pick" "al_entries q \<noteq> {#}" for q
    using al_take [of q pick] al_empty_iff [of q] that by metis
qed

lemma al_insert_entries:
  assumes "i < length (al_queues al)"
  shows "al_entries (al_insert_at al i e) = add_mset e (al_entries al)"
proof -
  have "mset ((al_queues (al_insert_at al i e)) ! i) = add_mset e (mset (al_queues al ! i))"
    using assms by (simp add: al_insert_at_def pq_insert_def)
  from sum_list_mset_update [OF _ this] show ?thesis using assms by (simp add: al_entries_def al_insert_at_def)
qed

lemma al_insert_wf: "al_wf (al_insert_at al i e) = al_wf al" "length (al_queues (al_insert_at al i e)) = length (al_queues al)"
  by (simp_all add: al_wf_def al_insert_at_def)

text \<open>
  C33. The alternating open list loses and duplicates nothing: as many calls of \<open>top\<close> and \<open>pop\<close> as there are entries
  return all entries of all queues, each as often as it was inserted, and none of these calls runs forever in the search for
  the next queue.
\<close>

theorem alternating_drains:
  assumes "al_wf al" and "in_range pick"
  shows "\<exists>es. al.take_entries pick (al_size al) al = Some es \<and> mset es = al_entries al"
proof -
  have "sum_list (map pq_size qs) = size (sum_list (map mset qs))" for qs :: "'a list list"
    by (induction qs) (simp_all add: pq_size_def)
  then have "al_size al = size (al_entries al)" by (simp add: al_size_def al_entries_def)
  then show ?thesis using al.take_all [of al "length (al_queues al)" pick] assms by simp
qed

theorem alternating_drains_witness:
  "\<exists>es. al.take_entries (\<lambda>_. 0) 3 (al_init [[], [7, 5], [6 :: nat]] [1, 1, 1]) = Some es \<and> mset es = {#5, 6, 7#}"
proof -
  let ?al = "al_init [[], [7, 5], [6 :: nat]] [1, 1, 1]"
  have al: "al_wf ?al" "al_size ?al = 3" "al_entries ?al = {#5, 6, 7#}"
    by (simp_all add: al_init_def al_wf_def al_size_def al_entries_def pq_size_def add_mset_commute)
  have "in_range (\<lambda>_. 0)" by (simp add: in_range_def)
  from alternating_drains [OF al(1) this] show ?thesis unfolding al(2,3) .
qed

end
