(* ===== verification/AStar_Eager.thy ===== *)
theory AStar_Eager
  imports Search_Space Open_Lists
begin

text \<open>
  \<^verbatim>\<open>src/planning/algorithms/astar_eager.cpp\<close>: A* with eager evaluation and reopening. The iteration number \<open>n\<close>
  of the main loop stands for the clock, for the state of the random number generator and for the history
  of the priority queue, which decide the time-out, the shuffle and the choice among least entries.
\<close>

section \<open>Model\<close>

definition default_search_node :: search_node where
  "default_search_node = \<lparr>g_value = Infinity, parent_state = None, status = NEW\<rparr>"

record astar_entry =
  e_f :: fval
  e_state :: nat
  e_status :: node_status

definition entry_gt :: "astar_entry \<Rightarrow> astar_entry \<Rightarrow> bool" where
  "entry_gt a b \<longleftrightarrow> fless (e_f b) (e_f a) \<or> feq (e_f a) (e_f b) \<and> status_rank (e_status b) < status_rank (e_status a)"

record astar =
  search_nodes :: "search_node list"
  openlist :: "astar_entry list"

text \<open>One iteration over a labeled successor of the state \<open>s\<close>; \<open>Inl\<close> ends the search.\<close>

definition generate_successor :: "'l search_problem \<Rightarrow> nat \<Rightarrow> astar \<Rightarrow> 'l labeled_node \<Rightarrow> search_status + astar" where
  "generate_successor P s A succ =
     (let t = fst (snd succ); m = snd (snd succ);
          nodes = get_or_create default_search_node t (search_nodes A); node = nodes ! t;
          is_new = (status node = NEW)
      in if is_new \<and> length nodes \<ge> sp_max_num_states P then Inl OUT_OF_STATES
         else if sp_prune_succ P s t is_new then Inr (A\<lparr>search_nodes := nodes[t := node\<lparr>status := CLOSED\<rparr>]\<rparr>)
         else if fless m (g_value node) then
           (let node = node\<lparr>parent_state := Some s, g_value := m\<rparr>; h = canonicalize_value (sp_heuristic P t)
            in if h = Infinity then Inr (A\<lparr>search_nodes := nodes[t := node\<lparr>status := DEAD_END\<rparr>]\<rparr>)
               else let st = (if sp_dynamic_goal P t then GOAL else OPEN)
                    in Inr (A\<lparr>search_nodes := nodes[t := node\<lparr>status := st\<rparr>],
                         openlist := pq_insert (openlist A) \<lparr>e_f = canonicalize_value (fadd m h), e_state = t, e_status = st\<rparr>\<rparr>))
         else Inr (A\<lparr>search_nodes := nodes\<rparr>))"

text \<open>One iteration of the main loop with a nonempty open list; \<open>Inl\<close> is what the function returns.\<close>

definition expand_top :: "'l search_problem \<Rightarrow> (nat \<Rightarrow> astar_entry picker) \<Rightarrow> nat \<Rightarrow> astar \<Rightarrow> 'l search_result result option + astar" where
  "expand_top P pick n A =
     (case (pq_top (pick n) (openlist A), pq_pop (pick n) (openlist A)) of
        (Some e, Some q) \<Rightarrow>
          (let s = e_state e; nodes = get_or_create default_search_node s (search_nodes A); node = nodes ! s;
               A = A\<lparr>search_nodes := nodes, openlist := q\<rparr>
           in if status node = CLOSED \<or> status node = DEAD_END then Inr A
              else if status node = GOAL then
                Inl (map_option (map_sum id (\<lambda>p. solved p (s, g_value node)))
                  (extract_total_ordered_plan (sp_succs P) nodes (parent_state node) (s, g_value node)))
              else case fold_result (generate_successor P s) (A\<lparr>search_nodes := nodes[s := node\<lparr>status := CLOSED\<rparr>]\<rparr>)
                     (sp_shuffled P n (sp_succs P (s, g_value node))) of
                     Inl r \<Rightarrow> Inl (Some (Inr (no_plan r)))
                   | Inr A \<Rightarrow> Inr A)
      | _ \<Rightarrow> Inl None)"

partial_function (option) astar_loop ::
    "'l search_problem \<Rightarrow> (nat \<Rightarrow> astar_entry picker) \<Rightarrow> nat \<Rightarrow> astar \<Rightarrow> 'l search_result result option" where
  "astar_loop P pick n A =
     (if pq_empty (openlist A) then Some (Inr (no_plan EXHAUSTED))
      else if sp_out_of_time P n then Some (Inr (no_plan OUT_OF_TIME))
      else case expand_top P pick n A of Inl r \<Rightarrow> r | Inr A \<Rightarrow> astar_loop P pick (Suc n) A)"

declare astar_loop.simps [code]

definition find_solution :: "'l search_problem \<Rightarrow> (nat \<Rightarrow> astar_entry picker) \<Rightarrow> 'l search_result result option" where
  "find_solution P pick =
     (let (s, m) = sp_start_node P; h = canonicalize_value (sp_heuristic P s); f = canonicalize_value (fadd m h);
          st = (if h = Infinity then DEAD_END else OPEN);
          nodes = (get_or_create default_search_node s [])[s := default_search_node\<lparr>status := st, g_value := m\<rparr>]
      in if \<not> sp_static_goal P then Some (Inr (no_plan UNSOLVABLE))
         else if sp_dynamic_goal P s then Some (Inr (solved \<lparr>plan_start = (s, m), plan_succs = []\<rparr> (s, m)))
         else if isnan m then Some (Inl Runtime_Error)
         else if st = DEAD_END then Some (Inr (no_plan UNSOLVABLE))
         else if sp_prune_state P s then Some (Inr (no_plan EXHAUSTED))
         else astar_loop P pick 0 \<lparr>search_nodes = nodes, openlist = pq_insert [] \<lparr>e_f = f, e_state = s, e_status = st\<rparr>\<rparr>)"

section \<open>The setting of the optimality proof\<close>

type_synonym 'l edges = "nat \<Rightarrow> ('l \<times> nat \<times> rat) list"

inductive path_cost :: "'l edges \<Rightarrow> nat \<Rightarrow> nat \<Rightarrow> rat \<Rightarrow> bool" for E where
  path_refl: "path_cost E s s 0"
| path_step: "(l, t, c) \<in> set (E s) \<Longrightarrow> path_cost E t u d \<Longrightarrow> path_cost E s u (c + d)"

definition additive :: "'l edges \<Rightarrow> 'l search_problem \<Rightarrow> bool" where
  "additive E P \<longleftrightarrow> (\<forall>s g. sp_succs P (s, Fin g) = map (\<lambda>(l, t, c). (l, t, Fin (g + c))) (E s))
     \<and> (\<forall>s. \<forall>(l, t, c) \<in> set (E s). 0 \<le> c \<and> on_grid c)
     \<and> (\<exists>s g. sp_start_node P = (s, Fin g) \<and> on_grid g)"

definition unpruned :: "'l search_problem \<Rightarrow> bool" where
  "unpruned P \<longleftrightarrow> (\<forall>s. \<not> sp_prune_state P s) \<and> (\<forall>s t b. \<not> sp_prune_succ P s t b)"

definition shuffles :: "'l search_problem \<Rightarrow> bool" where
  "shuffles P \<longleftrightarrow> (\<forall>n xs. set (sp_shuffled P n xs) = set xs)"

definition admissible :: "'l edges \<Rightarrow> 'l search_problem \<Rightarrow> bool" where
  "admissible E P \<longleftrightarrow> (\<forall>s. sp_heuristic P s \<noteq> NaN \<and> (\<forall>v. sp_heuristic P s = Fin v \<longrightarrow> 0 \<le> v))
     \<and> (\<forall>s t d. path_cost E s t d \<longrightarrow> sp_dynamic_goal P t \<longrightarrow> (\<exists>v. sp_heuristic P s = Fin v \<and> v \<le> d))"

definition astar_setting :: "'l edges \<Rightarrow> 'l search_problem \<Rightarrow> bool" where
  "astar_setting E P \<longleftrightarrow> additive E P \<and> unpruned P \<and> shuffles P \<and> admissible E P"

text \<open>The states that can be reached from the start, and whether a goal is among them.\<close>

definition reachable :: "'l edges \<Rightarrow> 'l search_problem \<Rightarrow> nat set" where
  "reachable E P = {t. \<exists>d. path_cost E (fst (sp_start_node P)) t d}"

definition solvable :: "'l edges \<Rightarrow> 'l search_problem \<Rightarrow> bool" where
  "solvable E P \<longleftrightarrow> sp_static_goal P \<and> (\<exists>t \<in> reachable E P. sp_dynamic_goal P t)"

lemma path_cost_grid:
  assumes "additive E P" "path_cost E s t d" shows "0 \<le> d \<and> on_grid d"
  using assms(2)
proof induction
  case (path_step l t c s u d)
  then have "0 \<le> c \<and> on_grid c" using assms(1) unfolding additive_def by fast
  with path_step show ?case by (simp add: on_grid_add)
qed simp

lemma path_cost_trans: "path_cost E s t d \<Longrightarrow> path_cost E t u e \<Longrightarrow> path_cost E s u (d + e)"
  by (induction rule: path_cost.induct) (auto simp: add.assoc intro: path_cost.intros)

lemma path_cost_edge: "(l, t, c) \<in> set (E s) \<Longrightarrow> path_cost E s t c"
  using path_step [OF _ path_refl, of l t c E s] by simp

section \<open>The invariant\<close>

text \<open>
  The invariant speaks about the content \<open>v\<close> of the node storage and the entries of the open list. \<open>R\<close> holds
  the edges of the state under expansion that are still to be processed.
\<close>

inductive rooted :: "(nat \<Rightarrow> search_node) \<Rightarrow> nat \<Rightarrow> nat \<Rightarrow> bool" for v s0 where
  rooted_start: "rooted v s0 s0"
| rooted_step: "s \<noteq> s0 \<Longrightarrow> parent_state (v s) = Some p \<Longrightarrow> rooted v s0 p \<Longrightarrow> rooted v s0 s"

definition h_of :: "'l search_problem \<Rightarrow> nat \<Rightarrow> fval" where
  "h_of P s = canonicalize_value (sp_heuristic P s)"

definition nodes_inv :: "'l edges \<Rightarrow> nat \<Rightarrow> rat \<Rightarrow> (nat \<Rightarrow> search_node) \<Rightarrow> bool" where
  "nodes_inv E s0 g0 v \<longleftrightarrow>
     g_value (v s0) = Fin g0 \<and> status (v s0) \<noteq> NEW \<and> parent_state (v s0) = None
   \<and> (\<forall>s. g_value (v s) = Infinity \<and> v s = default_search_node \<or>
       (\<exists>g. g_value (v s) = Fin g \<and> g0 \<le> g \<and> status (v s) \<noteq> NEW \<and> path_cost E s0 s (g - g0) \<and> rooted v s0 s))
   \<and> (\<forall>s g. s \<noteq> s0 \<longrightarrow> g_value (v s) = Fin g \<longrightarrow>
       (\<exists>p l c gp. parent_state (v s) = Some p \<and> (l, s, c) \<in> set (E p) \<and> g_value (v p) = Fin gp \<and> gp + c \<le> g))"

definition closed_inv :: "'l edges \<Rightarrow> (nat \<times> nat \<times> rat) set \<Rightarrow> (nat \<Rightarrow> search_node) \<Rightarrow> bool" where
  "closed_inv E R v \<longleftrightarrow> (\<forall>p gp l t c. status (v p) = CLOSED \<longrightarrow> g_value (v p) = Fin gp \<longrightarrow> (l, t, c) \<in> set (E p) \<longrightarrow>
      (p, t, c) \<in> R \<or> (\<exists>gt. g_value (v t) = Fin gt \<and> gt \<le> gp + c))"

definition status_inv :: "'l search_problem \<Rightarrow> (nat \<Rightarrow> search_node) \<Rightarrow> bool" where
  "status_inv P v \<longleftrightarrow> (\<forall>s. (status (v s) = DEAD_END \<longrightarrow> sp_heuristic P s = Infinity)
      \<and> (status (v s) = GOAL \<longrightarrow> sp_dynamic_goal P s)
      \<and> (sp_dynamic_goal P s \<longrightarrow> status (v s) \<in> {NEW, GOAL, DEAD_END}))"

definition queue_inv :: "'l search_problem \<Rightarrow> (nat \<Rightarrow> search_node) \<Rightarrow> astar_entry set \<Rightarrow> bool" where
  "queue_inv P v Q \<longleftrightarrow>
     (\<forall>s. status (v s) \<in> {OPEN, GOAL} \<longrightarrow>
        (\<exists>e \<in> Q. e_state e = s \<and> (\<exists>g h. g_value (v s) = Fin g \<and> h_of P s = Fin h \<and> e_f e = Fin (g + h))))
   \<and> (\<forall>e \<in> Q. \<exists>g h f. g_value (v (e_state e)) = Fin g \<and> h_of P (e_state e) = Fin h \<and> e_f e = Fin f \<and> g + h \<le> f)"

lemma nodes_invD:
  assumes "nodes_inv E s0 g0 v"
  shows "g_value (v s0) = Fin g0" "status (v s0) \<noteq> NEW" "parent_state (v s0) = None"
    and "g_value (v s) = Fin g \<Longrightarrow> g0 \<le> g" "g_value (v s) = Fin g \<Longrightarrow> status (v s) \<noteq> NEW"
    and "g_value (v s) = Fin g \<Longrightarrow> path_cost E s0 s (g - g0)" "g_value (v s) = Fin g \<Longrightarrow> rooted v s0 s"
    and "s \<noteq> s0 \<Longrightarrow> g_value (v s) = Fin g \<Longrightarrow>
      \<exists>p l c gp. parent_state (v s) = Some p \<and> (l, s, c) \<in> set (E p) \<and> g_value (v p) = Fin gp \<and> gp + c \<le> g"
  using assms unfolding nodes_inv_def by auto (metis fval.distinct(1) fval.inject)+

lemma nodes_inv_cases:
  assumes "nodes_inv E s0 g0 v"
  obtains "v s = default_search_node" | g where "g_value (v s) = Fin g" "status (v s) \<noteq> NEW"
  using assms unfolding nodes_inv_def by blast

text \<open>The \<open>g\<close>-value of a parent is not above that of its child, so an improved state was no ancestor.\<close>

lemma rooted_update_below:
  assumes "nodes_inv E s0 g0 v" "additive E P" "rooted v s0 x" "g_value (v x) = Fin gx" "fless (Fin gx) (g_value (v t))" "t \<noteq> s0"
  shows "rooted (v(t := n :: search_node)) s0 x"
  using assms(3-5)
proof (induction arbitrary: gx)
  case rooted_start
  show ?case by (rule rooted.rooted_start)
next
  case (rooted_step s p)
  obtain p' l c gp where p: "parent_state (v s) = Some p'" "(l, s, c) \<in> set (E p')" "g_value (v p') = Fin gp" "gp + c \<le> gx"
    using nodes_invD(8) [OF assms(1) rooted_step.hyps(1) rooted_step.prems(1)] by blast
  have "0 \<le> c" using p(2) assms(2) unfolding additive_def by fast
  then have "fless (Fin gp) (g_value (v t))" using rooted_step.prems(2) p(4) by (cases "g_value (v t)") auto
  then have "rooted (v(t := n)) s0 p" using rooted_step.IH [of gp] p rooted_step.hyps(2) by (simp del: fun_upd_apply)
  moreover have "s \<noteq> t" using rooted_step.prems by auto
  ultimately show ?case using rooted_step.hyps(1,2) by (metis fun_upd_other rooted.rooted_step)
qed

lemma rooted_update:
  assumes "rooted v s0 x" "rooted (v(t := n)) s0 t"
  shows "rooted (v(t := n)) s0 x"
  using assms(1)
proof (induction rule: rooted.induct)
  case (rooted_step s p)
  show ?case
  proof (cases "s = t")
    case True
    with assms(2) show ?thesis by (simp only:)
  next
    case False
    then show ?thesis using rooted_step by (metis fun_upd_other rooted.rooted_step)
  qed
qed (rule rooted.rooted_start)

text \<open>The update of one search node by a cheaper path.\<close>

definition improves :: "'l edges \<Rightarrow> 'l search_problem \<Rightarrow> nat \<Rightarrow> rat \<Rightarrow> (nat \<Rightarrow> search_node) \<Rightarrow> nat \<Rightarrow> rat \<Rightarrow> 'l \<Rightarrow> nat \<Rightarrow> rat
    \<Rightarrow> search_node \<Rightarrow> bool" where
  "improves E P s0 g0 v s g l t c n \<longleftrightarrow> nodes_inv E s0 g0 v \<and> additive E P \<and> g_value (v s) = Fin g \<and> (l, t, c) \<in> set (E s)
     \<and> fless (Fin (g + c)) (g_value (v t)) \<and> g_value n = Fin (g + c) \<and> parent_state n = Some s \<and> status n \<noteq> NEW"

lemma improvesD:
  assumes "improves E P s0 g0 v s g l t c n"
  shows "nodes_inv E s0 g0 v" "additive E P" "g_value (v s) = Fin g" "(l, t, c) \<in> set (E s)" "fless (Fin (g + c)) (g_value (v t))"
    "g_value n = Fin (g + c)" "parent_state n = Some s" "status n \<noteq> NEW"
  using assms by (simp_all add: improves_def)

lemma improves_cost:
  assumes im: "improves E P s0 g0 v s g l t c n" shows "0 \<le> c" "on_grid c"
  using improvesD(2,4) [OF im] unfolding additive_def by fast+

lemma improves_distinct:
  assumes im: "improves E P s0 g0 v s g l t c n" shows "t \<noteq> s0" "s \<noteq> t"
  using improvesD(5) [OF im] improves_cost(1) [OF im] improvesD(3) [OF im] nodes_invD(1) [OF improvesD(1) [OF im]] nodes_invD(4) [OF improvesD(1) [OF im] improvesD(3) [OF im]] by auto

lemma improves_g:
  assumes im: "improves E P s0 g0 v s g l t c n"
  shows "g_value (v x) = Fin gx \<Longrightarrow> \<exists>gx'. g_value ((v(t := n)) x) = Fin gx' \<and> gx' \<le> gx"
  using improvesD(5) [OF im] improvesD(6) [OF im] by (cases "x = t") auto

lemma improves_rooted:
  assumes im: "improves E P s0 g0 v s g l t c n"
  shows "rooted (v(t := n)) s0 t"
proof -
  have "fless (Fin g) (g_value (v t))" using improvesD(5) [OF im] improves_cost(1) [OF im] by (cases "g_value (v t)") auto
  then have "rooted (v(t := n)) s0 s"
    using rooted_update_below [OF improvesD(1) [OF im] improvesD(2) [OF im] nodes_invD(7) [OF improvesD(1) [OF im] improvesD(3) [OF im]] improvesD(3) [OF im]] improves_distinct [OF im] by simp
  then show ?thesis using improvesD(7) [OF im] improves_distinct [OF im] by (metis fun_upd_same rooted.rooted_step)
qed

lemma improves_path:
  assumes im: "improves E P s0 g0 v s g l t c n"
  shows "path_cost E s0 t (g + c - g0)"
proof -
  have "path_cost E s t c" using improvesD(4) [OF im] by (rule path_cost_edge)
  from path_cost_trans [OF nodes_invD(6) [OF improvesD(1,3) [OF im]] this] show ?thesis by (simp add: algebra_simps)
qed

lemma nodes_inv_update:
  assumes im: "improves E P s0 g0 v s g l t c n"
  shows "nodes_inv E s0 g0 (v(t := n))"
proof -
  let ?v = "v(t := n)"
  have "g_value (?v x) = Infinity \<and> ?v x = default_search_node \<or>
    (\<exists>gx. g_value (?v x) = Fin gx \<and> g0 \<le> gx \<and> status (?v x) \<noteq> NEW \<and> path_cost E s0 x (gx - g0) \<and> rooted ?v s0 x)" for x
  proof (cases "x = t")
    case True
    have "g0 \<le> g + c" using nodes_invD(4) [OF improvesD(1) [OF im] improvesD(3) [OF im]] improves_cost [OF im] by simp
    then show ?thesis using True improvesD(6-8) [OF im] improves_rooted [OF im] improves_path [OF im] by simp
  next
    case False
    then show ?thesis using improvesD(1) [OF im] rooted_update [OF _ improves_rooted [OF im]] unfolding nodes_inv_def by auto
  qed
  moreover have "\<exists>p l c gp. parent_state (?v x) = Some p \<and> (l, x, c) \<in> set (E p) \<and> g_value (?v p) = Fin gp \<and> gp + c \<le> gx"
    if x: "x \<noteq> s0" "g_value (?v x) = Fin gx" for x gx
  proof (cases "x = t")
    case True
    then show ?thesis using x improvesD(6-8) [OF im] improvesD(4) [OF im] improvesD(3) [OF im] improves_distinct [OF im] by auto
  next
    case False
    then obtain p l c gp where "parent_state (v x) = Some p" "(l, x, c) \<in> set (E p)" "g_value (v p) = Fin gp" "gp + c \<le> gx"
      using nodes_invD(8) [OF improvesD(1) [OF im] x(1)] x(2) by auto
    then show ?thesis using improves_g [OF im, of p gp] False by fastforce
  qed
  ultimately show ?thesis using nodes_invD(1-3) [OF improvesD(1) [OF im]] improves_distinct [OF im] unfolding nodes_inv_def by simp
qed

lemma closed_inv_update:
  assumes im: "improves E P s0 g0 v s g l t c n" and "closed_inv E R v" "status n \<noteq> CLOSED"
  shows "closed_inv E (R - {(s, t, c)}) (v(t := n))"
  unfolding closed_inv_def
proof (intro allI impI)
  fix p gp l' t' c' assume p: "status ((v(t := n)) p) = CLOSED" "g_value ((v(t := n)) p) = Fin gp" "(l', t', c') \<in> set (E p)"
  then have "p \<noteq> t" using assms(3) by auto
  then have vp: "status (v p) = CLOSED" "g_value (v p) = Fin gp" using p by auto
  then have "(p, t', c') \<in> R \<or> (\<exists>gt. g_value (v t') = Fin gt \<and> gt \<le> gp + c')" using assms(2) p(3) unfolding closed_inv_def by blast
  then show "(p, t', c') \<in> R - {(s, t, c)} \<or> (\<exists>gt. g_value ((v(t := n)) t') = Fin gt \<and> gt \<le> gp + c')"
  proof
    assume "\<exists>gt. g_value (v t') = Fin gt \<and> gt \<le> gp + c'"
    then show ?thesis using improves_g [OF im, of t'] by fastforce
  next
    assume "(p, t', c') \<in> R"
    moreover have "\<exists>gt. g_value ((v(t := n)) t) = Fin gt \<and> gt \<le> gp + c'" if "p = s" "c' = c" using that vp improvesD(3) [OF im] improvesD(6-8) [OF im] by simp
    ultimately show ?thesis by auto
  qed
qed

lemma queue_inv_update:
  assumes im: "improves E P s0 g0 v s g l t c n" and "queue_inv P v Q" "h_of P t = Fin h" "status n \<in> {OPEN, GOAL}"
  shows "queue_inv P (v(t := n)) (insert \<lparr>e_f = Fin (g + c + h), e_state = t, e_status = status n\<rparr> Q)"
  unfolding queue_inv_def
proof (intro conjI allI ballI impI)
  let ?e = "\<lparr>e_f = Fin (g + c + h), e_state = t, e_status = status n\<rparr>"
  fix x assume "status ((v(t := n)) x) \<in> {OPEN, GOAL}"
  then show "\<exists>e \<in> insert ?e Q. e_state e = x \<and> (\<exists>g h. g_value ((v(t := n)) x) = Fin g \<and> h_of P x = Fin h \<and> e_f e = Fin (g + h))"
    using assms improvesD(6-8) [OF im] by (cases "x = t") (auto simp: queue_inv_def)
next
  let ?e = "\<lparr>e_f = Fin (g + c + h), e_state = t, e_status = status n\<rparr>"
  fix e assume "e \<in> insert ?e Q"
  moreover have "\<exists>g h f. g_value ((v(t := n)) (e_state e)) = Fin g \<and> h_of P (e_state e) = Fin h \<and> e_f e = Fin f \<and> g + h \<le> f"
    if eQ: "e \<in> Q"
  proof -
    obtain gx hx f where e: "g_value (v (e_state e)) = Fin gx" "h_of P (e_state e) = Fin hx" "e_f e = Fin f" "gx + hx \<le> f"
      using assms(2) eQ unfolding queue_inv_def by blast
    with improves_g [OF im e(1)] show ?thesis by fastforce
  qed
  ultimately show "\<exists>g h f. g_value ((v(t := n)) (e_state e)) = Fin g \<and> h_of P (e_state e) = Fin h \<and> e_f e = Fin f \<and> g + h \<le> f"
    using assms(3) improvesD(6-8) [OF im] by auto
qed

lemma queue_inv_dead_end:
  assumes "queue_inv P v Q" "h_of P t = Infinity" "status n = DEAD_END"
  shows "queue_inv P (v(t := n)) Q"
proof -
  have "e_state e \<noteq> t" if "e \<in> Q" for e using that assms(1,2) by (fastforce simp: queue_inv_def)
  then show ?thesis using assms(1,3) by (simp add: queue_inv_def)
qed

section \<open>Preservation\<close>

definition content :: "astar \<Rightarrow> nat \<Rightarrow> search_node" where
  "content A = node_at default_search_node (search_nodes A)"

definition astar_inv :: "'l edges \<Rightarrow> 'l search_problem \<Rightarrow> nat \<Rightarrow> rat \<Rightarrow> (nat \<times> nat \<times> rat) set \<Rightarrow> astar \<Rightarrow> bool" where
  "astar_inv E P s0 g0 R A \<longleftrightarrow> nodes_inv E s0 g0 (content A) \<and> closed_inv E R (content A) \<and> status_inv P (content A)
     \<and> queue_inv P (content A) (set (openlist A)) \<and> length (search_nodes A) \<in> Suc ` reachable E P"

lemma astar_invD:
  assumes "astar_inv E P s0 g0 R A"
  shows "nodes_inv E s0 g0 (content A)" "closed_inv E R (content A)" "status_inv P (content A)"
    "queue_inv P (content A) (set (openlist A))" "length (search_nodes A) \<in> Suc ` reachable E P"
  using assms by (simp_all add: astar_inv_def)

text \<open>How a successor can be handled: the search ends, the node is improved (and is a dead end or enters the open list), or it is not.\<close>

inductive generated :: "'l search_problem \<Rightarrow> nat \<Rightarrow> astar \<Rightarrow> nat \<Rightarrow> fval \<Rightarrow> search_status + astar \<Rightarrow> bool" for P s A t m where
  gen_states: "sp_max_num_states P \<le> max (length (search_nodes A)) (Suc t) \<Longrightarrow> generated P s A t m (Inl OUT_OF_STATES)"
| gen_dead_end: "fless m (g_value (content A t)) \<Longrightarrow> h_of P t = Infinity \<Longrightarrow>
    content A' = (content A)(t := \<lparr>g_value = m, parent_state = Some s, status = DEAD_END\<rparr>) \<Longrightarrow> openlist A' = openlist A \<Longrightarrow>
    length (search_nodes A') = max (length (search_nodes A)) (Suc t) \<Longrightarrow> generated P s A t m (Inr A')"
| gen_open: "fless m (g_value (content A t)) \<Longrightarrow> h_of P t \<noteq> Infinity \<Longrightarrow> st = (if sp_dynamic_goal P t then GOAL else OPEN) \<Longrightarrow>
    content A' = (content A)(t := \<lparr>g_value = m, parent_state = Some s, status = st\<rparr>) \<Longrightarrow>
    openlist A' = openlist A @ [\<lparr>e_f = canonicalize_value (fadd m (h_of P t)), e_state = t, e_status = st\<rparr>] \<Longrightarrow>
    length (search_nodes A') = max (length (search_nodes A)) (Suc t) \<Longrightarrow> generated P s A t m (Inr A')"
| gen_not_relaxed: "\<not> fless m (g_value (content A t)) \<Longrightarrow> content A' = content A \<Longrightarrow> openlist A' = openlist A \<Longrightarrow>
    length (search_nodes A') = max (length (search_nodes A)) (Suc t) \<Longrightarrow> generated P s A t m (Inr A')"

lemma search_node_eq: "(n :: search_node)\<lparr>parent_state := p, g_value := m, status := st\<rparr> = \<lparr>g_value = m, parent_state = p, status = st\<rparr>"
  by (cases n) simp

lemma content_update:
  "search_nodes A' = (get_or_create default_search_node t (search_nodes A))[t := n] \<Longrightarrow> content A' = (content A)(t := n)"
  by (rule ext) (simp add: content_def node_at_update)

lemma generate_successor_cases:
  assumes "unpruned P"
  shows "generated P s A t m (generate_successor P s A (l, t, m))"
proof -
  let ?N = "get_or_create default_search_node t (search_nodes A)"
  have N: "?N ! t = content A t" by (simp add: content_def)
  have pr: "\<not> sp_prune_succ P s t b" for b using assms by (simp add: unpruned_def)
  consider "status (?N ! t) = NEW" "length ?N \<ge> sp_max_num_states P"
    | "\<not> (status (?N ! t) = NEW \<and> length ?N \<ge> sp_max_num_states P)" "fless m (g_value (?N ! t))" "h_of P t = Infinity"
    | "\<not> (status (?N ! t) = NEW \<and> length ?N \<ge> sp_max_num_states P)" "fless m (g_value (?N ! t))" "h_of P t \<noteq> Infinity"
    | "\<not> (status (?N ! t) = NEW \<and> length ?N \<ge> sp_max_num_states P)" "\<not> fless m (g_value (?N ! t))" by blast
  then show ?thesis
  proof cases
    case 1
    then have "generate_successor P s A (l, t, m) = Inl OUT_OF_STATES" by (simp add: generate_successor_def Let_def)
    with 1 show ?thesis by (simp add: gen_states)
  next
    case 2
    define A' where "A' = A\<lparr>search_nodes := ?N[t := \<lparr>g_value = m, parent_state = Some s, status = DEAD_END\<rparr>]\<rparr>"
    have "generate_successor P s A (l, t, m) = Inr A'"
      using 2 pr by (simp add: generate_successor_def Let_def h_of_def search_node_eq A'_def)
    moreover have "content A' = (content A)(t := \<lparr>g_value = m, parent_state = Some s, status = DEAD_END\<rparr>)"
      by (rule content_update) (simp add: A'_def)
    ultimately show ?thesis using 2 N by (simp add: gen_dead_end A'_def)
  next
    case 3
    let ?st = "if sp_dynamic_goal P t then GOAL else OPEN"
    define A' where "A' = A\<lparr>search_nodes := ?N[t := \<lparr>g_value = m, parent_state = Some s, status = ?st\<rparr>],
      openlist := openlist A @ [\<lparr>e_f = canonicalize_value (fadd m (h_of P t)), e_state = t, e_status = ?st\<rparr>]\<rparr>"
    have "generate_successor P s A (l, t, m) = Inr A'"
      using 3 pr by (simp add: generate_successor_def Let_def h_of_def search_node_eq A'_def pq_insert_def)
    moreover have "content A' = (content A)(t := \<lparr>g_value = m, parent_state = Some s, status = ?st\<rparr>)"
      by (rule content_update) (simp add: A'_def)
    ultimately show ?thesis using 3 N by (simp add: gen_open [OF _ _ refl] A'_def)
  next
    case 4
    have "generate_successor P s A (l, t, m) = Inr (A\<lparr>search_nodes := ?N\<rparr>)"
      using 4 pr by (simp add: generate_successor_def Let_def)
    moreover have "content (A\<lparr>search_nodes := ?N\<rparr>) = content A" by (rule ext) (simp add: content_def)
    ultimately show ?thesis using 4 N by (simp add: gen_not_relaxed)
  qed
qed

text \<open>The rank of the storage decreases with every improvement: fewer states are new or their values decrease on the grid.\<close>

definition g_steps :: "rat \<Rightarrow> fval \<Rightarrow> nat" where
  "g_steps g0 x = (case x of Fin g \<Rightarrow> grid_steps (g - g0) | _ \<Rightarrow> 0)"

definition rank :: "nat set \<Rightarrow> rat \<Rightarrow> (nat \<Rightarrow> search_node) \<Rightarrow> nat \<times> nat" where
  "rank S g0 v = (card {x \<in> S. g_value (v x) = Infinity}, \<Sum>x \<in> S. g_steps g0 (g_value (v x)))"

abbreviation rank_order :: "((nat \<times> nat) \<times> (nat \<times> nat)) set" where
  "rank_order \<equiv> less_than <*lex*> less_than"

lemma improves_rank:
  assumes im: "improves E P s0 g0 v s g l t c n" and "finite S" "t \<in> S" "on_grid g0"
  shows "(rank S g0 (v(t := n)), rank S g0 v) \<in> rank_order"
proof (cases "g_value (v t)")
  case Infinity
  let ?X = "{x \<in> S. g_value (v x) = Infinity}"
  have eq: "{x \<in> S. g_value ((v(t := n)) x) = Infinity} = ?X - {t}" using Infinity improvesD(6) [OF im] by auto
  have "t \<in> ?X" "finite ?X" using Infinity assms(2,3) by simp_all
  then have "card (?X - {t}) < card ?X" by (rule card_Diff1_less [rotated])
  then show ?thesis unfolding rank_def eq by simp
next
  case (Fin gt)
  have "{x \<in> S. g_value ((v(t := n)) x) = Infinity} = {x \<in> S. g_value (v x) = Infinity}"
    using improvesD(6) [OF im] Fin by auto
  moreover have "(\<Sum>x \<in> S. g_steps g0 (g_value ((v(t := n)) x))) < (\<Sum>x \<in> S. g_steps g0 (g_value (v x)))"
  proof (rule sum_strict_mono_ex1)
    have *: "g_steps g0 (g_value n) < g_steps g0 (g_value (v t))"
    proof -
      have "on_grid (g + c - g0)" using path_cost_grid [OF improvesD(2) [OF im] improves_path [OF im]] by simp
      moreover have "on_grid (gt - g0)" using path_cost_grid [OF improvesD(2) [OF im] nodes_invD(6) [OF improvesD(1) [OF im] Fin]] by simp
      moreover have "g + c < gt" using improvesD(5) [OF im] Fin by simp
      moreover have "0 \<le> g + c - g0" using nodes_invD(4) [OF improvesD(1,3) [OF im]] improves_cost(1) [OF im] by simp
      ultimately show ?thesis using grid_steps_less [of "g + c - g0" "gt - g0"] improvesD(6) [OF im] Fin by (simp add: g_steps_def)
    qed
    show "\<forall>x \<in> S. g_steps g0 (g_value ((v(t := n)) x)) \<le> g_steps g0 (g_value (v x))" using * by auto
    show "\<exists>x \<in> S. g_steps g0 (g_value ((v(t := n)) x)) < g_steps g0 (g_value (v x))" using * assms(3) by (intro bexI [of _ t]) simp_all
  qed fact
  ultimately show ?thesis by (simp add: rank_def)
next
  case NaN
  then show ?thesis using improvesD(5) [OF im] by simp
qed

lemma step_reachable: "path_cost E s0 s d \<Longrightarrow> (l, t, c) \<in> set (E s) \<Longrightarrow> fst (sp_start_node P) = s0 \<Longrightarrow> t \<in> reachable E P"
  by (auto simp: reachable_def intro: path_cost_trans path_cost_edge)

lemma astar_settingD:
  assumes "astar_setting E P"
  shows "additive E P" "unpruned P" "shuffles P" "admissible E P"
  using assms by (simp_all add: astar_setting_def)

lemma h_of_cases:
  assumes "admissible E P"
  obtains "h_of P s = Infinity" "sp_heuristic P s = Infinity" | h where "h_of P s = Fin h" "0 \<le> h" "on_grid h"
proof (cases "sp_heuristic P s")
  case (Fin v)
  then have "0 \<le> v" using assms by (simp add: admissible_def)
  obtain h where h: "canonicalize_value (Fin v) = Fin h" by simp
  moreover have "canonicalize_value (Fin 0) = Fin 0" using on_grid_0 unfolding on_grid_def .
  ultimately show ?thesis using that(2) [of h] \<open>0 \<le> v\<close> Fin canonicalize_mono canonicalize_grid unfolding h_of_def by metis
next
  case Infinity
  then show ?thesis using that(1) by (simp add: h_of_def)
next
  case NaN
  then show ?thesis using assms by (simp add: admissible_def)
qed

text \<open>While \<open>s\<close> with value \<open>g\<close> is expanded.\<close>

definition expanding :: "'l edges \<Rightarrow> 'l search_problem \<Rightarrow> nat \<Rightarrow> rat \<Rightarrow> nat \<Rightarrow> rat \<Rightarrow> (nat \<times> nat \<times> rat) set \<Rightarrow> astar \<Rightarrow> bool" where
  "expanding E P s0 g0 s g R A \<longleftrightarrow> astar_inv E P s0 g0 R A \<and> status (content A s) = CLOSED \<and> g_value (content A s) = Fin g"

lemma max_reachable: "a \<in> Suc ` S \<Longrightarrow> t \<in> S \<Longrightarrow> max a (Suc t) \<in> Suc ` S"
  by (auto simp: max_def)

definition progress :: "nat set \<Rightarrow> rat \<Rightarrow> astar \<Rightarrow> astar \<Rightarrow> bool" where
  "progress S g0 A A' \<longleftrightarrow> (rank S g0 (content A'), rank S g0 (content A)) \<in> rank_order
     \<or> rank S g0 (content A') = rank S g0 (content A) \<and> openlist A' = openlist A"

lemma progress_trans: "progress S g0 A B \<Longrightarrow> progress S g0 B C \<Longrightarrow> progress S g0 A C"
  using transD [OF trans_lex_prod [OF trans_less_than trans_less_than]] unfolding progress_def by fastforce

lemma generated_expanding:
  assumes set: "astar_setting E P" "sp_start_node P = (s0, Fin g0)" "finite (reachable E P)"
    and ex: "expanding E P s0 g0 s g R A" and e: "(l, t, c) \<in> set (E s)" and gen: "generated P s A t (Fin (g + c)) r"
  shows "case r of Inl x \<Rightarrow> x = OUT_OF_STATES \<and> (\<exists>y \<in> reachable E P. sp_max_num_states P \<le> Suc y)
    | Inr A' \<Rightarrow> expanding E P s0 g0 s g (R - {(s, t, c)}) A' \<and> progress (reachable E P) g0 A A'"
proof -
  have inv: "astar_inv E P s0 g0 R A" and s: "status (content A s) = CLOSED" "g_value (content A s) = Fin g"
    using ex by (simp_all add: expanding_def)
  have t: "t \<in> reachable E P"
    using step_reachable [OF nodes_invD(6) [OF astar_invD(1) [OF inv] s(2)] e] set(2) by simp
  have len: "max (length (search_nodes A)) (Suc t) \<in> Suc ` reachable E P" using max_reachable [OF astar_invD(5) [OF inv] t] .
  have grid: "on_grid g0" using set(1,2) by (auto simp: astar_setting_def additive_def)
  have improved: "improves E P s0 g0 (content A) s g l t c n"
    if "fless (Fin (g + c)) (g_value (content A t))" "n = \<lparr>g_value = Fin (g + c), parent_state = Some s, status = st\<rparr>" "st \<noteq> NEW" for n st
    using that astar_invD(1) [OF inv] astar_settingD(1) [OF set(1)] s(2) e by (simp add: improves_def)
  from gen show ?thesis
  proof cases
    case gen_states
    then show ?thesis using len by auto
  next
    case (gen_dead_end A')
    let ?n = "\<lparr>g_value = Fin (g + c), parent_state = Some s, status = DEAD_END\<rparr>"
    have im: "improves E P s0 g0 (content A) s g l t c ?n" using improved gen_dead_end(2) by simp
    have "status_inv P (content A')"
      using astar_invD(3) [OF inv] gen_dead_end(3,4) unfolding status_inv_def by (simp add: h_of_def)
    moreover have "queue_inv P (content A') (set (openlist A'))"
      using queue_inv_dead_end [OF astar_invD(4) [OF inv] gen_dead_end(3), of ?n] gen_dead_end(4,5) by simp
    ultimately have "astar_inv E P s0 g0 (R - {(s, t, c)}) A'"
      using nodes_inv_update [OF im] closed_inv_update [OF im astar_invD(2) [OF inv]] len gen_dead_end(4,6) by (simp add: astar_inv_def)
    then show ?thesis
      using gen_dead_end(1,4) s improves_distinct(2) [OF im] improves_rank [OF im set(3) t grid] by (simp add: expanding_def progress_def)
  next
    case (gen_open st A')
    let ?n = "\<lparr>g_value = Fin (g + c), parent_state = Some s, status = st\<rparr>"
    have st: "st \<in> {OPEN, GOAL}" using gen_open(4) by simp
    then have im: "improves E P s0 g0 (content A) s g l t c ?n" using improved gen_open(2) by auto
    obtain h where h: "h_of P t = Fin h" "on_grid h" using gen_open(3) h_of_cases [OF astar_settingD(4) [OF set(1)], of t] by auto
    have "on_grid (g + c + h)"
    proof -
      have "on_grid (g + c - g0)" using path_cost_grid [OF astar_settingD(1) [OF set(1)] improves_path [OF im]] by simp
      then show ?thesis using on_grid_add [OF on_grid_add [OF _ grid] h(2)] by fastforce
    qed
    then have "openlist A' = openlist A @ [\<lparr>e_f = Fin (g + c + h), e_state = t, e_status = status ?n\<rparr>]"
      using gen_open(6) h(1) by (simp add: on_grid_def del: canonicalize_value.simps)
    then have "queue_inv P (content A') (set (openlist A'))"
      using queue_inv_update [OF im astar_invD(4) [OF inv] h(1)] st gen_open(5) by simp
    moreover have "status_inv P (content A')"
      using astar_invD(3) [OF inv] gen_open(3,4,5) unfolding status_inv_def by simp
    ultimately have "astar_inv E P s0 g0 (R - {(s, t, c)}) A'"
      using nodes_inv_update [OF im] closed_inv_update [OF im astar_invD(2) [OF inv]] len gen_open(5,7) st by (auto simp: astar_inv_def)
    then show ?thesis
      using gen_open(1,5) s improves_distinct(2) [OF im] improves_rank [OF im set(3) t grid] by (simp add: expanding_def progress_def)
  next
    case (gen_not_relaxed A')
    have "\<exists>gt. g_value (content A t) = Fin gt \<and> gt \<le> g + c"
      by (rule nodes_inv_cases [OF astar_invD(1) [OF inv], of t]) (use gen_not_relaxed(2) in \<open>auto simp: default_search_node_def\<close>)
    then have "closed_inv E (R - {(s, t, c)}) (content A)"
      using astar_invD(2) [OF inv] s(2) unfolding closed_inv_def by fastforce
    then have "astar_inv E P s0 g0 (R - {(s, t, c)}) A'"
      using inv gen_not_relaxed(3-) len by (simp add: astar_inv_def)
    then show ?thesis using gen_not_relaxed(1,3,4) s by (simp add: expanding_def progress_def)
  qed
qed

lemma fold_expanding:
  assumes set: "astar_setting E P" "sp_start_node P = (s0, Fin g0)" "finite (reachable E P)"
    and "expanding E P s0 g0 s g R A" and "\<forall>x \<in> set xs. \<exists>l t c. x = (l, t, Fin (g + c)) \<and> (l, t, c) \<in> set (E s)"
  shows "case fold_result (generate_successor P s) A xs of
      Inl x \<Rightarrow> x = OUT_OF_STATES \<and> (\<exists>y \<in> reachable E P. sp_max_num_states P \<le> Suc y)
    | Inr A' \<Rightarrow> expanding E P s0 g0 s g (R - {(s, t, c) | t c. \<exists>l. (l, t, Fin (g + c)) \<in> set xs}) A' \<and> progress (reachable E P) g0 A A'"
  using assms(4,5)
proof (induction xs arbitrary: A R)
  case Nil
  then show ?case by (simp add: progress_def)
next
  case (Cons x xs)
  obtain l t c where x: "x = (l, t, Fin (g + c))" "(l, t, c) \<in> set (E s)" using Cons.prems(2) by auto
  have step: "case generate_successor P s A x of Inl x \<Rightarrow> x = OUT_OF_STATES \<and> (\<exists>y \<in> reachable E P. sp_max_num_states P \<le> Suc y)
    | Inr A' \<Rightarrow> expanding E P s0 g0 s g (R - {(s, t, c)}) A' \<and> progress (reachable E P) g0 A A'"
    unfolding x(1) by (rule generated_expanding [OF set Cons.prems(1) x(2) generate_successor_cases [OF astar_settingD(2) [OF set(1)]]])
  show ?case
  proof (cases "generate_successor P s A x")
    case (Inl r)
    with step show ?thesis by simp
  next
    case (Inr A')
    have R: "R - {(s, t', c') | t' c'. \<exists>l. (l, t', Fin (g + c')) \<in> set (x # xs)} =
      (R - {(s, t, c)}) - {(s, t', c') | t' c'. \<exists>l. (l, t', Fin (g + c')) \<in> set xs}" using x(1) by auto
    have "expanding E P s0 g0 s g (R - {(s, t, c)}) A'" "progress (reachable E P) g0 A A'" using step Inr by simp_all
    with Cons.IH [of "R - {(s, t, c)}" A'] Cons.prems(2) show ?thesis
      unfolding R by (auto simp: Inr intro: progress_trans split: sum.splits)
  qed
qed

text \<open>Removing the entry of a state that is closed.\<close>

lemma queue_inv_remove:
  assumes "queue_inv P v Q" "Q = insert e Q'" "status (v' (e_state e)) \<notin> {OPEN, GOAL}"
    and "\<And>x. g_value (v' x) = g_value (v x)" "\<And>x. x \<noteq> e_state e \<Longrightarrow> status (v' x) = status (v x)"
  shows "queue_inv P v' Q'"
  unfolding queue_inv_def assms(4)
proof (intro conjI allI impI)
  fix x assume "status (v' x) \<in> {OPEN, GOAL}"
  then have "x \<noteq> e_state e" "status (v x) \<in> {OPEN, GOAL}" using assms(3,5) by metis+
  then show "\<exists>e \<in> Q'. e_state e = x \<and> (\<exists>g h. g_value (v x) = Fin g \<and> h_of P x = Fin h \<and> e_f e = Fin (g + h))"
    using assms(1,2) unfolding queue_inv_def by blast
next
  show "\<forall>e \<in> Q'. \<exists>g h f. g_value (v (e_state e)) = Fin g \<and> h_of P (e_state e) = Fin h \<and> e_f e = Fin f \<and> g + h \<le> f"
    using assms(1,2) unfolding queue_inv_def by blast
qed

lemma rooted_cong: "rooted v s0 x \<Longrightarrow> (\<And>y. parent_state (v' y) = parent_state (v y)) \<Longrightarrow> rooted v' s0 x"
  by (induction rule: rooted.induct) (auto intro: rooted.intros)

lemma nodes_inv_cong:
  assumes "nodes_inv E s0 g0 v" "\<And>x. g_value (v' x) = g_value (v x)" "\<And>x. parent_state (v' x) = parent_state (v x)"
    and "\<And>x. status (v' x) = NEW \<longleftrightarrow> status (v x) = NEW" "\<And>x. v x = default_search_node \<Longrightarrow> v' x = default_search_node"
  shows "nodes_inv E s0 g0 v'"
  using assms(1) rooted_cong [of v s0 _ v', OF _ assms(3)] assms(5) unfolding nodes_inv_def assms(2-4) by metis

lemma close_state:
  assumes inv: "astar_inv E P s0 g0 {} A" and e: "set (openlist A) = insert e (set q)" "e_state e = s"
    and op: "status (content A s) = OPEN" "g_value (content A s) = Fin g"
    and A': "content A' = (content A)(s := (content A s)\<lparr>status := CLOSED\<rparr>)" "openlist A' = q" "length (search_nodes A') = length (search_nodes A)"
  shows "expanding E P s0 g0 s g {(s, t, c) | t c. \<exists>l. (l, t, c) \<in> set (E s)} A'"
proof -
  have same: "g_value (content A' x) = g_value (content A x)" "parent_state (content A' x) = parent_state (content A x)" for x
    by (simp_all add: A'(1))
  have "nodes_inv E s0 g0 (content A')"
    by (rule nodes_inv_cong [OF astar_invD(1) [OF inv] same]) (use op in \<open>auto simp: A'(1) default_search_node_def\<close>)
  moreover have "closed_inv E {(s, t, c) | t c. \<exists>l. (l, t, c) \<in> set (E s)} (content A')"
    using astar_invD(2) [OF inv] unfolding closed_inv_def same by (auto simp: A'(1))
  moreover have "status_inv P (content A')" using astar_invD(3) [OF inv] op(1) unfolding status_inv_def by (auto simp: A'(1))
  moreover have "queue_inv P (content A') (set (openlist A'))"
    using queue_inv_remove [OF astar_invD(4) [OF inv] e(1), of "content A'"] e(2) A' by simp
  ultimately show ?thesis using astar_invD(5) [OF inv] op A' by (simp add: expanding_def astar_inv_def)
qed

text \<open>On every path from a generated state to a goal, the first state that is not closed has an entry that is not above the cost of the path.\<close>

lemma open_entry_here:
  assumes set: "astar_setting E P" and inv: "astar_inv E P s0 g0 R A"
    and p: "path_cost E s t d" "sp_dynamic_goal P t" and g: "g_value (content A s) = Fin g" and "status (content A s) \<noteq> CLOSED"
  shows "\<exists>e \<in> set (openlist A). \<exists>f. e_f e = Fin f \<and> f \<le> g + d"
proof -
  obtain v where v: "sp_heuristic P s = Fin v" "v \<le> d"
    using astar_settingD(4) [OF set] p unfolding admissible_def by blast
  then have "status (content A s) \<noteq> DEAD_END" using astar_invD(3) [OF inv] by (auto simp: status_inv_def)
  then have "status (content A s) \<in> {OPEN, GOAL}"
    using nodes_invD(5) [OF astar_invD(1) [OF inv] g] assms(6) by (cases "status (content A s)") auto
  then obtain e h where e: "e \<in> set (openlist A)" "h_of P s = Fin h" "e_f e = Fin (g + h)"
    using astar_invD(4) [OF inv] g unfolding queue_inv_def by fastforce
  moreover have "canonicalize_value (Fin d) = Fin d" using path_cost_grid [OF astar_settingD(1) [OF set] p(1)] by (simp add: on_grid_def)
  then have "h \<le> d" using canonicalize_mono [OF v(2)] e(2) v(1) unfolding h_of_def by metis
  ultimately show ?thesis by (intro bexI [of _ e] exI [of _ "g + h"]) simp_all
qed

lemma open_entry_below:
  assumes set: "astar_setting E P" and inv: "astar_inv E P s0 g0 {} A"
    and "path_cost E s t d" "sp_dynamic_goal P t" "g_value (content A s) = Fin g"
  shows "\<exists>e \<in> set (openlist A). \<exists>f. e_f e = Fin f \<and> f \<le> g + d"
  using assms(3-)
proof (induction arbitrary: g)
  case (path_refl s)
  then have "status (content A s) \<noteq> CLOSED" using astar_invD(3) [OF inv] by (auto simp: status_inv_def)
  with open_entry_here [OF set inv path_cost.path_refl path_refl] show ?case .
next
  case (path_step l t c s u d)
  show ?case
  proof (cases "status (content A s) = CLOSED")
    case True
    then obtain gt where "g_value (content A t) = Fin gt" "gt \<le> g + c"
      using astar_invD(2) [OF inv] path_step.hyps(1) path_step.prems(2) unfolding closed_inv_def by blast
    with path_step.IH [OF path_step.prems(1), of gt] show ?thesis by fastforce
  next
    case False
    with open_entry_here [OF set inv path_cost.path_step [OF path_step.hyps] path_step.prems] show ?thesis .
  qed
qed

section \<open>The plan of an expanded goal\<close>

text \<open>If no goal is cheaper than \<open>t\<close>, then the parents of \<open>t\<close> form a path whose costs are the stored values.\<close>

lemma content_nth: "g_value (content A s) = Fin g \<Longrightarrow> s < length (search_nodes A) \<and> search_nodes A ! s = content A s"
  by (auto simp: content_def node_at_def default_search_node_def split: if_splits)

lemma optimal_chain:
  assumes add: "additive E P" and inv: "nodes_inv E s0 g0 (content A)"
    and opt: "\<And>d. path_cost E s0 t d \<Longrightarrow> gt - g0 \<le> d"
    and "rooted (content A) s0 s" "g_value (content A s) = Fin g" "path_cost E s t d" "gt = g + d"
  shows "(\<exists>ps. chain_path (sp_succs P) (search_nodes A) s0 s ps) \<and> (s \<noteq> s0 \<longrightarrow>
    (\<exists>p ps l. parent_state (content A s) = Some p \<and> chain_path (sp_succs P) (search_nodes A) s0 p ps
      \<and> (l, s, Fin g) \<in> set (sp_succs P (stored (search_nodes A) p))))"
  using assms(4-)
proof (induction arbitrary: g d)
  case rooted_start
  then have "s0 < length (search_nodes A)" "parent_state (search_nodes A ! s0) = None"
    using content_nth [of A s0] nodes_invD(1,3) [OF inv] by auto
  then show ?case using chain_path_start by blast
next
  case (rooted_step s p)
  obtain p' l c gp where p: "parent_state (content A s) = Some p'" "(l, s, c) \<in> set (E p')" "g_value (content A p') = Fin gp" "gp + c \<le> g"
    using nodes_invD(8) [OF inv rooted_step.hyps(1) rooted_step.prems(1)] by blast
  have pd: "path_cost E p t (c + d)" using path_step [OF _ rooted_step.prems(2)] p(1,2) rooted_step.hyps(2) by simp
  have "gt - g0 \<le> (gp - g0) + (c + d)"
    using opt path_cost_trans [OF nodes_invD(6) [OF inv p(3)]] pd p(1) rooted_step.hyps(2) by simp
  then have eq: "g = gp + c" using p(4) rooted_step.prems(3) by simp
  then obtain ps where ps: "chain_path (sp_succs P) (search_nodes A) s0 p ps"
    using rooted_step.IH [of gp "c + d"] pd p(1,3) rooted_step.hyps(2) rooted_step.prems(3) by auto
  have st: "s < length (search_nodes A)" "search_nodes A ! s = content A s" "stored (search_nodes A) p = (p, Fin gp)"
    using content_nth [OF rooted_step.prems(1)] content_nth [OF p(3)] p(1,3) rooted_step.hyps(2) by simp_all
  have "(l, s, Fin g) \<in> set (sp_succs P (stored (search_nodes A) p))"
    using add p(1,2) rooted_step.hyps(2) eq st(3) unfolding additive_def by force
  then show ?case using chain_path_step [OF ps, of l s] ps st(1,2) rooted_step.hyps(2) rooted_step.prems(1) by auto
qed

section \<open>The main loop\<close>

text \<open>What a result promises.\<close>

definition optimal_plan :: "'l edges \<Rightarrow> 'l search_problem \<Rightarrow> 'l search_result \<Rightarrow> bool" where
  "optimal_plan E P r \<longleftrightarrow> (\<exists>p t g. result_plan r = Some p \<and> result_goal r = Some (t, Fin g) \<and> plan_start p = sp_start_node P
     \<and> is_path (sp_succs P) (plan_start p) (plan_succs p) (t, Fin g) \<and> sp_static_goal P \<and> sp_dynamic_goal P t
     \<and> (\<forall>t' d g0. path_cost E (fst (sp_start_node P)) t' d \<longrightarrow> sp_dynamic_goal P t' \<longrightarrow> snd (sp_start_node P) = Fin g0 \<longrightarrow> g \<le> g0 + d))"

definition outcome :: "'l edges \<Rightarrow> 'l search_problem \<Rightarrow> 'l search_result \<Rightarrow> bool" where
  "outcome E P r \<longleftrightarrow> (case result_status r of
      SOLVED \<Rightarrow> optimal_plan E P r
    | EXHAUSTED \<Rightarrow> \<not> solvable E P
    | UNSOLVABLE \<Rightarrow> \<not> solvable E P
    | OUT_OF_TIME \<Rightarrow> \<exists>n. sp_out_of_time P n
    | OUT_OF_STATES \<Rightarrow> \<exists>y \<in> reachable E P. sp_max_num_states P \<le> Suc y
    | _ \<Rightarrow> False)"

lemma goal_expanded:
  assumes set: "astar_setting E P" "sp_start_node P = (s0, Fin g0)" "sp_static_goal P" and inv: "astar_inv E P s0 g0 {} A"
    and e: "e \<in> set (openlist A)" "\<And>e'. e' \<in> set (openlist A) \<Longrightarrow> \<not> entry_gt e e'" "e_state e = t"
    and t: "status (content A t) = GOAL" "t \<noteq> s0" and nodes: "nodes = search_nodes A"
  shows "\<exists>r. map_option (map_sum id (\<lambda>p. solved p (t, g_value (content A t))))
      (extract_total_ordered_plan (sp_succs P) nodes (parent_state (content A t)) (t, g_value (content A t))) = Some (Inr r) \<and> outcome E P r"
proof -
  obtain g h f where f: "g_value (content A t) = Fin g" "h_of P t = Fin h" "e_f e = Fin f" "g + h \<le> f"
    using astar_invD(4) [OF inv] e(1,3) unfolding queue_inv_def by blast
  have "0 \<le> h" using h_of_cases [OF astar_settingD(4) [OF set(1)], of t] f(2) by fastforce
  have opt: "g \<le> g0 + d" if pd: "path_cost E s0 t' d" "sp_dynamic_goal P t'" for t' d
  proof -
    obtain e' f' where "e' \<in> set (openlist A)" "e_f e' = Fin f'" "f' \<le> g0 + d"
      using open_entry_below [OF set(1) inv pd nodes_invD(1) [OF astar_invD(1) [OF inv]]] by blast
    moreover from this have "f \<le> f'" using e(2) [of e'] f(3) by (auto simp: entry_gt_def)
    ultimately show ?thesis using f(4) \<open>0 \<le> h\<close> by simp
  qed
  have goal: "sp_dynamic_goal P t" using astar_invD(3) [OF inv] t(1) by (simp add: status_inv_def)
  have "g - g0 \<le> d" if "path_cost E s0 t d" for d using opt [OF that goal] by simp
  from optimal_chain [OF astar_settingD(1) [OF set(1)] astar_invD(1) [OF inv] this
      nodes_invD(7) [OF astar_invD(1) [OF inv] f(1)] f(1) path_refl]
  obtain p ps l where p: "parent_state (content A t) = Some p" "chain_path (sp_succs P) nodes s0 p ps"
    "(l, t, Fin g) \<in> set (sp_succs P (stored nodes p))" using t(2) nodes by auto
  have "stored nodes s0 = (s0, Fin g0)"
    using content_nth [OF nodes_invD(1) [OF astar_invD(1) [OF inv]]] nodes_invD(1) [OF astar_invD(1) [OF inv]] nodes by simp
  with chain_path_plan [OF p(2,3)]
  obtain q where "extract_total_ordered_plan (sp_succs P) nodes (parent_state (content A t)) (t, Fin g) = Some (Inr q)"
    "plan_start q = (s0, Fin g0)" "is_path (sp_succs P) (plan_start q) (plan_succs q) (t, Fin g)" using p(1) by auto
  then show ?thesis using f(1) goal opt set(2,3) by (auto simp: outcome_def solved_def optimal_plan_def)
qed

lemma pick_least:
  assumes "pick_ok entry_gt pick" "q \<noteq> []"
  obtains e q' where "pq_top pick q = Some e" "pq_pop pick q = Some q'" "set q = insert e (set q')" "length q' < length q"
    "\<And>e'. e' \<in> set q \<Longrightarrow> \<not> entry_gt e e'"
proof -
  have i: "pick q < length q" "\<And>e'. e' \<in> set q \<Longrightarrow> \<not> entry_gt (q ! pick q) e'" using assms by (auto simp: pick_ok_def)
  then show thesis
    using assms(2) set_without_nth [OF i(1)] by (intro that [of "q ! pick q" "take (pick q) q @ drop (Suc (pick q)) q"]) (simp_all add: pq_top_def pq_pop_def)
qed

definition decreases :: "nat set \<Rightarrow> rat \<Rightarrow> astar \<Rightarrow> astar \<Rightarrow> bool" where
  "decreases S g0 A A' \<longleftrightarrow> ((rank S g0 (content A'), length (openlist A')), rank S g0 (content A), length (openlist A)) \<in> rank_order <*lex*> less_than"

lemma rank_cong: "(\<And>x. g_value (v' x) = g_value (v x)) \<Longrightarrow> rank S g0 v' = rank S g0 v"
  by (simp add: rank_def)

lemma content_openlist [simp]: "content (A\<lparr>openlist := q\<rparr>) = content A"
  by (simp add: content_def)

lemma expand_top_inv:
  assumes set: "astar_setting E P" "sp_start_node P = (s0, Fin g0)" "finite (reachable E P)" "sp_static_goal P" "\<not> sp_dynamic_goal P s0"
    and inv: "astar_inv E P s0 g0 {} A" and "openlist A \<noteq> []" "pick_ok entry_gt (pick n)"
  shows "case expand_top P pick n A of
      Inl r \<Rightarrow> \<exists>r'. r = Some (Inr r') \<and> outcome E P r'
    | Inr A' \<Rightarrow> astar_inv E P s0 g0 {} A' \<and> decreases (reachable E P) g0 A A'"
proof -
  obtain e q where e: "pq_top (pick n) (openlist A) = Some e" "pq_pop (pick n) (openlist A) = Some q"
    "set (openlist A) = insert e (set q)" "length q < length (openlist A)" "\<And>e'. e' \<in> set (openlist A) \<Longrightarrow> \<not> entry_gt e e'"
    using pick_least assms(7,8) by metis
  let ?s = "e_state e"
  let ?N = "get_or_create default_search_node ?s (search_nodes A)"
  let ?n = "content A ?s"
  have N: "?N ! ?s = ?n" by (simp add: content_def)
  obtain g where g: "g_value ?n = Fin g" using astar_invD(4) [OF inv] e(3) unfolding queue_inv_def by blast
  have len: "length ?N = length (search_nodes A)" "?N = search_nodes A"
    using content_nth [OF g] by (auto simp: get_or_create_def)
  have skip: ?thesis if closed: "status ?n \<in> {CLOSED, DEAD_END}"
  proof -
    have "expand_top P pick n A = Inr (A\<lparr>openlist := q\<rparr>)" using e(1,2) N closed len(2) by (auto simp: expand_top_def Let_def content_def)
    moreover have "astar_inv E P s0 g0 {} (A\<lparr>openlist := q\<rparr>)"
      using inv queue_inv_remove [OF astar_invD(4) [OF inv] e(3), of "content A"] closed by (auto simp: astar_inv_def)
    ultimately show ?thesis using e(4) by (simp add: decreases_def)
  qed
  show ?thesis
  proof (cases "status ?n")
    case GOAL
    then have "?s \<noteq> s0" using set(5) astar_invD(3) [OF inv] by (auto simp: status_inv_def)
    with goal_expanded [OF set(1,2,4) inv _ e(5) refl GOAL _ len(2)] e(1-3) GOAL N show ?thesis
      by (simp add: expand_top_def Let_def)
  next
    case NEW
    then show ?thesis using nodes_invD(5) [OF astar_invD(1) [OF inv] g] by simp
  next
    case OPEN
    define A1 where "A1 = A\<lparr>openlist := q, search_nodes := ?N[?s := ?n\<lparr>status := CLOSED\<rparr>]\<rparr>"
    let ?xs = "sp_shuffled P n (sp_succs P (?s, Fin g))"
    have ex: "expand_top P pick n A = (case fold_result (generate_successor P ?s) A1 ?xs of Inl r \<Rightarrow> Inl (Some (Inr (no_plan r))) | Inr A \<Rightarrow> Inr A)"
      using e(1,2) N OPEN g by (simp add: expand_top_def Let_def A1_def)
    have A1: "content A1 = (content A)(?s := ?n\<lparr>status := CLOSED\<rparr>)" "openlist A1 = q" "length (search_nodes A1) = length (search_nodes A)"
      using content_update [of A1 ?s A] len by (simp_all add: A1_def)
    have xs: "set ?xs = (\<lambda>(l, t, c). (l, t, Fin (g + c))) ` set (E ?s)"
      using astar_settingD(1,3) [OF set(1)] by (simp add: shuffles_def additive_def)
    have R: "{(?s, t, c) | t c. \<exists>l. (l, t, c) \<in> set (E ?s)} - {(?s, t, c) | t c. \<exists>l. (l, t, Fin (g + c)) \<in> set ?xs} = {}"
      unfolding xs by force
    have r: "rank (reachable E P) g0 (content A1) = rank (reachable E P) g0 (content A)" by (rule rank_cong) (simp add: A1)
    have "case fold_result (generate_successor P ?s) A1 ?xs of
        Inl x \<Rightarrow> x = OUT_OF_STATES \<and> (\<exists>y \<in> reachable E P. sp_max_num_states P \<le> Suc y)
      | Inr A' \<Rightarrow> expanding E P s0 g0 ?s g {} A' \<and> progress (reachable E P) g0 A1 A'"
      using fold_expanding [OF set(1-3) close_state [OF inv e(3) refl OPEN g A1], of ?xs] xs unfolding R by fastforce
    then show ?thesis
      unfolding ex using e(4) A1(2) r
      by (auto simp: outcome_def no_plan_def expanding_def progress_def decreases_def split: sum.splits)
  next
    case CLOSED
    then show ?thesis using skip by simp
  next
    case DEAD_END
    then show ?thesis using skip by simp
  qed
qed

lemma astar_loop_correct:
  assumes set: "astar_setting E P" "sp_start_node P = (s0, Fin g0)" "finite (reachable E P)" "sp_static_goal P" "\<not> sp_dynamic_goal P s0"
    and pick: "\<And>n. pick_ok entry_gt (pick n)" and "astar_inv E P s0 g0 {} A"
  shows "\<exists>r. astar_loop P pick n A = Some (Inr r) \<and> outcome E P r"
  using assms(7)
proof (induction "(rank (reachable E P) g0 (content A), length (openlist A))" arbitrary: n A rule: wf_induct_rule [OF wf_lex_prod [OF wf_lex_prod [OF wf_less_than wf_less_than] wf_less_than]])
  case 1
  show ?case
  proof (cases "openlist A = []")
    case True
    then have "\<not> solvable E P"
      using open_entry_below [OF set(1) 1(2) _ _ nodes_invD(1) [OF astar_invD(1) [OF 1(2)]]] set(2) by (fastforce simp: solvable_def reachable_def)
    with True show ?thesis by (simp add: astar_loop.simps [of P] pq_empty_def outcome_def no_plan_def)
  next
    case False
    have step: "case expand_top P pick n A of Inl r \<Rightarrow> \<exists>r'. r = Some (Inr r') \<and> outcome E P r'
      | Inr A' \<Rightarrow> astar_inv E P s0 g0 {} A' \<and> decreases (reachable E P) g0 A A'"
      by (rule expand_top_inv [OF set 1(2) False pick])
    consider "sp_out_of_time P n" | r where "\<not> sp_out_of_time P n" "expand_top P pick n A = Inl r" | A' where "\<not> sp_out_of_time P n" "expand_top P pick n A = Inr A'"
      by (metis sum.exhaust)
    then show ?thesis
    proof cases
      case 1
      then show ?thesis using False by (auto simp: astar_loop.simps [of P] pq_empty_def outcome_def no_plan_def)
    next
      case 2
      then show ?thesis using False step by (auto simp: astar_loop.simps [of P] pq_empty_def)
    next
      case (3 A')
      then show ?thesis using False step 1(1) [of A' "Suc n"] by (simp add: astar_loop.simps [of P pick n] pq_empty_def decreases_def)
    qed
  qed
qed

lemma entry_gt_pick: "pick_ok entry_gt (first_min entry_gt)"
proof (rule first_min_ok)
  show "entry_gt a c" if "entry_gt a b" "entry_gt b c" for a b c
    using that by (cases "e_f a"; cases "e_f b"; cases "e_f c") (auto simp: entry_gt_def)
  show "\<not> entry_gt a a" for a by (cases "e_f a") (auto simp: entry_gt_def)
qed

lemma initial_inv:
  assumes set: "astar_setting E P" "sp_start_node P = (s0, Fin g0)" "\<not> sp_dynamic_goal P s0" "h_of P s0 \<noteq> Infinity"
  shows "astar_inv E P s0 g0 {} \<lparr>search_nodes = (get_or_create default_search_node s0 [])[s0 := default_search_node\<lparr>status := OPEN, g_value := Fin g0\<rparr>],
    openlist = pq_insert [] \<lparr>e_f = canonicalize_value (fadd (Fin g0) (h_of P s0)), e_state = s0, e_status = OPEN\<rparr>\<rparr>"
    (is "astar_inv E P s0 g0 {} ?A")
proof -
  let ?n = "default_search_node\<lparr>status := OPEN, g_value := Fin g0\<rparr>"
  have c: "content ?A x = (if x = s0 then ?n else default_search_node)" for x
    by (simp add: content_def node_at_update) (simp add: node_at_def)
  obtain h where h: "h_of P s0 = Fin h" "on_grid h" using set(4) h_of_cases [OF astar_settingD(4) [OF set(1)], of s0] by auto
  have "on_grid (g0 + h)" using set(1,2) h(2) on_grid_add by (auto simp: astar_setting_def additive_def)
  then have q: "openlist ?A = [\<lparr>e_f = Fin (g0 + h), e_state = s0, e_status = OPEN\<rparr>]"
    using h(1) by (simp add: pq_insert_def on_grid_def del: canonicalize_value.simps)
  have "path_cost E s0 s0 0" by (rule path_refl)
  then have "nodes_inv E s0 g0 (content ?A)"
    unfolding nodes_inv_def c by (auto simp: default_search_node_def intro: rooted_start)
  moreover have "closed_inv E {} (content ?A)" unfolding closed_inv_def c by (simp add: default_search_node_def)
  moreover have "status_inv P (content ?A)" unfolding status_inv_def c using set(3) by (simp add: default_search_node_def)
  moreover have "queue_inv P (content ?A) (set (openlist ?A))"
    unfolding queue_inv_def c q using h(1) by (simp add: default_search_node_def)
  moreover have "length (search_nodes ?A) \<in> Suc ` reachable E P" using path_refl set(2) by (auto simp: reachable_def)
  ultimately show ?thesis by (simp add: astar_inv_def)
qed

lemma find_solution_outcome:
  assumes set: "astar_setting E P" "finite (reachable E P)" and pick: "\<And>n. pick_ok entry_gt (pick n)"
  shows "\<exists>r. find_solution P pick = Some (Inr r) \<and> outcome E P r"
proof -
  obtain s0 g0 where start: "sp_start_node P = (s0, Fin g0)" using set(1) by (auto simp: astar_setting_def additive_def)
  consider "\<not> sp_static_goal P" | "sp_static_goal P" "sp_dynamic_goal P s0" | "sp_static_goal P" "\<not> sp_dynamic_goal P s0" "h_of P s0 = Infinity"
    | "sp_static_goal P" "\<not> sp_dynamic_goal P s0" "h_of P s0 \<noteq> Infinity" by blast
  then show ?thesis
  proof cases
    case 1
    then show ?thesis using start by (simp add: find_solution_def Let_def outcome_def no_plan_def solvable_def)
  next
    case 2
    have "g0 \<le> g0 + d" if "path_cost E s0 t d" for t d using path_cost_grid [OF astar_settingD(1) [OF set(1)] that] by simp
    then show ?thesis using 2 start by (simp add: find_solution_def Let_def outcome_def solved_def optimal_plan_def)
  next
    case 3
    then have "\<not> solvable E P"
      using astar_settingD(4) [OF set(1)] start by (fastforce simp: solvable_def admissible_def reachable_def h_of_def)
    then show ?thesis using 3 start by (simp add: find_solution_def Let_def outcome_def no_plan_def h_of_def isnan_def)
  next
    case 4
    then have "find_solution P pick = astar_loop P pick 0 \<lparr>search_nodes = (get_or_create default_search_node s0 [])[s0 := default_search_node\<lparr>status := OPEN, g_value := Fin g0\<rparr>],
      openlist = pq_insert [] \<lparr>e_f = canonicalize_value (fadd (Fin g0) (h_of P s0)), e_state = s0, e_status = OPEN\<rparr>\<rparr>"
      using start astar_settingD(2) [OF set(1)] by (simp add: find_solution_def Let_def h_of_def isnan_def unpruned_def)
    with astar_loop_correct [OF set(1) start set(2) 4(1,2) pick initial_inv [OF set(1) start 4(2,3)]] show ?thesis by simp
  qed
qed

lemma is_path_cost:
  assumes "additive E P" "is_path (sp_succs P) (s, Fin g) es (t, m)"
  shows "\<exists>d. path_cost E s t d \<and> m = Fin (g + d)"
  using assms(2)
proof (induction es arbitrary: s g)
  case Nil
  then show ?case by (auto intro!: exI [of _ 0] path_refl)
next
  case (Cons e es)
  have succs: "sp_succs P (s, Fin g) = map (\<lambda>(l, t, c). (l, t, Fin (g + c))) (E s)" using assms(1) by (simp add: additive_def)
  from Cons.prems obtain l u c where e: "(l, u, c) \<in> set (E s)" "snd e = (u, Fin (g + c))" "is_path (sp_succs P) (snd e) es (t, m)"
    by (auto simp: succs)
  then obtain d where d: "path_cost E u t d" "m = Fin (g + c + d)" using Cons.IH by auto
  have "path_cost E s t (c + d)" using e(1) d(1) by (rule path_step)
  then show ?case using d(2) by (auto simp: add.assoc)
qed

section \<open>Properties\<close>

text \<open>
  C2. A* with eager evaluation is correct and optimal: with an admissible heuristic, nonnegative costs that are
  multiples of the tolerance and finitely many reachable states, the search returns; a plan that it
  returns is a path of the successor generator from the start node to a goal, and no goal can be reached at less cost;
  it reports exhaustion or unsolvability only when no goal is reachable, and a resource limit only when it is hit.
\<close>

theorem astar_optimal:
  assumes "astar_setting E P" and "finite (reachable E P)" and "\<forall>n. pick_ok entry_gt (pick n)"
  shows "\<exists>r. find_solution P pick = Some (Inr r) \<and> outcome E P r"
  using find_solution_outcome assms by blast

text \<open>A problem in which state 1 is reopened with a smaller value, for the witnesses.\<close>

definition example_edges :: "string edges" where
  "example_edges s = (if s = 0 then [(''direct'', 1, 3), (''detour'', 2, 1)] else if s = 2 then [(''back'', 1, 1)]
     else if s = 1 then [(''last'', 3, 2)] else [])"

definition example_problem :: "string search_problem" where
  "example_problem = \<lparr>sp_start_node = (0, Fin 0),
     sp_succs = (\<lambda>(s, m). map (\<lambda>(l, t, c). (l, t, fadd m (Fin c))) (example_edges s)),
     sp_heuristic = (\<lambda>s. Fin 0), sp_preferred = (\<lambda>s l. False), sp_static_goal = True, sp_dynamic_goal = (\<lambda>s. s = 3),
     sp_prune_state = (\<lambda>s. False), sp_prune_succ = (\<lambda>s t b. False), sp_max_num_states = 100, sp_out_of_time = (\<lambda>n. False),
     sp_shuffled = (\<lambda>n xs. xs), sp_boost = 0\<rparr>"

lemma example_additive: "additive example_edges example_problem"
proof -
  have "on_grid 1 \<and> on_grid 2 \<and> on_grid 3" using on_grid_of_nat [of 1] on_grid_of_nat [of 2] on_grid_of_nat [of 3] by simp
  then show ?thesis by (auto simp: additive_def example_problem_def example_edges_def split: if_splits)
qed

lemma example_setting: "astar_setting example_edges example_problem"
  using path_cost_grid [OF example_additive] example_additive
  by (simp add: astar_setting_def unpruned_def shuffles_def admissible_def example_problem_def)

lemma example_reachable: "reachable example_edges example_problem \<subseteq> {0, 1, 2, 3}"
proof -
  have "path_cost example_edges s t d \<Longrightarrow> s \<in> {0, 1, 2, 3} \<Longrightarrow> t \<in> {0, 1, 2, 3}" for s t d
    by (induction rule: path_cost.induct) (auto simp: example_edges_def split: if_splits)
  then show ?thesis by (auto simp: reachable_def example_problem_def)
qed

lemma example_finite: "finite (reachable example_edges example_problem)"
  using finite_subset [OF example_reachable] by simp

theorem astar_optimal_witness:
  "\<exists>r. find_solution example_problem (\<lambda>_. first_min entry_gt) = Some (Inr r) \<and> outcome example_edges example_problem r"
  using astar_optimal [OF example_setting example_finite, of "\<lambda>_. first_min entry_gt"] entry_gt_pick by simp

text \<open>
  C3. Without resource limits A* is complete: it returns \<open>SOLVED\<close> exactly when a goal can be reached, and otherwise
  that there is none.
\<close>

theorem astar_complete:
  assumes "astar_setting E P" and "finite (reachable E P)" and "\<forall>n. pick_ok entry_gt (pick n)"
    and "\<forall>n. \<not> sp_out_of_time P n" and "\<forall>s \<in> reachable E P. Suc s < sp_max_num_states P"
  shows "\<exists>r. find_solution P pick = Some (Inr r) \<and> (result_status r = SOLVED \<longleftrightarrow> solvable E P)
    \<and> result_status r \<in> {SOLVED, EXHAUSTED, UNSOLVABLE}"
proof -
  obtain r where r: "find_solution P pick = Some (Inr r)" "outcome E P r" using find_solution_outcome assms(1-3) by blast
  have "solvable E P" if op: "optimal_plan E P r"
  proof -
    obtain es t g where p: "is_path (sp_succs P) (sp_start_node P) es (t, Fin g)" "sp_static_goal P" "sp_dynamic_goal P t"
      using op unfolding optimal_plan_def by auto
    moreover obtain s0 g0 where start: "sp_start_node P = (s0, Fin g0)" using assms(1) by (auto simp: astar_setting_def additive_def)
    ultimately obtain d where "path_cost E s0 t d" using is_path_cost [OF astar_settingD(1) [OF assms(1)]] by metis
    then show ?thesis using p start by (auto simp: solvable_def reachable_def)
  qed
  then show ?thesis
    using r assms(4,5) by (cases "result_status r") (auto simp: outcome_def)
qed

theorem astar_complete_witness:
  "\<exists>r. find_solution example_problem (\<lambda>_. first_min entry_gt) = Some (Inr r)
    \<and> (result_status r = SOLVED \<longleftrightarrow> solvable example_edges example_problem) \<and> result_status r \<in> {SOLVED, EXHAUSTED, UNSOLVABLE}"
proof (rule astar_complete [OF example_setting example_finite])
  show "\<forall>n. pick_ok entry_gt (first_min entry_gt)" using entry_gt_pick by simp
  show "\<forall>n. \<not> sp_out_of_time example_problem n" by (simp add: example_problem_def)
  show "\<forall>s \<in> reachable example_edges example_problem. Suc s < sp_max_num_states example_problem"
    using example_reachable by (auto simp: example_problem_def)
qed

end
