(* ===== verification/GBFS_Lazy.thy ===== *)
theory GBFS_Lazy
  imports Search_Space Open_Lists
begin

text \<open>
  \<^verbatim>\<open>src/planning/algorithms/gbfs_lazy.cpp\<close>: greedy best-first search with lazy evaluation, preferred actions and a
  boosted queue. As for A*, the iteration number \<open>n\<close> stands for the clock, the random number generator and the
  choice among least entries. The step counter is a 32-bit number, the weight of the preferred queue a 64-bit number, which
  wrap around.
\<close>

section \<open>Model\<close>

record gbfs_node = search_node +
  n_preferred :: bool

definition default_gbfs_node :: gbfs_node where
  "default_gbfs_node = \<lparr>g_value = Infinity, parent_state = None, status = NEW, n_preferred = False\<rparr>"

record gbfs_entry =
  q_g :: fval
  q_h :: fval
  q_state :: nat
  q_step :: "32 word"
  q_status :: node_status

text \<open>The comparison of the keys (h, g, step, status).\<close>

definition gbfs_entry_gt :: "gbfs_entry \<Rightarrow> gbfs_entry \<Rightarrow> bool" where
  "gbfs_entry_gt a b \<longleftrightarrow> fless (q_h b) (q_h a) \<or> feq (q_h a) (q_h b) \<and> (fless (q_g b) (q_g a) \<or> feq (q_g a) (q_g b) \<and>
     (q_step b < q_step a \<or> q_step a = q_step b \<and> status_rank (q_status b) < status_rank (q_status a)))"

record gbfs =
  b_nodes :: "gbfs_node list"
  b_open :: "gbfs_entry alternating"
  b_step :: "32 word"
  b_best_h :: fval

definition decay_weight :: "nat \<Rightarrow> nat" where
  "decay_weight w = max ((w + 2 ^ 64 - 1) mod 2 ^ 64) 1"

definition boost_weight :: "nat \<Rightarrow> nat \<Rightarrow> nat" where
  "boost_weight b w = (w + b) mod 2 ^ 64"

definition update_weight :: "(nat \<Rightarrow> nat) \<Rightarrow> 'e alternating \<Rightarrow> 'e alternating" where
  "update_weight f al = al\<lparr>al_weights := (al_weights al)[0 := f (al_weights al ! 0)]\<rparr>"

text \<open>One iteration over a labeled successor of \<open>s\<close>, whose heuristic value is \<open>h\<close>; \<open>Inl\<close> is what the function returns.\<close>

definition lazy_successor :: "'l search_problem \<Rightarrow> nat \<Rightarrow> fval \<Rightarrow> gbfs \<Rightarrow> 'l labeled_node \<Rightarrow> 'l search_result result option + gbfs" where
  "lazy_successor P s h G succ =
     (let l = fst succ; t = fst (snd succ); m = snd (snd succ);
          nodes = get_or_create default_gbfs_node t (b_nodes G); node = nodes ! t;
          is_preferred = sp_preferred P s l; is_new = (status node = NEW)
      in if is_new \<and> length nodes \<ge> sp_max_num_states P then Inl (Some (Inr (no_plan OUT_OF_STATES)))
         else if \<not> is_new then Inr (G\<lparr>b_nodes := nodes\<rparr>)
         else let node = node\<lparr>status := OPEN, parent_state := Some s, g_value := m, n_preferred := is_preferred\<rparr>
           in if sp_dynamic_goal P t then
                let node = node\<lparr>status := GOAL\<rparr>
                in Inl (map_option (map_sum id (\<lambda>p. solved p (t, m)))
                     (extract_total_ordered_plan (sp_succs P) (nodes[t := node]) (parent_state node) (t, m)))
              else if sp_prune_succ P s t is_new then Inr (G\<lparr>b_nodes := nodes[t := node\<lparr>status := CLOSED\<rparr>]\<rparr>)
              else Inr (G\<lparr>b_nodes := nodes[t := node],
                     b_open := al_insert_at (b_open G) (if is_preferred then 0 else 1)
                       \<lparr>q_g = m, q_h = h, q_state = t, q_step = b_step G, q_status = OPEN\<rparr>,
                     b_step := b_step G + 1\<rparr>))"

definition lazy_expand :: "'l search_problem \<Rightarrow> (nat \<Rightarrow> gbfs_entry picker) \<Rightarrow> nat \<Rightarrow> gbfs \<Rightarrow> 'l search_result result option + gbfs" where
  "lazy_expand P pick n G =
     (case Option.bind (al_top (pick n) (b_open G)) (\<lambda>(e, al). map_option (\<lambda>al. (q_state e, al)) (al_pop (pick n) al)) of
        None \<Rightarrow> Inl None
      | Some (s, al) \<Rightarrow>
          (let al = update_weight decay_weight al;
               nodes = get_or_create default_gbfs_node s (b_nodes G); node = nodes ! s;
               G = G\<lparr>b_nodes := nodes, b_open := al\<rparr>
           in if status node = CLOSED \<or> status node = DEAD_END then Inr G
              else let h = canonicalize_value (sp_heuristic P s)
                in if h = Infinity then Inr (G\<lparr>b_nodes := nodes[s := node\<lparr>status := DEAD_END\<rparr>]\<rparr>)
                   else let G = (if fless h (b_best_h G)
                              then G\<lparr>b_best_h := h, b_open := update_weight (boost_weight (sp_boost P)) al\<rparr> else G)
                     in fold_result (lazy_successor P s h) (G\<lparr>b_nodes := nodes[s := node\<lparr>status := CLOSED\<rparr>]\<rparr>)
                          (sp_shuffled P n (sp_succs P (s, g_value node)))))"

partial_function (option) gbfs_loop ::
    "'l search_problem \<Rightarrow> (nat \<Rightarrow> gbfs_entry picker) \<Rightarrow> nat \<Rightarrow> gbfs \<Rightarrow> 'l search_result result option" where
  "gbfs_loop P pick n G =
     (if al_empty (b_open G) then Some (Inr (no_plan EXHAUSTED))
      else if sp_out_of_time P n then Some (Inr (no_plan OUT_OF_TIME))
      else case lazy_expand P pick n G of Inl r \<Rightarrow> r | Inr G \<Rightarrow> gbfs_loop P pick (Suc n) G)"

declare gbfs_loop.simps [code]

definition gbfs_find_solution :: "'l search_problem \<Rightarrow> (nat \<Rightarrow> gbfs_entry picker) \<Rightarrow> 'l search_result result option" where
  "gbfs_find_solution P pick =
     (let (s, m) = sp_start_node P; h = canonicalize_value (sp_heuristic P s);
          st = (if h = Infinity then DEAD_END else OPEN);
          nodes = (get_or_create default_gbfs_node s [])[s := default_gbfs_node\<lparr>status := st, g_value := m, n_preferred := False\<rparr>]
      in if \<not> sp_static_goal P then Some (Inr (no_plan UNSOLVABLE))
         else if sp_dynamic_goal P s then Some (Inr (solved \<lparr>plan_start = (s, m), plan_succs = []\<rparr> (s, m)))
         else if isnan m then Some (Inl Runtime_Error)
         else if st = DEAD_END then Some (Inr (no_plan UNSOLVABLE))
         else if sp_prune_state P s then Some (Inr (no_plan EXHAUSTED))
         else gbfs_loop P pick 0 \<lparr>b_nodes = nodes,
           b_open = al_insert_at (al_init [[], []] [1, 1]) 1 \<lparr>q_g = m, q_h = h, q_state = s, q_step = 0, q_status = st\<rparr>,
           b_step = 1, b_best_h = h\<rparr>)"

section \<open>The setting of the correctness proof\<close>

text \<open>
  The successors of a state do not depend on its metric value, no metric value is NaN, the heuristic is safe (a state with infinite value
  has no path to a goal), and nothing is pruned.
\<close>

inductive reaches :: "(nat \<Rightarrow> nat set) \<Rightarrow> nat \<Rightarrow> nat \<Rightarrow> bool" for T where
  reaches_refl: "reaches T s s"
| reaches_step: "t \<in> T s \<Longrightarrow> reaches T t u \<Longrightarrow> reaches T s u"

definition gbfs_setting :: "(nat \<Rightarrow> nat set) \<Rightarrow> 'l search_problem \<Rightarrow> bool" where
  "gbfs_setting T P \<longleftrightarrow> (\<forall>s m. m \<noteq> NaN \<longrightarrow> (\<lambda>e. fst (snd e)) ` set (sp_succs P (s, m)) = T s)
     \<and> (\<forall>s m l t m'. m \<noteq> NaN \<longrightarrow> (l, t, m') \<in> set (sp_succs P (s, m)) \<longrightarrow> m' \<noteq> NaN)
     \<and> snd (sp_start_node P) \<noteq> NaN
     \<and> (\<forall>s t. sp_heuristic P s = Infinity \<longrightarrow> reaches T s t \<longrightarrow> \<not> sp_dynamic_goal P t)
     \<and> (\<forall>s. \<not> sp_prune_state P s) \<and> (\<forall>s t b. \<not> sp_prune_succ P s t b)
     \<and> (\<forall>n xs. set (sp_shuffled P n xs) = set xs)"

abbreviation start_state :: "'l search_problem \<Rightarrow> nat" where
  "start_state P \<equiv> fst (sp_start_node P)"

definition gbfs_outcome :: "(nat \<Rightarrow> nat set) \<Rightarrow> 'l search_problem \<Rightarrow> 'l search_result \<Rightarrow> bool" where
  "gbfs_outcome T P r \<longleftrightarrow> (case result_status r of
      SOLVED \<Rightarrow> (\<exists>p n. result_plan r = Some p \<and> result_goal r = Some n \<and> plan_start p = sp_start_node P
        \<and> is_path (sp_succs P) (plan_start p) (plan_succs p) n \<and> sp_static_goal P \<and> sp_dynamic_goal P (fst n))
    | EXHAUSTED \<Rightarrow> \<not> (sp_static_goal P \<and> (\<exists>t. reaches T (start_state P) t \<and> sp_dynamic_goal P t))
    | UNSOLVABLE \<Rightarrow> \<not> (sp_static_goal P \<and> (\<exists>t. reaches T (start_state P) t \<and> sp_dynamic_goal P t))
    | OUT_OF_TIME \<Rightarrow> \<exists>n. sp_out_of_time P n
    | OUT_OF_STATES \<Rightarrow> \<exists>y. reaches T (start_state P) y \<and> sp_max_num_states P \<le> Suc y
    | _ \<Rightarrow> False)"

lemma reaches_trans: "reaches T s t \<Longrightarrow> reaches T t u \<Longrightarrow> reaches T s u"
  by (induction rule: reaches.induct) (auto intro: reaches.intros)

lemma gbfs_settingD:
  assumes "gbfs_setting T P"
  shows "m \<noteq> NaN \<Longrightarrow> (\<lambda>e. fst (snd e)) ` set (sp_succs P (s, m)) = T s"
    and "m \<noteq> NaN \<Longrightarrow> (l, t, m') \<in> set (sp_succs P (s, m)) \<Longrightarrow> m' \<noteq> NaN"
    and "snd (sp_start_node P) \<noteq> NaN" "sp_heuristic P s = Infinity \<Longrightarrow> reaches T s t \<Longrightarrow> \<not> sp_dynamic_goal P t"
    and "\<not> sp_prune_state P s" "\<not> sp_prune_succ P s t b" "set (sp_shuffled P n xs) = set xs"
  using assms unfolding gbfs_setting_def by blast+

section \<open>The invariant\<close>

text \<open>A generated state is linked to the start by successor steps between the stored nodes.\<close>

inductive linked :: "(node \<Rightarrow> 'l labeled_node list) \<Rightarrow> (nat \<Rightarrow> gbfs_node) \<Rightarrow> nat \<Rightarrow> nat \<Rightarrow> bool" for succs v s0 where
  linked_start: "linked succs v s0 s0"
| linked_step: "s \<noteq> s0 \<Longrightarrow> status (v s) \<noteq> NEW \<Longrightarrow> parent_state (v s) = Some p \<Longrightarrow> g_value (v s) \<noteq> NaN \<Longrightarrow>
    (l, s, g_value (v s)) \<in> set (succs (p, g_value (v p))) \<Longrightarrow> linked succs v s0 p \<Longrightarrow> linked succs v s0 s"

lemma linked_generated: "linked succs v s0 s \<Longrightarrow> status (v s0) \<noteq> NEW \<Longrightarrow> status (v s) \<noteq> NEW"
  by (induction rule: linked.induct) auto

lemma linked_update:
  assumes "linked succs v s0 s" "status (v s0) \<noteq> NEW"
    and "\<And>x. status (v x) \<noteq> NEW \<Longrightarrow> status (v' x) \<noteq> NEW \<and> g_value (v' x) = g_value (v x) \<and> parent_state (v' x) = parent_state (v x)"
  shows "linked succs v' s0 s"
  using assms(1)
proof induction
  case linked_start
  show ?case by (rule linked.linked_start)
next
  case (linked_step s p l)
  have "status (v p) \<noteq> NEW" using linked_generated linked_step.hyps(6) assms(2) by metis
  then show ?case using linked_step assms(3) [of s] assms(3) [of p] by (intro linked.linked_step [of s s0 v' p l]) simp_all
qed

definition gnodes_inv :: "(nat \<Rightarrow> nat set) \<Rightarrow> 'l search_problem \<Rightarrow> (nat \<Rightarrow> gbfs_node) \<Rightarrow> bool" where
  "gnodes_inv T P v \<longleftrightarrow>
     g_value (v (start_state P)) = snd (sp_start_node P) \<and> parent_state (v (start_state P)) = None \<and> status (v (start_state P)) \<noteq> NEW
   \<and> (\<forall>s. status (v s) \<noteq> NEW \<longrightarrow> linked (sp_succs P) v (start_state P) s \<and> reaches T (start_state P) s
        \<and> g_value (v s) \<noteq> NaN \<and> \<not> sp_dynamic_goal P s \<and> status (v s) \<noteq> GOAL)
   \<and> (\<forall>s. status (v s) = DEAD_END \<longrightarrow> sp_heuristic P s = Infinity)"

definition gclosed_inv :: "(nat \<Rightarrow> nat set) \<Rightarrow> (nat \<times> nat) set \<Rightarrow> (nat \<Rightarrow> gbfs_node) \<Rightarrow> bool" where
  "gclosed_inv T R v \<longleftrightarrow> (\<forall>p t. status (v p) = CLOSED \<longrightarrow> t \<in> T p \<longrightarrow> (p, t) \<in> R \<or> status (v t) \<noteq> NEW)"

definition gqueue_inv :: "(nat \<Rightarrow> gbfs_node) \<Rightarrow> gbfs_entry multiset \<Rightarrow> bool" where
  "gqueue_inv v Q \<longleftrightarrow> (\<forall>s. status (v s) = OPEN \<longrightarrow> (\<exists>e \<in># Q. q_state e = s)) \<and> (\<forall>e \<in># Q. status (v (q_state e)) \<noteq> NEW)"

definition gcontent :: "gbfs \<Rightarrow> nat \<Rightarrow> gbfs_node" where
  "gcontent G = node_at default_gbfs_node (b_nodes G)"

definition gbfs_inv :: "(nat \<Rightarrow> nat set) \<Rightarrow> 'l search_problem \<Rightarrow> (nat \<times> nat) set \<Rightarrow> gbfs \<Rightarrow> bool" where
  "gbfs_inv T P R G \<longleftrightarrow> gnodes_inv T P (gcontent G) \<and> gclosed_inv T R (gcontent G) \<and> gqueue_inv (gcontent G) (al_entries (b_open G))
     \<and> al_wf (b_open G) \<and> length (al_queues (b_open G)) = 2 \<and> length (b_nodes G) \<in> Suc ` {y. reaches T (start_state P) y}"

lemma gbfs_invD:
  assumes "gbfs_inv T P R G"
  shows "gnodes_inv T P (gcontent G)" "gclosed_inv T R (gcontent G)" "gqueue_inv (gcontent G) (al_entries (b_open G))"
    "al_wf (b_open G)" "length (al_queues (b_open G)) = 2" "length (b_nodes G) \<in> Suc ` {y. reaches T (start_state P) y}"
  using assms by (simp_all add: gbfs_inv_def)

lemma gnodes_invD:
  assumes "gnodes_inv T P v"
  shows "g_value (v (start_state P)) = snd (sp_start_node P)" "parent_state (v (start_state P)) = None" "status (v (start_state P)) \<noteq> NEW"
    and "status (v s) \<noteq> NEW \<Longrightarrow> linked (sp_succs P) v (start_state P) s" "status (v s) \<noteq> NEW \<Longrightarrow> reaches T (start_state P) s"
    and "status (v s) \<noteq> NEW \<Longrightarrow> g_value (v s) \<noteq> NaN" "status (v s) \<noteq> NEW \<Longrightarrow> \<not> sp_dynamic_goal P s"
    and "status (v s) \<noteq> GOAL" "status (v s) = DEAD_END \<Longrightarrow> sp_heuristic P s = Infinity"
  using assms unfolding gnodes_inv_def by (blast, blast, blast, blast, blast, blast, blast, metis node_status.distinct(7), blast)

text \<open>The stored path of a linked state.\<close>

lemma gbfs_node_nth:
  "status (node_at default_gbfs_node nodes x) \<noteq> NEW \<Longrightarrow> x < length nodes \<and> nodes ! x = node_at default_gbfs_node nodes x"
  by (auto simp: node_at_def default_gbfs_node_def split: if_splits)

lemma linked_chain:
  assumes "linked succs (node_at default_gbfs_node nodes) s0 s" "status (node_at default_gbfs_node nodes s0) \<noteq> NEW"
    and "parent_state (node_at default_gbfs_node nodes s0) = None"
  shows "\<exists>ps. chain_path succs nodes s0 s ps"
  using assms(1)
proof induction
  case linked_start
  show ?case using chain_path_start [of nodes s0] gbfs_node_nth [OF assms(2)] assms(3) by auto
next
  case (linked_step s p l)
  have "status (node_at default_gbfs_node nodes p) \<noteq> NEW" using linked_generated linked_step.hyps(6) assms(2) by metis
  then show ?case using linked_step chain_path_step [of succs nodes s0 p _ l s] gbfs_node_nth by metis
qed

section \<open>Preservation\<close>

lemma gcontent_update:
  "b_nodes G' = (get_or_create default_gbfs_node t (b_nodes G))[t := n] \<Longrightarrow> gcontent G' = (gcontent G)(t := n)"
  by (rule ext) (simp add: gcontent_def node_at_update)

lemma gbfs_node_eq: "(n :: gbfs_node)\<lparr>status := st, parent_state := p, g_value := m, n_preferred := b\<rparr> =
  \<lparr>g_value = m, parent_state = p, status = st, n_preferred = b\<rparr>"
  by (cases n) simp

text \<open>Changing the status of a generated state to a status that is neither new nor goal.\<close>

lemma gnodes_inv_status:
  assumes "gnodes_inv T P v" "status (v s) \<noteq> NEW" "st \<notin> {NEW, GOAL}" "st = DEAD_END \<Longrightarrow> sp_heuristic P s = Infinity"
  shows "gnodes_inv T P (v(s := (v s)\<lparr>status := st\<rparr>))"
proof -
  let ?v = "v(s := (v s)\<lparr>status := st\<rparr>)"
  have "linked (sp_succs P) ?v (start_state P) x" if "status (v x) \<noteq> NEW" for x
    by (rule linked_update [OF gnodes_invD(4) [OF assms(1) that] gnodes_invD(3) [OF assms(1)]]) (use assms(3) in auto)
  then show ?thesis using assms(1,3,4) assms(2) unfolding gnodes_inv_def by auto
qed

text \<open>A new state that is generated from \<open>s\<close>.\<close>

definition opens :: "(nat \<Rightarrow> nat set) \<Rightarrow> 'l search_problem \<Rightarrow> (nat \<Rightarrow> gbfs_node) \<Rightarrow> nat \<Rightarrow> 'l \<Rightarrow> nat \<Rightarrow> gbfs_node \<Rightarrow> bool" where
  "opens T P v s l t n \<longleftrightarrow> gbfs_setting T P \<and> gnodes_inv T P v \<and> status (v s) \<noteq> NEW \<and> status (v t) = NEW
     \<and> (l, t, g_value n) \<in> set (sp_succs P (s, g_value (v s))) \<and> parent_state n = Some s \<and> status n \<noteq> NEW"

lemma opens_linked:
  assumes "opens T P v s l t n"
  shows "status (v x) \<noteq> NEW \<Longrightarrow> linked (sp_succs P) (v(t := n)) (start_state P) x"
    and "linked (sp_succs P) (v(t := n)) (start_state P) t" "reaches T (start_state P) t" "g_value n \<noteq> NaN" "t \<in> T s" "t \<noteq> start_state P"
proof -
  note o = assms [unfolded opens_def]
  have inv: "gnodes_inv T P v" using o by simp
  have gs: "g_value (v s) \<noteq> NaN" using gnodes_invD(6) o by metis
  show nn: "g_value n \<noteq> NaN" using gbfs_settingD(2) [OF _ gs] o by metis
  show "t \<in> T s" using gbfs_settingD(1) [OF _ gs, of T P s] o by force
  then show "reaches T (start_state P) t" using reaches_trans [OF gnodes_invD(5) reaches_step [OF _ reaches_refl]] o by metis
  show lx: "linked (sp_succs P) (v(t := n)) (start_state P) x" if "status (v x) \<noteq> NEW" for x
    by (rule linked_update [OF gnodes_invD(4) [OF inv that] gnodes_invD(3) [OF inv]]) (use o in auto)
  show ts: "t \<noteq> start_state P" using gnodes_invD(3) [of T P v] o by auto
  have "s \<noteq> t" using o by auto
  then show "linked (sp_succs P) (v(t := n)) (start_state P) t"
    using o lx [of s] ts nn by (intro linked.linked_step [of t "start_state P" "v(t := n)" s l]) simp_all
qed

lemma opens_nodes:
  assumes "opens T P v s l t n" "status n = OPEN" "\<not> sp_dynamic_goal P t"
  shows "gnodes_inv T P (v(t := n))"
proof -
  have "gnodes_inv T P v" using assms(1) by (simp add: opens_def)
  then show ?thesis using opens_linked [OF assms(1)] assms(2,3) unfolding gnodes_inv_def by auto
qed

lemma opens_closed:
  assumes "opens T P v s l t n" "status n \<noteq> CLOSED" "gclosed_inv T R v"
  shows "gclosed_inv T (R - {(s, t)}) (v(t := n))"
  using assms unfolding gclosed_inv_def opens_def by auto

lemma opens_queue:
  assumes "opens T P v s l t n" "gqueue_inv v Q" "q_state e = t"
  shows "gqueue_inv (v(t := n)) (add_mset e Q)"
  using assms unfolding gqueue_inv_def opens_def by auto

text \<open>While \<open>s\<close> is expanded; the number of new states bounds the number of insertions.\<close>

definition new_states :: "nat set \<Rightarrow> (nat \<Rightarrow> gbfs_node) \<Rightarrow> nat" where
  "new_states S v = card {x \<in> S. status (v x) = NEW}"

definition lazy_expanding :: "(nat \<Rightarrow> nat set) \<Rightarrow> 'l search_problem \<Rightarrow> nat \<Rightarrow> fval \<Rightarrow> (nat \<times> nat) set \<Rightarrow> gbfs \<Rightarrow> bool" where
  "lazy_expanding T P s g R G \<longleftrightarrow> gbfs_inv T P R G \<and> status (gcontent G s) = CLOSED \<and> g_value (gcontent G s) = g"

definition gprogress :: "nat set \<Rightarrow> gbfs \<Rightarrow> gbfs \<Rightarrow> bool" where
  "gprogress S G G' \<longleftrightarrow> new_states S (gcontent G') < new_states S (gcontent G)
     \<or> new_states S (gcontent G') = new_states S (gcontent G) \<and> al_entries (b_open G') = al_entries (b_open G)"

lemma opens_new_states:
  assumes "opens T P v s l t n" "finite {y. reaches T (start_state P) y}"
  shows "new_states {y. reaches T (start_state P) y} (v(t := n)) < new_states {y. reaches T (start_state P) y} v"
proof -
  let ?S = "{y. reaches T (start_state P) y}"
  have t: "t \<in> {x \<in> ?S. status (v x) = NEW}" using opens_linked(3) [OF assms(1)] assms(1) by (simp add: opens_def)
  have eq: "{x \<in> ?S. status ((v(t := n)) x) = NEW} = {x \<in> ?S. status (v x) = NEW} - {t}" using assms(1) by (auto simp: opens_def)
  have "finite {x \<in> ?S. status (v x) = NEW}" using assms(2) by simp
  then show ?thesis unfolding new_states_def eq using t by (rule card_Diff1_less)
qed

lemma max_reaches: "a \<in> Suc ` {y. P y} \<Longrightarrow> P t \<Longrightarrow> max a (Suc t) \<in> Suc ` {y. P y}"
  by (auto simp: max_def)

lemma lazy_successor_step:
  assumes set: "gbfs_setting T P" "sp_static_goal P" "finite {y. reaches T (start_state P) y}"
    and ex: "lazy_expanding T P s g R G" and e: "(l, t, m) \<in> set (sp_succs P (s, g))"
  shows "case lazy_successor P s h G (l, t, m) of
      Inl r \<Rightarrow> \<exists>r'. r = Some (Inr r') \<and> gbfs_outcome T P r'
    | Inr G' \<Rightarrow> lazy_expanding T P s g (R - {(s, t)}) G' \<and> gprogress {y. reaches T (start_state P) y} G G'"
proof -
  have inv: "gbfs_inv T P R G" and s: "status (gcontent G s) = CLOSED" "g_value (gcontent G s) = g"
    using ex by (simp_all add: lazy_expanding_def)
  let ?N = "get_or_create default_gbfs_node t (b_nodes G)"
  let ?n = "\<lparr>g_value = m, parent_state = Some s, status = OPEN, n_preferred = sp_preferred P s l\<rparr>"
  have N: "?N ! t = gcontent G t" by (simp add: gcontent_def)
  have "g \<noteq> NaN" using gnodes_invD(6) [OF gbfs_invD(1) [OF inv], of s] s by simp
  then have "t \<in> T s" using gbfs_settingD(1) [OF set(1), of g s] e by force
  then have t: "reaches T (start_state P) t"
    using reaches_trans [OF gnodes_invD(5) [OF gbfs_invD(1) [OF inv], of s] reaches_step [OF _ reaches_refl]] s(1) by simp
  have len: "max (length (b_nodes G)) (Suc t) \<in> Suc ` {y. reaches T (start_state P) y}" using max_reaches [OF gbfs_invD(6) [OF inv] t] .
  have opens: "opens T P (gcontent G) s l t (?n\<lparr>status := st\<rparr>)" if "status (gcontent G t) = NEW" "st \<noteq> NEW" for st
    using that set(1) gbfs_invD(1) [OF inv] s e by (simp add: opens_def)
  consider "status (gcontent G t) = NEW" "length ?N \<ge> sp_max_num_states P" | "status (gcontent G t) \<noteq> NEW"
    | "status (gcontent G t) = NEW" "\<not> length ?N \<ge> sp_max_num_states P" "sp_dynamic_goal P t"
    | "status (gcontent G t) = NEW" "\<not> length ?N \<ge> sp_max_num_states P" "\<not> sp_dynamic_goal P t" by blast
  then show ?thesis
  proof cases
    case 1
    then have "lazy_successor P s h G (l, t, m) = Inl (Some (Inr (no_plan OUT_OF_STATES)))" using N by (simp add: lazy_successor_def Let_def)
    then show ?thesis using 1 len by (auto simp: gbfs_outcome_def no_plan_def)
  next
    case 2
    then have "lazy_successor P s h G (l, t, m) = Inr (G\<lparr>b_nodes := ?N\<rparr>)" using N by (simp add: lazy_successor_def Let_def)
    moreover have c: "gcontent (G\<lparr>b_nodes := ?N\<rparr>) = gcontent G" by (rule ext) (simp add: gcontent_def)
    moreover have "gclosed_inv T (R - {(s, t)}) (gcontent G)" using gbfs_invD(2) [OF inv] 2 by (auto simp: gclosed_inv_def)
    ultimately show ?thesis using inv len s by (simp add: lazy_expanding_def gbfs_inv_def gprogress_def)
  next
    case 3
    let ?n' = "?n\<lparr>status := GOAL\<rparr>"
    have ls: "lazy_successor P s h G (l, t, m) = Inl (map_option (map_sum id (\<lambda>p. solved p (t, m)))
        (extract_total_ordered_plan (sp_succs P) (?N[t := ?n']) (Some s) (t, m)))"
      using 3 N by (simp add: lazy_successor_def Let_def gbfs_node_eq)
    have op: "opens T P (gcontent G) s l t ?n'" using opens 3(1) by blast
    have v: "node_at default_gbfs_node (?N[t := ?n']) = (gcontent G)(t := ?n')" by (rule ext) (simp add: node_at_update gcontent_def)
    have st: "s \<noteq> t" "start_state P \<noteq> t" using s(1) 3(1) opens_linked(6) [OF op] by auto
    have "\<exists>ps. chain_path (sp_succs P) (?N[t := ?n']) (start_state P) s ps"
      by (rule linked_chain) (use v st s(1) opens_linked(1) [OF op, of s] gnodes_invD(2,3) [OF gbfs_invD(1) [OF inv]] in auto)
    then obtain ps where "chain_path (sp_succs P) (?N[t := ?n']) (start_state P) s ps" ..
    moreover have "stored (?N[t := ?n']) s = (s, g)" "stored (?N[t := ?n']) (start_state P) = sp_start_node P"
      using gbfs_node_nth [of "?N[t := ?n']" s] gbfs_node_nth [of "?N[t := ?n']" "start_state P"] v st s
        gnodes_invD(1,3) [OF gbfs_invD(1) [OF inv]] by (simp_all add: prod_eq_iff)
    moreover have "m \<noteq> NaN" using opens_linked(4) [OF op] by simp
    ultimately obtain q where "extract_total_ordered_plan (sp_succs P) (?N[t := ?n']) (Some s) (t, m) = Some (Inr q)"
      "plan_start q = sp_start_node P" "is_path (sp_succs P) (plan_start q) (plan_succs q) (t, m)"
      using chain_path_plan [of "sp_succs P" "?N[t := ?n']" "start_state P" s ps l "(t, m)"] e by auto
    then show ?thesis using ls set(2) 3(3) by (auto simp: gbfs_outcome_def solved_def)
  next
    case 4
    define G' where "G' = G\<lparr>b_nodes := ?N[t := ?n], b_open := al_insert_at (b_open G) (if sp_preferred P s l then 0 else 1)
      \<lparr>q_g = m, q_h = h, q_state = t, q_step = b_step G, q_status = OPEN\<rparr>, b_step := b_step G + 1\<rparr>"
    have ls: "lazy_successor P s h G (l, t, m) = Inr G'"
      using 4 N gbfs_settingD(6) [OF set(1)] by (simp add: lazy_successor_def Let_def gbfs_node_eq G'_def)
    have op: "opens T P (gcontent G) s l t ?n" using opens [OF 4(1), of OPEN] by simp
    have v: "gcontent G' = (gcontent G)(t := ?n)" by (rule gcontent_update) (simp add: G'_def)
    have al: "al_entries (b_open G') = add_mset \<lparr>q_g = m, q_h = h, q_state = t, q_step = b_step G, q_status = OPEN\<rparr> (al_entries (b_open G))"
      "al_wf (b_open G')" "length (al_queues (b_open G')) = 2"
      using gbfs_invD(4,5) [OF inv] by (simp_all add: G'_def al_insert_entries al_insert_wf)
    have "gbfs_inv T P (R - {(s, t)}) G'"
      using opens_nodes [OF op _ 4(3)] opens_closed [OF op _ gbfs_invD(2) [OF inv]] opens_queue [OF op gbfs_invD(3) [OF inv]] al len
      by (simp add: gbfs_inv_def v) (simp add: G'_def)
    then show ?thesis using ls s v opens_new_states [OF op set(3)] 4(1) by (auto simp: lazy_expanding_def gprogress_def)
  qed
qed

lemma fold_lazy_expanding:
  assumes set: "gbfs_setting T P" "sp_static_goal P" "finite {y. reaches T (start_state P) y}"
    and "lazy_expanding T P s g R G" "set xs \<subseteq> set (sp_succs P (s, g))"
  shows "case fold_result (lazy_successor P s h) G xs of
      Inl r \<Rightarrow> \<exists>r'. r = Some (Inr r') \<and> gbfs_outcome T P r'
    | Inr G' \<Rightarrow> lazy_expanding T P s g (R - {s} \<times> (\<lambda>e. fst (snd e)) ` set xs) G' \<and> gprogress {y. reaches T (start_state P) y} G G'"
  using assms(4,5)
proof (induction xs arbitrary: G R)
  case Nil
  then show ?case by (simp add: gprogress_def)
next
  case (Cons x xs)
  obtain l t m where x: "x = (l, t, m)" by (cases x)
  have step: "case lazy_successor P s h G x of Inl r \<Rightarrow> \<exists>r'. r = Some (Inr r') \<and> gbfs_outcome T P r'
    | Inr G' \<Rightarrow> lazy_expanding T P s g (R - {(s, t)}) G' \<and> gprogress {y. reaches T (start_state P) y} G G'"
    using lazy_successor_step [OF set Cons.prems(1), of l t m] Cons.prems(2) unfolding x by simp
  show ?case
  proof (cases "lazy_successor P s h G x")
    case (Inl r)
    with step show ?thesis by simp
  next
    case (Inr G')
    have R: "R - {s} \<times> (\<lambda>e. fst (snd e)) ` set (x # xs) = (R - {(s, t)}) - {s} \<times> (\<lambda>e. fst (snd e)) ` set xs" using x by auto
    have "lazy_expanding T P s g (R - {(s, t)}) G'" and pr: "gprogress {y. reaches T (start_state P) y} G G'" using step Inr by simp_all
    from Cons.IH [OF this(1)] Cons.prems(2)
    have "case fold_result (lazy_successor P s h) G' xs of Inl r \<Rightarrow> \<exists>r'. r = Some (Inr r') \<and> gbfs_outcome T P r'
      | Inr G'' \<Rightarrow> lazy_expanding T P s g (R - {s} \<times> (\<lambda>e. fst (snd e)) ` set (x # xs)) G'' \<and> gprogress {y. reaches T (start_state P) y} G' G''"
      unfolding R by simp
    then show ?thesis using pr Inr by (auto simp: gprogress_def split: sum.splits)
  qed
qed

lemma gqueue_inv_remove:
  assumes "gqueue_inv v (add_mset e Q)" "status (v' (q_state e)) \<notin> {OPEN, NEW}" "\<And>x. x \<noteq> q_state e \<Longrightarrow> status (v' x) = status (v x)"
  shows "gqueue_inv v' Q"
  unfolding gqueue_inv_def
proof (intro conjI allI ballI impI)
  fix x assume "status (v' x) = OPEN"
  then have "x \<noteq> q_state e" "status (v x) = OPEN" using assms(2,3) by (metis insertI1)+
  then show "\<exists>e \<in># Q. q_state e = x" using assms(1) unfolding gqueue_inv_def by fastforce
next
  fix e' assume "e' \<in># Q"
  then show "status (v' (q_state e')) \<noteq> NEW" using assms by (cases "q_state e' = q_state e") (auto simp: gqueue_inv_def)
qed

definition gdecreases :: "nat set \<Rightarrow> gbfs \<Rightarrow> gbfs \<Rightarrow> bool" where
  "gdecreases S G G' \<longleftrightarrow> ((new_states S (gcontent G'), size (al_entries (b_open G'))), new_states S (gcontent G), size (al_entries (b_open G)))
     \<in> less_than <*lex*> less_than"

lemma update_weight_simps [simp]:
  "al_entries (update_weight f al) = al_entries al" "al_wf (update_weight f al) = al_wf al" "al_queues (update_weight f al) = al_queues al"
  by (simp_all add: update_weight_def al_entries_def al_wf_def)

lemma lazy_expand_inv:
  assumes set: "gbfs_setting T P" "sp_static_goal P" "finite {y. reaches T (start_state P) y}"
    and inv: "gbfs_inv T P {} G" and ne: "\<not> al_empty (b_open G)" and pick: "in_range (pick n)"
  shows "case lazy_expand P pick n G of
      Inl r \<Rightarrow> \<exists>r'. r = Some (Inr r') \<and> gbfs_outcome T P r'
    | Inr G' \<Rightarrow> gbfs_inv T P {} G' \<and> gdecreases {y. reaches T (start_state P) y} G G'"
proof -
  obtain e al' al where al: "al_top (pick n) (b_open G) = Some (e, al')" "al_pop (pick n) al' = Some al"
    "al_wf al \<and> length (al_queues al) = 2 \<and> in_range (pick n)" "al_entries (b_open G) = add_mset e (al_entries al)"
    using al.take_one [of "b_open G" 2 "pick n"] gbfs_invD(4,5) [OF inv] ne pick by metis
  let ?s = "q_state e"
  let ?N = "get_or_create default_gbfs_node ?s (b_nodes G)"
  let ?n = "gcontent G ?s"
  have new: "status ?n \<noteq> NEW" using gbfs_invD(3) [OF inv] al(4) by (simp add: gqueue_inv_def)
  then have len: "length ?N = length (b_nodes G)" using gbfs_node_nth [of "b_nodes G" ?s] by (simp add: gcontent_def)
  have N: "?N ! ?s = ?n" by (simp add: gcontent_def)
  have le: "lazy_expand P pick n G = (let G = G\<lparr>b_nodes := ?N, b_open := update_weight decay_weight al\<rparr>
    in if status ?n = CLOSED \<or> status ?n = DEAD_END then Inr G
       else let h = canonicalize_value (sp_heuristic P ?s)
         in if h = Infinity then Inr (G\<lparr>b_nodes := ?N[?s := ?n\<lparr>status := DEAD_END\<rparr>]\<rparr>)
            else let G = (if fless h (b_best_h G)
                   then G\<lparr>b_best_h := h, b_open := update_weight (boost_weight (sp_boost P)) (b_open G)\<rparr> else G)
              in fold_result (lazy_successor P ?s h) (G\<lparr>b_nodes := ?N[?s := ?n\<lparr>status := CLOSED\<rparr>]\<rparr>)
                   (sp_shuffled P n (sp_succs P (?s, g_value ?n))))"
    using al(1,2) N by (simp add: lazy_expand_def Let_def)
  have closed: "gbfs_inv T P R G' \<and> gdecreases {y. reaches T (start_state P) y} G G'"
    if st: "gcontent G' = (gcontent G)(?s := ?n\<lparr>status := st\<rparr>)" "st \<in> {CLOSED, DEAD_END}" "st = DEAD_END \<longrightarrow> sp_heuristic P ?s = Infinity"
      and G': "al_entries (b_open G') = al_entries al" "al_wf (b_open G')" "length (al_queues (b_open G')) = 2" "length (b_nodes G') = length (b_nodes G)"
      and R: "gclosed_inv T R (gcontent G')" for G' R st
  proof -
    have "gnodes_inv T P (gcontent G')" unfolding st(1) using st(2,3) by (intro gnodes_inv_status [OF gbfs_invD(1) [OF inv] new]) auto
    moreover have "gqueue_inv (gcontent G') (al_entries al)"
      by (rule gqueue_inv_remove [of "gcontent G" e]) (use gbfs_invD(3) [OF inv] al(4) st(1,2) in auto)
    moreover have "new_states S (gcontent G') = new_states S (gcontent G)" for S
    proof -
      have "status (gcontent G' x) = NEW \<longleftrightarrow> status (gcontent G x) = NEW" for x using st(1,2) new by auto
      then show ?thesis by (simp add: new_states_def)
    qed
    ultimately show ?thesis using R G' gbfs_invD(6) [OF inv] al(4) by (simp add: gbfs_inv_def gdecreases_def)
  qed
  have gcl: "gclosed_inv T R ((gcontent G)(?s := ?n\<lparr>status := st\<rparr>))" if "st = DEAD_END \<or> {?s} \<times> T ?s \<subseteq> R" "st \<noteq> NEW" for st R
    using gbfs_invD(2) [OF inv] that unfolding gclosed_inv_def by auto
  consider "status ?n \<in> {CLOSED, DEAD_END}" | "status ?n \<notin> {CLOSED, DEAD_END}" "sp_heuristic P ?s = Infinity"
    | "status ?n \<notin> {CLOSED, DEAD_END}" "sp_heuristic P ?s \<noteq> Infinity" by blast
  then show ?thesis
  proof cases
    case 1
    define G' where "G' = G\<lparr>b_nodes := ?N, b_open := update_weight decay_weight al\<rparr>"
    have "gcontent G' = (gcontent G)(?s := ?n\<lparr>status := status ?n\<rparr>)" by (rule ext) (simp add: gcontent_def G'_def)
    moreover have "gclosed_inv T {} (gcontent G')" using gbfs_invD(2) [OF inv] by (simp add: gcontent_def G'_def fun_eq_iff gclosed_inv_def)
    ultimately have "gbfs_inv T P {} G' \<and> gdecreases {y. reaches T (start_state P) y} G G'"
      using closed [of G' "status ?n" "{}"] 1 gnodes_invD(9) [OF gbfs_invD(1) [OF inv], of ?s] al(3) len by (simp add: G'_def)
    then show ?thesis using le 1 unfolding G'_def by auto
  next
    case 2
    define G' where "G' = G\<lparr>b_open := update_weight decay_weight al, b_nodes := ?N[?s := ?n\<lparr>status := DEAD_END\<rparr>]\<rparr>"
    have v: "gcontent G' = (gcontent G)(?s := ?n\<lparr>status := DEAD_END\<rparr>)" by (rule gcontent_update) (simp add: G'_def)
    have "gbfs_inv T P {} G' \<and> gdecreases {y. reaches T (start_state P) y} G G'"
      using closed [OF v, of "{}"] gcl [of DEAD_END "{}"] 2(2) al(3) len v by (simp add: G'_def)
    moreover have "lazy_expand P pick n G = Inr G'" using le 2 by (simp add: G'_def)
    ultimately show ?thesis by simp
  next
    case 3
    let ?h = "canonicalize_value (sp_heuristic P ?s)"
    let ?xs = "sp_shuffled P n (sp_succs P (?s, g_value ?n))"
    let ?S = "{y. reaches T (start_state P) y}"
    obtain G' where G': "lazy_expand P pick n G = fold_result (lazy_successor P ?s ?h) G' ?xs"
      "b_nodes G' = ?N[?s := ?n\<lparr>status := CLOSED\<rparr>]" "al_entries (b_open G') = al_entries al" "al_wf (b_open G')" "length (al_queues (b_open G')) = 2"
    proof (rule that)
      let ?G = "G\<lparr>b_nodes := ?N, b_open := update_weight decay_weight al\<rparr>"
      let ?G' = "(if fless ?h (b_best_h ?G) then ?G\<lparr>b_best_h := ?h, b_open := update_weight (boost_weight (sp_boost P)) (b_open ?G)\<rparr> else ?G)
        \<lparr>b_nodes := ?N[?s := ?n\<lparr>status := CLOSED\<rparr>]\<rparr>"
      show "lazy_expand P pick n G = fold_result (lazy_successor P ?s ?h) ?G' ?xs" using le 3 by (simp add: Let_def)
    qed (use al(3) in simp_all)
    have v: "gcontent G' = (gcontent G)(?s := ?n\<lparr>status := CLOSED\<rparr>)" by (rule gcontent_update) (rule G'(2))
    have cl: "gbfs_inv T P ({?s} \<times> T ?s) G' \<and> gdecreases ?S G G'"
      using closed [OF v, of "{?s} \<times> T ?s"] gcl [of CLOSED "{?s} \<times> T ?s"] G'(2-5) len v by simp
    then have ex: "lazy_expanding T P ?s (g_value ?n) ({?s} \<times> T ?s) G'" by (simp add: lazy_expanding_def v)
    have xs: "set ?xs = set (sp_succs P (?s, g_value ?n))" by (rule gbfs_settingD(7) [OF set(1)])
    then have "(\<lambda>e. fst (snd e)) ` set ?xs = T ?s"
      using gbfs_settingD(1) [OF set(1) gnodes_invD(6) [OF gbfs_invD(1) [OF inv] new]] by simp
    with fold_lazy_expanding [OF set ex, of ?xs ?h] xs cl show ?thesis
      unfolding G'(1) by (auto simp: lazy_expanding_def gprogress_def gdecreases_def split: sum.splits)
  qed
qed

text \<open>When the open list is empty every reachable state has been generated, unless it lies behind a dead end.\<close>

lemma exhausted_no_goal:
  assumes set: "gbfs_setting T P" and inv: "gbfs_inv T P {} G" and "al_empty (b_open G)"
    and "reaches T s t" "status (gcontent G s) \<noteq> NEW"
  shows "\<not> sp_dynamic_goal P t"
  using assms(4,5)
proof induction
  case (reaches_refl s)
  then show ?case by (rule gnodes_invD(7) [OF gbfs_invD(1) [OF inv]])
next
  case (reaches_step t s u)
  have "status (gcontent G s) \<noteq> OPEN" using gbfs_invD(3) [OF inv] assms(3) by (simp add: al_empty_iff gqueue_inv_def)
  then consider "status (gcontent G s) = CLOSED" | "status (gcontent G s) = DEAD_END"
    using reaches_step.prems gnodes_invD(8) [OF gbfs_invD(1) [OF inv]] by (metis node_status.exhaust)
  then show ?case
  proof cases
    case 1
    then have "status (gcontent G t) \<noteq> NEW" using gbfs_invD(2) [OF inv] reaches_step.hyps(1) by (auto simp: gclosed_inv_def)
    then show ?thesis by (rule reaches_step.IH)
  next
    case 2
    then show ?thesis
      using gbfs_settingD(4) [OF set gnodes_invD(9) [OF gbfs_invD(1) [OF inv] 2] reaches.reaches_step [OF reaches_step.hyps]] by simp
  qed
qed

lemma gbfs_loop_correct:
  assumes set: "gbfs_setting T P" "sp_static_goal P" "finite {y. reaches T (start_state P) y}"
    and pick: "\<And>n. in_range (pick n)" and "gbfs_inv T P {} G"
  shows "\<exists>r. gbfs_loop P pick n G = Some (Inr r) \<and> gbfs_outcome T P r"
  using assms(5)
proof (induction "(new_states {y. reaches T (start_state P) y} (gcontent G), size (al_entries (b_open G)))" arbitrary: n G
    rule: wf_induct_rule [OF wf_lex_prod [OF wf_less_than wf_less_than]])
  case 1
  show ?case
  proof (cases "al_empty (b_open G)")
    case True
    have "\<not> sp_dynamic_goal P t" if "reaches T (start_state P) t" for t
      using exhausted_no_goal [OF set(1) 1(2) True that] gnodes_invD(3) [OF gbfs_invD(1) [OF 1(2)]] by blast
    with True show ?thesis by (auto simp: gbfs_loop.simps [of P] gbfs_outcome_def no_plan_def)
  next
    case False
    have step: "case lazy_expand P pick n G of Inl r \<Rightarrow> \<exists>r'. r = Some (Inr r') \<and> gbfs_outcome T P r'
      | Inr G' \<Rightarrow> gbfs_inv T P {} G' \<and> gdecreases {y. reaches T (start_state P) y} G G'"
      by (rule lazy_expand_inv [OF set 1(2) False pick])
    consider "sp_out_of_time P n" | r where "\<not> sp_out_of_time P n" "lazy_expand P pick n G = Inl r" | G' where "\<not> sp_out_of_time P n" "lazy_expand P pick n G = Inr G'"
      by (metis sum.exhaust)
    then show ?thesis
    proof cases
      case 1
      then show ?thesis using False by (auto simp: gbfs_loop.simps [of P] gbfs_outcome_def no_plan_def)
    next
      case 2
      then show ?thesis using False step by (auto simp: gbfs_loop.simps [of P])
    next
      case (3 G')
      then show ?thesis using False step 1(1) [of G' "Suc n"] by (simp add: gbfs_loop.simps [of P pick n] gdecreases_def)
    qed
  qed
qed

lemma initial_gbfs_inv:
  assumes set: "gbfs_setting T P" "sp_start_node P = (s0, m)" "\<not> sp_dynamic_goal P s0"
  shows "gbfs_inv T P {} \<lparr>b_nodes = (get_or_create default_gbfs_node s0 [])[s0 := default_gbfs_node\<lparr>status := OPEN, g_value := m, n_preferred := False\<rparr>],
    b_open = al_insert_at (al_init [[], []] [1, 1]) 1 \<lparr>q_g = m, q_h = h, q_state = s0, q_step = 0, q_status = OPEN\<rparr>, b_step = 1, b_best_h = h\<rparr>"
    (is "gbfs_inv T P {} ?G")
proof -
  let ?n = "default_gbfs_node\<lparr>status := OPEN, g_value := m, n_preferred := False\<rparr>"
  have c: "gcontent ?G x = (if x = s0 then ?n else default_gbfs_node)" for x
    by (simp add: gcontent_def node_at_update) (simp add: node_at_def)
  have start: "start_state P = s0" "snd (sp_start_node P) = m" "m \<noteq> NaN" using set(2) gbfs_settingD(3) [OF set(1)] by simp_all
  have "linked (sp_succs P) (gcontent ?G) s0 s0" "reaches T s0 s0" by (rule linked_start, rule reaches_refl)
  then have "gnodes_inv T P (gcontent ?G)" unfolding gnodes_inv_def c start(1,2) using set(3) start(3) by (simp add: default_gbfs_node_def)
  moreover have "gclosed_inv T {} (gcontent ?G)" unfolding gclosed_inv_def c by (simp add: default_gbfs_node_def)
  moreover have "al_entries (b_open ?G) = {#\<lparr>q_g = m, q_h = h, q_state = s0, q_step = 0, q_status = OPEN\<rparr>#}"
    by (simp add: al_entries_def al_insert_at_def al_init_def pq_insert_def)
  then have "gqueue_inv (gcontent ?G) (al_entries (b_open ?G))"
    unfolding gqueue_inv_def c by (simp add: default_gbfs_node_def)
  moreover have "al_wf (b_open ?G)" "length (al_queues (b_open ?G)) = 2" by (simp_all add: al_wf_def al_insert_at_def al_init_def)
  moreover have "length (b_nodes ?G) \<in> Suc ` {y. reaches T (start_state P) y}" using reaches_refl start(1) by auto
  ultimately show ?thesis unfolding gbfs_inv_def by blast
qed

lemma gbfs_find_solution_outcome:
  assumes set: "gbfs_setting T P" "finite {y. reaches T (start_state P) y}" and pick: "\<And>n. in_range (pick n)"
  shows "\<exists>r. gbfs_find_solution P pick = Some (Inr r) \<and> gbfs_outcome T P r"
proof -
  obtain s0 m where start: "sp_start_node P = (s0, m)" "m \<noteq> NaN" using gbfs_settingD(3) [OF set(1)] by (cases "sp_start_node P") simp
  consider "\<not> sp_static_goal P" | "sp_static_goal P" "sp_dynamic_goal P s0" | "sp_static_goal P" "\<not> sp_dynamic_goal P s0" "sp_heuristic P s0 = Infinity"
    | "sp_static_goal P" "\<not> sp_dynamic_goal P s0" "sp_heuristic P s0 \<noteq> Infinity" by blast
  then show ?thesis
  proof cases
    case 1
    then show ?thesis using start by (simp add: gbfs_find_solution_def Let_def gbfs_outcome_def no_plan_def)
  next
    case 2
    then show ?thesis using start by (simp add: gbfs_find_solution_def Let_def gbfs_outcome_def solved_def)
  next
    case 3
    have "\<not> sp_dynamic_goal P t" if "reaches T s0 t" for t using gbfs_settingD(4) [OF set(1) 3(3) that] .
    then show ?thesis using 3 start by (auto simp: gbfs_find_solution_def Let_def gbfs_outcome_def no_plan_def isnan_def)
  next
    case 4
    then show ?thesis
      using gbfs_loop_correct [OF set(1) 4(1) set(2) pick initial_gbfs_inv [OF set(1) start(1) 4(2)]] start gbfs_settingD(5) [OF set(1)]
      by (simp add: gbfs_find_solution_def Let_def isnan_def)
  qed
qed

section \<open>Properties\<close>

text \<open>
  C4. Greedy best-first search with lazy evaluation is sound: for every safe heuristic, every choice of preferred actions and
  every order of the queues, with finitely many reachable states, the search returns; a plan that it returns is a path of
  the successor generator from the start node to a goal; it reports exhaustion or unsolvability only when no goal can be
  reached, and a resource limit only when it is hit.
\<close>

theorem gbfs_sound:
  assumes "gbfs_setting T P" and "finite {y. reaches T (start_state P) y}" and "\<forall>n. in_range (pick n)"
  shows "\<exists>r. gbfs_find_solution P pick = Some (Inr r) \<and> gbfs_outcome T P r"
  using gbfs_find_solution_outcome assms by blast

text \<open>A problem with a preferred action, a dead end and two ways to the goal, for the witnesses.\<close>

definition example_steps :: "nat \<Rightarrow> (string \<times> nat) list" where
  "example_steps s = (if s = 0 then [(''a'', 1), (''b'', 2)] else if s = 1 then [(''c'', 4)] else if s = 2 then [(''d'', 3)] else [])"

definition lazy_problem :: "string search_problem" where
  "lazy_problem = \<lparr>sp_start_node = (0, Fin 0),
     sp_succs = (\<lambda>(s, m). map (\<lambda>(l, t). (l, t, fadd m (Fin 1))) (example_steps s)),
     sp_heuristic = (\<lambda>s. if s = 4 then Infinity else Fin 1), sp_preferred = (\<lambda>s l. l = ''a''), sp_static_goal = True,
     sp_dynamic_goal = (\<lambda>s. s = 3), sp_prune_state = (\<lambda>s. False), sp_prune_succ = (\<lambda>s t b. False), sp_max_num_states = 100,
     sp_out_of_time = (\<lambda>n. False), sp_shuffled = (\<lambda>n xs. rev xs), sp_boost = 1000\<rparr>"

lemma example_reaches: "reaches (\<lambda>s. snd ` set (example_steps s)) s t \<Longrightarrow> s \<in> {0, 1, 2, 3, 4} \<Longrightarrow> t \<in> {0, 1, 2, 3, 4}"
  by (induction rule: reaches.induct) (auto simp: example_steps_def split: if_splits)

lemma lazy_problem_setting: "gbfs_setting (\<lambda>s. snd ` set (example_steps s)) lazy_problem"
proof -
  have dead: "t = 4" if "reaches (\<lambda>s. snd ` set (example_steps s)) s t" "s = 4" for s t
    using that by (induction rule: reaches.induct) (auto simp: example_steps_def)
  have fin: "fadd m (Fin 1) \<noteq> NaN" if "m \<noteq> NaN" for m using that by (cases m) auto
  show ?thesis
    unfolding gbfs_setting_def
  proof (intro conjI allI impI)
    fix s and m :: fval
    show "(\<lambda>e. fst (snd e)) ` set (sp_succs lazy_problem (s, m)) = snd ` set (example_steps s)"
      by (simp add: lazy_problem_def image_image case_prod_beta)
  next
    fix s t assume "sp_heuristic lazy_problem s = Infinity" "reaches (\<lambda>s. snd ` set (example_steps s)) s t"
    then show "\<not> sp_dynamic_goal lazy_problem t" using dead [of s t] by (simp add: lazy_problem_def split: if_splits)
  qed (use fin in \<open>auto simp: lazy_problem_def\<close>)
qed

lemma lazy_problem_finite: "finite {y. reaches (\<lambda>s. snd ` set (example_steps s)) (start_state lazy_problem) y}"
proof -
  have "{y. reaches (\<lambda>s. snd ` set (example_steps s)) (start_state lazy_problem) y} \<subseteq> {0, 1, 2, 3, 4}"
    using example_reaches [of "start_state lazy_problem"] by (auto simp: lazy_problem_def)
  then show ?thesis by (rule finite_subset) simp
qed

theorem gbfs_sound_witness:
  "\<exists>r. gbfs_find_solution lazy_problem (\<lambda>_. first_min gbfs_entry_gt) = Some (Inr r)
    \<and> gbfs_outcome (\<lambda>s. snd ` set (example_steps s)) lazy_problem r"
proof -
  have "first_min gt q < length q" if "q \<noteq> []" for gt and q :: "gbfs_entry list"
    using that by (induction q rule: induct_list012) (auto simp: Let_def)
  then have "in_range (first_min gbfs_entry_gt)" by (simp add: in_range_def)
  with gbfs_sound [OF lazy_problem_setting lazy_problem_finite, of "\<lambda>_. first_min gbfs_entry_gt"] show ?thesis by simp
qed

end
