(* ===== verification/Assignment_Sets.thy ===== *)
theory Assignment_Sets
  imports Prelude
begin

text \<open>
  \<^verbatim>\<open>include/tyr/datalog/assignment_sets.hpp\<close>, \<^verbatim>\<open>src/datalog/assignment_sets.cpp\<close> and \<^verbatim>\<open>include/tyr/datalog/assignment.hpp\<close>: the perfect hash
  of partial assignments and the sets of assignments of predicates. A vertex assignment is a position with an object, an edge
  assignment two of them; a set of assignments is the list of its bits. Objects, positions and predicates are their indices. The
  sets of intervals of functions rest on Boost's interval arithmetic and are not modelled.
\<close>

section \<open>The perfect hash\<close>

record assignment_hash =
  num_assignments :: nat
  remapping :: "nat list list"
  offsets :: "nat list"
  parameter_domains :: "nat list list"

text \<open>The loop over the objects of a domain: the row of the remapping, the last index given, the number of assignments.\<close>

definition hash_object :: "nat \<Rightarrow> nat list \<times> nat \<times> nat \<Rightarrow> nat list \<times> nat \<times> nat" where
  "hash_object ob st = (case st of (row, new, n) \<Rightarrow> (row[Suc ob := Suc new], Suc new, Suc n))"

definition hash_parameter :: "nat \<Rightarrow> nat list \<Rightarrow> assignment_hash \<Rightarrow> assignment_hash" where
  "hash_parameter num_objects domain h =
     (let offset = num_assignments h;
          (row, _, n) = fold hash_object domain (replicate (num_objects + 1) 0, 0, Suc offset)
      in h\<lparr>num_assignments := n, remapping := remapping h @ [row], offsets := offsets h @ [offset]\<rparr>)"

definition make_hash :: "nat list list \<Rightarrow> nat \<Rightarrow> assignment_hash" where
  "make_hash domains num_objects = fold (hash_parameter num_objects) domains
     \<lparr>num_assignments = 1, remapping = [[0]], offsets = [0], parameter_domains = domains\<rparr>"

definition vertex_rank :: "assignment_hash \<Rightarrow> nat \<Rightarrow> nat \<Rightarrow> nat" where
  "vertex_rank h i ob = offsets h ! Suc i + remapping h ! Suc i ! Suc ob"

definition edge_rank :: "assignment_hash \<Rightarrow> nat \<Rightarrow> nat \<Rightarrow> nat \<Rightarrow> nat \<Rightarrow> nat" where
  "edge_rank h i ob j ob' =
     (let r1 = offsets h ! Suc i + remapping h ! Suc i ! Suc ob; r2 = offsets h ! Suc j + remapping h ! Suc j ! Suc ob'
      in r1 * num_assignments h + r2)"

definition hash_size :: "assignment_hash \<Rightarrow> nat" where
  "hash_size h = num_assignments h * num_assignments h"

section \<open>Assignment sets of predicates\<close>

record pred_set =
  ps_arity :: nat
  ps_hash :: assignment_hash
  ps_bits :: "bool list"

definition ps_init :: "nat \<Rightarrow> nat list list \<Rightarrow> nat \<Rightarrow> pred_set" where
  "ps_init arity domains num_objects =
     (let h = make_hash domains num_objects in \<lparr>ps_arity = arity, ps_hash = h, ps_bits = replicate (hash_size h) False\<rparr>)"

definition ps_reset :: "pred_set \<Rightarrow> pred_set" where
  "ps_reset S = S\<lparr>ps_bits := map (\<lambda>_. False) (ps_bits S)\<rparr>"

definition ps_set :: "nat \<Rightarrow> pred_set \<Rightarrow> pred_set" where
  "ps_set r S = S\<lparr>ps_bits := (ps_bits S)[r := True]\<rparr>"

definition ps_insert_edges :: "nat list \<Rightarrow> nat \<Rightarrow> pred_set \<Rightarrow> pred_set" where
  "ps_insert_edges obs i S = fold (\<lambda>j S. ps_set (edge_rank (ps_hash S) i (obs ! i) j (obs ! j)) S) [Suc i..<ps_arity S] S"

definition ps_insert :: "nat list \<Rightarrow> pred_set \<Rightarrow> pred_set" where
  "ps_insert obs S = fold (\<lambda>i S. ps_insert_edges obs i (ps_set (vertex_rank (ps_hash S) i (obs ! i)) S)) [0..<ps_arity S] S"

definition ps_at_vertex :: "pred_set \<Rightarrow> nat \<Rightarrow> nat \<Rightarrow> bool" where
  "ps_at_vertex S i ob = ps_bits S ! vertex_rank (ps_hash S) i ob"

definition ps_at_edge :: "pred_set \<Rightarrow> nat \<Rightarrow> nat \<Rightarrow> nat \<Rightarrow> nat \<Rightarrow> bool" where
  "ps_at_edge S i ob j ob' = ps_bits S ! edge_rank (ps_hash S) i ob j ob'"

text \<open>All predicates; \<open>predicates\<close> gives each its arity and the domains of its parameters.\<close>

type_synonym pred_sets = "pred_set list"

definition pss_init :: "(nat \<times> nat list list) list \<Rightarrow> nat \<Rightarrow> pred_sets" where
  "pss_init predicates num_objects = map (\<lambda>(arity, domains). ps_init arity domains num_objects) predicates"

definition pss_reset :: "pred_sets \<Rightarrow> pred_sets" where
  "pss_reset = map ps_reset"

definition pss_insert :: "nat \<times> nat list \<Rightarrow> pred_sets \<Rightarrow> pred_sets" where
  "pss_insert b Ss = (case b of (p, obs) \<Rightarrow> Ss[p := ps_insert obs (Ss ! p)])"

definition pss_insert_all :: "(nat \<times> nat list) list \<Rightarrow> pred_sets \<Rightarrow> pred_sets" where
  "pss_insert_all bs Ss = fold pss_insert bs Ss"

section \<open>The hash is perfect\<close>

text \<open>The index of an object in its domain from 1, with 0 for an object outside it, and the offset of a parameter.\<close>

definition domain_index :: "nat list \<Rightarrow> nat \<Rightarrow> nat" where
  "domain_index domain ob = (if ob \<in> set domain then Suc (length (takeWhile (\<lambda>x. x \<noteq> ob) domain)) else 0)"

definition domain_offset :: "nat list list \<Rightarrow> nat \<Rightarrow> nat" where
  "domain_offset domains i = 1 + sum_list (map (\<lambda>d. Suc (length d)) (take i domains))"

definition domains_ok :: "nat list list \<Rightarrow> nat \<Rightarrow> bool" where
  "domains_ok domains num_objects \<longleftrightarrow> (\<forall>d \<in> set domains. distinct d \<and> (\<forall>ob \<in> set d. ob < num_objects))"

lemma length_takeWhile_neq: "x \<in> set xs \<Longrightarrow> length (takeWhile (\<lambda>y. y \<noteq> x) xs) < length xs"
  by (induction xs) auto

lemma domain_index_le: "domain_index d ob \<le> length d"
  using length_takeWhile_neq [of ob d] by (auto simp: domain_index_def Suc_le_eq)

lemma domain_index_inj:
  assumes "ob \<in> set d" "domain_index d ob = domain_index d ob'"
  shows "ob = ob'"
proof -
  have m: "ob' \<in> set d" using assms by (auto simp: domain_index_def split: if_splits)
  then have "length (takeWhile (\<lambda>x. x \<noteq> ob) d) = length (takeWhile (\<lambda>x. x \<noteq> ob') d)"
    using assms by (simp add: domain_index_def)
  moreover have "d ! length (takeWhile (\<lambda>x. x \<noteq> x') d) = x'" if "x' \<in> set d" for x'
    using nth_length_takeWhile [OF length_takeWhile_neq [OF that]] by simp
  ultimately show ?thesis using assms(1) m by metis
qed

lemma hash_object_eq: "hash_object ob (row, new, n) = (row[Suc ob := Suc new], Suc new, Suc n)"
  by (simp add: hash_object_def)

lemma fold_hash_object:
  assumes "distinct d" "\<forall>ob \<in> set d. Suc ob < length row"
  shows "\<exists>row'. fold hash_object d (row, new, n) = (row', new + length d, n + length d) \<and> length row' = length row
    \<and> (\<forall>ob. Suc ob < length row \<longrightarrow> row' ! Suc ob = (if ob \<in> set d then new + domain_index d ob else row ! Suc ob))"
  using assms
proof (induction d arbitrary: row new n)
  case (Cons x d)
  obtain row' where r: "fold hash_object d (row[Suc x := Suc new], Suc new, Suc n) = (row', Suc new + length d, Suc n + length d)"
    "length row' = length row"
    "\<forall>ob. Suc ob < length row \<longrightarrow> row' ! Suc ob = (if ob \<in> set d then Suc new + domain_index d ob else row[Suc x := Suc new] ! Suc ob)"
    using Cons.IH [of "row[Suc x := Suc new]" "Suc new" "Suc n"] Cons.prems by auto
  have idx: "domain_index (x # d) ob = (if ob = x then 1 else if ob \<in> set d then Suc (domain_index d ob) else 0)" for ob
    using Cons.prems by (auto simp: domain_index_def)
  have "row' ! Suc ob = (if ob \<in> set (x # d) then new + domain_index (x # d) ob else row ! Suc ob)" if "Suc ob < length row" for ob
    using r(3) that Cons.prems(1) by (auto simp: idx nth_list_update)
  then show ?case using r(1,2) by (intro exI [of _ row']) (simp add: hash_object_eq)
qed simp

text \<open>What the hash holds after the domains \<open>ds\<close>.\<close>

definition hash_of :: "nat list list \<Rightarrow> nat \<Rightarrow> assignment_hash \<Rightarrow> bool" where
  "hash_of ds num_objects h \<longleftrightarrow> num_assignments h = domain_offset ds (length ds) \<and> length (offsets h) = Suc (length ds)
     \<and> length (remapping h) = Suc (length ds)
     \<and> (\<forall>i < length ds. offsets h ! Suc i = domain_offset ds i \<and> (\<forall>ob < num_objects. remapping h ! Suc i ! Suc ob = domain_index (ds ! i) ob))"

lemma domain_offset_append: "i \<le> length ds \<Longrightarrow> domain_offset (ds @ [d]) i = domain_offset ds i"
  by (simp add: domain_offset_def)

lemma domain_offset_Suc: "i < length ds \<Longrightarrow> domain_offset ds (Suc i) = domain_offset ds i + Suc (length (ds ! i))"
  by (simp add: domain_offset_def take_Suc_conv_app_nth)

lemma hash_of_parameter:
  assumes "hash_of ds n h" "domains_ok [d] n"
  shows "hash_of (ds @ [d]) n (hash_parameter n d h)"
proof -
  obtain row where r: "fold hash_object d (replicate (n + 1) 0, 0, Suc (num_assignments h)) = (row, 0 + length d, Suc (num_assignments h) + length d)"
    "\<forall>ob. Suc ob < n + 1 \<longrightarrow> row ! Suc ob = (if ob \<in> set d then 0 + domain_index d ob else replicate (n + 1) (0 :: nat) ! Suc ob)"
    using fold_hash_object [of d "replicate (n + 1) 0" 0 "Suc (num_assignments h)"] assms(2) by (auto simp: domains_ok_def)
  have row: "row ! Suc ob = domain_index d ob" if "ob < n" for ob using r(2) that by (auto simp: domain_index_def)
  have h: "hash_parameter n d h = h\<lparr>num_assignments := Suc (num_assignments h) + length d, remapping := remapping h @ [row], offsets := offsets h @ [num_assignments h]\<rparr>"
    using r(1) by (simp add: hash_parameter_def Let_def)
  have last: "domain_offset (ds @ [d]) (Suc (length ds)) = domain_offset ds (length ds) + Suc (length d)"
    using domain_offset_Suc [of "length ds" "ds @ [d]"] by (simp add: domain_offset_append)
  show ?thesis
    unfolding hash_of_def h using assms(1) row last
    by (auto simp: hash_of_def nth_append less_Suc_eq domain_offset_append)
qed

lemma hash_of_fold: "hash_of es n h \<Longrightarrow> domains_ok ds n \<Longrightarrow> hash_of (es @ ds) n (fold (hash_parameter n) ds h)"
proof (induction ds arbitrary: es h)
  case (Cons d ds)
  then have "hash_of (es @ [d]) n (hash_parameter n d h)" by (intro hash_of_parameter) (auto simp: domains_ok_def)
  then show ?case using Cons.IH [of "es @ [d]" "hash_parameter n d h"] Cons.prems by (simp add: domains_ok_def)
qed simp

lemma hash_of_make: "domains_ok ds n \<Longrightarrow> hash_of ds n (make_hash ds n)"
  using hash_of_fold [of "[]" n _ ds] by (simp add: make_hash_def hash_of_def domain_offset_def)

lemma domain_offset_less: "i < j \<Longrightarrow> j \<le> length ds \<Longrightarrow> domain_offset ds i + length (ds ! i) < domain_offset ds j"
proof (induction j)
  case (Suc j)
  then show ?case using domain_offset_Suc [of j ds] by (cases "i = j") auto
qed simp

lemma vertex_rank_eq:
  assumes "hash_of ds n h" "i < length ds" "ob < n"
  shows "vertex_rank h i ob = domain_offset ds i + domain_index (ds ! i) ob" "0 < vertex_rank h i ob" "vertex_rank h i ob < num_assignments h"
proof -
  show eq: "vertex_rank h i ob = domain_offset ds i + domain_index (ds ! i) ob" using assms by (simp add: vertex_rank_def hash_of_def)
  then show "0 < vertex_rank h i ob" by (simp add: domain_offset_def)
  show "vertex_rank h i ob < num_assignments h"
    using domain_offset_less [of i "length ds" ds] domain_index_le [of "ds ! i" ob] assms unfolding eq by (simp add: hash_of_def)
qed

lemma vertex_rank_inj:
  assumes "hash_of ds n h" "i < length ds" "j < length ds" "ob < n" "ob' < n" "ob \<in> set (ds ! i)" "vertex_rank h i ob = vertex_rank h j ob'"
  shows "i = j \<and> ob = ob'"
proof -
  have eq: "domain_offset ds i + domain_index (ds ! i) ob = domain_offset ds j + domain_index (ds ! j) ob'"
    using vertex_rank_eq(1) assms by metis
  have "\<not> i < j" using domain_offset_less [of i j ds] domain_index_le [of "ds ! i" ob] assms(3) eq by auto
  moreover have "\<not> j < i" using domain_offset_less [of j i ds] domain_index_le [of "ds ! j" ob'] assms(2) eq by auto
  ultimately have "i = j" by simp
  then show ?thesis using eq domain_index_inj [OF assms(6)] by simp
qed

lemma edge_rank_eq: "edge_rank h i ob j ob' = vertex_rank h i ob * num_assignments h + vertex_rank h j ob'"
  by (simp add: edge_rank_def vertex_rank_def Let_def)

lemma pair_less: "a < n \<Longrightarrow> b < n \<Longrightarrow> a * n + b < n * n" for a b n :: nat
proof -
  assume "a < n" "b < n"
  then have "a * n + b < a * n + n" by simp
  also have "\<dots> = Suc a * n" by simp
  also have "\<dots> \<le> n * n" using \<open>a < n\<close> by (intro mult_le_mono1) simp
  finally show ?thesis .
qed

lemma rank_bounds:
  assumes "hash_of ds n h" "i < length ds" "ob < n"
  shows "vertex_rank h i ob < hash_size h" "j < length ds \<Longrightarrow> ob' < n \<Longrightarrow> edge_rank h i ob j ob' < hash_size h"
    and "num_assignments h \<le> edge_rank h i ob j ob'"
proof -
  have r: "0 < vertex_rank h i ob" "vertex_rank h i ob < num_assignments h" using vertex_rank_eq(2,3) [OF assms] .
  then have "num_assignments h * 1 \<le> num_assignments h * num_assignments h" by (intro mult_le_mono2) simp
  then show "vertex_rank h i ob < hash_size h" using r unfolding hash_size_def by linarith
  show "edge_rank h i ob j ob' < hash_size h" if "j < length ds" "ob' < n"
    using pair_less [OF r(2) vertex_rank_eq(3) [OF assms(1) that]] by (simp add: edge_rank_eq hash_size_def)
  have "1 * num_assignments h \<le> vertex_rank h i ob * num_assignments h" using r(1) by (intro mult_le_mono1) simp
  then show "num_assignments h \<le> edge_rank h i ob j ob'" unfolding edge_rank_eq by linarith
qed

lemma edge_rank_inj:
  assumes "hash_of ds n h" "i < length ds" "j < length ds" "i' < length ds" "j' < length ds" "ob1 < n" "ob2 < n" "ob3 < n" "ob4 < n"
    and "ob1 \<in> set (ds ! i)" "ob2 \<in> set (ds ! j)" "edge_rank h i ob1 j ob2 = edge_rank h i' ob3 j' ob4"
  shows "i = i' \<and> ob1 = ob3 \<and> j = j' \<and> ob2 = ob4"
proof -
  let ?n = "num_assignments h"
  have b: "vertex_rank h j ob2 < ?n" "vertex_rank h j' ob4 < ?n" using vertex_rank_eq(3) [OF assms(1)] assms by auto
  have "vertex_rank h i ob1 = vertex_rank h i' ob3" "vertex_rank h j ob2 = vertex_rank h j' ob4"
    using arg_cong [OF assms(12), of "\<lambda>r. r div ?n"] arg_cong [OF assms(12), of "\<lambda>r. r mod ?n"] b by (simp_all add: edge_rank_eq)
  then show ?thesis using vertex_rank_inj [OF assms(1)] assms by metis
qed

section \<open>What the sets hold\<close>

definition ranks_of :: "assignment_hash \<Rightarrow> nat \<Rightarrow> nat list \<Rightarrow> nat set" where
  "ranks_of h arity obs = {vertex_rank h i (obs ! i) | i. i < arity} \<union> {edge_rank h i (obs ! i) j (obs ! j) | i j. i < j \<and> j < arity}"

lemma ranks_of_iff: "r \<in> ranks_of h a obs \<longleftrightarrow> (\<exists>k < a. r = vertex_rank h k (obs ! k)) \<or> (\<exists>k l. k < l \<and> l < a \<and> r = edge_rank h k (obs ! k) l (obs ! l))"
  unfolding ranks_of_def by blast

lemma ps_set_simps [simp]: "ps_arity (ps_set r S) = ps_arity S" "ps_hash (ps_set r S) = ps_hash S"
  "length (ps_bits (ps_set r S)) = length (ps_bits S)"
  by (simp_all add: ps_set_def)

lemma ps_set_bits: "r < length (ps_bits S) \<Longrightarrow> ps_bits (ps_set r' S) ! r \<longleftrightarrow> ps_bits S ! r \<or> r = r'"
  by (cases "r = r'") (simp_all add: ps_set_def)

text \<open>A fold of steps each of which sets the bits of a set of ranks.\<close>

definition sets_ranks :: "assignment_hash \<Rightarrow> nat \<Rightarrow> (pred_set \<Rightarrow> pred_set) \<Rightarrow> nat set \<Rightarrow> bool" where
  "sets_ranks h arity f R \<longleftrightarrow> (\<forall>S. ps_hash S = h \<longrightarrow> ps_arity S = arity \<longrightarrow> ps_hash (f S) = h \<and> ps_arity (f S) = arity
     \<and> length (ps_bits (f S)) = length (ps_bits S) \<and> (\<forall>r < length (ps_bits S). ps_bits (f S) ! r \<longleftrightarrow> ps_bits S ! r \<or> r \<in> R))"

lemma sets_ranks_fold:
  assumes "\<And>x. x \<in> set xs \<Longrightarrow> sets_ranks h arity (f x) (R x)"
  shows "sets_ranks h arity (fold f xs) (\<Union>x \<in> set xs. R x)"
  using assms
proof (induction xs)
  case Nil
  show ?case by (simp add: sets_ranks_def)
next
  case (Cons x xs)
  have x: "sets_ranks h arity (f x) (R x)" and IH: "sets_ranks h arity (fold f xs) (\<Union>x \<in> set xs. R x)" using Cons by auto
  show ?case
    unfolding sets_ranks_def
  proof (intro allI impI)
    fix S :: pred_set assume S: "ps_hash S = h" "ps_arity S = arity"
    have 1: "ps_hash (f x S) = h" "ps_arity (f x S) = arity" "length (ps_bits (f x S)) = length (ps_bits S)"
      "\<And>r. r < length (ps_bits S) \<Longrightarrow> ps_bits (f x S) ! r \<longleftrightarrow> ps_bits S ! r \<or> r \<in> R x"
      using x S unfolding sets_ranks_def by auto
    then show "ps_hash (fold f (x # xs) S) = h \<and> ps_arity (fold f (x # xs) S) = arity
      \<and> length (ps_bits (fold f (x # xs) S)) = length (ps_bits S)
      \<and> (\<forall>r < length (ps_bits S). ps_bits (fold f (x # xs) S) ! r \<longleftrightarrow> ps_bits S ! r \<or> r \<in> (\<Union>x \<in> set (x # xs). R x))"
      using IH unfolding sets_ranks_def by auto
  qed
qed

lemma sets_ranks_set: "sets_ranks h arity (\<lambda>S. ps_set (g (ps_hash S)) S) {g h}"
  by (auto simp: sets_ranks_def ps_set_bits)

lemma sets_ranks_comp: "sets_ranks h arity f R \<Longrightarrow> sets_ranks h arity g Q \<Longrightarrow> sets_ranks h arity (\<lambda>S. g (f S)) (R \<union> Q)"
  unfolding sets_ranks_def by auto

lemma sets_ranks_cong: "sets_ranks h arity f R \<Longrightarrow> (\<And>S. ps_hash S = h \<Longrightarrow> ps_arity S = arity \<Longrightarrow> g S = f S) \<Longrightarrow> R = Q \<Longrightarrow> sets_ranks h arity g Q"
  unfolding sets_ranks_def by simp

lemma sets_ranks_edges: "sets_ranks h arity (ps_insert_edges obs i) {edge_rank h i (obs ! i) j (obs ! j) | j. i < j \<and> j < arity}"
proof (rule sets_ranks_cong)
  show "sets_ranks h arity (fold (\<lambda>j S. ps_set (edge_rank (ps_hash S) i (obs ! i) j (obs ! j)) S) [Suc i..<arity])
    (\<Union>j \<in> set [Suc i..<arity]. {edge_rank h i (obs ! i) j (obs ! j)})"
    by (intro sets_ranks_fold sets_ranks_set)
  show "(\<Union>j \<in> set [Suc i..<arity]. {edge_rank h i (obs ! i) j (obs ! j)}) = {edge_rank h i (obs ! i) j (obs ! j) | j. i < j \<and> j < arity}"
    by (auto simp: Suc_le_eq)
qed (simp add: ps_insert_edges_def)

lemma sets_ranks_insert: "sets_ranks h arity (ps_insert obs) (ranks_of h arity obs)"
proof (rule sets_ranks_cong)
  show "sets_ranks h arity (fold (\<lambda>i S. ps_insert_edges obs i (ps_set (vertex_rank (ps_hash S) i (obs ! i)) S)) [0..<arity])
    (\<Union>i \<in> set [0..<arity]. {vertex_rank h i (obs ! i)} \<union> {edge_rank h i (obs ! i) j (obs ! j) | j. i < j \<and> j < arity})"
    by (intro sets_ranks_fold sets_ranks_comp sets_ranks_set sets_ranks_edges)
  show "(\<Union>i \<in> set [0..<arity]. {vertex_rank h i (obs ! i)} \<union> {edge_rank h i (obs ! i) j (obs ! j) | j. i < j \<and> j < arity}) = ranks_of h arity obs"
    by (fastforce simp: ranks_of_def)
qed (simp add: ps_insert_def)

definition legal_binding :: "nat list list \<Rightarrow> nat list \<Rightarrow> bool" where
  "legal_binding ds obs \<longleftrightarrow> length obs = length ds \<and> (\<forall>i < length ds. obs ! i \<in> set (ds ! i))"

text \<open>A set with the bindings \<open>facts\<close> of a predicate with the domains \<open>ds\<close>.\<close>

definition set_holds :: "nat list list \<Rightarrow> nat \<Rightarrow> pred_set \<Rightarrow> nat list set \<Rightarrow> bool" where
  "set_holds ds n S facts \<longleftrightarrow> domains_ok ds n \<and> hash_of ds n (ps_hash S) \<and> ps_arity S = length ds \<and> length (ps_bits S) = hash_size (ps_hash S)
     \<and> (\<forall>obs \<in> facts. legal_binding ds obs)
     \<and> (\<forall>r < length (ps_bits S). ps_bits S ! r \<longleftrightarrow> (\<exists>obs \<in> facts. r \<in> ranks_of (ps_hash S) (length ds) obs))"

lemma domains_ok_less: "domains_ok ds n \<Longrightarrow> j < length ds \<Longrightarrow> ob \<in> set (ds ! j) \<Longrightarrow> ob < n"
  unfolding domains_ok_def by (meson nth_mem)

lemma legal_binding_less: "domains_ok ds n \<Longrightarrow> legal_binding ds obs \<Longrightarrow> j < length ds \<Longrightarrow> obs ! j < n"
  unfolding legal_binding_def using domains_ok_less by blast

lemma set_holds_init: "domains_ok ds n \<Longrightarrow> set_holds ds n (ps_init (length ds) ds n) {}"
  using hash_of_make [of ds n] by (simp add: set_holds_def ps_init_def Let_def)

lemma set_holds_reset: "set_holds ds n S facts \<Longrightarrow> set_holds ds n (ps_reset S) {}"
  by (simp add: set_holds_def ps_reset_def)

lemma set_holds_insert:
  assumes "set_holds ds n S facts" "legal_binding ds obs"
  shows "set_holds ds n (ps_insert obs S) (insert obs facts)"
proof -
  have 1: "ps_hash (ps_insert obs S) = ps_hash S" "ps_arity (ps_insert obs S) = length ds" "length (ps_bits (ps_insert obs S)) = length (ps_bits S)"
    "\<And>r. r < length (ps_bits S) \<Longrightarrow> ps_bits (ps_insert obs S) ! r \<longleftrightarrow> ps_bits S ! r \<or> r \<in> ranks_of (ps_hash S) (length ds) obs"
    using sets_ranks_insert [of "ps_hash S" "length ds" obs] assms(1) unfolding sets_ranks_def set_holds_def by auto
  show ?thesis using assms unfolding set_holds_def 1(1,2,3) using 1(4) by auto
qed

lemma ranks_of_vertex:
  assumes "hash_of ds n h" "domains_ok ds n" "legal_binding ds obs" "i < length ds" "ob < n"
  shows "vertex_rank h i ob \<in> ranks_of h (length ds) obs \<longleftrightarrow> obs ! i = ob"
proof -
  have n: "obs ! j < n" "obs ! j \<in> set (ds ! j)" if "j < length ds" for j
    using that legal_binding_less [OF assms(2,3)] assms(3) by (simp_all add: legal_binding_def)
  have v: "vertex_rank h j (obs ! j) = vertex_rank h i ob \<longleftrightarrow> j = i \<and> obs ! j = ob" if "j < length ds" for j
    using vertex_rank_inj [OF assms(1) that assms(4) n(1) [OF that] assms(5) n(2) [OF that]] by blast
  have e: "vertex_rank h i ob \<noteq> edge_rank h j (obs ! j) k (obs ! k)" if "j < length ds" for j k
    using rank_bounds(3) [OF assms(1) that n(1) [OF that]] vertex_rank_eq(3) [OF assms(1,4,5)] by (metis not_le)
  show ?thesis
  proof
    assume "vertex_rank h i ob \<in> ranks_of h (length ds) obs"
    then consider k where "k < length ds" "vertex_rank h i ob = vertex_rank h k (obs ! k)"
      | k l where "k < length ds" "vertex_rank h i ob = edge_rank h k (obs ! k) l (obs ! l)"
      unfolding ranks_of_iff by (meson order.strict_trans)
    then show "obs ! i = ob" by cases (use v e in metis)+
  qed (use assms(4) in \<open>auto simp: ranks_of_def\<close>)
qed

lemma ranks_of_edge:
  assumes "hash_of ds n h" "domains_ok ds n" "legal_binding ds obs" "i < j" "j < length ds" "ob < n" "ob' < n"
  shows "edge_rank h i ob j ob' \<in> ranks_of h (length ds) obs \<longleftrightarrow> obs ! i = ob \<and> obs ! j = ob'"
proof -
  have i: "i < length ds" using assms(4,5) by simp
  have n: "obs ! j < n" "obs ! j \<in> set (ds ! j)" if "j < length ds" for j
    using that legal_binding_less [OF assms(2,3)] assms(3) by (simp_all add: legal_binding_def)
  have v: "edge_rank h i ob j ob' \<noteq> vertex_rank h k (obs ! k)" if "k < length ds" for k
    using rank_bounds(3) [OF assms(1) i assms(6)] vertex_rank_eq(3) [OF assms(1) that n(1) [OF that]] by (metis not_le)
  have e: "edge_rank h k (obs ! k) l (obs ! l) = edge_rank h i ob j ob' \<Longrightarrow> k = i \<and> obs ! k = ob \<and> l = j \<and> obs ! l = ob'"
    if "k < length ds" "l < length ds" for k l
    using edge_rank_inj [OF assms(1) that i assms(5) n(1) [OF that(1)] n(1) [OF that(2)] assms(6,7) n(2) [OF that(1)] n(2) [OF that(2)]] by blast
  show ?thesis
  proof
    assume "edge_rank h i ob j ob' \<in> ranks_of h (length ds) obs"
    then consider k where "k < length ds" "edge_rank h i ob j ob' = vertex_rank h k (obs ! k)"
      | k l where "k < length ds" "l < length ds" "edge_rank h i ob j ob' = edge_rank h k (obs ! k) l (obs ! l)"
      unfolding ranks_of_iff by (meson order.strict_trans)
    then show "obs ! i = ob \<and> obs ! j = ob'" by cases (use v e in metis)+
  qed (use assms(4,5) in \<open>auto simp: ranks_of_def\<close>)
qed

lemma ps_at_vertex_holds:
  assumes "set_holds ds n S facts" "i < length ds" "ob < n"
  shows "ps_at_vertex S i ob \<longleftrightarrow> (\<exists>obs \<in> facts. obs ! i = ob)"
proof -
  have S: "hash_of ds n (ps_hash S)" "domains_ok ds n" "\<And>obs. obs \<in> facts \<Longrightarrow> legal_binding ds obs" using assms(1) by (auto simp: set_holds_def)
  have "vertex_rank (ps_hash S) i ob < length (ps_bits S)" using rank_bounds(1) [OF S(1) assms(2,3)] assms(1) by (simp add: set_holds_def)
  then have "ps_at_vertex S i ob \<longleftrightarrow> (\<exists>obs \<in> facts. vertex_rank (ps_hash S) i ob \<in> ranks_of (ps_hash S) (length ds) obs)"
    using assms(1) by (simp add: set_holds_def ps_at_vertex_def)
  then show ?thesis using ranks_of_vertex [OF S(1,2) S(3) assms(2,3)] by blast
qed

lemma ps_at_edge_holds:
  assumes "set_holds ds n S facts" "i < j" "j < length ds" "ob < n" "ob' < n"
  shows "ps_at_edge S i ob j ob' \<longleftrightarrow> (\<exists>obs \<in> facts. obs ! i = ob \<and> obs ! j = ob')"
proof -
  have S: "hash_of ds n (ps_hash S)" "domains_ok ds n" "\<And>obs. obs \<in> facts \<Longrightarrow> legal_binding ds obs" using assms(1) by (auto simp: set_holds_def)
  have "edge_rank (ps_hash S) i ob j ob' < length (ps_bits S)"
    using rank_bounds(2) [OF S(1) _ assms(4,3,5)] assms(1-3) by (simp add: set_holds_def)
  then have "ps_at_edge S i ob j ob' \<longleftrightarrow> (\<exists>obs \<in> facts. edge_rank (ps_hash S) i ob j ob' \<in> ranks_of (ps_hash S) (length ds) obs)"
    using assms(1) by (simp add: set_holds_def ps_at_edge_def)
  then show ?thesis using ranks_of_edge [OF S(1,2) S(3) assms(2-5)] by blast
qed

section \<open>All predicates\<close>

definition schema_ok :: "(nat \<times> nat list list) list \<Rightarrow> nat \<Rightarrow> bool" where
  "schema_ok predicates n \<longleftrightarrow> (\<forall>(arity, ds) \<in> set predicates. arity = length ds \<and> domains_ok ds n)"

definition legal_atom :: "(nat \<times> nat list list) list \<Rightarrow> nat \<times> nat list \<Rightarrow> bool" where
  "legal_atom predicates a \<longleftrightarrow> fst a < length predicates \<and> legal_binding (snd (predicates ! fst a)) (snd a)"

definition sets_hold :: "(nat \<times> nat list list) list \<Rightarrow> nat \<Rightarrow> pred_sets \<Rightarrow> (nat \<times> nat list) set \<Rightarrow> bool" where
  "sets_hold predicates n Ss facts \<longleftrightarrow> length Ss = length predicates \<and> (\<forall>a \<in> facts. legal_atom predicates a)
     \<and> (\<forall>p < length predicates. set_holds (snd (predicates ! p)) n (Ss ! p) {obs. (p, obs) \<in> facts})"

lemma sets_hold_init:
  assumes "schema_ok predicates n"
  shows "sets_hold predicates n (pss_init predicates n) {}"
proof -
  have "set_holds (snd (predicates ! p)) n (pss_init predicates n ! p) {}" if p: "p < length predicates" for p
  proof -
    obtain arity ds where a: "predicates ! p = (arity, ds)" by force
    then have "arity = length ds" "domains_ok ds n" using assms nth_mem [OF p] by (auto simp: schema_ok_def)
    then show ?thesis using set_holds_init [of ds n] p a by (simp add: pss_init_def)
  qed
  then show ?thesis by (simp add: sets_hold_def pss_init_def)
qed

lemma sets_hold_reset: "sets_hold predicates n Ss facts \<Longrightarrow> sets_hold predicates n (pss_reset Ss) {}"
  using set_holds_reset by (fastforce simp: sets_hold_def pss_reset_def)

lemma sets_hold_insert:
  assumes "sets_hold predicates n Ss facts" "legal_atom predicates a"
  shows "sets_hold predicates n (pss_insert a Ss) (insert a facts)"
proof -
  obtain p obs where a: "a = (p, obs)" by force
  have "set_holds (snd (predicates ! q)) n (pss_insert a Ss ! q) {obs. (q, obs) \<in> insert a facts}" if q: "q < length predicates" for q
  proof (cases "q = p")
    case True
    have "{obs. (q, obs) \<in> insert a facts} = insert obs {obs. (q, obs) \<in> facts}" using True a by auto
    moreover have "pss_insert a Ss ! q = ps_insert obs (Ss ! q)" using True a q assms(1) by (simp add: pss_insert_def sets_hold_def)
    ultimately show ?thesis
      using set_holds_insert [of "snd (predicates ! q)" n "Ss ! q" "{obs. (q, obs) \<in> facts}" obs] assms True a q
      by (simp add: sets_hold_def legal_atom_def)
  next
    case False
    then have "{obs. (q, obs) \<in> insert a facts} = {obs. (q, obs) \<in> facts}" "pss_insert a Ss ! q = Ss ! q" using a by (auto simp: pss_insert_def)
    then show ?thesis using assms(1) q by (simp add: sets_hold_def)
  qed
  then show ?thesis using assms unfolding sets_hold_def by (auto simp: pss_insert_def a)
qed

lemma sets_hold_insert_all: "sets_hold predicates n Ss facts \<Longrightarrow> \<forall>a \<in> set as. legal_atom predicates a \<Longrightarrow>
    sets_hold predicates n (pss_insert_all as Ss) (facts \<union> set as)"
proof (induction as arbitrary: Ss facts)
  case (Cons a as)
  then have "sets_hold predicates n (pss_insert a Ss) (insert a facts)" using sets_hold_insert by simp
  then show ?case using Cons.IH [of "pss_insert a Ss" "insert a facts"] Cons.prems by (simp add: pss_insert_all_def)
qed (simp add: pss_insert_all_def)

text \<open>
  What a client of the assignment sets relies on: a test for a partial assignment answers whether some fact extends it.
\<close>

locale assignment_sets =
  fixes holds :: "'s \<Rightarrow> (nat \<times> nat list) set \<Rightarrow> bool"
    and arity :: "nat \<Rightarrow> nat"
    and num_predicates :: nat
    and num_objects :: nat
    and at_vertex :: "'s \<Rightarrow> nat \<Rightarrow> nat \<Rightarrow> nat \<Rightarrow> bool"
    and at_edge :: "'s \<Rightarrow> nat \<Rightarrow> nat \<Rightarrow> nat \<Rightarrow> nat \<Rightarrow> nat \<Rightarrow> bool"
  assumes vertex: "holds S facts \<Longrightarrow> p < num_predicates \<Longrightarrow> i < arity p \<Longrightarrow> ob < num_objects \<Longrightarrow>
      at_vertex S p i ob \<longleftrightarrow> (\<exists>obs. (p, obs) \<in> facts \<and> obs ! i = ob)"
    and edge: "holds S facts \<Longrightarrow> p < num_predicates \<Longrightarrow> i < j \<Longrightarrow> j < arity p \<Longrightarrow> ob < num_objects \<Longrightarrow> ob' < num_objects \<Longrightarrow>
      at_edge S p i ob j ob' \<longleftrightarrow> (\<exists>obs. (p, obs) \<in> facts \<and> obs ! i = ob \<and> obs ! j = ob')"
    and width: "holds S facts \<Longrightarrow> (p, obs) \<in> facts \<Longrightarrow> p < num_predicates \<and> length obs = arity p \<and> (\<forall>ob \<in> set obs. ob < num_objects)"
begin

text \<open>More facts only turn tests from false to true.\<close>

lemma vertex_mono: "holds S facts \<Longrightarrow> holds S' facts' \<Longrightarrow> facts \<subseteq> facts' \<Longrightarrow> p < num_predicates \<Longrightarrow> i < arity p \<Longrightarrow> ob < num_objects \<Longrightarrow>
    at_vertex S p i ob \<Longrightarrow> at_vertex S' p i ob"
  using vertex by (meson subsetD)

lemma edge_mono: "holds S facts \<Longrightarrow> holds S' facts' \<Longrightarrow> facts \<subseteq> facts' \<Longrightarrow> p < num_predicates \<Longrightarrow> i < j \<Longrightarrow> j < arity p \<Longrightarrow>
    ob < num_objects \<Longrightarrow> ob' < num_objects \<Longrightarrow> at_edge S p i ob j ob' \<Longrightarrow> at_edge S' p i ob j ob'"
  using edge by (meson subsetD)

text \<open>For predicates with one parameter, or two, the tests decide membership.\<close>

lemma vertex_exact:
  assumes "holds S facts" "p < num_predicates" "arity p = 1" "ob < num_objects"
  shows "at_vertex S p 0 ob \<longleftrightarrow> (p, [ob]) \<in> facts"
proof -
  have "obs = [ob] \<longleftrightarrow> obs ! 0 = ob" if "(p, obs) \<in> facts" for obs
    using width [OF assms(1) that] assms(3) by (cases obs) auto
  then show ?thesis using vertex [OF assms(1,2) _ assms(4), of 0] assms(3) by auto
qed

lemma edge_exact:
  assumes "holds S facts" "p < num_predicates" "arity p = 2" "ob < num_objects" "ob' < num_objects"
  shows "at_edge S p 0 ob 1 ob' \<longleftrightarrow> (p, [ob, ob']) \<in> facts"
proof -
  have "obs = [ob, ob'] \<longleftrightarrow> obs ! 0 = ob \<and> obs ! 1 = ob'" if "(p, obs) \<in> facts" for obs
    using width [OF assms(1) that] assms(3) by (auto simp: length_Suc_conv numeral_2_eq_2)
  then show ?thesis using edge [OF assms(1,2) _ _ assms(4,5), of 0 1] assms(3) by auto
qed

end

definition pss_at_vertex :: "pred_sets \<Rightarrow> nat \<Rightarrow> nat \<Rightarrow> nat \<Rightarrow> bool" where
  "pss_at_vertex Ss p i ob = ps_at_vertex (Ss ! p) i ob"

definition pss_at_edge :: "pred_sets \<Rightarrow> nat \<Rightarrow> nat \<Rightarrow> nat \<Rightarrow> nat \<Rightarrow> nat \<Rightarrow> bool" where
  "pss_at_edge Ss p i ob j ob' = ps_at_edge (Ss ! p) i ob j ob'"

interpretation pss: assignment_sets "sets_hold predicates n" "\<lambda>p. length (snd (predicates ! p))" "length predicates" n pss_at_vertex pss_at_edge
  for predicates n
proof
  fix Ss facts p i ob assume *: "sets_hold predicates n Ss facts" "p < length predicates" "i < length (snd (predicates ! p))" "ob < n"
  then have "set_holds (snd (predicates ! p)) n (Ss ! p) {obs. (p, obs) \<in> facts}" by (simp add: sets_hold_def)
  from ps_at_vertex_holds [OF this *(3,4)] show "pss_at_vertex Ss p i ob \<longleftrightarrow> (\<exists>obs. (p, obs) \<in> facts \<and> obs ! i = ob)"
    by (simp add: pss_at_vertex_def)
next
  fix Ss facts p i j ob ob' assume *: "sets_hold predicates n Ss facts" "p < length predicates" "i < j" "j < length (snd (predicates ! p))"
    "ob < n" "ob' < n"
  then have "set_holds (snd (predicates ! p)) n (Ss ! p) {obs. (p, obs) \<in> facts}" by (simp add: sets_hold_def)
  from ps_at_edge_holds [OF this *(3-6)] show "pss_at_edge Ss p i ob j ob' \<longleftrightarrow> (\<exists>obs. (p, obs) \<in> facts \<and> obs ! i = ob \<and> obs ! j = ob')"
    by (simp add: pss_at_edge_def)
next
  fix Ss facts p obs assume *: "sets_hold predicates n Ss facts" "(p, obs) \<in> facts"
  then have p: "p < length predicates" "legal_binding (snd (predicates ! p)) obs" "set_holds (snd (predicates ! p)) n (Ss ! p) {obs. (p, obs) \<in> facts}"
    by (auto simp: sets_hold_def legal_atom_def)
  have "obs ! i < n" if "i < length obs" for i
    using legal_binding_less [OF _ p(2), of n i] p(2,3) that by (simp add: set_holds_def legal_binding_def)
  then show "p < length predicates \<and> length obs = length (snd (predicates ! p)) \<and> (\<forall>ob \<in> set obs. ob < n)"
    using p(1,2) by (auto simp: legal_binding_def in_set_conv_nth)
qed

text \<open>
  C34. Built from an empty collection by inserting any sequence of legal bindings, the assignment sets answer for a position and an
  object whether some inserted binding of the predicate has the object there, and for two positions whether one
  binding has both objects; the hash gives no two assignments the same bit. A reset returns to the empty sets.
\<close>

theorem predicate_assignment_sets_correct:
  assumes "schema_ok predicates n" "\<forall>a \<in> set as. legal_atom predicates a" "p < length predicates" "i < length (snd (predicates ! p))" "ob < n"
  shows "pss_at_vertex (pss_insert_all as (pss_init predicates n)) p i ob = (\<exists>obs. (p, obs) \<in> set as \<and> obs ! i = ob)
    \<and> (i < j \<and> j < length (snd (predicates ! p)) \<and> ob' < n \<longrightarrow>
      pss_at_edge (pss_insert_all as (pss_init predicates n)) p i ob j ob' = (\<exists>obs. (p, obs) \<in> set as \<and> obs ! i = ob \<and> obs ! j = ob'))
    \<and> \<not> pss_at_vertex (pss_reset (pss_insert_all as (pss_init predicates n))) p i ob"
proof -
  have h: "sets_hold predicates n (pss_insert_all as (pss_init predicates n)) (set as)"
    using sets_hold_insert_all [OF sets_hold_init [OF assms(1)] assms(2)] by simp
  show ?thesis
    using pss.vertex [OF h assms(3-5)] pss.edge [OF h assms(3) _ _ assms(5)] pss.vertex [OF sets_hold_reset [OF h] assms(3-5)] by auto
qed

lemma predicate_assignment_sets_correct_witness:
  "pss_at_edge (pss_insert_all [(1, [2, 0]), (0, [1]), (1, [1, 0])] (pss_init [(1, [[1, 2]]), (2, [[2, 1], [0, 1]])] 3)) 1 0 1 1 0
   \<and> \<not> pss_at_vertex (pss_insert_all [(1, [2, 0]), (0, [1]), (1, [1, 0])] (pss_init [(1, [[1, 2]]), (2, [[2, 1], [0, 1]])] 3)) 0 0 2"
  using predicate_assignment_sets_correct [of "[(1, [[1, 2]]), (2, [[2, 1], [0, 1]])]" 3 "[(1, [2, 0]), (0, [1]), (1, [1, 0])]" 1 0 1 1 0]
    predicate_assignment_sets_correct [of "[(1, [[1, 2]]), (2, [[2, 1], [0, 1]])]" 3 "[(1, [2, 0]), (0, [1]), (1, [1, 0])]" 0 0 2]
  by (fastforce simp: schema_ok_def domains_ok_def legal_atom_def legal_binding_def less_Suc_eq numeral_2_eq_2)

end
