(* ===== verification/Rule_Literals.thy ===== *)
theory Rule_Literals
  imports Substitution Assignment_Sets
begin

text \<open>
  The literals of a rule in \<^verbatim>\<open>src/datalog/consistency_graph.cpp\<close>: the index that maps the parameters of a rule to the positions of
  its literals (\<^verbatim>\<open>compute_tagged_indexed_literals\<close>), and the tests whether an object for one parameter, or objects for two, are
  consistent with the literals (\<^verbatim>\<open>consistent_literals\<close>). The loops that return at the first failing test are conjunctions over
  their lists. \<open>collect_parameters\<close> returns a hash set; the order of its elements does not influence the index.
\<close>

section \<open>The index\<close>

record lifted_literal =
  ll_predicate :: nat
  ll_arity :: nat
  ll_polarity :: bool
  ll_terms :: "tterm list"

record literal_info =
  li_predicate :: nat
  li_polarity :: bool
  li_kpkc_arity :: nat
  li_num_parameters :: nat
  li_num_constants :: nat
  li_constant_positions :: "(nat \<times> nat) list"
  li_parameter_to_positions :: "nat list list"

record info_mappings =
  im_parameter_to_infos :: "nat list list"
  im_parameter_pairs_to_infos :: "nat list list list"
  im_parameter_to_infos_with_constants :: "nat list list"
  im_infos_with_constants :: "nat list"
  im_infos_with_constant_pairs :: "nat list"

record indexed_literals =
  il_infos :: "literal_info list"
  il_mappings :: info_mappings

definition kpkc_arity :: "lifted_literal \<Rightarrow> nat" where
  "kpkc_arity lit = ll_arity lit"

fun term_parameters :: "tterm list \<Rightarrow> nat list" where
  "term_parameters [] = []"
| "term_parameters (Param p # ts) = p # term_parameters ts"
| "term_parameters (Obj ob # ts) = term_parameters ts"

definition collect_parameters :: "lifted_literal \<Rightarrow> nat list" where
  "collect_parameters lit = remdups (term_parameters (ll_terms lit))"

definition parameter_arity :: "lifted_literal \<Rightarrow> nat" where
  "parameter_arity lit = length (collect_parameters lit)"

definition push_at :: "nat \<Rightarrow> 'a \<Rightarrow> 'a list list \<Rightarrow> 'a list list" where
  "push_at i x xss = xss[i := xss ! i @ [x]]"

definition info_term :: "nat \<times> tterm \<Rightarrow> literal_info \<Rightarrow> literal_info" where
  "info_term pt i = (case pt of
       (position, Param p) \<Rightarrow> i\<lparr>li_parameter_to_positions := push_at p position (li_parameter_to_positions i),
                               li_num_parameters := Suc (li_num_parameters i)\<rparr>
     | (position, Obj ob) \<Rightarrow> i\<lparr>li_constant_positions := li_constant_positions i @ [(position, ob)],
                             li_num_constants := Suc (li_num_constants i)\<rparr>)"

definition literal_info_of :: "nat \<Rightarrow> lifted_literal \<Rightarrow> literal_info" where
  "literal_info_of arity lit = fold info_term (enumerate 0 (ll_terms lit))
     \<lparr>li_predicate = ll_predicate lit, li_polarity = ll_polarity lit, li_kpkc_arity = kpkc_arity lit, li_num_parameters = 0,
      li_num_constants = 0, li_constant_positions = [], li_parameter_to_positions = replicate arity []\<rparr>"

text \<open>The pairs of parameters, in increasing order, to which a literal is added.\<close>

definition map_parameter :: "nat \<Rightarrow> nat list \<Rightarrow> nat \<Rightarrow> info_mappings \<Rightarrow> info_mappings" where
  "map_parameter index ps p m =
     fold (\<lambda>q m. if p \<ge> q then m
         else m\<lparr>im_parameter_pairs_to_infos := (im_parameter_pairs_to_infos m)[p := push_at q index (im_parameter_pairs_to_infos m ! p)]\<rparr>)
       ps (m\<lparr>im_parameter_to_infos := push_at p index (im_parameter_to_infos m)\<rparr>)"

definition map_constants :: "nat \<Rightarrow> nat \<Rightarrow> literal_info \<Rightarrow> info_mappings \<Rightarrow> info_mappings" where
  "map_constants arity index i m =
     (if li_num_constants i > 0 then
        let m = m\<lparr>im_infos_with_constants := im_infos_with_constants m @ [index]\<rparr>;
            m = (if li_num_constants i > 1 then m\<lparr>im_infos_with_constant_pairs := im_infos_with_constant_pairs m @ [index]\<rparr> else m)
        in if li_num_parameters i > 0 then
             fold (\<lambda>p m. if li_parameter_to_positions i ! p \<noteq> []
                 then m\<lparr>im_parameter_to_infos_with_constants := push_at p index (im_parameter_to_infos_with_constants m)\<rparr> else m)
               [0..<arity] m
           else m
      else m)"

definition index_literal :: "nat \<Rightarrow> lifted_literal \<Rightarrow> indexed_literals \<Rightarrow> indexed_literals" where
  "index_literal arity lit il =
     (let i = literal_info_of arity lit; ps = collect_parameters lit; index = length (il_infos il);
          m = fold (map_parameter index ps) ps (il_mappings il)
      in il\<lparr>il_infos := il_infos il @ [i], il_mappings := map_constants arity index i m\<rparr>)"

definition index_literals :: "nat \<Rightarrow> lifted_literal list \<Rightarrow> indexed_literals" where
  "index_literals arity lits = fold (index_literal arity) lits
     \<lparr>il_infos = [], il_mappings = \<lparr>im_parameter_to_infos = replicate arity [], im_parameter_pairs_to_infos = replicate arity (replicate arity []),
        im_parameter_to_infos_with_constants = replicate arity [], im_infos_with_constants = [], im_infos_with_constant_pairs = []\<rparr>\<rparr>"

section \<open>Tests\<close>

text \<open>The test for two positions, with the positions put in order.\<close>

definition at_ordered :: "pred_sets \<Rightarrow> nat \<Rightarrow> nat \<Rightarrow> nat \<Rightarrow> nat \<Rightarrow> nat \<Rightarrow> bool" where
  "at_ordered Ss p i ob j ob' = (if i > j then pss_at_edge Ss p j ob' i ob else pss_at_edge Ss p i ob j ob')"

definition constants_consistent :: "pred_sets \<Rightarrow> literal_info \<Rightarrow> nat \<Rightarrow> nat \<Rightarrow> bool" where
  "constants_consistent Ss i position ob =
     list_all (\<lambda>(pos_c, obj_c). li_polarity i = at_ordered Ss (li_predicate i) position ob pos_c obj_c) (li_constant_positions i)"

definition vertex_literal :: "pred_sets \<Rightarrow> literal_info \<Rightarrow> nat \<Rightarrow> nat \<Rightarrow> bool" where
  "vertex_literal Ss i p ob =
     (list_all (\<lambda>position. li_polarity i = pss_at_vertex Ss (li_predicate i) position ob \<and> constants_consistent Ss i position ob)
        (li_parameter_to_positions i ! p)
      \<and> (li_num_constants i \<ge> 1 \<longrightarrow>
           list_all (\<lambda>(pos_c, obj_c). li_polarity i = pss_at_vertex Ss (li_predicate i) pos_c obj_c) (li_constant_positions i)))"

definition consistent_vertex :: "pred_sets \<Rightarrow> indexed_literals \<Rightarrow> nat \<times> nat \<Rightarrow> bool" where
  "consistent_vertex Ss il v = list_all (\<lambda>lit. vertex_literal Ss (il_infos il ! lit) (fst v) (snd v)) (im_parameter_to_infos (il_mappings il) ! fst v)"

definition consistent_edge :: "pred_sets \<Rightarrow> indexed_literals \<Rightarrow> nat \<times> nat \<Rightarrow> nat \<times> nat \<Rightarrow> bool" where
  "consistent_edge Ss il vi vj =
     (let (p, obj_p, q, obj_q) = (if fst vi > fst vj then (fst vj, snd vj, fst vi, snd vi) else (fst vi, snd vi, fst vj, snd vj))
      in list_all (\<lambda>lit. let i = il_infos il ! lit in
             list_all (\<lambda>pos_p. list_all (\<lambda>pos_q. li_polarity i = at_ordered Ss (li_predicate i) pos_p obj_p pos_q obj_q)
               (li_parameter_to_positions i ! q)) (li_parameter_to_positions i ! p))
           (im_parameter_pairs_to_infos (il_mappings il) ! p ! q)
       \<and> list_all (\<lambda>lit. let i = il_infos il ! lit in
             list_all (\<lambda>pos_p. constants_consistent Ss i pos_p obj_p) (li_parameter_to_positions i ! p))
           (im_parameter_to_infos_with_constants (il_mappings il) ! p)
       \<and> list_all (\<lambda>lit. let i = il_infos il ! lit in
             list_all (\<lambda>pos_q. constants_consistent Ss i pos_q obj_q) (li_parameter_to_positions i ! q))
           (im_parameter_to_infos_with_constants (il_mappings il) ! q))"

section \<open>What the index holds\<close>

definition literal_ok :: "nat \<Rightarrow> nat list \<Rightarrow> nat \<Rightarrow> lifted_literal \<Rightarrow> bool" where
  "literal_ok arity arities n lit \<longleftrightarrow> ll_predicate lit < length arities \<and> ll_arity lit = arities ! ll_predicate lit \<and> length (ll_terms lit) = ll_arity lit
     \<and> (\<forall>p. Param p \<in> set (ll_terms lit) \<longrightarrow> p < arity) \<and> (\<forall>ob. Obj ob \<in> set (ll_terms lit) \<longrightarrow> ob < n)"

lemma set_term_parameters: "p \<in> set (term_parameters ts) \<longleftrightarrow> Param p \<in> set ts"
  by (induction ts rule: term_parameters.induct) auto

lemma set_collect_parameters [simp]: "set (collect_parameters lit) = {p. Param p \<in> set (ll_terms lit)}"
  by (auto simp: collect_parameters_def set_term_parameters)

lemma distinct_collect_parameters [simp]: "distinct (collect_parameters lit)"
  by (simp add: collect_parameters_def)

lemma push_at_simps [simp]: "length (push_at i x xss) = length xss"
  "i < length xss \<Longrightarrow> push_at i x xss ! j = (if i = j then xss ! j @ [x] else xss ! j)"
  by (auto simp: push_at_def)

text \<open>The positions of a parameter, and the positions of objects.\<close>

definition positions_of :: "nat \<Rightarrow> tterm list \<Rightarrow> nat \<Rightarrow> nat list" where
  "positions_of k ts p = map fst (filter (\<lambda>x. snd x = Param p) (enumerate k ts))"

fun constants_of :: "nat \<Rightarrow> tterm list \<Rightarrow> (nat \<times> nat) list" where
  "constants_of k [] = []"
| "constants_of k (Param p # ts) = constants_of (Suc k) ts"
| "constants_of k (Obj ob # ts) = (k, ob) # constants_of (Suc k) ts"

lemma positions_of_simps [simp]: "positions_of k [] p = []"
  "positions_of k (t # ts) p = (if t = Param p then k # positions_of (Suc k) ts p else positions_of (Suc k) ts p)"
  by (simp_all add: positions_of_def)

lemma info_term_simps:
  "info_term (k, Param p) i = i\<lparr>li_parameter_to_positions := push_at p k (li_parameter_to_positions i), li_num_parameters := Suc (li_num_parameters i)\<rparr>"
  "info_term (k, Obj ob) i = i\<lparr>li_constant_positions := li_constant_positions i @ [(k, ob)], li_num_constants := Suc (li_num_constants i)\<rparr>"
  by (simp_all add: info_term_def)

lemma fold_info_term:
  assumes "\<forall>p. Param p \<in> set ts \<longrightarrow> p < length (li_parameter_to_positions i)"
  shows "let i' = fold info_term (enumerate k ts) i in
    li_predicate i' = li_predicate i \<and> li_polarity i' = li_polarity i \<and> li_kpkc_arity i' = li_kpkc_arity i
    \<and> li_num_parameters i' = li_num_parameters i + length (term_parameters ts) \<and> li_num_constants i' = li_num_constants i + length (constants_of k ts)
    \<and> li_constant_positions i' = li_constant_positions i @ constants_of k ts \<and> length (li_parameter_to_positions i') = length (li_parameter_to_positions i)
    \<and> (\<forall>p < length (li_parameter_to_positions i). li_parameter_to_positions i' ! p = li_parameter_to_positions i ! p @ positions_of k ts p)"
  using assms
proof (induction ts arbitrary: k i)
  case (Cons t ts)
  have len: "length (li_parameter_to_positions (info_term (k, t) i)) = length (li_parameter_to_positions i)"
    by (cases t) (simp_all add: info_term_simps)
  have "\<forall>p. Param p \<in> set ts \<longrightarrow> p < length (li_parameter_to_positions (info_term (k, t) i))"
    using Cons.prems len by simp
  note IH = Cons.IH [OF this, of "Suc k", unfolded Let_def len]
  show ?case
    unfolding Let_def using IH Cons.prems by (cases t) (simp_all add: info_term_simps)
qed simp

lemma literal_info_of_spec:
  assumes "literal_ok arity arities n lit"
  shows "li_predicate (literal_info_of arity lit) = ll_predicate lit" "li_polarity (literal_info_of arity lit) = ll_polarity lit"
    "li_num_parameters (literal_info_of arity lit) = length (term_parameters (ll_terms lit))"
    "li_num_constants (literal_info_of arity lit) = length (li_constant_positions (literal_info_of arity lit))"
    "li_constant_positions (literal_info_of arity lit) = constants_of 0 (ll_terms lit)"
    "p < arity \<Longrightarrow> li_parameter_to_positions (literal_info_of arity lit) ! p = positions_of 0 (ll_terms lit) p"
proof -
  let ?i = "\<lparr>li_predicate = ll_predicate lit, li_polarity = ll_polarity lit, li_kpkc_arity = kpkc_arity lit, li_num_parameters = 0,
      li_num_constants = 0, li_constant_positions = [], li_parameter_to_positions = replicate arity []\<rparr>"
  have "\<forall>p. Param p \<in> set (ll_terms lit) \<longrightarrow> p < length (li_parameter_to_positions ?i)"
    using assms by (simp add: literal_ok_def)
  note F = fold_info_term [OF this, of 0, unfolded Let_def, folded literal_info_of_def]
  show "li_predicate (literal_info_of arity lit) = ll_predicate lit" "li_polarity (literal_info_of arity lit) = ll_polarity lit"
    "li_num_parameters (literal_info_of arity lit) = length (term_parameters (ll_terms lit))"
    "li_num_constants (literal_info_of arity lit) = length (li_constant_positions (literal_info_of arity lit))"
    "li_constant_positions (literal_info_of arity lit) = constants_of 0 (ll_terms lit)"
    "p < arity \<Longrightarrow> li_parameter_to_positions (literal_info_of arity lit) ! p = positions_of 0 (ll_terms lit) p"
    using F by simp_all
qed

lemma mem_positions_of_from: "i \<in> set (positions_of k ts p) \<longleftrightarrow> k \<le> i \<and> i < k + length ts \<and> ts ! (i - k) = Param p"
proof (induction ts arbitrary: k)
  case (Cons t ts)
  then show ?case by (cases "i = k") (auto simp: nth_Cons' Suc_diff_le Suc_le_eq)
qed simp

lemma mem_positions_of: "i \<in> set (positions_of 0 ts p) \<longleftrightarrow> i < length ts \<and> ts ! i = Param p"
  by (simp add: mem_positions_of_from)

lemma mem_constants_of: "(i, ob) \<in> set (constants_of k ts) \<longleftrightarrow> k \<le> i \<and> i < k + length ts \<and> ts ! (i - k) = Obj ob"
proof (induction k ts rule: constants_of.induct)
  case (2 k p ts)
  then show ?case by (cases "i = k") (auto simp: nth_Cons' Suc_diff_le Suc_le_eq)
next
  case (3 k ob' ts)
  then show ?case by (cases "i = k") (auto simp: nth_Cons' Suc_diff_le Suc_le_eq)
qed auto


lemma positions_of_empty: "positions_of k ts p = [] \<longleftrightarrow> Param p \<notin> set ts"
  by (induction ts arbitrary: k) auto

lemma term_parameters_empty: "term_parameters ts = [] \<longleftrightarrow> (\<forall>p. Param p \<notin> set ts)"
  using set_term_parameters [of _ ts] by (metis list.set_intros(1) neq_Nil_conv empty_iff list.set(1))

text \<open>The mappings for the literals \<open>lits\<close>, as sets.\<close>

definition mappings_hold :: "nat \<Rightarrow> lifted_literal list \<Rightarrow> info_mappings \<Rightarrow> bool" where
  "mappings_hold arity lits m \<longleftrightarrow> length (im_parameter_to_infos m) = arity \<and> length (im_parameter_pairs_to_infos m) = arity
     \<and> (\<forall>p < arity. length (im_parameter_pairs_to_infos m ! p) = arity) \<and> length (im_parameter_to_infos_with_constants m) = arity
     \<and> (\<forall>p < arity. set (im_parameter_to_infos m ! p) = {l. l < length lits \<and> Param p \<in> set (ll_terms (lits ! l))})
     \<and> (\<forall>p < arity. \<forall>q < arity. set (im_parameter_pairs_to_infos m ! p ! q) =
          {l. l < length lits \<and> p < q \<and> Param p \<in> set (ll_terms (lits ! l)) \<and> Param q \<in> set (ll_terms (lits ! l))})
     \<and> (\<forall>p < arity. set (im_parameter_to_infos_with_constants m ! p) =
          {l. l < length lits \<and> Param p \<in> set (ll_terms (lits ! l)) \<and> constants_of 0 (ll_terms (lits ! l)) \<noteq> []})"

lemma fold_pairs:
  assumes "\<forall>q \<in> set qs. q < arity" "p < length (im_parameter_pairs_to_infos m)" "length (im_parameter_pairs_to_infos m ! p) = arity"
  shows "\<exists>pairs. fold (\<lambda>q m. if p \<ge> q then m
         else m\<lparr>im_parameter_pairs_to_infos := (im_parameter_pairs_to_infos m)[p := push_at q index (im_parameter_pairs_to_infos m ! p)]\<rparr>) qs m
       = m\<lparr>im_parameter_pairs_to_infos := (im_parameter_pairs_to_infos m)[p := pairs]\<rparr> \<and> length pairs = arity
       \<and> (\<forall>q < arity. set (pairs ! q) = set (im_parameter_pairs_to_infos m ! p ! q) \<union> (if p < q \<and> q \<in> set qs then {index} else {}))"
  using assms
proof (induction qs arbitrary: m)
  case Nil
  then show ?case by (intro exI [of _ "im_parameter_pairs_to_infos m ! p"]) simp
next
  case (Cons q qs)
  define m' where "m' = (if p \<ge> q then m
    else m\<lparr>im_parameter_pairs_to_infos := (im_parameter_pairs_to_infos m)[p := push_at q index (im_parameter_pairs_to_infos m ! p)]\<rparr>)"
  have m': "p < length (im_parameter_pairs_to_infos m')" "length (im_parameter_pairs_to_infos m' ! p) = arity"
    "im_parameter_pairs_to_infos m' ! p = (if p \<ge> q then im_parameter_pairs_to_infos m ! p else push_at q index (im_parameter_pairs_to_infos m ! p))"
    "m'\<lparr>im_parameter_pairs_to_infos := (im_parameter_pairs_to_infos m')[p := x]\<rparr> = m\<lparr>im_parameter_pairs_to_infos := (im_parameter_pairs_to_infos m)[p := x]\<rparr>" for x
    using Cons.prems(2,3) by (auto simp: m'_def)
  obtain pairs where r: "fold (\<lambda>q m. if p \<ge> q then m
         else m\<lparr>im_parameter_pairs_to_infos := (im_parameter_pairs_to_infos m)[p := push_at q index (im_parameter_pairs_to_infos m ! p)]\<rparr>) qs m'
       = m'\<lparr>im_parameter_pairs_to_infos := (im_parameter_pairs_to_infos m')[p := pairs]\<rparr>" "length pairs = arity"
    "\<forall>q < arity. set (pairs ! q) = set (im_parameter_pairs_to_infos m' ! p ! q) \<union> (if p < q \<and> q \<in> set qs then {index} else {})"
    using Cons.IH [of m'] Cons.prems(1) m'(1,2) by auto
  have "set (pairs ! q') = set (im_parameter_pairs_to_infos m ! p ! q') \<union> (if p < q' \<and> q' \<in> set (q # qs) then {index} else {})" if "q' < arity" for q'
    using r(3) that Cons.prems(1,3) m'(3) by auto
  then show ?case using r(1,2) m'(4) by (intro exI [of _ pairs]) (simp add: m'_def)
qed

text \<open>The loop over the parameters of one literal: \<open>mapped\<close> parameters have their entries.\<close>

definition params_mapped :: "nat \<Rightarrow> nat \<Rightarrow> nat list \<Rightarrow> nat set \<Rightarrow> info_mappings \<Rightarrow> info_mappings \<Rightarrow> bool" where
  "params_mapped arity index ps mapped m0 m \<longleftrightarrow> length (im_parameter_to_infos m) = arity \<and> length (im_parameter_pairs_to_infos m) = arity
     \<and> (\<forall>p < arity. length (im_parameter_pairs_to_infos m ! p) = arity)
     \<and> im_parameter_to_infos_with_constants m = im_parameter_to_infos_with_constants m0
     \<and> (\<forall>p < arity. set (im_parameter_to_infos m ! p) = set (im_parameter_to_infos m0 ! p) \<union> (if p \<in> mapped then {index} else {}))
     \<and> (\<forall>p < arity. \<forall>q < arity. set (im_parameter_pairs_to_infos m ! p ! q) = set (im_parameter_pairs_to_infos m0 ! p ! q)
          \<union> (if p \<in> mapped \<and> p < q \<and> q \<in> set ps then {index} else {}))"

lemma params_mapped_step:
  assumes "params_mapped arity index ps mapped m0 m" "p < arity" "\<forall>q \<in> set ps. q < arity"
  shows "params_mapped arity index ps (insert p mapped) m0 (map_parameter index ps p m)"
proof -
  let ?m = "m\<lparr>im_parameter_to_infos := push_at p index (im_parameter_to_infos m)\<rparr>"
  have len: "p < length (im_parameter_pairs_to_infos ?m)" "length (im_parameter_pairs_to_infos ?m ! p) = arity"
    using assms(1,2) by (simp_all add: params_mapped_def)
  obtain pairs where r: "map_parameter index ps p m = ?m\<lparr>im_parameter_pairs_to_infos := (im_parameter_pairs_to_infos ?m)[p := pairs]\<rparr>"
    "length pairs = arity" "\<forall>q < arity. set (pairs ! q) = set (im_parameter_pairs_to_infos ?m ! p ! q) \<union> (if p < q \<and> q \<in> set ps then {index} else {})"
    using fold_pairs [OF assms(3) len, of index] unfolding map_parameter_def by blast
  have "set (im_parameter_to_infos ?m ! p') = set (im_parameter_to_infos m0 ! p') \<union> (if p' \<in> insert p mapped then {index} else {})" if "p' < arity" for p'
    using assms(1,2) that by (auto simp: params_mapped_def)
  moreover have "set ((im_parameter_pairs_to_infos m)[p := pairs] ! p' ! q) = set (im_parameter_pairs_to_infos m0 ! p' ! q)
      \<union> (if p' \<in> insert p mapped \<and> p' < q \<and> q \<in> set ps then {index} else {})" if "p' < arity" "q < arity" for p' q
    using assms(1,2) r(3) that by (cases "p' = p") (auto simp: params_mapped_def)
  moreover have "length ((im_parameter_pairs_to_infos m)[p := pairs] ! p') = arity" if "p' < arity" for p'
    using assms(1,2) r(2) that by (cases "p' = p") (auto simp: params_mapped_def)
  ultimately show ?thesis using assms(1) unfolding r(1) by (simp add: params_mapped_def)
qed

lemma params_mapped_fold:
  assumes "params_mapped arity index ps mapped m0 m" "\<forall>p \<in> set qs. p < arity" "\<forall>q \<in> set ps. q < arity"
  shows "params_mapped arity index ps (mapped \<union> set qs) m0 (fold (map_parameter index ps) qs m)"
  using assms
proof (induction qs arbitrary: m mapped)
  case (Cons q qs)
  then show ?case using Cons.IH [OF params_mapped_step [OF Cons.prems(1) _ assms(3), of q]] by simp
qed simp

lemma fold_with_constants:
  assumes "\<forall>p \<in> set ps. p < length (im_parameter_to_infos_with_constants m)" "distinct ps"
  shows "\<exists>cs. fold (\<lambda>p m. if P p then m\<lparr>im_parameter_to_infos_with_constants := push_at p index (im_parameter_to_infos_with_constants m)\<rparr> else m) ps m
      = m\<lparr>im_parameter_to_infos_with_constants := cs\<rparr> \<and> length cs = length (im_parameter_to_infos_with_constants m)
    \<and> (\<forall>p < length cs. set (cs ! p) = set (im_parameter_to_infos_with_constants m ! p) \<union> (if p \<in> set ps \<and> P p then {index} else {}))"
  using assms
proof (induction ps arbitrary: m)
  case Nil
  then show ?case by (intro exI [of _ "im_parameter_to_infos_with_constants m"]) simp
next
  case (Cons q ps)
  define m' where "m' = (if P q then m\<lparr>im_parameter_to_infos_with_constants := push_at q index (im_parameter_to_infos_with_constants m)\<rparr> else m)"
  have m': "length (im_parameter_to_infos_with_constants m') = length (im_parameter_to_infos_with_constants m)"
    "m'\<lparr>im_parameter_to_infos_with_constants := x\<rparr> = m\<lparr>im_parameter_to_infos_with_constants := x\<rparr>"
    "p < length (im_parameter_to_infos_with_constants m) \<Longrightarrow> set (im_parameter_to_infos_with_constants m' ! p) =
      set (im_parameter_to_infos_with_constants m ! p) \<union> (if p = q \<and> P q then {index} else {})" for x p
    using Cons.prems(1) by (auto simp: m'_def)
  obtain cs where r: "fold (\<lambda>p m. if P p then m\<lparr>im_parameter_to_infos_with_constants := push_at p index (im_parameter_to_infos_with_constants m)\<rparr> else m) ps m'
      = m'\<lparr>im_parameter_to_infos_with_constants := cs\<rparr>" "length cs = length (im_parameter_to_infos_with_constants m')"
    "\<forall>p < length cs. set (cs ! p) = set (im_parameter_to_infos_with_constants m' ! p) \<union> (if p \<in> set ps \<and> P p then {index} else {})"
    using Cons.IH [of m'] Cons.prems m'(1) by auto
  then show ?case using m' Cons.prems(2) by (intro exI [of _ cs]) (auto simp: m'_def)
qed

lemma map_constants_spec:
  assumes "length (im_parameter_to_infos_with_constants m) = arity"
  shows "\<exists>cs xs ys. map_constants arity index i m = m\<lparr>im_parameter_to_infos_with_constants := cs, im_infos_with_constants := xs, im_infos_with_constant_pairs := ys\<rparr>
    \<and> length cs = arity \<and> (\<forall>p < arity. set (cs ! p) = set (im_parameter_to_infos_with_constants m ! p)
      \<union> (if 0 < li_num_constants i \<and> 0 < li_num_parameters i \<and> li_parameter_to_positions i ! p \<noteq> [] then {index} else {}))"
proof (cases "0 < li_num_constants i \<and> 0 < li_num_parameters i")
  case True
  define m' where "m' = (let m = m\<lparr>im_infos_with_constants := im_infos_with_constants m @ [index]\<rparr>
    in if li_num_constants i > 1 then m\<lparr>im_infos_with_constant_pairs := im_infos_with_constant_pairs m @ [index]\<rparr> else m)"
  have m': "im_parameter_to_infos_with_constants m' = im_parameter_to_infos_with_constants m" by (simp add: m'_def Let_def)
  have ex: "\<exists>xs ys. m' = m\<lparr>im_infos_with_constants := xs, im_infos_with_constant_pairs := ys\<rparr>"
  proof (cases "1 < li_num_constants i")
    case True
    then show ?thesis
      by (intro exI [of _ "im_infos_with_constants m @ [index]"] exI [of _ "im_infos_with_constant_pairs m @ [index]"]) (simp add: m'_def)
  next
    case False
    then show ?thesis
      by (intro exI [of _ "im_infos_with_constants m @ [index]"] exI [of _ "im_infos_with_constant_pairs m"]) (simp add: m'_def)
  qed
  obtain xs ys where xy: "m' = m\<lparr>im_infos_with_constants := xs, im_infos_with_constant_pairs := ys\<rparr>" using ex by blast
  have lt: "\<forall>p \<in> set [0..<arity]. p < length (im_parameter_to_infos_with_constants m')" using m' assms by simp
  obtain cs where cs: "fold (\<lambda>p m. if li_parameter_to_positions i ! p \<noteq> []
       then m\<lparr>im_parameter_to_infos_with_constants := push_at p index (im_parameter_to_infos_with_constants m)\<rparr> else m) [0..<arity] m'
      = m'\<lparr>im_parameter_to_infos_with_constants := cs\<rparr>" "length cs = length (im_parameter_to_infos_with_constants m')"
    "\<forall>p < length cs. set (cs ! p) = set (im_parameter_to_infos_with_constants m' ! p) \<union> (if p \<in> set [0..<arity] \<and> li_parameter_to_positions i ! p \<noteq> [] then {index} else {})"
    using fold_with_constants [OF lt, of "\<lambda>p. li_parameter_to_positions i ! p \<noteq> []" index] by auto
  have "map_constants arity index i m = m'\<lparr>im_parameter_to_infos_with_constants := cs\<rparr>"
    using True cs(1) by (simp add: map_constants_def m'_def Let_def)
  then have "map_constants arity index i m = m\<lparr>im_parameter_to_infos_with_constants := cs, im_infos_with_constants := xs, im_infos_with_constant_pairs := ys\<rparr>"
    using xy by simp
  then show ?thesis using cs(2,3) m' assms True by (rule_tac x = cs in exI, rule_tac x = xs in exI, rule_tac x = ys in exI) simp
next
  case False
  have "\<exists>xs ys. map_constants arity index i m = m\<lparr>im_infos_with_constants := xs, im_infos_with_constant_pairs := ys\<rparr>"
  proof -
    consider "li_num_constants i = 0" | "li_num_constants i = 1" | "1 < li_num_constants i" by linarith
    then show ?thesis
    proof cases
      case 1
      then show ?thesis by (intro exI [of _ "im_infos_with_constants m"] exI [of _ "im_infos_with_constant_pairs m"]) (simp add: map_constants_def)
    next
      case 2
      then show ?thesis using False
        by (intro exI [of _ "im_infos_with_constants m @ [index]"] exI [of _ "im_infos_with_constant_pairs m"]) (simp add: map_constants_def Let_def)
    next
      case 3
      then show ?thesis using False
        by (intro exI [of _ "im_infos_with_constants m @ [index]"] exI [of _ "im_infos_with_constant_pairs m @ [index]"]) (simp add: map_constants_def Let_def)
    qed
  qed
  then obtain xs ys where e: "map_constants arity index i m = m\<lparr>im_infos_with_constants := xs, im_infos_with_constant_pairs := ys\<rparr>" by blast
  then have "map_constants arity index i m
      = m\<lparr>im_parameter_to_infos_with_constants := im_parameter_to_infos_with_constants m, im_infos_with_constants := xs, im_infos_with_constant_pairs := ys\<rparr>"
    by simp
  then show ?thesis using False assms
    by (rule_tac x = "im_parameter_to_infos_with_constants m" in exI, rule_tac x = xs in exI, rule_tac x = ys in exI) auto
qed

lemma literal_terms_index:
  assumes "literal_ok arity arities n lit" "p < arity"
  shows "0 < li_num_constants (literal_info_of arity lit) \<and> 0 < li_num_parameters (literal_info_of arity lit)
      \<and> li_parameter_to_positions (literal_info_of arity lit) ! p \<noteq> []
    \<longleftrightarrow> Param p \<in> set (ll_terms lit) \<and> constants_of 0 (ll_terms lit) \<noteq> []"
  using assms(2) by (auto simp: literal_info_of_spec [OF assms(1)] positions_of_empty term_parameters_empty)

lemma mappings_hold_step:
  assumes "mappings_hold arity lits (il_mappings il)" "il_infos il = map (literal_info_of arity) lits" "literal_ok arity arities n lit"
  shows "mappings_hold arity (lits @ [lit]) (il_mappings (index_literal arity lit il)) \<and> il_infos (index_literal arity lit il) = map (literal_info_of arity) (lits @ [lit])"
proof -
  let ?ps = "collect_parameters lit" and ?n = "length lits" and ?m0 = "il_mappings il"
  define m where "m = fold (map_parameter ?n ?ps) ?ps ?m0"
  have ps: "\<forall>p \<in> set ?ps. p < arity" using assms(3) by (simp add: literal_ok_def)
  have "params_mapped arity ?n ?ps {} ?m0 ?m0" using assms(1) by (simp add: params_mapped_def mappings_hold_def)
  from params_mapped_fold [OF this ps ps] have m: "params_mapped arity ?n ?ps (set ?ps) ?m0 m" by (simp add: m_def)
  have len: "length (im_parameter_to_infos_with_constants m) = arity" using m assms(1) by (simp add: params_mapped_def mappings_hold_def)
  obtain cs xs ys where c: "map_constants arity ?n (literal_info_of arity lit) m
      = m\<lparr>im_parameter_to_infos_with_constants := cs, im_infos_with_constants := xs, im_infos_with_constant_pairs := ys\<rparr>" "length cs = arity"
    "\<And>p. p < arity \<Longrightarrow> set (cs ! p) = set (im_parameter_to_infos_with_constants m ! p)
      \<union> (if Param p \<in> set (ll_terms lit) \<and> constants_of 0 (ll_terms lit) \<noteq> [] then {?n} else {})"
    using map_constants_spec [OF len, of ?n "literal_info_of arity lit"] literal_terms_index [OF assms(3)] by auto
  have il: "il_mappings (index_literal arity lit il) = m\<lparr>im_parameter_to_infos_with_constants := cs, im_infos_with_constants := xs, im_infos_with_constant_pairs := ys\<rparr>"
    "il_infos (index_literal arity lit il) = map (literal_info_of arity) (lits @ [lit])"
    using assms(2) c(1) by (simp_all add: index_literal_def Let_def m_def)
  have nth: "{l. l < Suc ?n \<and> P ((lits @ [lit]) ! l)} = {l. l < ?n \<and> P (lits ! l)} \<union> (if P lit then {?n} else {})" for P
    by (auto simp: nth_append less_Suc_eq)
  let ?m = "m\<lparr>im_parameter_to_infos_with_constants := cs, im_infos_with_constants := xs, im_infos_with_constant_pairs := ys\<rparr>"
  have 1: "set (im_parameter_to_infos ?m ! p) = {l. l < Suc ?n \<and> Param p \<in> set (ll_terms ((lits @ [lit]) ! l))}" if "p < arity" for p
    using m assms(1) that unfolding nth [of "\<lambda>x. Param p \<in> set (ll_terms x)"] by (simp add: params_mapped_def mappings_hold_def)
  have 2: "set (im_parameter_pairs_to_infos ?m ! p ! q) = {l. l < Suc ?n \<and> p < q \<and> Param p \<in> set (ll_terms ((lits @ [lit]) ! l)) \<and> Param q \<in> set (ll_terms ((lits @ [lit]) ! l))}"
    if "p < arity" "q < arity" for p q
    using m assms(1) that unfolding nth [of "\<lambda>x. p < q \<and> Param p \<in> set (ll_terms x) \<and> Param q \<in> set (ll_terms x)"]
    by (auto simp: params_mapped_def mappings_hold_def)
  have 3: "set (im_parameter_to_infos_with_constants ?m ! p) = {l. l < Suc ?n \<and> Param p \<in> set (ll_terms ((lits @ [lit]) ! l)) \<and> constants_of 0 (ll_terms ((lits @ [lit]) ! l)) \<noteq> []}"
    if "p < arity" for p
    using m assms(1) that c(3) [OF that] unfolding nth [of "\<lambda>x. Param p \<in> set (ll_terms x) \<and> constants_of 0 (ll_terms x) \<noteq> []"]
    by (simp add: params_mapped_def mappings_hold_def)
  have 4: "length (im_parameter_to_infos ?m) = arity" "length (im_parameter_pairs_to_infos ?m) = arity" "\<forall>p < arity. length (im_parameter_pairs_to_infos ?m ! p) = arity"
    "length (im_parameter_to_infos_with_constants ?m) = arity"
    using m c(2) by (simp_all add: params_mapped_def)
  show ?thesis
    unfolding mappings_hold_def il(1) length_append_singleton using 1 2 3 4 il(2) by blast
qed

lemma index_literals_spec:
  assumes "\<forall>lit \<in> set lits. literal_ok arity arities n lit"
  shows "mappings_hold arity lits (il_mappings (index_literals arity lits))" "il_infos (index_literals arity lits) = map (literal_info_of arity) lits"
proof -
  have "mappings_hold arity (before @ lits) (il_mappings (fold (index_literal arity) lits il)) \<and> il_infos (fold (index_literal arity) lits il) = map (literal_info_of arity) (before @ lits)"
    if "mappings_hold arity before (il_mappings il)" "il_infos il = map (literal_info_of arity) before" for il before
    using assms that
  proof (induction lits arbitrary: il before)
    case (Cons lit lits)
    have "mappings_hold arity (before @ [lit]) (il_mappings (index_literal arity lit il))" "il_infos (index_literal arity lit il) = map (literal_info_of arity) (before @ [lit])"
      using mappings_hold_step [OF Cons.prems(2,3), of arities n lit] Cons.prems(1) by simp_all
    then show ?case using Cons.IH [of "before @ [lit]" "index_literal arity lit il"] Cons.prems(1) by simp
  qed simp
  from this [of "[]"] show "mappings_hold arity lits (il_mappings (index_literals arity lits))"
    "il_infos (index_literals arity lits) = map (literal_info_of arity) lits"
    by (simp_all add: index_literals_def mappings_hold_def)
qed

section \<open>What the tests decide\<close>

fun ground_term :: "nat list \<Rightarrow> tterm \<Rightarrow> nat" where
  "ground_term \<sigma> (Param p) = \<sigma> ! p"
| "ground_term \<sigma> (Obj ob) = ob"

definition ground_atom_of :: "nat list \<Rightarrow> lifted_literal \<Rightarrow> nat \<times> nat list" where
  "ground_atom_of \<sigma> lit = (ll_predicate lit, map (ground_term \<sigma>) (ll_terms lit))"

definition literal_holds :: "(nat \<times> nat list) set \<Rightarrow> nat list \<Rightarrow> lifted_literal \<Rightarrow> bool" where
  "literal_holds facts \<sigma> lit \<longleftrightarrow> (ground_atom_of \<sigma> lit \<in> facts) = ll_polarity lit"

definition arities_of :: "(nat \<times> nat list list) list \<Rightarrow> nat list" where
  "arities_of predicates = map (\<lambda>d. length (snd d)) predicates"

text \<open>A literal over a schema and a collection of facts, with a binding of the parameters to objects.\<close>

definition literal_context :: "(nat \<times> nat list list) list \<Rightarrow> nat \<Rightarrow> pred_sets \<Rightarrow> (nat \<times> nat list) set \<Rightarrow> nat \<Rightarrow> nat list \<Rightarrow> lifted_literal \<Rightarrow> bool" where
  "literal_context predicates n Ss facts arity \<sigma> lit \<longleftrightarrow> sets_hold predicates n Ss facts \<and> literal_ok arity (arities_of predicates) n lit
     \<and> (\<forall>p < arity. \<sigma> ! p < n)"

lemma literal_contextD:
  assumes "literal_context predicates n Ss facts arity \<sigma> lit"
  shows "sets_hold predicates n Ss facts" "ll_predicate lit < length predicates" "length (snd (predicates ! ll_predicate lit)) = length (ll_terms lit)"
    and "ll_arity lit = length (ll_terms lit)"
    and "i < length (ll_terms lit) \<Longrightarrow> ground_term \<sigma> (ll_terms lit ! i) < n"
proof -
  show "sets_hold predicates n Ss facts" "ll_predicate lit < length predicates" "length (snd (predicates ! ll_predicate lit)) = length (ll_terms lit)"
    "ll_arity lit = length (ll_terms lit)"
    using assms by (auto simp: literal_context_def literal_ok_def arities_of_def)
  show "ground_term \<sigma> (ll_terms lit ! i) < n" if "i < length (ll_terms lit)"
    using assms nth_mem [OF that] by (cases "ll_terms lit ! i") (auto simp: literal_context_def literal_ok_def)
qed

lemma at_vertex_holds:
  assumes "literal_context predicates n Ss facts arity \<sigma> lit" "literal_holds facts \<sigma> lit" "ll_polarity lit \<or> ll_arity lit = 1" "i < length (ll_terms lit)"
  shows "ll_polarity lit = pss_at_vertex Ss (ll_predicate lit) i (ground_term \<sigma> (ll_terms lit ! i))"
proof -
  note D = literal_contextD [OF assms(1)]
  show ?thesis
  proof (cases "ll_polarity lit")
    case True
    then have "(ll_predicate lit, map (ground_term \<sigma>) (ll_terms lit)) \<in> facts" using assms(2) by (simp add: literal_holds_def ground_atom_of_def)
    moreover have "map (ground_term \<sigma>) (ll_terms lit) ! i = ground_term \<sigma> (ll_terms lit ! i)" using assms(4) by simp
    ultimately show ?thesis using pss.vertex [OF D(1,2) _ D(5) [OF assms(4)], of i] assms(4) D(3) True by auto
  next
    case False
    then have "length (ll_terms lit) = 1" using assms(3) D(4) by simp
    then obtain t where t: "ll_terms lit = [t]" by (cases "ll_terms lit") auto
    then have "pss_at_vertex Ss (ll_predicate lit) 0 (ground_term \<sigma> t) \<longleftrightarrow> (ll_predicate lit, [ground_term \<sigma> t]) \<in> facts"
      using pss.vertex_exact [OF D(1,2)] D(3) D(5) [of 0] by simp
    then show ?thesis using False assms(2,4) t by (simp add: literal_holds_def ground_atom_of_def)
  qed
qed

lemma at_ordered_iff:
  assumes "sets_hold predicates n Ss facts" "p < length predicates" "i < length (snd (predicates ! p))" "j < length (snd (predicates ! p))" "i \<noteq> j" "ob < n" "ob' < n"
  shows "at_ordered Ss p i ob j ob' \<longleftrightarrow> (\<exists>obs. (p, obs) \<in> facts \<and> obs ! i = ob \<and> obs ! j = ob')"
proof (cases "i < j")
  case True
  then show ?thesis using pss.edge [OF assms(1,2) True assms(4,6,7)] by (simp add: at_ordered_def)
next
  case False
  then have "j < i" using assms(5) by simp
  then show ?thesis using pss.edge [OF assms(1,2) _ assms(3,7,6)] by (auto simp: at_ordered_def)
qed

lemma at_ordered_exact:
  assumes "literal_context predicates n Ss facts arity \<sigma> lit" "ll_arity lit = 2" "i < length (ll_terms lit)" "j < length (ll_terms lit)" "i \<noteq> j"
  shows "at_ordered Ss (ll_predicate lit) i (ground_term \<sigma> (ll_terms lit ! i)) j (ground_term \<sigma> (ll_terms lit ! j)) \<longleftrightarrow> ground_atom_of \<sigma> lit \<in> facts"
proof -
  note D = literal_contextD [OF assms(1)]
  obtain t u where t: "ll_terms lit = [t, u]" using assms(2) D(4) by (auto simp: length_Suc_conv numeral_2_eq_2)
  have *: "obs = map (ground_term \<sigma>) (ll_terms lit) \<longleftrightarrow> obs ! i = ground_term \<sigma> (ll_terms lit ! i) \<and> obs ! j = ground_term \<sigma> (ll_terms lit ! j)"
    if "(ll_predicate lit, obs) \<in> facts" for obs
  proof -
    have "length obs = 2" using pss.width [OF D(1) that] D(3) t by simp
    then obtain a b where "obs = [a, b]" by (auto simp: length_Suc_conv numeral_2_eq_2)
    moreover have "i = 0 \<and> j = 1 \<or> i = 1 \<and> j = 0" using assms(3-5) t by auto
    ultimately show ?thesis using t by auto
  qed
  show ?thesis
    unfolding at_ordered_iff [OF D(1,2) _ _ assms(5) D(5) [OF assms(3)] D(5) [OF assms(4)], unfolded D(3), OF assms(3,4)] ground_atom_of_def
    using * by blast
qed

lemma at_ordered_holds:
  assumes "literal_context predicates n Ss facts arity \<sigma> lit" "literal_holds facts \<sigma> lit" "ll_polarity lit \<or> ll_arity lit = 2"
    and "i < length (ll_terms lit)" "j < length (ll_terms lit)" "i \<noteq> j"
  shows "ll_polarity lit = at_ordered Ss (ll_predicate lit) i (ground_term \<sigma> (ll_terms lit ! i)) j (ground_term \<sigma> (ll_terms lit ! j))"
proof (cases "ll_arity lit = 2")
  case True
  then show ?thesis using at_ordered_exact [OF assms(1) True assms(4-6)] assms(2) by (auto simp: literal_holds_def)
next
  case False
  note D = literal_contextD [OF assms(1)]
  have p: "ll_polarity lit" using False assms(3) by simp
  then have "(ll_predicate lit, map (ground_term \<sigma>) (ll_terms lit)) \<in> facts" using assms(2) by (simp add: literal_holds_def ground_atom_of_def)
  moreover have "map (ground_term \<sigma>) (ll_terms lit) ! i = ground_term \<sigma> (ll_terms lit ! i)" "map (ground_term \<sigma>) (ll_terms lit) ! j = ground_term \<sigma> (ll_terms lit ! j)"
    using assms(4,5) by simp_all
  ultimately show ?thesis
    using at_ordered_iff [OF D(1,2) _ _ assms(6) D(5) [OF assms(4)] D(5) [OF assms(5)], unfolded D(3), OF assms(4,5)] p by blast
qed

lemma constants_consistent_holds:
  assumes "literal_context predicates n Ss facts arity \<sigma> lit" "literal_holds facts \<sigma> lit" "ll_polarity lit \<or> ll_arity lit = 2"
    and "i < length (ll_terms lit)" "ll_terms lit ! i = Param p"
  shows "constants_consistent Ss (literal_info_of arity lit) i (\<sigma> ! p)"
proof -
  have ok: "literal_ok arity (arities_of predicates) n lit" using assms(1) by (simp add: literal_context_def)
  have "ll_polarity lit = at_ordered Ss (ll_predicate lit) i (\<sigma> ! p) j c" if "(j, c) \<in> set (constants_of 0 (ll_terms lit))" for j c
  proof -
    have j: "j < length (ll_terms lit)" "ll_terms lit ! j = Obj c" using that by (auto simp: mem_constants_of)
    then have "i \<noteq> j" using assms(5) by auto
    then show ?thesis using at_ordered_holds [OF assms(1-4) j(1)] j(2) assms(5) by simp
  qed
  then show ?thesis unfolding constants_consistent_def literal_info_of_spec(1,2,5) [OF ok] list_all_iff by auto
qed

definition index_context :: "(nat \<times> nat list list) list \<Rightarrow> nat \<Rightarrow> pred_sets \<Rightarrow> (nat \<times> nat list) set \<Rightarrow> nat \<Rightarrow> nat list \<Rightarrow> lifted_literal list \<Rightarrow> bool" where
  "index_context predicates n Ss facts arity \<sigma> lits \<longleftrightarrow> (\<forall>lit \<in> set lits. literal_context predicates n Ss facts arity \<sigma> lit)"

lemma index_context_infos:
  assumes "index_context predicates n Ss facts arity \<sigma> lits" "l < length lits"
  shows "il_infos (index_literals arity lits) ! l = literal_info_of arity (lits ! l)" "literal_context predicates n Ss facts arity \<sigma> (lits ! l)"
    "mappings_hold arity lits (il_mappings (index_literals arity lits))" "literal_ok arity (arities_of predicates) n (lits ! l)"
proof -
  have ok: "\<forall>lit \<in> set lits. literal_ok arity (arities_of predicates) n lit" using assms(1) by (simp add: index_context_def literal_context_def)
  show "il_infos (index_literals arity lits) ! l = literal_info_of arity (lits ! l)" using index_literals_spec(2) [OF ok] assms(2) by simp
  show "literal_context predicates n Ss facts arity \<sigma> (lits ! l)" using assms by (simp add: index_context_def)
  show "mappings_hold arity lits (il_mappings (index_literals arity lits))" by (rule index_literals_spec(1) [OF ok])
  show "literal_ok arity (arities_of predicates) n (lits ! l)" using ok assms(2) by simp
qed

lemma index_context_mappings:
  assumes "index_context predicates n Ss facts arity \<sigma> lits" "p < arity"
  shows "l \<in> set (im_parameter_to_infos (il_mappings (index_literals arity lits)) ! p) \<longleftrightarrow> l < length lits \<and> Param p \<in> set (ll_terms (lits ! l))"
    and "q < arity \<Longrightarrow> l \<in> set (im_parameter_pairs_to_infos (il_mappings (index_literals arity lits)) ! p ! q) \<longleftrightarrow>
      l < length lits \<and> p < q \<and> Param p \<in> set (ll_terms (lits ! l)) \<and> Param q \<in> set (ll_terms (lits ! l))"
    and "l \<in> set (im_parameter_to_infos_with_constants (il_mappings (index_literals arity lits)) ! p) \<longleftrightarrow>
      l < length lits \<and> Param p \<in> set (ll_terms (lits ! l)) \<and> constants_of 0 (ll_terms (lits ! l)) \<noteq> []"
proof -
  have "\<forall>lit \<in> set lits. literal_ok arity (arities_of predicates) n lit" using assms(1) by (simp add: index_context_def literal_context_def)
  from index_literals_spec(1) [OF this] assms(2)
  show "l \<in> set (im_parameter_to_infos (il_mappings (index_literals arity lits)) ! p) \<longleftrightarrow> l < length lits \<and> Param p \<in> set (ll_terms (lits ! l))"
    "q < arity \<Longrightarrow> l \<in> set (im_parameter_pairs_to_infos (il_mappings (index_literals arity lits)) ! p ! q) \<longleftrightarrow>
      l < length lits \<and> p < q \<and> Param p \<in> set (ll_terms (lits ! l)) \<and> Param q \<in> set (ll_terms (lits ! l))"
    "l \<in> set (im_parameter_to_infos_with_constants (il_mappings (index_literals arity lits)) ! p) \<longleftrightarrow>
      l < length lits \<and> Param p \<in> set (ll_terms (lits ! l)) \<and> constants_of 0 (ll_terms (lits ! l)) \<noteq> []"
    unfolding mappings_hold_def by simp_all
qed

text \<open>A binding under which every literal holds passes the tests.\<close>

lemma consistent_vertex_complete:
  assumes "index_context predicates n Ss facts arity \<sigma> lits" "p < arity"
    and "\<forall>lit \<in> set lits. literal_holds facts \<sigma> lit \<and> (ll_polarity lit \<or> ll_arity lit = 1)"
  shows "consistent_vertex Ss (index_literals arity lits) (p, \<sigma> ! p)"
proof -
  have "vertex_literal Ss (il_infos (index_literals arity lits) ! l) p (\<sigma> ! p)"
    if l: "l \<in> set (im_parameter_to_infos (il_mappings (index_literals arity lits)) ! p)" and len: "l < length lits" for l
  proof -
    let ?lit = "lits ! l" and ?i = "literal_info_of arity (lits ! l)"
    note I = index_context_infos [OF assms(1) len]
    note L = literal_info_of_spec [OF I(4)]
    have h: "literal_holds facts \<sigma> ?lit" "ll_polarity ?lit \<or> ll_arity ?lit = 1" using assms(3) len by auto
    have c: "ll_polarity ?lit = pss_at_vertex Ss (ll_predicate ?lit) j c" if "(j, c) \<in> set (constants_of 0 (ll_terms ?lit))" for j c
      using at_vertex_holds [OF I(2) h, of j] that by (auto simp: mem_constants_of)
    have "ll_polarity ?lit = pss_at_vertex Ss (ll_predicate ?lit) i (\<sigma> ! p) \<and> constants_consistent Ss ?i i (\<sigma> ! p)"
      if i: "i \<in> set (positions_of 0 (ll_terms ?lit) p)" for i
    proof -
      have i': "i < length (ll_terms ?lit)" "ll_terms ?lit ! i = Param p" using i by (auto simp: mem_positions_of)
      have "constants_consistent Ss ?i i (\<sigma> ! p)"
      proof (cases "ll_polarity ?lit")
        case True
        then show ?thesis using constants_consistent_holds [OF I(2) h(1) _ i'] by simp
      next
        case False
        then have "length (ll_terms ?lit) = 1" using h(2) literal_contextD(4) [OF I(2)] by simp
        then have "constants_of 0 (ll_terms ?lit) = []" using i' by (cases "ll_terms ?lit") auto
        then show ?thesis by (simp add: constants_consistent_def L(5))
      qed
      then show ?thesis using at_vertex_holds [OF I(2) h i'(1)] i'(2) by simp
    qed
    then show ?thesis unfolding vertex_literal_def I(1) L(1,2,5) L(6) [OF assms(2)] list_all_iff using c by auto
  qed
  then show ?thesis
    unfolding consistent_vertex_def list_all_iff using index_context_mappings(1) [OF assms(1,2)] by simp
qed

lemma constants_test_complete:
  assumes "index_context predicates n Ss facts arity \<sigma> lits" "p < arity"
    and "\<forall>lit \<in> set lits. literal_holds facts \<sigma> lit \<and> (ll_polarity lit \<or> ll_arity lit = 2)"
  shows "list_all (\<lambda>lit. let i = il_infos (index_literals arity lits) ! lit in
      list_all (\<lambda>pos. constants_consistent Ss i pos (\<sigma> ! p)) (li_parameter_to_positions i ! p))
    (im_parameter_to_infos_with_constants (il_mappings (index_literals arity lits)) ! p)"
  unfolding list_all_iff Let_def
proof (intro ballI)
  fix l i
  assume "l \<in> set (im_parameter_to_infos_with_constants (il_mappings (index_literals arity lits)) ! p)"
  then have len: "l < length lits" using index_context_mappings(3) [OF assms(1,2)] by simp
  note I = index_context_infos [OF assms(1) len]
  assume "i \<in> set (li_parameter_to_positions (il_infos (index_literals arity lits) ! l) ! p)"
  then have "i < length (ll_terms (lits ! l))" "ll_terms (lits ! l) ! i = Param p"
    unfolding I(1) literal_info_of_spec(6) [OF I(4) assms(2)] by (auto simp: mem_positions_of)
  then show "constants_consistent Ss (il_infos (index_literals arity lits) ! l) i (\<sigma> ! p)"
    unfolding I(1) using constants_consistent_holds [OF I(2)] assms(3) len by auto
qed

lemma consistent_edge_complete:
  assumes "index_context predicates n Ss facts arity \<sigma> lits" "p < arity" "q < arity" "p \<noteq> q"
    and "\<forall>lit \<in> set lits. literal_holds facts \<sigma> lit \<and> (ll_polarity lit \<or> ll_arity lit = 2)"
  shows "consistent_edge Ss (index_literals arity lits) (p, \<sigma> ! p) (q, \<sigma> ! q)"
proof -
  have pairs: "list_all (\<lambda>lit. let i = il_infos (index_literals arity lits) ! lit in
      list_all (\<lambda>pos_p. list_all (\<lambda>pos_q. li_polarity i = at_ordered Ss (li_predicate i) pos_p (\<sigma> ! p) pos_q (\<sigma> ! q))
        (li_parameter_to_positions i ! q)) (li_parameter_to_positions i ! p))
      (im_parameter_pairs_to_infos (il_mappings (index_literals arity lits)) ! p ! q)" if pq: "p < arity" "q < arity" "p < q" for p q
    unfolding list_all_iff Let_def
  proof (intro ballI)
    fix l i j
    assume "l \<in> set (im_parameter_pairs_to_infos (il_mappings (index_literals arity lits)) ! p ! q)"
    then have len: "l < length lits" using index_context_mappings(2) [OF assms(1) pq(1,2)] by simp
    note I = index_context_infos [OF assms(1) len]
    note L = literal_info_of_spec [OF I(4)]
    assume "i \<in> set (li_parameter_to_positions (il_infos (index_literals arity lits) ! l) ! p)"
      "j \<in> set (li_parameter_to_positions (il_infos (index_literals arity lits) ! l) ! q)"
    then have ij: "i < length (ll_terms (lits ! l))" "ll_terms (lits ! l) ! i = Param p" "j < length (ll_terms (lits ! l))" "ll_terms (lits ! l) ! j = Param q"
      unfolding I(1) L(6) [OF pq(1)] L(6) [OF pq(2)] by (auto simp: mem_positions_of)
    then have "i \<noteq> j" using pq(3) by auto
    then show "li_polarity (il_infos (index_literals arity lits) ! l) =
      at_ordered Ss (li_predicate (il_infos (index_literals arity lits) ! l)) i (\<sigma> ! p) j (\<sigma> ! q)"
      unfolding I(1) L(1,2) using at_ordered_holds [OF I(2) _ _ ij(1,3)] assms(5) len ij(2,4) by auto
  qed
  show ?thesis
    unfolding consistent_edge_def
    using pairs [of p q] pairs [of q p] constants_test_complete [OF assms(1,2,5)] constants_test_complete [OF assms(1,3,5)] assms(2-4)
    by (cases "p < q") auto
qed

text \<open>
  The literals that the tests decide: those of one parameter position, positive ones with a parameter and an object, and those
  with two different parameters.
\<close>

lemma consistent_vertex_decides:
  assumes "index_context predicates n Ss facts arity \<sigma> lits" "p < arity" "consistent_vertex Ss (index_literals arity lits) (p, \<sigma> ! p)"
    and "lit \<in> set lits" "Param p \<in> set (ll_terms lit)" "ll_arity lit = 1 \<or> ll_arity lit = 2 \<and> (\<exists>ob. Obj ob \<in> set (ll_terms lit))"
  shows "literal_holds facts \<sigma> lit"
proof -
  obtain l where l: "l < length lits" "lits ! l = lit" using assms(4) by (auto simp: in_set_conv_nth)
  note I = index_context_infos [OF assms(1) l(1), unfolded l(2)]
  note L = literal_info_of_spec [OF I(4)] and D = literal_contextD [OF I(2)]
  have v: "vertex_literal Ss (literal_info_of arity lit) p (\<sigma> ! p)"
    using assms(3) index_context_mappings(1) [OF assms(1,2), of l] assms(5) l I(1) unfolding consistent_vertex_def list_all_iff by auto
  have pos: "ll_polarity lit = pss_at_vertex Ss (ll_predicate lit) i (\<sigma> ! p)" "constants_consistent Ss (literal_info_of arity lit) i (\<sigma> ! p)"
    if "i < length (ll_terms lit)" "ll_terms lit ! i = Param p" for i
    using v that unfolding vertex_literal_def L(1,2) L(6) [OF assms(2)] list_all_iff by (auto simp: mem_positions_of)
  obtain i where i: "i < length (ll_terms lit)" "ll_terms lit ! i = Param p" using assms(5) by (auto simp: in_set_conv_nth)
  show ?thesis
  proof (cases "ll_arity lit = 1")
    case True
    then obtain t where t: "ll_terms lit = [t]" using D(4) by (cases "ll_terms lit") auto
    then have "t = Param p" "i = 0" using i by simp_all
    then show ?thesis using pos [OF i] pss.vertex_exact [OF D(1,2)] D(3) D(5) [of 0] t by (simp add: literal_holds_def ground_atom_of_def)
  next
    case False
    then obtain ob where ob: "ll_arity lit = 2" "Obj ob \<in> set (ll_terms lit)" using assms(6) by auto
    then obtain j where j: "j < length (ll_terms lit)" "ll_terms lit ! j = Obj ob" by (auto simp: in_set_conv_nth)
    then have "(j, ob) \<in> set (constants_of 0 (ll_terms lit))" by (simp add: mem_constants_of)
    then have "ll_polarity lit = at_ordered Ss (ll_predicate lit) i (\<sigma> ! p) j ob"
      using pos(2) [OF i] unfolding constants_consistent_def L(1,2,5) list_all_iff by auto
    moreover have "i \<noteq> j" using i j by auto
    ultimately show ?thesis using at_ordered_exact [OF I(2) ob(1) i(1) j(1)] i(2) j(2) by (auto simp: literal_holds_def)
  qed
qed

lemma consistent_edge_decides:
  assumes "index_context predicates n Ss facts arity \<sigma> lits" "p < q" "q < arity" "consistent_edge Ss (index_literals arity lits) (p, \<sigma> ! p) (q, \<sigma> ! q)"
    and "lit \<in> set lits" "Param p \<in> set (ll_terms lit)" "Param q \<in> set (ll_terms lit)" "ll_arity lit = 2"
  shows "literal_holds facts \<sigma> lit"
proof -
  obtain l where l: "l < length lits" "lits ! l = lit" using assms(5) by (auto simp: in_set_conv_nth)
  note I = index_context_infos [OF assms(1) l(1), unfolded l(2)]
  note L = literal_info_of_spec [OF I(4)]
  have p: "p < arity" using assms(2,3) by simp
  obtain i j where ij: "i < length (ll_terms lit)" "ll_terms lit ! i = Param p" "j < length (ll_terms lit)" "ll_terms lit ! j = Param q"
    using assms(6,7) by (auto simp: in_set_conv_nth)
  have "l \<in> set (im_parameter_pairs_to_infos (il_mappings (index_literals arity lits)) ! p ! q)"
    using index_context_mappings(2) [OF assms(1) p assms(3)] l assms(2,6,7) by simp
  then have "ll_polarity lit = at_ordered Ss (ll_predicate lit) i (\<sigma> ! p) j (\<sigma> ! q)"
    using assms(2,4) ij I(1) l(2) L(6) [OF p] L(6) [OF assms(3)] L(1,2)
    unfolding consistent_edge_def list_all_iff Let_def by (auto simp: mem_positions_of)
  moreover have "i \<noteq> j" using ij assms(2) by auto
  ultimately show ?thesis using at_ordered_exact [OF I(2) assms(8) ij(1,3)] ij(2,4) by (auto simp: literal_holds_def)
qed

text \<open>
  The tests keep passing when facts are added to predicates without a negated literal.
\<close>

definition grows_for :: "lifted_literal list \<Rightarrow> (nat \<times> nat list) set \<Rightarrow> (nat \<times> nat list) set \<Rightarrow> bool" where
  "grows_for lits facts facts' \<longleftrightarrow> facts \<subseteq> facts' \<and> (\<forall>lit \<in> set lits. \<not> ll_polarity lit \<longrightarrow> (\<forall>obs. (ll_predicate lit, obs) \<in> facts' \<longrightarrow> (ll_predicate lit, obs) \<in> facts))"

lemma at_mono:
  assumes "sets_hold predicates n Ss facts" "sets_hold predicates n Ss' facts'" "grows_for lits facts facts'" "lit \<in> set lits"
    and "literal_ok arity (arities_of predicates) n lit" "i < length (ll_terms lit)" "ob < n"
  shows "ll_polarity lit = pss_at_vertex Ss (ll_predicate lit) i ob \<Longrightarrow> ll_polarity lit = pss_at_vertex Ss' (ll_predicate lit) i ob"
    and "j < length (ll_terms lit) \<Longrightarrow> i \<noteq> j \<Longrightarrow> ob' < n \<Longrightarrow> ll_polarity lit = at_ordered Ss (ll_predicate lit) i ob j ob' \<Longrightarrow>
      ll_polarity lit = at_ordered Ss' (ll_predicate lit) i ob j ob'"
proof -
  have p: "ll_predicate lit < length predicates" "length (snd (predicates ! ll_predicate lit)) = length (ll_terms lit)"
    using assms(5) by (auto simp: literal_ok_def arities_of_def)
  have g: "(ll_predicate lit, obs) \<in> facts \<Longrightarrow> (ll_predicate lit, obs) \<in> facts'"
    "\<not> ll_polarity lit \<Longrightarrow> (ll_predicate lit, obs) \<in> facts' \<Longrightarrow> (ll_predicate lit, obs) \<in> facts" for obs
    using assms(3,4) by (auto simp: grows_for_def)
  show "ll_polarity lit = pss_at_vertex Ss' (ll_predicate lit) i ob" if "ll_polarity lit = pss_at_vertex Ss (ll_predicate lit) i ob"
    using that g pss.vertex [OF assms(1) p(1) _ assms(7)] pss.vertex [OF assms(2) p(1) _ assms(7)] assms(6) p(2) by metis
  show "ll_polarity lit = at_ordered Ss' (ll_predicate lit) i ob j ob'"
    if "j < length (ll_terms lit)" "i \<noteq> j" "ob' < n" "ll_polarity lit = at_ordered Ss (ll_predicate lit) i ob j ob'"
    using that(4) g at_ordered_iff [OF assms(1) p(1) _ _ that(2) assms(7) that(3)] at_ordered_iff [OF assms(2) p(1) _ _ that(2) assms(7) that(3)]
      assms(6) that(1) p(2) by metis
qed

lemma constants_consistent_mono:
  assumes "sets_hold predicates n Ss facts" "sets_hold predicates n Ss' facts'" "grows_for lits facts facts'" "lit \<in> set lits"
    and "literal_ok arity (arities_of predicates) n lit" "i < length (ll_terms lit)" "ob < n" "ll_terms lit ! i = Param p"
    and "constants_consistent Ss (literal_info_of arity lit) i ob"
  shows "constants_consistent Ss' (literal_info_of arity lit) i ob"
proof -
  note L = literal_info_of_spec [OF assms(5)]
  have "ll_polarity lit = at_ordered Ss' (ll_predicate lit) i ob j c" if jc: "(j, c) \<in> set (constants_of 0 (ll_terms lit))" for j c
  proof -
    have j: "j < length (ll_terms lit)" "ll_terms lit ! j = Obj c" using jc by (auto simp: mem_constants_of)
    then have "Obj c \<in> set (ll_terms lit)" using nth_mem by metis
    then have "c < n" "i \<noteq> j" using assms(5,8) j by (auto simp: literal_ok_def)
    moreover have "ll_polarity lit = at_ordered Ss (ll_predicate lit) i ob j c"
      using assms(9) jc unfolding constants_consistent_def L(1,2,5) list_all_iff by auto
    ultimately show ?thesis using at_mono(2) [OF assms(1-7) j(1)] by simp
  qed
  then show ?thesis unfolding constants_consistent_def L(1,2,5) list_all_iff by auto
qed

lemma consistent_vertex_mono:
  assumes "sets_hold predicates n Ss facts" "sets_hold predicates n Ss' facts'" "grows_for lits facts facts'"
    and "\<forall>lit \<in> set lits. literal_ok arity (arities_of predicates) n lit" "p < arity" "ob < n" "consistent_vertex Ss (index_literals arity lits) (p, ob)"
  shows "consistent_vertex Ss' (index_literals arity lits) (p, ob)"
proof -
  note M = index_literals_spec [OF assms(4)]
  have "vertex_literal Ss' (il_infos (index_literals arity lits) ! l) p ob"
    if l: "l \<in> set (im_parameter_to_infos (il_mappings (index_literals arity lits)) ! p)" for l
  proof -
    have len: "l < length lits" using M(1) l assms(5) by (auto simp: mappings_hold_def)
    let ?lit = "lits ! l" and ?i = "literal_info_of arity (lits ! l)"
    have i: "il_infos (index_literals arity lits) ! l = ?i" "?lit \<in> set lits" using M(2) len by simp_all
    have ok: "literal_ok arity (arities_of predicates) n ?lit" using assms(4) i(2) by blast
    note L = literal_info_of_spec [OF ok]
    note mono = at_mono [OF assms(1-3) i(2) ok] and cmono = constants_consistent_mono [OF assms(1-3) i(2) ok]
    have v: "vertex_literal Ss ?i p ob" using assms(7) l i(1) unfolding consistent_vertex_def list_all_iff by auto
    have "ll_polarity ?lit = pss_at_vertex Ss' (ll_predicate ?lit) j ob \<and> constants_consistent Ss' ?i j ob" if "j \<in> set (positions_of 0 (ll_terms ?lit) p)" for j
    proof -
      have j: "j < length (ll_terms ?lit)" "ll_terms ?lit ! j = Param p" using that by (auto simp: mem_positions_of)
      have "ll_polarity ?lit = pss_at_vertex Ss (ll_predicate ?lit) j ob" "constants_consistent Ss ?i j ob"
        using v that unfolding vertex_literal_def L(1,2) L(6) [OF assms(5)] list_all_iff by auto
      then show ?thesis using mono(1) [OF j(1) assms(6)] cmono [OF j(1) assms(6) j(2)] by blast
    qed
    moreover have "ll_polarity ?lit = pss_at_vertex Ss' (ll_predicate ?lit) j c" if jc: "(j, c) \<in> set (constants_of 0 (ll_terms ?lit))" for j c
    proof -
      have j: "j < length (ll_terms ?lit)" "ll_terms ?lit ! j = Obj c" using jc by (auto simp: mem_constants_of)
      then have "c < n" using ok nth_mem [OF j(1)] by (auto simp: literal_ok_def)
      moreover have "0 < li_num_constants ?i" using jc by (auto simp: L(4,5))
      then have "ll_polarity ?lit = pss_at_vertex Ss (ll_predicate ?lit) j c"
        using v jc unfolding vertex_literal_def L(1,2,5) list_all_iff by auto
      ultimately show ?thesis using mono(1) [OF j(1)] by blast
    qed
    ultimately show ?thesis unfolding i(1) vertex_literal_def L(1,2,5) L(6) [OF assms(5)] list_all_iff by auto
  qed
  then show ?thesis unfolding consistent_vertex_def list_all_iff by simp
qed

lemma constants_test_mono:
  assumes "sets_hold predicates n Ss facts" "sets_hold predicates n Ss' facts'" "grows_for lits facts facts'"
    and "\<forall>lit \<in> set lits. literal_ok arity (arities_of predicates) n lit" "p < arity" "ob < n"
    and "list_all (\<lambda>lit. let i = il_infos (index_literals arity lits) ! lit in
      list_all (\<lambda>pos. constants_consistent Ss i pos ob) (li_parameter_to_positions i ! p))
    (im_parameter_to_infos_with_constants (il_mappings (index_literals arity lits)) ! p)"
  shows "list_all (\<lambda>lit. let i = il_infos (index_literals arity lits) ! lit in
      list_all (\<lambda>pos. constants_consistent Ss' i pos ob) (li_parameter_to_positions i ! p))
    (im_parameter_to_infos_with_constants (il_mappings (index_literals arity lits)) ! p)"
  unfolding list_all_iff Let_def
proof (intro ballI)
  fix l i
  note M = index_literals_spec [OF assms(4)]
  assume l: "l \<in> set (im_parameter_to_infos_with_constants (il_mappings (index_literals arity lits)) ! p)"
  then have len: "l < length lits" using M(1) assms(5) by (auto simp: mappings_hold_def)
  have e: "il_infos (index_literals arity lits) ! l = literal_info_of arity (lits ! l)" "lits ! l \<in> set lits" using M(2) len by simp_all
  have ok: "literal_ok arity (arities_of predicates) n (lits ! l)" using assms(4) e(2) by blast
  assume i: "i \<in> set (li_parameter_to_positions (il_infos (index_literals arity lits) ! l) ! p)"
  then have i': "i < length (ll_terms (lits ! l))" "ll_terms (lits ! l) ! i = Param p"
    unfolding e(1) literal_info_of_spec(6) [OF ok assms(5)] by (auto simp: mem_positions_of)
  have "constants_consistent Ss (literal_info_of arity (lits ! l)) i ob"
    using assms(7) l i unfolding list_all_iff Let_def e(1) [symmetric] by blast
  then show "constants_consistent Ss' (il_infos (index_literals arity lits) ! l) i ob"
    unfolding e(1) using constants_consistent_mono [OF assms(1-3) e(2) ok i'(1) assms(6) i'(2)] by blast
qed

lemma consistent_edge_mono:
  assumes "sets_hold predicates n Ss facts" "sets_hold predicates n Ss' facts'" "grows_for lits facts facts'"
    and "\<forall>lit \<in> set lits. literal_ok arity (arities_of predicates) n lit" "p < q" "q < arity" "ob < n" "ob' < n"
    and "consistent_edge Ss (index_literals arity lits) (p, ob) (q, ob')"
  shows "consistent_edge Ss' (index_literals arity lits) (p, ob) (q, ob')"
proof -
  note M = index_literals_spec [OF assms(4)]
  have p: "p < arity" using assms(5,6) by simp
  have e: "list_all (\<lambda>lit. let i = il_infos (index_literals arity lits) ! lit in
      list_all (\<lambda>pos_p. list_all (\<lambda>pos_q. li_polarity i = at_ordered Ss (li_predicate i) pos_p ob pos_q ob')
        (li_parameter_to_positions i ! q)) (li_parameter_to_positions i ! p))
      (im_parameter_pairs_to_infos (il_mappings (index_literals arity lits)) ! p ! q)"
    using assms(5,9) unfolding consistent_edge_def by simp
  have "list_all (\<lambda>lit. let i = il_infos (index_literals arity lits) ! lit in
      list_all (\<lambda>pos_p. list_all (\<lambda>pos_q. li_polarity i = at_ordered Ss' (li_predicate i) pos_p ob pos_q ob')
        (li_parameter_to_positions i ! q)) (li_parameter_to_positions i ! p))
      (im_parameter_pairs_to_infos (il_mappings (index_literals arity lits)) ! p ! q)"
    unfolding list_all_iff Let_def
  proof (intro ballI)
    fix l i j
    assume l: "l \<in> set (im_parameter_pairs_to_infos (il_mappings (index_literals arity lits)) ! p ! q)"
    then have len: "l < length lits" using M(1) p assms(6) by (auto simp: mappings_hold_def)
    have f: "il_infos (index_literals arity lits) ! l = literal_info_of arity (lits ! l)" "lits ! l \<in> set lits" using M(2) len by simp_all
    have ok: "literal_ok arity (arities_of predicates) n (lits ! l)" using assms(4) f(2) by blast
    note L = literal_info_of_spec [OF ok]
    assume i: "i \<in> set (li_parameter_to_positions (il_infos (index_literals arity lits) ! l) ! p)"
      "j \<in> set (li_parameter_to_positions (il_infos (index_literals arity lits) ! l) ! q)"
    then have ij: "i < length (ll_terms (lits ! l))" "j < length (ll_terms (lits ! l))" "ll_terms (lits ! l) ! i = Param p" "ll_terms (lits ! l) ! j = Param q"
      unfolding f(1) L(6) [OF p] L(6) [OF assms(6)] by (auto simp: mem_positions_of)
    then have "i \<noteq> j" using assms(5) by auto
    moreover have "ll_polarity (lits ! l) = at_ordered Ss (ll_predicate (lits ! l)) i ob j ob'"
      using e l i unfolding list_all_iff Let_def f(1) L(1,2) by (metis L(1,2) f(1))
    ultimately show "li_polarity (il_infos (index_literals arity lits) ! l) = at_ordered Ss' (li_predicate (il_infos (index_literals arity lits) ! l)) i ob j ob'"
      unfolding f(1) L(1,2) using at_mono(2) [OF assms(1-3) f(2) ok ij(1) assms(7) ij(2) _ assms(8)] by blast
  qed
  then show ?thesis
    using assms(5,9) constants_test_mono [OF assms(1-4) p assms(7)] constants_test_mono [OF assms(1-4,6,8)] unfolding consistent_edge_def by simp
qed

end
