(* ===== verification/Variable_Dependencies.thy ===== *)
theory Variable_Dependencies
  imports Prelude
begin

text \<open>
  \<^verbatim>\<open>src/formalism/datalog/variable_dependency_graph.cpp\<close> and its details header: which parameters of a rule
  occur in a literal or constraint, and which pairs occur together. An element of the condition is its kind with
  the parameters that \<open>collect_parameters\<close> finds in it, sorted. A bit set is the set of its indices; a pair of parameters has the
  index \<open>i * k + j\<close>.
\<close>

datatype dep_kind = Static_Positive | Static_Negative | Fluent_Positive | Fluent_Negative | Numeric

type_synonym condition_element = "dep_kind \<times> nat list"

record dependencies =
  static_positive_literal :: "nat set"
  static_negative_literal :: "nat set"
  fluent_positive_literal :: "nat set"
  fluent_negative_literal :: "nat set"
  numeric_constraint :: "nat set"

definition no_dependencies :: dependencies where
  "no_dependencies = \<lparr>static_positive_literal = {}, static_negative_literal = {}, fluent_positive_literal = {},
     fluent_negative_literal = {}, numeric_constraint = {}\<rparr>"

fun select_dependency :: "dep_kind \<Rightarrow> dependencies \<Rightarrow> nat set" where
  "select_dependency Static_Positive d = static_positive_literal d"
| "select_dependency Static_Negative d = static_negative_literal d"
| "select_dependency Fluent_Positive d = fluent_positive_literal d"
| "select_dependency Fluent_Negative d = fluent_negative_literal d"
| "select_dependency Numeric d = numeric_constraint d"

fun update_dependency :: "dep_kind \<Rightarrow> (nat set \<Rightarrow> nat set) \<Rightarrow> dependencies \<Rightarrow> dependencies" where
  "update_dependency Static_Positive f d = d\<lparr>static_positive_literal := f (static_positive_literal d)\<rparr>"
| "update_dependency Static_Negative f d = d\<lparr>static_negative_literal := f (static_negative_literal d)\<rparr>"
| "update_dependency Fluent_Positive f d = d\<lparr>fluent_positive_literal := f (fluent_positive_literal d)\<rparr>"
| "update_dependency Fluent_Negative f d = d\<lparr>fluent_negative_literal := f (fluent_negative_literal d)\<rparr>"
| "update_dependency Numeric f d = d\<lparr>numeric_constraint := f (numeric_constraint d)\<rparr>"

record vdg =
  vdg_k :: nat
  unary_deps :: dependencies
  binary_deps :: dependencies

definition dep_index :: "nat \<Rightarrow> nat \<Rightarrow> nat \<Rightarrow> nat" where
  "dep_index k i j = i * k + j"

text \<open>The indices of the pairs of parameters, in both orders.\<close>

fun pair_indices :: "nat \<Rightarrow> nat list \<Rightarrow> nat list" where
  "pair_indices k [] = []"
| "pair_indices k (i # ps) = concat (map (\<lambda>j. [dep_index k i j, dep_index k j i]) ps) @ pair_indices k ps"

definition insert_dependencies :: "condition_element \<Rightarrow> vdg \<Rightarrow> vdg" where
  "insert_dependencies e g = g\<lparr>unary_deps := update_dependency (fst e) (\<lambda>s. s \<union> set (snd e)) (unary_deps g),
     binary_deps := update_dependency (fst e) (\<lambda>s. s \<union> set (pair_indices (vdg_k g) (snd e))) (binary_deps g)\<rparr>"

definition make_vdg :: "nat \<Rightarrow> condition_element list \<Rightarrow> vdg" where
  "make_vdg k es = fold insert_dependencies es \<lparr>vdg_k = k, unary_deps = no_dependencies, binary_deps = no_dependencies\<rparr>"

definition has_unary_kind :: "vdg \<Rightarrow> dep_kind \<Rightarrow> nat \<Rightarrow> bool" where
  "has_unary_kind g t p \<longleftrightarrow> p \<in> select_dependency t (unary_deps g)"

definition has_binary_kind :: "vdg \<Rightarrow> dep_kind \<Rightarrow> nat \<Rightarrow> nat \<Rightarrow> bool" where
  "has_binary_kind g t i j \<longleftrightarrow> dep_index (vdg_k g) i j \<in> select_dependency t (binary_deps g)"

definition has_unary_dependency :: "vdg \<Rightarrow> nat \<Rightarrow> bool" where
  "has_unary_dependency g p \<longleftrightarrow> has_unary_kind g Static_Positive p \<or> has_unary_kind g Static_Negative p
     \<or> has_unary_kind g Fluent_Positive p \<or> has_unary_kind g Fluent_Negative p \<or> has_unary_kind g Numeric p"

definition has_dependency :: "vdg \<Rightarrow> nat \<Rightarrow> nat \<Rightarrow> bool" where
  "has_dependency g i j \<longleftrightarrow> has_binary_kind g Static_Positive i j \<or> has_binary_kind g Static_Negative i j
     \<or> has_binary_kind g Fluent_Positive i j \<or> has_binary_kind g Fluent_Negative i j \<or> has_binary_kind g Numeric i j"

section \<open>What the sets contain\<close>

lemma select_update_dependency: "select_dependency t (update_dependency t' f d) = (if t = t' then f (select_dependency t d) else select_dependency t d)"
  by (cases t; cases t') simp_all

lemma dep_index_inj: "i < k \<Longrightarrow> j < k \<Longrightarrow> i' < k \<Longrightarrow> j' < k \<Longrightarrow> dep_index k i j = dep_index k i' j' \<longleftrightarrow> i = i' \<and> j = j'"
proof -
  assume "i < k" "j < k" "i' < k" "j' < k"
  then have "dep_index k i j div k = i" "dep_index k i j mod k = j" "dep_index k i' j' div k = i'" "dep_index k i' j' mod k = j'"
    by (simp_all add: dep_index_def)
  then show ?thesis by metis
qed

lemma set_pair_indices:
  "distinct ps \<Longrightarrow> set (pair_indices k ps) = {dep_index k i j | i j. i \<in> set ps \<and> j \<in> set ps \<and> i \<noteq> j}"
proof (induction ps)
  case (Cons p ps)
  have "set (pair_indices k (p # ps)) = dep_index k p ` set ps \<union> (\<lambda>q. dep_index k q p) ` set ps \<union> set (pair_indices k ps)" by auto
  then show ?case using Cons by auto
qed simp

definition well_formed_condition :: "nat \<Rightarrow> condition_element list \<Rightarrow> bool" where
  "well_formed_condition k es \<longleftrightarrow> (\<forall>e \<in> set es. distinct (snd e) \<and> (\<forall>p \<in> set (snd e). p < k))"

lemma fold_insert_dependencies:
  assumes "vdg_k g = k" "well_formed_condition k es"
  shows "vdg_k (fold insert_dependencies es g) = k \<and>
    (has_unary_kind (fold insert_dependencies es g) t p \<longleftrightarrow> has_unary_kind g t p \<or> (\<exists>ps. (t, ps) \<in> set es \<and> p \<in> set ps)) \<and>
    (i < k \<longrightarrow> j < k \<longrightarrow> (has_binary_kind (fold insert_dependencies es g) t i j \<longleftrightarrow>
      has_binary_kind g t i j \<or> (\<exists>ps. (t, ps) \<in> set es \<and> i \<in> set ps \<and> j \<in> set ps \<and> i \<noteq> j)))"
  using assms
proof (induction es arbitrary: g)
  case (Cons e es)
  let ?g = "insert_dependencies e g"
  obtain t' qs where e: "e = (t', qs)" by (cases e)
  have k: "vdg_k ?g = k" using Cons.prems by (simp add: insert_dependencies_def)
  have wf: "well_formed_condition k es" "distinct qs" "\<forall>p \<in> set qs. p < k" using Cons.prems e by (auto simp: well_formed_condition_def)
  have u: "has_unary_kind ?g t p \<longleftrightarrow> has_unary_kind g t p \<or> t = t' \<and> p \<in> set qs"
    by (simp add: has_unary_kind_def insert_dependencies_def select_update_dependency e)
  have b: "has_binary_kind ?g t i j \<longleftrightarrow> has_binary_kind g t i j \<or> t = t' \<and> i \<in> set qs \<and> j \<in> set qs \<and> i \<noteq> j"
    if "i < k" "j < k"
    using that wf(2,3) Cons.prems(1) dep_index_inj [of i k j]
    by (auto simp: has_binary_kind_def insert_dependencies_def select_update_dependency e set_pair_indices)
  have ex: "(\<exists>ps. (t, ps) \<in> set (e # es) \<and> Q ps) \<longleftrightarrow> t = t' \<and> Q qs \<or> (\<exists>ps. (t, ps) \<in> set es \<and> Q ps)" for Q
    unfolding e by auto
  have f: "fold insert_dependencies (e # es) g = fold insert_dependencies es ?g" by simp
  show ?case unfolding ex f using Cons.IH [OF k wf(1)] u b by blast
qed simp

lemma make_vdg_spec:
  assumes "well_formed_condition k es"
  shows "vdg_k (make_vdg k es) = k"
    and "has_unary_kind (make_vdg k es) t p \<longleftrightarrow> (\<exists>ps. (t, ps) \<in> set es \<and> p \<in> set ps)"
    and "i < k \<Longrightarrow> j < k \<Longrightarrow> has_binary_kind (make_vdg k es) t i j \<longleftrightarrow>
      (\<exists>ps. (t, ps) \<in> set es \<and> i \<in> set ps \<and> j \<in> set ps \<and> i \<noteq> j)"
proof -
  let ?g = "\<lparr>vdg_k = k, unary_deps = no_dependencies, binary_deps = no_dependencies\<rparr>"
  have "\<not> has_unary_kind ?g t p" "\<not> has_binary_kind ?g t i j" for t p i j
    by (cases t; simp add: has_unary_kind_def has_binary_kind_def no_dependencies_def)+
  with fold_insert_dependencies [of ?g k es] assms
  show "vdg_k (make_vdg k es) = k"
    and "has_unary_kind (make_vdg k es) t p \<longleftrightarrow> (\<exists>ps. (t, ps) \<in> set es \<and> p \<in> set ps)"
    and "i < k \<Longrightarrow> j < k \<Longrightarrow> has_binary_kind (make_vdg k es) t i j \<longleftrightarrow>
      (\<exists>ps. (t, ps) \<in> set es \<and> i \<in> set ps \<and> j \<in> set ps \<and> i \<noteq> j)"
    by (simp_all add: make_vdg_def)
qed

lemma has_dependency_iff:
  assumes "well_formed_condition k es" "i < k" "j < k"
  shows "has_dependency (make_vdg k es) i j \<longleftrightarrow> (\<exists>e \<in> set es. i \<in> set (snd e) \<and> j \<in> set (snd e) \<and> i \<noteq> j)"
proof -
  have "has_dependency (make_vdg k es) i j \<longleftrightarrow> (\<exists>t. has_binary_kind (make_vdg k es) t i j)"
    unfolding has_dependency_def by (metis dep_kind.exhaust)
  also have "\<dots> \<longleftrightarrow> (\<exists>t ps. (t, ps) \<in> set es \<and> i \<in> set ps \<and> j \<in> set ps \<and> i \<noteq> j)" using make_vdg_spec(3) [OF assms] by simp
  also have "\<dots> \<longleftrightarrow> (\<exists>e \<in> set es. i \<in> set (snd e) \<and> j \<in> set (snd e) \<and> i \<noteq> j)" by force
  finally show ?thesis .
qed

lemma has_dependency_sym:
  "well_formed_condition k es \<Longrightarrow> i < k \<Longrightarrow> j < k \<Longrightarrow> has_dependency (make_vdg k es) i j = has_dependency (make_vdg k es) j i"
  by (auto simp: has_dependency_iff)

end
