(* ===== verification/Rule_Conditions.thy ===== *)
theory Rule_Conditions
  imports Rule_Literals Variable_Dependencies Complex_Main
begin

text \<open>
  The bodies of rules: numeric constraints and their arities (\<^verbatim>\<open>formalism/datalog/expression_arity.hpp\<close>), the validity of a binding
  (\<^verbatim>\<open>datalog/applicability.ipp\<close>), the conditions that \<^verbatim>\<open>src/datalog/consistency_graph.cpp\<close> derives from a body, and the applicability
  checks of \<^verbatim>\<open>datalog/workspaces/rule.hpp\<close>. The arithmetic on doubles and the values of functions are arguments; numbers in a
  rule are rational. Fact sets are sets of ground atoms.
\<close>

section \<open>Numeric constraints\<close>

datatype arith_op = Op_Add | Op_Sub | Op_Mul | Op_Div

datatype compare_op = Op_Eq | Op_Ne | Op_Le | Op_Lt | Op_Ge | Op_Gt

record function_term =
  ft_fluent :: bool
  ft_function :: nat
  ft_arity :: nat
  ft_terms :: "tterm list"

text \<open>The operator of several arguments has at least one: the first is separate.\<close>

datatype fexpr =
    Number rat
  | Function_Term function_term
  | Unary_Minus fexpr
  | Binary_Op arith_op fexpr fexpr
  | Multi_Op arith_op fexpr "fexpr list"

datatype constraint = Compare compare_op fexpr fexpr

fun fexpr_parameters :: "fexpr \<Rightarrow> nat list" where
  "fexpr_parameters (Number v) = []"
| "fexpr_parameters (Function_Term t) = term_parameters (ft_terms t)"
| "fexpr_parameters (Unary_Minus e) = fexpr_parameters e"
| "fexpr_parameters (Binary_Op op lhs rhs) = fexpr_parameters lhs @ fexpr_parameters rhs"
| "fexpr_parameters (Multi_Op op e es) = fexpr_parameters e @ concat (map fexpr_parameters es)"

fun constraint_parameters :: "constraint \<Rightarrow> nat list" where
  "constraint_parameters (Compare op lhs rhs) = remdups (fexpr_parameters lhs @ fexpr_parameters rhs)"

text \<open>
  \<^verbatim>\<open>max_fterm_arity\<close> is overloaded: there is one for numbers, one for function terms and one per operator. The one for function
  terms calls the function with the arity of its function, which is a number.
\<close>

definition max_number_arity :: "rat \<Rightarrow> nat" where
  "max_number_arity v = 0"

fun max_fterm_arity :: "fexpr \<Rightarrow> nat" where
  "max_fterm_arity (Number v) = max_number_arity v"
| "max_fterm_arity (Function_Term t) = max_number_arity (of_nat (ft_arity t))"
| "max_fterm_arity (Unary_Minus e) = max_fterm_arity e"
| "max_fterm_arity (Binary_Op op lhs rhs) = max (max_fterm_arity lhs) (max_fterm_arity rhs)"
| "max_fterm_arity (Multi_Op op e es) = foldl max (max_fterm_arity e) (map max_fterm_arity es)"

fun max_constraint_arity :: "constraint \<Rightarrow> nat" where
  "max_constraint_arity (Compare op lhs rhs) = max (max_fterm_arity lhs) (max_fterm_arity rhs)"

definition constraint_kpkc_arity :: "constraint \<Rightarrow> nat" where
  "constraint_kpkc_arity c = max (max_constraint_arity c) (length (constraint_parameters c))"

definition constraint_parameter_arity :: "constraint \<Rightarrow> nat" where
  "constraint_parameter_arity c = length (constraint_parameters c)"

text \<open>The value of an expression under a binding.\<close>

record 'v numeric_values =
  value_of_number :: "rat \<Rightarrow> 'v"
  negate_value :: "'v \<Rightarrow> 'v"
  apply_arith :: "arith_op \<Rightarrow> 'v \<Rightarrow> 'v \<Rightarrow> 'v"
  apply_compare :: "compare_op \<Rightarrow> 'v \<Rightarrow> 'v \<Rightarrow> bool"
  function_value :: "bool \<Rightarrow> nat \<Rightarrow> nat list \<Rightarrow> 'v"

fun eval_fexpr :: "'v numeric_values \<Rightarrow> nat list \<Rightarrow> fexpr \<Rightarrow> 'v" where
  "eval_fexpr nv \<sigma> (Number v) = value_of_number nv v"
| "eval_fexpr nv \<sigma> (Function_Term t) = function_value nv (ft_fluent t) (ft_function t) (map (ground_term \<sigma>) (ft_terms t))"
| "eval_fexpr nv \<sigma> (Unary_Minus e) = negate_value nv (eval_fexpr nv \<sigma> e)"
| "eval_fexpr nv \<sigma> (Binary_Op op lhs rhs) = apply_arith nv op (eval_fexpr nv \<sigma> lhs) (eval_fexpr nv \<sigma> rhs)"
| "eval_fexpr nv \<sigma> (Multi_Op op e es) = foldl (apply_arith nv op) (eval_fexpr nv \<sigma> e) (map (eval_fexpr nv \<sigma>) es)"

fun constraint_holds :: "'v numeric_values \<Rightarrow> nat list \<Rightarrow> constraint \<Rightarrow> bool" where
  "constraint_holds nv \<sigma> (Compare op lhs rhs) = apply_compare nv op (eval_fexpr nv \<sigma> lhs) (eval_fexpr nv \<sigma> rhs)"

section \<open>Conditions\<close>

record condition =
  cond_arity :: nat
  cond_static :: "lifted_literal list"
  cond_fluent :: "lifted_literal list"
  cond_numeric :: "constraint list"

text \<open>The facts that a condition refers to, with the values of functions.\<close>

type_synonym facts = "(nat \<times> nat list) set"

definition valid_binding :: "'v numeric_values \<Rightarrow> facts \<Rightarrow> facts \<Rightarrow> nat list \<Rightarrow> condition \<Rightarrow> bool" where
  "valid_binding nv S F \<sigma> c = (list_all (literal_holds S \<sigma>) (cond_static c) \<and> list_all (literal_holds F \<sigma>) (cond_fluent c)
     \<and> list_all (constraint_holds nv \<sigma>) (cond_numeric c))"

definition overapproximates :: "nat \<Rightarrow> lifted_literal \<Rightarrow> bool" where
  "overapproximates k lit = (\<not> ll_polarity lit \<and> kpkc_arity lit = k \<or> ll_polarity lit \<and> kpkc_arity lit \<ge> k)"

definition overapproximation :: "nat \<Rightarrow> condition \<Rightarrow> condition" where
  "overapproximation k c = \<lparr>cond_arity = cond_arity c, cond_static = filter (overapproximates k) (cond_static c),
     cond_fluent = filter (overapproximates k) (cond_fluent c), cond_numeric = filter (\<lambda>nc. constraint_kpkc_arity nc \<ge> k) (cond_numeric c)\<rparr>"

definition conflicting :: "nat \<Rightarrow> condition \<Rightarrow> condition" where
  "conflicting k c = \<lparr>cond_arity = cond_arity c, cond_static = filter (\<lambda>lit. kpkc_arity lit > k) (cond_static c),
     cond_fluent = filter (\<lambda>lit. kpkc_arity lit > k) (cond_fluent c), cond_numeric = filter (\<lambda>nc. constraint_kpkc_arity nc > k) (cond_numeric c)\<rparr>"

text \<open>The nullary condition has ground literals, which are literals without parameters.\<close>

definition nullary :: "condition \<Rightarrow> condition" where
  "nullary c = \<lparr>cond_arity = 0, cond_static = filter (\<lambda>lit. parameter_arity lit = 0) (cond_static c),
     cond_fluent = filter (\<lambda>lit. parameter_arity lit = 0) (cond_fluent c), cond_numeric = filter (\<lambda>nc. constraint_parameter_arity nc = 0) (cond_numeric c)\<rparr>"

definition literal_kind :: "bool \<Rightarrow> lifted_literal \<Rightarrow> dep_kind" where
  "literal_kind fluent lit = (if fluent then if ll_polarity lit then Fluent_Positive else Fluent_Negative
     else if ll_polarity lit then Static_Positive else Static_Negative)"

definition condition_vdg :: "condition \<Rightarrow> vdg" where
  "condition_vdg c = make_vdg (cond_arity c) (map (\<lambda>lit. (literal_kind False lit, sort (collect_parameters lit))) (cond_static c)
     @ map (\<lambda>lit. (literal_kind True lit, sort (collect_parameters lit))) (cond_fluent c)
     @ map (\<lambda>nc. (Numeric, sort (constraint_parameters nc))) (cond_numeric c))"

section \<open>Applicability checks\<close>

text \<open>The checks remember which elements have not held yet; an element that has held once is not looked at again.\<close>

record applicability_part =
  ap_unsat_fluent :: "nat list"
  ap_unsat_numeric :: "nat list"
  ap_static :: bool

definition part_initialize :: "facts \<Rightarrow> nat list \<Rightarrow> condition \<Rightarrow> applicability_part" where
  "part_initialize S \<sigma> c = \<lparr>ap_unsat_fluent = [0..<length (cond_fluent c)], ap_unsat_numeric = [0..<length (cond_numeric c)],
     ap_static = list_all (literal_holds S \<sigma>) (cond_static c)\<rparr>"

definition part_dynamic :: "'v numeric_values \<Rightarrow> facts \<Rightarrow> nat list \<Rightarrow> condition \<Rightarrow> applicability_part \<Rightarrow> bool \<times> applicability_part" where
  "part_dynamic nv F \<sigma> c a =
     (let a = a\<lparr>ap_unsat_fluent := filter (\<lambda>i. \<not> literal_holds F \<sigma> (cond_fluent c ! i)) (ap_unsat_fluent a),
                ap_unsat_numeric := filter (\<lambda>i. \<not> constraint_holds nv \<sigma> (cond_numeric c ! i)) (ap_unsat_numeric a)\<rparr>
      in (ap_unsat_fluent a = [] \<and> ap_unsat_numeric a = [], a))"

record applicability_check =
  ac_nullary :: applicability_part
  ac_conflicting :: applicability_part

definition check_initialize :: "facts \<Rightarrow> nat list \<Rightarrow> condition \<Rightarrow> condition \<Rightarrow> applicability_check" where
  "check_initialize S \<sigma> null conf = \<lparr>ac_nullary = part_initialize S [] null, ac_conflicting = part_initialize S \<sigma> conf\<rparr>"

definition check_static :: "applicability_check \<Rightarrow> bool" where
  "check_static ac = (ap_static (ac_nullary ac) \<and> ap_static (ac_conflicting ac))"

definition check_dynamic :: "'v numeric_values \<Rightarrow> facts \<Rightarrow> nat list \<Rightarrow> condition \<Rightarrow> condition \<Rightarrow> applicability_check \<Rightarrow> bool \<times> applicability_check" where
  "check_dynamic nv F \<sigma> null conf ac =
     (let (ok, n) = part_dynamic nv F [] null (ac_nullary ac); ac = ac\<lparr>ac_nullary := n\<rparr>
      in if ok then
           let (ok', cf) = part_dynamic nv F \<sigma> conf (ac_conflicting ac) in (ok', ac\<lparr>ac_conflicting := cf\<rparr>)
         else (False, ac))"

section \<open>Parameters and arities\<close>

lemma foldl_max_zero: "foldl max (0 :: nat) ns = 0 \<longleftrightarrow> (\<forall>n \<in> set ns. n = 0)"
proof (induction ns rule: rev_induct)
  case (snoc n ns)
  then show ?case by (auto simp: max_def)
qed simp

lemma max_fterm_arity_zero: "max_fterm_arity e = 0"
proof (induction e)
  case (Multi_Op op e es)
  then show ?case using foldl_max_zero [of "map max_fterm_arity es"] by simp
qed (simp_all add: max_number_arity_def)

lemma constraint_kpkc_arity_eq: "constraint_kpkc_arity nc = constraint_parameter_arity nc"
  by (cases nc) (simp add: constraint_kpkc_arity_def constraint_parameter_arity_def max_fterm_arity_zero)

lemma distinct_constraint_parameters [simp]: "distinct (constraint_parameters nc)"
  by (cases nc) simp

lemma ground_term_cong: "(\<And>p. p \<in> set (term_parameters ts) \<Longrightarrow> \<sigma> ! p = \<tau> ! p) \<Longrightarrow> map (ground_term \<sigma>) ts = map (ground_term \<tau>) ts"
  by (induction ts rule: term_parameters.induct) simp_all

lemma eval_fexpr_cong: "(\<And>p. p \<in> set (fexpr_parameters e) \<Longrightarrow> \<sigma> ! p = \<tau> ! p) \<Longrightarrow> eval_fexpr nv \<sigma> e = eval_fexpr nv \<tau> e"
proof (induction e)
  case (Function_Term t)
  then have "map (ground_term \<sigma>) (ft_terms t) = map (ground_term \<tau>) (ft_terms t)" by (intro ground_term_cong) simp
  then show ?case by (simp only: eval_fexpr.simps)
next
  case (Multi_Op op e es)
  have "eval_fexpr nv \<sigma> e = eval_fexpr nv \<tau> e" using Multi_Op.IH(1) Multi_Op.prems by simp
  moreover have "eval_fexpr nv \<sigma> e' = eval_fexpr nv \<tau> e'" if "e' \<in> set es" for e'
    using Multi_Op.IH(2) [OF that] Multi_Op.prems that by auto
  then have "map (eval_fexpr nv \<sigma>) es = map (eval_fexpr nv \<tau>) es" by simp
  ultimately show ?case by (simp del: map_eq_conv)
qed simp_all

lemma constraint_holds_cong:
  "(\<And>p. p \<in> set (constraint_parameters nc) \<Longrightarrow> \<sigma> ! p = \<tau> ! p) \<Longrightarrow> constraint_holds nv \<sigma> nc = constraint_holds nv \<tau> nc"
proof (cases nc)
  case (Compare op lhs rhs)
  assume *: "\<And>p. p \<in> set (constraint_parameters nc) \<Longrightarrow> \<sigma> ! p = \<tau> ! p"
  have "eval_fexpr nv \<sigma> lhs = eval_fexpr nv \<tau> lhs" "eval_fexpr nv \<sigma> rhs = eval_fexpr nv \<tau> rhs"
    by (rule eval_fexpr_cong, use * Compare in simp)+
  then show ?thesis by (simp add: Compare)
qed

lemma literal_holds_cong:
  "(\<And>p. Param p \<in> set (ll_terms lit) \<Longrightarrow> \<sigma> ! p = \<tau> ! p) \<Longrightarrow> literal_holds F \<sigma> lit = literal_holds F \<tau> lit"
  unfolding literal_holds_def ground_atom_of_def using ground_term_cong [of "ll_terms lit" \<sigma> \<tau>] by (simp only: set_term_parameters)

lemma parameter_arity_zero: "parameter_arity lit = 0 \<longleftrightarrow> (\<forall>p. Param p \<notin> set (ll_terms lit))"
  by (simp add: parameter_arity_def collect_parameters_def term_parameters_empty)

lemma nullary_ground: "lit \<in> set (cond_static (nullary c)) \<union> set (cond_fluent (nullary c)) \<Longrightarrow> literal_holds F [] lit = literal_holds F \<sigma> lit"
  by (rule literal_holds_cong) (auto simp: nullary_def parameter_arity_zero)

lemma nullary_constraint: "nc \<in> set (cond_numeric (nullary c)) \<Longrightarrow> constraint_holds nv [] nc = constraint_holds nv \<sigma> nc"
  by (rule constraint_holds_cong) (auto simp: nullary_def constraint_parameter_arity_def)

lemma valid_nullary: "valid_binding nv S F [] (nullary c) = valid_binding nv S F \<sigma> (nullary c)"
  using nullary_ground [of _ c _ \<sigma>] nullary_constraint [of _ c nv \<sigma>] by (simp add: valid_binding_def list_all_iff)

section \<open>The checks decide validity\<close>

text \<open>
  Facts that may have been added while a check was alive. A literal that held keeps holding, so what the check remembers is the
  truth about the present facts.
\<close>

definition keeps_literals :: "condition \<Rightarrow> facts \<Rightarrow> facts \<Rightarrow> bool" where
  "keeps_literals c F F' \<longleftrightarrow> (\<forall>lit \<in> set (cond_fluent c). \<forall>\<sigma>. literal_holds F \<sigma> lit \<longrightarrow> literal_holds F' \<sigma> lit)"

definition part_ok :: "'v numeric_values \<Rightarrow> facts \<Rightarrow> facts \<Rightarrow> nat list \<Rightarrow> condition \<Rightarrow> applicability_part \<Rightarrow> bool" where
  "part_ok nv S F \<sigma> c a \<longleftrightarrow> ap_static a = list_all (literal_holds S \<sigma>) (cond_static c)
     \<and> (\<forall>i < length (cond_fluent c). i \<notin> set (ap_unsat_fluent a) \<longrightarrow> literal_holds F \<sigma> (cond_fluent c ! i))
     \<and> (\<forall>i < length (cond_numeric c). i \<notin> set (ap_unsat_numeric a) \<longrightarrow> constraint_holds nv \<sigma> (cond_numeric c ! i))
     \<and> set (ap_unsat_fluent a) \<subseteq> {..<length (cond_fluent c)} \<and> set (ap_unsat_numeric a) \<subseteq> {..<length (cond_numeric c)}"

lemma part_ok_initialize: "part_ok nv S F \<sigma> c (part_initialize S \<sigma> c)"
  by (auto simp: part_ok_def part_initialize_def)

lemma part_ok_keeps: "part_ok nv S F \<sigma> c a \<Longrightarrow> keeps_literals c F F' \<Longrightarrow> part_ok nv S F' \<sigma> c a"
  by (simp add: part_ok_def keeps_literals_def)

lemma filter_empty_nth: "set ixs \<subseteq> {..<length xs} \<Longrightarrow> (\<forall>i < length xs. i \<notin> set ixs \<longrightarrow> P (xs ! i)) \<Longrightarrow>
    filter (\<lambda>i. \<not> P (xs ! i)) ixs = [] \<longleftrightarrow> (\<forall>x \<in> set xs. P x)"
  unfolding filter_empty_conv by (metis in_set_conv_nth lessThan_iff subsetD)

lemma part_dynamic_spec:
  assumes "part_ok nv S F \<sigma> c a"
  shows "fst (part_dynamic nv F \<sigma> c a) \<longleftrightarrow> list_all (literal_holds F \<sigma>) (cond_fluent c) \<and> list_all (constraint_holds nv \<sigma>) (cond_numeric c)"
    and "part_ok nv S F \<sigma> c (snd (part_dynamic nv F \<sigma> c a))"
proof -
  have "filter (\<lambda>i. \<not> literal_holds F \<sigma> (cond_fluent c ! i)) (ap_unsat_fluent a) = [] \<longleftrightarrow> (\<forall>lit \<in> set (cond_fluent c). literal_holds F \<sigma> lit)"
    using assms by (intro filter_empty_nth) (simp_all add: part_ok_def)
  moreover have "filter (\<lambda>i. \<not> constraint_holds nv \<sigma> (cond_numeric c ! i)) (ap_unsat_numeric a) = [] \<longleftrightarrow> (\<forall>nc \<in> set (cond_numeric c). constraint_holds nv \<sigma> nc)"
    using assms by (intro filter_empty_nth) (simp_all add: part_ok_def)
  ultimately show "fst (part_dynamic nv F \<sigma> c a) \<longleftrightarrow> list_all (literal_holds F \<sigma>) (cond_fluent c) \<and> list_all (constraint_holds nv \<sigma>) (cond_numeric c)"
    by (simp add: part_dynamic_def list_all_iff)
  show "part_ok nv S F \<sigma> c (snd (part_dynamic nv F \<sigma> c a))" using assms by (auto simp: part_ok_def part_dynamic_def)
qed

definition check_ok :: "'v numeric_values \<Rightarrow> facts \<Rightarrow> facts \<Rightarrow> nat list \<Rightarrow> condition \<Rightarrow> condition \<Rightarrow> applicability_check \<Rightarrow> bool" where
  "check_ok nv S F \<sigma> null conf ac \<longleftrightarrow> part_ok nv S F [] null (ac_nullary ac) \<and> part_ok nv S F \<sigma> conf (ac_conflicting ac)"

lemma check_ok_initialize: "check_ok nv S F \<sigma> null conf (check_initialize S \<sigma> null conf)"
  by (simp add: check_ok_def check_initialize_def part_ok_initialize)

lemma check_ok_keeps: "check_ok nv S F \<sigma> null conf ac \<Longrightarrow> keeps_literals null F F' \<Longrightarrow> keeps_literals conf F F' \<Longrightarrow> check_ok nv S F' \<sigma> null conf ac"
  using part_ok_keeps by (auto simp: check_ok_def)

lemma check_dynamic_spec:
  assumes "check_ok nv S F \<sigma> null conf ac"
  shows "check_static ac \<and> fst (check_dynamic nv F \<sigma> null conf ac) \<longleftrightarrow> valid_binding nv S F [] null \<and> valid_binding nv S F \<sigma> conf"
    and "check_ok nv S F \<sigma> null conf (snd (check_dynamic nv F \<sigma> null conf ac))" "check_static (snd (check_dynamic nv F \<sigma> null conf ac)) = check_static ac"
proof -
  have n: "part_ok nv S F [] null (ac_nullary ac)" and c: "part_ok nv S F \<sigma> conf (ac_conflicting ac)" using assms by (simp_all add: check_ok_def)
  have static: "check_static ac \<longleftrightarrow> list_all (literal_holds S []) (cond_static null) \<and> list_all (literal_holds S \<sigma>) (cond_static conf)"
    using n c by (simp add: check_static_def part_ok_def)
  show "check_static ac \<and> fst (check_dynamic nv F \<sigma> null conf ac) \<longleftrightarrow> valid_binding nv S F [] null \<and> valid_binding nv S F \<sigma> conf"
    using part_dynamic_spec(1) [OF n] part_dynamic_spec(1) [OF c] unfolding static
    by (auto simp: check_dynamic_def valid_binding_def split_beta Let_def)
  show "check_ok nv S F \<sigma> null conf (snd (check_dynamic nv F \<sigma> null conf ac))"
    using part_dynamic_spec(2) [OF n] part_dynamic_spec(2) [OF c] n c by (simp add: check_dynamic_def check_ok_def split_beta Let_def)
  show "check_static (snd (check_dynamic nv F \<sigma> null conf ac)) = check_static ac"
    by (simp add: check_dynamic_def check_static_def part_dynamic_def split_beta Let_def)
qed

section \<open>The dependency graph of a condition\<close>

definition condition_ok :: "nat list \<Rightarrow> nat list \<Rightarrow> nat \<Rightarrow> condition \<Rightarrow> bool" where
  "condition_ok sarities farities n c \<longleftrightarrow> (\<forall>lit \<in> set (cond_static c). literal_ok (cond_arity c) sarities n lit)
     \<and> (\<forall>lit \<in> set (cond_fluent c). literal_ok (cond_arity c) farities n lit)
     \<and> (\<forall>nc \<in> set (cond_numeric c). \<forall>p \<in> set (constraint_parameters nc). p < cond_arity c)"

definition condition_elements :: "condition \<Rightarrow> condition_element list" where
  "condition_elements c = map (\<lambda>lit. (literal_kind False lit, sort (collect_parameters lit))) (cond_static c)
     @ map (\<lambda>lit. (literal_kind True lit, sort (collect_parameters lit))) (cond_fluent c)
     @ map (\<lambda>nc. (Numeric, sort (constraint_parameters nc))) (cond_numeric c)"

lemma condition_vdg_elements: "condition_vdg c = make_vdg (cond_arity c) (condition_elements c)"
  by (simp add: condition_vdg_def condition_elements_def)

lemma condition_elements_wf: "condition_ok sarities farities n c \<Longrightarrow> well_formed_condition (cond_arity c) (condition_elements c)"
  by (auto simp: well_formed_condition_def condition_elements_def condition_ok_def literal_ok_def)

lemma literal_kind_iff: "literal_kind True lit = Fluent_Positive \<longleftrightarrow> ll_polarity lit" "literal_kind True lit = Fluent_Negative \<longleftrightarrow> \<not> ll_polarity lit"
  "literal_kind True lit \<noteq> Numeric" "literal_kind False lit \<noteq> Fluent_Positive" "literal_kind False lit \<noteq> Fluent_Negative" "literal_kind False lit \<noteq> Numeric"
  by (simp_all add: literal_kind_def)

section \<open>Sequences of checks\<close>

text \<open>A check that is asked again after every change of the facts, as for a pending rule.\<close>

fun check_run :: "'v numeric_values \<Rightarrow> nat list \<Rightarrow> condition \<Rightarrow> condition \<Rightarrow> facts list \<Rightarrow> applicability_check \<Rightarrow> bool list" where
  "check_run nv \<sigma> null conf [] ac = []"
| "check_run nv \<sigma> null conf (F # Fs) ac =
     (let (ok, ac) = check_dynamic nv F \<sigma> null conf ac in (check_static ac \<and> ok) # check_run nv \<sigma> null conf Fs ac)"

lemma check_run_spec:
  assumes "check_ok nv S F \<sigma> null conf ac" "sorted_wrt (\<lambda>F F'. keeps_literals null F F' \<and> keeps_literals conf F F') (F # Fs)"
  shows "check_run nv \<sigma> null conf (F # Fs) ac = map (\<lambda>F. valid_binding nv S F [] null \<and> valid_binding nv S F \<sigma> conf) (F # Fs)"
  using assms
proof (induction Fs arbitrary: F ac)
  case Nil
  then show ?case using check_dynamic_spec [OF Nil.prems(1)] by (simp add: split_beta Let_def)
next
  case (Cons F' Fs)
  let ?ac = "snd (check_dynamic nv F \<sigma> null conf ac)"
  note D = check_dynamic_spec [OF Cons.prems(1)]
  have ok: "check_ok nv S F' \<sigma> null conf ?ac" by (rule check_ok_keeps [OF D(2)]) (use Cons.prems(2) in simp_all)
  have "check_run nv \<sigma> null conf (F' # Fs) ?ac = map (\<lambda>F. valid_binding nv S F [] null \<and> valid_binding nv S F \<sigma> conf) (F' # Fs)"
    by (rule Cons.IH [OF ok]) (use Cons.prems(2) in simp)
  moreover have "check_run nv \<sigma> null conf (F # F' # Fs) ac = (check_static ?ac \<and> fst (check_dynamic nv F \<sigma> null conf ac)) # check_run nv \<sigma> null conf (F' # Fs) ?ac"
    by (subst check_run.simps(2)) (simp only: split_beta Let_def)
  ultimately show ?case using D(1,3) by simp
qed

text \<open>
  C39. An applicability check that remembers what has held answers, after every change of the facts that keeps literals true,
  exactly whether the nullary and the conflicting part of the body hold for its binding now.
\<close>

theorem applicability_check_decides:
  assumes "sorted_wrt (\<lambda>F F'. keeps_literals (nullary c) F F' \<and> keeps_literals (conflicting k c) F F') Fs"
  shows "check_run nv \<sigma> (nullary c) (conflicting k c) Fs (check_initialize S \<sigma> (nullary c) (conflicting k c))
    = map (\<lambda>F. valid_binding nv S F [] (nullary c) \<and> valid_binding nv S F \<sigma> (conflicting k c)) Fs"
proof (cases Fs)
  case (Cons F Fs')
  show ?thesis using check_run_spec [OF check_ok_initialize, of "nullary c" "conflicting k c" F Fs'] assms unfolding Cons by blast
qed simp

lemma applicability_check_decides_witness:
  "\<exists>nullary_atom three. nullary_atom = \<lparr>ll_predicate = 0, ll_arity = 0, ll_polarity = True, ll_terms = []\<rparr>
     \<and> three = \<lparr>ll_predicate = 1, ll_arity = 3, ll_polarity = True, ll_terms = [Param 0, Param 1, Obj 0]\<rparr>
     \<and> (let c = \<lparr>cond_arity = 2, cond_static = [], cond_fluent = [nullary_atom, three], cond_numeric = []\<rparr>
        in check_run (undefined :: nat numeric_values) [1, 0] (nullary c) (conflicting 2 c) [{}, {(0, [])}, {(0, []), (1, [1, 0, 0])}]
             (check_initialize {} [1, 0] (nullary c) (conflicting 2 c)) = [False, False, True])"
proof -
  let ?c = "\<lparr>cond_arity = 2, cond_static = [], cond_fluent = [\<lparr>ll_predicate = 0, ll_arity = 0, ll_polarity = True, ll_terms = []\<rparr>,
    \<lparr>ll_predicate = 1, ll_arity = 3, ll_polarity = True, ll_terms = [Param 0, Param 1, Obj 0]\<rparr>], cond_numeric = []\<rparr>"
  have "sorted_wrt (\<lambda>F F'. keeps_literals (nullary ?c) F F' \<and> keeps_literals (conflicting 2 ?c) F F') [{}, {(0, [])}, {(0, []), (1, [1, 0, 0])}]"
    by (auto simp: keeps_literals_def literal_holds_def nullary_def conflicting_def)
  from applicability_check_decides [OF this, of "undefined :: nat numeric_values" "[1, 0]" "{}"] show ?thesis
    by (simp add: Let_def valid_binding_def nullary_def conflicting_def parameter_arity_def collect_parameters_def kpkc_arity_def literal_holds_def ground_atom_of_def)
qed

text \<open>
  The arity of a function never counts: \<^verbatim>\<open>max_fterm_arity\<close> of a function term is that of a number, which is 0. So the part of
  the numeric constraints that is rechecked, and the part that the graph is built from, depend on the number of parameters only.
\<close>

lemma function_arity_ignored:
  "cond_numeric (conflicting k c) = filter (\<lambda>nc. k < constraint_parameter_arity nc) (cond_numeric c)
   \<and> cond_numeric (overapproximation k c) = filter (\<lambda>nc. k \<le> constraint_parameter_arity nc) (cond_numeric c)"
  by (simp_all add: conflicting_def overapproximation_def constraint_kpkc_arity_eq)

end
