(* ===== verification/Kpkc_Graph.thy ===== *)
theory Kpkc_Graph
  imports Variable_Dependencies
begin

text \<open>
  \<^verbatim>\<open>include/tyr/datalog/delta_kpkc_graph.hpp\<close> and \<^verbatim>\<open>src/datalog/delta_kpkc_graph.cpp\<close>: the layout of a k-partite graph and the graphs over it. A
  vertex is its index; the vertices of a partition are numbered consecutively, and a set of vertices of a partition is the set of
  their positions in it, for which the code uses a \<open>BitsetSpan\<close> (see the theory of pos set spans). The storage of the
  explicit adjacency sets is a function from vertex and partition.
\<close>

section \<open>Layout\<close>

record bitset_info =
  bit_offset :: nat
  num_bits :: nat
  block_offset :: nat
  info_blocks :: nat

record layout =
  nv :: nat
  lk :: nat
  vertex_partitions :: "nat list list"
  vertex_to_partition :: "nat list"
  vertex_to_bit :: "nat list"
  infos :: "bitset_info list"
  layout_blocks :: nat

fun verify_from :: "nat \<Rightarrow> nat list \<Rightarrow> bool" where
  "verify_from i [] \<longleftrightarrow> True"
| "verify_from i (v # vs) \<longleftrightarrow> v = i \<and> verify_from (Suc i) vs"

definition verify_vertex_partitions :: "nat list list \<Rightarrow> bool" where
  "verify_vertex_partitions parts = verify_from 0 (concat parts)"

text \<open>One vertex of partition \<open>p\<close>; the state is the two tables, the position in the partition and the bit offset.\<close>

definition layout_vertex :: "nat \<Rightarrow> nat \<Rightarrow> nat list \<times> nat list \<times> nat \<times> nat \<Rightarrow> nat list \<times> nat list \<times> nat \<times> nat" where
  "layout_vertex p v st = (case st of (vtp, vtb, pos, offset) \<Rightarrow> (vtp[v := p], vtb[v := pos], Suc pos, Suc offset))"

fun layout_partitions :: "nat \<Rightarrow> nat list list \<Rightarrow> nat list \<times> nat list \<times> nat \<times> nat \<Rightarrow> bitset_info list
    \<Rightarrow> nat list \<times> nat list \<times> bitset_info list \<times> nat" where
  "layout_partitions p [] (vtp, vtb, block, offset) rest = (vtp, vtb, rest, block)"
| "layout_partitions p (part # parts) (vtp, vtb, block, offset) rest =
     (let blocks = (length part + 63) div 64;
          i = \<lparr>bit_offset = offset, num_bits = length part, block_offset = block, info_blocks = blocks\<rparr>;
          (vtp, vtb, _, offset) = fold (layout_vertex p) part (vtp, vtb, 0, offset)
      in layout_partitions (Suc p) parts (vtp, vtb, block + blocks, offset) (rest @ [i]))"

definition make_layout :: "nat \<Rightarrow> nat list list \<Rightarrow> layout" where
  "make_layout n parts =
     (let (vtp, vtb, rest, blocks) = layout_partitions 0 parts (replicate n 0, replicate n 0, 0, 0) []
      in \<lparr>nv = n, lk = length parts, vertex_partitions = parts, vertex_to_partition = vtp, vertex_to_bit = vtb,
           infos = rest, layout_blocks = blocks\<rparr>)"

section \<open>Graphs\<close>

record kgraph =
  affected :: "nat set list"
  delta_parts :: "nat set list"
  cells :: "nat \<Rightarrow> nat \<Rightarrow> nat set"
  touched :: "nat set"
  graph_vdg :: vdg

definition make_graph :: "layout \<Rightarrow> vdg \<Rightarrow> kgraph" where
  "make_graph lo g = \<lparr>affected = replicate (lk lo) {}, delta_parts = replicate (lk lo) {}, cells = (\<lambda>v p. {}), touched = {}, graph_vdg = g\<rparr>"

text \<open>The vertex at a position of a partition, and the partition and position of a vertex.\<close>

definition vertex_at :: "layout \<Rightarrow> nat \<Rightarrow> nat \<Rightarrow> nat" where
  "vertex_at lo p b = bit_offset (infos lo ! p) + b"

text \<open>
  The set of neighbours of \<open>v\<close> in partition \<open>p\<close>: stored when the two partitions depend on each other, and otherwise
  derived from the active vertices.
\<close>

definition get_bitset :: "layout \<Rightarrow> kgraph \<Rightarrow> nat \<Rightarrow> nat \<Rightarrow> nat set" where
  "get_bitset lo G v p =
     (let pv = vertex_to_partition lo ! v
      in if has_dependency (graph_vdg G) pv p then cells G v p
         else if vertex_to_bit lo ! v \<in> delta_parts G ! pv then affected G ! p else delta_parts G ! p)"

text \<open>The loops of \<open>for_each_vertex\<close> and \<open>for_each_edge\<close>, with the arguments of the callback in order.\<close>

fun vertices_from :: "kgraph \<Rightarrow> nat \<Rightarrow> bitset_info list \<Rightarrow> nat \<Rightarrow> nat list" where
  "vertices_from G offset [] p = []"
| "vertices_from G offset (i # rest) p =
     map (\<lambda>b. offset + b) (sorted_list_of_set (affected G ! p)) @ vertices_from G (offset + num_bits i) rest (Suc p)"

definition for_each_vertex :: "layout \<Rightarrow> kgraph \<Rightarrow> nat list" where
  "for_each_vertex lo G = vertices_from G 0 (infos lo) 0"

definition mk_edge :: "nat \<Rightarrow> nat \<Rightarrow> nat \<times> nat" where
  "mk_edge u v = (if u < v then u else v, if u < v then v else u)"

fun edges_to :: "layout \<Rightarrow> kgraph \<Rightarrow> nat \<Rightarrow> nat \<Rightarrow> bitset_info list \<Rightarrow> nat \<Rightarrow> (nat \<times> nat) list" where
  "edges_to lo G u offset [] q = []"
| "edges_to lo G u offset (i # rest) q =
     map (\<lambda>b. mk_edge u (offset + b)) (sorted_list_of_set (get_bitset lo G u q \<inter> affected G ! q))
     @ edges_to lo G u (offset + num_bits i) rest (Suc q)"

fun edges_from :: "layout \<Rightarrow> kgraph \<Rightarrow> nat \<Rightarrow> bitset_info list \<Rightarrow> nat \<Rightarrow> (nat \<times> nat) list" where
  "edges_from lo G offset [] p = []"
| "edges_from lo G offset (i # rest) p =
     concat (map (\<lambda>b. edges_to lo G (offset + b) (offset + num_bits i) rest (Suc p)) (sorted_list_of_set (affected G ! p)))
     @ edges_from lo G (offset + num_bits i) rest (Suc p)"

definition for_each_edge :: "layout \<Rightarrow> kgraph \<Rightarrow> (nat \<times> nat) list" where
  "for_each_edge lo G = edges_from lo G 0 (infos lo) 0"

text \<open>\<open>reset\<close> clears the cells whose index \<open>v * k + p\<close> is marked.\<close>

definition reset_cell :: "layout \<Rightarrow> nat \<Rightarrow> (nat \<Rightarrow> nat \<Rightarrow> nat set) \<Rightarrow> nat \<Rightarrow> nat \<Rightarrow> nat set" where
  "reset_cell lo t c = (\<lambda>v p. if v = t div lk lo \<and> p = t mod lk lo then {} else c v p)"

definition graph_reset :: "layout \<Rightarrow> kgraph \<Rightarrow> kgraph" where
  "graph_reset lo G = G\<lparr>affected := map (\<lambda>_. {}) (affected G), delta_parts := map (\<lambda>_. {}) (delta_parts G),
     cells := fold (reset_cell lo) (sorted_list_of_set (touched G)) (cells G), touched := {}\<rparr>"

section \<open>Facts on layouts\<close>

text \<open>The number of vertices before partition \<open>p\<close>.\<close>

definition part_offset :: "nat list list \<Rightarrow> nat \<Rightarrow> nat" where
  "part_offset parts p = length (concat (take p parts))"

definition layout_ok :: "layout \<Rightarrow> bool" where
  "layout_ok lo \<longleftrightarrow> length (infos lo) = lk lo
     \<and> (\<forall>p < lk lo. bit_offset (infos lo ! p) = sum_list (map num_bits (take p (infos lo))))
     \<and> (\<forall>p < lk lo. \<forall>b < num_bits (infos lo ! p).
          vertex_to_partition lo ! vertex_at lo p b = p \<and> vertex_to_bit lo ! vertex_at lo p b = b)"

lemma verify_from_iff: "verify_from i vs \<longleftrightarrow> vs = [i..<i + length vs]"
  by (induction vs arbitrary: i) (auto simp: upt_rec)

lemma fold_layout_vertex:
  assumes "part = [offset..<offset + length part]" "offset + length part \<le> length vtp" "length vtb = length vtp"
  shows "fold (layout_vertex p) part (vtp, vtb, pos, offset) =
    (take offset vtp @ replicate (length part) p @ drop (offset + length part) vtp,
     take offset vtb @ map (\<lambda>b. pos + b) [0..<length part] @ drop (offset + length part) vtb, pos + length part, offset + length part)"
  using assms
proof (induction part arbitrary: offset pos vtp vtb)
  case (Cons v part)
  have v: "v = offset" "part = [Suc offset..<Suc offset + length part]"
    using Cons.prems(1) by (auto simp: upt_rec)
  have off: "offset < length vtp" "offset < length vtb" using Cons.prems(2,3) by auto
  have "fold (layout_vertex p) part (vtp[offset := p], vtb[offset := pos], Suc pos, Suc offset) =
    (take (Suc offset) (vtp[offset := p]) @ replicate (length part) p @ drop (Suc offset + length part) (vtp[offset := p]),
     take (Suc offset) (vtb[offset := pos]) @ map (\<lambda>b. Suc pos + b) [0..<length part] @ drop (Suc offset + length part) (vtb[offset := pos]),
     Suc pos + length part, Suc offset + length part)"
    using v(2) Cons.prems(2,3) by (intro Cons.IH) auto
  moreover have "take (Suc offset) (vtp[offset := p]) = take offset vtp @ [p]" "take (Suc offset) (vtb[offset := pos]) = take offset vtb @ [pos]"
    using off by (simp_all add: take_Suc_conv_app_nth)
  moreover have "map (\<lambda>b. pos + b) [0..<Suc (length part)] = pos # map (\<lambda>b. Suc pos + b) [0..<length part]"
    by (simp add: map_upt_Suc del: upt_Suc)
  moreover have "layout_vertex p v (vtp, vtb, pos, offset) = (vtp[offset := p], vtb[offset := pos], Suc pos, Suc offset)"
    using v(1) by (simp add: layout_vertex_def)
  ultimately show ?case by (simp del: upt_Suc)
qed simp

lemma layout_partitions_spec:
  assumes "concat parts = [offset..<offset + length (concat parts)]" "offset + length (concat parts) \<le> length vtp" "length vtb = length vtp"
  shows "\<exists>vtp' vtb' new block'. layout_partitions p parts (vtp, vtb, block, offset) acc = (vtp', vtb', acc @ new, block')
    \<and> length new = length parts \<and> take offset vtp' = take offset vtp \<and> take offset vtb' = take offset vtb
    \<and> (\<forall>q < length parts. num_bits (new ! q) = length (parts ! q) \<and> bit_offset (new ! q) = offset + part_offset parts q
      \<and> (\<forall>b < length (parts ! q). vtp' ! (offset + part_offset parts q + b) = p + q \<and> vtb' ! (offset + part_offset parts q + b) = b))"
  using assms
proof (induction parts arbitrary: p vtp vtb block offset acc)
  case (Cons part parts)
  let ?m = "length part" and ?o = "offset + length part"
  have split: "part = [offset..<?o]" "concat parts = [?o..<?o + length (concat parts)]"
  proof -
    have e: "part @ concat parts = [offset..<?o] @ [?o..<?o + length (concat parts)]"
      using Cons.prems(1) upt_add_eq_append [of offset ?o "length (concat parts)"] by (simp add: add.assoc)
    then show "part = [offset..<?o]" "concat parts = [?o..<?o + length (concat parts)]" by (simp_all add: append_eq_append_conv)
  qed
  define vtp1 where "vtp1 = take offset vtp @ replicate ?m p @ drop ?o vtp"
  define vtb1 where "vtb1 = take offset vtb @ map (\<lambda>b. 0 + b) [0..<?m] @ drop ?o vtb"
  have fold: "fold (layout_vertex p) part (vtp, vtb, 0, offset) = (vtp1, vtb1, 0 + ?m, ?o)"
    unfolding vtp1_def vtb1_def using split(1) Cons.prems(2,3) by (intro fold_layout_vertex) auto
  have len: "length vtp1 = length vtp" "length vtb1 = length vtp" "take offset vtp1 = take offset vtp" "take offset vtb1 = take offset vtb"
    using Cons.prems(2,3) by (simp_all add: vtp1_def vtb1_def)
  let ?i = "\<lparr>bit_offset = offset, num_bits = ?m, block_offset = block, info_blocks = (?m + 63) div 64\<rparr>"
  obtain vtp' vtb' new block' where r: "layout_partitions (Suc p) parts (vtp1, vtb1, block + (?m + 63) div 64, ?o) (acc @ [?i]) = (vtp', vtb', (acc @ [?i]) @ new, block')"
    "length new = length parts" "take ?o vtp' = take ?o vtp1" "take ?o vtb' = take ?o vtb1"
    "\<forall>q < length parts. num_bits (new ! q) = length (parts ! q) \<and> bit_offset (new ! q) = ?o + part_offset parts q
      \<and> (\<forall>b < length (parts ! q). vtp' ! (?o + part_offset parts q + b) = Suc p + q \<and> vtb' ! (?o + part_offset parts q + b) = b)"
    using Cons.IH [of ?o vtp1 vtb1 "Suc p" "block + (?m + 63) div 64" "acc @ [?i]"] split(2) Cons.prems(2) len by auto
  have nth: "vtp' ! j = vtp1 ! j" "vtb' ! j = vtb1 ! j" if "j < ?o" for j using that r(3,4) by (metis nth_take)+
  have low: "take offset vtp' = take offset vtp" "take offset vtb' = take offset vtb"
    using r(3,4) len(3,4) by (metis le_add1 min.absorb1 take_take)+
  have first: "vtp' ! (offset + b) = p \<and> vtb' ! (offset + b) = b" if "b < ?m" for b
    using that nth [of "offset + b"] Cons.prems(2,3) by (simp add: vtp1_def vtb1_def nth_append)
  have po: "part_offset (part # parts) q = (case q of 0 \<Rightarrow> 0 | Suc q \<Rightarrow> ?m + part_offset parts q)" for q
    by (simp add: part_offset_def split: nat.splits)
  have all: "num_bits ((?i # new) ! q) = length ((part # parts) ! q) \<and> bit_offset ((?i # new) ! q) = offset + part_offset (part # parts) q
      \<and> (\<forall>b < length ((part # parts) ! q). vtp' ! (offset + part_offset (part # parts) q + b) = p + q \<and> vtb' ! (offset + part_offset (part # parts) q + b) = b)"
    if "q < length (part # parts)" for q
  proof (cases q)
    case 0
    then show ?thesis using first po [of 0] by simp
  next
    case (Suc q')
    then show ?thesis using r(5) that po [of q] by (simp add: add.assoc)
  qed
  have run: "layout_partitions p (part # parts) (vtp, vtb, block, offset) acc = (vtp', vtb', acc @ ?i # new, block')"
    using r(1) fold by (simp add: Let_def)
  show ?case using run low r(2) all by (intro exI [of _ vtp'] exI [of _ vtb'] exI [of _ "?i # new"] exI [of _ block']) auto
qed (simp add: part_offset_def)

lemma part_offset_sum: "q \<le> length parts \<Longrightarrow> part_offset parts q = sum_list (map length (take q parts))"
  by (simp add: part_offset_def length_concat)

lemma make_layout_ok:
  assumes "verify_vertex_partitions parts" "n = length (concat parts)"
  shows "layout_ok (make_layout n parts)" "lk (make_layout n parts) = length parts"
    "p < length parts \<Longrightarrow> num_bits (infos (make_layout n parts) ! p) = length (parts ! p)"
proof -
  have c: "concat parts = [0..<0 + length (concat parts)]" using assms(1) by (simp add: verify_vertex_partitions_def verify_from_iff)
  obtain vtp vtb new blocks where r: "layout_partitions 0 parts (replicate n 0, replicate n 0, 0, 0) [] = (vtp, vtb, [] @ new, blocks)"
    "length new = length parts"
    "\<forall>q < length parts. num_bits (new ! q) = length (parts ! q) \<and> bit_offset (new ! q) = 0 + part_offset parts q
      \<and> (\<forall>b < length (parts ! q). vtp ! (0 + part_offset parts q + b) = 0 + q \<and> vtb ! (0 + part_offset parts q + b) = b)"
    using layout_partitions_spec [OF c, of "replicate n 0" "replicate n 0" 0 0 "[]"] assms(2) by auto
  have m: "make_layout n parts = \<lparr>nv = n, lk = length parts, vertex_partitions = parts, vertex_to_partition = vtp, vertex_to_bit = vtb, infos = new, layout_blocks = blocks\<rparr>"
    using r(1) by (simp add: make_layout_def)
  have "map num_bits (take q new) = map length (take q parts)" if "q < length parts" for q
    using that r(2,3) by (intro nth_equalityI) auto
  then show "layout_ok (make_layout n parts)" "lk (make_layout n parts) = length parts"
    "p < length parts \<Longrightarrow> num_bits (infos (make_layout n parts) ! p) = length (parts ! p)"
    unfolding m layout_ok_def vertex_at_def using r(2,3) by (auto simp: part_offset_sum)
qed

lemma vertex_at_tables:
  assumes "layout_ok lo" "p < lk lo" "b < num_bits (infos lo ! p)"
  shows "vertex_to_partition lo ! vertex_at lo p b = p" "vertex_to_bit lo ! vertex_at lo p b = b"
  using assms by (auto simp: layout_ok_def)

lemma vertex_at_inj:
  assumes "layout_ok lo" "p < lk lo" "b < num_bits (infos lo ! p)" "q < lk lo" "c < num_bits (infos lo ! q)"
  shows "vertex_at lo p b = vertex_at lo q c \<longleftrightarrow> p = q \<and> b = c"
  using vertex_at_tables [OF assms(1-3)] vertex_at_tables [OF assms(1,4,5)] by metis

lemma bit_offset_Suc:
  assumes "layout_ok lo" "Suc p < lk lo"
  shows "bit_offset (infos lo ! Suc p) = bit_offset (infos lo ! p) + num_bits (infos lo ! p)"
  using assms by (simp add: layout_ok_def take_Suc_conv_app_nth)

lemma vertex_at_less:
  assumes "layout_ok lo" "p < q" "q < lk lo" "b < num_bits (infos lo ! p)"
  shows "vertex_at lo p b < vertex_at lo q c"
proof -
  have "bit_offset (infos lo ! p) + num_bits (infos lo ! p) \<le> bit_offset (infos lo ! q)"
    using assms(2,3)
  proof (induction q)
    case (Suc q)
    then show ?case using bit_offset_Suc [OF assms(1) Suc.prems(2)] by (cases "p = q") auto
  qed simp
  then show ?thesis using assms(4) by (simp add: vertex_at_def)
qed

section \<open>Facts on the loops\<close>

text \<open>The sets of a graph stay within the partitions.\<close>

definition graph_ok :: "layout \<Rightarrow> kgraph \<Rightarrow> bool" where
  "graph_ok lo G \<longleftrightarrow> length (affected G) = lk lo \<and> length (delta_parts G) = lk lo
     \<and> (\<forall>p < lk lo. affected G ! p \<subseteq> {..<num_bits (infos lo ! p)} \<and> delta_parts G ! p \<subseteq> affected G ! p)"

lemma graph_okD:
  assumes "graph_ok lo G" "p < lk lo"
  shows "b \<in> affected G ! p \<Longrightarrow> b < num_bits (infos lo ! p)" "b \<in> delta_parts G ! p \<Longrightarrow> b \<in> affected G ! p" "finite (affected G ! p)"
  using assms finite_subset [of "affected G ! p"] by (auto simp: graph_ok_def)

text \<open>The loops with their running offset, as comprehensions over the partitions.\<close>

lemma infos_cases:
  assumes "layout_ok lo" "rest = drop p (infos lo)" "rest \<noteq> [] \<longrightarrow> offset = bit_offset (infos lo ! p)"
  obtains "rest = []" "lk lo \<le> p" | i rest' where "rest = i # rest'" "p < lk lo" "i = infos lo ! p" "rest' = drop (Suc p) (infos lo)"
    "offset = bit_offset (infos lo ! p)" "rest' \<noteq> [] \<longrightarrow> offset + num_bits i = bit_offset (infos lo ! Suc p)"
proof (cases "p < lk lo")
  case True
  have len: "length (infos lo) = lk lo" using assms(1) by (simp add: layout_ok_def)
  have "rest = infos lo ! p # drop (Suc p) (infos lo)" using True assms(2) len by (simp add: Cons_nth_drop_Suc)
  then show ?thesis using that(2) True assms(3) bit_offset_Suc [OF assms(1), of p] len by auto
next
  case False
  then show ?thesis using that(1) assms(1,2) by (simp add: layout_ok_def)
qed

lemma bit_offset_0: "layout_ok lo \<Longrightarrow> infos lo \<noteq> [] \<longrightarrow> 0 = bit_offset (infos lo ! 0)"
  by (cases "lk lo") (auto simp: layout_ok_def)

lemma vertices_from_eq:
  assumes "layout_ok lo" "rest = drop p (infos lo)" "rest \<noteq> [] \<longrightarrow> offset = bit_offset (infos lo ! p)"
  shows "vertices_from G offset rest p = concat (map (\<lambda>q. map (vertex_at lo q) (sorted_list_of_set (affected G ! q))) [p..<lk lo])"
  using assms(2,3)
proof (induction rest arbitrary: p offset)
  case Nil
  then have "lk lo \<le> p" using assms(1) by (simp add: layout_ok_def)
  then show ?case by simp
next
  case (Cons i rest)
  from infos_cases [OF assms(1) Cons.prems]
  show ?case
  proof cases
    case (2 i' rest')
    then show ?thesis using Cons.IH [of "Suc p" "offset + num_bits i"] by (simp add: upt_conv_Cons vertex_at_def)
  qed simp
qed

lemma edges_to_eq:
  assumes "layout_ok lo" "rest = drop p (infos lo)" "rest \<noteq> [] \<longrightarrow> offset = bit_offset (infos lo ! p)"
  shows "edges_to lo G u offset rest p =
    concat (map (\<lambda>q. map (\<lambda>b. mk_edge u (vertex_at lo q b)) (sorted_list_of_set (get_bitset lo G u q \<inter> affected G ! q))) [p..<lk lo])"
  using assms(2,3)
proof (induction rest arbitrary: p offset)
  case Nil
  then have "lk lo \<le> p" using assms(1) by (simp add: layout_ok_def)
  then show ?case by simp
next
  case (Cons i rest)
  from infos_cases [OF assms(1) Cons.prems]
  show ?case
  proof cases
    case (2 i' rest')
    then show ?thesis using Cons.IH [of "Suc p" "offset + num_bits i"] by (simp add: upt_conv_Cons vertex_at_def)
  qed simp
qed

definition edges_of :: "layout \<Rightarrow> kgraph \<Rightarrow> nat \<Rightarrow> nat \<Rightarrow> (nat \<times> nat) list" where
  "edges_of lo G p b = concat (map (\<lambda>q. map (\<lambda>c. mk_edge (vertex_at lo p b) (vertex_at lo q c))
     (sorted_list_of_set (get_bitset lo G (vertex_at lo p b) q \<inter> affected G ! q))) [Suc p..<lk lo])"

lemma edges_from_eq:
  assumes "layout_ok lo" "rest = drop p (infos lo)" "rest \<noteq> [] \<longrightarrow> offset = bit_offset (infos lo ! p)"
  shows "edges_from lo G offset rest p = concat (map (\<lambda>q. concat (map (edges_of lo G q) (sorted_list_of_set (affected G ! q)))) [p..<lk lo])"
  using assms(2,3)
proof (induction rest arbitrary: p offset)
  case Nil
  then have "lk lo \<le> p" using assms(1) by (simp add: layout_ok_def)
  then show ?case by simp
next
  case (Cons i rest)
  from infos_cases [OF assms(1) Cons.prems]
  show ?case
  proof cases
    case (2 i' rest')
    then have "edges_to lo G (offset + b) (offset + num_bits i) rest (Suc p) = edges_of lo G p b" for b
      using edges_to_eq [OF assms(1), of rest "Suc p" "offset + num_bits i"] by (simp add: edges_of_def vertex_at_def)
    with 2 show ?thesis using Cons.IH [of "Suc p" "offset + num_bits i"] by (simp add: upt_conv_Cons)
  qed simp
qed

lemma for_each_vertex_eq:
  assumes "layout_ok lo"
  shows "for_each_vertex lo G = concat (map (\<lambda>q. map (vertex_at lo q) (sorted_list_of_set (affected G ! q))) [0..<lk lo])"
  using vertices_from_eq [OF assms _ bit_offset_0 [OF assms]] by (simp add: for_each_vertex_def)

lemma for_each_edge_eq:
  assumes "layout_ok lo"
  shows "for_each_edge lo G = concat (map (\<lambda>q. concat (map (edges_of lo G q) (sorted_list_of_set (affected G ! q)))) [0..<lk lo])"
  using edges_from_eq [OF assms _ bit_offset_0 [OF assms]] by (simp add: for_each_edge_def)

lemma distinct_concat_map:
  assumes "distinct xs" "\<And>x. x \<in> set xs \<Longrightarrow> distinct (f x)" "\<And>x y z. x \<in> set xs \<Longrightarrow> y \<in> set xs \<Longrightarrow> z \<in> set (f x) \<Longrightarrow> z \<in> set (f y) \<Longrightarrow> x = y"
  shows "distinct (concat (map f xs))"
  using assms
proof (induction xs)
  case (Cons x xs)
  then have "z \<notin> set (f y)" if "y \<in> set xs" "z \<in> set (f x)" for y z using that by (metis distinct.simps(2) list.set_intros)
  with Cons show ?case by (auto simp: disjoint_iff)
qed simp

lemma set_sorted_affected: "graph_ok lo G \<Longrightarrow> p < lk lo \<Longrightarrow> set (sorted_list_of_set (affected G ! p)) = affected G ! p"
  using graph_okD(3) by simp

lemma for_each_vertex_spec:
  assumes "layout_ok lo" "graph_ok lo G"
  shows "v \<in> set (for_each_vertex lo G) \<longleftrightarrow> (\<exists>p < lk lo. \<exists>b \<in> affected G ! p. v = vertex_at lo p b)" "distinct (for_each_vertex lo G)"
proof -
  show "v \<in> set (for_each_vertex lo G) \<longleftrightarrow> (\<exists>p < lk lo. \<exists>b \<in> affected G ! p. v = vertex_at lo p b)"
    unfolding for_each_vertex_eq [OF assms(1)] by (auto simp: set_sorted_affected [OF assms(2)])
  show "distinct (for_each_vertex lo G)"
    unfolding for_each_vertex_eq [OF assms(1)]
  proof (rule distinct_concat_map)
    show "distinct (map (vertex_at lo p) (sorted_list_of_set (affected G ! p)))" for p
      by (simp add: distinct_map inj_on_def vertex_at_def)
    show "p = q" if "p \<in> set [0..<lk lo]" "q \<in> set [0..<lk lo]" "v \<in> set (map (vertex_at lo p) (sorted_list_of_set (affected G ! p)))"
      "v \<in> set (map (vertex_at lo q) (sorted_list_of_set (affected G ! q)))" for p q v
      using that vertex_at_inj [OF assms(1)] graph_okD(1) [OF assms(2)] by (auto simp: set_sorted_affected [OF assms(2)])
  qed simp
qed

lemma mk_edge_at: "layout_ok lo \<Longrightarrow> p < q \<Longrightarrow> q < lk lo \<Longrightarrow> b < num_bits (infos lo ! p) \<Longrightarrow>
    mk_edge (vertex_at lo p b) (vertex_at lo q c) = (vertex_at lo p b, vertex_at lo q c)"
  using vertex_at_less [of lo p q b c] by (simp add: mk_edge_def)

lemma edges_of_spec:
  assumes "layout_ok lo" "graph_ok lo G" "p < lk lo" "b \<in> affected G ! p"
  shows "e \<in> set (edges_of lo G p b) \<longleftrightarrow> (\<exists>q c. p < q \<and> q < lk lo \<and> c \<in> affected G ! q \<and> c \<in> get_bitset lo G (vertex_at lo p b) q
      \<and> e = (vertex_at lo p b, vertex_at lo q c))"
    and "distinct (edges_of lo G p b)"
proof -
  let ?S = "\<lambda>q. get_bitset lo G (vertex_at lo p b) q \<inter> affected G ! q"
  have fin: "set (sorted_list_of_set (?S q)) = ?S q" if "q < lk lo" for q using graph_okD(3) [OF assms(2) that] by simp
  have mk: "mk_edge (vertex_at lo p b) (vertex_at lo q c) = (vertex_at lo p b, vertex_at lo q c)" if "Suc p \<le> q" "q < lk lo" for q c
    using that mk_edge_at [OF assms(1)] graph_okD(1) [OF assms(2,3,4)] by simp
  have "e \<in> set (edges_of lo G p b) \<longleftrightarrow> (\<exists>q \<in> set [Suc p..<lk lo]. \<exists>c \<in> ?S q. e = (vertex_at lo p b, vertex_at lo q c))"
    unfolding edges_of_def by (auto simp: fin mk)
  then show "e \<in> set (edges_of lo G p b) \<longleftrightarrow> (\<exists>q c. p < q \<and> q < lk lo \<and> c \<in> affected G ! q \<and> c \<in> get_bitset lo G (vertex_at lo p b) q
      \<and> e = (vertex_at lo p b, vertex_at lo q c))" by (auto simp: Suc_le_eq)
  show "distinct (edges_of lo G p b)"
    unfolding edges_of_def
  proof (rule distinct_concat_map)
    show "distinct (map (\<lambda>c. mk_edge (vertex_at lo p b) (vertex_at lo q c)) (sorted_list_of_set (?S q)))" if "q \<in> set [Suc p..<lk lo]" for q
      using that mk by (simp add: distinct_map inj_on_def vertex_at_def)
    show "q = r" if "q \<in> set [Suc p..<lk lo]" "r \<in> set [Suc p..<lk lo]" "e \<in> set (map (\<lambda>c. mk_edge (vertex_at lo p b) (vertex_at lo q c)) (sorted_list_of_set (?S q)))"
      "e \<in> set (map (\<lambda>c. mk_edge (vertex_at lo p b) (vertex_at lo r c)) (sorted_list_of_set (?S r)))" for q r e
      using that vertex_at_inj [OF assms(1)] graph_okD(1) [OF assms(2)] by (auto simp: fin mk)
  qed simp
qed

lemma ex_pairs: "(\<exists>p \<in> set [0..<k]. \<exists>b \<in> A p. \<exists>q c. p < q \<and> q < k \<and> R p b q c) \<longleftrightarrow> (\<exists>p b q c. p < q \<and> q < k \<and> b \<in> A p \<and> R p b q c)"
  for k :: nat
proof
  assume "\<exists>p b q c. p < q \<and> q < k \<and> b \<in> A p \<and> R p b q c"
  then obtain p b q c where *: "p < q" "q < k" "b \<in> A p" "R p b q c" by blast
  then have "p \<in> set [0..<k]" by simp
  with * show "\<exists>p \<in> set [0..<k]. \<exists>b \<in> A p. \<exists>q c. p < q \<and> q < k \<and> R p b q c" by blast
qed blast

lemma for_each_edge_spec:
  assumes "layout_ok lo" "graph_ok lo G"
  shows "e \<in> set (for_each_edge lo G) \<longleftrightarrow> (\<exists>p b q c. p < q \<and> q < lk lo \<and> b \<in> affected G ! p
      \<and> c \<in> affected G ! q \<and> c \<in> get_bitset lo G (vertex_at lo p b) q \<and> e = (vertex_at lo p b, vertex_at lo q c))"
    and "distinct (for_each_edge lo G)"
proof -
  have mem: "e \<in> set (for_each_edge lo G) \<longleftrightarrow> (\<exists>p \<in> set [0..<lk lo]. \<exists>b \<in> affected G ! p. e \<in> set (edges_of lo G p b))"
    unfolding for_each_edge_eq [OF assms(1)] by (auto simp: set_sorted_affected [OF assms(2)])
  also have "\<dots> \<longleftrightarrow> (\<exists>p \<in> set [0..<lk lo]. \<exists>b \<in> affected G ! p. \<exists>q c. p < q \<and> q < lk lo \<and> c \<in> affected G ! q \<and> c \<in> get_bitset lo G (vertex_at lo p b) q
      \<and> e = (vertex_at lo p b, vertex_at lo q c))" using edges_of_spec(1) [OF assms, of _ _ e] by auto
  also have "\<dots> \<longleftrightarrow> (\<exists>p b q c. p < q \<and> q < lk lo \<and> b \<in> affected G ! p
      \<and> c \<in> affected G ! q \<and> c \<in> get_bitset lo G (vertex_at lo p b) q \<and> e = (vertex_at lo p b, vertex_at lo q c))"
    by (rule ex_pairs)
  finally show "e \<in> set (for_each_edge lo G) \<longleftrightarrow> (\<exists>p b q c. p < q \<and> q < lk lo \<and> b \<in> affected G ! p
      \<and> c \<in> affected G ! q \<and> c \<in> get_bitset lo G (vertex_at lo p b) q \<and> e = (vertex_at lo p b, vertex_at lo q c))" .
  have src: "fst e = vertex_at lo p b" if "p < lk lo" "b \<in> affected G ! p" "e \<in> set (edges_of lo G p b)" for e p b
    using edges_of_spec(1) [OF assms that(1,2)] that(3) by auto
  have inner: "e \<in> set (concat (map (edges_of lo G p) (sorted_list_of_set (affected G ! p)))) \<longleftrightarrow> (\<exists>b \<in> affected G ! p. e \<in> set (edges_of lo G p b))"
    if "p < lk lo" for p e using set_sorted_affected [OF assms(2) that] by simp
  show "distinct (for_each_edge lo G)"
    unfolding for_each_edge_eq [OF assms(1)]
  proof (rule distinct_concat_map)
    fix p assume "p \<in> set [0..<lk lo]"
    then have p: "p < lk lo" by simp
    show "distinct (concat (map (edges_of lo G p) (sorted_list_of_set (affected G ! p))))"
    proof (rule distinct_concat_map)
      show "distinct (edges_of lo G p b)" if "b \<in> set (sorted_list_of_set (affected G ! p))" for b
        using edges_of_spec(2) [OF assms p] that set_sorted_affected [OF assms(2) p] by simp
      show "b = c" if "b \<in> set (sorted_list_of_set (affected G ! p))" "c \<in> set (sorted_list_of_set (affected G ! p))"
        "e \<in> set (edges_of lo G p b)" "e \<in> set (edges_of lo G p c)" for b c e
        using src [OF p] that unfolding set_sorted_affected [OF assms(2) p] vertex_at_def by (metis add_left_cancel)
    qed simp
  next
    fix p q e assume e: "p \<in> set [0..<lk lo]" "q \<in> set [0..<lk lo]" "e \<in> set (concat (map (edges_of lo G p) (sorted_list_of_set (affected G ! p))))"
      "e \<in> set (concat (map (edges_of lo G q) (sorted_list_of_set (affected G ! q))))"
    then obtain b c where "b \<in> affected G ! p" "e \<in> set (edges_of lo G p b)" "c \<in> affected G ! q" "e \<in> set (edges_of lo G q c)"
      using inner [of p e] inner [of q e] by auto
    then have "vertex_at lo p b = vertex_at lo q c" "b < num_bits (infos lo ! p)" "c < num_bits (infos lo ! q)"
      using src e(1,2) graph_okD(1) [OF assms(2)] by (metis atLeastLessThan_iff set_upt)+
    then show "p = q" using vertex_at_inj [OF assms(1)] e(1,2) by simp
  qed simp
qed

end
