(* ===== verification/Delta_Kpkc.thy ===== *)
theory Delta_Kpkc
  imports Kpkc_Graph
begin

text \<open>
  \<^verbatim>\<open>include/tyr/datalog/delta_kpkc.hpp\<close>, \<^verbatim>\<open>src/datalog/delta_kpkc.cpp\<close>: the enumeration of the k-cliques of a k-partite graph,
  all of them or those with an edge of the delta graph. A callback's arguments are the result, in the order
  of the calls. The rows of compatible vertices and the partial solution, which the code keeps in a workspace and overwrites, are
  arguments of the recursion.
\<close>

section \<open>Model\<close>

definition uint_max :: nat where
  "uint_max = 2 ^ 32 - 1"

definition choose_step :: "nat set \<Rightarrow> nat set list \<Rightarrow> nat \<times> nat \<Rightarrow> nat \<Rightarrow> nat \<times> nat" where
  "choose_step used cv best p = (if p \<in> used then best else if card (cv ! p) < snd best then (p, card (cv ! p)) else best)"

definition choose_best_partition :: "layout \<Rightarrow> nat set \<Rightarrow> nat set list \<Rightarrow> nat" where
  "choose_best_partition lo used cv = fst (foldl (choose_step used cv) (uint_max, uint_max) [0..<lk lo])"

text \<open>The body of the loop of \<open>update_compatible_adjacent_vertices_at_next_depth\<close> for partition \<open>p\<close>; \<open>anchor\<close> is the smaller partition of the anchor edge.\<close>

definition update_partition :: "layout \<Rightarrow> kgraph \<Rightarrow> kgraph \<Rightarrow> nat option \<Rightarrow> nat \<Rightarrow> nat \<Rightarrow> nat set \<Rightarrow> nat set option" where
  "update_partition lo D F anchor src p cur =
     (let next = cur \<inter> get_bitset lo F src p
      in if next = {} then None
         else case anchor of None \<Rightarrow> Some next
           | Some a \<Rightarrow> if vertex_to_partition lo ! src < a \<or> p < a
               then (let next = next - get_bitset lo D src p in if next = {} then None else Some next)
               else Some next)"

fun update_loop :: "layout \<Rightarrow> kgraph \<Rightarrow> kgraph \<Rightarrow> nat option \<Rightarrow> nat set \<Rightarrow> nat \<Rightarrow> nat list \<Rightarrow> nat set list \<Rightarrow> nat set list option" where
  "update_loop lo D F anchor used src [] cv = Some cv"
| "update_loop lo D F anchor used src (p # ps) cv =
     (if p \<in> used then update_loop lo D F anchor used src ps cv
      else case update_partition lo D F anchor src p (cv ! p) of None \<Rightarrow> None
        | Some next \<Rightarrow> update_loop lo D F anchor used src ps (cv[p := next]))"

definition update_compatible :: "layout \<Rightarrow> kgraph \<Rightarrow> kgraph \<Rightarrow> nat option \<Rightarrow> nat set \<Rightarrow> nat \<Rightarrow> nat set list \<Rightarrow> nat set list option" where
  "update_compatible lo D F anchor used src cv = update_loop lo D F anchor used src [0..<lk lo] cv"

lemma choose_foldl:
  "\<forall>p \<in> set ps. p \<notin> used \<longrightarrow> p \<in> U \<Longrightarrow> fst best \<in> U \<or> fst best = uint_max \<Longrightarrow>
   fst (foldl (choose_step used cv) best ps) \<in> U \<or> fst (foldl (choose_step used cv) best ps) = uint_max"
  by (induction ps arbitrary: best) (auto simp: choose_step_def)

lemma choose_best_unused: "choose_best_partition lo used cv \<noteq> uint_max \<Longrightarrow> choose_best_partition lo used cv \<in> {..<lk lo} - used"
  using choose_foldl [of "[0..<lk lo]" used "{..<lk lo} - used" "(uint_max, uint_max)" cv] by (auto simp: choose_best_partition_def)

function complete_from_seed :: "layout \<Rightarrow> kgraph \<Rightarrow> kgraph \<Rightarrow> nat option \<Rightarrow> nat set \<Rightarrow> nat set list \<Rightarrow> nat list \<Rightarrow> nat \<Rightarrow> nat list list" where
  "complete_from_seed lo D F anchor used cv sol num =
     (let p = choose_best_partition lo used cv
      in if p = uint_max then []
         else concat (map (\<lambda>b.
           (let v = vertex_at lo p b; sol = sol[p := v]
            in if Suc num = lk lo then [sol]
               else case update_compatible lo D F anchor (insert p used) v cv of None \<Rightarrow> []
                 | Some cv \<Rightarrow> complete_from_seed lo D F anchor (insert p used) cv sol (Suc num)))
           (sorted_list_of_set (cv ! p))))"
  by pat_completeness auto

termination
proof (relation "measure (\<lambda>(lo, D, F, anchor, used, cv, sol, num). card ({..<lk lo} - used))", goal_cases)
  case (2 lo D F anchor used cv sol num p b v sol' cv')
  then have "p \<in> {..<lk lo} - used" using choose_best_unused by simp
  then have "card ({..<lk lo} - used - {p}) < card ({..<lk lo} - used)" by (intro card_Diff1_less) auto
  moreover have "{..<lk lo} - insert p used = {..<lk lo} - used - {p}" by auto
  ultimately show ?case by simp
qed simp

declare complete_from_seed.simps [simp del]

definition seed_without_anchor :: "layout \<Rightarrow> kgraph \<Rightarrow> nat set list" where
  "seed_without_anchor lo F = map (\<lambda>p. affected F ! p) [0..<lk lo]"

definition seed_partition :: "layout \<Rightarrow> kgraph \<Rightarrow> kgraph \<Rightarrow> nat \<Rightarrow> nat \<Rightarrow> nat \<Rightarrow> nat \<Rightarrow> nat \<Rightarrow> nat set option" where
  "seed_partition lo D F src dst i j p =
     (let cv = get_bitset lo F src p \<inter> get_bitset lo F dst p
      in if cv = {} then None
         else let cv = (if p < j then cv - get_bitset lo D src p else cv)
           in if cv = {} then None
              else let cv = (if p < i then cv - get_bitset lo D dst p else cv)
                in if cv = {} then None else Some cv)"

fun seed_loop :: "layout \<Rightarrow> kgraph \<Rightarrow> kgraph \<Rightarrow> nat \<Rightarrow> nat \<Rightarrow> nat \<Rightarrow> nat \<Rightarrow> nat list \<Rightarrow> nat set list \<Rightarrow> nat set list option" where
  "seed_loop lo D F src dst i j [] cv = Some cv"
| "seed_loop lo D F src dst i j (p # ps) cv =
     (if p = i \<or> p = j then seed_loop lo D F src dst i j ps cv
      else case seed_partition lo D F src dst i j p of None \<Rightarrow> None
        | Some next \<Rightarrow> seed_loop lo D F src dst i j ps (cv[p := next]))"

definition seed_from_anchor :: "layout \<Rightarrow> kgraph \<Rightarrow> kgraph \<Rightarrow> nat \<times> nat \<Rightarrow> nat set list \<Rightarrow> nat set list option" where
  "seed_from_anchor lo D F e cv =
     (let i = vertex_to_partition lo ! fst e; j = vertex_to_partition lo ! snd e
      in seed_loop lo D F (fst e) (snd e) i j [0..<lk lo] cv)"

text \<open>The cliques of the full graph; \<open>sol\<close> is the content of the workspace before the call.\<close>

definition for_each_k_clique :: "layout \<Rightarrow> kgraph \<Rightarrow> kgraph \<Rightarrow> nat list \<Rightarrow> nat list list" where
  "for_each_k_clique lo D F sol =
     (if lk lo = 0 then [sol]
      else if lk lo = 1 then map (\<lambda>v. sol[0 := v]) (for_each_vertex lo F)
      else if lk lo = 2 then map (\<lambda>e. sol[0 := fst e, 1 := snd e]) (for_each_edge lo F)
      else complete_from_seed lo D F None {} (seed_without_anchor lo F) sol 0)"

definition cliques_from_anchor :: "layout \<Rightarrow> kgraph \<Rightarrow> kgraph \<Rightarrow> nat set list \<Rightarrow> nat list \<Rightarrow> nat \<times> nat \<Rightarrow> nat list list" where
  "cliques_from_anchor lo D F cv sol e =
     (let i = vertex_to_partition lo ! fst e; j = vertex_to_partition lo ! snd e
      in case seed_from_anchor lo D F e cv of None \<Rightarrow> []
         | Some cv \<Rightarrow> complete_from_seed lo D F (Some i) {i, j} cv (sol[i := fst e, j := snd e]) 2)"

definition for_each_new_k_clique :: "layout \<Rightarrow> nat \<Rightarrow> kgraph \<Rightarrow> kgraph \<Rightarrow> nat set list \<Rightarrow> nat list \<Rightarrow> nat list list" where
  "for_each_new_k_clique lo iteration D F cv sol =
     (if iteration = 1 then for_each_k_clique lo D F sol
      else if lk lo = 0 then []
      else if lk lo = 1 then map (\<lambda>v. sol[0 := v]) (for_each_vertex lo D)
      else if lk lo = 2 then map (\<lambda>e. sol[0 := fst e, 1 := snd e]) (for_each_edge lo D)
      else concat (map (cliques_from_anchor lo D F cv sol) (for_each_edge lo D)))"

section \<open>Completion of a partial clique\<close>

text \<open>Whether a clique with \<open>v\<close> may contain the vertex at position \<open>c\<close> of partition \<open>q\<close>: adjacent, and with no delta edge of a smaller rank than the anchor.\<close>

definition may_join :: "layout \<Rightarrow> kgraph \<Rightarrow> kgraph \<Rightarrow> nat option \<Rightarrow> nat \<Rightarrow> nat \<Rightarrow> nat \<Rightarrow> bool" where
  "may_join lo D F anchor v q c \<longleftrightarrow> c \<in> get_bitset lo F v q \<and>
     (case anchor of None \<Rightarrow> True | Some a \<Rightarrow> vertex_to_partition lo ! v < a \<or> q < a \<longrightarrow> c \<notin> get_bitset lo D v q)"

lemma update_partition_eq:
  "update_partition lo D F anchor v q cur = (let S = {c \<in> cur. may_join lo D F anchor v q c} in if S = {} then None else Some S)"
proof (cases anchor)
  case None
  then have "{c \<in> cur. may_join lo D F anchor v q c} = cur \<inter> get_bitset lo F v q" by (auto simp: may_join_def)
  then show ?thesis using None by (simp add: update_partition_def Let_def)
next
  case (Some a)
  then have "{c \<in> cur. may_join lo D F anchor v q c} = (if vertex_to_partition lo ! v < a \<or> q < a
      then cur \<inter> get_bitset lo F v q - get_bitset lo D v q else cur \<inter> get_bitset lo F v q)"
    by (auto simp: may_join_def)
  then show ?thesis using Some by (auto simp: update_partition_def Let_def)
qed

lemma update_loop_spec:
  assumes "distinct ps" "\<forall>p \<in> set ps. p < length cv"
  shows "case update_loop lo D F anchor used v ps cv of
      None \<Rightarrow> \<exists>p \<in> set ps - used. {c \<in> cv ! p. may_join lo D F anchor v p c} = {}
    | Some cv' \<Rightarrow> length cv' = length cv \<and> (\<forall>p \<in> set ps - used. cv' ! p = {c \<in> cv ! p. may_join lo D F anchor v p c})
        \<and> (\<forall>p. p \<notin> set ps - used \<longrightarrow> cv' ! p = cv ! p)"
  using assms
proof (induction ps arbitrary: cv)
  case (Cons p ps)
  show ?case
  proof (cases "p \<in> used \<or> {c \<in> cv ! p. may_join lo D F anchor v p c} = {}")
    case True
    then show ?thesis using Cons.IH [of cv] Cons.prems by (auto simp: update_partition_eq Let_def split: option.splits)
  next
    case False
    let ?S = "{c \<in> cv ! p. may_join lo D F anchor v p c}"
    have u: "update_loop lo D F anchor used v (p # ps) cv = update_loop lo D F anchor used v ps (cv[p := ?S])"
    proof -
      have "update_partition lo D F anchor v p (cv ! p) = Some ?S" using False unfolding update_partition_eq Let_def by (simp only: if_False de_Morgan_disj)
      then show ?thesis using False by simp
    qed
    have ne: "cv[p := ?S] ! q = cv ! q" if "q \<in> set ps" for q using that Cons.prems(1) by (metis distinct.simps(2) nth_list_update_neq)
    have "p < length cv" using Cons.prems(2) by simp
    moreover have "case update_loop lo D F anchor used v ps (cv[p := ?S]) of
      None \<Rightarrow> \<exists>q \<in> set ps - used. {c \<in> cv[p := ?S] ! q. may_join lo D F anchor v q c} = {}
    | Some cv' \<Rightarrow> length cv' = length (cv[p := ?S]) \<and> (\<forall>q \<in> set ps - used. cv' ! q = {c \<in> cv[p := ?S] ! q. may_join lo D F anchor v q c})
        \<and> (\<forall>q. q \<notin> set ps - used \<longrightarrow> cv' ! q = cv[p := ?S] ! q)"
      using Cons.IH [of "cv[p := ?S]"] Cons.prems by simp
    ultimately show ?thesis unfolding u using False ne Cons.prems(1)
      by (cases "update_loop lo D F anchor used v ps (cv[p := ?S])") (auto simp: nth_list_update_if nth_list_update split: if_splits)
  qed
qed simp

lemma choose_best_found:
  assumes "{..<lk lo} - used \<noteq> {}" "\<forall>p < lk lo. p \<notin> used \<longrightarrow> card (cv ! p) < uint_max" "lk lo < uint_max"
  shows "choose_best_partition lo used cv \<noteq> uint_max"
proof -
  have keep: "fst (foldl (choose_step used cv) best ps) \<noteq> uint_max" if "fst best \<noteq> uint_max" "\<forall>p \<in> set ps. p < uint_max" for best ps
    using that by (induction ps arbitrary: best) (auto simp: choose_step_def)
  have "fst (foldl (choose_step used cv) (uint_max, uint_max) ps) \<noteq> uint_max"
    if "\<exists>p \<in> set ps. p \<notin> used" "\<forall>p \<in> set ps. p < uint_max \<and> (p \<notin> used \<longrightarrow> card (cv ! p) < uint_max)" for ps
    using that
  proof (induction ps)
    case (Cons p ps)
    have step: "choose_step used cv (uint_max, uint_max) p = (if p \<in> used then (uint_max, uint_max) else (p, card (cv ! p)))"
      using Cons.prems(2) by (simp add: choose_step_def)
    show ?case
    proof (cases "p \<in> used")
      case True
      then show ?thesis using Cons step by simp
    next
      case False
      then show ?thesis using keep [of "(p, card (cv ! p))" ps] Cons.prems(2) step by simp
    qed
  qed simp
  moreover have "\<exists>p \<in> set [0..<lk lo]. p \<notin> used" using assms(1) by auto
  moreover have "\<forall>p \<in> set [0..<lk lo]. p < uint_max \<and> (p \<notin> used \<longrightarrow> card (cv ! p) < uint_max)" using assms(2,3) by auto
  ultimately show ?thesis unfolding choose_best_partition_def by blast
qed

text \<open>
  The completions of a partial solution: one candidate for every partition that is not used, and any two of them may be joined. \<open>act\<close> holds
  the active vertices, on which joining is symmetric.
\<close>

definition completes :: "layout \<Rightarrow> kgraph \<Rightarrow> kgraph \<Rightarrow> nat option \<Rightarrow> nat set \<Rightarrow> nat set list \<Rightarrow> nat list \<Rightarrow> nat list \<Rightarrow> bool" where
  "completes lo D F anchor used cv sol xs \<longleftrightarrow> length xs = lk lo \<and> (\<forall>p < lk lo. p \<in> used \<longrightarrow> xs ! p = sol ! p) \<and>
     (\<exists>bs. \<forall>p < lk lo. p \<notin> used \<longrightarrow> bs p \<in> cv ! p \<and> xs ! p = vertex_at lo p (bs p) \<and>
        (\<forall>q < lk lo. q \<notin> used \<longrightarrow> p \<noteq> q \<longrightarrow> may_join lo D F anchor (xs ! p) q (bs q)))"

definition symmetric_join :: "layout \<Rightarrow> kgraph \<Rightarrow> kgraph \<Rightarrow> nat option \<Rightarrow> (nat \<Rightarrow> nat set) \<Rightarrow> bool" where
  "symmetric_join lo D F anchor act \<longleftrightarrow> (\<forall>p < lk lo. \<forall>q < lk lo. \<forall>b \<in> act p. \<forall>c \<in> act q. p \<noteq> q \<longrightarrow>
     may_join lo D F anchor (vertex_at lo p b) q c = may_join lo D F anchor (vertex_at lo q c) p b)"

lemma completes_step:
  assumes sym: "symmetric_join lo D F anchor act" and p: "p < lk lo" "p \<notin> used" "b \<in> cv ! p"
    and act: "\<And>q. q < lk lo \<Longrightarrow> q \<notin> used \<Longrightarrow> cv ! q \<subseteq> act q" and len: "length sol = lk lo"
    and cv': "\<And>q. q < lk lo \<Longrightarrow> q \<notin> insert p used \<Longrightarrow> cv' ! q = {c \<in> cv ! q. may_join lo D F anchor (vertex_at lo p b) q c}"
  shows "completes lo D F anchor (insert p used) cv' (sol[p := vertex_at lo p b]) xs \<longleftrightarrow>
    completes lo D F anchor used cv sol xs \<and> xs ! p = vertex_at lo p b"
proof
  assume "completes lo D F anchor (insert p used) cv' (sol[p := vertex_at lo p b]) xs"
  then obtain bs where xs: "length xs = lk lo" "\<And>q. q < lk lo \<Longrightarrow> q \<in> insert p used \<Longrightarrow> xs ! q = sol[p := vertex_at lo p b] ! q"
    and bs: "\<And>q. q < lk lo \<Longrightarrow> q \<notin> insert p used \<Longrightarrow> bs q \<in> cv' ! q \<and> xs ! q = vertex_at lo q (bs q)
      \<and> (\<forall>r < lk lo. r \<notin> insert p used \<longrightarrow> q \<noteq> r \<longrightarrow> may_join lo D F anchor (xs ! q) r (bs r))"
    unfolding completes_def by blast
  have xp: "xs ! p = vertex_at lo p b" using xs(2) [OF p(1)] len p(1) by simp
  have "(bs(p := b)) q \<in> cv ! q \<and> xs ! q = vertex_at lo q ((bs(p := b)) q)
      \<and> (\<forall>r < lk lo. r \<notin> used \<longrightarrow> q \<noteq> r \<longrightarrow> may_join lo D F anchor (xs ! q) r ((bs(p := b)) r))" if q: "q < lk lo" "q \<notin> used" for q
  proof (cases "q = p")
    case True
    have "may_join lo D F anchor (xs ! p) r (bs r)" if "r < lk lo" "r \<notin> used" "p \<noteq> r" for r
      using bs [of r] cv' [of r] that xp by auto
    then show ?thesis using True p(3) xp by auto
  next
    case False
    have bq: "bs q \<in> cv ! q" "may_join lo D F anchor (vertex_at lo p b) q (bs q)" "xs ! q = vertex_at lo q (bs q)"
      using bs [OF q(1)] cv' [OF q(1)] q(2) False by auto
    have "may_join lo D F anchor (vertex_at lo q (bs q)) p b"
      using sym bq(1,2) q p act False unfolding symmetric_join_def by blast
    then show ?thesis using bs [OF q(1)] bq False q(2) by auto
  qed
  then obtain bs' where bs': "\<And>q. q < lk lo \<Longrightarrow> q \<notin> used \<Longrightarrow> bs' q \<in> cv ! q \<and> xs ! q = vertex_at lo q (bs' q)
      \<and> (\<forall>r < lk lo. r \<notin> used \<longrightarrow> q \<noteq> r \<longrightarrow> may_join lo D F anchor (xs ! q) r (bs' r))" by blast
  have "xs ! q = sol ! q" if "q < lk lo" "q \<in> used" for q using xs(2) [of q] that p(2) by (metis insertI2 nth_list_update_neq)
  then have "completes lo D F anchor used cv sol xs"
    unfolding completes_def using xs(1) bs' by blast
  then show "completes lo D F anchor used cv sol xs \<and> xs ! p = vertex_at lo p b" using xp by simp
next
  assume *: "completes lo D F anchor used cv sol xs \<and> xs ! p = vertex_at lo p b"
  then obtain bs where xs: "length xs = lk lo" "\<And>q. q < lk lo \<Longrightarrow> q \<in> used \<Longrightarrow> xs ! q = sol ! q"
    and bs: "\<And>q. q < lk lo \<Longrightarrow> q \<notin> used \<Longrightarrow> bs q \<in> cv ! q \<and> xs ! q = vertex_at lo q (bs q)
      \<and> (\<forall>r < lk lo. r \<notin> used \<longrightarrow> q \<noteq> r \<longrightarrow> may_join lo D F anchor (xs ! q) r (bs r))"
    unfolding completes_def by blast
  have "bs q \<in> cv' ! q" if "q < lk lo" "q \<notin> insert p used" for q
    using bs [OF p(1,2)] bs [of q] that cv' [OF that] * by auto
  moreover have "xs ! q = sol[p := vertex_at lo p b] ! q" if "q < lk lo" "q \<in> insert p used" for q
    using that xs(2) [of q] * len by (cases "q = p") auto
  ultimately show "completes lo D F anchor (insert p used) cv' (sol[p := vertex_at lo p b]) xs"
    unfolding completes_def using xs(1) bs by blast
qed

lemma complete_from_seed_spec:
  assumes lo: "layout_ok lo" "lk lo < uint_max" and sym: "symmetric_join lo D F anchor act"
    and act: "\<And>p. p < lk lo \<Longrightarrow> finite (act p) \<and> card (act p) < uint_max"
    and "used \<subseteq> {..<lk lo}" "used \<noteq> {..<lk lo}" "num = card used" "length cv = lk lo" "length sol = lk lo"
    and "\<And>p. p < lk lo \<Longrightarrow> p \<notin> used \<Longrightarrow> cv ! p \<subseteq> act p"
  shows "distinct (complete_from_seed lo D F anchor used cv sol num) \<and>
    set (complete_from_seed lo D F anchor used cv sol num) = {xs. completes lo D F anchor used cv sol xs}"
  using assms(5-)
proof (induction "card ({..<lk lo} - used)" arbitrary: used cv sol num rule: less_induct)
  case less
  let ?p = "choose_best_partition lo used cv"
  have ne: "{..<lk lo} - used \<noteq> {}" using less.prems(1,2) by auto
  have "card (cv ! p) < uint_max" if "p < lk lo" "p \<notin> used" for p
    using card_mono [of "act p" "cv ! p"] act [OF that(1)] less.prems(6) [OF that] by simp
  then have pm: "?p \<noteq> uint_max" using choose_best_found ne lo(2) by blast
  have p: "?p < lk lo" "?p \<notin> used" using choose_best_unused [OF pm] by auto
  have cvp: "cv ! ?p \<subseteq> act ?p" "finite (cv ! ?p)" using less.prems(6) [OF p] act [OF p(1)] finite_subset by auto
  have used': "insert ?p used \<subseteq> {..<lk lo}" "card (insert ?p used) = Suc num"
    using p less.prems(1,3) finite_subset [OF less.prems(1)] by auto
  define body where "body b = (let v = vertex_at lo ?p b; sol = sol[?p := v] in if Suc num = lk lo then [sol]
      else case update_compatible lo D F anchor (insert ?p used) v cv of None \<Rightarrow> []
        | Some cv \<Rightarrow> complete_from_seed lo D F anchor (insert ?p used) cv sol (Suc num))" for b
  have eq: "complete_from_seed lo D F anchor used cv sol num = concat (map body (sorted_list_of_set (cv ! ?p)))"
    using pm by (simp add: complete_from_seed.simps [of lo D F anchor used] body_def [abs_def] Let_def)
  have body: "distinct (body b) \<and> set (body b) = {xs. completes lo D F anchor used cv sol xs \<and> xs ! ?p = vertex_at lo ?p b}"
    if b: "b \<in> cv ! ?p" for b
  proof (cases "Suc num = lk lo")
    case True
    then have all: "insert ?p used = {..<lk lo}" using used' card_subset_eq [OF _ used'(1)] by simp
    have "completes lo D F anchor (insert ?p used) cv (sol[?p := vertex_at lo ?p b]) xs \<longleftrightarrow> completes lo D F anchor used cv sol xs \<and> xs ! ?p = vertex_at lo ?p b" for xs
      by (rule completes_step [OF sym p b]) (use less.prems(5,6) all in auto)
    moreover have "completes lo D F anchor (insert ?p used) cv (sol[?p := vertex_at lo ?p b]) xs \<longleftrightarrow> xs = sol[?p := vertex_at lo ?p b]" for xs
      using less.prems(5) unfolding completes_def all by (auto intro: nth_equalityI)
    ultimately have "{xs. completes lo D F anchor used cv sol xs \<and> xs ! ?p = vertex_at lo ?p b} = {sol[?p := vertex_at lo ?p b]}" by blast
    then show ?thesis using True by (simp add: body_def)
  next
    case False
    let ?v = "vertex_at lo ?p b" and ?sol = "sol[?p := vertex_at lo ?p b]"
    have upd: "case update_compatible lo D F anchor (insert ?p used) ?v cv of
      None \<Rightarrow> \<exists>q \<in> set [0..<lk lo] - insert ?p used. {c \<in> cv ! q. may_join lo D F anchor ?v q c} = {}
    | Some cv' \<Rightarrow> length cv' = length cv \<and> (\<forall>q \<in> set [0..<lk lo] - insert ?p used. cv' ! q = {c \<in> cv ! q. may_join lo D F anchor ?v q c})
        \<and> (\<forall>q. q \<notin> set [0..<lk lo] - insert ?p used \<longrightarrow> cv' ! q = cv ! q)"
      unfolding update_compatible_def by (rule update_loop_spec) (use less.prems(4) in auto)
    show ?thesis
    proof (cases "update_compatible lo D F anchor (insert ?p used) ?v cv")
      case None
      then obtain q where q: "q < lk lo" "q \<notin> insert ?p used" "{c \<in> cv ! q. may_join lo D F anchor ?v q c} = {}"
        using upd unfolding None option.case by (metis DiffD1 DiffD2 atLeastLessThan_iff set_upt)
      have "\<not> (completes lo D F anchor used cv sol xs \<and> xs ! ?p = ?v)" for xs
        using q p unfolding completes_def by (metis (mono_tags, lifting) empty_iff insert_iff mem_Collect_eq)
      then show ?thesis using False None by (simp add: body_def)
    next
      case (Some cv')
      have cv': "length cv' = lk lo" "\<And>q. q < lk lo \<Longrightarrow> q \<notin> insert ?p used \<Longrightarrow> cv' ! q = {c \<in> cv ! q. may_join lo D F anchor ?v q c}"
        using upd Some less.prems(4) by auto
      have m: "card ({..<lk lo} - insert ?p used) < card ({..<lk lo} - used)"
        using p by (intro psubset_card_mono) auto
      have ne': "insert ?p used \<noteq> {..<lk lo}" using used'(2) False card_lessThan [of "lk lo"] by metis
      have act': "cv' ! q \<subseteq> act q" if "q < lk lo" "q \<notin> insert ?p used" for q using cv'(2) [OF that] less.prems(6) [of q] that by auto
      have "length ?sol = lk lo" using less.prems(5) by simp
      from less.hyps [OF m used'(1) ne' used'(2) [symmetric] cv'(1) this act']
      have "distinct (complete_from_seed lo D F anchor (insert ?p used) cv' ?sol (Suc num)) \<and>
        set (complete_from_seed lo D F anchor (insert ?p used) cv' ?sol (Suc num)) = {xs. completes lo D F anchor (insert ?p used) cv' ?sol xs}" .
      moreover have "completes lo D F anchor (insert ?p used) cv' ?sol xs \<longleftrightarrow> completes lo D F anchor used cv sol xs \<and> xs ! ?p = ?v" for xs
        by (rule completes_step [OF sym p b less.prems(6) less.prems(5) cv'(2)])
      ultimately show ?thesis using False Some by (simp add: body_def)
    qed
  qed
  have inj: "b = c" if "vertex_at lo ?p b = vertex_at lo ?p c" for b c using that by (simp add: vertex_at_def)
  have "distinct (concat (map body (sorted_list_of_set (cv ! ?p))))"
    by (rule distinct_concat_map) (use body inj cvp(2) in auto)
  moreover have "set (concat (map body (sorted_list_of_set (cv ! ?p)))) = {xs. completes lo D F anchor used cv sol xs}"
  proof -
    have "\<exists>b \<in> cv ! ?p. xs ! ?p = vertex_at lo ?p b" if "completes lo D F anchor used cv sol xs" for xs
      using that p unfolding completes_def by blast
    then show ?thesis using body cvp(2) by auto
  qed
  ultimately show ?case unfolding eq by blast
qed

section \<open>Cliques\<close>

text \<open>A pair of a delta graph and a full graph that the enumeration works on.\<close>

definition graphs_ok :: "layout \<Rightarrow> kgraph \<Rightarrow> kgraph \<Rightarrow> bool" where
  "graphs_ok lo D F \<longleftrightarrow> layout_ok lo \<and> graph_ok lo D \<and> graph_ok lo F \<and> lk lo < uint_max
     \<and> (\<forall>p < lk lo. num_bits (infos lo ! p) < uint_max) \<and> (\<forall>p < lk lo. affected D ! p \<subseteq> affected F ! p)
     \<and> (\<forall>p < lk lo. \<forall>q < lk lo. \<forall>b \<in> affected F ! p. p \<noteq> q \<longrightarrow>
          get_bitset lo F (vertex_at lo p b) q \<subseteq> affected F ! q \<and> get_bitset lo D (vertex_at lo p b) q \<subseteq> get_bitset lo F (vertex_at lo p b) q
        \<and> (\<forall>c \<in> affected F ! q. (c \<in> get_bitset lo F (vertex_at lo p b) q \<longleftrightarrow> b \<in> get_bitset lo F (vertex_at lo q c) p)
          \<and> (c \<in> get_bitset lo D (vertex_at lo p b) q \<longleftrightarrow> b \<in> get_bitset lo D (vertex_at lo q c) p)
          \<and> (c \<in> get_bitset lo D (vertex_at lo p b) q \<longrightarrow> b \<in> affected D ! p \<and> c \<in> affected D ! q)))"

lemma graphs_okD:
  assumes "graphs_ok lo D F"
  shows "layout_ok lo" "graph_ok lo D" "graph_ok lo F" "lk lo < uint_max"
    and "p < lk lo \<Longrightarrow> num_bits (infos lo ! p) < uint_max" "p < lk lo \<Longrightarrow> b \<in> affected D ! p \<Longrightarrow> b \<in> affected F ! p"
  using assms unfolding graphs_ok_def by (blast, blast, blast, blast, blast, blast)

lemma graphs_ok_edge:
  assumes "graphs_ok lo D F" "p < lk lo" "q < lk lo" "b \<in> affected F ! p" "p \<noteq> q"
  shows "c \<in> get_bitset lo F (vertex_at lo p b) q \<Longrightarrow> c \<in> affected F ! q"
    and "c \<in> get_bitset lo D (vertex_at lo p b) q \<Longrightarrow> c \<in> get_bitset lo F (vertex_at lo p b) q"
    and "c \<in> affected F ! q \<Longrightarrow> c \<in> get_bitset lo F (vertex_at lo p b) q \<longleftrightarrow> b \<in> get_bitset lo F (vertex_at lo q c) p"
    and "c \<in> affected F ! q \<Longrightarrow> c \<in> get_bitset lo D (vertex_at lo p b) q \<longleftrightarrow> b \<in> get_bitset lo D (vertex_at lo q c) p"
    and "c \<in> affected F ! q \<Longrightarrow> c \<in> get_bitset lo D (vertex_at lo p b) q \<Longrightarrow> b \<in> affected D ! p \<and> c \<in> affected D ! q"
  using assms unfolding graphs_ok_def by (blast, blast, blast, blast, blast)

text \<open>A k-clique, one vertex per partition, given by the positions \<open>bs\<close>.\<close>

definition clique_at :: "layout \<Rightarrow> kgraph \<Rightarrow> (nat \<Rightarrow> nat) \<Rightarrow> bool" where
  "clique_at lo F bs \<longleftrightarrow> (\<forall>p < lk lo. bs p \<in> affected F ! p \<and> (\<forall>q < lk lo. p \<noteq> q \<longrightarrow> bs q \<in> get_bitset lo F (vertex_at lo p (bs p)) q))"

definition solution :: "layout \<Rightarrow> (nat \<Rightarrow> nat) \<Rightarrow> nat list" where
  "solution lo bs = map (\<lambda>p. vertex_at lo p (bs p)) [0..<lk lo]"

definition k_cliques :: "layout \<Rightarrow> kgraph \<Rightarrow> nat list set" where
  "k_cliques lo F = {solution lo bs | bs. clique_at lo F bs}"

definition delta_pair :: "layout \<Rightarrow> kgraph \<Rightarrow> (nat \<Rightarrow> nat) \<Rightarrow> nat \<Rightarrow> nat \<Rightarrow> bool" where
  "delta_pair lo D bs p q \<longleftrightarrow> bs q \<in> get_bitset lo D (vertex_at lo p (bs p)) q"

lemma solution_nth [simp]: "p < lk lo \<Longrightarrow> solution lo bs ! p = vertex_at lo p (bs p)" "length (solution lo bs) = lk lo"
  by (simp_all add: solution_def)

lemma solution_eqI: "length xs = lk lo \<Longrightarrow> (\<And>p. p < lk lo \<Longrightarrow> xs ! p = vertex_at lo p (bs p)) \<Longrightarrow> xs = solution lo bs"
  by (rule nth_equalityI) auto

lemma delta_pair_sym:
  assumes "graphs_ok lo D F" "clique_at lo F bs" "p < lk lo" "q < lk lo" "p \<noteq> q"
  shows "delta_pair lo D bs p q = delta_pair lo D bs q p"
  using graphs_ok_edge(4) [OF assms(1,3,4) _ assms(5)] assms(2-4) unfolding delta_pair_def clique_at_def by blast

lemma symmetric_join_affected:
  assumes "graphs_ok lo D F"
  shows "symmetric_join lo D F anchor (\<lambda>p. affected F ! p)"
  unfolding symmetric_join_def
proof (intro allI impI ballI)
  fix p q b c assume *: "p < lk lo" "q < lk lo" "b \<in> affected F ! p" "c \<in> affected F ! q" "p \<noteq> q"
  have "vertex_to_partition lo ! vertex_at lo p b = p" "vertex_to_partition lo ! vertex_at lo q c = q"
    using vertex_at_tables(1) [OF graphs_okD(1) [OF assms]] graph_okD(1) [OF graphs_okD(3) [OF assms]] * by auto
  moreover have "c \<in> get_bitset lo F (vertex_at lo p b) q \<longleftrightarrow> b \<in> get_bitset lo F (vertex_at lo q c) p"
    "c \<in> get_bitset lo D (vertex_at lo p b) q \<longleftrightarrow> b \<in> get_bitset lo D (vertex_at lo q c) p"
    using graphs_ok_edge(3,4) [OF assms] * by auto
  ultimately show "may_join lo D F anchor (vertex_at lo p b) q c = may_join lo D F anchor (vertex_at lo q c) p b"
    by (auto simp: may_join_def split: option.splits)
qed

lemma affected_small:
  assumes "graphs_ok lo D F" "p < lk lo"
  shows "finite (affected F ! p) \<and> card (affected F ! p) < uint_max"
proof -
  have "affected F ! p \<subseteq> {..<num_bits (infos lo ! p)}" using graphs_okD(3) [OF assms(1)] assms(2) by (simp add: graph_ok_def)
  then have "card (affected F ! p) \<le> num_bits (infos lo ! p)" using card_mono [of "{..<num_bits (infos lo ! p)}"] by fastforce
  then show ?thesis using graphs_okD(5) [OF assms] graph_okD(3) [OF graphs_okD(3) [OF assms(1)] assms(2)] by simp
qed

lemma complete_without_anchor:
  assumes ok: "graphs_ok lo D F" and "0 < lk lo" "length sol = lk lo"
  shows "distinct (complete_from_seed lo D F None {} (seed_without_anchor lo F) sol 0)"
    and "set (complete_from_seed lo D F None {} (seed_without_anchor lo F) sol 0) = k_cliques lo F"
proof -
  have "distinct (complete_from_seed lo D F None {} (seed_without_anchor lo F) sol 0) \<and>
    set (complete_from_seed lo D F None {} (seed_without_anchor lo F) sol 0) = {xs. completes lo D F None {} (seed_without_anchor lo F) sol xs}"
    using assms(2,3)
    by (intro complete_from_seed_spec [OF graphs_okD(1,4) [OF ok] symmetric_join_affected [OF ok] affected_small [OF ok]])
       (auto simp: seed_without_anchor_def)
  moreover have "completes lo D F None {} (seed_without_anchor lo F) sol xs \<longleftrightarrow> xs \<in> k_cliques lo F" for xs
  proof
    assume "completes lo D F None {} (seed_without_anchor lo F) sol xs"
    then obtain bs where "length xs = lk lo" "\<And>p. p < lk lo \<Longrightarrow> bs p \<in> affected F ! p \<and> xs ! p = vertex_at lo p (bs p)
      \<and> (\<forall>q < lk lo. p \<noteq> q \<longrightarrow> bs q \<in> get_bitset lo F (xs ! p) q)"
      unfolding completes_def by (auto simp: seed_without_anchor_def may_join_def)
    then have "xs = solution lo bs" "clique_at lo F bs" unfolding clique_at_def by (metis solution_eqI)+
    then show "xs \<in> k_cliques lo F" by (auto simp: k_cliques_def)
  next
    assume "xs \<in> k_cliques lo F"
    then obtain bs where "xs = solution lo bs" "clique_at lo F bs" by (auto simp: k_cliques_def)
    then show "completes lo D F None {} (seed_without_anchor lo F) sol xs"
      unfolding completes_def by (intro conjI exI [of _ bs]) (auto simp: clique_at_def seed_without_anchor_def may_join_def)
  qed
  ultimately show "distinct (complete_from_seed lo D F None {} (seed_without_anchor lo F) sol 0)"
    "set (complete_from_seed lo D F None {} (seed_without_anchor lo F) sol 0) = k_cliques lo F" by auto
qed

section \<open>Cliques with a given anchor\<close>

definition seed_set :: "layout \<Rightarrow> kgraph \<Rightarrow> kgraph \<Rightarrow> nat \<Rightarrow> nat \<Rightarrow> nat \<Rightarrow> nat \<Rightarrow> nat \<Rightarrow> nat set" where
  "seed_set lo D F src dst i j p = {c \<in> get_bitset lo F src p \<inter> get_bitset lo F dst p.
     (p < j \<longrightarrow> c \<notin> get_bitset lo D src p) \<and> (p < i \<longrightarrow> c \<notin> get_bitset lo D dst p)}"

lemma seed_partition_eq:
  "seed_partition lo D F src dst i j p = (if seed_set lo D F src dst i j p = {} then None else Some (seed_set lo D F src dst i j p))"
proof -
  have "seed_set lo D F src dst i j p = (let cv = get_bitset lo F src p \<inter> get_bitset lo F dst p;
    cv = (if p < j then cv - get_bitset lo D src p else cv) in if p < i then cv - get_bitset lo D dst p else cv)"
    by (auto simp: seed_set_def Let_def)
  then show ?thesis by (auto simp: seed_partition_def Let_def)
qed

lemma seed_loop_spec:
  assumes "distinct ps" "\<forall>p \<in> set ps. p < length cv"
  shows "case seed_loop lo D F src dst i j ps cv of
      None \<Rightarrow> \<exists>p \<in> set ps - {i, j}. seed_set lo D F src dst i j p = {}
    | Some cv' \<Rightarrow> length cv' = length cv \<and> (\<forall>p \<in> set ps - {i, j}. cv' ! p = seed_set lo D F src dst i j p)
        \<and> (\<forall>p. p \<notin> set ps - {i, j} \<longrightarrow> cv' ! p = cv ! p)"
  using assms
proof (induction ps arbitrary: cv)
  case (Cons p ps)
  let ?S = "seed_set lo D F src dst i j p"
  show ?case
  proof (cases "p = i \<or> p = j")
    case True
    then show ?thesis using Cons.IH [of cv] Cons.prems by (auto split: option.splits)
  next
    case False
    show ?thesis
    proof (cases "?S = {}")
      case True
      then show ?thesis using False by (auto simp: seed_partition_eq)
    next
      case ne: False
      have u: "seed_loop lo D F src dst i j (p # ps) cv = seed_loop lo D F src dst i j ps (cv[p := ?S])"
        using False ne by (simp add: seed_partition_eq)
      have "p < length cv" "p \<notin> set ps" using Cons.prems by auto
      then show ?thesis unfolding u using Cons.IH [of "cv[p := ?S]"] Cons.prems False
        by (cases "seed_loop lo D F src dst i j ps (cv[p := ?S])") (auto simp: nth_list_update)
    qed
  qed
qed simp

text \<open>The cliques through the anchor of which no delta edge has a smaller rank.\<close>

definition anchored :: "layout \<Rightarrow> kgraph \<Rightarrow> kgraph \<Rightarrow> nat \<Rightarrow> nat \<Rightarrow> nat \<Rightarrow> nat \<Rightarrow> (nat \<Rightarrow> nat) \<Rightarrow> bool" where
  "anchored lo D F i b j c bs \<longleftrightarrow> clique_at lo F bs \<and> bs i = b \<and> bs j = c
     \<and> (\<forall>p q. p < q \<longrightarrow> q < lk lo \<longrightarrow> p < i \<or> p = i \<and> q < j \<longrightarrow> \<not> delta_pair lo D bs p q)"

lemma completes_anchor:
  assumes ok: "graphs_ok lo D F" and ij: "i < j" "j < lk lo" and b: "b \<in> affected F ! i" and c: "c \<in> affected F ! j"
    and e: "c \<in> get_bitset lo F (vertex_at lo i b) j" and len: "length sol = lk lo"
    and cv: "\<And>p. p < lk lo \<Longrightarrow> p \<notin> {i, j} \<Longrightarrow> cv ! p = seed_set lo D F (vertex_at lo i b) (vertex_at lo j c) i j p"
  shows "completes lo D F (Some i) {i, j} cv (sol[i := vertex_at lo i b, j := vertex_at lo j c]) xs \<longleftrightarrow>
    (\<exists>bs. xs = solution lo bs \<and> anchored lo D F i b j c bs)"
proof
  assume "completes lo D F (Some i) {i, j} cv (sol[i := vertex_at lo i b, j := vertex_at lo j c]) xs"
  then obtain bs where xs: "length xs = lk lo" "\<And>p. p < lk lo \<Longrightarrow> p \<in> {i, j} \<Longrightarrow> xs ! p = sol[i := vertex_at lo i b, j := vertex_at lo j c] ! p"
    and bs: "\<And>p. p < lk lo \<Longrightarrow> p \<notin> {i, j} \<Longrightarrow> bs p \<in> cv ! p \<and> xs ! p = vertex_at lo p (bs p)
      \<and> (\<forall>q < lk lo. q \<notin> {i, j} \<longrightarrow> p \<noteq> q \<longrightarrow> may_join lo D F (Some i) (xs ! p) q (bs q))"
    unfolding completes_def by blast
  define cs where "cs = bs(i := b, j := c)"
  have cs: "cs i = b" "cs j = c" "\<And>p. p \<notin> {i, j} \<Longrightarrow> cs p = bs p" using ij(1) by (auto simp: cs_def)
  have i: "i < lk lo" using ij by simp
  have nth: "xs ! p = vertex_at lo p (cs p)" if "p < lk lo" for p
    using xs(2) [OF that] bs [OF that] cs ij i len by (cases "p = i"; cases "p = j") auto
  have seed: "cs p \<in> get_bitset lo F (vertex_at lo i b) p" "cs p \<in> get_bitset lo F (vertex_at lo j c) p"
    "p < j \<Longrightarrow> cs p \<notin> get_bitset lo D (vertex_at lo i b) p" "p < i \<Longrightarrow> cs p \<notin> get_bitset lo D (vertex_at lo j c) p"
    if "p < lk lo" "p \<notin> {i, j}" for p
    using bs [OF that] cv [OF that] cs(3) [OF that(2)] by (auto simp: seed_set_def)
  have aff: "cs p \<in> affected F ! p" if "p < lk lo" for p
    using seed(1) [of p] graphs_ok_edge(1) [OF ok i that b] that b c cs by (cases "p = i"; cases "p = j") auto
  have join: "may_join lo D F (Some i) (vertex_at lo p (cs p)) q (cs q)" if "p < lk lo" "q < lk lo" "p \<notin> {i, j}" "q \<notin> {i, j}" "p \<noteq> q" for p q
    using bs [OF that(1,3)] that nth cs(3) by metis
  have edge: "cs q \<in> get_bitset lo F (vertex_at lo p (cs p)) q" if pq: "p < lk lo" "q < lk lo" "p \<noteq> q" for p q
  proof -
    have from_i: "cs q \<in> get_bitset lo F (vertex_at lo i b) q" if "q < lk lo" "q \<noteq> i" for q using seed(1) [of q] that e cs by (cases "q = j") auto
    have from_j: "cs q \<in> get_bitset lo F (vertex_at lo j c) q" if "q < lk lo" "q \<noteq> j" for q
      using seed(2) [of q] that e cs graphs_ok_edge(3) [OF ok i ij(2) b _ c] ij(1) by (cases "q = i") auto
    have sym: "cs q \<in> get_bitset lo F (vertex_at lo p (cs p)) q \<longleftrightarrow> cs p \<in> get_bitset lo F (vertex_at lo q (cs q)) p"
      using graphs_ok_edge(3) [OF ok pq(1,2) aff [OF pq(1)] pq(3) aff [OF pq(2)]] .
    show ?thesis
      using from_i from_j sym join [of p q] pq cs(1,2) by (cases "p \<in> {i, j}"; cases "q \<in> {i, j}") (auto simp: may_join_def)
  qed
  have cl: "clique_at lo F cs" unfolding clique_at_def using aff edge by blast
  have low: "\<not> delta_pair lo D cs p q" if pq: "p < q" "q < lk lo" "p < i \<or> p = i \<and> q < j" for p q
  proof -
    have p: "p < lk lo" "p \<noteq> q" "p \<noteq> j" using pq ij by auto
    have part: "vertex_to_partition lo ! vertex_at lo p (cs p) = p"
      using vertex_at_tables(1) [OF graphs_okD(1) [OF ok] p(1)] graph_okD(1) [OF graphs_okD(3) [OF ok] p(1) aff [OF p(1)]] by simp
    note sym = delta_pair_sym [OF ok cl p(1) pq(2) p(2)]
    consider "p = i" | "p < i" "q = i" | "p < i" "q = j" | "p < i" "q \<notin> {i, j}" using pq(3) by auto
    then show ?thesis
    proof cases
      case 1
      then show ?thesis using seed(3) [OF pq(2)] pq ij cs by (auto simp: delta_pair_def)
    next
      case 2
      then show ?thesis using seed(3) [OF p(1)] sym p ij cs by (auto simp: delta_pair_def)
    next
      case 3
      then show ?thesis using seed(4) [OF p(1)] sym p ij cs by (auto simp: delta_pair_def)
    next
      case 4
      then show ?thesis using join [OF p(1) pq(2)] part p by (auto simp: may_join_def delta_pair_def)
    qed
  qed
  have "xs = solution lo cs" using xs(1) nth by (rule solution_eqI)
  moreover have "anchored lo D F i b j c cs" unfolding anchored_def using cl cs(1,2) low by blast
  ultimately show "\<exists>bs. xs = solution lo bs \<and> anchored lo D F i b j c bs" by blast
next
  assume "\<exists>bs. xs = solution lo bs \<and> anchored lo D F i b j c bs"
  then obtain bs where xs: "xs = solution lo bs" and cl: "clique_at lo F bs" and ends: "bs i = b" "bs j = c"
    and low: "\<And>p q. p < q \<Longrightarrow> q < lk lo \<Longrightarrow> p < i \<or> p = i \<and> q < j \<Longrightarrow> \<not> delta_pair lo D bs p q" unfolding anchored_def by blast
  have i: "i < lk lo" using ij by simp
  have edge: "bs q \<in> get_bitset lo F (vertex_at lo p (bs p)) q" if "p < lk lo" "q < lk lo" "p \<noteq> q" for p q
    using cl that unfolding clique_at_def by blast
  have low': "\<not> delta_pair lo D bs q p" if "p < q" "q < lk lo" "p < i \<or> p = i \<and> q < j" for p q
    using low [OF that] delta_pair_sym [OF ok cl, of p q] that by simp
  have seed: "bs p \<in> cv ! p" if p: "p < lk lo" "p \<notin> {i, j}" for p
  proof -
    have "bs p \<notin> get_bitset lo D (vertex_at lo i b) p" if "p < j"
      using low [of i p] low' [of p i] p i ij ends that by (cases "p < i") (auto simp: delta_pair_def)
    moreover have "bs p \<notin> get_bitset lo D (vertex_at lo j c) p" if "p < i"
      using low' [of p j] p ij ends that by (auto simp: delta_pair_def)
    ultimately show ?thesis using edge [OF i p(1)] edge [OF ij(2) p(1)] p cv [OF p] ends by (auto simp: seed_set_def)
  qed
  have join: "may_join lo D F (Some i) (vertex_at lo p (bs p)) q (bs q)" if pq: "p < lk lo" "q < lk lo" "p \<noteq> q" for p q
  proof -
    have part: "vertex_to_partition lo ! vertex_at lo p (bs p) = p"
      using vertex_at_tables(1) [OF graphs_okD(1) [OF ok] pq(1)] graph_okD(1) [OF graphs_okD(3) [OF ok] pq(1)] cl pq(1) by (simp add: clique_at_def)
    have "bs q \<notin> get_bitset lo D (vertex_at lo p (bs p)) q" if "p < i \<or> q < i"
      using low [of p q] low' [of q p] pq that unfolding delta_pair_def by (cases "p < q") auto
    then show ?thesis using edge [OF pq] part by (simp add: may_join_def)
  qed
  show "completes lo D F (Some i) {i, j} cv (sol[i := vertex_at lo i b, j := vertex_at lo j c]) xs"
    unfolding completes_def
  proof (intro conjI allI impI exI [of _ bs])
    fix p assume p: "p < lk lo" "p \<in> {i, j}"
    then show "xs ! p = sol[i := vertex_at lo i b, j := vertex_at lo j c] ! p"
      using xs ends len ij by (cases "p = j") auto
  next
    fix p q assume "p < lk lo" "q < lk lo" "p \<noteq> q"
    then show "may_join lo D F (Some i) (xs ! p) q (bs q)" using join xs by simp
  qed (use xs seed in auto)
qed

lemma vertex_part:
  assumes "graphs_ok lo D F" "p < lk lo" "b \<in> affected F ! p"
  shows "vertex_to_partition lo ! vertex_at lo p b = p"
  using vertex_at_tables(1) [OF graphs_okD(1) [OF assms(1)] assms(2)] graph_okD(1) [OF graphs_okD(3) [OF assms(1)] assms(2,3)] by simp

lemma cliques_from_anchor_spec:
  assumes ok: "graphs_ok lo D F" and k: "2 < lk lo" and ij: "i < j" "j < lk lo" and b: "b \<in> affected F ! i" and c: "c \<in> affected F ! j"
    and e: "c \<in> get_bitset lo F (vertex_at lo i b) j" and len: "length sol = lk lo" "length cv = lk lo"
  shows "distinct (cliques_from_anchor lo D F cv sol (vertex_at lo i b, vertex_at lo j c)) \<and>
    set (cliques_from_anchor lo D F cv sol (vertex_at lo i b, vertex_at lo j c)) = {solution lo bs | bs. anchored lo D F i b j c bs}"
proof -
  let ?u = "vertex_at lo i b" and ?v = "vertex_at lo j c"
  have i: "i < lk lo" using ij by simp
  have part: "vertex_to_partition lo ! ?u = i" "vertex_to_partition lo ! ?v = j" using vertex_part [OF ok i b] vertex_part [OF ok ij(2) c] by simp_all
  have seeds: "case seed_loop lo D F ?u ?v i j [0..<lk lo] cv of
      None \<Rightarrow> \<exists>p \<in> set [0..<lk lo] - {i, j}. seed_set lo D F ?u ?v i j p = {}
    | Some cv' \<Rightarrow> length cv' = length cv \<and> (\<forall>p \<in> set [0..<lk lo] - {i, j}. cv' ! p = seed_set lo D F ?u ?v i j p)
        \<and> (\<forall>p. p \<notin> set [0..<lk lo] - {i, j} \<longrightarrow> cv' ! p = cv ! p)" using len by (intro seed_loop_spec) auto
  show ?thesis
  proof (cases "seed_loop lo D F ?u ?v i j [0..<lk lo] cv")
    case None
    then obtain p where p: "p < lk lo" "p \<notin> {i, j}" "seed_set lo D F ?u ?v i j p = {}"
      using seeds unfolding None option.case by (metis DiffD1 DiffD2 atLeastLessThan_iff set_upt)
    have "\<not> anchored lo D F i b j c bs" for bs
    proof
      assume "anchored lo D F i b j c bs"
      then have "completes lo D F (Some i) {i, j} (map (seed_set lo D F ?u ?v i j) [0..<lk lo]) (sol[i := ?u, j := ?v]) (solution lo bs)"
        using completes_anchor [OF ok ij b c e len(1), of "map (seed_set lo D F ?u ?v i j) [0..<lk lo]"] by auto
      then show False using p by (auto simp: completes_def)
    qed
    then show ?thesis using None part by (simp add: cliques_from_anchor_def seed_from_anchor_def Let_def)
  next
    case (Some cv')
    have cv': "length cv' = lk lo" "\<And>p. p < lk lo \<Longrightarrow> p \<notin> {i, j} \<Longrightarrow> cv' ! p = seed_set lo D F ?u ?v i j p" using seeds Some len by auto
    have "card {i, j} = 2" using ij by simp
    then have ne: "{i, j} \<noteq> {..<lk lo}" "2 = card {i, j}" using k card_lessThan [of "lk lo"] by (metis nat_less_le, simp)
    have act: "cv' ! p \<subseteq> affected F ! p" if "p < lk lo" "p \<notin> {i, j}" for p
      using cv'(2) [OF that] graphs_ok_edge(1) [OF ok i that(1) b] that(2) by (auto simp: seed_set_def)
    have "distinct (complete_from_seed lo D F (Some i) {i, j} cv' (sol[i := ?u, j := ?v]) 2) \<and>
      set (complete_from_seed lo D F (Some i) {i, j} cv' (sol[i := ?u, j := ?v]) 2) = {xs. completes lo D F (Some i) {i, j} cv' (sol[i := ?u, j := ?v]) xs}"
      by (rule complete_from_seed_spec [OF graphs_okD(1,4) [OF ok] symmetric_join_affected [OF ok] affected_small [OF ok] _ ne cv'(1) _ act])
        (use ij i len in auto)
    moreover have "cliques_from_anchor lo D F cv sol (?u, ?v) = complete_from_seed lo D F (Some i) {i, j} cv' (sol[i := ?u, j := ?v]) 2"
      using Some part by (simp add: cliques_from_anchor_def seed_from_anchor_def Let_def)
    ultimately show ?thesis using completes_anchor [OF ok ij b c e len(1) cv'(2)] by auto
  qed
qed

text \<open>The smallest delta edge of a clique.\<close>

lemma smallest_pair:
  fixes P :: "nat \<Rightarrow> nat \<Rightarrow> bool"
  assumes "\<exists>p q. p < q \<and> q < k \<and> P p q"
  shows "\<exists>i j. i < j \<and> j < k \<and> P i j \<and> (\<forall>p q. p < q \<longrightarrow> q < k \<longrightarrow> p < i \<or> p = i \<and> q < j \<longrightarrow> \<not> P p q)"
proof -
  define i where "i = (LEAST p. \<exists>q. p < q \<and> q < k \<and> P p q)"
  have i: "\<exists>q. i < q \<and> q < k \<and> P i q" unfolding i_def using assms by (rule LeastI_ex)
  have li: "\<not> (\<exists>q. p < q \<and> q < k \<and> P p q)" if "p < i" for p using not_less_Least that unfolding i_def by blast
  define j where "j = (LEAST q. i < q \<and> q < k \<and> P i q)"
  have j: "i < j \<and> j < k \<and> P i j" unfolding j_def using i by (rule LeastI_ex)
  have lj: "\<not> (i < q \<and> q < k \<and> P i q)" if "q < j" for q using not_less_Least that unfolding j_def by blast
  show ?thesis using j li lj by blast
qed

lemma anchor_unique:
  assumes "anchored lo D F i b j c bs" "anchored lo D F i' b' j' c' bs" "i < j" "j < lk lo" "i' < j'" "j' < lk lo"
    and "delta_pair lo D bs i j" "delta_pair lo D bs i' j'"
  shows "i = i' \<and> j = j' \<and> b = b' \<and> c = c'"
proof -
  have "\<not> (i' < i \<or> i' = i \<and> j' < j)" using assms unfolding anchored_def by blast
  moreover have "\<not> (i < i' \<or> i = i' \<and> j < j')" using assms unfolding anchored_def by blast
  ultimately have "i = i'" "j = j'" by auto
  then show ?thesis using assms(1,2) by (auto simp: anchored_def)
qed

lemma solution_inj:
  assumes "graphs_ok lo D F" "clique_at lo F bs" "clique_at lo F cs" "solution lo bs = solution lo cs" "p < lk lo"
  shows "bs p = cs p"
proof -
  have "solution lo bs ! p = solution lo cs ! p" using assms(4) by simp
  then show ?thesis using assms(5) by (simp add: vertex_at_def)
qed

lemma anchored_cong:
  assumes "graphs_ok lo D F" "anchored lo D F i b j c bs" "clique_at lo F cs" "solution lo bs = solution lo cs" "i < lk lo" "j < lk lo"
  shows "anchored lo D F i b j c cs"
proof -
  have eq: "bs p = cs p" if "p < lk lo" for p using solution_inj [OF assms(1) _ assms(3,4) that] assms(2) by (simp add: anchored_def)
  have "delta_pair lo D bs p q = delta_pair lo D cs p q" if "p < q" "q < lk lo" for p q using eq that by (simp add: delta_pair_def)
  then show ?thesis using assms(2,3,5,6) eq unfolding anchored_def by simp
qed

section \<open>The enumeration\<close>

definition new_k_cliques :: "layout \<Rightarrow> kgraph \<Rightarrow> kgraph \<Rightarrow> nat list set" where
  "new_k_cliques lo D F = {solution lo bs | bs. clique_at lo F bs \<and>
     (if lk lo = 1 then bs 0 \<in> affected D ! 0 else \<exists>p q. p < q \<and> q < lk lo \<and> delta_pair lo D bs p q)}"

lemma unary_solution: "lk lo = 1 \<Longrightarrow> length sol = 1 \<Longrightarrow> sol[0 := vertex_at lo 0 (bs 0)] = solution lo bs"
  by (cases sol) (auto simp: solution_def)

lemma binary_solution: "lk lo = 2 \<Longrightarrow> length sol = 2 \<Longrightarrow> sol[0 := vertex_at lo 0 (bs 0), 1 := vertex_at lo 1 (bs 1)] = solution lo bs"
  by (intro nth_equalityI) (auto simp: less_2_cases_iff)

lemma less_less_two: "p < q \<and> q < 2 \<longleftrightarrow> p = 0 \<and> q = 1" for p q :: nat
  by auto

lemma binary_clique_at:
  assumes "graphs_ok lo D F" "lk lo = 2"
  shows "clique_at lo F bs \<longleftrightarrow> bs 0 \<in> affected F ! 0 \<and> bs 1 \<in> affected F ! 1 \<and> bs 1 \<in> get_bitset lo F (vertex_at lo 0 (bs 0)) 1"
  using assms(2) graphs_ok_edge(3) [OF assms(1), of 0 1 "bs 0" "bs 1"] unfolding clique_at_def by (auto simp: less_2_cases_iff)

lemma unary_cliques:
  assumes lo: "layout_ok lo" "graph_ok lo G" "lk lo = 1" "length sol = 1"
  shows "distinct (map (\<lambda>v. sol[0 := v]) (for_each_vertex lo G))"
    and "set (map (\<lambda>v. sol[0 := v]) (for_each_vertex lo G)) = {solution lo bs | bs. bs 0 \<in> affected G ! 0}"
proof -
  obtain x where sol: "sol = [x]" using lo(4) by (cases sol) auto
  show "distinct (map (\<lambda>v. sol[0 := v]) (for_each_vertex lo G))"
    using for_each_vertex_spec(2) [OF lo(1,2)] by (simp add: distinct_map inj_on_def sol)
  have v: "v \<in> set (for_each_vertex lo G) \<longleftrightarrow> (\<exists>b \<in> affected G ! 0. v = vertex_at lo 0 b)" for v
    using for_each_vertex_spec(1) [OF lo(1,2)] lo(3) by simp
  have "[vertex_at lo 0 b] = solution lo (\<lambda>_. b)" for b using lo(3) by (simp add: solution_def)
  moreover have "solution lo bs = [vertex_at lo 0 (bs 0)]" for bs using lo(3) by (simp add: solution_def)
  ultimately show "set (map (\<lambda>v. sol[0 := v]) (for_each_vertex lo G)) = {solution lo bs | bs. bs 0 \<in> affected G ! 0}"
    by (auto simp: sol v image_iff)
qed

lemma binary_cliques:
  assumes lo: "layout_ok lo" "graph_ok lo G" "lk lo = 2" "length sol = 2"
  shows "distinct (map (\<lambda>e. sol[0 := fst e, 1 := snd e]) (for_each_edge lo G))"
    and "set (map (\<lambda>e. sol[0 := fst e, 1 := snd e]) (for_each_edge lo G)) = {solution lo bs | bs. bs 0 \<in> affected G ! 0 \<and> bs 1 \<in> affected G ! 1
      \<and> bs 1 \<in> get_bitset lo G (vertex_at lo 0 (bs 0)) 1}"
proof -
  obtain x y where sol: "sol = [x, y]" using lo(4) by (metis length_0_conv length_Suc_conv numeral_2_eq_2)
  show "distinct (map (\<lambda>e. sol[0 := fst e, 1 := snd e]) (for_each_edge lo G))"
    using for_each_edge_spec(2) [OF lo(1,2)] by (auto simp: distinct_map inj_on_def sol)
  have e: "e \<in> set (for_each_edge lo G) \<longleftrightarrow> (\<exists>b c. b \<in> affected G ! 0 \<and> c \<in> affected G ! 1
      \<and> c \<in> get_bitset lo G (vertex_at lo 0 b) 1 \<and> e = (vertex_at lo 0 b, vertex_at lo 1 c))" for e
  proof -
    have "e \<in> set (for_each_edge lo G) \<longleftrightarrow> (\<exists>p b q c. (p = 0 \<and> q = 1) \<and> b \<in> affected G ! p
      \<and> c \<in> affected G ! q \<and> c \<in> get_bitset lo G (vertex_at lo p b) q \<and> e = (vertex_at lo p b, vertex_at lo q c))"
      unfolding for_each_edge_spec(1) [OF lo(1,2)] lo(3) using less_less_two by metis
    then show ?thesis by auto
  qed
  have s: "solution lo bs = [vertex_at lo 0 (bs 0), vertex_at lo 1 (bs 1)]" for bs using lo(3) by (simp add: solution_def upt_rec)
  have t: "[vertex_at lo 0 b, vertex_at lo 1 c] = solution lo (\<lambda>p. if p = 0 then b else c)" for b c by (simp add: s)
  show "set (map (\<lambda>e. sol[0 := fst e, 1 := snd e]) (for_each_edge lo G)) = {solution lo bs | bs. bs 0 \<in> affected G ! 0 \<and> bs 1 \<in> affected G ! 1
      \<and> bs 1 \<in> get_bitset lo G (vertex_at lo 0 (bs 0)) 1}" (is "?l = ?r")
  proof (intro equalityI subsetI)
    fix xs assume "xs \<in> ?l"
    then obtain b c where "b \<in> affected G ! 0" "c \<in> affected G ! 1" "c \<in> get_bitset lo G (vertex_at lo 0 b) 1" "xs = [vertex_at lo 0 b, vertex_at lo 1 c]"
      by (auto simp: sol e)
    then show "xs \<in> ?r" by (intro CollectI exI [of _ "\<lambda>p. if p = 0 then b else c"]) (simp add: s)
  next
    fix xs assume "xs \<in> ?r"
    then obtain bs where bs: "xs = solution lo bs" "bs 0 \<in> affected G ! 0" "bs 1 \<in> affected G ! 1"
      "bs 1 \<in> get_bitset lo G (vertex_at lo 0 (bs 0)) 1" by blast
    then have "(vertex_at lo 0 (bs 0), vertex_at lo 1 (bs 1)) \<in> set (for_each_edge lo G)" unfolding e by blast
    with bs(1) [unfolded s] show "xs \<in> ?l" by (force simp: sol)
  qed
qed

lemma for_each_k_clique_spec:
  assumes ok: "graphs_ok lo D F" and len: "length sol = lk lo"
  shows "distinct (for_each_k_clique lo D F sol)" "set (for_each_k_clique lo D F sol) = k_cliques lo F"
proof -
  have "distinct (for_each_k_clique lo D F sol) \<and> set (for_each_k_clique lo D F sol) = k_cliques lo F"
  proof -
    consider "lk lo = 0" | "lk lo = 1" | "lk lo = 2" | "2 < lk lo" by linarith
    then show ?thesis
    proof cases
      case 1
      then show ?thesis using len by (auto simp: for_each_k_clique_def k_cliques_def clique_at_def solution_def)
    next
      case 2
      then have "clique_at lo F bs \<longleftrightarrow> bs 0 \<in> affected F ! 0" for bs by (simp add: clique_at_def)
      then show ?thesis using unary_cliques [OF graphs_okD(1,3) [OF ok] 2] 2 len by (simp add: for_each_k_clique_def k_cliques_def)
    next
      case 3
      then show ?thesis using binary_cliques [OF graphs_okD(1,3) [OF ok] 3] len
        by (simp add: for_each_k_clique_def k_cliques_def binary_clique_at [OF ok 3])
    next
      case 4
      then show ?thesis using complete_without_anchor [OF ok _ len] by (simp add: for_each_k_clique_def)
    qed
  qed
  then show "distinct (for_each_k_clique lo D F sol)" "set (for_each_k_clique lo D F sol) = k_cliques lo F" by auto
qed

lemma for_each_new_k_clique_spec:
  assumes ok: "graphs_ok lo D F" and len: "length sol = lk lo" "length cv = lk lo" and "n \<noteq> 1"
  shows "distinct (for_each_new_k_clique lo n D F cv sol) \<and> set (for_each_new_k_clique lo n D F cv sol) = new_k_cliques lo D F"
proof -
  consider "lk lo = 0" | "lk lo = 1" | "lk lo = 2" | "2 < lk lo" by linarith
  then show ?thesis
  proof cases
    case 1
    then show ?thesis using assms(4) by (simp add: for_each_new_k_clique_def new_k_cliques_def)
  next
    case 2
    then have "clique_at lo F bs \<and> bs 0 \<in> affected D ! 0 \<longleftrightarrow> bs 0 \<in> affected D ! 0" for bs
      using graphs_okD(6) [OF ok, of 0 "bs 0"] by (auto simp: clique_at_def)
    then show ?thesis using unary_cliques [OF graphs_okD(1,2) [OF ok] 2] 2 len assms(4) by (simp add: for_each_new_k_clique_def new_k_cliques_def)
  next
    case 3
    have "clique_at lo F bs \<and> (\<exists>p q. p < q \<and> q < lk lo \<and> delta_pair lo D bs p q) \<longleftrightarrow>
      bs 0 \<in> affected D ! 0 \<and> bs 1 \<in> affected D ! 1 \<and> bs 1 \<in> get_bitset lo D (vertex_at lo 0 (bs 0)) 1" for bs
    proof -
      have "(\<exists>p q. p < q \<and> q < lk lo \<and> delta_pair lo D bs p q) \<longleftrightarrow> (\<exists>p q. (p = 0 \<and> q = 1) \<and> delta_pair lo D bs p q)"
        unfolding 3 using less_less_two by metis
      then have ex: "(\<exists>p q. p < q \<and> q < lk lo \<and> delta_pair lo D bs p q) \<longleftrightarrow> delta_pair lo D bs 0 1" by simp
      have k: "0 < lk lo" "1 < lk lo" "(0::nat) \<noteq> 1" using 3 by simp_all
      show ?thesis
        unfolding ex binary_clique_at [OF ok 3] unfolding delta_pair_def
        using graphs_ok_edge(2,5) [OF ok k(1,2) _ k(3)] graphs_okD(6) [OF ok k(1)] graphs_okD(6) [OF ok k(2)] by blast
    qed
    then show ?thesis using binary_cliques [OF graphs_okD(1,2) [OF ok] 3] 3 len assms(4) by (simp add: for_each_new_k_clique_def new_k_cliques_def)
  next
    case 4
    let ?f = "cliques_from_anchor lo D F cv sol"
    have new: "new_k_cliques lo D F = {solution lo bs | bs. clique_at lo F bs \<and> (\<exists>p q. p < q \<and> q < lk lo \<and> delta_pair lo D bs p q)}"
      using 4 unfolding new_k_cliques_def by simp
    have eq: "for_each_new_k_clique lo n D F cv sol = concat (map ?f (for_each_edge lo D))"
      using 4 assms(4) by (simp add: for_each_new_k_clique_def)
    have edge: "\<exists>i b j c. e = (vertex_at lo i b, vertex_at lo j c) \<and> i < j \<and> j < lk lo \<and> b \<in> affected F ! i \<and> c \<in> affected F ! j
      \<and> c \<in> get_bitset lo D (vertex_at lo i b) j \<and> distinct (?f e) \<and> set (?f e) = {solution lo bs | bs. anchored lo D F i b j c bs}"
      if e: "e \<in> set (for_each_edge lo D)" for e
    proof -
      obtain i b j c where *: "i < j" "j < lk lo" "b \<in> affected D ! i" "c \<in> affected D ! j" "c \<in> get_bitset lo D (vertex_at lo i b) j"
        "e = (vertex_at lo i b, vertex_at lo j c)" using e for_each_edge_spec(1) [OF graphs_okD(1,2) [OF ok]] by blast
      then have f: "b \<in> affected F ! i" "c \<in> affected F ! j" using graphs_okD(6) [OF ok] by auto
      moreover have "c \<in> get_bitset lo F (vertex_at lo i b) j" using graphs_ok_edge(2) [OF ok _ *(2) f(1)] *(1,2,5) by simp
      ultimately show ?thesis using cliques_from_anchor_spec [OF ok 4 *(1,2)] * len by blast
    qed
    have pair: "delta_pair lo D bs i j" if "anchored lo D F i b j c bs" "c \<in> get_bitset lo D (vertex_at lo i b) j" for i b j c bs
      using that by (auto simp: anchored_def delta_pair_def)
    have "distinct (concat (map ?f (for_each_edge lo D)))"
    proof (rule distinct_concat_map)
      show "distinct (for_each_edge lo D)" by (rule for_each_edge_spec(2) [OF graphs_okD(1,2) [OF ok]])
      show "distinct (?f e)" if "e \<in> set (for_each_edge lo D)" for e using edge [OF that] by blast
      fix e e' xs assume e: "e \<in> set (for_each_edge lo D)" and e': "e' \<in> set (for_each_edge lo D)" and xs: "xs \<in> set (?f e)" "xs \<in> set (?f e')"
      obtain i b j c bs where 1: "e = (vertex_at lo i b, vertex_at lo j c)" "i < j" "j < lk lo" "c \<in> get_bitset lo D (vertex_at lo i b) j"
        "xs = solution lo bs" "anchored lo D F i b j c bs" using edge [OF e] xs(1) by blast
      obtain i' b' j' c' bs' where 2: "e' = (vertex_at lo i' b', vertex_at lo j' c')" "i' < j'" "j' < lk lo" "c' \<in> get_bitset lo D (vertex_at lo i' b') j'"
        "xs = solution lo bs'" "anchored lo D F i' b' j' c' bs'" using edge [OF e'] xs(2) by blast
      have "anchored lo D F i' b' j' c' bs"
        using anchored_cong [OF ok 2(6), of bs] 1(5,6) 2 by (simp add: anchored_def [of _ _ _ i])
      then show "e = e'" using anchor_unique [OF 1(6) _ 1(2,3) 2(2,3) pair [OF 1(6,4)] pair [OF _ 2(4)]] 1(1) 2(1) by blast
    qed
    moreover have "set (concat (map ?f (for_each_edge lo D))) = new_k_cliques lo D F"
    proof (intro equalityI subsetI)
      fix xs assume "xs \<in> set (concat (map ?f (for_each_edge lo D)))"
      then obtain e where e: "e \<in> set (for_each_edge lo D)" "xs \<in> set (?f e)" by auto
      then obtain i b j c bs where a: "i < j" "j < lk lo" "c \<in> get_bitset lo D (vertex_at lo i b) j" "xs = solution lo bs" "anchored lo D F i b j c bs"
        using edge [OF e(1)] by blast
      have c: "clique_at lo F bs" using a(5) by (simp add: anchored_def)
      have "\<exists>p q. p < q \<and> q < lk lo \<and> delta_pair lo D bs p q" using a(1,2) pair [OF a(5,3)] by blast
      then show "xs \<in> new_k_cliques lo D F" using c a(4) unfolding new by blast
    next
      fix xs assume "xs \<in> new_k_cliques lo D F"
      then obtain bs where bs: "xs = solution lo bs" "clique_at lo F bs" "\<exists>p q. p < q \<and> q < lk lo \<and> delta_pair lo D bs p q"
        unfolding new by blast
      obtain i j where ij: "i < j" "j < lk lo" "delta_pair lo D bs i j"
        "\<forall>p q. p < q \<longrightarrow> q < lk lo \<longrightarrow> p < i \<or> p = i \<and> q < j \<longrightarrow> \<not> delta_pair lo D bs p q" using smallest_pair [OF bs(3)] by blast
      have i: "i < lk lo" using ij by simp
      have F: "bs i \<in> affected F ! i" "bs j \<in> affected F ! j" using bs(2) ij i by (auto simp: clique_at_def)
      have D: "bs i \<in> affected D ! i \<and> bs j \<in> affected D ! j"
        using graphs_ok_edge(5) [OF ok i ij(2) F(1) _ F(2)] ij by (auto simp: delta_pair_def)
      have "(vertex_at lo i (bs i), vertex_at lo j (bs j)) \<in> set (for_each_edge lo D)"
        unfolding for_each_edge_spec(1) [OF graphs_okD(1,2) [OF ok]] using ij D by (auto simp: delta_pair_def)
      moreover have "c \<in> get_bitset lo F (vertex_at lo i (bs i)) j" if "c = bs j" for c
        using bs(2) ij i that by (auto simp: clique_at_def)
      then have "set (?f (vertex_at lo i (bs i), vertex_at lo j (bs j))) = {solution lo cs | cs. anchored lo D F i (bs i) j (bs j) cs}"
        using cliques_from_anchor_spec [OF ok 4 ij(1,2) F _ len] by blast
      moreover have "anchored lo D F i (bs i) j (bs j) bs" using bs(2) ij(4) by (simp add: anchored_def)
      ultimately show "xs \<in> set (concat (map ?f (for_each_edge lo D)))" using bs(1) by auto
    qed
    ultimately show ?thesis unfolding eq by blast
  qed
qed

end
