(* ===== verification/Consistency_Update.thy ===== *)
theory Consistency_Update
  imports Delta_Kpkc
begin

text \<open>
  \<^verbatim>\<open>initialize_dynamic_consistency_graphs\<close> of \<^verbatim>\<open>src/datalog/consistency_graph.cpp\<close> and the class \<^verbatim>\<open>DeltaKPKC\<close> of
  \<^verbatim>\<open>src/datalog/delta_kpkc.cpp\<close>: one step adds to the full graph the vertices and edges that have become consistent, and
  leaves in the delta graph what is new. The tests of a vertex and of an edge against the current assignment sets are arguments
  here; the theory of consistency graphs passes the tests on literals.
\<close>

section \<open>Model\<close>

definition runtime_unary :: "vdg \<Rightarrow> nat \<Rightarrow> bool" where
  "runtime_unary g p \<longleftrightarrow> has_unary_kind g Fluent_Positive p \<or> has_unary_kind g Fluent_Negative p \<or> has_unary_kind g Numeric p"

definition runtime_binary :: "vdg \<Rightarrow> nat \<Rightarrow> nat \<Rightarrow> bool" where
  "runtime_binary g i j \<longleftrightarrow> has_binary_kind g Fluent_Positive i j \<or> has_binary_kind g Fluent_Negative i j \<or> has_binary_kind g Numeric i j"

type_synonym graph_pair = "kgraph \<times> kgraph"

definition init_vertex :: "layout \<Rightarrow> (nat \<Rightarrow> bool) \<Rightarrow> nat \<Rightarrow> nat \<Rightarrow> graph_pair \<Rightarrow> graph_pair" where
  "init_vertex lo consistent p b st =
     (let (D, F) = st in
      if consistent (vertex_at lo p b) then
        (D\<lparr>affected := (affected D)[p := insert b (affected D ! p)], delta_parts := (delta_parts D)[p := insert b (delta_parts D ! p)]\<rparr>,
         F\<lparr>affected := (affected F)[p := insert b (affected F ! p)], delta_parts := (delta_parts F)[p := insert b (delta_parts F ! p)]\<rparr>)
      else st)"

definition init_partition :: "layout \<Rightarrow> vdg \<Rightarrow> (nat \<Rightarrow> bool) \<Rightarrow> nat \<Rightarrow> graph_pair \<Rightarrow> graph_pair" where
  "init_partition lo unary consistent p st =
     (let (D, F) = st; all = {..<num_bits (infos lo ! p)} in
      if \<not> runtime_unary unary p then
        (D\<lparr>affected := (affected D)[p := all - affected F ! p], delta_parts := (delta_parts D)[p := all - delta_parts F ! p]\<rparr>,
         F\<lparr>affected := (affected F)[p := all], delta_parts := (delta_parts F)[p := all]\<rparr>)
      else fold (init_vertex lo consistent p) (sorted_list_of_set (all - affected F ! p)) st)"

text \<open>The edges come with the list of new edges.\<close>

type_synonym edge_state = "kgraph \<times> kgraph \<times> (nat \<times> nat) list"

definition init_implicit :: "nat \<Rightarrow> nat \<Rightarrow> edge_state \<Rightarrow> edge_state" where
  "init_implicit pi pj st =
     (let (D, F, es) = st;
          D = (if delta_parts D ! pi \<noteq> {} then D\<lparr>affected := (affected D)[pj := affected D ! pj \<union> affected F ! pj]\<rparr> else D);
          D = (if delta_parts D ! pj \<noteq> {} then D\<lparr>affected := (affected D)[pi := affected D ! pi \<union> affected F ! pi]\<rparr> else D)
      in (D, F, es))"

definition add_cell :: "nat \<Rightarrow> nat \<Rightarrow> nat \<Rightarrow> (nat \<Rightarrow> nat \<Rightarrow> nat set) \<Rightarrow> nat \<Rightarrow> nat \<Rightarrow> nat set" where
  "add_cell v p b c = (\<lambda>v' p'. if v' = v \<and> p' = p then insert b (c v p) else c v' p')"

definition process_delta_edge :: "layout \<Rightarrow> nat \<Rightarrow> nat \<Rightarrow> nat \<Rightarrow> nat \<Rightarrow> edge_state \<Rightarrow> edge_state" where
  "process_delta_edge lo pi pj bi bj st =
     (let (D, F, es) = st; vi = vertex_at lo pi bi; vj = vertex_at lo pj bj in
      (D\<lparr>cells := add_cell vj pi bi (add_cell vi pj bj (cells D)),
         affected := (affected D)[pi := insert bi (affected D ! pi), pj := insert bj ((affected D)[pi := insert bi (affected D ! pi)] ! pj)],
         touched := insert (vj * lk lo + pi) (insert (vi * lk lo + pj) (touched D))\<rparr>,
       F\<lparr>cells := add_cell vj pi bi (add_cell vi pj bj (cells F)),
         touched := insert (vj * lk lo + pi) (insert (vi * lk lo + pj) (touched F))\<rparr>,
       es @ [mk_edge vi vj]))"

definition init_row :: "layout \<Rightarrow> vdg \<Rightarrow> (nat \<Rightarrow> nat \<Rightarrow> nat set) \<Rightarrow> (nat \<Rightarrow> nat \<Rightarrow> bool) \<Rightarrow> nat \<Rightarrow> nat \<Rightarrow> nat \<Rightarrow> edge_state \<Rightarrow> edge_state" where
  "init_row lo binary static_edges consistent pi pj bi st =
     (let (D, F, es) = st; vi = vertex_at lo pi bi;
          bits = sorted_list_of_set (static_edges vi pj \<inter> affected F ! pj - cells F vi pj)
      in if \<not> runtime_binary binary pi pj then fold (process_delta_edge lo pi pj bi) bits st
         else fold (\<lambda>bj st. if consistent vi (vertex_at lo pj bj) then process_delta_edge lo pi pj bi bj st else st) bits st)"

definition init_pair :: "layout \<Rightarrow> vdg \<Rightarrow> (nat \<Rightarrow> nat \<Rightarrow> nat set) \<Rightarrow> (nat \<Rightarrow> nat \<Rightarrow> bool) \<Rightarrow> nat \<Rightarrow> nat \<Rightarrow> edge_state \<Rightarrow> edge_state" where
  "init_pair lo binary static_edges consistent pi pj st =
     (if \<not> has_dependency binary pi pj then init_implicit pi pj st
      else fold (init_row lo binary static_edges consistent pi pj) (sorted_list_of_set (affected (fst (snd st)) ! pi)) st)"

definition init_graphs :: "layout \<Rightarrow> vdg \<Rightarrow> vdg \<Rightarrow> (nat \<Rightarrow> nat \<Rightarrow> nat set) \<Rightarrow> (nat \<Rightarrow> bool) \<Rightarrow> (nat \<Rightarrow> nat \<Rightarrow> bool) \<Rightarrow> graph_pair \<Rightarrow> edge_state" where
  "init_graphs lo unary binary static_edges consistent_vertex consistent_edge st =
     (let (D, F) = fold (init_partition lo unary consistent_vertex) [0..<lk lo] (graph_reset lo (fst st), snd st)
      in fold (\<lambda>pi. fold (init_pair lo binary static_edges consistent_edge pi) [Suc pi..<lk lo]) [0..<lk lo] (D, F, []))"

record delta_kpkc =
  dk_layout :: layout
  dk_iteration :: nat
  dk_delta :: kgraph
  dk_full :: kgraph
  dk_edges :: "(nat \<times> nat) list"

definition dk_init :: "layout \<Rightarrow> vdg \<Rightarrow> delta_kpkc" where
  "dk_init lo binary = \<lparr>dk_layout = lo, dk_iteration = 0, dk_delta = make_graph lo binary, dk_full = make_graph lo binary, dk_edges = []\<rparr>"

definition dk_next :: "vdg \<Rightarrow> vdg \<Rightarrow> (nat \<Rightarrow> nat \<Rightarrow> nat set) \<Rightarrow> (nat \<Rightarrow> bool) \<Rightarrow> (nat \<Rightarrow> nat \<Rightarrow> bool) \<Rightarrow> delta_kpkc \<Rightarrow> delta_kpkc" where
  "dk_next unary binary static_edges consistent_vertex consistent_edge K =
     (let (D, F, es) = init_graphs (dk_layout K) unary binary static_edges consistent_vertex consistent_edge (dk_delta K, dk_full K)
      in K\<lparr>dk_delta := D, dk_full := F, dk_edges := es, dk_iteration := Suc (dk_iteration K)\<rparr>)"

definition dk_reset :: "delta_kpkc \<Rightarrow> delta_kpkc" where
  "dk_reset K = K\<lparr>dk_delta := graph_reset (dk_layout K) (dk_delta K), dk_full := graph_reset (dk_layout K) (dk_full K), dk_iteration := 0\<rparr>"

text \<open>
  A use of the class: each step sets the next assignment sets and then enumerates the new cliques with some workspace, whose
  contents do not matter. A step is the two tests and the two parts of the workspace that the enumeration reads.
\<close>

type_synonym kpkc_step = "((nat \<Rightarrow> bool) \<times> (nat \<Rightarrow> nat \<Rightarrow> bool)) \<times> nat set list \<times> nat list"

definition dk_new_k_cliques :: "delta_kpkc \<Rightarrow> nat set list \<Rightarrow> nat list \<Rightarrow> nat list list" where
  "dk_new_k_cliques K rows sol = for_each_new_k_clique (dk_layout K) (dk_iteration K) (dk_delta K) (dk_full K) rows sol"

fun dk_run :: "vdg \<Rightarrow> vdg \<Rightarrow> (nat \<Rightarrow> nat \<Rightarrow> nat set) \<Rightarrow> kpkc_step list \<Rightarrow> delta_kpkc \<Rightarrow> nat list list \<times> delta_kpkc" where
  "dk_run unary binary static_edges [] K = ([], K)"
| "dk_run unary binary static_edges (((cv, ce), rows, sol) # steps) K =
     (let K = dk_next unary binary static_edges cv ce K;
          (found, K') = dk_run unary binary static_edges steps K
      in (dk_new_k_cliques K rows sol @ found, K'))"

section \<open>Vertices\<close>

text \<open>A cell that holds a vertex is marked, so that a reset clears it.\<close>

definition marked :: "layout \<Rightarrow> kgraph \<Rightarrow> bool" where
  "marked lo G \<longleftrightarrow> finite (touched G) \<and> (\<forall>v p. cells G v p \<noteq> {} \<longrightarrow> p < lk lo \<and> v * lk lo + p \<in> touched G)"

lemma fold_reset_cell: "fold (reset_cell lo) ts c v p = (if \<exists>t \<in> set ts. v = t div lk lo \<and> p = t mod lk lo then {} else c v p)"
  by (induction ts arbitrary: c) (auto simp: reset_cell_def)

lemma graph_reset_cells: "marked lo G \<Longrightarrow> cells (graph_reset lo G) = (\<lambda>v p. {})"
proof (intro ext)
  fix v p assume m: "marked lo G"
  have "cells G v p = {}" if "\<not> (\<exists>t \<in> touched G. v = t div lk lo \<and> p = t mod lk lo)"
  proof (rule ccontr)
    assume "cells G v p \<noteq> {}"
    then have p: "p < lk lo" "v * lk lo + p \<in> touched G" using m by (auto simp: marked_def)
    moreover have "(v * lk lo + p) div lk lo = v" "(v * lk lo + p) mod lk lo = p" using p(1) by simp_all
    ultimately show False using that by metis
  qed
  then show "cells (graph_reset lo G) v p = {}" using m by (simp add: graph_reset_def fold_reset_cell marked_def)
qed

lemma graph_reset_simps [simp]: "length (affected (graph_reset lo G)) = length (affected G)" "length (delta_parts (graph_reset lo G)) = length (delta_parts G)"
  "p < length (affected G) \<Longrightarrow> affected (graph_reset lo G) ! p = {}" "p < length (delta_parts G) \<Longrightarrow> delta_parts (graph_reset lo G) ! p = {}"
  "touched (graph_reset lo G) = {}" "graph_vdg (graph_reset lo G) = graph_vdg G"
  by (simp_all add: graph_reset_def)

text \<open>The vertices that a step adds to a partition.\<close>

definition new_vertices :: "layout \<Rightarrow> vdg \<Rightarrow> (nat \<Rightarrow> bool) \<Rightarrow> nat \<Rightarrow> kgraph \<Rightarrow> nat set" where
  "new_vertices lo unary consistent p F = {b. b < num_bits (infos lo ! p) \<and> b \<notin> affected F ! p \<and> (runtime_unary unary p \<longrightarrow> consistent (vertex_at lo p b))}"

definition same_edges :: "kgraph \<Rightarrow> kgraph \<Rightarrow> bool" where
  "same_edges G H \<longleftrightarrow> cells G = cells H \<and> touched G = touched H \<and> graph_vdg G = graph_vdg H \<and> length (affected G) = length (affected H)
     \<and> length (delta_parts G) = length (delta_parts H)"

lemma fold_init_vertex:
  assumes "p < length (affected D)" "p < length (delta_parts D)" "p < length (affected F)" "p < length (delta_parts F)"
  shows "\<exists>D' F'. fold (init_vertex lo consistent p) bs (D, F) = (D', F') \<and> same_edges D' D \<and> same_edges F' F
    \<and> affected D' = (affected D)[p := affected D ! p \<union> set (filter (\<lambda>b. consistent (vertex_at lo p b)) bs)]
    \<and> delta_parts D' = (delta_parts D)[p := delta_parts D ! p \<union> set (filter (\<lambda>b. consistent (vertex_at lo p b)) bs)]
    \<and> affected F' = (affected F)[p := affected F ! p \<union> set (filter (\<lambda>b. consistent (vertex_at lo p b)) bs)]
    \<and> delta_parts F' = (delta_parts F)[p := delta_parts F ! p \<union> set (filter (\<lambda>b. consistent (vertex_at lo p b)) bs)]"
  using assms
proof (induction bs arbitrary: D F)
  case Nil
  then show ?case by (simp add: same_edges_def)
next
  case (Cons b bs)
  show ?case
  proof (cases "consistent (vertex_at lo p b)")
    case True
    then show ?thesis
      using Cons.IH [of "D\<lparr>affected := (affected D)[p := insert b (affected D ! p)], delta_parts := (delta_parts D)[p := insert b (delta_parts D ! p)]\<rparr>"
        "F\<lparr>affected := (affected F)[p := insert b (affected F ! p)], delta_parts := (delta_parts F)[p := insert b (delta_parts F ! p)]\<rparr>"] Cons.prems
      by (simp add: init_vertex_def same_edges_def)
  next
    case False
    then show ?thesis using Cons.IH [of D F] Cons.prems by (simp add: init_vertex_def same_edges_def)
  qed
qed

lemma init_partition_spec:
  assumes "p < length (affected D)" "p < length (delta_parts D)" "p < length (affected F)" "p < length (delta_parts F)"
    and "affected D ! p = {}" "delta_parts D ! p = {}" "delta_parts F ! p = affected F ! p" "affected F ! p \<subseteq> {..<num_bits (infos lo ! p)}"
  shows "\<exists>D' F'. init_partition lo unary consistent p (D, F) = (D', F') \<and> same_edges D' D \<and> same_edges F' F
    \<and> affected D' = (affected D)[p := new_vertices lo unary consistent p F] \<and> delta_parts D' = (delta_parts D)[p := new_vertices lo unary consistent p F]
    \<and> affected F' = (affected F)[p := affected F ! p \<union> new_vertices lo unary consistent p F]
    \<and> delta_parts F' = (delta_parts F)[p := affected F ! p \<union> new_vertices lo unary consistent p F]"
proof (cases "runtime_unary unary p")
  case False
  have "{..<num_bits (infos lo ! p)} - affected F ! p = new_vertices lo unary consistent p F" using False by (auto simp: new_vertices_def)
  moreover have "{..<num_bits (infos lo ! p)} = affected F ! p \<union> new_vertices lo unary consistent p F" using False assms(8) by (auto simp: new_vertices_def)
  ultimately show ?thesis using False assms by (simp add: init_partition_def same_edges_def Let_def)
next
  case True
  let ?bs = "sorted_list_of_set ({..<num_bits (infos lo ! p)} - affected F ! p)"
  have "set (filter (\<lambda>b. consistent (vertex_at lo p b)) ?bs) = new_vertices lo unary consistent p F" using True by (auto simp: new_vertices_def)
  then show ?thesis
    using fold_init_vertex [OF assms(1-4), of lo consistent ?bs] True assms(5-7) unfolding init_partition_def by simp
qed

lemma fold_init_partition:
  assumes "distinct ps" "\<forall>p \<in> set ps. p < k" "length (affected D) = k" "length (delta_parts D) = k" "length (affected F) = k" "length (delta_parts F) = k"
    and "\<forall>p \<in> set ps. affected D ! p = {} \<and> delta_parts D ! p = {} \<and> delta_parts F ! p = affected F ! p \<and> affected F ! p \<subseteq> {..<num_bits (infos lo ! p)}"
  shows "\<exists>D' F'. fold (init_partition lo unary consistent) ps (D, F) = (D', F') \<and> same_edges D' D \<and> same_edges F' F
    \<and> (\<forall>p < k. affected D' ! p = (if p \<in> set ps then new_vertices lo unary consistent p F else affected D ! p)
       \<and> delta_parts D' ! p = (if p \<in> set ps then new_vertices lo unary consistent p F else delta_parts D ! p)
       \<and> affected F' ! p = (if p \<in> set ps then affected F ! p \<union> new_vertices lo unary consistent p F else affected F ! p)
       \<and> delta_parts F' ! p = (if p \<in> set ps then affected F ! p \<union> new_vertices lo unary consistent p F else delta_parts F ! p))"
  using assms
proof (induction ps arbitrary: D F)
  case Nil
  then show ?case by (simp add: same_edges_def)
next
  case (Cons q ps)
  obtain D1 F1 where 1: "init_partition lo unary consistent q (D, F) = (D1, F1)" "same_edges D1 D" "same_edges F1 F"
    "affected D1 = (affected D)[q := new_vertices lo unary consistent q F]" "delta_parts D1 = (delta_parts D)[q := new_vertices lo unary consistent q F]"
    "affected F1 = (affected F)[q := affected F ! q \<union> new_vertices lo unary consistent q F]"
    "delta_parts F1 = (delta_parts F)[q := affected F ! q \<union> new_vertices lo unary consistent q F]"
    using init_partition_spec [of q D F lo unary consistent] Cons.prems by auto
  have nv: "new_vertices lo unary consistent p F1 = new_vertices lo unary consistent p F" if "p \<noteq> q" for p
    using that by (simp add: new_vertices_def 1(6))
  have q: "q \<notin> set ps" "q < k" using Cons.prems(1,2) by auto
  have "\<forall>p \<in> set ps. affected D1 ! p = {} \<and> delta_parts D1 ! p = {} \<and> delta_parts F1 ! p = affected F1 ! p \<and> affected F1 ! p \<subseteq> {..<num_bits (infos lo ! p)}"
  proof
    fix p assume p: "p \<in> set ps"
    then have "p \<noteq> q" using q(1) by auto
    then show "affected D1 ! p = {} \<and> delta_parts D1 ! p = {} \<and> delta_parts F1 ! p = affected F1 ! p \<and> affected F1 ! p \<subseteq> {..<num_bits (infos lo ! p)}"
      using Cons.prems(7) p unfolding 1(4-7) by simp
  qed
  then obtain D' F' where 2: "fold (init_partition lo unary consistent) ps (D1, F1) = (D', F')" "same_edges D' D1" "same_edges F' F1"
    "\<And>p. p < k \<Longrightarrow> affected D' ! p = (if p \<in> set ps then new_vertices lo unary consistent p F1 else affected D1 ! p)
       \<and> delta_parts D' ! p = (if p \<in> set ps then new_vertices lo unary consistent p F1 else delta_parts D1 ! p)
       \<and> affected F' ! p = (if p \<in> set ps then affected F1 ! p \<union> new_vertices lo unary consistent p F1 else affected F1 ! p)
       \<and> delta_parts F' ! p = (if p \<in> set ps then affected F1 ! p \<union> new_vertices lo unary consistent p F1 else delta_parts F1 ! p)"
    using Cons.IH [of D1 F1] Cons.prems(1-6) 1(4-7) by auto
  have "affected D' ! p = (if p \<in> set (q # ps) then new_vertices lo unary consistent p F else affected D ! p)
       \<and> delta_parts D' ! p = (if p \<in> set (q # ps) then new_vertices lo unary consistent p F else delta_parts D ! p)
       \<and> affected F' ! p = (if p \<in> set (q # ps) then affected F ! p \<union> new_vertices lo unary consistent p F else affected F ! p)
       \<and> delta_parts F' ! p = (if p \<in> set (q # ps) then affected F ! p \<union> new_vertices lo unary consistent p F else delta_parts F ! p)" if "p < k" for p
    using 2(4) [OF that] nv [of p] q Cons.prems(3-6) unfolding 1(4-7) by (cases "p = q") auto
  then show ?case using 1(1-3) 2(1-3) by (auto simp: same_edges_def)
qed

section \<open>Edges\<close>

text \<open>A quadruple \<open>(p, q, b, c)\<close> is the edge of the vertices at the positions \<open>b\<close> of \<open>p\<close> and \<open>c\<close> of \<open>q\<close>, with \<open>p\<close> below \<open>q\<close>.\<close>

type_synonym quad = "nat \<times> nat \<times> nat \<times> nat"

definition quad_edge :: "layout \<Rightarrow> quad set \<Rightarrow> nat \<Rightarrow> nat \<Rightarrow> nat set" where
  "quad_edge lo X v q = {c. \<exists>p b. ((p, q, b, c) \<in> X \<or> (q, p, c, b) \<in> X) \<and> v = vertex_at lo p b}"

definition quads_ok :: "layout \<Rightarrow> kgraph \<Rightarrow> quad set \<Rightarrow> bool" where
  "quads_ok lo F X \<longleftrightarrow> (\<forall>(p, q, b, c) \<in> X. p < q \<and> q < lk lo \<and> b \<in> affected F ! p \<and> c \<in> affected F ! q)"

text \<open>The vertices of partition \<open>p\<close> that are at the end of a new edge, explicit or implicit.\<close>

definition end_vertices :: "quad set \<Rightarrow> (nat \<times> nat) set \<Rightarrow> kgraph \<Rightarrow> kgraph \<Rightarrow> nat \<Rightarrow> nat set" where
  "end_vertices X I D F p = {b. \<exists>q c. (p, q, b, c) \<in> X \<or> (q, p, c, b) \<in> X}
     \<union> (if \<exists>q. ((p, q) \<in> I \<or> (q, p) \<in> I) \<and> delta_parts D ! q \<noteq> {} then affected F ! p else {})"

definition edges_done :: "layout \<Rightarrow> kgraph \<Rightarrow> kgraph \<Rightarrow> quad set \<Rightarrow> (nat \<times> nat) set \<Rightarrow> edge_state \<Rightarrow> bool" where
  "edges_done lo D1 F1 X I st \<longleftrightarrow> (case st of (D, F, es) \<Rightarrow>
     quads_ok lo F1 X \<and> (\<forall>(p, q) \<in> I. p < q \<and> q < lk lo)
   \<and> delta_parts D = delta_parts D1 \<and> graph_vdg D = graph_vdg D1 \<and> length (affected D) = lk lo
   \<and> affected F = affected F1 \<and> delta_parts F = delta_parts F1 \<and> graph_vdg F = graph_vdg F1
   \<and> cells D = (\<lambda>v q. cells D1 v q \<union> quad_edge lo X v q) \<and> cells F = (\<lambda>v q. cells F1 v q \<union> quad_edge lo X v q)
   \<and> (\<forall>p < lk lo. affected D ! p = affected D1 ! p \<union> end_vertices X I D1 F1 p)
   \<and> marked lo D \<and> marked lo F)"

lemma mem_singleton_if: "x \<in> (if P then {c} else {}) \<longleftrightarrow> P \<and> x = c"
  by simp

lemma quad_edge_insert_iff:
  "quad_edge lo (insert (p, q, b, c) X) v r = quad_edge lo X v r
      \<union> (if r = q \<and> v = vertex_at lo p b then {c} else {}) \<union> (if r = p \<and> v = vertex_at lo q c then {b} else {})"
proof (intro set_eqI)
  fix x
  have "x \<in> quad_edge lo (insert (p, q, b, c) X) v r \<longleftrightarrow> (\<exists>p' b'. ((p', r, b', x) \<in> X \<or> (r, p', x, b') \<in> X) \<and> v = vertex_at lo p' b')
      \<or> (r = q \<and> x = c \<and> v = vertex_at lo p b) \<or> (r = p \<and> x = b \<and> v = vertex_at lo q c)"
    unfolding quad_edge_def by blast
  then show "x \<in> quad_edge lo (insert (p, q, b, c) X) v r \<longleftrightarrow> x \<in> quad_edge lo X v r
      \<union> (if r = q \<and> v = vertex_at lo p b then {c} else {}) \<union> (if r = p \<and> v = vertex_at lo q c then {b} else {})"
    unfolding Un_iff mem_singleton_if quad_edge_def mem_Collect_eq by blast
qed

lemma quad_edge_insert:
  assumes "layout_ok lo" "p < lk lo" "q < lk lo" "p \<noteq> q" "b < num_bits (infos lo ! p)" "c < num_bits (infos lo ! q)"
  shows "add_cell (vertex_at lo q c) p b (add_cell (vertex_at lo p b) q c (\<lambda>v r. A v r \<union> quad_edge lo X v r))
    = (\<lambda>v r. A v r \<union> quad_edge lo (insert (p, q, b, c) X) v r)"
proof (intro ext)
  fix v r
  have ne: "vertex_at lo p b \<noteq> vertex_at lo q c" using vertex_at_inj [OF assms(1,2,5,3,6)] assms(4) by simp
  show "add_cell (vertex_at lo q c) p b (add_cell (vertex_at lo p b) q c (\<lambda>v r. A v r \<union> quad_edge lo X v r)) v r
    = A v r \<union> quad_edge lo (insert (p, q, b, c) X) v r"
    unfolding quad_edge_insert_iff add_cell_def using assms(4) ne by (cases "r = q"; cases "r = p") simp_all
qed

lemma quad_edge_empty [simp]: "quad_edge lo {} v q = {}"
  by (simp add: quad_edge_def)

lemma end_vertices_quad: "end_vertices (insert (p, q, b, c) X) I D F r = end_vertices X I D F r \<union> (if r = p then {b} else {}) \<union> (if r = q then {c} else {})"
  unfolding end_vertices_def by auto

lemma marked_add:
  assumes "marked lo G" "p < lk lo" "q < lk lo"
  shows "marked lo (G\<lparr>cells := add_cell v q b (add_cell u p c (cells G)), affected := A, touched := insert (v * lk lo + q) (insert (u * lk lo + p) (touched G))\<rparr>)"
    and "marked lo (G\<lparr>cells := add_cell v q b (add_cell u p c (cells G)), touched := insert (v * lk lo + q) (insert (u * lk lo + p) (touched G))\<rparr>)"
  using assms by (auto simp: marked_def add_cell_def split: if_splits)

lemma edges_done_process:
  assumes "layout_ok lo" "edges_done lo D1 F1 X I st" "p < q" "q < lk lo" "b \<in> affected F1 ! p" "c \<in> affected F1 ! q"
    and "b < num_bits (infos lo ! p)" "c < num_bits (infos lo ! q)"
  shows "edges_done lo D1 F1 (insert (p, q, b, c) X) I (process_delta_edge lo p q b c st)"
proof -
  obtain D F es where st: "st = (D, F, es)" by (cases st)
  note e = assms(2) [unfolded edges_done_def st prod.case]
  have p: "p < lk lo" "p \<noteq> q" using assms(3,4) by simp_all
  note ins = quad_edge_insert [OF assms(1) p(1) assms(4) p(2) assms(7,8)]
  let ?vi = "vertex_at lo p b" and ?vj = "vertex_at lo q c" and ?X = "insert (p, q, b, c) X"
  let ?A = "(affected D)[p := insert b (affected D ! p), q := insert c ((affected D)[p := insert b (affected D ! p)] ! q)]"
  have "?A ! r = affected D1 ! r \<union> end_vertices ?X I D1 F1 r" if "r < lk lo" for r
    using e that p assms(4) unfolding end_vertices_quad by (cases "r = p"; cases "r = q") auto
  moreover have "quads_ok lo F1 ?X" using e assms(3-6) by (simp add: quads_ok_def)
  moreover have "add_cell ?vj p b (add_cell ?vi q c (cells D)) = (\<lambda>v r. cells D1 v r \<union> quad_edge lo ?X v r)"
    "add_cell ?vj p b (add_cell ?vi q c (cells F)) = (\<lambda>v r. cells F1 v r \<union> quad_edge lo ?X v r)"
    using e ins [of "cells D1" X] ins [of "cells F1" X] by simp_all
  moreover have "marked lo D" "marked lo F" using e by blast+
  note marked_add(1) [OF this(1) assms(4) p(1), where v = ?vj and u = ?vi and b = b and c = c and A = ?A]
    marked_add(2) [OF this(2) assms(4) p(1), where v = ?vj and u = ?vi and b = b and c = c]
  ultimately show ?thesis using e unfolding edges_done_def process_delta_edge_def st Let_def prod.case by simp
qed

lemma bound_less: "\<forall>p < k. A p \<subseteq> {..<f p :: nat} \<Longrightarrow> p < k \<Longrightarrow> b \<in> A p \<Longrightarrow> b < f p"
  by auto

lemma quad_edge_own:
  assumes "layout_ok lo" "quads_ok lo F1 X" "\<forall>p < lk lo. affected F1 ! p \<subseteq> {..<num_bits (infos lo ! p)}" "p < lk lo" "b < num_bits (infos lo ! p)"
  shows "c \<in> quad_edge lo X (vertex_at lo p b) q \<longleftrightarrow> (p, q, b, c) \<in> X \<or> (q, p, c, b) \<in> X"
proof -
  have "p' = p \<and> b' = b" if "(p', q, b', c) \<in> X \<or> (q, p', c, b') \<in> X" "vertex_at lo p b = vertex_at lo p' b'" for p' b'
  proof -
    have "p' < lk lo" "b' \<in> affected F1 ! p'" using that(1) assms(2) unfolding quads_ok_def by auto
    then have "b' < num_bits (infos lo ! p')" using assms(3) by auto
    then show ?thesis using vertex_at_inj [OF assms(1) \<open>p' < lk lo\<close> _ assms(4,5)] that(2) by metis
  qed
  then show ?thesis unfolding quad_edge_def by blast
qed

lemma quads_ok_less: "quads_ok lo F1 X \<Longrightarrow> (p, q, b, c) \<in> X \<Longrightarrow> p < q"
  unfolding quads_ok_def by auto

definition row_quads :: "layout \<Rightarrow> vdg \<Rightarrow> (nat \<Rightarrow> nat \<Rightarrow> nat set) \<Rightarrow> (nat \<Rightarrow> nat \<Rightarrow> bool) \<Rightarrow> kgraph \<Rightarrow> nat \<Rightarrow> nat \<Rightarrow> nat \<Rightarrow> quad set" where
  "row_quads lo binary static_edges consistent F1 p q b = {(p, q, b, c) | c. c \<in> static_edges (vertex_at lo p b) q \<and> c \<in> affected F1 ! q
     \<and> c \<notin> cells F1 (vertex_at lo p b) q \<and> (runtime_binary binary p q \<longrightarrow> consistent (vertex_at lo p b) (vertex_at lo q c))}"

lemma fold_process:
  assumes "layout_ok lo" "\<forall>p < lk lo. affected F1 ! p \<subseteq> {..<num_bits (infos lo ! p)}" "p < q" "q < lk lo" "b \<in> affected F1 ! p"
    and "\<forall>c \<in> set cs. c \<in> affected F1 ! q" "edges_done lo D1 F1 X I st"
  shows "edges_done lo D1 F1 (X \<union> {(p, q, b, c) | c. c \<in> set cs \<and> P c}) I (fold (\<lambda>c st. if P c then process_delta_edge lo p q b c st else st) cs st)"
  using assms(6,7)
proof (induction cs arbitrary: X st)
  case (Cons c cs)
  have bits: "b < num_bits (infos lo ! p)" "c < num_bits (infos lo ! q)"
    using bound_less [OF assms(2) _ assms(5)] bound_less [OF assms(2,4)] assms(3,4) Cons.prems(1) by simp_all
  show ?case
  proof (cases "P c")
    case True
    have "edges_done lo D1 F1 (insert (p, q, b, c) X) I (process_delta_edge lo p q b c st)"
      using edges_done_process [OF assms(1) Cons.prems(2) assms(3-5) _ bits] Cons.prems(1) by simp
    from Cons.IH [OF _ this] Cons.prems(1)
    have "edges_done lo D1 F1 (insert (p, q, b, c) X \<union> {(p, q, b, c) | c. c \<in> set cs \<and> P c}) I
      (fold (\<lambda>c st. if P c then process_delta_edge lo p q b c st else st) (c # cs) st)" using True by simp
    moreover have "insert (p, q, b, c) X \<union> {(p, q, b, c) | c. c \<in> set cs \<and> P c} = X \<union> {(p, q, b, c') | c'. c' \<in> set (c # cs) \<and> P c'}"
      using True by auto
    ultimately show ?thesis by simp
  next
    case False
    then have "{(p, q, b, c') | c'. c' \<in> set (c # cs) \<and> P c'} = {(p, q, b, c) | c. c \<in> set cs \<and> P c}" by auto
    then show ?thesis using Cons.IH [OF _ Cons.prems(2)] Cons.prems(1) False by simp
  qed
qed simp

lemma edges_done_row:
  assumes "layout_ok lo" "\<forall>p < lk lo. affected F1 ! p \<subseteq> {..<num_bits (infos lo ! p)}" "p < q" "q < lk lo" "b \<in> affected F1 ! p"
    and "edges_done lo D1 F1 X I st"
  shows "edges_done lo D1 F1 (X \<union> row_quads lo binary static_edges consistent F1 p q b) I (init_row lo binary static_edges consistent p q b st)"
proof -
  obtain D F es where st: "st = (D, F, es)" by (cases st)
  note e = assms(6) [unfolded edges_done_def st prod.case]
  let ?v = "vertex_at lo p b"
  let ?cs = "sorted_list_of_set (static_edges ?v q \<inter> affected F ! q - cells F ?v q)"
  let ?P = "\<lambda>c. runtime_binary binary p q \<longrightarrow> consistent ?v (vertex_at lo q c)"
  have p: "p < lk lo" "b < num_bits (infos lo ! p)" using bound_less [OF assms(2) _ assms(5)] assms(3,4) by simp_all
  have fin: "finite (affected F1 ! q)" using assms(2,4) finite_subset [OF _ finite_lessThan] by blast
  have cs: "set ?cs = static_edges ?v q \<inter> affected F1 ! q - (cells F1 ?v q \<union> quad_edge lo X ?v q)" using e fin by simp
  have own: "c \<in> quad_edge lo X ?v q \<Longrightarrow> (p, q, b, c) \<in> X" for c
    using quad_edge_own [OF assms(1) _ assms(2) p, of X c q] quads_ok_less [of lo F1 X q p c b] e assms(3) by auto
  have sets: "X \<union> {(p, q, b, c) | c. c \<in> set ?cs \<and> ?P c} = X \<union> row_quads lo binary static_edges consistent F1 p q b"
    unfolding cs row_quads_def using own by blast
  have run: "init_row lo binary static_edges consistent p q b st = fold (\<lambda>c st. if ?P c then process_delta_edge lo p q b c st else st) ?cs st"
    unfolding init_row_def st by (simp add: Let_def)
  have "\<forall>c \<in> set ?cs. c \<in> affected F1 ! q" unfolding cs by blast
  from fold_process [OF assms(1-5) this assms(6), of ?P] show ?thesis unfolding run sets .
qed

lemma fold_init_row:
  assumes "layout_ok lo" "\<forall>p < lk lo. affected F1 ! p \<subseteq> {..<num_bits (infos lo ! p)}" "p < q" "q < lk lo" "\<forall>b \<in> set bs. b \<in> affected F1 ! p"
    and "edges_done lo D1 F1 X I st"
  shows "edges_done lo D1 F1 (X \<union> (\<Union>b \<in> set bs. row_quads lo binary static_edges consistent F1 p q b)) I (fold (init_row lo binary static_edges consistent p q) bs st)"
  using assms(5,6)
proof (induction bs arbitrary: X st)
  case (Cons b bs)
  then show ?case
    using Cons.IH [OF _ edges_done_row [OF assms(1-4) _ Cons.prems(2)], of b binary static_edges consistent] by (simp add: Un_assoc)
qed simp

lemma edges_done_implicit:
  assumes "p < q" "q < lk lo" "edges_done lo D1 F1 X I st"
  shows "edges_done lo D1 F1 X (insert (p, q) I) (init_implicit p q st)"
proof -
  obtain D F es where st: "st = (D, F, es)" by (cases st)
  note e = assms(3) [unfolded edges_done_def st prod.case]
  have p: "p < lk lo" "p \<noteq> q" using assms(1,2) by simp_all
  have ev: "end_vertices X (insert (p, q) I) D1 F1 r = end_vertices X I D1 F1 r
      \<union> (if r = q \<and> delta_parts D1 ! p \<noteq> {} then affected F1 ! q else {}) \<union> (if r = p \<and> delta_parts D1 ! q \<noteq> {} then affected F1 ! p else {})" for r
    unfolding end_vertices_def using p(2) by (cases "r = p"; cases "r = q") auto
  define A where "A = (if delta_parts D1 ! p \<noteq> {} then (affected D)[q := affected D ! q \<union> affected F1 ! q] else affected D)"
  define B where "B = (if delta_parts D1 ! q \<noteq> {} then A[p := A ! p \<union> affected F1 ! p] else A)"
  have run: "init_implicit p q st = (D\<lparr>affected := B\<rparr>, F, es)"
    unfolding init_implicit_def st Let_def prod.case using e by (simp add: A_def B_def)
  have len: "length A = lk lo" "length B = lk lo" using e by (simp_all add: A_def B_def)
  have A: "A ! r = affected D ! r \<union> (if r = q \<and> delta_parts D1 ! p \<noteq> {} then affected F1 ! q else {})" if "r < lk lo" for r
    using e that assms(2) by (cases "r = q") (simp_all add: A_def)
  have B: "B ! r = A ! r \<union> (if r = p \<and> delta_parts D1 ! q \<noteq> {} then affected F1 ! p else {})" if "r < lk lo" for r
    using len that p(1) by (cases "r = p") (simp_all add: B_def)
  have "marked lo (D\<lparr>affected := B\<rparr>)" using e by (simp add: marked_def)
  moreover have "B ! r = affected D1 ! r \<union> end_vertices X (insert (p, q) I) D1 F1 r" if "r < lk lo" for r
    unfolding ev B [OF that] A [OF that] using e that by (simp add: Un_assoc)
  ultimately show ?thesis using e len assms(1,2) unfolding edges_done_def run prod.case by simp
qed

definition pair_quads :: "layout \<Rightarrow> vdg \<Rightarrow> (nat \<Rightarrow> nat \<Rightarrow> nat set) \<Rightarrow> (nat \<Rightarrow> nat \<Rightarrow> bool) \<Rightarrow> kgraph \<Rightarrow> nat \<Rightarrow> nat \<Rightarrow> quad set" where
  "pair_quads lo binary static_edges consistent F1 p q =
     (if has_dependency binary p q then \<Union>b \<in> affected F1 ! p. row_quads lo binary static_edges consistent F1 p q b else {})"

lemma edges_done_pair:
  assumes "layout_ok lo" "\<forall>p < lk lo. affected F1 ! p \<subseteq> {..<num_bits (infos lo ! p)}" "p < q" "q < lk lo" "edges_done lo D1 F1 X I st"
  shows "edges_done lo D1 F1 (X \<union> pair_quads lo binary static_edges consistent F1 p q) (I \<union> (if has_dependency binary p q then {} else {(p, q)}))
    (init_pair lo binary static_edges consistent p q st)"
proof (cases "has_dependency binary p q")
  case True
  have fin: "finite (affected F1 ! p)" using assms(2-4) finite_subset [OF _ finite_lessThan] by (metis order.strict_trans)
  have "affected (fst (snd st)) = affected F1" using assms(5) by (auto simp: edges_done_def split: prod.splits)
  then show ?thesis
    using fold_init_row [OF assms(1-4) _ assms(5), of "sorted_list_of_set (affected F1 ! p)" binary static_edges consistent] True fin
    by (simp add: init_pair_def pair_quads_def)
next
  case False
  then show ?thesis using edges_done_implicit [OF assms(3-5)] by (simp add: init_pair_def pair_quads_def)
qed

lemma fold_init_pair:
  assumes "layout_ok lo" "\<forall>p < lk lo. affected F1 ! p \<subseteq> {..<num_bits (infos lo ! p)}" "\<forall>q \<in> set qs. p < q \<and> q < lk lo" "edges_done lo D1 F1 X I st"
  shows "edges_done lo D1 F1 (X \<union> (\<Union>q \<in> set qs. pair_quads lo binary static_edges consistent F1 p q)) (I \<union> {(p, q) | q. q \<in> set qs \<and> \<not> has_dependency binary p q})
    (fold (init_pair lo binary static_edges consistent p) qs st)"
  using assms(3,4)
proof (induction qs arbitrary: X I st)
  case (Cons q qs)
  let ?X = "X \<union> pair_quads lo binary static_edges consistent F1 p q" and ?I = "I \<union> (if has_dependency binary p q then {} else {(p, q)})"
  have "edges_done lo D1 F1 ?X ?I (init_pair lo binary static_edges consistent p q st)"
    using edges_done_pair [OF assms(1,2) _ _ Cons.prems(2)] Cons.prems(1) by simp
  from Cons.IH [OF _ this] Cons.prems(1)
  have "edges_done lo D1 F1 (?X \<union> (\<Union>q \<in> set qs. pair_quads lo binary static_edges consistent F1 p q))
    (?I \<union> {(p, q) | q. q \<in> set qs \<and> \<not> has_dependency binary p q}) (fold (init_pair lo binary static_edges consistent p) (q # qs) st)" by simp
  moreover have "?I \<union> {(p, q) | q. q \<in> set qs \<and> \<not> has_dependency binary p q} = I \<union> {(p, q') | q'. q' \<in> set (q # qs) \<and> \<not> has_dependency binary p q'}"
    by auto
  ultimately show ?case by (simp add: Un_assoc)
qed simp

lemma fold_init_pairs:
  assumes "layout_ok lo" "\<forall>p < lk lo. affected F1 ! p \<subseteq> {..<num_bits (infos lo ! p)}" "\<forall>p \<in> set ps. p < lk lo" "edges_done lo D1 F1 X I st"
  shows "edges_done lo D1 F1 (X \<union> (\<Union>p \<in> set ps. \<Union>q \<in> {Suc p..<lk lo}. pair_quads lo binary static_edges consistent F1 p q))
    (I \<union> {(p, q) | p q. p \<in> set ps \<and> p < q \<and> q < lk lo \<and> \<not> has_dependency binary p q})
    (fold (\<lambda>pi. fold (init_pair lo binary static_edges consistent pi) [Suc pi..<lk lo]) ps st)"
  using assms(3,4)
proof (induction ps arbitrary: X I st)
  case (Cons p ps)
  let ?X = "X \<union> (\<Union>q \<in> {Suc p..<lk lo}. pair_quads lo binary static_edges consistent F1 p q)"
  let ?I = "I \<union> {(p, q) | q. q \<in> set [Suc p..<lk lo] \<and> \<not> has_dependency binary p q}"
  have "edges_done lo D1 F1 ?X ?I (fold (init_pair lo binary static_edges consistent p) [Suc p..<lk lo] st)"
    using fold_init_pair [OF assms(1,2) _ Cons.prems(2), of "[Suc p..<lk lo]" p binary static_edges consistent] by simp
  from Cons.IH [OF _ this] Cons.prems(1)
  have "edges_done lo D1 F1 (?X \<union> (\<Union>p \<in> set ps. \<Union>q \<in> {Suc p..<lk lo}. pair_quads lo binary static_edges consistent F1 p q))
    (?I \<union> {(p, q) | p q. p \<in> set ps \<and> p < q \<and> q < lk lo \<and> \<not> has_dependency binary p q})
    (fold (\<lambda>pi. fold (init_pair lo binary static_edges consistent pi) [Suc pi..<lk lo]) (p # ps) st)" by simp
  moreover have "?I \<union> {(p, q) | p q. p \<in> set ps \<and> p < q \<and> q < lk lo \<and> \<not> has_dependency binary p q}
    = I \<union> {(p', q) | p' q. p' \<in> set (p # ps) \<and> p' < q \<and> q < lk lo \<and> \<not> has_dependency binary p' q}"
    by (auto simp: Suc_le_eq)
  ultimately show ?case by (simp add: Un_assoc)
qed simp

section \<open>One step\<close>

definition full_ok :: "layout \<Rightarrow> vdg \<Rightarrow> kgraph \<Rightarrow> bool" where
  "full_ok lo g F \<longleftrightarrow> graph_ok lo F \<and> delta_parts F = affected F \<and> graph_vdg F = g \<and> marked lo F
     \<and> (\<forall>p < lk lo. \<forall>q < lk lo. \<forall>b < num_bits (infos lo ! p). \<forall>c \<in> cells F (vertex_at lo p b) q.
          p \<noteq> q \<longrightarrow> b \<in> affected F ! p \<and> c \<in> affected F ! q \<and> b \<in> cells F (vertex_at lo q c) p)"

definition delta_ok :: "layout \<Rightarrow> vdg \<Rightarrow> kgraph \<Rightarrow> bool" where
  "delta_ok lo g D \<longleftrightarrow> length (affected D) = lk lo \<and> length (delta_parts D) = lk lo \<and> graph_vdg D = g \<and> marked lo D"

definition vdg_symmetric :: "nat \<Rightarrow> vdg \<Rightarrow> bool" where
  "vdg_symmetric k g \<longleftrightarrow> (\<forall>p < k. \<forall>q < k. has_dependency g p q = has_dependency g q p)"

definition layout_small :: "layout \<Rightarrow> bool" where
  "layout_small lo \<longleftrightarrow> layout_ok lo \<and> lk lo < uint_max \<and> (\<forall>p < lk lo. num_bits (infos lo ! p) < uint_max)"

lemma full_okD:
  assumes "full_ok lo g F"
  shows "graph_ok lo F" "delta_parts F = affected F" "graph_vdg F = g" "marked lo F" "length (affected F) = lk lo"
    and "p < lk lo \<Longrightarrow> q < lk lo \<Longrightarrow> b < num_bits (infos lo ! p) \<Longrightarrow> p \<noteq> q \<Longrightarrow> c \<in> cells F (vertex_at lo p b) q \<Longrightarrow>
      b \<in> affected F ! p \<and> c \<in> affected F ! q \<and> b \<in> cells F (vertex_at lo q c) p"
  using assms unfolding full_ok_def graph_ok_def by blast+

text \<open>Whether an explicit edge passes the tests.\<close>

definition edge_passes :: "layout \<Rightarrow> vdg \<Rightarrow> (nat \<Rightarrow> nat \<Rightarrow> nat set) \<Rightarrow> (nat \<Rightarrow> nat \<Rightarrow> bool) \<Rightarrow> nat \<Rightarrow> nat \<Rightarrow> nat \<Rightarrow> nat \<Rightarrow> bool" where
  "edge_passes lo g static_edges consistent p q b c \<longleftrightarrow> c \<in> static_edges (vertex_at lo p b) q
     \<and> (runtime_binary g p q \<longrightarrow> consistent (vertex_at lo p b) (vertex_at lo q c))"

definition step_spec :: "layout \<Rightarrow> vdg \<Rightarrow> vdg \<Rightarrow> (nat \<Rightarrow> nat \<Rightarrow> nat set) \<Rightarrow> (nat \<Rightarrow> bool) \<Rightarrow> (nat \<Rightarrow> nat \<Rightarrow> bool) \<Rightarrow> kgraph \<Rightarrow> kgraph \<Rightarrow> kgraph \<Rightarrow> bool" where
  "step_spec lo unary g static_edges consistent_vertex consistent_edge F D' F' \<longleftrightarrow>
     (\<forall>p < lk lo. affected F' ! p = affected F ! p \<union> new_vertices lo unary consistent_vertex p F
        \<and> delta_parts D' ! p = new_vertices lo unary consistent_vertex p F
        \<and> delta_parts D' ! p \<subseteq> affected D' ! p \<and> affected D' ! p \<subseteq> affected F' ! p)
   \<and> (lk lo = 1 \<longrightarrow> affected D' ! 0 = delta_parts D' ! 0)
   \<and> (\<forall>p < lk lo. \<forall>q < lk lo. \<forall>b < num_bits (infos lo ! p). p \<noteq> q \<longrightarrow>
        cells F' (vertex_at lo p b) q = cells F (vertex_at lo p b) q \<union> cells D' (vertex_at lo p b) q
      \<and> cells F (vertex_at lo p b) q \<inter> cells D' (vertex_at lo p b) q = {}
      \<and> (\<forall>c \<in> cells D' (vertex_at lo p b) q. b \<in> affected D' ! p \<and> c \<in> affected D' ! q \<and> b \<in> cells D' (vertex_at lo q c) p)
      \<and> (\<not> has_dependency g p q \<longrightarrow> delta_parts D' ! p \<noteq> {} \<longrightarrow> affected F' ! q \<subseteq> affected D' ! q))
   \<and> (\<forall>p q b c. p < q \<longrightarrow> q < lk lo \<longrightarrow> b < num_bits (infos lo ! p) \<longrightarrow> has_dependency g p q \<longrightarrow>
        c \<in> cells F' (vertex_at lo p b) q \<longleftrightarrow> c \<in> cells F (vertex_at lo p b) q
          \<or> b \<in> affected F' ! p \<and> c \<in> affected F' ! q \<and> edge_passes lo g static_edges consistent_edge p q b c)"

lemma init_graphs_spec:
  assumes lo: "layout_ok lo" and D: "delta_ok lo g D" and F: "full_ok lo g F" and sym: "vdg_symmetric (lk lo) g"
    and run: "init_graphs lo unary g static_edges cv ce (D, F) = (D', F', es)"
  shows "delta_ok lo g D'" "full_ok lo g F'" "step_spec lo unary g static_edges cv ce F D' F'"
proof -
  note FD = full_okD [OF F]
  have DD: "length (affected D) = lk lo" "length (delta_parts D) = lk lo" "graph_vdg D = g" "marked lo D" using D by (auto simp: delta_ok_def)
  let ?N = "\<lambda>p. new_vertices lo unary cv p F"
  have sub: "affected F ! p \<subseteq> {..<num_bits (infos lo ! p)}" if "p < lk lo" for p using FD(1) that by (simp add: graph_ok_def)
  have pre: "\<forall>p \<in> set [0..<lk lo]. affected (graph_reset lo D) ! p = {} \<and> delta_parts (graph_reset lo D) ! p = {}
      \<and> delta_parts F ! p = affected F ! p \<and> affected F ! p \<subseteq> {..<num_bits (infos lo ! p)}"
    using FD(2) DD sub by simp
  obtain D1 F1 where 1: "fold (init_partition lo unary cv) [0..<lk lo] (graph_reset lo D, F) = (D1, F1)" "same_edges D1 (graph_reset lo D)" "same_edges F1 F"
    "\<And>p. p < lk lo \<Longrightarrow> affected D1 ! p = ?N p \<and> delta_parts D1 ! p = ?N p \<and> affected F1 ! p = affected F ! p \<union> ?N p \<and> delta_parts F1 ! p = affected F ! p \<union> ?N p"
    using fold_init_partition [OF _ _ _ _ _ _ pre, of "lk lo" unary cv] DD FD(2,5) by auto
  have N: "?N p \<subseteq> {..<num_bits (infos lo ! p)}" for p by (auto simp: new_vertices_def)
  have sub1: "\<forall>p < lk lo. affected F1 ! p \<subseteq> {..<num_bits (infos lo ! p)}" using 1(4) sub N by simp
  have c1: "cells D1 = (\<lambda>v p. {})" "cells F1 = cells F" "graph_vdg D1 = g" "graph_vdg F1 = g" "marked lo D1" "marked lo F1"
    "length (affected D1) = lk lo" "length (delta_parts D1) = lk lo" "length (affected F1) = lk lo" "length (delta_parts F1) = lk lo"
    using 1(2,3) graph_reset_cells [OF DD(4)] DD FD(2-5) by (auto simp: same_edges_def marked_def)
  have "edges_done lo D1 F1 {} {} (D1, F1, [])"
    using c1 by (auto simp: edges_done_def quads_ok_def end_vertices_def)
  note pairs = fold_init_pairs [OF lo sub1 _ this, of "[0..<lk lo]" g static_edges ce]
  define X where "X = (\<Union>p \<in> set [0..<lk lo]. \<Union>q \<in> {Suc p..<lk lo}. pair_quads lo g static_edges ce F1 p q)"
  define I where "I = {(p, q) | p q. p \<in> set [0..<lk lo] \<and> p < q \<and> q < lk lo \<and> \<not> has_dependency g p q}"
  have ed: "edges_done lo D1 F1 X I (D', F', es)"
    using pairs run unfolding init_graphs_def Let_def fst_conv snd_conv 1(1) prod.case X_def I_def by simp
  note e = ed [unfolded edges_done_def prod.case]
  have X: "(p, q, b, c) \<in> X \<longleftrightarrow> p < q \<and> q < lk lo \<and> has_dependency g p q \<and> b \<in> affected F1 ! p \<and> c \<in> affected F1 ! q
      \<and> c \<notin> cells F (vertex_at lo p b) q \<and> edge_passes lo g static_edges ce p q b c" for p q b c
    unfolding X_def pair_quads_def row_quads_def edge_passes_def c1(2) by (auto simp: Suc_le_eq)
  have aF: "affected F' ! p = affected F ! p \<union> ?N p" if "p < lk lo" for p using e 1(4) [OF that] by simp
  have aF1: "affected F' = affected F1" using e by blast
  have dF: "delta_parts F' = affected F'"
    using e 1(4) c1(9,10) by (intro nth_equalityI) auto
  have qo: "quads_ok lo F1 X" using e by blast
  have own: "c \<in> quad_edge lo X (vertex_at lo p b) q \<longleftrightarrow> (p, q, b, c) \<in> X \<or> (q, p, c, b) \<in> X" if "p < lk lo" "b < num_bits (infos lo ! p)" for p q b c
    by (rule quad_edge_own [OF lo qo sub1 that])
  have cD: "cells D' = quad_edge lo X" "cells F' = (\<lambda>v q. cells F v q \<union> quad_edge lo X v q)" using e c1(1,2) by auto
  have aD: "affected D' ! p = ?N p \<union> end_vertices X I D1 F1 p" if "p < lk lo" for p using e 1(4) [OF that] that by simp
  have dD: "delta_parts D' = delta_parts D1" using e by blast
  have endF: "end_vertices X I D1 F1 p \<subseteq> affected F1 ! p" for p unfolding end_vertices_def using X by auto
  have endX: "(p, q, b, c) \<in> X \<or> (q, p, c, b) \<in> X \<Longrightarrow> b \<in> end_vertices X I D1 F1 p" for p q b c unfolding end_vertices_def by blast
  show "delta_ok lo g D'" using e c1(3,8) by (simp add: delta_ok_def)
  have disj: "c \<notin> cells F (vertex_at lo p b) q" if "p < lk lo" "q < lk lo" "b < num_bits (infos lo ! p)" "p \<noteq> q" "(p, q, b, c) \<in> X \<or> (q, p, c, b) \<in> X" for p q b c
    using that(5)
  proof
    assume "(q, p, c, b) \<in> X"
    then have "b \<notin> cells F (vertex_at lo q c) p" using X by simp
    then show ?thesis using FD(6) [OF that(1-4)] by blast
  qed (use X in simp)
  show "full_ok lo g F'"
    unfolding full_ok_def
  proof (intro conjI allI impI ballI)
    show "graph_ok lo F'" unfolding graph_ok_def dF using sub1 c1(9) aF1 by simp
    show "delta_parts F' = affected F'" by (rule dF)
    show "graph_vdg F' = g" "marked lo F'" using e c1(4) by simp_all
  next
    fix p q b c assume *: "p < lk lo" "q < lk lo" "b < num_bits (infos lo ! p)" "c \<in> cells F' (vertex_at lo p b) q" "p \<noteq> q"
    consider "c \<in> cells F (vertex_at lo p b) q" | "(p, q, b, c) \<in> X \<or> (q, p, c, b) \<in> X" using *(4) own [OF *(1,3)] unfolding cD by blast
    then have "b \<in> affected F' ! p \<and> c \<in> affected F' ! q \<and> b \<in> cells F' (vertex_at lo q c) p"
    proof cases
      case 1
      then show ?thesis using FD(6) [OF *(1,2,3,5)] aF * unfolding cD by blast
    next
      case 2
      then have "b \<in> affected F1 ! p" "c \<in> affected F1 ! q" using X by auto
      moreover have "c < num_bits (infos lo ! q)" using bound_less [OF sub1 *(2)] calculation(2) .
      ultimately show ?thesis using own [OF *(2), of c b p] 2 unfolding cD aF1 by blast
    qed
    then show "b \<in> affected F' ! p" "c \<in> affected F' ! q" "b \<in> cells F' (vertex_at lo q c) p" by auto
  qed
  show "step_spec lo unary g static_edges cv ce F D' F'"
    unfolding step_spec_def
  proof (intro conjI allI impI ballI)
    fix p assume p: "p < lk lo"
    show "affected F' ! p = affected F ! p \<union> ?N p" by (rule aF [OF p])
    show "delta_parts D' ! p = ?N p" using dD 1(4) [OF p] by simp
    then show "delta_parts D' ! p \<subseteq> affected D' ! p" using aD [OF p] by simp
    show "affected D' ! p \<subseteq> affected F' ! p" using aD [OF p] endF [of p] 1(4) [OF p] unfolding aF1 by blast
  next
    assume "lk lo = 1"
    then have "X = {}" "I = {}" unfolding X_def I_def by auto
    then show "affected D' ! 0 = delta_parts D' ! 0" using aD [of 0] 1(4) [of 0] \<open>lk lo = 1\<close> unfolding dD by (simp add: end_vertices_def)
  next
    fix p q b assume *: "p < lk lo" "q < lk lo" "b < num_bits (infos lo ! p)" "p \<noteq> q"
    show "cells F' (vertex_at lo p b) q = cells F (vertex_at lo p b) q \<union> cells D' (vertex_at lo p b) q" unfolding cD by simp
    show "cells F (vertex_at lo p b) q \<inter> cells D' (vertex_at lo p b) q = {}" unfolding cD using own [OF *(1,3)] disj [OF *] by blast
    { fix c assume "c \<in> cells D' (vertex_at lo p b) q"
      then have c: "(p, q, b, c) \<in> X \<or> (q, p, c, b) \<in> X" unfolding cD own [OF *(1,3)] .
      then have "c \<in> affected F1 ! q" using X by auto
      then have "c < num_bits (infos lo ! q)" by (rule bound_less [OF sub1 *(2)])
      then show "b \<in> cells D' (vertex_at lo q c) p" unfolding cD own [OF *(2) \<open>c < _\<close>] using c by blast
      show "b \<in> affected D' ! p" unfolding aD [OF *(1)] using endX [OF c] by blast
      show "c \<in> affected D' ! q" unfolding aD [OF *(2)] using endX [of q p c b] c by blast }
    assume nd: "\<not> has_dependency g p q" "delta_parts D' ! p \<noteq> {}"
    then have "(q, p) \<in> I \<or> (p, q) \<in> I" using * sym unfolding I_def vdg_symmetric_def by (cases "p < q") auto
    then have "affected F1 ! q \<subseteq> end_vertices X I D1 F1 q" using nd(2) unfolding end_vertices_def dD by auto
    then show "affected F' ! q \<subseteq> affected D' ! q" unfolding aF1 aD [OF *(2)] by blast
  next
    fix p q b c assume *: "p < q" "q < lk lo" "b < num_bits (infos lo ! p)" "has_dependency g p q"
    then have p: "p < lk lo" by simp
    show "c \<in> cells F' (vertex_at lo p b) q \<longleftrightarrow> c \<in> cells F (vertex_at lo p b) q
          \<or> b \<in> affected F' ! p \<and> c \<in> affected F' ! q \<and> edge_passes lo g static_edges ce p q b c"
      unfolding cD Un_iff own [OF p *(3)] aF1 using X [of p q b c] X [of q p c b] * by auto
  qed
qed

section \<open>The graphs after a step\<close>

lemma get_full:
  assumes "layout_ok lo" "full_ok lo g F" "p < lk lo" "b \<in> affected F ! p"
  shows "get_bitset lo F (vertex_at lo p b) q = (if has_dependency g p q then cells F (vertex_at lo p b) q else affected F ! q)"
proof -
  note F = full_okD [OF assms(2)]
  have "b < num_bits (infos lo ! p)" using graph_okD(1) [OF F(1) assms(3,4)] .
  from vertex_at_tables [OF assms(1,3) this] F(2,3) assms(4) show ?thesis by (simp add: get_bitset_def)
qed

lemma get_delta:
  assumes "layout_ok lo" "graph_vdg D = g" "p < lk lo" "b < num_bits (infos lo ! p)"
  shows "get_bitset lo D (vertex_at lo p b) q =
    (if has_dependency g p q then cells D (vertex_at lo p b) q else if b \<in> delta_parts D ! p then affected D ! q else delta_parts D ! q)"
  using vertex_at_tables [OF assms(1,3,4)] assms(2) by (simp add: get_bitset_def)

definition edge_in :: "layout \<Rightarrow> kgraph \<Rightarrow> nat \<Rightarrow> nat \<Rightarrow> nat \<Rightarrow> nat \<Rightarrow> bool" where
  "edge_in lo F p q b c \<longleftrightarrow> b \<in> affected F ! p \<and> c \<in> affected F ! q \<and> c \<in> get_bitset lo F (vertex_at lo p b) q"

lemma clique_at_edges:
  "clique_at lo F bs \<longleftrightarrow> (\<forall>p < lk lo. bs p \<in> affected F ! p \<and> (\<forall>q < lk lo. p \<noteq> q \<longrightarrow> edge_in lo F p q (bs p) (bs q)))"
  unfolding clique_at_def edge_in_def by blast

lemma edge_in_iff:
  assumes "layout_ok lo" "full_ok lo g F" "p < lk lo" "q < lk lo" "p \<noteq> q" "b < num_bits (infos lo ! p)"
  shows "edge_in lo F p q b c \<longleftrightarrow> (if has_dependency g p q then c \<in> cells F (vertex_at lo p b) q else b \<in> affected F ! p \<and> c \<in> affected F ! q)"
proof (cases "b \<in> affected F ! p")
  case True
  have "c \<in> cells F (vertex_at lo p b) q \<Longrightarrow> c \<in> affected F ! q" using full_okD(6) [OF assms(2,3,4,6,5)] by blast
  then show ?thesis unfolding edge_in_def get_full [OF assms(1-3) True] using True by auto
next
  case False
  then have "c \<notin> cells F (vertex_at lo p b) q" using full_okD(6) [OF assms(2,3,4,6,5)] by blast
  then show ?thesis using False unfolding edge_in_def by simp
qed

lemma edge_in_sym:
  assumes "layout_ok lo" "full_ok lo g F" "vdg_symmetric (lk lo) g" "p < lk lo" "q < lk lo" "p \<noteq> q" "edge_in lo F p q b c"
  shows "edge_in lo F q p c b"
proof -
  note F = full_okD [OF assms(2)]
  have a: "b \<in> affected F ! p" "c \<in> affected F ! q" using assms(7) by (auto simp: edge_in_def)
  then have b: "b < num_bits (infos lo ! p)" "c < num_bits (infos lo ! q)" using assms(4,5) graph_okD(1) [OF F(1)] by auto
  have d: "has_dependency g q p = has_dependency g p q" using assms(3-5) by (simp add: vdg_symmetric_def)
  show ?thesis
    using assms(7) F(6) [OF assms(4,5) b(1) assms(6), of c] a
    unfolding edge_in_iff [OF assms(1,2,4-6) b(1)] edge_in_iff [OF assms(1,2,5,4) assms(6) [symmetric] b(2)] d
    by (cases "has_dependency g p q") auto
qed

definition stepped :: "layout \<Rightarrow> vdg \<Rightarrow> vdg \<Rightarrow> (nat \<Rightarrow> nat \<Rightarrow> nat set) \<Rightarrow> (nat \<Rightarrow> bool) \<Rightarrow> (nat \<Rightarrow> nat \<Rightarrow> bool) \<Rightarrow> kgraph \<Rightarrow> kgraph \<Rightarrow> kgraph \<Rightarrow> bool" where
  "stepped lo unary g static_edges cv ce F D' F' \<longleftrightarrow> layout_small lo \<and> vdg_symmetric (lk lo) g \<and> full_ok lo g F \<and> delta_ok lo g D' \<and> full_ok lo g F'
     \<and> step_spec lo unary g static_edges cv ce F D' F'"

lemma steppedD:
  assumes "stepped lo unary g static_edges cv ce F D' F'"
  shows "layout_small lo" "layout_ok lo" "vdg_symmetric (lk lo) g" "full_ok lo g F" "delta_ok lo g D'" "full_ok lo g F'" "step_spec lo unary g static_edges cv ce F D' F'"
    "graph_vdg D' = g"
  using assms unfolding stepped_def layout_small_def delta_ok_def by blast+

lemma step_affected:
  assumes "stepped lo unary g static_edges cv ce F D' F'" "p < lk lo"
  shows "affected F' ! p = affected F ! p \<union> delta_parts D' ! p" "affected F ! p \<inter> delta_parts D' ! p = {}"
    and "delta_parts D' ! p \<subseteq> affected D' ! p" "affected D' ! p \<subseteq> affected F' ! p"
proof -
  have *: "\<forall>p < lk lo. affected F' ! p = affected F ! p \<union> new_vertices lo unary cv p F \<and> delta_parts D' ! p = new_vertices lo unary cv p F
      \<and> delta_parts D' ! p \<subseteq> affected D' ! p \<and> affected D' ! p \<subseteq> affected F' ! p"
    by (rule steppedD(7) [OF assms(1), unfolded step_spec_def, THEN conjunct1])
  note s = * [rule_format, OF assms(2)]
  show "affected F' ! p = affected F ! p \<union> delta_parts D' ! p" using s [THEN conjunct1] s [THEN conjunct2, THEN conjunct1] by simp
  show "delta_parts D' ! p \<subseteq> affected D' ! p" "affected D' ! p \<subseteq> affected F' ! p"
    using s [THEN conjunct2, THEN conjunct2, THEN conjunct1] s [THEN conjunct2, THEN conjunct2, THEN conjunct2] .
  show "affected F ! p \<inter> delta_parts D' ! p = {}" using s [THEN conjunct2, THEN conjunct1] by (auto simp: new_vertices_def)
qed

lemma step_cells:
  assumes "stepped lo unary g static_edges cv ce F D' F'" "p < lk lo" "q < lk lo" "b < num_bits (infos lo ! p)" "p \<noteq> q"
  shows "cells F' (vertex_at lo p b) q = cells F (vertex_at lo p b) q \<union> cells D' (vertex_at lo p b) q"
    and "cells F (vertex_at lo p b) q \<inter> cells D' (vertex_at lo p b) q = {}"
    and "c \<in> cells D' (vertex_at lo p b) q \<Longrightarrow> b \<in> affected D' ! p \<and> c \<in> affected D' ! q \<and> b \<in> cells D' (vertex_at lo q c) p"
    and "\<not> has_dependency g p q \<Longrightarrow> delta_parts D' ! p \<noteq> {} \<Longrightarrow> affected F' ! q \<subseteq> affected D' ! q"
proof -
  have s: "cells F' (vertex_at lo p b) q = cells F (vertex_at lo p b) q \<union> cells D' (vertex_at lo p b) q
      \<and> cells F (vertex_at lo p b) q \<inter> cells D' (vertex_at lo p b) q = {}
      \<and> (\<forall>c \<in> cells D' (vertex_at lo p b) q. b \<in> affected D' ! p \<and> c \<in> affected D' ! q \<and> b \<in> cells D' (vertex_at lo q c) p)
      \<and> (\<not> has_dependency g p q \<longrightarrow> delta_parts D' ! p \<noteq> {} \<longrightarrow> affected F' ! q \<subseteq> affected D' ! q)"
    using steppedD(7) [OF assms(1), unfolded step_spec_def, THEN conjunct2, THEN conjunct2, THEN conjunct1] assms(2-5) by simp
  show "cells F' (vertex_at lo p b) q = cells F (vertex_at lo p b) q \<union> cells D' (vertex_at lo p b) q"
    "cells F (vertex_at lo p b) q \<inter> cells D' (vertex_at lo p b) q = {}"
    "c \<in> cells D' (vertex_at lo p b) q \<Longrightarrow> b \<in> affected D' ! p \<and> c \<in> affected D' ! q \<and> b \<in> cells D' (vertex_at lo q c) p"
    "\<not> has_dependency g p q \<Longrightarrow> delta_parts D' ! p \<noteq> {} \<Longrightarrow> affected F' ! q \<subseteq> affected D' ! q"
    using s by blast+
qed

text \<open>The delta graph holds the edges of the full graph that were not there before.\<close>

lemma delta_edges:
  assumes "stepped lo unary g static_edges cv ce F D' F'" "p < lk lo" "q < lk lo" "p \<noteq> q" "b \<in> affected F' ! p"
  shows "c \<in> get_bitset lo D' (vertex_at lo p b) q \<longleftrightarrow> edge_in lo F' p q b c \<and> \<not> edge_in lo F p q b c"
proof -
  note S = steppedD [OF assms(1)] and F' = full_okD [OF steppedD(6) [OF assms(1)]]
  have b: "b < num_bits (infos lo ! p)" using graph_okD(1) [OF F'(1) assms(2,5)] .
  note C = step_cells [OF assms(1-3) b assms(4)] and A = step_affected [OF assms(1,2)] and B = step_affected [OF assms(1,3)]
  note E = get_delta [OF S(2,8) assms(2) b] edge_in_iff [OF S(2,6) assms(2-4) b, of c] edge_in_iff [OF S(2,4) assms(2-4) b, of c]
  show ?thesis
  proof (cases "has_dependency g p q")
    case True
    then show ?thesis unfolding E using C(1,2) by auto
  next
    case False
    show ?thesis
    proof (cases "b \<in> delta_parts D' ! p")
      case True
      then have "affected D' ! q = affected F' ! q" "b \<notin> affected F ! p" using C(4) [OF False] B(4) A(2) by auto
      then show ?thesis unfolding E using False True assms(5) by simp
    next
      case b: False
      then have "b \<in> affected F ! p" using assms(5) A(1) by simp
      then show ?thesis unfolding E using False b assms(5) B(1,2) by auto
    qed
  qed
qed

lemma step_edges_mono:
  assumes "stepped lo unary g static_edges cv ce F D' F'" "p < lk lo" "q < lk lo" "p \<noteq> q" "edge_in lo F p q b c"
  shows "edge_in lo F' p q b c"
proof -
  note S = steppedD [OF assms(1)]
  have "b \<in> affected F ! p" using assms(5) by (simp add: edge_in_def)
  then have b: "b < num_bits (infos lo ! p)" using graph_okD(1) [OF full_okD(1) [OF S(4)] assms(2)] by simp
  show ?thesis
    using assms(5) step_cells(1) [OF assms(1-3) b assms(4)] step_affected(1) [OF assms(1,2)] step_affected(1) [OF assms(1,3)]
    unfolding edge_in_iff [OF S(2,6) assms(2-4) b] edge_in_iff [OF S(2,4) assms(2-4) b] by (auto split: if_splits)
qed

lemma step_graphs_ok:
  assumes "stepped lo unary g static_edges cv ce F D' F'"
  shows "graphs_ok lo D' F'"
proof -
  note S = steppedD [OF assms] and F' = full_okD [OF steppedD(6) [OF assms]]
  have D: "graph_ok lo D'"
    using S(5) step_affected(3,4) [OF assms] F'(1) unfolding graph_ok_def delta_ok_def by blast
  have sub: "affected D' ! p \<subseteq> affected F' ! p" if "p < lk lo" for p by (rule step_affected(4) [OF assms that])
  have in_full: "c \<in> get_bitset lo F' (vertex_at lo p b) q \<longleftrightarrow> edge_in lo F' p q b c" if "p < lk lo" "q < lk lo" "b \<in> affected F' ! p" "p \<noteq> q" for p q b c
  proof -
    have b: "b < num_bits (infos lo ! p)" using graph_okD(1) [OF F'(1) that(1,3)] .
    then have "c \<in> cells F' (vertex_at lo p b) q \<Longrightarrow> c \<in> affected F' ! q" using F'(6) [OF that(1,2) b that(4)] by blast
    then show ?thesis using that(3) unfolding edge_in_def get_full [OF S(2,6) that(1,3)] by auto
  qed
  have ends: "b \<in> affected D' ! p \<and> c \<in> affected D' ! q"
    if *: "p < lk lo" "q < lk lo" "b \<in> affected F' ! p" "p \<noteq> q" "c \<in> get_bitset lo D' (vertex_at lo p b) q" for p q b c
  proof -
    have b: "b < num_bits (infos lo ! p)" using graph_okD(1) [OF F'(1) *(1,3)] .
    note C = step_cells [OF assms *(1,2) b *(4)]
    show ?thesis
    proof (cases "has_dependency g p q")
      case True
      then show ?thesis using *(5) C(3) unfolding get_delta [OF S(2,8) *(1) b] by simp
    next
      case nd: False
      show ?thesis
      proof (cases "b \<in> delta_parts D' ! p")
        case True
        then show ?thesis using *(5) nd step_affected(3) [OF assms *(1)] unfolding get_delta [OF S(2,8) *(1) b] by auto
      next
        case False
        then have c: "c \<in> delta_parts D' ! q" using *(5) nd unfolding get_delta [OF S(2,8) *(1) b] by simp
        have "\<not> has_dependency g q p" using nd S(3) *(1,2) by (simp add: vdg_symmetric_def)
        moreover have "c \<in> affected F' ! q" using c step_affected(1) [OF assms *(2)] by simp
        then have "c < num_bits (infos lo ! q)" using graph_okD(1) [OF F'(1) *(2)] by simp
        ultimately have "affected F' ! p \<subseteq> affected D' ! p" using step_cells(4) [OF assms *(2,1) _ *(4) [symmetric]] c by blast
        then show ?thesis using *(3) c step_affected(3) [OF assms *(2)] by auto
      qed
    qed
  qed
  have edges: "get_bitset lo F' (vertex_at lo p b) q \<subseteq> affected F' ! q \<and> get_bitset lo D' (vertex_at lo p b) q \<subseteq> get_bitset lo F' (vertex_at lo p b) q
        \<and> (\<forall>c \<in> affected F' ! q. (c \<in> get_bitset lo F' (vertex_at lo p b) q \<longleftrightarrow> b \<in> get_bitset lo F' (vertex_at lo q c) p)
          \<and> (c \<in> get_bitset lo D' (vertex_at lo p b) q \<longleftrightarrow> b \<in> get_bitset lo D' (vertex_at lo q c) p)
          \<and> (c \<in> get_bitset lo D' (vertex_at lo p b) q \<longrightarrow> b \<in> affected D' ! p \<and> c \<in> affected D' ! q))"
    if *: "p < lk lo" "q < lk lo" "b \<in> affected F' ! p" "p \<noteq> q" for p q b
  proof (intro conjI ballI)
    show "get_bitset lo F' (vertex_at lo p b) q \<subseteq> affected F' ! q" using in_full [OF *] by (auto simp: edge_in_def)
    show "get_bitset lo D' (vertex_at lo p b) q \<subseteq> get_bitset lo F' (vertex_at lo p b) q"
      using in_full [OF *] delta_edges [OF assms *(1,2,4,3)] by blast
  next
    fix c assume c: "c \<in> affected F' ! q"
    note sy = edge_in_sym [OF S(2,6,3)] edge_in_sym [OF S(2,4,3)]
    show "c \<in> get_bitset lo F' (vertex_at lo p b) q \<longleftrightarrow> b \<in> get_bitset lo F' (vertex_at lo q c) p"
      unfolding in_full [OF *] in_full [OF *(2,1) c *(4) [symmetric]] using sy(1) *(1,2,4) by blast
    show "c \<in> get_bitset lo D' (vertex_at lo p b) q \<longleftrightarrow> b \<in> get_bitset lo D' (vertex_at lo q c) p"
      unfolding delta_edges [OF assms *(1,2,4,3)] delta_edges [OF assms *(2,1) *(4) [symmetric] c] using sy *(1,2,4) by blast
    show "c \<in> get_bitset lo D' (vertex_at lo p b) q \<longrightarrow> b \<in> affected D' ! p \<and> c \<in> affected D' ! q" using ends [OF *] by blast
  qed
  show ?thesis
    unfolding graphs_ok_def using S(1) D F'(1) sub edges unfolding layout_small_def by blast
qed

section \<open>New cliques\<close>

lemma step_clique_mono:
  assumes "stepped lo unary g static_edges cv ce F D' F'" "clique_at lo F bs"
  shows "clique_at lo F' bs"
  using assms(2) step_affected(1) [OF assms(1)] step_edges_mono [OF assms(1)] unfolding clique_at_edges by blast

lemma step_new_clique:
  assumes "stepped lo unary g static_edges cv ce F D' F'" "clique_at lo F' bs"
  shows "clique_at lo F bs \<longleftrightarrow> \<not> (if lk lo = 1 then bs 0 \<in> affected D' ! 0 else \<exists>p q. p < q \<and> q < lk lo \<and> delta_pair lo D' bs p q)"
proof -
  note S = steppedD [OF assms(1)]
  have aff: "bs p \<in> affected F' ! p" if "p < lk lo" for p using assms(2) that by (simp add: clique_at_def)
  have pair: "delta_pair lo D' bs p q \<longleftrightarrow> \<not> edge_in lo F p q (bs p) (bs q)" if "p < lk lo" "q < lk lo" "p \<noteq> q" for p q
    using delta_edges [OF assms(1) that aff [OF that(1)], of "bs q"] assms(2) that unfolding clique_at_edges delta_pair_def by blast
  show ?thesis
  proof (cases "lk lo = 1")
    case True
    have "affected D' ! 0 = delta_parts D' ! 0" using S(7) [unfolded step_spec_def, THEN conjunct2, THEN conjunct1] True by simp
    moreover have "clique_at lo F bs \<longleftrightarrow> bs 0 \<in> affected F ! 0" using True by (simp add: clique_at_def)
    ultimately show ?thesis using True step_affected(1,2) [OF assms(1), of 0] aff [of 0] by auto
  next
    case False
    have sy: "edge_in lo F p q (bs p) (bs q) \<longleftrightarrow> edge_in lo F q p (bs q) (bs p)" if "p < lk lo" "q < lk lo" "p \<noteq> q" for p q
      using edge_in_sym [OF S(2,4,3)] that by metis
    have "clique_at lo F bs \<longleftrightarrow> (\<forall>p < lk lo. \<forall>q < lk lo. p \<noteq> q \<longrightarrow> edge_in lo F p q (bs p) (bs q))"
    proof
      assume *: "\<forall>p < lk lo. \<forall>q < lk lo. p \<noteq> q \<longrightarrow> edge_in lo F p q (bs p) (bs q)"
      have "bs p \<in> affected F ! p" if p: "p < lk lo" for p
      proof -
        obtain q where "q < lk lo" "q \<noteq> p" using that [of "if p = 0 then 1 else 0"] p False by (cases p) auto
        then show ?thesis using * p by (auto simp: edge_in_def)
      qed
      then show "clique_at lo F bs" using * by (simp add: clique_at_edges)
    qed (simp add: clique_at_edges)
    also have "\<dots> \<longleftrightarrow> (\<forall>p q. p < q \<longrightarrow> q < lk lo \<longrightarrow> edge_in lo F p q (bs p) (bs q))"
    proof
      assume *: "\<forall>p q. p < q \<longrightarrow> q < lk lo \<longrightarrow> edge_in lo F p q (bs p) (bs q)"
      show "\<forall>p < lk lo. \<forall>q < lk lo. p \<noteq> q \<longrightarrow> edge_in lo F p q (bs p) (bs q)"
      proof (intro allI impI)
        fix p q assume pq: "p < lk lo" "q < lk lo" "p \<noteq> q"
        then have "p < q \<or> q < p" by linarith
        then show "edge_in lo F p q (bs p) (bs q)" using * sy [OF pq] pq(1,2) by blast
      qed
    qed simp
    finally show ?thesis using False pair by auto
  qed
qed

lemma step_new_k_cliques:
  assumes "stepped lo unary g static_edges cv ce F D' F'"
  shows "new_k_cliques lo D' F' = k_cliques lo F' - k_cliques lo F" "k_cliques lo F \<subseteq> k_cliques lo F'"
proof -
  note S = steppedD [OF assms]
  have cong: "clique_at lo F bs' = clique_at lo F bs" if "clique_at lo F' bs" "clique_at lo F' bs'" "solution lo bs = solution lo bs'" for bs bs'
  proof -
    have F': "graph_ok lo F'" using full_okD(1) [OF S(6)] .
    have eq: "bs p = bs' p" if p: "p < lk lo" for p
    proof -
      have "vertex_at lo p (bs p) = vertex_at lo p (bs' p)" using \<open>solution lo bs = solution lo bs'\<close> p by (metis solution_nth(1))
      moreover have "bs p < num_bits (infos lo ! p)" "bs' p < num_bits (infos lo ! p)"
        using \<open>clique_at lo F' bs\<close> \<open>clique_at lo F' bs'\<close> graph_okD(1) [OF F' p] p by (auto simp: clique_at_def)
      ultimately show ?thesis using vertex_at_inj [OF S(2)] p by metis
    qed
    then show ?thesis by (simp add: clique_at_def)
  qed
  show "k_cliques lo F \<subseteq> k_cliques lo F'" using step_clique_mono [OF assms] unfolding k_cliques_def by blast
  have "xs \<in> new_k_cliques lo D' F' \<longleftrightarrow> xs \<in> k_cliques lo F' - k_cliques lo F" for xs
  proof
    assume "xs \<in> new_k_cliques lo D' F'"
    then obtain bs where bs: "xs = solution lo bs" "clique_at lo F' bs" "\<not> clique_at lo F bs"
      using step_new_clique [OF assms] unfolding new_k_cliques_def by blast
    have "xs \<notin> k_cliques lo F"
    proof
      assume "xs \<in> k_cliques lo F"
      then obtain bs' where "xs = solution lo bs'" "clique_at lo F bs'" by (auto simp: k_cliques_def)
      then show False using cong [of bs bs'] bs step_clique_mono [OF assms] by simp
    qed
    then show "xs \<in> k_cliques lo F' - k_cliques lo F" using bs by (auto simp: k_cliques_def)
  next
    assume "xs \<in> k_cliques lo F' - k_cliques lo F"
    then obtain bs where "xs = solution lo bs" "clique_at lo F' bs" "\<not> clique_at lo F bs" by (auto simp: k_cliques_def)
    then show "xs \<in> new_k_cliques lo D' F'" using step_new_clique [OF assms] unfolding new_k_cliques_def by blast
  qed
  then show "new_k_cliques lo D' F' = k_cliques lo F' - k_cliques lo F" by blast
qed

section \<open>Sequences of steps\<close>

definition dk_ok :: "layout \<Rightarrow> vdg \<Rightarrow> delta_kpkc \<Rightarrow> bool" where
  "dk_ok lo g K \<longleftrightarrow> dk_layout K = lo \<and> delta_ok lo g (dk_delta K) \<and> full_ok lo g (dk_full K)"

definition is_empty_graph :: "layout \<Rightarrow> kgraph \<Rightarrow> bool" where
  "is_empty_graph lo F \<longleftrightarrow> (\<forall>p < lk lo. affected F ! p = {}) \<and> (\<forall>v p. cells F v p = {})"

lemma dk_okD:
  assumes "dk_ok lo g K"
  shows "dk_layout K = lo" "delta_ok lo g (dk_delta K)" "full_ok lo g (dk_full K)"
  using assms unfolding dk_ok_def by blast+

lemma make_graph_ok: "delta_ok lo g (make_graph lo g)" "full_ok lo g (make_graph lo g)" "is_empty_graph lo (make_graph lo g)"
  by (auto simp: delta_ok_def full_ok_def graph_ok_def marked_def make_graph_def is_empty_graph_def)

lemma dk_init_ok: "dk_ok lo g (dk_init lo g)" "is_empty_graph lo (dk_full (dk_init lo g))" "dk_iteration (dk_init lo g) = 0"
  using make_graph_ok by (auto simp: dk_ok_def dk_init_def)

lemma dk_reset_ok:
  assumes "dk_ok lo g K"
  shows "dk_ok lo g (dk_reset K)" "is_empty_graph lo (dk_full (dk_reset K))" "dk_iteration (dk_reset K) = 0"
proof -
  note K = dk_okD [OF assms] and F = full_okD [OF dk_okD(3) [OF assms]]
  have c: "cells (graph_reset lo (dk_full K)) = (\<lambda>v p. {})" "cells (graph_reset lo (dk_delta K)) = (\<lambda>v p. {})"
    using graph_reset_cells F(4) K(2) unfolding delta_ok_def by blast+
  have l: "length (affected (graph_reset lo (dk_full K))) = lk lo" "delta_parts (graph_reset lo (dk_full K)) = affected (graph_reset lo (dk_full K))"
    using F(2,5) by (simp_all add: graph_reset_def)
  have "full_ok lo g (graph_reset lo (dk_full K))"
    using l c(1) F by (simp add: full_ok_def graph_ok_def marked_def)
  moreover have "delta_ok lo g (graph_reset lo (dk_delta K))" using K(2) c(2) by (simp add: delta_ok_def marked_def)
  ultimately show "dk_ok lo g (dk_reset K)" using K(1) by (simp add: dk_ok_def dk_reset_def)
  show "is_empty_graph lo (dk_full (dk_reset K))" using c(1) F(5) K(1) by (simp add: is_empty_graph_def dk_reset_def)
  show "dk_iteration (dk_reset K) = 0" by (simp add: dk_reset_def)
qed

lemma dk_next_stepped:
  assumes "layout_small lo" "vdg_symmetric (lk lo) g" "dk_ok lo g K" "K' = dk_next unary g static_edges cv ce K"
  shows "dk_ok lo g K'" "stepped lo unary g static_edges cv ce (dk_full K) (dk_delta K') (dk_full K')" "dk_iteration K' = Suc (dk_iteration K)"
proof -
  note K = dk_okD [OF assms(3)]
  have lo: "layout_ok lo" using assms(1) by (simp add: layout_small_def)
  obtain D' F' es where run: "init_graphs lo unary g static_edges cv ce (dk_delta K, dk_full K) = (D', F', es)" by (metis prod_cases3)
  note S = init_graphs_spec [OF lo K(2,3) assms(2) run]
  have K': "dk_layout K' = lo" "dk_delta K' = D'" "dk_full K' = F'" "dk_iteration K' = Suc (dk_iteration K)"
    using run K(1) by (simp_all add: assms(4) dk_next_def)
  show "dk_ok lo g K'" using S(1,2) K' by (simp add: dk_ok_def)
  show "stepped lo unary g static_edges cv ce (dk_full K) (dk_delta K') (dk_full K')"
    using S assms(1,2) K(3) K' by (simp add: stepped_def)
  show "dk_iteration K' = Suc (dk_iteration K)" using K' by simp
qed

lemma dk_run_ok:
  assumes "layout_small lo" "vdg_symmetric (lk lo) g" "dk_ok lo g K"
  shows "dk_ok lo g (snd (dk_run unary g static_edges steps K))"
  using assms(3)
proof (induction steps arbitrary: K)
  case (Cons s steps)
  obtain cv ce rows sol where s: "s = ((cv, ce), rows, sol)" by (metis prod.exhaust)
  show ?case using Cons.IH [OF dk_next_stepped(1) [OF assms(1,2) Cons.prems refl]] by (simp add: s Let_def split_beta)
qed simp

text \<open>What the full graph holds when every vertex and edge in it passes the current tests.\<close>

definition passes_tests :: "layout \<Rightarrow> vdg \<Rightarrow> vdg \<Rightarrow> (nat \<Rightarrow> nat \<Rightarrow> nat set) \<Rightarrow> (nat \<Rightarrow> bool) \<Rightarrow> (nat \<Rightarrow> nat \<Rightarrow> bool) \<Rightarrow> kgraph \<Rightarrow> bool" where
  "passes_tests lo unary g static_edges cv ce F \<longleftrightarrow>
     (\<forall>p < lk lo. \<forall>b \<in> affected F ! p. runtime_unary unary p \<longrightarrow> cv (vertex_at lo p b))
   \<and> (\<forall>p q b c. p < q \<longrightarrow> q < lk lo \<longrightarrow> b < num_bits (infos lo ! p) \<longrightarrow> has_dependency g p q \<longrightarrow> c \<in> cells F (vertex_at lo p b) q \<longrightarrow>
        edge_passes lo g static_edges ce p q b c)"

definition test_clique :: "layout \<Rightarrow> vdg \<Rightarrow> vdg \<Rightarrow> (nat \<Rightarrow> nat \<Rightarrow> nat set) \<Rightarrow> (nat \<Rightarrow> bool) \<Rightarrow> (nat \<Rightarrow> nat \<Rightarrow> bool) \<Rightarrow> (nat \<Rightarrow> nat) \<Rightarrow> bool" where
  "test_clique lo unary g static_edges cv ce bs \<longleftrightarrow>
     (\<forall>p < lk lo. bs p < num_bits (infos lo ! p) \<and> (runtime_unary unary p \<longrightarrow> cv (vertex_at lo p (bs p))))
   \<and> (\<forall>p q. p < q \<longrightarrow> q < lk lo \<longrightarrow> has_dependency g p q \<longrightarrow> edge_passes lo g static_edges ce p q (bs p) (bs q))"

text \<open>The second tests accept what the first accept, on the vertices of the layout.\<close>

definition tests_weaker :: "layout \<Rightarrow> (nat \<Rightarrow> bool) \<times> (nat \<Rightarrow> nat \<Rightarrow> bool) \<Rightarrow> (nat \<Rightarrow> bool) \<times> (nat \<Rightarrow> nat \<Rightarrow> bool) \<Rightarrow> bool" where
  "tests_weaker lo s t \<longleftrightarrow> (\<forall>p < lk lo. \<forall>b < num_bits (infos lo ! p). fst s (vertex_at lo p b) \<longrightarrow> fst t (vertex_at lo p b))
     \<and> (\<forall>p q b c. p < q \<longrightarrow> q < lk lo \<longrightarrow> b < num_bits (infos lo ! p) \<longrightarrow> c < num_bits (infos lo ! q) \<longrightarrow>
          snd s (vertex_at lo p b) (vertex_at lo q c) \<longrightarrow> snd t (vertex_at lo p b) (vertex_at lo q c))"

lemma passes_tests_mono:
  assumes "full_ok lo g F" "passes_tests lo unary g static_edges cv ce F" "tests_weaker lo (cv, ce) (cv', ce')"
  shows "passes_tests lo unary g static_edges cv' ce' F"
  unfolding passes_tests_def
proof (intro conjI allI ballI impI)
  note F = full_okD [OF assms(1)]
  fix p b assume p: "p < lk lo" and b: "b \<in> affected F ! p" and r: "runtime_unary unary p"
  then have "cv (vertex_at lo p b)" using assms(2) by (simp add: passes_tests_def)
  then show "cv' (vertex_at lo p b)" using assms(3) graph_okD(1) [OF F(1) p b] p by (simp add: tests_weaker_def)
next
  note F = full_okD [OF assms(1)]
  fix p q b c
  assume *: "p < q" "q < lk lo" "b < num_bits (infos lo ! p)" "has_dependency g p q" and c: "c \<in> cells F (vertex_at lo p b) q"
  have e: "edge_passes lo g static_edges ce p q b c" using assms(2) * c unfolding passes_tests_def by blast
  have "c \<in> affected F ! q" using F(6) [OF _ *(2,3) _ c] *(1,2) by simp
  then have "c < num_bits (infos lo ! q)" using graph_okD(1) [OF F(1) *(2)] by simp
  then show "edge_passes lo g static_edges ce' p q b c" using e assms(3) * unfolding edge_passes_def tests_weaker_def by (metis fst_conv snd_conv)
qed

lemma empty_passes: "is_empty_graph lo F \<Longrightarrow> passes_tests lo unary g static_edges cv ce F"
  by (simp add: passes_tests_def is_empty_graph_def)

lemma step_affected_tests:
  assumes "stepped lo unary g static_edges cv ce F D' F'" "passes_tests lo unary g static_edges cv ce F" "p < lk lo"
  shows "affected F' ! p = {b. b < num_bits (infos lo ! p) \<and> (runtime_unary unary p \<longrightarrow> cv (vertex_at lo p b))}"
proof -
  have "affected F' ! p = affected F ! p \<union> new_vertices lo unary cv p F"
    using steppedD(7) [OF assms(1), unfolded step_spec_def, THEN conjunct1] assms(3) by blast
  moreover have "\<forall>b \<in> affected F ! p. b < num_bits (infos lo ! p)" using graph_okD(1) [OF full_okD(1) [OF steppedD(4) [OF assms(1)]] assms(3)] by blast
  moreover have "\<forall>b \<in> affected F ! p. runtime_unary unary p \<longrightarrow> cv (vertex_at lo p b)" using assms(2,3) by (simp add: passes_tests_def)
  ultimately show ?thesis by (auto simp: new_vertices_def)
qed

lemma step_cells_tests:
  assumes "stepped lo unary g static_edges cv ce F D' F'" "passes_tests lo unary g static_edges cv ce F" "p < q" "q < lk lo" "b < num_bits (infos lo ! p)"
    "has_dependency g p q"
  shows "c \<in> cells F' (vertex_at lo p b) q \<longleftrightarrow> b \<in> affected F' ! p \<and> c \<in> affected F' ! q \<and> edge_passes lo g static_edges ce p q b c"
proof -
  note S = steppedD [OF assms(1)]
  have p: "p < lk lo" "p \<noteq> q" using assms(3,4) by simp_all
  have "c \<in> cells F' (vertex_at lo p b) q \<longleftrightarrow> c \<in> cells F (vertex_at lo p b) q
          \<or> b \<in> affected F' ! p \<and> c \<in> affected F' ! q \<and> edge_passes lo g static_edges ce p q b c"
    using S(7) [unfolded step_spec_def, THEN conjunct2, THEN conjunct2, THEN conjunct2] assms(3-6) by blast
  moreover have "c \<in> cells F (vertex_at lo p b) q \<longrightarrow> edge_passes lo g static_edges ce p q b c"
    using assms(2-6) unfolding passes_tests_def by blast
  ultimately show ?thesis using full_okD(6) [OF S(6) p(1) assms(4,5) p(2)] by blast
qed

lemma step_passes:
  assumes "stepped lo unary g static_edges cv ce F D' F'" "passes_tests lo unary g static_edges cv ce F"
  shows "passes_tests lo unary g static_edges cv ce F'"
  using step_affected_tests [OF assms] step_cells_tests [OF assms] unfolding passes_tests_def by blast

lemma step_test_clique:
  assumes "stepped lo unary g static_edges cv ce F D' F'" "passes_tests lo unary g static_edges cv ce F"
  shows "clique_at lo F' bs \<longleftrightarrow> test_clique lo unary g static_edges cv ce bs"
proof -
  note S = steppedD [OF assms(1)] and A = step_affected_tests [OF assms]
  have edge: "edge_in lo F' p q (bs p) (bs q) \<longleftrightarrow> (has_dependency g p q \<longrightarrow> edge_passes lo g static_edges ce p q (bs p) (bs q))"
    if pq: "p < q" "q < lk lo" and aff: "bs p \<in> affected F' ! p" "bs q \<in> affected F' ! q" for p q
  proof -
    have b: "bs p < num_bits (infos lo ! p)" using aff(1) A [of p] pq by simp
    show ?thesis
      using step_cells_tests [OF assms pq b] aff pq unfolding edge_in_iff [OF S(2,6) less_trans [OF pq] pq(2) less_imp_neq [OF pq(1)] b] by auto
  qed
  have "clique_at lo F' bs \<longleftrightarrow> (\<forall>p < lk lo. bs p \<in> affected F' ! p) \<and> (\<forall>p q. p < q \<longrightarrow> q < lk lo \<longrightarrow> edge_in lo F' p q (bs p) (bs q))" (is "_ \<longleftrightarrow> ?a \<and> ?e")
  proof
    assume *: "?a \<and> ?e"
    have "edge_in lo F' p q (bs p) (bs q)" if pq: "p < lk lo" "q < lk lo" "p \<noteq> q" for p q
    proof -
      have "p < q \<or> q < p" using pq(3) by linarith
      then show ?thesis using * pq edge_in_sym [OF S(2,6,3) pq(2,1)] by blast
    qed
    then show "clique_at lo F' bs" using * by (simp add: clique_at_edges)
  qed (simp add: clique_at_edges)
  also have "\<dots> \<longleftrightarrow> ?a \<and> (\<forall>p q. p < q \<longrightarrow> q < lk lo \<longrightarrow> has_dependency g p q \<longrightarrow> edge_passes lo g static_edges ce p q (bs p) (bs q))"
  proof (intro conj_cong refl iff_allI imp_cong)
    fix p q assume "?a" "p < q" "q < lk lo"
    then show "edge_in lo F' p q (bs p) (bs q) = (has_dependency g p q \<longrightarrow> edge_passes lo g static_edges ce p q (bs p) (bs q))"
      using edge less_trans [of p q "lk lo"] by simp
  qed
  also have "\<dots> \<longleftrightarrow> test_clique lo unary g static_edges cv ce bs" using A by (simp add: test_clique_def)
  finally show ?thesis .
qed

definition tests_grow :: "layout \<Rightarrow> kpkc_step list \<Rightarrow> bool" where
  "tests_grow lo steps \<longleftrightarrow> sorted_wrt (\<lambda>s t. tests_weaker lo (fst s) (fst t)) steps"

definition workspaces_ok :: "layout \<Rightarrow> kpkc_step list \<Rightarrow> bool" where
  "workspaces_ok lo steps \<longleftrightarrow> (\<forall>(tests, rows, sol) \<in> set steps. length rows = lk lo \<and> length sol = lk lo)"

text \<open>One step finds the cliques that the full graph has gained, in the first iteration all of them.\<close>

lemma dk_step_found:
  assumes "layout_small lo" "vdg_symmetric (lk lo) g" "dk_ok lo g K" "K' = dk_next unary g static_edges cv ce K"
    and "dk_iteration K = 0 \<Longrightarrow> found = {}" "dk_iteration K \<noteq> 0 \<Longrightarrow> found = k_cliques lo (dk_full K)" "length rows = lk lo" "length sol = lk lo"
  shows "distinct (dk_new_k_cliques K' rows sol) \<and> set (dk_new_k_cliques K' rows sol) = k_cliques lo (dk_full K') - found
    \<and> found \<subseteq> k_cliques lo (dk_full K')"
proof -
  note N = dk_next_stepped [OF assms(1-4)]
  note G = step_graphs_ok [OF N(2)] and C = step_new_k_cliques [OF N(2)]
  have lo: "dk_layout K' = lo" using dk_okD(1) [OF N(1)] .
  show ?thesis
  proof (cases "dk_iteration K = 0")
    case True
    then have "dk_new_k_cliques K' rows sol = for_each_k_clique lo (dk_delta K') (dk_full K') sol"
      using N(3) lo by (simp add: dk_new_k_cliques_def for_each_new_k_clique_def)
    then show ?thesis using for_each_k_clique_spec [OF G assms(8)] assms(5) [OF True] by simp
  next
    case False
    then have i: "dk_iteration K' \<noteq> 1" using N(3) by simp
    show ?thesis
      using for_each_new_k_clique_spec [OF G assms(8,7) i] C assms(6) [OF False] lo by (simp add: dk_new_k_cliques_def)
  qed
qed

lemma dk_run_found:
  assumes "layout_small lo" "vdg_symmetric (lk lo) g" "dk_ok lo g K" "workspaces_ok lo steps" "steps \<noteq> []"
    and "dk_iteration K = 0 \<Longrightarrow> found = {}" "dk_iteration K \<noteq> 0 \<Longrightarrow> found = k_cliques lo (dk_full K)"
  shows "distinct (fst (dk_run unary g static_edges steps K))
    \<and> set (fst (dk_run unary g static_edges steps K)) = k_cliques lo (dk_full (snd (dk_run unary g static_edges steps K))) - found
    \<and> found \<subseteq> k_cliques lo (dk_full (snd (dk_run unary g static_edges steps K)))"
  using assms(3-)
proof (induction steps arbitrary: K found)
  case (Cons s steps)
  obtain cv ce rows sol where s: "s = ((cv, ce), rows, sol)" by (metis prod.exhaust)
  let ?K = "dk_next unary g static_edges cv ce K"
  have ws: "length rows = lk lo" "length sol = lk lo" "workspaces_ok lo steps" using Cons.prems(2) s by (auto simp: workspaces_ok_def)
  note N = dk_next_stepped [OF assms(1,2) Cons.prems(1) refl, of unary static_edges cv ce]
  note F = dk_step_found [OF assms(1,2) Cons.prems(1) refl Cons.prems(4,5) ws(1,2), of unary static_edges cv ce]
  show ?case
  proof (cases "steps = []")
    case True
    then show ?thesis using F by (simp add: s Let_def)
  next
    case False
    let ?R = "dk_run unary g static_edges steps ?K"
    let ?new = "dk_new_k_cliques ?K rows sol"
    have "distinct (fst ?R) \<and> set (fst ?R) = k_cliques lo (dk_full (snd ?R)) - k_cliques lo (dk_full ?K) \<and> k_cliques lo (dk_full ?K) \<subseteq> k_cliques lo (dk_full (snd ?R))"
      using Cons.IH [OF N(1) ws(3) False] N(3) by simp
    then have "distinct (?new @ fst ?R) \<and> set (?new @ fst ?R) = k_cliques lo (dk_full (snd ?R)) - found \<and> found \<subseteq> k_cliques lo (dk_full (snd ?R))"
      unfolding distinct_append set_append using F by blast
    moreover have "dk_run unary g static_edges (s # steps) K = (?new @ fst ?R, snd ?R)" by (simp add: s Let_def split_beta)
    ultimately show ?thesis by simp
  qed
qed simp

lemma dk_run_tests:
  assumes "layout_small lo" "vdg_symmetric (lk lo) g" "dk_ok lo g K" "steps \<noteq> []" "tests_grow lo steps"
    and "passes_tests lo unary g static_edges (fst (fst (hd steps))) (snd (fst (hd steps))) (dk_full K)"
  shows "clique_at lo (dk_full (snd (dk_run unary g static_edges steps K))) bs
    \<longleftrightarrow> test_clique lo unary g static_edges (fst (fst (last steps))) (snd (fst (last steps))) bs"
  using assms(3-)
proof (induction steps arbitrary: K)
  case (Cons s steps)
  obtain cv ce rows sol where s: "s = ((cv, ce), rows, sol)" by (metis prod.exhaust)
  let ?K = "dk_next unary g static_edges cv ce K"
  note N = dk_next_stepped [OF assms(1,2) Cons.prems(1) refl, of unary static_edges cv ce]
  have P: "passes_tests lo unary g static_edges cv ce (dk_full K)" using Cons.prems(4) s by simp
  show ?case
  proof (cases steps)
    case Nil
    then show ?thesis using step_test_clique [OF N(2) P] by (simp add: s Let_def)
  next
    case steps: (Cons t ts)
    have "passes_tests lo unary g static_edges (fst (fst (hd steps))) (snd (fst (hd steps))) (dk_full ?K)"
      using Cons.prems(3) by (intro passes_tests_mono [OF dk_okD(3) [OF N(1)] step_passes [OF N(2) P]]) (simp add: tests_grow_def s steps)
    moreover have "tests_grow lo steps" using Cons.prems(3) by (simp add: tests_grow_def)
    ultimately have "clique_at lo (dk_full (snd (dk_run unary g static_edges steps ?K))) bs
        \<longleftrightarrow> test_clique lo unary g static_edges (fst (fst (last steps))) (snd (fst (last steps))) bs"
      using Cons.IH [OF N(1)] steps by simp
    then show ?thesis using steps by (simp add: s Let_def split_beta)
  qed
qed simp

lemma make_layout_small:
  assumes "verify_vertex_partitions parts" "length parts < uint_max" "\<forall>part \<in> set parts. length part < uint_max"
  shows "layout_small (make_layout (length (concat parts)) parts)"
  using make_layout_ok [OF assms(1) refl] assms(2,3) by (simp add: layout_small_def)

lemma make_vdg_symmetric: "well_formed_condition k es \<Longrightarrow> vdg_symmetric k (make_vdg k es)"
  using has_dependency_sym by (auto simp: vdg_symmetric_def)

lemma dk_run_correct:
  assumes "layout_small lo" "vdg_symmetric (lk lo) g"
    and "K = dk_init lo g \<or> K = dk_reset (snd (dk_run unary g static_edges earlier (dk_init lo g)))"
    and "steps \<noteq> []" "workspaces_ok lo steps" "tests_grow lo steps"
  shows "distinct (fst (dk_run unary g static_edges steps K))"
    and "set (fst (dk_run unary g static_edges steps K))
      = {solution lo bs | bs. test_clique lo unary g static_edges (fst (fst (last steps))) (snd (fst (last steps))) bs}"
proof -
  have K: "dk_ok lo g K" "is_empty_graph lo (dk_full K)" "dk_iteration K = 0"
    using assms(3) dk_init_ok [of lo g] dk_reset_ok [OF dk_run_ok [OF assms(1,2) dk_init_ok(1)]] by auto
  have f: "distinct (fst (dk_run unary g static_edges steps K))
      \<and> set (fst (dk_run unary g static_edges steps K)) = k_cliques lo (dk_full (snd (dk_run unary g static_edges steps K))) - {}
      \<and> {} \<subseteq> k_cliques lo (dk_full (snd (dk_run unary g static_edges steps K)))"
    by (rule dk_run_found [OF assms(1,2) K(1) assms(5,4)]) (use K(3) in simp_all)
  then show "distinct (fst (dk_run unary g static_edges steps K))" by (rule conjunct1)
  from f show "set (fst (dk_run unary g static_edges steps K))
      = {solution lo bs | bs. test_clique lo unary g static_edges (fst (fst (last steps))) (snd (fst (last steps))) bs}"
    unfolding k_cliques_def dk_run_tests [OF assms(1,2) K(1) assms(4,6) empty_passes [OF K(2)]] by simp
qed

section \<open>Correctness\<close>

text \<open>
  C35. After construction or after a reset, over every sequence of steps in which the tests of vertices and edges only ever gain
  answers, the enumerations of new k-cliques together return each clique of the last tests exactly once: one vertex per
  partition, where every vertex of a partition with a runtime dependency passes the vertex test and every pair of partitions
  with a dependency is a static edge that passes the edge test. Nothing is lost between the steps and nothing is found twice.
\<close>

theorem delta_kpkc_incremental:
  assumes "verify_vertex_partitions parts" "well_formed_condition (length parts) es"
    and "length parts < uint_max" "\<forall>part \<in> set parts. length part < uint_max"
    and "lo = make_layout (length (concat parts)) parts" "g = make_vdg (length parts) es"
    and "K = dk_init lo g \<or> K = dk_reset (snd (dk_run unary g static_edges earlier (dk_init lo g)))"
    and "steps \<noteq> []" "workspaces_ok lo steps" "tests_grow lo steps"
  shows "distinct (fst (dk_run unary g static_edges steps K))
    \<and> set (fst (dk_run unary g static_edges steps K))
      = {solution lo bs | bs. test_clique lo unary g static_edges (fst (fst (last steps))) (snd (fst (last steps))) bs}"
proof -
  have "layout_small lo" unfolding assms(5) by (rule make_layout_small [OF assms(1,3,4)])
  moreover have "vdg_symmetric (lk lo) g"
    unfolding assms(5,6) make_layout_ok(2) [OF assms(1) refl] by (rule make_vdg_symmetric [OF assms(2)])
  ultimately show ?thesis using dk_run_correct [OF _ _ assms(7-10)] by blast
qed

text \<open>Three parameters of two, one and one objects; the second step makes two vertices and an edge consistent.\<close>

definition sample_parts :: "nat list list" where
  "sample_parts = [[0, 1], [2], [3]]"

definition sample_condition :: "condition_element list" where
  "sample_condition = [(Fluent_Positive, [0, 1]), (Fluent_Positive, [2])]"

definition sample_steps :: "kpkc_step list" where
  "sample_steps = [((\<lambda>v. v \<noteq> 3, \<lambda>v w. v = 0), [{}, {}, {}], [0, 0, 0]), ((\<lambda>v. True, \<lambda>v w. v \<le> 1), [{5}, {}, {}], [7, 0, 1])]"

lemma delta_kpkc_incremental_witness:
  "\<exists>lo g static_edges. lo = make_layout 4 sample_parts \<and> g = make_vdg 3 sample_condition
     \<and> distinct (fst (dk_run g g static_edges sample_steps (dk_init lo g)))
     \<and> set (fst (dk_run g g static_edges sample_steps (dk_init lo g)))
       = {solution lo bs | bs. test_clique lo g g static_edges (\<lambda>v. True) (\<lambda>v w. v \<le> 1) bs}
     \<and> test_clique lo g g static_edges (\<lambda>v. True) (\<lambda>v w. v \<le> 1) (\<lambda>p. if p = 0 then 1 else 0)"
proof -
  let ?lo = "make_layout 4 sample_parts" and ?g = "make_vdg 3 sample_condition" and ?se = "\<lambda>v p. {0 :: nat, 1}"
  have p: "verify_vertex_partitions sample_parts" "length sample_parts = 3" "length (concat sample_parts) = 4"
    by (simp_all add: sample_parts_def verify_vertex_partitions_def)
  have lk: "lk ?lo = 3" using make_layout_ok(2) [OF p(1) refl] p by simp
  have wf: "well_formed_condition (length sample_parts) sample_condition" by (simp add: p well_formed_condition_def sample_condition_def)
  have small: "length sample_parts < uint_max" "\<forall>part \<in> set sample_parts. length part < uint_max"
    by (simp_all add: p) (simp_all add: sample_parts_def uint_max_def)
  have steps: "sample_steps \<noteq> []" "workspaces_ok ?lo sample_steps" "tests_grow ?lo sample_steps"
    "fst (fst (last sample_steps)) = (\<lambda>v. True)" "snd (fst (last sample_steps)) = (\<lambda>v w. v \<le> 1)"
    by (simp_all add: sample_steps_def workspaces_ok_def tests_grow_def tests_weaker_def lk)
  have found: "distinct (fst (dk_run ?g ?g ?se sample_steps (dk_init ?lo ?g)))
     \<and> set (fst (dk_run ?g ?g ?se sample_steps (dk_init ?lo ?g))) = {solution ?lo bs | bs. test_clique ?lo ?g ?g ?se (\<lambda>v. True) (\<lambda>v w. v \<le> 1) bs}"
    using delta_kpkc_incremental [OF p(1) wf small refl refl disjI1 [OF refl] steps(1), unfolded p, OF steps(2,3), of ?g ?se]
    unfolding steps(4,5) .
  have "num_bits (infos ?lo ! p) = length (sample_parts ! p)" if "p < 3" for p
    using make_layout_ok(3) [OF p(1) refl] that p by simp
  moreover have "length (sample_parts ! p) = (if p = 0 then 2 else 1)" if "p < 3" for p
    using that by (auto simp: sample_parts_def less_Suc_eq numeral_3_eq_3)
  moreover have "vertex_at ?lo 0 1 = 1" using make_layout_ok(1) [OF p(1) refl] by code_simp
  moreover have "\<not> has_dependency ?g p q" if "0 < p" "p < q" "q < 3" for p q
    using that has_dependency_iff [OF wf, of p q] p by (auto simp: sample_condition_def)
  ultimately have "test_clique ?lo ?g ?g ?se (\<lambda>v. True) (\<lambda>v w. v \<le> 1) (\<lambda>p. if p = 0 then 1 else 0)"
    by (auto simp: test_clique_def lk edge_passes_def)
  then show ?thesis using found by blast
qed

end
