(* ===== verification/Consistency_Graph.thy ===== *)
theory Consistency_Graph
  imports Rule_Conditions Consistency_Update
begin

text \<open>
  The class \<^verbatim>\<open>StaticConsistencyGraph\<close> of \<^verbatim>\<open>src/datalog/consistency_graph.cpp\<close> for a rule: its vertices are the objects of each
  parameter that are consistent with the static literals, its edges the consistent pairs. The k-cliques of the dynamic graph are
  the bindings of the rule. The evaluation of numeric constraints on intervals is an argument.
\<close>

section \<open>Model\<close>

text \<open>A vertex is a parameter with an object.\<close>

type_synonym vertex = "nat \<times> nat"

definition vertex_step :: "pred_sets \<Rightarrow> indexed_literals \<Rightarrow> nat \<Rightarrow> nat \<Rightarrow> vertex list \<times> nat list \<times> nat list \<Rightarrow> vertex list \<times> nat list \<times> nat list" where
  "vertex_step Ss il p ob st =
     (let (vs, part, o2v) = st in
      if consistent_vertex Ss il (p, ob) then (vs @ [(p, ob)], part @ [length vs], o2v[ob := length vs]) else st)"

definition vertices_step :: "pred_sets \<Rightarrow> indexed_literals \<Rightarrow> nat list list \<Rightarrow> nat \<Rightarrow> nat
    \<Rightarrow> vertex list \<times> nat list list \<times> nat list list \<Rightarrow> vertex list \<times> nat list list \<times> nat list list" where
  "vertices_step Ss il domains n p st =
     (let (vs, parts, o2vs) = st; (vs, part, o2v) = fold (vertex_step Ss il p) (domains ! p) (vs, [], replicate n uint_max)
      in (vs, parts @ [part], o2vs @ [o2v]))"

definition compute_vertices :: "pred_sets \<Rightarrow> indexed_literals \<Rightarrow> nat list list \<Rightarrow> nat \<Rightarrow> nat \<Rightarrow> nat \<Rightarrow> vertex list \<times> nat list list \<times> nat list list" where
  "compute_vertices Ss il domains n first past = fold (vertices_step Ss il domains n) [first..<past] ([], [], [])"

type_synonym adjacency = "nat \<Rightarrow> nat \<Rightarrow> nat set"

definition edge_cell :: "pred_sets \<Rightarrow> indexed_literals \<Rightarrow> vertex list \<Rightarrow> nat \<Rightarrow> nat \<Rightarrow> nat \<Rightarrow> nat \<Rightarrow> nat \<Rightarrow> nat \<Rightarrow> adjacency \<Rightarrow> adjacency" where
  "edge_cell Ss il vs pa bi vi pj offset_j bj m =
     (let vj = offset_j + bj in if consistent_edge Ss il (vs ! vi) (vs ! vj) then add_cell vj pa bi (add_cell vi pj bj m) else m)"

fun edges_row :: "pred_sets \<Rightarrow> indexed_literals \<Rightarrow> vertex list \<Rightarrow> nat \<Rightarrow> nat \<Rightarrow> nat \<Rightarrow> nat \<Rightarrow> nat \<Rightarrow> nat list list \<Rightarrow> adjacency \<Rightarrow> adjacency" where
  "edges_row Ss il vs pa bi vi pj offset_j [] m = m"
| "edges_row Ss il vs pa bi vi pj offset_j (part # parts) m =
     edges_row Ss il vs pa bi vi (Suc pj) (offset_j + length part) parts (fold (edge_cell Ss il vs pa bi vi pj offset_j) [0..<length part] m)"

fun edges_from_partition :: "pred_sets \<Rightarrow> indexed_literals \<Rightarrow> vertex list \<Rightarrow> nat \<Rightarrow> nat \<Rightarrow> nat list list \<Rightarrow> adjacency \<Rightarrow> adjacency" where
  "edges_from_partition Ss il vs pa offset_i [] m = m"
| "edges_from_partition Ss il vs pa offset_i (part # parts) m =
     edges_from_partition Ss il vs (Suc pa) (offset_i + length part) parts
       (fold (\<lambda>bi. edges_row Ss il vs pa bi (offset_i + bi) (Suc pa) (offset_i + length part) parts) [0..<length part] m)"

definition compute_edges :: "pred_sets \<Rightarrow> indexed_literals \<Rightarrow> vertex list \<Rightarrow> nat list list \<Rightarrow> adjacency" where
  "compute_edges Ss il vs parts = edges_from_partition Ss il vs 0 0 parts (\<lambda>v p. {})"

record static_graph =
  sg_condition :: condition
  sg_unary :: condition
  sg_binary :: condition
  sg_unary_vdg :: vdg
  sg_binary_vdg :: vdg
  sg_vertices :: "vertex list"
  sg_partitions :: "nat list list"
  sg_object_to_vertex :: "nat list list"
  sg_layout :: layout
  sg_matrix :: adjacency
  sg_unary_fluent :: indexed_literals
  sg_binary_fluent :: indexed_literals

definition make_static_graph :: "condition \<Rightarrow> nat list list \<Rightarrow> nat \<Rightarrow> pred_sets \<Rightarrow> static_graph" where
  "make_static_graph c domains n static_sets =
     (let unary = overapproximation 1 c; binary = overapproximation 2 c;
          (vs, parts, o2v) = compute_vertices static_sets (index_literals (cond_arity unary) (cond_static unary)) domains n 0 (cond_arity c)
      in \<lparr>sg_condition = c, sg_unary = unary, sg_binary = binary, sg_unary_vdg = condition_vdg unary, sg_binary_vdg = condition_vdg binary,
          sg_vertices = vs, sg_partitions = parts, sg_object_to_vertex = o2v, sg_layout = make_layout (length vs) parts,
          sg_matrix = compute_edges static_sets (index_literals (cond_arity binary) (cond_static binary)) vs parts,
          sg_unary_fluent = index_literals (cond_arity unary) (cond_fluent unary),
          sg_binary_fluent = index_literals (cond_arity binary) (cond_fluent binary)\<rparr>)"

text \<open>Whether a numeric constraint can hold for one or two objects, as far as its intervals tell.\<close>

record interval_tests =
  it_vertex :: "constraint \<Rightarrow> vertex \<Rightarrow> bool"
  it_edge :: "constraint \<Rightarrow> vertex \<Rightarrow> vertex \<Rightarrow> bool"

definition sg_vertex_test :: "interval_tests \<Rightarrow> static_graph \<Rightarrow> pred_sets \<Rightarrow> nat \<Rightarrow> bool" where
  "sg_vertex_test it sg Fs v = (consistent_vertex Fs (sg_unary_fluent sg) (sg_vertices sg ! v)
     \<and> list_all (\<lambda>nc. it_vertex it nc (sg_vertices sg ! v)) (cond_numeric (sg_unary sg)))"

definition sg_edge_test :: "interval_tests \<Rightarrow> static_graph \<Rightarrow> pred_sets \<Rightarrow> nat \<Rightarrow> nat \<Rightarrow> bool" where
  "sg_edge_test it sg Fs vi vj = (consistent_edge Fs (sg_binary_fluent sg) (sg_vertices sg ! vi) (sg_vertices sg ! vj)
     \<and> list_all (\<lambda>nc. it_edge it nc (sg_vertices sg ! vi) (sg_vertices sg ! vj)) (cond_numeric (sg_binary sg)))"

definition sg_delta_kpkc :: "static_graph \<Rightarrow> delta_kpkc" where
  "sg_delta_kpkc sg = dk_init (make_layout (length (sg_vertices sg)) (sg_partitions sg)) (sg_binary_vdg sg)"

definition set_next_assignment_sets :: "interval_tests \<Rightarrow> static_graph \<Rightarrow> pred_sets \<Rightarrow> delta_kpkc \<Rightarrow> delta_kpkc" where
  "set_next_assignment_sets it sg Fs = dk_next (sg_unary_vdg sg) (sg_binary_vdg sg) (sg_matrix sg) (sg_vertex_test it sg Fs) (sg_edge_test it sg Fs)"

definition create_general_binding :: "static_graph \<Rightarrow> nat list \<Rightarrow> nat list" where
  "create_general_binding sg clique = map (\<lambda>v. snd (sg_vertices sg ! v)) clique"

text \<open>\<^verbatim>\<open>ConstRuleWorkspace\<close> rechecks the part of the body that the graph does not decide.\<close>

definition conflicting_limit :: "nat \<Rightarrow> nat" where
  "conflicting_limit arity = (if arity = 1 then 1 else 2)"

section \<open>Vertices\<close>

text \<open>The objects of a parameter that pass the static test.\<close>

definition kept_objects :: "pred_sets \<Rightarrow> indexed_literals \<Rightarrow> nat list list \<Rightarrow> nat \<Rightarrow> nat list" where
  "kept_objects Ss il domains p = filter (\<lambda>ob. consistent_vertex Ss il (p, ob)) (domains ! p)"

lemma fold_vertex_step:
  "\<exists>o2v'. fold (vertex_step Ss il p) obs (vs, part, o2v) =
     (vs @ map (Pair p) (filter (\<lambda>ob. consistent_vertex Ss il (p, ob)) obs),
      part @ [length vs..<length vs + length (filter (\<lambda>ob. consistent_vertex Ss il (p, ob)) obs)], o2v')"
proof (induction obs arbitrary: vs part o2v)
  case (Cons ob obs)
  show ?case
  proof (cases "consistent_vertex Ss il (p, ob)")
    case True
    then show ?thesis using Cons.IH [of "vs @ [(p, ob)]" "part @ [length vs]" "o2v[ob := length vs]"]
      by (auto simp: vertex_step_def upt_conv_Cons simp del: upt_Suc)
  next
    case False
    then show ?thesis using Cons.IH [of vs part o2v] by (simp add: vertex_step_def)
  qed
qed simp

lemma compute_vertices_spec:
  assumes "compute_vertices Ss il domains n 0 k = (vs, parts, o2v)"
  shows "vs = concat (map (\<lambda>p. map (Pair p) (kept_objects Ss il domains p)) [0..<k])" "length parts = k" "concat parts = [0..<length vs]"
    and "p < k \<Longrightarrow> length (parts ! p) = length (kept_objects Ss il domains p)"
proof -
  have "\<exists>parts o2v. fold (vertices_step Ss il domains n) [0..<k] ([], [], []) =
      (concat (map (\<lambda>p. map (Pair p) (kept_objects Ss il domains p)) [0..<k]), parts, o2v) \<and> length parts = k
    \<and> concat parts = [0..<length (concat (map (\<lambda>p. map (Pair p) (kept_objects Ss il domains p)) [0..<k]))]
    \<and> (\<forall>p < k. length (parts ! p) = length (kept_objects Ss il domains p))"
  proof (induction k)
    case (Suc k)
    let ?vs = "\<lambda>k. concat (map (\<lambda>p. map (Pair p) (kept_objects Ss il domains p)) [0..<k])"
    obtain parts o2v where IH: "fold (vertices_step Ss il domains n) [0..<k] ([], [], []) = (?vs k, parts, o2v)" "length parts = k"
      "concat parts = [0..<length (?vs k)]" "\<forall>p < k. length (parts ! p) = length (kept_objects Ss il domains p)" using Suc.IH by blast
    let ?part = "[length (?vs k)..<length (?vs k) + length (kept_objects Ss il domains k)]"
    obtain o2v' where f: "fold (vertex_step Ss il k) (domains ! k) (?vs k, [], replicate n uint_max)
        = (?vs k @ map (Pair k) (kept_objects Ss il domains k), ?part, o2v')"
      using fold_vertex_step [of Ss il k "domains ! k" "?vs k" "[]" "replicate n uint_max"] unfolding kept_objects_def by auto
    have 1: "fold (vertices_step Ss il domains n) [0..<Suc k] ([], [], []) = (?vs (Suc k), parts @ [?part], o2v @ [o2v'])"
      using f unfolding upt_Suc_append [OF le0] fold_append comp_apply IH(1) by (simp add: vertices_step_def)
    have 2: "concat (parts @ [?part]) = [0..<length (?vs (Suc k))]" using IH(3) upt_add_eq_append [of 0 "length (?vs k)"] by simp
    have 3: "length ((parts @ [?part]) ! p) = length (kept_objects Ss il domains p)" if "p < Suc k" for p
      using that IH(2,4) by (cases "p = k") (simp_all add: nth_append)
    show ?case using 1 2 3 IH(2) by (intro exI [of _ "parts @ [?part]"] exI [of _ "o2v @ [o2v']"]) (simp del: upt_Suc)
  qed simp
  with assms show "vs = concat (map (\<lambda>p. map (Pair p) (kept_objects Ss il domains p)) [0..<k])" "length parts = k" "concat parts = [0..<length vs]"
    "p < k \<Longrightarrow> length (parts ! p) = length (kept_objects Ss il domains p)"
    unfolding compute_vertices_def by auto
qed

lemma nth_concat_map_upt:
  "p < k \<Longrightarrow> b < length (f p) \<Longrightarrow> concat (map f [0..<k]) ! (sum_list (map (\<lambda>q. length (f q)) [0..<p]) + b) = f p ! b"
proof (induction k)
  case (Suc k)
  have len: "length (concat (map f [0..<k])) = sum_list (map (\<lambda>q. length (f q)) [0..<k])" for k by (simp add: length_concat comp_def)
  show ?case
  proof (cases "p = k")
    case True
    then show ?thesis using len [of k] by (simp add: nth_append)
  next
    case False
    then have p: "p < k" using Suc.prems by simp
    have "concat (map f [0..<k]) = concat (map f [0..<p]) @ f p @ concat (map f [Suc p..<k])"
      using p upt_add_eq_append [of 0 p "k - p"] upt_conv_Cons [OF p] by simp
    then have "sum_list (map (\<lambda>q. length (f q)) [0..<p]) + b < length (concat (map f [0..<k]))" using Suc.prems(2) len [of p] by simp
    then show ?thesis using Suc.IH [OF p Suc.prems(2)] by (simp add: nth_append)
  qed
qed simp

section \<open>Edges\<close>

lemma fold_edge_cell:
  assumes "vi < offset_j" "pa < pj"
  shows "fold (edge_cell Ss il vs pa bi vi pj offset_j) bs m =
    (\<lambda>v p. m v p \<union> {b. b \<in> set bs \<and> v = vi \<and> p = pj \<and> consistent_edge Ss il (vs ! vi) (vs ! (offset_j + b))}
      \<union> {b. b = bi \<and> p = pa \<and> (\<exists>c \<in> set bs. v = offset_j + c \<and> consistent_edge Ss il (vs ! vi) (vs ! v))})"
proof (induction bs arbitrary: m)
  case (Cons b bs)
  show ?case unfolding fold_simps comp_apply Cons.IH using assms by (intro ext) (auto simp: edge_cell_def Let_def add_cell_def)
qed simp

text \<open>The entries above the diagonal: those of a row, and those of the rows from a partition on.\<close>

lemma edges_row_spec:
  assumes "vi < offset_j" "pa < pj"
  shows "c \<in> edges_row Ss il vs pa bi vi pj offset_j parts m v q \<longleftrightarrow> c \<in> m v q
    \<or> (v = vi \<and> pj \<le> q \<and> q < pj + length parts \<and> c < length (parts ! (q - pj))
        \<and> consistent_edge Ss il (vs ! vi) (vs ! (offset_j + sum_list (map length (take (q - pj) parts)) + c)))
    \<or> (q = pa \<and> c = bi \<and> (\<exists>r < length parts. \<exists>d < length (parts ! r). v = offset_j + sum_list (map length (take r parts)) + d
        \<and> consistent_edge Ss il (vs ! vi) (vs ! v)))"
  using assms
proof (induction parts arbitrary: pj offset_j m)
  case (Cons part parts)
  let ?e = "\<lambda>x. consistent_edge Ss il (vs ! vi) (vs ! x)"
  let ?m = "fold (edge_cell Ss il vs pa bi vi pj offset_j) [0..<length part] m"
  have a: "c \<in> ?m v q \<longleftrightarrow> c \<in> m v q \<or> (v = vi \<and> q = pj \<and> c < length part \<and> ?e (offset_j + c)) \<or> (q = pa \<and> c = bi \<and> (\<exists>d < length part. v = offset_j + d \<and> ?e v))"
    unfolding fold_edge_cell [OF Cons.prems] by auto
  have IH: "c \<in> edges_row Ss il vs pa bi vi (Suc pj) (offset_j + length part) parts ?m v q \<longleftrightarrow> c \<in> ?m v q
    \<or> (v = vi \<and> Suc pj \<le> q \<and> q < Suc pj + length parts \<and> c < length (parts ! (q - Suc pj))
        \<and> ?e (offset_j + length part + sum_list (map length (take (q - Suc pj) parts)) + c))
    \<or> (q = pa \<and> c = bi \<and> (\<exists>r < length parts. \<exists>d < length (parts ! r). v = offset_j + length part + sum_list (map length (take r parts)) + d \<and> ?e v))"
    using Cons.IH [of "offset_j + length part" "Suc pj" ?m] Cons.prems by simp
  have b: "(v = vi \<and> pj \<le> q \<and> q < pj + length (part # parts) \<and> c < length ((part # parts) ! (q - pj))
        \<and> ?e (offset_j + sum_list (map length (take (q - pj) (part # parts))) + c)) \<longleftrightarrow>
      (v = vi \<and> q = pj \<and> c < length part \<and> ?e (offset_j + c)) \<or>
      (v = vi \<and> Suc pj \<le> q \<and> q < Suc pj + length parts \<and> c < length (parts ! (q - Suc pj))
        \<and> ?e (offset_j + length part + sum_list (map length (take (q - Suc pj) parts)) + c))"
  proof (cases "q = pj")
    case False
    then show ?thesis by (cases "pj \<le> q") (auto simp: Suc_diff_le le_less nth_Cons' take_Cons' add.assoc)
  qed simp
  have c: "(\<exists>r < length (part # parts). \<exists>d < length ((part # parts) ! r). v = offset_j + sum_list (map length (take r (part # parts))) + d \<and> ?e v) \<longleftrightarrow>
      (\<exists>d < length part. v = offset_j + d \<and> ?e v)
      \<or> (\<exists>r < length parts. \<exists>d < length (parts ! r). v = offset_j + length part + sum_list (map length (take r parts)) + d \<and> ?e v)"
    unfolding length_Cons Ex_less_Suc2 by (simp add: add.assoc)
  show ?case unfolding edges_row.simps b c IH a by blast
qed auto

text \<open>The entries of the partitions from \<open>i\<close> on, for the vertices that precede the partition \<open>q\<close>.\<close>

lemma fold_edges_row:
  assumes "n \<le> length part" "q = i \<Longrightarrow> v < off + length part"
  shows "c \<in> fold (\<lambda>b. edges_row Ss il vs i b (off + b) (Suc i) (off + length part) parts) [0..<n] m v q \<longleftrightarrow> c \<in> m v q
    \<or> (off \<le> v \<and> v < off + n \<and> Suc i \<le> q \<and> q < Suc i + length parts \<and> c < length (parts ! (q - Suc i))
        \<and> consistent_edge Ss il (vs ! v) (vs ! (off + length part + sum_list (map length (take (q - Suc i) parts)) + c)))"
  using assms(1)
proof (induction n)
  case (Suc n)
  let ?m = "fold (\<lambda>b. edges_row Ss il vs i b (off + b) (Suc i) (off + length part) parts) [0..<n] m"
  let ?e = "\<lambda>v c. consistent_edge Ss il (vs ! v) (vs ! (off + length part + sum_list (map length (take (q - Suc i) parts)) + c))"
  have "c \<in> edges_row Ss il vs i n (off + n) (Suc i) (off + length part) parts ?m v q \<longleftrightarrow> c \<in> ?m v q
    \<or> (v = off + n \<and> Suc i \<le> q \<and> q < Suc i + length parts \<and> c < length (parts ! (q - Suc i)) \<and> ?e v c)"
    using edges_row_spec [of "off + n" "off + length part" i "Suc i" c Ss il vs n parts ?m v q] Suc.prems assms(2) by auto
  moreover have "v < off + Suc n \<longleftrightarrow> v < off + n \<or> v = off + n" by auto
  moreover have "fold (\<lambda>b. edges_row Ss il vs i b (off + b) (Suc i) (off + length part) parts) [0..<Suc n] m
      = edges_row Ss il vs i n (off + n) (Suc i) (off + length part) parts ?m" by simp
  ultimately show ?case using Suc by auto
qed auto

lemma edges_from_partition_spec:
  assumes "i \<le> q \<Longrightarrow> v < off + sum_list (map length (take (q - i) parts))"
  shows "c \<in> edges_from_partition Ss il vs i off parts m v q \<longleftrightarrow> c \<in> m v q
    \<or> (i \<le> q \<and> q < i + length parts \<and> off \<le> v \<and> c < length (parts ! (q - i))
        \<and> consistent_edge Ss il (vs ! v) (vs ! (off + sum_list (map length (take (q - i) parts)) + c)))"
  using assms
proof (induction parts arbitrary: i off m)
  case (Cons part parts)
  let ?m = "fold (\<lambda>b. edges_row Ss il vs i b (off + b) (Suc i) (off + length part) parts) [0..<length part] m"
  have v: "v < off" if "q = i" using Cons.prems that by simp
  have step: "c \<in> ?m v q \<longleftrightarrow> c \<in> m v q
    \<or> (off \<le> v \<and> v < off + length part \<and> Suc i \<le> q \<and> q < Suc i + length parts \<and> c < length (parts ! (q - Suc i))
        \<and> consistent_edge Ss il (vs ! v) (vs ! (off + length part + sum_list (map length (take (q - Suc i) parts)) + c)))"
    by (rule fold_edges_row [OF order_refl]) (use v in simp)
  show ?case
  proof (cases "Suc i \<le> q")
    case True
    then have d: "q - i = Suc (q - Suc i)" by simp
    have "v < off + length part + sum_list (map length (take (q - Suc i) parts))" using Cons.prems True unfolding d by simp
    then have "c \<in> edges_from_partition Ss il vs (Suc i) (off + length part) parts ?m v q \<longleftrightarrow> c \<in> ?m v q
      \<or> (Suc i \<le> q \<and> q < Suc i + length parts \<and> off + length part \<le> v \<and> c < length (parts ! (q - Suc i))
        \<and> consistent_edge Ss il (vs ! v) (vs ! (off + length part + sum_list (map length (take (q - Suc i) parts)) + c)))"
      by (rule Cons.IH)
    then show ?thesis using step True unfolding edges_from_partition.simps d by (auto simp: add.assoc)
  next
    case False
    then have "c \<in> edges_from_partition Ss il vs (Suc i) (off + length part) parts ?m v q \<longleftrightarrow> c \<in> ?m v q"
      using Cons.IH [of "Suc i" "off + length part" ?m] by simp
    then show ?thesis using step False v unfolding edges_from_partition.simps by auto
  qed
qed auto

section \<open>The static graph\<close>

text \<open>What the rest of the theory uses of a graph: the vertices of each partition, and the edges above the diagonal.\<close>

definition graph_for :: "condition \<Rightarrow> nat list list \<Rightarrow> pred_sets \<Rightarrow> nat \<Rightarrow> nat list" where
  "graph_for c domains Ss p = kept_objects Ss (index_literals (cond_arity c) (cond_static (overapproximation 1 c))) domains p"

definition sg_ok :: "condition \<Rightarrow> nat list list \<Rightarrow> pred_sets \<Rightarrow> static_graph \<Rightarrow> bool" where
  "sg_ok c domains Ss sg \<longleftrightarrow> sg_condition sg = c \<and> sg_unary sg = overapproximation 1 c \<and> sg_binary sg = overapproximation 2 c
     \<and> sg_unary_vdg sg = condition_vdg (overapproximation 1 c) \<and> sg_binary_vdg sg = condition_vdg (overapproximation 2 c)
     \<and> sg_unary_fluent sg = index_literals (cond_arity c) (cond_fluent (overapproximation 1 c))
     \<and> sg_binary_fluent sg = index_literals (cond_arity c) (cond_fluent (overapproximation 2 c))
     \<and> verify_vertex_partitions (sg_partitions sg) \<and> length (concat (sg_partitions sg)) = length (sg_vertices sg)
     \<and> length (sg_partitions sg) = cond_arity c \<and> sg_layout sg = make_layout (length (sg_vertices sg)) (sg_partitions sg)
     \<and> (\<forall>p < cond_arity c. length (sg_partitions sg ! p) = length (graph_for c domains Ss p)
         \<and> (\<forall>b < length (graph_for c domains Ss p). sg_vertices sg ! vertex_at (sg_layout sg) p b = (p, graph_for c domains Ss p ! b)))
     \<and> (\<forall>p q b d. p < q \<longrightarrow> q < cond_arity c \<longrightarrow> b < length (graph_for c domains Ss p) \<longrightarrow> d < length (graph_for c domains Ss q) \<longrightarrow>
          (d \<in> sg_matrix sg (vertex_at (sg_layout sg) p b) q \<longleftrightarrow>
           consistent_edge Ss (index_literals (cond_arity c) (cond_static (overapproximation 2 c))) (p, graph_for c domains Ss p ! b) (q, graph_for c domains Ss q ! d)))"

lemma overapproximation_simps [simp]: "cond_arity (overapproximation k c) = cond_arity c"
  "cond_static (overapproximation k c) = filter (overapproximates k) (cond_static c)" "cond_fluent (overapproximation k c) = filter (overapproximates k) (cond_fluent c)"
  "cond_numeric (overapproximation k c) = filter (\<lambda>nc. constraint_kpkc_arity nc \<ge> k) (cond_numeric c)"
  by (simp_all add: overapproximation_def)

lemma make_static_graph_ok: "sg_ok c domains Ss (make_static_graph c domains n Ss)"
proof -
  let ?il = "index_literals (cond_arity c) (cond_static (overapproximation 1 c))" and ?il2 = "index_literals (cond_arity c) (cond_static (overapproximation 2 c))"
  obtain vs parts o2v where cv: "compute_vertices Ss ?il domains n 0 (cond_arity c) = (vs, parts, o2v)" by (metis prod_cases3)
  note V = compute_vertices_spec [OF cv]
  let ?sg = "make_static_graph c domains n Ss" and ?f = "\<lambda>p. map (Pair p) (graph_for c domains Ss p)"
  have sg: "sg_vertices ?sg = vs" "sg_partitions ?sg = parts" "sg_layout ?sg = make_layout (length vs) parts"
    "sg_matrix ?sg = compute_edges Ss ?il2 vs parts"
    "sg_condition ?sg = c \<and> sg_unary ?sg = overapproximation 1 c \<and> sg_binary ?sg = overapproximation 2 c
     \<and> sg_unary_vdg ?sg = condition_vdg (overapproximation 1 c) \<and> sg_binary_vdg ?sg = condition_vdg (overapproximation 2 c)
     \<and> sg_unary_fluent ?sg = index_literals (cond_arity c) (cond_fluent (overapproximation 1 c))
     \<and> sg_binary_fluent ?sg = index_literals (cond_arity c) (cond_fluent (overapproximation 2 c))"
    using cv by (simp_all add: make_static_graph_def Let_def)
  have pv: "verify_vertex_partitions parts" using V(3) by (simp add: verify_vertex_partitions_def verify_from_iff)
  have len: "length (concat parts) = length vs" using V(3) by simp
  have parts: "length (parts ! p) = length (graph_for c domains Ss p)" if "p < cond_arity c" for p using V(4) [OF that] by (simp add: graph_for_def)
  note L = make_layout_ok [OF pv len [symmetric]]
  have vs: "vs = concat (map ?f [0..<cond_arity c])" using V(1) by (simp add: graph_for_def)
  have off: "part_offset parts p = sum_list (map (\<lambda>q. length (?f q)) [0..<p])" if "p \<le> cond_arity c" for p
  proof -
    have "map length (take p parts) = map (\<lambda>q. length (?f q)) [0..<p]"
      using that parts V(2) by (intro nth_equalityI) simp_all
    then show ?thesis using part_offset_sum [of p parts] that V(2) by simp
  qed
  have at: "vertex_at (make_layout (length vs) parts) p b = part_offset parts p + b" if "p < cond_arity c" "b < length (graph_for c domains Ss p)" for p b
  proof -
    let ?lo = "make_layout (length vs) parts"
    have p: "p \<le> length parts" "p < lk ?lo" "length (infos ?lo) = length parts" using that(1) V(2) L(1,2) by (simp_all add: layout_ok_def)
    have "map num_bits (take p (infos ?lo)) = map length (take p parts)" using p L(3) by (intro nth_equalityI) simp_all
    then have "bit_offset (infos ?lo ! p) = part_offset parts p" using L(1) p part_offset_sum [OF p(1)] by (simp add: layout_ok_def)
    then show ?thesis by (simp add: vertex_at_def)
  qed
  have vertex: "vs ! vertex_at (make_layout (length vs) parts) p b = (p, graph_for c domains Ss p ! b)"
    if "p < cond_arity c" "b < length (graph_for c domains Ss p)" for p b
  proof -
    have "vs ! (sum_list (map (\<lambda>q. length (?f q)) [0..<p]) + b) = (p, graph_for c domains Ss p ! b)"
      using nth_concat_map_upt [of p "cond_arity c" b ?f] that unfolding vs by simp
    then show ?thesis unfolding at [OF that] off [OF less_imp_le [OF that(1)]] .
  qed
  have edge: "d \<in> compute_edges Ss ?il2 vs parts (vertex_at (make_layout (length vs) parts) p b) q \<longleftrightarrow>
      consistent_edge Ss ?il2 (p, graph_for c domains Ss p ! b) (q, graph_for c domains Ss q ! d)"
    if pq: "p < q" "q < cond_arity c" and b: "b < length (graph_for c domains Ss p)" and d: "d < length (graph_for c domains Ss q)" for p q b d
  proof -
    have p: "p < cond_arity c" using pq by simp
    have "part_offset parts (Suc p) \<le> part_offset parts q"
      using off [of "Suc p"] off [of q] pq upt_add_eq_append [of 0 "Suc p" "q - Suc p"] by simp
    moreover have "part_offset parts (Suc p) = part_offset parts p + length (graph_for c domains Ss p)" using off [of "Suc p"] off [of p] pq by simp
    ultimately have "part_offset parts p + b < sum_list (map length (take q parts))" using b part_offset_sum [of q parts] pq(2) V(2) by simp
    then have "d \<in> compute_edges Ss ?il2 vs parts (part_offset parts p + b) q \<longleftrightarrow>
        consistent_edge Ss ?il2 (vs ! (part_offset parts p + b)) (vs ! (part_offset parts q + d))"
      using edges_from_partition_spec [of 0 q "part_offset parts p + b" 0 parts d Ss ?il2 vs "\<lambda>v p. {}"] pq(2) V(2) parts [OF pq(2)] d part_offset_sum [of q parts]
      by (simp add: compute_edges_def)
    then show ?thesis using vertex [OF p b] vertex [OF pq(2) d] unfolding at [OF p b] at [OF pq(2) d] by simp
  qed
  show ?thesis unfolding sg_ok_def sg(1-4) using sg(5) pv len V(2) parts vertex edge by blast
qed

end
