(* ===== verification/Rule_Grounding.thy ===== *)
theory Rule_Grounding
  imports Consistency_Graph
begin

text \<open>
  The bindings of a rule that the k-cliques of its consistency graph stand for, as \<^verbatim>\<open>src/datalog/bottom_up.cpp\<close> uses them: every
  binding that satisfies the body is found, and the found ones satisfy the body after the nullary and the conflicting parts have
  been rechecked, except for literals that neither the graph nor the recheck looks at.
\<close>

section \<open>Model\<close>

text \<open>
  The bindings of a rule over the iterations of a solve: each iteration sets the next assignment sets of the fluent facts and
  turns the new cliques into bindings, in \<^verbatim>\<open>generate_general_case\<close>. An iteration comes with the contents of the workspace.
\<close>

type_synonym rule_step = "pred_sets \<times> nat set list \<times> nat list"

definition new_bindings :: "static_graph \<Rightarrow> delta_kpkc \<Rightarrow> nat set list \<Rightarrow> nat list \<Rightarrow> nat list list" where
  "new_bindings sg K rows sol = map (create_general_binding sg) (dk_new_k_cliques K rows sol)"

fun rule_run :: "interval_tests \<Rightarrow> static_graph \<Rightarrow> rule_step list \<Rightarrow> delta_kpkc \<Rightarrow> nat list list \<times> delta_kpkc" where
  "rule_run it sg [] K = ([], K)"
| "rule_run it sg ((Fs, rows, sol) # steps) K =
     (let K = set_next_assignment_sets it sg Fs K; (found, K') = rule_run it sg steps K
      in (new_bindings sg K rows sol @ found, K'))"

section \<open>Bindings and cliques\<close>

definition rule_vertex :: "interval_tests \<Rightarrow> condition \<Rightarrow> pred_sets \<Rightarrow> vertex \<Rightarrow> bool" where
  "rule_vertex it c Fs v \<longleftrightarrow> consistent_vertex Fs (index_literals (cond_arity c) (cond_fluent (overapproximation 1 c))) v
     \<and> list_all (\<lambda>nc. it_vertex it nc v) (cond_numeric (overapproximation 1 c))"

definition rule_edge :: "interval_tests \<Rightarrow> condition \<Rightarrow> pred_sets \<Rightarrow> vertex \<Rightarrow> vertex \<Rightarrow> bool" where
  "rule_edge it c Fs v w \<longleftrightarrow> consistent_edge Fs (index_literals (cond_arity c) (cond_fluent (overapproximation 2 c))) v w
     \<and> list_all (\<lambda>nc. it_edge it nc v w) (cond_numeric (overapproximation 2 c))"

text \<open>A binding that is a k-clique: every object and every dependent pair of objects passes its tests.\<close>

definition rule_clique :: "interval_tests \<Rightarrow> condition \<Rightarrow> nat list list \<Rightarrow> pred_sets \<Rightarrow> pred_sets \<Rightarrow> nat list \<Rightarrow> bool" where
  "rule_clique it c domains Ss Fs \<sigma> \<longleftrightarrow> length \<sigma> = cond_arity c
     \<and> (\<forall>p < cond_arity c. \<sigma> ! p \<in> set (graph_for c domains Ss p)
         \<and> (runtime_unary (condition_vdg (overapproximation 1 c)) p \<longrightarrow> rule_vertex it c Fs (p, \<sigma> ! p)))
     \<and> (\<forall>p q. p < q \<longrightarrow> q < cond_arity c \<longrightarrow> has_dependency (condition_vdg (overapproximation 2 c)) p q \<longrightarrow>
          consistent_edge Ss (index_literals (cond_arity c) (cond_static (overapproximation 2 c))) (p, \<sigma> ! p) (q, \<sigma> ! q)
        \<and> (runtime_binary (condition_vdg (overapproximation 2 c)) p q \<longrightarrow> rule_edge it c Fs (p, \<sigma> ! p) (q, \<sigma> ! q)))"

definition binding_at :: "condition \<Rightarrow> nat list list \<Rightarrow> pred_sets \<Rightarrow> (nat \<Rightarrow> nat) \<Rightarrow> nat list" where
  "binding_at c domains Ss bs = map (\<lambda>p. graph_for c domains Ss p ! bs p) [0..<cond_arity c]"

lemma binding_at_simps [simp]: "length (binding_at c domains Ss bs) = cond_arity c"
  "p < cond_arity c \<Longrightarrow> binding_at c domains Ss bs ! p = graph_for c domains Ss p ! bs p"
  by (simp_all add: binding_at_def)

definition sg_clique :: "interval_tests \<Rightarrow> static_graph \<Rightarrow> pred_sets \<Rightarrow> (nat \<Rightarrow> nat) \<Rightarrow> bool" where
  "sg_clique it sg Fs bs \<longleftrightarrow>
     test_clique (sg_layout sg) (sg_unary_vdg sg) (sg_binary_vdg sg) (sg_matrix sg) (sg_vertex_test it sg Fs) (sg_edge_test it sg Fs) bs"

lemma sg_okD:
  assumes "sg_ok c domains Ss sg"
  shows "sg_unary sg = overapproximation 1 c" "sg_binary sg = overapproximation 2 c" "sg_unary_vdg sg = condition_vdg (overapproximation 1 c)"
    "sg_binary_vdg sg = condition_vdg (overapproximation 2 c)" "sg_unary_fluent sg = index_literals (cond_arity c) (cond_fluent (overapproximation 1 c))"
    "sg_binary_fluent sg = index_literals (cond_arity c) (cond_fluent (overapproximation 2 c))" "verify_vertex_partitions (sg_partitions sg)"
    "length (concat (sg_partitions sg)) = length (sg_vertices sg)" "length (sg_partitions sg) = cond_arity c"
    "sg_layout sg = make_layout (length (sg_vertices sg)) (sg_partitions sg)" "lk (sg_layout sg) = cond_arity c"
    and "p < cond_arity c \<Longrightarrow> num_bits (infos (sg_layout sg) ! p) = length (graph_for c domains Ss p)"
    and "p < cond_arity c \<Longrightarrow> b < length (graph_for c domains Ss p) \<Longrightarrow> sg_vertices sg ! vertex_at (sg_layout sg) p b = (p, graph_for c domains Ss p ! b)"
    and "p < q \<Longrightarrow> q < cond_arity c \<Longrightarrow> b < length (graph_for c domains Ss p) \<Longrightarrow> d < length (graph_for c domains Ss q) \<Longrightarrow>
          d \<in> sg_matrix sg (vertex_at (sg_layout sg) p b) q \<longleftrightarrow>
           consistent_edge Ss (index_literals (cond_arity c) (cond_static (overapproximation 2 c))) (p, graph_for c domains Ss p ! b) (q, graph_for c domains Ss q ! d)"
proof -
  show a: "verify_vertex_partitions (sg_partitions sg)" "length (concat (sg_partitions sg)) = length (sg_vertices sg)" "length (sg_partitions sg) = cond_arity c"
    "sg_layout sg = make_layout (length (sg_vertices sg)) (sg_partitions sg)"
    using assms unfolding sg_ok_def by blast+
  have l: "length (sg_partitions sg ! p) = length (graph_for c domains Ss p)" if "p < cond_arity c" for p using assms that unfolding sg_ok_def by blast
  note L = make_layout_ok [OF a(1) a(2) [symmetric], folded a(4)]
  show "lk (sg_layout sg) = cond_arity c" using L(2) a(3) by simp
  show "num_bits (infos (sg_layout sg) ! p) = length (graph_for c domains Ss p)" if "p < cond_arity c" using L(3) l that a(3) by simp
qed (use assms in \<open>unfold sg_ok_def, blast+\<close>)

lemma sg_clique_iff:
  assumes "sg_ok c domains Ss sg"
  shows "sg_clique it sg Fs bs \<longleftrightarrow> (\<forall>p < cond_arity c. bs p < length (graph_for c domains Ss p)) \<and> rule_clique it c domains Ss Fs (binding_at c domains Ss bs)"
proof (cases "\<forall>p < cond_arity c. bs p < length (graph_for c domains Ss p)")
  case True
  note G = sg_okD [OF assms]
  let ?\<sigma> = "binding_at c domains Ss bs"
  have v: "sg_vertex_test it sg Fs (vertex_at (sg_layout sg) p (bs p)) \<longleftrightarrow> rule_vertex it c Fs (p, ?\<sigma> ! p)" if "p < cond_arity c" for p
    using G(13) [OF that] True that by (simp add: sg_vertex_test_def rule_vertex_def G(1,5))
  have e: "edge_passes (sg_layout sg) (sg_binary_vdg sg) (sg_matrix sg) (sg_edge_test it sg Fs) p q (bs p) (bs q) \<longleftrightarrow>
      consistent_edge Ss (index_literals (cond_arity c) (cond_static (overapproximation 2 c))) (p, ?\<sigma> ! p) (q, ?\<sigma> ! q)
      \<and> (runtime_binary (condition_vdg (overapproximation 2 c)) p q \<longrightarrow> rule_edge it c Fs (p, ?\<sigma> ! p) (q, ?\<sigma> ! q))"
    if pq: "p < q" "q < cond_arity c" for p q
  proof -
    have p: "p < cond_arity c" using pq by simp
    have b: "bs p < length (graph_for c domains Ss p)" "bs q < length (graph_for c domains Ss q)" using True p pq(2) by blast+
    have "sg_edge_test it sg Fs (vertex_at (sg_layout sg) p (bs p)) (vertex_at (sg_layout sg) q (bs q)) \<longleftrightarrow> rule_edge it c Fs (p, ?\<sigma> ! p) (q, ?\<sigma> ! q)"
      using p pq(2) unfolding sg_edge_test_def rule_edge_def G(13) [OF p b(1)] G(13) [OF pq(2) b(2)] G(2,6) by simp
    then show ?thesis unfolding edge_passes_def G(14) [OF pq b] G(4) using p pq(2) by simp
  qed
  have s: "?\<sigma> ! p \<in> set (graph_for c domains Ss p)" if "p < cond_arity c" for p using True that by simp
  show ?thesis
    using True s v e unfolding sg_clique_def test_clique_def rule_clique_def G(3,4,11) by (simp add: G(12) cong: imp_cong conj_cong)
next
  case False
  then show ?thesis using sg_okD(11,12) [OF assms] by (auto simp: sg_clique_def test_clique_def)
qed

lemma create_general_binding_solution:
  assumes "sg_ok c domains Ss sg" "sg_clique it sg Fs bs"
  shows "create_general_binding sg (solution (sg_layout sg) bs) = binding_at c domains Ss bs"
  using assms sg_clique_iff [OF assms(1)] sg_okD(11,13) [OF assms(1)]
  by (intro nth_equalityI) (auto simp: create_general_binding_def solution_def)

lemma rule_clique_position:
  assumes "rule_clique it c domains Ss Fs \<sigma>"
  shows "\<exists>bs. (\<forall>p < cond_arity c. bs p < length (graph_for c domains Ss p)) \<and> binding_at c domains Ss bs = \<sigma>"
proof -
  have "\<forall>p. \<exists>b. p < cond_arity c \<longrightarrow> b < length (graph_for c domains Ss p) \<and> graph_for c domains Ss p ! b = \<sigma> ! p"
    using assms unfolding rule_clique_def in_set_conv_nth by blast
  then obtain bs where "\<forall>p. p < cond_arity c \<longrightarrow> bs p < length (graph_for c domains Ss p) \<and> graph_for c domains Ss p ! bs p = \<sigma> ! p" by metis
  then show ?thesis using assms by (intro exI [of _ bs]) (auto simp: rule_clique_def intro: nth_equalityI)
qed

definition rule_domains_ok :: "condition \<Rightarrow> nat list list \<Rightarrow> nat \<Rightarrow> bool" where
  "rule_domains_ok c domains n \<longleftrightarrow> (\<forall>p < cond_arity c. distinct (domains ! p) \<and> (\<forall>ob \<in> set (domains ! p). ob < n))"

lemma graph_for_subset: "set (graph_for c domains Ss p) \<subseteq> set (domains ! p)"
  by (auto simp: graph_for_def kept_objects_def)

lemma sg_cliques_bindings:
  assumes "sg_ok c domains Ss sg" "rule_domains_ok c domains n"
  shows "create_general_binding sg ` {solution (sg_layout sg) bs | bs. sg_clique it sg Fs bs} = {\<sigma>. rule_clique it c domains Ss Fs \<sigma>}"
    and "inj_on (create_general_binding sg) {solution (sg_layout sg) bs | bs. sg_clique it sg Fs bs}"
proof -
  note C = sg_clique_iff [OF assms(1)] and B = create_general_binding_solution [OF assms(1)]
  show "create_general_binding sg ` {solution (sg_layout sg) bs | bs. sg_clique it sg Fs bs} = {\<sigma>. rule_clique it c domains Ss Fs \<sigma>}"
  proof (intro equalityI subsetI)
    fix \<sigma> assume "\<sigma> \<in> create_general_binding sg ` {solution (sg_layout sg) bs | bs. sg_clique it sg Fs bs}"
    then show "\<sigma> \<in> {\<sigma>. rule_clique it c domains Ss Fs \<sigma>}" using C B by auto
  next
    fix \<sigma> assume "\<sigma> \<in> {\<sigma>. rule_clique it c domains Ss Fs \<sigma>}"
    then have r: "rule_clique it c domains Ss Fs \<sigma>" by simp
    then obtain bs where bs: "\<forall>p < cond_arity c. bs p < length (graph_for c domains Ss p)" "binding_at c domains Ss bs = \<sigma>" using rule_clique_position by blast
    then have "sg_clique it sg Fs bs" using r unfolding C by simp
    then show "\<sigma> \<in> create_general_binding sg ` {solution (sg_layout sg) bs | bs. sg_clique it sg Fs bs}"
      using B [of it Fs bs] bs(2) by (intro image_eqI [of _ _ "solution (sg_layout sg) bs"]) auto
  qed
  show "inj_on (create_general_binding sg) {solution (sg_layout sg) bs | bs. sg_clique it sg Fs bs}"
  proof (rule inj_onI)
    fix x y assume "x \<in> {solution (sg_layout sg) bs | bs. sg_clique it sg Fs bs}" "y \<in> {solution (sg_layout sg) bs | bs. sg_clique it sg Fs bs}"
      and eq: "create_general_binding sg x = create_general_binding sg y"
    then obtain bs bs' where bs: "x = solution (sg_layout sg) bs" "sg_clique it sg Fs bs" and bs': "y = solution (sg_layout sg) bs'" "sg_clique it sg Fs bs'" by blast
    have "bs p = bs' p" if p: "p < cond_arity c" for p
    proof -
      have "binding_at c domains Ss bs = binding_at c domains Ss bs'" using eq B [OF bs(2)] B [OF bs'(2)] bs(1) bs'(1) by simp
      then have "graph_for c domains Ss p ! bs p = graph_for c domains Ss p ! bs' p" using p by (metis binding_at_simps(2))
      moreover have "distinct (graph_for c domains Ss p)" using assms(2) p by (simp add: graph_for_def kept_objects_def rule_domains_ok_def)
      ultimately show ?thesis using nth_eq_iff_index_eq p bs(2) bs'(2) unfolding C by metis
    qed
    then show "x = y" unfolding bs(1) bs'(1) solution_def using sg_okD(11) [OF assms(1)] by simp
  qed
qed

section \<open>The dependencies of a condition\<close>

lemma condition_ok_overapproximation: "condition_ok sarities farities n c \<Longrightarrow> condition_ok sarities farities n (overapproximation k c)"
  by (auto simp: condition_ok_def)

lemma condition_elements_iff:
  "(t, ps) \<in> set (condition_elements c) \<longleftrightarrow> (\<exists>lit \<in> set (cond_static c). t = literal_kind False lit \<and> ps = sort (collect_parameters lit))
     \<or> (\<exists>lit \<in> set (cond_fluent c). t = literal_kind True lit \<and> ps = sort (collect_parameters lit))
     \<or> (\<exists>nc \<in> set (cond_numeric c). t = Numeric \<and> ps = sort (constraint_parameters nc))"
  by (auto simp: condition_elements_def)

lemma ex_condition_element:
  "(\<exists>t ps. T t \<and> (t, ps) \<in> set (condition_elements c) \<and> Q (set ps)) \<longleftrightarrow>
     (\<exists>lit \<in> set (cond_static c). T (literal_kind False lit) \<and> Q {p. Param p \<in> set (ll_terms lit)})
   \<or> (\<exists>lit \<in> set (cond_fluent c). T (literal_kind True lit) \<and> Q {p. Param p \<in> set (ll_terms lit)})
   \<or> (\<exists>nc \<in> set (cond_numeric c). T Numeric \<and> Q (set (constraint_parameters nc)))" (is "?l \<longleftrightarrow> ?r")
proof
  show "?l \<Longrightarrow> ?r" unfolding condition_elements_iff by (elim exE conjE disjE bexE) (simp_all, blast+)
  assume ?r
  then show ?l
  proof (elim disjE bexE)
    fix lit assume lit: "lit \<in> set (cond_static c)" "T (literal_kind False lit) \<and> Q {p. Param p \<in> set (ll_terms lit)}"
    show ?l by (rule exI [of _ "literal_kind False lit"], rule exI [of _ "sort (collect_parameters lit)"]) (use lit in \<open>simp add: condition_elements_def\<close>)
  next
    fix lit assume lit: "lit \<in> set (cond_fluent c)" "T (literal_kind True lit) \<and> Q {p. Param p \<in> set (ll_terms lit)}"
    show ?l by (rule exI [of _ "literal_kind True lit"], rule exI [of _ "sort (collect_parameters lit)"]) (use lit in \<open>simp add: condition_elements_def\<close>)
  next
    fix nc assume nc: "nc \<in> set (cond_numeric c)" "T Numeric \<and> Q (set (constraint_parameters nc))"
    show ?l by (rule exI [of _ Numeric], rule exI [of _ "sort (constraint_parameters nc)"]) (use nc in \<open>simp add: condition_elements_def\<close>)
  qed
qed

lemma fluent_literal_kind: "literal_kind True lit = Fluent_Positive \<or> literal_kind True lit = Fluent_Negative"
  by (simp add: literal_kind_def)

lemma runtime_unary_iff:
  assumes "condition_ok sarities farities n c"
  shows "runtime_unary (condition_vdg c) p \<longleftrightarrow> (\<exists>lit \<in> set (cond_fluent c). Param p \<in> set (ll_terms lit)) \<or> (\<exists>nc \<in> set (cond_numeric c). p \<in> set (constraint_parameters nc))"
proof -
  note U = make_vdg_spec(2) [OF condition_elements_wf [OF assms], folded condition_vdg_elements]
  have "runtime_unary (condition_vdg c) p \<longleftrightarrow> (\<exists>t ps. t \<in> {Fluent_Positive, Fluent_Negative, Numeric} \<and> (t, ps) \<in> set (condition_elements c) \<and> p \<in> set ps)"
    unfolding runtime_unary_def U by blast
  also have "\<dots> \<longleftrightarrow> (\<exists>lit \<in> set (cond_fluent c). Param p \<in> set (ll_terms lit)) \<or> (\<exists>nc \<in> set (cond_numeric c). p \<in> set (constraint_parameters nc))"
    unfolding ex_condition_element [of "\<lambda>t. t \<in> {Fluent_Positive, Fluent_Negative, Numeric}" c "\<lambda>ps. p \<in> ps"] using fluent_literal_kind
    by (simp add: literal_kind_iff)
  finally show ?thesis .
qed

lemma runtime_binary_iff:
  assumes "condition_ok sarities farities n c" "p < cond_arity c" "q < cond_arity c" "p \<noteq> q"
  shows "runtime_binary (condition_vdg c) p q \<longleftrightarrow> (\<exists>lit \<in> set (cond_fluent c). Param p \<in> set (ll_terms lit) \<and> Param q \<in> set (ll_terms lit))
    \<or> (\<exists>nc \<in> set (cond_numeric c). p \<in> set (constraint_parameters nc) \<and> q \<in> set (constraint_parameters nc))"
proof -
  note B = make_vdg_spec(3) [OF condition_elements_wf [OF assms(1)] assms(2,3), folded condition_vdg_elements]
  have "runtime_binary (condition_vdg c) p q \<longleftrightarrow>
      (\<exists>t ps. t \<in> {Fluent_Positive, Fluent_Negative, Numeric} \<and> (t, ps) \<in> set (condition_elements c) \<and> p \<in> set ps \<and> q \<in> set ps)"
    unfolding runtime_binary_def B using assms(4) by blast
  also have "\<dots> \<longleftrightarrow> (\<exists>lit \<in> set (cond_fluent c). Param p \<in> set (ll_terms lit) \<and> Param q \<in> set (ll_terms lit))
      \<or> (\<exists>nc \<in> set (cond_numeric c). p \<in> set (constraint_parameters nc) \<and> q \<in> set (constraint_parameters nc))"
    unfolding ex_condition_element [of "\<lambda>t. t \<in> {Fluent_Positive, Fluent_Negative, Numeric}" c "\<lambda>ps. p \<in> ps \<and> q \<in> ps"] using fluent_literal_kind
    by (simp add: literal_kind_iff)
  finally show ?thesis .
qed

lemma condition_dependency_iff:
  assumes "condition_ok sarities farities n c" "p < cond_arity c" "q < cond_arity c" "p \<noteq> q"
  shows "has_dependency (condition_vdg c) p q \<longleftrightarrow> (\<exists>lit \<in> set (cond_static c) \<union> set (cond_fluent c). Param p \<in> set (ll_terms lit) \<and> Param q \<in> set (ll_terms lit))
    \<or> (\<exists>nc \<in> set (cond_numeric c). p \<in> set (constraint_parameters nc) \<and> q \<in> set (constraint_parameters nc))"
proof -
  have "has_dependency (condition_vdg c) p q \<longleftrightarrow> (\<exists>e \<in> set (condition_elements c). p \<in> set (snd e) \<and> q \<in> set (snd e) \<and> p \<noteq> q)"
    by (rule has_dependency_iff [OF condition_elements_wf [OF assms(1)] assms(2,3), folded condition_vdg_elements])
  also have "\<dots> \<longleftrightarrow> (\<exists>t ps. True \<and> (t, ps) \<in> set (condition_elements c) \<and> p \<in> set ps \<and> q \<in> set ps)"
    using assms(4) by (metis prod.collapse snd_conv)
  also have "\<dots> \<longleftrightarrow> (\<exists>lit \<in> set (cond_static c) \<union> set (cond_fluent c). Param p \<in> set (ll_terms lit) \<and> Param q \<in> set (ll_terms lit))
      \<or> (\<exists>nc \<in> set (cond_numeric c). p \<in> set (constraint_parameters nc) \<and> q \<in> set (constraint_parameters nc))"
    unfolding ex_condition_element [of "\<lambda>t. True" c "\<lambda>ps. p \<in> ps \<and> q \<in> ps"] by (simp add: bex_Un)
  finally show ?thesis .
qed

section \<open>Completeness and soundness\<close>

text \<open>A body over the schemas of static and of fluent predicates, with assignment sets that hold the facts.\<close>

type_synonym schema = "(nat \<times> nat list list) list"

definition rule_context :: "schema \<Rightarrow> schema \<Rightarrow> nat \<Rightarrow> condition \<Rightarrow> nat list list \<Rightarrow> bool" where
  "rule_context spreds fpreds n c domains \<longleftrightarrow> condition_ok (arities_of spreds) (arities_of fpreds) n c \<and> rule_domains_ok c domains n"

definition in_domains :: "condition \<Rightarrow> nat list list \<Rightarrow> nat list \<Rightarrow> bool" where
  "in_domains c domains \<sigma> \<longleftrightarrow> length \<sigma> = cond_arity c \<and> (\<forall>p < cond_arity c. \<sigma> ! p \<in> set (domains ! p))"

text \<open>The interval tests pass for the objects of a binding under which the constraint holds.\<close>

definition intervals_sound :: "interval_tests \<Rightarrow> 'v numeric_values \<Rightarrow> condition \<Rightarrow> bool" where
  "intervals_sound it fv c \<longleftrightarrow> (\<forall>nc \<in> set (cond_numeric c). \<forall>\<sigma>. length \<sigma> = cond_arity c \<longrightarrow> constraint_holds fv \<sigma> nc \<longrightarrow>
     (\<forall>p < cond_arity c. it_vertex it nc (p, \<sigma> ! p)) \<and> (\<forall>p q. p < q \<longrightarrow> q < cond_arity c \<longrightarrow> it_edge it nc (p, \<sigma> ! p) (q, \<sigma> ! q)))"

text \<open>The interval tests decide a constraint that is not rechecked.\<close>

definition intervals_decide :: "interval_tests \<Rightarrow> 'v numeric_values \<Rightarrow> condition \<Rightarrow> bool" where
  "intervals_decide it fv c \<longleftrightarrow> (\<forall>nc \<in> set (cond_numeric c). \<forall>\<sigma>. length \<sigma> = cond_arity c \<longrightarrow>
     constraint_parameters nc \<noteq> [] \<longrightarrow> constraint_kpkc_arity nc \<le> conflicting_limit (cond_arity c) \<longrightarrow>
     (\<forall>p \<in> set (constraint_parameters nc). it_vertex it nc (p, \<sigma> ! p)) \<longrightarrow>
     (\<forall>p \<in> set (constraint_parameters nc). \<forall>q \<in> set (constraint_parameters nc). p < q \<longrightarrow> it_edge it nc (p, \<sigma> ! p) (q, \<sigma> ! q)) \<longrightarrow>
     constraint_holds fv \<sigma> nc)"

text \<open>
  A literal of two terms in a rule of several parameters is settled when it has no parameter, two different ones, or is
  positive with an object. The others are neither rechecked nor decided by the graph.
\<close>

definition settled_literal :: "nat \<Rightarrow> lifted_literal \<Rightarrow> bool" where
  "settled_literal arity lit \<longleftrightarrow> ll_arity lit \<noteq> 2 \<or> arity = 1 \<or> (\<forall>p. Param p \<notin> set (ll_terms lit))
     \<or> (\<exists>p q. p < q \<and> Param p \<in> set (ll_terms lit) \<and> Param q \<in> set (ll_terms lit))
     \<or> ll_polarity lit \<and> (\<exists>ob. Obj ob \<in> set (ll_terms lit))"

definition settled :: "condition \<Rightarrow> bool" where
  "settled c \<longleftrightarrow> (\<forall>lit \<in> set (cond_static c) \<union> set (cond_fluent c). settled_literal (cond_arity c) lit)"

lemma rule_index_context:
  assumes "sets_hold preds n Ss S" "\<forall>lit \<in> set lits. literal_ok k (arities_of preds) n lit" "\<forall>p < k. \<sigma> ! p < n"
  shows "index_context preds n Ss S k \<sigma> (filter P lits)"
  using assms by (auto simp: index_context_def literal_context_def)

lemma in_domains_less: "rule_domains_ok c domains n \<Longrightarrow> in_domains c domains \<sigma> \<Longrightarrow> \<forall>p < cond_arity c. \<sigma> ! p < n"
  by (auto simp: rule_domains_ok_def in_domains_def)

lemma rule_clique_in_domains: "rule_clique it c domains Ss Fs \<sigma> \<Longrightarrow> in_domains c domains \<sigma>"
  using graph_for_subset by (fastforce simp: rule_clique_def in_domains_def)

lemma rule_clique_complete:
  assumes "rule_context spreds fpreds n c domains" "sets_hold spreds n Ss S" "sets_hold fpreds n Fs F" "intervals_sound it fv c"
    and "in_domains c domains \<sigma>" "valid_binding fv S F \<sigma> c"
  shows "rule_clique it c domains Ss Fs \<sigma>"
proof -
  have c: "condition_ok (arities_of spreds) (arities_of fpreds) n c" and d: "rule_domains_ok c domains n" using assms(1) by (simp_all add: rule_context_def)
  have len: "length \<sigma> = cond_arity c" and less: "\<forall>p < cond_arity c. \<sigma> ! p < n" using assms(5) in_domains_less [OF d assms(5)] by (simp_all add: in_domains_def)
  have ok: "\<forall>lit \<in> set (cond_static c). literal_ok (cond_arity c) (arities_of spreds) n lit"
    "\<forall>lit \<in> set (cond_fluent c). literal_ok (cond_arity c) (arities_of fpreds) n lit" using c by (simp_all add: condition_ok_def)
  note I = rule_index_context [OF assms(2) ok(1) less] and J = rule_index_context [OF assms(3) ok(2) less]
  have hold: "\<forall>lit \<in> set (cond_static c). literal_holds S \<sigma> lit" "\<forall>lit \<in> set (cond_fluent c). literal_holds F \<sigma> lit"
    "\<forall>nc \<in> set (cond_numeric c). constraint_holds fv \<sigma> nc" using assms(6) by (simp_all add: valid_binding_def list_all_iff)
  have over: "overapproximates k lit \<Longrightarrow> ll_polarity lit \<or> ll_arity lit = k" for k lit by (auto simp: overapproximates_def kpkc_arity_def)
  have "\<sigma> ! p \<in> set (graph_for c domains Ss p)" "rule_vertex it c Fs (p, \<sigma> ! p)" if p: "p < cond_arity c" for p
  proof -
    have "consistent_vertex Ss (index_literals (cond_arity c) (filter (overapproximates 1) (cond_static c))) (p, \<sigma> ! p)"
      by (rule consistent_vertex_complete [OF I p]) (use hold(1) over in auto)
    then show "\<sigma> ! p \<in> set (graph_for c domains Ss p)" using assms(5) p by (simp add: graph_for_def kept_objects_def in_domains_def)
    have "consistent_vertex Fs (index_literals (cond_arity c) (filter (overapproximates 1) (cond_fluent c))) (p, \<sigma> ! p)"
      by (rule consistent_vertex_complete [OF J p]) (use hold(2) over in auto)
    moreover have "it_vertex it nc (p, \<sigma> ! p)" if "nc \<in> set (cond_numeric c)" for nc using assms(4) that hold(3) len p by (simp add: intervals_sound_def)
    ultimately show "rule_vertex it c Fs (p, \<sigma> ! p)" by (simp add: rule_vertex_def list_all_iff)
  qed
  moreover have "consistent_edge Ss (index_literals (cond_arity c) (filter (overapproximates 2) (cond_static c))) (p, \<sigma> ! p) (q, \<sigma> ! q)"
    "rule_edge it c Fs (p, \<sigma> ! p) (q, \<sigma> ! q)" if pq: "p < q" "q < cond_arity c" for p q
  proof -
    have p: "p < cond_arity c" "p \<noteq> q" using pq by simp_all
    show "consistent_edge Ss (index_literals (cond_arity c) (filter (overapproximates 2) (cond_static c))) (p, \<sigma> ! p) (q, \<sigma> ! q)"
      by (rule consistent_edge_complete [OF I p(1) pq(2) p(2)]) (use hold(1) over in auto)
    have "consistent_edge Fs (index_literals (cond_arity c) (filter (overapproximates 2) (cond_fluent c))) (p, \<sigma> ! p) (q, \<sigma> ! q)"
      by (rule consistent_edge_complete [OF J p(1) pq(2) p(2)]) (use hold(2) over in auto)
    moreover have "it_edge it nc (p, \<sigma> ! p) (q, \<sigma> ! q)" if "nc \<in> set (cond_numeric c)" for nc using assms(4) that hold(3) len pq by (simp add: intervals_sound_def)
    ultimately show "rule_edge it c Fs (p, \<sigma> ! p) (q, \<sigma> ! q)" by (simp add: rule_edge_def list_all_iff)
  qed
  ultimately show ?thesis using len by (simp add: rule_clique_def)
qed

text \<open>A literal holds when it is ground, rechecked, or decided by a vertex or by an edge; for static and fluent literals alike.\<close>

lemma literal_settled:
  assumes "sets_hold preds n Ss S" "\<forall>lit \<in> set lits. literal_ok k (arities_of preds) n lit" "\<forall>p < k. \<sigma> ! p < n" "lit \<in> set lits" "settled_literal k lit"
    and "(\<forall>p. Param p \<notin> set (ll_terms lit)) \<Longrightarrow> literal_holds S \<sigma> lit" "kpkc_arity lit > conflicting_limit k \<Longrightarrow> literal_holds S \<sigma> lit"
    and "\<And>p. p < k \<Longrightarrow> overapproximates 1 lit \<Longrightarrow> Param p \<in> set (ll_terms lit) \<Longrightarrow> consistent_vertex Ss (index_literals k (filter (overapproximates 1) lits)) (p, \<sigma> ! p)"
    and "\<And>p q. p < q \<Longrightarrow> q < k \<Longrightarrow> overapproximates 2 lit \<Longrightarrow> Param p \<in> set (ll_terms lit) \<Longrightarrow> Param q \<in> set (ll_terms lit) \<Longrightarrow>
      consistent_edge Ss (index_literals k (filter (overapproximates 2) lits)) (p, \<sigma> ! p) (q, \<sigma> ! q)"
  shows "literal_holds S \<sigma> lit"
proof (cases "\<exists>p. Param p \<in> set (ll_terms lit)")
  case True
  then obtain p where p: "Param p \<in> set (ll_terms lit)" by blast
  have lit: "literal_ok k (arities_of preds) n lit" using assms(2,4) by simp
  then have pk: "\<And>p. Param p \<in> set (ll_terms lit) \<Longrightarrow> p < k" and len: "length (ll_terms lit) = ll_arity lit" by (simp_all add: literal_ok_def)
  note I = rule_index_context [OF assms(1-3)]
  have pos: "ll_arity lit \<noteq> 0" using length_pos_if_in_set [OF p] len by simp
  have "conflicting_limit k < ll_arity lit \<or> ll_arity lit = 1 \<or> ll_arity lit = 2 \<and> k \<noteq> 1"
    using pos unfolding conflicting_limit_def by (cases "k = 1") (simp_all, linarith+)
  then consider "conflicting_limit k < ll_arity lit" | "ll_arity lit = 1" | "ll_arity lit = 2" "k \<noteq> 1" by blast
  then show ?thesis
  proof cases
    case 1
    then show ?thesis using assms(7) by (simp add: kpkc_arity_def)
  next
    case 2
    then have o: "overapproximates 1 lit" by (simp add: overapproximates_def kpkc_arity_def)
    show ?thesis using consistent_vertex_decides [OF I pk [OF p] assms(8) [OF pk [OF p] o p], of lit] assms(4) o p 2 by simp
  next
    case 3
    then consider p q where "p < q" "Param p \<in> set (ll_terms lit)" "Param q \<in> set (ll_terms lit)" | ob where "ll_polarity lit" "Obj ob \<in> set (ll_terms lit)"
      using assms(5) p by (auto simp: settled_literal_def)
    then show ?thesis
    proof cases
      case (1 p q)
      have o: "overapproximates 2 lit" using 3 by (simp add: overapproximates_def kpkc_arity_def)
      show ?thesis using consistent_edge_decides [OF I 1(1) pk [OF 1(3)] assms(9) [OF 1(1) pk [OF 1(3)] o 1(2,3)], of lit] assms(4) o 1 3 by simp
    next
      case (2 ob)
      have o: "overapproximates 1 lit" using 3 2 by (simp add: overapproximates_def kpkc_arity_def)
      show ?thesis using consistent_vertex_decides [OF I pk [OF p] assms(8) [OF pk [OF p] o p], of lit] assms(4) o p 2 3 by auto
    qed
  qed
qed (use assms(6) in blast)

lemma rule_clique_sound:
  assumes "rule_context spreds fpreds n c domains" "sets_hold spreds n Ss S" "sets_hold fpreds n Fs F" "intervals_decide it fv c" "settled c"
    and "rule_clique it c domains Ss Fs \<sigma>" "valid_binding fv S F [] (nullary c)" "valid_binding fv S F \<sigma> (conflicting (conflicting_limit (cond_arity c)) c)"
  shows "valid_binding fv S F \<sigma> c"
proof -
  have c: "condition_ok (arities_of spreds) (arities_of fpreds) n c" and d: "rule_domains_ok c domains n" using assms(1) by (simp_all add: rule_context_def)
  have len: "length \<sigma> = cond_arity c" and less: "\<forall>p < cond_arity c. \<sigma> ! p < n"
    using assms(6) in_domains_less [OF d rule_clique_in_domains [OF assms(6)]] by (simp_all add: rule_clique_def)
  have ok: "\<forall>lit \<in> set (cond_static c). literal_ok (cond_arity c) (arities_of spreds) n lit"
    "\<forall>lit \<in> set (cond_fluent c). literal_ok (cond_arity c) (arities_of fpreds) n lit"
    "\<forall>nc \<in> set (cond_numeric c). \<forall>p \<in> set (constraint_parameters nc). p < cond_arity c" using c by (simp_all add: condition_ok_def)
  have V: "valid_binding fv S F \<sigma> (nullary c)" using assms(7) valid_nullary by blast
  note R = assms(6) [unfolded rule_clique_def]
  note O = condition_ok_overapproximation [OF c]
  have U: "rule_vertex it c Fs (p, \<sigma> ! p)" if "p < cond_arity c" "runtime_unary (condition_vdg (overapproximation 1 c)) p" for p using R that by blast
  have E: "consistent_edge Ss (index_literals (cond_arity c) (cond_static (overapproximation 2 c))) (p, \<sigma> ! p) (q, \<sigma> ! q)"
    if "p < q" "q < cond_arity c" "has_dependency (condition_vdg (overapproximation 2 c)) p q" for p q using R that by blast
  have B: "rule_edge it c Fs (p, \<sigma> ! p) (q, \<sigma> ! q)"
    if "p < q" "q < cond_arity c" "has_dependency (condition_vdg (overapproximation 2 c)) p q" "runtime_binary (condition_vdg (overapproximation 2 c)) p q" for p q
    using R that by blast
  have dep: "has_dependency (condition_vdg (overapproximation 2 c)) p q" if "lit \<in> set (cond_static c) \<union> set (cond_fluent c)" "overapproximates 2 lit" "p < q" "q < cond_arity c"
    "Param p \<in> set (ll_terms lit)" "Param q \<in> set (ll_terms lit)" for lit p q
    using that condition_dependency_iff [OF O, of p 2 q] by auto
  have "literal_holds S \<sigma> lit" if lit: "lit \<in> set (cond_static c)" for lit
  proof (rule literal_settled [OF assms(2) ok(1) less lit])
    show "settled_literal (cond_arity c) lit" using assms(5) lit by (simp add: settled_def)
    show "literal_holds S \<sigma> lit" if "\<forall>p. Param p \<notin> set (ll_terms lit)"
      using V lit that by (simp add: valid_binding_def nullary_def list_all_iff parameter_arity_zero)
    show "literal_holds S \<sigma> lit" if "kpkc_arity lit > conflicting_limit (cond_arity c)"
      using assms(8) lit that by (simp add: valid_binding_def conflicting_def list_all_iff)
    show "consistent_vertex Ss (index_literals (cond_arity c) (filter (overapproximates 1) (cond_static c))) (p, \<sigma> ! p)" if "p < cond_arity c" for p
      using R that by (simp add: graph_for_def kept_objects_def)
    show "consistent_edge Ss (index_literals (cond_arity c) (filter (overapproximates 2) (cond_static c))) (p, \<sigma> ! p) (q, \<sigma> ! q)"
      if "p < q" "q < cond_arity c" "overapproximates 2 lit" "Param p \<in> set (ll_terms lit)" "Param q \<in> set (ll_terms lit)" for p q
      using E [OF that(1,2)] dep [of lit p q] that lit by simp
  qed
  moreover have "literal_holds F \<sigma> lit" if lit: "lit \<in> set (cond_fluent c)" for lit
  proof (rule literal_settled [OF assms(3) ok(2) less lit])
    show "settled_literal (cond_arity c) lit" using assms(5) lit by (simp add: settled_def)
    show "literal_holds F \<sigma> lit" if "\<forall>p. Param p \<notin> set (ll_terms lit)"
      using V lit that by (simp add: valid_binding_def nullary_def list_all_iff parameter_arity_zero)
    show "literal_holds F \<sigma> lit" if "kpkc_arity lit > conflicting_limit (cond_arity c)"
      using assms(8) lit that by (simp add: valid_binding_def conflicting_def list_all_iff)
    show "consistent_vertex Fs (index_literals (cond_arity c) (filter (overapproximates 1) (cond_fluent c))) (p, \<sigma> ! p)"
      if "p < cond_arity c" "overapproximates 1 lit" "Param p \<in> set (ll_terms lit)" for p
    proof -
      have "runtime_unary (condition_vdg (overapproximation 1 c)) p" using runtime_unary_iff [OF O, of 1 p] that lit by auto
      then show ?thesis using U [OF that(1)] by (simp add: rule_vertex_def)
    qed
    show "consistent_edge Fs (index_literals (cond_arity c) (filter (overapproximates 2) (cond_fluent c))) (p, \<sigma> ! p) (q, \<sigma> ! q)"
      if "p < q" "q < cond_arity c" "overapproximates 2 lit" "Param p \<in> set (ll_terms lit)" "Param q \<in> set (ll_terms lit)" for p q
    proof -
      have "runtime_binary (condition_vdg (overapproximation 2 c)) p q" using runtime_binary_iff [OF O, of p 2 q] that lit by auto
      then show ?thesis using B [OF that(1,2)] dep [of lit p q] that lit by (simp add: rule_edge_def)
    qed
  qed
  moreover have "constraint_holds fv \<sigma> nc" if nc: "nc \<in> set (cond_numeric c)" for nc
  proof -
    let ?ps = "constraint_parameters nc"
    have ka: "constraint_kpkc_arity nc = length ?ps" by (simp add: constraint_kpkc_arity_eq constraint_parameter_arity_def)
    consider "?ps = []" | "constraint_kpkc_arity nc > conflicting_limit (cond_arity c)" | "?ps \<noteq> []" "constraint_kpkc_arity nc \<le> conflicting_limit (cond_arity c)" by linarith
    then show ?thesis
    proof cases
      case 1
      then show ?thesis using V nc by (simp add: valid_binding_def nullary_def list_all_iff constraint_parameter_arity_def)
    next
      case 2
      then show ?thesis using assms(8) nc by (simp add: valid_binding_def conflicting_def list_all_iff)
    next
      case 3
      have "it_vertex it nc (p, \<sigma> ! p)" if p: "p \<in> set ?ps" for p
      proof -
        have pk: "p < cond_arity c" using ok(3) nc p by blast
        have o: "nc \<in> set (cond_numeric (overapproximation 1 c))" using nc 3(1) by (auto simp: ka Suc_le_eq)
        then have "runtime_unary (condition_vdg (overapproximation 1 c)) p" using runtime_unary_iff [OF O, of 1 p] p by blast
        then show ?thesis using U [OF pk] o by (simp add: rule_vertex_def list_all_iff)
      qed
      moreover have "it_edge it nc (p, \<sigma> ! p) (q, \<sigma> ! q)" if pq: "p \<in> set ?ps" "q \<in> set ?ps" "p < q" for p q
      proof -
        have k: "p < cond_arity c" "q < cond_arity c" using ok(3) nc pq by blast+
        have "card {p, q} \<le> card (set ?ps)" using pq by (intro card_mono) auto
        then have "2 \<le> length ?ps" using pq(3) distinct_card [OF distinct_constraint_parameters, of nc] by simp
        then have o: "nc \<in> set (cond_numeric (overapproximation 2 c))" using nc by (simp add: ka)
        then have "runtime_binary (condition_vdg (overapproximation 2 c)) p q" "has_dependency (condition_vdg (overapproximation 2 c)) p q"
          using runtime_binary_iff [OF O, of p 2 q] condition_dependency_iff [OF O, of p 2 q] pq k by auto
        then show ?thesis using B [OF pq(3) k(2)] o by (simp add: rule_edge_def list_all_iff)
      qed
      ultimately show ?thesis using assms(4) nc len 3 unfolding intervals_decide_def by blast
    qed
  qed
  ultimately show ?thesis by (simp add: valid_binding_def list_all_iff)
qed

section \<open>Over a growing set of facts\<close>

definition kpkc_tests :: "interval_tests \<Rightarrow> static_graph \<Rightarrow> rule_step \<Rightarrow> kpkc_step" where
  "kpkc_tests it sg s = ((sg_vertex_test it sg (fst s), sg_edge_test it sg (fst s)), snd s)"

lemma rule_run_eq:
  "rule_run it sg steps K = (let (found, K') = dk_run (sg_unary_vdg sg) (sg_binary_vdg sg) (sg_matrix sg) (map (kpkc_tests it sg) steps) K
     in (map (create_general_binding sg) found, K'))"
proof (induction steps arbitrary: K)
  case (Cons s steps)
  obtain Fs rows sol where s: "s = (Fs, rows, sol)" by (metis prod.exhaust)
  show ?case by (simp add: s Cons kpkc_tests_def set_next_assignment_sets_def new_bindings_def Let_def split_beta)
qed simp

lemma tests_weaker_facts:
  assumes "sg_ok c domains Ss sg" "rule_context spreds fpreds n c domains" "sets_hold fpreds n Fs F" "sets_hold fpreds n Fs' F'" "grows_for (cond_fluent c) F F'"
  shows "tests_weaker (sg_layout sg) (sg_vertex_test it sg Fs, sg_edge_test it sg Fs) (sg_vertex_test it sg Fs', sg_edge_test it sg Fs')"
proof -
  note G = sg_okD [OF assms(1)]
  have c: "condition_ok (arities_of spreds) (arities_of fpreds) n c" and d: "rule_domains_ok c domains n" using assms(2) by (simp_all add: rule_context_def)
  have less: "graph_for c domains Ss p ! b < n" if "p < cond_arity c" "b < length (graph_for c domains Ss p)" for p b
    using d that(1) subsetD [OF graph_for_subset nth_mem [OF that(2)]] by (simp add: rule_domains_ok_def)
  have g: "grows_for (filter (overapproximates k) (cond_fluent c)) F F'" for k using assms(5) by (simp add: grows_for_def)
  have ok: "\<forall>lit \<in> set (filter (overapproximates k) (cond_fluent c)). literal_ok (cond_arity c) (arities_of fpreds) n lit" for k
    using c by (simp add: condition_ok_def)
  have v: "sg_vertex_test it sg Fs' (vertex_at (sg_layout sg) p b)"
    if "p < cond_arity c" "b < length (graph_for c domains Ss p)" "sg_vertex_test it sg Fs (vertex_at (sg_layout sg) p b)" for p b
    using that(3) consistent_vertex_mono [OF assms(3,4) g ok that(1) less [OF that(1,2)]]
    unfolding sg_vertex_test_def G(13) [OF that(1,2)] G(5) by simp
  have e: "sg_edge_test it sg Fs' (vertex_at (sg_layout sg) p b) (vertex_at (sg_layout sg) q d)"
    if pq: "p < q" "q < cond_arity c" and b: "b < length (graph_for c domains Ss p)" and d: "d < length (graph_for c domains Ss q)"
      and t: "sg_edge_test it sg Fs (vertex_at (sg_layout sg) p b) (vertex_at (sg_layout sg) q d)" for p q b d
  proof -
    have p: "p < cond_arity c" using pq by simp
    show ?thesis
      using t consistent_edge_mono [OF assms(3,4) g ok pq less [OF p b] less [OF pq(2) d]]
      unfolding sg_edge_test_def G(13) [OF p b] G(13) [OF pq(2) d] G(6) by simp
  qed
  show ?thesis unfolding tests_weaker_def G(11) fst_conv snd_conv using v e G(12) by simp
qed

definition facts_hold :: "schema \<Rightarrow> nat \<Rightarrow> condition \<Rightarrow> rule_step list \<Rightarrow> facts list \<Rightarrow> bool" where
  "facts_hold fpreds n c steps facts \<longleftrightarrow> list_all2 (\<lambda>s F. sets_hold fpreds n (fst s) F) steps facts \<and> sorted_wrt (grows_for (cond_fluent c)) facts
     \<and> (\<forall>s \<in> set steps. length (fst (snd s)) = cond_arity c \<and> length (snd (snd s)) = cond_arity c)"

lemma facts_hold_grow:
  assumes "sg_ok c domains Ss sg" "rule_context spreds fpreds n c domains" "facts_hold fpreds n c steps facts"
  shows "tests_grow (sg_layout sg) (map (kpkc_tests it sg) steps)" "workspaces_ok (sg_layout sg) (map (kpkc_tests it sg) steps)"
proof -
  have len: "length facts = length steps" using assms(3) by (auto simp: facts_hold_def dest: list_all2_lengthD)
  have hold: "sets_hold fpreds n (fst (steps ! i)) (facts ! i)" if "i < length steps" for i
    using assms(3) that by (simp add: facts_hold_def list_all2_conv_all_nth)
  have "tests_weaker (sg_layout sg) (fst (kpkc_tests it sg (steps ! i))) (fst (kpkc_tests it sg (steps ! j)))" if "i < j" "j < length steps" for i j
    using tests_weaker_facts [OF assms(1,2) hold hold, of i j it] that assms(3) len
    by (simp add: kpkc_tests_def facts_hold_def sorted_wrt_iff_nth_less)
  then show "tests_grow (sg_layout sg) (map (kpkc_tests it sg) steps)" by (simp add: tests_grow_def sorted_wrt_iff_nth_less)
  show "workspaces_ok (sg_layout sg) (map (kpkc_tests it sg) steps)"
    using assms(3) sg_okD(11) [OF assms(1)] by (auto simp: workspaces_ok_def facts_hold_def kpkc_tests_def)
qed

lemma sg_layout_small:
  assumes "sg_ok c domains Ss sg" "rule_domains_ok c domains n" "n < uint_max" "cond_arity c < uint_max"
  shows "layout_small (sg_layout sg)"
proof -
  note G = sg_okD [OF assms(1)]
  have "length (graph_for c domains Ss p) \<le> n" if p: "p < cond_arity c" for p
  proof -
    have "distinct (graph_for c domains Ss p)" "set (graph_for c domains Ss p) \<subseteq> {..<n}"
      using assms(2) p graph_for_subset [of c domains Ss p] by (auto simp: graph_for_def kept_objects_def rule_domains_ok_def)
    then show ?thesis using card_mono [of "{..<n}" "set (graph_for c domains Ss p)"] distinct_card by fastforce
  qed
  then have "num_bits (infos (sg_layout sg) ! p) < uint_max" if "p < cond_arity c" for p using G(12) [OF that] assms(3) that le_less_trans by metis
  then show ?thesis using make_layout_ok(1) [OF G(7) G(8) [symmetric]] G(10,11) assms(4) by (simp add: layout_small_def)
qed

lemma rule_run_bindings:
  assumes "sg_ok c domains Ss sg" "rule_context spreds fpreds n c domains" "n < uint_max" "cond_arity c < uint_max"
    and "K = sg_delta_kpkc sg \<or> K = dk_reset (snd (rule_run it sg earlier (sg_delta_kpkc sg)))" "steps \<noteq> []" "facts_hold fpreds n c steps facts"
  shows "distinct (fst (rule_run it sg steps K))" "set (fst (rule_run it sg steps K)) = {\<sigma>. rule_clique it c domains Ss (fst (last steps)) \<sigma>}"
proof -
  note G = sg_okD [OF assms(1)]
  have d: "rule_domains_ok c domains n" and ok: "condition_ok (arities_of spreds) (arities_of fpreds) n c" using assms(2) by (simp_all add: rule_context_def)
  let ?run = "dk_run (sg_unary_vdg sg) (sg_binary_vdg sg) (sg_matrix sg)" and ?lo = "sg_layout sg" and ?steps = "map (kpkc_tests it sg) steps"
  have K: "K = dk_init ?lo (sg_binary_vdg sg) \<or> K = dk_reset (snd (?run (map (kpkc_tests it sg) earlier) (dk_init ?lo (sg_binary_vdg sg))))"
    using assms(5) unfolding rule_run_eq sg_delta_kpkc_def G(10) by (simp add: split_beta Let_def)
  have sym: "vdg_symmetric (lk ?lo) (sg_binary_vdg sg)"
    using make_vdg_symmetric [OF condition_elements_wf [OF condition_ok_overapproximation [OF ok]]] unfolding G(4,11) condition_vdg_elements by simp
  have t: "fst (fst (last ?steps)) = sg_vertex_test it sg (fst (last steps))" "snd (fst (last ?steps)) = sg_edge_test it sg (fst (last steps))"
    using assms(6) by (simp_all add: last_map kpkc_tests_def)
  have s: "?steps \<noteq> []" using assms(6) by simp
  note R = dk_run_correct [OF sg_layout_small [OF assms(1) d assms(3,4)] sym K s facts_hold_grow(2,1) [OF assms(1,2,7)]]
  have set: "set (fst (?run ?steps K)) = {solution ?lo bs | bs. sg_clique it sg (fst (last steps)) bs}" using R(2) unfolding t sg_clique_def .
  note B = sg_cliques_bindings [OF assms(1) d, of it "fst (last steps)"]
  have r: "fst (rule_run it sg steps K) = map (create_general_binding sg) (fst (?run ?steps K))" by (simp add: rule_run_eq split_beta Let_def)
  show "distinct (fst (rule_run it sg steps K))" unfolding r distinct_map set using R(1) B(2) by blast
  show "set (fst (rule_run it sg steps K)) = {\<sigma>. rule_clique it c domains Ss (fst (last steps)) \<sigma>}" unfolding r set_map set by (rule B(1))
qed

lemma valid_binding_parts: "valid_binding fv S F \<sigma> c \<Longrightarrow> valid_binding fv S F [] (nullary c) \<and> valid_binding fv S F \<sigma> (conflicting k c)"
  unfolding valid_nullary [of fv S F c \<sigma>] by (simp add: valid_binding_def nullary_def conflicting_def list_all_iff)

lemma facts_hold_last: "facts_hold fpreds n c steps facts \<Longrightarrow> steps \<noteq> [] \<Longrightarrow> sets_hold fpreds n (fst (last steps)) (last facts)"
  unfolding facts_hold_def by (metis last_conv_nth length_greater_0_conv list_all2_conv_all_nth diff_less zero_less_one)

section \<open>Correctness\<close>

text \<open>
  C36. No binding of a rule is lost: over every sequence of iterations in which facts are added and the predicates of negated
  literals do not change, each binding over the parameter domains that satisfies the body under the last facts is found exactly
  once, by one of the iterations.
\<close>

theorem rule_bindings_complete:
  assumes "rule_context spreds fpreds n c domains" "n < uint_max" "cond_arity c < uint_max" "sets_hold spreds n Ss S"
    and "sg = make_static_graph c domains n Ss" "K = sg_delta_kpkc sg \<or> K = dk_reset (snd (rule_run it sg earlier (sg_delta_kpkc sg)))"
    and "steps \<noteq> []" "facts_hold fpreds n c steps facts" "intervals_sound it fv c"
  shows "distinct (fst (rule_run it sg steps K))
    \<and> {\<sigma>. in_domains c domains \<sigma> \<and> valid_binding fv S (last facts) \<sigma> c} \<subseteq> set (fst (rule_run it sg steps K))"
proof -
  have sg: "sg_ok c domains Ss sg" unfolding assms(5) by (rule make_static_graph_ok)
  note R = rule_run_bindings [OF sg assms(1-3,6-8)]
  show ?thesis
    using R(1) rule_clique_complete [OF assms(1,4) facts_hold_last [OF assms(8,7)] assms(9)] unfolding R(2) by blast
qed

text \<open>
  C37. When every literal and constraint is settled, the bindings that remain after the recheck of the nullary and the conflicting
  part of the body are exactly those that satisfy the body: the consistency graph together with the recheck decides the rule.
\<close>

theorem rule_bindings_exact:
  assumes "rule_context spreds fpreds n c domains" "n < uint_max" "cond_arity c < uint_max" "sets_hold spreds n Ss S"
    and "sg = make_static_graph c domains n Ss" "K = sg_delta_kpkc sg \<or> K = dk_reset (snd (rule_run it sg earlier (sg_delta_kpkc sg)))"
    and "steps \<noteq> []" "facts_hold fpreds n c steps facts" "intervals_sound it fv c" "intervals_decide it fv c" "settled c"
  shows "{\<sigma> \<in> set (fst (rule_run it sg steps K)). valid_binding fv S (last facts) [] (nullary c)
        \<and> valid_binding fv S (last facts) \<sigma> (conflicting (conflicting_limit (cond_arity c)) c)}
    = {\<sigma>. in_domains c domains \<sigma> \<and> valid_binding fv S (last facts) \<sigma> c}"
proof -
  have sg: "sg_ok c domains Ss sg" unfolding assms(5) by (rule make_static_graph_ok)
  note R = rule_run_bindings [OF sg assms(1-3,6-8)] and F = facts_hold_last [OF assms(8,7)]
  show ?thesis
    using rule_clique_complete [OF assms(1,4) F assms(9)] rule_clique_sound [OF assms(1,4) F assms(10,11)] rule_clique_in_domains valid_binding_parts [of fv S "last facts" _ c]
    unfolding R(2) by blast
qed

section \<open>Examples\<close>

text \<open>
  Two objects; a static predicate \<open>s(x)\<close> and fluent predicates \<open>e(x, y)\<close> and \<open>b(x)\<close>. The body is \<open>s(x), e(x, y), not b(y)\<close>.
\<close>

definition body_example_static :: schema where
  "body_example_static = [(1, [[0, 1]])]"

definition body_example_fluent :: schema where
  "body_example_fluent = [(2, [[0, 1], [0, 1]]), (1, [[0, 1]])]"

definition make_literal :: "nat \<Rightarrow> bool \<Rightarrow> tterm list \<Rightarrow> lifted_literal" where
  "make_literal p polarity ts = \<lparr>ll_predicate = p, ll_arity = length ts, ll_polarity = polarity, ll_terms = ts\<rparr>"

definition body_example_body :: condition where
  "body_example_body = \<lparr>cond_arity = 2, cond_static = [make_literal 0 True [Param 0]], cond_fluent = [make_literal 0 True [Param 0, Param 1], make_literal 1 False [Param 1]], cond_numeric = []\<rparr>"

definition no_tests :: interval_tests where
  "no_tests = \<lparr>it_vertex = \<lambda>nc v. True, it_edge = \<lambda>nc v w. True\<rparr>"

definition body_example_step :: "(nat \<times> nat list) list \<Rightarrow> rule_step" where
  "body_example_step as = (pss_insert_all as (pss_init body_example_fluent 2), [{}, {}], [0, 0])"

definition body_example_graph :: static_graph where
  "body_example_graph = make_static_graph body_example_body [[0, 1], [0, 1]] 2 (pss_insert_all [(0, [0])] (pss_init body_example_static 2))"

lemma body_example_schemas: "schema_ok body_example_static 2" "schema_ok body_example_fluent 2"
  by (simp_all add: schema_ok_def body_example_static_def body_example_fluent_def domains_ok_def)

definition body_example_facts :: "(nat \<times> nat list) list list" where
  "body_example_facts = [[(1, [0]), (0, [0, 1])], [(1, [0]), (0, [0, 1]), (0, [1, 1]), (0, [0, 0])]]"

definition body_example_steps :: "rule_step list" where
  "body_example_steps = map body_example_step body_example_facts"

lemma body_example_static_hold: "sets_hold body_example_static 2 (pss_insert_all [(0, [0])] (pss_init body_example_static 2)) {(0, [0])}"
  using sets_hold_insert_all [OF sets_hold_init [OF body_example_schemas(1)], of "[(0, [0])]"]
  by (simp add: legal_atom_def legal_binding_def body_example_static_def)

lemma body_example_legal: "as \<in> set body_example_facts \<Longrightarrow> a \<in> set as \<Longrightarrow> legal_atom body_example_fluent a"
  by (auto simp: body_example_facts_def legal_atom_def legal_binding_def body_example_fluent_def less_Suc_eq numeral_2_eq_2)

lemma body_example_fluent_hold: "as \<in> set body_example_facts \<Longrightarrow> sets_hold body_example_fluent 2 (fst (body_example_step as)) (set as)"
  using sets_hold_insert_all [OF sets_hold_init [OF body_example_schemas(2)], of as] body_example_legal by (auto simp: body_example_step_def)

lemma body_example_facts_hold: "facts_hold body_example_fluent 2 body_example_body body_example_steps (map set body_example_facts)"
proof -
  have "list_all2 (\<lambda>s F. sets_hold body_example_fluent 2 (fst s) F) body_example_steps (map set body_example_facts)"
    using body_example_fluent_hold by (simp add: body_example_steps_def list_all2_conv_all_nth)
  moreover have "sorted_wrt (grows_for (cond_fluent body_example_body)) (map set body_example_facts)"
    by (auto simp: body_example_facts_def grows_for_def body_example_body_def make_literal_def)
  ultimately show ?thesis by (auto simp: facts_hold_def body_example_steps_def body_example_step_def body_example_body_def)
qed

lemma body_example_context: "rule_context body_example_static body_example_fluent 2 body_example_body [[0, 1], [0, 1]]"
  by (auto simp: rule_context_def condition_ok_def literal_ok_def rule_domains_ok_def body_example_body_def make_literal_def arities_of_def body_example_static_def
      body_example_fluent_def less_Suc_eq numeral_2_eq_2)

lemma body_example_settled: "settled body_example_body"
  by (force simp: settled_def settled_literal_def body_example_body_def make_literal_def)

lemma body_example_valid:
  "in_domains body_example_body [[0, 1], [0, 1]] [0, 1] \<and> valid_binding fv {(0, [0])} (last (map set body_example_facts)) [0, 1] body_example_body"
  by (auto simp: in_domains_def valid_binding_def body_example_body_def make_literal_def literal_holds_def ground_atom_of_def body_example_facts_def less_Suc_eq numeral_2_eq_2)

lemma body_example_intervals: "intervals_sound no_tests fv body_example_body" "intervals_decide no_tests fv body_example_body"
  by (simp_all add: intervals_sound_def intervals_decide_def no_tests_def body_example_body_def)

lemma body_example_sizes: "2 < uint_max" "cond_arity body_example_body < uint_max" "body_example_steps \<noteq> []"
  by (simp_all add: uint_max_def body_example_body_def body_example_steps_def body_example_facts_def)

lemma rule_bindings_complete_witness:
  "distinct (fst (rule_run no_tests body_example_graph body_example_steps (sg_delta_kpkc body_example_graph)))
   \<and> [0, 1] \<in> set (fst (rule_run no_tests body_example_graph body_example_steps (sg_delta_kpkc body_example_graph)))"
  using rule_bindings_complete [OF body_example_context body_example_sizes(1,2) body_example_static_hold body_example_graph_def disjI1 [OF refl] body_example_sizes(3)
      body_example_facts_hold body_example_intervals(1)] body_example_valid by blast

lemma rule_bindings_exact_witness:
  "{\<sigma> \<in> set (fst (rule_run no_tests body_example_graph body_example_steps (sg_delta_kpkc body_example_graph))).
      valid_binding (undefined :: nat numeric_values) {(0, [0])} (last (map set body_example_facts)) [] (nullary body_example_body)
      \<and> valid_binding (undefined :: nat numeric_values) {(0, [0])} (last (map set body_example_facts)) \<sigma> (conflicting (conflicting_limit (cond_arity body_example_body)) body_example_body)}
    = {\<sigma>. in_domains body_example_body [[0, 1], [0, 1]] \<sigma> \<and> valid_binding (undefined :: nat numeric_values) {(0, [0])} (last (map set body_example_facts)) \<sigma> body_example_body}"
  by (rule rule_bindings_exact [OF body_example_context body_example_sizes(1,2) body_example_static_hold body_example_graph_def disjI1 [OF refl] body_example_sizes(3)
      body_example_facts_hold body_example_intervals body_example_settled])

text \<open>
  C38. Without that condition the recheck is not enough: in a rule of two parameters, a literal of two terms with the same
  parameter twice is looked at by neither the graph nor the recheck. With the facts \<open>e(0, 1)\<close> and \<open>e(1, 0)\<close> the binding \<open>x = 0\<close>,
  \<open>y = 0\<close> is found for the body \<open>e(x, x), v(y)\<close> and passes the recheck, although the body does not hold.
\<close>

definition unsettled_body :: condition where
  "unsettled_body = \<lparr>cond_arity = 2, cond_static = [], cond_fluent = [make_literal 0 True [Param 0, Param 0], make_literal 1 True [Param 1]], cond_numeric = []\<rparr>"

definition unsettled_facts :: "(nat \<times> nat list) list" where
  "unsettled_facts = [(0, [0, 1]), (0, [1, 0]), (1, [0])]"

theorem rule_bindings_unsettled:
  "let sg = make_static_graph unsettled_body [[0, 1], [0, 1]] 2 (pss_init body_example_static 2)
   in [0, 0] \<in> set (fst (rule_run no_tests sg [body_example_step unsettled_facts] (sg_delta_kpkc sg)))
     \<and> valid_binding fv {} (set unsettled_facts) [] (nullary unsettled_body)
     \<and> valid_binding fv {} (set unsettled_facts) [0, 0] (conflicting (conflicting_limit 2) unsettled_body)
     \<and> \<not> valid_binding fv {} (set unsettled_facts) [0, 0] unsettled_body"
proof -
  let ?sg = "make_static_graph unsettled_body [[0, 1], [0, 1]] 2 (pss_init body_example_static 2)"
  have ctxt: "rule_context body_example_static body_example_fluent 2 unsettled_body [[0, 1], [0, 1]]"
    by (auto simp: rule_context_def condition_ok_def literal_ok_def rule_domains_ok_def unsettled_body_def make_literal_def arities_of_def body_example_fluent_def less_Suc_eq numeral_2_eq_2)
  have hold: "sets_hold body_example_fluent 2 (fst (body_example_step unsettled_facts)) (set unsettled_facts)"
    using sets_hold_insert_all [OF sets_hold_init [OF body_example_schemas(2)], of unsettled_facts]
    by (auto simp: body_example_step_def unsettled_facts_def legal_atom_def legal_binding_def body_example_fluent_def less_Suc_eq numeral_2_eq_2)
  have facts: "facts_hold body_example_fluent 2 unsettled_body [body_example_step unsettled_facts] [set unsettled_facts]"
    using hold by (simp add: facts_hold_def body_example_step_def unsettled_body_def)
  have sizes: "2 < uint_max" "cond_arity unsettled_body < uint_max" by (simp_all add: uint_max_def unsettled_body_def)
  have found: "set (fst (rule_run no_tests ?sg [body_example_step unsettled_facts] (sg_delta_kpkc ?sg)))
      = {\<sigma>. rule_clique no_tests unsettled_body [[0, 1], [0, 1]] (pss_init body_example_static 2) (fst (body_example_step unsettled_facts)) \<sigma>}"
    using rule_run_bindings(2) [OF make_static_graph_ok ctxt sizes disjI1 [OF refl] _ facts] by simp
  have "rule_clique no_tests unsettled_body [[0, 1], [0, 1]] (pss_init body_example_static 2) (fst (body_example_step unsettled_facts)) [0, 0]"
  proof -
    have "graph_for unsettled_body [[0, 1], [0, 1]] (pss_init body_example_static 2) 0 = [0, 1] \<and> graph_for unsettled_body [[0, 1], [0, 1]] (pss_init body_example_static 2) 1 = [0, 1]
        \<and> rule_vertex no_tests unsettled_body (fst (body_example_step unsettled_facts)) (0, 0) \<and> rule_vertex no_tests unsettled_body (fst (body_example_step unsettled_facts)) (1, 0)
        \<and> \<not> has_dependency (condition_vdg (overapproximation 2 unsettled_body)) 0 1"
      by code_simp
    then show ?thesis by (auto simp: rule_clique_def unsettled_body_def less_Suc_eq numeral_2_eq_2)
  qed
  with found have "[0, 0] \<in> set (fst (rule_run no_tests ?sg [body_example_step unsettled_facts] (sg_delta_kpkc ?sg)))" by blast
  then show ?thesis
    by (auto simp: Let_def valid_binding_def nullary_def conflicting_def conflicting_limit_def unsettled_body_def make_literal_def literal_holds_def
        ground_atom_of_def unsettled_facts_def parameter_arity_def collect_parameters_def kpkc_arity_def)
qed

end
