(* ===== verification/Rule_Execution.thy ===== *)
theory Rule_Execution
  imports Rule_Grounding "HOL-Library.Extended_Nat"
begin

text \<open>
  One execution of a rule in \<^verbatim>\<open>src/datalog/bottom_up.cpp\<close>: its pending bindings and its new bindings are turned into heads with
  annotations (\<^verbatim>\<open>process_pending\<close>, \<^verbatim>\<open>generate\<close>), and the annotation policies of \<^verbatim>\<open>src/datalog/policies/annotation.cpp\<close>. A cost is
  an extended natural number, infinity for the largest value of the type, and costs do not overflow. A rule has one worker: the
  workers of the threads that execute a rule have different bindings, and all of them are processed. The enumeration of cliques
  starts with an empty workspace; its contents do not matter.
\<close>

section \<open>Annotations\<close>

datatype aggregation = Sum_Aggregation | Max_Aggregation

datatype annotation_policy = No_Annotation | Annotation aggregation

fun aggregate :: "aggregation \<Rightarrow> enat \<Rightarrow> enat \<Rightarrow> enat" where
  "aggregate Sum_Aggregation acc x = acc + x"
| "aggregate Max_Aggregation acc x = max acc x"

type_synonym atom = "nat \<times> nat list"

record rule =
  rl_predicate :: nat
  rl_terms :: "tterm list"
  rl_body :: condition
  rl_cost :: nat

definition ground_head :: "rule \<Rightarrow> nat list \<Rightarrow> atom" where
  "ground_head r \<sigma> = (rl_predicate r, map (ground_term \<sigma>) (rl_terms r))"

definition witness_literals :: "rule \<Rightarrow> lifted_literal list" where
  "witness_literals r = filter ll_polarity (cond_fluent (rl_body r))"

record witness =
  wi_rule :: nat
  wi_binding :: "nat list"
  wi_cost :: enat

type_synonym or_annotations = "atom \<Rightarrow> enat"

type_synonym and_annotations = "atom \<Rightarrow> witness option"

definition fetch_current_best_cost :: "atom \<Rightarrow> and_annotations \<Rightarrow> enat" where
  "fetch_current_best_cost head am = (case am head of None \<Rightarrow> \<infinity> | Some w \<Rightarrow> wi_cost w)"

fun ground_body_cost :: "aggregation \<Rightarrow> enat \<Rightarrow> enat \<Rightarrow> or_annotations \<Rightarrow> nat list \<Rightarrow> enat \<Rightarrow> lifted_literal list \<Rightarrow> enat option" where
  "ground_body_cost agg best rule_cost oa \<sigma> acc [] = Some acc"
| "ground_body_cost agg best rule_cost oa \<sigma> acc (l # ls) =
     (let acc = aggregate agg acc (oa (ground_atom_of \<sigma> l))
      in if best \<le> acc + rule_cost then None else ground_body_cost agg best rule_cost oa \<sigma> acc ls)"

definition try_ground_better_witness :: "aggregation \<Rightarrow> enat \<Rightarrow> nat \<Rightarrow> rule \<Rightarrow> or_annotations \<Rightarrow> nat list \<Rightarrow> witness option" where
  "try_ground_better_witness agg best i r oa \<sigma> =
     (if best \<le> enat (rl_cost r) then None
      else case ground_body_cost agg best (enat (rl_cost r)) oa \<sigma> 0 (witness_literals r) of None \<Rightarrow> None
        | Some c \<Rightarrow> Some \<lparr>wi_rule = i, wi_binding = \<sigma>, wi_cost = c + enat (rl_cost r)\<rparr>)"

definition and_update :: "annotation_policy \<Rightarrow> or_annotations \<Rightarrow> nat \<Rightarrow> nat \<Rightarrow> rule \<Rightarrow> nat list \<Rightarrow> and_annotations \<Rightarrow> and_annotations" where
  "and_update pol oa current i r \<sigma> am =
     (case pol of No_Annotation \<Rightarrow> am
      | Annotation agg \<Rightarrow>
          let head = ground_head r \<sigma>; best = min (oa head) (fetch_current_best_cost head am)
          in if best \<le> enat (current + rl_cost r) then am
             else case try_ground_better_witness agg best i r oa \<sigma> of None \<Rightarrow> am | Some w \<Rightarrow> am(head \<mapsto> w))"

section \<open>Execution\<close>

record const_rule =
  cr_index :: nat
  cr_rule :: rule
  cr_nullary :: condition
  cr_conflicting :: condition
  cr_graph :: static_graph

definition make_const_rule :: "nat \<Rightarrow> rule \<Rightarrow> nat list list \<Rightarrow> nat \<Rightarrow> pred_sets \<Rightarrow> const_rule" where
  "make_const_rule i r domains n static_sets = \<lparr>cr_index = i, cr_rule = r, cr_nullary = nullary (rl_body r),
     cr_conflicting = conflicting (conflicting_limit (cond_arity (rl_body r))) (rl_body r),
     cr_graph = make_static_graph (rl_body r) domains n static_sets\<rparr>"

record rule_state =
  rs_kpkc :: delta_kpkc
  rs_pending :: "(nat list \<times> applicability_check) list"
  rs_heads :: "atom list"
  rs_annotations :: and_annotations

definition rule_state_init :: "const_rule \<Rightarrow> rule_state" where
  "rule_state_init cr = \<lparr>rs_kpkc = sg_delta_kpkc (cr_graph cr), rs_pending = [], rs_heads = [], rs_annotations = (\<lambda>a. None)\<rparr>"

definition rule_state_clear :: "rule_state \<Rightarrow> rule_state" where
  "rule_state_clear st = \<lparr>rs_kpkc = dk_reset (rs_kpkc st), rs_pending = [], rs_heads = [], rs_annotations = (\<lambda>a. None)\<rparr>"

definition clear_iteration :: "rule_state \<Rightarrow> rule_state" where
  "clear_iteration st = st\<lparr>rs_heads := [], rs_annotations := (\<lambda>a. None)\<rparr>"

text \<open>What the rules of an iteration read: the values of functions, the static facts, the fluent facts with their assignment sets and annotations, and the current cost.\<close>

record 'v iteration =
  it_policy :: annotation_policy
  it_tests :: interval_tests
  it_values :: "'v numeric_values"
  it_static :: facts
  it_facts :: facts
  it_sets :: pred_sets
  it_costs :: or_annotations
  it_current :: nat

definition generate_head :: "'v iteration \<Rightarrow> const_rule \<Rightarrow> nat list \<Rightarrow> rule_state \<Rightarrow> rule_state" where
  "generate_head I cr \<sigma> st = st\<lparr>rs_heads := List.insert (ground_head (cr_rule cr) \<sigma>) (rs_heads st),
     rs_annotations := and_update (it_policy I) (it_costs I) (it_current I) (cr_index cr) (cr_rule cr) \<sigma> (rs_annotations st)\<rparr>"

definition generate_nullary_case :: "'v iteration \<Rightarrow> const_rule \<Rightarrow> rule_state \<Rightarrow> rule_state" where
  "generate_nullary_case I cr st =
     (if valid_binding (it_values I) (it_static I) (it_facts I) [] (cr_nullary cr)
         \<and> valid_binding (it_values I) (it_static I) (it_facts I) [] (rl_body (cr_rule cr))
      then generate_head I cr [] st else st)"

definition process_clique :: "'v iteration \<Rightarrow> const_rule \<Rightarrow> nat list \<Rightarrow> rule_state \<Rightarrow> rule_state" where
  "process_clique I cr \<sigma> st =
     (if ground_head (cr_rule cr) \<sigma> \<in> it_facts I then st
      else let ac = check_initialize (it_static I) \<sigma> (cr_nullary cr) (cr_conflicting cr) in
        if \<not> check_static ac then st
        else let (ok, ac) = check_dynamic (it_values I) (it_facts I) \<sigma> (cr_nullary cr) (cr_conflicting cr) ac in
          if ok then generate_head I cr \<sigma> st else st\<lparr>rs_pending := rs_pending st @ [(\<sigma>, ac)]\<rparr>)"

definition generate_general_case :: "'v iteration \<Rightarrow> const_rule \<Rightarrow> rule_state \<Rightarrow> rule_state" where
  "generate_general_case I cr st =
     (let k = cond_arity (rl_body (cr_rule cr))
      in fold (process_clique I cr) (new_bindings (cr_graph cr) (rs_kpkc st) (replicate k {}) (replicate k 0)) st)"

definition generate :: "'v iteration \<Rightarrow> const_rule \<Rightarrow> rule_state \<Rightarrow> rule_state" where
  "generate I cr st = (if cond_arity (rl_body (cr_rule cr)) = 0 then generate_nullary_case I cr st else generate_general_case I cr st)"

fun process_pending :: "'v iteration \<Rightarrow> const_rule \<Rightarrow> (nat list \<times> applicability_check) list \<Rightarrow> rule_state \<Rightarrow> rule_state" where
  "process_pending I cr [] st = st"
| "process_pending I cr ((\<sigma>, ac) # ps) st =
     (if ground_head (cr_rule cr) \<sigma> \<in> it_facts I then process_pending I cr ps st
      else let (ok, ac) = check_dynamic (it_values I) (it_facts I) \<sigma> (cr_nullary cr) (cr_conflicting cr) ac in
        if ok then process_pending I cr ps (generate_head I cr \<sigma> st)
        else process_pending I cr ps (st\<lparr>rs_pending := rs_pending st @ [(\<sigma>, ac)]\<rparr>))"

definition execute_rule :: "'v iteration \<Rightarrow> const_rule \<Rightarrow> rule_state \<Rightarrow> rule_state" where
  "execute_rule I cr st =
     (let st = clear_iteration st;
          st = st\<lparr>rs_kpkc := set_next_assignment_sets (it_tests I) (cr_graph cr) (it_sets I) (rs_kpkc st)\<rparr>;
          st = process_pending I cr (rs_pending st) (st\<lparr>rs_pending := []\<rparr>)
      in generate I cr st)"

section \<open>The cost of a binding\<close>

text \<open>The cost that a rule gives to its head when the positive fluent literals of its body have the given costs.\<close>

definition body_cost :: "aggregation \<Rightarrow> (lifted_literal \<Rightarrow> enat) \<Rightarrow> lifted_literal list \<Rightarrow> enat \<Rightarrow> enat" where
  "body_cost agg \<kappa> ls acc = fold (\<lambda>l acc. aggregate agg acc (\<kappa> l)) ls acc"

definition derivation_cost :: "annotation_policy \<Rightarrow> rule \<Rightarrow> (lifted_literal \<Rightarrow> enat) \<Rightarrow> enat" where
  "derivation_cost pol r \<kappa> = (case pol of No_Annotation \<Rightarrow> 0 | Annotation agg \<Rightarrow> body_cost agg \<kappa> (witness_literals r) 0 + enat (rl_cost r))"

definition binding_cost :: "annotation_policy \<Rightarrow> or_annotations \<Rightarrow> rule \<Rightarrow> nat list \<Rightarrow> enat" where
  "binding_cost pol oa r \<sigma> = derivation_cost pol r (\<lambda>l. oa (ground_atom_of \<sigma> l))"

lemma aggregate_ge: "acc \<le> aggregate agg acc x" "x \<le> aggregate agg acc x"
  by (cases agg; simp)+

lemma aggregate_mono: "acc \<le> acc' \<Longrightarrow> x \<le> y \<Longrightarrow> aggregate agg acc x \<le> aggregate agg acc' y"
  by (cases agg) (auto simp: add_mono max.coboundedI1 max.coboundedI2)

lemma body_cost_simps [simp]: "body_cost agg \<kappa> [] acc = acc" "body_cost agg \<kappa> (l # ls) acc = body_cost agg \<kappa> ls (aggregate agg acc (\<kappa> l))"
  by (simp_all add: body_cost_def)

lemma body_cost_ge: "acc \<le> body_cost agg \<kappa> ls acc"
  by (induction ls arbitrary: acc) (auto intro: order_trans [OF aggregate_ge(1)])

lemma body_cost_ge_member: "l \<in> set ls \<Longrightarrow> \<kappa> l \<le> body_cost agg \<kappa> ls acc"
proof (induction ls arbitrary: acc)
  case (Cons l' ls)
  show ?case
  proof (cases "l = l'")
    case True
    then show ?thesis using order_trans [OF aggregate_ge(2) body_cost_ge] by simp
  next
    case False
    then show ?thesis using Cons by simp
  qed
qed simp

lemma body_cost_mono: "acc \<le> acc' \<Longrightarrow> (\<And>l. l \<in> set ls \<Longrightarrow> \<kappa> l \<le> \<kappa>' l) \<Longrightarrow> body_cost agg \<kappa> ls acc \<le> body_cost agg \<kappa>' ls acc'"
proof (induction ls arbitrary: acc acc')
  case (Cons l ls)
  then have "aggregate agg acc (\<kappa> l) \<le> aggregate agg acc' (\<kappa>' l)" by (intro aggregate_mono) simp_all
  then show ?case using Cons by simp
qed simp

lemma body_cost_finite: "acc \<noteq> \<infinity> \<Longrightarrow> (\<And>l. l \<in> set ls \<Longrightarrow> \<kappa> l \<noteq> \<infinity>) \<Longrightarrow> body_cost agg \<kappa> ls acc \<noteq> \<infinity>"
proof (induction ls arbitrary: acc)
  case (Cons l ls)
  then have "aggregate agg acc (\<kappa> l) \<noteq> \<infinity>" by (cases agg) (auto simp: max_def plus_eq_infty_iff_enat)
  then show ?case using Cons by simp
qed simp

lemma derivation_cost_ge: "l \<in> set (witness_literals r) \<Longrightarrow> pol \<noteq> No_Annotation \<Longrightarrow> \<kappa> l + enat (rl_cost r) \<le> derivation_cost pol r \<kappa>"
  using body_cost_ge_member by (auto simp: derivation_cost_def add_right_mono split: annotation_policy.splits)

lemma derivation_cost_mono: "(\<And>l. l \<in> set (witness_literals r) \<Longrightarrow> \<kappa> l \<le> \<kappa>' l) \<Longrightarrow> derivation_cost pol r \<kappa> \<le> derivation_cost pol r \<kappa>'"
  using body_cost_mono [of 0 0 "witness_literals r" \<kappa> \<kappa>'] by (auto simp: derivation_cost_def add_right_mono split: annotation_policy.splits)

lemma derivation_cost_cong: "(\<And>l. l \<in> set (witness_literals r) \<Longrightarrow> \<kappa> l = \<kappa>' l) \<Longrightarrow> derivation_cost pol r \<kappa> = derivation_cost pol r \<kappa>'"
  by (intro antisym derivation_cost_mono) simp_all

lemma derivation_cost_finite: "(\<And>l. l \<in> set (witness_literals r) \<Longrightarrow> \<kappa> l \<noteq> \<infinity>) \<Longrightarrow> derivation_cost pol r \<kappa> \<noteq> \<infinity>"
  using body_cost_finite [of 0 "witness_literals r" \<kappa>] by (cases pol) (simp_all add: derivation_cost_def plus_eq_infty_iff_enat del: not_infinity_eq)

lemma ground_body_cost_eq:
  "ground_body_cost agg best rc oa \<sigma> acc ls =
     (let c = body_cost agg (\<lambda>l. oa (ground_atom_of \<sigma> l)) ls acc in if ls \<noteq> [] \<and> best \<le> c + rc then None else Some c)"
proof (induction ls arbitrary: acc)
  case (Cons l ls)
  let ?acc = "aggregate agg acc (oa (ground_atom_of \<sigma> l))"
  show ?case
  proof (cases "best \<le> ?acc + rc")
    case True
    then have "best \<le> body_cost agg (\<lambda>l. oa (ground_atom_of \<sigma> l)) ls ?acc + rc"
      using body_cost_ge [of ?acc agg "\<lambda>l. oa (ground_atom_of \<sigma> l)" ls] by (meson add_right_mono order_trans)
    then show ?thesis using True by (simp add: Let_def)
  next
    case False
    then show ?thesis using Cons [of ?acc] by (cases "ls = []") (simp_all add: Let_def)
  qed
qed simp

lemma and_update_eq:
  assumes "best = min (oa (ground_head r \<sigma>)) (fetch_current_best_cost (ground_head r \<sigma>) am)"
    and "best \<le> enat (current + rl_cost r) \<Longrightarrow> best \<le> binding_cost (Annotation agg) oa r \<sigma>"
  shows "and_update (Annotation agg) oa current i r \<sigma> am = (if best \<le> binding_cost (Annotation agg) oa r \<sigma> then am
     else am(ground_head r \<sigma> \<mapsto> \<lparr>wi_rule = i, wi_binding = \<sigma>, wi_cost = binding_cost (Annotation agg) oa r \<sigma>\<rparr>))"
proof (cases "best \<le> enat (rl_cost r)")
  case True
  then have "best \<le> binding_cost (Annotation agg) oa r \<sigma>" unfolding binding_cost_def derivation_cost_def annotation_policy.simps by (metis add.commute le_iff_add order_trans)
  then show ?thesis using True assms(1) by (simp add: and_update_def Let_def try_ground_better_witness_def)
next
  case False
  then have "witness_literals r = [] \<Longrightarrow> \<not> best \<le> binding_cost (Annotation agg) oa r \<sigma>" by (simp add: binding_cost_def derivation_cost_def)
  then show ?thesis
    using False assms unfolding and_update_def annotation_policy.simps Let_def try_ground_better_witness_def ground_body_cost_eq binding_cost_def derivation_cost_def by auto
qed

text \<open>The annotations after several bindings: the least cost of a head is that of the cheapest binding, if it improves on the annotation that was there before.\<close>

lemma and_updates_spec:
  assumes "\<forall>\<sigma> \<in> set \<sigma>s. enat (current + rl_cost r) \<le> binding_cost (Annotation agg) oa r \<sigma> \<or> oa (ground_head r \<sigma>) \<le> binding_cost (Annotation agg) oa r \<sigma>"
    and "am' = fold (and_update (Annotation agg) oa current i r) \<sigma>s am"
  shows "x \<le> min (oa a) (fetch_current_best_cost a am') \<longleftrightarrow>
      x \<le> min (oa a) (fetch_current_best_cost a am) \<and> (\<forall>\<sigma> \<in> set \<sigma>s. ground_head r \<sigma> = a \<longrightarrow> x \<le> binding_cost (Annotation agg) oa r \<sigma>)"
    and "am' a = Some w \<Longrightarrow> am a = Some w \<or> wi_cost w < oa a
      \<and> (\<exists>\<sigma> \<in> set \<sigma>s. ground_head r \<sigma> = a \<and> w = \<lparr>wi_rule = i, wi_binding = \<sigma>, wi_cost = binding_cost (Annotation agg) oa r \<sigma>\<rparr>)"
proof -
  let ?c = "binding_cost (Annotation agg) oa r"
  have "(x \<le> min (oa a) (fetch_current_best_cost a am') \<longleftrightarrow>
      x \<le> min (oa a) (fetch_current_best_cost a am) \<and> (\<forall>\<sigma> \<in> set \<sigma>s. ground_head r \<sigma> = a \<longrightarrow> x \<le> ?c \<sigma>))
    \<and> (am' a = Some w \<longrightarrow> am a = Some w \<or> wi_cost w < oa a \<and> (\<exists>\<sigma> \<in> set \<sigma>s. ground_head r \<sigma> = a \<and> w = \<lparr>wi_rule = i, wi_binding = \<sigma>, wi_cost = ?c \<sigma>\<rparr>))"
    using assms
  proof (induction \<sigma>s arbitrary: am)
    case (Cons \<sigma> \<sigma>s)
    let ?best = "min (oa (ground_head r \<sigma>)) (fetch_current_best_cost (ground_head r \<sigma>) am)" and ?am = "and_update (Annotation agg) oa current i r \<sigma> am"
    have "?best \<le> ?c \<sigma>" if "?best \<le> enat (current + rl_cost r)" using Cons.prems(1) that by (auto intro: order_trans min.coboundedI1)
    then have up: "?am = (if ?best \<le> ?c \<sigma> then am else am(ground_head r \<sigma> \<mapsto> \<lparr>wi_rule = i, wi_binding = \<sigma>, wi_cost = ?c \<sigma>\<rparr>))"
      by (rule and_update_eq [OF refl])
    have "x \<le> min (oa a) (fetch_current_best_cost a ?am) \<longleftrightarrow> x \<le> min (oa a) (fetch_current_best_cost a am) \<and> (ground_head r \<sigma> = a \<longrightarrow> x \<le> ?c \<sigma>)"
    proof (cases "a = ground_head r \<sigma> \<and> \<not> ?best \<le> ?c \<sigma>")
      case True
      then show ?thesis unfolding up by (auto simp: fetch_current_best_cost_def min_le_iff_disj not_le intro: order_trans [OF _ less_imp_le])
    next
      case False
      then have "fetch_current_best_cost a ?am = fetch_current_best_cost a am" unfolding up by (auto simp: fetch_current_best_cost_def)
      then show ?thesis using False order_trans [of x ?best "?c \<sigma>"] by auto
    qed
    moreover have "am a = Some w \<or> wi_cost w < oa a \<and> ground_head r \<sigma> = a \<and> w = \<lparr>wi_rule = i, wi_binding = \<sigma>, wi_cost = ?c \<sigma>\<rparr>" if "?am a = Some w"
    proof (cases "a = ground_head r \<sigma> \<and> \<not> ?best \<le> ?c \<sigma>")
      case True
      then have "?am = am(a \<mapsto> \<lparr>wi_rule = i, wi_binding = \<sigma>, wi_cost = ?c \<sigma>\<rparr>)" unfolding up by presburger
      moreover have "?c \<sigma> < oa a" using True by (simp add: not_le)
      ultimately show ?thesis using True that by auto
    next
      case False
      then show ?thesis using that unfolding up by (auto split: if_splits)
    qed
    moreover note IH = Cons.IH [of ?am]
    moreover have "am' = fold (and_update (Annotation agg) oa current i r) \<sigma>s ?am" using Cons.prems(2) by simp
    ultimately show ?case using Cons.prems(1) unfolding set_simps ball_simps bex_simps by blast
  qed simp
  then show "x \<le> min (oa a) (fetch_current_best_cost a am') \<longleftrightarrow>
      x \<le> min (oa a) (fetch_current_best_cost a am) \<and> (\<forall>\<sigma> \<in> set \<sigma>s. ground_head r \<sigma> = a \<longrightarrow> x \<le> ?c \<sigma>)"
    "am' a = Some w \<Longrightarrow> am a = Some w \<or> wi_cost w < oa a \<and> (\<exists>\<sigma> \<in> set \<sigma>s. ground_head r \<sigma> = a \<and> w = \<lparr>wi_rule = i, wi_binding = \<sigma>, wi_cost = ?c \<sigma>\<rparr>)"
    by blast+
qed

section \<open>The bindings of an execution\<close>

text \<open>Pending and new bindings are treated alike: each is dropped, emitted or kept.\<close>

definition dynamic_check :: "'v iteration \<Rightarrow> const_rule \<Rightarrow> nat list \<times> applicability_check \<Rightarrow> bool \<times> applicability_check" where
  "dynamic_check I cr p = check_dynamic (it_values I) (it_facts I) (fst p) (cr_nullary cr) (cr_conflicting cr) (snd p)"

definition open_head :: "'v iteration \<Rightarrow> const_rule \<Rightarrow> nat list \<Rightarrow> bool" where
  "open_head I cr \<sigma> \<longleftrightarrow> ground_head (cr_rule cr) \<sigma> \<notin> it_facts I"

definition emitted :: "'v iteration \<Rightarrow> const_rule \<Rightarrow> (nat list \<times> applicability_check) list \<Rightarrow> nat list list" where
  "emitted I cr ps = map fst (filter (\<lambda>p. open_head I cr (fst p) \<and> fst (dynamic_check I cr p)) ps)"

definition kept :: "'v iteration \<Rightarrow> const_rule \<Rightarrow> (nat list \<times> applicability_check) list \<Rightarrow> (nat list \<times> applicability_check) list" where
  "kept I cr ps = map (\<lambda>p. (fst p, snd (dynamic_check I cr p))) (filter (\<lambda>p. open_head I cr (fst p) \<and> \<not> fst (dynamic_check I cr p)) ps)"

definition fresh_checks :: "'v iteration \<Rightarrow> const_rule \<Rightarrow> nat list list \<Rightarrow> (nat list \<times> applicability_check) list" where
  "fresh_checks I cr \<sigma>s = filter (\<lambda>p. check_static (snd p)) (map (\<lambda>\<sigma>. (\<sigma>, check_initialize (it_static I) \<sigma> (cr_nullary cr) (cr_conflicting cr))) \<sigma>s)"

definition emit :: "'v iteration \<Rightarrow> const_rule \<Rightarrow> nat list list \<Rightarrow> rule_state \<Rightarrow> rule_state" where
  "emit I cr \<sigma>s st = fold (generate_head I cr) \<sigma>s st"

lemma emit_simps [simp]: "emit I cr [] st = st" "emit I cr (\<sigma> # \<sigma>s) st = emit I cr \<sigma>s (generate_head I cr \<sigma> st)"
  "emit I cr (\<sigma>s @ \<tau>s) st = emit I cr \<tau>s (emit I cr \<sigma>s st)"
  by (simp_all add: emit_def)

lemma emit_other [simp]: "rs_kpkc (emit I cr \<sigma>s st) = rs_kpkc st" "rs_pending (emit I cr \<sigma>s st) = rs_pending st"
  by (induction \<sigma>s arbitrary: st) (simp_all add: generate_head_def)

lemma generate_head_pending: "generate_head I cr \<sigma> (st\<lparr>rs_pending := ps\<rparr>) = (generate_head I cr \<sigma> st)\<lparr>rs_pending := ps\<rparr>"
  by (cases st) (simp add: generate_head_def)

lemma emit_pending: "emit I cr \<sigma>s (st\<lparr>rs_pending := ps\<rparr>) = (emit I cr \<sigma>s st)\<lparr>rs_pending := ps\<rparr>"
  by (induction \<sigma>s arbitrary: st) (simp_all add: generate_head_pending)

lemma process_pending_eq: "process_pending I cr ps st = (emit I cr (emitted I cr ps) st)\<lparr>rs_pending := rs_pending st @ kept I cr ps\<rparr>"
proof (induction ps arbitrary: st)
  case (Cons p ps)
  obtain \<sigma> ac where p: "p = (\<sigma>, ac)" by force
  show ?case
    by (cases "open_head I cr \<sigma>"; cases "fst (dynamic_check I cr (\<sigma>, ac))")
      (simp_all add: p Cons emitted_def kept_def open_head_def dynamic_check_def split_beta Let_def emit_pending, simp_all add: generate_head_def)
qed (simp add: emitted_def kept_def)

lemma process_pending_append: "process_pending I cr (ps @ qs) st = process_pending I cr qs (process_pending I cr ps st)"
  by (induction ps arbitrary: st) (auto simp: split_beta Let_def)

lemma clear_iteration_simps [simp]: "rs_kpkc (clear_iteration st) = rs_kpkc st" "rs_pending (clear_iteration st) = rs_pending st"
  by (simp_all add: clear_iteration_def)

lemma process_cliques_eq: "fold (process_clique I cr) \<sigma>s st = process_pending I cr (fresh_checks I cr \<sigma>s) st"
proof (induction \<sigma>s arbitrary: st)
  case (Cons \<sigma> \<sigma>s)
  then show ?case by (simp add: process_clique_def fresh_checks_def split_beta Let_def)
qed (simp add: fresh_checks_def)

lemma execute_rule_general:
  assumes "cond_arity (rl_body (cr_rule cr)) = k" "k \<noteq> 0" "K = set_next_assignment_sets (it_tests I) (cr_graph cr) (it_sets I) (rs_kpkc st)"
    and "ps = rs_pending st @ fresh_checks I cr (new_bindings (cr_graph cr) K (replicate k {}) (replicate k 0))"
  shows "execute_rule I cr st = emit I cr (emitted I cr ps) \<lparr>rs_kpkc = K, rs_pending = kept I cr ps, rs_heads = [], rs_annotations = (\<lambda>a. None)\<rparr>"
proof -
  have 1: "clear_iteration st\<lparr>rs_kpkc := K, rs_pending := []\<rparr> = \<lparr>rs_kpkc = K, rs_pending = [], rs_heads = [], rs_annotations = (\<lambda>a. None)\<rparr>" for K
    by (cases st) (simp add: clear_iteration_def)
  have 2: "rs_kpkc (process_pending I cr qs st') = rs_kpkc st'" for qs st' by (simp add: process_pending_eq)
  have "execute_rule I cr st = process_pending I cr ps \<lparr>rs_kpkc = K, rs_pending = [], rs_heads = [], rs_annotations = (\<lambda>a. None)\<rparr>"
    using assms(1,2) unfolding execute_rule_def generate_def generate_general_case_def Let_def assms(4) process_pending_append process_cliques_eq
    by (simp add: 1 2 assms(3))
  then show ?thesis by (simp add: process_pending_eq emit_pending [symmetric])
qed

lemma execute_rule_nullary:
  assumes "cond_arity (rl_body (cr_rule cr)) = 0" "rs_pending st = []" "cr_nullary cr = nullary (rl_body (cr_rule cr))"
  shows "execute_rule I cr st = emit I cr (if valid_binding (it_values I) (it_static I) (it_facts I) [] (rl_body (cr_rule cr)) then [[]] else [])
    \<lparr>rs_kpkc = set_next_assignment_sets (it_tests I) (cr_graph cr) (it_sets I) (rs_kpkc st), rs_pending = [], rs_heads = [], rs_annotations = (\<lambda>a. None)\<rparr>"
  using assms valid_binding_parts [of "it_values I" "it_static I" "it_facts I" "[]" "rl_body (cr_rule cr)"]
  by (cases st) (auto simp: execute_rule_def generate_def generate_nullary_case_def clear_iteration_def)

lemma set_emitted: "set (emitted I cr ps) = {\<sigma>. \<exists>ac. (\<sigma>, ac) \<in> set ps \<and> open_head I cr \<sigma> \<and> fst (dynamic_check I cr (\<sigma>, ac))}"
  by (force simp: emitted_def)

lemma set_kept: "(\<sigma>, ac') \<in> set (kept I cr ps) \<longleftrightarrow> (\<exists>ac. (\<sigma>, ac) \<in> set ps \<and> open_head I cr \<sigma> \<and> \<not> fst (dynamic_check I cr (\<sigma>, ac)) \<and> ac' = snd (dynamic_check I cr (\<sigma>, ac)))"
  by (force simp: kept_def)

lemma set_fresh_checks: "(\<sigma>, ac) \<in> set (fresh_checks I cr \<sigma>s) \<longleftrightarrow>
    \<sigma> \<in> set \<sigma>s \<and> ac = check_initialize (it_static I) \<sigma> (cr_nullary cr) (cr_conflicting cr) \<and> check_static ac"
  by (force simp: fresh_checks_def)

end
