(* ===== verification/Rule_Steps.thy ===== *)
theory Rule_Steps
  imports Rule_Execution
begin

text \<open>
  What one execution of a rule does: after the facts have grown, it emits the bindings that have come to satisfy the body, apart from
  those whose head is already a fact. The rest of the body is remembered in the consistency graph and in the pending bindings.
\<close>

section \<open>The state of a rule\<close>

text \<open>What does not change during a solve: the predicates with their domains, the number of objects, the static facts and the numeric values.\<close>

record 'v setting =
  se_spreds :: schema
  se_fpreds :: schema
  se_objects :: nat
  se_static_sets :: pred_sets
  se_static :: facts
  se_values :: "'v numeric_values"
  se_tests :: interval_tests

definition setting_ok :: "'v setting \<Rightarrow> bool" where
  "setting_ok E \<longleftrightarrow> sets_hold (se_spreds E) (se_objects E) (se_static_sets E) (se_static E) \<and> se_objects E < uint_max"

definition rule_fits :: "'v setting \<Rightarrow> nat list list \<Rightarrow> const_rule \<Rightarrow> bool" where
  "rule_fits E doms cr \<longleftrightarrow> cr = make_const_rule (cr_index cr) (cr_rule cr) doms (se_objects E) (se_static_sets E)
     \<and> rule_context (se_spreds E) (se_fpreds E) (se_objects E) (rl_body (cr_rule cr)) doms \<and> settled (rl_body (cr_rule cr))
     \<and> cond_arity (rl_body (cr_rule cr)) < uint_max \<and> intervals_sound (se_tests E) (se_values E) (rl_body (cr_rule cr))
     \<and> intervals_decide (se_tests E) (se_values E) (rl_body (cr_rule cr))"

text \<open>A binding satisfies the body of a rule.\<close>

definition fires :: "'v setting \<Rightarrow> nat list list \<Rightarrow> rule \<Rightarrow> facts \<Rightarrow> nat list \<Rightarrow> bool" where
  "fires E doms r F \<sigma> \<longleftrightarrow> in_domains (rl_body r) doms \<sigma> \<and> valid_binding (se_values E) (se_static E) F \<sigma> (rl_body r)"

definition fired :: "'v setting \<Rightarrow> nat list list \<Rightarrow> rule \<Rightarrow> facts option \<Rightarrow> nat list \<Rightarrow> bool" where
  "fired E doms r F0 \<sigma> \<longleftrightarrow> (\<exists>G. F0 = Some G \<and> fires E doms r G \<sigma>)"

text \<open>The bindings of the cliques that have been enumerated.\<close>

definition clique_bindings :: "const_rule \<Rightarrow> delta_kpkc \<Rightarrow> nat list set" where
  "clique_bindings cr K = (if dk_iteration K = 0 then {} else create_general_binding (cr_graph cr) ` k_cliques (sg_layout (cr_graph cr)) (dk_full K))"

definition graph_at :: "'v setting \<Rightarrow> nat list list \<Rightarrow> const_rule \<Rightarrow> pred_sets \<Rightarrow> delta_kpkc \<Rightarrow> bool" where
  "graph_at E doms cr Fs K \<longleftrightarrow> dk_iteration K \<noteq> 0 \<and> dk_ok (sg_layout (cr_graph cr)) (sg_binary_vdg (cr_graph cr)) K
     \<and> passes_tests (sg_layout (cr_graph cr)) (sg_unary_vdg (cr_graph cr)) (sg_binary_vdg (cr_graph cr)) (sg_matrix (cr_graph cr))
         (sg_vertex_test (se_tests E) (cr_graph cr) Fs) (sg_edge_test (se_tests E) (cr_graph cr) Fs) (dk_full K)
     \<and> clique_bindings cr K = {\<sigma>. rule_clique (se_tests E) (rl_body (cr_rule cr)) doms (se_static_sets E) Fs \<sigma>}"

definition graph_fresh :: "const_rule \<Rightarrow> delta_kpkc \<Rightarrow> bool" where
  "graph_fresh cr K \<longleftrightarrow> dk_ok (sg_layout (cr_graph cr)) (sg_binary_vdg (cr_graph cr)) K \<and> dk_iteration K = 0 \<and> is_empty_graph (sg_layout (cr_graph cr)) (dk_full K)"

definition statically_ok :: "'v setting \<Rightarrow> const_rule \<Rightarrow> nat list \<Rightarrow> bool" where
  "statically_ok E cr \<sigma> \<longleftrightarrow> check_static (check_initialize (se_static E) \<sigma> (cr_nullary cr) (cr_conflicting cr))"

definition pending_at :: "'v setting \<Rightarrow> nat list list \<Rightarrow> const_rule \<Rightarrow> facts \<Rightarrow> nat list set \<Rightarrow> (nat list \<times> applicability_check) list \<Rightarrow> bool" where
  "pending_at E doms cr F C ps \<longleftrightarrow>
     (\<forall>(\<sigma>, ac) \<in> set ps. \<sigma> \<in> C \<and> statically_ok E cr \<sigma> \<and> \<not> fires E doms (cr_rule cr) F \<sigma> \<and> ground_head (cr_rule cr) \<sigma> \<notin> F
        \<and> check_static ac \<and> check_ok (se_values E) (se_static E) F \<sigma> (cr_nullary cr) (cr_conflicting cr) ac)
   \<and> {\<sigma> \<in> C. statically_ok E cr \<sigma> \<and> \<not> fires E doms (cr_rule cr) F \<sigma> \<and> ground_head (cr_rule cr) \<sigma> \<notin> F} \<subseteq> fst ` set ps"

text \<open>The state of a rule after its last execution, with the facts that it read; there is none before the first.\<close>

definition rule_at :: "'v setting \<Rightarrow> nat list list \<Rightarrow> const_rule \<Rightarrow> facts option \<Rightarrow> rule_state \<Rightarrow> bool" where
  "rule_at E doms cr F0 st \<longleftrightarrow> (case F0 of None \<Rightarrow> graph_fresh cr (rs_kpkc st) \<and> rs_pending st = []
     | Some F \<Rightarrow> \<exists>Fs. sets_hold (se_fpreds E) (se_objects E) Fs F \<and> graph_at E doms cr Fs (rs_kpkc st)
         \<and> (if cond_arity (rl_body (cr_rule cr)) = 0 then rs_pending st = [] else pending_at E doms cr F (clique_bindings cr (rs_kpkc st)) (rs_pending st)))"

lemma rule_fitsD:
  assumes "rule_fits E doms cr"
  shows "cr_nullary cr = nullary (rl_body (cr_rule cr))"
    "cr_conflicting cr = conflicting (conflicting_limit (cond_arity (rl_body (cr_rule cr)))) (rl_body (cr_rule cr))"
    "sg_ok (rl_body (cr_rule cr)) doms (se_static_sets E) (cr_graph cr)"
    "cr_graph cr = make_static_graph (rl_body (cr_rule cr)) doms (se_objects E) (se_static_sets E)"
    "rule_context (se_spreds E) (se_fpreds E) (se_objects E) (rl_body (cr_rule cr)) doms" "settled (rl_body (cr_rule cr))"
    "cond_arity (rl_body (cr_rule cr)) < uint_max" "intervals_sound (se_tests E) (se_values E) (rl_body (cr_rule cr))"
    "intervals_decide (se_tests E) (se_values E) (rl_body (cr_rule cr))"
proof -
  have cr: "cr = make_const_rule (cr_index cr) (cr_rule cr) doms (se_objects E) (se_static_sets E)" using assms by (simp add: rule_fits_def)
  show "cr_nullary cr = nullary (rl_body (cr_rule cr))" "cr_conflicting cr = conflicting (conflicting_limit (cond_arity (rl_body (cr_rule cr)))) (rl_body (cr_rule cr))"
    "cr_graph cr = make_static_graph (rl_body (cr_rule cr)) doms (se_objects E) (se_static_sets E)"
    by (subst cr, simp add: make_const_rule_def)+
  then show "sg_ok (rl_body (cr_rule cr)) doms (se_static_sets E) (cr_graph cr)" using make_static_graph_ok by simp
qed (use assms in \<open>simp_all add: rule_fits_def\<close>)

section \<open>The graph\<close>

lemma graph_layout:
  assumes "setting_ok E" "rule_fits E doms cr"
  shows "layout_small (sg_layout (cr_graph cr))" "vdg_symmetric (lk (sg_layout (cr_graph cr))) (sg_binary_vdg (cr_graph cr))"
proof -
  note R = rule_fitsD [OF assms(2)] and G = sg_okD [OF rule_fitsD(3) [OF assms(2)]]
  have d: "rule_domains_ok (rl_body (cr_rule cr)) doms (se_objects E)" and c: "condition_ok (arities_of (se_spreds E)) (arities_of (se_fpreds E)) (se_objects E) (rl_body (cr_rule cr))"
    using R(5) by (simp_all add: rule_context_def)
  show "layout_small (sg_layout (cr_graph cr))" using sg_layout_small [OF R(3) d _ R(7)] assms(1) by (simp add: setting_ok_def)
  show "vdg_symmetric (lk (sg_layout (cr_graph cr))) (sg_binary_vdg (cr_graph cr))"
    using make_vdg_symmetric [OF condition_elements_wf [OF condition_ok_overapproximation [OF c]]] unfolding G(4,11) condition_vdg_elements by simp
qed

lemma graph_fresh_start:
  assumes "rule_fits E doms cr"
  shows "graph_fresh cr (sg_delta_kpkc (cr_graph cr))"
  using dk_init_ok sg_okD(10) [OF rule_fitsD(3) [OF assms]] by (simp add: graph_fresh_def sg_delta_kpkc_def)

lemma graph_fresh_reset: "dk_ok (sg_layout (cr_graph cr)) (sg_binary_vdg (cr_graph cr)) K \<Longrightarrow> graph_fresh cr (dk_reset K)"
  using dk_reset_ok by (simp add: graph_fresh_def)

text \<open>The next assignment sets: the cliques are those of the present facts, and the new ones are enumerated.\<close>

lemma graph_step:
  fixes cr :: const_rule and E :: "'v setting"
  defines "c \<equiv> rl_body (cr_rule cr)" and "k \<equiv> cond_arity (rl_body (cr_rule cr))"
  assumes E: "setting_ok E" and fits: "rule_fits E doms cr" and F: "sets_hold (se_fpreds E) (se_objects E) Fs F"
    and old: "graph_fresh cr K \<or> graph_at E doms cr Gs K \<and> sets_hold (se_fpreds E) (se_objects E) Gs G \<and> grows_for (cond_fluent c) G F"
    and K': "K' = set_next_assignment_sets (se_tests E) (cr_graph cr) Fs K"
  shows "graph_at E doms cr Fs K'" "clique_bindings cr K \<subseteq> clique_bindings cr K'"
    "set (new_bindings (cr_graph cr) K' (replicate k {}) (replicate k 0)) = clique_bindings cr K' - clique_bindings cr K"
    "distinct (new_bindings (cr_graph cr) K' (replicate k {}) (replicate k 0))"
proof -
  let ?sg = "cr_graph cr" and ?lo = "sg_layout (cr_graph cr)"
  let ?passes = "\<lambda>Fs. passes_tests ?lo (sg_unary_vdg ?sg) (sg_binary_vdg ?sg) (sg_matrix ?sg) (sg_vertex_test (se_tests E) ?sg Fs) (sg_edge_test (se_tests E) ?sg Fs)"
  note R = rule_fitsD [OF fits] and L = graph_layout [OF E fits]
  have ok: "dk_ok ?lo (sg_binary_vdg ?sg) K" using old by (auto simp: graph_fresh_def graph_at_def)
  have pass: "?passes Fs (dk_full K)"
  proof (cases "graph_fresh cr K")
    case True
    then show ?thesis by (simp add: graph_fresh_def empty_passes)
  next
    case False
    then have "?passes Gs (dk_full K)" "tests_weaker ?lo (sg_vertex_test (se_tests E) ?sg Gs, sg_edge_test (se_tests E) ?sg Gs) (sg_vertex_test (se_tests E) ?sg Fs, sg_edge_test (se_tests E) ?sg Fs)"
      using old tests_weaker_facts [OF R(3,5) _ F] by (auto simp: graph_at_def c_def)
    then show ?thesis using passes_tests_mono [OF dk_okD(3) [OF ok]] by blast
  qed
  note N = dk_next_stepped [OF L ok K' [unfolded set_next_assignment_sets_def]]
  have kc: "k_cliques ?lo (dk_full K') = {solution ?lo bs | bs. sg_clique (se_tests E) ?sg Fs bs}"
    unfolding k_cliques_def step_test_clique [OF N(2) pass] sg_clique_def ..
  have d: "rule_domains_ok c doms (se_objects E)" using R(5) by (simp add: rule_context_def c_def)
  note B = sg_cliques_bindings [OF R(3) d [unfolded c_def], of "se_tests E" Fs, folded kc]
  have cb: "clique_bindings cr K' = create_general_binding ?sg ` k_cliques ?lo (dk_full K')" using N(3) by (simp add: clique_bindings_def)
  show "graph_at E doms cr Fs K'" using N(1,3) step_passes [OF N(2) pass] cb B(1) by (simp add: graph_at_def)
  let ?found = "if dk_iteration K = 0 then {} else k_cliques ?lo (dk_full K)"
  have len: "length (replicate k ({} :: nat set)) = lk ?lo" "length (replicate k (0 :: nat)) = lk ?lo" using sg_okD(11) [OF R(3)] by (simp_all add: k_def)
  have S: "distinct (dk_new_k_cliques K' (replicate k {}) (replicate k 0)) \<and> set (dk_new_k_cliques K' (replicate k {}) (replicate k 0)) = k_cliques ?lo (dk_full K') - ?found
      \<and> ?found \<subseteq> k_cliques ?lo (dk_full K')"
    by (rule dk_step_found [OF L ok K' [unfolded set_next_assignment_sets_def] _ _ len]) simp_all
  have co: "clique_bindings cr K = create_general_binding ?sg ` ?found" by (simp add: clique_bindings_def)
  show "clique_bindings cr K \<subseteq> clique_bindings cr K'" unfolding cb co using S by blast
  have inj: "inj_on (create_general_binding ?sg) (k_cliques ?lo (dk_full K'))" using B(2) .
  show "set (new_bindings ?sg K' (replicate k {}) (replicate k 0)) = clique_bindings cr K' - clique_bindings cr K"
    unfolding cb co new_bindings_def set_map using S inj_on_image_set_diff [OF inj, of "k_cliques ?lo (dk_full K')" ?found] by auto
  show "distinct (new_bindings ?sg K' (replicate k {}) (replicate k 0))"
    unfolding new_bindings_def distinct_map using S inj by (auto intro: inj_on_subset)
qed


section \<open>An execution\<close>

lemma keeps_literals_grows: "grows_for (cond_fluent c) G F \<Longrightarrow> set (cond_fluent c') \<subseteq> set (cond_fluent c) \<Longrightarrow> keeps_literals c' G F"
  unfolding keeps_literals_def literal_holds_def grows_for_def by (metis ground_atom_of_def subsetD)

lemma fires_grows: "grows_for (cond_fluent (rl_body r)) G F \<Longrightarrow> fires E doms r G \<sigma> \<Longrightarrow> fires E doms r F \<sigma>"
  using keeps_literals_grows [of "rl_body r" G F "rl_body r"] by (simp add: fires_def valid_binding_def keeps_literals_def list_all_iff)

lemma fires_clique:
  assumes "setting_ok E" "rule_fits E doms cr" "sets_hold (se_fpreds E) (se_objects E) Fs F" "fires E doms (cr_rule cr) F \<sigma>"
  shows "rule_clique (se_tests E) (rl_body (cr_rule cr)) doms (se_static_sets E) Fs \<sigma>"
proof -
  note R = rule_fitsD [OF assms(2)]
  have "sets_hold (se_spreds E) (se_objects E) (se_static_sets E) (se_static E)" using assms(1) by (simp add: setting_ok_def)
  then show ?thesis using rule_clique_complete [OF R(5) _ assms(3) R(8)] assms(4) unfolding fires_def by blast
qed

lemma fires_static:
  assumes "rule_fits E doms cr" "fires E doms (cr_rule cr) F \<sigma>"
  shows "statically_ok E cr \<sigma>"
  using check_dynamic_spec(1) [of "se_values E" "se_static E" F \<sigma> "cr_nullary cr" "cr_conflicting cr", OF check_ok_initialize]
    valid_binding_parts [of "se_values E" "se_static E" F \<sigma> "rl_body (cr_rule cr)"] assms(2)
  unfolding statically_ok_def fires_def rule_fitsD(1,2) [OF assms(1)] by blast

definition reads :: "'v setting \<Rightarrow> facts \<Rightarrow> pred_sets \<Rightarrow> 'v iteration \<Rightarrow> bool" where
  "reads E F Fs I \<longleftrightarrow> it_tests I = se_tests E \<and> it_values I = se_values E \<and> it_static I = se_static E \<and> it_facts I = F \<and> it_sets I = Fs
     \<and> sets_hold (se_fpreds E) (se_objects E) Fs F"

lemma dynamic_check_fires:
  assumes "setting_ok E" "rule_fits E doms cr" "reads E F Fs I"
    and "rule_clique (se_tests E) (rl_body (cr_rule cr)) doms (se_static_sets E) Fs \<sigma>" "check_static ac"
    and "check_ok (se_values E) (se_static E) F \<sigma> (cr_nullary cr) (cr_conflicting cr) ac"
  shows "fst (dynamic_check I cr (\<sigma>, ac)) \<longleftrightarrow> fires E doms (cr_rule cr) F \<sigma>"
    and "check_static (snd (dynamic_check I cr (\<sigma>, ac)))"
    and "check_ok (se_values E) (se_static E) F \<sigma> (cr_nullary cr) (cr_conflicting cr) (snd (dynamic_check I cr (\<sigma>, ac)))"
proof -
  note R = rule_fitsD [OF assms(2)] and C = check_dynamic_spec [OF assms(6)]
  have I: "dynamic_check I cr (\<sigma>, ac) = check_dynamic (se_values E) F \<sigma> (cr_nullary cr) (cr_conflicting cr) ac"
    using assms(3) by (simp add: dynamic_check_def reads_def)
  have "valid_binding (se_values E) (se_static E) F \<sigma> (rl_body (cr_rule cr))"
    if "valid_binding (se_values E) (se_static E) F [] (cr_nullary cr)" "valid_binding (se_values E) (se_static E) F \<sigma> (cr_conflicting cr)"
    using rule_clique_sound [OF R(5) _ _ R(9,6) assms(4)] assms(1,3) that unfolding R(1,2) setting_ok_def reads_def by blast
  then show "fst (dynamic_check I cr (\<sigma>, ac)) \<longleftrightarrow> fires E doms (cr_rule cr) F \<sigma>"
    using C(1) assms(5) rule_clique_in_domains [OF assms(4)] valid_binding_parts [of "se_values E" "se_static E" F \<sigma> "rl_body (cr_rule cr)"]
    unfolding I fires_def R(1,2) by blast
  show "check_static (snd (dynamic_check I cr (\<sigma>, ac)))" using C(3) assms(5) unfolding I by blast
  show "check_ok (se_values E) (se_static E) F \<sigma> (cr_nullary cr) (cr_conflicting cr) (snd (dynamic_check I cr (\<sigma>, ac)))" using C(2) unfolding I .
qed

text \<open>The checks of an execution: the pending ones and the fresh ones of the new cliques.\<close>

lemma checks_at:
  fixes cr :: const_rule
  assumes "setting_ok E" "rule_fits E doms cr" "reads E F Fs I"
    and "graph_fresh cr K \<and> ps = [] \<or> graph_at E doms cr Gs K \<and> sets_hold (se_fpreds E) (se_objects E) Gs G \<and> grows_for (cond_fluent (rl_body (cr_rule cr))) G F
      \<and> pending_at E doms cr G (clique_bindings cr K) ps"
    and "K' = set_next_assignment_sets (se_tests E) (cr_graph cr) Fs K"
    and "qs = ps @ fresh_checks I cr (new_bindings (cr_graph cr) K' (replicate (cond_arity (rl_body (cr_rule cr))) {}) (replicate (cond_arity (rl_body (cr_rule cr))) 0))"
  shows "\<forall>(\<sigma>, ac) \<in> set qs. \<sigma> \<in> clique_bindings cr K' \<and> statically_ok E cr \<sigma> \<and> check_static ac
      \<and> check_ok (se_values E) (se_static E) F \<sigma> (cr_nullary cr) (cr_conflicting cr) ac
      \<and> (\<sigma> \<in> clique_bindings cr K \<longrightarrow> \<not> (graph_at E doms cr Gs K \<and> fires E doms (cr_rule cr) G \<sigma>))"
    and "{\<sigma> \<in> clique_bindings cr K'. statically_ok E cr \<sigma> \<and> ground_head (cr_rule cr) \<sigma> \<notin> F
      \<and> (\<sigma> \<in> clique_bindings cr K \<longrightarrow> \<not> (graph_at E doms cr Gs K \<and> fires E doms (cr_rule cr) G \<sigma>))} \<subseteq> fst ` set qs"
proof -
  have F: "sets_hold (se_fpreds E) (se_objects E) Fs F" and S: "it_static I = se_static E" using assms(3) by (simp_all add: reads_def)
  have "graph_fresh cr K \<or> graph_at E doms cr Gs K \<and> sets_hold (se_fpreds E) (se_objects E) Gs G \<and> grows_for (cond_fluent (rl_body (cr_rule cr))) G F" using assms(4) by blast
  note G = graph_step [OF assms(1,2) F this assms(5)]
  let ?new = "fresh_checks I cr (new_bindings (cr_graph cr) K' (replicate (cond_arity (rl_body (cr_rule cr))) {}) (replicate (cond_arity (rl_body (cr_rule cr))) 0))"
  have new: "(\<sigma>, ac) \<in> set ?new \<longleftrightarrow> \<sigma> \<in> clique_bindings cr K' \<and> \<sigma> \<notin> clique_bindings cr K \<and> statically_ok E cr \<sigma>
      \<and> ac = check_initialize (se_static E) \<sigma> (cr_nullary cr) (cr_conflicting cr)" for \<sigma> ac
    unfolding set_fresh_checks G(3) statically_ok_def S by blast
  have pend: "\<sigma> \<in> clique_bindings cr K' \<and> statically_ok E cr \<sigma> \<and> check_static ac \<and> check_ok (se_values E) (se_static E) F \<sigma> (cr_nullary cr) (cr_conflicting cr) ac
      \<and> (\<sigma> \<in> clique_bindings cr K \<longrightarrow> \<not> (graph_at E doms cr Gs K \<and> fires E doms (cr_rule cr) G \<sigma>))" if "(\<sigma>, ac) \<in> set ps" for \<sigma> ac
  proof -
    have *: "grows_for (cond_fluent (rl_body (cr_rule cr))) G F" "pending_at E doms cr G (clique_bindings cr K) ps" using assms(4) that by auto
    then have "check_ok (se_values E) (se_static E) G \<sigma> (cr_nullary cr) (cr_conflicting cr) ac" "\<sigma> \<in> clique_bindings cr K" "statically_ok E cr \<sigma>" "check_static ac"
      "\<not> fires E doms (cr_rule cr) G \<sigma>" using that by (auto simp: pending_at_def)
    moreover have "keeps_literals (cr_nullary cr) G F" "keeps_literals (cr_conflicting cr) G F"
      by (rule keeps_literals_grows [OF *(1)], auto simp: rule_fitsD(1,2) [OF assms(2)] nullary_def conflicting_def)+
    ultimately show ?thesis using G(2) check_ok_keeps by blast
  qed
  show "\<forall>(\<sigma>, ac) \<in> set qs. \<sigma> \<in> clique_bindings cr K' \<and> statically_ok E cr \<sigma> \<and> check_static ac
      \<and> check_ok (se_values E) (se_static E) F \<sigma> (cr_nullary cr) (cr_conflicting cr) ac
      \<and> (\<sigma> \<in> clique_bindings cr K \<longrightarrow> \<not> (graph_at E doms cr Gs K \<and> fires E doms (cr_rule cr) G \<sigma>))"
  proof (intro ballI, clarify)
    fix \<sigma> ac assume "(\<sigma>, ac) \<in> set qs"
    then consider "(\<sigma>, ac) \<in> set ps" | "(\<sigma>, ac) \<in> set ?new" using assms(6) by auto
    then show "\<sigma> \<in> clique_bindings cr K' \<and> statically_ok E cr \<sigma> \<and> check_static ac \<and> check_ok (se_values E) (se_static E) F \<sigma> (cr_nullary cr) (cr_conflicting cr) ac
      \<and> (\<sigma> \<in> clique_bindings cr K \<longrightarrow> \<not> (graph_at E doms cr Gs K \<and> fires E doms (cr_rule cr) G \<sigma>))"
    proof cases
      case 2
      then show ?thesis unfolding new using check_ok_initialize by (auto simp: statically_ok_def)
    qed (rule pend)
  qed
  show "{\<sigma> \<in> clique_bindings cr K'. statically_ok E cr \<sigma> \<and> ground_head (cr_rule cr) \<sigma> \<notin> F
      \<and> (\<sigma> \<in> clique_bindings cr K \<longrightarrow> \<not> (graph_at E doms cr Gs K \<and> fires E doms (cr_rule cr) G \<sigma>))} \<subseteq> fst ` set qs"
  proof clarify
    fix \<sigma> assume *: "\<sigma> \<in> clique_bindings cr K'" "statically_ok E cr \<sigma>" "ground_head (cr_rule cr) \<sigma> \<notin> F"
      "\<sigma> \<in> clique_bindings cr K \<longrightarrow> \<not> (graph_at E doms cr Gs K \<and> fires E doms (cr_rule cr) G \<sigma>)"
    show "\<sigma> \<in> fst ` set qs"
    proof (cases "\<sigma> \<in> clique_bindings cr K")
      case True
      then have "\<not> graph_fresh cr K" by (auto simp: clique_bindings_def graph_fresh_def split: if_splits)
      then have "\<sigma> \<in> fst ` set ps" using assms(4) * True by (auto simp: pending_at_def grows_for_def)
      then show ?thesis unfolding assms(6) by auto
    next
      case False
      then have "(\<sigma>, check_initialize (se_static E) \<sigma> (cr_nullary cr) (cr_conflicting cr)) \<in> set ?new" unfolding new using * by blast
      then show ?thesis unfolding assms(6) by force
    qed
  qed
qed


definition emits :: "'v iteration \<Rightarrow> const_rule \<Rightarrow> nat list list \<Rightarrow> rule_state \<Rightarrow> bool" where
  "emits I cr \<sigma>s st \<longleftrightarrow> rs_heads st = rs_heads (emit I cr \<sigma>s (clear_iteration st)) \<and> rs_annotations st = rs_annotations (emit I cr \<sigma>s (clear_iteration st))"

lemma emit_heads: "rs_heads (emit I cr \<sigma>s st) = fold (\<lambda>\<sigma>. List.insert (ground_head (cr_rule cr) \<sigma>)) \<sigma>s (rs_heads st)"
  by (induction \<sigma>s arbitrary: st) (simp_all add: generate_head_def)

lemma emit_annotations: "rs_annotations (emit I cr \<sigma>s st)
    = fold (and_update (it_policy I) (it_costs I) (it_current I) (cr_index cr) (cr_rule cr)) \<sigma>s (rs_annotations st)"
  by (induction \<sigma>s arbitrary: st) (simp_all add: generate_head_def)

lemma emits_emit: "rs_heads st = [] \<Longrightarrow> rs_annotations st = (\<lambda>a. None) \<Longrightarrow> emits I cr \<sigma>s (emit I cr \<sigma>s st)"
  by (simp add: emits_def emit_heads emit_annotations clear_iteration_def)

lemma rule_at_graph:
  assumes "rule_at E doms cr F0 st" "\<And>G. F0 = Some G \<Longrightarrow> grows_for (cond_fluent (rl_body (cr_rule cr))) G F"
  obtains "F0 = None" "graph_fresh cr (rs_kpkc st)" "rs_pending st = []"
  | Gs G where "F0 = Some G" "graph_at E doms cr Gs (rs_kpkc st)" "sets_hold (se_fpreds E) (se_objects E) Gs G" "grows_for (cond_fluent (rl_body (cr_rule cr))) G F"
      "if cond_arity (rl_body (cr_rule cr)) = 0 then rs_pending st = [] else pending_at E doms cr G (clique_bindings cr (rs_kpkc st)) (rs_pending st)"
  using assms by (cases F0) (auto simp: rule_at_def)

lemma execute_rule_nullary_law:
  assumes "setting_ok E" "rule_fits E doms cr" "reads E F Fs I" "rule_at E doms cr F0 st"
    and "\<And>G. F0 = Some G \<Longrightarrow> grows_for (cond_fluent (rl_body (cr_rule cr))) G F" "cond_arity (rl_body (cr_rule cr)) = 0"
  shows "rule_at E doms cr (Some F) (execute_rule I cr st)"
    and "\<exists>\<sigma>s. emits I cr \<sigma>s (execute_rule I cr st) \<and> set \<sigma>s = {\<sigma>. fires E doms (cr_rule cr) F \<sigma>}"
proof -
  let ?K = "set_next_assignment_sets (it_tests I) (cr_graph cr) (it_sets I) (rs_kpkc st)"
  let ?\<sigma>s = "if valid_binding (it_values I) (it_static I) (it_facts I) [] (rl_body (cr_rule cr)) then [[]] else []"
  have I: "it_tests I = se_tests E" "it_values I = se_values E" "it_static I = se_static E" "it_facts I = F" "it_sets I = Fs"
    "sets_hold (se_fpreds E) (se_objects E) Fs F" using assms(3) by (simp_all add: reads_def)
  have pend: "rs_pending st = []" by (rule rule_at_graph [OF assms(4,5)]) (use assms(6) in simp_all)
  have old: "graph_fresh cr (rs_kpkc st) \<or> (\<exists>Gs G. graph_at E doms cr Gs (rs_kpkc st) \<and> sets_hold (se_fpreds E) (se_objects E) Gs G \<and> grows_for (cond_fluent (rl_body (cr_rule cr))) G F)"
    by (rule rule_at_graph [OF assms(4,5)]) blast+
  have ex: "execute_rule I cr st = emit I cr ?\<sigma>s \<lparr>rs_kpkc = ?K, rs_pending = [], rs_heads = [], rs_annotations = (\<lambda>a. None)\<rparr>"
    by (rule execute_rule_nullary [OF assms(6) pend rule_fitsD(1) [OF assms(2)]])
  have "graph_at E doms cr Fs ?K" unfolding I(1,5) using graph_step(1) [OF assms(1,2) I(6) _ refl] old by blast
  then show "rule_at E doms cr (Some F) (execute_rule I cr st)" using I(6) assms(6) unfolding ex rule_at_def by auto
  have "set ?\<sigma>s = {\<sigma>. fires E doms (cr_rule cr) F \<sigma>}" by (auto simp: fires_def in_domains_def assms(6) I)
  moreover have "emits I cr ?\<sigma>s (execute_rule I cr st)" unfolding ex by (rule emits_emit) simp_all
  ultimately show "\<exists>\<sigma>s. emits I cr \<sigma>s (execute_rule I cr st) \<and> set \<sigma>s = {\<sigma>. fires E doms (cr_rule cr) F \<sigma>}" by blast
qed

lemma execute_rule_general_law:
  assumes "setting_ok E" "rule_fits E doms cr" "reads E F Fs I" "rule_at E doms cr F0 st"
    and "\<And>G. F0 = Some G \<Longrightarrow> grows_for (cond_fluent (rl_body (cr_rule cr))) G F" "cond_arity (rl_body (cr_rule cr)) \<noteq> 0"
  shows "rule_at E doms cr (Some F) (execute_rule I cr st)"
    and "\<exists>\<sigma>s. emits I cr \<sigma>s (execute_rule I cr st)
      \<and> set \<sigma>s = {\<sigma>. fires E doms (cr_rule cr) F \<sigma> \<and> \<not> fired E doms (cr_rule cr) F0 \<sigma> \<and> ground_head (cr_rule cr) \<sigma> \<notin> F}"
proof -
  let ?c = "rl_body (cr_rule cr)" and ?r = "cr_rule cr"
  let ?K = "set_next_assignment_sets (se_tests E) (cr_graph cr) Fs (rs_kpkc st)"
  let ?qs = "rs_pending st @ fresh_checks I cr (new_bindings (cr_graph cr) ?K (replicate (cond_arity ?c) {}) (replicate (cond_arity ?c) 0))"
  have I: "it_tests I = se_tests E" "it_sets I = Fs" "it_facts I = F" "sets_hold (se_fpreds E) (se_objects E) Fs F" using assms(3) by (simp_all add: reads_def)
  note ex = execute_rule_general [OF refl assms(6) refl refl, of I st, unfolded I(1,2)]
  obtain Gs G where old: "graph_fresh cr (rs_kpkc st) \<and> rs_pending st = [] \<or> graph_at E doms cr Gs (rs_kpkc st) \<and> sets_hold (se_fpreds E) (se_objects E) Gs G
        \<and> grows_for (cond_fluent ?c) G F \<and> pending_at E doms cr G (clique_bindings cr (rs_kpkc st)) (rs_pending st)"
    and fired: "\<And>\<sigma>. fired E doms ?r F0 \<sigma> \<longleftrightarrow> graph_at E doms cr Gs (rs_kpkc st) \<and> fires E doms ?r G \<sigma>"
    and F0: "\<And>\<sigma>. graph_at E doms cr Gs (rs_kpkc st) \<Longrightarrow> fires E doms ?r G \<sigma> \<Longrightarrow> \<sigma> \<in> clique_bindings cr (rs_kpkc st)"
  proof (rule rule_at_graph [OF assms(4,5)])
    assume that: "\<And>Gs G. graph_fresh cr (rs_kpkc st) \<and> rs_pending st = [] \<or> graph_at E doms cr Gs (rs_kpkc st) \<and> sets_hold (se_fpreds E) (se_objects E) Gs G
        \<and> grows_for (cond_fluent ?c) G F \<and> pending_at E doms cr G (clique_bindings cr (rs_kpkc st)) (rs_pending st) \<Longrightarrow>
      (\<And>\<sigma>. fired E doms ?r F0 \<sigma> \<longleftrightarrow> graph_at E doms cr Gs (rs_kpkc st) \<and> fires E doms ?r G \<sigma>) \<Longrightarrow>
      (\<And>\<sigma>. graph_at E doms cr Gs (rs_kpkc st) \<Longrightarrow> fires E doms ?r G \<sigma> \<Longrightarrow> \<sigma> \<in> clique_bindings cr (rs_kpkc st)) \<Longrightarrow> thesis"
    {
      assume "F0 = None" "graph_fresh cr (rs_kpkc st)" "rs_pending st = []"
      moreover have "\<not> graph_at E doms cr [] (rs_kpkc st)" using calculation(2) by (simp add: graph_fresh_def graph_at_def)
      ultimately show thesis by (intro that [of "[]" "{}"]) (simp_all add: fired_def)
    next
      fix Gs G
      assume *: "F0 = Some G" "graph_at E doms cr Gs (rs_kpkc st)" "sets_hold (se_fpreds E) (se_objects E) Gs G" "grows_for (cond_fluent ?c) G F"
        "if cond_arity ?c = 0 then rs_pending st = [] else pending_at E doms cr G (clique_bindings cr (rs_kpkc st)) (rs_pending st)"
      have "\<sigma> \<in> clique_bindings cr (rs_kpkc st)" if "fires E doms ?r G \<sigma>" for \<sigma>
        using fires_clique [OF assms(1,2) *(3) that] *(2) by (simp add: graph_at_def)
      then show thesis using * assms(6) by (intro that [of Gs G]) (simp_all add: fired_def)
    }
  qed
  have "graph_fresh cr (rs_kpkc st) \<or> graph_at E doms cr Gs (rs_kpkc st) \<and> sets_hold (se_fpreds E) (se_objects E) Gs G \<and> grows_for (cond_fluent ?c) G F" using old by blast
  note gs = graph_step [OF assms(1,2) I(4) this refl]
  have C: "clique_bindings cr ?K = {\<sigma>. rule_clique (se_tests E) ?c doms (se_static_sets E) Fs \<sigma>}" using gs(1) by (simp add: graph_at_def)
  note checks = checks_at [OF assms(1-3) old refl refl]
  have dyn: "fst (dynamic_check I cr (\<sigma>, ac)) \<longleftrightarrow> fires E doms ?r F \<sigma>" "check_static (snd (dynamic_check I cr (\<sigma>, ac)))"
    "check_ok (se_values E) (se_static E) F \<sigma> (cr_nullary cr) (cr_conflicting cr) (snd (dynamic_check I cr (\<sigma>, ac)))" if "(\<sigma>, ac) \<in> set ?qs" for \<sigma> ac
  proof -
    have "rule_clique (se_tests E) ?c doms (se_static_sets E) Fs \<sigma>" "check_static ac" "check_ok (se_values E) (se_static E) F \<sigma> (cr_nullary cr) (cr_conflicting cr) ac"
      using checks(1) that C by auto
    from dynamic_check_fires [OF assms(1-3) this]
    show "fst (dynamic_check I cr (\<sigma>, ac)) \<longleftrightarrow> fires E doms ?r F \<sigma>" "check_static (snd (dynamic_check I cr (\<sigma>, ac)))"
      "check_ok (se_values E) (se_static E) F \<sigma> (cr_nullary cr) (cr_conflicting cr) (snd (dynamic_check I cr (\<sigma>, ac)))" by blast+
  qed
  have op: "open_head I cr \<sigma> \<longleftrightarrow> ground_head ?r \<sigma> \<notin> F" for \<sigma> by (simp add: open_head_def I(3))
  have "set (emitted I cr ?qs) = {\<sigma>. fires E doms ?r F \<sigma> \<and> \<not> fired E doms ?r F0 \<sigma> \<and> ground_head ?r \<sigma> \<notin> F}"
  proof (intro equalityI subsetI)
    fix \<sigma> assume "\<sigma> \<in> set (emitted I cr ?qs)"
    then obtain ac where ac: "(\<sigma>, ac) \<in> set ?qs" "open_head I cr \<sigma>" "fst (dynamic_check I cr (\<sigma>, ac))" unfolding set_emitted by blast
    then show "\<sigma> \<in> {\<sigma>. fires E doms ?r F \<sigma> \<and> \<not> fired E doms ?r F0 \<sigma> \<and> ground_head ?r \<sigma> \<notin> F}"
      using checks(1) dyn(1) [OF ac(1)] F0 unfolding op fired by blast
  next
    fix \<sigma> assume "\<sigma> \<in> {\<sigma>. fires E doms ?r F \<sigma> \<and> \<not> fired E doms ?r F0 \<sigma> \<and> ground_head ?r \<sigma> \<notin> F}"
    then have *: "fires E doms ?r F \<sigma>" "\<not> fired E doms ?r F0 \<sigma>" "ground_head ?r \<sigma> \<notin> F" by simp_all
    have "\<sigma> \<in> clique_bindings cr ?K" unfolding C using fires_clique [OF assms(1,2) I(4) *(1)] by simp
    then have "\<sigma> \<in> fst ` set ?qs" using checks(2) fires_static [OF assms(2) *(1)] * unfolding fired by blast
    then obtain ac where ac: "(\<sigma>, ac) \<in> set ?qs" by force
    then show "\<sigma> \<in> set (emitted I cr ?qs)" unfolding set_emitted op using dyn(1) [OF ac] * by blast
  qed
  moreover have "emits I cr (emitted I cr ?qs) (execute_rule I cr st)" unfolding ex by (rule emits_emit) simp_all
  ultimately show "\<exists>\<sigma>s. emits I cr \<sigma>s (execute_rule I cr st)
      \<and> set \<sigma>s = {\<sigma>. fires E doms ?r F \<sigma> \<and> \<not> fired E doms ?r F0 \<sigma> \<and> ground_head ?r \<sigma> \<notin> F}" by blast
  have "pending_at E doms cr F (clique_bindings cr ?K) (kept I cr ?qs)"
    unfolding pending_at_def
  proof (intro conjI ballI subsetI)
    fix p assume "p \<in> set (kept I cr ?qs)"
    then obtain \<sigma> ac' where p: "p = (\<sigma>, ac')" and "(\<sigma>, ac') \<in> set (kept I cr ?qs)" by (metis prod.exhaust)
    then obtain ac where ac: "(\<sigma>, ac) \<in> set ?qs" "open_head I cr \<sigma>" "\<not> fst (dynamic_check I cr (\<sigma>, ac))" "ac' = snd (dynamic_check I cr (\<sigma>, ac))" unfolding set_kept by blast
    have "\<sigma> \<in> clique_bindings cr ?K \<and> statically_ok E cr \<sigma>" using checks(1) ac(1) by blast
    then show "case p of (\<sigma>, ac) \<Rightarrow> \<sigma> \<in> clique_bindings cr ?K \<and> statically_ok E cr \<sigma> \<and> \<not> fires E doms ?r F \<sigma> \<and> ground_head ?r \<sigma> \<notin> F
        \<and> check_static ac \<and> check_ok (se_values E) (se_static E) F \<sigma> (cr_nullary cr) (cr_conflicting cr) ac"
      using dyn [OF ac(1)] ac unfolding p op by simp
  next
    fix \<sigma> assume "\<sigma> \<in> {\<sigma> \<in> clique_bindings cr ?K. statically_ok E cr \<sigma> \<and> \<not> fires E doms ?r F \<sigma> \<and> ground_head ?r \<sigma> \<notin> F}"
    then have *: "\<sigma> \<in> clique_bindings cr ?K" "statically_ok E cr \<sigma>" "\<not> fires E doms ?r F \<sigma>" "ground_head ?r \<sigma> \<notin> F" by simp_all
    have "\<not> (graph_at E doms cr Gs (rs_kpkc st) \<and> fires E doms ?r G \<sigma>)"
      using old *(3) fires_grows [of ?r G F E doms \<sigma>] by (auto simp: graph_fresh_def graph_at_def)
    then have "\<sigma> \<in> fst ` set ?qs" using checks(2) * by blast
    then obtain ac where ac: "(\<sigma>, ac) \<in> set ?qs" by force
    then have "(\<sigma>, snd (dynamic_check I cr (\<sigma>, ac))) \<in> set (kept I cr ?qs)" unfolding set_kept op using dyn(1) [OF ac] * by blast
    then show "\<sigma> \<in> fst ` set (kept I cr ?qs)" by force
  qed
  then show "rule_at E doms cr (Some F) (execute_rule I cr st)" using I(4) gs(1) assms(6) unfolding ex rule_at_def by auto
qed


lemma execute_rule_law:
  assumes "setting_ok E" "rule_fits E doms cr" "reads E F Fs I" "rule_at E doms cr F0 st"
    and "\<And>G. F0 = Some G \<Longrightarrow> grows_for (cond_fluent (rl_body (cr_rule cr))) G F"
  shows "rule_at E doms cr (Some F) (execute_rule I cr st)"
    and "\<exists>\<sigma>s. emits I cr \<sigma>s (execute_rule I cr st) \<and> set \<sigma>s \<subseteq> {\<sigma>. fires E doms (cr_rule cr) F \<sigma>}
      \<and> {\<sigma>. fires E doms (cr_rule cr) F \<sigma> \<and> \<not> fired E doms (cr_rule cr) F0 \<sigma> \<and> ground_head (cr_rule cr) \<sigma> \<notin> F} \<subseteq> set \<sigma>s"
proof -
  note N = execute_rule_nullary_law [OF assms] and G = execute_rule_general_law [OF assms]
  show "rule_at E doms cr (Some F) (execute_rule I cr st)" using N(1) G(1) by blast
  show "\<exists>\<sigma>s. emits I cr \<sigma>s (execute_rule I cr st) \<and> set \<sigma>s \<subseteq> {\<sigma>. fires E doms (cr_rule cr) F \<sigma>}
      \<and> {\<sigma>. fires E doms (cr_rule cr) F \<sigma> \<and> \<not> fired E doms (cr_rule cr) F0 \<sigma> \<and> ground_head (cr_rule cr) \<sigma> \<notin> F} \<subseteq> set \<sigma>s"
  proof (cases "cond_arity (rl_body (cr_rule cr)) = 0")
    case True
    then show ?thesis using N(2) by blast
  next
    case False
    then show ?thesis using G(2) by blast
  qed
qed

lemma emits_heads:
  assumes "emits I cr \<sigma>s st"
  shows "set (rs_heads st) = ground_head (cr_rule cr) ` set \<sigma>s" "distinct (rs_heads st)"
    "rs_annotations st = fold (and_update (it_policy I) (it_costs I) (it_current I) (cr_index cr) (cr_rule cr)) \<sigma>s (\<lambda>a. None)"
proof -
  have "set (fold (\<lambda>\<sigma>. List.insert (ground_head (cr_rule cr) \<sigma>)) \<sigma>s hs) = ground_head (cr_rule cr) ` set \<sigma>s \<union> set hs" for hs
    by (induction \<sigma>s arbitrary: hs) auto
  moreover have "distinct (fold (\<lambda>\<sigma>. List.insert (ground_head (cr_rule cr) \<sigma>)) \<sigma>s hs)" if "distinct hs" for hs
    using that by (induction \<sigma>s arbitrary: hs) auto
  ultimately show "set (rs_heads st) = ground_head (cr_rule cr) ` set \<sigma>s" "distinct (rs_heads st)"
    using assms by (simp_all add: emits_def emit_heads clear_iteration_def)
  show "rs_annotations st = fold (and_update (it_policy I) (it_costs I) (it_current I) (cr_index cr) (cr_rule cr)) \<sigma>s (\<lambda>a. None)"
    using assms by (simp add: emits_def emit_annotations clear_iteration_def)
qed

lemma rule_at_init: "rule_fits E doms cr \<Longrightarrow> rule_at E doms cr None (rule_state_init cr)"
  by (simp add: rule_at_def rule_state_init_def graph_fresh_start)

lemma rule_at_clear: "rule_at E doms cr F0 st \<Longrightarrow> rule_at E doms cr None (rule_state_clear st)"
  using graph_fresh_reset [of cr "rs_kpkc st"] by (cases F0) (auto simp: rule_at_def rule_state_clear_def graph_fresh_def graph_at_def)


section \<open>Correctness\<close>

text \<open>
  C10. An execution of a rule whose literals are settled and whose constraints the interval tests decide (\<open>rule_fits\<close>), on facts that
  have grown since its last execution: a rule with parameters emits exactly the heads of the bindings that satisfy its body
  under the present facts, did not satisfy it when the rule was executed last, and whose head is not yet a fact. No binding is lost in
  between: those whose clique was found while a nullary or a conflicting part of the body did not hold are kept as pending
  bindings and asked again. A rule without parameters emits its head whenever its body holds, also again.
\<close>

theorem rule_execution_exact:
  assumes "setting_ok E" "rule_fits E doms cr" "reads E F Fs I" "rule_at E doms cr F0 st"
    and "\<forall>G. F0 = Some G \<longrightarrow> grows_for (cond_fluent (rl_body (cr_rule cr))) G F"
  shows "rule_at E doms cr (Some F) (execute_rule I cr st) \<and> set (rs_heads (execute_rule I cr st))
    = ground_head (cr_rule cr) ` {\<sigma>. fires E doms (cr_rule cr) F \<sigma>
        \<and> (cond_arity (rl_body (cr_rule cr)) = 0 \<or> \<not> fired E doms (cr_rule cr) F0 \<sigma> \<and> ground_head (cr_rule cr) \<sigma> \<notin> F)}"
proof (cases "cond_arity (rl_body (cr_rule cr)) = 0")
  case True
  note L = execute_rule_nullary_law [OF assms(1-4) _ True]
  obtain \<sigma>s where em: "emits I cr \<sigma>s (execute_rule I cr st)" "set \<sigma>s = {\<sigma>. fires E doms (cr_rule cr) F \<sigma>}" using L(2) assms(5) by blast
  then show ?thesis using emits_heads(1) [OF em(1)] L(1) assms(5) True by simp
next
  case False
  note L = execute_rule_general_law [OF assms(1-4) _ False]
  obtain \<sigma>s where em: "emits I cr \<sigma>s (execute_rule I cr st)"
    "set \<sigma>s = {\<sigma>. fires E doms (cr_rule cr) F \<sigma> \<and> \<not> fired E doms (cr_rule cr) F0 \<sigma> \<and> ground_head (cr_rule cr) \<sigma> \<notin> F}" using L(2) assms(5) by blast
  then show ?thesis using emits_heads(1) [OF em(1)] L(1) assms(5) False by simp
qed

section \<open>Examples\<close>

text \<open>The rule \<open>b(y)\<close> if \<open>s(x), e(x, y), not b(y)\<close> of the examples of the consistency graph, with another head.\<close>

definition step_example_rule :: rule where
  "step_example_rule = \<lparr>rl_predicate = 0, rl_terms = [Param 1, Param 0], rl_body = body_example_body, rl_cost = 1\<rparr>"

definition step_example_setting :: "nat setting" where
  "step_example_setting = \<lparr>se_spreds = body_example_static, se_fpreds = body_example_fluent, se_objects = 2,
     se_static_sets = pss_insert_all [(0, [0])] (pss_init body_example_static 2), se_static = {(0, [0])}, se_values = undefined, se_tests = no_tests\<rparr>"

definition step_example_const :: const_rule where
  "step_example_const = make_const_rule 0 step_example_rule [[0, 1], [0, 1]] 2 (pss_insert_all [(0, [0])] (pss_init body_example_static 2))"

definition step_example_input :: "nat iteration" where
  "step_example_input = \<lparr>it_policy = Annotation Sum_Aggregation, it_tests = no_tests, it_values = undefined, it_static = {(0, [0])},
     it_facts = set (hd body_example_facts), it_sets = fst (body_example_step (hd body_example_facts)), it_costs = (\<lambda>a. 0), it_current = 0\<rparr>"

lemma step_example_setting_ok: "setting_ok step_example_setting"
  using body_example_static_hold by (simp add: setting_ok_def step_example_setting_def uint_max_def)

lemma step_example_const_simps: "cr_rule step_example_const = step_example_rule" "rl_body step_example_rule = body_example_body"
  by (simp_all add: step_example_const_def make_const_rule_def step_example_rule_def)

lemma step_example_fits: "rule_fits step_example_setting [[0, 1], [0, 1]] step_example_const"
  using body_example_context body_example_settled body_example_sizes(2)
  by (simp add: rule_fits_def step_example_const_simps) (simp add: step_example_setting_def step_example_const_def make_const_rule_def body_example_intervals)

lemma step_example_reads: "reads step_example_setting (set (hd body_example_facts)) (fst (body_example_step (hd body_example_facts))) step_example_input"
  using body_example_fluent_hold [of "hd body_example_facts"] by (simp add: reads_def step_example_setting_def step_example_input_def body_example_facts_def)

lemma rule_execution_exact_witness:
  "set (rs_heads (execute_rule step_example_input step_example_const (rule_state_init step_example_const)))
    = ground_head step_example_rule ` {\<sigma>. fires step_example_setting [[0, 1], [0, 1]] step_example_rule (set (hd body_example_facts)) \<sigma>
        \<and> \<not> fired step_example_setting [[0, 1], [0, 1]] step_example_rule None \<sigma> \<and> ground_head step_example_rule \<sigma> \<notin> set (hd body_example_facts)}"
  using rule_execution_exact [OF step_example_setting_ok step_example_fits step_example_reads rule_at_init [OF step_example_fits]]
  by (simp add: step_example_const_simps body_example_body_def)

end
