(* ===== verification/Bottom_Up.thy ===== *)
theory Bottom_Up
  imports Rule_Steps
begin

text \<open>
  The solver of \<^verbatim>\<open>src/datalog/bottom_up.cpp\<close> over the strata of a program: the cost buckets of \<^verbatim>\<open>workspaces/program.hpp\<close>, the rule
  scheduler, the annotations of the atoms, the termination policy, and the loop that executes the active rules, merges their heads
  into the buckets and turns the next bucket into facts. The rules of an iteration run in parallel in the code; they read the same
  facts and write only their own state. The order of an unordered set is that of a list. Statistics are left out.
\<close>

section \<open>Cost buckets\<close>

record cost_buckets =
  cb_buckets :: "atom list list"
  cb_current :: nat
  cb_total :: nat

definition cb_init :: cost_buckets where
  "cb_init = \<lparr>cb_buckets = [[]], cb_current = 0, cb_total = 0\<rparr>"

definition cb_clear :: "cost_buckets \<Rightarrow> cost_buckets" where
  "cb_clear B = \<lparr>cb_buckets = map (\<lambda>b. []) (cb_buckets B), cb_current = 0, cb_total = 0\<rparr>"

definition resize_to_fit :: "nat \<Rightarrow> cost_buckets \<Rightarrow> cost_buckets" where
  "resize_to_fit c B = (if c \<ge> length (cb_buckets B) then B\<lparr>cb_buckets := cb_buckets B @ replicate (c + 1 - length (cb_buckets B)) []\<rparr> else B)"

definition cb_insert :: "nat \<Rightarrow> atom \<Rightarrow> cost_buckets \<Rightarrow> cost_buckets" where
  "cb_insert c a B =
     (let B = resize_to_fit c B
      in if a \<in> set (cb_buckets B ! c) then B
         else B\<lparr>cb_buckets := (cb_buckets B)[c := cb_buckets B ! c @ [a]], cb_total := cb_total B + 1\<rparr>)"

definition cb_erase :: "nat \<Rightarrow> atom \<Rightarrow> cost_buckets \<Rightarrow> cost_buckets" where
  "cb_erase c a B =
     (if c \<ge> length (cb_buckets B) then B
      else if a \<in> set (cb_buckets B ! c) then B\<lparr>cb_buckets := (cb_buckets B)[c := removeAll a (cb_buckets B ! c)], cb_total := cb_total B - 1\<rparr>
      else B)"

text \<open>An infinite cost has no bucket; no atom is updated with one.\<close>

record cost_update =
  cu_old :: "nat option"
  cu_new :: enat

definition make_cost_update :: "enat \<Rightarrow> enat \<Rightarrow> cost_update" where
  "make_cost_update old new = \<lparr>cu_old = (case old of enat c \<Rightarrow> Some c | \<infinity> \<Rightarrow> None), cu_new = new\<rparr>"

definition cb_update :: "cost_update \<Rightarrow> atom \<Rightarrow> cost_buckets \<Rightarrow> cost_buckets" where
  "cb_update u a B =
     (let B = (case cu_old u of None \<Rightarrow> B | Some c \<Rightarrow> cb_erase c a B)
      in case cu_new u of enat c \<Rightarrow> cb_insert c a B | \<infinity> \<Rightarrow> B)"

definition clear_current :: "cost_buckets \<Rightarrow> cost_buckets" where
  "clear_current B =
     (if cb_current B \<ge> length (cb_buckets B) then B
      else B\<lparr>cb_buckets := (cb_buckets B)[cb_current B := []], cb_total := cb_total B - length (cb_buckets B ! cb_current B)\<rparr>)"

function next_nonempty :: "atom list list \<Rightarrow> nat \<Rightarrow> nat" where
  "next_nonempty bs c = (if c < length bs \<and> bs ! c = [] then next_nonempty bs (c + 1) else c)"
  by pat_completeness auto
termination by (relation "measure (\<lambda>(bs, c). length bs - c)") auto

declare next_nonempty.simps [simp del]

definition advance_to_next_nonempty :: "cost_buckets \<Rightarrow> bool \<times> cost_buckets" where
  "advance_to_next_nonempty B = (let B = B\<lparr>cb_current := next_nonempty (cb_buckets B) (cb_current B)\<rparr> in (cb_current B < length (cb_buckets B), B))"

definition get_current_bucket :: "cost_buckets \<Rightarrow> atom list" where
  "get_current_bucket B = (if cb_current B \<ge> length (cb_buckets B) then [] else cb_buckets B ! cb_current B)"

section \<open>Annotations of the facts\<close>

definition initialize_annotation :: "annotation_policy \<Rightarrow> atom \<Rightarrow> or_annotations \<Rightarrow> or_annotations" where
  "initialize_annotation pol a oa = (case pol of No_Annotation \<Rightarrow> oa | Annotation agg \<Rightarrow> oa(a := 0))"

definition or_update :: "annotation_policy \<Rightarrow> atom \<Rightarrow> and_annotations \<Rightarrow> or_annotations \<Rightarrow> and_annotations \<Rightarrow> cost_update \<times> or_annotations \<times> and_annotations" where
  "or_update pol a delta oa am =
     (case pol of No_Annotation \<Rightarrow> (\<lparr>cu_old = None, cu_new = 0\<rparr>, oa, am)
      | Annotation agg \<Rightarrow>
          if oa a = 0 then (make_cost_update (oa a) (oa a), oa, am)
          else case delta a of None \<Rightarrow> (make_cost_update (oa a) (oa a), oa, am)
            | Some w \<Rightarrow>
                let c = (if wi_cost w < oa a then wi_cost w else oa a)
                in (make_cost_update (oa a) c, oa(a := c), if c < oa a then am(a \<mapsto> w) else am))"

section \<open>Termination policy\<close>

record goal_state =
  tp_unsat :: "atom list"
  tp_num :: nat
  tp_bindings :: "atom list"

definition tp_init :: goal_state where
  "tp_init = \<lparr>tp_unsat = [], tp_num = 0, tp_bindings = []\<rparr>"

definition tp_clear :: "goal_state \<Rightarrow> goal_state" where
  "tp_clear t = t\<lparr>tp_num := 0, tp_unsat := [], tp_bindings := []\<rparr>"

definition tp_add_goal :: "atom \<Rightarrow> goal_state \<Rightarrow> goal_state" where
  "tp_add_goal a t = t\<lparr>tp_unsat := List.insert a (tp_unsat t), tp_num := tp_num t + 1, tp_bindings := tp_bindings t @ [a]\<rparr>"

definition tp_set_goals :: "atom list \<Rightarrow> goal_state \<Rightarrow> goal_state" where
  "tp_set_goals goals t = fold tp_add_goal goals ((tp_clear t)\<lparr>tp_num := 0\<rparr>)"

definition tp_achieve :: "atom \<Rightarrow> goal_state \<Rightarrow> goal_state" where
  "tp_achieve a t = (if a \<in> set (tp_unsat t) then t\<lparr>tp_num := tp_num t - 1, tp_unsat := removeAll a (tp_unsat t)\<rparr> else t)"

definition tp_check :: "goal_state \<Rightarrow> bool" where
  "tp_check t \<longleftrightarrow> tp_num t = 0"

definition tp_total_cost :: "aggregation \<Rightarrow> or_annotations \<Rightarrow> goal_state \<Rightarrow> enat" where
  "tp_total_cost agg oa t = fold (\<lambda>a cost. aggregate agg cost (oa a)) (tp_bindings t) 0"

definition tp_reset :: "goal_state \<Rightarrow> goal_state" where
  "tp_reset t = t\<lparr>tp_num := 0, tp_unsat := fold List.insert (tp_bindings t) []\<rparr>"

section \<open>Programs and their state\<close>

text \<open>A program with its policies; a termination policy is present or not. The rules are referred to by their index.\<close>

record 'v program =
  pg_setting :: "'v setting"
  pg_rules :: "const_rule list"
  pg_annotation :: annotation_policy
  pg_goal_directed :: bool

definition const_rules :: "'v setting \<Rightarrow> (rule \<times> nat list list) list \<Rightarrow> const_rule list" where
  "const_rules E rs = map (\<lambda>i. make_const_rule i (fst (rs ! i)) (snd (rs ! i)) (se_objects E) (se_static_sets E)) [0..<length rs]"

record program_state =
  ps_facts :: "atom list"
  ps_sets :: pred_sets
  ps_costs :: or_annotations
  ps_witnesses :: and_annotations
  ps_tp :: goal_state
  ps_rules :: "rule_state list"
  ps_buckets :: cost_buckets
  ps_active_predicates :: "nat list"
  ps_active_rules :: "nat list"

type_synonym listeners = "nat \<Rightarrow> nat list"

record stratum =
  sm_rules :: "nat list"
  sm_listeners :: listeners

definition listen_rule :: "const_rule list \<Rightarrow> nat \<Rightarrow> listeners \<Rightarrow> listeners" where
  "listen_rule crs i ls = fold (\<lambda>l ls. if ll_polarity l then ls(ll_predicate l := List.insert i (ls (ll_predicate l))) else ls)
     (cond_fluent (rl_body (cr_rule (crs ! i)))) ls"

definition listeners_in_stratum :: "const_rule list \<Rightarrow> nat list \<Rightarrow> listeners" where
  "listeners_in_stratum crs rs = fold (listen_rule crs) rs (\<lambda>p. [])"

definition make_strata :: "const_rule list \<Rightarrow> nat list list \<Rightarrow> stratum list" where
  "make_strata crs strata = map (\<lambda>rs. \<lparr>sm_rules = rs, sm_listeners = listeners_in_stratum crs rs\<rparr>) strata"

text \<open>The scheduler.\<close>

definition activate_all :: "stratum \<Rightarrow> program_state \<Rightarrow> program_state" where
  "activate_all sm st = st\<lparr>ps_active_rules := fold List.insert (sm_rules sm) []\<rparr>"

definition on_start_iteration :: "program_state \<Rightarrow> program_state" where
  "on_start_iteration st = st\<lparr>ps_active_predicates := []\<rparr>"

definition on_generate :: "nat \<Rightarrow> program_state \<Rightarrow> program_state" where
  "on_generate p st = st\<lparr>ps_active_predicates := List.insert p (ps_active_predicates st)\<rparr>"

definition on_finish_iteration :: "stratum \<Rightarrow> program_state \<Rightarrow> program_state" where
  "on_finish_iteration sm st = st\<lparr>ps_active_rules := fold (\<lambda>p rs. fold List.insert (sm_listeners sm p) rs) (ps_active_predicates st) []\<rparr>"

text \<open>The phases of an iteration: the active rules are executed, their heads are merged, and the next bucket becomes facts.\<close>

definition iteration_input :: "'v program \<Rightarrow> program_state \<Rightarrow> 'v iteration" where
  "iteration_input P st = \<lparr>it_policy = pg_annotation P, it_tests = se_tests (pg_setting P), it_values = se_values (pg_setting P),
     it_static = se_static (pg_setting P), it_facts = set (ps_facts st), it_sets = ps_sets st, it_costs = ps_costs st, it_current = cb_current (ps_buckets st)\<rparr>"

definition execute_active :: "'v program \<Rightarrow> program_state \<Rightarrow> program_state" where
  "execute_active P st = st\<lparr>ps_rules :=
     fold (\<lambda>i rs. rs[i := execute_rule (iteration_input P st) (pg_rules P ! i) (rs ! i)]) (ps_active_rules st) (ps_rules st)\<rparr>"

definition merge_head :: "'v program \<Rightarrow> and_annotations \<Rightarrow> atom \<Rightarrow> program_state \<Rightarrow> program_state" where
  "merge_head P delta a st =
     (let (u, oa, am) = or_update (pg_annotation P) a delta (ps_costs st) (ps_witnesses st)
      in st\<lparr>ps_costs := oa, ps_witnesses := am, ps_buckets := cb_update u a (ps_buckets st)\<rparr>)"

definition merge_rule :: "'v program \<Rightarrow> nat \<Rightarrow> program_state \<Rightarrow> program_state" where
  "merge_rule P i st = fold (merge_head P (rs_annotations (ps_rules st ! i))) (rs_heads (ps_rules st ! i)) st"

definition merge_active :: "'v program \<Rightarrow> program_state \<Rightarrow> program_state" where
  "merge_active P st = fold (merge_rule P) (ps_active_rules st) st"

definition insert_head :: "'v program \<Rightarrow> atom \<Rightarrow> program_state \<Rightarrow> program_state" where
  "insert_head P a st =
     (if a \<in> set (ps_facts st) then st
      else let st = on_generate (fst a) st
        in st\<lparr>ps_tp := tp_achieve a (ps_tp st), ps_facts := ps_facts st @ [a], ps_sets := pss_insert a (ps_sets st)\<rparr>)"

definition stratum_iteration :: "'v program \<Rightarrow> stratum \<Rightarrow> program_state \<Rightarrow> bool \<times> program_state" where
  "stratum_iteration P sm st =
     (let st = execute_active P (on_start_iteration st);
          st = st\<lparr>ps_buckets := clear_current (ps_buckets st)\<rparr>;
          st = merge_active P st;
          (go, B) = advance_to_next_nonempty (ps_buckets st);
          st = st\<lparr>ps_buckets := B\<rparr>
      in if \<not> go then (False, st)
         else (True, on_finish_iteration sm (fold (insert_head P) (get_current_bucket B) st)))"

partial_function (option) stratum_loop :: "'v program \<Rightarrow> stratum \<Rightarrow> program_state \<Rightarrow> program_state option" where
  "stratum_loop P sm st =
     (if pg_goal_directed P \<and> tp_check (ps_tp st) then Some st
      else let (go, st) = stratum_iteration P sm st in if go then stratum_loop P sm st else Some st)"

definition solve_bottom_up_for_stratum :: "'v program \<Rightarrow> stratum \<Rightarrow> program_state \<Rightarrow> program_state option" where
  "solve_bottom_up_for_stratum P sm st = (let st = activate_all sm st in stratum_loop P sm (st\<lparr>ps_buckets := cb_clear (ps_buckets st)\<rparr>))"

fun solve_bottom_up :: "'v program \<Rightarrow> stratum list \<Rightarrow> program_state \<Rightarrow> program_state option" where
  "solve_bottom_up P [] st = Some st"
| "solve_bottom_up P (sm # sms) st = Option.bind (solve_bottom_up_for_stratum P sm st) (solve_bottom_up P sms)"

text \<open>The start of a solve with the facts that the workspace holds.\<close>

definition initial_fact :: "'v program \<Rightarrow> atom \<Rightarrow> program_state \<Rightarrow> program_state" where
  "initial_fact P a st = st\<lparr>ps_costs := initialize_annotation (pg_annotation P) a (ps_costs st),
     ps_tp := (if pg_goal_directed P then tp_achieve a (ps_tp st) else ps_tp st)\<rparr>"

definition clear_program :: "'v program \<Rightarrow> atom list \<Rightarrow> program_state \<Rightarrow> program_state" where
  "clear_program P goals st =
     (let st = st\<lparr>ps_rules := map rule_state_clear (ps_rules st), ps_costs := (\<lambda>a. \<infinity>), ps_witnesses := (\<lambda>a. None),
                 ps_tp := (if pg_goal_directed P then tp_set_goals goals (tp_clear (ps_tp st)) else ps_tp st)\<rparr>;
          st = fold (initial_fact P) (ps_facts st) st
      in st\<lparr>ps_sets := pss_insert_all (ps_facts st) (ps_sets st), ps_buckets := cb_clear (ps_buckets st)\<rparr>)"

text \<open>Between two solves the caller resets the facts of the workspace and inserts new ones.\<close>

definition reset_facts :: "program_state \<Rightarrow> program_state" where
  "reset_facts st = st\<lparr>ps_facts := [], ps_sets := pss_reset (ps_sets st)\<rparr>"

definition insert_fact :: "atom \<Rightarrow> program_state \<Rightarrow> program_state" where
  "insert_fact a st = (if a \<in> set (ps_facts st) then st else st\<lparr>ps_facts := ps_facts st @ [a]\<rparr>)"

definition program_start :: "'v program \<Rightarrow> program_state" where
  "program_start P = \<lparr>ps_facts = [], ps_sets = pss_init (se_fpreds (pg_setting P)) (se_objects (pg_setting P)), ps_costs = (\<lambda>a. \<infinity>),
     ps_witnesses = (\<lambda>a. None), ps_tp = tp_init, ps_rules = map rule_state_init (pg_rules P), ps_buckets = cb_init,
     ps_active_predicates = [], ps_active_rules = []\<rparr>"

end
