(* ===== verification/Bottom_Up_Merge.thy ===== *)
theory Bottom_Up_Merge
  imports Bottom_Up
begin

text \<open>
  The solver computes what the rules derive, with the least costs. The argument is that of Dijkstra's algorithm over the
  derivations of a stratum: the facts of the buckets so far are exactly the derivable atoms of at most the current cost.
\<close>

section \<open>Cost buckets\<close>

definition bucket_at :: "cost_buckets \<Rightarrow> nat \<Rightarrow> atom set" where
  "bucket_at B c = (if c < length (cb_buckets B) then set (cb_buckets B ! c) else {})"

lemma bucket_at_resize: "bucket_at (resize_to_fit c B) d = bucket_at B d" "c < length (cb_buckets (resize_to_fit c B))"
  "cb_current (resize_to_fit c B) = cb_current B"
  by (auto simp: bucket_at_def resize_to_fit_def nth_append)

lemma bucket_at_insert: "bucket_at (cb_insert c a B) d = (if d = c then insert a (bucket_at B c) else bucket_at B d)"
proof -
  let ?B = "resize_to_fit c B"
  have "bucket_at (cb_insert c a B) d = (if d = c then insert a (bucket_at ?B c) else bucket_at ?B d)"
    using bucket_at_resize(2) [of c B] by (auto simp: cb_insert_def Let_def bucket_at_def nth_list_update)
  then show ?thesis by (simp add: bucket_at_resize(1))
qed

lemma bucket_at_erase: "bucket_at (cb_erase c a B) d = (if d = c then bucket_at B c - {a} else bucket_at B d)"
  by (auto simp: cb_erase_def bucket_at_def nth_list_update)

lemma bucket_at_clear: "bucket_at (clear_current B) d = (if d = cb_current B then {} else bucket_at B d)"
  by (auto simp: clear_current_def bucket_at_def nth_list_update)

lemma current_simps [simp]: "cb_current (cb_insert c a B) = cb_current B" "cb_current (cb_erase c a B) = cb_current B"
  "cb_current (clear_current B) = cb_current B" "cb_current (cb_update u a B) = cb_current B"
  by (simp_all add: cb_insert_def cb_erase_def clear_current_def cb_update_def bucket_at_resize(3) Let_def split: option.splits enat.splits)

lemma next_nonempty_spec:
  "c \<le> next_nonempty bs c \<and> (\<forall>d. c \<le> d \<longrightarrow> d < next_nonempty bs c \<longrightarrow> d < length bs \<and> bs ! d = [])
     \<and> (next_nonempty bs c < length bs \<longrightarrow> bs ! next_nonempty bs c \<noteq> [])"
proof (induction bs c rule: next_nonempty.induct)
  case (1 bs c)
  show ?case
  proof (cases "c < length bs \<and> bs ! c = []")
    case True
    then have n: "next_nonempty bs c = next_nonempty bs (c + 1)" by (subst next_nonempty.simps) simp
    have "d < length bs \<and> bs ! d = []" if "c \<le> d" "d < next_nonempty bs (c + 1)" for d
      using 1 [OF True] True that by (cases "d = c") auto
    then show ?thesis unfolding n using 1 [OF True] by auto
  next
    case False
    then have "next_nonempty bs c = c" by (subst next_nonempty.simps) auto
    then show ?thesis using False by auto
  qed
qed

lemma advance_spec:
  assumes "advance_to_next_nonempty B = (go, B')"
  shows "bucket_at B' = bucket_at B" "cb_current B \<le> cb_current B'" "\<forall>d. cb_current B \<le> d \<longrightarrow> d < cb_current B' \<longrightarrow> bucket_at B d = {}"
    "go \<Longrightarrow> bucket_at B (cb_current B') \<noteq> {}" "\<not> go \<Longrightarrow> cb_current B \<le> d \<Longrightarrow> bucket_at B d = {}" "set (get_current_bucket B') = bucket_at B (cb_current B')"
proof -
  have B': "B' = B\<lparr>cb_current := next_nonempty (cb_buckets B) (cb_current B)\<rparr>" "go \<longleftrightarrow> cb_current B' < length (cb_buckets B)"
    using assms by (auto simp: advance_to_next_nonempty_def Let_def)
  note N = next_nonempty_spec [of "cb_current B" "cb_buckets B", THEN conjunct1]
    next_nonempty_spec [of "cb_current B" "cb_buckets B", THEN conjunct2, THEN conjunct1] next_nonempty_spec [of "cb_current B" "cb_buckets B", THEN conjunct2, THEN conjunct2]
  show "bucket_at B' = bucket_at B" by (rule ext) (simp add: bucket_at_def B'(1))
  show "cb_current B \<le> cb_current B'" using N(1) by (simp add: B'(1))
  show "\<forall>d. cb_current B \<le> d \<longrightarrow> d < cb_current B' \<longrightarrow> bucket_at B d = {}" using N(2) by (simp add: B'(1) bucket_at_def)
  show "go \<Longrightarrow> bucket_at B (cb_current B') \<noteq> {}" using N(3) B'(2) by (simp add: B'(1) bucket_at_def)
  show "\<not> go \<Longrightarrow> cb_current B \<le> d \<Longrightarrow> bucket_at B d = {}"
    using N(2) B'(2) by (cases "d < next_nonempty (cb_buckets B) (cb_current B)") (auto simp: B'(1) bucket_at_def)
  show "set (get_current_bucket B') = bucket_at B (cb_current B')" by (simp add: get_current_bucket_def bucket_at_def B'(1))
qed

text \<open>From the current cost on, the buckets hold the atoms of each cost that are not yet facts; the current bucket may hold facts as well.\<close>

definition buckets_match :: "nat \<Rightarrow> atom set \<Rightarrow> (atom \<Rightarrow> enat) \<Rightarrow> cost_buckets \<Rightarrow> bool" where
  "buckets_match cur F \<kappa> B \<longleftrightarrow> (\<forall>c > cur. bucket_at B c = {a. a \<notin> F \<and> \<kappa> a = enat c})
     \<and> bucket_at B cur \<subseteq> {a. \<kappa> a = enat cur} \<and> {a. a \<notin> F \<and> \<kappa> a = enat cur} \<subseteq> bucket_at B cur"

lemma buckets_match_update:
  assumes "buckets_match cur F \<kappa> B" "cu_new u \<le> \<kappa> a" "cu_new u \<noteq> \<infinity>" "a \<in> F \<Longrightarrow> cu_new u = \<kappa> a \<and> \<kappa> a \<le> enat cur"
    and "cu_old u = None \<Longrightarrow> \<kappa> a = \<infinity> \<or> \<kappa> a = cu_new u" "\<And>c. cu_old u = Some c \<Longrightarrow> \<kappa> a = enat c"
  shows "buckets_match cur F (\<kappa>(a := cu_new u)) (cb_update u a B)"
proof -
  obtain n where n: "cu_new u = enat n" using assms(3) by auto
  have at: "bucket_at (cb_update u a B) c = (if c = n then insert a (bucket_at B c) else if cu_old u = Some c then bucket_at B c - {a} else bucket_at B c)" for c
    by (auto simp: cb_update_def n Let_def bucket_at_insert bucket_at_erase split: option.splits)
  have gt: "bucket_at (cb_update u a B) c = {b. b \<notin> F \<and> (\<kappa>(a := cu_new u)) b = enat c}" if c: "cur < c" for c
  proof -
    have old: "bucket_at B c = {b. b \<notin> F \<and> \<kappa> b = enat c}" using assms(1) c by (simp add: buckets_match_def)
    have "\<kappa> a = enat c \<Longrightarrow> c = n \<or> cu_old u = Some c" using assms(5,6) n by (cases "cu_old u") auto
    moreover have "c = n \<Longrightarrow> a \<notin> F" using assms(4) n c by (metis enat_ord_simps(1) not_le)
    ultimately show ?thesis unfolding at old n by (auto split: if_splits)
  qed
  have "bucket_at (cb_update u a B) cur \<subseteq> {b. (\<kappa>(a := cu_new u)) b = enat cur}"
    using assms(1,5,6) unfolding at buckets_match_def n by (cases "cu_old u") (auto split: if_splits)
  moreover have "{b. b \<notin> F \<and> (\<kappa>(a := cu_new u)) b = enat cur} \<subseteq> bucket_at (cb_update u a B) cur"
    using assms(1) unfolding at buckets_match_def n by auto
  ultimately show ?thesis using gt by (simp add: buckets_match_def)
qed


section \<open>Derivations\<close>

text \<open>
  The abstract meaning of a stratum: atoms are derived from the facts at its start, at a cost. The negative literals are read in
  the facts at the start; the predicates of the heads are none of theirs.
\<close>

definition side_holds :: "'v setting \<Rightarrow> nat list list \<Rightarrow> rule \<Rightarrow> facts \<Rightarrow> nat list \<Rightarrow> bool" where
  "side_holds E doms r F0 \<sigma> \<longleftrightarrow> in_domains (rl_body r) doms \<sigma> \<and> list_all (literal_holds (se_static E) \<sigma>) (cond_static (rl_body r))
     \<and> list_all (constraint_holds (se_values E) \<sigma>) (cond_numeric (rl_body r))
     \<and> (\<forall>l \<in> set (cond_fluent (rl_body r)). \<not> ll_polarity l \<longrightarrow> literal_holds F0 \<sigma> l)"

inductive derives :: "'v program \<Rightarrow> nat list list list \<Rightarrow> nat list \<Rightarrow> facts \<Rightarrow> (atom \<Rightarrow> enat) \<Rightarrow> atom \<Rightarrow> enat \<Rightarrow> bool"
  for P :: "'v program" and doms :: "nat list list list" and rs :: "nat list" and F0 :: facts and c0 :: "atom \<Rightarrow> enat" where
  derives_fact: "a \<in> F0 \<Longrightarrow> derives P doms rs F0 c0 a (c0 a)"
| derives_rule: "i \<in> set rs \<Longrightarrow> r = cr_rule (pg_rules P ! i) \<Longrightarrow> side_holds (pg_setting P) (doms ! i) r F0 \<sigma> \<Longrightarrow>
    (\<And>l. l \<in> set (witness_literals r) \<Longrightarrow> derives P doms rs F0 c0 (ground_atom_of \<sigma> l) (\<kappa> l)) \<Longrightarrow>
    derives P doms rs F0 c0 (ground_head r \<sigma>) (derivation_cost (pg_annotation P) r \<kappa>)"

definition head_predicates :: "'v program \<Rightarrow> nat list \<Rightarrow> nat set" where
  "head_predicates P rs = (\<lambda>i. rl_predicate (cr_rule (pg_rules P ! i))) ` set rs"

text \<open>What the facts of a stratum may have become: more atoms of the predicates of its heads.\<close>

definition extends_facts :: "'v program \<Rightarrow> nat list \<Rightarrow> facts \<Rightarrow> facts \<Rightarrow> bool" where
  "extends_facts P rs F0 F \<longleftrightarrow> F0 \<subseteq> F \<and> (\<forall>a \<in> F - F0. fst a \<in> head_predicates P rs)"

definition negation_free :: "'v program \<Rightarrow> nat list \<Rightarrow> bool" where
  "negation_free P rs \<longleftrightarrow> (\<forall>i \<in> set rs. \<forall>l \<in> set (cond_fluent (rl_body (cr_rule (pg_rules P ! i)))). \<not> ll_polarity l \<longrightarrow> ll_predicate l \<notin> head_predicates P rs)"

lemma fires_iff:
  assumes "negation_free P rs" "i \<in> set rs" "extends_facts P rs F0 F" "r = cr_rule (pg_rules P ! i)"
  shows "fires E d r F \<sigma> \<longleftrightarrow> side_holds E d r F0 \<sigma> \<and> (\<forall>l \<in> set (witness_literals r). ground_atom_of \<sigma> l \<in> F)"
proof -
  have "literal_holds F \<sigma> l \<longleftrightarrow> literal_holds F0 \<sigma> l" if "l \<in> set (cond_fluent (rl_body r))" "\<not> ll_polarity l" for l
  proof -
    have "fst (ground_atom_of \<sigma> l) \<notin> head_predicates P rs" using assms(1,2,4) that by (simp add: negation_free_def ground_atom_of_def)
    then have "ground_atom_of \<sigma> l \<in> F \<longleftrightarrow> ground_atom_of \<sigma> l \<in> F0" using assms(3) by (auto simp: extends_facts_def)
    then show ?thesis by (simp add: literal_holds_def)
  qed
  moreover have "ll_polarity l \<Longrightarrow> literal_holds F \<sigma> l \<longleftrightarrow> ground_atom_of \<sigma> l \<in> F" for l by (simp add: literal_holds_def)
  ultimately have "(\<forall>l \<in> set (cond_fluent (rl_body r)). literal_holds F \<sigma> l) \<longleftrightarrow>
      (\<forall>l \<in> set (cond_fluent (rl_body r)). \<not> ll_polarity l \<longrightarrow> literal_holds F0 \<sigma> l) \<and> (\<forall>l \<in> set (witness_literals r). ground_atom_of \<sigma> l \<in> F)"
    unfolding witness_literals_def set_filter by blast
  then show ?thesis unfolding fires_def side_holds_def valid_binding_def list_all_iff by blast
qed

lemma grows_for_extends:
  assumes "negation_free P rs" "i \<in> set rs" "extends_facts P rs F0 G" "extends_facts P rs F0 F" "G \<subseteq> F"
  shows "grows_for (cond_fluent (rl_body (cr_rule (pg_rules P ! i)))) G F"
proof -
  have "(ll_predicate l, obs) \<in> G" if "l \<in> set (cond_fluent (rl_body (cr_rule (pg_rules P ! i))))" "\<not> ll_polarity l" "(ll_predicate l, obs) \<in> F" for l obs
  proof -
    have "ll_predicate l \<notin> head_predicates P rs" using assms(1,2) that by (simp add: negation_free_def)
    then have "(ll_predicate l, obs) \<in> F0" using assms(4) that(3) unfolding extends_facts_def by force
    then show ?thesis using assms(3) by (auto simp: extends_facts_def)
  qed
  then show ?thesis using assms(5) by (auto simp: grows_for_def)
qed

lemma extends_facts_trans: "extends_facts P rs F0 G \<Longrightarrow> G \<subseteq> F \<Longrightarrow> \<forall>a \<in> F - G. fst a \<in> head_predicates P rs \<Longrightarrow> extends_facts P rs F0 F"
  by (auto simp: extends_facts_def)

section \<open>Merging\<close>

text \<open>The cost of an atom. Without annotations an atom costs nothing once it is a fact or in a bucket.\<close>

definition atom_cost :: "'v program \<Rightarrow> program_state \<Rightarrow> atom \<Rightarrow> enat" where
  "atom_cost P st a = (case pg_annotation P of No_Annotation \<Rightarrow> if a \<in> set (ps_facts st) \<or> a \<in> bucket_at (ps_buckets st) 0 then 0 else \<infinity>
     | Annotation agg \<Rightarrow> ps_costs st a)"

definition head_cost :: "'v program \<Rightarrow> and_annotations \<Rightarrow> atom \<Rightarrow> enat" where
  "head_cost P delta a = (case pg_annotation P of No_Annotation \<Rightarrow> 0 | Annotation agg \<Rightarrow> fetch_current_best_cost a delta)"

lemma merge_head_other: "merge_head P delta a st = st\<lparr>ps_costs := ps_costs (merge_head P delta a st), ps_witnesses := ps_witnesses (merge_head P delta a st),
    ps_buckets := ps_buckets (merge_head P delta a st)\<rparr>"
  by (simp add: merge_head_def split_beta Let_def)

lemma merge_head_frame [simp]: "ps_facts (merge_head P delta a st) = ps_facts st" "ps_sets (merge_head P delta a st) = ps_sets st"
  "ps_tp (merge_head P delta a st) = ps_tp st" "ps_rules (merge_head P delta a st) = ps_rules st"
  "ps_active_predicates (merge_head P delta a st) = ps_active_predicates st" "ps_active_rules (merge_head P delta a st) = ps_active_rules st"
  "cb_current (ps_buckets (merge_head P delta a st)) = cb_current (ps_buckets st)"
  by (simp_all add: merge_head_def split_beta Let_def)

lemma merge_head_step:
  assumes "buckets_match cur F (atom_cost P st) (ps_buckets st)" "F = set (ps_facts st)" "pg_annotation P = No_Annotation \<Longrightarrow> cur = 0"
    and "a \<in> F \<Longrightarrow> atom_cost P st a \<le> head_cost P delta a \<and> atom_cost P st a \<le> enat cur" "head_cost P delta a \<noteq> \<infinity> \<or> atom_cost P st a \<noteq> \<infinity>"
  shows "atom_cost P (merge_head P delta a st) = (atom_cost P st)(a := min (atom_cost P st a) (head_cost P delta a))"
    and "buckets_match cur F (atom_cost P (merge_head P delta a st)) (ps_buckets (merge_head P delta a st))"
    and "ps_witnesses (merge_head P delta a st) b = (if b = a \<and> pg_annotation P \<noteq> No_Annotation \<and> head_cost P delta a < atom_cost P st a then delta a else ps_witnesses st b)"
proof -
  let ?\<kappa> = "atom_cost P st" and ?st = "merge_head P delta a st" and ?c = "min (atom_cost P st a) (head_cost P delta a)"
  show cost: "atom_cost P ?st = ?\<kappa>(a := ?c)"
  proof (cases "pg_annotation P")
    case No_Annotation
    then show ?thesis
      by (intro ext) (simp add: atom_cost_def head_cost_def merge_head_def or_update_def cb_update_def bucket_at_insert Let_def zero_enat_def)
  next
    case (Annotation agg)
    then show ?thesis
      by (intro ext) (auto simp: atom_cost_def head_cost_def merge_head_def or_update_def fetch_current_best_cost_def Let_def min_def split_beta split: option.splits)
  qed
  show "ps_witnesses ?st b = (if b = a \<and> pg_annotation P \<noteq> No_Annotation \<and> head_cost P delta a < ?\<kappa> a then delta a else ps_witnesses st b)"
  proof (cases "pg_annotation P")
    case (Annotation agg)
    then show ?thesis
      by (auto simp: atom_cost_def head_cost_def merge_head_def or_update_def fetch_current_best_cost_def Let_def split_beta split: option.splits)
  qed (simp add: merge_head_def or_update_def)
  obtain u where u: "ps_buckets ?st = cb_update u a (ps_buckets st)" "cu_new u = ?c" "cu_old u = None \<Longrightarrow> ?\<kappa> a = \<infinity> \<or> ?\<kappa> a = cu_new u"
    "\<And>c. cu_old u = Some c \<Longrightarrow> ?\<kappa> a = enat c"
  proof (cases "pg_annotation P")
    case No_Annotation
    then have "ps_buckets ?st = cb_update \<lparr>cu_old = None, cu_new = 0\<rparr> a (ps_buckets st)" by (simp add: merge_head_def or_update_def)
    then show thesis by (rule that) (use No_Annotation in \<open>simp_all add: head_cost_def atom_cost_def\<close>)
  next
    case (Annotation agg)
    then have "ps_buckets ?st = cb_update (make_cost_update (?\<kappa> a) ?c) a (ps_buckets st)"
      by (auto simp: atom_cost_def head_cost_def merge_head_def or_update_def fetch_current_best_cost_def Let_def min_def split_beta split: option.splits)
    then show thesis by (rule that) (auto simp: make_cost_update_def split: enat.splits)
  qed
  show "buckets_match cur F (atom_cost P ?st) (ps_buckets ?st)"
    unfolding cost u(1) u(2) [symmetric]
  proof (rule buckets_match_update [OF assms(1)])
    show "cu_new u \<le> ?\<kappa> a" by (simp add: u(2))
    show "cu_new u \<noteq> \<infinity>" using assms(5) unfolding u(2) by (cases "head_cost P delta a"; cases "?\<kappa> a") simp_all
    show "a \<in> F \<Longrightarrow> cu_new u = ?\<kappa> a \<and> ?\<kappa> a \<le> enat cur" using assms(4) unfolding u(2) by (simp add: min_def)
  qed (fact u)+
qed


text \<open>What a rule hands over for a head: the least cost of its bindings with that head, when it improves on the cost so far.\<close>

definition rule_head :: "'v program \<Rightarrow> nat \<Rightarrow> nat list \<Rightarrow> atom" where
  "rule_head P i \<sigma> = ground_head (cr_rule (pg_rules P ! i)) \<sigma>"

definition rule_binding_cost :: "'v program \<Rightarrow> (atom \<Rightarrow> enat) \<Rightarrow> nat \<Rightarrow> nat list \<Rightarrow> enat" where
  "rule_binding_cost P \<kappa> i \<sigma> = binding_cost (pg_annotation P) \<kappa> (cr_rule (pg_rules P ! i)) \<sigma>"

definition rule_witness :: "'v program \<Rightarrow> (atom \<Rightarrow> enat) \<Rightarrow> nat \<Rightarrow> nat list \<Rightarrow> witness" where
  "rule_witness P \<kappa> i \<sigma> = \<lparr>wi_rule = cr_index (pg_rules P ! i), wi_binding = \<sigma>, wi_cost = rule_binding_cost P \<kappa> i \<sigma>\<rparr>"

definition lower_bounded :: "'v program \<Rightarrow> nat \<Rightarrow> (atom \<Rightarrow> enat) \<Rightarrow> nat \<Rightarrow> nat list \<Rightarrow> bool" where
  "lower_bounded P cur \<kappa> i \<sigma> \<longleftrightarrow> \<kappa> (rule_head P i \<sigma>) \<le> rule_binding_cost P \<kappa> i \<sigma>
     \<or> pg_annotation P \<noteq> No_Annotation \<and> enat (cur + rl_cost (cr_rule (pg_rules P ! i))) \<le> rule_binding_cost P \<kappa> i \<sigma>
     \<or> pg_annotation P = No_Annotation"

lemma emitted_costs:
  assumes "emits (iteration_input P st) (pg_rules P ! i) \<sigma>s rst" "a \<in> set (rs_heads rst)" "\<kappa> = atom_cost P st"
    and "\<forall>\<sigma> \<in> set \<sigma>s. lower_bounded P (cb_current (ps_buckets st)) \<kappa> i \<sigma>"
  shows "x \<le> \<kappa> a \<and> x \<le> head_cost P (rs_annotations rst) a \<longleftrightarrow> x \<le> \<kappa> a \<and> (\<forall>\<sigma> \<in> set \<sigma>s. rule_head P i \<sigma> = a \<longrightarrow> x \<le> rule_binding_cost P \<kappa> i \<sigma>)"
    and "head_cost P (rs_annotations rst) a < \<kappa> a \<Longrightarrow> \<exists>\<sigma> \<in> set \<sigma>s. rule_head P i \<sigma> = a \<and> head_cost P (rs_annotations rst) a = rule_binding_cost P \<kappa> i \<sigma>
      \<and> (pg_annotation P \<noteq> No_Annotation \<longrightarrow> rs_annotations rst a = Some (rule_witness P \<kappa> i \<sigma>))"
proof -
  note H = emits_heads [OF assms(1)]
  show "x \<le> \<kappa> a \<and> x \<le> head_cost P (rs_annotations rst) a \<longleftrightarrow> x \<le> \<kappa> a \<and> (\<forall>\<sigma> \<in> set \<sigma>s. rule_head P i \<sigma> = a \<longrightarrow> x \<le> rule_binding_cost P \<kappa> i \<sigma>)"
  proof (cases "pg_annotation P")
    case No_Annotation
    then show ?thesis using assms(2) unfolding H(1) by (auto simp: head_cost_def rule_binding_cost_def binding_cost_def derivation_cost_def rule_head_def)
  next
    case (Annotation agg)
    have "x \<le> min (\<kappa> a) (fetch_current_best_cost a (rs_annotations rst)) \<longleftrightarrow>
        x \<le> min (\<kappa> a) (fetch_current_best_cost a (\<lambda>a. None)) \<and> (\<forall>\<sigma> \<in> set \<sigma>s. rule_head P i \<sigma> = a \<longrightarrow> x \<le> rule_binding_cost P \<kappa> i \<sigma>)"
      using and_updates_spec(1) [where oa = \<kappa> and agg = agg and current = "cb_current (ps_buckets st)" and r = "cr_rule (pg_rules P ! i)" and \<sigma>s = \<sigma>s and am' = "rs_annotations rst" and am = "\<lambda>a. None"
          and i = "cr_index (pg_rules P ! i)"] assms(4)
      unfolding H(3) lower_bounded_def rule_head_def rule_binding_cost_def assms(3) atom_cost_def iteration_input_def Annotation by (simp add: disj_commute)
    then show ?thesis by (simp add: head_cost_def Annotation fetch_current_best_cost_def)
  qed
  assume less: "head_cost P (rs_annotations rst) a < \<kappa> a"
  show "\<exists>\<sigma> \<in> set \<sigma>s. rule_head P i \<sigma> = a \<and> head_cost P (rs_annotations rst) a = rule_binding_cost P \<kappa> i \<sigma>
      \<and> (pg_annotation P \<noteq> No_Annotation \<longrightarrow> rs_annotations rst a = Some (rule_witness P \<kappa> i \<sigma>))"
  proof (cases "pg_annotation P")
    case No_Annotation
    then show ?thesis using assms(2) unfolding H(1) by (auto simp: head_cost_def rule_binding_cost_def binding_cost_def derivation_cost_def rule_head_def)
  next
    case (Annotation agg)
    then obtain w where w: "rs_annotations rst a = Some w" using less by (auto simp: head_cost_def fetch_current_best_cost_def split: option.splits)
    have "None = Some w \<or> wi_cost w < \<kappa> a \<and> (\<exists>\<sigma> \<in> set \<sigma>s. ground_head (cr_rule (pg_rules P ! i)) \<sigma> = a
        \<and> w = \<lparr>wi_rule = cr_index (pg_rules P ! i), wi_binding = \<sigma>, wi_cost = binding_cost (Annotation agg) \<kappa> (cr_rule (pg_rules P ! i)) \<sigma>\<rparr>)"
      using and_updates_spec(2) [where oa = \<kappa> and agg = agg and current = "cb_current (ps_buckets st)" and r = "cr_rule (pg_rules P ! i)" and \<sigma>s = \<sigma>s and am' = "rs_annotations rst" and am = "\<lambda>a. None"
          and i = "cr_index (pg_rules P ! i)" and a = a and w = w] assms(4) w
      unfolding H(3) lower_bounded_def rule_head_def rule_binding_cost_def assms(3) atom_cost_def iteration_input_def Annotation by (simp add: disj_commute)
    then obtain \<sigma> where "\<sigma> \<in> set \<sigma>s" "rule_head P i \<sigma> = a" "w = rule_witness P \<kappa> i \<sigma>"
      by (auto simp: rule_head_def rule_witness_def rule_binding_cost_def Annotation)
    then show ?thesis using w by (intro bexI [of _ \<sigma>]) (simp_all add: head_cost_def Annotation fetch_current_best_cost_def rule_witness_def)
  qed
qed


text \<open>The state after a set of bindings, each with its rule, has been merged.\<close>

definition merged :: "'v program \<Rightarrow> program_state \<Rightarrow> (atom \<Rightarrow> enat) \<Rightarrow> (nat \<times> nat list) set \<Rightarrow> program_state \<Rightarrow> bool" where
  "merged P st0 \<kappa>0 D st \<longleftrightarrow>
     (\<forall>a x. x \<le> atom_cost P st a \<longleftrightarrow> x \<le> \<kappa>0 a \<and> (\<forall>(i, \<sigma>) \<in> D. rule_head P i \<sigma> = a \<longrightarrow> x \<le> rule_binding_cost P \<kappa>0 i \<sigma>))
   \<and> (\<forall>a. atom_cost P st a = \<kappa>0 a \<and> ps_witnesses st a = ps_witnesses st0 a
        \<or> (\<exists>(i, \<sigma>) \<in> D. rule_head P i \<sigma> = a \<and> atom_cost P st a = rule_binding_cost P \<kappa>0 i \<sigma>
            \<and> (pg_annotation P \<noteq> No_Annotation \<longrightarrow> ps_witnesses st a = Some (rule_witness P \<kappa>0 i \<sigma>))))
   \<and> buckets_match (cb_current (ps_buckets st0)) (set (ps_facts st0)) (atom_cost P st) (ps_buckets st)
   \<and> ps_facts st = ps_facts st0 \<and> ps_sets st = ps_sets st0 \<and> ps_tp st = ps_tp st0 \<and> ps_rules st = ps_rules st0
   \<and> ps_active_predicates st = ps_active_predicates st0 \<and> ps_active_rules st = ps_active_rules st0 \<and> cb_current (ps_buckets st) = cb_current (ps_buckets st0)"

lemma mergedD:
  assumes "merged P st0 \<kappa>0 D st"
  shows "x \<le> atom_cost P st a \<longleftrightarrow> x \<le> \<kappa>0 a \<and> (\<forall>(i, \<sigma>) \<in> D. rule_head P i \<sigma> = a \<longrightarrow> x \<le> rule_binding_cost P \<kappa>0 i \<sigma>)"
    and "atom_cost P st a = \<kappa>0 a \<and> ps_witnesses st a = ps_witnesses st0 a
        \<or> (\<exists>(i, \<sigma>) \<in> D. rule_head P i \<sigma> = a \<and> atom_cost P st a = rule_binding_cost P \<kappa>0 i \<sigma>
            \<and> (pg_annotation P \<noteq> No_Annotation \<longrightarrow> ps_witnesses st a = Some (rule_witness P \<kappa>0 i \<sigma>)))"
    and "buckets_match (cb_current (ps_buckets st0)) (set (ps_facts st0)) (atom_cost P st) (ps_buckets st)"
    and "ps_facts st = ps_facts st0" "ps_sets st = ps_sets st0" "ps_tp st = ps_tp st0" "ps_rules st = ps_rules st0"
      "ps_active_predicates st = ps_active_predicates st0" "ps_active_rules st = ps_active_rules st0" "cb_current (ps_buckets st) = cb_current (ps_buckets st0)"
  using assms unfolding merged_def by blast+

text \<open>The facts cost no more than the current cost and than their new bindings, and all bindings have a cost.\<close>

definition settled_costs :: "'v program \<Rightarrow> program_state \<Rightarrow> (atom \<Rightarrow> enat) \<Rightarrow> nat \<Rightarrow> nat list \<Rightarrow> bool" where
  "settled_costs P st \<kappa> i \<sigma> \<longleftrightarrow> rule_binding_cost P \<kappa> i \<sigma> \<noteq> \<infinity> \<and> (rule_head P i \<sigma> \<in> set (ps_facts st) \<longrightarrow>
     \<kappa> (rule_head P i \<sigma>) \<le> enat (cb_current (ps_buckets st)) \<and> \<kappa> (rule_head P i \<sigma>) \<le> rule_binding_cost P \<kappa> i \<sigma>)"

lemma merge_head_merged:
  assumes "merged P st0 \<kappa>0 D st" "emits (iteration_input P st1) (pg_rules P ! i) \<sigma>s rst" "\<kappa>0 = atom_cost P st1" "a \<in> set (rs_heads rst)"
    and "cb_current (ps_buckets st1) = cb_current (ps_buckets st0)" "pg_annotation P = No_Annotation \<Longrightarrow> cb_current (ps_buckets st0) = 0"
    and "\<forall>\<sigma> \<in> set \<sigma>s. lower_bounded P (cb_current (ps_buckets st0)) \<kappa>0 i \<sigma> \<and> settled_costs P st0 \<kappa>0 i \<sigma>"
  shows "merged P st0 \<kappa>0 (D \<union> {(i, \<sigma>) | \<sigma>. \<sigma> \<in> set \<sigma>s \<and> rule_head P i \<sigma> = a}) (merge_head P (rs_annotations rst) a st)"
proof -
  let ?D = "D \<union> {(i, \<sigma>) | \<sigma>. \<sigma> \<in> set \<sigma>s \<and> rule_head P i \<sigma> = a}" and ?st = "merge_head P (rs_annotations rst) a st" and ?h = "head_cost P (rs_annotations rst) a"
  let ?F = "set (ps_facts st0)" and ?cur = "cb_current (ps_buckets st0)"
  note M = mergedD [OF assms(1)]
  have "\<forall>\<sigma> \<in> set \<sigma>s. lower_bounded P (cb_current (ps_buckets st1)) \<kappa>0 i \<sigma>" using assms(5,7) by simp
  note EC = emitted_costs [OF assms(2,4,3) this]
  obtain \<sigma>0 where \<sigma>0: "\<sigma>0 \<in> set \<sigma>s" "rule_head P i \<sigma>0 = a" using assms(4) unfolding emits_heads(1) [OF assms(2)] rule_head_def by blast
  have fact: "atom_cost P st a \<le> ?h \<and> atom_cost P st a \<le> enat ?cur" if "a \<in> ?F"
  proof -
    have "\<kappa>0 a \<le> enat ?cur" "\<forall>\<sigma> \<in> set \<sigma>s. rule_head P i \<sigma> = a \<longrightarrow> \<kappa>0 a \<le> rule_binding_cost P \<kappa>0 i \<sigma>"
      using assms(7) \<sigma>0 that by (auto simp: settled_costs_def)
    moreover have "atom_cost P st a \<le> \<kappa>0 a" using M(1) [of "atom_cost P st a" a] by simp
    ultimately show ?thesis using EC(1) [of "\<kappa>0 a"] by (metis order_refl order_trans)
  qed
  have fin: "?h \<noteq> \<infinity> \<or> atom_cost P st a \<noteq> \<infinity>"
  proof (rule ccontr)
    assume "\<not> ?thesis"
    then have "\<infinity> \<le> \<kappa>0 a \<and> \<infinity> \<le> ?h" using M(1) [of \<infinity> a] by auto
    then have "\<infinity> \<le> rule_binding_cost P \<kappa>0 i \<sigma>0" using EC(1) [of \<infinity>] \<sigma>0 by blast
    then show False using assms(7) \<sigma>0 by (auto simp: settled_costs_def)
  qed
  note S = merge_head_step [OF M(3) M(4) [THEN arg_cong, symmetric, of set] assms(6) fact fin, simplified]
  have cost: "atom_cost P ?st b = (if b = a then min (atom_cost P st a) ?h else atom_cost P st b)" for b using S(1) by simp
  have glb: "x \<le> atom_cost P ?st b \<longleftrightarrow> x \<le> \<kappa>0 b \<and> (\<forall>(j, \<sigma>) \<in> ?D. rule_head P j \<sigma> = b \<longrightarrow> x \<le> rule_binding_cost P \<kappa>0 j \<sigma>)" for x b
  proof (cases "b = a")
    case True
    then have "x \<le> atom_cost P ?st b \<longleftrightarrow> x \<le> atom_cost P st a \<and> x \<le> ?h" unfolding cost by simp
    also have "\<dots> \<longleftrightarrow> (\<forall>(j, \<sigma>) \<in> D. rule_head P j \<sigma> = a \<longrightarrow> x \<le> rule_binding_cost P \<kappa>0 j \<sigma>) \<and> x \<le> \<kappa>0 a \<and> x \<le> ?h" unfolding M(1) by blast
    also have "\<dots> \<longleftrightarrow> x \<le> \<kappa>0 b \<and> (\<forall>(j, \<sigma>) \<in> ?D. rule_head P j \<sigma> = b \<longrightarrow> x \<le> rule_binding_cost P \<kappa>0 j \<sigma>)" unfolding EC(1) True by auto
    finally show ?thesis .
  next
    case False
    then show ?thesis unfolding cost using M(1) [of x b] by auto
  qed
  have wit: "atom_cost P ?st b = \<kappa>0 b \<and> ps_witnesses ?st b = ps_witnesses st0 b
        \<or> (\<exists>(j, \<sigma>) \<in> ?D. rule_head P j \<sigma> = b \<and> atom_cost P ?st b = rule_binding_cost P \<kappa>0 j \<sigma>
            \<and> (pg_annotation P \<noteq> No_Annotation \<longrightarrow> ps_witnesses ?st b = Some (rule_witness P \<kappa>0 j \<sigma>)))" for b
  proof (cases "b = a \<and> ?h < atom_cost P st a")
    case True
    then have "?h < \<kappa>0 a" using M(1) [of "atom_cost P st a" a] by (metis order_refl less_le_trans)
    then obtain \<sigma> where \<sigma>: "\<sigma> \<in> set \<sigma>s" "rule_head P i \<sigma> = a" "?h = rule_binding_cost P \<kappa>0 i \<sigma>"
      "pg_annotation P \<noteq> No_Annotation \<longrightarrow> rs_annotations rst a = Some (rule_witness P \<kappa>0 i \<sigma>)" using EC(2) by blast
    have "atom_cost P ?st b = ?h" using True cost [of b] by auto
    moreover have "pg_annotation P \<noteq> No_Annotation \<Longrightarrow> ps_witnesses ?st b = rs_annotations rst a" using True S(3) [of b] by simp
    ultimately have "rule_head P i \<sigma> = b \<and> atom_cost P ?st b = rule_binding_cost P \<kappa>0 i \<sigma> \<and> (pg_annotation P \<noteq> No_Annotation \<longrightarrow> ps_witnesses ?st b = Some (rule_witness P \<kappa>0 i \<sigma>))"
      using True \<sigma> by simp
    moreover have "(i, \<sigma>) \<in> ?D" using \<sigma> by blast
    ultimately show ?thesis by blast
  next
    case False
    then have "atom_cost P ?st b = atom_cost P st b" "ps_witnesses ?st b = ps_witnesses st b" using cost [of b] S(3) [of b] by (auto simp: min_def)
    then show ?thesis using M(2) [of b] by auto
  qed
  show ?thesis unfolding merged_def using glb wit S(2) M(4-10) by simp
qed


text \<open>What the active rules have emitted in an iteration from the state \<open>st1\<close>.\<close>

definition emission_ok :: "'v program \<Rightarrow> program_state \<Rightarrow> program_state \<Rightarrow> (nat \<Rightarrow> nat list list) \<Rightarrow> nat \<Rightarrow> bool" where
  "emission_ok P st1 st0 \<sigma>s i \<longleftrightarrow> emits (iteration_input P st1) (pg_rules P ! i) (\<sigma>s i) (ps_rules st0 ! i)
     \<and> (\<forall>\<sigma> \<in> set (\<sigma>s i). lower_bounded P (cb_current (ps_buckets st0)) (atom_cost P st1) i \<sigma> \<and> settled_costs P st0 (atom_cost P st1) i \<sigma>)"

lemma merge_rule_merged:
  assumes "merged P st0 (atom_cost P st1) D st" "emission_ok P st1 st0 \<sigma>s i"
    and "cb_current (ps_buckets st1) = cb_current (ps_buckets st0)" "pg_annotation P = No_Annotation \<Longrightarrow> cb_current (ps_buckets st0) = 0"
  shows "merged P st0 (atom_cost P st1) (D \<union> {(i, \<sigma>) | \<sigma>. \<sigma> \<in> set (\<sigma>s i)}) (merge_rule P i st)"
proof -
  let ?rst = "ps_rules st0 ! i"
  have em: "emits (iteration_input P st1) (pg_rules P ! i) (\<sigma>s i) ?rst"
    "\<forall>\<sigma> \<in> set (\<sigma>s i). lower_bounded P (cb_current (ps_buckets st0)) (atom_cost P st1) i \<sigma> \<and> settled_costs P st0 (atom_cost P st1) i \<sigma>"
    using assms(2) by (simp_all add: emission_ok_def)
  have "merged P st0 (atom_cost P st1) (D \<union> {(i, \<sigma>) | \<sigma>. \<sigma> \<in> set (\<sigma>s i) \<and> rule_head P i \<sigma> \<in> set hs}) (fold (merge_head P (rs_annotations ?rst)) hs st)"
    if "set hs \<subseteq> set (rs_heads ?rst)" for hs
    using that
  proof (induction hs rule: rev_induct)
    case Nil
    then show ?case using assms(1) by simp
  next
    case (snoc a hs)
    have "(D \<union> {(i, \<sigma>) | \<sigma>. \<sigma> \<in> set (\<sigma>s i) \<and> rule_head P i \<sigma> \<in> set (hs @ [a])})
        = (D \<union> {(i, \<sigma>) | \<sigma>. \<sigma> \<in> set (\<sigma>s i) \<and> rule_head P i \<sigma> \<in> set hs}) \<union> {(i, \<sigma>) | \<sigma>. \<sigma> \<in> set (\<sigma>s i) \<and> rule_head P i \<sigma> = a}" by auto
    then show ?case using merge_head_merged [OF snoc.IH em(1) refl _ assms(3,4) em(2), of a] snoc.prems by simp
  qed
  from this [OF subset_refl] have "merged P st0 (atom_cost P st1) (D \<union> {(i, \<sigma>) | \<sigma>. \<sigma> \<in> set (\<sigma>s i) \<and> rule_head P i \<sigma> \<in> set (rs_heads ?rst)}) (merge_rule P i st)"
    using mergedD(7) [OF assms(1)] by (simp add: merge_rule_def)
  moreover have "{(i, \<sigma>) | \<sigma>. \<sigma> \<in> set (\<sigma>s i) \<and> rule_head P i \<sigma> \<in> set (rs_heads ?rst)} = {(i, \<sigma>) | \<sigma>. \<sigma> \<in> set (\<sigma>s i)}"
    unfolding emits_heads(1) [OF em(1)] rule_head_def by auto
  ultimately show ?thesis by simp
qed

lemma merge_active_merged:
  assumes "buckets_match (cb_current (ps_buckets st0)) (set (ps_facts st0)) (atom_cost P st0) (ps_buckets st0)" "atom_cost P st0 = atom_cost P st1"
    and "\<forall>i \<in> set (ps_active_rules st0). emission_ok P st1 st0 \<sigma>s i"
    and "cb_current (ps_buckets st1) = cb_current (ps_buckets st0)" "pg_annotation P = No_Annotation \<Longrightarrow> cb_current (ps_buckets st0) = 0"
  shows "merged P st0 (atom_cost P st1) {(i, \<sigma>). i \<in> set (ps_active_rules st0) \<and> \<sigma> \<in> set (\<sigma>s i)} (merge_active P st0)"
proof -
  have "merged P st0 (atom_cost P st1) {(i, \<sigma>). i \<in> set rs \<and> \<sigma> \<in> set (\<sigma>s i)} (fold (merge_rule P) rs st0)" if "set rs \<subseteq> set (ps_active_rules st0)" for rs
    using that
  proof (induction rs rule: rev_induct)
    case Nil
    then show ?case using assms(1,2) by (auto simp: merged_def)
  next
    case (snoc i rs)
    have "{(j, \<sigma>). j \<in> set (rs @ [i]) \<and> \<sigma> \<in> set (\<sigma>s j)} = {(j, \<sigma>). j \<in> set rs \<and> \<sigma> \<in> set (\<sigma>s j)} \<union> {(i, \<sigma>) | \<sigma>. \<sigma> \<in> set (\<sigma>s i)}" by auto
    then show ?case using merge_rule_merged [OF snoc.IH _ assms(4,5), where i = i] snoc.prems assms(3) by auto
  qed
  then show ?thesis by (simp add: merge_active_def)
qed

section \<open>An iteration\<close>

lemma fold_update_other: "i \<notin> set rs \<Longrightarrow> fold (\<lambda>i xs. xs[i := f i (xs ! i)]) rs xs ! i = xs ! i"
  by (induction rs arbitrary: xs) auto

lemma fold_update:
  "distinct rs \<Longrightarrow> i < length xs \<Longrightarrow> fold (\<lambda>i xs. xs[i := f i (xs ! i)]) rs xs ! i = (if i \<in> set rs then f i (xs ! i) else xs ! i)"
proof (induction rs arbitrary: xs)
  case (Cons j rs)
  then show ?case by (cases "i = j") (simp_all add: fold_update_other)
qed simp

lemma length_fold_update: "length (fold (\<lambda>i xs. xs[i := f i (xs ! i)]) rs xs) = length xs"
  by (induction rs arbitrary: xs) simp_all

lemma set_fold_insert: "set (fold List.insert xs ys) = set xs \<union> set ys" "distinct ys \<Longrightarrow> distinct (fold List.insert xs ys)"
  by (induction xs arbitrary: ys) auto

text \<open>The new facts of an iteration.\<close>

lemma fold_insert_head:
  assumes "st' = fold (insert_head P) as st" "sets_hold fpreds n (ps_sets st) (set (ps_facts st))" "\<forall>a \<in> set as. legal_atom fpreds a"
  shows "set (ps_facts st') = set (ps_facts st) \<union> set as" "sets_hold fpreds n (ps_sets st') (set (ps_facts st'))"
    "set (ps_active_predicates st') = set (ps_active_predicates st) \<union> fst ` (set as - set (ps_facts st))"
    "ps_costs st' = ps_costs st" "ps_witnesses st' = ps_witnesses st" "ps_rules st' = ps_rules st" "ps_buckets st' = ps_buckets st" "ps_active_rules st' = ps_active_rules st"
proof -
  have "set (ps_facts st') = set (ps_facts st) \<union> set as \<and> sets_hold fpreds n (ps_sets st') (set (ps_facts st'))
    \<and> set (ps_active_predicates st') = set (ps_active_predicates st) \<union> fst ` (set as - set (ps_facts st))
    \<and> ps_costs st' = ps_costs st \<and> ps_witnesses st' = ps_witnesses st \<and> ps_rules st' = ps_rules st \<and> ps_buckets st' = ps_buckets st \<and> ps_active_rules st' = ps_active_rules st"
    using assms
  proof (induction as arbitrary: st)
    case (Cons a as)
    let ?st = "insert_head P a st"
    have *: "set (ps_facts ?st) = insert a (set (ps_facts st))" "sets_hold fpreds n (ps_sets ?st) (set (ps_facts ?st))"
      using Cons.prems(2,3) sets_hold_insert [OF Cons.prems(2), of a] by (auto simp: insert_head_def on_generate_def insert_absorb)
    have "set (ps_active_predicates ?st) = set (ps_active_predicates st) \<union> (if a \<in> set (ps_facts st) then {} else {fst a})"
      "ps_costs ?st = ps_costs st" "ps_witnesses ?st = ps_witnesses st" "ps_rules ?st = ps_rules st" "ps_buckets ?st = ps_buckets st" "ps_active_rules ?st = ps_active_rules st"
      by (auto simp: insert_head_def on_generate_def)
    then show ?case using Cons.IH [of ?st] Cons.prems *(2) unfolding *(1) by auto
  qed simp
  then show "set (ps_facts st') = set (ps_facts st) \<union> set as" "sets_hold fpreds n (ps_sets st') (set (ps_facts st'))"
    "set (ps_active_predicates st') = set (ps_active_predicates st) \<union> fst ` (set as - set (ps_facts st))"
    "ps_costs st' = ps_costs st" "ps_witnesses st' = ps_witnesses st" "ps_rules st' = ps_rules st" "ps_buckets st' = ps_buckets st" "ps_active_rules st' = ps_active_rules st"
    by blast+
qed

end
