(* ===== verification/Bottom_Up_Strata.thy ===== *)
theory Bottom_Up_Strata
  imports Bottom_Up_Merge
begin

text \<open>
  The invariant of the loop over one stratum, an iteration, and the composition of the strata.
\<close>

section \<open>The invariant\<close>

text \<open>
  A program whose rules come from the setting. The heads of the bindings within the domains of the parameters are atoms of the
  schema, which the analysis of the domains guarantees.
\<close>

definition program_ok :: "'v program \<Rightarrow> nat list list list \<Rightarrow> bool" where
  "program_ok P doms \<longleftrightarrow> setting_ok (pg_setting P) \<and> (\<forall>i < length (pg_rules P). rule_fits (pg_setting P) (doms ! i) (pg_rules P ! i) \<and> cr_index (pg_rules P ! i) = i
     \<and> (\<forall>\<sigma>. in_domains (rl_body (cr_rule (pg_rules P ! i))) (doms ! i) \<sigma> \<longrightarrow> legal_atom (se_fpreds (pg_setting P)) (rule_head P i \<sigma>)))"

definition stratum_ok :: "'v program \<Rightarrow> stratum \<Rightarrow> bool" where
  "stratum_ok P sm \<longleftrightarrow> (\<forall>i \<in> set (sm_rules sm). i < length (pg_rules P)) \<and> negation_free P (sm_rules sm)
     \<and> (\<forall>p i. i \<in> set (sm_listeners sm p) \<longleftrightarrow> i \<in> set (sm_rules sm) \<and> (\<exists>l \<in> set (witness_literals (cr_rule (pg_rules P ! i))). ll_predicate l = p))"

definition rule_fires :: "'v program \<Rightarrow> nat list list list \<Rightarrow> nat \<Rightarrow> facts \<Rightarrow> nat list \<Rightarrow> bool" where
  "rule_fires P doms i F \<sigma> \<longleftrightarrow> fires (pg_setting P) (doms ! i) (cr_rule (pg_rules P ! i)) F \<sigma>"

definition rule_fired :: "'v program \<Rightarrow> nat list list list \<Rightarrow> nat \<Rightarrow> facts option \<Rightarrow> nat list \<Rightarrow> bool" where
  "rule_fired P doms i F0 \<sigma> \<longleftrightarrow> fired (pg_setting P) (doms ! i) (cr_rule (pg_rules P ! i)) F0 \<sigma>"

definition inv_state :: "'v program \<Rightarrow> stratum \<Rightarrow> facts \<Rightarrow> program_state \<Rightarrow> bool" where
  "inv_state P sm F0 st \<longleftrightarrow> sets_hold (se_fpreds (pg_setting P)) (se_objects (pg_setting P)) (ps_sets st) (set (ps_facts st))
     \<and> length (ps_rules st) = length (pg_rules P) \<and> distinct (ps_active_rules st) \<and> set (ps_active_rules st) \<subseteq> set (sm_rules sm)
     \<and> extends_facts P (sm_rules sm) F0 (set (ps_facts st)) \<and> (pg_annotation P = No_Annotation \<longrightarrow> cb_current (ps_buckets st) = 0)"

text \<open>The facts are the atoms of at most the current cost, all costs are those of derivations, and no fact has a cheaper one.\<close>

definition inv_costs :: "'v program \<Rightarrow> nat list list list \<Rightarrow> stratum \<Rightarrow> facts \<Rightarrow> (atom \<Rightarrow> enat) \<Rightarrow> program_state \<Rightarrow> bool" where
  "inv_costs P doms sm F0 c0 st \<longleftrightarrow>
     (\<forall>a. atom_cost P st a \<noteq> \<infinity> \<longrightarrow> derives P doms (sm_rules sm) F0 c0 a (atom_cost P st a))
   \<and> (\<forall>a \<in> set (ps_facts st). atom_cost P st a \<noteq> \<infinity> \<and> (\<forall>k. derives P doms (sm_rules sm) F0 c0 a k \<longrightarrow> atom_cost P st a \<le> k)
        \<and> (fst a \<in> head_predicates P (sm_rules sm) \<longrightarrow> atom_cost P st a \<le> enat (cb_current (ps_buckets st))))
   \<and> (\<forall>a. a \<notin> set (ps_facts st) \<longrightarrow> enat (cb_current (ps_buckets st)) < atom_cost P st a)
   \<and> (\<forall>c > cb_current (ps_buckets st). bucket_at (ps_buckets st) c = {a. a \<notin> set (ps_facts st) \<and> atom_cost P st a = enat c})"

text \<open>Each rule has been executed on some of the facts; the bindings that have come to fire since then belong to active rules and cost at least the current cost.\<close>

definition inv_rules :: "'v program \<Rightarrow> nat list list list \<Rightarrow> stratum \<Rightarrow> facts \<Rightarrow> (nat \<Rightarrow> facts option) \<Rightarrow> program_state \<Rightarrow> bool" where
  "inv_rules P doms sm F0 Fr st \<longleftrightarrow> (\<forall>i \<in> set (sm_rules sm). rule_at (pg_setting P) (doms ! i) (pg_rules P ! i) (Fr i) (ps_rules st ! i)
     \<and> (\<forall>G. Fr i = Some G \<longrightarrow> extends_facts P (sm_rules sm) F0 G \<and> G \<subseteq> set (ps_facts st))
     \<and> (\<forall>\<sigma>. rule_fired P doms i (Fr i) \<sigma> \<longrightarrow> atom_cost P st (rule_head P i \<sigma>) \<le> rule_binding_cost P (atom_cost P st) i \<sigma>)
     \<and> (\<forall>\<sigma>. rule_fires P doms i (set (ps_facts st)) \<sigma> \<longrightarrow> \<not> rule_fired P doms i (Fr i) \<sigma> \<longrightarrow> i \<in> set (ps_active_rules st)
          \<and> (pg_annotation P \<noteq> No_Annotation \<longrightarrow>
               enat (cb_current (ps_buckets st) + rl_cost (cr_rule (pg_rules P ! i))) \<le> rule_binding_cost P (atom_cost P st) i \<sigma>)))"

text \<open>With annotations, each derived atom has a witness: a binding of a rule that fires and has the cost of the atom.\<close>

definition has_witness :: "'v program \<Rightarrow> nat list list list \<Rightarrow> nat list \<Rightarrow> facts \<Rightarrow> program_state \<Rightarrow> atom \<Rightarrow> bool" where
  "has_witness P doms rs F st a \<longleftrightarrow> (\<exists>i \<in> set rs. \<exists>\<sigma>. rule_fires P doms i F \<sigma> \<and> rule_head P i \<sigma> = a
     \<and> ps_witnesses st a = Some (rule_witness P (atom_cost P st) i \<sigma>) \<and> atom_cost P st a = rule_binding_cost P (atom_cost P st) i \<sigma>)"

definition inv_witnesses :: "'v program \<Rightarrow> nat list list list \<Rightarrow> stratum \<Rightarrow> facts \<Rightarrow> program_state \<Rightarrow> bool" where
  "inv_witnesses P doms sm F0 st \<longleftrightarrow> (pg_annotation P \<noteq> No_Annotation \<longrightarrow>
     (\<forall>a. a \<notin> F0 \<longrightarrow> atom_cost P st a \<noteq> \<infinity> \<longrightarrow> has_witness P doms (sm_rules sm) (set (ps_facts st)) st a))"

definition stratum_inv :: "'v program \<Rightarrow> nat list list list \<Rightarrow> stratum \<Rightarrow> facts \<Rightarrow> (atom \<Rightarrow> enat) \<Rightarrow> (nat \<Rightarrow> facts option) \<Rightarrow> program_state \<Rightarrow> bool" where
  "stratum_inv P doms sm F0 c0 Fr st \<longleftrightarrow> inv_state P sm F0 st \<and> inv_costs P doms sm F0 c0 st \<and> inv_rules P doms sm F0 Fr st \<and> inv_witnesses P doms sm F0 st"

lemma program_okD:
  assumes "program_ok P doms" "stratum_ok P sm" "i \<in> set (sm_rules sm)"
  shows "setting_ok (pg_setting P)" "i < length (pg_rules P)" "rule_fits (pg_setting P) (doms ! i) (pg_rules P ! i)" "cr_index (pg_rules P ! i) = i"
    and "in_domains (rl_body (cr_rule (pg_rules P ! i))) (doms ! i) \<sigma> \<Longrightarrow> legal_atom (se_fpreds (pg_setting P)) (rule_head P i \<sigma>)"
  using assms by (simp_all add: program_ok_def stratum_ok_def)

lemma rule_fires_iff:
  assumes "stratum_ok P sm" "i \<in> set (sm_rules sm)" "extends_facts P (sm_rules sm) F0 F"
  shows "rule_fires P doms i F \<sigma> \<longleftrightarrow> side_holds (pg_setting P) (doms ! i) (cr_rule (pg_rules P ! i)) F0 \<sigma>
      \<and> (\<forall>l \<in> set (witness_literals (cr_rule (pg_rules P ! i))). ground_atom_of \<sigma> l \<in> F)"
  unfolding rule_fires_def using fires_iff [OF _ assms(2,3) refl] assms(1) by (simp add: stratum_ok_def)

lemma rule_binding_cost_cong:
  "(\<And>l. l \<in> set (witness_literals (cr_rule (pg_rules P ! i))) \<Longrightarrow> \<kappa> (ground_atom_of \<sigma> l) = \<kappa>' (ground_atom_of \<sigma> l)) \<Longrightarrow>
    rule_binding_cost P \<kappa> i \<sigma> = rule_binding_cost P \<kappa>' i \<sigma>"
  unfolding rule_binding_cost_def binding_cost_def by (rule derivation_cost_cong) simp

text \<open>A binding that fires derives its head from the costs of the facts.\<close>

lemma fires_derives:
  assumes "stratum_ok P sm" "i \<in> set (sm_rules sm)" "extends_facts P (sm_rules sm) F0 F" "rule_fires P doms i F \<sigma>"
    and "\<And>a. a \<in> F \<Longrightarrow> derives P doms (sm_rules sm) F0 c0 a (\<kappa> a) \<and> \<kappa> a \<noteq> \<infinity>"
  shows "derives P doms (sm_rules sm) F0 c0 (rule_head P i \<sigma>) (rule_binding_cost P \<kappa> i \<sigma>)" "rule_binding_cost P \<kappa> i \<sigma> \<noteq> \<infinity>"
proof -
  have f: "side_holds (pg_setting P) (doms ! i) (cr_rule (pg_rules P ! i)) F0 \<sigma>" "\<forall>l \<in> set (witness_literals (cr_rule (pg_rules P ! i))). ground_atom_of \<sigma> l \<in> F"
    using assms(4) rule_fires_iff [OF assms(1-3)] by simp_all
  show "derives P doms (sm_rules sm) F0 c0 (rule_head P i \<sigma>) (rule_binding_cost P \<kappa> i \<sigma>)"
    unfolding rule_head_def rule_binding_cost_def binding_cost_def by (rule derives_rule [OF assms(2) refl f(1)]) (use f(2) assms(5) in blast)
  show "rule_binding_cost P \<kappa> i \<sigma> \<noteq> \<infinity>"
    unfolding rule_binding_cost_def binding_cost_def by (rule derivation_cost_finite) (use f(2) assms(5) in blast)
qed

section \<open>An iteration\<close>

definition executed :: "'v program \<Rightarrow> program_state \<Rightarrow> program_state" where
  "executed P st = (let st = execute_active P (on_start_iteration st) in st\<lparr>ps_buckets := clear_current (ps_buckets st)\<rparr>)"

lemma executed_simps [simp]: "ps_facts (executed P st) = ps_facts st" "ps_sets (executed P st) = ps_sets st" "ps_tp (executed P st) = ps_tp st"
  "ps_costs (executed P st) = ps_costs st" "ps_witnesses (executed P st) = ps_witnesses st" "ps_active_rules (executed P st) = ps_active_rules st"
  "ps_active_predicates (executed P st) = []" "ps_buckets (executed P st) = clear_current (ps_buckets st)"
  by (simp_all add: executed_def execute_active_def on_start_iteration_def Let_def)

lemma length_executed: "length (ps_rules (executed P st)) = length (ps_rules st)"
  using length_fold_update [of "\<lambda>i. execute_rule (iteration_input P (on_start_iteration st)) (pg_rules P ! i)"]
  by (simp add: executed_def execute_active_def Let_def on_start_iteration_def)

lemma stratum_iteration_eq: "stratum_iteration P sm st =
    (let st = merge_active P (executed P st); (go, B) = advance_to_next_nonempty (ps_buckets st); st = st\<lparr>ps_buckets := B\<rparr>
     in if \<not> go then (False, st) else (True, on_finish_iteration sm (fold (insert_head P) (get_current_bucket B) st)))"
  by (simp add: stratum_iteration_def executed_def Let_def)

definition last_facts :: "program_state \<Rightarrow> (nat \<Rightarrow> facts option) \<Rightarrow> nat \<Rightarrow> facts option" where
  "last_facts st Fr i = (if i \<in> set (ps_active_rules st) then Some (set (ps_facts st)) else Fr i)"

lemma executed_rules:
  assumes "program_ok P doms" "stratum_ok P sm" "stratum_inv P doms sm F0 c0 Fr st" "i \<in> set (sm_rules sm)"
  shows "rule_at (pg_setting P) (doms ! i) (pg_rules P ! i) (last_facts st Fr i) (ps_rules (executed P st) ! i)"
    and "i \<in> set (ps_active_rules st) \<Longrightarrow> \<exists>\<sigma>s. emits (iteration_input P (on_start_iteration st)) (pg_rules P ! i) \<sigma>s (ps_rules (executed P st) ! i)
      \<and> (\<forall>\<sigma> \<in> set \<sigma>s. rule_fires P doms i (set (ps_facts st)) \<sigma>)
      \<and> (\<forall>\<sigma>. rule_fires P doms i (set (ps_facts st)) \<sigma> \<longrightarrow> \<not> rule_fired P doms i (Fr i) \<sigma> \<longrightarrow> rule_head P i \<sigma> \<notin> set (ps_facts st) \<longrightarrow> \<sigma> \<in> set \<sigma>s)"
proof -
  let ?I = "iteration_input P (on_start_iteration st)" and ?cr = "pg_rules P ! i" and ?F = "set (ps_facts st)"
  note p = program_okD [OF assms(1,2,4)]
  have S: "sets_hold (se_fpreds (pg_setting P)) (se_objects (pg_setting P)) (ps_sets st) ?F" "length (ps_rules st) = length (pg_rules P)"
    "distinct (ps_active_rules st)" "extends_facts P (sm_rules sm) F0 ?F" using assms(3) by (simp_all add: stratum_inv_def inv_state_def)
  have R: "rule_at (pg_setting P) (doms ! i) ?cr (Fr i) (ps_rules st ! i)" "\<And>G. Fr i = Some G \<Longrightarrow> extends_facts P (sm_rules sm) F0 G \<and> G \<subseteq> ?F"
    using assms(3,4) by (simp_all add: stratum_inv_def inv_rules_def)
  have reads: "reads (pg_setting P) ?F (ps_sets st) ?I" using S(1) by (simp add: reads_def iteration_input_def on_start_iteration_def)
  have grows: "grows_for (cond_fluent (rl_body (cr_rule ?cr))) G ?F" if "Fr i = Some G" for G
    using grows_for_extends [OF _ assms(4) _ S(4)] R(2) [OF that] assms(2) by (simp add: stratum_ok_def)
  note L = execute_rule_law [OF p(1,3) reads R(1) grows]
  have ex: "ps_rules (executed P st) ! i = (if i \<in> set (ps_active_rules st) then execute_rule ?I ?cr (ps_rules st ! i) else ps_rules st ! i)"
    using fold_update [OF S(3), of i "ps_rules st" "\<lambda>i. execute_rule ?I (pg_rules P ! i)"] p(2) S(2)
    by (simp add: executed_def execute_active_def on_start_iteration_def Let_def)
  show "rule_at (pg_setting P) (doms ! i) ?cr (last_facts st Fr i) (ps_rules (executed P st) ! i)"
    using L(1) R(1) unfolding ex last_facts_def by simp
  show "\<exists>\<sigma>s. emits ?I ?cr \<sigma>s (ps_rules (executed P st) ! i) \<and> (\<forall>\<sigma> \<in> set \<sigma>s. rule_fires P doms i ?F \<sigma>)
      \<and> (\<forall>\<sigma>. rule_fires P doms i ?F \<sigma> \<longrightarrow> \<not> rule_fired P doms i (Fr i) \<sigma> \<longrightarrow> rule_head P i \<sigma> \<notin> ?F \<longrightarrow> \<sigma> \<in> set \<sigma>s)"
    if "i \<in> set (ps_active_rules st)"
    using L(2) that unfolding ex rule_fires_def rule_fired_def rule_head_def by auto
qed

text \<open>
  The costs after the heads have been merged: the facts keep theirs, every binding that fires pays for its head, and the costs
  are those of derivations.
\<close>

definition merged_costs :: "'v program \<Rightarrow> nat list list list \<Rightarrow> stratum \<Rightarrow> facts \<Rightarrow> (atom \<Rightarrow> enat) \<Rightarrow> program_state \<Rightarrow> program_state \<Rightarrow> bool" where
  "merged_costs P doms sm F0 c0 st st' \<longleftrightarrow>
     (\<forall>a \<in> set (ps_facts st). atom_cost P st' a = atom_cost P st a)
   \<and> (\<forall>a. a \<notin> set (ps_facts st) \<longrightarrow> enat (cb_current (ps_buckets st)) \<le> atom_cost P st' a)
   \<and> (\<forall>i \<in> set (sm_rules sm). \<forall>\<sigma>. rule_fires P doms i (set (ps_facts st)) \<sigma> \<longrightarrow>
        rule_binding_cost P (atom_cost P st') i \<sigma> = rule_binding_cost P (atom_cost P st) i \<sigma>
        \<and> atom_cost P st' (rule_head P i \<sigma>) \<le> rule_binding_cost P (atom_cost P st') i \<sigma>)
   \<and> (\<forall>a. atom_cost P st' a \<noteq> \<infinity> \<longrightarrow> derives P doms (sm_rules sm) F0 c0 a (atom_cost P st' a))
   \<and> (\<forall>a. atom_cost P st' a \<noteq> \<infinity> \<longrightarrow> a \<notin> set (ps_facts st) \<longrightarrow> legal_atom (se_fpreds (pg_setting P)) a \<and> fst a \<in> head_predicates P (sm_rules sm))
   \<and> (pg_annotation P \<noteq> No_Annotation \<longrightarrow> (\<forall>a. a \<notin> F0 \<longrightarrow> atom_cost P st' a \<noteq> \<infinity> \<longrightarrow> has_witness P doms (sm_rules sm) (set (ps_facts st)) st' a))"

lemma derives_legal:
  assumes "program_ok P doms" "stratum_ok P sm" "derives P doms (sm_rules sm) F0 c0 a k"
  shows "a \<in> F0 \<or> legal_atom (se_fpreds (pg_setting P)) a \<and> fst a \<in> head_predicates P (sm_rules sm)"
  using assms(3)
proof cases
  case (derives_rule i r \<sigma> \<kappa>)
  then have "legal_atom (se_fpreds (pg_setting P)) (rule_head P i \<sigma>)" using program_okD(5) [OF assms(1,2)] by (simp add: side_holds_def)
  then show ?thesis using derives_rule by (auto simp: rule_head_def head_predicates_def ground_head_def)
qed simp

lemma iteration_merged:
  assumes "program_ok P doms" "stratum_ok P sm" "stratum_inv P doms sm F0 c0 Fr st" "st' = merge_active P (executed P st)"
  shows "merged_costs P doms sm F0 c0 st st'"
    and "buckets_match (cb_current (ps_buckets st)) (set (ps_facts st)) (atom_cost P st') (ps_buckets st')"
    and "ps_active_rules st = [] \<Longrightarrow> bucket_at (ps_buckets st') (cb_current (ps_buckets st)) = {}"
    and "ps_facts st' = ps_facts st" "ps_sets st' = ps_sets st" "ps_tp st' = ps_tp st" "ps_rules st' = ps_rules (executed P st)"
      "ps_active_predicates st' = []" "ps_active_rules st' = ps_active_rules st" "cb_current (ps_buckets st') = cb_current (ps_buckets st)"
    and "\<And>a. fst a \<notin> head_predicates P (sm_rules sm) \<Longrightarrow> ps_witnesses st' a = ps_witnesses st a"
proof -
  let ?F = "set (ps_facts st)" and ?cur = "cb_current (ps_buckets st)" and ?\<kappa> = "atom_cost P st" and ?\<kappa>' = "atom_cost P st'"
  let ?st1 = "on_start_iteration st" and ?st0 = "executed P st"
  have S: "inv_state P sm F0 st" and C: "inv_costs P doms sm F0 c0 st" and R: "inv_rules P doms sm F0 Fr st" and W: "inv_witnesses P doms sm F0 st"
    using assms(3) by (simp_all add: stratum_inv_def)
  have exf: "extends_facts P (sm_rules sm) F0 ?F" and act: "set (ps_active_rules st) \<subseteq> set (sm_rules sm)" and zero: "pg_annotation P = No_Annotation \<Longrightarrow> ?cur = 0"
    using S by (simp_all add: inv_state_def)
  have C1: "\<And>a. ?\<kappa> a \<noteq> \<infinity> \<Longrightarrow> derives P doms (sm_rules sm) F0 c0 a (?\<kappa> a)" and C2: "\<And>a. a \<in> ?F \<Longrightarrow> ?\<kappa> a \<noteq> \<infinity>"
    and C3: "\<And>a k. a \<in> ?F \<Longrightarrow> derives P doms (sm_rules sm) F0 c0 a k \<Longrightarrow> ?\<kappa> a \<le> k"
    and C4: "\<And>a. a \<in> ?F \<Longrightarrow> fst a \<in> head_predicates P (sm_rules sm) \<Longrightarrow> ?\<kappa> a \<le> enat ?cur"
    and C5: "\<And>a. a \<notin> ?F \<Longrightarrow> enat ?cur < ?\<kappa> a" and C6: "\<And>c. ?cur < c \<Longrightarrow> bucket_at (ps_buckets st) c = {a. a \<notin> ?F \<and> ?\<kappa> a = enat c}"
    using C unfolding inv_costs_def by blast+
  have D: "derives P doms (sm_rules sm) F0 c0 (rule_head P i \<sigma>) (rule_binding_cost P ?\<kappa> i \<sigma>)" "rule_binding_cost P ?\<kappa> i \<sigma> \<noteq> \<infinity>"
    if "i \<in> set (sm_rules sm)" "rule_fires P doms i ?F \<sigma>" for i \<sigma>
    using fires_derives [OF assms(2) that(1) exf that(2)] C1 C2 by blast+
  have R1: "\<And>i \<sigma>. i \<in> set (sm_rules sm) \<Longrightarrow> rule_fired P doms i (Fr i) \<sigma> \<Longrightarrow> ?\<kappa> (rule_head P i \<sigma>) \<le> rule_binding_cost P ?\<kappa> i \<sigma>"
    and R2: "\<And>i \<sigma>. i \<in> set (sm_rules sm) \<Longrightarrow> rule_fires P doms i ?F \<sigma> \<Longrightarrow> \<not> rule_fired P doms i (Fr i) \<sigma> \<Longrightarrow> i \<in> set (ps_active_rules st)"
    and R3: "\<And>i \<sigma>. i \<in> set (sm_rules sm) \<Longrightarrow> rule_fires P doms i ?F \<sigma> \<Longrightarrow> \<not> rule_fired P doms i (Fr i) \<sigma> \<Longrightarrow> pg_annotation P \<noteq> No_Annotation \<Longrightarrow>
      enat (?cur + rl_cost (cr_rule (pg_rules P ! i))) \<le> rule_binding_cost P ?\<kappa> i \<sigma>"
    using R unfolding inv_rules_def by blast+
  have "\<forall>i. \<exists>\<sigma>s. i \<in> set (ps_active_rules st) \<longrightarrow> emits (iteration_input P ?st1) (pg_rules P ! i) \<sigma>s (ps_rules ?st0 ! i)
      \<and> (\<forall>\<sigma> \<in> set \<sigma>s. rule_fires P doms i ?F \<sigma>) \<and> (\<forall>\<sigma>. rule_fires P doms i ?F \<sigma> \<longrightarrow> \<not> rule_fired P doms i (Fr i) \<sigma> \<longrightarrow> rule_head P i \<sigma> \<notin> ?F \<longrightarrow> \<sigma> \<in> set \<sigma>s)"
    using executed_rules(2) [OF assms(1-3)] act by blast
  then obtain \<sigma>s where em: "\<And>i. i \<in> set (ps_active_rules st) \<Longrightarrow> emits (iteration_input P ?st1) (pg_rules P ! i) (\<sigma>s i) (ps_rules ?st0 ! i)"
    and em1: "\<And>i \<sigma>. i \<in> set (ps_active_rules st) \<Longrightarrow> \<sigma> \<in> set (\<sigma>s i) \<Longrightarrow> rule_fires P doms i ?F \<sigma>"
    and em2: "\<And>i \<sigma>. i \<in> set (ps_active_rules st) \<Longrightarrow> rule_fires P doms i ?F \<sigma> \<Longrightarrow> \<not> rule_fired P doms i (Fr i) \<sigma> \<Longrightarrow> rule_head P i \<sigma> \<notin> ?F \<Longrightarrow> \<sigma> \<in> set (\<sigma>s i)"
    by metis
  have k1: "atom_cost P ?st1 = ?\<kappa>" by (rule ext) (simp add: atom_cost_def on_start_iteration_def split: annotation_policy.split)
  have k0: "atom_cost P ?st0 = ?\<kappa>"
  proof (rule ext)
    fix a
    have "a \<notin> bucket_at (ps_buckets st) 0" if "pg_annotation P = No_Annotation" "a \<notin> ?F"
      using C5 [OF that(2)] that(1) zero by (auto simp: atom_cost_def zero_enat_def split: if_splits)
    then show "atom_cost P ?st0 a = ?\<kappa> a"
      using zero by (cases "pg_annotation P") (auto simp: atom_cost_def bucket_at_clear)
  qed
  have bm: "buckets_match (cb_current (ps_buckets ?st0)) (set (ps_facts ?st0)) (atom_cost P ?st0) (ps_buckets ?st0)"
  proof -
    have "?\<kappa> a \<noteq> enat ?cur" if "a \<notin> ?F" for a using C5 [OF that] by auto
    then show ?thesis using C6 unfolding buckets_match_def k0 by (auto simp: bucket_at_clear)
  qed
  have eok: "emission_ok P ?st1 ?st0 \<sigma>s i" if i: "i \<in> set (ps_active_rules st)" for i
  proof -
    have r: "i \<in> set (sm_rules sm)" using act i by blast
    have "lower_bounded P ?cur ?\<kappa> i \<sigma> \<and> settled_costs P ?st0 ?\<kappa> i \<sigma>" if "\<sigma> \<in> set (\<sigma>s i)" for \<sigma>
    proof
      note f = em1 [OF i that]
      show "lower_bounded P ?cur ?\<kappa> i \<sigma>" using R1 [OF r] R3 [OF r f] by (auto simp: lower_bounded_def)
      have "fst (rule_head P i \<sigma>) \<in> head_predicates P (sm_rules sm)" using r by (auto simp: rule_head_def ground_head_def head_predicates_def)
      then show "settled_costs P ?st0 ?\<kappa> i \<sigma>" using D [OF r f] C3 C4 by (simp add: settled_costs_def)
    qed
    then show ?thesis using em [OF i] by (simp add: emission_ok_def k1)
  qed
  have c10: "cb_current (ps_buckets ?st1) = cb_current (ps_buckets ?st0)" by (simp add: on_start_iteration_def)
  have "merged P ?st0 (atom_cost P ?st1) {(i, \<sigma>). i \<in> set (ps_active_rules ?st0) \<and> \<sigma> \<in> set (\<sigma>s i)} (merge_active P ?st0)"
    by (rule merge_active_merged [OF bm]) (use k0 k1 eok c10 zero in simp_all)
  then have M: "merged P ?st0 ?\<kappa> {(i, \<sigma>). i \<in> set (ps_active_rules st) \<and> \<sigma> \<in> set (\<sigma>s i)} st'" unfolding assms(4) k1 by simp
  note M = mergedD [OF M]
  show "ps_facts st' = ps_facts st" "ps_sets st' = ps_sets st" "ps_tp st' = ps_tp st" "ps_rules st' = ps_rules (executed P st)"
    "ps_active_predicates st' = []" "ps_active_rules st' = ps_active_rules st" "cb_current (ps_buckets st') = cb_current (ps_buckets st)"
    using M(4-10) by simp_all
  show "buckets_match ?cur ?F ?\<kappa>' (ps_buckets st')" using M(3) by simp
  show "bucket_at (ps_buckets st') ?cur = {}" if "ps_active_rules st = []"
    using that by (simp add: assms(4) merge_active_def bucket_at_clear)
  show "ps_witnesses st' a = ps_witnesses st a" if "fst a \<notin> head_predicates P (sm_rules sm)" for a
    using M(2) [of a, unfolded executed_simps] act that by (auto simp: rule_head_def ground_head_def head_predicates_def)
  have le: "?\<kappa>' a \<le> ?\<kappa> a" for a using M(1) [of "?\<kappa>' a" a] by simp
  have F: "?\<kappa>' a = ?\<kappa> a" if a: "a \<in> ?F" for a
  proof (rule antisym [OF le])
    have "?\<kappa> a \<le> rule_binding_cost P ?\<kappa> i \<sigma>" if "i \<in> set (ps_active_rules st)" "\<sigma> \<in> set (\<sigma>s i)" "rule_head P i \<sigma> = a" for i \<sigma>
      using D(1) [OF subsetD [OF act that(1)] em1 [OF that(1,2)]] C3 [OF a] that(3) by simp
    then show "?\<kappa> a \<le> ?\<kappa>' a" unfolding M(1) by auto
  qed
  have low: "enat ?cur \<le> ?\<kappa>' a" if a: "a \<notin> ?F" for a
  proof -
    have "enat ?cur \<le> rule_binding_cost P ?\<kappa> i \<sigma>" if i: "i \<in> set (ps_active_rules st)" "\<sigma> \<in> set (\<sigma>s i)" "rule_head P i \<sigma> = a" for i \<sigma>
    proof (cases "pg_annotation P = No_Annotation")
      case True
      then show ?thesis using zero by (simp add: zero_enat_def [symmetric])
    next
      case False
      have r: "i \<in> set (sm_rules sm)" using act i(1) by blast
      show ?thesis
      proof (cases "rule_fired P doms i (Fr i) \<sigma>")
        case True
        then show ?thesis using R1 [OF r] C5 [OF a] i(3) by (metis less_imp_le order_trans)
      next
        case False
        then show ?thesis using R3 [OF r em1 [OF i(1,2)]] \<open>pg_annotation P \<noteq> No_Annotation\<close> by (meson enat_ord_simps(1) le_add1 order_trans)
      qed
    qed
    then show ?thesis unfolding M(1) using C5 [OF a] by auto
  qed
  have bc: "rule_binding_cost P ?\<kappa>' i \<sigma> = rule_binding_cost P ?\<kappa> i \<sigma>" if "i \<in> set (sm_rules sm)" "rule_fires P doms i ?F \<sigma>" for i \<sigma>
    by (rule rule_binding_cost_cong) (use that(2) F in \<open>simp add: rule_fires_iff [OF assms(2) that(1) exf]\<close>)
  have pay: "?\<kappa>' (rule_head P i \<sigma>) \<le> rule_binding_cost P ?\<kappa> i \<sigma>" if r: "i \<in> set (sm_rules sm)" and f: "rule_fires P doms i ?F \<sigma>" for i \<sigma>
  proof (cases "rule_head P i \<sigma> \<in> ?F")
    case True
    then show ?thesis using C3 [OF True D(1) [OF r f]] F by simp
  next
    case False
    show ?thesis
    proof (cases "rule_fired P doms i (Fr i) \<sigma>")
      case True
      then show ?thesis using R1 [OF r] le order_trans by blast
    next
      case new: False
      then have "i \<in> set (ps_active_rules st)" "\<sigma> \<in> set (\<sigma>s i)" using R2 [OF r f] em2 [OF _ f] False by blast+
      then show ?thesis using M(1) [of "?\<kappa>' (rule_head P i \<sigma>)" "rule_head P i \<sigma>"] by blast
    qed
  qed
  have der: "derives P doms (sm_rules sm) F0 c0 a (?\<kappa>' a)" if "?\<kappa>' a \<noteq> \<infinity>" for a
  proof (cases "?\<kappa>' a = ?\<kappa> a")
    case True
    then show ?thesis using C1 [of a] that by simp
  next
    case False
    then obtain i \<sigma> where "i \<in> set (ps_active_rules st)" "\<sigma> \<in> set (\<sigma>s i)" "rule_head P i \<sigma> = a" "?\<kappa>' a = rule_binding_cost P ?\<kappa> i \<sigma>" using M(2) [of a] by auto
    then show ?thesis using D(1) em1 act by (metis subsetD)
  qed
  have wit: "has_witness P doms (sm_rules sm) ?F st' a" if ann: "pg_annotation P \<noteq> No_Annotation" and "a \<notin> F0" "?\<kappa>' a \<noteq> \<infinity>" for a
  proof (cases "?\<kappa>' a = ?\<kappa> a \<and> ps_witnesses st' a = ps_witnesses st a")
    case True
    then have "has_witness P doms (sm_rules sm) ?F st a" using W that unfolding inv_witnesses_def by metis
    then obtain i \<sigma> where "i \<in> set (sm_rules sm)" "rule_fires P doms i ?F \<sigma>" "rule_head P i \<sigma> = a" "ps_witnesses st a = Some (rule_witness P ?\<kappa> i \<sigma>)"
      "?\<kappa> a = rule_binding_cost P ?\<kappa> i \<sigma>" unfolding has_witness_def by blast
    then show ?thesis using True bc unfolding has_witness_def rule_witness_def by metis
  next
    case False
    then obtain i \<sigma> where "i \<in> set (ps_active_rules st)" "\<sigma> \<in> set (\<sigma>s i)" "rule_head P i \<sigma> = a" "?\<kappa>' a = rule_binding_cost P ?\<kappa> i \<sigma>"
      "ps_witnesses st' a = Some (rule_witness P ?\<kappa> i \<sigma>)" using M(2) [of a, unfolded executed_simps] ann False by blast
    then show ?thesis using em1 act bc unfolding has_witness_def rule_witness_def by (metis subsetD)
  qed
  have leg: "legal_atom (se_fpreds (pg_setting P)) a \<and> fst a \<in> head_predicates P (sm_rules sm)" if "?\<kappa>' a \<noteq> \<infinity>" "a \<notin> ?F" for a
    using derives_legal [OF assms(1,2) der [OF that(1)]] exf that(2) by (auto simp: extends_facts_def)
  show "merged_costs P doms sm F0 c0 st st'"
    unfolding merged_costs_def using F low bc pay der leg wit by simp
qed


text \<open>Every derivation of an atom that is not yet a fact costs at least as much as the cheapest atom in the buckets.\<close>

definition start_costs :: "'v program \<Rightarrow> facts \<Rightarrow> (atom \<Rightarrow> enat) \<Rightarrow> bool" where
  "start_costs P F0 c0 \<longleftrightarrow> (\<forall>a \<in> F0. c0 a \<noteq> \<infinity> \<and> (pg_annotation P = No_Annotation \<longrightarrow> c0 a = 0))"

lemma derives_cost:
  assumes "start_costs P F0 c0" "derives P doms rs F0 c0 a k"
  shows "k \<noteq> \<infinity> \<and> (pg_annotation P = No_Annotation \<longrightarrow> k = 0)"
  using assms(2)
proof induction
  case (derives_fact a)
  then show ?case using assms(1) by (simp add: start_costs_def)
next
  case (derives_rule i r \<sigma> \<kappa>)
  then have "derivation_cost (pg_annotation P) r \<kappa> \<noteq> \<infinity>" by (intro derivation_cost_finite) blast
  then show ?case by (simp add: derivation_cost_def)
qed

lemma derives_above:
  assumes "stratum_ok P sm" "stratum_inv P doms sm F0 c0 Fr st" "merged_costs P doms sm F0 c0 st st'" "start_costs P F0 c0"
    and "\<And>a. a \<notin> set (ps_facts st) \<Longrightarrow> c \<le> atom_cost P st' a" "derives P doms (sm_rules sm) F0 c0 a k" "a \<notin> set (ps_facts st)"
  shows "c \<le> k"
  using assms(6,7)
proof induction
  case (derives_fact a)
  then show ?case using assms(2) by (auto simp: stratum_inv_def inv_state_def extends_facts_def)
next
  case (derives_rule i r \<sigma> \<kappa>)
  let ?F = "set (ps_facts st)"
  have exf: "extends_facts P (sm_rules sm) F0 ?F" using assms(2) by (simp add: stratum_inv_def inv_state_def)
  show ?case
  proof (cases "\<forall>l \<in> set (witness_literals r). ground_atom_of \<sigma> l \<in> ?F")
    case True
    then have f: "rule_fires P doms i ?F \<sigma>" using rule_fires_iff [OF assms(1) derives_rule.hyps(1) exf] derives_rule.hyps(2,3) by simp
    have "atom_cost P st' (rule_head P i \<sigma>) \<le> rule_binding_cost P (atom_cost P st) i \<sigma>"
      using assms(3) derives_rule.hyps(1) f unfolding merged_costs_def by metis
    also have "\<dots> \<le> derivation_cost (pg_annotation P) r \<kappa>"
    proof -
      have "atom_cost P st (ground_atom_of \<sigma> l) \<le> \<kappa> l" if "l \<in> set (witness_literals r)" for l
        using assms(2) derives_rule.hyps(4) [OF that] True that unfolding stratum_inv_def inv_costs_def by blast
      then show ?thesis unfolding rule_binding_cost_def binding_cost_def derives_rule.hyps(2) [symmetric] by (rule derivation_cost_mono)
    qed
    finally have "atom_cost P st' (rule_head P i \<sigma>) \<le> derivation_cost (pg_annotation P) r \<kappa>" .
    moreover have "c \<le> atom_cost P st' (rule_head P i \<sigma>)" by (rule assms(5)) (use derives_rule.prems derives_rule.hyps(2) in \<open>simp add: rule_head_def\<close>)
    ultimately show ?thesis by order
  next
    case False
    then obtain l where l: "l \<in> set (witness_literals r)" "ground_atom_of \<sigma> l \<notin> ?F" by blast
    have c: "c \<le> \<kappa> l" using derives_rule.IH [OF l] .
    show ?thesis
    proof (cases "pg_annotation P = No_Annotation")
      case True
      then show ?thesis using c derives_cost [OF assms(4) derives_rule.hyps(4) [OF l(1)]] by (simp add: zero_le)
    next
      case False
      have "\<kappa> l \<le> \<kappa> l + enat (rl_cost r)" by simp
      then show ?thesis using c derivation_cost_ge [OF l(1) False, of \<kappa>] by order
    qed
  qed
qed

section \<open>The next facts\<close>

lemma fold_listeners: "set (fold (\<lambda>p rs. fold List.insert (ls p) rs) ps rs) = set rs \<union> (\<Union>p \<in> set ps. set (ls p))"
  "distinct rs \<Longrightarrow> distinct (fold (\<lambda>p rs. fold List.insert (ls p) rs) ps rs)"
  by (induction ps arbitrary: rs) (auto simp: set_fold_insert)

lemma next_state:
  assumes "program_ok P doms" "stratum_ok P sm" "stratum_inv P doms sm F0 c0 Fr st" "start_costs P F0 c0" "stratum_iteration P sm st = (True, st')"
    and "st3 = merge_active P (executed P st)"
  shows "merged_costs P doms sm F0 c0 st st3"
    "atom_cost P st' = atom_cost P st3" "ps_witnesses st' = ps_witnesses st3" "ps_rules st' = ps_rules (executed P st)"
    "bucket_at (ps_buckets st') = bucket_at (ps_buckets st3)" "cb_current (ps_buckets st) \<le> cb_current (ps_buckets st')"
    "set (ps_facts st') = set (ps_facts st) \<union> bucket_at (ps_buckets st') (cb_current (ps_buckets st'))"
    "bucket_at (ps_buckets st') (cb_current (ps_buckets st')) \<noteq> {}"
    "sets_hold (se_fpreds (pg_setting P)) (se_objects (pg_setting P)) (ps_sets st') (set (ps_facts st'))"
    "distinct (ps_active_rules st')" "set (ps_active_rules st') = (\<Union>a \<in> set (ps_facts st') - set (ps_facts st). set (sm_listeners sm (fst a)))"
    "\<And>a. a \<notin> set (ps_facts st) \<Longrightarrow> enat (cb_current (ps_buckets st')) \<le> atom_cost P st' a"
    "\<And>a. a \<in> bucket_at (ps_buckets st') (cb_current (ps_buckets st')) \<Longrightarrow> atom_cost P st' a = enat (cb_current (ps_buckets st'))"
    "\<And>a. a \<notin> set (ps_facts st) \<Longrightarrow> atom_cost P st' a = enat (cb_current (ps_buckets st')) \<Longrightarrow> a \<in> set (ps_facts st')"
    "\<And>c. cb_current (ps_buckets st') < c \<Longrightarrow> bucket_at (ps_buckets st') c = {a. a \<notin> set (ps_facts st') \<and> atom_cost P st' a = enat c}"
    "ps_active_rules st = [] \<Longrightarrow> cb_current (ps_buckets st) < cb_current (ps_buckets st')"
    "pg_annotation P = No_Annotation \<Longrightarrow> cb_current (ps_buckets st') = 0"
proof -
  let ?st3 = "merge_active P (executed P st)" and ?F = "set (ps_facts st)" and ?cur = "cb_current (ps_buckets st)"
  note M = iteration_merged [OF assms(1-3) refl]
  have C: "inv_costs P doms sm F0 c0 st" and S: "inv_state P sm F0 st" using assms(3) by (simp_all add: stratum_inv_def)
  obtain go B where adv: "advance_to_next_nonempty (ps_buckets ?st3) = (go, B)" by force
  let ?st4 = "?st3\<lparr>ps_buckets := B\<rparr>" and ?c = "cb_current B"
  have st': "go" "st' = on_finish_iteration sm (fold (insert_head P) (get_current_bucket B) ?st4)"
    using assms(5) adv by (auto simp: stratum_iteration_eq Let_def split: if_splits)
  note A = advance_spec [OF adv]
  have at: "bucket_at B = bucket_at (ps_buckets ?st3)" using A(1) .
  have bm: "buckets_match ?cur ?F (atom_cost P ?st3) B" using M(2) unfolding buckets_match_def at by blast
  have cur: "?cur \<le> ?c" using A(2) M(10) by simp
  have low: "enat ?cur \<le> atom_cost P ?st3 a" if "a \<notin> ?F" for a using M(1) that unfolding merged_costs_def by blast
  have gap: "bucket_at B d = {}" if "?cur \<le> d" "d < ?c" for d using A(3) that M(10) at by simp
  have inb: "a \<in> bucket_at B d" if "a \<notin> ?F" "atom_cost P ?st3 a = enat d" "?cur \<le> d" for a d
    using bm that by (cases "d = ?cur") (auto simp: buckets_match_def)
  have minc: "enat ?c \<le> atom_cost P ?st3 a" if a: "a \<notin> ?F" for a
  proof (cases "atom_cost P ?st3 a")
    case (enat d)
    then have "?cur \<le> d" using low [OF a] by simp
    then have "\<not> d < ?c" using gap inb [OF a enat] by blast
    then show ?thesis using enat by simp
  qed simp
  have bc: "atom_cost P ?st3 a = enat ?c" if "a \<in> bucket_at B ?c" for a using bm cur that by (cases "?c = ?cur") (auto simp: buckets_match_def)
  have ne: "bucket_at B ?c \<noteq> {}" using A(4) st'(1) at by simp
  have zero: "?c = 0" if no: "pg_annotation P = No_Annotation"
  proof -
    obtain a where "a \<in> bucket_at B ?c" using ne by blast
    then have "atom_cost P ?st3 a = enat ?c" using bc by blast
    then show ?thesis using no by (simp add: atom_cost_def zero_enat_def split: if_splits)
  qed
  have sh: "sets_hold (se_fpreds (pg_setting P)) (se_objects (pg_setting P)) (ps_sets ?st4) (set (ps_facts ?st4))" using S M(4,5) by (simp add: inv_state_def)
  have leg: "\<forall>a \<in> set (get_current_bucket B). legal_atom (se_fpreds (pg_setting P)) a"
  proof
    fix a assume "a \<in> set (get_current_bucket B)"
    then have a: "atom_cost P ?st3 a \<noteq> \<infinity>" using bc A(6) at by auto
    show "legal_atom (se_fpreds (pg_setting P)) a"
    proof (cases "a \<in> ?F")
      case True
      then show ?thesis using sh M(4) by (simp add: sets_hold_def)
    next
      case False
      then show ?thesis using M(1) a unfolding merged_costs_def by blast
    qed
  qed
  note I = fold_insert_head [OF refl sh leg, of P]
  let ?st5 = "fold (insert_head P) (get_current_bucket B) ?st4"
  have b': "ps_buckets st' = B" "ps_facts st' = ps_facts ?st5" "ps_costs st' = ps_costs ?st3" "ps_witnesses st' = ps_witnesses ?st3" "ps_rules st' = ps_rules (executed P st)" "ps_sets st' = ps_sets ?st5"
    using I(4-7) M(7) by (simp_all add: st'(2) on_finish_iteration_def)
  have F': "set (ps_facts st') = ?F \<union> bucket_at B ?c" using I(1) A(6) at M(4) b'(2) by simp
  have acost: "atom_cost P st' = atom_cost P ?st3"
  proof (rule ext)
    fix a show "atom_cost P st' a = atom_cost P ?st3 a"
      using zero F' M(4) at by (cases "pg_annotation P") (auto simp: atom_cost_def b')
  qed
  have preds: "set (ps_active_predicates ?st5) = fst ` (set (ps_facts st') - ?F)"
    using I(3) M(8) M(4) A(6) at F' by auto
  have act: "set (ps_active_rules st') = (\<Union>a \<in> set (ps_facts st') - ?F. set (sm_listeners sm (fst a)))" "distinct (ps_active_rules st')"
    using preds fold_listeners(1) [of "sm_listeners sm" "ps_active_predicates ?st5" "[]"] fold_listeners(2) [of "[]"] by (simp_all add: st'(2) on_finish_iteration_def)
  have gt: "bucket_at B c = {a. a \<notin> set (ps_facts st') \<and> atom_cost P st' a = enat c}" if "?c < c" for c
  proof -
    have "bucket_at B c = {a. a \<notin> ?F \<and> atom_cost P ?st3 a = enat c}" using bm cur that by (auto simp: buckets_match_def)
    moreover have "a \<notin> bucket_at B ?c" if "atom_cost P ?st3 a = enat c" for a using bc [of a] that \<open>?c < c\<close> by auto
    ultimately show ?thesis unfolding F' acost by blast
  qed
  have emp: "?cur < ?c" if "ps_active_rules st = []" using M(3) [OF that] ne cur at by (cases "?cur = ?c") auto
  show "a \<in> set (ps_facts st')" if "a \<notin> ?F" "atom_cost P st' a = enat (cb_current (ps_buckets st'))" for a
    using inb that cur unfolding F' acost b'(1) by blast
  show "merged_costs P doms sm F0 c0 st st3"
    "atom_cost P st' = atom_cost P st3"
    "ps_witnesses st' = ps_witnesses st3"
    "ps_rules st' = ps_rules (executed P st)"
    "bucket_at (ps_buckets st') = bucket_at (ps_buckets st3)"
    "cb_current (ps_buckets st) \<le> cb_current (ps_buckets st')"
    "set (ps_facts st') = set (ps_facts st) \<union> bucket_at (ps_buckets st') (cb_current (ps_buckets st'))"
    "bucket_at (ps_buckets st') (cb_current (ps_buckets st')) \<noteq> {}"
    "sets_hold (se_fpreds (pg_setting P)) (se_objects (pg_setting P)) (ps_sets st') (set (ps_facts st'))"
    "distinct (ps_active_rules st')"
    "set (ps_active_rules st') = (\<Union>a \<in> set (ps_facts st') - set (ps_facts st). set (sm_listeners sm (fst a)))"
    using M(1) acost b' at cur F' ne I(2) act by (simp_all add: assms(6))
  show "a \<notin> set (ps_facts st) \<Longrightarrow> enat (cb_current (ps_buckets st')) \<le> atom_cost P st' a" for a using minc acost b' by simp
  show "a \<in> bucket_at (ps_buckets st') (cb_current (ps_buckets st')) \<Longrightarrow> atom_cost P st' a = enat (cb_current (ps_buckets st'))" for a using bc acost b' by simp
  show "cb_current (ps_buckets st') < c \<Longrightarrow> bucket_at (ps_buckets st') c = {a. a \<notin> set (ps_facts st') \<and> atom_cost P st' a = enat c}" for c using gt b' by simp
  show "ps_active_rules st = [] \<Longrightarrow> cb_current (ps_buckets st) < cb_current (ps_buckets st')" using emp b' by simp
  show "pg_annotation P = No_Annotation \<Longrightarrow> cb_current (ps_buckets st') = 0" using zero b' by simp
qed

section \<open>The invariant is kept\<close>

lemma merged_costsD:
  assumes "merged_costs P doms sm F0 c0 st st'"
  shows "a \<in> set (ps_facts st) \<Longrightarrow> atom_cost P st' a = atom_cost P st a"
    "i \<in> set (sm_rules sm) \<Longrightarrow> rule_fires P doms i (set (ps_facts st)) \<sigma> \<Longrightarrow> atom_cost P st' (rule_head P i \<sigma>) \<le> rule_binding_cost P (atom_cost P st') i \<sigma>"
    "atom_cost P st' a \<noteq> \<infinity> \<Longrightarrow> derives P doms (sm_rules sm) F0 c0 a (atom_cost P st' a)"
    "atom_cost P st' a \<noteq> \<infinity> \<Longrightarrow> a \<notin> set (ps_facts st) \<Longrightarrow> fst a \<in> head_predicates P (sm_rules sm)"
    "pg_annotation P \<noteq> No_Annotation \<Longrightarrow> a \<notin> F0 \<Longrightarrow> atom_cost P st' a \<noteq> \<infinity> \<Longrightarrow> has_witness P doms (sm_rules sm) (set (ps_facts st)) st' a"
  using assms unfolding merged_costs_def by blast+

lemma rule_fires_mono:
  assumes "stratum_ok P sm" "i \<in> set (sm_rules sm)" "extends_facts P (sm_rules sm) F0 G" "extends_facts P (sm_rules sm) F0 F" "G \<subseteq> F" "rule_fires P doms i G \<sigma>"
  shows "rule_fires P doms i F \<sigma>"
  using assms(5,6) unfolding rule_fires_iff [OF assms(1,2,3)] rule_fires_iff [OF assms(1,2,4)] by blast

lemma has_witness_mono:
  assumes "has_witness P doms (sm_rules sm) G st a" "stratum_ok P sm" "extends_facts P (sm_rules sm) F0 G" "extends_facts P (sm_rules sm) F0 F" "G \<subseteq> F"
    and "atom_cost P st' = atom_cost P st" "ps_witnesses st' = ps_witnesses st"
  shows "has_witness P doms (sm_rules sm) F st' a"
  using assms(1) rule_fires_mono [OF assms(2) _ assms(3-5)] unfolding has_witness_def assms(6,7) by blast

lemma rule_fired_last:
  assumes "stratum_ok P sm" "stratum_inv P doms sm F0 c0 Fr st" "i \<in> set (sm_rules sm)"
  shows "rule_fired P doms i (last_facts st Fr i) \<sigma> \<longleftrightarrow> rule_fires P doms i (set (ps_facts st)) \<sigma>"
proof -
  let ?F = "set (ps_facts st)"
  have exf: "extends_facts P (sm_rules sm) F0 ?F" using assms(2) by (simp add: stratum_inv_def inv_state_def)
  have R: "\<And>G. Fr i = Some G \<Longrightarrow> extends_facts P (sm_rules sm) F0 G \<and> G \<subseteq> ?F"
    "rule_fires P doms i ?F \<sigma> \<Longrightarrow> \<not> rule_fired P doms i (Fr i) \<sigma> \<Longrightarrow> i \<in> set (ps_active_rules st)"
    using assms(2,3) unfolding stratum_inv_def inv_rules_def by blast+
  have "rule_fired P doms i (Fr i) \<sigma> \<Longrightarrow> rule_fires P doms i ?F \<sigma>"
    using rule_fires_mono [OF assms(1,3) _ exf] R(1) unfolding rule_fired_def fired_def rule_fires_def by blast
  then show ?thesis using R(2) by (auto simp: last_facts_def rule_fired_def fired_def rule_fires_def)
qed

lemma iteration_inv:
  assumes "program_ok P doms" "stratum_ok P sm" "stratum_inv P doms sm F0 c0 Fr st" "start_costs P F0 c0" "stratum_iteration P sm st = (True, st')"
  shows "stratum_inv P doms sm F0 c0 (last_facts st Fr) st'" "set (ps_facts st) \<subseteq> set (ps_facts st')"
    "set (ps_facts st') = set (ps_facts st) \<Longrightarrow> ps_active_rules st \<noteq> [] \<and> ps_active_rules st' = []"
proof -
  let ?F = "set (ps_facts st)" and ?F' = "set (ps_facts st')" and ?c = "cb_current (ps_buckets st')" and ?\<kappa>' = "atom_cost P st'"
  obtain st3 where st3: "st3 = merge_active P (executed P st)" and mc: "merged_costs P doms sm F0 c0 st st3" and k: "?\<kappa>' = atom_cost P st3"
    and w: "ps_witnesses st' = ps_witnesses st3" and rules: "ps_rules st' = ps_rules (executed P st)" and cur: "cb_current (ps_buckets st) \<le> ?c"
    and F': "?F' = ?F \<union> bucket_at (ps_buckets st') ?c" and ne: "bucket_at (ps_buckets st') ?c \<noteq> {}"
    and sh: "sets_hold (se_fpreds (pg_setting P)) (se_objects (pg_setting P)) (ps_sets st') ?F'"
    and act: "distinct (ps_active_rules st')" "set (ps_active_rules st') = (\<Union>a \<in> ?F' - ?F. set (sm_listeners sm (fst a)))"
    and low: "\<And>a. a \<notin> ?F \<Longrightarrow> enat ?c \<le> ?\<kappa>' a" and at: "\<And>a. a \<in> bucket_at (ps_buckets st') ?c \<Longrightarrow> ?\<kappa>' a = enat ?c"
    and inc: "\<And>a. a \<notin> ?F \<Longrightarrow> ?\<kappa>' a = enat ?c \<Longrightarrow> a \<in> ?F'"
    and gt: "\<And>c. ?c < c \<Longrightarrow> bucket_at (ps_buckets st') c = {a. a \<notin> ?F' \<and> ?\<kappa>' a = enat c}"
    and less: "ps_active_rules st = [] \<Longrightarrow> cb_current (ps_buckets st) < ?c" and zero: "pg_annotation P = No_Annotation \<Longrightarrow> ?c = 0"
    and same: "bucket_at (ps_buckets st') = bucket_at (ps_buckets st3)"
    using next_state [OF assms refl] by blast
  have S: "inv_state P sm F0 st" and C: "inv_costs P doms sm F0 c0 st" and R: "inv_rules P doms sm F0 Fr st"
    using assms(3) by (simp_all add: stratum_inv_def)
  have exf: "extends_facts P (sm_rules sm) F0 ?F" using S by (simp add: inv_state_def)
  note M = merged_costsD [OF mc, folded k]
  have new: "?\<kappa>' a = enat ?c" if "a \<in> ?F'" "a \<notin> ?F" for a using at that F' by blast
  have exf': "extends_facts P (sm_rules sm) F0 ?F'"
  proof (rule extends_facts_trans [OF exf])
    show "\<forall>a \<in> ?F' - ?F. fst a \<in> head_predicates P (sm_rules sm)"
    proof
      fix a assume "a \<in> ?F' - ?F"
      then show "fst a \<in> head_predicates P (sm_rules sm)" using M(4) [of a] new [of a] by simp
    qed
  qed (use F' in blast)
  have L: "i \<in> set (sm_listeners sm p) \<longleftrightarrow> i \<in> set (sm_rules sm) \<and> (\<exists>l \<in> set (witness_literals (cr_rule (pg_rules P ! i))). ll_predicate l = p)" for i p
    using assms(2) unfolding stratum_ok_def by blast
  show sub: "?F \<subseteq> ?F'" using F' by blast
  show "ps_active_rules st \<noteq> [] \<and> ps_active_rules st' = []" if eq: "?F' = ?F"
  proof
    show "ps_active_rules st' = []" using act(2) unfolding eq by simp
    show "ps_active_rules st \<noteq> []"
    proof
      assume "ps_active_rules st = []"
      then have c: "cb_current (ps_buckets st) < ?c" by (rule less)
      obtain a where a: "a \<in> bucket_at (ps_buckets st') ?c" using ne by blast
      then have "a \<in> ?F" using F' eq by blast
      moreover have "fst a \<in> head_predicates P (sm_rules sm)"
      proof -
        have "bucket_at (ps_buckets st3) ?c \<subseteq> {b. b \<notin> ?F}"
          using iteration_merged(2) [OF assms(1-3) st3] c by (auto simp: buckets_match_def)
        then show ?thesis using a \<open>a \<in> ?F\<close> unfolding same by blast
      qed
      ultimately have "atom_cost P st a \<le> enat (cb_current (ps_buckets st))" using C unfolding inv_costs_def by blast
      then show False using at [OF a] M(1) [OF \<open>a \<in> ?F\<close>] c by simp
    qed
  qed
  have "inv_state P sm F0 st'"
  proof -
    have "length (ps_rules st') = length (pg_rules P)"
      using S unfolding rules by (simp add: inv_state_def length_executed)
    then show ?thesis using sh act L exf' zero by (auto simp: inv_state_def)
  qed
  moreover have "inv_costs P doms sm F0 c0 st'"
    unfolding inv_costs_def
  proof (intro conjI allI impI ballI)
    fix a assume "?\<kappa>' a \<noteq> \<infinity>" then show "derives P doms (sm_rules sm) F0 c0 a (?\<kappa>' a)" by (rule M(3))
  next
    fix a assume a: "a \<in> ?F'"
    show "?\<kappa>' a \<noteq> \<infinity>"
    proof (cases "a \<in> ?F")
      case True
      then show ?thesis using M(1) [OF True] C unfolding inv_costs_def by metis
    next
      case False
      then show ?thesis using new [OF a] by simp
    qed
  next
    fix a k assume a: "a \<in> ?F'" and d: "derives P doms (sm_rules sm) F0 c0 a k"
    show "?\<kappa>' a \<le> k"
    proof (cases "a \<in> ?F")
      case True
      then show ?thesis using M(1) [OF True] C d unfolding inv_costs_def by metis
    next
      case False
      then show ?thesis using derives_above [OF assms(2,3) mc assms(4) low [unfolded k] d False] new [OF a False] by simp
    qed
  next
    fix a assume a: "a \<in> ?F'" "fst a \<in> head_predicates P (sm_rules sm)"
    show "?\<kappa>' a \<le> enat ?c"
    proof (cases "a \<in> ?F")
      case True
      then have "?\<kappa>' a \<le> enat (cb_current (ps_buckets st))" using M(1) [OF True] C a unfolding inv_costs_def by metis
      then show ?thesis using cur by (meson enat_ord_simps(1) order_trans)
    next
      case False
      then show ?thesis using new [OF a(1)] by simp
    qed
  next
    fix a assume a: "a \<notin> ?F'"
    then have "enat ?c \<le> ?\<kappa>' a" "?\<kappa>' a \<noteq> enat ?c" using low inc sub by blast+
    then show "enat ?c < ?\<kappa>' a" by simp
  next
    fix c assume "?c < c" then show "bucket_at (ps_buckets st') c = {a. a \<notin> ?F' \<and> ?\<kappa>' a = enat c}" by (rule gt)
  qed
  moreover have "inv_rules P doms sm F0 (last_facts st Fr) st'"
    unfolding inv_rules_def
  proof (intro ballI conjI allI impI)
    fix i assume i: "i \<in> set (sm_rules sm)"
    show "rule_at (pg_setting P) (doms ! i) (pg_rules P ! i) (last_facts st Fr i) (ps_rules st' ! i)"
      unfolding rules by (rule executed_rules(1) [OF assms(1-3) i])
    fix G assume "last_facts st Fr i = Some G"
    then have "G = ?F \<or> Fr i = Some G" by (auto simp: last_facts_def split: if_splits)
    then show "extends_facts P (sm_rules sm) F0 G" "G \<subseteq> ?F'" using R i exf sub unfolding inv_rules_def by blast+
  next
    fix i \<sigma> assume i: "i \<in> set (sm_rules sm)" and "rule_fired P doms i (last_facts st Fr i) \<sigma>"
    then show "?\<kappa>' (rule_head P i \<sigma>) \<le> rule_binding_cost P ?\<kappa>' i \<sigma>" using M(2) [OF i] unfolding rule_fired_last [OF assms(2,3) i] by blast
  next
    fix i \<sigma> assume i: "i \<in> set (sm_rules sm)" and f: "rule_fires P doms i ?F' \<sigma>" and nf: "\<not> rule_fired P doms i (last_facts st Fr i) \<sigma>"
    have "\<not> rule_fires P doms i ?F \<sigma>" using nf unfolding rule_fired_last [OF assms(2,3) i] .
    then obtain l where l: "l \<in> set (witness_literals (cr_rule (pg_rules P ! i)))" "ground_atom_of \<sigma> l \<in> ?F'" "ground_atom_of \<sigma> l \<notin> ?F"
      using f unfolding rule_fires_iff [OF assms(2) i exf] rule_fires_iff [OF assms(2) i exf'] by blast
    have "i \<in> set (sm_listeners sm (fst (ground_atom_of \<sigma> l)))" unfolding L using i l(1) by (auto simp: ground_atom_of_def)
    then show "i \<in> set (ps_active_rules st')" unfolding act(2) using l by blast
    assume pol: "pg_annotation P \<noteq> No_Annotation"
    have "?\<kappa>' (ground_atom_of \<sigma> l) + enat (rl_cost (cr_rule (pg_rules P ! i))) \<le> rule_binding_cost P ?\<kappa>' i \<sigma>"
      unfolding rule_binding_cost_def binding_cost_def by (rule derivation_cost_ge [OF l(1) pol, where \<kappa> = "\<lambda>l. ?\<kappa>' (ground_atom_of \<sigma> l)"])
    then show "enat (?c + rl_cost (cr_rule (pg_rules P ! i))) \<le> rule_binding_cost P ?\<kappa>' i \<sigma>" using new [OF l(2,3)] by simp
  qed
  moreover have "inv_witnesses P doms sm F0 st'"
    unfolding inv_witnesses_def
  proof (intro impI allI)
    fix a assume "pg_annotation P \<noteq> No_Annotation" "a \<notin> F0" "?\<kappa>' a \<noteq> \<infinity>"
    then have "has_witness P doms (sm_rules sm) ?F st3 a" by (rule M(5))
    then show "has_witness P doms (sm_rules sm) ?F' st' a" by (rule has_witness_mono [OF _ assms(2) exf exf' sub k w])
  qed
  ultimately show "stratum_inv P doms sm F0 c0 (last_facts st Fr) st'" by (simp add: stratum_inv_def)
qed


section \<open>The end of the loop\<close>

text \<open>
  The result of a stratum: the facts are the derivable atoms, each costs as much as its cheapest derivation, and the other atoms
  have no cost. A search that has stopped at its goals has the same for its facts.
\<close>

definition least_cost :: "'v program \<Rightarrow> nat list list list \<Rightarrow> nat list \<Rightarrow> facts \<Rightarrow> (atom \<Rightarrow> enat) \<Rightarrow> atom \<Rightarrow> enat" where
  "least_cost P doms rs F0 c0 a = (if \<exists>k. derives P doms rs F0 c0 a k then (LEAST k. derives P doms rs F0 c0 a k) else \<infinity>)"

definition optimal_facts :: "'v program \<Rightarrow> nat list list list \<Rightarrow> nat list \<Rightarrow> facts \<Rightarrow> (atom \<Rightarrow> enat) \<Rightarrow> program_state \<Rightarrow> bool" where
  "optimal_facts P doms rs F0 c0 st \<longleftrightarrow> (\<forall>a \<in> set (ps_facts st). (\<exists>k. derives P doms rs F0 c0 a k) \<and> atom_cost P st a = least_cost P doms rs F0 c0 a
     \<and> (pg_annotation P \<noteq> No_Annotation \<longrightarrow> a \<notin> F0 \<longrightarrow> has_witness P doms rs (set (ps_facts st)) st a))"

definition complete_facts :: "'v program \<Rightarrow> nat list list list \<Rightarrow> nat list \<Rightarrow> facts \<Rightarrow> (atom \<Rightarrow> enat) \<Rightarrow> program_state \<Rightarrow> bool" where
  "complete_facts P doms rs F0 c0 st \<longleftrightarrow> set (ps_facts st) = {a. \<exists>k. derives P doms rs F0 c0 a k} \<and> atom_cost P st = least_cost P doms rs F0 c0"

lemma inv_optimal:
  assumes "stratum_inv P doms sm F0 c0 Fr st"
  shows "optimal_facts P doms (sm_rules sm) F0 c0 st"
  unfolding optimal_facts_def
proof (intro ballI conjI impI)
  fix a assume a: "a \<in> set (ps_facts st)"
  have C: "atom_cost P st a \<noteq> \<infinity>" "derives P doms (sm_rules sm) F0 c0 a (atom_cost P st a)" "\<And>k. derives P doms (sm_rules sm) F0 c0 a k \<Longrightarrow> atom_cost P st a \<le> k"
    using assms a unfolding stratum_inv_def inv_costs_def by blast+
  show "\<exists>k. derives P doms (sm_rules sm) F0 c0 a k" using C(2) by blast
  show "atom_cost P st a = least_cost P doms (sm_rules sm) F0 c0 a"
    unfolding least_cost_def using C(2,3) Least_equality [of "derives P doms (sm_rules sm) F0 c0 a" "atom_cost P st a"] by auto
  assume "pg_annotation P \<noteq> No_Annotation" "a \<notin> F0"
  then show "has_witness P doms (sm_rules sm) (set (ps_facts st)) st a" using assms C(1) unfolding stratum_inv_def inv_witnesses_def by blast
qed

lemma iteration_done:
  assumes "program_ok P doms" "stratum_ok P sm" "stratum_inv P doms sm F0 c0 Fr st" "start_costs P F0 c0" "stratum_iteration P sm st = (False, st')"
  shows "complete_facts P doms (sm_rules sm) F0 c0 st'" "optimal_facts P doms (sm_rules sm) F0 c0 st'" "ps_facts st' = ps_facts st"
    "ps_sets st' = ps_sets st" "ps_rules st' = ps_rules (executed P st)" "ps_tp st' = ps_tp st" "ps_witnesses st' = ps_witnesses (merge_active P (executed P st))"
proof -
  let ?st3 = "merge_active P (executed P st)" and ?F = "set (ps_facts st)" and ?cur = "cb_current (ps_buckets st)"
  note M = iteration_merged [OF assms(1-3) refl]
  note mc = merged_costsD [OF M(1)]
  have C: "inv_costs P doms sm F0 c0 st" and exf: "extends_facts P (sm_rules sm) F0 ?F"
    using assms(3) by (simp_all add: stratum_inv_def inv_state_def)
  obtain go B where adv: "advance_to_next_nonempty (ps_buckets ?st3) = (go, B)" by force
  have st': "\<not> go" "st' = ?st3\<lparr>ps_buckets := B\<rparr>" using assms(5) adv by (auto simp: stratum_iteration_eq Let_def split: if_splits)
  note A = advance_spec [OF adv]
  have k: "atom_cost P st' = atom_cost P ?st3" by (rule ext) (simp add: atom_cost_def st'(2) A(1) split: annotation_policy.split)
  show fs: "ps_facts st' = ps_facts st" "ps_sets st' = ps_sets st" "ps_rules st' = ps_rules (executed P st)" "ps_tp st' = ps_tp st"
    "ps_witnesses st' = ps_witnesses ?st3"
    using M(4-7) by (simp_all add: st'(2))
  have inf: "atom_cost P ?st3 a = \<infinity>" if a: "a \<notin> ?F" for a
  proof (rule ccontr)
    assume "atom_cost P ?st3 a \<noteq> \<infinity>"
    then obtain d where d: "atom_cost P ?st3 a = enat d" by auto
    moreover have "enat ?cur \<le> atom_cost P ?st3 a" using M(1) a unfolding merged_costs_def by blast
    ultimately have "?cur \<le> d" by simp
    then have "a \<in> bucket_at (ps_buckets ?st3) d" using M(2) a d by (cases "d = ?cur") (auto simp: buckets_match_def)
    then show False using A(5) [OF st'(1), of d] \<open>?cur \<le> d\<close> M(10) by auto
  qed
  have none: "\<not> derives P doms (sm_rules sm) F0 c0 a k" if a: "a \<notin> ?F" for a k
  proof
    assume d: "derives P doms (sm_rules sm) F0 c0 a k"
    have "\<infinity> \<le> k" by (rule derives_above [OF assms(2,3) M(1) assms(4) _ d a]) (simp add: inf)
    then show False using derives_cost [OF assms(4) d] by simp
  qed
  have opt: "(\<exists>k. derives P doms (sm_rules sm) F0 c0 a k) \<and> atom_cost P st' a = least_cost P doms (sm_rules sm) F0 c0 a" if a: "a \<in> ?F" for a
    using inv_optimal [OF assms(3)] mc(1) [OF a] a unfolding optimal_facts_def k by metis
  show "complete_facts P doms (sm_rules sm) F0 c0 st'"
    unfolding complete_facts_def
  proof
    show "set (ps_facts st') = {a. \<exists>k. derives P doms (sm_rules sm) F0 c0 a k}" using none opt unfolding fs by blast
    show "atom_cost P st' = least_cost P doms (sm_rules sm) F0 c0"
    proof (rule ext)
      fix a show "atom_cost P st' a = least_cost P doms (sm_rules sm) F0 c0 a"
        using opt inf none by (cases "a \<in> ?F") (simp_all add: k least_cost_def)
    qed
  qed
  have "has_witness P doms (sm_rules sm) ?F st' a" if "pg_annotation P \<noteq> No_Annotation" "a \<notin> F0" "a \<in> ?F" for a
  proof -
    have "atom_cost P ?st3 a \<noteq> \<infinity>" using mc(1) [OF that(3)] C that(3) unfolding inv_costs_def by metis
    from mc(5) [OF that(1,2) this] show ?thesis by (rule has_witness_mono [OF _ assms(2) exf exf subset_refl k]) (simp add: st'(2))
  qed
  then show "optimal_facts P doms (sm_rules sm) F0 c0 st'" using opt unfolding optimal_facts_def fs by blast
qed

section \<open>Termination\<close>

lemma finite_in_domains: "finite {\<sigma>. in_domains c doms \<sigma>}"
proof (rule finite_subset)
  show "{\<sigma>. in_domains c doms \<sigma>} \<subseteq> {\<sigma>. set \<sigma> \<subseteq> (\<Union>p < cond_arity c. set (doms ! p)) \<and> length \<sigma> = cond_arity c}"
  proof clarify
    fix \<sigma> assume "in_domains c doms \<sigma>"
    then show "set \<sigma> \<subseteq> (\<Union>p < cond_arity c. set (doms ! p)) \<and> length \<sigma> = cond_arity c" by (auto simp: in_domains_def set_conv_nth)
  qed
  show "finite {\<sigma>. set \<sigma> \<subseteq> (\<Union>p < cond_arity c. set (doms ! p)) \<and> length \<sigma> = cond_arity c}" by (rule finite_lists_length_eq) simp
qed

lemma finite_derivable:
  assumes "finite F0"
  shows "finite {a. \<exists>k. derives P doms rs F0 c0 a k}"
proof (rule finite_subset)
  let ?U = "F0 \<union> (\<Union>i \<in> set rs. rule_head P i ` {\<sigma>. in_domains (rl_body (cr_rule (pg_rules P ! i))) (doms ! i) \<sigma>})"
  show "finite ?U" using finite_in_domains assms by blast
  have "a \<in> ?U" if "derives P doms rs F0 c0 a k" for a k
    using that
  proof cases
    case (derives_rule i r \<sigma> \<kappa>)
    then have "a = rule_head P i \<sigma>" "in_domains (rl_body (cr_rule (pg_rules P ! i))) (doms ! i) \<sigma>" by (simp_all add: rule_head_def side_holds_def)
    then show ?thesis using derives_rule(3) by blast
  qed simp
  then show "{a. \<exists>k. derives P doms rs F0 c0 a k} \<subseteq> ?U" by blast
qed

definition loop_measure :: "'v program \<Rightarrow> nat list list list \<Rightarrow> stratum \<Rightarrow> facts \<Rightarrow> (atom \<Rightarrow> enat) \<Rightarrow> program_state \<Rightarrow> nat" where
  "loop_measure P doms sm F0 c0 st = 2 * card ({a. \<exists>k. derives P doms (sm_rules sm) F0 c0 a k} - set (ps_facts st)) + (if ps_active_rules st = [] then 0 else 1)"

lemma iteration_decreases:
  assumes "program_ok P doms" "stratum_ok P sm" "stratum_inv P doms sm F0 c0 Fr st" "start_costs P F0 c0" "stratum_iteration P sm st = (True, st')" "finite F0"
  shows "loop_measure P doms sm F0 c0 st' < loop_measure P doms sm F0 c0 st"
proof -
  let ?U = "{a. \<exists>k. derives P doms (sm_rules sm) F0 c0 a k}"
  note N = iteration_inv [OF assms(1-5)]
  have U: "finite ?U" by (rule finite_derivable [OF assms(6)])
  show ?thesis
  proof (cases "set (ps_facts st') = set (ps_facts st)")
    case True
    then show ?thesis using N(3) by (simp add: loop_measure_def)
  next
    case False
    then obtain a where a: "a \<in> set (ps_facts st')" "a \<notin> set (ps_facts st)" using N(2) by blast
    then have "a \<in> ?U" using inv_optimal [OF N(1)] unfolding optimal_facts_def by blast
    then have "?U - set (ps_facts st') \<subset> ?U - set (ps_facts st)" using N(2) a by blast
    then have "card (?U - set (ps_facts st')) < card (?U - set (ps_facts st))" using U by (intro psubset_card_mono) auto
    then show ?thesis by (simp add: loop_measure_def)
  qed
qed

end
