(* ===== verification/Bottom_Up_Solve.thy ===== *)
theory Bottom_Up_Solve
  imports Bottom_Up_Strata
begin

text \<open>
  The whole solver: the loop over a stratum returns with the least costs of all derivable atoms, or with its goals, and the strata
  one after the other compute the stratified model of the program.
\<close>

section \<open>Goals\<close>

definition goals_ok :: "atom list \<Rightarrow> facts \<Rightarrow> goal_state \<Rightarrow> bool" where
  "goals_ok goals F t \<longleftrightarrow> distinct (tp_unsat t) \<and> set (tp_unsat t) = set goals - F \<and> tp_num t = length (tp_unsat t) \<and> tp_bindings t = goals"

lemma goals_ok_check: "goals_ok goals F t \<Longrightarrow> tp_check t \<longleftrightarrow> set goals \<subseteq> F"
proof -
  assume g: "goals_ok goals F t"
  then have "tp_check t \<longleftrightarrow> set (tp_unsat t) = {}" unfolding goals_ok_def tp_check_def set_empty by simp
  then show ?thesis using g unfolding goals_ok_def by (metis Diff_eq_empty_iff)
qed

lemma goals_ok_achieve: "goals_ok goals F t \<Longrightarrow> goals_ok goals (insert a F) (tp_achieve a t)"
  using distinct_remove1_removeAll [of "tp_unsat t" a] length_remove1 [of a "tp_unsat t"]
  by (auto simp: goals_ok_def tp_achieve_def distinct_removeAll)

lemma goals_ok_set_goals:
  assumes "distinct goals"
  shows "goals_ok goals {} (tp_set_goals goals t)"
proof -
  have "goals_ok gs {} (fold tp_add_goal gs ((tp_clear t)\<lparr>tp_num := 0\<rparr>))" if "distinct gs" for gs
    using that
  proof (induction gs rule: rev_induct)
    case Nil
    then show ?case by (simp add: goals_ok_def tp_clear_def)
  next
    case (snoc a gs)
    then show ?case by (auto simp: goals_ok_def tp_add_goal_def)
  qed
  then show ?thesis using assms by (simp add: tp_set_goals_def)
qed

lemma insert_head_goals: "goals_ok goals (set (ps_facts st)) (ps_tp st) \<Longrightarrow>
    goals_ok goals (set (ps_facts (fold (insert_head P) as st))) (ps_tp (fold (insert_head P) as st))"
proof (induction as arbitrary: st)
  case (Cons a as)
  have "goals_ok goals (set (ps_facts (insert_head P a st))) (ps_tp (insert_head P a st))"
    using Cons.prems goals_ok_achieve [OF Cons.prems, of a] by (simp add: insert_head_def on_generate_def)
  then show ?case using Cons.IH by simp
qed simp

lemma iteration_goals:
  assumes "program_ok P doms" "stratum_ok P sm" "stratum_inv P doms sm F0 c0 Fr st" "goals_ok goals (set (ps_facts st)) (ps_tp st)"
  shows "goals_ok goals (set (ps_facts (snd (stratum_iteration P sm st)))) (ps_tp (snd (stratum_iteration P sm st)))"
proof -
  note M = iteration_merged [OF assms(1-3) refl]
  obtain go B where adv: "advance_to_next_nonempty (ps_buckets (merge_active P (executed P st))) = (go, B)" by force
  have "goals_ok goals (set (ps_facts (merge_active P (executed P st)\<lparr>ps_buckets := B\<rparr>))) (ps_tp (merge_active P (executed P st)\<lparr>ps_buckets := B\<rparr>))"
    using assms(4) M(4,6) by simp
  from insert_head_goals [OF this, of P "get_current_bucket B"] this show ?thesis
    using adv by (simp add: stratum_iteration_eq on_finish_iteration_def Let_def)
qed

section \<open>The loop\<close>

definition stratum_result :: "'v program \<Rightarrow> nat list list list \<Rightarrow> stratum \<Rightarrow> facts \<Rightarrow> (atom \<Rightarrow> enat) \<Rightarrow> program_state \<Rightarrow> program_state \<Rightarrow> bool" where
  "stratum_result P doms sm F0 c0 st st' \<longleftrightarrow> optimal_facts P doms (sm_rules sm) F0 c0 st'
     \<and> (complete_facts P doms (sm_rules sm) F0 c0 st' \<or> pg_goal_directed P \<and> tp_check (ps_tp st'))
     \<and> sets_hold (se_fpreds (pg_setting P)) (se_objects (pg_setting P)) (ps_sets st') (set (ps_facts st')) \<and> F0 \<subseteq> set (ps_facts st')
     \<and> length (ps_rules st') = length (pg_rules P)
     \<and> (\<forall>i \<in> set (sm_rules sm). \<exists>G. rule_at (pg_setting P) (doms ! i) (pg_rules P ! i) G (ps_rules st' ! i))
     \<and> (\<forall>i. i \<notin> set (sm_rules sm) \<longrightarrow> ps_rules st' ! i = ps_rules st ! i)
     \<and> (\<forall>a. fst a \<notin> head_predicates P (sm_rules sm) \<longrightarrow> ps_witnesses st' a = ps_witnesses st a)"

lemma executed_rules_other:
  assumes "stratum_inv P doms sm F0 c0 Fr st" "i \<notin> set (sm_rules sm)"
  shows "ps_rules (executed P st) ! i = ps_rules st ! i"
proof -
  have "i \<notin> set (ps_active_rules st)" using assms by (auto simp: stratum_inv_def inv_state_def)
  then show ?thesis using fold_update_other [of i "ps_active_rules st" "\<lambda>i. execute_rule (iteration_input P (on_start_iteration st)) (pg_rules P ! i)" "ps_rules st"]
    by (simp add: executed_def execute_active_def on_start_iteration_def Let_def)
qed

lemma stratum_loop_returns:
  assumes "program_ok P doms" "stratum_ok P sm" "start_costs P F0 c0" "finite F0"
  shows "stratum_inv P doms sm F0 c0 Fr st \<Longrightarrow> goals_ok goals (set (ps_facts st)) (ps_tp st) \<or> \<not> pg_goal_directed P \<Longrightarrow>
    \<exists>st'. stratum_loop P sm st = Some st' \<and> stratum_result P doms sm F0 c0 st st' \<and> (goals_ok goals (set (ps_facts st')) (ps_tp st') \<or> \<not> pg_goal_directed P)"
proof (induction "loop_measure P doms sm F0 c0 st" arbitrary: st Fr rule: less_induct)
  case less
  note S = less.prems(1) [unfolded stratum_inv_def inv_state_def]
  have sub: "F0 \<subseteq> set (ps_facts st)" using S by (simp add: extends_facts_def)
  show ?case
  proof (cases "pg_goal_directed P \<and> tp_check (ps_tp st)")
    case True
    have "\<exists>G. rule_at (pg_setting P) (doms ! i) (pg_rules P ! i) G (ps_rules st ! i)" if "i \<in> set (sm_rules sm)" for i
      using less.prems(1) that unfolding stratum_inv_def inv_rules_def by blast
    then have "stratum_result P doms sm F0 c0 st st" using True inv_optimal [OF less.prems(1)] S sub by (simp add: stratum_result_def)
    moreover have "stratum_loop P sm st = Some st" using True by (simp add: stratum_loop.simps)
    ultimately show ?thesis using less.prems(2) by blast
  next
    case False
    obtain go st1 where it: "stratum_iteration P sm st = (go, st1)" by force
    have goals: "goals_ok goals (set (ps_facts st1)) (ps_tp st1) \<or> \<not> pg_goal_directed P"
      using iteration_goals [OF assms(1,2) less.prems(1)] less.prems(2) by (force simp: it)
    have loop: "stratum_loop P sm st = (if go then stratum_loop P sm st1 else Some st1)"
      using False it by (subst stratum_loop.simps) (auto simp: Let_def)
    show ?thesis
    proof (cases go)
      case True
      have it': "stratum_iteration P sm st = (True, st1)" using it True by simp
      have inv1: "stratum_inv P doms sm F0 c0 (last_facts st Fr) st1" by (rule iteration_inv(1) [OF assms(1,2) less.prems(1) assms(3) it'])
      obtain st' where st': "stratum_loop P sm st1 = Some st'" "stratum_result P doms sm F0 c0 st1 st'" "goals_ok goals (set (ps_facts st')) (ps_tp st') \<or> \<not> pg_goal_directed P"
        using less.hyps [OF iteration_decreases [OF assms(1,2) less.prems(1) assms(3) it' assms(4)] inv1 goals] by blast
      have "ps_rules st1 ! i = ps_rules st ! i" if "i \<notin> set (sm_rules sm)" for i
        using executed_rules_other [OF less.prems(1) that] next_state(4) [OF assms(1,2) less.prems(1) assms(3) it' refl] by simp
      moreover have "ps_witnesses st1 a = ps_witnesses st a" if "fst a \<notin> head_predicates P (sm_rules sm)" for a
        using iteration_merged(11) [OF assms(1,2) less.prems(1) refl that] next_state(3) [OF assms(1,2) less.prems(1) assms(3) it' refl] by simp
      ultimately have "stratum_result P doms sm F0 c0 st st'" using st'(2) by (simp add: stratum_result_def)
      then show ?thesis using st' loop True by auto
    next
      case no: False
      have "stratum_iteration P sm st = (False, st1)" using it no by simp
      note D = iteration_done [OF assms(1,2) less.prems(1) assms(3) this]
      have "\<exists>G. rule_at (pg_setting P) (doms ! i) (pg_rules P ! i) G (ps_rules st1 ! i)" if "i \<in> set (sm_rules sm)" for i
        using executed_rules(1) [OF assms(1,2) less.prems(1) that] unfolding D(5) by blast
      moreover have "ps_witnesses st1 a = ps_witnesses st a" if "fst a \<notin> head_predicates P (sm_rules sm)" for a
        using iteration_merged(11) [OF assms(1,2) less.prems(1) refl that] D(7) by simp
      ultimately have "stratum_result P doms sm F0 c0 st st1"
        using D S sub executed_rules_other [OF less.prems(1)] by (simp add: stratum_result_def length_executed)
      then show ?thesis using loop no goals by auto
    qed
  qed
qed


section \<open>The start of a stratum\<close>

definition strata_ready :: "'v program \<Rightarrow> nat list list list \<Rightarrow> stratum list \<Rightarrow> facts \<Rightarrow> (atom \<Rightarrow> enat) \<Rightarrow> program_state \<Rightarrow> bool" where
  "strata_ready P doms sms F0 c0 st \<longleftrightarrow> set (ps_facts st) = F0 \<and> sets_hold (se_fpreds (pg_setting P)) (se_objects (pg_setting P)) (ps_sets st) F0
     \<and> length (ps_rules st) = length (pg_rules P) \<and> start_costs P F0 c0 \<and> (\<forall>a. a \<notin> F0 \<longrightarrow> c0 a = \<infinity>) \<and> (pg_annotation P \<noteq> No_Annotation \<longrightarrow> ps_costs st = c0)
     \<and> (\<forall>sm \<in> set sms. (\<forall>i \<in> set (sm_rules sm). rule_at (pg_setting P) (doms ! i) (pg_rules P ! i) None (ps_rules st ! i))
          \<and> (\<forall>a \<in> F0. fst a \<in> head_predicates P (sm_rules sm) \<longrightarrow> c0 a = 0))"

lemma derives_start:
  assumes "derives P doms rs F0 c0 a k" "fst a \<notin> head_predicates P rs"
  shows "a \<in> F0 \<and> k = c0 a"
  using assms by cases (auto simp: head_predicates_def ground_head_def)

definition stratum_start :: "stratum \<Rightarrow> program_state \<Rightarrow> program_state" where
  "stratum_start sm st = (activate_all sm st)\<lparr>ps_buckets := cb_clear (ps_buckets st)\<rparr>"

lemma solve_stratum_eq: "solve_bottom_up_for_stratum P sm st = stratum_loop P sm (stratum_start sm st)"
  by (simp add: solve_bottom_up_for_stratum_def stratum_start_def activate_all_def)

lemma stratum_start_simps [simp]: "ps_facts (stratum_start sm st) = ps_facts st" "ps_sets (stratum_start sm st) = ps_sets st" "ps_rules (stratum_start sm st) = ps_rules st"
  "ps_costs (stratum_start sm st) = ps_costs st" "ps_witnesses (stratum_start sm st) = ps_witnesses st" "ps_tp (stratum_start sm st) = ps_tp st"
  "set (ps_active_rules (stratum_start sm st)) = set (sm_rules sm)" "distinct (ps_active_rules (stratum_start sm st))"
  "cb_current (ps_buckets (stratum_start sm st)) = 0" "bucket_at (ps_buckets (stratum_start sm st)) c = {}"
  using set_fold_insert(1) [of "sm_rules sm" "[]"] set_fold_insert(2) [of "[]" "sm_rules sm"]
  by (simp_all add: stratum_start_def activate_all_def cb_clear_def bucket_at_def)

lemma stratum_start_inv:
  assumes "strata_ready P doms (sm # sms) F0 c0 st"
  shows "stratum_inv P doms sm F0 c0 (\<lambda>i. None) (stratum_start sm st)"
proof -
  let ?st = "stratum_start sm st" and ?d = "derives P doms (sm_rules sm) F0 c0"
  have R: "set (ps_facts st) = F0" "sets_hold (se_fpreds (pg_setting P)) (se_objects (pg_setting P)) (ps_sets st) F0" "length (ps_rules st) = length (pg_rules P)"
    using assms unfolding strata_ready_def by blast+
  have c0: "start_costs P F0 c0" "\<And>a. a \<notin> F0 \<Longrightarrow> c0 a = \<infinity>" "pg_annotation P \<noteq> No_Annotation \<Longrightarrow> ps_costs st = c0"
    using assms unfolding strata_ready_def by metis+
  have rule: "\<And>i. i \<in> set (sm_rules sm) \<Longrightarrow> rule_at (pg_setting P) (doms ! i) (pg_rules P ! i) None (ps_rules st ! i)"
    and zero: "\<And>a. a \<in> F0 \<Longrightarrow> fst a \<in> head_predicates P (sm_rules sm) \<Longrightarrow> c0 a = 0"
    using assms list.set_intros(1) [of sm sms] unfolding strata_ready_def by metis+
  have k: "atom_cost P ?st = c0"
  proof (rule ext)
    fix a show "atom_cost P ?st a = c0 a"
    proof (cases "pg_annotation P")
      case No_Annotation
      then show ?thesis using R(1) c0(1) c0(2) [of a] by (cases "a \<in> F0") (simp_all add: atom_cost_def start_costs_def)
    qed (use c0(3) in \<open>simp add: atom_cost_def\<close>)
  qed
  have "inv_state P sm F0 ?st" using R by (simp add: inv_state_def extends_facts_def)
  moreover have "inv_costs P doms sm F0 c0 ?st"
  proof -
    have fin: "a \<in> F0" if "c0 a \<noteq> \<infinity>" for a using c0(2) [of a] that by (cases "a \<in> F0") simp_all
    have least: "c0 a \<le> l" if "a \<in> F0" "?d a l" for a l
    proof (cases "fst a \<in> head_predicates P (sm_rules sm)")
      case True
      then show ?thesis using zero [OF that(1) True] by simp
    next
      case False
      then show ?thesis using derives_start [OF that(2) False] by simp
    qed
    show ?thesis
      unfolding inv_costs_def k stratum_start_simps R(1)
    proof (intro conjI allI ballI impI)
      fix a assume "c0 a \<noteq> \<infinity>" then show "?d a (c0 a)" by (intro derives_fact fin)
    next
      fix a assume "a \<in> F0" then show "c0 a \<noteq> \<infinity>" using c0(1) by (simp add: start_costs_def)
    next
      fix a l assume "a \<in> F0" "?d a l" then show "c0 a \<le> l" by (rule least)
    next
      fix a assume "a \<in> F0" "fst a \<in> head_predicates P (sm_rules sm)" then show "c0 a \<le> enat 0" using zero by simp
    next
      fix a assume "a \<notin> F0" then show "enat 0 < c0 a" using c0(2) by simp
    next
      fix c show "{} = {a. a \<notin> F0 \<and> c0 a = enat c}" using c0(2) by auto
    qed
  qed
  moreover have "inv_rules P doms sm F0 (\<lambda>i. None) ?st"
  proof -
    have "enat (rl_cost (cr_rule (pg_rules P ! i))) \<le> rule_binding_cost P c0 i \<sigma>" if "pg_annotation P \<noteq> No_Annotation" for i \<sigma>
      using that by (cases "pg_annotation P") (simp_all add: rule_binding_cost_def binding_cost_def derivation_cost_def)
    then show ?thesis using rule unfolding inv_rules_def k by (simp add: rule_fired_def fired_def)
  qed
  moreover have "inv_witnesses P doms sm F0 ?st" using c0(2) by (simp add: inv_witnesses_def k)
  ultimately show ?thesis by (simp add: stratum_inv_def)
qed

lemma solve_stratum_returns:
  assumes "program_ok P doms" "stratum_ok P sm" "strata_ready P doms (sm # sms) F0 c0 st" "goals_ok goals (set (ps_facts st)) (ps_tp st) \<or> \<not> pg_goal_directed P"
  shows "\<exists>st'. solve_bottom_up_for_stratum P sm st = Some st' \<and> stratum_result P doms sm F0 c0 st st' \<and> (goals_ok goals (set (ps_facts st')) (ps_tp st') \<or> \<not> pg_goal_directed P)"
proof -
  have "start_costs P F0 c0" "finite F0" using assms(3) by (auto simp: strata_ready_def)
  from stratum_loop_returns [OF assms(1,2) this stratum_start_inv [OF assms(3)], of goals] assms(4)
  show ?thesis by (simp add: solve_stratum_eq stratum_result_def)
qed

section \<open>Strata\<close>

text \<open>The stratified model of a program: each stratum derives from what the strata before it have derived.\<close>

fun strata_model :: "'v program \<Rightarrow> nat list list list \<Rightarrow> nat list list \<Rightarrow> facts \<times> (atom \<Rightarrow> enat) \<Rightarrow> facts \<times> (atom \<Rightarrow> enat)" where
  "strata_model P doms [] M = M"
| "strata_model P doms (rs # rss) M = strata_model P doms rss ({a. \<exists>k. derives P doms rs (fst M) (snd M) a k}, least_cost P doms rs (fst M) (snd M))"

definition separate_strata :: "'v program \<Rightarrow> stratum list \<Rightarrow> bool" where
  "separate_strata P sms \<longleftrightarrow> sorted_wrt (\<lambda>sm sm'. head_predicates P (sm_rules sm) \<inter> head_predicates P (sm_rules sm') = {}) sms"

lemma least_cost_finite: "start_costs P F0 c0 \<Longrightarrow> derives P doms rs F0 c0 a k \<Longrightarrow>
    least_cost P doms rs F0 c0 a \<noteq> \<infinity> \<and> (pg_annotation P = No_Annotation \<longrightarrow> least_cost P doms rs F0 c0 a = 0)"
  using LeastI [of "derives P doms rs F0 c0 a" k] derives_cost [of P F0 c0 doms rs a "LEAST k. derives P doms rs F0 c0 a k"] by (auto simp: least_cost_def)

lemma least_cost_start:
  assumes "a \<in> F0" "fst a \<notin> head_predicates P rs"
  shows "least_cost P doms rs F0 c0 a = c0 a"
proof -
  have "derives P doms rs F0 c0 a = (\<lambda>k. k = c0 a)" using derives_start [OF _ assms(2)] derives_fact [OF assms(1)] by metis
  then show ?thesis by (auto simp: least_cost_def intro: Least_equality)
qed

lemma next_stratum_ready:
  assumes "strata_ready P doms (sm # sms) F0 c0 st" "separate_strata P (sm # sms)" "stratum_result P doms sm F0 c0 st st'"
    and "complete_facts P doms (sm_rules sm) F0 c0 st'"
  shows "strata_ready P doms sms {a. \<exists>k. derives P doms (sm_rules sm) F0 c0 a k} (least_cost P doms (sm_rules sm) F0 c0) st'"
proof -
  let ?F = "{a. \<exists>k. derives P doms (sm_rules sm) F0 c0 a k}" and ?c = "least_cost P doms (sm_rules sm) F0 c0"
  have F: "set (ps_facts st') = ?F" and k: "atom_cost P st' = ?c" using assms(4) by (simp_all add: complete_facts_def)
  have c0: "start_costs P F0 c0" using assms(1) by (simp add: strata_ready_def)
  have start: "start_costs P ?F ?c" using least_cost_finite [OF c0] unfolding start_costs_def by blast
  have costs: "pg_annotation P \<noteq> No_Annotation \<Longrightarrow> ps_costs st' = ?c"
  proof -
    assume "pg_annotation P \<noteq> No_Annotation"
    then have "ps_costs st' = atom_cost P st'" by (intro ext) (simp add: atom_cost_def split: annotation_policy.split)
    then show "ps_costs st' = ?c" unfolding k .
  qed
  have "rule_at (pg_setting P) (doms ! i) (pg_rules P ! i) None (ps_rules st' ! i)" if sm': "sm' \<in> set sms" and i: "i \<in> set (sm_rules sm')" for sm' i
  proof -
    have "i \<notin> set (sm_rules sm)" using assms(2) sm' i unfolding separate_strata_def head_predicates_def by auto
    then have "ps_rules st' ! i = ps_rules st ! i" using assms(3) by (simp add: stratum_result_def)
    then show ?thesis using assms(1) sm' i by (simp add: strata_ready_def)
  qed
  moreover have "?c a = 0" if sm': "sm' \<in> set sms" and a: "a \<in> ?F" "fst a \<in> head_predicates P (sm_rules sm')" for sm' a
  proof -
    have h: "fst a \<notin> head_predicates P (sm_rules sm)" using assms(2) sm' a(2) by (auto simp: separate_strata_def)
    then have "a \<in> F0" using a(1) derives_start by blast
    then show ?thesis using least_cost_start [OF _ h] assms(1) sm' a(2) by (simp add: strata_ready_def)
  qed
  ultimately show ?thesis
    using assms(3) F start costs unfolding strata_ready_def stratum_result_def by (simp add: least_cost_def)
qed

text \<open>A search that has stopped at its goals leaves the later strata alone.\<close>

lemma solve_stopped:
  assumes "pg_goal_directed P" "tp_check (ps_tp st)"
  shows "\<exists>st'. solve_bottom_up P sms st = Some st' \<and> ps_facts st' = ps_facts st \<and> ps_sets st' = ps_sets st \<and> ps_rules st' = ps_rules st \<and> ps_tp st' = ps_tp st
    \<and> ps_costs st' = ps_costs st \<and> ps_witnesses st' = ps_witnesses st"
  using assms(2)
proof (induction sms arbitrary: st)
  case (Cons sm sms)
  have "solve_bottom_up_for_stratum P sm st = Some (stratum_start sm st)"
    using assms(1) Cons.prems by (simp add: solve_stratum_eq stratum_loop.simps)
  then show ?case using Cons.IH [of "stratum_start sm st"] Cons.prems by simp
qed simp

text \<open>The workspace between two solves.\<close>

definition workspace_ok :: "'v program \<Rightarrow> nat list list list \<Rightarrow> program_state \<Rightarrow> bool" where
  "workspace_ok P doms st \<longleftrightarrow> (\<exists>F. sets_hold (se_fpreds (pg_setting P)) (se_objects (pg_setting P)) (ps_sets st) F) \<and> length (ps_rules st) = length (pg_rules P)
     \<and> (\<forall>i < length (pg_rules P). \<exists>G. rule_at (pg_setting P) (doms ! i) (pg_rules P ! i) G (ps_rules st ! i))"

lemma solve_strata:
  assumes "program_ok P doms"
  shows "\<forall>sm \<in> set sms. stratum_ok P sm \<Longrightarrow> separate_strata P sms \<Longrightarrow> strata_ready P doms sms F0 c0 st \<Longrightarrow> workspace_ok P doms st \<Longrightarrow>
    goals_ok goals (set (ps_facts st)) (ps_tp st) \<or> \<not> pg_goal_directed P \<Longrightarrow>
    \<exists>st'. solve_bottom_up P sms st = Some st' \<and> workspace_ok P doms st' \<and> (goals_ok goals (set (ps_facts st')) (ps_tp st') \<or> \<not> pg_goal_directed P)
      \<and> sets_hold (se_fpreds (pg_setting P)) (se_objects (pg_setting P)) (ps_sets st') (set (ps_facts st'))
      \<and> (\<not> pg_goal_directed P \<longrightarrow> fst (strata_model P doms (map sm_rules sms) (F0, c0)) = set (ps_facts st')
          \<and> (sms \<noteq> [] \<longrightarrow> atom_cost P st' = snd (strata_model P doms (map sm_rules sms) (F0, c0))))"
proof (induction sms arbitrary: st F0 c0)
  case Nil
  then show ?case by (simp add: strata_ready_def)
next
  case (Cons sm sms)
  obtain st1 where st1: "solve_bottom_up_for_stratum P sm st = Some st1" "stratum_result P doms sm F0 c0 st st1" "goals_ok goals (set (ps_facts st1)) (ps_tp st1) \<or> \<not> pg_goal_directed P"
    using solve_stratum_returns [OF assms _ Cons.prems(3,5)] Cons.prems(1) by auto
  have run: "solve_bottom_up P (sm # sms) st = solve_bottom_up P sms st1" using st1(1) by simp
  have ws: "workspace_ok P doms st1"
    using st1(2) Cons.prems(4) unfolding workspace_ok_def stratum_result_def by metis
  show ?case
  proof (cases "complete_facts P doms (sm_rules sm) F0 c0 st1")
    case True
    note ready = next_stratum_ready [OF Cons.prems(3,2) st1(2) True]
    have "\<forall>sm \<in> set sms. stratum_ok P sm" "separate_strata P sms" using Cons.prems(1,2) by (simp_all add: separate_strata_def)
    note IH = Cons.IH [OF this ready ws st1(3)]
    show ?thesis
    proof (cases "sms = []")
      case sms: True
      then show ?thesis using run ws st1(2,3) True by (simp add: complete_facts_def stratum_result_def)
    next
      case False
      then show ?thesis using IH unfolding run by simp
    qed
  next
    case False
    then have stop: "pg_goal_directed P" "tp_check (ps_tp st1)" using st1(2) by (simp_all add: stratum_result_def)
    obtain st' where "solve_bottom_up P sms st1 = Some st'" "ps_facts st' = ps_facts st1" "ps_sets st' = ps_sets st1" "ps_rules st' = ps_rules st1" "ps_tp st' = ps_tp st1"
      using solve_stopped [OF stop] by blast
    then show ?thesis using run ws st1(2,3) stop(1) by (simp add: workspace_ok_def stratum_result_def)
  qed
qed


section \<open>The start of a solve\<close>

definition solve_start :: "'v program \<Rightarrow> atom list \<Rightarrow> atom list \<Rightarrow> program_state \<Rightarrow> program_state" where
  "solve_start P goals facts st = clear_program P goals (fold insert_fact facts (reset_facts st))"

definition initial_cost :: "atom list \<Rightarrow> atom \<Rightarrow> enat" where
  "initial_cost facts a = (if a \<in> set facts then 0 else \<infinity>)"

lemma insert_facts_simps: "set (ps_facts (fold insert_fact as st)) = set (ps_facts st) \<union> set as" "ps_sets (fold insert_fact as st) = ps_sets st"
  "ps_rules (fold insert_fact as st) = ps_rules st" "ps_buckets (fold insert_fact as st) = ps_buckets st"
proof (induction as arbitrary: st)
  case (Cons a as)
  {
    case 1
    show ?case using Cons(1) [of "insert_fact a st"] by (auto simp: insert_fact_def)
  next
    case 2
    show ?case using Cons(2) [of "insert_fact a st"] by (simp add: insert_fact_def)
  next
    case 3
    show ?case using Cons(3) [of "insert_fact a st"] by (simp add: insert_fact_def)
  next
    case 4
    show ?case using Cons(4) [of "insert_fact a st"] by (simp add: insert_fact_def)
  }
qed simp_all

lemma initial_facts_simps:
  "ps_facts (fold (initial_fact P) as st) = ps_facts st" "ps_sets (fold (initial_fact P) as st) = ps_sets st" "ps_rules (fold (initial_fact P) as st) = ps_rules st"
  "ps_buckets (fold (initial_fact P) as st) = ps_buckets st" "ps_witnesses (fold (initial_fact P) as st) = ps_witnesses st"
  "ps_costs (fold (initial_fact P) as st) a = (if a \<in> set as \<and> pg_annotation P \<noteq> No_Annotation then 0 else ps_costs st a)"
proof -
  have *: "ps_facts (fold (initial_fact P) as st) = ps_facts st \<and> ps_sets (fold (initial_fact P) as st) = ps_sets st \<and> ps_rules (fold (initial_fact P) as st) = ps_rules st
      \<and> ps_buckets (fold (initial_fact P) as st) = ps_buckets st \<and> ps_witnesses (fold (initial_fact P) as st) = ps_witnesses st
      \<and> ps_costs (fold (initial_fact P) as st) a = (if a \<in> set as \<and> pg_annotation P \<noteq> No_Annotation then 0 else ps_costs st a)"
    by (induction as arbitrary: st) (auto simp: initial_fact_def initialize_annotation_def split: annotation_policy.split)
  then show "ps_facts (fold (initial_fact P) as st) = ps_facts st" "ps_sets (fold (initial_fact P) as st) = ps_sets st" "ps_rules (fold (initial_fact P) as st) = ps_rules st"
    "ps_buckets (fold (initial_fact P) as st) = ps_buckets st" "ps_witnesses (fold (initial_fact P) as st) = ps_witnesses st"
    "ps_costs (fold (initial_fact P) as st) a = (if a \<in> set as \<and> pg_annotation P \<noteq> No_Annotation then 0 else ps_costs st a)"
    by blast+
qed

lemma initial_facts_goals:
  "pg_goal_directed P \<Longrightarrow> goals_ok goals F (ps_tp st) \<Longrightarrow> goals_ok goals (F \<union> set as) (ps_tp (fold (initial_fact P) as st))"
proof (induction as arbitrary: st F)
  case (Cons a as)
  have "goals_ok goals (insert a F) (ps_tp (initial_fact P a st))" using goals_ok_achieve [OF Cons.prems(2)] Cons.prems(1) by (simp add: initial_fact_def)
  from Cons.IH [OF Cons.prems(1) this] show ?case by simp
qed simp

lemma solve_start_ready:
  assumes "workspace_ok P doms st" "\<forall>a \<in> set facts. legal_atom (se_fpreds (pg_setting P)) a" "\<forall>sm \<in> set sms. \<forall>i \<in> set (sm_rules sm). i < length (pg_rules P)" "distinct goals"
  shows "strata_ready P doms sms (set facts) (initial_cost facts) (solve_start P goals facts st)" "workspace_ok P doms (solve_start P goals facts st)"
    "goals_ok goals (set (ps_facts (solve_start P goals facts st))) (ps_tp (solve_start P goals facts st)) \<or> \<not> pg_goal_directed P"
    "atom_cost P (solve_start P goals facts st) = initial_cost facts"
proof -
  let ?st = "fold insert_fact facts (reset_facts st)" and ?s = "solve_start P goals facts st"
  have F: "set (ps_facts ?st) = set facts" by (simp add: insert_facts_simps reset_facts_def)
  obtain G where "sets_hold (se_fpreds (pg_setting P)) (se_objects (pg_setting P)) (ps_sets st) G" using assms(1) by (auto simp: workspace_ok_def)
  then have 0: "sets_hold (se_fpreds (pg_setting P)) (se_objects (pg_setting P)) (ps_sets ?st) {}" using sets_hold_reset by (simp add: insert_facts_simps reset_facts_def)
  let ?st1 = "?st\<lparr>ps_rules := map rule_state_clear (ps_rules ?st), ps_costs := (\<lambda>a. \<infinity>), ps_witnesses := (\<lambda>a. None),
      ps_tp := (if pg_goal_directed P then tp_set_goals goals (tp_clear (ps_tp ?st)) else ps_tp ?st)\<rparr>"
  have s: "?s = (fold (initial_fact P) (ps_facts ?st) ?st1)\<lparr>ps_sets := pss_insert_all (ps_facts ?st) (ps_sets ?st), ps_buckets := cb_clear (ps_buckets ?st)\<rparr>"
    by (simp add: solve_start_def clear_program_def Let_def initial_facts_simps)
  have facts: "set (ps_facts ?s) = set facts" by (simp add: s initial_facts_simps F)
  have costs: "ps_costs ?s a = initial_cost facts a" if "pg_annotation P \<noteq> No_Annotation" for a
    using that F by (simp add: s initial_facts_simps initial_cost_def)
  have sets: "sets_hold (se_fpreds (pg_setting P)) (se_objects (pg_setting P)) (ps_sets ?s) (set facts)"
    using sets_hold_insert_all [OF 0, of "ps_facts ?st"] assms(2) F by (simp add: s)
  have len: "length (ps_rules ?s) = length (pg_rules P)"
    using assms(1) by (simp add: s initial_facts_simps workspace_ok_def insert_facts_simps reset_facts_def)
  have rules: "rule_at (pg_setting P) (doms ! i) (pg_rules P ! i) None (ps_rules ?s ! i)" if i: "i < length (pg_rules P)" for i
  proof -
    obtain G where "rule_at (pg_setting P) (doms ! i) (pg_rules P ! i) G (ps_rules st ! i)" using assms(1) i by (auto simp: workspace_ok_def)
    from rule_at_clear [OF this] show ?thesis
      using assms(1) i by (simp add: s initial_facts_simps workspace_ok_def insert_facts_simps reset_facts_def)
  qed
  show "strata_ready P doms sms (set facts) (initial_cost facts) ?s"
    using facts costs sets len rules assms(3) unfolding strata_ready_def start_costs_def initial_cost_def by auto
  show "workspace_ok P doms ?s" using sets len rules unfolding workspace_ok_def by blast
  show "goals_ok goals (set (ps_facts ?s)) (ps_tp ?s) \<or> \<not> pg_goal_directed P"
  proof (cases "pg_goal_directed P")
    case True
    have "goals_ok goals {} (ps_tp ?st1)" using goals_ok_set_goals [OF assms(4)] True by simp
    from initial_facts_goals [OF True this, of "ps_facts ?st"] show ?thesis using F by (simp add: s initial_facts_simps)
  qed simp
  show "atom_cost P ?s = initial_cost facts"
  proof (rule ext)
    fix a show "atom_cost P ?s a = initial_cost facts a"
    proof (cases "pg_annotation P")
      case No_Annotation
      then show ?thesis using facts by (simp add: atom_cost_def initial_cost_def s cb_clear_def bucket_at_def)
    qed (use costs in \<open>simp add: atom_cost_def\<close>)
  qed
qed

section \<open>The listeners\<close>

lemma listen_rule_spec: "i \<in> set (listen_rule crs j ls p) \<longleftrightarrow> i \<in> set (ls p) \<or> i = j \<and> (\<exists>l \<in> set (witness_literals (cr_rule (crs ! j))). ll_predicate l = p)"
proof -
  have "i \<in> set (fold (\<lambda>l ls. if ll_polarity l then ls(ll_predicate l := List.insert j (ls (ll_predicate l))) else ls) lits ls p)
      \<longleftrightarrow> i \<in> set (ls p) \<or> i = j \<and> (\<exists>l \<in> set (filter ll_polarity lits). ll_predicate l = p)" for lits
    by (induction lits arbitrary: ls) auto
  then show ?thesis by (simp add: listen_rule_def witness_literals_def)
qed

lemma listeners_spec: "i \<in> set (listeners_in_stratum crs rs p) \<longleftrightarrow> i \<in> set rs \<and> (\<exists>l \<in> set (witness_literals (cr_rule (crs ! i))). ll_predicate l = p)"
proof -
  have "i \<in> set (fold (listen_rule crs) rs ls p) \<longleftrightarrow> i \<in> set (ls p) \<or> i \<in> set rs \<and> (\<exists>l \<in> set (witness_literals (cr_rule (crs ! i))). ll_predicate l = p)" for ls
  proof (induction rs arbitrary: ls)
    case (Cons j rs)
    show ?case using Cons [of "listen_rule crs j ls"] by (auto simp: listen_rule_spec)
  qed simp
  then show ?thesis by (simp add: listeners_in_stratum_def)
qed

text \<open>The rules of a program in strata: no stratum negates a predicate that it derives, and no predicate is derived in two strata.\<close>

definition strata_ok :: "'v program \<Rightarrow> nat list list \<Rightarrow> bool" where
  "strata_ok P strata \<longleftrightarrow> (\<forall>rs \<in> set strata. (\<forall>i \<in> set rs. i < length (pg_rules P)) \<and> negation_free P rs)
     \<and> sorted_wrt (\<lambda>rs rs'. head_predicates P rs \<inter> head_predicates P rs' = {}) strata"

lemma make_strata_ok:
  assumes "strata_ok P strata"
  shows "\<forall>sm \<in> set (make_strata (pg_rules P) strata). stratum_ok P sm" "separate_strata P (make_strata (pg_rules P) strata)"
    "map sm_rules (make_strata (pg_rules P) strata) = strata"
  using assms by (auto simp: make_strata_def stratum_ok_def strata_ok_def separate_strata_def listeners_spec sorted_wrt_map o_def)


section \<open>Correctness\<close>

text \<open>
  From a workspace in any state that earlier solves may have left, with new facts of cost 0, the facts in the end are the atoms that
  the rules derive stratum by stratum, and every atom is annotated with the cost of its cheapest derivation, or with infinity if it
  has none.
\<close>

lemma solve_bottom_up_model:
  assumes "program_ok P doms" "strata_ok P strata" "workspace_ok P doms st" "\<forall>a \<in> set facts. legal_atom (se_fpreds (pg_setting P)) a"
    and "\<not> pg_goal_directed P"
  shows "\<exists>st'. solve_bottom_up P (make_strata (pg_rules P) strata) (solve_start P goals facts st) = Some st' \<and> workspace_ok P doms st'
    \<and> (set (ps_facts st'), atom_cost P st') = strata_model P doms strata (set facts, initial_cost facts)"
proof -
  let ?sms = "make_strata (pg_rules P) strata"
  note sm = make_strata_ok [OF assms(2)]
  have "\<forall>sm \<in> set ?sms. \<forall>i \<in> set (sm_rules sm). i < length (pg_rules P)" using sm(1) by (simp add: stratum_ok_def)
  note R = solve_start_ready [OF assms(3,4) this distinct.simps(1) [THEN iffD2, OF TrueI]]
  have start: "solve_start P [] facts st = solve_start P goals facts st" using assms(5) by (simp add: solve_start_def clear_program_def)
  obtain st' where st': "solve_bottom_up P ?sms (solve_start P goals facts st) = Some st'" "workspace_ok P doms st'"
    "fst (strata_model P doms strata (set facts, initial_cost facts)) = set (ps_facts st')"
    "?sms \<noteq> [] \<longrightarrow> atom_cost P st' = snd (strata_model P doms strata (set facts, initial_cost facts))"
    using solve_strata [OF assms(1) sm(1,2) R(1-3)] assms(5) unfolding start sm(3) by blast
  have "atom_cost P st' = snd (strata_model P doms strata (set facts, initial_cost facts))"
  proof (cases "?sms = []")
    case True
    then have "strata = []" "st' = solve_start P goals facts st" using st'(1) by (simp_all add: make_strata_def)
    then show ?thesis using R(4) start by simp
  qed (use st'(4) in simp)
  then show ?thesis using st' by (metis prod.collapse)
qed

text \<open>
  C9. The facts stay well-typed: whatever the policies, in a state that a solve has left every fact is an atom of a predicate of the
  schema with objects from the domains of its parameters, the assignment sets hold exactly the facts, and the workspace can be used again.
\<close>

theorem solve_well_typed:
  assumes "program_ok P doms" "strata_ok P strata" "workspace_ok P doms st" "\<forall>a \<in> set facts. legal_atom (se_fpreds (pg_setting P)) a" "distinct goals"
  shows "\<exists>st'. solve_bottom_up P (make_strata (pg_rules P) strata) (solve_start P goals facts st) = Some st'
    \<and> sets_hold (se_fpreds (pg_setting P)) (se_objects (pg_setting P)) (ps_sets st') (set (ps_facts st'))
    \<and> (\<forall>a \<in> set (ps_facts st'). legal_atom (se_fpreds (pg_setting P)) a) \<and> workspace_ok P doms st'"
proof -
  note sm = make_strata_ok [OF assms(2)]
  have "\<forall>sm \<in> set (make_strata (pg_rules P) strata). \<forall>i \<in> set (sm_rules sm). i < length (pg_rules P)" using sm(1) by (simp add: stratum_ok_def)
  note R = solve_start_ready [OF assms(3,4) this assms(5)]
  from solve_strata [OF assms(1) sm(1,2) R(1-3)] obtain st' where
    "solve_bottom_up P (make_strata (pg_rules P) strata) (solve_start P goals facts st) = Some st'" "workspace_ok P doms st'"
    "sets_hold (se_fpreds (pg_setting P)) (se_objects (pg_setting P)) (ps_sets st') (set (ps_facts st'))" by blast
  then show ?thesis by (auto simp: sets_hold_def)
qed

text \<open>
  A reset of the termination policy marks all goals as open again but leaves the counter at zero, so that the check succeeds at once.
\<close>

lemma reset_goals_satisfied:
  "set (tp_unsat (tp_reset (tp_set_goals goals t))) = set goals" "tp_check (tp_reset (tp_set_goals goals t))"
proof -
  have "tp_bindings (fold tp_add_goal goals t) = tp_bindings t @ goals" for t by (induction goals arbitrary: t) (simp_all add: tp_add_goal_def)
  moreover have "set (fold List.insert xs ys) = set xs \<union> set ys" for xs ys :: "atom list" by (induction xs arbitrary: ys) auto
  ultimately show "set (tp_unsat (tp_reset (tp_set_goals goals t))) = set goals" by (simp add: tp_reset_def tp_set_goals_def tp_clear_def)
  show "tp_check (tp_reset (tp_set_goals goals t))" by (simp add: tp_check_def tp_reset_def)
qed

section \<open>Examples\<close>

text \<open>
  Reachability over edges \<open>e(x, y)\<close> as \<open>r\<close>, each step at cost 1, and then the objects \<open>u(x)\<close> that are not reached, in a second stratum.
\<close>

definition solve_example_schema :: schema where
  "solve_example_schema = [(2, [[0, 1], [0, 1]]), (1, [[0, 1]]), (1, [[0, 1]])]"

definition solve_example_setting :: "nat setting" where
  "solve_example_setting = \<lparr>se_spreds = [], se_fpreds = solve_example_schema, se_objects = 2, se_static_sets = pss_init [] 2, se_static = {},
     se_values = undefined, se_tests = no_tests\<rparr>"

definition reach_rule :: rule where
  "reach_rule = \<lparr>rl_predicate = 1, rl_terms = [Param 1],
     rl_body = \<lparr>cond_arity = 2, cond_static = [], cond_fluent = [make_literal 1 True [Param 0], make_literal 0 True [Param 0, Param 1]], cond_numeric = []\<rparr>,
     rl_cost = 1\<rparr>"

definition unreached_rule :: rule where
  "unreached_rule = \<lparr>rl_predicate = 2, rl_terms = [Param 0],
     rl_body = \<lparr>cond_arity = 1, cond_static = [], cond_fluent = [make_literal 1 False [Param 0]], cond_numeric = []\<rparr>, rl_cost = 0\<rparr>"

definition solve_example :: "annotation_policy \<Rightarrow> bool \<Rightarrow> nat program" where
  "solve_example pol goal_directed = \<lparr>pg_setting = solve_example_setting,
     pg_rules = const_rules solve_example_setting [(reach_rule, [[0, 1], [0, 1]]), (unreached_rule, [[0, 1]])],
     pg_annotation = pol, pg_goal_directed = goal_directed\<rparr>"

definition solve_example_doms :: "nat list list list" where
  "solve_example_doms = [[[0, 1], [0, 1]], [[0, 1]]]"

definition solve_example_facts :: "atom list" where
  "solve_example_facts = [(1, [0]), (0, [0, 1])]"

lemma solve_example_simps: "pg_setting (solve_example pol g) = solve_example_setting" "length (pg_rules (solve_example pol g)) = 2"
  "pg_rules (solve_example pol g) ! 0 = make_const_rule 0 reach_rule [[0, 1], [0, 1]] 2 (pss_init [] 2)"
  "pg_rules (solve_example pol g) ! Suc 0 = make_const_rule 1 unreached_rule [[0, 1]] 2 (pss_init [] 2)"
  "pg_annotation (solve_example pol g) = pol" "pg_goal_directed (solve_example pol g) = g"
  by (simp_all add: solve_example_def const_rules_def solve_example_setting_def numeral_2_eq_2 upt_rec)

lemma make_const_rule_simps: "cr_index (make_const_rule i r doms n Ss) = i" "cr_rule (make_const_rule i r doms n Ss) = r"
  by (simp_all add: make_const_rule_def)

lemma less_two: "(\<forall>i < (2 :: nat). Q i) \<longleftrightarrow> Q 0 \<and> Q (Suc 0)"
  by (auto simp: less_Suc_eq numeral_2_eq_2)

lemma solve_example_contexts:
  "rule_context [] solve_example_schema 2 (rl_body reach_rule) [[0, 1], [0, 1]]" "rule_context [] solve_example_schema 2 (rl_body unreached_rule) [[0, 1]]"
  "settled (rl_body reach_rule)" "settled (rl_body unreached_rule)"
  by (force simp: rule_context_def condition_ok_def literal_ok_def rule_domains_ok_def reach_rule_def unreached_rule_def make_literal_def arities_of_def
      solve_example_schema_def less_Suc_eq numeral_2_eq_2 settled_def settled_literal_def)+

lemma solve_example_ok: "program_ok (solve_example pol g) solve_example_doms"
proof -
  have "setting_ok solve_example_setting"
    using sets_hold_init [of "[]" 2] by (simp add: setting_ok_def solve_example_setting_def uint_max_def schema_ok_def)
  moreover have "rule_fits solve_example_setting [[0, 1], [0, 1]] (make_const_rule 0 reach_rule [[0, 1], [0, 1]] 2 (pss_init [] 2))"
    using solve_example_contexts(1,3) by (simp add: rule_fits_def make_const_rule_simps solve_example_setting_def)
      (simp add: reach_rule_def uint_max_def intervals_sound_def intervals_decide_def)
  moreover have "rule_fits solve_example_setting [[0, 1]] (make_const_rule 1 unreached_rule [[0, 1]] 2 (pss_init [] 2))"
    using solve_example_contexts(2,4) by (simp add: rule_fits_def make_const_rule_simps solve_example_setting_def)
      (simp add: unreached_rule_def uint_max_def intervals_sound_def intervals_decide_def)
  moreover have "legal_atom solve_example_schema (1, [\<sigma> ! 1])" if "in_domains (rl_body reach_rule) [[0, 1], [0, 1]] \<sigma>" for \<sigma>
    using that by (auto simp: in_domains_def reach_rule_def legal_atom_def legal_binding_def solve_example_schema_def less_Suc_eq numeral_2_eq_2)
  moreover have "legal_atom solve_example_schema (2, [\<sigma> ! 0])" if "in_domains (rl_body unreached_rule) [[0, 1]] \<sigma>" for \<sigma>
    using that by (auto simp: in_domains_def unreached_rule_def legal_atom_def legal_binding_def solve_example_schema_def less_Suc_eq numeral_2_eq_2)
  ultimately show ?thesis
    unfolding program_ok_def solve_example_simps less_two
    by (simp add: make_const_rule_simps rule_head_def ground_head_def solve_example_simps solve_example_doms_def)
      (simp add: solve_example_setting_def reach_rule_def unreached_rule_def)
qed

lemma solve_example_strata: "strata_ok (solve_example pol g) [[0], [1]]" "strata_ok (solve_example pol g) [[0]]"
  by (simp_all add: strata_ok_def negation_free_def head_predicates_def solve_example_simps make_const_rule_simps)
    (simp_all add: reach_rule_def unreached_rule_def make_literal_def)

lemma solve_example_workspace: "workspace_ok (solve_example pol g) solve_example_doms (program_start (solve_example pol g))"
proof -
  note ok = solve_example_ok [of pol g, unfolded program_ok_def]
  have "schema_ok solve_example_schema 2" by (auto simp: schema_ok_def solve_example_schema_def domains_ok_def)
  then have "sets_hold solve_example_schema 2 (pss_init solve_example_schema 2) {}" by (rule sets_hold_init)
  then show ?thesis
    using ok rule_at_init unfolding workspace_ok_def program_start_def
    by (fastforce simp: solve_example_simps(1) solve_example_setting_def)
qed

lemma solve_example_legal: "\<forall>a \<in> set solve_example_facts. legal_atom (se_fpreds (pg_setting (solve_example pol g))) a"
  by (auto simp: solve_example_facts_def solve_example_simps solve_example_setting_def legal_atom_def legal_binding_def solve_example_schema_def
      less_Suc_eq numeral_2_eq_2)

lemma solve_well_typed_witness:
  "\<exists>st'. solve_bottom_up (solve_example No_Annotation True) (make_strata (pg_rules (solve_example No_Annotation True)) [[0], [1]])
      (solve_start (solve_example No_Annotation True) [(2, [1])] solve_example_facts (program_start (solve_example No_Annotation True))) = Some st'
    \<and> (\<forall>a \<in> set (ps_facts st'). legal_atom solve_example_schema a)"
  using solve_well_typed [OF solve_example_ok [of No_Annotation True] solve_example_strata(1) solve_example_workspace solve_example_legal, where goals = "[(2, [1])]"]
  by (auto simp: solve_example_simps solve_example_setting_def)

end
