(* ===== verification/Stratification.thy ===== *)
theory Stratification
  imports Bottom_Up_Solve "HOL-Library.AList" "HOL-Library.Multiset"
begin

text \<open>
  The stratification of the rules of a program (\<open>analysis/stratification_utils.hpp\<close>, \<open>analysis/stratification.cpp\<close>): the
  dependency graph of the fluent predicates, the test that no negated dependency lies on a cycle, the condensation to a graph of
  components, the strata of the components along a topological order, and the rules put in buckets by the stratum of their head.

  The Boost graph library is not part of the repository. A graph is its number of vertices and the edges added to it, in that
  order; the algorithms and the orders in which edges are enumerated are an argument, with its documented behaviour as hypotheses.
\<close>

section \<open>Graphs\<close>

datatype edge_kind = Non_Strict | Strict

type_synonym edge = "nat \<times> nat \<times> edge_kind"

record graph =
  gr_vertices :: nat
  gr_edges :: "edge list"

definition add_edge :: "nat \<Rightarrow> nat \<Rightarrow> edge_kind \<Rightarrow> graph \<Rightarrow> graph" where
  "add_edge u v k g = g\<lparr>gr_edges := gr_edges g @ [(u, v, k)]\<rparr>"

record boost =
  bo_edges :: "graph \<Rightarrow> edge list"
  bo_out_edges :: "nat \<Rightarrow> graph \<Rightarrow> edge list"
  bo_strong_components :: "graph \<Rightarrow> nat list \<times> nat"
  bo_topological_sort :: "graph \<Rightarrow> nat list"

datatype stratification_error = Not_Stratifiable

section \<open>The algorithm\<close>

definition build_dependency_graph :: "rule list \<Rightarrow> nat \<Rightarrow> graph" where
  "build_dependency_graph rules num_predicates = fold (\<lambda>r. fold (\<lambda>l. add_edge (ll_predicate l) (rl_predicate r) (if ll_polarity l then Non_Strict else Strict))
     (cond_fluent (rl_body r))) rules \<lparr>gr_vertices = num_predicates, gr_edges = []\<rparr>"

definition compute_scc_and_check :: "boost \<Rightarrow> graph \<Rightarrow> stratification_error + nat list \<times> nat" where
  "compute_scc_and_check B g = (let (cmp, num) = bo_strong_components B g
     in if list_ex (\<lambda>(u, v, k). k = Strict \<and> cmp ! u = cmp ! v) (bo_edges B g) then Inl Not_Stratifiable else Inr (cmp, num))"

definition condense_edge :: "nat list \<Rightarrow> edge \<Rightarrow> ((nat \<times> nat) \<times> edge_kind) list \<Rightarrow> ((nat \<times> nat) \<times> edge_kind) list" where
  "condense_edge cmp e best = (case e of (u, v, k) \<Rightarrow>
     if cmp ! u = cmp ! v then best
     else let key = (cmp ! u, cmp ! v); slot = (case map_of best key of None \<Rightarrow> Non_Strict | Some s \<Rightarrow> s)
       in AList.update key (if slot \<noteq> Strict \<and> k = Strict then Strict else slot) best)"

definition build_condensation_dag :: "boost \<Rightarrow> graph \<Rightarrow> nat list \<Rightarrow> nat \<Rightarrow> graph" where
  "build_condensation_dag B g cmp num_comps = fold (\<lambda>((cu, cv), inc). add_edge cu cv inc)
     (fold (condense_edge cmp) (bo_edges B g) []) \<lparr>gr_vertices = num_comps, gr_edges = []\<rparr>"

definition increment :: "edge_kind \<Rightarrow> nat" where
  "increment k = (if k = Strict then 1 else 0)"

definition raise_stratum :: "edge \<Rightarrow> nat list \<Rightarrow> nat list" where
  "raise_stratum e s = (case e of (u, v, k) \<Rightarrow> s[v := max (s ! v) (s ! u + increment k)])"

definition compute_component_strata :: "boost \<Rightarrow> graph \<Rightarrow> nat list" where
  "compute_component_strata B dag = fold (\<lambda>u. fold raise_stratum (bo_out_edges B u dag)) (rev (bo_topological_sort B dag))
     (replicate (gr_vertices dag) 0)"

definition push_rule :: "(nat \<Rightarrow> nat) \<Rightarrow> nat \<Rightarrow> nat list list \<Rightarrow> nat list list" where
  "push_rule level i buckets = buckets[level i := buckets ! level i @ [i]]"

definition compute_rule_stratification :: "boost \<Rightarrow> rule list \<Rightarrow> nat \<Rightarrow> stratification_error + nat list list" where
  "compute_rule_stratification B rules num_predicates = (let dep = build_dependency_graph rules num_predicates
     in case compute_scc_and_check B dep of
       Inl e \<Rightarrow> Inl e
     | Inr (cmp, num_comps) \<Rightarrow>
         (let comp_stratum = compute_component_strata B (build_condensation_dag B dep cmp num_comps);
            predicate_stratum = map (\<lambda>i. comp_stratum ! (cmp ! i)) [0..<num_predicates];
            max_s = fold max comp_stratum 0
          in Inr (fold (push_rule (\<lambda>i. predicate_stratum ! rl_predicate (rules ! i))) [0..<length rules] (replicate (max_s + 1) []))))"

section \<open>What the graph library promises\<close>

definition arcs :: "graph \<Rightarrow> (nat \<times> nat) set" where
  "arcs g = {(u, v). \<exists>k. (u, v, k) \<in> set (gr_edges g)}"

definition enumerates :: "boost \<Rightarrow> graph \<Rightarrow> bool" where
  "enumerates B g \<longleftrightarrow> set (bo_edges B g) = set (gr_edges g) \<and> (\<forall>u < gr_vertices g. set (bo_out_edges B u g) = {e \<in> set (gr_edges g). fst e = u})"

definition components_of :: "graph \<Rightarrow> nat list \<times> nat \<Rightarrow> bool" where
  "components_of g c \<longleftrightarrow> length (fst c) = gr_vertices g \<and> (\<forall>u < gr_vertices g. fst c ! u < snd c)
     \<and> (\<forall>u < gr_vertices g. \<forall>v < gr_vertices g. fst c ! u = fst c ! v \<longleftrightarrow> (u, v) \<in> (arcs g)\<^sup>* \<and> (v, u) \<in> (arcs g)\<^sup>*)"

definition reverse_topological :: "graph \<Rightarrow> nat list \<Rightarrow> bool" where
  "reverse_topological g vs \<longleftrightarrow> distinct vs \<and> set vs = {..<gr_vertices g} \<and> sorted_wrt (\<lambda>x y. (x, y) \<notin> arcs g) vs"

text \<open>On a graph: the edges are enumerated, and the algorithms compute the strong components and, if there is no cycle, a reverse topological order.\<close>

definition boost_ok :: "boost \<Rightarrow> graph \<Rightarrow> bool" where
  "boost_ok B g \<longleftrightarrow> enumerates B g \<and> components_of g (bo_strong_components B g)
     \<and> (acyclic (arcs g) \<longrightarrow> reverse_topological g (bo_topological_sort B g))"

definition graph_ok :: "graph \<Rightarrow> bool" where
  "graph_ok g \<longleftrightarrow> (\<forall>(u, v, k) \<in> set (gr_edges g). u < gr_vertices g \<and> v < gr_vertices g)"

section \<open>Stratified rules\<close>

text \<open>A stratification of the predicates: at least the strata of the positive conditions, above those of the negated ones.\<close>

definition stratifies :: "(nat \<Rightarrow> nat) \<Rightarrow> rule list \<Rightarrow> bool" where
  "stratifies level rules \<longleftrightarrow> (\<forall>r \<in> set rules. \<forall>l \<in> set (cond_fluent (rl_body r)).
     if ll_polarity l then level (ll_predicate l) \<le> level (rl_predicate r) else level (ll_predicate l) < level (rl_predicate r))"

definition rules_in_range :: "rule list \<Rightarrow> nat \<Rightarrow> bool" where
  "rules_in_range rules n \<longleftrightarrow> (\<forall>r \<in> set rules. rl_predicate r < n \<and> (\<forall>l \<in> set (cond_fluent (rl_body r)). ll_predicate l < n))"

definition dependencies :: "rule list \<Rightarrow> (nat \<times> nat) set" where
  "dependencies rules = {(ll_predicate l, rl_predicate r) | l r. r \<in> set rules \<and> l \<in> set (cond_fluent (rl_body r))}"

text \<open>A rule with a negated condition on a predicate that depends on the predicate of its head.\<close>

definition negative_cycle :: "rule list \<Rightarrow> bool" where
  "negative_cycle rules \<longleftrightarrow> (\<exists>r \<in> set rules. \<exists>l \<in> set (cond_fluent (rl_body r)). \<not> ll_polarity l
     \<and> (rl_predicate r, ll_predicate l) \<in> (dependencies rules)\<^sup>*)"

lemma stratifies_dependencies:
  assumes "stratifies level rules" "(p, q) \<in> (dependencies rules)\<^sup>*"
  shows "level p \<le> level q"
  using assms(2)
proof induction
  case (step q q')
  then have "level q \<le> level q'" using assms(1) unfolding stratifies_def dependencies_def by (fastforce split: if_splits)
  then show ?case using step by simp
qed simp

lemma negative_cycle_unstratified:
  assumes "negative_cycle rules" shows "\<not> stratifies level rules"
proof
  assume s: "stratifies level rules"
  obtain r l where rl: "r \<in> set rules" "l \<in> set (cond_fluent (rl_body r))" "\<not> ll_polarity l" "(rl_predicate r, ll_predicate l) \<in> (dependencies rules)\<^sup>*"
    using assms by (auto simp: negative_cycle_def)
  have "level (ll_predicate l) < level (rl_predicate r)" using s rl(1-3) unfolding stratifies_def by fastforce
  then show False using stratifies_dependencies [OF s rl(4)] by simp
qed

section \<open>The graphs\<close>

definition rule_edges :: "rule \<Rightarrow> edge list" where
  "rule_edges r = map (\<lambda>l. (ll_predicate l, rl_predicate r, if ll_polarity l then Non_Strict else Strict)) (cond_fluent (rl_body r))"

lemma fold_add_edges: "fold (\<lambda>x. add_edge (a x) (b x) (c x)) xs g = g\<lparr>gr_edges := gr_edges g @ map (\<lambda>x. (a x, b x, c x)) xs\<rparr>"
  by (induction xs arbitrary: g) (simp_all add: add_edge_def)

lemma build_dependency_graph_eq: "build_dependency_graph rules n = \<lparr>gr_vertices = n, gr_edges = concat (map rule_edges rules)\<rparr>"
proof -
  have "fold (\<lambda>r. fold (\<lambda>l. add_edge (ll_predicate l) (rl_predicate r) (if ll_polarity l then Non_Strict else Strict)) (cond_fluent (rl_body r))) rules g
      = g\<lparr>gr_edges := gr_edges g @ concat (map rule_edges rules)\<rparr>" for g :: graph
    by (induction rules arbitrary: g) (simp_all add: fold_add_edges rule_edges_def)
  then show ?thesis by (simp add: build_dependency_graph_def)
qed

lemma dependency_edges: "(u, v, k) \<in> set (gr_edges (build_dependency_graph rules n)) \<longleftrightarrow>
    (\<exists>r \<in> set rules. \<exists>l \<in> set (cond_fluent (rl_body r)). u = ll_predicate l \<and> v = rl_predicate r \<and> k = (if ll_polarity l then Non_Strict else Strict))"
  by (simp add: build_dependency_graph_eq rule_edges_def image_iff del: if_split)

lemma dependency_arcs: "arcs (build_dependency_graph rules n) = dependencies rules"
  unfolding arcs_def dependency_edges dependencies_def by blast

lemma dependency_graph_ok: "rules_in_range rules n \<Longrightarrow> graph_ok (build_dependency_graph rules n)"
  by (auto simp: graph_ok_def dependency_edges rules_in_range_def) (simp_all add: build_dependency_graph_eq)

text \<open>The kind of the edge between two components: strict if one of the edges between them is.\<close>

definition joint_kind :: "nat list \<Rightarrow> edge set \<Rightarrow> nat \<times> nat \<Rightarrow> edge_kind option" where
  "joint_kind cmp E key = (if fst key \<noteq> snd key \<and> (\<exists>(u, v, k) \<in> E. (cmp ! u, cmp ! v) = key)
     then Some (if \<exists>(u, v, k) \<in> E. (cmp ! u, cmp ! v) = key \<and> k = Strict then Strict else Non_Strict) else None)"

lemma condense_edge_kind:
  assumes "map_of best = joint_kind cmp E"
  shows "map_of (condense_edge cmp e best) = joint_kind cmp (insert e E)"
proof -
  obtain u v k where e: "e = (u, v, k)" by (cases e)
  show ?thesis
  proof (rule ext)
    fix key
    show "map_of (condense_edge cmp e best) key = joint_kind cmp (insert e E) key"
      using fun_cong [OF assms, of "(cmp ! u, cmp ! v)"] fun_cong [OF assms, of key]
      by (cases k) (auto simp: condense_edge_def e Let_def AList.update_conv' joint_kind_def split: if_splits)
  qed
qed

lemma condense_edges_kind: "map_of (fold (condense_edge cmp) es best) = joint_kind cmp (set es \<union> E)" if "map_of best = joint_kind cmp E"
  using that
proof (induction es arbitrary: best E)
  case (Cons e es)
  from Cons.IH [OF condense_edge_kind [OF Cons.prems]] show ?case by simp
qed simp

lemma condense_edges_distinct: "distinct (map fst best) \<Longrightarrow> distinct (map fst (fold (condense_edge cmp) es best))"
  by (induction es arbitrary: best) (simp_all add: condense_edge_def Let_def distinct_update split: prod.split)

lemma condensation_edges:
  assumes "enumerates B g"
  shows "((a, b, k) \<in> set (gr_edges (build_condensation_dag B g cmp num))) \<longleftrightarrow> joint_kind cmp (set (gr_edges g)) (a, b) = Some k"
    "gr_vertices (build_condensation_dag B g cmp num) = num"
proof -
  let ?best = "fold (condense_edge cmp) (bo_edges B g) []"
  have dag: "build_condensation_dag B g cmp num = \<lparr>gr_vertices = num, gr_edges = map (\<lambda>p. (fst (fst p), snd (fst p), snd p)) ?best\<rparr>"
    by (simp add: build_condensation_dag_def case_prod_unfold fold_add_edges)
  have "map_of ?best = joint_kind cmp (set (bo_edges B g))" using condense_edges_kind [of "[]" cmp "{}"] by (simp add: joint_kind_def fun_eq_iff)
  moreover have "distinct (map fst ?best)" by (rule condense_edges_distinct) simp
  ultimately have "((a, b), k) \<in> set ?best \<longleftrightarrow> joint_kind cmp (set (gr_edges g)) (a, b) = Some k"
    using assms by (metis enumerates_def map_of_is_SomeI map_of_SomeD)
  then show "((a, b, k) \<in> set (gr_edges (build_condensation_dag B g cmp num))) \<longleftrightarrow> joint_kind cmp (set (gr_edges g)) (a, b) = Some k"
    unfolding dag by force
  show "gr_vertices (build_condensation_dag B g cmp num) = num" by (simp add: dag)
qed

text \<open>The edges between components come from edges of the graph, with the kind of one of them, and every edge between components has one.\<close>

lemma condensation_origin:
  assumes "enumerates B g" "(a, b, k) \<in> set (gr_edges (build_condensation_dag B g cmp num))"
  obtains u v where "(u, v, k) \<in> set (gr_edges g)" "cmp ! u = a" "cmp ! v = b" "a \<noteq> b"
proof -
  have j: "joint_kind cmp (set (gr_edges g)) (a, b) = Some k" using assms condensation_edges by blast
  then obtain u v k' where e: "(u, v, k') \<in> set (gr_edges g)" "cmp ! u = a" "cmp ! v = b" "a \<noteq> b"
    by (auto simp: joint_kind_def split: if_splits)
  show ?thesis
  proof (cases "k = k'")
    case False
    show ?thesis
    proof (cases k)
      case Strict
      then show ?thesis using j that unfolding joint_kind_def by (auto split: if_splits)
    next
      case Non_Strict
      then have "k' = Strict" using False by (cases k') simp_all
      then have "joint_kind cmp (set (gr_edges g)) (a, b) = Some Strict" using e by (auto simp: joint_kind_def)
      then show ?thesis using j Non_Strict by simp
    qed
  qed (use e that in blast)
qed

lemma condensation_covers:
  assumes "enumerates B g" "(u, v, k) \<in> set (gr_edges g)" "cmp ! u \<noteq> cmp ! v"
  obtains k' where "(cmp ! u, cmp ! v, k') \<in> set (gr_edges (build_condensation_dag B g cmp num))" "increment k \<le> increment k'"
proof -
  have "\<exists>k'. joint_kind cmp (set (gr_edges g)) (cmp ! u, cmp ! v) = Some k' \<and> increment k \<le> increment k'"
    using assms(2,3) by (cases k) (auto simp: joint_kind_def increment_def)
  then show ?thesis using that condensation_edges [OF assms(1)] by blast
qed

section \<open>The components\<close>

lemma arcs_in_range:
  assumes "graph_ok g" "(u, v) \<in> (arcs g)\<^sup>*" "u < gr_vertices g"
  shows "v < gr_vertices g"
  using assms(2,3) by induction (use assms(1) in \<open>auto simp: graph_ok_def arcs_def\<close>)

lemma condensation_path:
  assumes "graph_ok g" "components_of g (cmp, num)" "enumerates B g" "(a, b) \<in> (arcs (build_condensation_dag B g cmp num))\<^sup>*"
    "p < gr_vertices g" "cmp ! p = a" "q < gr_vertices g" "cmp ! q = b"
  shows "(p, q) \<in> (arcs g)\<^sup>*"
  using assms(4,7,8)
proof (induction arbitrary: q)
  case base
  then show ?case using assms(2,5,6) unfolding components_of_def by (metis fst_conv)
next
  case (step b c)
  from step.hyps(2) obtain k where "(b, c, k) \<in> set (gr_edges (build_condensation_dag B g cmp num))" by (auto simp: arcs_def)
  from condensation_origin [OF assms(3) this] obtain u v where uv: "(u, v, k) \<in> set (gr_edges g)" "cmp ! u = b" "cmp ! v = c" by blast
  then have r: "u < gr_vertices g" "v < gr_vertices g" "(u, v) \<in> arcs g" using assms(1) by (auto simp: graph_ok_def arcs_def)
  have "(v, q) \<in> (arcs g)\<^sup>*" using assms(2) r(2) step.prems uv(3) unfolding components_of_def by (metis fst_conv)
  then show ?case using step.IH [OF r(1) uv(2)] r(3) by (meson rtrancl.rtrancl_into_rtrancl rtrancl_trans)
qed

lemma condensation_acyclic:
  assumes "graph_ok g" "components_of g (cmp, num)" "enumerates B g"
  shows "acyclic (arcs (build_condensation_dag B g cmp num))"
  unfolding acyclic_def
proof (intro allI notI)
  let ?A = "arcs (build_condensation_dag B g cmp num)"
  fix a assume "(a, a) \<in> ?A\<^sup>+"
  then obtain b where b: "(a, b) \<in> ?A" "(b, a) \<in> ?A\<^sup>*" by (meson tranclD)
  then obtain k where "(a, b, k) \<in> set (gr_edges (build_condensation_dag B g cmp num))" by (auto simp: arcs_def)
  from condensation_origin [OF assms(3) this] obtain u v where uv: "(u, v, k) \<in> set (gr_edges g)" "cmp ! u = a" "cmp ! v = b" "a \<noteq> b" by blast
  then have r: "u < gr_vertices g" "v < gr_vertices g" "(u, v) \<in> arcs g" using assms(1) by (auto simp: graph_ok_def arcs_def)
  have "(v, u) \<in> (arcs g)\<^sup>*" using condensation_path [OF assms b(2) r(2) uv(3) r(1) uv(2)] .
  then have "cmp ! u = cmp ! v" using assms(2) r unfolding components_of_def by (metis fst_conv r_into_rtrancl)
  then show False using uv by simp
qed

lemma condensation_graph_ok:
  assumes "graph_ok g" "components_of g (cmp, num)" "enumerates B g"
  shows "graph_ok (build_condensation_dag B g cmp num)"
  using assms condensation_origin [OF assms(3)] unfolding graph_ok_def components_of_def condensation_edges(2) [OF assms(3)]
  by (smt (verit) case_prodI2 case_prodD fst_conv snd_conv)

section \<open>The strata of the components\<close>

lemma length_raise [simp]: "length (raise_stratum e s) = length s" "length (fold raise_stratum es s) = length s"
proof -
  show 1: "length (raise_stratum e s) = length s" for e s by (simp add: raise_stratum_def split: prod.split)
  show "length (fold raise_stratum es s) = length s" by (induction es arbitrary: s) (simp_all add: 1)
qed

lemma raise_untouched: "w \<notin> (\<lambda>e. fst (snd e)) ` set es \<Longrightarrow> fold raise_stratum es s ! w = s ! w"
  by (induction es arbitrary: s) (auto simp: raise_stratum_def split: prod.splits)

lemma raise_grows: "w < length s \<Longrightarrow> s ! w \<le> fold raise_stratum es s ! w"
proof (induction es arbitrary: s)
  case (Cons e es)
  obtain u v k where e: "e = (u, v, k)" by (cases e)
  have "s ! w \<le> raise_stratum e s ! w" using Cons.prems by (cases "w = v") (simp_all add: raise_stratum_def e)
  then show ?case using Cons.IH [of "raise_stratum e s"] Cons.prems by simp
qed simp

lemma raise_bounded:
  assumes "\<forall>(u, v, k) \<in> set es. h u + increment k \<le> h v \<and> u < length s" "\<forall>w < length s. s ! w \<le> h w"
  shows "\<forall>w < length s. fold raise_stratum es s ! w \<le> h w"
  using assms
proof (induction es arbitrary: s)
  case (Cons e es)
  obtain u v k where e: "e = (u, v, k)" by (cases e)
  have "s ! u + increment k \<le> h v" using Cons.prems by (fastforce simp: e)
  then have "\<forall>w < length s. raise_stratum e s ! w \<le> h w"
    using Cons.prems(2) by (simp add: raise_stratum_def e) (metis max.bounded_iff nth_list_update_eq nth_list_update_neq)
  then show ?case using Cons.IH [of "raise_stratum e s"] Cons.prems(1) by simp
qed simp

text \<open>When no edge changes the stratum of a vertex whose edges have been followed before, all edges hold in the end.\<close>

lemma raise_ordered:
  assumes "sorted_wrt (\<lambda>e e'. fst (snd e') \<noteq> fst e) es" "\<forall>(u, v, k) \<in> set es. u \<noteq> v \<and> v < length s" "(u, v, k) \<in> set es"
  shows "fold raise_stratum es s ! u + increment k \<le> fold raise_stratum es s ! v"
  using assms
proof (induction es arbitrary: s)
  case (Cons e es)
  show ?case
  proof (cases "(u, v, k) \<in> set es")
    case True
    then show ?thesis using Cons.IH [of "raise_stratum e s"] Cons.prems by simp
  next
    case False
    then have e: "e = (u, v, k)" and v: "u \<noteq> v" "v < length s" using Cons.prems by auto
    have "u \<notin> (\<lambda>e. fst (snd e)) ` set es" using Cons.prems(1) by (auto simp: e)
    then have "fold raise_stratum (e # es) s ! u = s ! u" using raise_untouched [of u es "raise_stratum e s"] v by (simp add: raise_stratum_def e)
    moreover have "s ! u + increment k \<le> raise_stratum e s ! v" using v by (simp add: raise_stratum_def e)
    ultimately show ?thesis using raise_grows [of v "raise_stratum e s" es] v by simp
  qed
qed simp

lemma forward_edges:
  assumes "sorted_wrt (\<lambda>x y. (y, x) \<notin> arcs g) xs" "\<forall>x. (x, x) \<notin> arcs g" "\<forall>x \<in> set xs. set (f x) = {e \<in> set (gr_edges g). fst e = x}"
  shows "sorted_wrt (\<lambda>e e'. fst (snd e') \<noteq> fst e) (concat (map f xs))"
  using assms(1,3)
proof (induction xs)
  case (Cons x xs)
  have arc: "(fst e, fst (snd e)) \<in> arcs g" if "e \<in> set (gr_edges g)" for e 
    unfolding arcs_def mem_Collect_eq prod.case using that by (intro exI [of _ "snd (snd e)"]) simp
  have "sorted_wrt (\<lambda>e e'. fst (snd e') \<noteq> fst e) (f x)"
  proof (rule sorted_wrt_mono_rel [OF _ sorted_wrt_true [of "f x"]])
    fix e e' assume "e \<in> set (f x)" "e' \<in> set (f x)"
    then have "fst e = x" "fst e' = x" "e' \<in> set (gr_edges g)" using Cons.prems(2) by auto
    then show "fst (snd e') \<noteq> fst e" using arc [of e'] assms(2) by metis
  qed
  moreover have "\<forall>e \<in> set (f x). \<forall>e' \<in> set (concat (map f xs)). fst (snd e') \<noteq> fst e"
    using arc Cons.prems by fastforce
  ultimately show ?case using Cons by (simp add: sorted_wrt_append)
qed simp

lemma component_strata:
  assumes "graph_ok g" "enumerates B g" "reverse_topological g (bo_topological_sort B g)" "acyclic (arcs g)"
  shows "length (compute_component_strata B g) = gr_vertices g"
    "(u, v, k) \<in> set (gr_edges g) \<Longrightarrow> compute_component_strata B g ! u + increment k \<le> compute_component_strata B g ! v"
    "\<forall>(u, v, k) \<in> set (gr_edges g). h u + increment k \<le> h v \<Longrightarrow> w < gr_vertices g \<Longrightarrow> compute_component_strata B g ! w \<le> h w"
proof -
  let ?xs = "rev (bo_topological_sort B g)" and ?s = "replicate (gr_vertices g) (0 :: nat)"
  let ?es = "concat (map (\<lambda>u. bo_out_edges B u g) ?xs)"
  have loops: "\<forall>x. (x, x) \<notin> arcs g" using assms(4) by (auto simp: acyclic_def)
  have out: "\<forall>x \<in> set ?xs. set (bo_out_edges B x g) = {e \<in> set (gr_edges g). fst e = x}" using assms(2,3) by (simp add: enumerates_def reverse_topological_def)
  have "fold (\<lambda>u. fold raise_stratum (bo_out_edges B u g)) xs s = fold raise_stratum (concat (map (\<lambda>u. bo_out_edges B u g) xs)) s" for xs s
    by (induction xs arbitrary: s) simp_all
  then have eq: "compute_component_strata B g = fold raise_stratum ?es ?s" by (simp add: compute_component_strata_def)
  have sorted: "sorted_wrt (\<lambda>e e'. fst (snd e') \<noteq> fst e) ?es"
    using forward_edges [OF _ loops out] assms(3) by (simp add: reverse_topological_def sorted_wrt_rev)
  have es: "set ?es = set (gr_edges g)"
    using out assms(1,3) unfolding reverse_topological_def graph_ok_def by fastforce
  have range: "\<forall>(u, v, k) \<in> set ?es. u \<noteq> v \<and> v < length ?s" using assms(1) loops unfolding es graph_ok_def arcs_def by fastforce
  show "length (compute_component_strata B g) = gr_vertices g" by (simp add: eq)
  show "compute_component_strata B g ! u + increment k \<le> compute_component_strata B g ! v" if "(u, v, k) \<in> set (gr_edges g)"
    using raise_ordered [OF sorted range] that unfolding es eq by blast
  show "compute_component_strata B g ! w \<le> h w" if "\<forall>(u, v, k) \<in> set (gr_edges g). h u + increment k \<le> h v" "w < gr_vertices g"
    using raise_bounded [of ?es h ?s] that assms(1) unfolding es eq graph_ok_def by fastforce
qed

section \<open>The buckets\<close>

lemma push_rules:
  assumes "\<forall>i \<in> set js. lv i < length bs"
  shows "fold (push_rule lv) js bs = map (\<lambda>k. bs ! k @ filter (\<lambda>i. lv i = k) js) [0..<length bs]"
  using assms
proof (induction js arbitrary: bs)
  case Nil
  then show ?case by (simp add: map_nth)
next
  case (Cons i rest)
  have "fold (push_rule lv) (i # rest) bs = map (\<lambda>k. push_rule lv i bs ! k @ filter (\<lambda>i. lv i = k) rest) [0..<length bs]"
    using Cons.IH [of "push_rule lv i bs"] Cons.prems by simp (simp add: push_rule_def [of lv i])
  also have "\<dots> = map (\<lambda>k. bs ! k @ filter (\<lambda>i. lv i = k) (i # rest)) [0..<length bs]"
    using Cons.prems by (intro map_cong) (auto simp: push_rule_def nth_list_update)
  finally show ?case .
qed

lemma max_of_strata: "x \<in> set xs \<Longrightarrow> x \<le> fold max xs (m :: nat)" "m \<le> fold max xs m"
proof -
  have 1: "m \<le> fold max xs m" for xs and m :: nat
  proof (induction xs arbitrary: m)
    case (Cons x xs)
    have "m \<le> max x m" by simp
    also have "\<dots> \<le> fold max xs (max x m)" by (rule Cons.IH)
    finally show ?case by simp
  qed simp
  show "m \<le> fold max xs m" by (rule 1)
  show "x \<in> set xs \<Longrightarrow> x \<le> fold max xs m"
  proof (induction xs arbitrary: m)
    case (Cons y xs)
    have "x \<le> max x m" "max x m \<le> fold max xs (max x m)" by (simp, rule 1)
    then show ?case using Cons by (auto intro: order_trans)
  qed simp
qed

text \<open>The rules of the strata, by the levels of their heads.\<close>

definition rule_strata :: "(nat \<Rightarrow> nat) \<Rightarrow> rule list \<Rightarrow> nat \<Rightarrow> nat list list" where
  "rule_strata level rules n = map (\<lambda>k. filter (\<lambda>i. level (rl_predicate (rules ! i)) = k) [0..<length rules]) [0..<n]"

text \<open>The check succeeds exactly if the kinds of the edges allow a stratification of the vertices.\<close>

lemma check_strict:
  assumes "enumerates B g" "bo_strong_components B g = (cmp, num)"
  shows "compute_scc_and_check B g = (if \<exists>u v. (u, v, Strict) \<in> set (gr_edges g) \<and> cmp ! u = cmp ! v then Inl Not_Stratifiable else Inr (cmp, num))"
proof -
  have "list_ex (\<lambda>(u, v, k). k = Strict \<and> cmp ! u = cmp ! v) (bo_edges B g) \<longleftrightarrow> (\<exists>u v. (u, v, Strict) \<in> set (gr_edges g) \<and> cmp ! u = cmp ! v)"
    using assms(1) by (auto simp: list_ex_iff enumerates_def)
  then show ?thesis using assms(2) by (simp add: compute_scc_and_check_def)
qed

definition level_fits :: "(nat \<Rightarrow> nat) \<Rightarrow> graph \<Rightarrow> bool" where
  "level_fits level g \<longleftrightarrow> (\<forall>(u, v, k) \<in> set (gr_edges g). level u + increment k \<le> level v)"

lemma level_fits_path: "level_fits level g \<Longrightarrow> (u, v) \<in> (arcs g)\<^sup>* \<Longrightarrow> level u \<le> level v"
proof -
  assume r: "level_fits level g" and "(u, v) \<in> (arcs g)\<^sup>*"
  from this(2) show ?thesis
  proof induction
    case (step v w)
    then have "level v \<le> level w" using r unfolding level_fits_def arcs_def by fastforce
    then show ?case using step by simp
  qed simp
qed

lemma stratifies_fits: "stratifies level rules \<longleftrightarrow> level_fits level (build_dependency_graph rules n)"
proof
  assume s: "stratifies level rules"
  show "level_fits level (build_dependency_graph rules n)"
    unfolding level_fits_def
  proof (intro ballI, clarify)
    fix u v k assume "(u, v, k) \<in> set (gr_edges (build_dependency_graph rules n))"
    then obtain r l where rl: "r \<in> set rules" "l \<in> set (cond_fluent (rl_body r))" "u = ll_predicate l" "v = rl_predicate r"
      "k = (if ll_polarity l then Non_Strict else Strict)" unfolding dependency_edges by blast
    have "if ll_polarity l then level u \<le> level v else level u < level v" using s rl(1-4) unfolding stratifies_def by blast
    then show "level u + increment k \<le> level v" using rl(5) by (simp add: increment_def split: if_splits)
  qed
next
  assume f: "level_fits level (build_dependency_graph rules n)"
  show "stratifies level rules"
    unfolding stratifies_def
  proof (intro ballI)
    fix r l assume "r \<in> set rules" "l \<in> set (cond_fluent (rl_body r))"
    then have "(ll_predicate l, rl_predicate r, if ll_polarity l then Non_Strict else Strict) \<in> set (gr_edges (build_dependency_graph rules n))"
      unfolding dependency_edges by blast
    then have "level (ll_predicate l) + increment (if ll_polarity l then Non_Strict else Strict) \<le> level (rl_predicate r)"
      using f unfolding level_fits_def by blast
    then show "if ll_polarity l then level (ll_predicate l) \<le> level (rl_predicate r) else level (ll_predicate l) < level (rl_predicate r)"
      by (simp add: increment_def split: if_splits)
  qed
qed

text \<open>The levels of the vertices by the strata of their components respect the kinds of the edges, and no other such levels are lower.\<close>

lemma vertex_levels:
  assumes "graph_ok g" "enumerates B g" "components_of g (cmp, num)" "\<nexists>u v. (u, v, Strict) \<in> set (gr_edges g) \<and> cmp ! u = cmp ! v"
    "boost_ok B dag" "dag = build_condensation_dag B g cmp num" "level = (\<lambda>p. compute_component_strata B dag ! (cmp ! p))"
  shows "level_fits level g" "level_fits level' g \<Longrightarrow> p < gr_vertices g \<Longrightarrow> level p \<le> level' p"
    "p < gr_vertices g \<Longrightarrow> level p \<in> set (compute_component_strata B dag)"
proof -
  have acyclic: "acyclic (arcs dag)" and ok: "graph_ok dag" and num: "gr_vertices dag = num"
    using condensation_acyclic [OF assms(1,3,2)] condensation_graph_ok [OF assms(1,3,2)] condensation_edges(2) [OF assms(2)] assms(6) by simp_all
  have en: "enumerates B dag" and "reverse_topological dag (bo_topological_sort B dag)" using assms(5) acyclic by (simp_all add: boost_ok_def)
  note S = component_strata [OF ok en this(2) acyclic]
  show "level_fits level g"
    unfolding level_fits_def
  proof (intro ballI, clarify)
    fix u v k assume e: "(u, v, k) \<in> set (gr_edges g)"
    show "level u + increment k \<le> level v"
    proof (cases "cmp ! u = cmp ! v")
      case True
      then have "k = Non_Strict" using assms(4) e by (cases k) auto
      then show ?thesis using True by (simp add: assms(7) increment_def)
    next
      case False
      from condensation_covers [OF assms(2) e this] obtain k' where "(cmp ! u, cmp ! v, k') \<in> set (gr_edges dag)" "increment k \<le> increment k'"
        using assms(6) by blast
      then show ?thesis using S(2) [of "cmp ! u" "cmp ! v" k'] by (simp add: assms(7))
    qed
  qed
  show "p < gr_vertices g \<Longrightarrow> level p \<in> set (compute_component_strata B dag)"
    using assms(3) S(1) num by (simp add: assms(7) components_of_def)
  assume r: "level_fits level' g" and p: "p < gr_vertices g"
  define h where "h = (\<lambda>a. if \<exists>q < gr_vertices g. cmp ! q = a then level' (SOME q. q < gr_vertices g \<and> cmp ! q = a) else 0)"
  have h: "h (cmp ! q) = level' q" if q: "q < gr_vertices g" for q
  proof -
    define q' where "q' = (SOME q'. q' < gr_vertices g \<and> cmp ! q' = cmp ! q)"
    have q': "q' < gr_vertices g" "cmp ! q' = cmp ! q" using someI [of "\<lambda>q'. q' < gr_vertices g \<and> cmp ! q' = cmp ! q" q] q by (simp_all add: q'_def)
    then have "(q, q') \<in> (arcs g)\<^sup>*" "(q', q) \<in> (arcs g)\<^sup>*" using assms(3) q by (simp_all add: components_of_def)
    then have "level' q' = level' q" using level_fits_path [OF r] by (meson le_antisym)
    then show ?thesis using q by (auto simp: h_def q'_def [symmetric])
  qed
  have "h a + increment k \<le> h b" if e: "(a, b, k) \<in> set (gr_edges dag)" for a b k
  proof -
    from condensation_origin [OF assms(2) e [unfolded assms(6)]] obtain u v where uv: "(u, v, k) \<in> set (gr_edges g)" "cmp ! u = a" "cmp ! v = b" by blast
    moreover have "u < gr_vertices g" "v < gr_vertices g" using uv(1) assms(1) by (auto simp: graph_ok_def)
    ultimately show ?thesis using h r unfolding level_fits_def by fastforce
  qed
  then have "compute_component_strata B dag ! (cmp ! p) \<le> h (cmp ! p)"
    using S(3) [of h "cmp ! p"] assms(3) p num by (auto simp: components_of_def)
  then show "level p \<le> level' p" using h [OF p] by (simp add: assms(7))
qed

text \<open>The library is right on the two graphs of a stratification.\<close>

definition boost_fits :: "boost \<Rightarrow> rule list \<Rightarrow> nat \<Rightarrow> bool" where
  "boost_fits B rules n \<longleftrightarrow> (let g = build_dependency_graph rules n; (cmp, num) = bo_strong_components B g
     in boost_ok B g \<and> boost_ok B (build_condensation_dag B g cmp num))"

text \<open>The outcomes: the error, with a cycle, or the strata of the least stratification.\<close>

definition least_stratification :: "(nat \<Rightarrow> nat) \<Rightarrow> rule list \<Rightarrow> nat \<Rightarrow> bool" where
  "least_stratification level rules n \<longleftrightarrow> stratifies level rules \<and> (\<forall>level'. stratifies level' rules \<longrightarrow> (\<forall>p < n. level p \<le> level' p))"

lemma stratification_outcome:
  assumes "rules_in_range rules n" "boost_fits B rules n"
  shows "compute_rule_stratification B rules n = Inl Not_Stratifiable \<and> negative_cycle rules
    \<or> (\<exists>level m. compute_rule_stratification B rules n = Inr (rule_strata level rules m) \<and> least_stratification level rules n
        \<and> (\<forall>r \<in> set rules. level (rl_predicate r) < m))"
proof -
  let ?g = "build_dependency_graph rules n"
  obtain cmp num where c: "bo_strong_components B ?g = (cmp, num)" by force
  note ok = dependency_graph_ok [OF assms(1)]
  have boost: "boost_ok B ?g" "boost_ok B (build_condensation_dag B ?g cmp num)" using assms(2) by (simp_all add: boost_fits_def c Let_def)
  have en: "enumerates B ?g" and comps: "components_of ?g (cmp, num)" using boost(1) c by (auto simp: boost_ok_def)
  have n: "gr_vertices ?g = n" by (simp add: build_dependency_graph_eq)
  show ?thesis
  proof (cases "\<exists>u v. (u, v, Strict) \<in> set (gr_edges ?g) \<and> cmp ! u = cmp ! v")
    case True
    then obtain r l where rl: "r \<in> set rules" "l \<in> set (cond_fluent (rl_body r))" "\<not> ll_polarity l" "cmp ! ll_predicate l = cmp ! rl_predicate r"
      unfolding dependency_edges by (auto split: if_splits)
    have "(rl_predicate r, ll_predicate l) \<in> (dependencies rules)\<^sup>*"
      using comps rl assms(1) unfolding components_of_def n dependency_arcs rules_in_range_def by (metis fst_conv)
    then have "negative_cycle rules" using rl by (auto simp: negative_cycle_def)
    then show ?thesis using True by (simp add: compute_rule_stratification_def check_strict [OF en c])
  next
    case False
    define dag where "dag = build_condensation_dag B ?g cmp num"
    define s where "s = compute_component_strata B dag"
    define level where "level = (\<lambda>p. s ! (cmp ! p))"
    have "boost_ok B dag" using boost(2) by (simp add: dag_def)
    note L = vertex_levels [OF ok en comps False this dag_def level_def [unfolded s_def]]
    have strat: "stratifies level rules" using L(1) stratifies_fits by blast
    have least: "\<forall>level'. stratifies level' rules \<longrightarrow> (\<forall>p < n. level p \<le> level' p)" using L(2) stratifies_fits n by metis
    have below: "level (rl_predicate r) < fold max s 0 + 1" if "r \<in> set rules" for r
      using L(3) [of "rl_predicate r"] max_of_strata(1) [of "level (rl_predicate r)" s 0] that assms(1) n by (auto simp: rules_in_range_def s_def)
    have "compute_rule_stratification B rules n = Inr (fold (push_rule (\<lambda>i. map level [0..<n] ! rl_predicate (rules ! i))) [0..<length rules] (replicate (fold max s 0 + 1) []))"
      using False by (simp add: compute_rule_stratification_def check_strict [OF en c] dag_def [symmetric] s_def [symmetric] level_def [symmetric] Let_def)
    also have "fold (push_rule (\<lambda>i. map level [0..<n] ! rl_predicate (rules ! i))) [0..<length rules] (replicate (fold max s 0 + 1) [])
        = fold (push_rule (\<lambda>i. level (rl_predicate (rules ! i)))) [0..<length rules] (replicate (fold max s 0 + 1) [])"
      using assms(1) by (intro fold_cong) (auto simp: push_rule_def rules_in_range_def)
    also have "\<dots> = rule_strata level rules (fold max s 0 + 1)"
      unfolding Suc_eq_plus1 [symmetric] using below by (subst push_rules) (auto simp: rule_strata_def simp del: upt_Suc replicate_Suc)
    finally have eq: "compute_rule_stratification B rules n = Inr (rule_strata level rules (fold max s 0 + 1))" .
    have "least_stratification level rules n" using strat least by (simp add: least_stratification_def)
    then show ?thesis using eq below by blast
  qed
qed

section \<open>Strata for the solver\<close>

text \<open>Rules in strata by the levels of a stratification are strata that the solver can evaluate.\<close>

lemma rule_strata_ok:
  assumes "stratifies level (map cr_rule (pg_rules P))"
  shows "strata_ok P (rule_strata level (map cr_rule (pg_rules P)) n)"
proof -
  let ?rules = "map cr_rule (pg_rules P)"
  have at: "head_predicates P rs \<subseteq> {p. level p = k}" if "rs = filter (\<lambda>i. level (rl_predicate (?rules ! i)) = k) [0..<length ?rules]" for rs k
    by (auto simp: head_predicates_def that)
  have "negation_free P (filter (\<lambda>i. level (rl_predicate (?rules ! i)) = k) [0..<length ?rules])" for k
    unfolding negation_free_def
  proof (intro ballI impI notI)
    fix i l assume i: "i \<in> set (filter (\<lambda>i. level (rl_predicate (?rules ! i)) = k) [0..<length ?rules])"
      and l: "l \<in> set (cond_fluent (rl_body (cr_rule (pg_rules P ! i))))" "\<not> ll_polarity l"
      and h: "ll_predicate l \<in> head_predicates P (filter (\<lambda>i. level (rl_predicate (?rules ! i)) = k) [0..<length ?rules])"
    have "cr_rule (pg_rules P ! i) \<in> set ?rules" "level (rl_predicate (cr_rule (pg_rules P ! i))) = k" using i by auto
    then have "level (ll_predicate l) < k" using assms l unfolding stratifies_def by metis
    then show False using at [OF refl] h by fastforce
  qed
  moreover have "head_predicates P (filter (\<lambda>i. level (rl_predicate (?rules ! i)) = k) [0..<length ?rules])
      \<inter> head_predicates P (filter (\<lambda>i. level (rl_predicate (?rules ! i)) = k') [0..<length ?rules]) = {}" if "k < k'" for k k'
    using at [OF refl, of k] at [OF refl, of k'] that by fastforce
  ultimately show ?thesis
    unfolding strata_ok_def rule_strata_def by (auto simp: sorted_wrt_map intro!: sorted_wrt_mono_rel [OF _ sorted_wrt_upt])
qed

lemma rule_strata_partition:
  assumes "\<forall>i < length rules. level (rl_predicate (rules ! i)) < m"
  shows "mset (concat (rule_strata level rules m)) = mset [0..<length rules]"
proof -
  have parts: "mset (concat (map (\<lambda>k. filter (\<lambda>i. f i = k) xs) [0..<m])) = mset (filter (\<lambda>i. f i < m) xs)" for f :: "nat \<Rightarrow> nat" and xs :: "nat list"
  proof (induction m)
    case (Suc m)
    have "filter (\<lambda>i. f i < Suc m) xs = filter (\<lambda>i. f i < m \<or> f i = m) xs" by (simp add: less_Suc_eq)
    moreover have "mset (filter (\<lambda>i. f i < m \<or> f i = m) xs) = mset (filter (\<lambda>i. f i < m) xs) + mset (filter (\<lambda>i. f i = m) xs)"
      by (induction xs) auto
    ultimately show ?case using Suc by simp
  qed simp
  have "filter (\<lambda>i. level (rl_predicate (rules ! i)) < m) [0..<length rules] = [0..<length rules]" using assms by (simp add: filter_id_conv)
  then show ?thesis unfolding rule_strata_def parts by (rule arg_cong)
qed

section \<open>Correctness\<close>

text \<open>
  C7. Stratification fails with the error exactly if a negated condition is on a cycle of the dependencies. Otherwise the strata hold
  every rule once, in program order, by the levels of the heads in the least stratification of the predicates.
\<close>

theorem compute_rule_stratification_correct:
  assumes "rules_in_range rules n" "boost_fits B rules n"
  shows "case compute_rule_stratification B rules n of
      Inl e \<Rightarrow> negative_cycle rules
    | Inr strata \<Rightarrow> \<not> negative_cycle rules \<and> mset (concat strata) = mset [0..<length rules]
        \<and> (\<exists>level. least_stratification level rules n \<and> strata = rule_strata level rules (length strata))"
  using stratification_outcome [OF assms]
proof (elim disjE exE conjE)
  fix level m
  assume eq: "compute_rule_stratification B rules n = Inr (rule_strata level rules m)" and least: "least_stratification level rules n"
    and below: "\<forall>r \<in> set rules. level (rl_predicate r) < m"
  have "\<not> negative_cycle rules" using least negative_cycle_unstratified unfolding least_stratification_def by blast
  moreover have "mset (concat (rule_strata level rules m)) = mset [0..<length rules]" using below by (intro rule_strata_partition) simp
  moreover have "length (rule_strata level rules m) = m" by (simp add: rule_strata_def)
  ultimately show ?thesis unfolding eq sum.case using least by metis
qed simp

section \<open>Examples\<close>

text \<open>A library that is right for graphs whose edges lead to higher vertices, or back to the vertex.\<close>

definition upward_boost :: boost where
  "upward_boost = \<lparr>bo_edges = gr_edges, bo_out_edges = (\<lambda>u g. filter (\<lambda>e. fst e = u) (gr_edges g)),
     bo_strong_components = (\<lambda>g. (rev [0..<gr_vertices g], gr_vertices g)), bo_topological_sort = (\<lambda>g. [0..<gr_vertices g])\<rparr>"

lemma upward_enumerates: "enumerates upward_boost g"
  by (simp add: enumerates_def upward_boost_def)

lemma upward_components:
  assumes "\<And>u v. (u, v) \<in> (arcs g)\<^sup>* \<Longrightarrow> (v, u) \<in> (arcs g)\<^sup>* \<Longrightarrow> u = v"
  shows "components_of g (bo_strong_components upward_boost g)"
proof -
  have "(gr_vertices g - Suc u = gr_vertices g - Suc v) \<longleftrightarrow> (u, v) \<in> (arcs g)\<^sup>* \<and> (v, u) \<in> (arcs g)\<^sup>*" if "u < gr_vertices g" "v < gr_vertices g" for u v
  proof -
    have "(gr_vertices g - Suc u = gr_vertices g - Suc v) \<longleftrightarrow> u = v" using that by arith
    then show ?thesis using assms by blast
  qed
  then show ?thesis by (simp add: components_of_def upward_boost_def rev_nth)
qed

lemma arcs_monotone: "(u, v) \<in> (arcs g)\<^sup>* \<Longrightarrow> (\<And>u v. (u, v) \<in> arcs g \<Longrightarrow> u \<le> v) \<Longrightarrow> u \<le> v"
  by (induction rule: rtrancl_induct) (simp, meson order_trans)

lemma upward_topological:
  assumes "\<And>u v. (u, v) \<in> arcs g \<Longrightarrow> v < u"
  shows "reverse_topological g (bo_topological_sort upward_boost g)"
proof -
  have "sorted_wrt (\<lambda>x y. (x, y) \<notin> arcs g) [0..<gr_vertices g]" using assms by (intro sorted_wrt_mono_rel [OF _ sorted_wrt_upt]) force
  then show ?thesis by (simp add: reverse_topological_def upward_boost_def lessThan_atLeast0)
qed

lemma upward_boost_cyclic:
  assumes "\<And>u v. (u, v) \<in> arcs g \<Longrightarrow> u \<le> v" "(x, x) \<in> arcs g"
  shows "boost_ok upward_boost g"
proof -
  have "components_of g (bo_strong_components upward_boost g)"
    by (rule upward_components) (meson arcs_monotone assms(1) le_antisym)
  moreover have "\<not> acyclic (arcs g)" using assms(2) by (auto simp: acyclic_def)
  ultimately show ?thesis using upward_enumerates by (simp add: boost_ok_def)
qed

lemma upward_boost_acyclic:
  assumes "\<And>u v. (u, v) \<in> arcs g \<Longrightarrow> v < u"
  shows "boost_ok upward_boost g"
proof -
  have "acyclic (arcs g)" using assms by (intro acyclic_subset [OF wf_acyclic [OF wf_measure [of "\<lambda>u. u"], THEN acyclic_converse [THEN iffD2]]]) auto
  then have "components_of g (bo_strong_components upward_boost g)"
    by (intro upward_components) (meson acyclic_impl_antisym_rtrancl antisymD)
  then show ?thesis using upward_enumerates upward_topological [OF assms] by (simp add: boost_ok_def)
qed

lemma solve_example_rules: "map cr_rule (pg_rules (solve_example pol g)) = [reach_rule, unreached_rule]"
  by (simp add: solve_example_def const_rules_def make_const_rule_def upt_rec)

lemma solve_example_edges: "build_dependency_graph [reach_rule, unreached_rule] 3 = \<lparr>gr_vertices = 3, gr_edges = [(1, 1, Non_Strict), (0, 1, Non_Strict), (1, 2, Strict)]\<rparr>"
  by (simp add: build_dependency_graph_eq rule_edges_def reach_rule_def unreached_rule_def make_literal_def)

lemma solve_example_condensed:
  "build_condensation_dag upward_boost \<lparr>gr_vertices = 3, gr_edges = [(1, 1, Non_Strict), (0, 1, Non_Strict), (1, 2, Strict)]\<rparr> [2, 1, 0] 3
    = \<lparr>gr_vertices = 3, gr_edges = [(2, 1, Non_Strict), (1, 0, Strict)]\<rparr>"
  by (simp add: build_condensation_dag_def upward_boost_def condense_edge_def Let_def add_edge_def)

lemma solve_example_fits: "boost_fits upward_boost [reach_rule, unreached_rule] 3"
proof -
  let ?g = "\<lparr>gr_vertices = 3, gr_edges = [(1, 1, Non_Strict), (0, 1, Non_Strict), (1, 2, Strict)]\<rparr>"
  let ?d = "\<lparr>gr_vertices = 3, gr_edges = [(2, 1, Non_Strict), (1, 0, Strict)]\<rparr>"
  have "boost_ok upward_boost ?g" by (rule upward_boost_cyclic [of _ 1]) (auto simp: arcs_def)
  moreover have "boost_ok upward_boost ?d"
    by (rule upward_boost_acyclic) (auto simp: arcs_def)
  moreover have "bo_strong_components upward_boost ?g = ([2, 1, 0], 3)" by (simp add: upward_boost_def upt_rec)
  ultimately show ?thesis by (simp add: boost_fits_def Let_def solve_example_edges solve_example_condensed del: One_nat_def)
qed

lemma solve_example_in_range: "rules_in_range [reach_rule, unreached_rule] 3"
  by (simp add: rules_in_range_def reach_rule_def unreached_rule_def make_literal_def)

lemma compute_rule_stratification_example: "compute_rule_stratification upward_boost [reach_rule, unreached_rule] 3 = Inr [[0], [1]]"
proof -
  let ?g = "\<lparr>gr_vertices = 3, gr_edges = [(1, 1, Non_Strict), (0, 1, Non_Strict), (1, 2, Strict)]\<rparr>"
  have upts: "[0..<3] = [0, 1, 2 :: nat]" "[0..<2] = [0, 1 :: nat]" by (simp_all add: upt_rec)
  have "compute_scc_and_check upward_boost ?g = Inr ([2, 1, 0], 3)" by (simp add: compute_scc_and_check_def upward_boost_def upt_rec)
  moreover have "compute_component_strata upward_boost \<lparr>gr_vertices = 3, gr_edges = [(2, 1, Non_Strict), (1, 0, Strict)]\<rparr> = [1, 0, 0]"
    by (simp add: compute_component_strata_def upward_boost_def raise_stratum_def increment_def upt_rec numeral_3_eq_3)
  moreover have "rl_predicate reach_rule = 1" "rl_predicate unreached_rule = 2" by (simp_all add: reach_rule_def unreached_rule_def)
  ultimately show ?thesis
    by (simp add: compute_rule_stratification_def solve_example_edges solve_example_condensed Let_def upts push_rule_def numeral_2_eq_2 [symmetric] del: One_nat_def)
      (simp add: numeral_2_eq_2)
qed

definition paradox_rule :: rule where
  "paradox_rule = \<lparr>rl_predicate = 0, rl_terms = [Param 0],
     rl_body = \<lparr>cond_arity = 1, cond_static = [], cond_fluent = [make_literal 0 False [Param 0]], cond_numeric = []\<rparr>, rl_cost = 0\<rparr>"

lemma paradox_fits: "rules_in_range [paradox_rule] 1" "boost_fits upward_boost [paradox_rule] 1"
  "compute_rule_stratification upward_boost [paradox_rule] 1 = Inl Not_Stratifiable"
proof -
  have g: "build_dependency_graph [paradox_rule] 1 = \<lparr>gr_vertices = 1, gr_edges = [(0, 0, Strict)]\<rparr>"
    by (simp add: build_dependency_graph_eq rule_edges_def paradox_rule_def make_literal_def)
  have d: "build_condensation_dag upward_boost \<lparr>gr_vertices = 1, gr_edges = [(0, 0, Strict)]\<rparr> [0] 1 = \<lparr>gr_vertices = 1, gr_edges = []\<rparr>"
    by (simp add: build_condensation_dag_def upward_boost_def condense_edge_def)
  have "boost_ok upward_boost \<lparr>gr_vertices = 1, gr_edges = [(0, 0, Strict)]\<rparr>" by (rule upward_boost_cyclic [of _ 0]) (auto simp: arcs_def)
  moreover have "boost_ok upward_boost \<lparr>gr_vertices = 1, gr_edges = []\<rparr>"
    by (rule upward_boost_acyclic) (simp add: arcs_def)
  moreover have c: "bo_strong_components upward_boost \<lparr>gr_vertices = 1, gr_edges = [(0, 0, Strict)]\<rparr> = ([0], 1)" by (simp add: upward_boost_def)
  ultimately show "boost_fits upward_boost [paradox_rule] 1" by (simp add: boost_fits_def Let_def g d del: One_nat_def)
  show "rules_in_range [paradox_rule] 1" by (simp add: rules_in_range_def paradox_rule_def make_literal_def)
  show "compute_rule_stratification upward_boost [paradox_rule] 1 = Inl Not_Stratifiable"
    by (simp add: compute_rule_stratification_def compute_scc_and_check_def g c Let_def del: One_nat_def) (simp add: upward_boost_def)
qed

lemma compute_rule_stratification_correct_witness:
  "negative_cycle [paradox_rule]
    \<and> \<not> negative_cycle [reach_rule, unreached_rule] \<and> (\<exists>level. least_stratification level [reach_rule, unreached_rule] 3
      \<and> [[0], [1]] = rule_strata level [reach_rule, unreached_rule] 2)"
  using compute_rule_stratification_correct [OF paradox_fits(1,2)] compute_rule_stratification_correct [OF solve_example_in_range solve_example_fits]
  by (simp_all add: paradox_fits(3) compute_rule_stratification_example numeral_2_eq_2 del: One_nat_def)

end
