(* ===== verification/Program_Model.thy ===== *)
theory Program_Model
  imports Stratification
begin

text \<open>
  The meaning of a program without its strata: the facts are a stable model if they are what the rules derive when the negated literals
  are read in the facts themselves, and an atom costs as much as its cheapest derivation. A stratified program has one stable
  model. The solver of \<^verbatim>\<open>src/datalog/bottom_up.cpp\<close>, on the strata that \<^verbatim>\<open>analysis/stratification.cpp\<close> computes, returns with it,
  or, with a termination policy, with its answer to the goals.
\<close>

section \<open>Stable models\<close>

inductive derivation :: "'v program \<Rightarrow> nat list list list \<Rightarrow> atom set \<Rightarrow> facts \<Rightarrow> atom \<Rightarrow> enat \<Rightarrow> bool"
  for P :: "'v program" and doms :: "nat list list list" and given :: "atom set" and M :: facts where
  derivation_given: "a \<in> given \<Longrightarrow> derivation P doms given M a 0"
| derivation_rule: "i < length (pg_rules P) \<Longrightarrow> r = cr_rule (pg_rules P ! i) \<Longrightarrow> side_holds (pg_setting P) (doms ! i) r M \<sigma> \<Longrightarrow>
    (\<And>l. l \<in> set (witness_literals r) \<Longrightarrow> derivation P doms given M (ground_atom_of \<sigma> l) (\<kappa> l)) \<Longrightarrow>
    derivation P doms given M (ground_head r \<sigma>) (derivation_cost (pg_annotation P) r \<kappa>)"

definition stable_facts :: "'v program \<Rightarrow> nat list list list \<Rightarrow> atom set \<Rightarrow> facts \<Rightarrow> bool" where
  "stable_facts P doms given M \<longleftrightarrow> M = {a. \<exists>k. derivation P doms given M a k}"

definition cheapest :: "'v program \<Rightarrow> nat list list list \<Rightarrow> atom set \<Rightarrow> facts \<Rightarrow> atom \<Rightarrow> enat" where
  "cheapest P doms given M a = (if \<exists>k. derivation P doms given M a k then (LEAST k. derivation P doms given M a k) else \<infinity>)"

text \<open>The atoms are a stable model, and there is no other.\<close>

definition only_stable :: "'v program \<Rightarrow> nat list list list \<Rightarrow> atom set \<Rightarrow> facts \<Rightarrow> bool" where
  "only_stable P doms given M \<longleftrightarrow> (\<forall>M'. stable_facts P doms given M' \<longleftrightarrow> M' = M)"

section \<open>The models of the levels\<close>

definition level_rules :: "'v program \<Rightarrow> (nat \<Rightarrow> nat) \<Rightarrow> nat \<Rightarrow> nat list" where
  "level_rules P level k = filter (\<lambda>i. level (rl_predicate (cr_rule (pg_rules P ! i))) = k) [0..<length (pg_rules P)]"

lemma rule_strata_levels: "rule_strata level (map cr_rule (pg_rules P)) n = map (level_rules P level) [0..<n]"
  by (auto simp: rule_strata_def level_rules_def intro!: filter_cong)

lemma set_level_rules: "i \<in> set (level_rules P level k) \<longleftrightarrow> i < length (pg_rules P) \<and> level (rl_predicate (cr_rule (pg_rules P ! i))) = k"
  by (auto simp: level_rules_def)

lemma level_heads: "p \<in> head_predicates P (level_rules P level k) \<Longrightarrow> level p = k"
  by (auto simp: head_predicates_def set_level_rules)

definition level_model :: "'v program \<Rightarrow> nat list list list \<Rightarrow> (nat \<Rightarrow> nat) \<Rightarrow> atom list \<Rightarrow> nat \<Rightarrow> facts \<times> (atom \<Rightarrow> enat)" where
  "level_model P doms level facts k = strata_model P doms (map (level_rules P level) [0..<k]) (set facts, initial_cost facts)"

abbreviation level_facts :: "'v program \<Rightarrow> nat list list list \<Rightarrow> (nat \<Rightarrow> nat) \<Rightarrow> atom list \<Rightarrow> nat \<Rightarrow> facts" where
  "level_facts P doms level facts k \<equiv> fst (level_model P doms level facts k)"

abbreviation level_cost :: "'v program \<Rightarrow> nat list list list \<Rightarrow> (nat \<Rightarrow> nat) \<Rightarrow> atom list \<Rightarrow> nat \<Rightarrow> atom \<Rightarrow> enat" where
  "level_cost P doms level facts k \<equiv> snd (level_model P doms level facts k)"

abbreviation level_derives :: "'v program \<Rightarrow> nat list list list \<Rightarrow> (nat \<Rightarrow> nat) \<Rightarrow> atom list \<Rightarrow> nat \<Rightarrow> atom \<Rightarrow> enat \<Rightarrow> bool" where
  "level_derives P doms level facts k \<equiv> derives P doms (level_rules P level k) (level_facts P doms level facts k) (level_cost P doms level facts k)"

lemma strata_model_snoc: "strata_model P doms (rss @ [rs]) M =
    ({a. \<exists>k. derives P doms rs (fst (strata_model P doms rss M)) (snd (strata_model P doms rss M)) a k},
     least_cost P doms rs (fst (strata_model P doms rss M)) (snd (strata_model P doms rss M)))"
  by (induction rss arbitrary: M) simp_all

lemma level_model_step:
  "level_facts P doms level facts 0 = set facts" "level_cost P doms level facts 0 = initial_cost facts"
  "level_facts P doms level facts (Suc k) = {a. \<exists>x. level_derives P doms level facts k a x}"
  "level_cost P doms level facts (Suc k) = least_cost P doms (level_rules P level k) (level_facts P doms level facts k) (level_cost P doms level facts k)"
  by (simp_all add: level_model_def strata_model_snoc)

lemma level_facts_step: "a \<in> level_facts P doms level facts k \<Longrightarrow> a \<in> level_facts P doms level facts (Suc k)"
  by (auto simp: level_model_step(3) intro: derives_fact)

lemma level_facts_mono: "k \<le> j \<Longrightarrow> level_facts P doms level facts k \<subseteq> level_facts P doms level facts j"
proof (induction j rule: dec_induct)
  case (step j)
  then show ?case using level_facts_step by blast
qed simp

lemma level_cost_least:
  assumes "level_derives P doms level facts k a x"
  shows "level_derives P doms level facts k a (level_cost P doms level facts (Suc k) a)" "level_cost P doms level facts (Suc k) a \<le> x"
  unfolding level_model_step least_cost_def using assms LeastI [of "level_derives P doms level facts k a" x]
    Least_le [of "level_derives P doms level facts k a" x] by auto

text \<open>Later levels keep the atoms and costs of a level.\<close>

lemma level_settled:
  assumes "level (fst a) < k" "k \<le> j"
  shows "a \<in> level_facts P doms level facts j \<longleftrightarrow> a \<in> level_facts P doms level facts k"
    "a \<in> level_facts P doms level facts k \<Longrightarrow> level_cost P doms level facts j a = level_cost P doms level facts k a"
proof -
  have "(a \<in> level_facts P doms level facts j \<longleftrightarrow> a \<in> level_facts P doms level facts k)
      \<and> (a \<in> level_facts P doms level facts k \<longrightarrow> level_cost P doms level facts j a = level_cost P doms level facts k a)"
    using assms(2)
  proof (induction j rule: dec_induct)
    case (step j)
    have h: "fst a \<notin> head_predicates P (level_rules P level j)" using level_heads step.hyps(1) assms(1) by fastforce
    have "a \<in> level_facts P doms level facts (Suc j) \<longleftrightarrow> a \<in> level_facts P doms level facts j"
    proof
      assume "a \<in> level_facts P doms level facts (Suc j)"
      then obtain x where "level_derives P doms level facts j a x" by (auto simp: level_model_step(3))
      from derives_start [OF this h] show "a \<in> level_facts P doms level facts j" ..
    qed (rule level_facts_step)
    moreover have "level_cost P doms level facts (Suc j) a = level_cost P doms level facts j a" if "a \<in> level_facts P doms level facts j"
      unfolding level_model_step by (rule least_cost_start [OF that h])
    ultimately show ?case using step.IH by simp
  qed simp
  then show "a \<in> level_facts P doms level facts j \<longleftrightarrow> a \<in> level_facts P doms level facts k"
    "a \<in> level_facts P doms level facts k \<Longrightarrow> level_cost P doms level facts j a = level_cost P doms level facts k a" by blast+
qed

lemma level_cost_falls:
  assumes "a \<in> level_facts P doms level facts k" "k \<le> j"
  shows "level_cost P doms level facts j a \<le> level_cost P doms level facts k a"
  using assms(2)
proof (induction j rule: dec_induct)
  case (step j)
  then have "a \<in> level_facts P doms level facts j" using level_facts_mono assms(1) by blast
  from level_cost_least(2) [OF derives_fact [OF this]] step show ?case by (meson order_trans)
qed simp

lemma level_cost_given: "a \<in> set facts \<Longrightarrow> level_cost P doms level facts k a = 0"
  using level_cost_falls [where k = 0 and j = k and a = a] by (simp add: level_model_step initial_cost_def)

lemma level_new: "a \<in> level_facts P doms level facts k \<Longrightarrow> a \<in> set facts \<or> level (fst a) < k"
proof (induction k)
  case (Suc k)
  then obtain x where "level_derives P doms level facts k a x" by (auto simp: level_model_step)
  then show ?case
  proof cases
    case derives_fact
    then show ?thesis using Suc.IH by auto
  next
    case (derives_rule i r \<sigma> \<kappa>)
    then show ?thesis by (simp add: set_level_rules ground_head_def)
  qed
qed (simp add: level_model_step)

lemma level_no_cost: "a \<notin> level_facts P doms level facts k \<Longrightarrow> level_cost P doms level facts k a = \<infinity>"
  by (cases k) (simp_all add: level_model_step initial_cost_def least_cost_def)

section \<open>The last level is the only stable model\<close>

lemma side_holds_cong:
  assumes "\<And>l. l \<in> set (cond_fluent (rl_body r)) \<Longrightarrow> \<not> ll_polarity l \<Longrightarrow> ground_atom_of \<sigma> l \<in> M \<longleftrightarrow> ground_atom_of \<sigma> l \<in> M'"
  shows "side_holds E d r M \<sigma> \<longleftrightarrow> side_holds E d r M' \<sigma>"
  using assms unfolding side_holds_def literal_holds_def by blast

lemma stratified_literal:
  assumes "stratifies level (map cr_rule (pg_rules P))" "i < length (pg_rules P)" "l \<in> set (cond_fluent (rl_body (cr_rule (pg_rules P ! i))))"
  shows "level (ll_predicate l) \<le> level (rl_predicate (cr_rule (pg_rules P ! i)))"
    "\<not> ll_polarity l \<Longrightarrow> level (ll_predicate l) < level (rl_predicate (cr_rule (pg_rules P ! i)))"
proof -
  have "cr_rule (pg_rules P ! i) \<in> set (map cr_rule (pg_rules P))" using assms(2) by simp
  then have "if ll_polarity l then level (ll_predicate l) \<le> level (rl_predicate (cr_rule (pg_rules P ! i)))
      else level (ll_predicate l) < level (rl_predicate (cr_rule (pg_rules P ! i)))" using assms(1,3) unfolding stratifies_def by blast
  then show "level (ll_predicate l) \<le> level (rl_predicate (cr_rule (pg_rules P ! i)))"
    "\<not> ll_polarity l \<Longrightarrow> level (ll_predicate l) < level (rl_predicate (cr_rule (pg_rules P ! i)))" by (simp_all split: if_splits)
qed

lemma level_side_holds:
  assumes "stratifies level (map cr_rule (pg_rules P))" "i \<in> set (level_rules P level k)" "k \<le> m"
  shows "side_holds E d (cr_rule (pg_rules P ! i)) (level_facts P doms level facts m) \<sigma>
    \<longleftrightarrow> side_holds E d (cr_rule (pg_rules P ! i)) (level_facts P doms level facts k) \<sigma>"
proof (rule side_holds_cong)
  fix l assume "l \<in> set (cond_fluent (rl_body (cr_rule (pg_rules P ! i))))" "\<not> ll_polarity l"
  then have "level (fst (ground_atom_of \<sigma> l)) < k" using stratified_literal(2) [OF assms(1), of i l] assms(2) by (simp add: set_level_rules ground_atom_of_def)
  then show "ground_atom_of \<sigma> l \<in> level_facts P doms level facts m \<longleftrightarrow> ground_atom_of \<sigma> l \<in> level_facts P doms level facts k"
    by (rule level_settled(1) [OF _ assms(3)])
qed

lemma level_sound:
  assumes "stratifies level (map cr_rule (pg_rules P))"
  shows "k \<le> m \<Longrightarrow> a \<in> level_facts P doms level facts k \<Longrightarrow> derivation P doms (set facts) (level_facts P doms level facts m) a (level_cost P doms level facts k a)"
proof (induction k arbitrary: a)
  case 0
  then show ?case using derivation_given [of a "set facts"] by (simp add: level_model_step initial_cost_def)
next
  case (Suc k)
  have "derivation P doms (set facts) (level_facts P doms level facts m) a x" if "level_derives P doms level facts k a x" for x
    using that
  proof induction
    case (derives_fact a)
    then show ?case using Suc.IH Suc.prems(1) by simp
  next
    case (derives_rule i r \<sigma> \<kappa>)
    show ?case
    proof (rule derivation_rule [where i = i, OF _ derives_rule.hyps(2)])
      show "i < length (pg_rules P)" using derives_rule.hyps(1) by (simp add: set_level_rules)
      show "side_holds (pg_setting P) (doms ! i) r (level_facts P doms level facts m) \<sigma>"
        using level_side_holds [where E = "pg_setting P" and m = m, OF assms derives_rule.hyps(1)] Suc.prems(1) derives_rule.hyps(2,3) by simp
    qed (rule derives_rule.IH)
  qed
  moreover obtain x where "level_derives P doms level facts k a x" using Suc.prems(2) by (auto simp: level_model_step(3))
  ultimately show ?case using level_cost_least(1) by blast
qed

lemma level_complete:
  assumes "stratifies level (map cr_rule (pg_rules P))" "\<forall>i < length (pg_rules P). level (rl_predicate (cr_rule (pg_rules P ! i))) < m"
    and "derivation P doms (set facts) (level_facts P doms level facts m) a x"
  shows "a \<in> level_facts P doms level facts m \<and> level_cost P doms level facts m a \<le> x"
  using assms(3)
proof induction
  case (derivation_given a)
  then show ?case using level_facts_mono [of 0 m P doms level facts] by (auto simp: level_cost_given level_model_step(1))
next
  case (derivation_rule i r \<sigma> \<kappa>)
  define k where "k = level (rl_predicate r)"
  have i: "i \<in> set (level_rules P level k)" using derivation_rule.hyps(1,2) by (simp add: set_level_rules k_def)
  have k: "Suc k \<le> m" using assms(2) derivation_rule.hyps(1,2) by (simp add: k_def Suc_le_eq)
  have side: "side_holds (pg_setting P) (doms ! i) r (level_facts P doms level facts k) \<sigma>"
    using level_side_holds [where E = "pg_setting P" and m = m, OF assms(1) i] k derivation_rule.hyps(2,3) by simp
  let ?b = "\<lambda>l. level_cost P doms level facts (Suc k) (ground_atom_of \<sigma> l)"
  have body: "level_derives P doms level facts k (ground_atom_of \<sigma> l) (?b l) \<and> ?b l \<le> \<kappa> l" if l: "l \<in> set (witness_literals r)" for l
  proof -
    have "level (ll_predicate l) \<le> k"
      using stratified_literal(1) [OF assms(1) derivation_rule.hyps(1), of l] l derivation_rule.hyps(2) by (simp add: k_def witness_literals_def)
    then have "level (fst (ground_atom_of \<sigma> l)) < Suc k" by (simp add: ground_atom_of_def)
    note s = level_settled [where level = level and P = P and doms = doms and facts = facts, OF this k]
    have at: "ground_atom_of \<sigma> l \<in> level_facts P doms level facts (Suc k)" using derivation_rule.IH [OF l] s(1) by simp
    then obtain x where "level_derives P doms level facts k (ground_atom_of \<sigma> l) x" by (auto simp: level_model_step(3))
    from level_cost_least(1) [OF this] show ?thesis using derivation_rule.IH [OF l] s(2) [OF at] by simp
  qed
  have d: "level_derives P doms level facts k (ground_head r \<sigma>) (derivation_cost (pg_annotation P) r ?b)"
    by (rule derives_rule [OF i derivation_rule.hyps(2) side]) (use body in blast)
  then have in_k: "ground_head r \<sigma> \<in> level_facts P doms level facts (Suc k)" unfolding level_model_step(3) by blast
  have "level_cost P doms level facts m (ground_head r \<sigma>) \<le> level_cost P doms level facts (Suc k) (ground_head r \<sigma>)" by (rule level_cost_falls [OF in_k k])
  also have "\<dots> \<le> derivation_cost (pg_annotation P) r ?b" by (rule level_cost_least(2) [OF d])
  also have "\<dots> \<le> derivation_cost (pg_annotation P) r \<kappa>" by (rule derivation_cost_mono) (use body in blast)
  finally show ?case using in_k level_facts_mono [OF k] by blast
qed

lemma level_stable:
  assumes "stratifies level (map cr_rule (pg_rules P))" "\<forall>i < length (pg_rules P). level (rl_predicate (cr_rule (pg_rules P ! i))) < m"
  shows "stable_facts P doms (set facts) (level_facts P doms level facts m)"
    "cheapest P doms (set facts) (level_facts P doms level facts m) = level_cost P doms level facts m"
proof -
  let ?d = "derivation P doms (set facts) (level_facts P doms level facts m)"
  note sound = level_sound [OF assms(1) order_refl [of m]] and complete = level_complete [OF assms]
  show "stable_facts P doms (set facts) (level_facts P doms level facts m)" unfolding stable_facts_def using sound complete by blast
  show "cheapest P doms (set facts) (level_facts P doms level facts m) = level_cost P doms level facts m"
  proof (rule ext)
    fix a
    show "cheapest P doms (set facts) (level_facts P doms level facts m) a = level_cost P doms level facts m a"
    proof (cases "a \<in> level_facts P doms level facts m")
      case True
      then have "(LEAST k. ?d a k) = level_cost P doms level facts m a" using sound complete by (intro Least_equality) blast+
      then show ?thesis using sound [OF True] by (auto simp: cheapest_def)
    next
      case False
      then have "\<nexists>x. ?d a x" using complete by blast
      then show ?thesis using level_no_cost [OF False] by (simp add: cheapest_def)
    qed
  qed
qed

lemma derivation_level:
  assumes "stratifies level (map cr_rule (pg_rules P))" "\<And>b. level (fst b) < k \<Longrightarrow> b \<in> M \<longleftrightarrow> b \<in> M'" "derivation P doms given M a x"
  shows "level (fst a) \<le> k \<Longrightarrow> derivation P doms given M' a x"
  using assms(3)
proof induction
  case (derivation_rule i r \<sigma> \<kappa>)
  have le: "level (rl_predicate r) \<le> k" using derivation_rule.prems by (simp add: ground_head_def)
  note lit = stratified_literal [OF assms(1) derivation_rule.hyps(1)]
  show ?case
  proof (rule derivation.derivation_rule [where i = i, OF derivation_rule.hyps(1,2)])
    have "side_holds (pg_setting P) (doms ! i) r M' \<sigma> \<longleftrightarrow> side_holds (pg_setting P) (doms ! i) r M \<sigma>"
    proof (rule side_holds_cong)
      fix l assume "l \<in> set (cond_fluent (rl_body r))" "\<not> ll_polarity l"
      then have "level (fst (ground_atom_of \<sigma> l)) < k" using lit(2) [of l] derivation_rule.hyps(2) le by (simp add: ground_atom_of_def)
      then show "ground_atom_of \<sigma> l \<in> M' \<longleftrightarrow> ground_atom_of \<sigma> l \<in> M" using assms(2) by simp
    qed
    then show "side_holds (pg_setting P) (doms ! i) r M' \<sigma>" using derivation_rule.hyps(3) by simp
  next
    fix l assume l: "l \<in> set (witness_literals r)"
    then have "level (fst (ground_atom_of \<sigma> l)) \<le> k" using lit(1) [of l] derivation_rule.hyps(2) le by (simp add: ground_atom_of_def witness_literals_def)
    then show "derivation P doms given M' (ground_atom_of \<sigma> l) (\<kappa> l)" by (rule derivation_rule.IH [OF l])
  qed
qed (rule derivation.derivation_given)

lemma stable_facts_unique:
  assumes "stratifies level (map cr_rule (pg_rules P))" "stable_facts P doms given M" "stable_facts P doms given M'"
  shows "M = M'"
proof -
  have M: "a \<in> M \<longleftrightarrow> (\<exists>x. derivation P doms given M a x)" "a \<in> M' \<longleftrightarrow> (\<exists>x. derivation P doms given M' a x)" for a
    using assms(2,3) unfolding stable_facts_def by blast+
  have "a \<in> M \<longleftrightarrow> a \<in> M'" for a
  proof (induction "level (fst a)" arbitrary: a rule: less_induct)
    case less
    have below: "b \<in> M \<longleftrightarrow> b \<in> M'" if "level (fst b) < level (fst a)" for b using less that by blast
    show ?case
      unfolding M using derivation_level [where a = a, OF assms(1) below _ order_refl] derivation_level [where a = a, OF assms(1) below [symmetric] _ order_refl] by blast
  qed
  then show ?thesis by blast
qed

lemma level_only_stable:
  assumes "stratifies level (map cr_rule (pg_rules P))" "\<forall>i < length (pg_rules P). level (rl_predicate (cr_rule (pg_rules P ! i))) < m"
  shows "only_stable P doms (set facts) (level_facts P doms level facts m)"
  unfolding only_stable_def using level_stable(1) [OF assms] stable_facts_unique [OF assms(1)] by blast

section \<open>The solver with goals\<close>

text \<open>The witness of an atom: a ground rule whose body holds, whose positive literals are facts, and that pays the cost of the atom.\<close>

definition witnessed :: "'v program \<Rightarrow> nat list list list \<Rightarrow> facts \<Rightarrow> program_state \<Rightarrow> atom \<Rightarrow> bool" where
  "witnessed P doms M st a \<longleftrightarrow> (\<exists>i < length (pg_rules P). \<exists>\<sigma>. side_holds (pg_setting P) (doms ! i) (cr_rule (pg_rules P ! i)) M \<sigma>
     \<and> (\<forall>l \<in> set (witness_literals (cr_rule (pg_rules P ! i))). ground_atom_of \<sigma> l \<in> set (ps_facts st))
     \<and> ground_head (cr_rule (pg_rules P ! i)) \<sigma> = a \<and> ps_witnesses st a = Some \<lparr>wi_rule = i, wi_binding = \<sigma>, wi_cost = ps_costs st a\<rparr>
     \<and> ps_costs st a = derivation_cost (pg_annotation P) (cr_rule (pg_rules P ! i)) (\<lambda>l. ps_costs st (ground_atom_of \<sigma> l)))"

lemma witnessed_later:
  assumes "witnessed P doms M st a" "set (ps_facts st) \<subseteq> set (ps_facts st')" "ps_witnesses st' a = ps_witnesses st a"
    and "a \<in> set (ps_facts st)" "\<And>b. b \<in> set (ps_facts st) \<Longrightarrow> ps_costs st' b = ps_costs st b"
  shows "witnessed P doms M st' a"
proof -
  obtain i \<sigma> where w: "i < length (pg_rules P)" "side_holds (pg_setting P) (doms ! i) (cr_rule (pg_rules P ! i)) M \<sigma>"
    "\<forall>l \<in> set (witness_literals (cr_rule (pg_rules P ! i))). ground_atom_of \<sigma> l \<in> set (ps_facts st)" "ground_head (cr_rule (pg_rules P ! i)) \<sigma> = a"
    "ps_witnesses st a = Some \<lparr>wi_rule = i, wi_binding = \<sigma>, wi_cost = ps_costs st a\<rparr>"
    "ps_costs st a = derivation_cost (pg_annotation P) (cr_rule (pg_rules P ! i)) (\<lambda>l. ps_costs st (ground_atom_of \<sigma> l))"
    using assms(1) unfolding witnessed_def by blast
  have "derivation_cost (pg_annotation P) (cr_rule (pg_rules P ! i)) (\<lambda>l. ps_costs st' (ground_atom_of \<sigma> l))
      = derivation_cost (pg_annotation P) (cr_rule (pg_rules P ! i)) (\<lambda>l. ps_costs st (ground_atom_of \<sigma> l))"
    by (rule derivation_cost_cong) (use w(3) assms(5) in blast)
  then show ?thesis using w assms(2,3) assms(5) [OF assms(4)] unfolding witnessed_def by (intro exI [of _ i] conjI exI [of _ \<sigma>]) auto
qed

lemma level_cost_final:
  assumes "a \<in> level_facts P doms level facts k" "k \<le> j"
  shows "level_cost P doms level facts j a = level_cost P doms level facts k a"
proof (cases "a \<in> set facts")
  case True
  then show ?thesis by (simp add: level_cost_given)
next
  case False
  then show ?thesis using level_new [OF assms(1)] level_settled(2) [OF _ assms(2,1)] by blast
qed

definition goal_search :: "'v program \<Rightarrow> nat list list list \<Rightarrow> (nat \<Rightarrow> nat) \<Rightarrow> nat \<Rightarrow> atom list \<Rightarrow> atom list \<Rightarrow> stratum list \<Rightarrow> nat \<Rightarrow> program_state \<Rightarrow> bool" where
  "goal_search P doms level m facts goals sms k st \<longleftrightarrow> goals_ok goals (set (ps_facts st)) (ps_tp st)
     \<and> set facts \<subseteq> set (ps_facts st) \<and> set (ps_facts st) \<subseteq> level_facts P doms level facts m
     \<and> (\<forall>a \<in> set (ps_facts st). ps_costs st a = level_cost P doms level facts m a
          \<and> (a \<notin> set facts \<longrightarrow> witnessed P doms (level_facts P doms level facts m) st a))
     \<and> (tp_check (ps_tp st) \<or> strata_ready P doms (drop k sms) (level_facts P doms level facts k) (level_cost P doms level facts k) st)"

lemma goal_search_stopped:
  assumes "goal_search P doms level m facts goals sms k st" "tp_check (ps_tp st)" "pg_goal_directed P"
  shows "\<exists>st'. solve_bottom_up_for_stratum P sm st = Some st' \<and> goal_search P doms level m facts goals sms j st'"
proof -
  have "solve_bottom_up_for_stratum P sm st = Some (stratum_start sm st)" using assms(2,3) by (simp add: solve_stratum_eq stratum_loop.simps)
  moreover have "witnessed P doms M (stratum_start sm st) a \<longleftrightarrow> witnessed P doms M st a" for M a by (simp add: witnessed_def)
  then have "goal_search P doms level m facts goals sms j (stratum_start sm st)" using assms(1,2) by (simp add: goal_search_def)
  ultimately show ?thesis by blast
qed

lemma goal_search_step:
  assumes "program_ok P doms" "stratifies level (map cr_rule (pg_rules P))" "pg_goal_directed P" "pg_annotation P = Annotation agg"
    and "\<forall>sm \<in> set sms. stratum_ok P sm" "separate_strata P sms" "k < m" "length sms = m" "sm_rules (sms ! k) = level_rules P level k"
    and "goal_search P doms level m facts goals sms k st"
  shows "\<exists>st'. solve_bottom_up_for_stratum P (sms ! k) st = Some st' \<and> goal_search P doms level m facts goals sms (Suc k) st'"
proof (cases "tp_check (ps_tp st)")
  case True
  then show ?thesis by (rule goal_search_stopped [OF assms(10) _ assms(3)])
next
  case False
  let ?F = "level_facts P doms level facts" and ?c = "level_cost P doms level facts" and ?sm = "sms ! k"
  have drop: "drop k sms = ?sm # drop (Suc k) sms" using assms(7,8) by (simp add: Cons_nth_drop_Suc)
  have S: "goals_ok goals (set (ps_facts st)) (ps_tp st)" "set facts \<subseteq> set (ps_facts st)"
    "strata_ready P doms (?sm # drop (Suc k) sms) (?F k) (?c k) st"
    and W: "\<And>a. a \<in> set (ps_facts st) \<Longrightarrow> ps_costs st a = ?c m a \<and> (a \<notin> set facts \<longrightarrow> witnessed P doms (?F m) st a)"
    using assms(10) False unfolding goal_search_def drop by blast+
  have facts: "set (ps_facts st) = ?F k" using S(3) by (simp add: strata_ready_def)
  have ok: "stratum_ok P ?sm" using assms(5,7,8) by simp
  have sep: "separate_strata P (?sm # drop (Suc k) sms)" unfolding drop [symmetric] separate_strata_def
    by (rule sorted_wrt_drop [OF assms(6) [unfolded separate_strata_def]])
  obtain st' where st': "solve_bottom_up_for_stratum P ?sm st = Some st'" "stratum_result P doms ?sm (?F k) (?c k) st st'"
    "goals_ok goals (set (ps_facts st')) (ps_tp st')"
    using solve_stratum_returns [OF assms(1) ok S(3), of goals] S(1) assms(3) by blast
  let ?G = "set (ps_facts st')"
  have opt: "optimal_facts P doms (level_rules P level k) (?F k) (?c k) st'" and sub: "?F k \<subseteq> ?G"
    and fin: "complete_facts P doms (level_rules P level k) (?F k) (?c k) st' \<or> tp_check (ps_tp st')"
    and frame: "\<And>a. fst a \<notin> head_predicates P (level_rules P level k) \<Longrightarrow> ps_witnesses st' a = ps_witnesses st a"
    using st'(2) unfolding stratum_result_def assms(9) by blast+
  have cost: "ps_costs st'' = atom_cost P st''" for st'' by (rule ext) (simp add: atom_cost_def assms(4))
  have der: "\<exists>x. level_derives P doms level facts k a x" if "a \<in> ?G" for a using opt that unfolding optimal_facts_def by blast
  have next_facts: "?G \<subseteq> ?F (Suc k)" using der by (auto simp: level_model_step(3))
  have costs: "ps_costs st' a = ?c m a" if a: "a \<in> ?G" for a
  proof -
    have "ps_costs st' a = ?c (Suc k) a" using opt a unfolding cost optimal_facts_def level_model_step(4) by blast
    then show ?thesis using level_cost_final [of a P doms level facts "Suc k" m] next_facts a assms(7) by auto
  qed
  have exf: "extends_facts P (sm_rules ?sm) (?F k) ?G"
    using sub der derives_start unfolding extends_facts_def assms(9) by fastforce
  have wit: "witnessed P doms (?F m) st' a" if a: "a \<in> ?G" "a \<notin> set facts" for a
  proof (cases "a \<in> ?F k")
    case True
    then have "level (fst a) < k" using level_new a(2) by blast
    then have "ps_witnesses st' a = ps_witnesses st a" using frame level_heads by blast
    moreover have "ps_costs st' b = ps_costs st b" if "b \<in> set (ps_facts st)" for b using W [OF that] costs [of b] sub that facts by auto
    ultimately show ?thesis using witnessed_later [of P doms "?F m" st a st'] W [of a] True a(2) sub facts by blast
  next
    case False
    then have "has_witness P doms (level_rules P level k) ?G st' a" using opt a(1) assms(4) unfolding optimal_facts_def by simp
    then obtain i \<sigma> where i: "i \<in> set (level_rules P level k)" "rule_fires P doms i ?G \<sigma>" "rule_head P i \<sigma> = a"
      "ps_witnesses st' a = Some (rule_witness P (ps_costs st') i \<sigma>)" "ps_costs st' a = rule_binding_cost P (ps_costs st') i \<sigma>"
      unfolding has_witness_def cost by blast
    have len: "i < length (pg_rules P)" using i(1) by (simp add: set_level_rules)
    have fires: "side_holds (pg_setting P) (doms ! i) (cr_rule (pg_rules P ! i)) (?F k) \<sigma>"
      "\<forall>l \<in> set (witness_literals (cr_rule (pg_rules P ! i))). ground_atom_of \<sigma> l \<in> ?G"
      using i(1,2) rule_fires_iff [OF ok _ exf] unfolding assms(9) by blast+
    have "side_holds (pg_setting P) (doms ! i) (cr_rule (pg_rules P ! i)) (?F m) \<sigma>"
      using level_side_holds [where E = "pg_setting P" and m = m, OF assms(2) i(1)] fires(1) assms(7) by simp
    moreover have "rule_witness P (ps_costs st') i \<sigma> = \<lparr>wi_rule = i, wi_binding = \<sigma>, wi_cost = ps_costs st' a\<rparr>"
      using i(5) assms(1) len by (simp add: rule_witness_def program_ok_def)
    ultimately show ?thesis
      using i(3-5) len fires(2) unfolding witnessed_def rule_head_def rule_binding_cost_def binding_cost_def by auto
  qed
  have "strata_ready P doms (drop (Suc k) sms) (?F (Suc k)) (?c (Suc k)) st'" if "\<not> tp_check (ps_tp st')"
    using next_stratum_ready [OF S(3) sep st'(2)] fin that unfolding assms(9) level_model_step(3,4) by blast
  moreover have "?G \<subseteq> ?F m" using next_facts level_facts_mono [of "Suc k" m P doms level facts] assms(7) by auto
  ultimately have "goal_search P doms level m facts goals sms (Suc k) st'"
    using st'(3) S(2) sub facts costs wit unfolding goal_search_def by blast
  then show ?thesis using st'(1) by blast
qed

lemma solve_append: "solve_bottom_up P (xs @ ys) st = Option.bind (solve_bottom_up P xs st) (solve_bottom_up P ys)"
proof (induction xs arbitrary: st)
  case (Cons x xs)
  then show ?case by (cases "solve_bottom_up_for_stratum P x st") simp_all
qed simp

lemma goal_search_prefix:
  assumes "program_ok P doms" "stratifies level (map cr_rule (pg_rules P))" "pg_goal_directed P" "pg_annotation P = Annotation agg"
    and "\<forall>sm \<in> set sms. stratum_ok P sm" "separate_strata P sms" "length sms = m" "\<And>k. k < m \<Longrightarrow> sm_rules (sms ! k) = level_rules P level k"
    and "goal_search P doms level m facts goals sms 0 st"
  shows "k \<le> m \<Longrightarrow> \<exists>st'. solve_bottom_up P (take k sms) st = Some st' \<and> goal_search P doms level m facts goals sms k st'"
proof (induction k)
  case 0
  then show ?case using assms(9) by simp
next
  case (Suc k)
  then obtain st1 where st1: "solve_bottom_up P (take k sms) st = Some st1" "goal_search P doms level m facts goals sms k st1" by auto
  have k: "k < m" using Suc.prems by simp
  obtain st' where st': "solve_bottom_up_for_stratum P (sms ! k) st1 = Some st'" "goal_search P doms level m facts goals sms (Suc k) st'"
    using goal_search_step [OF assms(1-6) k assms(7) assms(8) [OF k] st1(2)] by blast
  have "take (Suc k) sms = take k sms @ [sms ! k]" using k assms(7) by (simp add: take_Suc_conv_app_nth)
  then show ?case using st1(1) st' by (simp add: solve_append)
qed

lemma goal_search_start:
  assumes "goals_ok goals (set (ps_facts st)) (ps_tp st)" "strata_ready P doms sms (set facts) (initial_cost facts) st" "ps_costs st = initial_cost facts"
  shows "goal_search P doms level m facts goals sms 0 st"
proof -
  have f: "set (ps_facts st) = set facts" using assms(2) by (simp add: strata_ready_def)
  have "set facts \<subseteq> level_facts P doms level facts m" using level_facts_mono [of 0 m P doms level facts] by (simp add: level_model_step(1))
  then show ?thesis using assms f by (simp add: goal_search_def level_model_step(1,2) level_cost_given) (simp add: initial_cost_def)
qed

lemma total_cost_cong:
  assumes "tp_bindings t = goals" "\<And>g. g \<in> set goals \<Longrightarrow> oa g = \<kappa> g"
  shows "tp_total_cost agg oa t = fold (\<lambda>g c. aggregate agg c (\<kappa> g)) goals 0"
  unfolding tp_total_cost_def assms(1) using assms(2) by (intro fold_cong) simp_all

text \<open>The strata of a program that is not rejected.\<close>

lemma program_strata:
  assumes "rules_in_range (map cr_rule (pg_rules P)) n" "boost_fits B (map cr_rule (pg_rules P)) n"
    and "compute_rule_stratification B (map cr_rule (pg_rules P)) n = Inr strata"
  obtains level m where "strata = map (level_rules P level) [0..<m]" "stratifies level (map cr_rule (pg_rules P))" "strata_ok P strata"
    "\<forall>i < length (pg_rules P). level (rl_predicate (cr_rule (pg_rules P ! i))) < m"
proof -
  obtain level m where l: "strata = rule_strata level (map cr_rule (pg_rules P)) m" "least_stratification level (map cr_rule (pg_rules P)) n"
    "\<forall>r \<in> set (map cr_rule (pg_rules P)). level (rl_predicate r) < m"
    using stratification_outcome [OF assms(1,2)] assms(3) by auto
  have s: "stratifies level (map cr_rule (pg_rules P))" using l(2) by (simp add: least_stratification_def)
  show thesis
  proof (rule that)
    show "strata = map (level_rules P level) [0..<m]" using l(1) by (simp add: rule_strata_levels)
    show "stratifies level (map cr_rule (pg_rules P))" by (rule s)
    show "strata_ok P strata" unfolding l(1) by (rule rule_strata_ok [OF s])
    show "\<forall>i < length (pg_rules P). level (rl_predicate (cr_rule (pg_rules P ! i))) < m" using l(3) by simp
  qed
qed

section \<open>Correctness\<close>

text \<open>
  C6. The solver without goals, on rules that fit (each rule's literals are settled, the interval tests decide its constraints, and its
  heads are atoms of the schema for bindings in the domains): a program is rejected exactly if a negated condition is on a cycle. For
  the others the solver returns, from a workspace in any state that earlier solves may have left. The facts in the end are
  the stable model of all rules of the program, of which there is only one, and every atom is annotated with the cost of its
  cheapest derivation, or with infinity if it has none.
\<close>

theorem solve_bottom_up_correct:
  assumes "program_ok P doms" "workspace_ok P doms st" "\<forall>a \<in> set facts. legal_atom (se_fpreds (pg_setting P)) a" "\<not> pg_goal_directed P"
    and "rules_in_range (map cr_rule (pg_rules P)) n" "boost_fits B (map cr_rule (pg_rules P)) n"
  shows "case compute_rule_stratification B (map cr_rule (pg_rules P)) n of
      Inl e \<Rightarrow> negative_cycle (map cr_rule (pg_rules P))
    | Inr strata \<Rightarrow> \<not> negative_cycle (map cr_rule (pg_rules P))
        \<and> (\<exists>st'. solve_bottom_up P (make_strata (pg_rules P) strata) (solve_start P goals facts st) = Some st' \<and> workspace_ok P doms st'
            \<and> only_stable P doms (set facts) (set (ps_facts st'))
            \<and> atom_cost P st' = cheapest P doms (set facts) (set (ps_facts st')))"
proof (cases "compute_rule_stratification B (map cr_rule (pg_rules P)) n")
  case (Inl e)
  then show ?thesis using stratification_outcome [OF assms(5,6)] by auto
next
  case (Inr strata)
  from program_strata [OF assms(5,6) Inr] obtain level m where L: "strata = map (level_rules P level) [0..<m]"
    "stratifies level (map cr_rule (pg_rules P))" "strata_ok P strata"
    "\<forall>i < length (pg_rules P). level (rl_predicate (cr_rule (pg_rules P ! i))) < m" .
  obtain st' where st': "solve_bottom_up P (make_strata (pg_rules P) strata) (solve_start P goals facts st) = Some st'" "workspace_ok P doms st'"
    "(set (ps_facts st'), atom_cost P st') = level_model P doms level facts m"
    using solve_bottom_up_model [OF assms(1) L(3) assms(2-4)] unfolding level_model_def L(1) by blast
  have st'': "set (ps_facts st') = level_facts P doms level facts m" "atom_cost P st' = level_cost P doms level facts m"
    unfolding st'(3) [symmetric] by simp_all
  have "only_stable P doms (set facts) (set (ps_facts st'))" unfolding st''(1) by (rule level_only_stable [OF L(2,4)])
  moreover have "atom_cost P st' = cheapest P doms (set facts) (set (ps_facts st'))" unfolding st'' by (rule level_stable(2) [OF L(2,4), symmetric])
  moreover have "\<not> negative_cycle (map cr_rule (pg_rules P))" using L(2) negative_cycle_unstratified by blast
  ultimately show ?thesis unfolding Inr sum.case using st'(1,2) by blast
qed

text \<open>
  C8. The solver with a termination policy and annotations, on the strata of a program whose rules fit as in C6: it returns, maybe
  before all atoms are derived, and its check succeeds exactly if all goals are in the only stable model of the program. Then the cost
  that it reports is that of the cheapest derivations of the goals. Every fact is an atom of the model at the cost of its
  cheapest derivation, and every derived fact has a witness: a ground rule whose side conditions hold in the model, whose
  positive literals are facts, and whose cost is that of the fact.
\<close>

theorem solve_goal_directed:
  assumes "program_ok P doms" "workspace_ok P doms st" "\<forall>a \<in> set facts. legal_atom (se_fpreds (pg_setting P)) a"
    and "pg_goal_directed P" "pg_annotation P = Annotation agg" "distinct goals"
    and "rules_in_range (map cr_rule (pg_rules P)) n" "boost_fits B (map cr_rule (pg_rules P)) n"
    and "compute_rule_stratification B (map cr_rule (pg_rules P)) n = Inr strata"
  shows "\<exists>M st'. only_stable P doms (set facts) M
    \<and> solve_bottom_up P (make_strata (pg_rules P) strata) (solve_start P goals facts st) = Some st'
    \<and> (tp_check (ps_tp st') \<longleftrightarrow> set goals \<subseteq> M)
    \<and> (tp_check (ps_tp st') \<longrightarrow>
         tp_total_cost agg (ps_costs st') (ps_tp st') = fold (\<lambda>g c. aggregate agg c (cheapest P doms (set facts) M g)) goals 0)
    \<and> set facts \<subseteq> set (ps_facts st') \<and> set (ps_facts st') \<subseteq> M
    \<and> (\<forall>a \<in> set (ps_facts st'). ps_costs st' a = cheapest P doms (set facts) M a \<and> (a \<notin> set facts \<longrightarrow> witnessed P doms M st' a))"
proof -
  from program_strata [OF assms(7-9)] obtain level m where L: "strata = map (level_rules P level) [0..<m]"
    "stratifies level (map cr_rule (pg_rules P))" "strata_ok P strata"
    "\<forall>i < length (pg_rules P). level (rl_predicate (cr_rule (pg_rules P ! i))) < m" .
  let ?sms = "make_strata (pg_rules P) strata" and ?M = "level_facts P doms level facts m" and ?s = "solve_start P goals facts st"
  note sm = make_strata_ok [OF L(3)]
  have "\<forall>sm \<in> set ?sms. \<forall>i \<in> set (sm_rules sm). i < length (pg_rules P)" using sm(1) by (simp add: stratum_ok_def)
  note R = solve_start_ready [OF assms(2,3) this assms(6)]
  have len: "length ?sms = m" by (simp add: make_strata_def L(1))
  have at: "sm_rules (?sms ! k) = level_rules P level k" if "k < m" for k using that by (simp add: make_strata_def L(1))
  have costs: "ps_costs ?s = initial_cost facts" using R(4) by (simp add: atom_cost_def assms(5) fun_eq_iff)
  have "goals_ok goals (set (ps_facts ?s)) (ps_tp ?s)" using R(3) assms(4) by simp
  note start = goal_search_start [OF this R(1) costs]
  from goal_search_prefix [OF assms(1) L(2) assms(4,5) sm(1,2) len at start order_refl] obtain st' where
    st': "solve_bottom_up P ?sms ?s = Some st'" "goal_search P doms level m facts goals ?sms m st'" using len by auto
  have G: "goals_ok goals (set (ps_facts st')) (ps_tp st')" "set facts \<subseteq> set (ps_facts st')" "set (ps_facts st') \<subseteq> ?M"
    "\<forall>a \<in> set (ps_facts st'). ps_costs st' a = level_cost P doms level facts m a \<and> (a \<notin> set facts \<longrightarrow> witnessed P doms ?M st' a)"
    "tp_check (ps_tp st') \<or> set (ps_facts st') = ?M"
    using st'(2) unfolding goal_search_def strata_ready_def by blast+
  note check = goals_ok_check [OF G(1)]
  have "tp_check (ps_tp st') \<longleftrightarrow> set goals \<subseteq> ?M" using G(3,5) check by blast
  moreover have "tp_total_cost agg (ps_costs st') (ps_tp st') = fold (\<lambda>g c. aggregate agg c (level_cost P doms level facts m g)) goals 0"
    if "tp_check (ps_tp st')"
    by (rule total_cost_cong) (use G(1,4) that check in \<open>auto simp: goals_ok_def\<close>)
  ultimately show ?thesis
    unfolding level_stable(2) [OF L(2,4), symmetric]
    using level_only_stable [OF L(2,4)] st'(1) G(2,3) G(4) [folded level_stable(2) [OF L(2,4), where doms = doms and facts = facts]]
    by (intro exI [of _ ?M] exI [of _ st']) simp
qed

section \<open>Examples\<close>

lemma solve_bottom_up_correct_witness:
  "\<exists>st'. solve_bottom_up (solve_example (Annotation Sum_Aggregation) False) (make_strata (pg_rules (solve_example (Annotation Sum_Aggregation) False)) [[0], [1]])
      (solve_start (solve_example (Annotation Sum_Aggregation) False) [] solve_example_facts (program_start (solve_example (Annotation Sum_Aggregation) False))) = Some st'
    \<and> only_stable (solve_example (Annotation Sum_Aggregation) False) solve_example_doms (set solve_example_facts) (set (ps_facts st'))"
  using solve_bottom_up_correct [OF solve_example_ok [of "Annotation Sum_Aggregation" False] solve_example_workspace solve_example_legal,
      where n = 3 and B = upward_boost and goals = "[]"]
  by (auto simp: solve_example_rules solve_example_in_range solve_example_fits compute_rule_stratification_example solve_example_simps)

lemma solve_goal_directed_witness:
  "\<exists>M st'. only_stable (solve_example (Annotation Max_Aggregation) True) solve_example_doms (set solve_example_facts) M
    \<and> solve_bottom_up (solve_example (Annotation Max_Aggregation) True) (make_strata (pg_rules (solve_example (Annotation Max_Aggregation) True)) [[0], [1]])
      (solve_start (solve_example (Annotation Max_Aggregation) True) [(1, [1]), (2, [1])] solve_example_facts
        (program_start (solve_example (Annotation Max_Aggregation) True))) = Some st'
    \<and> (tp_check (ps_tp st') \<longleftrightarrow> {(1, [1]), (2, [1])} \<subseteq> M)"
proof -
  have "rules_in_range (map cr_rule (pg_rules (solve_example (Annotation Max_Aggregation) True))) 3"
    "boost_fits upward_boost (map cr_rule (pg_rules (solve_example (Annotation Max_Aggregation) True))) 3"
    "compute_rule_stratification upward_boost (map cr_rule (pg_rules (solve_example (Annotation Max_Aggregation) True))) 3 = Inr [[0], [1]]"
    by (simp_all only: solve_example_rules solve_example_in_range solve_example_fits compute_rule_stratification_example)
  from solve_goal_directed [OF solve_example_ok solve_example_workspace solve_example_legal _ _ _ this,
      where agg = Max_Aggregation and goals = "[(1, [1]), (2, [1])]"]
  show ?thesis by (simp add: solve_example_simps del: One_nat_def) blast
qed

end
