(* ===== verification/Raw_Arrays.thy ===== *)
theory Raw_Arrays
  imports Prelude "HOL-Library.Word"
begin

unbundle bit_operations_syntax

text \<open>
  \<^verbatim>\<open>include/tyr/common/raw_array_pool.hpp\<close> and \<^verbatim>\<open>raw_array_set.hpp\<close>: arrays of one size in segments, and a set of such arrays
  that gives each one an index. A segment holds \<open>2 ^ k\<close> arrays. The hash set of indices is part of the GTL library: it is the list
  of its elements, and looking up a value finds the element whose array equals it. The set refines a list of distinct arrays.
\<close>

section \<open>The pool\<close>

record 'b ra_pool =
  ra_segments :: "'b list list"
  ra_array_size :: nat
  ra_segment_size :: nat
  ra_cur_seg :: nat
  ra_cur_pos :: nat
  ra_size :: nat

definition ra_init :: "nat \<Rightarrow> nat \<Rightarrow> 'b ra_pool" where
  "ra_init k n = \<lparr>ra_segments = [], ra_array_size = n, ra_segment_size = 2 ^ k * n, ra_cur_seg = 0, ra_cur_pos = 0, ra_size = 0\<rparr>"

text \<open>A new segment has zeros.\<close>

definition ra_increase_capacity :: "'b::zero ra_pool \<Rightarrow> 'b ra_pool" where
  "ra_increase_capacity p =
     (if ra_cur_seg p < length (ra_segments p) \<and> ra_cur_pos p + ra_array_size p \<le> ra_segment_size p then p
      else if ra_cur_seg p + 1 < length (ra_segments p) then p\<lparr>ra_cur_seg := ra_cur_seg p + 1, ra_cur_pos := 0\<rparr>
      else let segments = ra_segments p @ [replicate (ra_segment_size p) 0]
        in p\<lparr>ra_segments := segments, ra_cur_seg := length segments - 1, ra_cur_pos := 0\<rparr>)"

definition ra_allocate :: "'b::zero ra_pool \<Rightarrow> (nat \<times> nat) \<times> 'b ra_pool" where
  "ra_allocate p = (let p = ra_increase_capacity p
     in ((ra_cur_seg p, ra_cur_pos p), p\<lparr>ra_cur_pos := ra_cur_pos p + ra_array_size p, ra_size := ra_size p + 1\<rparr>))"

definition ra_at :: "nat \<Rightarrow> 'b ra_pool \<Rightarrow> nat \<Rightarrow> nat \<times> nat" where
  "ra_at k p i = (drop_bit k i, (i AND mask k) * ra_array_size p)"

definition ra_pool_clear :: "'b ra_pool \<Rightarrow> 'b ra_pool" where
  "ra_pool_clear p = p\<lparr>ra_cur_seg := 0, ra_cur_pos := 0, ra_size := 0\<rparr>"

text \<open>Reading the array at a place, and copying an array to it.\<close>

definition ra_load :: "'b ra_pool \<Rightarrow> nat \<times> nat \<Rightarrow> 'b list" where
  "ra_load p loc = take (ra_array_size p) (drop (snd loc) (ra_segments p ! fst loc))"

definition ra_store :: "nat \<times> nat \<Rightarrow> 'b list \<Rightarrow> 'b ra_pool \<Rightarrow> 'b ra_pool" where
  "ra_store loc v p = (let s = ra_segments p ! fst loc
     in p\<lparr>ra_segments := (ra_segments p)[fst loc := take (snd loc) s @ v @ drop (snd loc + length v) s]\<rparr>)"

section \<open>The set\<close>

record 'b ra_set =
  rs_pool :: "'b ra_pool"
  rs_indices :: "nat list"

definition rs_init :: "nat \<Rightarrow> nat \<Rightarrow> 'b ra_set" where
  "rs_init k n = \<lparr>rs_pool = ra_init k n, rs_indices = []\<rparr>"

definition rs_at :: "nat \<Rightarrow> 'b ra_set \<Rightarrow> nat \<Rightarrow> 'b list" where
  "rs_at k S i = ra_load (rs_pool S) (ra_at k (rs_pool S) i)"

definition rs_find :: "nat \<Rightarrow> 'b ra_set \<Rightarrow> 'b list \<Rightarrow> nat option" where
  "rs_find k S v = find (\<lambda>i. rs_at k S i = v) (rs_indices S)"

definition rs_insert :: "nat \<Rightarrow> 'b::zero list \<Rightarrow> 'b ra_set \<Rightarrow> nat \<times> 'b ra_set" where
  "rs_insert k v S = (case rs_find k S v of
     Some i \<Rightarrow> (i, S)
   | None \<Rightarrow> let i = ra_size (rs_pool S); (loc, p) = ra_allocate (rs_pool S)
       in (i, \<lparr>rs_pool = ra_store loc v p, rs_indices = rs_indices S @ [i]\<rparr>))"

definition rs_clear :: "'b ra_set \<Rightarrow> 'b ra_set" where
  "rs_clear S = \<lparr>rs_pool = ra_pool_clear (rs_pool S), rs_indices = []\<rparr>"

section \<open>Invariants\<close>

definition ra_invar :: "nat \<Rightarrow> 'b ra_pool \<Rightarrow> bool" where
  "ra_invar k p \<longleftrightarrow> ra_segment_size p = 2 ^ k * ra_array_size p \<and> (\<forall>s \<in> set (ra_segments p). length s = ra_segment_size p)
     \<and> ra_cur_pos p \<le> ra_segment_size p \<and> ra_size p * ra_array_size p = ra_cur_seg p * ra_segment_size p + ra_cur_pos p
     \<and> (if ra_segments p = [] then ra_cur_seg p = 0 \<and> ra_cur_pos p = 0 else ra_cur_seg p < length (ra_segments p))"

lemma ra_at_eq: "ra_at k p i = (i div 2 ^ k, (i mod 2 ^ k) * ra_array_size p)"
  by (simp add: ra_at_def drop_bit_eq_div flip: take_bit_eq_mask take_bit_eq_mod)

lemma ra_increase_capacity_spec:
  fixes p :: "'b::zero ra_pool"
  assumes "ra_invar k p"
  defines "p' \<equiv> ra_increase_capacity p"
  shows "ra_invar k p' \<and> ra_array_size p' = ra_array_size p \<and> ra_size p' = ra_size p \<and> ra_cur_seg p' < length (ra_segments p')
    \<and> ra_cur_pos p' + ra_array_size p' \<le> ra_segment_size p'
    \<and> (\<forall>s < length (ra_segments p). s < length (ra_segments p') \<and> ra_segments p' ! s = ra_segments p ! s)"
proof (cases "ra_cur_seg p < length (ra_segments p) \<and> ra_cur_pos p + ra_array_size p \<le> ra_segment_size p")
  case True
  then show ?thesis using assms by (simp add: ra_increase_capacity_def)
next
  case False
  let ?n = "ra_array_size p"
  note I = assms(1) [unfolded ra_invar_def]
  have one: "?n \<le> ra_segment_size p" using I by simp
  have full: "ra_cur_pos p = ra_segment_size p" if "ra_segments p \<noteq> []"
  proof (cases "?n = 0")
    case False
    have "ra_cur_pos p = (ra_size p - ra_cur_seg p * 2 ^ k) * ?n" using I by (simp add: diff_mult_distrib)
    then obtain c where c: "ra_cur_pos p = c * ?n" by blast
    have "2 ^ k * ?n < (c + 1) * ?n" using \<open>\<not> (_ \<and> _)\<close> that I c by auto
    then have "2 ^ k < c + 1" using mult_less_cancel2 by blast
    then have "2 ^ k * ?n \<le> c * ?n" by (intro mult_right_mono) auto
    moreover have "ra_cur_pos p \<le> 2 ^ k * ?n" using I by simp
    ultimately show ?thesis using I c by linarith
  qed (use I in simp)
  show ?thesis
  proof (cases "ra_cur_seg p + 1 < length (ra_segments p)")
    case next_seg: True
    then have "ra_segments p \<noteq> []" by auto
    from full [OF this] show ?thesis using next_seg False I one by (auto simp: p'_def ra_increase_capacity_def ra_invar_def algebra_simps)
  next
    case last_seg: False
    show ?thesis
    proof (cases "ra_segments p = []")
      case True
      then show ?thesis using I one by (simp add: p'_def ra_increase_capacity_def ra_invar_def)
    next
      case ne: False
      then have "length (ra_segments p) = ra_cur_seg p + 1" using last_seg I by auto
      then show ?thesis using full [OF ne] False last_seg ne I one
        by (auto simp: p'_def ra_increase_capacity_def ra_invar_def algebra_simps nth_append)
    qed
  qed
qed

lemma slice_update:
  fixes s :: "'b list"
  assumes "length v = n" "i * n + n \<le> length s" "j * n + n \<le> length s"
  shows "take n (drop (j * n) (take (i * n) s @ v @ drop (i * n + length v) s)) = (if i = j then v else take n (drop (j * n) s))"
proof -
  define L where "L = take (i * n) s @ v @ drop (i * n + length v) s"
  have len: "length L = length s" using assms by (simp add: L_def)
  have nth: "L ! (j * n + t) = (if i = j then v ! t else s ! (j * n + t))" if t: "t < n" for t
  proof (cases i j rule: linorder_cases)
    case less
    then have "Suc i * n \<le> j * n" by (intro mult_right_mono) auto
    then have "i * n + n \<le> j * n + t" by simp
    then have "\<not> j * n + t < i * n" "\<not> j * n + t - i * n < n" "i * n + n + (j * n + t - i * n - n) = j * n + t" "i * n + length v \<le> length s" using assms by linarith+
    then show ?thesis using less assms(1) by (simp add: L_def nth_append)
  next
    case greater
    then have "Suc j * n \<le> i * n" by (intro mult_right_mono) auto
    then have "j * n + t < i * n" using t by simp
    then show ?thesis using greater assms by (simp add: L_def nth_append)
  qed (use t assms in \<open>simp add: L_def nth_append\<close>)
  show ?thesis unfolding L_def [symmetric] by (rule nth_equalityI) (use assms len nth in auto)
qed

lemma length_ra_store: "length (ra_segments (ra_store loc v p)) = length (ra_segments p)"
  by (simp add: ra_store_def Let_def)

text \<open>Allocating and storing: the new array has the next index, the others stay.\<close>

lemma ra_allocate_store:
  fixes p :: "'b::zero ra_pool"
  assumes inv: "ra_invar k p" and v: "length v = ra_array_size p" and r: "ra_allocate p = (loc, q)"
  defines "p' \<equiv> ra_store loc v q"
  shows "ra_invar k p'" "ra_array_size p' = ra_array_size p" "ra_size p' = ra_size p + 1"
    "ra_load p' (ra_at k p' (ra_size p)) = v" "i < ra_size p \<Longrightarrow> ra_load p' (ra_at k p' i) = ra_load p (ra_at k p i)"
proof -
  let ?n = "ra_array_size p"
  define p1 where "p1 = ra_increase_capacity p"
  note S = ra_increase_capacity_spec [OF inv, folded p1_def]
  have loc: "loc = (ra_cur_seg p1, ra_cur_pos p1)" and q: "q = p1\<lparr>ra_cur_pos := ra_cur_pos p1 + ?n, ra_size := ra_size p1 + 1\<rparr>"
    using r S by (simp_all add: ra_allocate_def p1_def [symmetric] Let_def)
  have I: "ra_segment_size p1 = 2 ^ k * ?n" "\<forall>s \<in> set (ra_segments p1). length s = 2 ^ k * ?n"
    "ra_size p * ?n = ra_cur_seg p1 * (2 ^ k * ?n) + ra_cur_pos p1" using S by (auto simp: ra_invar_def)
  have seg: "ra_cur_seg p1 < length (ra_segments p1)" and pos: "ra_cur_pos p1 + ?n \<le> 2 ^ k * ?n" using S I by auto
  have len: "length (ra_segments p1 ! ra_cur_seg p1) = 2 ^ k * ?n" using I(2) seg by simp
  show n': "ra_array_size p' = ?n" "ra_size p' = ra_size p + 1" using S by (simp_all add: p'_def ra_store_def q Let_def)
  have segments: "ra_segments p' = (ra_segments p1)[ra_cur_seg p1 := take (ra_cur_pos p1) (ra_segments p1 ! ra_cur_seg p1) @ v
      @ drop (ra_cur_pos p1 + length v) (ra_segments p1 ! ra_cur_seg p1)]"
    by (simp add: p'_def ra_store_def q loc Let_def)
  have "length x = 2 ^ k * ?n" if "x \<in> set (ra_segments p')" for x
    using that set_update_subset_insert [of "ra_segments p1" "ra_cur_seg p1"] I(2) v pos len unfolding segments by fastforce
  moreover have "ra_segment_size p' = 2 ^ k * ?n" "ra_cur_seg p' = ra_cur_seg p1" "ra_cur_pos p' = ra_cur_pos p1 + ?n"
    using I by (simp_all add: p'_def ra_store_def q Let_def)
  moreover have "(ra_size p + 1) * ?n = ra_cur_seg p1 * (2 ^ k * ?n) + (ra_cur_pos p1 + ?n)" using I(3) by simp
  moreover have "ra_segments p' \<noteq> []" "ra_cur_seg p1 < length (ra_segments p')" using seg by (auto simp: segments)
  ultimately show "ra_invar k p'" using pos unfolding ra_invar_def n' by simp
  have read: "ra_load p' (ra_at k p' i) = (if i = ra_size p then v else ra_load p (ra_at k p i))" if i: "i \<le> ra_size p" for i
  proof (cases "?n = 0")
    case True
    then show ?thesis using v n' by (simp add: ra_load_def)
  next
    case False
    then have n: "0 < ?n" by simp
    define c where "c = ra_size p - ra_cur_seg p1 * 2 ^ k"
    have c: "ra_cur_pos p1 = c * ?n" using I(3) by (simp add: c_def diff_mult_distrib algebra_simps)
    have "(c + 1) * ?n \<le> 2 ^ k * ?n" using pos c by simp
    then have c_less: "c < 2 ^ k" using n mult_le_cancel2 [of "c + 1" ?n "2 ^ k"] by auto
    have "ra_size p * ?n = (ra_cur_seg p1 * 2 ^ k + c) * ?n" using I(3) c by (simp add: algebra_simps)
    then have size: "ra_size p = ra_cur_seg p1 * 2 ^ k + c" using n by simp
    have at_size: "ra_size p div 2 ^ k = ra_cur_seg p1" "ra_size p mod 2 ^ k = c" using size c_less by simp_all
    have mod: "(i mod 2 ^ k) * ?n + ?n \<le> 2 ^ k * ?n"
    proof -
      have "Suc (i mod 2 ^ k) * ?n \<le> 2 ^ k * ?n" by (intro mult_right_mono) (simp_all add: Suc_leI)
      then show ?thesis by simp
    qed
    have old: "i div 2 ^ k < length (ra_segments p)" if "i < ra_size p" for i
    proof -
      have J: "ra_size p * ?n = ra_cur_seg p * (2 ^ k * ?n) + ra_cur_pos p" "ra_cur_pos p \<le> 2 ^ k * ?n" using inv by (simp_all add: ra_invar_def)
      then have "ra_size p * ?n \<le> ((ra_cur_seg p + 1) * 2 ^ k) * ?n" by (simp add: algebra_simps)
      then have "i < (ra_cur_seg p + 1) * 2 ^ k" using that n mult_le_cancel2 by (metis order_less_le_trans)
      then have "i div 2 ^ k < ra_cur_seg p + 1" by (simp add: div_less_iff_less_mult)
      moreover have "ra_segments p \<noteq> []"
      proof
        assume "ra_segments p = []"
        then have "ra_cur_seg p = 0" "ra_cur_pos p = 0" using inv by (simp_all add: ra_invar_def)
        then show False using J(1) that n by simp
      qed
      ultimately show ?thesis using inv by (auto simp: ra_invar_def)
    qed
    have le: "i div 2 ^ k \<le> ra_cur_seg p1" using div_le_mono [OF i] at_size by metis
    show ?thesis
    proof (cases "i div 2 ^ k = ra_cur_seg p1")
      case True
      have "i = ra_size p \<longleftrightarrow> c = i mod 2 ^ k" using True at_size by (metis div_mult_mod_eq)
      moreover have "ra_segments p1 ! ra_cur_seg p1 = ra_segments p ! ra_cur_seg p1" if "i \<noteq> ra_size p"
        using old [of i] i that True S by simp
      ultimately show ?thesis
        using slice_update [where v = v and n = ?n and i = c and j = "i mod 2 ^ k" and s = "ra_segments p1 ! ra_cur_seg p1"] v c_less mod len pos c seg True S
        by (auto simp: ra_load_def ra_at_eq n' segments)
    next
      case False
      then have lt: "i div 2 ^ k < ra_cur_seg p1" using le by simp
      then have "i \<noteq> ra_size p" using at_size by auto
      moreover have "i div 2 ^ k < length (ra_segments p)" using old i \<open>i \<noteq> ra_size p\<close> by simp
      ultimately show ?thesis using S False by (simp add: ra_load_def ra_at_eq n' segments)
    qed
  qed
  show "ra_load p' (ra_at k p' (ra_size p)) = v" using read [of "ra_size p"] by simp
  show "i < ra_size p \<Longrightarrow> ra_load p' (ra_at k p' i) = ra_load p (ra_at k p i)" using read [of i] by simp
qed

section \<open>The set refines a list of distinct arrays\<close>

definition rs_list :: "nat \<Rightarrow> 'b ra_set \<Rightarrow> 'b list list" where
  "rs_list k S = map (rs_at k S) [0..<ra_size (rs_pool S)]"

definition rs_invar :: "nat \<Rightarrow> nat \<Rightarrow> 'b ra_set \<Rightarrow> bool" where
  "rs_invar k n S \<longleftrightarrow> ra_invar k (rs_pool S) \<and> ra_array_size (rs_pool S) = n \<and> rs_indices S = [0..<ra_size (rs_pool S)] \<and> distinct (rs_list k S)
     \<and> (\<forall>v \<in> set (rs_list k S). length v = n)"

text \<open>Inserting into a list of distinct values.\<close>

definition list_insert :: "'v \<Rightarrow> 'v list \<Rightarrow> nat \<times> 'v list" where
  "list_insert v vs = (case find (\<lambda>i. vs ! i = v) [0..<length vs] of Some i \<Rightarrow> (i, vs) | None \<Rightarrow> (length vs, vs @ [v]))"

lemma find_index:
  "find P [0..<n] = Some i \<Longrightarrow> i < n \<and> P i" "find P [0..<n] = None \<longleftrightarrow> (\<forall>i < n. \<not> P i)"
  by (auto simp: find_Some_iff find_None_iff)

lemma list_insert_spec:
  assumes "distinct vs" "list_insert v vs = (i, vs')"
  shows "distinct vs'" "i < length vs'" "vs' ! i = v" "set vs' = insert v (set vs)" "length vs \<le> length vs'"
    "\<And>j. j < length vs \<Longrightarrow> vs' ! j = vs ! j"
  using assms find_index [of "\<lambda>i. vs ! i = v" "length vs"]
  by (auto simp: list_insert_def nth_append in_set_conv_nth split: option.splits)

lemma rs_insert_refines:
  assumes "rs_invar k n S" "length v = n"
  shows "case rs_insert k v S of (i, S') \<Rightarrow> rs_invar k n S' \<and> list_insert v (rs_list k S) = (i, rs_list k S')"
proof -
  let ?p = "rs_pool S"
  have inv: "ra_invar k ?p" "ra_array_size ?p = n" "rs_indices S = [0..<ra_size ?p]" "distinct (rs_list k S)" "\<forall>v \<in> set (rs_list k S). length v = n"
    using assms(1) by (simp_all add: rs_invar_def)
  have len: "length (rs_list k S) = ra_size ?p" by (simp add: rs_list_def)
  have find: "rs_find k S v = find (\<lambda>i. rs_list k S ! i = v) [0..<length (rs_list k S)]"
    unfolding rs_find_def inv(3) len by (rule find_cong) (auto simp: rs_list_def)
  show ?thesis
  proof (cases "rs_find k S v")
    case None
    obtain loc q where q: "ra_allocate ?p = (loc, q)" by (cases "ra_allocate ?p")
    define p' where "p' = ra_store loc v q"
    note A = ra_allocate_store [OF inv(1) _ q, of v, folded p'_def, unfolded inv(2), OF assms(2)]
    define S' where "S' = \<lparr>rs_pool = p', rs_indices = rs_indices S @ [ra_size ?p]\<rparr>"
    have ins: "rs_insert k v S = (ra_size ?p, S')" using None q by (simp add: rs_insert_def S'_def p'_def Let_def)
    have list: "rs_list k S' = rs_list k S @ [v]"
      using A(3-5) by (simp add: rs_list_def rs_at_def S'_def)
    have new: "v \<notin> set (rs_list k S)" using None unfolding find find_index(2) by (auto simp: in_set_conv_nth)
    have "rs_invar k n S'" using A inv list new assms(2) by (auto simp: rs_invar_def S'_def)
    then show ?thesis using None find list len by (simp add: ins list_insert_def)
  next
    case (Some i)
    then show ?thesis using assms(1) find by (simp add: rs_insert_def list_insert_def)
  qed
qed

lemma rs_init_invar: "rs_invar k n (rs_init k n)" "rs_list k (rs_init k n) = []"
  by (simp_all add: rs_invar_def rs_init_def ra_init_def ra_invar_def rs_list_def)

end
