(* ===== verification/Ground_States.thy ===== *)
theory Ground_States
  imports Rule_Conditions
begin

text \<open>
  States of ground tasks and what is evaluated in them: \<^verbatim>\<open>planning/ground_task/unpacked_state.hpp\<close> with
  \<^verbatim>\<open>src/planning/ground_task/state.cpp\<close>, and the functions of \<^verbatim>\<open>planning/applicability.ipp\<close> for ground expressions, conditions,
  effects and actions. Doubles with their arithmetic are an argument: every theorem holds for any arithmetic. A numeric variable
  that has no value is NaN. Atoms, variables and function terms are their indices.
\<close>

section \<open>Unpacked states\<close>

text \<open>\<^verbatim>\<open>tyr::get\<close> and \<^verbatim>\<open>tyr::set\<close> of a vector with a default, and \<^verbatim>\<open>std::vector::resize\<close>.\<close>

definition vec_resize :: "nat \<Rightarrow> 'a \<Rightarrow> 'a list \<Rightarrow> 'a list" where
  "vec_resize n x xs = take n xs @ replicate (n - length xs) x"

definition vec_get :: "nat \<Rightarrow> 'a list \<Rightarrow> 'a \<Rightarrow> 'a" where
  "vec_get i xs d = (if i \<ge> length xs then d else xs ! i)"

definition vec_set :: "nat \<Rightarrow> 'a \<Rightarrow> 'a list \<Rightarrow> 'a \<Rightarrow> 'a list" where
  "vec_set i x xs d = (if i \<ge> length xs then vec_resize (i + 1) d xs else xs)[i := x]"

record 'n unpacked_state =
  us_index :: nat
  us_facts :: "nat list"
  us_atoms :: "bool list"
  us_numeric :: "'n list"

definition us_get_fact :: "nat \<Rightarrow> 'n unpacked_state \<Rightarrow> nat" where
  "us_get_fact x u = us_facts u ! x"

definition us_set_fact :: "nat \<times> nat \<Rightarrow> 'n unpacked_state \<Rightarrow> 'n unpacked_state" where
  "us_set_fact f u = u\<lparr>us_facts := (us_facts u)[fst f := snd f]\<rparr>"

definition us_test :: "nat \<Rightarrow> 'n unpacked_state \<Rightarrow> bool" where
  "us_test a u = us_atoms u ! a"

definition us_set_atom :: "nat \<Rightarrow> 'n unpacked_state \<Rightarrow> 'n unpacked_state" where
  "us_set_atom a u = u\<lparr>us_atoms := (us_atoms u)[a := True]\<rparr>"

definition us_clear :: "'n unpacked_state \<Rightarrow> 'n unpacked_state" where
  "us_clear u = u\<lparr>us_facts := [], us_numeric := [], us_atoms := []\<rparr>"

definition us_assign_unextended_part :: "'n unpacked_state \<Rightarrow> 'n unpacked_state \<Rightarrow> 'n unpacked_state" where
  "us_assign_unextended_part other u = u\<lparr>us_facts := us_facts other, us_numeric := us_numeric other\<rparr>"

definition us_resize_fluent_facts :: "nat \<Rightarrow> 'n unpacked_state \<Rightarrow> 'n unpacked_state" where
  "us_resize_fluent_facts n u = u\<lparr>us_facts := vec_resize n 0 (us_facts u)\<rparr>"

definition us_resize_derived_atoms :: "nat \<Rightarrow> 'n unpacked_state \<Rightarrow> 'n unpacked_state" where
  "us_resize_derived_atoms n u = u\<lparr>us_atoms := vec_resize n False (us_atoms u)\<rparr>"

section \<open>Expressions\<close>

text \<open>Arithmetic on doubles.\<close>

record 'n arithmetic =
  ar_nan :: 'n
  ar_isnan :: "'n \<Rightarrow> bool"
  ar_negate :: "'n \<Rightarrow> 'n"
  ar_apply :: "arith_op \<Rightarrow> 'n \<Rightarrow> 'n \<Rightarrow> 'n"
  ar_compare :: "compare_op \<Rightarrow> 'n \<Rightarrow> 'n \<Rightarrow> bool"
  ar_zero :: 'n
  ar_one :: 'n
  ar_canonicalize :: "'n \<Rightarrow> 'n"

definition us_get_numeric :: "'n arithmetic \<Rightarrow> nat \<Rightarrow> 'n unpacked_state \<Rightarrow> 'n" where
  "us_get_numeric A t u = vec_get t (us_numeric u) (ar_nan A)"

definition us_set_numeric :: "'n arithmetic \<Rightarrow> nat \<Rightarrow> 'n \<Rightarrow> 'n unpacked_state \<Rightarrow> 'n unpacked_state" where
  "us_set_numeric A t v u = u\<lparr>us_numeric := vec_set t v (us_numeric u) (ar_nan A)\<rparr>"

datatype 'n gexpr =
    GNumber 'n
  | GStatic nat
  | GFluent nat
  | GAuxiliary
  | GMinus "'n gexpr"
  | GBinary arith_op "'n gexpr" "'n gexpr"
  | GMulti arith_op "'n gexpr" "'n gexpr list"

datatype 'n gconstraint = GCompare compare_op "'n gexpr" "'n gexpr"

text \<open>What the task says of static atoms and static function terms, the state, and the auxiliary value, which is the cost so far.\<close>

record 'n state_context =
  sc_static :: "nat \<Rightarrow> bool"
  sc_values :: "nat \<Rightarrow> 'n"
  sc_state :: "'n unpacked_state"
  sc_auxiliary :: 'n

text \<open>An operator with several arguments always multiplies.\<close>

fun gevaluate :: "'n arithmetic \<Rightarrow> 'n state_context \<Rightarrow> 'n gexpr \<Rightarrow> 'n" where
  "gevaluate A sc (GNumber v) = v"
| "gevaluate A sc (GStatic t) = sc_values sc t"
| "gevaluate A sc (GFluent t) = us_get_numeric A t (sc_state sc)"
| "gevaluate A sc GAuxiliary = sc_auxiliary sc"
| "gevaluate A sc (GMinus e) = ar_negate A (gevaluate A sc e)"
| "gevaluate A sc (GBinary op lhs rhs) = ar_apply A op (gevaluate A sc lhs) (gevaluate A sc rhs)"
| "gevaluate A sc (GMulti op e es) = fold (\<lambda>v acc. ar_apply A Op_Mul acc v) (map (gevaluate A sc) es) (gevaluate A sc e)"

fun gholds :: "'n arithmetic \<Rightarrow> 'n state_context \<Rightarrow> 'n gconstraint \<Rightarrow> bool" where
  "gholds A sc (GCompare op lhs rhs) = ar_compare A op (gevaluate A sc lhs) (gevaluate A sc rhs)"

section \<open>Conditions\<close>

record 'n gcondition =
  gc_static :: "(nat \<times> bool) list"
  gc_positive :: "(nat \<times> nat) list"
  gc_negative :: "(nat \<times> nat) list"
  gc_derived :: "(nat \<times> bool) list"
  gc_numeric :: "'n gconstraint list"

definition static_holds :: "'n state_context \<Rightarrow> nat \<times> bool \<Rightarrow> bool" where
  "static_holds sc l \<longleftrightarrow> sc_static sc (fst l) = snd l"

definition derived_holds :: "'n state_context \<Rightarrow> nat \<times> bool \<Rightarrow> bool" where
  "derived_holds sc l \<longleftrightarrow> us_test (fst l) (sc_state sc) = snd l"

definition fact_holds :: "bool \<Rightarrow> 'n state_context \<Rightarrow> nat \<times> nat \<Rightarrow> bool" where
  "fact_holds polarity sc f \<longleftrightarrow> (us_get_fact (fst f) (sc_state sc) = snd f) = polarity"

definition dynamically_applicable :: "'n arithmetic \<Rightarrow> 'n state_context \<Rightarrow> 'n gcondition \<Rightarrow> bool" where
  "dynamically_applicable A sc c \<longleftrightarrow> list_all (fact_holds True sc) (gc_positive c) \<and> list_all (fact_holds False sc) (gc_negative c)
     \<and> list_all (derived_holds sc) (gc_derived c) \<and> list_all (gholds A sc) (gc_numeric c)"

definition condition_applicable :: "'n arithmetic \<Rightarrow> 'n state_context \<Rightarrow> 'n gcondition \<Rightarrow> bool" where
  "condition_applicable A sc c \<longleftrightarrow> list_all (static_holds sc) (gc_static c) \<and> list_all (fact_holds True sc) (gc_positive c)
     \<and> list_all (fact_holds False sc) (gc_negative c) \<and> list_all (derived_holds sc) (gc_derived c) \<and> list_all (gholds A sc) (gc_numeric c)"

text \<open>A condition is consistent when no variable has two values, none that a negative fact excludes, and no atom both polarities.\<close>

type_synonym fluent_assign = "nat \<Rightarrow> nat option"

type_synonym derived_assign = "nat \<Rightarrow> bool option"

fun consistent_positive :: "(nat \<times> nat) list \<Rightarrow> fluent_assign \<Rightarrow> bool \<times> fluent_assign" where
  "consistent_positive [] fa = (True, fa)"
| "consistent_positive ((x, v) # fs) fa =
     (case fa x of Some w \<Rightarrow> if w \<noteq> v then (False, fa) else consistent_positive fs fa | None \<Rightarrow> consistent_positive fs (fa(x \<mapsto> v)))"

fun consistent_negative :: "(nat \<times> nat) list \<Rightarrow> fluent_assign \<Rightarrow> bool" where
  "consistent_negative [] fa = True"
| "consistent_negative ((x, v) # fs) fa = (case fa x of Some w \<Rightarrow> if w = v then False else consistent_negative fs fa | None \<Rightarrow> consistent_negative fs fa)"

fun consistent_derived :: "(nat \<times> bool) list \<Rightarrow> derived_assign \<Rightarrow> bool \<times> derived_assign" where
  "consistent_derived [] da = (True, da)"
| "consistent_derived ((a, p) # ls) da =
     (case da a of Some q \<Rightarrow> if q \<noteq> p then (False, da) else consistent_derived ls da | None \<Rightarrow> consistent_derived ls (da(a \<mapsto> p)))"

definition condition_consistent :: "'n gcondition \<Rightarrow> fluent_assign \<Rightarrow> derived_assign \<Rightarrow> bool \<times> fluent_assign \<times> derived_assign" where
  "condition_consistent c fa da =
     (let (ok, fa) = consistent_positive (gc_positive c) fa
      in if \<not> ok then (False, fa, da)
         else if \<not> consistent_negative (gc_negative c) fa then (False, fa, da)
         else let (ok, da) = consistent_derived (gc_derived c) da in (ok, fa, da))"

definition is_consistent :: "'n gcondition \<Rightarrow> bool" where
  "is_consistent c = fst (condition_consistent c (\<lambda>x. None) (\<lambda>a. None))"

section \<open>Effects\<close>

datatype effect_op = Eff_Assign | Eff_Increase | Eff_Decrease | Eff_Scale_Up | Eff_Scale_Down

datatype effect_family = Fam_None | Fam_Assign | Fam_Increase_Decrease | Fam_Scale

fun family_of :: "effect_op \<Rightarrow> effect_family" where
  "family_of Eff_Assign = Fam_Assign"
| "family_of Eff_Increase = Fam_Increase_Decrease"
| "family_of Eff_Decrease = Fam_Increase_Decrease"
| "family_of Eff_Scale_Up = Fam_Scale"
| "family_of Eff_Scale_Down = Fam_Scale"

definition is_compatible_effect_family :: "effect_family \<Rightarrow> effect_family \<Rightarrow> bool" where
  "is_compatible_effect_family lhs rhs = (if lhs = Fam_None \<or> rhs = Fam_None then True else if lhs = rhs then lhs \<noteq> Fam_Assign else False)"

fun apply_effect :: "'n arithmetic \<Rightarrow> effect_op \<Rightarrow> 'n \<Rightarrow> 'n \<Rightarrow> 'n" where
  "apply_effect A Eff_Assign lhs rhs = rhs"
| "apply_effect A Eff_Increase lhs rhs = ar_apply A Op_Add lhs rhs"
| "apply_effect A Eff_Decrease lhs rhs = ar_apply A Op_Sub lhs rhs"
| "apply_effect A Eff_Scale_Up lhs rhs = ar_apply A Op_Mul lhs rhs"
| "apply_effect A Eff_Scale_Down lhs rhs = ar_apply A Op_Div lhs rhs"

record 'n numeric_effect =
  ne_op :: effect_op
  ne_term :: nat
  ne_expr :: "'n gexpr"

text \<open>An effect; the auxiliary effect increases the cost by an expression.\<close>

record 'n geffect =
  ge_delete :: "(nat \<times> nat) list"
  ge_add :: "(nat \<times> nat) list"
  ge_numeric :: "'n numeric_effect list"
  ge_auxiliary :: "'n gexpr option"

record 'n conditional_effect =
  ce_condition :: "'n gcondition"
  ce_effect :: "'n geffect"

record 'n gaction =
  ga_condition :: "'n gcondition"
  ga_effects :: "'n conditional_effect list"

record 'n gaxiom =
  gx_body :: "'n gcondition"
  gx_head :: nat

definition evaluate_effect :: "'n arithmetic \<Rightarrow> 'n state_context \<Rightarrow> 'n numeric_effect \<Rightarrow> 'n" where
  "evaluate_effect A sc e = apply_effect A (ne_op e) (us_get_numeric A (ne_term e) (sc_state sc)) (gevaluate A sc (ne_expr e))"

definition evaluate_auxiliary :: "'n arithmetic \<Rightarrow> 'n state_context \<Rightarrow> 'n gexpr \<Rightarrow> 'n" where
  "evaluate_auxiliary A sc e = apply_effect A Eff_Increase (sc_auxiliary sc) (gevaluate A sc e)"

type_synonym families = "effect_family list"

definition numeric_effect_applicable :: "'n arithmetic \<Rightarrow> 'n state_context \<Rightarrow> 'n numeric_effect \<Rightarrow> families \<Rightarrow> bool \<times> families" where
  "numeric_effect_applicable A sc e fams =
     (let t = ne_term e; fams = vec_resize (t + 1) Fam_None fams
      in if \<not> is_compatible_effect_family (family_of (ne_op e)) (fams ! t) then (False, fams)
         else let fams = fams[t := family_of (ne_op e)]
           in if ne_op e \<noteq> Eff_Assign \<and> ar_isnan A (us_get_numeric A t (sc_state sc)) then (False, fams)
              else (\<not> ar_isnan A (gevaluate A sc (ne_expr e)), fams))"

text \<open>\<^verbatim>\<open>std::all_of\<close> with a predicate that changes a state stops at the first failure.\<close>

fun all_of :: "('a \<Rightarrow> 's \<Rightarrow> bool \<times> 's) \<Rightarrow> 'a list \<Rightarrow> 's \<Rightarrow> bool \<times> 's" where
  "all_of p [] s = (True, s)"
| "all_of p (x # xs) s = (case p x s of (ok, s) \<Rightarrow> if ok then all_of p xs s else (False, s))"

definition effect_applicable :: "'n arithmetic \<Rightarrow> 'n state_context \<Rightarrow> 'n geffect \<Rightarrow> families \<Rightarrow> bool \<times> families" where
  "effect_applicable A sc e fams =
     (let (ok, fams) = all_of (numeric_effect_applicable A sc) (ge_numeric e) fams
      in (ok \<and> (case ge_auxiliary e of None \<Rightarrow> True | Some x \<Rightarrow> \<not> ar_isnan A (gevaluate A sc x)), fams))"

definition applicable_if_fires :: "'n arithmetic \<Rightarrow> 'n state_context \<Rightarrow> 'n conditional_effect \<Rightarrow> families \<Rightarrow> bool \<times> families" where
  "applicable_if_fires A sc ce fams =
     (if \<not> condition_applicable A sc (ce_condition ce) then (True, fams) else effect_applicable A sc (ce_effect ce) fams)"

definition effects_applicable :: "'n arithmetic \<Rightarrow> 'n state_context \<Rightarrow> 'n conditional_effect list \<Rightarrow> bool" where
  "effects_applicable A sc ces = fst (all_of (applicable_if_fires A sc) ces [])"

definition action_applicable :: "'n arithmetic \<Rightarrow> 'n state_context \<Rightarrow> 'n gaction \<Rightarrow> bool" where
  "action_applicable A sc a \<longleftrightarrow> condition_applicable A sc (ga_condition a) \<and> effects_applicable A sc (ga_effects a)"

definition axiom_applicable :: "'n arithmetic \<Rightarrow> 'n state_context \<Rightarrow> 'n gaxiom \<Rightarrow> bool" where
  "axiom_applicable A sc x \<longleftrightarrow> condition_applicable A sc (gx_body x)"

section \<open>Consistent conditions\<close>

lemma map_le_extend:
  assumes "m x = None" "map_le (m(x \<mapsto> v)) m'"
  shows "map_le m m' \<and> m' x = Some v"
proof
  have at: "(m(x \<mapsto> v)) y = Some w \<Longrightarrow> m' y = Some w" for y w using assms(2) unfolding map_le_def by (metis domI)
  show "m' x = Some v" using at by simp
  show "map_le m m'" unfolding map_le_def
  proof
    fix y assume "y \<in> dom m"
    then obtain w where w: "m y = Some w" by auto
    then have "y \<noteq> x" using assms(1) by auto
    then show "m y = m' y" using at w by simp
  qed
qed

lemma consistent_positive_spec:
  "fst (consistent_positive fs fa) \<Longrightarrow> map_le fa (snd (consistent_positive fs fa)) \<and> (\<forall>f \<in> set fs. snd (consistent_positive fs fa) (fst f) = Some (snd f))"
proof (induction fs arbitrary: fa)
  case (Cons f fs)
  obtain x v where f: "f = (x, v)" by (cases f)
  show ?case
  proof (cases "fa x")
    case None
    then have eq: "consistent_positive ((x, v) # fs) fa = consistent_positive fs (fa(x \<mapsto> v))" by (simp add: f)
    note IH = Cons.IH [OF Cons.prems [unfolded f eq]]
    show ?thesis using IH map_le_extend [where m = fa and x = x and v = v, OF None conjunct1 [OF IH]] unfolding f eq list.set ball_simps fst_conv snd_conv by blast
  next
    case (Some w)
    then show ?thesis using Cons by (auto simp: f map_le_def dom_def split: if_splits)
  qed
qed simp

lemma consistent_derived_spec:
  "fst (consistent_derived ls da) \<Longrightarrow> map_le da (snd (consistent_derived ls da)) \<and> (\<forall>l \<in> set ls. snd (consistent_derived ls da) (fst l) = Some (snd l))"
proof (induction ls arbitrary: da)
  case (Cons l ls)
  obtain a p where l: "l = (a, p)" by (cases l)
  show ?case
  proof (cases "da a")
    case None
    then have eq: "consistent_derived ((a, p) # ls) da = consistent_derived ls (da(a \<mapsto> p))" by (simp add: l)
    note IH = Cons.IH [OF Cons.prems [unfolded l eq]]
    show ?thesis using IH map_le_extend [where m = da and x = a and v = p, OF None conjunct1 [OF IH]] unfolding l eq list.set ball_simps fst_conv snd_conv by blast
  next
    case (Some q)
    then show ?thesis using Cons by (auto simp: l map_le_def dom_def split: if_splits)
  qed
qed simp

lemma is_consistent_unique:
  assumes "is_consistent c"
  shows "(x, v) \<in> set (gc_positive c) \<Longrightarrow> (x, w) \<in> set (gc_positive c) \<Longrightarrow> v = w"
    and "(a, p) \<in> set (gc_derived c) \<Longrightarrow> (a, q) \<in> set (gc_derived c) \<Longrightarrow> p = q"
proof -
  have "fst (consistent_positive (gc_positive c) (\<lambda>x. None))" "fst (consistent_derived (gc_derived c) (\<lambda>a. None))"
    using assms by (auto simp: is_consistent_def condition_consistent_def split: prod.splits if_splits)
  then have "\<forall>f \<in> set (gc_positive c). snd (consistent_positive (gc_positive c) (\<lambda>x. None)) (fst f) = Some (snd f)"
    "\<forall>l \<in> set (gc_derived c). snd (consistent_derived (gc_derived c) (\<lambda>a. None)) (fst l) = Some (snd l)"
    using consistent_positive_spec consistent_derived_spec by blast+
  then show "(x, v) \<in> set (gc_positive c) \<Longrightarrow> (x, w) \<in> set (gc_positive c) \<Longrightarrow> v = w"
    "(a, p) \<in> set (gc_derived c) \<Longrightarrow> (a, q) \<in> set (gc_derived c) \<Longrightarrow> p = q" by (metis fst_conv snd_conv option.inject)+
qed

section \<open>What goes wrong\<close>

text \<open>A sum of three arguments is evaluated as their product.\<close>

lemma multi_operator_multiplies: "gevaluate A sc (GMulti Op_Add e es) = gevaluate A sc (GMulti Op_Mul e es)"
  by simp

text \<open>Resizing to the index of a term forgets the families of the terms above it: a second assignment to a term is rejected, but
  not with an effect on a lower term between the two.\<close>

definition assignment :: "nat \<Rightarrow> 'n \<Rightarrow> 'n numeric_effect" where
  "assignment t v = \<lparr>ne_op = Eff_Assign, ne_term = t, ne_expr = GNumber v\<rparr>"

lemma effect_families_forgotten:
  assumes "\<not> ar_isnan A v"
  shows "\<not> fst (all_of (numeric_effect_applicable A sc) [assignment 1 v, assignment 1 v] [])"
    and "fst (all_of (numeric_effect_applicable A sc) [assignment 1 v, assignment 0 v, assignment 1 v] [])"
  using assms by (simp_all add: numeric_effect_applicable_def assignment_def vec_resize_def is_compatible_effect_family_def numeral_2_eq_2)

end
