(* ===== verification/State_Storage.thy ===== *)
theory State_Storage
  imports Bits Raw_Arrays Ground_States
begin

text \<open>
  The storage of ground states in hash sets, \<^verbatim>\<open>src/planning/ground_task/state_storage/hash_set\<close> and
  \<^verbatim>\<open>src/planning/state_storage/hash_set/numeric.cpp\<close>. The values of the variables are packed integers of as many bits as the
  domain needs, in blocks of 32 bits; derived atoms are single bits; numeric values are rounded and kept as vectors. The pool of
  vectors is the list of its vectors. The same layout serves the tree compression, whose packing is the same code.
\<close>

section \<open>Layout\<close>

type_synonym block = "32 word"

record variable_info =
  vi_begin :: nat
  vi_offset :: nat
  vi_length :: nat

record layout_data =
  ly_infos :: "variable_info list"
  ly_array_size :: nat
  ly_num_bits :: nat
  ly_derived_size :: nat

text \<open>A variable with \<open>n\<close> atoms has one more value, for none of them.\<close>

fun layout_infos :: "block \<Rightarrow> nat list \<Rightarrow> variable_info list \<times> block" where
  "layout_infos cur [] = ([], cur)"
| "layout_infos cur (n # ns) =
     (let domain_size = word_of_nat (n + 1); len = bits_needed domain_size;
          info = \<lparr>vi_begin = unat (cur div 32), vi_offset = take_bit 8 (unat (cur mod 32)), vi_length = take_bit 8 (unat len)\<rparr>;
          (infos, cur) = layout_infos (cur + len) ns
      in (info # infos, cur))"

definition compute_layout_data :: "nat list \<Rightarrow> nat \<Rightarrow> layout_data" where
  "compute_layout_data atoms num_derived =
     (let (infos, cur) = layout_infos 0 atoms; num_bits = word_of_nat num_derived :: block
      in \<lparr>ly_infos = infos, ly_array_size = unat (ceil_div cur 32), ly_num_bits = unat num_bits, ly_derived_size = unat (ceil_div num_bits 32)\<rparr>)"

section \<open>Facts\<close>

definition info_reference :: "variable_info \<Rightarrow> int_reference" where
  "info_reference info = \<lparr>ir_word = vi_begin info, ir_offset = vi_offset info, ir_len = vi_length info\<rparr>"

fun store_values :: "variable_info list \<Rightarrow> nat \<Rightarrow> nat list \<Rightarrow> block list \<Rightarrow> block list result" where
  "store_values [] i vals data = Inr data"
| "store_values (info # infos) i vals data =
     (case int_assign forwarding_encode data (info_reference info) (word_of_nat (vals ! i)) of
        Inl e \<Rightarrow> Inl e
      | Inr data \<Rightarrow> store_values infos (i + 1) vals data)"

definition pack_facts :: "layout_data \<Rightarrow> nat list \<Rightarrow> block list result" where
  "pack_facts L vals = store_values (ly_infos L) 0 vals (replicate (ly_array_size L) 0)"

definition unpack_facts :: "layout_data \<Rightarrow> block list \<Rightarrow> nat list" where
  "unpack_facts L data = map (\<lambda>info. unat (int_value forwarding_decode data (info_reference info))) (ly_infos L)"

definition facts_insert :: "layout_data \<Rightarrow> nat list \<Rightarrow> block ra_set \<Rightarrow> (nat \<times> block ra_set) result" where
  "facts_insert L vals S = (case pack_facts L vals of Inl e \<Rightarrow> Inl e | Inr data \<Rightarrow> Inr (rs_insert 10 data S))"

definition facts_unpack :: "layout_data \<Rightarrow> block ra_set \<Rightarrow> nat \<Rightarrow> nat list" where
  "facts_unpack L S i = unpack_facts L (rs_at 10 S i)"

section \<open>Atoms\<close>

definition pack_atoms :: "layout_data \<Rightarrow> bool list \<Rightarrow> block list" where
  "pack_atoms L atoms = fold (\<lambda>i data. bitref_assign data i (atoms ! i)) [0..<ly_num_bits L] (replicate (ly_derived_size L) 0)"

definition unpack_atoms :: "layout_data \<Rightarrow> block list \<Rightarrow> bool list" where
  "unpack_atoms L data = map (bitref_value data) [0..<ly_num_bits L]"

definition atoms_insert :: "layout_data \<Rightarrow> bool list \<Rightarrow> block ra_set \<Rightarrow> nat \<times> block ra_set" where
  "atoms_insert L atoms S = rs_insert 10 (pack_atoms L atoms) S"

definition atoms_unpack :: "layout_data \<Rightarrow> block ra_set \<Rightarrow> nat \<Rightarrow> bool list" where
  "atoms_unpack L S i = unpack_atoms L (rs_at 10 S i)"

section \<open>Numeric values\<close>

text \<open>Vectors are compared by the equality of doubles, an argument: it is not reflexive.\<close>

definition vector_insert :: "('n \<Rightarrow> 'n \<Rightarrow> bool) \<Rightarrow> 'n list \<Rightarrow> 'n list list \<Rightarrow> nat \<times> 'n list list" where
  "vector_insert same v vs = (case find (\<lambda>i. list_all2 same v (vs ! i)) [0..<length vs] of Some i \<Rightarrow> (i, vs) | None \<Rightarrow> (length vs, vs @ [v]))"

definition numeric_insert :: "'n arithmetic \<Rightarrow> ('n \<Rightarrow> 'n \<Rightarrow> bool) \<Rightarrow> 'n list \<Rightarrow> 'n list list \<Rightarrow> nat \<times> 'n list list" where
  "numeric_insert A same vals vs = vector_insert same (map (ar_canonicalize A) vals) vs"

definition numeric_unpack :: "'n list list \<Rightarrow> nat \<Rightarrow> 'n list" where
  "numeric_unpack vs i = vs ! i"

section \<open>The layout separates the variables\<close>

abbreviation domain_word :: "nat \<Rightarrow> block" where
  "domain_word n \<equiv> word_of_nat (n + 1)"

definition variable_bits :: "nat \<Rightarrow> nat" where
  "variable_bits n = unat (bits_needed (domain_word n))"

definition layout_fits :: "nat list \<Rightarrow> nat \<Rightarrow> bool" where
  "layout_fits atoms num_derived \<longleftrightarrow> (\<forall>n \<in> set atoms. n + 1 < 2 ^ 32) \<and> sum_list (map variable_bits atoms) + 32 \<le> 2 ^ 32 \<and> num_derived + 32 \<le> 2 ^ 32"

lemma variable_bits_le: "variable_bits n \<le> 32"
proof -
  have "bit_width (unat (domain_word n - 1)) \<le> 32" using unsigned_less [of "word_of_nat n :: block"] by (simp add: bit_width_le_iff)
  then show ?thesis by (auto simp: variable_bits_def bits_needed_def unat_of_nat take_bit_nat_eq_self_iff less_le_trans)
qed

lemma variable_bits_fit:
  assumes "n + 1 < 2 ^ 32" "v \<le> n"
  shows "unat (word_of_nat v :: block) = v" "v < 2 ^ variable_bits n"
proof -
  have n: "unat (domain_word n) = n + 1" unfolding unat_of_nat using assms(1) by (simp add: take_bit_nat_eq_self_iff)
  show "unat (word_of_nat v :: block) = v" using assms by (simp add: unat_of_nat take_bit_nat_eq_self_iff)
  show "v < 2 ^ variable_bits n"
  proof (cases "n = 0")
    case False
    then have ne: "\<not> domain_word n \<le> 1" using n by (auto simp: word_le_nat_alt)
    have "unat (domain_word n - 1) = n" using n unat_minus_one [of "domain_word n"] ne by (metis add_diff_cancel_right' unat_0 word_zero_le)
    then have "variable_bits n = unat (word_of_nat (bit_width n) :: block)" using ne by (simp add: variable_bits_def bits_needed_def)
    also have "\<dots> = bit_width n"
    proof -
      have "bit_width n \<le> 32" using assms(1) by (simp add: bit_width_le_iff)
      then show ?thesis by (simp add: unat_of_nat take_bit_nat_eq_self_iff)
    qed
    finally show ?thesis using less_two_power_bit_width [of n] assms(2) by simp
  qed (use assms in \<open>simp add: variable_bits_def bits_needed_def\<close>)
qed


lemma word_div_mod_32:
  "unat (cur div 32 :: block) = unat cur div 32" "unat (cur mod 32 :: block) = unat cur mod 32"
  by (simp_all add: unat_div_distrib unat_mod_distrib)

lemma take_8_small: "n \<le> 32 \<Longrightarrow> take_bit 8 n = (n :: nat)"
  by (simp add: take_bit_nat_eq_self_iff)

text \<open>Each variable has its own range of bits, one after the other.\<close>

lemma layout_infos_spec:
  assumes "unat cur + sum_list (map variable_bits ns) < 2 ^ 32"
  shows "length (fst (layout_infos cur ns)) = length ns \<and> unat (snd (layout_infos cur ns)) = unat cur + sum_list (map variable_bits ns)
    \<and> (\<forall>i < length ns. let r = info_reference (fst (layout_infos cur ns) ! i) in
         ir_offset r < 32 \<and> ir_len r = variable_bits (ns ! i) \<and> ref_start 32 r = unat cur + sum_list (map variable_bits (take i ns)))"
  using assms
proof (induction ns arbitrary: cur)
  case (Cons n ns)
  let ?len = "bits_needed (domain_word n)"
  have add: "unat (cur + ?len) = unat cur + variable_bits n"
    using Cons.prems unat_word_ariths(1) [of cur ?len] by (simp add: variable_bits_def)
  have fits: "unat (cur + ?len) + sum_list (map variable_bits ns) < 2 ^ 32" using Cons.prems add by simp
  obtain infos cur' where r: "layout_infos (cur + ?len) ns = (infos, cur')" by force
  define info where "info = \<lparr>vi_begin = unat (cur div 32), vi_offset = take_bit 8 (unat (cur mod 32)), vi_length = take_bit 8 (unat ?len)\<rparr>"
  have eq: "layout_infos cur (n # ns) = (info # infos, cur')" using r by (simp add: info_def Let_def)
  have "unat cur mod 32 \<le> 32" "variable_bits n \<le> 32" using variable_bits_le by simp_all
  then have first: "ir_offset (info_reference info) < 32" "ir_len (info_reference info) = variable_bits n" "ref_start 32 (info_reference info) = unat cur"
    unfolding info_reference_def info_def variable_bits_def [symmetric] by (simp_all add: word_div_mod_32 take_8_small ref_start_def)
  note IH = Cons.IH [OF fits, unfolded r fst_conv snd_conv add]
  have "let r = info_reference ((info # infos) ! i) in ir_offset r < 32 \<and> ir_len r = variable_bits ((n # ns) ! i)
      \<and> ref_start 32 r = unat cur + sum_list (map variable_bits (take i (n # ns)))" if "i < length (n # ns)" for i
    using first IH that by (cases i) (simp_all add: Let_def add.assoc)
  then show ?case unfolding eq fst_conv snd_conv using IH by (simp add: Let_def)
qed simp

definition reference_in :: "block list \<Rightarrow> int_reference \<Rightarrow> bool" where
  "reference_in data r \<longleftrightarrow> ir_offset r < 32 \<and> ir_len r \<le> 32 \<and> ref_start 32 r + ir_len r \<le> length data * 32"

definition before :: "int_reference \<Rightarrow> int_reference \<Rightarrow> bool" where
  "before r r' \<longleftrightarrow> ref_start 32 r + ir_len r \<le> ref_start 32 r'"

lemma power_32: "is_power_of_two LENGTH(32)"
  unfolding is_power_of_two_def has_single_bit_power by (rule exI [of _ 5]) simp

lemma reference_in_valid: "reference_in data r \<longleftrightarrow> valid_ref data r"
  by (simp add: reference_in_def valid_ref_def)

lemma layout_references:
  assumes "layout_fits atoms num_derived" "compute_layout_data atoms num_derived = L"
  shows "length (ly_infos L) = length atoms" "ly_num_bits L = num_derived" "num_derived \<le> ly_derived_size L * 32"
    and "i < length atoms \<Longrightarrow> ir_len (info_reference (ly_infos L ! i)) = variable_bits (atoms ! i)"
    and "i < length atoms \<Longrightarrow> length data = ly_array_size L \<Longrightarrow> reference_in data (info_reference (ly_infos L ! i))"
    and "sorted_wrt (\<lambda>x y. before (info_reference x) (info_reference y)) (ly_infos L)"
proof -
  let ?total = "sum_list (map variable_bits atoms)"
  obtain infos cur where r: "layout_infos 0 atoms = (infos, cur)" by force
  have fits: "unat (0 :: block) + ?total < 2 ^ 32" using assms(1) by (simp add: layout_fits_def)
  note S = layout_infos_spec [OF fits, unfolded r fst_conv snd_conv unat_0 add_0]
  have L: "ly_infos L = infos" "ly_array_size L = unat (ceil_div cur 32)" "ly_num_bits L = unat (word_of_nat num_derived :: block)"
    "ly_derived_size L = unat (ceil_div (word_of_nat num_derived :: block) 32)"
    using assms(2) r by (auto simp: compute_layout_data_def Let_def)
  have ceil: "unat w \<le> unat (ceil_div w (32 :: block)) * 32" if "unat w + 32 \<le> 2 ^ 32" for w :: block
  proof -
    have "unat (31 + w) = unat w + 31" using that unat_word_ariths(1) [of 31 w] by simp
    then have "unat (ceil_div w 32) = (unat w + 31) div 32" by (simp add: ceil_div_def unat_div_distrib)
    then show ?thesis by simp
  qed
  have bits: "unat (word_of_nat num_derived :: block) = num_derived" using assms(1) by (simp add: layout_fits_def unat_of_nat take_bit_nat_eq_self_iff)
  show "length (ly_infos L) = length atoms" using S L by simp
  show "ly_num_bits L = num_derived" using L bits by simp
  show "num_derived \<le> ly_derived_size L * 32" using ceil [of "word_of_nat num_derived"] bits assms(1) L by (simp add: layout_fits_def)
  show len: "ir_len (info_reference (ly_infos L ! i)) = variable_bits (atoms ! i)" if "i < length atoms" for i using S L that by (simp add: Let_def)
  have start: "ref_start 32 (info_reference (ly_infos L ! i)) = sum_list (map variable_bits (take i atoms))" if "i < length atoms" for i
    using S L that by (simp add: Let_def)
  have next_start: "sum_list (map variable_bits (take i atoms)) + variable_bits (atoms ! i) \<le> sum_list (map variable_bits (take j atoms))" if "i < j" "j \<le> length atoms" for i j
  proof -
    have "take j atoms = take (Suc i) atoms @ take (j - Suc i) (drop (Suc i) atoms)" using that take_add [of "Suc i" "j - Suc i" atoms] by simp
    moreover have "take (Suc i) atoms = take i atoms @ [atoms ! i]" using that by (simp add: take_Suc_conv_app_nth)
    ultimately show ?thesis by simp
  qed
  show "reference_in data (info_reference (ly_infos L ! i))" if "i < length atoms" "length data = ly_array_size L" for i
  proof -
    have "ref_start 32 (info_reference (ly_infos L ! i)) + variable_bits (atoms ! i) \<le> ?total" using next_start [of i "length atoms"] start that by simp
    also have "?total = unat cur" using S by simp
    also have "\<dots> \<le> ly_array_size L * 32" using ceil [of cur] S assms(1) L by (simp add: layout_fits_def)
    finally show ?thesis using that len [OF that(1)] variable_bits_le S L by (simp add: reference_in_def Let_def)
  qed
  show "sorted_wrt (\<lambda>x y. before (info_reference x) (info_reference y)) (ly_infos L)"
    unfolding sorted_wrt_iff_nth_less before_def using next_start start len S L by (auto simp: Let_def)
qed

section \<open>Packing and unpacking\<close>

lemma store_values_spec:
  assumes "sorted_wrt (\<lambda>x y. before (info_reference x) (info_reference y)) infos" "\<forall>x \<in> set infos. reference_in data (info_reference x)"
    and "\<forall>j < length infos. unat (word_of_nat (vals ! (i + j)) :: block) < 2 ^ ir_len (info_reference (infos ! j))"
  shows "\<exists>data'. store_values infos i vals data = Inr data' \<and> length data' = length data
    \<and> (\<forall>j < length infos. int_value forwarding_decode data' (info_reference (infos ! j)) = word_of_nat (vals ! (i + j)))
    \<and> (\<forall>r. reference_in data r \<longrightarrow> (\<forall>x \<in> set infos. before r (info_reference x)) \<longrightarrow> int_value forwarding_decode data' r = int_value forwarding_decode data r)"
  using assms
proof (induction infos arbitrary: i data)
  case (Cons info infos)
  let ?r = "info_reference info" and ?v = "word_of_nat (vals ! i) :: block"
  have valid: "valid_ref data ?r" using Cons.prems(2) reference_in_valid by simp
  have fit: "int_ensure_fits ?r ?v" using Cons.prems(3) valid by (auto simp: int_ensure_fits_iff valid_ref_def take_bit_word_iff)
  define data1 where "data1 = write_int data (ir_word ?r) ?v (ir_offset ?r) (ir_len ?r)"
  have len: "length data1 = length data" by (simp add: data1_def)
  then have ref: "reference_in data1 r = reference_in data r" for r by (simp add: reference_in_def)
  have step: "int_assign forwarding_encode data ?r ?v = Inr data1" using fit by (simp add: int_assign_def forwarding_encode_def data1_def)
  have own: "int_value forwarding_decode data1 ?r = ?v"
    unfolding data1_def using int_value_assign_same [OF power_32 valid fit, of forwarding_decode] by (simp only: forwarding_decode_def)
  have other: "int_value forwarding_decode data1 r = int_value forwarding_decode data r" if "reference_in data r" "before r ?r" for r
    using int_value_assign_disjoint [OF power_32 valid, of r forwarding_decode ?v] that unfolding reference_in_valid before_def data1_def by simp
  have prems: "sorted_wrt (\<lambda>x y. before (info_reference x) (info_reference y)) infos" "\<forall>x \<in> set infos. reference_in data1 (info_reference x)"
    "\<forall>j < length infos. unat (word_of_nat (vals ! (i + 1 + j)) :: block) < 2 ^ ir_len (info_reference (infos ! j))"
    using Cons.prems unfolding ref by auto
  from Cons.IH [OF prems] obtain data' where
    d: "store_values infos (i + 1) vals data1 = Inr data'" "length data' = length data1"
      "\<forall>j < length infos. int_value forwarding_decode data' (info_reference (infos ! j)) = word_of_nat (vals ! (i + 1 + j))"
      "\<forall>r. reference_in data1 r \<longrightarrow> (\<forall>x \<in> set infos. before r (info_reference x)) \<longrightarrow> int_value forwarding_decode data' r = int_value forwarding_decode data1 r" by blast
  have "int_value forwarding_decode data' ?r = ?v" using d(4) own Cons.prems(1,2) unfolding ref by simp
  then have "\<forall>j < length (info # infos). int_value forwarding_decode data' (info_reference ((info # infos) ! j)) = word_of_nat (vals ! (i + j))"
    using d(3) by (auto simp: nth_Cons split: nat.split)
  moreover have "\<forall>r. reference_in data r \<longrightarrow> (\<forall>x \<in> set (info # infos). before r (info_reference x)) \<longrightarrow> int_value forwarding_decode data' r = int_value forwarding_decode data r"
    using d(4) other unfolding ref by simp
  ultimately show ?case using step d(1,2) len by simp
qed simp

text \<open>The values that a state may have: one for each variable, in its domain.\<close>

definition values_in_domain :: "nat list \<Rightarrow> nat list \<Rightarrow> bool" where
  "values_in_domain atoms vals \<longleftrightarrow> length vals = length atoms \<and> (\<forall>i < length atoms. vals ! i \<le> atoms ! i)"

lemma facts_roundtrip:
  assumes "layout_fits atoms num_derived" "compute_layout_data atoms num_derived = L" "values_in_domain atoms vals"
  shows "\<exists>data. pack_facts L vals = Inr data \<and> length data = ly_array_size L \<and> unpack_facts L data = vals"
proof -
  note R = layout_references [OF assms(1,2)]
  let ?data = "replicate (ly_array_size L) (0 :: block)"
  have v: "unat (word_of_nat (vals ! i) :: block) = vals ! i" "vals ! i < 2 ^ variable_bits (atoms ! i)" if "i < length atoms" for i
    using variable_bits_fit [of "atoms ! i" "vals ! i"] assms(1,3) that by (auto simp: layout_fits_def values_in_domain_def)
  have "\<forall>x \<in> set (ly_infos L). reference_in ?data (info_reference x)" using R(1,5) by (auto simp: in_set_conv_nth)
  moreover have "\<forall>j < length (ly_infos L). unat (word_of_nat (vals ! (0 + j)) :: block) < 2 ^ ir_len (info_reference (ly_infos L ! j))"
    using R(1,4) v by simp
  ultimately obtain data where d: "pack_facts L vals = Inr data" "length data = ly_array_size L"
    "\<forall>j < length (ly_infos L). int_value forwarding_decode data (info_reference (ly_infos L ! j)) = word_of_nat (vals ! j)"
    using store_values_spec [OF R(6), of ?data vals 0] by (auto simp: pack_facts_def)
  have "unpack_facts L data = vals"
    by (rule nth_equalityI) (use d(3) R(1) v assms(3) in \<open>simp_all add: unpack_facts_def values_in_domain_def\<close>)
  then show ?thesis using d(1,2) by blast
qed

lemma store_bits:
  assumes "n \<le> length data * 32"
  shows "length (fold (\<lambda>i data. bitref_assign data i (f i)) [0..<n] data) = length (data :: block list)
    \<and> (\<forall>i < n. bitref_value (fold (\<lambda>i data. bitref_assign data i (f i)) [0..<n] data) i = f i)"
  using assms
proof (induction n)
  case (Suc n)
  let ?d = "fold (\<lambda>i data. bitref_assign data i (f i)) [0..<n] data"
  have len: "length ?d = length data" using Suc by simp
  have "bitref_value (bitref_assign ?d n (f n)) i = (if i = n then f n else bitref_value ?d i)" if "i \<le> n" for i
    using that Suc.prems len by (simp add: bitref_value_mem_bit mem_bit_bitref_assign)
  then show ?case using Suc len by (auto simp: less_Suc_eq)
qed simp

lemma atoms_roundtrip:
  assumes "layout_fits atoms num_derived" "compute_layout_data atoms num_derived = L" "length bits = num_derived"
  shows "length (pack_atoms L bits) = ly_derived_size L" "unpack_atoms L (pack_atoms L bits) = bits"
proof -
  note R = layout_references [OF assms(1,2)]
  have S: "length (pack_atoms L bits) = ly_derived_size L \<and> (\<forall>i < ly_num_bits L. bitref_value (pack_atoms L bits) i = bits ! i)"
    using store_bits [of num_derived "replicate (ly_derived_size L) 0" "\<lambda>i. bits ! i"] R(2,3) by (simp add: pack_atoms_def)
  then show "length (pack_atoms L bits) = ly_derived_size L" by simp
  show "unpack_atoms L (pack_atoms L bits) = bits" by (rule nth_equalityI) (use S R(2) assms(3) in \<open>simp_all add: unpack_atoms_def\<close>)
qed

section \<open>Stores\<close>

text \<open>
  The interface of a store that a repository relies on: inserting a legal value gives the index of an equivalent value that is
  already there, or a new index where the value is found, and keeps the values of the other indices.
\<close>

locale index_store =
  fixes put :: "'v \<Rightarrow> 's \<Rightarrow> nat \<times> 's" and fetch :: "'s \<Rightarrow> nat \<Rightarrow> 'v" and count :: "'s \<Rightarrow> nat" and
    invar :: "'s \<Rightarrow> bool" and legal :: "'v \<Rightarrow> bool" and eqv :: "'v \<Rightarrow> 'v \<Rightarrow> bool"
  assumes put_ok: "invar s \<Longrightarrow> legal v \<Longrightarrow> put v s = (i, s') \<Longrightarrow> invar s' \<and> i < count s' \<and> (if i < count s then eqv v (fetch s i) else fetch s' i = v)"
    and put_keeps: "invar s \<Longrightarrow> legal v \<Longrightarrow> put v s = (i, s') \<Longrightarrow> count s \<le> count s' \<and> (\<forall>j < count s. fetch s' j = fetch s j)"
    and put_known: "invar s \<Longrightarrow> legal v \<Longrightarrow> j < count s \<Longrightarrow> eqv v (fetch s j) \<Longrightarrow> put v s = (j, s)"
begin

text \<open>An old index is the index of an equivalent value, and there is at most one.\<close>

lemma put_old_index: "invar s \<Longrightarrow> legal v \<Longrightarrow> put v s = (i, s') \<Longrightarrow> j < count s \<Longrightarrow> i = j \<longleftrightarrow> eqv v (fetch s j)"
  using put_ok put_known by (metis fst_conv)

lemma put_stored: "invar s \<Longrightarrow> legal v \<Longrightarrow> put v s = (i, s') \<Longrightarrow> fetch s' i = v \<or> eqv v (fetch s' i)"
  using put_ok put_keeps by metis

end

definition facts_put :: "nat list \<Rightarrow> nat \<Rightarrow> nat list \<Rightarrow> block ra_set \<Rightarrow> nat \<times> block ra_set" where
  "facts_put atoms num_derived vals S = projr (facts_insert (compute_layout_data atoms num_derived) vals S)"

definition facts_invar :: "nat list \<Rightarrow> nat \<Rightarrow> block ra_set \<Rightarrow> bool" where
  "facts_invar atoms num_derived S \<longleftrightarrow> layout_fits atoms num_derived \<and> rs_invar 10 (ly_array_size (compute_layout_data atoms num_derived)) S
     \<and> (\<forall>data \<in> set (rs_list 10 S). \<exists>vals. values_in_domain atoms vals \<and> pack_facts (compute_layout_data atoms num_derived) vals = Inr data)"

definition atoms_invar :: "nat list \<Rightarrow> nat \<Rightarrow> block ra_set \<Rightarrow> bool" where
  "atoms_invar atoms num_derived S \<longleftrightarrow> layout_fits atoms num_derived \<and> rs_invar 10 (ly_derived_size (compute_layout_data atoms num_derived)) S
     \<and> (\<forall>data \<in> set (rs_list 10 S). \<exists>bits. length bits = num_derived \<and> pack_atoms (compute_layout_data atoms num_derived) bits = data)"

definition set_count :: "'b ra_set \<Rightarrow> nat" where
  "set_count S = ra_size (rs_pool S)"

lemma rs_list_nth: "i < set_count S \<Longrightarrow> rs_list k S ! i = rs_at k S i" "length (rs_list k S) = set_count S"
  by (simp_all add: rs_list_def set_count_def)

text \<open>A store of packed values in a set of arrays.\<close>

lemma packed_store:
  fixes pack :: "'v \<Rightarrow> block list" and unpack :: "block list \<Rightarrow> 'v"
  assumes roundtrip: "\<And>v. legal v \<Longrightarrow> length (pack v) = n \<and> unpack (pack v) = v"
    and invar: "rs_invar 10 n S" "\<forall>data \<in> set (rs_list 10 S). \<exists>w. legal w \<and> pack w = data" and v: "legal v"
  shows "case rs_insert 10 (pack v) S of (i, S') \<Rightarrow> rs_invar 10 n S' \<and> (\<forall>data \<in> set (rs_list 10 S'). \<exists>w. legal w \<and> pack w = data)
      \<and> i < set_count S' \<and> v = unpack (rs_at 10 S' i) \<and> set_count S \<le> set_count S' \<and> (\<forall>j < set_count S. rs_at 10 S' j = rs_at 10 S j)"
    and "j < set_count S \<Longrightarrow> v = unpack (rs_at 10 S j) \<Longrightarrow> rs_insert 10 (pack v) S = (j, S)"
proof -
  obtain i S' where r: "rs_insert 10 (pack v) S = (i, S')" by force
  have len: "length (pack v) = n" using roundtrip v by blast
  have R: "rs_invar 10 n S'" "list_insert (pack v) (rs_list 10 S) = (i, rs_list 10 S')"
    using rs_insert_refines [OF invar(1) len] by (simp_all add: r)
  have dist: "distinct (rs_list 10 S)" using invar(1) by (simp add: rs_invar_def)
  note L = list_insert_spec [OF dist R(2), unfolded rs_list_nth(2)]
  have keep: "\<forall>j < set_count S. rs_at 10 S' j = rs_at 10 S j" using L(5,6) rs_list_nth(1) by (metis order_less_le_trans)
  have "v = unpack (rs_at 10 S' i)" using L(2,3) roundtrip [OF v] rs_list_nth(1) by metis
  then show "case rs_insert 10 (pack v) S of (i, S') \<Rightarrow> rs_invar 10 n S' \<and> (\<forall>data \<in> set (rs_list 10 S'). \<exists>w. legal w \<and> pack w = data)
      \<and> i < set_count S' \<and> v = unpack (rs_at 10 S' i) \<and> set_count S \<le> set_count S' \<and> (\<forall>j < set_count S. rs_at 10 S' j = rs_at 10 S j)"
    unfolding r prod.case using R(1) L keep invar(2) v by auto
  show "rs_insert 10 (pack v) S = (j, S)" if j: "j < set_count S" "v = unpack (rs_at 10 S j)"
  proof -
    have at: "rs_list 10 S ! j = rs_at 10 S j" "j < length (rs_list 10 S)" using j rs_list_nth by metis+
    then obtain w where "legal w" "pack w = rs_at 10 S j" using invar(2) nth_mem by metis
    then have pv: "rs_list 10 S ! j = pack v" using roundtrip j(2) at by metis
    have uniq: "k = j" if "k < length (rs_list 10 S)" "rs_list 10 S ! k = pack v" for k
      using nth_eq_iff_index_eq [OF dist that(1) at(2)] that(2) pv by simp
    have find: "find (\<lambda>k. rs_list 10 S ! k = pack v) [0..<length (rs_list 10 S)] = Some j"
      using find_index [of "\<lambda>k. rs_list 10 S ! k = pack v" "length (rs_list 10 S)"] uniq pv at(2) by (metis not_None_eq)
    have "rs_find 10 S (pack v) = find (\<lambda>k. rs_list 10 S ! k = pack v) [0..<length (rs_list 10 S)]"
      unfolding rs_find_def using invar(1) by (intro find_cong) (auto simp: rs_invar_def rs_list_def)
    then show ?thesis using find by (simp add: rs_insert_def)
  qed
qed

interpretation facts: index_store "facts_put atoms num_derived" "facts_unpack (compute_layout_data atoms num_derived)" set_count
    "facts_invar atoms num_derived" "values_in_domain atoms" "(=)" for atoms num_derived
proof -
  let ?L = "compute_layout_data atoms num_derived"
  let ?pack = "\<lambda>vals. projr (pack_facts ?L vals)"
  have rt: "pack_facts ?L v = Inr (?pack v) \<and> length (?pack v) = ly_array_size ?L \<and> unpack_facts ?L (?pack v) = v"
    if "layout_fits atoms num_derived" "values_in_domain atoms v" for v
    using facts_roundtrip [OF that(1) refl that(2)] by auto
  have put: "facts_put atoms num_derived v S = rs_insert 10 (?pack v) S" if "layout_fits atoms num_derived" "values_in_domain atoms v" for v S
    using rt [OF that] by (auto simp: facts_put_def facts_insert_def split: sum.splits)
  have inv: "facts_invar atoms num_derived S \<longleftrightarrow> layout_fits atoms num_derived \<and> rs_invar 10 (ly_array_size ?L) S
      \<and> (\<forall>data \<in> set (rs_list 10 S). \<exists>w. values_in_domain atoms w \<and> ?pack w = data)" for S
    unfolding facts_invar_def using rt by (metis sum.sel(2))
  note store = packed_store [where legal = "values_in_domain atoms" and pack = ?pack and unpack = "unpack_facts ?L" and n = "ly_array_size ?L"]
  show "index_store (facts_put atoms num_derived) (facts_unpack ?L) set_count (facts_invar atoms num_derived) (values_in_domain atoms) (=)"
  proof
    fix S v i S' assume S: "facts_invar atoms num_derived S" and v: "values_in_domain atoms v" and p: "facts_put atoms num_derived v S = (i, S')"
    have fits: "layout_fits atoms num_derived" using S inv by blast
    note s = store(1) [of S v, OF _ _ _ v, unfolded put [OF fits v, symmetric] p prod.case]
    show "facts_invar atoms num_derived S' \<and> i < set_count S' \<and> (if i < set_count S then v = facts_unpack ?L S i else facts_unpack ?L S' i = v)"
      using s rt [OF fits] S unfolding inv facts_unpack_def by metis
    show "set_count S \<le> set_count S' \<and> (\<forall>j < set_count S. facts_unpack ?L S' j = facts_unpack ?L S j)"
      using s rt [OF fits] S unfolding inv facts_unpack_def by auto
  next
    fix S v j assume S: "facts_invar atoms num_derived S" and v: "values_in_domain atoms v" and j: "j < set_count S" "v = facts_unpack ?L S j"
    have fits: "layout_fits atoms num_derived" using S inv by blast
    show "facts_put atoms num_derived v S = (j, S)"
      unfolding put [OF fits v] using store(2) [of S v j, OF _ _ _ v j(1)] rt [OF fits] S j(2) unfolding inv facts_unpack_def by blast
  qed
qed

interpretation atoms: index_store "atoms_insert (compute_layout_data atoms num_derived)" "atoms_unpack (compute_layout_data atoms num_derived)" set_count
    "atoms_invar atoms num_derived" "\<lambda>bits. length bits = num_derived" "(=)" for atoms num_derived
proof -
  let ?L = "compute_layout_data atoms num_derived"
  have rt: "length (pack_atoms ?L v) = ly_derived_size ?L \<and> unpack_atoms ?L (pack_atoms ?L v) = v"
    if "layout_fits atoms num_derived" "length v = num_derived" for v
    using atoms_roundtrip [OF that(1) refl that(2)] by blast
  note store = packed_store [where legal = "\<lambda>bits. length bits = num_derived" and pack = "pack_atoms ?L" and unpack = "unpack_atoms ?L" and n = "ly_derived_size ?L"]
  show "index_store (atoms_insert ?L) (atoms_unpack ?L) set_count (atoms_invar atoms num_derived) (\<lambda>bits. length bits = num_derived) (=)"
  proof
    fix S v i S' assume S: "atoms_invar atoms num_derived S" and v: "length v = num_derived" and p: "atoms_insert ?L v S = (i, S')"
    have fits: "layout_fits atoms num_derived" using S by (simp add: atoms_invar_def)
    note s = store(1) [of S v, OF _ _ _ v, folded atoms_insert_def, unfolded p prod.case]
    show "atoms_invar atoms num_derived S' \<and> i < set_count S' \<and> (if i < set_count S then v = atoms_unpack ?L S i else atoms_unpack ?L S' i = v)"
      using s rt [OF fits] S unfolding atoms_invar_def atoms_unpack_def by metis
    show "set_count S \<le> set_count S' \<and> (\<forall>j < set_count S. atoms_unpack ?L S' j = atoms_unpack ?L S j)"
      using s rt [OF fits] S unfolding atoms_invar_def atoms_unpack_def by auto
  next
    fix S v j assume S: "atoms_invar atoms num_derived S" and v: "length v = num_derived" and j: "j < set_count S" "v = atoms_unpack ?L S j"
    have fits: "layout_fits atoms num_derived" using S by (simp add: atoms_invar_def)
    show "atoms_insert ?L v S = (j, S)"
      using store(2) [of S v j, OF _ _ _ v j(1)] rt [OF fits] S j(2) unfolding atoms_invar_def atoms_unpack_def atoms_insert_def by blast
  qed
qed

text \<open>Vectors are told apart up to the equality of doubles.\<close>

definition vectors_invar :: "('n \<Rightarrow> 'n \<Rightarrow> bool) \<Rightarrow> 'n list list \<Rightarrow> bool" where
  "vectors_invar same vs \<longleftrightarrow> symp same \<and> transp same \<and> (\<forall>i < length vs. \<forall>j < length vs. list_all2 same (vs ! i) (vs ! j) \<longrightarrow> i = j)"

lemma list_all2_sym: "symp same \<Longrightarrow> list_all2 same v w \<Longrightarrow> list_all2 same w v"
  by (auto simp: list_all2_conv_all_nth dest: sympD)

lemma list_all2_transp: "transp same \<Longrightarrow> list_all2 same u v \<Longrightarrow> list_all2 same v w \<Longrightarrow> list_all2 same u w"
  by (rule list_all2_trans [of same same same]) (blast dest: transpD)

lemma vector_insert_cases:
  obtains i where "vector_insert same v vs = (i, vs)" "i < length vs" "list_all2 same v (vs ! i)"
  | "vector_insert same v vs = (length vs, vs @ [v])" "\<forall>i < length vs. \<not> list_all2 same v (vs ! i)"
proof (cases "find (\<lambda>i. list_all2 same v (vs ! i)) [0..<length vs]")
  case None
  then have "\<forall>i < length vs. \<not> list_all2 same v (vs ! i)" unfolding find_index(2) .
  then show thesis using that(2) None by (simp add: vector_insert_def)
next
  case (Some i)
  then show thesis using that(1) [of i] find_index(1) [OF Some] by (simp add: vector_insert_def)
qed

interpretation vectors: index_store "vector_insert same" "(!)" length "vectors_invar same" "\<lambda>v. True" "list_all2 same" for same
proof
  fix vs v i vs' assume vs: "vectors_invar same vs" and p: "vector_insert same v vs = (i, vs')"
  show "vectors_invar same vs' \<and> i < length vs' \<and> (if i < length vs then list_all2 same v (vs ! i) else vs' ! i = v)"
  proof (cases rule: vector_insert_cases [of same v vs])
    case 2
    have "\<not> list_all2 same (vs ! j) v" if "j < length vs" for j using 2(2) that list_all2_sym vs unfolding vectors_invar_def by blast
    then show ?thesis using 2 p vs by (auto simp: vectors_invar_def nth_append less_Suc_eq)
  qed (use p vs in auto)
  show "length vs \<le> length vs' \<and> (\<forall>j < length vs. vs' ! j = vs ! j)"
    using p by (cases rule: vector_insert_cases [of same v vs]) (auto simp: nth_append)
next
  fix vs v j assume vs: "vectors_invar same vs" and j: "j < length vs" "list_all2 same v (vs ! j)"
  show "vector_insert same v vs = (j, vs)"
  proof (cases rule: vector_insert_cases [of same v vs])
    case (1 i)
    then have "list_all2 same (vs ! i) (vs ! j)" using j vs list_all2_sym list_all2_transp unfolding vectors_invar_def by metis
    then show ?thesis using 1 j vs by (auto simp: vectors_invar_def)
  qed (use j in auto)
qed

text \<open>A vector with a value that equals nothing, not even itself, is never found again: every insertion stores it once more.\<close>

lemma nan_never_found:
  assumes "x \<in> set v" "\<And>y. \<not> same x y"
  shows "vector_insert same v vs = (length vs, vs @ [v])"
proof -
  have "\<not> list_all2 same v w" for w using assms by (auto simp: list_all2_conv_all_nth in_set_conv_nth)
  then show ?thesis by (cases rule: vector_insert_cases [of same v vs]) auto
qed

end
