(* ===== verification/Match_Tree.thy ===== *)
theory Match_Tree
  imports Ground_States "HOL-Library.AList" "HOL-Library.Multiset"
begin

text \<open>
  The match trees of \<^verbatim>\<open>src/planning/ground_task/match_tree.cpp\<close>: an index over the conditions of ground actions or axioms. Each inner
  node asks for a derived atom, a variable, a negative fact or a numeric constraint; the leaves list elements. The tree is built by
  an iterative depth-first search over a stack of entries, and generation walks the tree with another stack. A node of the
  repository is the tree below it; the order in which a hash map is enumerated is an argument.
\<close>

section \<open>Preconditions\<close>

datatype 'n precondition = Pre_Atom nat | Pre_Variable nat | Pre_Negative "nat \<times> nat" | Pre_Constraint "'n gconstraint"

datatype detail = Det_Unit | Det_Polarity bool | Det_Value nat

type_synonym 'n occurrences = "('n precondition \<times> nat list) list"

type_synonym 'n details = "nat \<Rightarrow> 'n precondition \<Rightarrow> detail option"

definition condition_preconditions :: "'n gcondition \<Rightarrow> ('n precondition \<times> detail) list" where
  "condition_preconditions c = map (\<lambda>f. (Pre_Variable (fst f), Det_Value (snd f))) (gc_positive c) @ map (\<lambda>f. (Pre_Negative f, Det_Unit)) (gc_negative c)
     @ map (\<lambda>l. (Pre_Atom (fst l), Det_Polarity (snd l))) (gc_derived c) @ map (\<lambda>k. (Pre_Constraint k, Det_Unit)) (gc_numeric c)"

definition note_precondition :: "nat \<Rightarrow> 'n precondition \<times> detail \<Rightarrow> 'n occurrences \<times> 'n details \<Rightarrow> 'n occurrences \<times> 'n details" where
  "note_precondition e kd od = (case (kd, od) of ((key, d), (occ, det)) \<Rightarrow>
     (AList.update key ((case map_of occ key of None \<Rightarrow> [] | Some es \<Rightarrow> es) @ [e]) occ, det(e := (det e)(key \<mapsto> d))))"

definition collect_preconditions :: "(nat \<Rightarrow> 'n gcondition) \<Rightarrow> nat list \<Rightarrow> 'n occurrences \<times> 'n details" where
  "collect_preconditions conds elements =
     fold (\<lambda>e. fold (note_precondition e) (condition_preconditions (conds e))) elements ([], \<lambda>e key. None)"

text \<open>The most frequent preconditions come first.\<close>

definition sort_preconditions :: "('n occurrences \<Rightarrow> 'n occurrences) \<Rightarrow> 'n occurrences \<Rightarrow> 'n occurrences" where
  "sort_preconditions hash_order occ = sort_key (\<lambda>p. - int (length (snd p))) (hash_order occ)"

record 'n tree_input =
  ti_preconditions :: "'n occurrences"
  ti_details :: "'n details"
  ti_domain_size :: "nat \<Rightarrow> nat"

section \<open>Nodes and stack entries\<close>

datatype 'n tree =
    Atom_Selector nat "'n tree option" "'n tree option" "'n tree option"
  | Variable_Selector nat "'n tree option list" "'n tree option"
  | Negative_Selector "nat \<times> nat" "'n tree option" "'n tree option"
  | Constraint_Selector "'n gconstraint" "'n tree option" "'n tree option"
  | Element_Generator "nat list"

text \<open>An entry has its depth, the elements of its children and the children that are done.\<close>

datatype 'n stack_entry =
    Atom_Entry nat nat "nat list" "nat list" "nat list" "'n tree option" "'n tree option" "'n tree option"
  | Variable_Entry nat nat "nat list list" "nat list" "nat list" nat "'n tree option list" "'n tree option"
  | Negative_Entry nat "nat \<times> nat" "nat list" "nat list" "'n tree option" "'n tree option"
  | Constraint_Entry nat "'n gconstraint" "nat list" "nat list" "'n tree option" "'n tree option"
  | Generator_Entry "nat list"

definition sort_by :: "(nat \<Rightarrow> nat) \<Rightarrow> nat list \<Rightarrow> nat list" where
  "sort_by category es = sort_key category (sort es)"

definition atom_category :: "'n tree_input \<Rightarrow> nat \<Rightarrow> nat \<Rightarrow> nat" where
  "atom_category I a e = (case ti_details I e (Pre_Atom a) of Some (Det_Polarity p) \<Rightarrow> if p then 0 else 1 | _ \<Rightarrow> 2)"

definition variable_category :: "'n tree_input \<Rightarrow> nat \<Rightarrow> nat \<Rightarrow> nat" where
  "variable_category I x e = (case ti_details I e (Pre_Variable x) of Some (Det_Value v) \<Rightarrow> v | _ \<Rightarrow> ti_domain_size I x)"

definition has_category :: "'n tree_input \<Rightarrow> 'n precondition \<Rightarrow> nat \<Rightarrow> nat" where
  "has_category I p e = (if ti_details I e p = None then 1 else 0)"

text \<open>Each attempt sorts the elements, also when it creates no entry.\<close>

definition try_create_atom :: "'n tree_input \<Rightarrow> nat \<Rightarrow> nat \<Rightarrow> nat list \<Rightarrow> 'n stack_entry option \<times> nat list" where
  "try_create_atom I a d es =
     (let s = sort_by (atom_category I a) es;
          ts = takeWhile (\<lambda>e. atom_category I a e < 1) s;
          rest = dropWhile (\<lambda>e. atom_category I a e < 1) s;
          fs = takeWhile (\<lambda>e. atom_category I a e < 2) rest;
          ds = dropWhile (\<lambda>e. atom_category I a e < 2) rest
      in (if ts = [] \<and> fs = [] then None else Some (Atom_Entry d a ts fs ds None None None), s))"

fun split_children :: "(nat \<Rightarrow> nat) \<Rightarrow> nat list \<Rightarrow> nat list \<Rightarrow> nat list list \<times> nat list" where
  "split_children category [] es = ([], es)"
| "split_children category (i # vs) es =
     (case split_children category vs (dropWhile (\<lambda>e. category e \<le> i) es) of (cs, rest) \<Rightarrow> (takeWhile (\<lambda>e. category e \<le> i) es # cs, rest))"

definition try_create_variable :: "'n tree_input \<Rightarrow> nat \<Rightarrow> nat \<Rightarrow> nat list \<Rightarrow> 'n stack_entry option \<times> nat list" where
  "try_create_variable I x d es =
     (let n = ti_domain_size I x;
          s = sort_by (variable_category I x) es;
          (children, ds) = split_children (variable_category I x) [0..<n] s;
          forward = filter (\<lambda>i. children ! i \<noteq> []) [0..<n]
      in (if forward = [] then None else Some (Variable_Entry d x children forward ds 0 (replicate n None) None), s))"

definition try_create_negative :: "'n tree_input \<Rightarrow> nat \<times> nat \<Rightarrow> nat \<Rightarrow> nat list \<Rightarrow> 'n stack_entry option \<times> nat list" where
  "try_create_negative I f d es =
     (let s = sort_by (has_category I (Pre_Negative f)) es;
          ts = takeWhile (\<lambda>e. has_category I (Pre_Negative f) e < 1) s;
          ds = dropWhile (\<lambda>e. has_category I (Pre_Negative f) e < 1) s
      in (if ts = [] then None else Some (Negative_Entry d f ts ds None None), s))"

definition try_create_constraint :: "'n tree_input \<Rightarrow> 'n gconstraint \<Rightarrow> nat \<Rightarrow> nat list \<Rightarrow> 'n stack_entry option \<times> nat list" where
  "try_create_constraint I k d es =
     (let s = sort_by (has_category I (Pre_Constraint k)) es;
          ts = takeWhile (\<lambda>e. has_category I (Pre_Constraint k) e < 1) s;
          ds = dropWhile (\<lambda>e. has_category I (Pre_Constraint k) e < 1) s
      in (if ts = [] then None else Some (Constraint_Entry d k ts ds None None), s))"

definition try_create_selector :: "'n tree_input \<Rightarrow> 'n precondition \<Rightarrow> nat \<Rightarrow> nat list \<Rightarrow> 'n stack_entry option \<times> nat list" where
  "try_create_selector I p = (case p of Pre_Variable x \<Rightarrow> try_create_variable I x | Pre_Negative f \<Rightarrow> try_create_negative I f
     | Pre_Atom a \<Rightarrow> try_create_atom I a | Pre_Constraint k \<Rightarrow> try_create_constraint I k)"

function selector_loop :: "'n tree_input \<Rightarrow> nat \<Rightarrow> nat list \<Rightarrow> 'n stack_entry" where
  "selector_loop I d es =
     (if d < length (ti_preconditions I) then
        case try_create_selector I (fst (ti_preconditions I ! d)) d es of
          (Some en, es) \<Rightarrow> en
        | (None, es) \<Rightarrow> selector_loop I (d + 1) es
      else Generator_Entry es)"
  by pat_completeness auto
termination by (relation "measure (\<lambda>(I, d, es). length (ti_preconditions I) - d)") auto

declare selector_loop.simps [simp del]

definition try_create_stack_entry :: "'n tree_input \<Rightarrow> nat \<Rightarrow> nat list \<Rightarrow> 'n stack_entry option" where
  "try_create_stack_entry I d es = (if es \<noteq> [] then Some (selector_loop I d es) else None)"

section \<open>The depth-first search\<close>

datatype match_error = Unexpected_Case | Assertion_Failed

fun explored :: "'n stack_entry \<Rightarrow> bool" where
  "explored (Atom_Entry d a ts fs ds rt rf rd) \<longleftrightarrow> (ts = [] \<or> rt \<noteq> None) \<and> (fs = [] \<or> rf \<noteq> None) \<and> (ds = [] \<or> rd \<noteq> None)"
| "explored (Variable_Entry d x es fw ds k cs rd) \<longleftrightarrow> k = length fw \<and> (ds = [] \<or> rd \<noteq> None)"
| "explored (Negative_Entry d f ts ds rt rd) \<longleftrightarrow> (ts = [] \<or> rt \<noteq> None) \<and> (ds = [] \<or> rd \<noteq> None)"
| "explored (Constraint_Entry d c ts ds rt rd) \<longleftrightarrow> (ts = [] \<or> rt \<noteq> None) \<and> (ds = [] \<or> rd \<noteq> None)"
| "explored (Generator_Entry es) \<longleftrightarrow> True"

fun next_entry :: "'n tree_input \<Rightarrow> 'n stack_entry \<Rightarrow> match_error + 'n stack_entry option" where
  "next_entry I (Atom_Entry d a ts fs ds rt rf rd) =
     (if \<not> (ts = [] \<or> rt \<noteq> None) then Inr (try_create_stack_entry I (d + 1) ts)
      else if \<not> (fs = [] \<or> rf \<noteq> None) then Inr (try_create_stack_entry I (d + 1) fs)
      else if \<not> (ds = [] \<or> rd \<noteq> None) then Inr (try_create_stack_entry I (d + 1) ds)
      else Inl Unexpected_Case)"
| "next_entry I (Variable_Entry d x es fw ds k cs rd) =
     (if k \<noteq> length fw then Inr (try_create_stack_entry I (d + 1) (es ! (fw ! k)))
      else if \<not> (ds = [] \<or> rd \<noteq> None) then Inr (try_create_stack_entry I (d + 1) ds)
      else Inl Unexpected_Case)"
| "next_entry I (Negative_Entry d f ts ds rt rd) =
     (if \<not> (ts = [] \<or> rt \<noteq> None) then Inr (try_create_stack_entry I (d + 1) ts)
      else if \<not> (ds = [] \<or> rd \<noteq> None) then Inr (try_create_stack_entry I (d + 1) ds)
      else Inl Unexpected_Case)"
| "next_entry I (Constraint_Entry d c ts ds rt rd) =
     (if \<not> (ts = [] \<or> rt \<noteq> None) then Inr (try_create_stack_entry I (d + 1) ts)
      else if \<not> (ds = [] \<or> rd \<noteq> None) then Inr (try_create_stack_entry I (d + 1) ds)
      else Inl Unexpected_Case)"
| "next_entry I (Generator_Entry es) = Inr None"

fun push_result :: "'n stack_entry \<Rightarrow> 'n tree \<Rightarrow> match_error + 'n stack_entry" where
  "push_result (Atom_Entry d a ts fs ds rt rf rd) t =
     (if \<not> (ts = [] \<or> rt \<noteq> None) then Inr (Atom_Entry d a ts fs ds (Some t) rf rd)
      else if \<not> (fs = [] \<or> rf \<noteq> None) then Inr (Atom_Entry d a ts fs ds rt (Some t) rd)
      else if \<not> (ds = [] \<or> rd \<noteq> None) then Inr (Atom_Entry d a ts fs ds rt rf (Some t))
      else Inl Unexpected_Case)"
| "push_result (Variable_Entry d x es fw ds k cs rd) t =
     (if k \<noteq> length fw then Inr (Variable_Entry d x es fw ds (k + 1) (cs[fw ! k := Some t]) rd)
      else if \<not> (ds = [] \<or> rd \<noteq> None) then Inr (Variable_Entry d x es fw ds k cs (Some t))
      else Inl Unexpected_Case)"
| "push_result (Negative_Entry d f ts ds rt rd) t =
     (if \<not> (ts = [] \<or> rt \<noteq> None) then Inr (Negative_Entry d f ts ds (Some t) rd)
      else if \<not> (ds = [] \<or> rd \<noteq> None) then Inr (Negative_Entry d f ts ds rt (Some t))
      else Inl Unexpected_Case)"
| "push_result (Constraint_Entry d c ts ds rt rd) t =
     (if rt = None \<and> ts \<noteq> [] then Inr (Constraint_Entry d c ts ds (Some t) rd)
      else if rd = None \<and> ds \<noteq> [] then Inr (Constraint_Entry d c ts ds rt (Some t))
      else Inl Unexpected_Case)"
| "push_result (Generator_Entry es) t = Inl Unexpected_Case"

fun get_result :: "'n stack_entry \<Rightarrow> 'n tree" where
  "get_result (Atom_Entry d a ts fs ds rt rf rd) = Atom_Selector a rt rf rd"
| "get_result (Variable_Entry d x es fw ds k cs rd) = Variable_Selector x cs rd"
| "get_result (Negative_Entry d f ts ds rt rd) = Negative_Selector f rt rd"
| "get_result (Constraint_Entry d c ts ds rt rd) = Constraint_Selector c rt rd"
| "get_result (Generator_Entry es) = Element_Generator es"

text \<open>The top of the stack is the head of the list.\<close>

partial_function (option) tree_dfs :: "'n tree_input \<Rightarrow> 'n stack_entry list \<Rightarrow> (match_error + 'n tree option) option" where
  "tree_dfs I stack = (case stack of
     [] \<Rightarrow> Some (Inr None)
   | en # rest \<Rightarrow>
       if \<not> explored en then
         (case next_entry I en of
            Inl err \<Rightarrow> Some (Inl err)
          | Inr (Some n) \<Rightarrow> tree_dfs I (n # en # rest)
          | Inr None \<Rightarrow> Some (Inl Assertion_Failed))
       else (case rest of
            [] \<Rightarrow> Some (Inr (Some (get_result en)))
          | parent # ps \<Rightarrow> (case push_result parent (get_result en) of Inl err \<Rightarrow> Some (Inl err) | Inr parent \<Rightarrow> tree_dfs I (parent # ps))))"

definition make_tree_input :: "('n occurrences \<Rightarrow> 'n occurrences) \<Rightarrow> (nat \<Rightarrow> 'n gcondition) \<Rightarrow> (nat \<Rightarrow> nat) \<Rightarrow> nat list \<Rightarrow> 'n tree_input" where
  "make_tree_input hash_order conds domain_size elements = (case collect_preconditions conds elements of (occ, det) \<Rightarrow>
     \<lparr>ti_preconditions = sort_preconditions hash_order occ, ti_details = det, ti_domain_size = domain_size\<rparr>)"

definition match_tree :: "('n occurrences \<Rightarrow> 'n occurrences) \<Rightarrow> (nat \<Rightarrow> 'n gcondition) \<Rightarrow> (nat \<Rightarrow> nat) \<Rightarrow> nat list \<Rightarrow> (match_error + 'n tree option) option" where
  "match_tree hash_order conds domain_size elements =
     (let I = make_tree_input hash_order conds domain_size elements
      in case try_create_stack_entry I 0 elements of None \<Rightarrow> Some (Inr None) | Some en \<Rightarrow> tree_dfs I [en])"

section \<open>Generation\<close>

definition option_list :: "'a option \<Rightarrow> 'a list" where
  "option_list r = (case r of None \<Rightarrow> [] | Some x \<Rightarrow> [x])"

text \<open>The nodes that are pushed for a node, the last one first. A variable has a value of its domain.\<close>

fun pushed_nodes :: "'n arithmetic \<Rightarrow> 'n state_context \<Rightarrow> 'n tree \<Rightarrow> 'n tree list" where
  "pushed_nodes A sc (Atom_Selector a rt rf rd) = option_list rd @ option_list (if us_test a (sc_state sc) then rt else rf)"
| "pushed_nodes A sc (Constraint_Selector c rt rd) = option_list rd @ (if gholds A sc c then option_list rt else [])"
| "pushed_nodes A sc (Variable_Selector x cs rd) = option_list rd @ option_list (vec_get (us_get_fact x (sc_state sc)) cs None)"
| "pushed_nodes A sc (Negative_Selector f rt rd) = option_list rd @ (if us_get_fact (fst f) (sc_state sc) \<noteq> snd f then option_list rt else [])"
| "pushed_nodes A sc (Element_Generator es) = []"

lemma option_list_simps [simp]: "option_list None = []" "option_list (Some x) = [x]"
  by (simp_all add: option_list_def)

lemma size_pushed: "s \<in> set (pushed_nodes A sc t) \<Longrightarrow> size s < size t"
proof -
  have opt: "s \<in> set (option_list r) \<Longrightarrow> size s < size_option size r" for r by (cases r) auto
  have lst: "s \<in> set (option_list (vec_get v cs None)) \<Longrightarrow> size s < size_list (size_option size) cs" for v cs
  proof -
    assume s: "s \<in> set (option_list (vec_get v cs None))"
    then have v: "v < length cs" "s \<in> set (option_list (cs ! v))" by (auto simp: vec_get_def split: if_splits)
    then show ?thesis using opt size_list_estimation' [of "cs ! v" cs "size_option size (cs ! v)" "size_option size"] by fastforce
  qed
  assume "s \<in> set (pushed_nodes A sc t)"
  then show ?thesis by (cases t) (auto dest!: opt lst split: if_splits)
qed

function generate_loop :: "'n arithmetic \<Rightarrow> 'n state_context \<Rightarrow> 'n tree list \<Rightarrow> nat list \<Rightarrow> nat list" where
  "generate_loop A sc [] out = out"
| "generate_loop A sc (t # stack) out = generate_loop A sc (pushed_nodes A sc t @ stack) (case t of Element_Generator es \<Rightarrow> out @ es | _ \<Rightarrow> out)"
  by pat_completeness auto

text \<open>Popping a node and pushing smaller ones ends.\<close>

termination
proof (relation "inv_image (mult (measure size)) (\<lambda>(A, sc, stack, out). mset stack)")
  show "wf (inv_image (mult (measure size)) (\<lambda>(A :: 'n arithmetic, sc :: 'n state_context, stack :: 'n tree list, out :: nat list). mset stack))"
    by (intro wf_inv_image wf_mult wf_measure)
next
  fix A :: "'n arithmetic" and sc t stack and out :: "nat list"
  have "(mset stack + mset (pushed_nodes A sc t), mset stack + {#t#}) \<in> mult (measure size)"
    by (rule one_step_implies_mult) (auto dest: size_pushed)
  then show "((A, sc, pushed_nodes A sc t @ stack, case t of Element_Generator es \<Rightarrow> out @ es | _ \<Rightarrow> out), A, sc, t # stack, out)
      \<in> inv_image (mult (measure size)) (\<lambda>(A, sc, stack, out). mset stack)" by (simp add: union_commute add_ac)
qed

definition generate_applicable :: "'n arithmetic \<Rightarrow> 'n state_context \<Rightarrow> 'n tree option \<Rightarrow> nat list" where
  "generate_applicable A sc r = generate_loop A sc (option_list r) []"

section \<open>What a tree generates\<close>

function collected :: "'n arithmetic \<Rightarrow> 'n state_context \<Rightarrow> 'n tree \<Rightarrow> nat list" where
  "collected A sc t = (case t of Element_Generator es \<Rightarrow> es | _ \<Rightarrow> concat (map (collected A sc) (pushed_nodes A sc t)))"
  by pat_completeness auto
termination by (relation "measure (\<lambda>(A, sc, t). size t)") (auto dest: size_pushed simp del: pushed_nodes.simps)

declare collected.simps [simp del]

lemma generate_loop_eq: "generate_loop A sc stack out = out @ concat (map (collected A sc) stack)"
proof (induction A sc stack out rule: generate_loop.induct)
  case (2 A sc t stack out)
  show ?case using 2 collected.simps [of A sc t] by (cases t) (simp_all del: pushed_nodes.simps(1-4))
qed simp

lemma generate_applicable_eq: "generate_applicable A sc r = concat (map (collected A sc) (option_list r))"
  by (simp add: generate_applicable_def generate_loop_eq)

text \<open>An element passes a precondition in a state.\<close>

definition detail_holds :: "'n arithmetic \<Rightarrow> 'n state_context \<Rightarrow> 'n precondition \<Rightarrow> detail option \<Rightarrow> bool" where
  "detail_holds A sc p d = (case d of None \<Rightarrow> True
     | Some (Det_Polarity b) \<Rightarrow> (case p of Pre_Atom a \<Rightarrow> us_test a (sc_state sc) = b | _ \<Rightarrow> False)
     | Some (Det_Value v) \<Rightarrow> (case p of Pre_Variable x \<Rightarrow> us_get_fact x (sc_state sc) = v | _ \<Rightarrow> False)
     | Some Det_Unit \<Rightarrow> (case p of Pre_Negative f \<Rightarrow> us_get_fact (fst f) (sc_state sc) \<noteq> snd f | Pre_Constraint c \<Rightarrow> gholds A sc c | _ \<Rightarrow> False))"

definition passes :: "'n arithmetic \<Rightarrow> 'n state_context \<Rightarrow> 'n tree_input \<Rightarrow> nat \<Rightarrow> nat \<Rightarrow> bool" where
  "passes A sc I d e \<longleftrightarrow> (\<forall>p \<in> set (drop d (ti_preconditions I)). detail_holds A sc (fst p) (ti_details I e (fst p)))"

definition in_domain :: "'n tree_input \<Rightarrow> 'n state_context \<Rightarrow> bool" where
  "in_domain I sc \<longleftrightarrow> (\<forall>p \<in> set (ti_preconditions I). \<forall>x. fst p = Pre_Variable x \<longrightarrow> us_get_fact x (sc_state sc) < ti_domain_size I x)"

definition good_tree :: "'n tree_input \<Rightarrow> nat \<Rightarrow> nat list \<Rightarrow> 'n tree \<Rightarrow> bool" where
  "good_tree I d es t \<longleftrightarrow> (\<forall>A sc. in_domain I sc \<longrightarrow> mset (collected A sc t) = mset (filter (passes A sc I d) es))"

definition good_child :: "'n tree_input \<Rightarrow> nat \<Rightarrow> nat list \<Rightarrow> 'n tree option \<Rightarrow> bool" where
  "good_child I d es r \<longleftrightarrow> (if es = [] then r = None else \<exists>t. r = Some t \<and> good_tree I d es t)"

text \<open>The details are of the right kind for their precondition.\<close>

definition typed_details :: "'n tree_input \<Rightarrow> bool" where
  "typed_details I \<longleftrightarrow> (\<forall>e p d. ti_details I e p = Some d \<longrightarrow> (case p of Pre_Atom a \<Rightarrow> \<exists>b. d = Det_Polarity b
     | Pre_Variable x \<Rightarrow> \<exists>v. d = Det_Value v \<and> v < ti_domain_size I x | _ \<Rightarrow> d = Det_Unit))"

text \<open>What happens to a tree that is done, with the entries below it on the stack.\<close>

definition deliver :: "'n tree_input \<Rightarrow> 'n tree \<Rightarrow> 'n stack_entry list \<Rightarrow> (match_error + 'n tree option) option" where
  "deliver I t rest = (case rest of [] \<Rightarrow> Some (Inr (Some t))
     | parent # ps \<Rightarrow> (case push_result parent t of Inl err \<Rightarrow> Some (Inl err) | Inr parent \<Rightarrow> tree_dfs I (parent # ps)))"

definition builds :: "'n tree_input \<Rightarrow> nat \<Rightarrow> nat list \<Rightarrow> bool" where
  "builds I d es \<longleftrightarrow> (\<forall>rest. \<exists>t. tree_dfs I (selector_loop I d es # rest) = deliver I t rest \<and> good_tree I d es t)"

lemma dfs_done: "explored en \<Longrightarrow> tree_dfs I (en # rest) = deliver I (get_result en) rest"
  by (subst tree_dfs.simps) (simp add: deliver_def)

lemma dfs_child:
  assumes "builds I d es" "\<not> explored en" "next_entry I en = Inr (Some (selector_loop I d es))"
  shows "\<exists>t. good_tree I d es t \<and> tree_dfs I (en # rest) = (case push_result en t of Inl err \<Rightarrow> Some (Inl err) | Inr en \<Rightarrow> tree_dfs I (en # rest))"
proof -
  obtain t where t: "tree_dfs I (selector_loop I d es # en # rest) = deliver I t (en # rest)" "good_tree I d es t"
    using assms(1) unfolding builds_def by blast
  have "tree_dfs I (en # rest) = tree_dfs I (selector_loop I d es # en # rest)" using assms(2,3) by (subst tree_dfs.simps) simp
  then show ?thesis using t by (auto simp: deliver_def)
qed

section \<open>Splitting the elements\<close>

lemma mset_sort_by [simp]: "mset (sort_by c es) = mset es" "set (sort_by c es) = set es"
  by (simp_all add: sort_by_def)

lemma sorted_sort_by: "sorted (map c (sort_by c es))"
  by (simp add: sort_by_def)

lemma sorted_split:
  assumes "sorted (map c s)"
  shows "takeWhile (\<lambda>e. c e < k) s = filter (\<lambda>e. c e < k) s" "dropWhile (\<lambda>e. c e < k) s = filter (\<lambda>e. \<not> c e < k) s"
proof -
  have "takeWhile (\<lambda>e. c e < k) s = filter (\<lambda>e. c e < k) s \<and> dropWhile (\<lambda>e. c e < k) s = filter (\<lambda>e. \<not> c e < k) s"
    using assms
  proof (induction s)
    case (Cons e s)
    show ?case
    proof (cases "c e < k")
      case True
      then show ?thesis using Cons by simp
    next
      case False
      then have "\<forall>e' \<in> set s. \<not> c e' < k" using Cons.prems by auto
      then show ?thesis using False by (auto simp: filter_empty_conv filter_id_conv)
    qed
  qed simp
  then show "takeWhile (\<lambda>e. c e < k) s = filter (\<lambda>e. c e < k) s" "dropWhile (\<lambda>e. c e < k) s = filter (\<lambda>e. \<not> c e < k) s" by blast+
qed

lemma sorted_filtered: "sorted (map c s) \<Longrightarrow> sorted (map c (filter P s))"
  by (induction s) auto

lemma split_children_eq:
  assumes "sorted (map c s)" "\<forall>e \<in> set s. m \<le> c e"
  shows "split_children c [m..<m + n] s = (map (\<lambda>i. filter (\<lambda>e. c e = i) s) [m..<m + n], filter (\<lambda>e. m + n \<le> c e) s)"
  using assms
proof (induction n arbitrary: m s)
  case 0
  then show ?case by (simp add: filter_id_conv)
next
  case (Suc n)
  have halves: "takeWhile (\<lambda>e. c e \<le> m) s = filter (\<lambda>e. c e \<le> m) s" "dropWhile (\<lambda>e. c e \<le> m) s = filter (\<lambda>e. \<not> c e \<le> m) s"
    using sorted_split [OF Suc.prems(1), of "Suc m"] by (simp_all add: less_Suc_eq_le)
  let ?rest = "filter (\<lambda>e. \<not> c e \<le> m) s"
  have IH: "split_children c [Suc m..<Suc m + n] ?rest = (map (\<lambda>i. filter (\<lambda>e. c e = i) ?rest) [Suc m..<Suc m + n], filter (\<lambda>e. Suc m + n \<le> c e) ?rest)"
    by (rule Suc.IH) (use Suc.prems in \<open>auto intro: sorted_filtered\<close>)
  have "filter (\<lambda>e. c e \<le> m) s = filter (\<lambda>e. c e = m) s" using Suc.prems(2) by (intro filter_cong) auto
  moreover have "filter (\<lambda>e. c e = i) ?rest = filter (\<lambda>e. c e = i) s" if "i \<in> set [Suc m..<Suc m + n]" for i
    using that by (auto intro: filter_cong)
  moreover have "filter (\<lambda>e. Suc m + n \<le> c e) ?rest = filter (\<lambda>e. Suc m + n \<le> c e) s" by (auto intro: filter_cong)
  moreover have "[m..<m + Suc n] = m # [Suc m..<Suc m + n]" by (simp add: upt_rec)
  ultimately show ?case using IH by (simp add: halves del: upt_Suc cong: map_cong)
qed

lemma passes_step: "d < length (ti_preconditions I) \<Longrightarrow>
    passes A sc I d e \<longleftrightarrow> detail_holds A sc (fst (ti_preconditions I ! d)) (ti_details I e (fst (ti_preconditions I ! d))) \<and> passes A sc I (d + 1) e"
  by (simp add: passes_def Cons_nth_drop_Suc [symmetric])

section \<open>The search at an entry\<close>

lemma good_child_done: "good_child I d es r \<Longrightarrow> es = [] \<or> r \<noteq> None"
  by (auto simp: good_child_def split: if_splits)

lemma good_child_collected:
  "good_child I d es r \<Longrightarrow> in_domain I sc \<Longrightarrow> mset (concat (map (collected A sc) (option_list r))) = mset (filter (passes A sc I d) es)"
  by (auto simp: good_child_def good_tree_def split: if_splits)

definition builds_all :: "'n tree_input \<Rightarrow> nat \<Rightarrow> bool" where
  "builds_all I d \<longleftrightarrow> (\<forall>es. es \<noteq> [] \<longrightarrow> builds I d es)"

lemma atom_entry_result:
  assumes "builds_all I (d + 1)"
  shows "\<exists>rt rf rd. good_child I (d + 1) ts rt \<and> good_child I (d + 1) fs rf \<and> good_child I (d + 1) ds rd
    \<and> tree_dfs I (Atom_Entry d a ts fs ds None None None # rest) = deliver I (Atom_Selector a rt rf rd) rest"
proof -
  have 1: "\<exists>rt. good_child I (d + 1) ts rt \<and> tree_dfs I (Atom_Entry d a ts fs ds None None None # rest) = tree_dfs I (Atom_Entry d a ts fs ds rt None None # rest)"
  proof (cases "ts = []")
    case False
    then have "builds I (d + 1) ts" using assms by (simp add: builds_all_def)
    from dfs_child [OF this, of "Atom_Entry d a ts fs ds None None None" rest] False show ?thesis by (auto simp: try_create_stack_entry_def good_child_def)
  qed (simp add: good_child_def)
  then obtain rt where rt: "good_child I (d + 1) ts rt"
    "tree_dfs I (Atom_Entry d a ts fs ds None None None # rest) = tree_dfs I (Atom_Entry d a ts fs ds rt None None # rest)" by blast
  have 2: "\<exists>rf. good_child I (d + 1) fs rf \<and> tree_dfs I (Atom_Entry d a ts fs ds rt None None # rest) = tree_dfs I (Atom_Entry d a ts fs ds rt rf None # rest)"
  proof (cases "fs = []")
    case False
    then have "builds I (d + 1) fs" using assms by (simp add: builds_all_def)
    from dfs_child [OF this, of "Atom_Entry d a ts fs ds rt None None" rest] False good_child_done [OF rt(1)] obtain t where
      "good_tree I (d + 1) fs t" "tree_dfs I (Atom_Entry d a ts fs ds rt None None # rest) = tree_dfs I (Atom_Entry d a ts fs ds rt (Some t) None # rest)"
      by (auto simp: try_create_stack_entry_def)
    then show ?thesis using False by (intro exI [of _ "Some t"]) (simp add: good_child_def)
  qed (simp add: good_child_def)
  then obtain rf where rf: "good_child I (d + 1) fs rf"
    "tree_dfs I (Atom_Entry d a ts fs ds rt None None # rest) = tree_dfs I (Atom_Entry d a ts fs ds rt rf None # rest)" by blast
  have 3: "\<exists>rd. good_child I (d + 1) ds rd \<and> tree_dfs I (Atom_Entry d a ts fs ds rt rf None # rest) = tree_dfs I (Atom_Entry d a ts fs ds rt rf rd # rest)"
  proof (cases "ds = []")
    case False
    then have "builds I (d + 1) ds" using assms by (simp add: builds_all_def)
    from dfs_child [OF this, of "Atom_Entry d a ts fs ds rt rf None" rest] False good_child_done [OF rt(1)] good_child_done [OF rf(1)] obtain t where
      "good_tree I (d + 1) ds t" "tree_dfs I (Atom_Entry d a ts fs ds rt rf None # rest) = tree_dfs I (Atom_Entry d a ts fs ds rt rf (Some t) # rest)"
      by (auto simp: try_create_stack_entry_def)
    then show ?thesis using False by (intro exI [of _ "Some t"]) (simp add: good_child_def)
  qed (simp add: good_child_def)
  then obtain rd where rd: "good_child I (d + 1) ds rd"
    "tree_dfs I (Atom_Entry d a ts fs ds rt rf None # rest) = tree_dfs I (Atom_Entry d a ts fs ds rt rf rd # rest)" by blast
  have "explored (Atom_Entry d a ts fs ds rt rf rd)" using good_child_done [OF rt(1)] good_child_done [OF rf(1)] good_child_done [OF rd(1)] by simp
  from dfs_done [OF this] show ?thesis using rt rf rd by auto
qed

text \<open>Negative facts and constraints have two children; the entries differ in their names only.\<close>

lemma two_children_result:
  assumes "builds_all I (d + 1)"
    and en: "\<And>rt rd. explored (en rt rd) \<longleftrightarrow> (ts = [] \<or> rt \<noteq> None) \<and> (ds = [] \<or> rd \<noteq> None)"
      "\<And>rt rd. next_entry I (en rt rd) = (if \<not> (ts = [] \<or> rt \<noteq> None) then Inr (try_create_stack_entry I (d + 1) ts)
        else if \<not> (ds = [] \<or> rd \<noteq> None) then Inr (try_create_stack_entry I (d + 1) ds) else Inl Unexpected_Case)"
      "\<And>rt rd t. push_result (en rt rd) t = (if \<not> (ts = [] \<or> rt \<noteq> None) then Inr (en (Some t) rd)
        else if \<not> (ds = [] \<or> rd \<noteq> None) then Inr (en rt (Some t)) else Inl Unexpected_Case)"
  shows "\<exists>rt rd. good_child I (d + 1) ts rt \<and> good_child I (d + 1) ds rd \<and> tree_dfs I (en None None # rest) = deliver I (get_result (en rt rd)) rest"
proof -
  have 1: "\<exists>rt. good_child I (d + 1) ts rt \<and> tree_dfs I (en None None # rest) = tree_dfs I (en rt None # rest)"
  proof (cases "ts = []")
    case False
    then have "builds I (d + 1) ts" using assms(1) by (simp add: builds_all_def)
    from dfs_child [OF this, of "en None None" rest] False show ?thesis by (auto simp: en try_create_stack_entry_def good_child_def)
  qed (auto simp: good_child_def)
  then obtain rt where rt: "good_child I (d + 1) ts rt" "tree_dfs I (en None None # rest) = tree_dfs I (en rt None # rest)" by blast
  have 2: "\<exists>rd. good_child I (d + 1) ds rd \<and> tree_dfs I (en rt None # rest) = tree_dfs I (en rt rd # rest)"
  proof (cases "ds = []")
    case False
    then have "builds I (d + 1) ds" using assms(1) by (simp add: builds_all_def)
    from dfs_child [OF this, of "en rt None" rest] False good_child_done [OF rt(1)] obtain t where
      "good_tree I (d + 1) ds t" "tree_dfs I (en rt None # rest) = tree_dfs I (en rt (Some t) # rest)" by (auto simp: en try_create_stack_entry_def)
    then show ?thesis using False by (intro exI [of _ "Some t"]) (simp add: good_child_def)
  qed (auto simp: good_child_def)
  then obtain rd where rd: "good_child I (d + 1) ds rd" "tree_dfs I (en rt None # rest) = tree_dfs I (en rt rd # rest)" by blast
  have "explored (en rt rd)" using good_child_done [OF rt(1)] good_child_done [OF rd(1)] by (simp add: en)
  from dfs_done [OF this] show ?thesis using rt rd by auto
qed

definition children_done :: "'n tree_input \<Rightarrow> nat \<Rightarrow> nat list list \<Rightarrow> nat set \<Rightarrow> 'n tree option list \<Rightarrow> bool" where
  "children_done I d ess done_set cs \<longleftrightarrow> length cs = length ess \<and> (\<forall>i < length ess. if i \<in> done_set then good_child I d (ess ! i) (cs ! i) else cs ! i = None)"

lemma variable_children_result:
  assumes "builds_all I (d + 1)" "\<forall>i \<in> set fw. i < length ess \<and> ess ! i \<noteq> []" "distinct fw" "k \<le> length fw" "children_done I (d + 1) ess (set (take k fw)) cs"
  shows "\<exists>cs'. children_done I (d + 1) ess (set fw) cs'
    \<and> tree_dfs I (Variable_Entry d x ess fw ds k cs None # rest) = tree_dfs I (Variable_Entry d x ess fw ds (length fw) cs' None # rest)"
  using assms(4,5)
proof (induction "length fw - k" arbitrary: k cs)
  case 0
  then show ?case by auto
next
  case (Suc n)
  then have k: "k < length fw" by simp
  then have i: "fw ! k < length ess" "ess ! (fw ! k) \<noteq> []" using assms(2) by auto
  have "builds I (d + 1) (ess ! (fw ! k))" using assms(1) i(2) by (simp add: builds_all_def)
  from dfs_child [OF this, of "Variable_Entry d x ess fw ds k cs None" rest] k i(2) obtain t where
    t: "good_tree I (d + 1) (ess ! (fw ! k)) t"
      "tree_dfs I (Variable_Entry d x ess fw ds k cs None # rest) = tree_dfs I (Variable_Entry d x ess fw ds (k + 1) (cs[fw ! k := Some t]) None # rest)"
    by (auto simp: try_create_stack_entry_def)
  have "children_done I (d + 1) ess (set (take (Suc k) fw)) (cs[fw ! k := Some t])"
    using Suc.prems(2) t(1) i k by (auto simp: children_done_def nth_list_update take_Suc_conv_app_nth good_child_def)
  with Suc.hyps(1) [of "Suc k" "cs[fw ! k := Some t]"] Suc.hyps(2) k t(2) show ?case by auto
qed

lemma variable_entry_result:
  assumes "builds_all I (d + 1)" "fw = filter (\<lambda>i. ess ! i \<noteq> []) [0..<length ess]"
  shows "\<exists>cs rd. length cs = length ess \<and> (\<forall>i < length ess. good_child I (d + 1) (ess ! i) (cs ! i)) \<and> good_child I (d + 1) ds rd
    \<and> tree_dfs I (Variable_Entry d x ess fw ds 0 (replicate (length ess) None) None # rest) = deliver I (Variable_Selector x cs rd) rest"
proof -
  have "children_done I (d + 1) ess (set (take 0 fw)) (replicate (length ess) None)" by (simp add: children_done_def)
  from variable_children_result [OF assms(1) _ _ _ this, of x ds rest] assms(2) obtain cs where
    cs: "children_done I (d + 1) ess (set fw) cs"
      "tree_dfs I (Variable_Entry d x ess fw ds 0 (replicate (length ess) None) None # rest) = tree_dfs I (Variable_Entry d x ess fw ds (length fw) cs None # rest)"
    by auto
  have good: "length cs = length ess \<and> (\<forall>i < length ess. good_child I (d + 1) (ess ! i) (cs ! i))"
    using cs(1) by (auto simp: children_done_def assms(2) good_child_def)
  have "\<exists>rd. good_child I (d + 1) ds rd \<and> tree_dfs I (Variable_Entry d x ess fw ds (length fw) cs None # rest) = tree_dfs I (Variable_Entry d x ess fw ds (length fw) cs rd # rest)"
  proof (cases "ds = []")
    case False
    then have "builds I (d + 1) ds" using assms(1) by (simp add: builds_all_def)
    from dfs_child [OF this, of "Variable_Entry d x ess fw ds (length fw) cs None" rest] False show ?thesis
      by (auto simp: try_create_stack_entry_def good_child_def)
  qed (simp add: good_child_def)
  then obtain rd where rd: "good_child I (d + 1) ds rd"
    "tree_dfs I (Variable_Entry d x ess fw ds (length fw) cs None # rest) = tree_dfs I (Variable_Entry d x ess fw ds (length fw) cs rd # rest)" by blast
  have "explored (Variable_Entry d x ess fw ds (length fw) cs rd)" using good_child_done [OF rd(1)] by simp
  from dfs_done [OF this] show ?thesis using cs(2) good rd by auto
qed

section \<open>The trees of the selectors\<close>

text \<open>An attempt keeps the elements; without an entry no element cares, and with one the search ends in a good tree.\<close>

definition attempt_ok :: "'n tree_input \<Rightarrow> 'n precondition \<Rightarrow> nat \<Rightarrow> nat list \<Rightarrow> 'n stack_entry option \<times> nat list \<Rightarrow> bool" where
  "attempt_ok I p d es r \<longleftrightarrow> mset (snd r) = mset es \<and> (case fst r of None \<Rightarrow> \<forall>e \<in> set es. ti_details I e p = None
     | Some en \<Rightarrow> \<forall>rest. \<exists>t. tree_dfs I (en # rest) = deliver I t rest \<and> good_tree I d es t)"

lemma good_tree_split:
  assumes "\<And>A sc. in_domain I sc \<Longrightarrow> mset (collected A sc t) = mset (filter (passes A sc I d) s)" "mset s = mset es"
  shows "good_tree I d es t"
  unfolding good_tree_def using assms by (metis mset_filter)

lemma filter_passes:
  assumes "d < length (ti_preconditions I)" "p = fst (ti_preconditions I ! d)" "\<forall>e \<in> set es. detail_holds A sc p (ti_details I e p) = b"
  shows "filter (passes A sc I d) es = (if b then filter (passes A sc I (d + 1)) es else [])"
  using assms(3) passes_step [OF assms(1), of A sc] by (auto simp: assms(2) intro: filter_cong)

lemma typed_detail:
  assumes "typed_details I"
  shows "ti_details I e (Pre_Atom a) = Some d \<Longrightarrow> \<exists>b. d = Det_Polarity b"
    "ti_details I e (Pre_Variable x) = Some d \<Longrightarrow> \<exists>v. d = Det_Value v \<and> v < ti_domain_size I x"
    "ti_details I e (Pre_Negative f) = Some d \<Longrightarrow> d = Det_Unit"
    "ti_details I e (Pre_Constraint c) = Some d \<Longrightarrow> d = Det_Unit"
proof -
  have "case p of Pre_Atom a \<Rightarrow> \<exists>b. d = Det_Polarity b | Pre_Variable x \<Rightarrow> \<exists>v. d = Det_Value v \<and> v < ti_domain_size I x | _ \<Rightarrow> d = Det_Unit"
    if "ti_details I e p = Some d" for p using assms that unfolding typed_details_def by blast
  from this [of "Pre_Atom a"] this [of "Pre_Variable x"] this [of "Pre_Negative f"] this [of "Pre_Constraint c"]
  show "ti_details I e (Pre_Atom a) = Some d \<Longrightarrow> \<exists>b. d = Det_Polarity b"
    "ti_details I e (Pre_Variable x) = Some d \<Longrightarrow> \<exists>v. d = Det_Value v \<and> v < ti_domain_size I x"
    "ti_details I e (Pre_Negative f) = Some d \<Longrightarrow> d = Det_Unit"
    "ti_details I e (Pre_Constraint c) = Some d \<Longrightarrow> d = Det_Unit" by simp_all
qed

lemma attempt_atom:
  assumes "typed_details I" "d < length (ti_preconditions I)" "fst (ti_preconditions I ! d) = Pre_Atom a" "builds_all I (d + 1)"
  shows "attempt_ok I (Pre_Atom a) d es (try_create_atom I a d es)"
proof -
  let ?p = "Pre_Atom a" and ?c = "atom_category I a"
  define s where "s = sort_by ?c es"
  define ts where "ts = filter (\<lambda>e. ?c e < 1) s"
  define fs where "fs = filter (\<lambda>e. ?c e < 2) (filter (\<lambda>e. \<not> ?c e < 1) s)"
  define ds where "ds = filter (\<lambda>e. \<not> ?c e < 2) (filter (\<lambda>e. \<not> ?c e < 1) s)"
  have sorted: "sorted (map ?c s)" "sorted (map ?c (filter (\<lambda>e. \<not> ?c e < 1) s))" using sorted_sort_by by (auto simp: s_def intro: sorted_filtered)
  have attempt: "try_create_atom I a d es = (if ts = [] \<and> fs = [] then None else Some (Atom_Entry d a ts fs ds None None None), s)"
    unfolding try_create_atom_def Let_def s_def [symmetric] sorted_split [OF sorted(1)] sorted_split [OF sorted(2)] ts_def fs_def ds_def by simp
  have det: "ti_details I e ?p = (if ?c e < 1 then Some (Det_Polarity True) else if ?c e < 2 then Some (Det_Polarity False) else None)" for e
    using typed_detail(1) [OF assms(1), of e a] by (cases "ti_details I e ?p") (auto simp: atom_category_def split: if_splits)
  have parts: "mset s = mset ts + mset fs + mset ds" 
    using multiset_partition [of "mset s" "\<lambda>e. ?c e < 1"] multiset_partition [of "filter_mset (\<lambda>e. \<not> ?c e < 1) (mset s)" "\<lambda>e. ?c e < 2"]
    unfolding ts_def fs_def ds_def mset_filter by (metis add.assoc)
  have mset: "mset s = mset es" by (simp add: s_def)
  show ?thesis
  proof (cases "ts = [] \<and> fs = []")
    case True
    then have "\<forall>e \<in> set s. \<not> ?c e < 2" by (fastforce simp: ts_def fs_def filter_empty_conv)
    then show ?thesis using True det mset mset_eq_setD [OF mset] by (auto simp: attempt_ok_def attempt)
  next
    case False
    have "\<exists>t. tree_dfs I (Atom_Entry d a ts fs ds None None None # rest) = deliver I t rest \<and> good_tree I d es t" for rest
    proof -
      obtain rt rf rd where r: "good_child I (d + 1) ts rt" "good_child I (d + 1) fs rf" "good_child I (d + 1) ds rd"
        "tree_dfs I (Atom_Entry d a ts fs ds None None None # rest) = deliver I (Atom_Selector a rt rf rd) rest"
        using atom_entry_result [OF assms(4)] by blast
      have "good_tree I d es (Atom_Selector a rt rf rd)"
      proof (rule good_tree_split [OF _ mset])
        fix A :: "'a arithmetic" and sc :: "'a state_context" assume sc: "in_domain I sc"
        let ?h = "us_test a (sc_state sc)"
        note child = good_child_collected [OF r(1) sc, of A] good_child_collected [OF r(2) sc, of A] good_child_collected [OF r(3) sc, of A]
        have "filter (passes A sc I d) ts = (if ?h then filter (passes A sc I (d + 1)) ts else [])"
          by (rule filter_passes [OF assms(2) assms(3) [symmetric]]) (auto simp: ts_def det detail_holds_def)
        moreover have "filter (passes A sc I d) fs = (if \<not> ?h then filter (passes A sc I (d + 1)) fs else [])"
          by (rule filter_passes [OF assms(2) assms(3) [symmetric]]) (auto simp: fs_def det detail_holds_def)
        moreover have "filter (passes A sc I d) ds = (if True then filter (passes A sc I (d + 1)) ds else [])"
          by (rule filter_passes [OF assms(2) assms(3) [symmetric]]) (auto simp: ds_def det detail_holds_def)
        moreover have "mset (filter (passes A sc I d) s) = mset (filter (passes A sc I d) ts) + mset (filter (passes A sc I d) fs) + mset (filter (passes A sc I d) ds)"
          unfolding mset_filter parts by simp
        ultimately show "mset (collected A sc (Atom_Selector a rt rf rd)) = mset (filter (passes A sc I d) s)"
          using child by (simp add: collected.simps [of A sc "Atom_Selector a rt rf rd"] add.commute)
      qed
      then show ?thesis using r(4) by blast
    qed
    then show ?thesis using False mset by (simp add: attempt_ok_def attempt) blast
  qed
qed

text \<open>Negative facts and constraints.\<close>

lemma attempt_two:
  fixes en :: "'n tree option \<Rightarrow> 'n tree option \<Rightarrow> 'n stack_entry" and test :: "'n arithmetic \<Rightarrow> 'n state_context \<Rightarrow> bool"
  assumes "d < length (ti_preconditions I)" "fst (ti_preconditions I ! d) = p" "builds_all I (d + 1)"
    and "s = sort_by (has_category I p) es" "ts = takeWhile (\<lambda>e. has_category I p e < 1) s" "ds = dropWhile (\<lambda>e. has_category I p e < 1) s"
    and en: "\<And>rt rd. explored (en rt rd) \<longleftrightarrow> (ts = [] \<or> rt \<noteq> None) \<and> (ds = [] \<or> rd \<noteq> None)"
      "\<And>rt rd. next_entry I (en rt rd) = (if \<not> (ts = [] \<or> rt \<noteq> None) then Inr (try_create_stack_entry I (d + 1) ts)
        else if \<not> (ds = [] \<or> rd \<noteq> None) then Inr (try_create_stack_entry I (d + 1) ds) else Inl Unexpected_Case)"
      "\<And>rt rd t. push_result (en rt rd) t = (if \<not> (ts = [] \<or> rt \<noteq> None) then Inr (en (Some t) rd)
        else if \<not> (ds = [] \<or> rd \<noteq> None) then Inr (en rt (Some t)) else Inl Unexpected_Case)"
    and collected: "\<And>A sc rt rd. collected A sc (get_result (en rt rd)) =
        concat (map (collected A sc) (option_list rd)) @ (if test A sc then concat (map (collected A sc) (option_list rt)) else [])"
    and holds: "\<And>A sc. detail_holds A sc p (Some Det_Unit) = test A sc" "\<And>e d. ti_details I e p = Some d \<Longrightarrow> d = Det_Unit"
  shows "attempt_ok I p d es (if ts = [] then None else Some (en None None), s)"
proof -
  have sorted: "sorted (map (has_category I p) s)" using sorted_sort_by by (simp add: assms(4))
  have ts: "ts = filter (\<lambda>e. has_category I p e < 1) s" and ds: "ds = filter (\<lambda>e. \<not> has_category I p e < 1) s"
    unfolding assms(5,6) by (rule sorted_split [OF sorted])+
  have det: "ti_details I e p = (if has_category I p e < 1 then Some Det_Unit else None)" for e
    using holds(2) [of e] by (cases "ti_details I e p") (auto simp: has_category_def)
  have parts: "mset s = mset ts + mset ds" by (simp add: ts ds)
  have mset: "mset s = mset es" by (simp add: assms(4))
  show ?thesis
  proof (cases "ts = []")
    case True
    then have "\<forall>e \<in> set s. \<not> has_category I p e < 1" by (auto simp: ts filter_empty_conv)
    then show ?thesis using True det mset mset_eq_setD [OF mset] by (auto simp: attempt_ok_def)
  next
    case False
    have "\<exists>t. tree_dfs I (en None None # rest) = deliver I t rest \<and> good_tree I d es t" for rest
    proof -
      obtain rt rd where r: "good_child I (d + 1) ts rt" "good_child I (d + 1) ds rd" "tree_dfs I (en None None # rest) = deliver I (get_result (en rt rd)) rest"
        using two_children_result [where en = en and I = I and d = d and ts = ts and ds = ds and rest = rest, OF assms(3) en] by blast
      have "good_tree I d es (get_result (en rt rd))"
      proof (rule good_tree_split [OF _ mset])
        fix A :: "'n arithmetic" and sc :: "'n state_context" assume sc: "in_domain I sc"
        note child = good_child_collected [OF r(1) sc, of A] good_child_collected [OF r(2) sc, of A]
        have "filter (passes A sc I d) ts = (if test A sc then filter (passes A sc I (d + 1)) ts else [])"
          by (rule filter_passes [OF assms(1) assms(2) [symmetric]]) (auto simp: ts det holds(1))
        moreover have "filter (passes A sc I d) ds = (if True then filter (passes A sc I (d + 1)) ds else [])"
          by (rule filter_passes [OF assms(1) assms(2) [symmetric]]) (auto simp: ds det detail_holds_def)
        moreover have "mset (filter (passes A sc I d) s) = mset (filter (passes A sc I d) ts) + mset (filter (passes A sc I d) ds)"
          unfolding mset_filter parts by simp
        ultimately show "mset (collected A sc (get_result (en rt rd))) = mset (filter (passes A sc I d) s)"
          using child by (simp add: collected add.commute)
      qed
      then show ?thesis using r(3) by blast
    qed
    then show ?thesis using False mset by (simp add: attempt_ok_def)
  qed
qed

lemma attempt_negative:
  assumes "typed_details I" "d < length (ti_preconditions I)" "fst (ti_preconditions I ! d) = Pre_Negative f" "builds_all I (d + 1)"
  shows "attempt_ok I (Pre_Negative f) d es (try_create_negative I f d es)"
  unfolding try_create_negative_def Let_def
  by (rule attempt_two [OF assms(2-4) refl refl refl, where test = "\<lambda>A sc. us_get_fact (fst f) (sc_state sc) \<noteq> snd f"])
    (use typed_detail(3) [OF assms(1)] in \<open>auto simp: collected.simps [of _ _ "Negative_Selector _ _ _"] detail_holds_def\<close>)

lemma attempt_constraint:
  assumes "typed_details I" "d < length (ti_preconditions I)" "fst (ti_preconditions I ! d) = Pre_Constraint c" "builds_all I (d + 1)"
  shows "attempt_ok I (Pre_Constraint c) d es (try_create_constraint I c d es)"
  unfolding try_create_constraint_def Let_def
  by (rule attempt_two [OF assms(2-4) refl refl refl, where test = "\<lambda>A sc. gholds A sc c"])
    (use typed_detail(4) [OF assms(1)] in \<open>auto simp: collected.simps [of _ _ "Constraint_Selector _ _ _"] detail_holds_def\<close>)

lemma filter_three:
  assumes "\<And>x. (A x \<and> \<not> B x \<and> \<not> C x) \<or> (\<not> A x \<and> B x \<and> \<not> C x) \<or> (\<not> A x \<and> \<not> B x \<and> C x)"
  shows "mset (filter P xs) = mset (filter P (filter A xs)) + mset (filter P (filter B xs)) + mset (filter P (filter C xs))"
proof (induction xs)
  case (Cons x xs)
  then show ?case using assms [of x] by (auto simp del: mset_filter filter_filter)
qed simp

lemma attempt_variable:
  assumes "typed_details I" "d < length (ti_preconditions I)" "fst (ti_preconditions I ! d) = Pre_Variable x" "builds_all I (d + 1)"
  shows "attempt_ok I (Pre_Variable x) d es (try_create_variable I x d es)"
proof -
  let ?p = "Pre_Variable x" and ?c = "variable_category I x" and ?n = "ti_domain_size I x"
  define s where "s = sort_by ?c es"
  define ess where "ess = map (\<lambda>i. filter (\<lambda>e. ?c e = i) s) [0..<?n]"
  define ds where "ds = filter (\<lambda>e. ?n \<le> ?c e) s"
  define fw where "fw = filter (\<lambda>i. ess ! i \<noteq> []) [0..<length ess]"
  have sorted: "sorted (map ?c s)" using sorted_sort_by by (simp add: s_def)
  have len: "length ess = ?n" by (simp add: ess_def)
  have attempt: "try_create_variable I x d es = (if fw = [] then None else Some (Variable_Entry d x ess fw ds 0 (replicate (length ess) None) None), s)"
    using split_children_eq [OF sorted, of 0 ?n] unfolding try_create_variable_def Let_def s_def [symmetric] fw_def len
    by (simp add: ess_def [symmetric] ds_def [symmetric])
  have det: "ti_details I e ?p = (if ?c e < ?n then Some (Det_Value (?c e)) else None)" for e
    using typed_detail(2) [OF assms(1), of e x] by (cases "ti_details I e ?p") (auto simp: variable_category_def)
  have mset: "mset s = mset es" by (simp add: s_def)
  show ?thesis
  proof (cases "fw = []")
    case True
    then have "\<forall>i < ?n. filter (\<lambda>e. ?c e = i) s = []" by (auto simp: fw_def len filter_empty_conv ess_def)
    then have "\<forall>e \<in> set s. \<not> ?c e < ?n" by (auto simp: filter_empty_conv)
    then show ?thesis using True det mset mset_eq_setD [OF mset] by (auto simp: attempt_ok_def attempt)
  next
    case False
    have "\<exists>t. tree_dfs I (Variable_Entry d x ess fw ds 0 (replicate (length ess) None) None # rest) = deliver I t rest \<and> good_tree I d es t" for rest
    proof -
      obtain cs rd where r: "length cs = length ess" "\<forall>i < length ess. good_child I (d + 1) (ess ! i) (cs ! i)" "good_child I (d + 1) ds rd"
        "tree_dfs I (Variable_Entry d x ess fw ds 0 (replicate (length ess) None) None # rest) = deliver I (Variable_Selector x cs rd) rest"
        using variable_entry_result [OF assms(4) fw_def] by blast
      have "good_tree I d es (Variable_Selector x cs rd)"
      proof (rule good_tree_split [OF _ mset])
        fix A :: "'a arithmetic" and sc :: "'a state_context" assume sc: "in_domain I sc"
        let ?v = "us_get_fact x (sc_state sc)"
        have v: "?v < ?n" using sc assms(2,3) nth_mem [OF assms(2)] unfolding in_domain_def by metis
        let ?vs = "filter (\<lambda>e. ?c e = ?v) s" and ?os = "filter (\<lambda>e. ?c e < ?n \<and> ?c e \<noteq> ?v) s"
        have child: "mset (concat (map (collected A sc) (option_list (cs ! ?v)))) = mset (filter (passes A sc I (d + 1)) ?vs)"
          "mset (concat (map (collected A sc) (option_list rd))) = mset (filter (passes A sc I (d + 1)) ds)"
          using good_child_collected [OF _ sc, of "d + 1" "ess ! ?v" "cs ! ?v" A] good_child_collected [OF r(3) sc, of A] r(2) v len by (auto simp: ess_def)
        have "filter (passes A sc I d) ?vs = (if True then filter (passes A sc I (d + 1)) ?vs else [])"
          by (rule filter_passes [OF assms(2) assms(3) [symmetric]]) (use v in \<open>auto simp: det detail_holds_def\<close>)
        moreover have "filter (passes A sc I d) ?os = (if False then filter (passes A sc I (d + 1)) ?os else [])"
          by (rule filter_passes [OF assms(2) assms(3) [symmetric]]) (auto simp: det detail_holds_def)
        moreover have "filter (passes A sc I d) ds = (if True then filter (passes A sc I (d + 1)) ds else [])"
          by (rule filter_passes [OF assms(2) assms(3) [symmetric]]) (auto simp: ds_def det detail_holds_def)
        moreover have "mset (filter (passes A sc I d) s) = mset (filter (passes A sc I d) ?vs) + mset (filter (passes A sc I d) ?os) + mset (filter (passes A sc I d) ds)"
          unfolding ds_def by (rule filter_three) (use v in auto)
        ultimately show "mset (collected A sc (Variable_Selector x cs rd)) = mset (filter (passes A sc I d) s)"
          using child r(1) v len by (simp add: collected.simps [of A sc "Variable_Selector x cs rd"] vec_get_def add.commute)
      qed
      then show ?thesis using r(4) by blast
    qed
    then show ?thesis using False mset by (simp add: attempt_ok_def attempt)
  qed
qed

lemma attempt_selector:
  assumes "typed_details I" "d < length (ti_preconditions I)" "builds_all I (d + 1)"
  shows "attempt_ok I (fst (ti_preconditions I ! d)) d es (try_create_selector I (fst (ti_preconditions I ! d)) d es)"
  using attempt_atom [OF assms(1,2) _ assms(3)] attempt_variable [OF assms(1,2) _ assms(3)] attempt_negative [OF assms(1,2) _ assms(3)]
    attempt_constraint [OF assms(1,2) _ assms(3)]
  by (cases "fst (ti_preconditions I ! d)") (simp_all add: try_create_selector_def)

lemma good_tree_skip:
  assumes "d < length (ti_preconditions I)" "\<forall>e \<in> set es. ti_details I e (fst (ti_preconditions I ! d)) = None" "mset s = mset es" "good_tree I (d + 1) s t"
  shows "good_tree I d es t"
proof (rule good_tree_split [OF _ assms(3)])
  fix A sc assume "in_domain I sc"
  then have "mset (collected A sc t) = mset (filter (passes A sc I (d + 1)) s)" using assms(4) by (simp add: good_tree_def)
  moreover have "filter (passes A sc I d) s = (if True then filter (passes A sc I (d + 1)) s else [])"
    using assms(2) mset_eq_setD [OF assms(3)] by (intro filter_passes [OF assms(1) refl]) (simp add: detail_holds_def)
  ultimately show "mset (collected A sc t) = mset (filter (passes A sc I d) s)" by simp
qed

lemma builds_everything:
  assumes "typed_details I"
  shows "builds_all I d"
proof (induction "length (ti_preconditions I) - d" arbitrary: d)
  case 0
  have "builds I d es" for es
  proof -
    have "selector_loop I d es = Generator_Entry es" using 0 by (subst selector_loop.simps) simp
    moreover have "good_tree I d es (Element_Generator es)" using 0 by (simp add: good_tree_def collected.simps passes_def)
    ultimately show ?thesis using dfs_done [of "Generator_Entry es" I] by (auto simp: builds_def)
  qed
  then show ?case by (simp add: builds_all_def)
next
  case (Suc n)
  then have d: "d < length (ti_preconditions I)" by simp
  have IH: "builds_all I (d + 1)" using Suc.hyps by simp
  have "builds I d es" if es: "es \<noteq> []" for es
  proof -
    obtain r s where rs: "try_create_selector I (fst (ti_preconditions I ! d)) d es = (r, s)" by force
    note ok = attempt_selector [OF assms d IH, of es, unfolded rs attempt_ok_def]
    show ?thesis
    proof (cases r)
      case None
      then have "s \<noteq> []" using ok es by auto
      then have "builds I (d + 1) s" using IH by (simp add: builds_all_def)
      moreover have "selector_loop I d es = selector_loop I (d + 1) s" using d None rs by (subst selector_loop.simps) simp
      moreover have "good_tree I d es t" if "good_tree I (d + 1) s t" for t using good_tree_skip [OF d _ _ that] ok None by simp
      ultimately show ?thesis unfolding builds_def by metis
    next
      case (Some en)
      then have "selector_loop I d es = en" using d rs by (subst selector_loop.simps) simp
      then show ?thesis using ok Some by (simp add: builds_def)
    qed
  qed
  then show ?case by (simp add: builds_all_def)
qed

section \<open>The preconditions of the elements\<close>

lemma note_all:
  "snd (fold (note_precondition e) kds od) = (snd od)(e := snd od e ++ map_of (rev kds))
   \<and> fst ` set (fst (fold (note_precondition e) kds od)) = fst ` set (fst od) \<union> fst ` set kds"
proof (induction kds arbitrary: od)
  case (Cons kd kds)
  obtain key d occ det where [simp]: "kd = (key, d)" "od = (occ, det)" by (cases kd; cases od)
  have step: "fst (note_precondition e kd od) = AList.update key ((case map_of occ key of None \<Rightarrow> [] | Some es \<Rightarrow> es) @ [e]) occ"
    "snd (note_precondition e kd od) = det(e := (det e)(key \<mapsto> d))" by (simp_all add: note_precondition_def)
  have "snd (fold (note_precondition e) (kd # kds) od) = (snd od)(e := snd od e ++ map_of (rev (kd # kds)))"
  proof -
    have "det e ++ map_of (rev (kd # kds)) = (det e)(key \<mapsto> d) ++ map_of (rev kds)" by simp
    then show ?thesis using Cons.IH [of "note_precondition e kd od"] unfolding step by (simp only: fold_simps fun_upd_same fun_upd_upd snd_conv \<open>od = _\<close>)
  qed
  moreover have "fst ` set (fst (fold (note_precondition e) (kd # kds) od)) = fst ` set (fst od) \<union> fst ` set (kd # kds)"
    using Cons.IH [of "note_precondition e kd od"] unfolding step by (auto simp: dom_update)
  ultimately show ?case by blast
qed simp

lemma map_add_twice [simp]: "m ++ (m' ++ m') = m ++ m'"
  by (rule ext) (simp add: map_add_def split: option.splits)

lemma collect_all:
  fixes conds :: "nat \<Rightarrow> 'n gcondition"
  defines "kds \<equiv> \<lambda>e. condition_preconditions (conds e)"
  shows "snd (fold (\<lambda>e. fold (note_precondition e) (kds e)) es od) e = (if e \<in> set es then snd od e ++ map_of (rev (kds e)) else snd od e)"
    and "fst ` set (fst (fold (\<lambda>e. fold (note_precondition e) (kds e)) es od)) = fst ` set (fst od) \<union> (\<Union>e \<in> set es. fst ` set (kds e))"
proof -
  show "snd (fold (\<lambda>e. fold (note_precondition e) (kds e)) es od) e = (if e \<in> set es then snd od e ++ map_of (rev (kds e)) else snd od e)"
  proof (induction es arbitrary: od)
    case (Cons x es)
    show ?case using Cons.IH [of "fold (note_precondition x) (kds x) od"] note_all [of x "kds x" od]
      by (auto simp flip: map_add_assoc)
  qed simp
  show "fst ` set (fst (fold (\<lambda>e. fold (note_precondition e) (kds e)) es od)) = fst ` set (fst od) \<union> (\<Union>e \<in> set es. fst ` set (kds e))"
  proof (induction es arbitrary: od)
    case (Cons x es)
    show ?case using Cons.IH [of "fold (note_precondition x) (kds x) od"] note_all [of x "kds x" od] by auto
  qed simp
qed

lemma condition_preconditions_iff:
  "(Pre_Variable x, d) \<in> set (condition_preconditions c) \<longleftrightarrow> (\<exists>v. d = Det_Value v \<and> (x, v) \<in> set (gc_positive c))"
  "(Pre_Negative f, d) \<in> set (condition_preconditions c) \<longleftrightarrow> d = Det_Unit \<and> f \<in> set (gc_negative c)"
  "(Pre_Atom a, d) \<in> set (condition_preconditions c) \<longleftrightarrow> (\<exists>p. d = Det_Polarity p \<and> (a, p) \<in> set (gc_derived c))"
  "(Pre_Constraint k, d) \<in> set (condition_preconditions c) \<longleftrightarrow> d = Det_Unit \<and> k \<in> set (gc_numeric c)"
  by (simp_all add: condition_preconditions_def image_iff Bex_def, blast+)

lemma condition_preconditions_single:
  assumes "is_consistent c" "(k, d) \<in> set (condition_preconditions c)" "(k, d') \<in> set (condition_preconditions c)"
  shows "d = d'"
  using assms(2,3) is_consistent_unique [OF assms(1)] by (cases k) (simp_all add: condition_preconditions_iff, blast+)

lemma map_of_rev_single:
  assumes "\<And>k d d'. (k, d) \<in> set kds \<Longrightarrow> (k, d') \<in> set kds \<Longrightarrow> d = d'"
  shows "map_of (rev kds) k = Some d \<longleftrightarrow> (k, d) \<in> set kds"
proof
  show "map_of (rev kds) k = Some d \<Longrightarrow> (k, d) \<in> set kds" by (auto dest: map_of_SomeD)
next
  assume kd: "(k, d) \<in> set kds"
  then have "map_of (rev kds) k \<noteq> None" by (metis map_of_eq_None_iff image_eqI fst_conv set_rev)
  then obtain d' where "map_of (rev kds) k = Some d'" by blast
  then show "map_of (rev kds) k = Some d" using assms [OF kd] map_of_SomeD by fastforce
qed

lemma condition_preconditions_hold:
  "(\<forall>(k, d) \<in> set (condition_preconditions c). detail_holds A sc k (Some d)) \<longleftrightarrow> dynamically_applicable A sc c"
  by (simp add: condition_preconditions_def dynamically_applicable_def detail_holds_def fact_holds_def derived_holds_def list_all_iff ball_Un)

lemma make_tree_input_details:
  assumes "e \<in> set elements"
  shows "ti_details (make_tree_input hash_order conds ds elements) e = map_of (rev (condition_preconditions (conds e)))"
  using assms collect_all(1) [of conds elements "([], \<lambda>e key. None)" e]
  by (simp add: make_tree_input_def collect_preconditions_def case_prod_unfold)

lemma make_tree_input_no_details:
  assumes "e \<notin> set elements"
  shows "ti_details (make_tree_input hash_order conds ds elements) e = (\<lambda>p. None)"
  using assms collect_all(1) [of conds elements "([], \<lambda>e key. None)" e]
  by (simp add: make_tree_input_def collect_preconditions_def case_prod_unfold)

lemma make_tree_input_preconditions:
  assumes "\<And>occ. mset (hash_order occ) = mset occ"
  shows "fst ` set (ti_preconditions (make_tree_input hash_order conds ds elements)) = (\<Union>e \<in> set elements. fst ` set (condition_preconditions (conds e)))"
  using collect_all(2) [of conds elements "([], \<lambda>e key. None)"] mset_eq_setD [OF assms]
  by (simp add: make_tree_input_def collect_preconditions_def sort_preconditions_def case_prod_unfold)

section \<open>The tree generates the applicable elements\<close>

text \<open>The conditions are consistent and speak of values in the domains of the variables.\<close>

definition good_condition :: "(nat \<Rightarrow> nat) \<Rightarrow> 'n gcondition \<Rightarrow> bool" where
  "good_condition domain_size c \<longleftrightarrow> is_consistent c \<and> (\<forall>f \<in> set (gc_positive c). snd f < domain_size (fst f))"

definition condition_in_domain :: "(nat \<Rightarrow> nat) \<Rightarrow> 'n state_context \<Rightarrow> 'n gcondition \<Rightarrow> bool" where
  "condition_in_domain domain_size sc c \<longleftrightarrow> (\<forall>f \<in> set (gc_positive c). us_get_fact (fst f) (sc_state sc) < domain_size (fst f))"

lemma tree_input_facts:
  fixes conds :: "nat \<Rightarrow> 'n gcondition"
  assumes "\<forall>e \<in> set elements. good_condition domain_size (conds e)" "\<And>occ. mset (hash_order occ) = mset occ"
  defines "I \<equiv> make_tree_input hash_order conds domain_size elements"
  shows "typed_details I"
    and "\<forall>e \<in> set elements. condition_in_domain domain_size sc (conds e) \<Longrightarrow> in_domain I sc"
    and "e \<in> set elements \<Longrightarrow> passes A sc I 0 e \<longleftrightarrow> dynamically_applicable A sc (conds e)"
proof -
  let ?kds = "\<lambda>e. condition_preconditions (conds e)"
  have size: "ti_domain_size I = domain_size" by (simp add: I_def make_tree_input_def case_prod_unfold)
  have det: "ti_details I e p = Some d \<longleftrightarrow> e \<in> set elements \<and> (p, d) \<in> set (?kds e)" for e p d
  proof (cases "e \<in> set elements")
    case True
    then have c: "is_consistent (conds e)" using assms(1) by (simp add: good_condition_def)
    show ?thesis using True map_of_rev_single [where kds = "?kds e" and k = p and d = d, OF condition_preconditions_single [OF c]] by (simp add: I_def make_tree_input_details)
  qed (simp add: I_def make_tree_input_no_details)
  note pre = make_tree_input_preconditions [of hash_order conds domain_size elements, OF assms(2), folded I_def]
  show "typed_details I"
    unfolding typed_details_def det size using assms(1) by (fastforce simp: condition_preconditions_def good_condition_def)
  show "in_domain I sc" if sc: "\<forall>e \<in> set elements. condition_in_domain domain_size sc (conds e)"
    unfolding in_domain_def size
  proof (intro ballI allI impI)
    fix p x assume "p \<in> set (ti_preconditions I)" "fst p = Pre_Variable x"
    then have "Pre_Variable x \<in> (\<Union>e \<in> set elements. fst ` set (?kds e))" unfolding pre [symmetric] by (metis imageI)
    then show "us_get_fact x (sc_state sc) < domain_size x"
      using sc unfolding condition_in_domain_def by (auto simp: condition_preconditions_iff) (metis fst_conv)
  qed
  show "passes A sc I 0 e \<longleftrightarrow> dynamically_applicable A sc (conds e)" if e: "e \<in> set elements"
  proof -
    have "passes A sc I 0 e \<longleftrightarrow> (\<forall>k \<in> fst ` set (ti_preconditions I). detail_holds A sc k (ti_details I e k))" by (simp add: passes_def)
    also have "\<dots> \<longleftrightarrow> (\<forall>k d. ti_details I e k = Some d \<longrightarrow> detail_holds A sc k (Some d))"
    proof
      assume h: "\<forall>k \<in> fst ` set (ti_preconditions I). detail_holds A sc k (ti_details I e k)"
      show "\<forall>k d. ti_details I e k = Some d \<longrightarrow> detail_holds A sc k (Some d)"
      proof (intro allI impI)
        fix k d assume d: "ti_details I e k = Some d"
        then have "k \<in> fst ` set (ti_preconditions I)" unfolding pre using e det by force
        then show "detail_holds A sc k (Some d)" using h d by metis
      qed
    next
      assume h: "\<forall>k d. ti_details I e k = Some d \<longrightarrow> detail_holds A sc k (Some d)"
      have "detail_holds A sc k (ti_details I e k)" for k
        using h by (cases "ti_details I e k") (auto simp: detail_holds_def)
      then show "\<forall>k \<in> fst ` set (ti_preconditions I). detail_holds A sc k (ti_details I e k)" by blast
    qed
    also have "\<dots> \<longleftrightarrow> (\<forall>(k, d) \<in> set (?kds e). detail_holds A sc k (Some d))" using e det by auto
    also have "\<dots> \<longleftrightarrow> dynamically_applicable A sc (conds e)" by (rule condition_preconditions_hold)
    finally show ?thesis .
  qed
qed

lemma match_tree_generates:
  assumes "\<forall>e \<in> set elements. good_condition domain_size (conds e)" "\<And>occ. mset (hash_order occ) = mset occ"
  shows "\<exists>r. match_tree hash_order conds domain_size elements = Some (Inr r)
    \<and> (\<forall>A sc. (\<forall>e \<in> set elements. condition_in_domain domain_size sc (conds e)) \<longrightarrow>
         mset (generate_applicable A sc r) = mset (filter (\<lambda>e. dynamically_applicable A sc (conds e)) elements))"
proof -
  let ?I = "make_tree_input hash_order conds domain_size elements"
  note facts = tree_input_facts [OF assms]
  show ?thesis
  proof (cases "elements = []")
    case True
    then show ?thesis by (auto simp: match_tree_def try_create_stack_entry_def generate_applicable_eq)
  next
    case False
    then have "builds ?I 0 elements" using builds_everything [OF facts(1)] by (simp add: builds_all_def)
    then obtain t where t: "tree_dfs ?I [selector_loop ?I 0 elements] = deliver ?I t []" "good_tree ?I 0 elements t" unfolding builds_def by blast
    have "mset (generate_applicable A sc (Some t)) = mset (filter (\<lambda>e. dynamically_applicable A sc (conds e)) elements)"
      if "\<forall>e \<in> set elements. condition_in_domain domain_size sc (conds e)" for A sc
    proof -
      have "filter (passes A sc ?I 0) elements = filter (\<lambda>e. dynamically_applicable A sc (conds e)) elements"
        by (rule filter_cong) (simp_all add: facts(3))
      moreover have "mset (collected A sc t) = mset (filter (passes A sc ?I 0) elements)" using t(2) facts(2) [OF that] unfolding good_tree_def by blast
      ultimately show ?thesis by (simp add: generate_applicable_eq)
    qed
    then show ?thesis using False t(1) by (auto simp: match_tree_def try_create_stack_entry_def deliver_def Let_def)
  qed
qed

text \<open>C11: The match tree of elements whose conditions are consistent and stay in the domains of the variables is built without an
  error, and in every state whose values are in the domains it generates each element as often as it is listed when the element is
  dynamically applicable in the state, and no other: the index is equivalent to testing the condition of every element.\<close>

theorem match_tree_correct:
  assumes "\<forall>e \<in> set elements. good_condition domain_size (conds e)" "\<And>occ. mset (hash_order occ) = mset occ"
  shows "\<exists>r. match_tree hash_order conds domain_size elements = Some (Inr r)
    \<and> (\<forall>A sc. (\<forall>e \<in> set elements. condition_in_domain domain_size sc (conds e)) \<longrightarrow>
         mset (generate_applicable A sc r) = mset (filter (\<lambda>e. dynamically_applicable A sc (conds e)) elements))"
  by (rule match_tree_generates [OF assms])

text \<open>Three elements: the first needs a value and a derived atom, the second excludes the value and compares a function term, the
  third needs nothing.\<close>

definition example_conditions :: "nat \<Rightarrow> nat gcondition" where
  "example_conditions e =
     (if e = 0 then \<lparr>gc_static = [], gc_positive = [(0, 1)], gc_negative = [], gc_derived = [(0, True)], gc_numeric = []\<rparr>
      else if e = 1 then \<lparr>gc_static = [], gc_positive = [], gc_negative = [(0, 1)], gc_derived = [], gc_numeric = [GCompare Op_Gt (GFluent 0) (GNumber 3)]\<rparr>
      else \<lparr>gc_static = [], gc_positive = [], gc_negative = [], gc_derived = [], gc_numeric = []\<rparr>)"

definition example_arithmetic :: "nat arithmetic" where
  "example_arithmetic = \<lparr>ar_nan = 0, ar_isnan = (\<lambda>x. x = 0), ar_negate = (\<lambda>x. x), ar_apply = (\<lambda>op x y. x + y), ar_compare = (\<lambda>op x y. y < x),
     ar_zero = 0, ar_one = 1, ar_canonicalize = (\<lambda>x. x)\<rparr>"

definition example_state :: "nat \<Rightarrow> nat state_context" where
  "example_state v = \<lparr>sc_static = (\<lambda>a. True), sc_values = (\<lambda>t. 0),
     sc_state = \<lparr>us_index = 0, us_facts = [v], us_atoms = [True], us_numeric = [7]\<rparr>, sc_auxiliary = 0\<rparr>"

theorem match_tree_correct_witness:
  "\<exists>r. match_tree (\<lambda>occ. occ) example_conditions (\<lambda>x. 2) [0, 1, 2] = Some (Inr r)
    \<and> mset (generate_applicable example_arithmetic (example_state 1) r) = {#0, 2#}
    \<and> mset (generate_applicable example_arithmetic (example_state 0) r) = {#1, 2#}"
proof -
  have "\<forall>e \<in> set [0, 1, 2]. good_condition (\<lambda>x. 2) (example_conditions e)"
    by (simp add: good_condition_def example_conditions_def is_consistent_def condition_consistent_def)
  from match_tree_correct [OF this, of "\<lambda>occ. occ"] obtain r where
    r: "match_tree (\<lambda>occ. occ) example_conditions (\<lambda>x. 2) [0, 1, 2] = Some (Inr r)"
      "\<forall>A sc. (\<forall>e \<in> set [0, 1, 2]. condition_in_domain (\<lambda>x. 2) sc (example_conditions e)) \<longrightarrow>
         mset (generate_applicable A sc r) = mset (filter (\<lambda>e. dynamically_applicable A sc (example_conditions e)) [0, 1, 2])" by auto
  have dom: "\<forall>e \<in> set [0, 1, 2]. condition_in_domain (\<lambda>x. 2) (example_state v) (example_conditions e)" if "v < 2" for v
    using that by (simp add: condition_in_domain_def example_conditions_def example_state_def us_get_fact_def)
  have "mset (generate_applicable example_arithmetic (example_state 1) r) = {#0, 2#}" "mset (generate_applicable example_arithmetic (example_state 0) r) = {#1, 2#}"
    using r(2) dom [of 1] dom [of 0]
    by (simp_all add: dynamically_applicable_def example_conditions_def example_state_def example_arithmetic_def fact_holds_def derived_holds_def
      us_get_fact_def us_test_def us_get_numeric_def vec_get_def)
  then show ?thesis using r(1) by blast
qed

end
