(* ===== verification/Ground_Axioms.thy ===== *)
theory Ground_Axioms
  imports Match_Tree Stratification
begin

text \<open>
  The axioms of ground tasks: their stratification (\<^verbatim>\<open>src/planning/ground_task/axiom_stratification.cpp\<close>, with the graph functions
  of Stratification), the match tree of each stratum (the constructor of \<^verbatim>\<open>src/planning/ground_task.cpp\<close>) and the evaluator of
  \<^verbatim>\<open>src/planning/ground_task/axiom_evaluator.cpp\<close>, which extends a state by its derived atoms. The main lemma says that the
  extension is the stable model of the axioms in the state and that there is only one.
\<close>

section \<open>Stratification\<close>

definition ground_dependency_graph :: "(nat \<Rightarrow> 'n gaxiom) \<Rightarrow> nat list \<Rightarrow> nat \<Rightarrow> graph" where
  "ground_dependency_graph ax axioms num_atoms =
     fold (\<lambda>x. fold (\<lambda>l. add_edge (fst l) (gx_head (ax x)) (if snd l then Non_Strict else Strict)) (gc_derived (gx_body (ax x)))) axioms
       \<lparr>gr_vertices = num_atoms, gr_edges = []\<rparr>"

definition push_axiom :: "(nat \<Rightarrow> nat) \<Rightarrow> nat \<Rightarrow> nat list list \<Rightarrow> nat list list" where
  "push_axiom level x buckets = buckets[level x := buckets ! level x @ [x]]"

definition compute_ground_axiom_stratification :: "boost \<Rightarrow> (nat \<Rightarrow> 'n gaxiom) \<Rightarrow> nat list \<Rightarrow> nat \<Rightarrow> stratification_error + nat list list" where
  "compute_ground_axiom_stratification B ax axioms num_atoms = (let dep = ground_dependency_graph ax axioms num_atoms
     in case compute_scc_and_check B dep of
       Inl e \<Rightarrow> Inl e
     | Inr (cmp, num_comps) \<Rightarrow>
         (let comp_stratum = compute_component_strata B (build_condensation_dag B dep cmp num_comps);
            atom_stratum = map (\<lambda>i. comp_stratum ! (cmp ! i)) [0..<num_atoms];
            max_s = fold max comp_stratum 0
          in Inr (fold (push_axiom (\<lambda>x. atom_stratum ! gx_head (ax x))) axioms (replicate (max_s + 1) []))))"

section \<open>The match trees of the strata\<close>

fun axiom_trees :: "('n occurrences \<Rightarrow> 'n occurrences) \<Rightarrow> (nat \<Rightarrow> 'n gaxiom) \<Rightarrow> (nat \<Rightarrow> nat) \<Rightarrow> nat list list \<Rightarrow> (match_error + 'n tree option list) option" where
  "axiom_trees hash_order ax domain_size [] = Some (Inr [])"
| "axiom_trees hash_order ax domain_size (s # strata) =
     (case match_tree hash_order (\<lambda>x. gx_body (ax x)) domain_size s of
        None \<Rightarrow> None
      | Some (Inl e) \<Rightarrow> Some (Inl e)
      | Some (Inr t) \<Rightarrow> (case axiom_trees hash_order ax domain_size strata of
            None \<Rightarrow> None
          | Some (Inl e) \<Rightarrow> Some (Inl e)
          | Some (Inr ts) \<Rightarrow> Some (Inr (t # ts))))"

section \<open>The evaluator\<close>

definition extend_step :: "(nat \<Rightarrow> 'n gaxiom) \<Rightarrow> nat \<Rightarrow> 'n unpacked_state \<times> bool \<Rightarrow> 'n unpacked_state \<times> bool" where
  "extend_step ax x ud = (case ud of (u, discovered) \<Rightarrow>
     (us_set_atom (gx_head (ax x)) u, if \<not> us_test (gx_head (ax x)) u then True else discovered))"

text \<open>The context refers to the state that is extended.\<close>

partial_function (option) saturate :: "'n arithmetic \<Rightarrow> (nat \<Rightarrow> 'n gaxiom) \<Rightarrow> 'n tree option \<Rightarrow> 'n state_context \<Rightarrow> 'n state_context option" where
  "saturate A ax t sc =
     (let (u, discovered) = fold (extend_step ax) (generate_applicable A sc t) (sc_state sc, False); sc = sc\<lparr>sc_state := u\<rparr>
      in if \<not> discovered then Some sc else saturate A ax t sc)"

fun saturate_all :: "'n arithmetic \<Rightarrow> (nat \<Rightarrow> 'n gaxiom) \<Rightarrow> 'n tree option list \<Rightarrow> 'n state_context \<Rightarrow> 'n state_context option" where
  "saturate_all A ax [] sc = Some sc"
| "saturate_all A ax (t # ts) sc = (case saturate A ax t sc of None \<Rightarrow> None | Some sc \<Rightarrow> saturate_all A ax ts sc)"

definition compute_extended_state ::
  "'n arithmetic \<Rightarrow> (nat \<Rightarrow> bool) \<Rightarrow> (nat \<Rightarrow> 'n) \<Rightarrow> (nat \<Rightarrow> 'n gaxiom) \<Rightarrow> 'n tree option list \<Rightarrow> 'n unpacked_state \<Rightarrow> 'n unpacked_state option" where
  "compute_extended_state A static values ax trees u =
     map_option sc_state (saturate_all A ax trees \<lparr>sc_static = static, sc_values = values, sc_state = u, sc_auxiliary = ar_zero A\<rparr>)"

section \<open>What strata derive\<close>

definition true_atoms :: "'n unpacked_state \<Rightarrow> nat set" where
  "true_atoms u = {a. a < length (us_atoms u) \<and> us_atoms u ! a}"

text \<open>The parts of a condition that do not depend on derived atoms.\<close>

definition base_holds :: "'n arithmetic \<Rightarrow> 'n state_context \<Rightarrow> 'n gcondition \<Rightarrow> bool" where
  "base_holds A sc c \<longleftrightarrow> list_all (fact_holds True sc) (gc_positive c) \<and> list_all (fact_holds False sc) (gc_negative c) \<and> list_all (gholds A sc) (gc_numeric c)"

text \<open>What the axioms of a stratum derive from a set of atoms; a negative literal speaks of that set.\<close>

inductive derives :: "'n arithmetic \<Rightarrow> 'n state_context \<Rightarrow> (nat \<Rightarrow> 'n gaxiom) \<Rightarrow> nat set \<Rightarrow> nat set \<Rightarrow> nat \<Rightarrow> bool"
  for A :: "'n arithmetic" and sc :: "'n state_context" and ax :: "nat \<Rightarrow> 'n gaxiom" and X I :: "nat set" where
  given: "a \<in> I \<Longrightarrow> derives A sc ax X I a"
| axiom: "x \<in> X \<Longrightarrow> base_holds A sc (gx_body (ax x)) \<Longrightarrow> (\<And>a. (a, True) \<in> set (gc_derived (gx_body (ax x))) \<Longrightarrow> derives A sc ax X I a)
    \<Longrightarrow> (\<And>a. (a, False) \<in> set (gc_derived (gx_body (ax x))) \<Longrightarrow> a \<notin> I) \<Longrightarrow> derives A sc ax X I (gx_head (ax x))"

definition stratum_model :: "'n arithmetic \<Rightarrow> 'n state_context \<Rightarrow> (nat \<Rightarrow> 'n gaxiom) \<Rightarrow> nat list \<Rightarrow> nat set \<Rightarrow> nat set" where
  "stratum_model A sc ax stratum I = {a. derives A sc ax (set stratum) I a}"

definition iterated_model :: "'n arithmetic \<Rightarrow> 'n state_context \<Rightarrow> (nat \<Rightarrow> 'n gaxiom) \<Rightarrow> nat list list \<Rightarrow> nat set" where
  "iterated_model A sc ax strata = fold (stratum_model A sc ax) strata {}"

section \<open>One stratum\<close>

text \<open>Contexts that differ in the derived atoms only.\<close>

definition same_base :: "'n state_context \<Rightarrow> 'n state_context \<Rightarrow> bool" where
  "same_base sc sc' \<longleftrightarrow> sc_static sc' = sc_static sc \<and> sc_values sc' = sc_values sc \<and> sc_auxiliary sc' = sc_auxiliary sc
     \<and> us_facts (sc_state sc') = us_facts (sc_state sc) \<and> us_numeric (sc_state sc') = us_numeric (sc_state sc)
     \<and> us_index (sc_state sc') = us_index (sc_state sc) \<and> length (us_atoms (sc_state sc')) = length (us_atoms (sc_state sc))"

lemma same_base_refl [simp]: "same_base sc sc"
  by (simp add: same_base_def)

lemma same_base_trans: "same_base sc sc' \<Longrightarrow> same_base sc' sc'' \<Longrightarrow> same_base sc sc''"
  by (simp add: same_base_def)

lemma same_base_sym: "same_base sc sc' \<Longrightarrow> same_base sc' sc"
  by (simp add: same_base_def)

lemma same_base_evaluate: "same_base sc sc' \<Longrightarrow> gevaluate A sc' e = gevaluate A sc e"
  by (induction A sc e rule: gevaluate.induct) (simp_all add: same_base_def us_get_numeric_def cong: map_cong)

lemma same_base_holds:
  assumes "same_base sc sc'"
  shows "gholds A sc' k = gholds A sc k" "fact_holds p sc' f = fact_holds p sc f" "base_holds A sc' c = base_holds A sc c"
    "condition_in_domain ds sc' c = condition_in_domain ds sc c"
proof -
  show k: "gholds A sc' k = gholds A sc k" for k by (cases k) (simp add: same_base_evaluate [OF assms])
  show f: "fact_holds p sc' f = fact_holds p sc f" for p f using assms by (simp add: same_base_def fact_holds_def us_get_fact_def)
  show "base_holds A sc' c = base_holds A sc c" by (simp add: base_holds_def k f list_all_iff)
  show "condition_in_domain ds sc' c = condition_in_domain ds sc c"
    using assms by (simp add: condition_in_domain_def same_base_def us_get_fact_def)
qed

lemma dynamically_applicable_base:
  assumes "\<forall>l \<in> set (gc_derived c). fst l < length (us_atoms (sc_state sc))"
  shows "dynamically_applicable A sc c \<longleftrightarrow> base_holds A sc c \<and> (\<forall>l \<in> set (gc_derived c). fst l \<in> true_atoms (sc_state sc) \<longleftrightarrow> snd l)"
  using assms by (auto simp: dynamically_applicable_def base_holds_def list_all_iff derived_holds_def us_test_def true_atoms_def)

text \<open>Setting the heads of axioms.\<close>

lemma fold_extend:
  assumes "\<forall>x \<in> set xs. gx_head (ax x) < length (us_atoms u)"
  shows "case fold (extend_step ax) xs (u, d) of (u', d') \<Rightarrow>
      us_facts u' = us_facts u \<and> us_numeric u' = us_numeric u \<and> us_index u' = us_index u \<and> length (us_atoms u') = length (us_atoms u)
      \<and> true_atoms u' = true_atoms u \<union> (\<lambda>x. gx_head (ax x)) ` set xs
      \<and> (d' \<longleftrightarrow> d \<or> \<not> (\<lambda>x. gx_head (ax x)) ` set xs \<subseteq> true_atoms u)"
  using assms
proof (induction xs arbitrary: u d)
  case (Cons x xs)
  let ?h = "gx_head (ax x)"
  have h: "?h < length (us_atoms u)" using Cons.prems by simp
  have t: "true_atoms (us_set_atom ?h u) = insert ?h (true_atoms u)"
    using h by (auto simp: true_atoms_def us_set_atom_def nth_list_update)
  have same: "length (us_atoms (us_set_atom ?h u)) = length (us_atoms u)" "us_facts (us_set_atom ?h u) = us_facts u"
    "us_numeric (us_set_atom ?h u) = us_numeric u" "us_index (us_set_atom ?h u) = us_index u" by (simp_all add: us_set_atom_def)
  have test: "us_test ?h u \<longleftrightarrow> ?h \<in> true_atoms u" using h by (simp add: us_test_def true_atoms_def)
  have step: "extend_step ax x (u, d) = (us_set_atom ?h u, d \<or> ?h \<notin> true_atoms u)" by (simp add: extend_step_def test)
  obtain u' d' where r: "fold (extend_step ax) xs (us_set_atom ?h u, d \<or> ?h \<notin> true_atoms u) = (u', d')" by force
  note IH = Cons.IH [of "us_set_atom ?h u" "d \<or> ?h \<notin> true_atoms u", unfolded r prod.case t same]
  have all: "fold (extend_step ax) (x # xs) (u, d) = (u', d')" using r step by simp
  have "\<forall>x \<in> set xs. gx_head (ax x) < length (us_atoms u)" using Cons.prems by simp
  note IH = IH [OF this]
  have "true_atoms u' = true_atoms u \<union> (\<lambda>x. gx_head (ax x)) ` set (x # xs)" using IH by auto
  moreover have "d' \<longleftrightarrow> d \<or> \<not> (\<lambda>x. gx_head (ax x)) ` set (x # xs) \<subseteq> true_atoms u" using IH by auto
  ultimately show ?case unfolding all prod.case using IH by blast
qed simp

lemma saturate_model:
  assumes gen: "\<And>sc'. same_base sc0 sc' \<Longrightarrow> set (generate_applicable A sc' t) = {x \<in> X. dynamically_applicable A sc' (gx_body (ax x))}"
    and range: "\<forall>x \<in> X. gx_head (ax x) < length (us_atoms (sc_state sc0)) \<and> (\<forall>l \<in> set (gc_derived (gx_body (ax x))). fst l < length (us_atoms (sc_state sc0)))"
    and free: "\<forall>x \<in> X. \<forall>l \<in> set (gc_derived (gx_body (ax x))). \<not> snd l \<longrightarrow> (\<forall>y \<in> X. gx_head (ax y) \<noteq> fst l)"
    and sc: "same_base sc0 sc" "I \<subseteq> true_atoms (sc_state sc)" "true_atoms (sc_state sc) \<subseteq> {a. derives A sc0 ax X I a}"
  shows "\<exists>sc'. saturate A ax t sc = Some sc' \<and> same_base sc0 sc' \<and> true_atoms (sc_state sc') = {a. derives A sc0 ax X I a}"
  using sc
proof (induction "length (us_atoms (sc_state sc0)) - card (true_atoms (sc_state sc))" arbitrary: sc rule: less_induct)
  case less
  let ?n = "length (us_atoms (sc_state sc0))" and ?T = "true_atoms (sc_state sc)" and ?M = "{a. derives A sc0 ax X I a}"
  let ?xs = "generate_applicable A sc t" and ?h = "\<lambda>x. gx_head (ax x)"
  have n: "length (us_atoms (sc_state sc)) = ?n" using less.prems(1) by (simp add: same_base_def)
  obtain u d where ud: "fold (extend_step ax) ?xs (sc_state sc, False) = (u, d)" by force
  note set_xs = gen [OF less.prems(1)]
  have "\<forall>x \<in> set ?xs. gx_head (ax x) < length (us_atoms (sc_state sc))" using range set_xs n by simp
  note ext = fold_extend [OF this, of False, unfolded ud prod.case]
  define sc1 where "sc1 = sc\<lparr>sc_state := u\<rparr>"
  have base: "same_base sc0 sc1" using less.prems(1) ext by (simp add: same_base_def sc1_def)
  have T1: "true_atoms (sc_state sc1) = ?T \<union> ?h ` set ?xs" using ext by (simp add: sc1_def)
  have in_M: "?h x \<in> ?M" if x: "x \<in> set ?xs" for x
  proof -
    have xX: "x \<in> X" "dynamically_applicable A sc (gx_body (ax x))" using x set_xs by auto
    then have "base_holds A sc0 (gx_body (ax x))" "\<forall>l \<in> set (gc_derived (gx_body (ax x))). fst l \<in> ?T \<longleftrightarrow> snd l"
      using dynamically_applicable_base [of "gx_body (ax x)" sc A] range n same_base_holds(3) [OF less.prems(1)] by auto
    then have "derives A sc0 ax X I (?h x)" using xX less.prems(2,3) by (intro derives.axiom) fastforce+
    then show ?thesis by simp
  qed
  have sub: "true_atoms (sc_state sc1) \<subseteq> ?M" "I \<subseteq> true_atoms (sc_state sc1)" using less.prems(2,3) in_M unfolding T1 by auto
  have fin: "finite (true_atoms v)" for v :: "'a unpacked_state" by (simp add: true_atoms_def)
  have loop: "saturate A ax t sc = (if \<not> d then Some sc1 else saturate A ax t sc1)"
    by (subst saturate.simps) (simp add: ud sc1_def)
  show ?case
  proof (cases d)
    case True
    then have "?T \<subset> true_atoms (sc_state sc1)" using ext unfolding T1 by auto
    then have "card ?T < card (true_atoms (sc_state sc1))" by (rule psubset_card_mono [OF fin])
    moreover have "card (true_atoms (sc_state sc1)) \<le> ?n"
      using base card_mono [of "{..<?n}" "true_atoms (sc_state sc1)"] by (auto simp: true_atoms_def same_base_def)
    ultimately show ?thesis using less.hyps [OF _ base sub(2,1)] True loop by simp
  next
    case False
    then have closed: "?h ` set ?xs \<subseteq> ?T" using ext by simp
    have "a \<in> ?T" if "derives A sc0 ax X I a" for a
      using that
    proof induction
      case (axiom x)
      have "fst l \<in> ?T \<longleftrightarrow> snd l" if l: "l \<in> set (gc_derived (gx_body (ax x)))" for l
      proof (cases "snd l")
        case True
        then show ?thesis using axiom.IH [of "fst l"] l by (metis prod.collapse)
      next
        case False
        then have "fst l \<notin> I" using axiom.hyps l by (metis prod.collapse)
        moreover have "\<forall>y \<in> X. ?h y \<noteq> fst l" using free axiom.hyps(1) l False by blast
        ultimately have "\<not> derives A sc0 ax X I (fst l)"
        proof (intro notI)
          assume "derives A sc0 ax X I (fst l)"
          then show False by cases (use \<open>fst l \<notin> I\<close> \<open>\<forall>y \<in> X. ?h y \<noteq> fst l\<close> in auto)
        qed
        then show ?thesis using less.prems(3) False by auto
      qed
      then have "dynamically_applicable A sc (gx_body (ax x))"
        using dynamically_applicable_base [of "gx_body (ax x)" sc A] range n axiom.hyps(1,2) same_base_holds(3) [OF less.prems(1)] by auto
      then have "x \<in> set ?xs" using set_xs axiom.hyps(1) by simp
      then show ?case using closed by auto
    qed (use less.prems(2) in blast)
    then have "true_atoms (sc_state sc1) = ?M" using sub closed unfolding T1 by auto
    then show ?thesis using loop False base by simp
  qed
qed

section \<open>The strata of the axioms\<close>

text \<open>An axiom as a rule of the datalog formalism: its atoms are predicates without arguments.\<close>

definition axiom_rule :: "'n gaxiom \<Rightarrow> rule" where
  "axiom_rule x = \<lparr>rl_predicate = gx_head x, rl_terms = [], rl_body = \<lparr>cond_arity = 0, cond_static = [],
     cond_fluent = map (\<lambda>l. make_literal (fst l) (snd l) []) (gc_derived (gx_body x)), cond_numeric = []\<rparr>, rl_cost = 0\<rparr>"

abbreviation axiom_rules :: "(nat \<Rightarrow> 'n gaxiom) \<Rightarrow> nat list \<Rightarrow> rule list" where
  "axiom_rules ax axioms \<equiv> map (\<lambda>x. axiom_rule (ax x)) axioms"

lemma axiom_rule_simps [simp]: "rl_predicate (axiom_rule x) = gx_head x"
  "cond_fluent (rl_body (axiom_rule x)) = map (\<lambda>l. make_literal (fst l) (snd l) []) (gc_derived (gx_body x))"
  by (simp_all add: axiom_rule_def)

lemma literal_of_axiom [simp]: "ll_predicate (make_literal p b ts) = p" "ll_polarity (make_literal p b ts) = b"
  by (simp_all add: make_literal_def)

lemma ground_dependency_graph_eq: "ground_dependency_graph ax axioms n = build_dependency_graph (axiom_rules ax axioms) n"
  by (simp add: ground_dependency_graph_def build_dependency_graph_def fold_map comp_def)

lemma push_axioms:
  assumes "\<forall>i \<in> set is'. level' i = level (f i)"
  shows "fold (push_axiom level) (map f is') (map (map f) buckets) = map (map f) (fold (push_rule level') is' buckets)"
  using assms
proof (induction is' arbitrary: buckets)
  case (Cons i is')
  have "push_axiom level (f i) (map (map f) buckets) = map (map f) (push_rule level' i buckets)"
    using Cons.prems by (cases "level (f i) < length buckets") (simp_all add: push_axiom_def push_rule_def map_update list_update_beyond)
  then show ?case using Cons by simp
qed simp

lemma ground_stratification_eq:
  "compute_ground_axiom_stratification B ax axioms n
    = map_sum id (map (map (\<lambda>i. axioms ! i))) (compute_rule_stratification B (axiom_rules ax axioms) n)"
proof -
  have *: "fold (push_axiom (\<lambda>x. lv ! gx_head (ax x))) axioms (replicate k [])
      = map (map (\<lambda>i. axioms ! i)) (fold (push_rule (\<lambda>i. lv ! rl_predicate (axiom_rules ax axioms ! i))) [0..<length axioms] (replicate k []))" for lv :: "nat list" and k
    using push_axioms [of "[0..<length axioms]" "\<lambda>i. lv ! rl_predicate (axiom_rules ax axioms ! i)" "\<lambda>x. lv ! gx_head (ax x)" "\<lambda>i. axioms ! i" "replicate k []"]
    by (simp add: map_nth)
  show ?thesis
    unfolding compute_ground_axiom_stratification_def compute_rule_stratification_def ground_dependency_graph_eq Let_def *
    by (simp split: sum.split)
qed

definition axiom_strata :: "(nat \<Rightarrow> nat) \<Rightarrow> (nat \<Rightarrow> 'n gaxiom) \<Rightarrow> nat list \<Rightarrow> nat \<Rightarrow> nat list list" where
  "axiom_strata level ax axioms m = map (\<lambda>k. filter (\<lambda>x. level (gx_head (ax x)) = k) axioms) [0..<m]"

lemma rule_strata_axioms: "map (map (\<lambda>i. axioms ! i)) (rule_strata level (axiom_rules ax axioms) m) = axiom_strata level ax axioms m"
proof -
  have "map (\<lambda>i. axioms ! i) (filter (\<lambda>i. level (rl_predicate (axiom_rules ax axioms ! i)) = k) [0..<length axioms])
      = filter (\<lambda>x. level (gx_head (ax x)) = k) axioms" for k
  proof -
    have "filter (\<lambda>i. level (rl_predicate (axiom_rules ax axioms ! i)) = k) [0..<length axioms]
        = filter ((\<lambda>x. level (gx_head (ax x)) = k) \<circ> (\<lambda>i. axioms ! i)) [0..<length axioms]" by (rule filter_cong) simp_all
    then show ?thesis by (metis filter_map map_nth)
  qed
  then show ?thesis by (simp add: rule_strata_def axiom_strata_def)
qed

definition axioms_in_range :: "(nat \<Rightarrow> 'n gaxiom) \<Rightarrow> nat list \<Rightarrow> nat \<Rightarrow> bool" where
  "axioms_in_range ax axioms n \<longleftrightarrow> (\<forall>x \<in> set axioms. gx_head (ax x) < n \<and> (\<forall>l \<in> set (gc_derived (gx_body (ax x))). fst l < n))"

definition stratified_axioms :: "(nat \<Rightarrow> nat) \<Rightarrow> (nat \<Rightarrow> 'n gaxiom) \<Rightarrow> nat list \<Rightarrow> bool" where
  "stratified_axioms level ax axioms \<longleftrightarrow> (\<forall>x \<in> set axioms. \<forall>l \<in> set (gc_derived (gx_body (ax x))).
     if snd l then level (fst l) \<le> level (gx_head (ax x)) else level (fst l) < level (gx_head (ax x)))"

lemma ground_stratification_outcome:
  assumes "axioms_in_range ax axioms n" "boost_fits B (axiom_rules ax axioms) n"
  shows "compute_ground_axiom_stratification B ax axioms n = Inl Not_Stratifiable \<and> negative_cycle (axiom_rules ax axioms)
    \<or> (\<exists>level m. compute_ground_axiom_stratification B ax axioms n = Inr (axiom_strata level ax axioms m) \<and> stratified_axioms level ax axioms
        \<and> (\<forall>x \<in> set axioms. level (gx_head (ax x)) < m))"
proof -
  have range: "rules_in_range (axiom_rules ax axioms) n" using assms(1) by (simp add: rules_in_range_def axioms_in_range_def)
  have "stratifies level (axiom_rules ax axioms) \<longleftrightarrow> stratified_axioms level ax axioms" for level
    by (simp add: stratifies_def stratified_axioms_def)
  then show ?thesis
    using stratification_outcome [OF range assms(2)] unfolding ground_stratification_eq least_stratification_def
    by (elim disjE exE conjE) (auto simp: rule_strata_axioms)
qed

section \<open>The extension of a state\<close>

lemma derives_base:
  assumes "same_base sc sc'"
  shows "derives A sc' ax X I a \<longleftrightarrow> derives A sc ax X I a"
proof -
  have "derives A sc2 ax X I a" if "derives A sc1 ax X I a" "same_base sc1 sc2" for sc1 sc2
    using that(1)
  proof induction
    case (axiom x)
    then show ?case using same_base_holds(3) [OF that(2)] by (intro derives.axiom) auto
  qed (rule derives.given)
  then show ?thesis using assms same_base_sym by blast
qed

lemma stratum_model_base: "same_base sc sc' \<Longrightarrow> stratum_model A sc' = stratum_model A sc"
  by (intro ext) (simp add: stratum_model_def derives_base)

text \<open>The trees of strata generate the applicable axioms.\<close>

definition generates :: "(nat \<Rightarrow> 'n gaxiom) \<Rightarrow> (nat \<Rightarrow> nat) \<Rightarrow> 'n tree option \<Rightarrow> nat list \<Rightarrow> bool" where
  "generates ax domain_size t xs \<longleftrightarrow> (\<forall>A sc. (\<forall>x \<in> set xs. condition_in_domain domain_size sc (gx_body (ax x))) \<longrightarrow>
     set (generate_applicable A sc t) = {x \<in> set xs. dynamically_applicable A sc (gx_body (ax x))})"

lemma axiom_trees_generate:
  assumes "\<forall>s \<in> set strata. \<forall>x \<in> set s. good_condition domain_size (gx_body (ax x))" "\<And>occ. mset (hash_order occ) = mset occ"
  shows "\<exists>ts. axiom_trees hash_order ax domain_size strata = Some (Inr ts) \<and> list_all2 (generates ax domain_size) ts strata"
  using assms(1)
proof (induction strata)
  case (Cons s strata)
  have "\<forall>x \<in> set s. good_condition domain_size (gx_body (ax x))" using Cons.prems by simp
  from match_tree_generates [OF this assms(2)] obtain t where
    t: "match_tree hash_order (\<lambda>x. gx_body (ax x)) domain_size s = Some (Inr t)"
      "\<And>A sc. \<forall>x \<in> set s. condition_in_domain domain_size sc (gx_body (ax x)) \<Longrightarrow>
        mset (generate_applicable A sc t) = mset (filter (\<lambda>x. dynamically_applicable A sc (gx_body (ax x))) s)" by blast
  have "generates ax domain_size t s" unfolding generates_def
  proof (intro allI impI)
    fix A :: "'a arithmetic" and sc :: "'a state_context"
    assume "\<forall>x \<in> set s. condition_in_domain domain_size sc (gx_body (ax x))"
    from mset_eq_setD [OF t(2) [OF this, of A]] show "set (generate_applicable A sc t) = {x \<in> set s. dynamically_applicable A sc (gx_body (ax x))}" by simp
  qed
  then show ?case using Cons t(1) by auto
qed simp

lemma saturate_all_model:
  assumes "list_all2 (generates ax domain_size) ts (map (\<lambda>k. filter (\<lambda>x. level (gx_head (ax x)) = k) axioms) ks)"
    and "axioms_in_range ax axioms (length (us_atoms (sc_state sc0)))" "stratified_axioms level ax axioms"
    and "\<forall>x \<in> set axioms. condition_in_domain domain_size sc0 (gx_body (ax x))" "same_base sc0 sc"
  shows "\<exists>sc'. saturate_all A ax ts sc = Some sc' \<and> same_base sc0 sc'
    \<and> true_atoms (sc_state sc') = fold (stratum_model A sc0 ax) (map (\<lambda>k. filter (\<lambda>x. level (gx_head (ax x)) = k) axioms) ks) (true_atoms (sc_state sc))"
  using assms(1,5)
proof (induction ks arbitrary: ts sc)
  case (Cons k ks)
  let ?s = "filter (\<lambda>x. level (gx_head (ax x)) = k) axioms"
  obtain t ts' where ts: "ts = t # ts'" "generates ax domain_size t ?s"
    "list_all2 (generates ax domain_size) ts' (map (\<lambda>k. filter (\<lambda>x. level (gx_head (ax x)) = k) axioms) ks)"
    using Cons.prems(1) by (auto simp: list_all2_Cons2)
  have gen: "set (generate_applicable A sc' t) = {x \<in> set ?s. dynamically_applicable A sc' (gx_body (ax x))}" if "same_base sc sc'" for sc'
  proof -
    have "same_base sc0 sc'" using that Cons.prems(2) same_base_trans by blast
    then have "\<forall>x \<in> set ?s. condition_in_domain domain_size sc' (gx_body (ax x))" using assms(4) same_base_holds(4) by (metis filter_is_subset subsetD)
    then show ?thesis using ts(2) unfolding generates_def by blast
  qed
  have n: "length (us_atoms (sc_state sc)) = length (us_atoms (sc_state sc0))" using Cons.prems(2) by (simp add: same_base_def)
  have range: "\<forall>x \<in> set ?s. gx_head (ax x) < length (us_atoms (sc_state sc)) \<and> (\<forall>l \<in> set (gc_derived (gx_body (ax x))). fst l < length (us_atoms (sc_state sc)))"
    using assms(2) n by (auto simp: axioms_in_range_def)
  have free: "\<forall>x \<in> set ?s. \<forall>l \<in> set (gc_derived (gx_body (ax x))). \<not> snd l \<longrightarrow> (\<forall>y \<in> set ?s. gx_head (ax y) \<noteq> fst l)"
    using assms(3) unfolding stratified_axioms_def by fastforce
  have "true_atoms (sc_state sc) \<subseteq> {a. derives A sc ax (set ?s) (true_atoms (sc_state sc)) a}" by (auto intro: derives.given)
  from saturate_model [OF gen range free same_base_refl subset_refl this] obtain sc1 where
    sc1: "saturate A ax t sc = Some sc1" "same_base sc sc1" "true_atoms (sc_state sc1) = stratum_model A sc ax ?s (true_atoms (sc_state sc))"
    unfolding stratum_model_def by blast
  have base: "same_base sc0 sc1" using sc1(2) Cons.prems(2) same_base_trans by blast
  from Cons.IH [OF ts(3) base] show ?case
    using sc1(1,3) stratum_model_base [OF Cons.prems(2), of A] by (simp add: ts(1))
qed simp

text \<open>An evaluator for the strata of a stratification: it extends states by what the strata derive one after the other.\<close>

definition extends_strata :: "(nat \<Rightarrow> 'n gaxiom) \<Rightarrow> nat list \<Rightarrow> (nat \<Rightarrow> nat) \<Rightarrow> nat \<Rightarrow> nat list list \<Rightarrow> 'n tree option list \<Rightarrow> bool" where
  "extends_strata ax axioms domain_size n strata trees \<longleftrightarrow> (\<forall>A sc. length (us_atoms (sc_state sc)) = n \<and> true_atoms (sc_state sc) = {} \<and> sc_auxiliary sc = ar_zero A
      \<and> (\<forall>x \<in> set axioms. condition_in_domain domain_size sc (gx_body (ax x))) \<longrightarrow>
     (\<exists>atoms. compute_extended_state A (sc_static sc) (sc_values sc) ax trees (sc_state sc) = Some ((sc_state sc)\<lparr>us_atoms := atoms\<rparr>)
        \<and> length atoms = n \<and> {a. a < n \<and> atoms ! a} = iterated_model A sc ax strata))"

lemma axiom_strata_extend:
  assumes "axioms_in_range ax axioms n" "stratified_axioms level ax axioms"
    and "\<forall>x \<in> set axioms. good_condition domain_size (gx_body (ax x))" "\<And>occ. mset (hash_order occ) = mset occ"
  shows "\<exists>trees. axiom_trees hash_order ax domain_size (axiom_strata level ax axioms m) = Some (Inr trees)
    \<and> extends_strata ax axioms domain_size n (axiom_strata level ax axioms m) trees"
proof -
  have "\<forall>s \<in> set (axiom_strata level ax axioms m). \<forall>x \<in> set s. good_condition domain_size (gx_body (ax x))"
    using assms(3) by (auto simp: axiom_strata_def)
  from axiom_trees_generate [OF this assms(4)] obtain ts where
    ts: "axiom_trees hash_order ax domain_size (axiom_strata level ax axioms m) = Some (Inr ts)"
      "list_all2 (generates ax domain_size) ts (axiom_strata level ax axioms m)" by blast
  have "\<exists>atoms. compute_extended_state A (sc_static sc) (sc_values sc) ax ts (sc_state sc) = Some ((sc_state sc)\<lparr>us_atoms := atoms\<rparr>)
      \<and> length atoms = n \<and> {a. a < n \<and> atoms ! a} = iterated_model A sc ax (axiom_strata level ax axioms m)"
    if sc: "length (us_atoms (sc_state sc)) = n" "true_atoms (sc_state sc) = {}" "sc_auxiliary sc = ar_zero A"
      "\<forall>x \<in> set axioms. condition_in_domain domain_size sc (gx_body (ax x))" for A sc
  proof -
    have start: "\<lparr>sc_static = sc_static sc, sc_values = sc_values sc, sc_state = sc_state sc, sc_auxiliary = ar_zero A\<rparr> = sc" using sc(3) by simp
    from saturate_all_model [OF ts(2) [unfolded axiom_strata_def] _ assms(2) sc(4) same_base_refl, of A] assms(1) sc(1) obtain sc' where
      sc': "saturate_all A ax ts sc = Some sc'" "same_base sc sc'"
        "true_atoms (sc_state sc') = iterated_model A sc ax (axiom_strata level ax axioms m)"
      unfolding sc(2) iterated_model_def axiom_strata_def by blast
    have "sc_state sc' = (sc_state sc)\<lparr>us_atoms := us_atoms (sc_state sc')\<rparr>" "length (us_atoms (sc_state sc')) = n"
      using sc'(2) sc(1) by (simp_all add: same_base_def)
    moreover from this(2) have "{a. a < n \<and> us_atoms (sc_state sc') ! a} = true_atoms (sc_state sc')" by (simp add: true_atoms_def)
    ultimately show ?thesis using sc'(1,3) unfolding compute_extended_state_def start by (intro exI [of _ "us_atoms (sc_state sc')"]) simp
  qed
  then show ?thesis using ts(1) unfolding extends_strata_def by blast
qed

section \<open>The levels of a stratification\<close>

lemma stratum_model_increases: "I \<subseteq> stratum_model A sc ax s I"
  by (auto simp: stratum_model_def intro: derives.given)

lemma stratum_model_adds: "a \<in> stratum_model A sc ax s I \<Longrightarrow> a \<in> I \<or> (\<exists>x \<in> set s. gx_head (ax x) = a)"
  by (auto simp: stratum_model_def elim: derives.cases)

definition model_below :: "'n arithmetic \<Rightarrow> 'n state_context \<Rightarrow> (nat \<Rightarrow> nat) \<Rightarrow> (nat \<Rightarrow> 'n gaxiom) \<Rightarrow> nat list \<Rightarrow> nat \<Rightarrow> nat set" where
  "model_below A sc level ax axioms k = iterated_model A sc ax (axiom_strata level ax axioms k)"

lemma model_below_step:
  "model_below A sc level ax axioms 0 = {}"
  "model_below A sc level ax axioms (Suc k) = stratum_model A sc ax (filter (\<lambda>x. level (gx_head (ax x)) = k) axioms) (model_below A sc level ax axioms k)"
  by (simp_all add: model_below_def iterated_model_def axiom_strata_def)

lemma model_below_mono: "k \<le> j \<Longrightarrow> model_below A sc level ax axioms k \<subseteq> model_below A sc level ax axioms j"
  by (induction j rule: dec_induct) (use stratum_model_increases in \<open>fastforce simp: model_below_step\<close>)+

text \<open>Later strata do not change the atoms of a level.\<close>

lemma model_below_settled:
  assumes "level a < k" "k \<le> j"
  shows "a \<in> model_below A sc level ax axioms j \<longleftrightarrow> a \<in> model_below A sc level ax axioms k"
  using assms(2)
proof (induction j rule: dec_induct)
  case (step j)
  have "a \<in> model_below A sc level ax axioms (Suc j) \<longleftrightarrow> a \<in> model_below A sc level ax axioms j"
    using stratum_model_adds stratum_model_increases step.hyps assms(1) by (fastforce simp: model_below_step)
  then show ?case using step by simp
qed simp

lemma model_supported:
  assumes "stratified_axioms level ax axioms" "\<forall>x \<in> set axioms. level (gx_head (ax x)) < m"
  shows "a \<in> model_below A sc level ax axioms m \<longleftrightarrow> (\<exists>x \<in> set axioms. gx_head (ax x) = a \<and> base_holds A sc (gx_body (ax x))
    \<and> (\<forall>l \<in> set (gc_derived (gx_body (ax x))). fst l \<in> model_below A sc level ax axioms m \<longleftrightarrow> snd l))"
proof
  assume a: "a \<in> model_below A sc level ax axioms m"
  define k where "k = (LEAST k. a \<in> model_below A sc level ax axioms (Suc k))"
  obtain m' where m': "m = Suc m'" using a by (cases m) (auto simp: model_below_step)
  have k: "a \<in> model_below A sc level ax axioms (Suc k)" unfolding k_def using a m' by (metis LeastI)
  have km: "Suc k \<le> m" unfolding k_def m' using a m' by (metis Least_le Suc_le_mono)
  have new: "a \<notin> model_below A sc level ax axioms k"
  proof (cases k)
    case (Suc k')
    then show ?thesis using not_less_Least [of k' "\<lambda>k. a \<in> model_below A sc level ax axioms (Suc k)"] by (simp add: k_def [symmetric])
  qed (simp add: model_below_step)
  let ?s = "filter (\<lambda>x. level (gx_head (ax x)) = k) axioms"
  have "derives A sc ax (set ?s) (model_below A sc level ax axioms k) a" using k by (simp add: model_below_step stratum_model_def)
  then show "\<exists>x \<in> set axioms. gx_head (ax x) = a \<and> base_holds A sc (gx_body (ax x))
    \<and> (\<forall>l \<in> set (gc_derived (gx_body (ax x))). fst l \<in> model_below A sc level ax axioms m \<longleftrightarrow> snd l)"
  proof cases
    case (axiom x)
    have x: "x \<in> set axioms" "level (gx_head (ax x)) = k" using axiom(2) by auto
    have "fst l \<in> model_below A sc level ax axioms m \<longleftrightarrow> snd l" if l: "l \<in> set (gc_derived (gx_body (ax x)))" for l
    proof (cases "snd l")
      case True
      then have "derives A sc ax (set ?s) (model_below A sc level ax axioms k) (fst l)" using axiom(4) l by (metis prod.collapse)
      then have "fst l \<in> model_below A sc level ax axioms (Suc k)" by (simp add: model_below_step stratum_model_def)
      then show ?thesis using True model_below_mono [OF km] by blast
    next
      case False
      then have "fst l \<notin> model_below A sc level ax axioms k" using axiom(5) l by (metis prod.collapse)
      moreover have "level (fst l) < k" using assms(1) x l False unfolding stratified_axioms_def by metis
      ultimately show ?thesis using False model_below_settled [of level "fst l" k m A sc ax axioms] km by simp
    qed
    then show ?thesis using x(1) axiom(1,3) by blast
  qed (use new in blast)
next
  assume "\<exists>x \<in> set axioms. gx_head (ax x) = a \<and> base_holds A sc (gx_body (ax x))
    \<and> (\<forall>l \<in> set (gc_derived (gx_body (ax x))). fst l \<in> model_below A sc level ax axioms m \<longleftrightarrow> snd l)"
  then obtain x where x: "x \<in> set axioms" "gx_head (ax x) = a" "base_holds A sc (gx_body (ax x))"
    and body: "\<forall>l \<in> set (gc_derived (gx_body (ax x))). fst l \<in> model_below A sc level ax axioms m \<longleftrightarrow> snd l" by blast
  define k where "k = level (gx_head (ax x))"
  let ?s = "filter (\<lambda>x. level (gx_head (ax x)) = k) axioms"
  have km: "Suc k \<le> m" using assms(2) x(1) by (simp add: k_def Suc_le_eq)
  have "derives A sc ax (set ?s) (model_below A sc level ax axioms k) (gx_head (ax x))"
  proof (rule derives.axiom)
    show "x \<in> set ?s" using x(1) by (simp add: k_def)
    show "base_holds A sc (gx_body (ax x))" by (rule x(3))
  next
    fix b assume b: "(b, True) \<in> set (gc_derived (gx_body (ax x)))"
    have "level b \<le> k" using assms(1) x(1) b unfolding stratified_axioms_def k_def by fastforce
    moreover have "b \<in> model_below A sc level ax axioms m" using body b by fastforce
    ultimately have "b \<in> model_below A sc level ax axioms (Suc k)" using model_below_settled [of level b "Suc k" m A sc ax axioms] km by simp
    then show "derives A sc ax (set ?s) (model_below A sc level ax axioms k) b" by (simp add: model_below_step stratum_model_def)
  next
    fix b assume "(b, False) \<in> set (gc_derived (gx_body (ax x)))"
    then have "b \<notin> model_below A sc level ax axioms m" using body by fastforce
    then show "b \<notin> model_below A sc level ax axioms k" using model_below_mono [of k m A sc level ax axioms] km by auto
  qed
  then have "a \<in> model_below A sc level ax axioms (Suc k)" using x(2) by (simp add: model_below_step stratum_model_def)
  then show "a \<in> model_below A sc level ax axioms m" using model_below_mono [OF km] by blast
qed

section \<open>Stable models\<close>

text \<open>
  The meaning of axioms without a stratification: a set of atoms is a stable model if it is what the axioms derive when an axiom may
  be used as long as its negated atoms are not in the set.
\<close>

inductive founded :: "'n arithmetic \<Rightarrow> 'n state_context \<Rightarrow> (nat \<Rightarrow> 'n gaxiom) \<Rightarrow> nat list \<Rightarrow> nat set \<Rightarrow> nat \<Rightarrow> bool"
  for A :: "'n arithmetic" and sc :: "'n state_context" and ax :: "nat \<Rightarrow> 'n gaxiom" and axioms :: "nat list" and M :: "nat set" where
  founded_axiom: "x \<in> set axioms \<Longrightarrow> base_holds A sc (gx_body (ax x)) \<Longrightarrow> (\<And>a. (a, True) \<in> set (gc_derived (gx_body (ax x))) \<Longrightarrow> founded A sc ax axioms M a)
    \<Longrightarrow> (\<And>a. (a, False) \<in> set (gc_derived (gx_body (ax x))) \<Longrightarrow> a \<notin> M) \<Longrightarrow> founded A sc ax axioms M (gx_head (ax x))"

definition stable_model :: "'n arithmetic \<Rightarrow> 'n state_context \<Rightarrow> (nat \<Rightarrow> 'n gaxiom) \<Rightarrow> nat list \<Rightarrow> nat set \<Rightarrow> bool" where
  "stable_model A sc ax axioms M \<longleftrightarrow> M = {a. founded A sc ax axioms M a}"

text \<open>Stratified axioms have a stable model, which the strata derive, and no other.\<close>

lemma model_stable:
  assumes "stratified_axioms level ax axioms" "\<forall>x \<in> set axioms. level (gx_head (ax x)) < m"
  shows "stable_model A sc ax axioms (model_below A sc level ax axioms m)"
proof -
  let ?M = "model_below A sc level ax axioms"
  have into: "a \<in> ?M m" if "founded A sc ax axioms (?M m) a" for a
    using that
  proof induction
    case (founded_axiom x)
    have "fst l \<in> ?M m \<longleftrightarrow> snd l" if "l \<in> set (gc_derived (gx_body (ax x)))" for l
      using founded_axiom.IH [of "fst l"] founded_axiom.hyps(4) [of "fst l"] that by (cases l; cases "snd l") auto
    then show ?case using model_supported [OF assms, of "gx_head (ax x)" A sc] founded_axiom.hyps(1,2) by blast
  qed
  have from_below: "founded A sc ax axioms (?M m) a" if "k \<le> m" "a \<in> ?M k" for a k
    using that
  proof (induction k arbitrary: a)
    case 0
    then show ?case by (simp add: model_below_step)
  next
    case (Suc k)
    let ?s = "filter (\<lambda>x. level (gx_head (ax x)) = k) axioms"
    have "derives A sc ax (set ?s) (?M k) a" using Suc.prems(2) by (simp add: model_below_step stratum_model_def)
    then show ?case
    proof induction
      case (given a)
      then show ?case using Suc.IH Suc.prems(1) by simp
    next
      case (axiom x)
      have x: "x \<in> set axioms" "level (gx_head (ax x)) = k" using axiom.hyps(1) by auto
      show ?case
      proof (rule founded.founded_axiom [where x = x and ax = ax, OF x(1) axiom.hyps(2)])
        fix b assume "(b, True) \<in> set (gc_derived (gx_body (ax x)))"
        then show "founded A sc ax axioms (?M m) b" by (rule axiom.IH)
      next
        fix b assume b: "(b, False) \<in> set (gc_derived (gx_body (ax x)))"
        have "level b < k" using assms(1) x b unfolding stratified_axioms_def by fastforce
        moreover have "b \<notin> ?M k" using axiom.hyps(4) b by blast
        ultimately show "b \<notin> ?M m" using model_below_settled [of level b k m A sc ax axioms] Suc.prems(1) by simp
      qed
    qed
  qed
  show ?thesis unfolding stable_model_def using into from_below [of m] by blast
qed

lemma founded_level:
  assumes "stratified_axioms level ax axioms" "\<And>b. level b < k \<Longrightarrow> b \<in> M \<longleftrightarrow> b \<in> M'" "founded A sc ax axioms M a"
  shows "level a \<le> k \<Longrightarrow> founded A sc ax axioms M' a"
  using assms(3)
proof induction
  case (founded_axiom x)
  have lits: "if snd l then level (fst l) \<le> level (gx_head (ax x)) else level (fst l) < level (gx_head (ax x))"
    if "l \<in> set (gc_derived (gx_body (ax x)))" for l using assms(1) founded_axiom.hyps(1) that unfolding stratified_axioms_def by blast
  show ?case
  proof (rule founded.founded_axiom [where x = x and ax = ax, OF founded_axiom.hyps(1,2)])
    fix b assume b: "(b, True) \<in> set (gc_derived (gx_body (ax x)))"
    then show "founded A sc ax axioms M' b" using founded_axiom.IH [OF b] lits [OF b] founded_axiom.prems by simp
  next
    fix b assume b: "(b, False) \<in> set (gc_derived (gx_body (ax x)))"
    then show "b \<notin> M'" using founded_axiom.hyps(4) [OF b] lits [OF b] founded_axiom.prems assms(2) by simp
  qed
qed

lemma stable_unique:
  assumes "stratified_axioms level ax axioms" "stable_model A sc ax axioms M" "stable_model A sc ax axioms M'"
  shows "M = M'"
proof -
  have M: "a \<in> M \<longleftrightarrow> founded A sc ax axioms M a" "a \<in> M' \<longleftrightarrow> founded A sc ax axioms M' a" for a
    using assms(2,3) unfolding stable_model_def by blast+
  have "a \<in> M \<longleftrightarrow> a \<in> M'" for a
  proof (induction "level a" arbitrary: a rule: less_induct)
    case less
    have below: "b \<in> M \<longleftrightarrow> b \<in> M'" if "level b < level a" for b using less that by blast
    show ?case
      unfolding M using founded_level [where A = A and sc = sc and a = a, OF assms(1) below]
        founded_level [where A = A and sc = sc and a = a, OF assms(1) below [symmetric]] by blast
  qed
  then show ?thesis by blast
qed

text \<open>An evaluator extends every state without derived atoms by the atoms of the only stable model and changes nothing else of it.\<close>

definition extends :: "(nat \<Rightarrow> 'n gaxiom) \<Rightarrow> nat list \<Rightarrow> (nat \<Rightarrow> nat) \<Rightarrow> nat \<Rightarrow> 'n tree option list \<Rightarrow> bool" where
  "extends ax axioms domain_size n trees \<longleftrightarrow> (\<forall>A sc. length (us_atoms (sc_state sc)) = n \<and> true_atoms (sc_state sc) = {} \<and> sc_auxiliary sc = ar_zero A
      \<and> (\<forall>x \<in> set axioms. condition_in_domain domain_size sc (gx_body (ax x))) \<longrightarrow>
     (\<exists>atoms. compute_extended_state A (sc_static sc) (sc_values sc) ax trees (sc_state sc) = Some ((sc_state sc)\<lparr>us_atoms := atoms\<rparr>)
        \<and> length atoms = n \<and> stable_model A sc ax axioms {a. a < n \<and> atoms ! a}
        \<and> (\<forall>M. stable_model A sc ax axioms M \<longrightarrow> M = {a. a < n \<and> atoms ! a})))"

lemma strata_extend:
  assumes "extends_strata ax axioms domain_size n (axiom_strata level ax axioms m) trees" "stratified_axioms level ax axioms"
    and "\<forall>x \<in> set axioms. level (gx_head (ax x)) < m"
  shows "extends ax axioms domain_size n trees"
  unfolding extends_def
proof (intro allI impI)
  fix A :: "'a arithmetic" and sc :: "'a state_context"
  assume "length (us_atoms (sc_state sc)) = n \<and> true_atoms (sc_state sc) = {} \<and> sc_auxiliary sc = ar_zero A
      \<and> (\<forall>x \<in> set axioms. condition_in_domain domain_size sc (gx_body (ax x)))"
  then obtain atoms where atoms: "compute_extended_state A (sc_static sc) (sc_values sc) ax trees (sc_state sc) = Some ((sc_state sc)\<lparr>us_atoms := atoms\<rparr>)"
    "length atoms = n" "{a. a < n \<and> atoms ! a} = model_below A sc level ax axioms m"
    using assms(1) unfolding extends_strata_def model_below_def by blast
  have "stable_model A sc ax axioms {a. a < n \<and> atoms ! a}" unfolding atoms(3) by (rule model_stable [OF assms(2,3)])
  then show "\<exists>atoms. compute_extended_state A (sc_static sc) (sc_values sc) ax trees (sc_state sc) = Some ((sc_state sc)\<lparr>us_atoms := atoms\<rparr>)
        \<and> length atoms = n \<and> stable_model A sc ax axioms {a. a < n \<and> atoms ! a}
        \<and> (\<forall>M. stable_model A sc ax axioms M \<longrightarrow> M = {a. a < n \<and> atoms ! a})"
    using atoms(1,2) stable_unique [OF assms(2)] by blast
qed

text \<open>C12: Axioms with a negated atom on a cycle are rejected. For all others the match trees of the strata are built and the evaluator
  returns: it extends every state without derived atoms whose values are in the domains by exactly the atoms of the stable model of
  the axioms, of which there is only one, and changes nothing else of the state. The stable model is defined by the axioms alone.\<close>

theorem compute_extended_state_correct:
  assumes "axioms_in_range ax axioms n" "boost_fits B (axiom_rules ax axioms) n"
    and "\<forall>x \<in> set axioms. good_condition domain_size (gx_body (ax x))" "\<And>occ. mset (hash_order occ) = mset occ"
  shows "case compute_ground_axiom_stratification B ax axioms n of
      Inl e \<Rightarrow> negative_cycle (axiom_rules ax axioms)
    | Inr strata \<Rightarrow> \<not> negative_cycle (axiom_rules ax axioms)
        \<and> (\<exists>trees. axiom_trees hash_order ax domain_size strata = Some (Inr trees) \<and> extends ax axioms domain_size n trees)"
  using ground_stratification_outcome [OF assms(1,2)]
proof (elim disjE exE conjE)
  fix level m
  assume eq: "compute_ground_axiom_stratification B ax axioms n = Inr (axiom_strata level ax axioms m)" and strat: "stratified_axioms level ax axioms"
    and below: "\<forall>x \<in> set axioms. level (gx_head (ax x)) < m"
  have "stratifies level (axiom_rules ax axioms)" using strat by (simp add: stratifies_def stratified_axioms_def)
  then have "\<not> negative_cycle (axiom_rules ax axioms)" using negative_cycle_unstratified by blast
  then show ?thesis
    unfolding eq sum.case using axiom_strata_extend [OF assms(1) strat assms(3,4)] strata_extend [OF _ strat below] by blast
qed simp

section \<open>The extension is a fixed point\<close>

lemma extension_fixpoint:
  assumes "axioms_in_range ax axioms n" "boost_fits B (axiom_rules ax axioms) n"
    and "\<forall>x \<in> set axioms. good_condition domain_size (gx_body (ax x))" "\<And>occ. mset (hash_order occ) = mset occ"
    and "compute_ground_axiom_stratification B ax axioms n = Inr strata" "axiom_trees hash_order ax domain_size strata = Some (Inr trees)"
    and "length (us_atoms (sc_state sc)) = n" "true_atoms (sc_state sc) = {}" "sc_auxiliary sc = ar_zero A"
    and "\<forall>x \<in> set axioms. condition_in_domain domain_size sc (gx_body (ax x))"
  shows "\<exists>u. compute_extended_state A (sc_static sc) (sc_values sc) ax trees (sc_state sc) = Some u
    \<and> u = (sc_state sc)\<lparr>us_atoms := us_atoms u\<rparr> \<and> length (us_atoms u) = n
    \<and> (\<forall>a < n. us_test a u \<longleftrightarrow> (\<exists>x \<in> set axioms. gx_head (ax x) = a \<and> dynamically_applicable A (sc\<lparr>sc_state := u\<rparr>) (gx_body (ax x))))"
proof -
  obtain level m where strata: "strata = axiom_strata level ax axioms m" and strat: "stratified_axioms level ax axioms"
    and below: "\<forall>x \<in> set axioms. level (gx_head (ax x)) < m"
    using ground_stratification_outcome [OF assms(1,2)] assms(5) by auto
  have "extends_strata ax axioms domain_size n strata trees"
    using axiom_strata_extend [where hash_order = hash_order and m = m, OF assms(1) strat assms(3,4)] assms(6) strata by auto
  then obtain atoms where ext: "compute_extended_state A (sc_static sc) (sc_values sc) ax trees (sc_state sc) = Some ((sc_state sc)\<lparr>us_atoms := atoms\<rparr>)"
    "length atoms = n" "{a. a < n \<and> atoms ! a} = iterated_model A sc ax strata"
    using assms(7-10) unfolding extends_strata_def by blast
  let ?sc = "sc\<lparr>sc_state := (sc_state sc)\<lparr>us_atoms := atoms\<rparr>\<rparr>"
  have base: "same_base sc ?sc" using assms(7) ext(2) by (simp add: same_base_def)
  have model: "true_atoms (sc_state ?sc) = model_below A sc level ax axioms m"
    using ext(2,3) strata by (simp add: true_atoms_def model_below_def)
  have "us_test a (sc_state ?sc) \<longleftrightarrow> (\<exists>x \<in> set axioms. gx_head (ax x) = a \<and> dynamically_applicable A ?sc (gx_body (ax x)))" if a: "a < n" for a
  proof -
    have body: "dynamically_applicable A ?sc (gx_body (ax x)) \<longleftrightarrow> base_holds A sc (gx_body (ax x))
        \<and> (\<forall>l \<in> set (gc_derived (gx_body (ax x))). fst l \<in> model_below A sc level ax axioms m \<longleftrightarrow> snd l)" if "x \<in> set axioms" for x
      using dynamically_applicable_base [of "gx_body (ax x)" ?sc A] assms(1) that ext(2)
      unfolding model same_base_holds(3) [OF base] by (simp add: axioms_in_range_def)
    have "us_test a (sc_state ?sc) \<longleftrightarrow> a \<in> model_below A sc level ax axioms m" using a ext(2) unfolding model [symmetric] by (simp add: us_test_def true_atoms_def)
    then show ?thesis unfolding model_supported [OF strat below, of a A sc] using body by blast
  qed
  then show ?thesis using ext(1,2) by simp
qed

text \<open>C13: In an extended state a derived atom is true exactly if the body of some axiom for it holds in the extended state itself.\<close>

theorem extended_state_fixpoint:
  assumes "axioms_in_range ax axioms n" "boost_fits B (axiom_rules ax axioms) n"
    and "\<forall>x \<in> set axioms. good_condition domain_size (gx_body (ax x))" "\<And>occ. mset (hash_order occ) = mset occ"
    and "compute_ground_axiom_stratification B ax axioms n = Inr strata" "axiom_trees hash_order ax domain_size strata = Some (Inr trees)"
    and "length (us_atoms (sc_state sc)) = n" "true_atoms (sc_state sc) = {}" "sc_auxiliary sc = ar_zero A"
    and "\<forall>x \<in> set axioms. condition_in_domain domain_size sc (gx_body (ax x))"
  shows "\<exists>u. compute_extended_state A (sc_static sc) (sc_values sc) ax trees (sc_state sc) = Some u
    \<and> u = (sc_state sc)\<lparr>us_atoms := us_atoms u\<rparr> \<and> length (us_atoms u) = n
    \<and> (\<forall>a < n. us_test a u \<longleftrightarrow> (\<exists>x \<in> set axioms. gx_head (ax x) = a \<and> dynamically_applicable A (sc\<lparr>sc_state := u\<rparr>) (gx_body (ax x))))"
  by (rule extension_fixpoint [OF assms])

section \<open>Examples\<close>

text \<open>Atom 1 holds if variable 0 has value 2, or if atoms 1 and 0 hold; atom 0 holds if it has value 1, atom 2 if atom 1 does not hold.\<close>

definition example_axiom :: "nat \<Rightarrow> nat gaxiom" where
  "example_axiom x =
     (if x = 0 then \<lparr>gx_body = \<lparr>gc_static = [], gc_positive = [(0, 1)], gc_negative = [], gc_derived = [], gc_numeric = []\<rparr>, gx_head = 0\<rparr>
      else if x = 1 then \<lparr>gx_body = \<lparr>gc_static = [], gc_positive = [], gc_negative = [], gc_derived = [(1, True), (0, True)], gc_numeric = []\<rparr>, gx_head = 1\<rparr>
      else if x = 2 then \<lparr>gx_body = \<lparr>gc_static = [], gc_positive = [], gc_negative = [], gc_derived = [(1, False)], gc_numeric = []\<rparr>, gx_head = 2\<rparr>
      else \<lparr>gx_body = \<lparr>gc_static = [], gc_positive = [(0, 2)], gc_negative = [], gc_derived = [], gc_numeric = []\<rparr>, gx_head = 1\<rparr>)"

text \<open>An axiom that negates its head.\<close>

definition paradox_axiom :: "nat gaxiom" where
  "paradox_axiom = \<lparr>gx_body = \<lparr>gc_static = [], gc_positive = [], gc_negative = [], gc_derived = [(0, False)], gc_numeric = []\<rparr>, gx_head = 0\<rparr>"

lemma example_axiom_graph: "build_dependency_graph (axiom_rules example_axiom [0, 1, 2, 3]) 3 = build_dependency_graph [reach_rule, unreached_rule] 3"
  unfolding solve_example_edges by (simp add: build_dependency_graph_eq rule_edges_def example_axiom_def)

lemma example_axiom_fits: "boost_fits upward_boost (axiom_rules example_axiom [0, 1, 2, 3]) 3"
  using solve_example_fits unfolding boost_fits_def example_axiom_graph .

lemma example_axiom_stratification: "compute_ground_axiom_stratification upward_boost example_axiom [0, 1, 2, 3] 3 = Inr [[0, 1, 3], [2]]"
proof -
  let ?g = "\<lparr>gr_vertices = 3, gr_edges = [(1, 1, Non_Strict), (0, 1, Non_Strict), (1, 2, Strict)]\<rparr>"
  have upts: "[0..<3] = [0, 1, 2 :: nat]" by (simp add: upt_rec)
  have g: "ground_dependency_graph example_axiom [0, 1, 2, 3] 3 = ?g" unfolding ground_dependency_graph_eq example_axiom_graph solve_example_edges ..
  have "compute_scc_and_check upward_boost ?g = Inr ([2, 1, 0], 3)" by (simp add: compute_scc_and_check_def upward_boost_def upt_rec)
  moreover have "compute_component_strata upward_boost \<lparr>gr_vertices = 3, gr_edges = [(2, 1, Non_Strict), (1, 0, Strict)]\<rparr> = [1, 0, 0]"
    by (simp add: compute_component_strata_def upward_boost_def raise_stratum_def increment_def upt_rec numeral_3_eq_3)
  moreover have "gx_head (example_axiom 0) = 0" "gx_head (example_axiom 1) = 1" "gx_head (example_axiom 2) = 2" "gx_head (example_axiom 3) = 1"
    by (simp_all add: example_axiom_def)
  ultimately show ?thesis
    by (simp add: compute_ground_axiom_stratification_def g solve_example_condensed Let_def upts push_axiom_def numeral_2_eq_2 [symmetric] del: One_nat_def)
      (simp add: numeral_2_eq_2)
qed

lemma paradox_axiom_graph: "build_dependency_graph (axiom_rules (\<lambda>x. paradox_axiom) [0]) 1 = build_dependency_graph [paradox_rule] 1"
  by (simp add: build_dependency_graph_eq rule_edges_def paradox_axiom_def paradox_rule_def)

lemma paradox_axiom_fits: "boost_fits upward_boost (axiom_rules (\<lambda>x. paradox_axiom) [0]) 1"
  using paradox_fits(2) unfolding boost_fits_def paradox_axiom_graph .

lemma paradox_axiom_stratification: "compute_ground_axiom_stratification upward_boost (\<lambda>x. paradox_axiom) [0] 1 = Inl Not_Stratifiable"
proof -
  have "ground_dependency_graph (\<lambda>x. paradox_axiom) [0] 1 = \<lparr>gr_vertices = 1, gr_edges = [(0, 0, Strict)]\<rparr>"
    by (simp add: ground_dependency_graph_def add_edge_def paradox_axiom_def)
  then show ?thesis by (simp add: compute_ground_axiom_stratification_def compute_scc_and_check_def Let_def del: One_nat_def) (simp add: upward_boost_def)
qed

lemma example_axioms_good: "axioms_in_range example_axiom [0, 1, 2, 3] 3" "\<forall>x \<in> set [0, 1, 2, 3]. good_condition (\<lambda>y. 3) (gx_body (example_axiom x))"
  "axioms_in_range (\<lambda>x. paradox_axiom) [0] 1" "\<forall>x \<in> set [0]. good_condition (\<lambda>y. 3) (gx_body paradox_axiom)"
  by (simp_all add: axioms_in_range_def example_axiom_def paradox_axiom_def good_condition_def is_consistent_def condition_consistent_def)

theorem compute_extended_state_correct_witness:
  "(\<not> negative_cycle (axiom_rules example_axiom [0, 1, 2, 3])
      \<and> (\<exists>trees. axiom_trees (\<lambda>occ. occ) example_axiom (\<lambda>y. 3) [[0, 1, 3], [2]] = Some (Inr trees) \<and> extends example_axiom [0, 1, 2, 3] (\<lambda>y. 3) 3 trees))
    \<and> negative_cycle (axiom_rules (\<lambda>x. paradox_axiom) [0])"
  using compute_extended_state_correct [OF example_axioms_good(1) example_axiom_fits example_axioms_good(2), of "\<lambda>occ. occ"]
    compute_extended_state_correct [OF example_axioms_good(3) paradox_axiom_fits example_axioms_good(4), of "\<lambda>occ. occ"]
  unfolding example_axiom_stratification paradox_axiom_stratification sum.case by simp

definition axiom_example_context :: "nat state_context" where
  "axiom_example_context = \<lparr>sc_static = (\<lambda>a. True), sc_values = (\<lambda>t. 0),
     sc_state = \<lparr>us_index = 0, us_facts = [2], us_atoms = [False, False, False], us_numeric = []\<rparr>, sc_auxiliary = 0\<rparr>"

theorem extended_state_fixpoint_witness:
  "\<exists>trees u. axiom_trees (\<lambda>occ. occ) example_axiom (\<lambda>y. 3) [[0, 1, 3], [2]] = Some (Inr trees)
    \<and> compute_extended_state example_arithmetic (\<lambda>a. True) (\<lambda>t. 0) example_axiom trees \<lparr>us_index = 0, us_facts = [2], us_atoms = [False, False, False], us_numeric = []\<rparr> = Some u
    \<and> \<not> us_test 0 u \<and> us_test 1 u \<and> \<not> us_test 2 u"
proof -
  have "\<exists>trees. axiom_trees (\<lambda>occ. occ) example_axiom (\<lambda>y. 3) [[0, 1, 3], [2]] = Some (Inr trees)"
    using axiom_trees_generate [of "[[0, 1, 3], [2]]" "\<lambda>y. 3" example_axiom "\<lambda>occ. occ"] example_axioms_good(2) by auto
  then obtain trees where trees: "axiom_trees (\<lambda>occ. occ) example_axiom (\<lambda>y. 3) [[0, 1, 3], [2]] = Some (Inr trees)" by blast
  let ?sc = axiom_example_context
  have sc: "length (us_atoms (sc_state ?sc)) = 3" "true_atoms (sc_state ?sc) = {}" "sc_auxiliary ?sc = ar_zero example_arithmetic"
    "\<forall>x \<in> set [0, 1, 2, 3]. condition_in_domain (\<lambda>y. 3) ?sc (gx_body (example_axiom x))"
    by (auto simp: axiom_example_context_def true_atoms_def example_arithmetic_def condition_in_domain_def us_get_fact_def example_axiom_def nth_Cons split: nat.splits)
  from extended_state_fixpoint [OF example_axioms_good(1) example_axiom_fits example_axioms_good(2) _ example_axiom_stratification trees sc] obtain u where
    u: "compute_extended_state example_arithmetic (sc_static ?sc) (sc_values ?sc) example_axiom trees (sc_state ?sc) = Some u"
      "u = (sc_state ?sc)\<lparr>us_atoms := us_atoms u\<rparr>"
      "\<forall>a < 3. us_test a u \<longleftrightarrow> (\<exists>x \<in> set [0, 1, 2, 3]. gx_head (example_axiom x) = a \<and> dynamically_applicable example_arithmetic (?sc\<lparr>sc_state := u\<rparr>) (gx_body (example_axiom x)))"
    by auto
  have facts: "us_facts u = [2]" by (subst u(2)) (simp add: axiom_example_context_def)
  have iff: "us_test a u \<longleftrightarrow> (\<exists>x \<in> set [0, 1, 2, 3]. gx_head (example_axiom x) = a \<and> dynamically_applicable example_arithmetic (?sc\<lparr>sc_state := u\<rparr>) (gx_body (example_axiom x)))" if "a < 3" for a
    using u(3) that by blast
  note evaluate = example_axiom_def dynamically_applicable_def fact_holds_def derived_holds_def us_get_fact_def facts
  have "\<not> us_test 0 u" by (subst iff) (simp_all add: evaluate)
  moreover have t1: "us_test 1 u" by (subst iff) (simp_all add: evaluate del: One_nat_def)
  moreover have "\<not> us_test 2 u" by (subst iff) (use t1 in \<open>simp_all add: evaluate del: One_nat_def\<close>)
  ultimately show ?thesis using trees u(1) unfolding axiom_example_context_def by auto
qed

end
