(* ===== verification/State_Repository.thy ===== *)
theory State_Repository
  imports State_Storage Ground_Axioms
begin

text \<open>
  Ground tasks (the constructor of \<^verbatim>\<open>src/planning/ground_task.cpp\<close>) and their states
  (\<^verbatim>\<open>src/planning/ground_task/state_repository.cpp\<close>, with the set of packed states of \<^verbatim>\<open>common/indexed_hash_set.hpp\<close>): a state is
  registered by evaluating the axioms and storing its three parts, and read back by its index. Equal states have one index.
\<close>

section \<open>Tasks\<close>

text \<open>What the finite-domain task says. A variable is the number of its atoms; its values start with 0, for none of them.\<close>

record 'n fdr_task =
  ft_static_atoms :: "nat list"
  ft_static_values :: "(nat \<times> 'n) list"
  ft_variables :: "nat list"
  ft_num_derived :: nat
  ft_action :: "nat \<Rightarrow> 'n gaction"
  ft_actions :: "nat list"
  ft_axiom :: "nat \<Rightarrow> 'n gaxiom"
  ft_axioms :: "nat list"
  ft_facts :: "(nat \<times> nat) list"
  ft_values :: "(nat \<times> 'n) list"
  ft_metric :: "'n gexpr option"
  ft_auxiliary :: "'n option"

record 'n ground_task = "'n fdr_task" +
  gt_static_atoms :: "bool list"
  gt_static_values :: "'n list"
  gt_action_tree :: "'n tree option"
  gt_axiom_trees :: "'n tree option list"

datatype task_error = Tree_Error match_error | Stratification_Error stratification_error

definition domain_size :: "'n fdr_task \<Rightarrow> nat \<Rightarrow> nat" where
  "domain_size F x = ft_variables F ! x + 1"

definition create_ground_task ::
  "boost \<Rightarrow> ('n occurrences \<Rightarrow> 'n occurrences) \<Rightarrow> 'n arithmetic \<Rightarrow> 'n fdr_task \<Rightarrow> (task_error + 'n ground_task) option" where
  "create_ground_task B hash_order A F =
     (case match_tree hash_order (\<lambda>a. ga_condition (ft_action F a)) (domain_size F) (ft_actions F) of
        None \<Rightarrow> None
      | Some (Inl e) \<Rightarrow> Some (Inl (Tree_Error e))
      | Some (Inr t) \<Rightarrow>
          (let static = fold (\<lambda>a bs. vec_set a True bs False) (ft_static_atoms F) [];
               vals = fold (\<lambda>(f, v) vs. vec_set f v vs (ar_nan A)) (ft_static_values F) []
           in case compute_ground_axiom_stratification B (ft_axiom F) (ft_axioms F) (ft_num_derived F) of
                Inl e \<Rightarrow> Some (Inl (Stratification_Error e))
              | Inr strata \<Rightarrow> (case axiom_trees hash_order (ft_axiom F) (domain_size F) strata of
                    None \<Rightarrow> None
                  | Some (Inl e) \<Rightarrow> Some (Inl (Tree_Error e))
                  | Some (Inr ts) \<Rightarrow> Some (Inr (fdr_task.extend F
                      \<lparr>gt_static_atoms = static, gt_static_values = vals, gt_action_tree = t, gt_axiom_trees = ts\<rparr>)))))"

definition task_test :: "'n ground_task \<Rightarrow> nat \<Rightarrow> bool" where
  "task_test T a = vec_get a (gt_static_atoms T) False"

definition task_get :: "'n arithmetic \<Rightarrow> 'n ground_task \<Rightarrow> nat \<Rightarrow> 'n" where
  "task_get A T f = vec_get f (gt_static_values T) (ar_nan A)"

definition has_axioms :: "'n ground_task \<Rightarrow> bool" where
  "has_axioms T \<longleftrightarrow> ft_axioms T \<noteq> []"

definition context_of :: "'n arithmetic \<Rightarrow> 'n ground_task \<Rightarrow> 'n unpacked_state \<Rightarrow> 'n \<Rightarrow> 'n state_context" where
  "context_of A T u aux = \<lparr>sc_static = task_test T, sc_values = task_get A T, sc_state = u, sc_auxiliary = aux\<rparr>"

definition task_layout :: "'n ground_task \<Rightarrow> layout_data" where
  "task_layout T = compute_layout_data (ft_variables T) (ft_num_derived T)"

section \<open>The repository\<close>

text \<open>A packed state is the indices of its parts; the set of packed states is the list of its elements.\<close>

record 'n repository =
  rp_facts :: "block ra_set"
  rp_atoms :: "block ra_set"
  rp_vectors :: "'n list list"
  rp_states :: "(nat \<times> nat \<times> nat) list"

definition create_repository :: "'n ground_task \<Rightarrow> 'n repository" where
  "create_repository T = \<lparr>rp_facts = rs_init 10 (ly_array_size (task_layout T)), rp_atoms = rs_init 10 (ly_derived_size (task_layout T)),
     rp_vectors = [], rp_states = []\<rparr>"

text \<open>The pool hands out an unpacked state that was used before, with its old index.\<close>

definition get_unregistered_state :: "'n ground_task \<Rightarrow> 'n unpacked_state \<Rightarrow> 'n unpacked_state" where
  "get_unregistered_state T pooled =
     us_resize_derived_atoms (ft_num_derived T) (us_resize_fluent_facts (length (ft_variables T)) (us_clear pooled))"

definition register_state ::
  "'n arithmetic \<Rightarrow> ('n \<Rightarrow> 'n \<Rightarrow> bool) \<Rightarrow> 'n ground_task \<Rightarrow> 'n unpacked_state \<Rightarrow> 'n repository \<Rightarrow> ('n unpacked_state \<times> 'n repository) result option" where
  "register_state A same T u rp =
     (case (if has_axioms T then compute_extended_state A (task_test T) (task_get A T) (ft_axiom T) (gt_axiom_trees T) u else Some u) of
        None \<Rightarrow> None
      | Some u \<Rightarrow> (case facts_insert (task_layout T) (us_facts u) (rp_facts rp) of
            Inl e \<Rightarrow> Some (Inl e)
          | Inr (f, facts) \<Rightarrow>
              (let (a, atoms) = atoms_insert (task_layout T) (us_atoms u) (rp_atoms rp);
                   (v, vectors) = numeric_insert A same (us_numeric u) (rp_vectors rp);
                   (i, states) = list_insert (f, a, v) (rp_states rp)
               in Some (Inr (u\<lparr>us_index := i\<rparr>, \<lparr>rp_facts = facts, rp_atoms = atoms, rp_vectors = vectors, rp_states = states\<rparr>)))))"

definition get_registered_state :: "'n ground_task \<Rightarrow> 'n unpacked_state \<Rightarrow> 'n repository \<Rightarrow> nat \<Rightarrow> 'n unpacked_state" where
  "get_registered_state T pooled rp i =
     (let (f, a, v) = rp_states rp ! i; u = (get_unregistered_state T pooled)\<lparr>us_index := i\<rparr>
      in u\<lparr>us_facts := facts_unpack (task_layout T) (rp_facts rp) f, us_atoms := atoms_unpack (task_layout T) (rp_atoms rp) a,
           us_numeric := numeric_unpack (rp_vectors rp) v\<rparr>)"

definition create_state ::
  "'n arithmetic \<Rightarrow> ('n \<Rightarrow> 'n \<Rightarrow> bool) \<Rightarrow> 'n ground_task \<Rightarrow> (nat \<times> nat) list \<Rightarrow> (nat \<times> 'n) list \<Rightarrow> 'n unpacked_state \<Rightarrow> 'n repository
    \<Rightarrow> ('n unpacked_state \<times> 'n repository) result option" where
  "create_state A same T facts vals pooled rp =
     register_state A same T (fold (\<lambda>(f, v). us_set_numeric A f v) vals (fold us_set_fact facts (get_unregistered_state T pooled))) rp"

definition get_initial_state ::
  "'n arithmetic \<Rightarrow> ('n \<Rightarrow> 'n \<Rightarrow> bool) \<Rightarrow> 'n ground_task \<Rightarrow> 'n unpacked_state \<Rightarrow> 'n repository \<Rightarrow> ('n unpacked_state \<times> 'n repository) result option" where
  "get_initial_state A same T pooled rp =
     register_state A same T (fold (\<lambda>(f, v). us_set_numeric A f v) (ft_values T) (fold us_set_fact (ft_facts T) (get_unregistered_state T pooled))) rp"

section \<open>Registered states\<close>

definition repository_ok :: "('n \<Rightarrow> 'n \<Rightarrow> bool) \<Rightarrow> 'n ground_task \<Rightarrow> 'n repository \<Rightarrow> bool" where
  "repository_ok same T rp \<longleftrightarrow> facts_invar (ft_variables T) (ft_num_derived T) (rp_facts rp) \<and> atoms_invar (ft_variables T) (ft_num_derived T) (rp_atoms rp)
     \<and> vectors_invar same (rp_vectors rp) \<and> distinct (rp_states rp)
     \<and> (\<forall>(f, a, v) \<in> set (rp_states rp). f < set_count (rp_facts rp) \<and> a < set_count (rp_atoms rp) \<and> v < length (rp_vectors rp))"

definition num_states :: "'n repository \<Rightarrow> nat" where
  "num_states rp = length (rp_states rp)"

text \<open>A state that is equal to the registered state of an index, with its numeric values rounded.\<close>

definition registered_as :: "'n arithmetic \<Rightarrow> ('n \<Rightarrow> 'n \<Rightarrow> bool) \<Rightarrow> 'n ground_task \<Rightarrow> 'n repository \<Rightarrow> 'n unpacked_state \<Rightarrow> nat \<Rightarrow> bool" where
  "registered_as A same T rp u i \<longleftrightarrow> i < num_states rp \<and> (\<forall>pooled. let u' = get_registered_state T pooled rp i
     in us_index u' = i \<and> us_facts u' = us_facts u \<and> us_atoms u' = us_atoms u \<and> list_all2 same (map (ar_canonicalize A) (us_numeric u)) (us_numeric u'))"

definition state_fits :: "'n ground_task \<Rightarrow> 'n unpacked_state \<Rightarrow> bool" where
  "state_fits T u \<longleftrightarrow> values_in_domain (ft_variables T) (us_facts u) \<and> length (us_atoms u) = ft_num_derived T"

text \<open>What is read back: the facts and atoms, and the rounded numeric values, or values that are equal to them.\<close>

definition reads_back :: "'n arithmetic \<Rightarrow> ('n \<Rightarrow> 'n \<Rightarrow> bool) \<Rightarrow> 'n unpacked_state \<Rightarrow> 'n unpacked_state \<Rightarrow> bool" where
  "reads_back A same u u' \<longleftrightarrow> us_facts u' = us_facts u \<and> us_atoms u' = us_atoms u
     \<and> (let v = map (ar_canonicalize A) (us_numeric u) in us_numeric u' = v \<or> list_all2 same v (us_numeric u'))"

lemma registered_parts:
  assumes "rp_states rp ! i = (f, a, v)"
  shows "us_index (get_registered_state T pooled rp i) = i"
    "us_facts (get_registered_state T pooled rp i) = facts_unpack (task_layout T) (rp_facts rp) f"
    "us_atoms (get_registered_state T pooled rp i) = atoms_unpack (task_layout T) (rp_atoms rp) a"
    "us_numeric (get_registered_state T pooled rp i) = rp_vectors rp ! v"
  by (simp_all add: get_registered_state_def assms numeric_unpack_def Let_def)

lemma get_registered_state_eqI:
  assumes "us_index u = us_index u'" "us_facts u = us_facts u'" "us_atoms u = us_atoms u'" "us_numeric u = us_numeric u'"
  shows "(u :: 'n unpacked_state) = u'"
  using assms by simp

lemma register_spec:
  assumes ok: "repository_ok same T rp" and fits: "state_fits T u'"
    and ext: "(if has_axioms T then compute_extended_state A (task_test T) (task_get A T) (ft_axiom T) (gt_axiom_trees T) u else Some u) = Some u'"
  obtains i rp' where "register_state A same T u rp = Some (Inr (u'\<lparr>us_index := i\<rparr>, rp'))" "repository_ok same T rp'" "i < num_states rp'"
    "num_states rp' = (if i < num_states rp then num_states rp else num_states rp + 1)"
    "i < num_states rp \<longleftrightarrow> (\<exists>j. registered_as A same T rp u' j)" "\<And>j. registered_as A same T rp u' j \<Longrightarrow> i = j"
    "\<And>pooled. reads_back A same u' (get_registered_state T pooled rp' i)"
    "\<And>j pooled. j < num_states rp \<Longrightarrow> get_registered_state T pooled rp' j = get_registered_state T pooled rp j"
proof -
  let ?L = "task_layout T" and ?vs = "map (ar_canonicalize A) (us_numeric u')"
  note O = ok [unfolded repository_ok_def]
  have inv: "facts_invar (ft_variables T) (ft_num_derived T) (rp_facts rp)" "atoms_invar (ft_variables T) (ft_num_derived T) (rp_atoms rp)"
    "vectors_invar same (rp_vectors rp)" "distinct (rp_states rp)" using O by blast+
  have range: "f < set_count (rp_facts rp) \<and> a < set_count (rp_atoms rp) \<and> v < length (rp_vectors rp)" if "(f, a, v) \<in> set (rp_states rp)" for f a v
    using O that by blast
  have vals: "values_in_domain (ft_variables T) (us_facts u')" and bits: "length (us_atoms u') = ft_num_derived T"
    using fits by (simp_all add: state_fits_def)
  have layout: "layout_fits (ft_variables T) (ft_num_derived T)" using inv(1) by (simp add: facts_invar_def)
  obtain f facts where f: "facts_put (ft_variables T) (ft_num_derived T) (us_facts u') (rp_facts rp) = (f, facts)" by force
  have f': "facts_insert ?L (us_facts u') (rp_facts rp) = Inr (f, facts)"
    using f facts_roundtrip [OF layout refl vals] by (auto simp: facts_put_def facts_insert_def task_layout_def)
  obtain a atoms where a: "atoms_insert ?L (us_atoms u') (rp_atoms rp) = (a, atoms)" by force
  obtain v vectors where v: "vector_insert same ?vs (rp_vectors rp) = (v, vectors)" by force
  obtain i states where i: "list_insert (f, a, v) (rp_states rp) = (i, states)" by force
  define rp' where "rp' = \<lparr>rp_facts = facts, rp_atoms = atoms, rp_vectors = vectors, rp_states = states\<rparr>"
  note a = a [unfolded task_layout_def]
  note F = facts.put_ok [OF inv(1) vals f] facts.put_keeps [OF inv(1) vals f]
  note A = atoms.put_ok [OF inv(2) bits a] atoms.put_keeps [OF inv(2) bits a]
  note V = vectors.put_ok [OF inv(3) TrueI v] vectors.put_keeps [OF inv(3) TrueI v]
  note S = list_insert_spec [OF inv(4) i]
  have register: "register_state A same T u rp = Some (Inr (u'\<lparr>us_index := i\<rparr>, rp'))"
    using ext f' a v i by (simp add: register_state_def numeric_insert_def rp'_def task_layout_def)
  have parts: "f < set_count facts \<and> a < set_count atoms \<and> v < length vectors" using F A V by blast
  have ok': "repository_ok same T rp'"
    unfolding repository_ok_def rp'_def repository.simps
  proof (intro conjI ballI)
    fix t assume "t \<in> set states"
    then have "t = (f, a, v) \<or> t \<in> set (rp_states rp)" using S(4) by auto
    then show "case t of (f, a, v) \<Rightarrow> f < set_count facts \<and> a < set_count atoms \<and> v < length vectors"
      using parts range F(2) A(2) V(2) by (cases t) (auto intro: order_less_le_trans)
  qed (use F A V S(1) in auto)
  have old: "get_registered_state T pooled rp' j = get_registered_state T pooled rp j" if j: "j < num_states rp" for j pooled
  proof -
    obtain f1 a1 v1 where t: "rp_states rp ! j = (f1, a1, v1)" by (cases "rp_states rp ! j")
    then have r: "f1 < set_count (rp_facts rp)" "a1 < set_count (rp_atoms rp)" "v1 < length (rp_vectors rp)"
      using range j nth_mem unfolding num_states_def by metis+
    have t': "rp_states rp' ! j = (f1, a1, v1)" using S(6) j t by (simp add: rp'_def num_states_def)
    show ?thesis
      by (rule get_registered_state_eqI) (use registered_parts [OF t] registered_parts [OF t'] r F(2) A(2) V(2) in \<open>simp_all add: rp'_def task_layout_def\<close>)
  qed
  have state: "rp_states rp' ! i = (f, a, v)" using S(3) by (simp add: rp'_def)
  have stored: "facts_unpack ?L facts f = us_facts u'" "atoms_unpack ?L atoms a = us_atoms u'"
    using facts.put_stored [OF inv(1) vals f] atoms.put_stored [OF inv(2) bits a] by (auto simp: task_layout_def)
  have reads: "reads_back A same u' (get_registered_state T pooled rp' i)" for pooled
    using registered_parts [OF state] stored vectors.put_stored [OF inv(3) TrueI v] by (simp add: reads_back_def rp'_def Let_def)
  have same_index: "i = j" if j: "registered_as A same T rp u' j" for j
  proof -
    obtain f1 a1 v1 where t: "rp_states rp ! j = (f1, a1, v1)" by (cases "rp_states rp ! j")
    have j_less: "j < length (rp_states rp)" using j by (simp add: registered_as_def num_states_def)
    then have r: "f1 < set_count (rp_facts rp)" "a1 < set_count (rp_atoms rp)" "v1 < length (rp_vectors rp)"
      using range t nth_mem by metis+
    have eqs: "us_facts u' = facts_unpack ?L (rp_facts rp) f1" "us_atoms u' = atoms_unpack ?L (rp_atoms rp) a1" "list_all2 same ?vs (rp_vectors rp ! v1)"
      using j registered_parts [OF t] unfolding registered_as_def Let_def by metis+
    have "f = f1" "a = a1" "v = v1"
      using facts.put_old_index [OF inv(1) vals f r(1)] atoms.put_old_index [OF inv(2) bits a r(2)] vectors.put_old_index [OF inv(3) TrueI v r(3)] eqs
      by (simp_all add: task_layout_def)
    then have "states ! j = (f, a, v)" "j < length states" using S(5,6) j_less t by auto
    then show ?thesis using S(1-3) nth_eq_iff_index_eq by metis
  qed
  have known: "registered_as A same T rp u' i" if "i < num_states rp"
  proof -
    have t: "rp_states rp ! i = (f, a, v)" using S(3,6) that by (simp add: num_states_def)
    then have r: "f < set_count (rp_facts rp)" "a < set_count (rp_atoms rp)" "v < length (rp_vectors rp)"
      using range that nth_mem unfolding num_states_def by metis+
    have "us_facts u' = facts_unpack ?L (rp_facts rp) f" "us_atoms u' = atoms_unpack ?L (rp_atoms rp) a" "list_all2 same ?vs (rp_vectors rp ! v)"
      using F(1) A(1) V(1) r by (simp_all add: task_layout_def)
    then show ?thesis using that registered_parts [OF t] by (simp add: registered_as_def Let_def)
  qed
  have number: "num_states rp' = (if i < num_states rp then num_states rp else num_states rp + 1)"
    using i by (auto simp: list_insert_def num_states_def rp'_def dest: find_index(1) split: option.splits)
  have "i < num_states rp \<longleftrightarrow> (\<exists>j. registered_as A same T rp u' j)"
    using known same_index by (metis registered_as_def)
  then show thesis using that [OF register ok' _ number _ same_index reads old] S(2) by (simp add: rp'_def num_states_def)
qed

text \<open>C16: Registering a state returns. The index reads back what was stored: the index, the facts, the atoms with those derived by the
  axioms, and the rounded numeric values; every earlier index reads back what it did. A state that was registered before gets its old
  index and nothing is added; any other state gets the next index.\<close>

theorem register_state_correct:
  assumes "repository_ok same T rp" "state_fits T u'"
    and "(if has_axioms T then compute_extended_state A (task_test T) (task_get A T) (ft_axiom T) (gt_axiom_trees T) u else Some u) = Some u'"
  shows "\<exists>i rp'. register_state A same T u rp = Some (Inr (u'\<lparr>us_index := i\<rparr>, rp')) \<and> repository_ok same T rp'
    \<and> (\<forall>pooled. us_index (get_registered_state T pooled rp' i) = i \<and> reads_back A same u' (get_registered_state T pooled rp' i))
    \<and> (\<forall>j < num_states rp. \<forall>pooled. get_registered_state T pooled rp' j = get_registered_state T pooled rp j)
    \<and> (if \<exists>j. registered_as A same T rp u' j then registered_as A same T rp u' i \<and> num_states rp' = num_states rp
       else i = num_states rp \<and> num_states rp' = num_states rp + 1)"
proof -
  obtain i rp' where r: "register_state A same T u rp = Some (Inr (u'\<lparr>us_index := i\<rparr>, rp'))" "repository_ok same T rp'" "i < num_states rp'"
    "num_states rp' = (if i < num_states rp then num_states rp else num_states rp + 1)"
    "i < num_states rp \<longleftrightarrow> (\<exists>j. registered_as A same T rp u' j)" "\<And>j. registered_as A same T rp u' j \<Longrightarrow> i = j"
    "\<And>pooled. reads_back A same u' (get_registered_state T pooled rp' i)"
    "\<And>j pooled. j < num_states rp \<Longrightarrow> get_registered_state T pooled rp' j = get_registered_state T pooled rp j"
    using register_spec [OF assms] by blast
  have index: "us_index (get_registered_state T pooled rp' i) = i" for pooled by (cases "rp_states rp' ! i") (simp add: registered_parts)
  have "registered_as A same T rp u' i \<and> num_states rp' = num_states rp" if "\<exists>j. registered_as A same T rp u' j" using that r(4-6) by auto
  moreover have "i = num_states rp \<and> num_states rp' = num_states rp + 1" if "\<not> (\<exists>j. registered_as A same T rp u' j)" using that r(3-5) by auto
  ultimately show ?thesis using r(1,2,7,8) index by (intro exI [of _ i] exI [of _ rp']) auto
qed

lemma create_repository_ok:
  assumes "layout_fits (ft_variables T) (ft_num_derived T)" "symp same" "transp same"
  shows "repository_ok same T (create_repository T)" "num_states (create_repository T) = 0"
  using assms
  by (simp_all add: rs_init_invar repository_ok_def create_repository_def facts_invar_def atoms_invar_def vectors_invar_def num_states_def task_layout_def)

lemma equality_equivalence: "symp (=)" "transp (=)"
  by (simp_all add: symp_def transp_def)

definition storage_example :: "nat ground_task" where
  "storage_example = \<lparr>ft_static_atoms = [], ft_static_values = [], ft_variables = [2], ft_num_derived = 1, ft_action = (\<lambda>a. undefined), ft_actions = [],
     ft_axiom = (\<lambda>x. undefined), ft_axioms = [], ft_facts = [], ft_values = [], ft_metric = None, ft_auxiliary = None,
     gt_static_atoms = [], gt_static_values = [], gt_action_tree = None, gt_axiom_trees = []\<rparr>"

definition stored_example :: "nat unpacked_state" where
  "stored_example = \<lparr>us_index = 0, us_facts = [1], us_atoms = [True], us_numeric = [7]\<rparr>"

lemma storage_example_ok: "repository_ok (=) storage_example (create_repository storage_example)" "num_states (create_repository storage_example) = 0"
proof -
  have "layout_fits (ft_variables storage_example) (ft_num_derived storage_example)"
    using variable_bits_le [of 2] by (simp add: storage_example_def layout_fits_def)
  from create_repository_ok [OF this equality_equivalence]
  show "repository_ok (=) storage_example (create_repository storage_example)" "num_states (create_repository storage_example) = 0" .
qed

theorem register_state_correct_witness:
  "\<exists>i rp. register_state example_arithmetic (=) storage_example stored_example (create_repository storage_example) = Some (Inr (stored_example\<lparr>us_index := i\<rparr>, rp))
    \<and> i = 0 \<and> num_states rp = 1 \<and> us_facts (get_registered_state storage_example stored_example rp i) = [1]
    \<and> us_atoms (get_registered_state storage_example stored_example rp i) = [True]"
proof -
  have fits: "state_fits storage_example stored_example"
    by (simp add: state_fits_def values_in_domain_def storage_example_def stored_example_def)
  have "(if has_axioms storage_example then compute_extended_state example_arithmetic (task_test storage_example) (task_get example_arithmetic storage_example)
      (ft_axiom storage_example) (gt_axiom_trees storage_example) stored_example else Some stored_example) = Some stored_example"
    by (simp add: has_axioms_def storage_example_def)
  note register = register_state_correct [OF storage_example_ok(1) fits this]
  have new: "\<not> (\<exists>j. registered_as example_arithmetic (=) storage_example (create_repository storage_example) stored_example j)"
    by (simp add: registered_as_def storage_example_ok(2))
  obtain i rp where r: "register_state example_arithmetic (=) storage_example stored_example (create_repository storage_example) = Some (Inr (stored_example\<lparr>us_index := i\<rparr>, rp))"
    "\<forall>pooled. us_index (get_registered_state storage_example pooled rp i) = i \<and> reads_back example_arithmetic (=) stored_example (get_registered_state storage_example pooled rp i)"
    "i = 0" "num_states rp = 1"
    using register unfolding if_not_P [OF new] storage_example_ok(2) by auto
  have "reads_back example_arithmetic (=) stored_example (get_registered_state storage_example stored_example rp i)" using r(2) by blast
  then have "us_facts (get_registered_state storage_example stored_example rp i) = [1]" "us_atoms (get_registered_state storage_example stored_example rp i) = [True]"
    by (simp_all add: reads_back_def stored_example_def)
  then show ?thesis using r(1,3,4) by blast
qed

section \<open>Tasks that can be explored\<close>

text \<open>The axiom evaluator returns on every state without derived atoms.\<close>

definition evaluates :: "'n arithmetic \<Rightarrow> 'n ground_task \<Rightarrow> 'n unpacked_state \<Rightarrow> 'n unpacked_state \<Rightarrow> bool" where
  "evaluates A T u u' \<longleftrightarrow> (if has_axioms T then compute_extended_state A (task_test T) (task_get A T) (ft_axiom T) (gt_axiom_trees T) u else Some u) = Some u'
     \<and> length (us_atoms u') = ft_num_derived T \<and> us_facts u' = us_facts u \<and> us_numeric u' = us_numeric u
     \<and> (\<forall>a < ft_num_derived T. us_test a u' \<longleftrightarrow> (\<exists>x \<in> set (ft_axioms T). gx_head (ft_axiom T x) = a
           \<and> dynamically_applicable A (context_of A T u' (ar_zero A)) (gx_body (ft_axiom T x))))"

text \<open>A task whose layout fits, whose axioms are stratified and whose conditions are consistent and speak of its variables.\<close>

definition condition_speaks :: "'n fdr_task \<Rightarrow> 'n gcondition \<Rightarrow> bool" where
  "condition_speaks F c \<longleftrightarrow> good_condition (domain_size F) c \<and> (\<forall>f \<in> set (gc_positive c). fst f < length (ft_variables F))"

definition task_ok :: "boost \<Rightarrow> 'n fdr_task \<Rightarrow> bool" where
  "task_ok B F \<longleftrightarrow> layout_fits (ft_variables F) (ft_num_derived F) \<and> axioms_in_range (ft_axiom F) (ft_axioms F) (ft_num_derived F)
     \<and> boost_fits B (axiom_rules (ft_axiom F) (ft_axioms F)) (ft_num_derived F) \<and> \<not> negative_cycle (axiom_rules (ft_axiom F) (ft_axioms F))
     \<and> (\<forall>x \<in> set (ft_axioms F). condition_speaks F (gx_body (ft_axiom F x))) \<and> (\<forall>a \<in> set (ft_actions F). condition_speaks F (ga_condition (ft_action F a)))"

lemma in_domain_speaks:
  assumes "condition_speaks F c" "values_in_domain (ft_variables F) (us_facts (sc_state sc))"
  shows "condition_in_domain (domain_size F) sc c"
  using assms by (auto simp: condition_speaks_def condition_in_domain_def values_in_domain_def domain_size_def us_get_fact_def less_Suc_eq_le)

lemma extend_facts [simp]:
  "ft_axiom (fdr_task.extend F m) = ft_axiom F" "ft_axioms (fdr_task.extend F m) = ft_axioms F" "ft_variables (fdr_task.extend F m) = ft_variables F"
  "ft_num_derived (fdr_task.extend F m) = ft_num_derived F" "ft_action (fdr_task.extend F m) = ft_action F" "ft_actions (fdr_task.extend F m) = ft_actions F"
  by (simp_all add: fdr_task.defs)

text \<open>The task of such a finite-domain task is created; its axioms are evaluated and its actions are generated.\<close>

lemma create_ground_task_ok:
  assumes "task_ok B F" "\<And>occ. mset (hash_order occ) = mset occ"
  obtains T m where "create_ground_task B hash_order A F = Some (Inr T)" "T = fdr_task.extend F m"
    "\<And>u. values_in_domain (ft_variables F) (us_facts u) \<Longrightarrow> length (us_atoms u) = ft_num_derived F \<Longrightarrow> true_atoms u = {} \<Longrightarrow> \<exists>u'. evaluates A T u u'"
    "\<And>sc. values_in_domain (ft_variables F) (us_facts (sc_state sc)) \<Longrightarrow>
      mset (generate_applicable A sc (gt_action_tree T)) = mset (filter (\<lambda>a. dynamically_applicable A sc (ga_condition (ft_action F a))) (ft_actions F))"
proof -
  note ok = assms(1) [unfolded task_ok_def]
  have actions: "\<forall>a \<in> set (ft_actions F). good_condition (domain_size F) (ga_condition (ft_action F a))" using ok by (auto simp: condition_speaks_def)
  have axioms: "\<forall>x \<in> set (ft_axioms F). good_condition (domain_size F) (gx_body (ft_axiom F x))" using ok by (auto simp: condition_speaks_def)
  obtain t where t: "match_tree hash_order (\<lambda>a. ga_condition (ft_action F a)) (domain_size F) (ft_actions F) = Some (Inr t)"
    "\<And>A sc. \<forall>a \<in> set (ft_actions F). condition_in_domain (domain_size F) sc (ga_condition (ft_action F a)) \<Longrightarrow>
      mset (generate_applicable A sc t) = mset (filter (\<lambda>a. dynamically_applicable A sc (ga_condition (ft_action F a))) (ft_actions F))"
    using match_tree_generates [OF actions assms(2)] by blast
  obtain level k where strata: "compute_ground_axiom_stratification B (ft_axiom F) (ft_axioms F) (ft_num_derived F) = Inr (axiom_strata level (ft_axiom F) (ft_axioms F) k)"
    and strat: "stratified_axioms level (ft_axiom F) (ft_axioms F)"
    using ground_stratification_outcome [of "ft_axiom F" "ft_axioms F" "ft_num_derived F" B] ok by blast
  obtain ts where ts: "axiom_trees hash_order (ft_axiom F) (domain_size F) (axiom_strata level (ft_axiom F) (ft_axioms F) k) = Some (Inr ts)"
    using axiom_strata_extend [where hash_order = hash_order and m = k, OF _ strat axioms assms(2)] ok by blast
  define m where "m = \<lparr>gt_static_atoms = fold (\<lambda>a bs. vec_set a True bs False) (ft_static_atoms F) [],
    gt_static_values = fold (\<lambda>(f, v) vs. vec_set f v vs (ar_nan A)) (ft_static_values F) [], gt_action_tree = t, gt_axiom_trees = ts\<rparr>"
  define T where "T = fdr_task.extend F m"
  have create: "create_ground_task B hash_order A F = Some (Inr T)"
    using t(1) strata ts by (simp add: create_ground_task_def T_def m_def Let_def)
  have tree: "gt_action_tree T = t" "gt_axiom_trees T = ts" by (simp_all add: T_def m_def fdr_task.defs)
  have actions_generated: "mset (generate_applicable A sc (gt_action_tree T)) = mset (filter (\<lambda>a. dynamically_applicable A sc (ga_condition (ft_action F a))) (ft_actions F))"
    if "values_in_domain (ft_variables F) (us_facts (sc_state sc))" for sc
  proof -
    have "\<forall>a \<in> set (ft_actions F). condition_in_domain (domain_size F) sc (ga_condition (ft_action F a))" using ok in_domain_speaks that by blast
    then show ?thesis using t(2) tree by simp
  qed
  have evaluated: "\<exists>u'. evaluates A T u u'"
    if u: "values_in_domain (ft_variables F) (us_facts u)" "length (us_atoms u) = ft_num_derived F" "true_atoms u = {}" for u
  proof (cases "has_axioms T")
    case True
    let ?sc = "context_of A T u (ar_zero A)"
    have "\<forall>x \<in> set (ft_axioms F). condition_in_domain (domain_size F) ?sc (gx_body (ft_axiom F x))"
      using ok in_domain_speaks [of F _ ?sc] u(1) by (auto simp: context_of_def)
    from extension_fixpoint [OF _ _ axioms assms(2) strata ts _ _ _ this, of A] u ok obtain u' where
      u': "compute_extended_state A (task_test T) (task_get A T) (ft_axiom F) ts u = Some u'" "u' = u\<lparr>us_atoms := us_atoms u'\<rparr>" "length (us_atoms u') = ft_num_derived F"
        "\<forall>a < ft_num_derived F. us_test a u' \<longleftrightarrow> (\<exists>x \<in> set (ft_axioms F). gx_head (ft_axiom F x) = a \<and> dynamically_applicable A (?sc\<lparr>sc_state := u'\<rparr>) (gx_body (ft_axiom F x)))"
      by (auto simp: context_of_def)
    have "us_facts u' = us_facts u" "us_numeric u' = us_numeric u" by (subst u'(2), simp)+
    moreover have "?sc\<lparr>sc_state := u'\<rparr> = context_of A T u' (ar_zero A)" by (simp add: context_of_def)
    ultimately have "evaluates A T u u'" using u' True tree by (simp add: evaluates_def T_def)
    then show ?thesis by blast
  next
    case False
    have "us_test a u \<longleftrightarrow> False" if "a < ft_num_derived F" for a using u that by (auto simp: true_atoms_def us_test_def)
    then have "evaluates A T u u" using False u by (simp add: evaluates_def has_axioms_def T_def)
    then show ?thesis by blast
  qed
  show thesis using that [OF create T_def evaluated actions_generated] .
qed

end
