(* ===== verification/Ground_Successors.thy ===== *)
theory Ground_Successors
  imports State_Repository
begin

text \<open>
  The execution of ground actions (\<^verbatim>\<open>src/planning/action_executor.cpp\<close>), the metric (\<^verbatim>\<open>src/planning/metric.hpp\<close>) and the successor
  generator of ground tasks (\<^verbatim>\<open>src/planning/ground_task/successor_generator.cpp\<close>). The unpacked states that the pool hands out are
  an argument. The successors of a state are those of exactly its applicable actions, and each is registered in the repository.
\<close>

section \<open>Execution\<close>

record 'n node =
  nd_state :: "'n unpacked_state"
  nd_metric :: 'n

definition evaluate_metric :: "'n arithmetic \<Rightarrow> 'n gexpr option \<Rightarrow> 'n option \<Rightarrow> 'n state_context \<Rightarrow> 'n" where
  "evaluate_metric A metric auxiliary sc = (case auxiliary of
     Some v \<Rightarrow> v
   | None \<Rightarrow> ar_canonicalize A (case metric of Some e \<Rightarrow> gevaluate A sc e | None \<Rightarrow> ar_zero A))"

record 'n execution =
  ex_succ :: "'n unpacked_state"
  ex_context :: "'n state_context"
  ex_del :: "(nat \<times> nat) list"
  ex_add :: "(nat \<times> nat) list"

text \<open>Numeric effects read the old state; the auxiliary value of the context changes from effect to effect.\<close>

definition process_effect :: "'n arithmetic \<Rightarrow> 'n conditional_effect \<Rightarrow> 'n execution \<Rightarrow> 'n execution" where
  "process_effect A ce x =
     (if condition_applicable A (ex_context x) (ce_condition ce) then
        let e = ce_effect ce; sc = ex_context x
        in \<lparr>ex_succ = fold (\<lambda>n. us_set_numeric A (ne_term n) (evaluate_effect A sc n)) (ge_numeric e) (ex_succ x),
            ex_context = (case ge_auxiliary e of None \<Rightarrow> sc | Some a \<Rightarrow> sc\<lparr>sc_auxiliary := evaluate_auxiliary A sc a\<rparr>),
            ex_del = ex_del x @ ge_delete e, ex_add = ex_add x @ ge_add e\<rparr>
      else x)"

definition process_effects :: "'n arithmetic \<Rightarrow> 'n gaction \<Rightarrow> 'n execution \<Rightarrow> 'n execution" where
  "process_effects A a x = fold (process_effect A) (ga_effects a) x"

definition delete_fact :: "nat \<times> nat \<Rightarrow> 'n unpacked_state \<Rightarrow> 'n unpacked_state" where
  "delete_fact f u = (if us_get_fact (fst f) u = snd f then us_set_fact (fst f, 0) u else u)"

definition apply_action ::
  "'n arithmetic \<Rightarrow> ('n \<Rightarrow> 'n \<Rightarrow> bool) \<Rightarrow> 'n ground_task \<Rightarrow> 'n unpacked_state \<Rightarrow> 'n state_context \<Rightarrow> 'n gaction \<Rightarrow> 'n repository
    \<Rightarrow> ('n node \<times> 'n repository) result option" where
  "apply_action A same T pooled sc a rp =
     (let u = us_assign_unextended_part (sc_state sc) (get_unregistered_state T pooled);
          x = process_effects A a \<lparr>ex_succ = u, ex_context = sc, ex_del = [], ex_add = []\<rparr>;
          u = fold us_set_fact (ex_add x) (fold delete_fact (ex_del x) (ex_succ x))
      in case register_state A same T u rp of
           None \<Rightarrow> None
         | Some (Inl e) \<Rightarrow> Some (Inl e)
         | Some (Inr (u, rp)) \<Rightarrow>
             (let aux = sc_auxiliary (ex_context x);
                  aux = (case ft_metric T of Some e \<Rightarrow> gevaluate A (context_of A T u aux) e | None \<Rightarrow> ar_apply A Op_Add aux (ar_one A))
              in Some (Inr (\<lparr>nd_state = u, nd_metric = ar_canonicalize A aux\<rparr>, rp))))"

section \<open>The successor generator\<close>

definition get_initial_node ::
  "'n arithmetic \<Rightarrow> ('n \<Rightarrow> 'n \<Rightarrow> bool) \<Rightarrow> 'n ground_task \<Rightarrow> 'n unpacked_state \<Rightarrow> 'n repository \<Rightarrow> ('n node \<times> 'n repository) result option" where
  "get_initial_node A same T pooled rp = (case get_initial_state A same T pooled rp of
     None \<Rightarrow> None
   | Some (Inl e) \<Rightarrow> Some (Inl e)
   | Some (Inr (u, rp)) \<Rightarrow> Some (Inr (\<lparr>nd_state = u, nd_metric = evaluate_metric A (ft_metric T) (ft_auxiliary T) (context_of A T u (ar_zero A))\<rparr>, rp)))"

definition get_node :: "'n arithmetic \<Rightarrow> 'n ground_task \<Rightarrow> 'n unpacked_state \<Rightarrow> 'n repository \<Rightarrow> nat \<Rightarrow> 'n node" where
  "get_node A T pooled rp i = (let u = get_registered_state T pooled rp i
     in \<lparr>nd_state = u, nd_metric = evaluate_metric A (ft_metric T) (ft_auxiliary T) (context_of A T u (ar_zero A))\<rparr>)"

fun apply_applicable ::
  "'n arithmetic \<Rightarrow> ('n \<Rightarrow> 'n \<Rightarrow> bool) \<Rightarrow> 'n ground_task \<Rightarrow> (nat \<Rightarrow> 'n unpacked_state) \<Rightarrow> 'n state_context \<Rightarrow> nat list \<Rightarrow> 'n repository
    \<Rightarrow> ((nat \<times> 'n node) list \<times> 'n repository) result option" where
  "apply_applicable A same T pool sc [] rp = Some (Inr ([], rp))"
| "apply_applicable A same T pool sc (a # as) rp =
     (if effects_applicable A sc (ga_effects (ft_action T a)) then
        case apply_action A same T (pool a) sc (ft_action T a) rp of
          None \<Rightarrow> None
        | Some (Inl e) \<Rightarrow> Some (Inl e)
        | Some (Inr (node, rp)) \<Rightarrow> (case apply_applicable A same T pool sc as rp of
              None \<Rightarrow> None
            | Some (Inl e) \<Rightarrow> Some (Inl e)
            | Some (Inr (nodes, rp)) \<Rightarrow> Some (Inr ((a, node) # nodes, rp)))
      else apply_applicable A same T pool sc as rp)"

definition node_context :: "'n arithmetic \<Rightarrow> 'n ground_task \<Rightarrow> 'n node \<Rightarrow> 'n state_context" where
  "node_context A T node = context_of A T (nd_state node) (nd_metric node)"

definition get_labeled_successor_nodes ::
  "'n arithmetic \<Rightarrow> ('n \<Rightarrow> 'n \<Rightarrow> bool) \<Rightarrow> 'n ground_task \<Rightarrow> (nat \<Rightarrow> 'n unpacked_state) \<Rightarrow> 'n node \<Rightarrow> 'n repository
    \<Rightarrow> ((nat \<times> 'n node) list \<times> 'n repository) result option" where
  "get_labeled_successor_nodes A same T pool node rp =
     (let sc = node_context A T node in apply_applicable A same T pool sc (generate_applicable A sc (gt_action_tree T)) rp)"

definition get_successor_node ::
  "'n arithmetic \<Rightarrow> ('n \<Rightarrow> 'n \<Rightarrow> bool) \<Rightarrow> 'n ground_task \<Rightarrow> 'n unpacked_state \<Rightarrow> 'n node \<Rightarrow> nat \<Rightarrow> 'n repository \<Rightarrow> ('n node \<times> 'n repository) result option" where
  "get_successor_node A same T pooled node a rp = apply_action A same T pooled (node_context A T node) (ft_action T a) rp"

section \<open>What an action does\<close>

text \<open>The effects that fire, with the context in which each one is evaluated.\<close>

fun fired :: "'n arithmetic \<Rightarrow> 'n state_context \<Rightarrow> 'n conditional_effect list \<Rightarrow> ('n state_context \<times> 'n geffect) list" where
  "fired A sc [] = []"
| "fired A sc (ce # ces) =
     (if condition_applicable A sc (ce_condition ce)
      then (sc, ce_effect ce) # fired A (case ge_auxiliary (ce_effect ce) of None \<Rightarrow> sc | Some a \<Rightarrow> sc\<lparr>sc_auxiliary := evaluate_auxiliary A sc a\<rparr>) ces
      else fired A sc ces)"

definition fired_auxiliary :: "'n arithmetic \<Rightarrow> 'n state_context \<Rightarrow> 'n conditional_effect list \<Rightarrow> 'n" where
  "fired_auxiliary A sc ces = fold (\<lambda>(sc, e) v. case ge_auxiliary e of None \<Rightarrow> v | Some a \<Rightarrow> evaluate_auxiliary A sc a) (fired A sc ces) (sc_auxiliary sc)"

definition fired_values :: "'n arithmetic \<Rightarrow> 'n state_context \<Rightarrow> 'n conditional_effect list \<Rightarrow> (nat \<times> 'n) list" where
  "fired_values A sc ces = concat (map (\<lambda>(sc, e). map (\<lambda>n. (ne_term n, evaluate_effect A sc n)) (ge_numeric e)) (fired A sc ces))"

text \<open>The value of a variable after deletions and additions: the last added value, or none if the value was deleted.\<close>

definition updated_value :: "(nat \<times> nat) list \<Rightarrow> (nat \<times> nat) list \<Rightarrow> nat \<Rightarrow> nat \<Rightarrow> nat" where
  "updated_value dels adds x v = (case map_of (rev adds) x of Some w \<Rightarrow> w | None \<Rightarrow> if (x, v) \<in> set dels then 0 else v)"

definition successor_facts :: "'n arithmetic \<Rightarrow> 'n state_context \<Rightarrow> 'n gaction \<Rightarrow> nat list" where
  "successor_facts A sc a = (let es = map snd (fired A sc (ga_effects a)); fs = us_facts (sc_state sc)
     in map (\<lambda>x. updated_value (concat (map ge_delete es)) (concat (map ge_add es)) x (fs ! x)) [0..<length fs])"

definition successor_numeric :: "'n arithmetic \<Rightarrow> 'n state_context \<Rightarrow> 'n gaction \<Rightarrow> 'n list" where
  "successor_numeric A sc a = us_numeric (fold (\<lambda>(t, v). us_set_numeric A t v) (fired_values A sc (ga_effects a)) (sc_state sc))"

lemma process_effects_fold:
  "fold (process_effect A) ces x =
    \<lparr>ex_succ = fold (\<lambda>(t, v). us_set_numeric A t v) (fired_values A (ex_context x) ces) (ex_succ x),
     ex_context = (ex_context x)\<lparr>sc_auxiliary := fired_auxiliary A (ex_context x) ces\<rparr>,
     ex_del = ex_del x @ concat (map (\<lambda>e. ge_delete (snd e)) (fired A (ex_context x) ces)),
     ex_add = ex_add x @ concat (map (\<lambda>e. ge_add (snd e)) (fired A (ex_context x) ces))\<rparr>"
proof (induction ces arbitrary: x)
  case (Cons ce ces)
  show ?case
  proof (cases "condition_applicable A (ex_context x) (ce_condition ce)")
    case False
    then have "process_effect A ce x = x" by (simp add: process_effect_def)
    then show ?thesis using False Cons.IH [of x] by (simp add: fired_values_def fired_auxiliary_def)
  next
    case True
    have fold: "fold (\<lambda>(t, v). us_set_numeric A t v) (map (\<lambda>n. (ne_term n, evaluate_effect A sc n)) ns) u = fold (\<lambda>n. us_set_numeric A (ne_term n) (evaluate_effect A sc n)) ns u"
      for sc ns u by (simp add: fold_map comp_def)
    show ?thesis
      using True Cons.IH [of "process_effect A ce x"]
      by (cases "ge_auxiliary (ce_effect ce)") (simp_all add: process_effect_def fired_values_def fired_auxiliary_def fold Let_def)
  qed
qed (simp add: fired_values_def fired_auxiliary_def)

lemma fold_numeric_parts:
  "us_facts (fold (\<lambda>(t, v). us_set_numeric A t v) vs u) = us_facts u"
  "us_atoms (fold (\<lambda>(t, v). us_set_numeric A t v) vs u) = us_atoms u"
  "us_numeric (fold (\<lambda>(t, v). us_set_numeric A t v) vs u) = fold (\<lambda>(t, v) ns. vec_set t v ns (ar_nan A)) vs (us_numeric u)"
  by (induction vs arbitrary: u) (simp_all add: us_set_numeric_def split_beta)

lemma fold_delete:
  "us_atoms (fold delete_fact dels u) = us_atoms u" "us_numeric (fold delete_fact dels u) = us_numeric u"
  "length (us_facts (fold delete_fact dels u)) = length (us_facts u)"
  by (induction dels arbitrary: u) (simp_all add: delete_fact_def us_set_fact_def)

lemma fold_delete_fact:
  assumes "x < length (us_facts u)"
  shows "us_facts (fold delete_fact dels u) ! x = (if (x, us_facts u ! x) \<in> set dels then 0 else us_facts u ! x)"
proof (induction dels rule: rev_induct)
  case (snoc f dels)
  let ?u = "fold delete_fact dels u"
  obtain y w where f: "f = (y, w)" by (cases f)
  have "us_facts (delete_fact f ?u) ! x = (if x = y \<and> us_facts ?u ! x = w then 0 else us_facts ?u ! x)"
    using assms by (auto simp: f delete_fact_def us_set_fact_def us_get_fact_def nth_list_update fold_delete)
  then show ?case using snoc by (auto simp: f)
qed simp

lemma fold_add:
  "us_atoms (fold us_set_fact adds u) = us_atoms u" "us_numeric (fold us_set_fact adds u) = us_numeric u"
  "length (us_facts (fold us_set_fact adds u)) = length (us_facts u)"
  by (induction adds arbitrary: u) (simp_all add: us_set_fact_def)

lemma fold_add_fact:
  assumes "x < length (us_facts u)"
  shows "us_facts (fold us_set_fact adds u) ! x = (case map_of (rev adds) x of Some v \<Rightarrow> v | None \<Rightarrow> us_facts u ! x)"
proof (induction adds rule: rev_induct)
  case (snoc f adds)
  let ?u = "fold us_set_fact adds u"
  obtain y w where f: "f = (y, w)" by (cases f)
  have "us_facts (us_set_fact f ?u) ! x = (if x = y then w else us_facts ?u ! x)"
    using assms fold_add(3) [of adds u] by (auto simp: f us_set_fact_def nth_list_update)
  then show ?case using snoc by (auto simp: f)
qed simp

lemma unregistered_parts:
  "us_facts (us_assign_unextended_part u (get_unregistered_state T pooled)) = us_facts u"
  "us_numeric (us_assign_unextended_part u (get_unregistered_state T pooled)) = us_numeric u"
  "us_atoms (us_assign_unextended_part u (get_unregistered_state T pooled)) = replicate (ft_num_derived T) False"
  by (simp_all add: us_assign_unextended_part_def get_unregistered_state_def us_clear_def us_resize_fluent_facts_def us_resize_derived_atoms_def vec_resize_def)

section \<open>Successors\<close>

definition successor_metric :: "'n arithmetic \<Rightarrow> 'n ground_task \<Rightarrow> 'n state_context \<Rightarrow> 'n gaction \<Rightarrow> 'n unpacked_state \<Rightarrow> 'n" where
  "successor_metric A T sc a u = (let aux = fired_auxiliary A sc (ga_effects a) in ar_canonicalize A
     (case ft_metric T of Some e \<Rightarrow> gevaluate A (context_of A T u aux) e | None \<Rightarrow> ar_apply A Op_Add aux (ar_one A)))"

text \<open>The derived atoms of a state are supported by the axioms.\<close>

definition axioms_hold :: "'n arithmetic \<Rightarrow> 'n ground_task \<Rightarrow> 'n unpacked_state \<Rightarrow> bool" where
  "axioms_hold A T u \<longleftrightarrow> (\<forall>a < ft_num_derived T. us_test a u \<longleftrightarrow> (\<exists>x \<in> set (ft_axioms T). gx_head (ft_axiom T x) = a
     \<and> dynamically_applicable A (context_of A T u (ar_zero A)) (gx_body (ft_axiom T x))))"

text \<open>The state of an index, whatever state the pool hands out to hold it.\<close>

definition stored :: "'n arithmetic \<Rightarrow> ('n \<Rightarrow> 'n \<Rightarrow> bool) \<Rightarrow> 'n ground_task \<Rightarrow> 'n repository \<Rightarrow> 'n unpacked_state \<Rightarrow> bool" where
  "stored A same T rp u \<longleftrightarrow> us_index u < num_states rp \<and> (\<forall>pooled. reads_back A same u (get_registered_state T pooled rp (us_index u)))"

definition is_successor :: "'n arithmetic \<Rightarrow> ('n \<Rightarrow> 'n \<Rightarrow> bool) \<Rightarrow> 'n ground_task \<Rightarrow> 'n repository \<Rightarrow> 'n state_context \<Rightarrow> 'n gaction \<Rightarrow> 'n node \<Rightarrow> bool" where
  "is_successor A same T rp sc a node \<longleftrightarrow> (let u = nd_state node
     in us_facts u = successor_facts A sc a \<and> us_numeric u = successor_numeric A sc a \<and> axioms_hold A T u
        \<and> nd_metric node = successor_metric A T sc a u \<and> state_fits T u \<and> stored A same T rp u)"

definition keeps_states :: "'n ground_task \<Rightarrow> 'n repository \<Rightarrow> 'n repository \<Rightarrow> bool" where
  "keeps_states T rp rp' \<longleftrightarrow> num_states rp \<le> num_states rp'
     \<and> (\<forall>i < num_states rp. \<forall>pooled. get_registered_state T pooled rp' i = get_registered_state T pooled rp i)"

text \<open>The facts an action adds are facts of the task.\<close>

definition effects_speak :: "'n fdr_task \<Rightarrow> 'n gaction \<Rightarrow> bool" where
  "effects_speak F a \<longleftrightarrow> (\<forall>ce \<in> set (ga_effects a). \<forall>(x, v) \<in> set (ge_add (ce_effect ce)). x < length (ft_variables F) \<and> v \<le> ft_variables F ! x)"

definition evaluates_all :: "'n arithmetic \<Rightarrow> 'n ground_task \<Rightarrow> bool" where
  "evaluates_all A T \<longleftrightarrow> (\<forall>u. values_in_domain (ft_variables T) (us_facts u) \<longrightarrow> length (us_atoms u) = ft_num_derived T \<longrightarrow> true_atoms u = {}
     \<longrightarrow> (\<exists>u'. evaluates A T u u'))"

lemma keeps_states_trans: "keeps_states T rp rp' \<Longrightarrow> keeps_states T rp' rp'' \<Longrightarrow> keeps_states T rp rp''"
  by (simp add: keeps_states_def)

lemma keeps_states_refl: "keeps_states T rp rp"
  by (simp add: keeps_states_def)

lemma stored_keeps: "stored A same T rp u \<Longrightarrow> keeps_states T rp rp' \<Longrightarrow> stored A same T rp' u"
  by (auto simp: stored_def keeps_states_def)

lemma fired_effects: "(sc', e) \<in> set (fired A sc ces) \<Longrightarrow> e \<in> ce_effect ` set ces"
  by (induction ces arbitrary: sc) (auto split: if_splits)

lemma successor_facts_nth:
  assumes "y < length (us_facts (sc_state sc))"
  shows "successor_facts A sc a ! y = updated_value (concat (map ge_delete (map snd (fired A sc (ga_effects a)))))
    (concat (map ge_add (map snd (fired A sc (ga_effects a))))) y (us_facts (sc_state sc) ! y)"
proof -
  have "[0..<length (us_facts (sc_state sc))] ! y = y" using assms by simp
  then show ?thesis using assms unfolding successor_facts_def Let_def by (subst nth_map) simp_all
qed

lemma successor_facts_in_domain:
  assumes "values_in_domain (ft_variables T) (us_facts (sc_state sc))" "effects_speak (fdr_task.truncate T) a"
  shows "values_in_domain (ft_variables T) (successor_facts A sc a)"
proof -
  let ?es = "map snd (fired A sc (ga_effects a))"
  have "x < length (ft_variables T) \<and> w \<le> ft_variables T ! x" if "map_of (rev (concat (map ge_add ?es))) x = Some w" for x w
  proof -
    have "(x, w) \<in> set (concat (map ge_add ?es))" using map_of_SomeD [OF that] by simp
    then show ?thesis using fired_effects assms(2) by (fastforce simp: effects_speak_def fdr_task.defs)
  qed
  then show ?thesis using assms(1)
    by (auto simp: values_in_domain_def successor_facts_def updated_value_def Let_def split: option.splits)
qed

lemma gevaluate_index: "gevaluate A (context_of A T (u\<lparr>us_index := i\<rparr>) v) e = gevaluate A (context_of A T u v) e"
  by (induction e) (simp_all add: context_of_def us_get_numeric_def cong: map_cong)

lemma dynamically_applicable_index:
  "dynamically_applicable A (context_of A T (u\<lparr>us_index := i\<rparr>) v) c = dynamically_applicable A (context_of A T u v) c"
proof -
  have "gholds A (context_of A T (u\<lparr>us_index := i\<rparr>) v) k = gholds A (context_of A T u v) k" for k by (cases k) (simp add: gevaluate_index)
  then show ?thesis
    by (simp add: dynamically_applicable_def list_all_iff fact_holds_def derived_holds_def us_get_fact_def us_test_def context_of_def)
qed

lemma axioms_hold_index: "axioms_hold A T (u\<lparr>us_index := i\<rparr>) = axioms_hold A T u"
  by (simp add: axioms_hold_def dynamically_applicable_index us_test_def)

text \<open>Registering an unextended state.\<close>

lemma register_unextended:
  assumes ok: "repository_ok same T rp" and all: "evaluates_all A T"
    and u: "values_in_domain (ft_variables T) (us_facts u)" "us_atoms u = replicate (ft_num_derived T) False"
  obtains u' rp' where "register_state A same T u rp = Some (Inr (u', rp'))" "repository_ok same T rp'" "keeps_states T rp rp'"
    "us_facts u' = us_facts u" "us_numeric u' = us_numeric u" "axioms_hold A T u'" "state_fits T u'" "stored A same T rp' u'"
proof -
  have "true_atoms u = {}" "length (us_atoms u) = ft_num_derived T" using u(2) by (auto simp: true_atoms_def)
  then obtain u' where e: "evaluates A T u u'" using all u(1) unfolding evaluates_all_def by blast
  then have ext: "(if has_axioms T then compute_extended_state A (task_test T) (task_get A T) (ft_axiom T) (gt_axiom_trees T) u else Some u) = Some u'"
    and parts: "length (us_atoms u') = ft_num_derived T" "us_facts u' = us_facts u" "us_numeric u' = us_numeric u" and hold: "axioms_hold A T u'"
    by (simp_all add: evaluates_def axioms_hold_def)
  have fits: "state_fits T u'" using parts u(1) by (simp add: state_fits_def)
  obtain i rp' where r: "register_state A same T u rp = Some (Inr (u'\<lparr>us_index := i\<rparr>, rp'))" "repository_ok same T rp'" "i < num_states rp'"
    "num_states rp' = (if i < num_states rp then num_states rp else num_states rp + 1)"
    "i < num_states rp \<longleftrightarrow> (\<exists>j. registered_as A same T rp u' j)" "\<And>j. registered_as A same T rp u' j \<Longrightarrow> i = j"
    "\<And>pooled. reads_back A same u' (get_registered_state T pooled rp' i)"
    "\<And>j pooled. j < num_states rp \<Longrightarrow> get_registered_state T pooled rp' j = get_registered_state T pooled rp j"
    using register_spec [OF ok fits ext] by blast
  have keeps: "keeps_states T rp rp'" using r(4,8) by (simp add: keeps_states_def split: if_splits)
  have st: "stored A same T rp' (u'\<lparr>us_index := i\<rparr>)" using r(3,7) by (simp add: stored_def reads_back_def Let_def)
  show thesis
    by (rule that [OF r(1,2) keeps _ _ _ _ st]) (use parts hold fits in \<open>simp_all add: axioms_hold_index state_fits_def\<close>)
qed

lemma apply_action_spec:
  assumes ok: "repository_ok same T rp" and all: "evaluates_all A T"
    and dom: "values_in_domain (ft_variables T) (us_facts (sc_state sc))" and speak: "effects_speak (fdr_task.truncate T) a"
  obtains node rp' where "apply_action A same T pooled sc a rp = Some (Inr (node, rp'))" "repository_ok same T rp'" "keeps_states T rp rp'"
    "is_successor A same T rp' sc a node"
proof -
  let ?u = "us_assign_unextended_part (sc_state sc) (get_unregistered_state T pooled)" and ?ces = "ga_effects a"
  let ?x = "process_effects A a \<lparr>ex_succ = ?u, ex_context = sc, ex_del = [], ex_add = []\<rparr>"
  let ?es = "map snd (fired A sc ?ces)"
  let ?v = "fold us_set_fact (ex_add ?x) (fold delete_fact (ex_del ?x) (ex_succ ?x))"
  have x: "ex_succ ?x = fold (\<lambda>(t, v). us_set_numeric A t v) (fired_values A sc ?ces) ?u" "sc_auxiliary (ex_context ?x) = fired_auxiliary A sc ?ces"
    "ex_del ?x = concat (map ge_delete ?es)" "ex_add ?x = concat (map ge_add ?es)"
    unfolding process_effects_def process_effects_fold by (simp_all add: comp_def)
  have numeric: "us_numeric ?v = successor_numeric A sc a"
    by (simp only: fold_add fold_delete x(1) successor_numeric_def fold_numeric_parts unregistered_parts)
  have atoms: "us_atoms ?v = replicate (ft_num_derived T) False"
    by (simp only: fold_add fold_delete x(1) fold_numeric_parts unregistered_parts)
  have succ: "us_facts (ex_succ ?x) = us_facts (sc_state sc)" by (simp only: x(1) fold_numeric_parts unregistered_parts)
  have facts: "us_facts ?v = successor_facts A sc a"
  proof (rule nth_equalityI)
    show "length (us_facts ?v) = length (successor_facts A sc a)" by (simp add: fold_add fold_delete succ successor_facts_def Let_def)
    fix y assume "y < length (us_facts ?v)"
    then have y: "y < length (us_facts (sc_state sc))" by (simp add: fold_add fold_delete succ)
    have "us_facts ?v ! y = (case map_of (rev (ex_add ?x)) y of Some v \<Rightarrow> v | None \<Rightarrow> us_facts (fold delete_fact (ex_del ?x) (ex_succ ?x)) ! y)"
      by (rule fold_add_fact) (use y in \<open>simp add: fold_delete succ\<close>)
    also have "us_facts (fold delete_fact (ex_del ?x) (ex_succ ?x)) ! y =
        (if (y, us_facts (sc_state sc) ! y) \<in> set (ex_del ?x) then 0 else us_facts (sc_state sc) ! y)"
      using fold_delete_fact [of y "ex_succ ?x" "ex_del ?x"] y succ by simp
    finally show "us_facts ?v ! y = successor_facts A sc a ! y" unfolding x(3,4) successor_facts_nth [OF y] updated_value_def .
  qed
  have in_domain: "values_in_domain (ft_variables T) (us_facts ?v)" unfolding facts by (rule successor_facts_in_domain [OF dom speak])
  obtain u' rp' where r: "register_state A same T ?v rp = Some (Inr (u', rp'))" "repository_ok same T rp'" "keeps_states T rp rp'"
    "us_facts u' = us_facts ?v" "us_numeric u' = us_numeric ?v" "axioms_hold A T u'" "state_fits T u'" "stored A same T rp' u'"
    using register_unextended [OF ok all in_domain atoms] .
  define node where "node = \<lparr>nd_state = u', nd_metric = successor_metric A T sc a u'\<rparr>"
  have "apply_action A same T pooled sc a rp = Some (Inr (node, rp'))"
    using r(1) by (simp add: apply_action_def Let_def node_def successor_metric_def x(2))
  moreover have "is_successor A same T rp' sc a node" using r(4-8) facts numeric by (simp add: is_successor_def node_def Let_def)
  ultimately show thesis using that r(2,3) by blast
qed

lemma is_successor_keeps: "is_successor A same T rp sc a node \<Longrightarrow> keeps_states T rp rp' \<Longrightarrow> is_successor A same T rp' sc a node"
  by (auto simp: is_successor_def Let_def stored_keeps)

lemma apply_applicable_spec:
  assumes "repository_ok same T rp" "evaluates_all A T" "values_in_domain (ft_variables T) (us_facts (sc_state sc))"
    "\<forall>a \<in> set as. effects_speak (fdr_task.truncate T) (ft_action T a)"
  shows "\<exists>nodes rp'. apply_applicable A same T pool sc as rp = Some (Inr (nodes, rp')) \<and> repository_ok same T rp' \<and> keeps_states T rp rp'
    \<and> map fst nodes = filter (\<lambda>a. effects_applicable A sc (ga_effects (ft_action T a))) as
    \<and> (\<forall>(a, node) \<in> set nodes. is_successor A same T rp' sc (ft_action T a) node)"
  using assms(1,4)
proof (induction as arbitrary: rp)
  case (Cons a as)
  show ?case
  proof (cases "effects_applicable A sc (ga_effects (ft_action T a))")
    case False
    then show ?thesis using Cons.IH [OF Cons.prems(1)] Cons.prems(2) by simp
  next
    case True
    obtain node rp1 where s: "apply_action A same T (pool a) sc (ft_action T a) rp = Some (Inr (node, rp1))" "repository_ok same T rp1"
      "keeps_states T rp rp1" "is_successor A same T rp1 sc (ft_action T a) node"
      using apply_action_spec [OF Cons.prems(1) assms(2,3)] Cons.prems(2) by (metis list.set_intros(1))
    obtain nodes rp2 where n: "apply_applicable A same T pool sc as rp1 = Some (Inr (nodes, rp2))" "repository_ok same T rp2" "keeps_states T rp1 rp2"
      "map fst nodes = filter (\<lambda>a. effects_applicable A sc (ga_effects (ft_action T a))) as" "\<forall>(a, node) \<in> set nodes. is_successor A same T rp2 sc (ft_action T a) node"
      using Cons.IH [OF s(2)] Cons.prems(2) by auto
    have "apply_applicable A same T pool sc (a # as) rp = Some (Inr ((a, node) # nodes, rp2))" using True s(1) n(1) by simp
    moreover have "\<forall>(a, node) \<in> set ((a, node) # nodes). is_successor A same T rp2 sc (ft_action T a) node"
      using n(5) is_successor_keeps [OF s(4) n(3)] by simp
    moreover have "map fst ((a, node) # nodes) = filter (\<lambda>a. effects_applicable A sc (ga_effects (ft_action T a))) (a # as)" using True n(4) by simp
    ultimately show ?thesis using keeps_states_trans [OF s(3) n(3)] n(2) by blast
  qed
qed (simp add: keeps_states_refl)

section \<open>One index for each state\<close>

definition same_state :: "'n arithmetic \<Rightarrow> ('n \<Rightarrow> 'n \<Rightarrow> bool) \<Rightarrow> 'n unpacked_state \<Rightarrow> 'n unpacked_state \<Rightarrow> bool" where
  "same_state A same u w \<longleftrightarrow> us_facts u = us_facts w \<and> us_atoms u = us_atoms w
     \<and> list_all2 same (map (ar_canonicalize A) (us_numeric u)) (map (ar_canonicalize A) (us_numeric w))"

lemma stored_parts:
  assumes "repository_ok same T rp" "stored A same T rp u" "same_state A same u u" "rp_states rp ! us_index u = (f, a, v)"
  shows "f < set_count (rp_facts rp)" "a < set_count (rp_atoms rp)" "v < length (rp_vectors rp)"
    "us_facts u = facts_unpack (task_layout T) (rp_facts rp) f" "us_atoms u = atoms_unpack (task_layout T) (rp_atoms rp) a"
    "list_all2 same (map (ar_canonicalize A) (us_numeric u)) (rp_vectors rp ! v)" "us_index u < length (rp_states rp)"
proof -
  show less: "us_index u < length (rp_states rp)" using assms(2) by (simp add: stored_def num_states_def)
  then have "(f, a, v) \<in> set (rp_states rp)" using assms(4) nth_mem by metis
  then show "f < set_count (rp_facts rp)" "a < set_count (rp_atoms rp)" "v < length (rp_vectors rp)" using assms(1) unfolding repository_ok_def by blast+
  have r: "reads_back A same u (get_registered_state T pooled rp (us_index u))" for pooled using assms(2) by (simp add: stored_def)
  note parts = registered_parts [OF assms(4)]
  show "us_facts u = facts_unpack (task_layout T) (rp_facts rp) f" "us_atoms u = atoms_unpack (task_layout T) (rp_atoms rp) a"
    using r unfolding reads_back_def parts by metis+
  show "list_all2 same (map (ar_canonicalize A) (us_numeric u)) (rp_vectors rp ! v)"
    using r assms(3) unfolding reads_back_def parts same_state_def Let_def by metis
qed

lemma index_identifies:
  assumes ok: "repository_ok same T rp" and u: "stored A same T rp u" "same_state A same u u" "state_fits T u"
    and w: "stored A same T rp w" "same_state A same w w" "state_fits T w"
  shows "us_index u = us_index w \<longleftrightarrow> same_state A same u w"
proof -
  let ?v = "\<lambda>u. map (ar_canonicalize A) (us_numeric u)"
  note O = ok [unfolded repository_ok_def]
  have inv: "facts_invar (ft_variables T) (ft_num_derived T) (rp_facts rp)" "atoms_invar (ft_variables T) (ft_num_derived T) (rp_atoms rp)"
    "vectors_invar same (rp_vectors rp)" "distinct (rp_states rp)" using O by blast+
  then have eqv: "symp same" "transp same" by (simp_all add: vectors_invar_def)
  obtain f a v where t: "rp_states rp ! us_index u = (f, a, v)" by (cases "rp_states rp ! us_index u")
  obtain f' a' v' where t': "rp_states rp ! us_index w = (f', a', v')" by (cases "rp_states rp ! us_index w")
  note U = stored_parts [OF ok u(1,2) t] and W = stored_parts [OF ok w(1,2) t']
  show ?thesis
  proof
    assume "us_index u = us_index w"
    then have "f = f'" "a = a'" "v = v'" using t t' by simp_all
    then have "us_facts u = us_facts w" "us_atoms u = us_atoms w" using U(4,5) W(4,5) by simp_all
    moreover have "list_all2 same (?v u) (?v w)"
      using list_all2_transp [OF eqv(2) U(6)] list_all2_sym [OF eqv(1) W(6)] \<open>v = v'\<close> by simp
    ultimately show "same_state A same u w" by (simp add: same_state_def)
  next
    assume "same_state A same u w"
    then have s: "us_facts w = us_facts u" "us_atoms w = us_atoms u" "list_all2 same (?v u) (?v w)" by (simp_all add: same_state_def)
    have legal: "values_in_domain (ft_variables T) (us_facts u)" "length (us_atoms u) = ft_num_derived T" using u(3) by (simp_all add: state_fits_def)
    have v': "list_all2 same (?v u) (rp_vectors rp ! v')" by (rule list_all2_transp [OF eqv(2) s(3) W(6)])
    note U' = U [unfolded task_layout_def] and W' = W [unfolded task_layout_def s(1,2)]
    have "(f, rp_facts rp) = (f', rp_facts rp)"
      by (rule trans [OF facts.put_known [OF inv(1) legal(1) U'(1,4), symmetric] facts.put_known [OF inv(1) legal(1) W'(1,4)]])
    moreover have "(a, rp_atoms rp) = (a', rp_atoms rp)"
      by (rule trans [OF atoms.put_known [OF inv(2) legal(2) U'(2,5), symmetric] atoms.put_known [OF inv(2) legal(2) W'(2,5)]])
    moreover have "(v, rp_vectors rp) = (v', rp_vectors rp)"
      by (rule trans [OF vectors.put_known [OF inv(3) TrueI U(3,6), symmetric] vectors.put_known [OF inv(3) TrueI W(3) v']])
    ultimately have "rp_states rp ! us_index u = rp_states rp ! us_index w" using t t' by simp
    then show "us_index u = us_index w" using inv(4) U(7) W(7) nth_eq_iff_index_eq by metis
  qed
qed

section \<open>The state space\<close>

text \<open>A task that can be searched: its actions and its initial facts speak of its variables.\<close>

definition searchable :: "boost \<Rightarrow> 'n fdr_task \<Rightarrow> bool" where
  "searchable B F \<longleftrightarrow> task_ok B F \<and> (\<forall>a \<in> set (ft_actions F). effects_speak F (ft_action F a))
     \<and> (\<forall>(x, v) \<in> set (ft_facts F). x < length (ft_variables F) \<and> v \<le> ft_variables F ! x)"

text \<open>The nodes that a search has, and the repository, after any number of calls.\<close>

inductive generated :: "'n arithmetic \<Rightarrow> ('n \<Rightarrow> 'n \<Rightarrow> bool) \<Rightarrow> 'n ground_task \<Rightarrow> 'n node set \<Rightarrow> 'n repository \<Rightarrow> bool"
  for A :: "'n arithmetic" and same :: "'n \<Rightarrow> 'n \<Rightarrow> bool" and T :: "'n ground_task" where
  initial: "get_initial_node A same T pooled (create_repository T) = Some (Inr (node, rp)) \<Longrightarrow> generated A same T {node} rp"
| expanded: "generated A same T N rp \<Longrightarrow> node \<in> N \<Longrightarrow> get_labeled_successor_nodes A same T pool node rp = Some (Inr (nodes, rp'))
    \<Longrightarrow> generated A same T (N \<union> snd ` set nodes) rp'"
| followed: "generated A same T N rp \<Longrightarrow> node \<in> N \<Longrightarrow> a \<in> set (ft_actions T)
    \<Longrightarrow> get_successor_node A same T pooled node a rp = Some (Inr (node', rp')) \<Longrightarrow> generated A same T (insert node' N) rp'"

definition good_node :: "'n arithmetic \<Rightarrow> ('n \<Rightarrow> 'n \<Rightarrow> bool) \<Rightarrow> 'n ground_task \<Rightarrow> 'n repository \<Rightarrow> 'n node \<Rightarrow> bool" where
  "good_node A same T rp node \<longleftrightarrow> state_fits T (nd_state node) \<and> axioms_hold A T (nd_state node) \<and> stored A same T rp (nd_state node)"

lemma good_node_keeps: "good_node A same T rp node \<Longrightarrow> keeps_states T rp rp' \<Longrightarrow> good_node A same T rp' node"
  by (auto simp: good_node_def stored_keeps)

lemma successor_good: "is_successor A same T rp sc a node \<Longrightarrow> good_node A same T rp node"
  by (simp add: is_successor_def good_node_def Let_def)

lemma searchable_created:
  assumes "searchable B F" "\<And>occ. mset (hash_order occ) = mset occ" "create_ground_task B hash_order A F = Some (Inr T)"
  obtains m where "T = fdr_task.extend F m" "evaluates_all A T"
    "\<And>sc. values_in_domain (ft_variables F) (us_facts (sc_state sc)) \<Longrightarrow>
      mset (generate_applicable A sc (gt_action_tree T)) = mset (filter (\<lambda>a. dynamically_applicable A sc (ga_condition (ft_action F a))) (ft_actions F))"
proof -
  have "task_ok B F" using assms(1) by (simp add: searchable_def)
  from create_ground_task_ok [OF this assms(2), of A] obtain T' m where
    c: "create_ground_task B hash_order A F = Some (Inr T')" "T' = fdr_task.extend F m"
    "\<And>u. values_in_domain (ft_variables F) (us_facts u) \<Longrightarrow> length (us_atoms u) = ft_num_derived F \<Longrightarrow> true_atoms u = {} \<Longrightarrow> \<exists>u'. evaluates A T' u u'"
    "\<And>sc. values_in_domain (ft_variables F) (us_facts (sc_state sc)) \<Longrightarrow>
      mset (generate_applicable A sc (gt_action_tree T')) = mset (filter (\<lambda>a. dynamically_applicable A sc (ga_condition (ft_action F a))) (ft_actions F))" by blast
  have T: "T = T'" using c(1) assms(3) by simp
  show thesis by (rule that [of m]) (use c(2-4) in \<open>simp_all add: T evaluates_all_def\<close>)
qed

lemma truncate_extend [simp]: "fdr_task.truncate (fdr_task.extend F m) = F"
  by (simp add: fdr_task.defs)

lemma extend_facts_initial [simp]: "ft_facts (fdr_task.extend F m) = ft_facts F"
  by (simp add: fdr_task.defs)

lemma initial_node_spec:
  assumes ok: "repository_ok same T rp" and all: "evaluates_all A T"
    and facts: "\<forall>(x, v) \<in> set (ft_facts T). x < length (ft_variables T) \<and> v \<le> ft_variables T ! x"
  obtains node rp' where "get_initial_node A same T pooled rp = Some (Inr (node, rp'))" "repository_ok same T rp'" "keeps_states T rp rp'"
    "good_node A same T rp' node"
    "\<And>x. x < length (ft_variables T) \<Longrightarrow> us_facts (nd_state node) ! x = (case map_of (rev (ft_facts T)) x of Some v \<Rightarrow> v | None \<Rightarrow> 0)"
proof -
  let ?n = "length (ft_variables T)"
  let ?start = "get_unregistered_state T pooled"
  let ?u = "fold (\<lambda>(f, v). us_set_numeric A f v) (ft_values T) (fold us_set_fact (ft_facts T) ?start)"
  have u0: "us_facts ?start = replicate ?n 0" "us_atoms ?start = replicate (ft_num_derived T) False"
    by (simp_all add: get_unregistered_state_def us_clear_def us_resize_fluent_facts_def us_resize_derived_atoms_def vec_resize_def)
  have "us_facts ?u = us_facts (fold us_set_fact (ft_facts T) ?start)" by (simp only: fold_numeric_parts)
  then have at: "us_facts ?u ! x = (case map_of (rev (ft_facts T)) x of Some v \<Rightarrow> v | None \<Rightarrow> 0)" if "x < ?n" for x
    using fold_add_fact [of x ?start "ft_facts T"] that u0(1) by (simp split: option.splits)
  have dom: "values_in_domain (ft_variables T) (us_facts ?u)"
    unfolding values_in_domain_def
  proof (intro conjI allI impI)
    show "length (us_facts ?u) = ?n" by (simp only: fold_numeric_parts fold_add u0 length_replicate)
    fix x assume x: "x < ?n"
    show "us_facts ?u ! x \<le> ft_variables T ! x"
      unfolding at [OF x] using facts map_of_SomeD [of "rev (ft_facts T)" x] by (fastforce split: option.splits)
  qed
  have atoms: "us_atoms ?u = replicate (ft_num_derived T) False" by (simp only: fold_numeric_parts fold_add u0)
  obtain u' rp' where r: "register_state A same T ?u rp = Some (Inr (u', rp'))" "repository_ok same T rp'" "keeps_states T rp rp'"
    "us_facts u' = us_facts ?u" "us_numeric u' = us_numeric ?u" "axioms_hold A T u'" "state_fits T u'" "stored A same T rp' u'"
    using register_unextended [OF ok all dom atoms] .
  have "get_initial_node A same T pooled rp = Some (Inr (\<lparr>nd_state = u', nd_metric =
      evaluate_metric A (ft_metric T) (ft_auxiliary T) (context_of A T u' (ar_zero A))\<rparr>, rp'))"
    using r(1) by (simp add: get_initial_node_def get_initial_state_def)
  then show thesis by (rule that [OF _ r(2,3)]) (use r(4,6-8) at in \<open>simp_all add: good_node_def\<close>)
qed

text \<open>What a call does that generates all successors, or one.\<close>

lemma labeled_successors_spec:
  assumes "searchable B F" "\<And>occ. mset (hash_order occ) = mset occ" "create_ground_task B hash_order A F = Some (Inr T)"
    and ok: "repository_ok same T rp" and fits: "state_fits T (nd_state node)"
  obtains nodes rp' where "get_labeled_successor_nodes A same T pool node rp = Some (Inr (nodes, rp'))" "repository_ok same T rp'" "keeps_states T rp rp'"
    "mset (map fst nodes) = mset (filter (\<lambda>a. dynamically_applicable A (node_context A T node) (ga_condition (ft_action F a))
       \<and> effects_applicable A (node_context A T node) (ga_effects (ft_action F a))) (ft_actions F))"
    "\<forall>(a, n) \<in> set nodes. is_successor A same T rp' (node_context A T node) (ft_action F a) n"
proof -
  let ?sc = "node_context A T node"
  obtain m where T: "T = fdr_task.extend F m" and all: "evaluates_all A T"
    and gen: "values_in_domain (ft_variables F) (us_facts (sc_state ?sc)) \<Longrightarrow>
      mset (generate_applicable A ?sc (gt_action_tree T)) = mset (filter (\<lambda>a. dynamically_applicable A ?sc (ga_condition (ft_action F a))) (ft_actions F))"
    using searchable_created [OF assms(1-3)] by blast
  have dom: "values_in_domain (ft_variables T) (us_facts (sc_state ?sc))" using fits by (simp add: node_context_def context_of_def state_fits_def)
  let ?as = "generate_applicable A ?sc (gt_action_tree T)"
  have as: "mset ?as = mset (filter (\<lambda>a. dynamically_applicable A ?sc (ga_condition (ft_action F a))) (ft_actions F))" using gen dom T by simp
  have "set ?as \<subseteq> set (ft_actions F)" using mset_eq_setD [OF as] by simp
  then have speak: "\<forall>a \<in> set ?as. effects_speak (fdr_task.truncate T) (ft_action T a)" using assms(1) T by (auto simp: searchable_def)
  obtain nodes rp' where n: "apply_applicable A same T pool ?sc ?as rp = Some (Inr (nodes, rp'))" "repository_ok same T rp'" "keeps_states T rp rp'"
    "map fst nodes = filter (\<lambda>a. effects_applicable A ?sc (ga_effects (ft_action T a))) ?as"
    "\<forall>(a, n) \<in> set nodes. is_successor A same T rp' ?sc (ft_action T a) n"
    using apply_applicable_spec [OF ok all dom speak, of pool] by blast
  have "mset (map fst nodes) = filter_mset (\<lambda>a. effects_applicable A ?sc (ga_effects (ft_action F a))) (mset ?as)" using n(4) T by (simp add: mset_filter)
  also have "\<dots> = mset (filter (\<lambda>a. dynamically_applicable A ?sc (ga_condition (ft_action F a)) \<and> effects_applicable A ?sc (ga_effects (ft_action F a))) (ft_actions F))"
    by (simp only: as mset_filter filter_filter_mset conj_commute)
  finally show thesis using that n(1-3,5) T by (simp add: get_labeled_successor_nodes_def Let_def)
qed

lemma generated_invariant:
  assumes "searchable B F" "\<And>occ. mset (hash_order occ) = mset occ" "create_ground_task B hash_order A F = Some (Inr T)" "symp same" "transp same"
    and "generated A same T N rp"
  shows "repository_ok same T rp \<and> (\<forall>node \<in> N. good_node A same T rp node)"
  using assms(6)
proof (induction rule: generated.induct)
  case (initial pooled node rp)
  obtain m where T: "T = fdr_task.extend F m" "evaluates_all A T" using searchable_created [OF assms(1-3)] by blast
  have "layout_fits (ft_variables T) (ft_num_derived T)" using assms(1) T(1) by (simp add: searchable_def task_ok_def)
  then have ok: "repository_ok same T (create_repository T)" by (rule create_repository_ok(1) [OF _ assms(4,5)])
  have facts: "\<forall>(x, v) \<in> set (ft_facts T). x < length (ft_variables T) \<and> v \<le> ft_variables T ! x" using assms(1) T(1) by (simp add: searchable_def)
  obtain node' rp' where "get_initial_node A same T pooled (create_repository T) = Some (Inr (node', rp'))" "repository_ok same T rp'" "good_node A same T rp' node'"
    by (rule initial_node_spec [OF ok T(2) facts, of pooled]) (rule that)
  then show ?case using initial by simp
next
  case (expanded N rp node pool nodes rp')
  have fits: "state_fits T (nd_state node)" using expanded by (simp add: good_node_def)
  obtain nodes' rp'' where s: "get_labeled_successor_nodes A same T pool node rp = Some (Inr (nodes', rp''))" "repository_ok same T rp''" "keeps_states T rp rp''"
    "\<forall>(a, n) \<in> set nodes'. is_successor A same T rp'' (node_context A T node) (ft_action F a) n"
    by (rule labeled_successors_spec [OF assms(1-3) conjunct1 [OF expanded.IH] fits, of pool]) (rule that)
  have eqs: "nodes' = nodes" "rp'' = rp'" using s(1) expanded.hyps(3) by simp_all
  have "good_node A same T rp' n" if "n \<in> snd ` set nodes" for n using that s(4) unfolding eqs by (fastforce intro: successor_good)
  then show ?case using s(2,3) expanded.IH unfolding eqs by (auto intro: good_node_keeps)
next
  case (followed N rp node a pooled node' rp')
  obtain m where T: "T = fdr_task.extend F m" "evaluates_all A T" using searchable_created [OF assms(1-3)] by blast
  have dom: "values_in_domain (ft_variables T) (us_facts (sc_state (node_context A T node)))"
    using followed.IH followed.hyps(2) by (auto simp: good_node_def state_fits_def node_context_def context_of_def)
  have speak: "effects_speak (fdr_task.truncate T) (ft_action T a)" using assms(1) followed.hyps(3) T(1) by (simp add: searchable_def)
  obtain n rp2 where s: "apply_action A same T pooled (node_context A T node) (ft_action T a) rp = Some (Inr (n, rp2))" "repository_ok same T rp2" "keeps_states T rp rp2"
    "is_successor A same T rp2 (node_context A T node) (ft_action T a) n"
    by (rule apply_action_spec [OF conjunct1 [OF followed.IH] T(2) dom speak, of pooled]) (rule that)
  have eqs: "n = node'" "rp2 = rp'" using s(1) followed.hyps(4) by (simp_all add: get_successor_node_def)
  show ?case using s(2-4) followed.IH unfolding eqs by (auto intro: good_node_keeps successor_good)
qed

text \<open>C15: With the storage policy Hashset, whatever nodes a search generates, their derived atoms are those that the axioms support
  and the repository reads back each of them by its index. Two of them whose numeric values equal themselves, which NaN does not, have the
  same index exactly if they are the same state, with numeric values rounded. (A state with a NaN is stored again each time, as
  the header says.)\<close>

theorem generated_states_correct:
  assumes "searchable B F" "\<And>occ. mset (hash_order occ) = mset occ" "create_ground_task B hash_order A F = Some (Inr T)" "symp same" "transp same"
    and "generated A same T N rp"
  shows "repository_ok same T rp
    \<and> (\<forall>node \<in> N. state_fits T (nd_state node) \<and> axioms_hold A T (nd_state node) \<and> stored A same T rp (nd_state node))
    \<and> (\<forall>n \<in> N. \<forall>n' \<in> N. same_state A same (nd_state n) (nd_state n) \<longrightarrow> same_state A same (nd_state n') (nd_state n')
       \<longrightarrow> (us_index (nd_state n) = us_index (nd_state n') \<longleftrightarrow> same_state A same (nd_state n) (nd_state n')))"
proof -
  have good: "repository_ok same T rp" "\<forall>node \<in> N. good_node A same T rp node" using generated_invariant [OF assms] by simp_all
  then show ?thesis using index_identifies [OF good(1)] by (simp add: good_node_def)
qed

section \<open>Effects that are lost\<close>

text \<open>Two effects of an action may increase the same function term, but each reads the old value, so only the last one counts.\<close>

definition increase :: "nat \<Rightarrow> 'n \<Rightarrow> 'n numeric_effect" where
  "increase t v = \<lparr>ne_op = Eff_Increase, ne_term = t, ne_expr = GNumber v\<rparr>"

definition unconditional :: "'n numeric_effect list \<Rightarrow> 'n gaction" where
  "unconditional es = (let c = \<lparr>gc_static = [], gc_positive = [], gc_negative = [], gc_derived = [], gc_numeric = []\<rparr>
     in \<lparr>ga_condition = c, ga_effects = [\<lparr>ce_condition = c, ce_effect = \<lparr>ge_delete = [], ge_add = [], ge_numeric = es, ge_auxiliary = None\<rparr>\<rparr>]\<rparr>)"

lemma increase_lost:
  assumes "us_numeric (sc_state sc) = [x]" "\<not> ar_isnan A x" "\<not> ar_isnan A v" "\<not> ar_isnan A w"
  shows "effects_applicable A sc (ga_effects (unconditional [increase 0 v, increase 0 w]))"
    and "successor_numeric A sc (unconditional [increase 0 v, increase 0 w]) = [ar_apply A Op_Add x w]"
  using assms
  by (simp_all add: unconditional_def increase_def effects_applicable_def applicable_if_fires_def effect_applicable_def numeric_effect_applicable_def
    vec_resize_def is_compatible_effect_family_def us_get_numeric_def vec_get_def successor_numeric_def fired_values_def condition_applicable_def
    evaluate_effect_def us_set_numeric_def vec_set_def Let_def)

text \<open>The metric of a node is the total cost for its successors: what the metric adds to the total cost is added again with each action.
  Without a metric an action costs one more than it increases the total cost.\<close>

lemma metric_counted_again:
  assumes "ft_metric T = Some (GBinary Op_Add GAuxiliary (GFluent t))"
  shows "successor_metric A T (node_context A T node) (unconditional []) u = ar_canonicalize A (ar_apply A Op_Add (nd_metric node) (us_get_numeric A t u))"
  using assms by (simp add: successor_metric_def fired_auxiliary_def unconditional_def condition_applicable_def node_context_def context_of_def Let_def)

lemma unit_cost_added:
  assumes "ft_metric T = None" "ga_effects a = [\<lparr>ce_condition = c, ce_effect = \<lparr>ge_delete = [], ge_add = [], ge_numeric = [], ge_auxiliary = Some (GNumber v)\<rparr>\<rparr>]"
    and "condition_applicable A sc c"
  shows "successor_metric A T sc a u = ar_canonicalize A (ar_apply A Op_Add (ar_apply A Op_Add (sc_auxiliary sc) v) (ar_one A))"
  using assms by (simp add: successor_metric_def fired_auxiliary_def evaluate_auxiliary_def)

section \<open>Example\<close>

text \<open>One variable with values 1 and 2 and the axioms of before; an action changes the value from 1 to 2 and increases a numeric variable.\<close>

definition search_action :: "nat gaction" where
  "search_action = (let c = \<lparr>gc_static = [], gc_positive = [(0, 1)], gc_negative = [], gc_derived = [], gc_numeric = []\<rparr>
     in \<lparr>ga_condition = c, ga_effects = [\<lparr>ce_condition = c\<lparr>gc_positive := []\<rparr>,
          ce_effect = \<lparr>ge_delete = [(0, 1)], ge_add = [(0, 2)], ge_numeric = [increase 0 3], ge_auxiliary = None\<rparr>\<rparr>]\<rparr>)"

definition search_task :: "nat fdr_task" where
  "search_task = \<lparr>ft_static_atoms = [], ft_static_values = [], ft_variables = [2], ft_num_derived = 3, ft_action = (\<lambda>a. search_action), ft_actions = [0],
     ft_axiom = example_axiom, ft_axioms = [0, 1, 2, 3], ft_facts = [(0, 1)], ft_values = [(0, 5)], ft_metric = None, ft_auxiliary = None\<rparr>"

definition search_node :: "nat node" where
  "search_node = \<lparr>nd_state = \<lparr>us_index = 0, us_facts = [1], us_atoms = [True, False, True], us_numeric = [5]\<rparr>, nd_metric = 4\<rparr>"

lemma stratified_axiom_rules: "stratifies level (axiom_rules ax axioms) \<longleftrightarrow> stratified_axioms level ax axioms"
  by (simp add: stratifies_def stratified_axioms_def)

lemma search_task_searchable: "searchable upward_boost search_task"
proof -
  have "\<not> negative_cycle (axiom_rules example_axiom [0, 1, 2, 3])"
  proof -
    obtain level where "stratified_axioms level example_axiom [0, 1, 2, 3]"
      using ground_stratification_outcome [OF example_axioms_good(1) example_axiom_fits] unfolding example_axiom_stratification by blast
    then have "stratifies level (axiom_rules example_axiom [0, 1, 2, 3])" by (simp only: stratified_axiom_rules)
    then show ?thesis using negative_cycle_unstratified by blast
  qed
  moreover have "layout_fits [2] 3" using variable_bits_le [of 2] by (simp add: layout_fits_def)
  moreover have "condition_speaks search_task (gx_body (example_axiom x))" for x
    by (simp add: condition_speaks_def good_condition_def is_consistent_def condition_consistent_def example_axiom_def domain_size_def search_task_def)
  moreover have "condition_speaks search_task (ga_condition search_action)"
    by (simp add: condition_speaks_def good_condition_def is_consistent_def condition_consistent_def search_action_def Let_def domain_size_def search_task_def)
  moreover have "effects_speak search_task search_action" by (simp add: effects_speak_def search_action_def search_task_def Let_def)
  ultimately show ?thesis
    using example_axioms_good(1) example_axiom_fits by (simp add: searchable_def task_ok_def search_task_def)
qed

lemma search_task_created:
  obtains T m where "create_ground_task upward_boost (\<lambda>occ. occ) example_arithmetic search_task = Some (Inr T)" "T = fdr_task.extend search_task m"
proof -
  have ok: "task_ok upward_boost search_task" using search_task_searchable by (simp add: searchable_def)
  show thesis by (rule create_ground_task_ok [OF ok, of "\<lambda>occ. occ" example_arithmetic, OF refl]) (rule that)
qed

theorem generated_states_correct_witness:
  "\<exists>T rp node. create_ground_task upward_boost (\<lambda>occ. occ) example_arithmetic search_task = Some (Inr T)
    \<and> generated example_arithmetic (=) T {node} rp \<and> us_facts (nd_state node) = [1] \<and> axioms_hold example_arithmetic T (nd_state node)"
proof -
  obtain T m where T: "create_ground_task upward_boost (\<lambda>occ. occ) example_arithmetic search_task = Some (Inr T)" "T = fdr_task.extend search_task m"
    by (rule search_task_created)
  have task: "ft_variables T = [2]" "ft_num_derived T = 3" "ft_facts T = [(0, 1)]" by (simp_all add: T(2) search_task_def fdr_task.defs)
  have "layout_fits [2] 3" using variable_bits_le [of 2] by (simp add: layout_fits_def)
  then have ok: "repository_ok (=) T (create_repository T)" using create_repository_ok(1) [OF _ equality_equivalence, of T] task by simp
  have all: "evaluates_all example_arithmetic T" using searchable_created [OF search_task_searchable _ T(1)] by blast
  have "\<forall>(x, v) \<in> set (ft_facts T). x < length (ft_variables T) \<and> v \<le> ft_variables T ! x" by (simp add: task)
  from initial_node_spec [OF ok all this, of "nd_state search_node"] obtain node rp where
    i: "get_initial_node example_arithmetic (=) T (nd_state search_node) (create_repository T) = Some (Inr (node, rp))" "good_node example_arithmetic (=) T rp node"
      "\<And>x. x < length (ft_variables T) \<Longrightarrow> us_facts (nd_state node) ! x = (case map_of (rev (ft_facts T)) x of Some v \<Rightarrow> v | None \<Rightarrow> 0)" by blast
  have g: "generated example_arithmetic (=) T {node} rp" by (rule generated.initial [OF i(1)])
  have "state_fits T (nd_state node)" "axioms_hold example_arithmetic T (nd_state node)"
    using generated_states_correct [OF search_task_searchable _ T(1) equality_equivalence g] by auto
  moreover from this have "us_facts (nd_state node) = [1]" using i(3) [of 0] by (auto simp: state_fits_def values_in_domain_def task length_Suc_conv)
  ultimately show ?thesis using T(1) g by blast
qed

end
