(* ===== verification/Ground_Semantics.thy ===== *)
theory Ground_Semantics
  imports Ground_Successors
begin

text \<open>
  The semantics of ground tasks, without the functions of \<^verbatim>\<open>planning/applicability.ipp\<close> and \<^verbatim>\<open>planning/action_executor.cpp\<close>: an
  operator with several arguments is that operator, all conditions and expressions of an action are read in the old state, all effects
  on a function term count, one after the other, and an action can be applied if all values that it needs are defined. For the
  tasks on which the program does not err the successor generator computes exactly the successors of this semantics.
\<close>

section \<open>Values and conditions\<close>

fun value_of :: "'n arithmetic \<Rightarrow> 'n state_context \<Rightarrow> 'n gexpr \<Rightarrow> 'n" where
  "value_of A sc (GNumber v) = v"
| "value_of A sc (GStatic t) = sc_values sc t"
| "value_of A sc (GFluent t) = us_get_numeric A t (sc_state sc)"
| "value_of A sc GAuxiliary = sc_auxiliary sc"
| "value_of A sc (GMinus e) = ar_negate A (value_of A sc e)"
| "value_of A sc (GBinary op lhs rhs) = ar_apply A op (value_of A sc lhs) (value_of A sc rhs)"
| "value_of A sc (GMulti op e es) = foldl (ar_apply A op) (value_of A sc e) (map (value_of A sc) es)"

fun constraint_true :: "'n arithmetic \<Rightarrow> 'n state_context \<Rightarrow> 'n gconstraint \<Rightarrow> bool" where
  "constraint_true A sc (GCompare op lhs rhs) = ar_compare A op (value_of A sc lhs) (value_of A sc rhs)"

definition condition_true :: "'n arithmetic \<Rightarrow> 'n state_context \<Rightarrow> 'n gcondition \<Rightarrow> bool" where
  "condition_true A sc c \<longleftrightarrow> (\<forall>(a, p) \<in> set (gc_static c). sc_static sc a = p)
     \<and> (\<forall>(x, v) \<in> set (gc_positive c). us_facts (sc_state sc) ! x = v) \<and> (\<forall>(x, v) \<in> set (gc_negative c). us_facts (sc_state sc) ! x \<noteq> v)
     \<and> (\<forall>(a, p) \<in> set (gc_derived c). us_atoms (sc_state sc) ! a = p) \<and> (\<forall>k \<in> set (gc_numeric c). constraint_true A sc k)"

section \<open>Actions\<close>

definition firing :: "'n arithmetic \<Rightarrow> 'n state_context \<Rightarrow> 'n gaction \<Rightarrow> 'n geffect list" where
  "firing A sc a = map ce_effect (filter (\<lambda>ce. condition_true A sc (ce_condition ce)) (ga_effects a))"

definition changed_value :: "'n arithmetic \<Rightarrow> effect_op \<Rightarrow> 'n \<Rightarrow> 'n \<Rightarrow> 'n" where
  "changed_value A op v w = (case op of Eff_Assign \<Rightarrow> w | Eff_Increase \<Rightarrow> ar_apply A Op_Add v w | Eff_Decrease \<Rightarrow> ar_apply A Op_Sub v w
     | Eff_Scale_Up \<Rightarrow> ar_apply A Op_Mul v w | Eff_Scale_Down \<Rightarrow> ar_apply A Op_Div v w)"

text \<open>All effects on a function term count.\<close>

definition term_after :: "'n arithmetic \<Rightarrow> 'n state_context \<Rightarrow> 'n gaction \<Rightarrow> nat \<Rightarrow> 'n" where
  "term_after A sc a t = fold (\<lambda>n v. changed_value A (ne_op n) v (value_of A sc (ne_expr n)))
     (filter (\<lambda>n. ne_term n = t) (concat (map ge_numeric (firing A sc a)))) (us_get_numeric A t (sc_state sc))"

definition defined_effect :: "'n arithmetic \<Rightarrow> 'n state_context \<Rightarrow> 'n geffect \<Rightarrow> bool" where
  "defined_effect A sc e \<longleftrightarrow> (\<forall>n \<in> set (ge_numeric e). \<not> ar_isnan A (value_of A sc (ne_expr n))
       \<and> (ne_op n \<noteq> Eff_Assign \<longrightarrow> \<not> ar_isnan A (us_get_numeric A (ne_term n) (sc_state sc))))
     \<and> (\<forall>x. ge_auxiliary e = Some x \<longrightarrow> \<not> ar_isnan A (value_of A sc x))"

definition can_apply :: "'n arithmetic \<Rightarrow> 'n state_context \<Rightarrow> 'n gaction \<Rightarrow> bool" where
  "can_apply A sc a \<longleftrightarrow> condition_true A sc (ga_condition a) \<and> (\<forall>e \<in> set (firing A sc a). defined_effect A sc e)"

text \<open>The total cost, which the firing effects increase, and the cost of the successor under the metric, or the length of the plan.\<close>

definition total_cost :: "'n arithmetic \<Rightarrow> 'n state_context \<Rightarrow> 'n gaction \<Rightarrow> 'n" where
  "total_cost A sc a = foldl (\<lambda>c x. ar_apply A Op_Add c (value_of A sc x)) (sc_auxiliary sc) (List.map_filter ge_auxiliary (firing A sc a))"

definition cost_after :: "'n arithmetic \<Rightarrow> 'n ground_task \<Rightarrow> 'n state_context \<Rightarrow> 'n gaction \<Rightarrow> 'n unpacked_state \<Rightarrow> 'n" where
  "cost_after A T sc a u = ar_canonicalize A (case ft_metric T of None \<Rightarrow> ar_apply A Op_Add (sc_auxiliary sc) (ar_one A)
     | Some e \<Rightarrow> value_of A (context_of A T u (total_cost A sc a)) e)"

definition atoms_derived :: "'n arithmetic \<Rightarrow> 'n ground_task \<Rightarrow> 'n unpacked_state \<Rightarrow> bool" where
  "atoms_derived A T u \<longleftrightarrow> (\<forall>a < ft_num_derived T. us_atoms u ! a \<longleftrightarrow>
     (\<exists>x \<in> set (ft_axioms T). gx_head (ft_axiom T x) = a \<and> condition_true A (context_of A T u (ar_zero A)) (gx_body (ft_axiom T x))))"

text \<open>The node after an action. A variable has the value that a firing effect adds last, or none if one deletes its value, or it keeps its value.\<close>

definition successor_node :: "'n arithmetic \<Rightarrow> 'n ground_task \<Rightarrow> 'n state_context \<Rightarrow> 'n gaction \<Rightarrow> 'n node \<Rightarrow> bool" where
  "successor_node A T sc a node \<longleftrightarrow> (let u = nd_state node; es = firing A sc a; old = us_facts (sc_state sc)
     in length (us_facts u) = length old
        \<and> (\<forall>x < length old. us_facts u ! x = updated_value (concat (map ge_delete es)) (concat (map ge_add es)) x (old ! x))
        \<and> (\<forall>t. us_get_numeric A t u = term_after A sc a t) \<and> atoms_derived A T u \<and> nd_metric node = cost_after A T sc a u)"

section \<open>The tasks without errors\<close>

text \<open>Operators with several arguments multiply, and the cost is not read.\<close>

fun products_only :: "'n gexpr \<Rightarrow> bool" where
  "products_only (GMinus e) = products_only e"
| "products_only (GBinary op lhs rhs) = (products_only lhs \<and> products_only rhs)"
| "products_only (GMulti op e es) = (op = Op_Mul \<and> products_only e \<and> list_all products_only es)"
| "products_only e = True"

fun without_cost :: "'n gexpr \<Rightarrow> bool" where
  "without_cost GAuxiliary = False"
| "without_cost (GMinus e) = without_cost e"
| "without_cost (GBinary op lhs rhs) = (without_cost lhs \<and> without_cost rhs)"
| "without_cost (GMulti op e es) = (without_cost e \<and> list_all without_cost es)"
| "without_cost e = True"

definition plain_expr :: "'n gexpr \<Rightarrow> bool" where
  "plain_expr e \<longleftrightarrow> products_only e \<and> without_cost e"

definition plain_condition :: "'n gcondition \<Rightarrow> bool" where
  "plain_condition c \<longleftrightarrow> (\<forall>op lhs rhs. GCompare op lhs rhs \<in> set (gc_numeric c) \<longrightarrow> plain_expr lhs \<and> plain_expr rhs)"

definition numeric_effects :: "'n conditional_effect list \<Rightarrow> 'n numeric_effect list" where
  "numeric_effects ces = concat (map (\<lambda>ce. ge_numeric (ce_effect ce)) ces)"

text \<open>No two effects of the action change the same function term.\<close>

definition plain_action :: "'n gaction \<Rightarrow> bool" where
  "plain_action a \<longleftrightarrow> plain_condition (ga_condition a) \<and> distinct (map ne_term (numeric_effects (ga_effects a)))
     \<and> (\<forall>ce \<in> set (ga_effects a). plain_condition (ce_condition ce) \<and> (\<forall>n \<in> set (ge_numeric (ce_effect ce)). plain_expr (ne_expr n))
          \<and> (\<forall>x. ge_auxiliary (ce_effect ce) = Some x \<longrightarrow> plain_expr x))"

text \<open>The metric is the total cost, or does not read it; without a metric no effect increases the total cost.\<close>

definition plain_metric :: "'n ground_task \<Rightarrow> bool" where
  "plain_metric T \<longleftrightarrow> (case ft_metric T of Some e \<Rightarrow> e = GAuxiliary \<or> plain_expr e
     | None \<Rightarrow> \<forall>a \<in> set (ft_actions T). \<forall>ce \<in> set (ga_effects (ft_action T a)). ge_auxiliary (ce_effect ce) = None)"

text \<open>Ground actions and axioms are those whose static conditions hold.\<close>

definition statics_hold :: "'n ground_task \<Rightarrow> 'n gcondition \<Rightarrow> bool" where
  "statics_hold T c \<longleftrightarrow> (\<forall>(a, p) \<in> set (gc_static c). task_test T a = p)"

definition plain_task :: "'n ground_task \<Rightarrow> bool" where
  "plain_task T \<longleftrightarrow> plain_metric T \<and> (\<forall>a \<in> set (ft_actions T). plain_action (ft_action T a) \<and> statics_hold T (ga_condition (ft_action T a)))
     \<and> (\<forall>x \<in> set (ft_axioms T). plain_condition (gx_body (ft_axiom T x)) \<and> statics_hold T (gx_body (ft_axiom T x)))"

section \<open>The evaluators agree with the semantics\<close>

lemma value_products: "products_only e \<Longrightarrow> gevaluate A sc e = value_of A sc e"
proof (induction e)
  case (GMulti op e es)
  then have es: "map (gevaluate A sc) es = map (value_of A sc) es" and e: "gevaluate A sc e = value_of A sc e" "op = Op_Mul"
    by (simp_all add: list_all_iff)
  show ?case unfolding gevaluate.simps value_of.simps es e foldl_conv_fold ..
qed simp_all

lemma value_without_cost: "without_cost e \<Longrightarrow> value_of A (sc\<lparr>sc_auxiliary := c\<rparr>) e = value_of A sc e"
proof (induction e)
  case (GMulti op e es)
  then have es: "map (value_of A (sc\<lparr>sc_auxiliary := c\<rparr>)) es = map (value_of A sc) es" and e: "value_of A (sc\<lparr>sc_auxiliary := c\<rparr>) e = value_of A sc e"
    by (simp_all add: list_all_iff)
  show ?case unfolding value_of.simps es e ..
qed simp_all

lemma plain_value: "plain_expr e \<Longrightarrow> gevaluate A (sc\<lparr>sc_auxiliary := c\<rparr>) e = value_of A sc e"
  by (simp add: plain_expr_def value_products value_without_cost)

lemma plain_constraints:
  assumes "plain_condition c"
  shows "list_all (gholds A (sc\<lparr>sc_auxiliary := v\<rparr>)) (gc_numeric c) \<longleftrightarrow> (\<forall>k \<in> set (gc_numeric c). constraint_true A sc k)"
proof -
  have "gholds A (sc\<lparr>sc_auxiliary := v\<rparr>) k \<longleftrightarrow> constraint_true A sc k" if "k \<in> set (gc_numeric c)" for k
    using assms that by (cases k) (simp add: plain_condition_def plain_value)
  then show ?thesis by (simp add: list_all_iff)
qed

lemma plain_condition_applicable:
  assumes "plain_condition c"
  shows "condition_applicable A (sc\<lparr>sc_auxiliary := v\<rparr>) c \<longleftrightarrow> condition_true A sc c"
    "dynamically_applicable A (sc\<lparr>sc_auxiliary := v\<rparr>) c \<and> (\<forall>(a, p) \<in> set (gc_static c). sc_static sc a = p) \<longleftrightarrow> condition_true A sc c"
  unfolding condition_applicable_def dynamically_applicable_def plain_constraints [OF assms] condition_true_def
  by (auto simp: list_all_iff static_holds_def fact_holds_def derived_holds_def us_get_fact_def us_test_def)

lemma changed_value_apply: "apply_effect A op v w = changed_value A op v w"
  by (cases op) (simp_all add: changed_value_def)

section \<open>The effects that fire\<close>

abbreviation with_cost :: "'n \<Rightarrow> 'n state_context \<Rightarrow> 'n state_context" where
  "with_cost c sc \<equiv> sc\<lparr>sc_auxiliary := c\<rparr>"

definition plain_effects :: "'n conditional_effect list \<Rightarrow> bool" where
  "plain_effects ces \<longleftrightarrow> (\<forall>ce \<in> set ces. plain_condition (ce_condition ce) \<and> (\<forall>n \<in> set (ge_numeric (ce_effect ce)). plain_expr (ne_expr n))
     \<and> (\<forall>x. ge_auxiliary (ce_effect ce) = Some x \<longrightarrow> plain_expr x))"

definition firing_effects :: "'n arithmetic \<Rightarrow> 'n state_context \<Rightarrow> 'n conditional_effect list \<Rightarrow> 'n geffect list" where
  "firing_effects A sc ces = map ce_effect (filter (\<lambda>ce. condition_true A sc (ce_condition ce)) ces)"

lemma fired_firing:
  assumes "plain_effects ces"
  shows "map snd (fired A (with_cost c sc) ces) = firing_effects A sc ces \<and> (\<forall>(sc', e) \<in> set (fired A (with_cost c sc) ces). \<exists>c'. sc' = with_cost c' sc)
    \<and> fired_auxiliary A (with_cost c sc) ces = foldl (\<lambda>c x. ar_apply A Op_Add c (value_of A sc x)) c (List.map_filter ge_auxiliary (firing_effects A sc ces))"
  using assms
proof (induction ces arbitrary: c)
  case (Cons ce ces)
  have p: "plain_condition (ce_condition ce)" "\<And>x. ge_auxiliary (ce_effect ce) = Some x \<Longrightarrow> plain_expr x" "plain_effects ces"
    using Cons.prems by (simp_all add: plain_effects_def)
  note IH = Cons.IH [OF p(3)]
  show ?case
  proof (cases "condition_true A sc (ce_condition ce)")
    case False
    then have f: "fired A (with_cost c sc) (ce # ces) = fired A (with_cost c sc) ces" by (simp add: plain_condition_applicable(1) [OF p(1)])
    then have "fired_auxiliary A (with_cost c sc) (ce # ces) = fired_auxiliary A (with_cost c sc) ces" by (simp only: fired_auxiliary_def)
    then show ?thesis using IH [of c] False f by (simp add: firing_effects_def)
  next
    case True
    define c' where "c' = (case ge_auxiliary (ce_effect ce) of None \<Rightarrow> c | Some x \<Rightarrow> ar_apply A Op_Add c (value_of A sc x))"
    have f: "fired A (with_cost c sc) (ce # ces) = (with_cost c sc, ce_effect ce) # fired A (with_cost c' sc) ces"
      using True by (simp add: plain_condition_applicable(1) [OF p(1)] c'_def evaluate_auxiliary_def plain_value [OF p(2)] split: option.split)
    have "(case ge_auxiliary (ce_effect ce) of None \<Rightarrow> c | Some a \<Rightarrow> evaluate_auxiliary A (with_cost c sc) a) = c'"
      by (simp add: c'_def evaluate_auxiliary_def plain_value [OF p(2)] split: option.split)
    then have "fired_auxiliary A (with_cost c sc) (ce # ces) = fired_auxiliary A (with_cost c' sc) ces" unfolding fired_auxiliary_def f by simp
    moreover have "firing_effects A sc (ce # ces) = ce_effect ce # firing_effects A sc ces" using True by (simp add: firing_effects_def)
    ultimately show ?thesis using IH [of c'] f by (auto simp: c'_def List.map_filter_simps split: option.splits)
  qed
qed (simp add: firing_effects_def fired_auxiliary_def List.map_filter_simps)

lemma fired_values_firing:
  assumes "plain_effects ces"
  shows "fired_values A sc ces = map (\<lambda>n. (ne_term n, changed_value A (ne_op n) (us_get_numeric A (ne_term n) (sc_state sc)) (value_of A sc (ne_expr n))))
    (concat (map ge_numeric (firing_effects A sc ces)))"
proof -
  let ?f = "\<lambda>n. (ne_term n, changed_value A (ne_op n) (us_get_numeric A (ne_term n) (sc_state sc)) (value_of A sc (ne_expr n)))"
  have F: "map snd (fired A sc ces) = firing_effects A sc ces" "\<And>sc' e. (sc', e) \<in> set (fired A sc ces) \<Longrightarrow> \<exists>c'. sc' = with_cost c' sc"
    using fired_firing [OF assms, of A "sc_auxiliary sc" sc] by auto
  have "map (\<lambda>n. (ne_term n, evaluate_effect A sc' n)) (ge_numeric e) = map ?f (ge_numeric e)" if e: "(sc', e) \<in> set (fired A sc ces)" for sc' e
  proof -
    obtain c' where "sc' = with_cost c' sc" using F(2) [OF e] by blast
    moreover have "\<forall>n \<in> set (ge_numeric e). plain_expr (ne_expr n)" using fired_effects [OF e] assms by (auto simp: plain_effects_def)
    ultimately show ?thesis by (simp add: evaluate_effect_def plain_value changed_value_apply)
  qed
  then have "fired_values A sc ces = concat (map (\<lambda>(sc', e). map ?f (ge_numeric e)) (fired A sc ces))"
    unfolding fired_values_def by (intro arg_cong [where f = concat] map_cong) auto
  also have "\<dots> = map ?f (concat (map ge_numeric (map snd (fired A sc ces))))" by (simp add: map_concat comp_def case_prod_unfold)
  finally show ?thesis unfolding F(1) .
qed

section \<open>Numeric values\<close>

lemma us_get_set_numeric: "us_get_numeric A t (us_set_numeric A s v u) = (if t = s then v else us_get_numeric A t u)"
  by (auto simp: us_get_numeric_def us_set_numeric_def vec_get_def vec_set_def vec_resize_def nth_append)

lemma us_get_numeric_fold:
  assumes "distinct (map fst vs)"
  shows "us_get_numeric A t (fold (\<lambda>(s, v). us_set_numeric A s v) vs u) = (case map_of vs t of Some v \<Rightarrow> v | None \<Rightarrow> us_get_numeric A t u)"
  using assms
proof (induction vs rule: rev_induct)
  case (snoc p vs)
  obtain s v where p: "p = (s, v)" by (cases p)
  then have "map_of vs s = None" using snoc.prems by (auto simp: map_of_eq_None_iff)
  then show ?case using snoc by (auto simp: p us_get_set_numeric map_add_def split: option.splits)
qed simp

lemma distinct_filter_key:
  assumes "distinct (map f ns)"
  shows "filter (\<lambda>n. f n = t) ns = (case map_of (map (\<lambda>n. (f n, n)) ns) t of Some n \<Rightarrow> [n] | None \<Rightarrow> [])"
  using assms
proof (induction ns)
  case (Cons n ns)
  show ?case
  proof (cases "f n = t")
    case True
    then have "t \<notin> f ` set ns" using Cons.prems by auto
    then have "filter (\<lambda>n. f n = t) ns = []" unfolding filter_empty_conv by blast
    then show ?thesis using True by simp
  qed (use Cons in simp)
qed simp

lemma map_of_keyed: "map_of (map (\<lambda>n. (f n, g n)) ns) t = map_option g (map_of (map (\<lambda>n. (f n, n)) ns) t)"
  by (induction ns) simp_all

lemma firing_distinct: "distinct (map ne_term (numeric_effects ces)) \<Longrightarrow> distinct (map ne_term (concat (map ge_numeric (firing_effects A sc ces))))"
proof (induction ces)
  case (Cons ce ces)
  have "set (concat (map ge_numeric (firing_effects A sc ces))) \<subseteq> set (numeric_effects ces)" by (auto simp: firing_effects_def numeric_effects_def)
  then show ?case using Cons by (auto simp: firing_effects_def numeric_effects_def)
qed (simp add: firing_effects_def)

lemma successor_numeric_terms:
  assumes "plain_action a" "us_numeric u = successor_numeric A sc a"
  shows "us_get_numeric A t u = term_after A sc a t"
proof -
  let ?ns = "concat (map ge_numeric (firing A sc a))"
  let ?g = "\<lambda>n. changed_value A (ne_op n) (us_get_numeric A (ne_term n) (sc_state sc)) (value_of A sc (ne_expr n))"
  have fe: "firing A sc a = firing_effects A sc (ga_effects a)" by (simp add: firing_def firing_effects_def)
  have plain: "plain_effects (ga_effects a)" "distinct (map ne_term (numeric_effects (ga_effects a)))"
    using assms(1) by (simp_all add: plain_action_def plain_effects_def)
  have vs: "fired_values A sc (ga_effects a) = map (\<lambda>n. (ne_term n, ?g n)) ?ns" unfolding fe by (rule fired_values_firing [OF plain(1)])
  have d: "distinct (map ne_term ?ns)" unfolding fe by (rule firing_distinct [OF plain(2)])
  have "us_get_numeric A t u = us_get_numeric A t (fold (\<lambda>(s, v). us_set_numeric A s v) (map (\<lambda>n. (ne_term n, ?g n)) ?ns) (sc_state sc))"
    using assms(2) unfolding successor_numeric_def vs by (simp add: us_get_numeric_def)
  also have "\<dots> = (case map_of (map (\<lambda>n. (ne_term n, ?g n)) ?ns) t of Some v \<Rightarrow> v | None \<Rightarrow> us_get_numeric A t (sc_state sc))"
    by (rule us_get_numeric_fold) (use d in \<open>simp add: comp_def\<close>)
  also have "map_of (map (\<lambda>n. (ne_term n, ?g n)) ?ns) t = map_option ?g (map_of (map (\<lambda>n. (ne_term n, n)) ?ns) t)" by (rule map_of_keyed)
  also have "(case map_option ?g (map_of (map (\<lambda>n. (ne_term n, n)) ?ns) t) of Some v \<Rightarrow> v | None \<Rightarrow> us_get_numeric A t (sc_state sc)) = term_after A sc a t"
  proof (cases "map_of (map (\<lambda>n. (ne_term n, n)) ?ns) t")
    case (Some n)
    then have "ne_term n = t" using map_of_SomeD [OF Some] by auto
    then show ?thesis using Some unfolding term_after_def distinct_filter_key [OF d] by simp
  qed (simp add: term_after_def distinct_filter_key [OF d])
  finally show ?thesis .
qed

section \<open>Applicable actions\<close>

text \<open>The families of the effects so far belong to terms that those effects change.\<close>

definition families_of :: "nat set \<Rightarrow> families \<Rightarrow> bool" where
  "families_of S fams \<longleftrightarrow> (\<forall>t < length fams. fams ! t \<noteq> Fam_None \<longrightarrow> t \<in> S)"

definition defined_change :: "'n arithmetic \<Rightarrow> 'n state_context \<Rightarrow> 'n numeric_effect \<Rightarrow> bool" where
  "defined_change A sc n \<longleftrightarrow> \<not> ar_isnan A (value_of A sc (ne_expr n)) \<and> (ne_op n \<noteq> Eff_Assign \<longrightarrow> \<not> ar_isnan A (us_get_numeric A (ne_term n) (sc_state sc)))"

lemma families_of_resize: "families_of S fams \<Longrightarrow> families_of S (vec_resize n Fam_None fams)"
  by (auto simp: families_of_def vec_resize_def nth_append)

lemma numeric_effect_defined:
  assumes "families_of S fams" "ne_term n \<notin> S" "plain_expr (ne_expr n)"
  shows "fst (numeric_effect_applicable A sc n fams) \<longleftrightarrow> defined_change A sc n"
    "families_of (insert (ne_term n) S) (snd (numeric_effect_applicable A sc n fams))"
proof -
  let ?fams = "vec_resize (ne_term n + 1) Fam_None fams"
  have f: "families_of S ?fams" by (rule families_of_resize [OF assms(1)])
  moreover have len: "ne_term n < length ?fams" by (simp add: vec_resize_def)
  ultimately have none: "?fams ! ne_term n = Fam_None" using assms(2) unfolding families_of_def by blast
  have v: "gevaluate A sc (ne_expr n) = value_of A sc (ne_expr n)" using plain_value [where A = A and sc = sc and c = "sc_auxiliary sc", OF assms(3)] by simp
  have c: "is_compatible_effect_family (family_of (ne_op n)) (?fams ! ne_term n)" unfolding none by (simp add: is_compatible_effect_family_def)
  show "fst (numeric_effect_applicable A sc n fams) \<longleftrightarrow> defined_change A sc n"
    using c v by (auto simp: numeric_effect_applicable_def Let_def defined_change_def)
  have "families_of (insert (ne_term n) S) (?fams[ne_term n := family_of (ne_op n)])" using f by (auto simp: families_of_def nth_list_update)
  then show "families_of (insert (ne_term n) S) (snd (numeric_effect_applicable A sc n fams))"
    using c by (auto simp: numeric_effect_applicable_def Let_def)
qed

lemma numeric_effects_defined:
  assumes "families_of S fams" "distinct (map ne_term ns)" "S \<inter> ne_term ` set ns = {}" "\<forall>n \<in> set ns. plain_expr (ne_expr n)"
  shows "(fst (all_of (numeric_effect_applicable A sc) ns fams) \<longleftrightarrow> (\<forall>n \<in> set ns. defined_change A sc n))
    \<and> (fst (all_of (numeric_effect_applicable A sc) ns fams) \<longrightarrow> families_of (S \<union> ne_term ` set ns) (snd (all_of (numeric_effect_applicable A sc) ns fams)))"
  using assms
proof (induction ns arbitrary: S fams)
  case (Cons n ns)
  obtain ok fams' where r: "numeric_effect_applicable A sc n fams = (ok, fams')" by force
  have n: "ok \<longleftrightarrow> defined_change A sc n" "families_of (insert (ne_term n) S) fams'"
    using numeric_effect_defined [of S fams n A sc] Cons.prems r by simp_all
  show ?case using Cons.IH [OF n(2)] Cons.prems n(1) by (auto simp: r)
qed simp

lemma effect_defined:
  assumes "families_of S fams" "distinct (map ne_term (ge_numeric e))" "S \<inter> ne_term ` set (ge_numeric e) = {}" "\<forall>n \<in> set (ge_numeric e). plain_expr (ne_expr n)"
    and "\<And>x. ge_auxiliary e = Some x \<Longrightarrow> plain_expr x"
  shows "(fst (effect_applicable A sc e fams) \<longleftrightarrow> defined_effect A sc e)
    \<and> (fst (effect_applicable A sc e fams) \<longrightarrow> families_of (S \<union> ne_term ` set (ge_numeric e)) (snd (effect_applicable A sc e fams)))"
proof -
  have v: "gevaluate A sc x = value_of A sc x" if "ge_auxiliary e = Some x" for x
    using plain_value [where A = A and sc = sc and c = "sc_auxiliary sc", OF assms(5) [OF that]] by simp
  show ?thesis
    using numeric_effects_defined [OF assms(1-4), of A sc] v
    by (auto simp: effect_applicable_def defined_effect_def defined_change_def case_prod_unfold Let_def split: option.splits)
qed

lemma effects_defined:
  assumes "families_of S fams" "distinct (map ne_term (numeric_effects ces))" "S \<inter> ne_term ` set (numeric_effects ces) = {}" "plain_effects ces"
  shows "fst (all_of (applicable_if_fires A sc) ces fams) \<longleftrightarrow> (\<forall>e \<in> set (firing_effects A sc ces). defined_effect A sc e)"
  using assms
proof (induction ces arbitrary: S fams)
  case (Cons ce ces)
  have p: "plain_condition (ce_condition ce)" "\<forall>n \<in> set (ge_numeric (ce_effect ce)). plain_expr (ne_expr n)"
    "\<And>x. ge_auxiliary (ce_effect ce) = Some x \<Longrightarrow> plain_expr x" "plain_effects ces"
    using Cons.prems(4) by (simp_all add: plain_effects_def)
  have d: "distinct (map ne_term (ge_numeric (ce_effect ce)))" "distinct (map ne_term (numeric_effects ces))"
    "ne_term ` set (ge_numeric (ce_effect ce)) \<inter> ne_term ` set (numeric_effects ces) = {}"
    using Cons.prems(2) by (simp_all add: numeric_effects_def)
  have s: "S \<inter> ne_term ` set (ge_numeric (ce_effect ce)) = {}" "S \<inter> ne_term ` set (numeric_effects ces) = {}"
    using Cons.prems(3) by (auto simp: numeric_effects_def)
  have c: "condition_applicable A sc (ce_condition ce) \<longleftrightarrow> condition_true A sc (ce_condition ce)"
    using plain_condition_applicable(1) [where A = A and sc = sc and v = "sc_auxiliary sc", OF p(1)] by simp
  show ?case
  proof (cases "condition_true A sc (ce_condition ce)")
    case False
    then show ?thesis using Cons.IH [OF Cons.prems(1) d(2) s(2) p(4)] c by (simp add: applicable_if_fires_def firing_effects_def)
  next
    case True
    note E = effect_defined [OF Cons.prems(1) d(1) s(1) p(2,3), of A sc]
    obtain ok fams' where r: "effect_applicable A sc (ce_effect ce) fams = (ok, fams')" by force
    have step: "fst (all_of (applicable_if_fires A sc) (ce # ces) fams) \<longleftrightarrow> ok \<and> fst (all_of (applicable_if_fires A sc) ces fams')"
      using True c r by (simp add: applicable_if_fires_def)
    have firing: "firing_effects A sc (ce # ces) = ce_effect ce # firing_effects A sc ces" using True by (simp add: firing_effects_def)
    show ?thesis
    proof (cases ok)
      case True
      then have "families_of (S \<union> ne_term ` set (ge_numeric (ce_effect ce))) fams'" using E r by simp
      from Cons.IH [OF this d(2) _ p(4)] s(2) d(3) True show ?thesis using E r unfolding step firing by (auto simp: Int_Un_distrib2)
    next
      case False
      then show ?thesis using E r unfolding step firing by simp
    qed
  qed
qed (simp add: firing_effects_def)

lemma plain_action_applicable:
  assumes "plain_action a" "\<forall>(b, p) \<in> set (gc_static (ga_condition a)). sc_static sc b = p"
  shows "dynamically_applicable A sc (ga_condition a) \<and> effects_applicable A sc (ga_effects a) \<longleftrightarrow> can_apply A sc a"
proof -
  have "plain_effects (ga_effects a)" "distinct (map ne_term (numeric_effects (ga_effects a)))"
    using assms(1) by (simp_all add: plain_action_def plain_effects_def)
  then have "effects_applicable A sc (ga_effects a) \<longleftrightarrow> (\<forall>e \<in> set (firing A sc a). defined_effect A sc e)"
    using effects_defined [of "{}" "[]"] unfolding effects_applicable_def firing_def firing_effects_def by (simp add: families_of_def)
  moreover have "dynamically_applicable A sc (ga_condition a) \<longleftrightarrow> condition_true A sc (ga_condition a)"
    using plain_condition_applicable(2) [where A = A and sc = sc and v = "sc_auxiliary sc" and c = "ga_condition a"] assms by (simp add: plain_action_def)
  ultimately show ?thesis by (simp add: can_apply_def)
qed

section \<open>Successors\<close>

lemma axioms_hold_derived:
  assumes "plain_task T"
  shows "axioms_hold A T u \<longleftrightarrow> atoms_derived A T u"
proof -
  let ?sc = "context_of A T u (ar_zero A)"
  have "dynamically_applicable A ?sc (gx_body (ft_axiom T x)) \<longleftrightarrow> condition_true A ?sc (gx_body (ft_axiom T x))" if "x \<in> set (ft_axioms T)" for x
    using plain_condition_applicable(2) [where A = A and sc = ?sc and v = "sc_auxiliary ?sc" and c = "gx_body (ft_axiom T x)"] assms that
    by (auto simp: plain_task_def statics_hold_def context_of_def)
  then show ?thesis unfolding axioms_hold_def atoms_derived_def us_test_def by blast
qed

lemma plain_cost:
  assumes "plain_task T" "a \<in> set (ft_actions T)"
  shows "successor_metric A T sc (ft_action T a) u = cost_after A T sc (ft_action T a) u"
proof -
  have "plain_effects (ga_effects (ft_action T a))" using assms by (simp add: plain_task_def plain_action_def plain_effects_def)
  from fired_firing [OF this, of A "sc_auxiliary sc" sc]
  have aux: "fired_auxiliary A sc (ga_effects (ft_action T a)) = total_cost A sc (ft_action T a)"
    by (simp add: total_cost_def firing_def firing_effects_def)
  show ?thesis
  proof (cases "ft_metric T")
    case None
    then have "List.map_filter ge_auxiliary (firing A sc (ft_action T a)) = []"
      using assms by (fastforce simp: plain_task_def plain_metric_def firing_def List.map_filter_def filter_empty_conv)
    then show ?thesis using None by (simp add: successor_metric_def cost_after_def aux Let_def total_cost_def)
  next
    case (Some e)
    then have "products_only e" using assms by (auto simp: plain_task_def plain_metric_def plain_expr_def)
    then show ?thesis using Some by (simp add: successor_metric_def cost_after_def aux Let_def value_products)
  qed
qed

lemma is_successor_node:
  assumes "plain_task T" "a \<in> set (ft_actions T)" "is_successor A same T rp sc (ft_action T a) node"
  shows "successor_node A T sc (ft_action T a) node"
proof -
  let ?a = "ft_action T a"
  have plain: "plain_action ?a" using assms(1,2) by (simp add: plain_task_def)
  have S: "us_facts (nd_state node) = successor_facts A sc ?a" "us_numeric (nd_state node) = successor_numeric A sc ?a" "axioms_hold A T (nd_state node)"
    "nd_metric node = successor_metric A T sc ?a (nd_state node)" using assms(3) by (simp_all add: is_successor_def Let_def)
  have "plain_effects (ga_effects ?a)" using plain by (simp add: plain_action_def plain_effects_def)
  from fired_firing [OF this, of A "sc_auxiliary sc" sc]
  have firing: "map snd (fired A sc (ga_effects ?a)) = firing A sc ?a" by (simp add: firing_def firing_effects_def)
  have "length (successor_facts A sc ?a) = length (us_facts (sc_state sc))" by (simp add: successor_facts_def Let_def)
  moreover have "successor_facts A sc ?a ! x = updated_value (concat (map ge_delete (firing A sc ?a))) (concat (map ge_add (firing A sc ?a))) x (us_facts (sc_state sc) ! x)"
    if "x < length (us_facts (sc_state sc))" for x using successor_facts_nth [OF that, of A ?a] unfolding firing .
  ultimately show ?thesis
    using S(1,3,4) successor_numeric_terms [OF plain S(2)] axioms_hold_derived [OF assms(1)] plain_cost [OF assms(1,2)]
    unfolding successor_node_def Let_def by simp
qed

text \<open>C14: A ground task in which operators with several arguments multiply, no two effects of an action change the same
  function term, conditions and effects do not read the total cost, the metric is the total cost or does not read it, and the ground
  actions and axioms are those whose static conditions hold. On every state of the task the successor generator returns. The
  labels of the successors are exactly the actions that can be applied: the condition holds in the state, and all values that the
  firing effects need are defined. Each successor is the one of the semantics: facts, values of all function terms, derived atoms, and the
  cost under the metric; and it is read back from the repository, where no earlier state changes.\<close>

theorem labeled_successors_correct:
  assumes "searchable B F" "\<And>occ. mset (hash_order occ) = mset occ" "create_ground_task B hash_order A F = Some (Inr T)" "plain_task T"
    and "repository_ok same T rp" "state_fits T (nd_state node)"
  shows "\<exists>nodes rp'. get_labeled_successor_nodes A same T pool node rp = Some (Inr (nodes, rp')) \<and> repository_ok same T rp' \<and> keeps_states T rp rp'
    \<and> mset (map fst nodes) = mset (filter (\<lambda>a. can_apply A (node_context A T node) (ft_action T a)) (ft_actions T))
    \<and> (\<forall>(a, n) \<in> set nodes. successor_node A T (node_context A T node) (ft_action T a) n \<and> state_fits T (nd_state n) \<and> stored A same T rp' (nd_state n))"
proof -
  let ?sc = "node_context A T node"
  obtain m where T: "T = fdr_task.extend F m" using searchable_created [OF assms(1-3)] by blast
  have task: "ft_action F = ft_action T" "ft_actions F = ft_actions T" by (simp_all add: T)
  obtain nodes rp' where n: "get_labeled_successor_nodes A same T pool node rp = Some (Inr (nodes, rp'))" "repository_ok same T rp'" "keeps_states T rp rp'"
    "mset (map fst nodes) = mset (filter (\<lambda>a. dynamically_applicable A ?sc (ga_condition (ft_action T a))
       \<and> effects_applicable A ?sc (ga_effects (ft_action T a))) (ft_actions T))"
    "\<forall>(a, n) \<in> set nodes. is_successor A same T rp' ?sc (ft_action T a) n"
    by (rule labeled_successors_spec [OF assms(1-3,5,6), of pool]) (rule that [unfolded task [symmetric]])
  have "filter (\<lambda>a. dynamically_applicable A ?sc (ga_condition (ft_action T a)) \<and> effects_applicable A ?sc (ga_effects (ft_action T a))) (ft_actions T)
      = filter (\<lambda>a. can_apply A ?sc (ft_action T a)) (ft_actions T)"
    using assms(4) by (intro filter_cong refl plain_action_applicable)
      (auto simp: plain_task_def statics_hold_def node_context_def context_of_def)
  then have labels: "mset (map fst nodes) = mset (filter (\<lambda>a. can_apply A ?sc (ft_action T a)) (ft_actions T))" using n(4) by simp
  have "successor_node A T ?sc (ft_action T a) s \<and> state_fits T (nd_state s) \<and> stored A same T rp' (nd_state s)" if s: "(a, s) \<in> set nodes" for a s
  proof -
    have "a \<in> set (map fst nodes)" using s by force
    then have "a \<in> set (ft_actions T)" using mset_eq_setD [OF labels] by auto
    moreover have "is_successor A same T rp' ?sc (ft_action T a) s" using n(5) s by blast
    ultimately show ?thesis using is_successor_node [OF assms(4)] by (auto simp: is_successor_def Let_def)
  qed
  then show ?thesis using n(1-3) labels by blast
qed

section \<open>Example\<close>

lemma search_task_plain:
  assumes "T = fdr_task.extend search_task m"
  shows "plain_task T"
proof -
  have task: "ft_action T a = search_action" "ft_actions T = [0]" "ft_axiom T = example_axiom" "ft_axioms T = [0, 1, 2, 3]" "ft_metric T = None" for a
    by (simp_all add: assms search_task_def fdr_task.defs)
  show ?thesis
    by (simp add: plain_task_def plain_metric_def task plain_action_def plain_condition_def numeric_effects_def statics_hold_def search_action_def
        increase_def plain_expr_def Let_def example_axiom_def)
qed

theorem labeled_successors_correct_witness:
  "\<exists>T n rp. create_ground_task upward_boost (\<lambda>occ. occ) example_arithmetic search_task = Some (Inr T)
    \<and> get_labeled_successor_nodes example_arithmetic (=) T (\<lambda>a. nd_state search_node) search_node (create_repository T) = Some (Inr ([(0, n)], rp))
    \<and> us_facts (nd_state n) = [2] \<and> us_get_numeric example_arithmetic 0 (nd_state n) = 8 \<and> nd_metric n = 5"
proof -
  obtain T m where T: "create_ground_task upward_boost (\<lambda>occ. occ) example_arithmetic search_task = Some (Inr T)" "T = fdr_task.extend search_task m"
    by (rule search_task_created)
  have task: "ft_variables T = [2]" "ft_num_derived T = 3" "ft_metric T = None" "ft_action T a = search_action" "ft_actions T = [0]" for a
    by (simp_all add: T(2) search_task_def fdr_task.defs)
  have "layout_fits [2] 3" using variable_bits_le [of 2] by (simp add: layout_fits_def)
  then have ok: "repository_ok (=) T (create_repository T)" using create_repository_ok(1) [OF _ equality_equivalence, of T] task by simp
  have fits: "state_fits T (nd_state search_node)" by (simp add: state_fits_def values_in_domain_def task search_node_def)
  let ?sc = "node_context example_arithmetic T search_node"
  have sc: "us_facts (sc_state (node_context A T search_node)) = [1]" "us_numeric (sc_state (node_context A T search_node)) = [5]"
    "sc_auxiliary (node_context A T search_node) = 4" for A
    by (simp_all add: node_context_def context_of_def search_node_def)
  have firing: "firing example_arithmetic ?sc search_action = [ce_effect (hd (ga_effects search_action))]"
    by (simp add: firing_def search_action_def Let_def condition_true_def)
  have can: "can_apply example_arithmetic ?sc search_action"
    unfolding can_apply_def firing
    by (simp add: search_action_def Let_def condition_true_def sc defined_effect_def increase_def us_get_numeric_def vec_get_def example_arithmetic_def)
  obtain nodes rp where n: "get_labeled_successor_nodes example_arithmetic (=) T (\<lambda>a. nd_state search_node) search_node (create_repository T) = Some (Inr (nodes, rp))"
    "mset (map fst nodes) = mset (filter (\<lambda>a. can_apply example_arithmetic ?sc (ft_action T a)) (ft_actions T))"
    "\<forall>(a, n) \<in> set nodes. successor_node example_arithmetic T ?sc (ft_action T a) n \<and> state_fits T (nd_state n) \<and> stored example_arithmetic (=) T rp (nd_state n)"
    using labeled_successors_correct [OF search_task_searchable refl T(1) search_task_plain [OF T(2)] ok fits, of "\<lambda>a. nd_state search_node"]
    by (elim exE conjE) (rule that)
  have "mset (map fst nodes) = {#0#}" using n(2) can by (simp add: task)
  then obtain n where nodes: "nodes = [(0, n)]" by (cases nodes) auto
  then have S: "successor_node example_arithmetic T ?sc search_action n" using n(3) by (simp add: task)
  have "us_facts (nd_state n) = [2]"
    using S by (simp add: successor_node_def Let_def sc firing length_Suc_conv) (auto simp: search_action_def Let_def updated_value_def)
  moreover have "us_get_numeric example_arithmetic 0 (nd_state n) = term_after example_arithmetic ?sc search_action 0"
    using S by (simp add: successor_node_def Let_def)
  then have "us_get_numeric example_arithmetic 0 (nd_state n) = 8"
    unfolding term_after_def firing by (simp add: search_action_def Let_def increase_def changed_value_def us_get_numeric_def vec_get_def sc example_arithmetic_def)
  moreover have "nd_metric n = 5" using S by (simp add: successor_node_def Let_def cost_after_def task sc example_arithmetic_def)
  ultimately show ?thesis using T(1) n(1) nodes by blast
qed

end
