(* ===== verification/Spec2Isabelle.thy ===== *)
theory Spec2Isabelle
  imports Segmented_Vector Array_Pools Bitset_Span Mutable_Structures Canonical_Heuristic Invariant_Matcher Mutex_Groups Invariant_Synthesis
    AStar_Eager GBFS_Lazy Program_Model Ground_Semantics
begin

text \<open>
  A verification library for Tyr, a lifted planner in C++. A PDDL task is parsed and translated (\<^verbatim>\<open>formalism/planning\<close>); the
  lifted successor generators, axiom evaluators and relaxed-plan heuristics compile it to datalog programs that are solved bottom
  up (\<^verbatim>\<open>formalism/datalog\<close>, \<^verbatim>\<open>datalog\<close>); search algorithms (\<^verbatim>\<open>planning/algorithms\<close>) explore the states with heuristics
  (\<^verbatim>\<open>planning/heuristics\<close>, \<^verbatim>\<open>planning/abstractions\<close>); containers for packed data are in \<^verbatim>\<open>common\<close>. Paths below are relative to
  \<^verbatim>\<open>src/include/tyr\<close> for headers and \<^verbatim>\<open>src/src\<close> for sources.

  \<^bold>\<open>Theories and code.\<close> Definitions have the names of the code; a loop of a function is a definition of its own.

  Containers. \<^theory_text>\<open>Prelude\<close>: exceptions, list and word facts. \<^theory_text>\<open>Bits\<close>: \<^verbatim>\<open>common/bit.hpp\<close>, packed integers of any width in an
  array of words; what is written is read back and nothing else changes. \<^theory_text>\<open>Bitset_Span\<close>: \<^verbatim>\<open>common/dynamic_bitset.hpp\<close>; every
  operator acts on each bit and leaves the padding of the last block unused. \<^theory_text>\<open>Segments\<close>, \<^theory_text>\<open>Segmented_Vector\<close>,
  \<^theory_text>\<open>Array_Pools\<close>: \<^verbatim>\<open>common/segmented_vector.hpp\<close>, \<^verbatim>\<open>common/bit_packed_array_pool.hpp\<close>, \<^verbatim>\<open>common/block_array_pool.hpp\<close>; each
  implements a list, and growth moves no element.

  Terms and matching. \<^theory_text>\<open>Substitution\<close>, \<^theory_text>\<open>Unification\<close>, \<^theory_text>\<open>Mutable_Structures\<close>: \<^verbatim>\<open>formalism/unification\<close> and
  \<^verbatim>\<open>formalism/planning/mutable\<close>; a match is the least substitution that makes two structures equal, application to a fixpoint
  returns, and composition composes.

  Invariants. \<^theory_text>\<open>Disjoint_Set\<close>, \<^theory_text>\<open>Constraints\<close>, \<^theory_text>\<open>Invariants\<close>, \<^theory_text>\<open>Invariant_Matching\<close>, \<^theory_text>\<open>Invariant_Proof\<close>,
  \<^theory_text>\<open>Invariant_Synthesis\<close>, \<^theory_text>\<open>Mutex_Groups\<close>, \<^theory_text>\<open>Invariant_Matcher\<close>: \<^verbatim>\<open>formalism/planning/invariants\<close>. The solvability
  test decides systems of equalities and inequalities, the proof test is what its conditions say, synthesis ends, mutex groups
  partition the atoms, and the index finds what a search through all bindings finds. One theorem shows an action for which the
  proof test accepts a candidate that the action violates.

  Search. \<^theory_text>\<open>Float_Values\<close>: \<^verbatim>\<open>common/config.hpp\<close>. \<^theory_text>\<open>Open_Lists\<close>, \<^theory_text>\<open>Search_Space\<close>, \<^theory_text>\<open>AStar_Eager\<close>, \<^theory_text>\<open>GBFS_Lazy\<close>:
  \<^verbatim>\<open>planning/algorithms\<close>. Both searches return for every input with finitely many states; a plan is a path to a goal, A* plans
  are cheapest, and every other status means what it says. \<^theory_text>\<open>Dynamic_Bitset\<close>, \<^theory_text>\<open>Bron_Kerbosch\<close>, \<^theory_text>\<open>Canonical_Heuristic\<close>:
  \<^verbatim>\<open>graphs/bron_kerbosch.cpp\<close>, \<^verbatim>\<open>planning/abstractions\<close> and the canonical pattern database heuristic, which is admissible and
  the best over sums of additive patterns. This theory joins them: A* with the canonical heuristic is optimal.

  Datalog. \<^theory_text>\<open>Assignment_Sets\<close>: \<^verbatim>\<open>datalog/assignment_sets.cpp\<close>; the sets answer whether some fact extends a partial assignment.
  \<^theory_text>\<open>Variable_Dependencies\<close>: \<^verbatim>\<open>formalism/datalog/variable_dependency_graph.cpp\<close>. \<^theory_text>\<open>Rule_Literals\<close>, \<^theory_text>\<open>Rule_Conditions\<close>: the
  index of literals and the tests on them in \<^verbatim>\<open>datalog/consistency_graph.cpp\<close>, the conditions derived from a body, the validity of
  a binding, applicability checks. \<^theory_text>\<open>Kpkc_Graph\<close>, \<^theory_text>\<open>Delta_Kpkc\<close>: \<^verbatim>\<open>datalog/delta_kpkc_graph.cpp\<close>, \<^verbatim>\<open>datalog/delta_kpkc.cpp\<close>; the
  enumeration returns each k-clique, or each new one, once. \<^theory_text>\<open>Consistency_Update\<close>, \<^theory_text>\<open>Consistency_Graph\<close>,
  \<^theory_text>\<open>Rule_Grounding\<close>: the consistency graph, its update between iterations and the bindings of its cliques. Over growing facts
  every binding that satisfies a body is found once; with the recheck of the conflicting part exactly those remain, provided
  every literal is settled, and one theorem shows a body with an unsettled literal for which the recheck is not enough.

  Bottom-up evaluation. \<^theory_text>\<open>Rule_Execution\<close>, \<^theory_text>\<open>Rule_Steps\<close>: one execution of a rule in \<^verbatim>\<open>datalog/bottom_up.cpp\<close> with
  \<^verbatim>\<open>datalog/policies/annotation.cpp\<close> and \<^verbatim>\<open>datalog/workspaces/rule.hpp\<close>; it emits the heads of exactly the bindings that have
  come to satisfy the body. \<^theory_text>\<open>Bottom_Up\<close>: the solver with \<^verbatim>\<open>datalog/workspaces/program.hpp\<close>, \<^verbatim>\<open>datalog/rule_scheduler.cpp\<close>,
  \<^verbatim>\<open>datalog/policies/termination.cpp\<close> and \<^verbatim>\<open>datalog/contexts/program.hpp\<close>. \<^theory_text>\<open>Bottom_Up_Merge\<close>, \<^theory_text>\<open>Bottom_Up_Strata\<close>: what
  a stratum derives at which cost, and the invariant of the loop, in which the next bucket holds the cheapest atoms that are not
  yet facts. \<^theory_text>\<open>Bottom_Up_Solve\<close>, \<^theory_text>\<open>Stratification\<close> (\<^verbatim>\<open>analysis/stratification.cpp\<close>, \<^verbatim>\<open>analysis/listeners.cpp\<close>): the solver
  returns, since a stratum derives finitely many atoms and each iteration adds one; a program is rejected exactly if it negates
  a predicate on a cycle. \<^theory_text>\<open>Program_Model\<close>: the meaning of a program without its strata, as the stable model of all its
  rules, of which there is one, and the costs of the cheapest derivations; the facts and annotations of the solver are these, and with
  a termination policy its answer about the goals, their cost and the witnesses of the facts are right. The theorems assume that heads
  have objects of the domains of their predicates, which the analysis of domains provides, that every literal is settled and that
  the interval tests decide the numeric constraints; without goals, or with annotations when there are goals. A rule has one worker, the rules of an iteration run one after the other on
  the same facts, and an infinite cost has no bucket.

  Ground tasks. \<^theory_text>\<open>Ground_States\<close>: unpacked states (\<^verbatim>\<open>planning/ground_task/state.cpp\<close>) and the evaluation of ground
  conditions, expressions and effects in them (\<^verbatim>\<open>planning/applicability.ipp\<close>), with lemmas that show two errors of it.
  \<^theory_text>\<open>Match_Tree\<close>: \<^verbatim>\<open>planning/ground_task/match_tree.cpp\<close>, the index of actions and axioms by their preconditions; it is built
  without an error and generates exactly the elements whose conditions hold. \<^theory_text>\<open>Ground_Axioms\<close>:
  \<^verbatim>\<open>planning/ground_task/axiom_stratification.cpp\<close>, the match trees of the strata and \<^verbatim>\<open>axiom_evaluator.cpp\<close>; a state is extended
  by the only stable model of the axioms, a fixed point in which an atom is true exactly if the body of one of its axioms holds.
  \<^theory_text>\<open>Raw_Arrays\<close>, \<^theory_text>\<open>State_Storage\<close>: \<^verbatim>\<open>common/raw_array_pool.hpp\<close>, \<^verbatim>\<open>common/raw_array_set.hpp\<close> and the storage of states in
  \<^verbatim>\<open>planning/ground_task/state_storage/hash_set\<close>; what is stored is read back, and equal values have equal indices, except for
  numeric vectors with a NaN, which are stored again each time. \<^theory_text>\<open>State_Repository\<close>: \<^verbatim>\<open>planning/ground_task.cpp\<close> and
  \<^verbatim>\<open>planning/ground_task/state_repository.cpp\<close>; a registered state is read back by its index, and a known state keeps its index.
  \<^theory_text>\<open>Ground_Successors\<close>: \<^verbatim>\<open>planning/action_executor.cpp\<close> for ground actions and
  \<^verbatim>\<open>planning/ground_task/successor_generator.cpp\<close>; the nodes of a search without undefined values
  have equal indices exactly if they are equal states. Lemmas show that an increase of a function term is lost when the same
  action increases it twice, and how the cost of a node can be counted again. \<^theory_text>\<open>Ground_Semantics\<close>: the semantics of ground tasks,
  in which every effect counts and operators are what they are; for the tasks without those errors the successors of a node
  are exactly those of its applicable actions.

  \<^bold>\<open>Conventions.\<close> Exceptions are values: \<open>Inl\<close> an exception, \<open>Inr\<close> a result. Loops that may not end are partial functions with
  values in \<^typ>\<open>'a option\<close>, where \<open>None\<close> is not returning; the theorems show that they return. Other loops are total recursive
  functions, so no fuel is used. Machine words are words in the containers; sizes and indices elsewhere are natural numbers, and
  spans of bit sets in the k-clique graphs are sets of positions. Blocks of stored states are 32 bit words. Finite doubles are rational numbers with exact arithmetic, next
  to infinity and NaN. The clock, the random order of successors and the choice among equal entries of a heap are functions of the
  number of the iteration. Repository views are what their accessors return; a ground atom is its predicate with its objects. The
  iteration order of hash sets is the order of a list that the theorems quantify over or do not depend on.

  \<^bold>\<open>Parameters.\<close> Boost's shortest paths (distances of a projection), Boost's strong components and topological sort, Boost's
  intervals (whether a numeric constraint can hold), the arithmetic on doubles in numeric constraints and
  states, the order in which hash maps are enumerated, successor generators,
  heuristics and goal tests of the search, and pruning strategies are arguments, with what the code relies on as hypotheses.

  \<^bold>\<open>Not modelled.\<close> The parser and its translation, the formatters, repositories with their canonicalization, merging and grounding
  (data plumbing around hash-consing), the compilation of tasks to programs, the analyses of domains, tree
  compression, repositories of lifted states, the lifted action executor and successor generators, relaxed-plan heuristics, the generation of projections, event handlers,
  statistics, Python bindings, executables and tests. Memory, threads and time are not part of any model.

  \<^bold>\<open>Plan.\<close> Next: the relaxed-plan heuristics on top of the datalog solver, and the lifted action executor.
\<close>

section \<open>Optimal planning with the canonical heuristic\<close>

text \<open>
  The problem that A* solves with a canonical heuristic: a state index stands for an FDR state, every step costs 1, and the
  heuristic value of a state is what the canonical heuristic returns.
\<close>

definition fval_of_enat :: "enat \<Rightarrow> fval" where
  "fval_of_enat v = (case v of enat n \<Rightarrow> Fin (of_nat n) | \<infinity> \<Rightarrow> Infinity)"

definition canonical_search :: "canonical_heuristic \<Rightarrow> (nat \<Rightarrow> fdr_state) \<Rightarrow> step_relation \<Rightarrow> (fdr_state \<Rightarrow> bool) \<Rightarrow> 'l edges \<Rightarrow> 'l search_problem \<Rightarrow> bool" where
  "canonical_search ch state step goal E P \<longleftrightarrow> additive E P \<and> unpruned P \<and> shuffles P
     \<and> (\<forall>s. \<forall>(l, t, c) \<in> set (E s). c = 1 \<and> (\<exists>a b. step (state s) a b (state t)))
     \<and> (\<forall>s. sp_dynamic_goal P s \<longrightarrow> goal (state s))
     \<and> (\<forall>s. sp_heuristic P s = (case canonical_evaluate ch (state s) of Inl _ \<Rightarrow> NaN | Inr v \<Rightarrow> fval_of_enat v))"

lemma unit_path_plan:
  assumes "canonical_search ch state step goal E P" "path_cost E s t d" "sp_dynamic_goal P t"
  shows "\<exists>n. d = of_nat n \<and> plan_length step goal (state s) n"
  using assms(2,3)
proof induction
  case (path_refl s)
  then have "goal (state s)" using assms(1) by (simp add: canonical_search_def)
  then show ?case by (intro exI [of _ 0]) (simp add: plan_length.intros)
next
  case (path_step l t c s u d)
  have "\<forall>(l, t, c) \<in> set (E s). c = 1 \<and> (\<exists>a b. step (state s) a b (state t))" using assms(1) by (simp add: canonical_search_def)
  then obtain a b where "c = 1" "step (state s) a b (state t)" using path_step.hyps(1) by fast
  moreover obtain n where "d = of_nat n" "plan_length step goal (state t) n" using path_step by auto
  ultimately show ?case using one_step [of step "state s" a b "state t" goal n] by (intro exI [of _ "Suc n"]) simp
qed

lemma canonical_search_admissible:
  assumes "dijkstra_feasible dijkstra" "\<forall>p \<in> set ps. abstracts step goal p" "length ps < fuel"
    and "canonical_create dijkstra fuel ps = Some (Inr ch)" "canonical_search ch state step goal E P"
  shows "admissible E P"
proof -
  have h: "sp_heuristic P s = (case canonical_evaluate ch (state s) of Inl _ \<Rightarrow> NaN | Inr v \<Rightarrow> fval_of_enat v)" for s
    using assms(5) by (simp add: canonical_search_def)
  have "\<exists>v. canonical_evaluate ch (state s) = Inr v" for s
    using canonical_evaluate_eq [OF assms(1-3), of "state s"] assms(4) by (metis Inr_inject option.inject)
  moreover have "v \<le> enat n" if "canonical_evaluate ch (state s) = Inr v" "plan_length step goal (state s) n" for s v n
    using canonical_value_le [OF assms(1-3) that(2)] that(1) assms(4) by fastforce
  ultimately have v: "\<exists>v. sp_heuristic P s = fval_of_enat v \<and> (\<forall>n. plan_length step goal (state s) n \<longrightarrow> v \<le> enat n)" for s
    unfolding h by (metis sum.simps(6))
  show ?thesis
    unfolding admissible_def
  proof (intro conjI allI impI)
    show "sp_heuristic P s \<noteq> NaN" "sp_heuristic P s = Fin x \<Longrightarrow> 0 \<le> x" for s x
      using v [of s] by (auto simp: fval_of_enat_def split: enat.splits)
  next
    fix s t d assume "path_cost E s t d" "sp_dynamic_goal P t"
    then obtain n where n: "d = of_nat n" "plan_length step goal (state s) n" using unit_path_plan [OF assms(5)] by blast
    then obtain x where "sp_heuristic P s = fval_of_enat x" "x \<le> enat n" using v [of s] by blast
    then show "\<exists>x. sp_heuristic P s = Fin x \<and> x \<le> d" using n(1) by (cases x) (simp_all add: fval_of_enat_def)
  qed
qed

text \<open>
  C5. A* with the canonical heuristic finds shortest plans: if the distance computation is feasible, every projection abstracts
  the state space, where only steps that change the abstract state need a transition, and finitely many states are reachable, then the heuristic is constructed and the search returns; a plan
  that it returns leads to a goal in the least number of steps, and without a plan there is no reachable goal or a resource
  limit was hit.
\<close>

theorem astar_canonical_optimal:
  assumes "dijkstra_feasible dijkstra" and "\<forall>p \<in> set ps. abstracts step goal p" and "length ps < fuel"
    and "canonical_create dijkstra fuel ps = Some (Inr ch)" and "canonical_search ch state step goal E P"
    and "finite (reachable E P)" and "\<forall>n. pick_ok entry_gt (pick n)"
  shows "\<exists>r. find_solution P pick = Some (Inr r) \<and> outcome E P r"
proof -
  have "astar_setting E P"
    using canonical_search_admissible [OF assms(1-5)] assms(5) by (simp add: astar_setting_def canonical_search_def)
  with find_solution_outcome assms(6,7) show ?thesis by blast
qed

text \<open>The state space of the witness of the canonical heuristic as a search problem: variable 0 and then variable 1 is set.\<close>

definition step_state :: "nat \<Rightarrow> fdr_state" where
  "step_state s = (if s = 0 then (\<lambda>_. 0) else if s = 1 then (\<lambda>_. 0)(0 := 1) else (\<lambda>_. 0)(0 := 1, 1 := 1))"

definition step_edges :: "unit edges" where
  "step_edges s = (if s = 0 then [((), 1, 1)] else if s = 1 then [((), 2, 1)] else [])"

definition step_problem :: "canonical_heuristic \<Rightarrow> unit search_problem" where
  "step_problem ch = \<lparr>sp_start_node = (0, Fin 0), sp_succs = (\<lambda>(s, m). map (\<lambda>(l, t, c). (l, t, fadd m (Fin c))) (step_edges s)),
     sp_heuristic = (\<lambda>s. case canonical_evaluate ch (step_state s) of Inl _ \<Rightarrow> NaN | Inr v \<Rightarrow> fval_of_enat v),
     sp_preferred = (\<lambda>s l. False), sp_static_goal = True, sp_dynamic_goal = (\<lambda>s. s = 2), sp_prune_state = (\<lambda>s. False),
     sp_prune_succ = (\<lambda>s t b. False), sp_max_num_states = 100, sp_out_of_time = (\<lambda>n. False), sp_shuffled = (\<lambda>n xs. xs), sp_boost = 0\<rparr>"

lemma step_problem_search: "canonical_search ch step_state example_step example_goal step_edges (step_problem ch)"
proof -
  have "example_step (step_state 0) 5 b (step_state 1)" "example_step (step_state 1) 6 b (step_state 2)" for b
    by (simp_all add: example_step_def step_state_def)
  then have "\<exists>a b. example_step (step_state s) a b (step_state t)" if "(l, t, c) \<in> set (step_edges s)" for s l t c
    using that unfolding step_edges_def by (auto split: if_splits)
  moreover have "c = 1" if "(l, t, c) \<in> set (step_edges s)" for s l t c using that by (auto simp: step_edges_def split: if_splits)
  moreover have "additive step_edges (step_problem ch)"
    using on_grid_of_nat [of 1] by (auto simp: additive_def step_problem_def step_edges_def split: if_splits)
  moreover have "unpruned (step_problem ch)" "shuffles (step_problem ch)" by (auto simp: unpruned_def shuffles_def step_problem_def)
  moreover have "\<forall>s. sp_dynamic_goal (step_problem ch) s \<longrightarrow> example_goal (step_state s)" by (simp add: step_problem_def step_state_def example_goal_def)
  moreover have "\<forall>s. sp_heuristic (step_problem ch) s = (case canonical_evaluate ch (step_state s) of Inl _ \<Rightarrow> NaN | Inr v \<Rightarrow> fval_of_enat v)"
    by (simp add: step_problem_def)
  ultimately show ?thesis unfolding canonical_search_def by blast
qed

lemma step_problem_finite: "finite (reachable step_edges (step_problem ch))"
proof -
  have "path_cost step_edges s t d \<Longrightarrow> s \<in> {0, 1, 2} \<Longrightarrow> t \<in> {0, 1, 2}" for s t d
    by (induction rule: path_cost.induct) (auto simp: step_edges_def split: if_splits)
  then have "reachable step_edges (step_problem ch) \<subseteq> {0, 1, 2}" by (auto simp: reachable_def step_problem_def)
  then show ?thesis by (rule finite_subset) simp
qed

theorem astar_canonical_optimal_witness:
  "\<exists>ch r. canonical_create least_weights 3 [example_projection 0, example_projection 1] = Some (Inr ch)
    \<and> find_solution (step_problem ch) (\<lambda>_. first_min entry_gt) = Some (Inr r) \<and> outcome step_edges (step_problem ch) r"
proof -
  have len: "length [example_projection 0, example_projection 1] < 3" by simp
  obtain ch where ch: "canonical_create least_weights 3 [example_projection 0, example_projection 1] = Some (Inr ch)"
    using canonical_evaluate_eq [OF least_weights_feasible example_abstract_all len] by metis
  have "\<forall>n. pick_ok entry_gt (first_min entry_gt)" using entry_gt_pick by simp
  from astar_canonical_optimal [OF least_weights_feasible example_abstract_all len ch step_problem_search step_problem_finite this] ch
  show ?thesis by blast
qed

end
